(* ===== verification/Prelude.thy ===== *)
theory Prelude
  imports Main "HOL-Library.Word" "HOL-Library.Monad_Syntax"
begin

unbundle bit_operations_syntax

text \<open>
  The prelude of the development: the fixed-width integer types the sources use, signed
  64-bit integers as a type of their own with the signed order and wrap-around arithmetic,
  the ordered map of the standard library, and the lemmas on lists and words every
  component shares.

  \<^item> \<open>std::uint8_t\<close> \dots \<open>std::uint64_t\<close> are \<open>u8\<close> \dots \<open>u64\<close>, words with the unsigned order;
  \<^item> \<open>std::int64_t\<close> is \<open>i64\<close>: the same 64 bits, compared by their two's-complement value.
    Addition, subtraction and multiplication wrap around, as the generated machine code does;
    where the C++ standard leaves the overflow undefined the theorems state that the operands
    stay in range;
  \<^item> \<open>std::map\<close> is an association list in strictly ascending key order.
\<close>

named_theorems i64_simps
  \<open>signed values of \<open>i64\<close> operations under a range condition\<close>

subsection \<open>Machine integers\<close>

type_synonym u8 = "8 word"
type_synonym u16 = "16 word"
type_synonym u32 = "32 word"
type_synonym u64 = "64 word"

datatype i64 = I64 (i64_bits: u64)

text \<open>The two's-complement value of a signed word.\<close>

definition ival :: "i64 \<Rightarrow> int" where
  "ival x = sint (i64_bits x)"

lemma ival_inject: "ival x = ival y \<longleftrightarrow> x = y"
  by (cases x; cases y) (auto simp: ival_def dest: signed_word_eqI)

lemma ival_range: "- (2 ^ 63) \<le> ival x" "ival x < 2 ^ 63"
  using sint_ge [of "i64_bits x"] sint_lt [of "i64_bits x"] by (simp_all add: ival_def)

instantiation i64 :: linorder
begin

definition less_eq_i64 :: "i64 \<Rightarrow> i64 \<Rightarrow> bool" where
  "less_eq_i64 x y \<longleftrightarrow> ival x \<le> ival y"

definition less_i64 :: "i64 \<Rightarrow> i64 \<Rightarrow> bool" where
  "less_i64 x y \<longleftrightarrow> ival x < ival y"

instance
  by standard (auto simp: less_eq_i64_def less_i64_def ival_inject)

end

instantiation i64 :: comm_ring_1
begin

definition zero_i64 :: i64 where "zero_i64 = I64 0"
definition one_i64 :: i64 where "one_i64 = I64 1"
definition plus_i64 :: "i64 \<Rightarrow> i64 \<Rightarrow> i64" where
  "plus_i64 x y = I64 (i64_bits x + i64_bits y)"
definition minus_i64 :: "i64 \<Rightarrow> i64 \<Rightarrow> i64" where
  "minus_i64 x y = I64 (i64_bits x - i64_bits y)"
definition uminus_i64 :: "i64 \<Rightarrow> i64" where
  "uminus_i64 x = I64 (- i64_bits x)"
definition times_i64 :: "i64 \<Rightarrow> i64 \<Rightarrow> i64" where
  "times_i64 x y = I64 (i64_bits x * i64_bits y)"

instance
  by standard
    (simp_all add: zero_i64_def one_i64_def plus_i64_def minus_i64_def uminus_i64_def
      times_i64_def algebra_simps)

end

lemmas i64_order_defs = less_eq_i64_def less_i64_def

lemma i64_bits_arith [simp]:
  "i64_bits (x + y) = i64_bits x + i64_bits y"
  "i64_bits (x - y) = i64_bits x - i64_bits y"
  "i64_bits (x * y) = i64_bits x * i64_bits y"
  "i64_bits (- x) = - i64_bits x"
  "i64_bits 0 = 0"
  "i64_bits 1 = 1"
  by (simp_all add: plus_i64_def minus_i64_def times_i64_def uminus_i64_def zero_i64_def one_i64_def)

lemma i64_bits_numeral [simp]: "i64_bits (numeral n) = numeral n"
proof -
  have "i64_bits (of_nat k) = of_nat k" for k by (induction k) simp_all
  from this [of "numeral n"] show ?thesis by simp
qed

lemma i64_bits_of_nat [simp]: "i64_bits (of_nat k) = of_nat k"
  by (induction k) simp_all

text \<open>The value of a result that stays in range is the integer result.\<close>

definition in_i64 :: "int \<Rightarrow> bool" where
  "in_i64 v \<longleftrightarrow> - (2 ^ 63) \<le> v \<and> v < 2 ^ 63"

lemma in_i64_ival [simp]: "in_i64 (ival x)"
  using ival_range [of x] by (simp add: in_i64_def)

lemma ival_word_of_int: "in_i64 v \<Longrightarrow> i64_bits x = word_of_int v \<Longrightarrow> ival x = v"
  by (simp add: ival_def in_i64_def sint_word_ariths signed_of_int signed_take_bit_int_eq_self)

lemma word_of_int_ival [simp]: "word_of_int (ival x) = i64_bits x"
  by (simp add: ival_def)

lemma ival_add [i64_simps]: "in_i64 (ival x + ival y) \<Longrightarrow> ival (x + y) = ival x + ival y"
  by (rule ival_word_of_int) simp_all

lemma ival_diff [i64_simps]: "in_i64 (ival x - ival y) \<Longrightarrow> ival (x - y) = ival x - ival y"
  by (rule ival_word_of_int) simp_all

lemma ival_mult [i64_simps]: "in_i64 (ival x * ival y) \<Longrightarrow> ival (x * y) = ival x * ival y"
  by (rule ival_word_of_int) simp_all

lemma ival_of_nat [i64_simps]: "in_i64 (int k) \<Longrightarrow> ival (of_nat k) = int k"
  by (rule ival_word_of_int) simp_all

lemma ival_0 [simp]: "ival 0 = 0" and ival_1 [simp]: "ival 1 = 1"
  by (simp_all add: ival_def)

lemma ival_I64_of: "unat q < 2 ^ 63 \<Longrightarrow> ival (I64 q) = int (unat q)"
proof (rule ival_word_of_int)
  assume "unat q < 2 ^ 63"
  then have "int (unat q) < 2 ^ 63" by (metis of_nat_less_numeral_power_cancel_iff)
  moreover have "- (2 ^ 63) \<le> int (unat q)" by (rule order_trans [of _ 0]) simp_all
  ultimately show "in_i64 (int (unat q))" unfolding in_i64_def by blast
qed simp

subsection \<open>Lists\<close>

text \<open>The first element of a list that fails a test, by position.\<close>

lemma takeWhile_first:
  assumes "x \<in> set xs" "\<not> P x"
  shows "length (takeWhile P xs) < length xs" (is ?lt)
    and "\<not> P (xs ! length (takeWhile P xs))"
    and "k < length (takeWhile P xs) \<Longrightarrow> P (xs ! k)"
proof -
  show lt: ?lt
    using assms by (metis length_takeWhile_le le_neq_implies_less takeWhile_eq_all_conv
        takeWhile_eq_take take_all_iff order_refl)
  show "\<not> P (xs ! length (takeWhile P xs))"
    using lt by (rule nth_length_takeWhile)
  show "k < length (takeWhile P xs) \<Longrightarrow> P (xs ! k)"
    by (metis nth_mem set_takeWhileD takeWhile_nth)
qed

subsection \<open>Vectors\<close>

text \<open>
  Element access of \<open>std::vector\<close> with \<open>operator[]\<close>. An index past the end is undefined
  behaviour; the model returns \<open>None\<close> there, so a computation that returns \<open>Some\<close> has made no
  such access.
\<close>

definition vget :: "'a list \<Rightarrow> nat \<Rightarrow> 'a option" where
  "vget xs i = (if i < length xs then Some (xs ! i) else None)"

definition vset :: "'a list \<Rightarrow> nat \<Rightarrow> 'a \<Rightarrow> 'a list option" where
  "vset xs i v = (if i < length xs then Some (xs[i := v]) else None)"

lemma vget_Some [simp]: "i < length xs \<Longrightarrow> vget xs i = Some (xs ! i)"
  by (simp add: vget_def)

lemma vset_Some [simp]: "i < length xs \<Longrightarrow> vset xs i v = Some (xs[i := v])"
  by (simp add: vset_def)

subsection \<open>Ordered maps\<close>

text \<open>
  \<open>std::map\<close>: the entries in strictly ascending key order. \<open>omap_put\<close> is an assignment through
  \<open>operator[]\<close>, \<open>omap_before\<close> the entry before \<open>lower_bound\<close> and \<open>omap_after\<close> the entry
  \<open>upper_bound\<close> points to.
\<close>

type_synonym ('k, 'v) omap = "('k \<times> 'v) list"

definition omap_sorted :: "('k::linorder, 'v) omap \<Rightarrow> bool" where
  "omap_sorted m \<longleftrightarrow> sorted_wrt (<) (map fst m)"

fun omap_put :: "'k::linorder \<Rightarrow> 'v \<Rightarrow> ('k, 'v) omap \<Rightarrow> ('k, 'v) omap" where
  "omap_put k v [] = [(k, v)]"
| "omap_put k v ((k', v') # m) =
     (if k < k' then (k, v) # (k', v') # m
      else if k = k' then (k, v) # m
      else (k', v') # omap_put k v m)"

definition omap_erase :: "'k \<Rightarrow> ('k, 'v) omap \<Rightarrow> ('k, 'v) omap" where
  "omap_erase k m = filter (\<lambda>e. fst e \<noteq> k) m"

definition omap_first :: "('k, 'v) omap \<Rightarrow> 'k option" where
  "omap_first m = (case m of [] \<Rightarrow> None | e # _ \<Rightarrow> Some (fst e))"

definition omap_last :: "('k, 'v) omap \<Rightarrow> 'k option" where
  "omap_last m = (if m = [] then None else Some (fst (last m)))"

definition omap_before :: "('k::linorder, 'v) omap \<Rightarrow> 'k \<Rightarrow> 'k option" where
  "omap_before m k = omap_last (takeWhile (\<lambda>e. fst e < k) m)"

definition omap_after :: "('k::linorder, 'v) omap \<Rightarrow> 'k \<Rightarrow> 'k option" where
  "omap_after m k = omap_first (dropWhile (\<lambda>e. fst e \<le> k) m)"

lemma omap_sorted_Nil [simp]: "omap_sorted []"
  by (simp add: omap_sorted_def)

lemma omap_sorted_Cons:
  "omap_sorted (e # m) \<longleftrightarrow> (\<forall>k \<in> fst ` set m. fst e < k) \<and> omap_sorted m"
  by (simp add: omap_sorted_def)

lemma omap_put_keys: "fst ` set (omap_put k v m) = insert k (fst ` set m)"
  by (induction m rule: omap_put.induct) (auto split: if_splits)

lemma omap_put_sorted: "omap_sorted m \<Longrightarrow> omap_sorted (omap_put k v m)"
  by (induction k v m rule: omap_put.induct) (auto simp: omap_sorted_Cons omap_put_keys)

lemma omap_put_map_of: "omap_sorted m \<Longrightarrow> map_of (omap_put k v m) = (map_of m)(k \<mapsto> v)"
proof (induction k v m rule: omap_put.induct)
  case (2 k v k' v' m)
  then show ?case by (auto simp: omap_sorted_Cons fun_eq_iff)
qed auto

lemma omap_erase_keys: "fst ` set (omap_erase k m) = fst ` set m - {k}"
  by (auto simp: omap_erase_def)

lemma omap_erase_sorted: "omap_sorted m \<Longrightarrow> omap_sorted (omap_erase k m)"
  by (induction m) (auto simp: omap_erase_def omap_sorted_Cons)

lemma omap_erase_map_of: "map_of (omap_erase k m) = (map_of m)(k := None)"
  by (induction m) (auto simp: omap_erase_def fun_eq_iff)

lemma omap_first_iff:
  "omap_sorted m \<Longrightarrow> omap_first m = Some k \<longleftrightarrow> k \<in> fst ` set m \<and> (\<forall>k' \<in> fst ` set m. k \<le> k')"
  by (cases m) (auto simp: omap_first_def omap_sorted_Cons dest: less_imp_le leD)

lemma omap_first_None: "omap_first m = None \<longleftrightarrow> m = []"
  by (simp add: omap_first_def split: list.split)

lemma omap_last_None: "omap_last m = None \<longleftrightarrow> m = []"
  by (simp add: omap_last_def)

lemma omap_last_iff:
  assumes "omap_sorted m"
  shows "omap_last m = Some k \<longleftrightarrow> k \<in> fst ` set m \<and> (\<forall>k' \<in> fst ` set m. k' \<le> k)"
  using assms
proof (induction m)
  case Nil
  then show ?case by (simp add: omap_last_def)
next
  case (Cons e m)
  show ?case
  proof (cases "m = []")
    case True
    then show ?thesis by (auto simp: omap_last_def)
  next
    case False
    then have eq: "omap_last (e # m) = omap_last m" by (simp add: omap_last_def)
    obtain e' where e': "e' \<in> set m" using False by (cases m) auto
    have lt: "fst e < fst x" if "x \<in> set m" for x
      using that Cons.prems by (simp add: omap_sorted_Cons)
    have "k = fst e \<Longrightarrow> \<not> (\<forall>k' \<in> fst ` set m. k' \<le> k)"
      using e' lt [OF e'] by (auto simp: not_le)
    moreover have "k \<in> fst ` set m \<Longrightarrow> fst e \<le> k"
      using lt by (auto intro: less_imp_le)
    ultimately show ?thesis
      unfolding eq using Cons by (auto simp: omap_sorted_Cons)
  qed
qed

lemma omap_takeWhile:
  "omap_sorted m \<Longrightarrow> takeWhile (\<lambda>e. fst e < k) m = filter (\<lambda>e. fst e < k) m"
proof (induction m)
  case (Cons e m)
  have "filter (\<lambda>e. fst e < k) m = []" if "\<not> fst e < k"
    using that Cons.prems by (force simp: omap_sorted_Cons filter_empty_conv)
  with Cons show ?case by (simp add: omap_sorted_Cons)
qed simp

lemma omap_dropWhile:
  "omap_sorted m \<Longrightarrow> dropWhile (\<lambda>e. fst e \<le> k) m = filter (\<lambda>e. k < fst e) m"
proof (induction m)
  case (Cons e m)
  have "filter (\<lambda>e. k < fst e) m = m" if "\<not> fst e \<le> k"
    using that Cons.prems by (force simp: omap_sorted_Cons filter_id_conv)
  with Cons show ?case by (auto simp: omap_sorted_Cons)
qed simp

lemma omap_sorted_filter: "omap_sorted m \<Longrightarrow> omap_sorted (filter P m)"
  by (induction m) (auto simp: omap_sorted_Cons)

text \<open>The neighbours of a key, as extreme elements of the keys below and above it.\<close>

lemma omap_before_iff:
  assumes "omap_sorted m"
  shows "omap_before m k = Some k' \<longleftrightarrow>
      k' \<in> fst ` set m \<and> k' < k \<and> (\<forall>j \<in> fst ` set m. j < k \<longrightarrow> j \<le> k')"
    and "omap_before m k = None \<longleftrightarrow> (\<forall>j \<in> fst ` set m. \<not> j < k)"
  using omap_last_iff [OF omap_sorted_filter [OF assms, of "\<lambda>e. fst e < k"], of k'] assms
  by (auto simp: omap_before_def omap_takeWhile omap_last_None filter_empty_conv)

lemma omap_after_iff:
  assumes "omap_sorted m"
  shows "omap_after m k = Some k' \<longleftrightarrow>
      k' \<in> fst ` set m \<and> k < k' \<and> (\<forall>j \<in> fst ` set m. k < j \<longrightarrow> k' \<le> j)"
    and "omap_after m k = None \<longleftrightarrow> (\<forall>j \<in> fst ` set m. \<not> k < j)"
  using omap_first_iff [OF omap_sorted_filter [OF assms, of "\<lambda>e. k < fst e"], of k'] assms
  by (auto simp: omap_after_def omap_dropWhile omap_first_None filter_empty_conv)

end
