(* ===== verification/Exchange_Core.thy ===== *)
theory Exchange_Core
  imports Prelude
begin

text \<open>
  The exchange's vocabulary (\<open>common/types.hpp\<close>, \<open>exchange/core/\<close>,
  \<open>exchange/matching/resting_order.hpp\<close>): scalar types, the three commands, the eight events
  and the two forms of a resting order. Structs are records whose fields carry a short prefix,
  \<open>std::variant\<close>s are datatypes with one constructor per alternative, and an event sink is the
  list of the events passed to it, in order.
\<close>

subsection \<open>Scalar types\<close>

type_synonym Sequence = u64
type_synonym Timestamp = u64
type_synonym OrderId = u64
type_synonym InstrumentId = u32
type_synonym Price = i64
type_synonym Quantity = u64

datatype Side = Buy | Sell

type_synonym AccountId = u64
type_synonym ClientOrderId = u64
type_synonym ExchangeOrderId = u64
type_synonym CommandSequence = u64
type_synonym EventSequence = u64

datatype OrderType = Limit

datatype TimeInForce = GTC | IOC | FOK

datatype RejectReason =
    NoReason
  | InvalidPrice
  | InvalidQuantity
  | DuplicateOrderId
  | UnknownOrderId
  | InvalidInstrument
  | InsufficientLiquidity
  | InvalidReplacement
  | InternalError
  | InsufficientFunds
  | InsufficientPosition
  | OrderTooLarge
  | AccountMismatch

text \<open>The numeric values of the enumerations, used on the wire and in the journal.\<close>

fun side_code :: "Side \<Rightarrow> u8" where
  "side_code Buy = 0"
| "side_code Sell = 1"

fun order_type_code :: "OrderType \<Rightarrow> u8" where
  "order_type_code Limit = 0"

fun tif_code :: "TimeInForce \<Rightarrow> u8" where
  "tif_code GTC = 0"
| "tif_code IOC = 1"
| "tif_code FOK = 2"

text \<open>The side an incoming order trades against.\<close>

fun contra :: "Side \<Rightarrow> Side" where
  "contra Buy = Sell"
| "contra Sell = Buy"

lemma contra_contra [simp]: "contra (contra s) = s"
  by (cases s) simp_all

lemma contra_neq [simp]: "contra s \<noteq> s" "s \<noteq> contra s"
  by (cases s; simp)+

lemma contra_inject [simp]: "contra s = contra t \<longleftrightarrow> s = t"
  by (cases s; cases t) simp_all

lemma side_cases_contra: "t = s \<or> t = contra s"
  by (cases s; cases t) simp_all

subsection \<open>Commands\<close>

record NewOrderCommand =
  nc_command_sequence :: CommandSequence
  nc_account_id :: AccountId
  nc_client_order_id :: ClientOrderId
  nc_instrument_id :: InstrumentId
  nc_side :: Side
  nc_price :: Price
  nc_quantity :: Quantity
  nc_order_type :: OrderType
  nc_time_in_force :: TimeInForce

record CancelOrderCommand =
  cc_command_sequence :: CommandSequence
  cc_account_id :: AccountId
  cc_client_order_id :: ClientOrderId
  cc_instrument_id :: InstrumentId

record ReplaceOrderCommand =
  rc_command_sequence :: CommandSequence
  rc_account_id :: AccountId
  rc_original_client_order_id :: ClientOrderId
  rc_new_client_order_id :: ClientOrderId
  rc_instrument_id :: InstrumentId
  rc_new_price :: Price
  rc_new_quantity :: Quantity

datatype ExchangeCommand =
    NewOrder NewOrderCommand
  | CancelOrder CancelOrderCommand
  | ReplaceOrder ReplaceOrderCommand

subsection \<open>Events\<close>

record OrderAcceptedEvent =
  oa_event_sequence :: EventSequence
  oa_command_sequence :: CommandSequence
  oa_account_id :: AccountId
  oa_client_order_id :: ClientOrderId
  oa_exchange_order_id :: ExchangeOrderId
  oa_instrument_id :: InstrumentId
  oa_side :: Side
  oa_price :: Price
  oa_quantity :: Quantity
  oa_order_type :: OrderType
  oa_time_in_force :: TimeInForce

record OrderRejectedEvent =
  rj_event_sequence :: EventSequence
  rj_command_sequence :: CommandSequence
  rj_account_id :: AccountId
  rj_client_order_id :: ClientOrderId
  rj_instrument_id :: InstrumentId
  rj_reason :: RejectReason

record OrderCancelledEvent =
  oc_event_sequence :: EventSequence
  oc_command_sequence :: CommandSequence
  oc_account_id :: AccountId
  oc_client_order_id :: ClientOrderId
  oc_exchange_order_id :: ExchangeOrderId
  oc_instrument_id :: InstrumentId

record OrderReplacedEvent =
  rp_event_sequence :: EventSequence
  rp_command_sequence :: CommandSequence
  rp_account_id :: AccountId
  rp_original_client_order_id :: ClientOrderId
  rp_new_client_order_id :: ClientOrderId
  rp_exchange_order_id :: ExchangeOrderId
  rp_instrument_id :: InstrumentId
  rp_new_price :: Price
  rp_new_quantity :: Quantity

record TradeCounterparty =
  tc_account_id :: AccountId
  tc_client_order_id :: ClientOrderId
  tc_exchange_order_id :: ExchangeOrderId
  tc_remaining_quantity :: Quantity

record TradeExecutedEvent =
  te_event_sequence :: EventSequence
  te_command_sequence :: CommandSequence
  te_instrument_id :: InstrumentId
  te_price :: Price
  te_quantity :: Quantity
  te_aggressor_side :: Side
  te_buyer :: TradeCounterparty
  te_seller :: TradeCounterparty

record BookOrderAddedEvent =
  ba_event_sequence :: EventSequence
  ba_instrument_id :: InstrumentId
  ba_exchange_order_id :: ExchangeOrderId
  ba_side :: Side
  ba_price :: Price
  ba_quantity :: Quantity

record BookOrderReducedEvent =
  bd_event_sequence :: EventSequence
  bd_instrument_id :: InstrumentId
  bd_exchange_order_id :: ExchangeOrderId
  bd_side :: Side
  bd_price :: Price
  bd_new_remaining_quantity :: Quantity

record BookOrderRemovedEvent =
  bm_event_sequence :: EventSequence
  bm_instrument_id :: InstrumentId
  bm_exchange_order_id :: ExchangeOrderId
  bm_side :: Side
  bm_price :: Price

datatype ExchangeEvent =
    OrderAccepted OrderAcceptedEvent
  | OrderRejected OrderRejectedEvent
  | OrderCancelled OrderCancelledEvent
  | OrderReplaced OrderReplacedEvent
  | TradeExecuted TradeExecutedEvent
  | BookOrderAdded BookOrderAddedEvent
  | BookOrderReduced BookOrderReducedEvent
  | BookOrderRemoved BookOrderRemovedEvent

text \<open>The sequence number every event carries.\<close>

fun event_sequence :: "ExchangeEvent \<Rightarrow> EventSequence" where
  "event_sequence (OrderAccepted e) = oa_event_sequence e"
| "event_sequence (OrderRejected e) = rj_event_sequence e"
| "event_sequence (OrderCancelled e) = oc_event_sequence e"
| "event_sequence (OrderReplaced e) = rp_event_sequence e"
| "event_sequence (TradeExecuted e) = te_event_sequence e"
| "event_sequence (BookOrderAdded e) = ba_event_sequence e"
| "event_sequence (BookOrderReduced e) = bd_event_sequence e"
| "event_sequence (BookOrderRemoved e) = bm_event_sequence e"

subsection \<open>Resting orders\<close>

text \<open>The complete form of an order, and what of it the book keeps while it rests.\<close>

record ExchangeRestingOrder =
  er_exchange_order_id :: ExchangeOrderId
  er_client_order_id :: ClientOrderId
  er_account_id :: AccountId
  er_price :: Price
  er_original_quantity :: Quantity
  er_remaining_quantity :: Quantity
  er_order_sequence :: u64
  er_instrument_id :: InstrumentId
  er_side :: Side
  er_time_in_force :: TimeInForce

record BookOrder =
  bo_exchange_order_id :: ExchangeOrderId
  bo_client_order_id :: ClientOrderId
  bo_account_id :: AccountId
  bo_price :: Price
  bo_remaining_quantity :: Quantity
  bo_side :: Side
  bo_time_in_force :: TimeInForce

end
