(* ===== verification/Occupancy_Bitmap.thy ===== *)
theory Occupancy_Bitmap
  imports Prelude
begin

text \<open>
  The bit tricks behind the tick ladder of \<open>exchange/matching/matching_book.cpp\<close>: the highest
  and lowest set bit of a word, the masks strictly below and above a bit, and a bitmap of
  64-bit words whose non-empty words are themselves the bits of a smaller bitmap. The lemmas
  relate each operation to the set of bits it stands for, so that the components that use the
  bitmap reason about sets of numbers.
\<close>

named_theorems bitmap_simps
  \<open>set-level characterisations of the word operations\<close>

subsection \<open>Bit operations of the source\<close>

text \<open>\<open>std::countl_zero\<close> and \<open>std::countr_zero\<close> on 64-bit words.\<close>

definition countl_zero :: "u64 \<Rightarrow> nat" where
  "countl_zero w = length (takeWhile (\<lambda>i. \<not> bit w i) (rev [0..<64]))"

definition countr_zero :: "u64 \<Rightarrow> nat" where
  "countr_zero w = length (takeWhile (\<lambda>i. \<not> bit w i) [0..<64])"

definition highest_bit :: "u64 \<Rightarrow> nat" where
  "highest_bit w = 63 - countl_zero w"

definition lowest_bit :: "u64 \<Rightarrow> nat" where
  "lowest_bit w = countr_zero w"

definition mask_below :: "nat \<Rightarrow> u64" where
  "mask_below b = (if b = 0 then 0 else drop_bit (64 - b) (NOT 0))"

definition mask_above :: "nat \<Rightarrow> u64" where
  "mask_above b = (if b \<ge> 63 then 0 else push_bit (b + 1) (NOT 0))"

text \<open>\<open>(high << 6) | low\<close> and the word and bit an index falls in.\<close>

definition join6 :: "nat \<Rightarrow> nat \<Rightarrow> nat" where
  "join6 high low = push_bit 6 high OR low"

definition word_of :: "nat \<Rightarrow> nat" where
  "word_of t = drop_bit 6 t"

definition bit_of :: "nat \<Rightarrow> nat" where
  "bit_of t = t AND 63"

definition one_bit :: "nat \<Rightarrow> u64" where
  "one_bit b = push_bit b 1"

subsection \<open>Greatest and least elements of a set of indices\<close>

definition is_greatest :: "nat set \<Rightarrow> nat \<Rightarrow> bool" where
  "is_greatest S x \<longleftrightarrow> x \<in> S \<and> (\<forall>y\<in>S. y \<le> x)"

definition is_least :: "nat set \<Rightarrow> nat \<Rightarrow> bool" where
  "is_least S x \<longleftrightarrow> x \<in> S \<and> (\<forall>y\<in>S. x \<le> y)"

lemma word_of_eq [bitmap_simps]: "word_of t = t div 64"
  by (simp add: word_of_def drop_bit_eq_div)

lemma bit_of_eq [bitmap_simps]: "bit_of t = t mod 64"
  using take_bit_eq_mask [of 6 t] by (simp add: bit_of_def mask_eq_exp_minus_1 take_bit_eq_mod)

lemma join6_eq [bitmap_simps]: "low < 64 \<Longrightarrow> join6 high low = high * 64 + low"
proof -
  assume low: "low < 64"
  have "take_bit 6 low = low" using low by (simp add: take_bit_nat_eq_self_iff)
  then have "bit low n \<Longrightarrow> n < 6" for n by (metis bit_take_bit_iff)
  then have "push_bit 6 high AND low = 0"
    by (intro bit_eqI) (force simp: bit_and_iff bit_push_bit_iff)
  then have "push_bit 6 high + low = push_bit 6 high OR low"
    by (simp add: disjunctive_add_eq_or)
  then show ?thesis
    by (simp add: join6_def push_bit_eq_mult)
qed

lemma bit_one_bit: "bit (one_bit b) i \<longleftrightarrow> i = b \<and> b < 64"
  by (auto simp: one_bit_def bit_simps)

lemma bit_u64_lt: "bit (w :: u64) i \<Longrightarrow> i < 64"
  using bit_imp_le_length by fastforce

lemma u64_zero_iff: "(w :: u64) = 0 \<longleftrightarrow> (\<forall>i<64. \<not> bit w i)"
  by (metis bit_0_eq bit_eqI bit_u64_lt bot_apply bot_bool_def)

lemma bit_mask_below: "b \<le> 64 \<Longrightarrow> bit (mask_below b) i \<longleftrightarrow> i < b"
  by (auto simp: mask_below_def bit_simps)

lemma bit_mask_above: "bit (mask_above b) i \<longleftrightarrow> b < i \<and> i < 64"
  by (auto simp: mask_above_def bit_simps)

lemma highest_bit_greatest:
  assumes "w \<noteq> 0"
  shows "is_greatest {i. bit w i} (highest_bit w)"
proof -
  let ?n = "length (takeWhile (\<lambda>i. \<not> bit w i) (rev [0..<64]))"
  from assms obtain j where j: "j \<in> set (rev [0..<64])" "\<not> \<not> bit w j"
    by (auto simp: u64_zero_iff)
  note first = takeWhile_first [where P = "\<lambda>i. \<not> bit w i", OF j]
  have nth: "rev [0..<64] ! k = 63 - k" if "k < 64" for k
    using that by (simp add: rev_nth)
  have "bit w (63 - ?n)" using first(1,2) nth [of ?n] by simp
  moreover have "i \<le> 63 - ?n" if i: "bit w i" for i
  proof (rule ccontr)
    assume "\<not> i \<le> 63 - ?n"
    with bit_u64_lt [OF i] have "63 - i < ?n" by linarith
    from first(3) [OF this] nth [of "63 - i"] bit_u64_lt [OF i] i show False by simp
  qed
  ultimately show ?thesis
    by (simp add: is_greatest_def highest_bit_def countl_zero_def)
qed

lemma lowest_bit_least:
  assumes "w \<noteq> 0"
  shows "is_least {i. bit w i} (lowest_bit w)"
proof -
  let ?n = "length (takeWhile (\<lambda>i. \<not> bit w i) [0..<64])"
  from assms obtain j where j: "j \<in> set [0..<64]" "\<not> \<not> bit w j"
    by (auto simp: u64_zero_iff)
  note first = takeWhile_first [where P = "\<lambda>i. \<not> bit w i", OF j]
  have "bit w ?n" using first(1,2) by simp
  moreover have "?n \<le> i" if i: "bit w i" for i
  proof (rule ccontr)
    assume "\<not> ?n \<le> i"
    then have "i < ?n" by simp
    from first(3) [OF this] first(1) this i show False by simp
  qed
  ultimately show ?thesis
    by (simp add: is_least_def lowest_bit_def countr_zero_def)
qed

subsection \<open>Bitmaps of words\<close>

text \<open>The indices whose bit is set in a vector of words, and the words that are not zero.\<close>

definition word_bits :: "u64 list \<Rightarrow> nat set" where
  "word_bits ws = {t. t div 64 < length ws \<and> bit (ws ! (t div 64)) (t mod 64)}"

definition nonzero_words :: "u64 list \<Rightarrow> nat set" where
  "nonzero_words ws = {w. w < length ws \<and> ws ! w \<noteq> 0}"

lemma word_bitsI: "w < length ws \<Longrightarrow> bit (ws ! w) b \<Longrightarrow> w * 64 + b \<in> word_bits ws"
  using bit_u64_lt by (fastforce simp: word_bits_def)

lemma word_bitsE:
  assumes "t \<in> word_bits ws"
  obtains "t div 64 \<in> nonzero_words ws" "bit (ws ! (t div 64)) (t mod 64)" "t = t div 64 * 64 + t mod 64"
  using assms by (metis (mono_tags, lifting) bit_0_eq bot_apply bot_bool_def div_mult_mod_eq
      mem_Collect_eq nonzero_words_def word_bits_def)

lemma nonzero_words_iff: "w \<in> nonzero_words ws \<longleftrightarrow> w < length ws \<and> (\<exists>b. bit (ws ! w) b)"
  using bit_u64_lt by (auto simp: nonzero_words_def u64_zero_iff)

lemma word_bits_empty_iff: "word_bits ws = {} \<longleftrightarrow> nonzero_words ws = {}"
  by (metis all_not_in_conv nonzero_words_iff word_bitsE word_bitsI)

lemma word_bits_lt: "t \<in> word_bits ws \<Longrightarrow> t < length ws * 64"
  by (auto simp: word_bits_def div_less_iff_less_mult)

text \<open>Setting and clearing one bit.\<close>

lemma word_bits_set:
  assumes "t div 64 < length ws"
  shows "word_bits (ws[t div 64 := ws ! (t div 64) OR one_bit (t mod 64)]) = insert t (word_bits ws)"
    (is "word_bits ?ws = _")
proof -
  have "x \<in> word_bits ?ws \<longleftrightarrow> x = t \<or> x \<in> word_bits ws" for x
  proof (cases "x div 64 = t div 64")
    case True
    then have "x mod 64 = t mod 64 \<longleftrightarrow> x = t" by (metis div_mult_mod_eq)
    with True assms show ?thesis by (auto simp: word_bits_def bit_or_iff bit_one_bit)
  qed (auto simp: word_bits_def)
  then show ?thesis by blast
qed

lemma word_bits_clear:
  assumes "t div 64 < length ws"
  shows "word_bits (ws[t div 64 := ws ! (t div 64) AND NOT (one_bit (t mod 64))]) = word_bits ws - {t}"
    (is "word_bits ?ws = _")
proof -
  have "x \<in> word_bits ?ws \<longleftrightarrow> x \<noteq> t \<and> x \<in> word_bits ws" for x
  proof (cases "x div 64 = t div 64")
    case True
    then have "x mod 64 = t mod 64 \<longleftrightarrow> x = t" by (metis div_mult_mod_eq)
    with True assms show ?thesis by (auto simp: word_bits_def bit_simps bit_one_bit)
  qed (auto simp: word_bits_def)
  then show ?thesis by blast
qed

lemma nonzero_words_update:
  "w < length ws \<Longrightarrow>
    nonzero_words (ws[w := v]) = (if v = 0 then nonzero_words ws - {w} else insert w (nonzero_words ws))"
  by (auto simp: nonzero_words_def nth_list_update)

lemma nonzero_words_shrink:
  "w < length ws \<Longrightarrow> (v \<noteq> 0 \<Longrightarrow> ws ! w \<noteq> 0) \<Longrightarrow>
    nonzero_words (ws[w := v]) = (if v = 0 then nonzero_words ws - {w} else nonzero_words ws)"
  by (auto simp: nonzero_words_def nth_list_update)

lemma one_bit_or_neq_0: "b < 64 \<Longrightarrow> w OR one_bit b \<noteq> 0"
  by (metis bit_one_bit bit_or_iff u64_zero_iff)

lemma word_bits_replicate_0: "word_bits (replicate n 0) = {}"
  by (auto simp: word_bits_def)

lemma nonzero_words_replicate_0: "nonzero_words (replicate n 0) = {}"
  by (auto simp: nonzero_words_def)

text \<open>The extreme elements of a bitmap, and those strictly beyond an index, word by word.\<close>

lemma block_less: "x div 64 < w \<Longrightarrow> x < w * 64" "w < x div 64 \<Longrightarrow> w * 64 + 64 \<le> (x :: nat)"
  by (auto simp: div_less_iff_less_mult less_eq_div_iff_mult_less_eq Suc_le_eq [symmetric])

lemma word_bits_greatest:
  assumes "is_greatest {v \<in> nonzero_words ws. P v} w"
  shows "is_greatest {t \<in> word_bits ws. P (t div 64)} (w * 64 + highest_bit (ws ! w))"
proof -
  let ?h = "highest_bit (ws ! w)"
  from assms have w: "w < length ws" "ws ! w \<noteq> 0" "P w"
    and max: "\<And>v. v \<in> nonzero_words ws \<Longrightarrow> P v \<Longrightarrow> v \<le> w"
    by (auto simp: is_greatest_def nonzero_words_def)
  have h: "bit (ws ! w) ?h" "\<And>b. bit (ws ! w) b \<Longrightarrow> b \<le> ?h"
    using highest_bit_greatest [OF w(2)] by (auto simp: is_greatest_def)
  have "t \<le> w * 64 + ?h" if t: "t \<in> word_bits ws" "P (t div 64)" for t
    using t(1)
  proof (rule word_bitsE)
    assume a: "t div 64 \<in> nonzero_words ws" "bit (ws ! (t div 64)) (t mod 64)"
      "t = t div 64 * 64 + t mod 64"
    from max [OF a(1) t(2)] consider "t div 64 = w" | "t div 64 < w" by linarith
    then show ?thesis
    proof cases
      case 1
      then show ?thesis using a h(2) by (metis add_le_cancel_left)
    qed (use block_less(1) in fastforce)
  qed
  moreover have "(w * 64 + ?h) div 64 = w" using bit_u64_lt [OF h(1)] by simp
  ultimately show ?thesis
    using word_bitsI [OF w(1) h(1)] w(3) by (simp add: is_greatest_def)
qed

lemma word_bits_least:
  assumes "is_least {v \<in> nonzero_words ws. P v} w"
  shows "is_least {t \<in> word_bits ws. P (t div 64)} (w * 64 + lowest_bit (ws ! w))"
proof -
  let ?h = "lowest_bit (ws ! w)"
  from assms have w: "w < length ws" "ws ! w \<noteq> 0" "P w"
    and min: "\<And>v. v \<in> nonzero_words ws \<Longrightarrow> P v \<Longrightarrow> w \<le> v"
    by (auto simp: is_least_def nonzero_words_def)
  have h: "bit (ws ! w) ?h" "\<And>b. bit (ws ! w) b \<Longrightarrow> ?h \<le> b"
    using lowest_bit_least [OF w(2)] by (auto simp: is_least_def)
  have "w * 64 + ?h \<le> t" if t: "t \<in> word_bits ws" "P (t div 64)" for t
    using t(1)
  proof (rule word_bitsE)
    assume a: "t div 64 \<in> nonzero_words ws" "bit (ws ! (t div 64)) (t mod 64)"
      "t = t div 64 * 64 + t mod 64"
    from min [OF a(1) t(2)] consider "t div 64 = w" | "w < t div 64" by linarith
    then show ?thesis
    proof cases
      case 1
      then show ?thesis using a h(2) by (metis add_le_cancel_left)
    qed (use block_less(2) [of w t] bit_u64_lt [OF h(1)] in linarith)
  qed
  moreover have "(w * 64 + ?h) div 64 = w" using bit_u64_lt [OF h(1)] by simp
  ultimately show ?thesis
    using word_bitsI [OF w(1) h(1)] w(3) by (simp add: is_least_def)
qed

text \<open>
  The search in the starting word: either a bit beyond the index is found there, or every
  element beyond the index lies in a later word.
\<close>

lemma same_word_below:
  assumes "t div 64 < length ws" "ws ! (t div 64) AND mask_below (t mod 64) \<noteq> 0"
  shows "is_greatest {x \<in> word_bits ws. x < t}
    (t div 64 * 64 + highest_bit (ws ! (t div 64) AND mask_below (t mod 64)))"
proof -
  let ?r = "ws ! (t div 64) AND mask_below (t mod 64)"
  have r: "bit ?r b \<longleftrightarrow> bit (ws ! (t div 64)) b \<and> b < t mod 64" for b
    by (simp add: bit_and_iff bit_mask_below less_imp_le)
  have h: "bit ?r (highest_bit ?r)" "\<And>b. bit ?r b \<Longrightarrow> b \<le> highest_bit ?r"
    using highest_bit_greatest [OF assms(2)] by (auto simp: is_greatest_def)
  have "x \<le> t div 64 * 64 + highest_bit ?r" if x: "x \<in> word_bits ws" "x < t" for x
  proof -
    from x(2) consider "x div 64 < t div 64" | "x div 64 = t div 64" "x mod 64 < t mod 64"
      by (metis div_le_mono div_mult_mod_eq le_neq_implies_less less_imp_le nat_add_left_cancel_less)
    then show ?thesis
    proof cases
      case 1
      then show ?thesis using block_less(1) by fastforce
    next
      case 2
      then have "bit ?r (x mod 64)" using x(1) by (auto simp: r word_bits_def)
      from h(2) [OF this] 2(1) show ?thesis by (metis add_le_cancel_left div_mult_mod_eq)
    qed
  qed
  moreover have "t div 64 * 64 + highest_bit ?r < t"
    using h(1) by (metis div_mult_mod_eq nat_add_left_cancel_less r)
  ultimately show ?thesis
    using word_bitsI [OF assms(1)] h(1) by (auto simp: is_greatest_def r)
qed

lemma other_words_below:
  assumes "ws ! (t div 64) AND mask_below (t mod 64) = 0"
  shows "{x \<in> word_bits ws. x < t} = {x \<in> word_bits ws. x div 64 < t div 64}"
proof -
  have r: "\<not> (bit (ws ! (t div 64)) b \<and> b < t mod 64)" for b
    using assms by (metis bit_and_iff bit_mask_below bit_0_eq bot_apply bot_bool_def less_imp_le
        mod_less_divisor zero_less_numeral)
  have "x < t \<longleftrightarrow> x div 64 < t div 64" if "x \<in> word_bits ws" for x
  proof
    assume "x < t"
    then have "x div 64 < t div 64 \<or> x div 64 = t div 64 \<and> x mod 64 < t mod 64"
      by (metis div_le_mono div_mult_mod_eq le_neq_implies_less less_imp_le nat_add_left_cancel_less)
    with r that show "x div 64 < t div 64" by (auto simp: word_bits_def)
  qed (metis div_le_mono leD leI)
  then show ?thesis by blast
qed

lemma same_word_above:
  assumes "t div 64 < length ws" "ws ! (t div 64) AND mask_above (t mod 64) \<noteq> 0"
  shows "is_least {x \<in> word_bits ws. t < x}
    (t div 64 * 64 + lowest_bit (ws ! (t div 64) AND mask_above (t mod 64)))"
proof -
  let ?r = "ws ! (t div 64) AND mask_above (t mod 64)"
  have r: "bit ?r b \<longleftrightarrow> bit (ws ! (t div 64)) b \<and> t mod 64 < b" for b
    using bit_u64_lt by (auto simp: bit_and_iff bit_mask_above)
  have h: "bit ?r (lowest_bit ?r)" "\<And>b. bit ?r b \<Longrightarrow> lowest_bit ?r \<le> b"
    using lowest_bit_least [OF assms(2)] by (auto simp: is_least_def)
  have "t div 64 * 64 + lowest_bit ?r \<le> x" if x: "x \<in> word_bits ws" "t < x" for x
  proof -
    from x(2) consider "t div 64 < x div 64" | "x div 64 = t div 64" "t mod 64 < x mod 64"
      by (metis div_le_mono div_mult_mod_eq le_neq_implies_less less_imp_le nat_add_left_cancel_less)
    then show ?thesis
    proof cases
      case 1
      then show ?thesis using block_less(2) [of "t div 64" x] bit_u64_lt [OF h(1)] by linarith
    next
      case 2
      then have "bit ?r (x mod 64)" using x(1) by (auto simp: r word_bits_def)
      from h(2) [OF this] 2(1) show ?thesis by (metis add_le_cancel_left div_mult_mod_eq)
    qed
  qed
  moreover have "t < t div 64 * 64 + lowest_bit ?r"
    using h(1) by (metis div_mult_mod_eq nat_add_left_cancel_less r)
  ultimately show ?thesis
    using word_bitsI [OF assms(1)] h(1) by (auto simp: is_least_def r)
qed

lemma other_words_above:
  assumes "ws ! (t div 64) AND mask_above (t mod 64) = 0"
  shows "{x \<in> word_bits ws. t < x} = {x \<in> word_bits ws. t div 64 < x div 64}"
proof -
  have r: "\<not> (bit (ws ! (t div 64)) b \<and> t mod 64 < b)" for b
    using assms by (metis bit_and_iff bit_mask_above bit_0_eq bot_apply bot_bool_def bit_u64_lt)
  have "t < x \<longleftrightarrow> t div 64 < x div 64" if "x \<in> word_bits ws" for x
  proof
    assume "t < x"
    then have "t div 64 < x div 64 \<or> x div 64 = t div 64 \<and> t mod 64 < x mod 64"
      by (metis div_le_mono div_mult_mod_eq le_neq_implies_less less_imp_le nat_add_left_cancel_less)
    with r that show "t div 64 < x div 64" by (auto simp: word_bits_def)
  qed (metis div_le_mono leD leI)
  then show ?thesis by blast
qed

end
