(* ===== verification/Side_Index.thy ===== *)
theory Side_Index
  imports Exchange_Core Occupancy_Bitmap
begin

text \<open>
  One side's price index, \<open>MatchingBook::SideIndex\<close> of \<open>exchange/matching/matching_book.cpp\<close>:
  a tick ladder over a band of prices with a three-level occupancy bitmap, and an ordered map for
  the prices outside the band. The invariant ties the three structures together; the lemmas show
  that the index is a finite map from prices to levels whose best and next price are the ones
  price priority asks for, and that no operation reads outside an array.
\<close>

subsection \<open>The model\<close>

text \<open>\<open>kNil\<close>, the end-of-chain sentinel, and a price level as a pair of slab indices.\<close>

definition kNil :: nat where
  "kNil = 2 ^ 32 - 1"

record LevelSlot =
  lv_head :: nat
  lv_tail :: nat

definition empty_level :: LevelSlot where
  "empty_level = \<lparr>lv_head = kNil, lv_tail = kNil\<rparr>"

text \<open>
  The ladder is \<open>None\<close> until it is allocated; an element that was never written is indeterminate
  (\<open>None\<close> in the array).
\<close>

record SideIndex =
  si_side :: Side
  si_band_ticks :: nat
  si_base :: Price
  si_anchored :: bool
  si_ladder :: "(nat \<rightharpoonup> LevelSlot) option"
  si_occupancy :: "u64 list"
  si_mid_summary :: "u64 list"
  si_summary :: u64
  si_overflow :: "(Price, LevelSlot) omap"

definition new_side_index :: "Side \<Rightarrow> nat \<Rightarrow> SideIndex" where
  "new_side_index sd band = \<lparr>si_side = sd, si_band_ticks = band, si_base = 0, si_anchored = False,
     si_ladder = None, si_occupancy = [], si_mid_summary = [], si_summary = 0, si_overflow = []\<rparr>"

definition si_empty :: "SideIndex \<Rightarrow> bool" where
  "si_empty s \<longleftrightarrow> si_summary s = 0 \<and> si_overflow s = []"

definition words_for :: "nat \<Rightarrow> nat" where
  "words_for ticks = (ticks + 63) div 64"

definition in_band :: "SideIndex \<Rightarrow> Price \<Rightarrow> bool" where
  "in_band s p \<longleftrightarrow> si_anchored s \<and> unat (i64_bits (p - si_base s)) < si_band_ticks s"

definition tick_of :: "SideIndex \<Rightarrow> Price \<Rightarrow> nat" where
  "tick_of s p = unat (i64_bits (p - si_base s)) mod 2 ^ 32"

definition price_of :: "SideIndex \<Rightarrow> nat \<Rightarrow> Price" where
  "price_of s t = si_base s + of_nat t"

definition anchor :: "SideIndex \<Rightarrow> Price \<Rightarrow> SideIndex" where
  "anchor s p =
     (let s1 = s\<lparr>si_base := p - of_nat (si_band_ticks s div 2), si_anchored := True\<rparr> in
      case si_ladder s of
        Some _ \<Rightarrow> s1
      | None \<Rightarrow> s1\<lparr>si_ladder := Some Map.empty,
          si_occupancy := replicate (words_for (si_band_ticks s)) 0,
          si_mid_summary := replicate (words_for (words_for (si_band_ticks s))) 0\<rparr>)"

definition set_occupied :: "SideIndex \<Rightarrow> nat \<Rightarrow> SideIndex option" where
  "set_occupied s t = do {
     let w = word_of t;
     ow \<leftarrow> vget (si_occupancy s) w;
     occ \<leftarrow> vset (si_occupancy s) w (ow OR one_bit (bit_of t));
     mw \<leftarrow> vget (si_mid_summary s) (word_of w);
     mids \<leftarrow> vset (si_mid_summary s) (word_of w) (mw OR one_bit (bit_of w));
     Some (s\<lparr>si_occupancy := occ, si_mid_summary := mids,
             si_summary := si_summary s OR one_bit (word_of w)\<rparr>)
   }"

definition clear_occupied :: "SideIndex \<Rightarrow> nat \<Rightarrow> SideIndex option" where
  "clear_occupied s t = do {
     let w = word_of t;
     ow \<leftarrow> vget (si_occupancy s) w;
     let ow' = ow AND NOT (one_bit (bit_of t));
     occ \<leftarrow> vset (si_occupancy s) w ow';
     if ow' \<noteq> 0 then Some (s\<lparr>si_occupancy := occ\<rparr>)
     else do {
       let m = word_of w;
       mw \<leftarrow> vget (si_mid_summary s) m;
       let mw' = mw AND NOT (one_bit (bit_of w));
       mids \<leftarrow> vset (si_mid_summary s) m mw';
       Some (s\<lparr>si_occupancy := occ, si_mid_summary := mids,
               si_summary := (if mw' = 0 then si_summary s AND NOT (one_bit m) else si_summary s)\<rparr>)
     }
   }"

definition is_occupied :: "SideIndex \<Rightarrow> nat \<Rightarrow> bool option" where
  "is_occupied s t = do {
     ow \<leftarrow> vget (si_occupancy s) (word_of t);
     Some (ow AND one_bit (bit_of t) \<noteq> 0)
   }"

definition highest_occupied :: "SideIndex \<Rightarrow> nat option" where
  "highest_occupied s =
     (if si_summary s = 0 then Some (si_band_ticks s)
      else do {
        let m = highest_bit (si_summary s);
        mw \<leftarrow> vget (si_mid_summary s) m;
        let w = join6 m (highest_bit mw);
        ow \<leftarrow> vget (si_occupancy s) w;
        Some (join6 w (highest_bit ow))
      })"

definition lowest_occupied :: "SideIndex \<Rightarrow> nat option" where
  "lowest_occupied s =
     (if si_summary s = 0 then Some (si_band_ticks s)
      else do {
        let m = lowest_bit (si_summary s);
        mw \<leftarrow> vget (si_mid_summary s) m;
        let w = join6 m (lowest_bit mw);
        ow \<leftarrow> vget (si_occupancy s) w;
        Some (join6 w (lowest_bit ow))
      })"

definition highest_occupied_below :: "SideIndex \<Rightarrow> nat \<Rightarrow> nat option" where
  "highest_occupied_below s t =
     (if si_summary s = 0 \<or> t = 0 then Some (si_band_ticks s)
      else do {
        let w = word_of t;
        ow \<leftarrow> vget (si_occupancy s) w;
        let rest = ow AND mask_below (bit_of t);
        if rest \<noteq> 0 then Some (join6 w (highest_bit rest))
        else do {
          let m = word_of w;
          mw \<leftarrow> vget (si_mid_summary s) m;
          let rest = mw AND mask_below (bit_of w);
          if rest \<noteq> 0 then do {
            let w = join6 m (highest_bit rest);
            ow \<leftarrow> vget (si_occupancy s) w;
            Some (join6 w (highest_bit ow))
          } else do {
            let rest = si_summary s AND mask_below m;
            if rest = 0 then Some (si_band_ticks s)
            else do {
              let m = highest_bit rest;
              mw \<leftarrow> vget (si_mid_summary s) m;
              let w = join6 m (highest_bit mw);
              ow \<leftarrow> vget (si_occupancy s) w;
              Some (join6 w (highest_bit ow))
            }
          }
        }
      })"

definition lowest_occupied_above :: "SideIndex \<Rightarrow> nat \<Rightarrow> nat option" where
  "lowest_occupied_above s t =
     (if si_summary s = 0 \<or> t + 1 \<ge> si_band_ticks s then Some (si_band_ticks s)
      else do {
        let w = word_of t;
        ow \<leftarrow> vget (si_occupancy s) w;
        let rest = ow AND mask_above (bit_of t);
        if rest \<noteq> 0 then Some (join6 w (lowest_bit rest))
        else do {
          let m = word_of w;
          mw \<leftarrow> vget (si_mid_summary s) m;
          let rest = mw AND mask_above (bit_of w);
          if rest \<noteq> 0 then do {
            let w = join6 m (lowest_bit rest);
            ow \<leftarrow> vget (si_occupancy s) w;
            Some (join6 w (lowest_bit ow))
          } else do {
            let rest = si_summary s AND mask_above m;
            if rest = 0 then Some (si_band_ticks s)
            else do {
              let m = lowest_bit rest;
              mw \<leftarrow> vget (si_mid_summary s) m;
              let w = join6 m (lowest_bit mw);
              ow \<leftarrow> vget (si_occupancy s) w;
              Some (join6 w (lowest_bit ow))
            }
          }
        }
      })"

text \<open>
  Reading and writing the level a \<open>LevelSlot&\<close> refers to. \<open>put_level\<close> is the assignment through
  the reference that \<open>level_for\<close>, \<open>find_level\<close> and \<open>level_at\<close> hand out.
\<close>

definition ladder_get :: "SideIndex \<Rightarrow> nat \<Rightarrow> LevelSlot option" where
  "ladder_get s t = (case si_ladder s of None \<Rightarrow> None | Some f \<Rightarrow> f t)"

definition ladder_put :: "SideIndex \<Rightarrow> nat \<Rightarrow> LevelSlot \<Rightarrow> SideIndex" where
  "ladder_put s t l = s\<lparr>si_ladder := map_option (\<lambda>f. f(t \<mapsto> l)) (si_ladder s)\<rparr>"

definition level_for :: "SideIndex \<Rightarrow> Price \<Rightarrow> SideIndex option" where
  "level_for s p =
     (let s = (if si_band_ticks s \<noteq> 0 \<and> (\<not> si_anchored s \<or> si_empty s) then anchor s p else s) in
      if \<not> in_band s p then
        Some (case map_of (si_overflow s) p of
                Some _ \<Rightarrow> s
              | None \<Rightarrow> s\<lparr>si_overflow := omap_put p empty_level (si_overflow s)\<rparr>)
      else do {
        let t = tick_of s p;
        occ \<leftarrow> is_occupied s t;
        if occ then Some s
        else do {
          s \<leftarrow> set_occupied s t;
          Some (ladder_put s t empty_level)
        }
      })"

definition find_level :: "SideIndex \<Rightarrow> Price \<Rightarrow> LevelSlot option" where
  "find_level s p =
     (if in_band s p then do {
        let t = tick_of s p;
        occ \<leftarrow> is_occupied s t;
        if occ then ladder_get s t else None
      }
      else map_of (si_overflow s) p)"

definition erase_level :: "SideIndex \<Rightarrow> Price \<Rightarrow> SideIndex option" where
  "erase_level s p =
     (if in_band s p then clear_occupied s (tick_of s p)
      else Some (s\<lparr>si_overflow := omap_erase p (si_overflow s)\<rparr>))"

definition level_at :: "SideIndex \<Rightarrow> Price \<Rightarrow> LevelSlot option" where
  "level_at s p =
     (if in_band s p then ladder_get s (tick_of s p) else map_of (si_overflow s) p)"

definition put_level :: "SideIndex \<Rightarrow> Price \<Rightarrow> LevelSlot \<Rightarrow> SideIndex" where
  "put_level s p l =
     (if in_band s p then ladder_put s (tick_of s p) l
      else s\<lparr>si_overflow := omap_put p l (si_overflow s)\<rparr>)"

definition spilled_best :: "SideIndex \<Rightarrow> Price option" where
  "spilled_best s = (if si_side s = Buy then omap_last (si_overflow s) else omap_first (si_overflow s))"

definition better_of :: "Side \<Rightarrow> Price \<Rightarrow> Price \<Rightarrow> Price" where
  "better_of sd a b = (if sd = Buy then (if a > b then a else b) else (if a < b then a else b))"

definition best_price :: "SideIndex \<Rightarrow> Price option" where
  "best_price s = do {
     t \<leftarrow> (if si_side s = Buy then highest_occupied s else lowest_occupied s);
     if t = si_band_ticks s then spilled_best s
     else if si_overflow s = [] then Some (price_of s t)
     else do {
       spilled \<leftarrow> spilled_best s;
       Some (better_of (si_side s) (price_of s t) spilled)
     }
   }"

definition laddered_next :: "SideIndex \<Rightarrow> Price \<Rightarrow> Price option option" where
  "laddered_next s p =
     (if si_anchored s \<and> si_summary s \<noteq> 0 then do {
        let first = si_base s;
        let last = si_base s + of_nat (si_band_ticks s) - 1;
        t \<leftarrow> (if si_side s = Buy
               then (if p > last then highest_occupied s
                     else if p \<le> first then Some (si_band_ticks s)
                     else highest_occupied_below s (tick_of s p))
               else (if p < first then lowest_occupied s
                     else if p \<ge> last then Some (si_band_ticks s)
                     else lowest_occupied_above s (tick_of s p)));
        Some (if t \<noteq> si_band_ticks s then Some (price_of s t) else None)
      } else Some None)"

definition spilled_next :: "SideIndex \<Rightarrow> Price \<Rightarrow> Price option" where
  "spilled_next s p =
     (if si_side s = Buy then omap_before (si_overflow s) p else omap_after (si_overflow s) p)"

definition next_price :: "SideIndex \<Rightarrow> Price \<Rightarrow> Price option option" where
  "next_price s p = do {
     laddered \<leftarrow> laddered_next s p;
     Some (case laddered of
       None \<Rightarrow> spilled_next s p
     | Some a \<Rightarrow> (case spilled_next s p of
           None \<Rightarrow> Some a
         | Some b \<Rightarrow> Some (better_of (si_side s) a b)))
   }"

definition overflow_levels :: "SideIndex \<Rightarrow> nat" where
  "overflow_levels s = length (si_overflow s)"

subsection \<open>The invariant\<close>

text \<open>
  The band is at most \<open>64 * 64 * 64\<close> ticks, which is what three bitmap levels cover; an anchored
  band lies within the signed 64-bit range; the summaries name exactly the non-zero words below
  them; an occupied tick has a level; and a price in the overflow map is outside the band.
\<close>

definition bitmap_inv :: "SideIndex \<Rightarrow> bool" where
  "bitmap_inv s \<longleftrightarrow>
     word_bits (si_mid_summary s) = nonzero_words (si_occupancy s) \<and>
     {i. bit (si_summary s) i} = nonzero_words (si_mid_summary s) \<and>
     (case si_ladder s of
        None \<Rightarrow> si_occupancy s = [] \<and> si_mid_summary s = []
      | Some _ \<Rightarrow> 0 < si_band_ticks s \<and> si_band_ticks s \<le> 64 * 64 * 64 \<and>
          length (si_occupancy s) = words_for (si_band_ticks s) \<and>
          length (si_mid_summary s) = words_for (words_for (si_band_ticks s)))"

definition occupied :: "SideIndex \<Rightarrow> nat set" where
  "occupied s = word_bits (si_occupancy s)"

definition si_inv :: "SideIndex \<Rightarrow> bool" where
  "si_inv s \<longleftrightarrow> bitmap_inv s \<and> omap_sorted (si_overflow s) \<and>
     si_band_ticks s \<le> 64 * 64 * 64 \<and>
     (si_anchored s \<longleftrightarrow> si_ladder s \<noteq> None) \<and>
     (si_anchored s \<longrightarrow> ival (si_base s) + int (si_band_ticks s) \<le> 2 ^ 63) \<and>
     (si_overflow s \<noteq> [] \<longrightarrow> si_anchored s \<or> si_band_ticks s = 0) \<and>
     (\<forall>t \<in> occupied s. t < si_band_ticks s \<and> ladder_get s t \<noteq> None) \<and>
     (\<forall>p \<in> fst ` set (si_overflow s). \<not> in_band s p)"

subsection \<open>The occupancy bitmap\<close>

lemma words_for_lt: "t < n \<Longrightarrow> t div 64 < words_for n"
proof -
  assume "t < n"
  then have "(t + 64) div 64 \<le> (n + 63) div 64" by (intro div_le_mono) simp
  then show ?thesis by (simp add: words_for_def)
qed

lemma words_for_mono: "m \<le> n \<Longrightarrow> words_for m \<le> words_for n"
  unfolding words_for_def by (simp add: div_le_mono)

lemma words_for_bounds: "n \<le> 64 * 64 * 64 \<Longrightarrow> words_for (words_for n) \<le> 64"
  using words_for_mono [OF words_for_mono, of n "64 * 64 * 64"] by (simp add: words_for_def)

lemma highest_bit_lt: "w \<noteq> 0 \<Longrightarrow> highest_bit w < 64"
  using highest_bit_greatest [of w] bit_u64_lt by (auto simp: is_greatest_def)

lemma lowest_bit_lt: "w \<noteq> 0 \<Longrightarrow> lowest_bit w < 64"
  using lowest_bit_least [of w] bit_u64_lt by (auto simp: is_least_def)

lemma bitmap_invD:
  assumes "bitmap_inv s"
  shows mid_bits: "word_bits (si_mid_summary s) = nonzero_words (si_occupancy s)"
    and summary_bits: "nonzero_words (si_mid_summary s) = {i. bit (si_summary s) i}"
  using assms by (auto simp: bitmap_inv_def)

lemma summary_0_iff:
  assumes inv: "bitmap_inv s"
  shows "si_summary s = 0 \<longleftrightarrow> occupied s = {}"
proof -
  have "si_summary s = 0 \<longleftrightarrow> nonzero_words (si_mid_summary s) = {}"
    using bit_u64_lt by (auto simp: u64_zero_iff summary_bits [OF inv])
  then show ?thesis
    by (simp add: occupied_def word_bits_empty_iff flip: mid_bits [OF inv])
qed

lemma descend_highest:
  assumes inv: "bitmap_inv s"
    and m: "is_greatest {v \<in> nonzero_words (si_mid_summary s). P v} m"
  defines "w \<equiv> join6 m (highest_bit (si_mid_summary s ! m))"
  shows "m < length (si_mid_summary s)" "w < length (si_occupancy s)"
    and "is_greatest {v \<in> nonzero_words (si_occupancy s). P (v div 64)} w"
    and "is_greatest {t \<in> occupied s. P (t div 64 div 64)} (join6 w (highest_bit (si_occupancy s ! w)))"
proof -
  from m have m': "m < length (si_mid_summary s)" "si_mid_summary s ! m \<noteq> 0"
    by (auto simp: is_greatest_def nonzero_words_def)
  have w: "is_greatest {v \<in> nonzero_words (si_occupancy s). P (v div 64)} w"
    using word_bits_greatest [OF m] m'(2) highest_bit_lt [of "si_mid_summary s ! m"]
    by (simp add: mid_bits [OF inv] w_def join6_eq)
  then have w': "w < length (si_occupancy s)" "si_occupancy s ! w \<noteq> 0"
    by (auto simp: is_greatest_def nonzero_words_def)
  show "m < length (si_mid_summary s)" "w < length (si_occupancy s)" by (fact m'(1) w'(1))+
  show "is_greatest {v \<in> nonzero_words (si_occupancy s). P (v div 64)} w" by (fact w)
  show "is_greatest {t \<in> occupied s. P (t div 64 div 64)} (join6 w (highest_bit (si_occupancy s ! w)))"
    using word_bits_greatest [OF w] w'(2) highest_bit_lt by (simp add: occupied_def join6_eq)
qed

lemma descend_lowest:
  assumes inv: "bitmap_inv s"
    and m: "is_least {v \<in> nonzero_words (si_mid_summary s). P v} m"
  defines "w \<equiv> join6 m (lowest_bit (si_mid_summary s ! m))"
  shows "m < length (si_mid_summary s)" "w < length (si_occupancy s)"
    and "is_least {v \<in> nonzero_words (si_occupancy s). P (v div 64)} w"
    and "is_least {t \<in> occupied s. P (t div 64 div 64)} (join6 w (lowest_bit (si_occupancy s ! w)))"
proof -
  from m have m': "m < length (si_mid_summary s)" "si_mid_summary s ! m \<noteq> 0"
    by (auto simp: is_least_def nonzero_words_def)
  have w: "is_least {v \<in> nonzero_words (si_occupancy s). P (v div 64)} w"
    using word_bits_least [OF m] m'(2) lowest_bit_lt [of "si_mid_summary s ! m"]
    by (simp add: mid_bits [OF inv] w_def join6_eq)
  then have w': "w < length (si_occupancy s)" "si_occupancy s ! w \<noteq> 0"
    by (auto simp: is_least_def nonzero_words_def)
  show "m < length (si_mid_summary s)" "w < length (si_occupancy s)" by (fact m'(1) w'(1))+
  show "is_least {v \<in> nonzero_words (si_occupancy s). P (v div 64)} w" by (fact w)
  show "is_least {t \<in> occupied s. P (t div 64 div 64)} (join6 w (lowest_bit (si_occupancy s ! w)))"
    using word_bits_least [OF w] w'(2) lowest_bit_lt by (simp add: occupied_def join6_eq)
qed

lemma highest_occupied:
  assumes inv: "bitmap_inv s"
  shows "\<exists>t. highest_occupied s = Some t \<and>
     (occupied s = {} \<and> t = si_band_ticks s \<or> is_greatest (occupied s) t)"
proof (cases "si_summary s = 0")
  case True
  then show ?thesis by (simp add: highest_occupied_def summary_0_iff [OF inv])
next
  case False
  then have "is_greatest {v \<in> nonzero_words (si_mid_summary s). True} (highest_bit (si_summary s))"
    using highest_bit_greatest [of "si_summary s"] by (simp add: summary_bits [OF inv])
  from descend_highest [OF inv this] False show ?thesis
    by (simp add: highest_occupied_def summary_0_iff [OF inv] Let_def)
qed

lemma lowest_occupied:
  assumes inv: "bitmap_inv s"
  shows "\<exists>t. lowest_occupied s = Some t \<and>
     (occupied s = {} \<and> t = si_band_ticks s \<or> is_least (occupied s) t)"
proof (cases "si_summary s = 0")
  case True
  then show ?thesis by (simp add: lowest_occupied_def summary_0_iff [OF inv])
next
  case False
  then have "is_least {v \<in> nonzero_words (si_mid_summary s). True} (lowest_bit (si_summary s))"
    using lowest_bit_least [of "si_summary s"] by (simp add: summary_bits [OF inv])
  from descend_lowest [OF inv this] False show ?thesis
    by (simp add: lowest_occupied_def summary_0_iff [OF inv] Let_def)
qed

lemma bitmap_geometry:
  assumes "bitmap_inv s" "si_ladder s \<noteq> None"
  shows "t < si_band_ticks s \<Longrightarrow> t div 64 < length (si_occupancy s)"
    and "w < length (si_occupancy s) \<Longrightarrow> w div 64 < length (si_mid_summary s)"
    and "length (si_mid_summary s) \<le> 64"
  using assms words_for_lt words_for_bounds by (auto simp: bitmap_inv_def)

lemma occupied_word: "bitmap_inv s \<Longrightarrow> t \<in> occupied s \<Longrightarrow> t div 64 \<in> word_bits (si_mid_summary s)"
  by (auto simp: occupied_def mid_bits elim: word_bitsE)

text \<open>
  The search strictly below a tick, level by level: in the tick's own word, in the other words
  its middle word summarises, and through the top summary.
\<close>

lemma below_via_mid:
  assumes inv: "bitmap_inv s" "si_ladder s \<noteq> None" and t: "t < si_band_ticks s"
    and r1: "si_occupancy s ! (t div 64) AND mask_below (t mod 64) = 0"
    and r2: "si_mid_summary s ! (t div 64 div 64) AND mask_below (t div 64 mod 64) \<noteq> 0"
  defines "v \<equiv> join6 (t div 64 div 64) (highest_bit (si_mid_summary s ! (t div 64 div 64) AND mask_below (t div 64 mod 64)))"
  shows "v < length (si_occupancy s)"
    and "is_greatest {x \<in> occupied s. x < t} (join6 v (highest_bit (si_occupancy s ! v)))"
proof -
  let ?occ = "si_occupancy s"
  have m: "t div 64 div 64 < length (si_mid_summary s)"
    using bitmap_geometry [OF inv] t by auto
  have S: "{x \<in> occupied s. x < t} = {x \<in> word_bits ?occ. x div 64 < t div 64}"
    using other_words_below [OF r1] by (simp add: occupied_def)
  have v: "is_greatest {x \<in> nonzero_words ?occ. x < t div 64} v"
    using same_word_below [OF m r2] highest_bit_lt [OF r2]
    by (simp add: mid_bits [OF inv(1)] join6_eq v_def)
  then have v': "v < length ?occ" "?occ ! v \<noteq> 0"
    by (auto simp: is_greatest_def nonzero_words_def)
  show "v < length ?occ" by (fact v'(1))
  show "is_greatest {x \<in> occupied s. x < t} (join6 v (highest_bit (?occ ! v)))"
    using word_bits_greatest [OF v] highest_bit_lt [OF v'(2)] by (simp add: S join6_eq)
qed

lemma below_via_summary:
  assumes inv: "bitmap_inv s" "si_ladder s \<noteq> None" and t: "t < si_band_ticks s"
    and r1: "si_occupancy s ! (t div 64) AND mask_below (t mod 64) = 0"
    and r2: "si_mid_summary s ! (t div 64 div 64) AND mask_below (t div 64 mod 64) = 0"
  shows "{x \<in> occupied s. x < t} = {x \<in> occupied s. x div 64 div 64 < t div 64 div 64}"
    and "{i. bit (si_summary s AND mask_below (t div 64 div 64)) i} =
      {i \<in> nonzero_words (si_mid_summary s). i < t div 64 div 64}"
proof -
  have v: "v < t div 64 \<longleftrightarrow> v div 64 < t div 64 div 64" if "v \<in> word_bits (si_mid_summary s)" for v
    using other_words_below [OF r2] that by blast
  then show "{x \<in> occupied s. x < t} = {x \<in> occupied s. x div 64 div 64 < t div 64 div 64}"
    using other_words_below [OF r1] occupied_word [OF inv(1)] by (auto simp: occupied_def)
  show "{i. bit (si_summary s AND mask_below (t div 64 div 64)) i} =
      {i \<in> nonzero_words (si_mid_summary s). i < t div 64 div 64}"
    using bit_mask_below [of "t div 64 div 64"] bitmap_geometry(1,2) [OF inv] bitmap_geometry(3) [OF inv] t
    by (fastforce simp: summary_bits [OF inv(1)] bit_and_iff dest: bit_u64_lt)
qed

lemma highest_occupied_below:
  assumes inv: "bitmap_inv s" "si_ladder s \<noteq> None" and t: "t < si_band_ticks s"
    and within: "\<forall>x \<in> occupied s. x < si_band_ticks s"
  shows "\<exists>r. highest_occupied_below s t = Some r \<and>
     ({x \<in> occupied s. x < t} = {} \<and> r = si_band_ticks s \<or>
      is_greatest {x \<in> occupied s. x < t} r)"
proof -
  let ?occ = "si_occupancy s" and ?mid = "si_mid_summary s" and ?w = "t div 64"
  let ?m = "?w div 64"
  let ?S = "{x \<in> occupied s. x < t}"
  have w: "?w < length ?occ" and m: "?m < length ?mid" using bitmap_geometry [OF inv] t by auto
  let ?r1 = "?occ ! ?w AND mask_below (t mod 64)"
  let ?r2 = "?mid ! ?m AND mask_below (?w mod 64)"
  let ?r3 = "si_summary s AND mask_below ?m"
  note unfold = highest_occupied_below_def bitmap_simps Let_def
  consider (trivial) "si_summary s = 0 \<or> t = 0"
    | (word) "\<not> (si_summary s = 0 \<or> t = 0)" "?r1 \<noteq> 0"
    | (mid) "\<not> (si_summary s = 0 \<or> t = 0)" "?r1 = 0" "?r2 \<noteq> 0"
    | (summary) "\<not> (si_summary s = 0 \<or> t = 0)" "?r1 = 0" "?r2 = 0"
    by blast
  then show ?thesis
  proof cases
    case trivial
    then have "?S = {}" using summary_0_iff [OF inv(1)] within by force
    with trivial show ?thesis by (auto simp: highest_occupied_below_def)
  next
    case word
    have "is_greatest ?S (join6 ?w (highest_bit ?r1))"
      using same_word_below [OF w word(2)] highest_bit_lt [OF word(2)] by (simp add: occupied_def join6_eq)
    then show ?thesis using word w by (simp add: unfold)
  next
    case mid
    note via = below_via_mid [OF inv t mid(2,3)]
    then show ?thesis using mid w m by (simp add: unfold)
  next
    case summary
    note via = below_via_summary [OF inv t summary(2,3)]
    show ?thesis
    proof (cases "?r3 = 0")
      case True
      with via(2) have "?S = {}"
        using occupied_word [OF inv(1)] by (auto simp: via(1) elim!: word_bitsE)
      with True summary w m show ?thesis by (simp add: unfold)
    next
      case False
      then have "is_greatest {i \<in> nonzero_words ?mid. i < t div 64 div 64} (highest_bit ?r3)"
        using highest_bit_greatest [OF False] via(2) by simp
      note d = descend_highest [OF inv(1) this]
      with False summary w m d show ?thesis by (simp add: unfold via(1))
    qed
  qed
qed

text \<open>
  The search strictly above a tick, level by level: in the tick's own word, in the other words
  its middle word summarises, and through the top summary.
\<close>

lemma above_via_mid:
  assumes inv: "bitmap_inv s" "si_ladder s \<noteq> None" and t: "t < si_band_ticks s"
    and r1: "si_occupancy s ! (t div 64) AND mask_above (t mod 64) = 0"
    and r2: "si_mid_summary s ! (t div 64 div 64) AND mask_above (t div 64 mod 64) \<noteq> 0"
  defines "v \<equiv> join6 (t div 64 div 64) (lowest_bit (si_mid_summary s ! (t div 64 div 64) AND mask_above (t div 64 mod 64)))"
  shows "v < length (si_occupancy s)"
    and "is_least {x \<in> occupied s. t < x} (join6 v (lowest_bit (si_occupancy s ! v)))"
proof -
  let ?occ = "si_occupancy s"
  have m: "t div 64 div 64 < length (si_mid_summary s)"
    using bitmap_geometry [OF inv] t by auto
  have S: "{x \<in> occupied s. t < x} = {x \<in> word_bits ?occ. t div 64 < x div 64}"
    using other_words_above [OF r1] by (simp add: occupied_def)
  have v: "is_least {x \<in> nonzero_words ?occ. t div 64 < x} v"
    using same_word_above [OF m r2] lowest_bit_lt [OF r2]
    by (simp add: mid_bits [OF inv(1)] join6_eq v_def)
  then have v': "v < length ?occ" "?occ ! v \<noteq> 0"
    by (auto simp: is_least_def nonzero_words_def)
  show "v < length ?occ" by (fact v'(1))
  show "is_least {x \<in> occupied s. t < x} (join6 v (lowest_bit (?occ ! v)))"
    using word_bits_least [OF v] lowest_bit_lt [OF v'(2)] by (simp add: S join6_eq)
qed

lemma above_via_summary:
  assumes inv: "bitmap_inv s" "si_ladder s \<noteq> None" and t: "t < si_band_ticks s"
    and r1: "si_occupancy s ! (t div 64) AND mask_above (t mod 64) = 0"
    and r2: "si_mid_summary s ! (t div 64 div 64) AND mask_above (t div 64 mod 64) = 0"
  shows "{x \<in> occupied s. t < x} = {x \<in> occupied s. t div 64 div 64 < x div 64 div 64}"
    and "{i. bit (si_summary s AND mask_above (t div 64 div 64)) i} =
      {i \<in> nonzero_words (si_mid_summary s). t div 64 div 64 < i}"
proof -
  have v: "t div 64 < v \<longleftrightarrow> t div 64 div 64 < v div 64" if "v \<in> word_bits (si_mid_summary s)" for v
    using other_words_above [OF r2] that by blast
  then show "{x \<in> occupied s. t < x} = {x \<in> occupied s. t div 64 div 64 < x div 64 div 64}"
    using other_words_above [OF r1] occupied_word [OF inv(1)] by (auto simp: occupied_def)
  show "{i. bit (si_summary s AND mask_above (t div 64 div 64)) i} =
      {i \<in> nonzero_words (si_mid_summary s). t div 64 div 64 < i}"
    using bit_mask_above [of "t div 64 div 64"] bitmap_geometry(1,2) [OF inv] bitmap_geometry(3) [OF inv] t
    by (fastforce simp: summary_bits [OF inv(1)] bit_and_iff dest: bit_u64_lt)
qed

lemma lowest_occupied_above:
  assumes inv: "bitmap_inv s" "si_ladder s \<noteq> None" and t: "t < si_band_ticks s"
    and within: "\<forall>x \<in> occupied s. x < si_band_ticks s"
  shows "\<exists>r. lowest_occupied_above s t = Some r \<and>
     ({x \<in> occupied s. t < x} = {} \<and> r = si_band_ticks s \<or>
      is_least {x \<in> occupied s. t < x} r)"
proof -
  let ?occ = "si_occupancy s" and ?mid = "si_mid_summary s" and ?w = "t div 64"
  let ?m = "?w div 64"
  let ?S = "{x \<in> occupied s. t < x}"
  have w: "?w < length ?occ" and m: "?m < length ?mid" using bitmap_geometry [OF inv] t by auto
  let ?r1 = "?occ ! ?w AND mask_above (t mod 64)"
  let ?r2 = "?mid ! ?m AND mask_above (?w mod 64)"
  let ?r3 = "si_summary s AND mask_above ?m"
  note unfold = lowest_occupied_above_def bitmap_simps Let_def
  consider (trivial) "si_summary s = 0 \<or> t + 1 \<ge> si_band_ticks s"
    | (word) "\<not> (si_summary s = 0 \<or> t + 1 \<ge> si_band_ticks s)" "?r1 \<noteq> 0"
    | (mid) "\<not> (si_summary s = 0 \<or> t + 1 \<ge> si_band_ticks s)" "?r1 = 0" "?r2 \<noteq> 0"
    | (summary) "\<not> (si_summary s = 0 \<or> t + 1 \<ge> si_band_ticks s)" "?r1 = 0" "?r2 = 0"
    by blast
  then show ?thesis
  proof cases
    case trivial
    then have "?S = {}" using summary_0_iff [OF inv(1)] within by force
    with trivial show ?thesis by (auto simp: lowest_occupied_above_def)
  next
    case word
    have "is_least ?S (join6 ?w (lowest_bit ?r1))"
      using same_word_above [OF w word(2)] lowest_bit_lt [OF word(2)] by (simp add: occupied_def join6_eq)
    then show ?thesis using word w by (simp add: unfold)
  next
    case mid
    note via = above_via_mid [OF inv t mid(2,3)]
    then show ?thesis using mid w m by (simp add: unfold)
  next
    case summary
    note via = above_via_summary [OF inv t summary(2,3)]
    show ?thesis
    proof (cases "?r3 = 0")
      case True
      with via(2) have "?S = {}"
        using occupied_word [OF inv(1)] by (auto simp: via(1) elim!: word_bitsE)
      with True summary w m show ?thesis by (simp add: unfold)
    next
      case False
      then have "is_least {i \<in> nonzero_words ?mid. t div 64 div 64 < i} (lowest_bit ?r3)"
        using lowest_bit_least [OF False] via(2) by simp
      note d = descend_lowest [OF inv(1) this]
      with False summary w m d show ?thesis by (simp add: unfold via(1))
    qed
  qed
qed

text \<open>Setting, clearing and testing a tick.\<close>

lemma bits_or_one: "b < 64 \<Longrightarrow> {i. bit (w OR one_bit b) i} = insert b {i. bit w i}"
  by (auto simp: bit_or_iff bit_one_bit)

lemma bits_clear_one: "{i. bit (w AND NOT (one_bit b)) i} = {i. bit w i} - {b}"
  using bit_u64_lt by (auto simp: bit_simps bit_one_bit)

lemma is_occupied:
  assumes "bitmap_inv s" "si_ladder s \<noteq> None" "t < si_band_ticks s"
  shows "is_occupied s t = Some (t \<in> occupied s)"
proof -
  have w: "t div 64 < length (si_occupancy s)" using bitmap_geometry [OF assms(1,2)] assms(3) by auto
  have "v AND one_bit (t mod 64) \<noteq> 0 \<longleftrightarrow> bit v (t mod 64)" for v
    by (auto simp: u64_zero_iff bit_and_iff bit_one_bit)
  with w show ?thesis by (simp add: is_occupied_def bitmap_simps occupied_def word_bits_def)
qed

lemma set_occupied:
  assumes inv: "bitmap_inv s" "si_ladder s \<noteq> None" and t: "t < si_band_ticks s"
  obtains s' where "set_occupied s t = Some s'" "bitmap_inv s'" "occupied s' = insert t (occupied s)"
    "s' = s\<lparr>si_occupancy := si_occupancy s', si_mid_summary := si_mid_summary s', si_summary := si_summary s'\<rparr>"
proof -
  let ?occ = "si_occupancy s" and ?mid = "si_mid_summary s" and ?w = "t div 64"
  let ?m = "?w div 64"
  have w: "?w < length ?occ" by (rule bitmap_geometry(1) [OF inv t])
  have m: "?m < length ?mid" by (rule bitmap_geometry(2) [OF inv w])
  have m64: "?m < 64" using m bitmap_geometry(3) [OF inv] by simp
  let ?occ' = "?occ[?w := ?occ ! ?w OR one_bit (t mod 64)]"
  let ?mid' = "?mid[?m := ?mid ! ?m OR one_bit (?w mod 64)]"
  let ?s' = "s\<lparr>si_occupancy := ?occ', si_mid_summary := ?mid', si_summary := si_summary s OR one_bit ?m\<rparr>"
  have "set_occupied s t = Some ?s'"
    using w m by (simp add: set_occupied_def bitmap_simps Let_def)
  moreover have "bitmap_inv ?s'"
  proof -
    have "word_bits ?mid' = nonzero_words ?occ'"
      by (simp add: word_bits_set [OF m] nonzero_words_update [OF w] mid_bits [OF inv(1)]
          one_bit_or_neq_0)
    moreover have "{i. bit (si_summary s OR one_bit ?m) i} = nonzero_words ?mid'"
      by (simp add: bits_or_one [OF m64] nonzero_words_update [OF m] summary_bits [OF inv(1)]
          one_bit_or_neq_0)
    ultimately show ?thesis using inv by (simp add: bitmap_inv_def split: option.splits)
  qed
  moreover have "occupied ?s' = insert t (occupied s)"
    using word_bits_set [OF w] by (simp add: occupied_def)
  ultimately show ?thesis using that by simp
qed

lemma clear_occupied:
  assumes inv: "bitmap_inv s" "si_ladder s \<noteq> None" and t: "t < si_band_ticks s"
  obtains s' where "clear_occupied s t = Some s'" "bitmap_inv s'" "occupied s' = occupied s - {t}"
    "s' = s\<lparr>si_occupancy := si_occupancy s', si_mid_summary := si_mid_summary s', si_summary := si_summary s'\<rparr>"
proof -
  let ?occ = "si_occupancy s" and ?mid = "si_mid_summary s" and ?w = "t div 64"
  let ?m = "?w div 64"
  have w: "?w < length ?occ" by (rule bitmap_geometry(1) [OF inv t])
  have m: "?m < length ?mid" by (rule bitmap_geometry(2) [OF inv w])
  have m64: "?m < 64" using m bitmap_geometry(3) [OF inv] by simp
  let ?ow = "?occ ! ?w AND NOT (one_bit (t mod 64))"
  let ?mw = "?mid ! ?m AND NOT (one_bit (?w mod 64))"
  let ?occ' = "?occ[?w := ?ow]"
  let ?mid' = "?mid[?m := ?mw]"
  have nz: "nonzero_words ?occ' = (if ?ow = 0 then nonzero_words ?occ - {?w} else nonzero_words ?occ)"
    by (rule nonzero_words_shrink [OF w]) auto
  show ?thesis
  proof (cases "?ow = 0")
    case False
    let ?s' = "s\<lparr>si_occupancy := ?occ'\<rparr>"
    have "clear_occupied s t = Some ?s'"
      using w False by (simp add: clear_occupied_def bitmap_simps Let_def)
    moreover have "bitmap_inv ?s'"
      using inv nz False by (simp add: bitmap_inv_def split: option.splits)
    moreover have "occupied ?s' = occupied s - {t}"
      using word_bits_clear [OF w] by (simp add: occupied_def)
    ultimately show ?thesis using that by simp
  next
    case True
    let ?s' = "s\<lparr>si_occupancy := ?occ', si_mid_summary := ?mid',
      si_summary := (if ?mw = 0 then si_summary s AND NOT (one_bit ?m) else si_summary s)\<rparr>"
    have "clear_occupied s t = Some ?s'"
      using w m True by (simp add: clear_occupied_def bitmap_simps Let_def)
    moreover have "bitmap_inv ?s'"
    proof -
      have "word_bits ?mid' = nonzero_words ?occ'"
        using word_bits_clear [OF m] nz True mid_bits [OF inv(1)] by simp
      moreover have "nonzero_words ?mid' = {i. bit (si_summary ?s') i}"
        by (subst nonzero_words_shrink [OF m]) (auto simp: bits_clear_one summary_bits [OF inv(1)])
      ultimately show ?thesis using inv by (simp add: bitmap_inv_def split: option.splits)
    qed
    moreover have "occupied ?s' = occupied s - {t}"
      using word_bits_clear [OF w] by (simp add: occupied_def)
    ultimately show ?thesis using that by simp
  qed
qed

subsection \<open>Ticks and prices\<close>

text \<open>
  A price at which the band may be anchored: the band around it stays within the signed 64-bit
  range. The engine only inserts positive prices, so only the upper end matters there.
\<close>

definition price_fits :: "nat \<Rightarrow> Price \<Rightarrow> bool" where
  "price_fits band p \<longleftrightarrow>
     - (2 ^ 63) \<le> ival p - int (band div 2) \<and> ival p - int (band div 2) + int band \<le> 2 ^ 63"

lemma si_invD:
  assumes "si_inv s"
  shows "bitmap_inv s" "omap_sorted (si_overflow s)" "si_band_ticks s \<le> 64 * 64 * 64"
    and "si_anchored s \<longleftrightarrow> si_ladder s \<noteq> None"
    and "si_anchored s \<Longrightarrow> ival (si_base s) + int (si_band_ticks s) \<le> 2 ^ 63"
    and "t \<in> occupied s \<Longrightarrow> t < si_band_ticks s \<and> ladder_get s t \<noteq> None"
    and "p \<in> fst ` set (si_overflow s) \<Longrightarrow> \<not> in_band s p"
    and "si_overflow s \<noteq> [] \<Longrightarrow> si_anchored s \<or> si_band_ticks s = 0"
  using assms by (auto simp: si_inv_def)

lemma price_of_ival:
  assumes "si_inv s" "si_anchored s" "t < si_band_ticks s"
  shows "ival (price_of s t) = ival (si_base s) + int t"
proof -
  have "ival (of_nat t) = int t"
    using si_invD(3) [OF assms(1)] assms(3) by (intro ival_of_nat) (simp add: in_i64_def)
  moreover have "in_i64 (ival (si_base s) + int t)"
    using si_invD(5) [OF assms(1,2)] assms(3) ival_range(1) [of "si_base s"] by (simp add: in_i64_def)
  ultimately show ?thesis by (simp add: price_of_def ival_add)
qed

lemma offset_price_of:
  assumes "si_inv s" "t < si_band_ticks s"
  shows "unat (i64_bits (price_of s t - si_base s)) = t"
proof -
  have "t < 2 ^ 64" using si_invD(3) [OF assms(1)] assms(2) by simp
  then show ?thesis by (simp add: price_of_def unsigned_of_nat take_bit_nat_eq_self)
qed

lemma in_band_price_of:
  assumes "si_inv s" "si_anchored s" "t < si_band_ticks s"
  shows "in_band s (price_of s t)" "tick_of s (price_of s t) = t"
  using offset_price_of [OF assms(1,3)] si_invD(3) [OF assms(1)] assms(2,3)
  by (auto simp: in_band_def tick_of_def simp del: i64_bits_arith)

lemma in_bandD:
  assumes "si_inv s" "in_band s p"
  shows "si_anchored s" "si_ladder s \<noteq> None" "tick_of s p < si_band_ticks s" "price_of s (tick_of s p) = p"
    and "ival p = ival (si_base s) + int (tick_of s p)"
proof -
  show a: "si_anchored s" using assms(2) by (simp add: in_band_def)
  with si_invD(4) [OF assms(1)] show "si_ladder s \<noteq> None" by simp
  have lt: "unat (i64_bits (p - si_base s)) < si_band_ticks s" using assms(2) by (simp add: in_band_def)
  with si_invD(3) [OF assms(1)] have t: "tick_of s p = unat (i64_bits (p - si_base s))"
    by (simp add: tick_of_def del: i64_bits_arith)
  with lt show tb: "tick_of s p < si_band_ticks s" by simp
  have "i64_bits (of_nat (unat x)) = x" for x :: u64
    by (simp only: i64_bits_of_nat) simp
  then show eq: "price_of s (tick_of s p) = p"
    unfolding t price_of_def by (intro i64.expand) (simp del: of_nat_unat)
  show "ival p = ival (si_base s) + int (tick_of s p)"
    using price_of_ival [OF assms(1) a tb] eq by simp
qed

lemma in_band_iff:
  assumes "si_inv s" "si_anchored s"
  shows "in_band s p \<longleftrightarrow> ival (si_base s) \<le> ival p \<and> ival p < ival (si_base s) + int (si_band_ticks s)"
proof
  assume "in_band s p"
  from in_bandD [OF assms(1) this] show "ival (si_base s) \<le> ival p \<and> ival p < ival (si_base s) + int (si_band_ticks s)"
    by simp
next
  assume r: "ival (si_base s) \<le> ival p \<and> ival p < ival (si_base s) + int (si_band_ticks s)"
  let ?t = "nat (ival p - ival (si_base s))"
  have t: "?t < si_band_ticks s" using r by linarith
  have "ival (price_of s ?t) = ival p" using price_of_ival [OF assms t] r by simp
  then have "price_of s ?t = p" by (simp add: ival_inject)
  with in_band_price_of(1) [OF assms t] show "in_band s p" by simp
qed

lemma tick_order:
  assumes "si_inv s" "si_anchored s" "t < si_band_ticks s" "u < si_band_ticks s"
  shows "price_of s t < price_of s u \<longleftrightarrow> t < u"
  using price_of_ival [OF assms(1,2)] assms(3,4) by (simp add: less_i64_def)

subsection \<open>The index as a map from prices to levels\<close>

lemma find_level_eq:
  assumes "si_inv s"
  shows "find_level s p =
     (if in_band s p then (if tick_of s p \<in> occupied s then ladder_get s (tick_of s p) else None)
      else map_of (si_overflow s) p)"
  using in_bandD [OF assms] si_invD(1) [OF assms]
  by (simp add: find_level_def is_occupied Let_def)

definition level_prices :: "SideIndex \<Rightarrow> Price set" where
  "level_prices s = dom (find_level s)"

lemma occupied_anchored:
  assumes "si_inv s" "t \<in> occupied s"
  shows "si_anchored s"
proof -
  have "si_occupancy s \<noteq> []" using assms(2) by (auto simp: occupied_def word_bits_def)
  then show ?thesis
    using si_invD(1,4) [OF assms(1)] by (auto simp: bitmap_inv_def split: option.splits)
qed

lemma price_of_occupied_iff:
  assumes "si_inv s"
  shows "p \<in> price_of s ` occupied s \<longleftrightarrow> in_band s p \<and> tick_of s p \<in> occupied s"
proof
  assume "p \<in> price_of s ` occupied s"
  then obtain t where t: "t \<in> occupied s" "p = price_of s t" by blast
  from in_band_price_of [OF assms occupied_anchored [OF assms t(1)]] si_invD(6) [OF assms t(1)] t
  show "in_band s p \<and> tick_of s p \<in> occupied s" by auto
next
  assume r: "in_band s p \<and> tick_of s p \<in> occupied s"
  then have "p = price_of s (tick_of s p)" using in_bandD(4) [OF assms] by simp
  with r show "p \<in> price_of s ` occupied s" by blast
qed

lemma level_prices_eq:
  assumes "si_inv s"
  shows "level_prices s = price_of s ` occupied s \<union> fst ` set (si_overflow s)"
proof -
  have "find_level s p \<noteq> None \<longleftrightarrow> in_band s p \<and> tick_of s p \<in> occupied s \<or> p \<in> fst ` set (si_overflow s)" for p
    using si_invD(6) [OF assms, of "tick_of s p"] si_invD(7) [OF assms, of p] map_of_eq_None_iff [of "si_overflow s" p]
    by (auto simp: find_level_eq [OF assms])
  then show ?thesis
    by (simp add: set_eq_iff level_prices_def domIff price_of_occupied_iff [OF assms])
qed

lemma finite_level_prices: "si_inv s \<Longrightarrow> finite (level_prices s)"
proof -
  assume "si_inv s"
  then have "occupied s \<subseteq> {..<si_band_ticks s}" by (auto dest: si_invD(6))
  then have "finite (occupied s)" by (rule finite_subset) simp
  with level_prices_eq [OF \<open>si_inv s\<close>] show ?thesis by simp
qed

lemma si_empty_iff: "si_inv s \<Longrightarrow> si_empty s \<longleftrightarrow> level_prices s = {}"
  by (auto simp: si_empty_def level_prices_eq summary_0_iff si_invD(1))

lemma level_at_find: "si_inv s \<Longrightarrow> find_level s p = Some l \<Longrightarrow> level_at s p = Some l"
  by (simp add: find_level_eq level_at_def split: if_splits)

lemma new_side_index_inv: "band \<le> 64 * 64 * 64 \<Longrightarrow> si_inv (new_side_index sd band)"
  by (simp add: si_inv_def new_side_index_def bitmap_inv_def occupied_def word_bits_def nonzero_words_def)

lemma new_side_index_find [simp]: "find_level (new_side_index sd band) = Map.empty"
  by (simp add: find_level_def new_side_index_def in_band_def fun_eq_iff)

text \<open>Anchoring an empty side: nothing rests, so moving the band loses nothing.\<close>

lemma anchor_inv:
  assumes inv: "si_inv s" and e: "si_empty s" and band: "si_band_ticks s \<noteq> 0"
    and fits: "price_fits (si_band_ticks s) p"
  shows "si_inv (anchor s p)" "in_band (anchor s p) p" "find_level (anchor s p) = Map.empty"
    and "si_overflow (anchor s p) = []"
proof -
  let ?s = "anchor s p" and ?half = "int (si_band_ticks s div 2)"
  have occ: "occupied s = {}" and ov: "si_overflow s = []"
    using e si_empty_iff [OF inv] level_prices_eq [OF inv] by (auto simp: si_empty_def)
  have sum: "si_summary s = 0" using e by (simp add: si_empty_def)
  have half: "ival (of_nat (si_band_ticks s div 2)) = ?half"
    using si_invD(3) [OF inv] by (intro ival_of_nat) (simp add: in_i64_def)
  have "in_i64 (ival p - ?half)"
    using fits ival_range(2) [of p] unfolding price_fits_def in_i64_def by linarith
  then have base: "ival (si_base ?s) = ival p - ?half"
    using ival_diff [of p "of_nat (si_band_ticks s div 2)"] half
    by (simp add: anchor_def Let_def split: option.split)
  have flds: "si_band_ticks ?s = si_band_ticks s" "si_anchored ?s" "si_ladder ?s \<noteq> None"
    "si_overflow ?s = []" "si_summary ?s = 0"
    using ov sum by (auto simp: anchor_def Let_def split: option.split)
  have bm: "bitmap_inv ?s"
  proof (cases "si_ladder s")
    case None
    then show ?thesis
      using band si_invD(3) [OF inv] sum
      by (simp add: bitmap_inv_def anchor_def word_bits_replicate_0 nonzero_words_replicate_0)
  next
    case (Some f)
    then show ?thesis using si_invD(1) [OF inv] by (simp add: bitmap_inv_def anchor_def)
  qed
  then have occ': "occupied ?s = {}" using summary_0_iff flds(5) by blast
  show inv': "si_inv ?s"
    unfolding si_inv_def using bm flds occ' base fits si_invD(3) [OF inv] by (auto simp: price_fits_def)
  show "in_band ?s p"
    using in_band_iff [OF inv' flds(2)] base band by (simp add: flds(1))
  show "find_level ?s = Map.empty"
    using level_prices_eq [OF inv'] occ' flds(4) by (simp add: level_prices_def)
  show "si_overflow ?s = []" by (fact flds(4))
qed

lemma anchor_frame [simp]:
  "si_side (anchor s p) = si_side s" "si_band_ticks (anchor s p) = si_band_ticks s"
  by (simp_all add: anchor_def Let_def split: option.split)

lemma bitmap_frame:
  assumes "s' = s\<lparr>si_occupancy := si_occupancy s', si_mid_summary := si_mid_summary s', si_summary := si_summary s'\<rparr>"
  shows "in_band s' = in_band s" "tick_of s' = tick_of s" "ladder_get s' = ladder_get s"
    "si_ladder s' = si_ladder s" "si_side s' = si_side s" "si_band_ticks s' = si_band_ticks s"
    "si_base s' = si_base s" "si_anchored s' = si_anchored s" "si_overflow s' = si_overflow s"
  by (subst assms; simp add: in_band_def tick_of_def ladder_get_def fun_eq_iff)+

lemma ladder_put_frame [simp]:
  "in_band (ladder_put s t l) = in_band s" "tick_of (ladder_put s t l) = tick_of s"
  "occupied (ladder_put s t l) = occupied s" "si_side (ladder_put s t l) = si_side s"
  "si_band_ticks (ladder_put s t l) = si_band_ticks s" "si_overflow (ladder_put s t l) = si_overflow s"
  "si_ladder (ladder_put s t l) = None \<longleftrightarrow> si_ladder s = None"
  "si_anchored (ladder_put s t l) = si_anchored s" "si_base (ladder_put s t l) = si_base s"
  "bitmap_inv (ladder_put s t l) = bitmap_inv s"
  by (simp_all add: ladder_put_def in_band_def tick_of_def occupied_def bitmap_inv_def fun_eq_iff split: option.split)

lemma ladder_get_put:
  "si_ladder s \<noteq> None \<Longrightarrow> ladder_get (ladder_put s t l) u = (if u = t then Some l else ladder_get s u)"
  by (auto simp: ladder_get_def ladder_put_def)

lemma overflow_frame [simp]:
  "in_band (s\<lparr>si_overflow := m\<rparr>) = in_band s" "tick_of (s\<lparr>si_overflow := m\<rparr>) = tick_of s"
  "occupied (s\<lparr>si_overflow := m\<rparr>) = occupied s" "ladder_get (s\<lparr>si_overflow := m\<rparr>) = ladder_get s"
  "bitmap_inv (s\<lparr>si_overflow := m\<rparr>) = bitmap_inv s"
  by (simp_all add: in_band_def tick_of_def occupied_def ladder_get_def bitmap_inv_def fun_eq_iff
      split: option.split)

lemma si_inv_overflow:
  assumes "si_inv s" "omap_sorted m" "\<forall>p \<in> fst ` set m. \<not> in_band s p"
    and "m \<noteq> [] \<Longrightarrow> si_anchored s \<or> si_band_ticks s = 0"
  shows "si_inv (s\<lparr>si_overflow := m\<rparr>)"
  using assms by (simp add: si_inv_def)

lemma find_level_overflow:
  assumes "si_inv s" "omap_sorted m" "\<forall>p \<in> fst ` set m. \<not> in_band s p"
    and "m \<noteq> [] \<Longrightarrow> si_anchored s \<or> si_band_ticks s = 0"
  shows "find_level (s\<lparr>si_overflow := m\<rparr>) q = (if in_band s q then find_level s q else map_of m q)"
  using si_inv_overflow [OF assms] assms(1)
  by (simp add: find_level_eq)

lemma in_band_inject:
  assumes "si_inv s" "in_band s p" "in_band s q" "tick_of s p = tick_of s q"
  shows "p = q"
  using assms by (metis in_bandD(4))

text \<open>Creating, overwriting and erasing a level.\<close>

lemma level_for_anchored:
  assumes inv: "si_inv s" and "in_band s p"
  obtains s' where
    "(do { occ \<leftarrow> is_occupied s (tick_of s p);
          if occ then Some s else do { s1 \<leftarrow> set_occupied s (tick_of s p); Some (ladder_put s1 (tick_of s p) empty_level) } })
      = Some s'"
    "si_inv s'" "si_side s' = si_side s" "si_band_ticks s' = si_band_ticks s"
    "find_level s' = (find_level s)(p \<mapsto> (case find_level s p of Some l \<Rightarrow> l | None \<Rightarrow> empty_level))"
proof -
  let ?t = "tick_of s p"
  note bd = in_bandD [OF inv assms(2)] and bm = si_invD(1) [OF inv]
  show ?thesis
  proof (cases "?t \<in> occupied s")
    case True
    then obtain l where "find_level s p = Some l"
      using si_invD(6) [OF inv] assms(2) by (auto simp: find_level_eq [OF inv])
    with True that [of s] inv show ?thesis
      by (simp add: is_occupied [OF bm bd(2,3)] map_upd_triv)
  next
    case False
    obtain s1 where s1: "set_occupied s ?t = Some s1" "bitmap_inv s1" "occupied s1 = insert ?t (occupied s)"
      "s1 = s\<lparr>si_occupancy := si_occupancy s1, si_mid_summary := si_mid_summary s1, si_summary := si_summary s1\<rparr>"
      by (rule set_occupied [OF bm bd(2,3)])
    note fr = bitmap_frame [OF s1(4)]
    let ?s' = "ladder_put s1 ?t empty_level"
    have lg: "ladder_get ?s' u = (if u = ?t then Some empty_level else ladder_get s u)" for u
      using bd(2) by (simp add: ladder_get_put fr)
    have inv': "si_inv ?s'"
      using inv s1(2,3) bd(1,3) unfolding si_inv_def by (simp add: fr lg)
    have "find_level ?s' q = ((find_level s)(p \<mapsto> empty_level)) q" for q
    proof (cases "q = p")
      case True
      with assms(2) s1(3) show ?thesis by (simp add: find_level_eq [OF inv'] fr lg)
    next
      case False
      then have "in_band s q \<Longrightarrow> tick_of s q \<noteq> ?t" using in_band_inject [OF inv assms(2)] by metis
      with False s1(3) show ?thesis by (simp add: find_level_eq [OF inv] find_level_eq [OF inv'] fr lg)
    qed
    then have "find_level ?s' = (find_level s)(p \<mapsto> empty_level)" by blast
    moreover have "find_level s p = None" using False assms(2) by (simp add: find_level_eq [OF inv])
    ultimately show ?thesis
      using that [of ?s'] False inv' s1(1) by (simp add: is_occupied [OF bm bd(2,3)] fr)
  qed
qed

lemma level_for:
  assumes inv: "si_inv s" and fits: "si_band_ticks s \<noteq> 0 \<Longrightarrow> price_fits (si_band_ticks s) p"
  obtains s' where "level_for s p = Some s'" "si_inv s'" "si_side s' = si_side s"
    "si_band_ticks s' = si_band_ticks s"
    "find_level s' = (find_level s)(p \<mapsto> (case find_level s p of Some l \<Rightarrow> l | None \<Rightarrow> empty_level))"
proof -
  define c where "c \<longleftrightarrow> si_band_ticks s \<noteq> 0 \<and> (\<not> si_anchored s \<or> si_empty s)"
  define s0 where "s0 = (if c then anchor s p else s)"
  have emp: "si_empty s" if c
  proof -
    have "occupied s = {}" if "\<not> si_anchored s" using occupied_anchored [OF inv] that by blast
    then show ?thesis
      using that si_invD(8) [OF inv] summary_0_iff [OF si_invD(1) [OF inv]]
      by (auto simp: c_def si_empty_def)
  qed
  have s0: "si_inv s0" "find_level s0 = find_level s" "si_side s0 = si_side s" "si_band_ticks s0 = si_band_ticks s"
    using anchor_inv [OF inv emp] fits inv emp si_empty_iff [OF inv]
    by (auto simp: s0_def c_def level_prices_def)
  have anch: "si_anchored s0 \<or> si_band_ticks s0 = 0"
    by (auto simp: s0_def c_def anchor_def Let_def split: option.split)
  have lf: "level_for s p =
     (if \<not> in_band s0 p then
        Some (case map_of (si_overflow s0) p of
                Some _ \<Rightarrow> s0
              | None \<Rightarrow> s0\<lparr>si_overflow := omap_put p empty_level (si_overflow s0)\<rparr>)
      else do { occ \<leftarrow> is_occupied s0 (tick_of s0 p);
        if occ then Some s0
        else do { s1 \<leftarrow> set_occupied s0 (tick_of s0 p); Some (ladder_put s1 (tick_of s0 p) empty_level) } })"
    unfolding level_for_def Let_def s0_def c_def by (rule refl)
  show ?thesis
  proof (cases "in_band s0 p")
    case True
    show ?thesis
      by (rule level_for_anchored [OF s0(1) True]) (use that lf True in \<open>simp add: s0\<close>)
  next
    case False
    let ?m = "omap_put p empty_level (si_overflow s0)"
    have ov: "find_level s0 p = map_of (si_overflow s0) p"
      using False by (simp add: find_level_eq [OF s0(1)])
    show ?thesis
    proof (cases "map_of (si_overflow s0) p")
      case None
      have m: "omap_sorted ?m" "\<forall>p \<in> fst ` set ?m. \<not> in_band s0 p"
        using si_invD(2,7) [OF s0(1)] False by (auto simp: omap_put_sorted omap_put_keys simp del: image_iff)
      note inv' = si_inv_overflow [OF s0(1) m anch] and find' = find_level_overflow [OF s0(1) m anch]
      have "find_level (s0\<lparr>si_overflow := ?m\<rparr>) = (find_level s0)(p \<mapsto> empty_level)"
        using False si_invD(2) [OF s0(1)]
        by (auto simp: fun_eq_iff find' omap_put_map_of find_level_eq [OF s0(1)])
      then show ?thesis
        using that [of "s0\<lparr>si_overflow := ?m\<rparr>"] False None inv' s0 ov
        by (simp add: lf)
    next
      case (Some l)
      then show ?thesis
        using that [of s0] False s0 ov by (simp add: lf map_upd_triv)
    qed
  qed
qed

lemma put_level:
  assumes inv: "si_inv s" and "find_level s p \<noteq> None"
  shows "si_inv (put_level s p l)" "find_level (put_level s p l) = (find_level s)(p \<mapsto> l)"
    and "si_side (put_level s p l) = si_side s" "si_band_ticks (put_level s p l) = si_band_ticks s"
proof -
  have "si_inv (put_level s p l) \<and> find_level (put_level s p l) = (find_level s)(p \<mapsto> l)"
  proof (cases "in_band s p")
    case True
    let ?s' = "ladder_put s (tick_of s p) l"
    note bd = in_bandD [OF inv True]
    have lg: "ladder_get ?s' u = (if u = tick_of s p then Some l else ladder_get s u)" for u
      using bd(2) by (simp add: ladder_get_put)
    have inv': "si_inv ?s'"
      using inv bd(1) unfolding si_inv_def by (simp add: lg)
    have occ: "tick_of s p \<in> occupied s"
      using assms(2) True by (simp add: find_level_eq [OF inv] split: if_splits)
    have "find_level ?s' q = ((find_level s)(p \<mapsto> l)) q" for q
    proof (cases "q = p")
      case True
      with occ \<open>in_band s p\<close> show ?thesis by (simp add: find_level_eq [OF inv'] lg)
    next
      case False
      then have "in_band s q \<Longrightarrow> tick_of s q \<noteq> tick_of s p"
        using in_band_inject [OF inv True] by metis
      with False show ?thesis by (simp add: find_level_eq [OF inv] find_level_eq [OF inv'] lg)
    qed
    with True inv' show ?thesis by (auto simp: put_level_def)
  next
    case False
    let ?m = "omap_put p l (si_overflow s)"
    have ne: "si_overflow s \<noteq> []" using assms(2) False by (auto simp: find_level_eq [OF inv])
    have m: "omap_sorted ?m" "\<forall>q \<in> fst ` set ?m. \<not> in_band s q" "?m \<noteq> [] \<Longrightarrow> si_anchored s \<or> si_band_ticks s = 0"
      using si_invD(2,7) [OF inv] si_invD(8) [OF inv ne] False
      by (auto simp: omap_put_sorted omap_put_keys simp del: image_iff)
    have "find_level (s\<lparr>si_overflow := ?m\<rparr>) = (find_level s)(p \<mapsto> l)"
      using False si_invD(2) [OF inv]
      by (auto simp: fun_eq_iff find_level_overflow [OF inv m] omap_put_map_of find_level_eq [OF inv])
    with False si_inv_overflow [OF inv m] show ?thesis by (simp add: put_level_def)
  qed
  then show "si_inv (put_level s p l)" "find_level (put_level s p l) = (find_level s)(p \<mapsto> l)" by blast+
  show "si_side (put_level s p l) = si_side s" "si_band_ticks (put_level s p l) = si_band_ticks s"
    by (simp_all add: put_level_def)
qed

lemma erase_level:
  assumes inv: "si_inv s"
  obtains s' where "erase_level s p = Some s'" "si_inv s'" "si_side s' = si_side s"
    "si_band_ticks s' = si_band_ticks s" "find_level s' = (find_level s)(p := None)"
proof (cases "in_band s p")
  case True
  note bd = in_bandD [OF inv True]
  obtain s1 where s1: "clear_occupied s (tick_of s p) = Some s1" "bitmap_inv s1"
    "occupied s1 = occupied s - {tick_of s p}"
    "s1 = s\<lparr>si_occupancy := si_occupancy s1, si_mid_summary := si_mid_summary s1, si_summary := si_summary s1\<rparr>"
    by (rule clear_occupied [OF si_invD(1) [OF inv] bd(2,3)])
  note fr = bitmap_frame [OF s1(4)]
  have inv': "si_inv s1"
    using inv s1(2,3) bd(1) unfolding si_inv_def by (simp add: fr)
  have "find_level s1 q = ((find_level s)(p := None)) q" for q
  proof (cases "q = p")
    case True
    with s1(3) \<open>in_band s p\<close> show ?thesis by (simp add: find_level_eq [OF inv'] fr)
  next
    case False
    then have "in_band s q \<Longrightarrow> tick_of s q \<noteq> tick_of s p"
      using in_band_inject [OF inv True] by metis
    with False s1(3) show ?thesis by (simp add: find_level_eq [OF inv] find_level_eq [OF inv'] fr)
  qed
  then have "find_level s1 = (find_level s)(p := None)" by (rule ext)
  then show ?thesis
    using that [of s1] True s1(1) inv' fr by (simp add: erase_level_def)
next
  case False
  let ?m = "omap_erase p (si_overflow s)"
  have m: "omap_sorted ?m" "\<forall>q \<in> fst ` set ?m. \<not> in_band s q" "?m \<noteq> [] \<Longrightarrow> si_anchored s \<or> si_band_ticks s = 0"
  proof -
    show "omap_sorted ?m" using si_invD(2) [OF inv] by (rule omap_erase_sorted)
    show "\<forall>q \<in> fst ` set ?m. \<not> in_band s q" using si_invD(7) [OF inv] by (simp add: omap_erase_keys)
    assume "?m \<noteq> []"
    then have "si_overflow s \<noteq> []" by (auto simp: omap_erase_def)
    then show "si_anchored s \<or> si_band_ticks s = 0" by (rule si_invD(8) [OF inv])
  qed
  have "find_level (s\<lparr>si_overflow := ?m\<rparr>) = (find_level s)(p := None)"
    using False by (auto simp: fun_eq_iff find_level_overflow [OF inv m] omap_erase_map_of find_level_eq [OF inv])
  with that [of "s\<lparr>si_overflow := ?m\<rparr>"] False si_inv_overflow [OF inv m] show ?thesis
    by (simp add: erase_level_def)
qed

subsection \<open>Price priority\<close>

text \<open>
  \<open>better sd p q\<close>: on side \<open>sd\<close> a level at \<open>p\<close> has priority over one at \<open>q\<close>.
  \<open>first_price sd S p\<close>: \<open>p\<close> is the price of \<open>S\<close> with the highest priority.
\<close>

fun better :: "Side \<Rightarrow> Price \<Rightarrow> Price \<Rightarrow> bool" where
  "better Buy p q \<longleftrightarrow> p > q"
| "better Sell p q \<longleftrightarrow> p < q"

definition first_price :: "Side \<Rightarrow> Price set \<Rightarrow> Price \<Rightarrow> bool" where
  "first_price sd S p \<longleftrightarrow> p \<in> S \<and> (\<forall>q \<in> S. q = p \<or> better sd p q)"

lemma better_irrefl [simp]: "\<not> better sd p p"
  by (cases sd) simp_all

lemma better_trans: "better sd p q \<Longrightarrow> better sd q r \<Longrightarrow> better sd p r"
  by (cases sd) auto

lemma better_total: "p \<noteq> q \<Longrightarrow> better sd p q \<or> better sd q p"
  by (cases sd) auto

lemma better_asym: "better sd p q \<Longrightarrow> \<not> better sd q p"
  by (cases sd) auto

lemma first_price_unique: "first_price sd S p \<Longrightarrow> first_price sd S q \<Longrightarrow> p = q"
  unfolding first_price_def using better_asym by metis

lemma first_price_Un:
  "first_price sd A a \<Longrightarrow> first_price sd B b \<Longrightarrow> first_price sd (A \<union> B) (better_of sd a b)"
  by (cases sd) (force simp: first_price_def better_of_def)+

lemma first_price_ladder:
  assumes "si_inv s" "T \<subseteq> occupied s"
    and "if si_side s = Buy then is_greatest T t else is_least T t"
  shows "first_price (si_side s) (price_of s ` T) (price_of s t)"
proof -
  have t: "t \<in> T" using assms(3) by (auto simp: is_greatest_def is_least_def split: if_splits)
  with assms(2) have a: "si_anchored s" using occupied_anchored [OF assms(1)] by blast
  have ord: "price_of s u < price_of s v \<longleftrightarrow> u < v" if "u \<in> T" "v \<in> T" for u v
    using that assms(2) si_invD(6) [OF assms(1)] by (intro tick_order [OF assms(1) a]) auto
  show ?thesis
    using assms(3) t ord by (cases "si_side s")
      (auto simp: first_price_def is_greatest_def is_least_def le_less)
qed

lemma spilled_best:
  assumes "si_inv s" "si_overflow s \<noteq> []"
  obtains b where "spilled_best s = Some b" "first_price (si_side s) (fst ` set (si_overflow s)) b"
proof -
  have srt: "omap_sorted (si_overflow s)" by (rule si_invD(2) [OF assms(1)])
  have "spilled_best s \<noteq> None"
    using assms(2) by (simp add: spilled_best_def omap_last_None omap_first_None del: not_None_eq)
  then obtain b where b: "spilled_best s = Some b" by blast
  then have "first_price (si_side s) (fst ` set (si_overflow s)) b"
    using omap_last_iff [OF srt, of b] omap_first_iff [OF srt, of b]
    by (cases "si_side s") (auto simp: spilled_best_def first_price_def le_less)
  with b that show ?thesis by blast
qed

text \<open>The best price is the occupied price of highest priority.\<close>

lemma best_price:
  assumes inv: "si_inv s" and "level_prices s \<noteq> {}"
  obtains p where "best_price s = Some p" "first_price (si_side s) (level_prices s) p"
proof -
  let ?occ = "price_of s ` occupied s" and ?ov = "fst ` set (si_overflow s)"
  have lp: "level_prices s = ?occ \<union> ?ov" by (rule level_prices_eq [OF inv])
  obtain t where t: "(if si_side s = Buy then highest_occupied s else lowest_occupied s) = Some t"
    and tc: "occupied s = {} \<and> t = si_band_ticks s \<or>
      (if si_side s = Buy then is_greatest (occupied s) t else is_least (occupied s) t)"
    using highest_occupied [OF si_invD(1) [OF inv]] lowest_occupied [OF si_invD(1) [OF inv]]
    by (cases "si_side s") auto
  show ?thesis
  proof (cases "occupied s = {}")
    case True
    with tc have tb: "t = si_band_ticks s" by (auto simp: is_greatest_def is_least_def split: if_splits)
    from True assms(2) lp have "si_overflow s \<noteq> []" by auto
    then obtain b where "spilled_best s = Some b" "first_price (si_side s) ?ov b"
      by (rule spilled_best [OF inv])
    with that [of b] t tb True lp show ?thesis by (simp add: best_price_def)
  next
    case False
    with tc have fp: "first_price (si_side s) ?occ (price_of s t)" and "t \<in> occupied s"
      using first_price_ladder [OF inv subset_refl, of t]
      by (auto simp: is_greatest_def is_least_def split: if_splits)
    then have tb: "t \<noteq> si_band_ticks s" using si_invD(6) [OF inv] by auto
    show ?thesis
    proof (cases "si_overflow s = []")
      case True
      with that [of "price_of s t"] t tb fp lp show ?thesis by (simp add: best_price_def)
    next
      case ov: False
      obtain b where b: "spilled_best s = Some b" "first_price (si_side s) ?ov b"
        by (rule spilled_best [OF inv ov])
      with that [of "better_of (si_side s) (price_of s t) b"] t tb ov first_price_Un [OF fp b(2)] lp
      show ?thesis by (simp add: best_price_def)
    qed
  qed
qed

text \<open>The ladder's candidate for the next price, in either direction.\<close>

lemma band_ends:
  assumes inv: "si_inv s" and a: "si_anchored s"
  shows "0 < si_band_ticks s" "price_of s 0 = si_base s"
    and "si_base s + of_nat (si_band_ticks s) - 1 = price_of s (si_band_ticks s - 1)"
proof -
  show b: "0 < si_band_ticks s"
    using si_invD(1,4) [OF inv] a by (auto simp: bitmap_inv_def split: option.splits)
  show "price_of s 0 = si_base s" by (simp add: price_of_def)
  have "of_nat (si_band_ticks s) - 1 = (of_nat (si_band_ticks s - 1) :: i64)"
    using b by (simp add: of_nat_diff)
  then show "si_base s + of_nat (si_band_ticks s) - 1 = price_of s (si_band_ticks s - 1)"
    by (simp add: price_of_def algebra_simps)
qed

lemma price_vs_tick:
  assumes inv: "si_inv s" and a: "si_anchored s" and u: "u < si_band_ticks s"
  shows "p > si_base s + of_nat (si_band_ticks s) - 1 \<Longrightarrow> price_of s u < p"
    and "p < si_base s \<Longrightarrow> p < price_of s u"
    and "p \<le> si_base s \<Longrightarrow> \<not> price_of s u < p"
    and "p \<ge> si_base s + of_nat (si_band_ticks s) - 1 \<Longrightarrow> \<not> p < price_of s u"
    and "si_base s \<le> p \<Longrightarrow> p \<le> si_base s + of_nat (si_band_ticks s) - 1 \<Longrightarrow>
      tick_of s p < si_band_ticks s \<and>
      (price_of s u < p \<longleftrightarrow> u < tick_of s p) \<and> (p < price_of s u \<longleftrightarrow> tick_of s p < u)"
proof -
  note b = band_ends(1) [OF inv a]
  have v: "ival (price_of s u) = ival (si_base s) + int u"
    "ival (si_base s + of_nat (si_band_ticks s) - 1) = ival (si_base s) + int (si_band_ticks s) - 1"
    unfolding band_ends(3) [OF inv a] using price_of_ival [OF inv a] u b by (auto simp: of_nat_diff)
  show "p > si_base s + of_nat (si_band_ticks s) - 1 \<Longrightarrow> price_of s u < p"
    "p < si_base s \<Longrightarrow> p < price_of s u" "p \<le> si_base s \<Longrightarrow> \<not> price_of s u < p"
    "p \<ge> si_base s + of_nat (si_band_ticks s) - 1 \<Longrightarrow> \<not> p < price_of s u"
    using u unfolding i64_order_defs v by linarith+
  assume "si_base s \<le> p" "p \<le> si_base s + of_nat (si_band_ticks s) - 1"
  then have "in_band s p" unfolding in_band_iff [OF inv a] i64_order_defs v by linarith
  note bd = in_bandD [OF inv this]
  show "tick_of s p < si_band_ticks s \<and>
      (price_of s u < p \<longleftrightarrow> u < tick_of s p) \<and> (p < price_of s u \<longleftrightarrow> tick_of s p < u)"
    using bd(3,5) v(1) unfolding i64_order_defs by linarith
qed

text \<open>
  \<open>is_next s S r\<close>: \<open>r\<close> is the answer of a next-price query for the set \<open>S\<close> of candidates.
\<close>

definition is_next :: "Side \<Rightarrow> Price set \<Rightarrow> Price option \<Rightarrow> bool" where
  "is_next sd S r \<longleftrightarrow> (case r of None \<Rightarrow> S = {} | Some q \<Rightarrow> first_price sd S q)"

lemma is_next_Un:
  assumes "is_next sd A r" "is_next sd B r'"
  shows "is_next sd (A \<union> B) (case r of None \<Rightarrow> r'
      | Some a \<Rightarrow> (case r' of None \<Rightarrow> Some a | Some b \<Rightarrow> Some (better_of sd a b)))"
  using assms first_price_Un by (cases r; cases r') (simp_all add: is_next_def)

lemma is_next_tick:
  assumes "si_inv s" "T \<subseteq> occupied s"
    and "T = {} \<and> t = si_band_ticks s \<or> (if si_side s = Buy then is_greatest T t else is_least T t)"
  shows "is_next (si_side s) (price_of s ` T) (if t \<noteq> si_band_ticks s then Some (price_of s t) else None)"
proof (cases "T = {}")
  case True
  with assms(3) show ?thesis by (auto simp: is_next_def is_greatest_def is_least_def split: if_splits)
next
  case False
  with assms(3) have g: "if si_side s = Buy then is_greatest T t else is_least T t" by blast
  then have "t \<in> T" by (auto simp: is_greatest_def is_least_def split: if_splits)
  with assms(2) si_invD(6) [OF assms(1)] have "t \<noteq> si_band_ticks s" by blast
  with first_price_ladder [OF assms(1,2) g] show ?thesis by (simp add: is_next_def)
qed

lemma ladder_search_buy:
  assumes inv: "si_inv s" and a: "si_anchored s"
  shows "\<exists>t. (if p > si_base s + of_nat (si_band_ticks s) - 1 then highest_occupied s
      else if p \<le> si_base s then Some (si_band_ticks s)
      else highest_occupied_below s (tick_of s p)) = Some t \<and>
    ({u \<in> occupied s. price_of s u < p} = {} \<and> t = si_band_ticks s \<or>
     is_greatest {u \<in> occupied s. price_of s u < p} t)"
proof -
  note bm = si_invD(1) [OF inv] and v = price_vs_tick [OF inv a] and b = band_ends(1) [OF inv a]
  have l: "si_ladder s \<noteq> None" using a si_invD(4) [OF inv] by simp
  have within: "\<forall>x \<in> occupied s. x < si_band_ticks s" using si_invD(6) [OF inv] by blast
  let ?T = "{u \<in> occupied s. price_of s u < p}"
  consider "p > si_base s + of_nat (si_band_ticks s) - 1" | "\<not> p > si_base s + of_nat (si_band_ticks s) - 1" "p \<le> si_base s"
    | "\<not> p > si_base s + of_nat (si_band_ticks s) - 1" "\<not> p \<le> si_base s" by blast
  then show ?thesis
  proof cases
    case 1
    then have "?T = occupied s" using v(1) within by blast
    with highest_occupied [OF bm] 1 show ?thesis by simp
  next
    case 2
    then have "?T = {}" using v(3) within by blast
    with 2 show ?thesis by simp
  next
    case 3
    then have le: "si_base s \<le> p" "p \<le> si_base s + of_nat (si_band_ticks s) - 1" by auto
    have t: "tick_of s p < si_band_ticks s" using v(5) [OF b le] by blast
    have "?T = {x \<in> occupied s. x < tick_of s p}" using v(5) [OF _ le] within by blast
    with highest_occupied_below [OF bm l t within] 3 show ?thesis by simp
  qed
qed

lemma ladder_search_sell:
  assumes inv: "si_inv s" and a: "si_anchored s"
  shows "\<exists>t. (if p < si_base s then lowest_occupied s
      else if p \<ge> si_base s + of_nat (si_band_ticks s) - 1 then Some (si_band_ticks s)
      else lowest_occupied_above s (tick_of s p)) = Some t \<and>
    ({u \<in> occupied s. p < price_of s u} = {} \<and> t = si_band_ticks s \<or>
     is_least {u \<in> occupied s. p < price_of s u} t)"
proof -
  note bm = si_invD(1) [OF inv] and v = price_vs_tick [OF inv a] and b = band_ends(1) [OF inv a]
  have l: "si_ladder s \<noteq> None" using a si_invD(4) [OF inv] by simp
  have within: "\<forall>x \<in> occupied s. x < si_band_ticks s" using si_invD(6) [OF inv] by blast
  let ?T = "{u \<in> occupied s. p < price_of s u}"
  consider "p < si_base s" | "\<not> p < si_base s" "p \<ge> si_base s + of_nat (si_band_ticks s) - 1"
    | "\<not> p < si_base s" "\<not> p \<ge> si_base s + of_nat (si_band_ticks s) - 1" by blast
  then show ?thesis
  proof cases
    case 1
    then have "?T = occupied s" using v(2) within by blast
    with lowest_occupied [OF bm] 1 show ?thesis by simp
  next
    case 2
    then have "?T = {}" using v(4) within by blast
    with 2 show ?thesis by simp
  next
    case 3
    then have le: "si_base s \<le> p" "p \<le> si_base s + of_nat (si_band_ticks s) - 1" by auto
    have t: "tick_of s p < si_band_ticks s" using v(5) [OF b le] by blast
    have "?T = {x \<in> occupied s. tick_of s p < x}" using v(5) [OF _ le] within by blast
    with lowest_occupied_above [OF bm l t within] 3 show ?thesis by simp
  qed
qed

lemma laddered_next:
  assumes inv: "si_inv s"
  obtains r where "laddered_next s p = Some r"
    "is_next (si_side s) {q \<in> price_of s ` occupied s. better (si_side s) p q} r"
proof (cases "si_anchored s \<and> si_summary s \<noteq> 0")
  case False
  then have "occupied s = {}"
    using summary_0_iff [OF si_invD(1) [OF inv]] occupied_anchored [OF inv] by blast
  with False that [of None] show ?thesis by (auto simp: laddered_next_def is_next_def)
next
  case True
  then have a: "si_anchored s" by simp
  let ?T = "{u \<in> occupied s. better (si_side s) p (price_of s u)}"
  obtain t where t: "laddered_next s p = Some (if t \<noteq> si_band_ticks s then Some (price_of s t) else None)"
    and tc: "?T = {} \<and> t = si_band_ticks s \<or>
      (if si_side s = Buy then is_greatest ?T t else is_least ?T t)"
  proof (cases "si_side s")
    case Buy
    obtain t where "(if p > si_base s + of_nat (si_band_ticks s) - 1 then highest_occupied s
      else if p \<le> si_base s then Some (si_band_ticks s)
      else highest_occupied_below s (tick_of s p)) = Some t"
      "{u \<in> occupied s. price_of s u < p} = {} \<and> t = si_band_ticks s \<or>
        is_greatest {u \<in> occupied s. price_of s u < p} t"
      using ladder_search_buy [OF inv a, of p] by blast
    with Buy True that [of t] show ?thesis by (simp add: laddered_next_def Let_def)
  next
    case Sell
    obtain t where "(if p < si_base s then lowest_occupied s
      else if p \<ge> si_base s + of_nat (si_band_ticks s) - 1 then Some (si_band_ticks s)
      else lowest_occupied_above s (tick_of s p)) = Some t"
      "{u \<in> occupied s. p < price_of s u} = {} \<and> t = si_band_ticks s \<or>
        is_least {u \<in> occupied s. p < price_of s u} t"
      using ladder_search_sell [OF inv a, of p] by blast
    with Sell True that [of t] show ?thesis by (simp add: laddered_next_def Let_def)
  qed
  moreover have "price_of s ` ?T = {q \<in> price_of s ` occupied s. better (si_side s) p q}" by blast
  ultimately show ?thesis
    using that is_next_tick [OF inv _ tc] by auto
qed

lemma spilled_next:
  assumes "si_inv s"
  shows "is_next (si_side s) {q \<in> fst ` set (si_overflow s). better (si_side s) p q} (spilled_next s p)"
proof -
  have srt: "omap_sorted (si_overflow s)" by (rule si_invD(2) [OF assms])
  show ?thesis
  proof (cases "si_side s")
    case Buy
    then show ?thesis
      using omap_before_iff [OF srt, of p]
      by (cases "omap_before (si_overflow s) p") (auto simp: spilled_next_def is_next_def first_price_def le_less)
  next
    case Sell
    then show ?thesis
      using omap_after_iff [OF srt, of p]
      by (cases "omap_after (si_overflow s) p") (auto simp: spilled_next_def is_next_def first_price_def le_less)
  qed
qed

text \<open>The next price is the occupied price of highest priority strictly past the given one.\<close>

lemma next_price:
  assumes inv: "si_inv s"
  obtains r where "next_price s p = Some r"
    "is_next (si_side s) {q \<in> level_prices s. better (si_side s) p q} r"
proof -
  let ?A = "{q \<in> price_of s ` occupied s. better (si_side s) p q}"
  let ?B = "{q \<in> fst ` set (si_overflow s). better (si_side s) p q}"
  obtain r where r: "laddered_next s p = Some r" "is_next (si_side s) ?A r"
    by (rule laddered_next [OF inv])
  have b: "is_next (si_side s) ?B (spilled_next s p)" by (rule spilled_next [OF inv])
  have U: "{q \<in> level_prices s. better (si_side s) p q} = ?A \<union> ?B"
    by (auto simp: level_prices_eq [OF inv])
  show ?thesis
  proof (rule that)
    show "next_price s p = Some (case r of None \<Rightarrow> spilled_next s p
      | Some a \<Rightarrow> (case spilled_next s p of None \<Rightarrow> Some a | Some b \<Rightarrow> Some (better_of (si_side s) a b)))"
      by (simp add: next_price_def r)
    show "is_next (si_side s) {q \<in> level_prices s. better (si_side s) p q}
      (case r of None \<Rightarrow> spilled_next s p
      | Some a \<Rightarrow> (case spilled_next s p of None \<Rightarrow> Some a | Some b \<Rightarrow> Some (better_of (si_side s) a b)))"
      unfolding U by (rule is_next_Un [OF r(2) b])
  qed
qed

end
