(* ===== verification/Price_Index.thy ===== *)
theory Price_Index
  imports Side_Index
begin

text \<open>
  The interface the book sees of a side's price index: which levels exist, the best price, and
  the next price in priority order. The walk \<open>for (price = best; ; price = *next)\<close> that the book
  writes twice visits every level once, best first; this is proved from the interface alone, and
  \<open>SideIndex\<close> is an instance of it.
\<close>

subsection \<open>Prices in priority order\<close>

definition priority_prices :: "Side \<Rightarrow> Price set \<Rightarrow> Price list" where
  "priority_prices sd S = (if sd = Buy then rev (sorted_list_of_set S) else sorted_list_of_set S)"

lemma set_priority_prices [simp]: "finite S \<Longrightarrow> set (priority_prices sd S) = S"
  by (simp add: priority_prices_def)

lemma distinct_priority_prices [simp]: "distinct (priority_prices sd S)"
  by (simp add: priority_prices_def)

lemma sorted_priority_prices: "sorted_wrt (better sd) (priority_prices sd S)"
proof -
  have "better Buy = (\<lambda>p q. q < p)" "better Sell = (<)" by (simp_all add: fun_eq_iff)
  moreover have "sorted_wrt (<) (sorted_list_of_set S)" by simp
  ultimately show ?thesis by (cases sd) (simp_all add: priority_prices_def sorted_wrt_rev)
qed

lemma sorted_wrt_better_unique:
  "sorted_wrt (better sd) xs \<Longrightarrow> sorted_wrt (better sd) ys \<Longrightarrow> set xs = set ys \<Longrightarrow> xs = ys"
proof (induction xs arbitrary: ys)
  case (Cons x xs)
  then obtain y ys' where ys: "ys = y # ys'" by (cases ys) auto
  have "x = y" using Cons.prems better_asym unfolding ys by simp (metis insert_iff)
  moreover have "x \<notin> set xs" "y \<notin> set ys'" using Cons.prems ys by auto
  ultimately have "set xs = set ys'" using Cons.prems(3) ys by auto
  with Cons ys \<open>x = y\<close> show ?case by simp
qed simp

lemma priority_prices_Cons:
  assumes "finite S" "first_price sd S p"
  shows "priority_prices sd S = p # priority_prices sd {q \<in> S. better sd p q}"
proof (rule sorted_wrt_better_unique)
  show "sorted_wrt (better sd) (priority_prices sd S)" by (rule sorted_priority_prices)
  show "sorted_wrt (better sd) (p # priority_prices sd {q \<in> S. better sd p q})"
    using assms(1) by (simp add: sorted_priority_prices)
  show "set (priority_prices sd S) = set (p # priority_prices sd {q \<in> S. better sd p q})"
    using assms by (auto simp: first_price_def)
qed

lemma priority_prices_empty [simp]: "priority_prices sd {} = []"
  by (simp add: priority_prices_def)

subsection \<open>The interface and the walk\<close>

locale price_index =
  fixes inv :: "'i \<Rightarrow> bool" and side :: "'i \<Rightarrow> Side" and levels :: "'i \<Rightarrow> Price set"
    and best :: "'i \<Rightarrow> Price option" and next_of :: "'i \<Rightarrow> Price \<Rightarrow> Price option option"
  assumes finite_levels: "inv s \<Longrightarrow> finite (levels s)"
    and best_first: "inv s \<Longrightarrow> levels s \<noteq> {} \<Longrightarrow> \<exists>p. best s = Some p \<and> first_price (side s) (levels s) p"
    and next_first: "inv s \<Longrightarrow> \<exists>r. next_of s p = Some r \<and> is_next (side s) {q \<in> levels s. better (side s) p q} r"
begin

definition remaining :: "'i \<Rightarrow> Price \<Rightarrow> Price list" where
  "remaining s p = p # priority_prices (side s) {q \<in> levels s. better (side s) p q}"

lemma remaining_best:
  assumes "inv s" "levels s \<noteq> {}"
  obtains p where "best s = Some p" "p \<in> levels s" "remaining s p = priority_prices (side s) (levels s)"
proof -
  obtain p where "best s = Some p" and f: "first_price (side s) (levels s) p" using best_first assms by blast
  moreover have "p \<in> levels s" using f by (simp add: first_price_def)
  moreover have "remaining s p = priority_prices (side s) (levels s)"
    using priority_prices_Cons [OF finite_levels [OF assms(1)] f] by (simp add: remaining_def)
  ultimately show ?thesis using that by blast
qed

lemma remaining_next:
  assumes i: "inv s"
  obtains "next_of s p = Some None" "remaining s p = [p]"
  | q where "next_of s p = Some (Some q)" "q \<in> levels s" "better (side s) p q" "remaining s p = p # remaining s q"
proof -
  let ?L = "{q \<in> levels s. better (side s) p q}"
  obtain r where r: "next_of s p = Some r" "is_next (side s) ?L r" using next_first [OF i] by blast
  show ?thesis
  proof (cases r)
    case None
    then have "?L = {}" using r(2) by (simp add: is_next_def)
    then have "remaining s p = [p]" unfolding remaining_def by (metis priority_prices_empty)
    with None r that(1) show ?thesis by simp
  next
    case (Some q)
    then have q: "first_price (side s) ?L q" using r(2) by (simp add: is_next_def)
    then have "q \<in> ?L" by (simp add: first_price_def)
    moreover have "{t \<in> ?L. better (side s) q t} = {t \<in> levels s. better (side s) q t}"
      using calculation better_trans by blast
    then have "remaining s p = p # remaining s q"
      using priority_prices_Cons [OF _ q] finite_levels [OF i] by (simp add: remaining_def)
    ultimately show ?thesis using that(2) Some r by simp
  qed
qed

text \<open>A property of every suffix of the walk, proved from the worst level backwards.\<close>

lemma walk_induct:
  assumes i: "inv s" and p: "p \<in> levels s"
    and last: "\<And>p. p \<in> levels s \<Longrightarrow> next_of s p = Some None \<Longrightarrow> P p [p]"
    and step: "\<And>p q ps. p \<in> levels s \<Longrightarrow> next_of s p = Some (Some q) \<Longrightarrow> better (side s) p q \<Longrightarrow>
      P q (remaining s q) \<Longrightarrow> P p (p # remaining s q)"
  shows "P p (remaining s p)"
  using p
proof (induction "length (remaining s p)" arbitrary: p rule: less_induct)
  case less
  show ?case
  proof (cases rule: remaining_next [OF i, of p])
    case 1
    with last less.prems show ?thesis by simp
  next
    case (2 q)
    with less step show ?thesis by simp
  qed
qed

end

interpretation side_index: price_index si_inv si_side level_prices best_price next_price
proof
  show "finite (level_prices s)" if "si_inv s" for s using that by (rule finite_level_prices)
  show "\<exists>p. best_price s = Some p \<and> first_price (si_side s) (level_prices s) p"
    if "si_inv s" "level_prices s \<noteq> {}" for s
    using best_price [OF that] by blast
  show "\<exists>r. next_price s p = Some r \<and> is_next (si_side s) {q \<in> level_prices s. better (si_side s) p q} r"
    if "si_inv s" for s p
    using next_price [OF that] by blast
qed

end
