(* ===== verification/Matching_Book.thy ===== *)
theory Matching_Book
  imports Price_Index
begin

text \<open>
  The order book of one instrument, \<open>MatchingBook\<close> of \<open>exchange/matching/matching_book.cpp\<close>: the
  orders in a flat slab whose entries are linked into one queue per price level, freed slots
  threaded through the same links, and one \<open>SideIndex\<close> per side. Every operation returns \<open>None\<close>
  where the C++ would read outside the slab, follow a null level or never leave a loop; the
  lemmas show that on a well-formed book none of this happens and that each operation does to the
  queues of orders what price-time priority asks for.
\<close>

subsection \<open>The model\<close>

record SlabOrder =
  so_order :: BookOrder
  so_next :: nat
  so_prev :: nat

record MatchingBook =
  mb_slab :: "SlabOrder list"
  mb_free_head :: nat
  mb_bids :: SideIndex
  mb_asks :: SideIndex

definition kMaxBandTicks :: nat where
  "kMaxBandTicks = 8192"

definition kMinBandTicks :: nat where
  "kMinBandTicks = 1024"

text \<open>\<open>std::bit_floor\<close>, the largest power of two not above its argument.\<close>

fun bit_floor :: "nat \<Rightarrow> nat" where
  "bit_floor n = (if n = 0 then 0 else if n = 1 then 1 else 2 * bit_floor (n div 2))"

declare bit_floor.simps [simp del]

definition band_for :: "nat \<Rightarrow> nat \<Rightarrow> nat" where
  "band_for instrument_count byte_budget =
     (if instrument_count = 0 then kMaxBandTicks
      else let ticks = byte_budget div instrument_count div (2 * 8) in
        if ticks < kMinBandTicks then 0
        else bit_floor (min ticks kMaxBandTicks))"

definition new_book :: "nat \<Rightarrow> MatchingBook" where
  "new_book band_ticks = \<lparr>mb_slab = [], mb_free_head = kNil,
     mb_bids = new_side_index Buy band_ticks, mb_asks = new_side_index Sell band_ticks\<rparr>"

definition side_of :: "MatchingBook \<Rightarrow> Side \<Rightarrow> SideIndex" where
  "side_of b sd = (if sd = Buy then mb_bids b else mb_asks b)"

definition set_side :: "MatchingBook \<Rightarrow> Side \<Rightarrow> SideIndex \<Rightarrow> MatchingBook" where
  "set_side b sd s = (if sd = Buy then b\<lparr>mb_bids := s\<rparr> else b\<lparr>mb_asks := s\<rparr>)"

definition acquire_slot :: "MatchingBook \<Rightarrow> BookOrder \<Rightarrow> (MatchingBook \<times> nat) option" where
  "acquire_slot b ord =
     (if mb_free_head b \<noteq> kNil then do {
        let slot = mb_free_head b;
        e \<leftarrow> vget (mb_slab b) slot;
        slab \<leftarrow> vset (mb_slab b) slot (e\<lparr>so_order := ord\<rparr>);
        Some (b\<lparr>mb_slab := slab, mb_free_head := so_next e\<rparr>, slot)
      } else do {
        let slab = mb_slab b @ [\<lparr>so_order = ord, so_next = kNil, so_prev = kNil\<rparr>];
        Some (b\<lparr>mb_slab := slab\<rparr>, (length slab - 1) mod 2 ^ 32)
      })"

definition release_slot :: "MatchingBook \<Rightarrow> nat \<Rightarrow> MatchingBook option" where
  "release_slot b slot = do {
     e \<leftarrow> vget (mb_slab b) slot;
     slab \<leftarrow> vset (mb_slab b) slot (e\<lparr>so_next := mb_free_head b\<rparr>);
     Some (b\<lparr>mb_slab := slab, mb_free_head := slot\<rparr>)
   }"

definition link_back :: "SlabOrder list \<Rightarrow> LevelSlot \<Rightarrow> nat \<Rightarrow> (SlabOrder list \<times> LevelSlot) option" where
  "link_back slab level slot = do {
     e \<leftarrow> vget slab slot;
     slab \<leftarrow> vset slab slot (e\<lparr>so_next := kNil, so_prev := lv_tail level\<rparr>);
     if lv_tail level = kNil then Some (slab, level\<lparr>lv_head := slot, lv_tail := slot\<rparr>)
     else do {
       t \<leftarrow> vget slab (lv_tail level);
       slab \<leftarrow> vset slab (lv_tail level) (t\<lparr>so_next := slot\<rparr>);
       Some (slab, level\<lparr>lv_tail := slot\<rparr>)
     }
   }"

definition unlink :: "SlabOrder list \<Rightarrow> LevelSlot \<Rightarrow> nat \<Rightarrow> (SlabOrder list \<times> LevelSlot) option" where
  "unlink slab level slot = do {
     e \<leftarrow> vget slab slot;
     let nxt = so_next e;
     let prv = so_prev e;
     (slab, level) \<leftarrow> (if prv = kNil then Some (slab, level\<lparr>lv_head := nxt\<rparr>)
       else do {
         p \<leftarrow> vget slab prv;
         slab \<leftarrow> vset slab prv (p\<lparr>so_next := nxt\<rparr>);
         Some (slab, level)
       });
     if nxt = kNil then Some (slab, level\<lparr>lv_tail := prv\<rparr>)
     else do {
       n \<leftarrow> vget slab nxt;
       slab \<leftarrow> vset slab nxt (n\<lparr>so_prev := prv\<rparr>);
       Some (slab, level)
     }
   }"

definition add :: "MatchingBook \<Rightarrow> BookOrder \<Rightarrow> (MatchingBook \<times> nat) option" where
  "add b ord = do {
     (b, slot) \<leftarrow> acquire_slot b ord;
     s \<leftarrow> level_for (side_of b (bo_side ord)) (bo_price ord);
     level \<leftarrow> level_at s (bo_price ord);
     (slab, level) \<leftarrow> link_back (mb_slab b) level slot;
     Some (set_side (b\<lparr>mb_slab := slab\<rparr>) (bo_side ord) (put_level s (bo_price ord) level), slot)
   }"

definition remove_at :: "MatchingBook \<Rightarrow> nat \<Rightarrow> (MatchingBook \<times> BookOrder) option" where
  "remove_at b slot = do {
     e \<leftarrow> vget (mb_slab b) slot;
     let removed = so_order e;
     let s = side_of b (bo_side removed);
     level \<leftarrow> find_level s (bo_price removed);
     (slab, level) \<leftarrow> unlink (mb_slab b) level slot;
     let s = put_level s (bo_price removed) level;
     s \<leftarrow> (if lv_head level = kNil then erase_level s (bo_price removed) else Some s);
     b \<leftarrow> release_slot (set_side (b\<lparr>mb_slab := slab\<rparr>) (bo_side removed) s) slot;
     Some (b, removed)
   }"

definition book_at :: "MatchingBook \<Rightarrow> nat \<Rightarrow> BookOrder option" where
  "book_at b slot = map_option so_order (vget (mb_slab b) slot)"

definition reduce_at :: "MatchingBook \<Rightarrow> nat \<Rightarrow> Quantity \<Rightarrow> MatchingBook option" where
  "reduce_at b slot new_remaining_quantity = do {
     e \<leftarrow> vget (mb_slab b) slot;
     slab \<leftarrow> vset (mb_slab b) slot
       (e\<lparr>so_order := (so_order e)\<lparr>bo_remaining_quantity := new_remaining_quantity\<rparr>\<rparr>);
     Some (b\<lparr>mb_slab := slab\<rparr>)
   }"

definition set_client_order_id_at :: "MatchingBook \<Rightarrow> nat \<Rightarrow> ClientOrderId \<Rightarrow> MatchingBook option" where
  "set_client_order_id_at b slot new_client_order_id = do {
     e \<leftarrow> vget (mb_slab b) slot;
     slab \<leftarrow> vset (mb_slab b) slot
       (e\<lparr>so_order := (so_order e)\<lparr>bo_client_order_id := new_client_order_id\<rparr>\<rparr>);
     Some (b\<lparr>mb_slab := slab\<rparr>)
   }"

definition best_bid_price :: "MatchingBook \<Rightarrow> Price option option" where
  "best_bid_price b =
     (if si_empty (mb_bids b) then Some None else map_option Some (best_price (mb_bids b)))"

definition best_ask_price :: "MatchingBook \<Rightarrow> Price option option" where
  "best_ask_price b =
     (if si_empty (mb_asks b) then Some None else map_option Some (best_price (mb_asks b)))"

text \<open>The slot at the front of the best level, shared by the three front operations.\<close>

definition front_slot :: "MatchingBook \<Rightarrow> Side \<Rightarrow> nat option" where
  "front_slot b book_side = do {
     p \<leftarrow> best_price (side_of b book_side);
     level \<leftarrow> level_at (side_of b book_side) p;
     Some (lv_head level)
   }"

definition front_of_best :: "MatchingBook \<Rightarrow> Side \<Rightarrow> BookOrder option option" where
  "front_of_best b book_side =
     (if si_empty (side_of b book_side) then Some None
      else do {
        slot \<leftarrow> front_slot b book_side;
        e \<leftarrow> vget (mb_slab b) slot;
        Some (Some (so_order e))
      })"

definition reduce_front :: "MatchingBook \<Rightarrow> Side \<Rightarrow> Quantity \<Rightarrow> MatchingBook option" where
  "reduce_front b book_side new_remaining_quantity = do {
     slot \<leftarrow> front_slot b book_side;
     reduce_at b slot new_remaining_quantity
   }"

definition remove_front :: "MatchingBook \<Rightarrow> Side \<Rightarrow> MatchingBook option" where
  "remove_front b book_side = do {
     let s = side_of b book_side;
     p \<leftarrow> best_price s;
     level \<leftarrow> level_at s p;
     let head = lv_head level;
     (slab, level) \<leftarrow> unlink (mb_slab b) level head;
     b \<leftarrow> release_slot (b\<lparr>mb_slab := slab\<rparr>) head;
     let s = put_level s p level;
     s \<leftarrow> (if lv_head level = kNil then erase_level s p else Some s);
     Some (set_side b book_side s)
   }"

text \<open>
  The loops over one level's queue and over the levels of a side. A chain that never reaches
  \<open>kNil\<close> would loop forever; the model is \<open>None\<close> there.
\<close>

partial_function (option) cross_level ::
  "SlabOrder list \<Rightarrow> Quantity \<Rightarrow> nat \<Rightarrow> Quantity \<Rightarrow> (bool \<times> Quantity) option" where
  "cross_level slab quantity slot acc =
     (if slot = kNil then Some (False, acc)
      else do {
        e \<leftarrow> vget slab slot;
        let acc = acc + bo_remaining_quantity (so_order e);
        if acc \<ge> quantity then Some (True, acc)
        else cross_level slab quantity (so_next e) acc
      })"

partial_function (option) cross_levels ::
  "SlabOrder list \<Rightarrow> SideIndex \<Rightarrow> bool \<Rightarrow> Price \<Rightarrow> Quantity \<Rightarrow> Price \<Rightarrow> Quantity \<Rightarrow> Quantity option" where
  "cross_levels slab s bids price quantity level_price acc =
     (if (if bids then price > level_price else price < level_price) then Some acc
      else do {
        level \<leftarrow> level_at s level_price;
        (covered, acc) \<leftarrow> cross_level slab quantity (lv_head level) acc;
        if covered then Some acc
        else do {
          n \<leftarrow> next_price s level_price;
          (case n of None \<Rightarrow> Some acc
           | Some p \<Rightarrow> cross_levels slab s bids price quantity p acc)
        }
      })"

definition crossable_quantity :: "MatchingBook \<Rightarrow> Side \<Rightarrow> Price \<Rightarrow> Quantity \<Rightarrow> Quantity option" where
  "crossable_quantity b book_side price quantity =
     (let s = side_of b book_side in
      if si_empty s then Some 0
      else do {
        p \<leftarrow> best_price s;
        cross_levels (mb_slab b) s (book_side = Buy) price quantity p 0
      })"

partial_function (option) level_orders :: "SlabOrder list \<Rightarrow> nat \<Rightarrow> BookOrder list option" where
  "level_orders slab slot =
     (if slot = kNil then Some []
      else do {
        e \<leftarrow> vget slab slot;
        rest \<leftarrow> level_orders slab (so_next e);
        Some (so_order e # rest)
      })"

partial_function (option) orders_from :: "SlabOrder list \<Rightarrow> SideIndex \<Rightarrow> Price \<Rightarrow> BookOrder list option" where
  "orders_from slab s level_price = do {
     level \<leftarrow> level_at s level_price;
     here \<leftarrow> level_orders slab (lv_head level);
     n \<leftarrow> next_price s level_price;
     rest \<leftarrow> (case n of None \<Rightarrow> Some [] | Some p \<Rightarrow> orders_from slab s p);
     Some (here @ rest)
   }"

definition all_of :: "MatchingBook \<Rightarrow> Side \<Rightarrow> BookOrder list option" where
  "all_of b book_side =
     (let s = side_of b book_side in
      if si_empty s then Some []
      else do {
        p \<leftarrow> best_price s;
        orders_from (mb_slab b) s p
      })"

definition all_bids :: "MatchingBook \<Rightarrow> BookOrder list option" where
  "all_bids b = all_of b Buy"

definition all_asks :: "MatchingBook \<Rightarrow> BookOrder list option" where
  "all_asks b = all_of b Sell"

definition out_of_band_levels :: "MatchingBook \<Rightarrow> nat" where
  "out_of_band_levels b = overflow_levels (mb_bids b) + overflow_levels (mb_asks b)"

declare cross_level.simps [code] cross_levels.simps [code] level_orders.simps [code] orders_from.simps [code]

subsection \<open>Queues in the slab\<close>

text \<open>
  \<open>dlseg slab prv xs nxt\<close>: the slots \<open>xs\<close> are linked in this order, the first one back to
  \<open>prv\<close> and the last one on to \<open>nxt\<close>. \<open>level_rep\<close> says that a level's head and tail delimit the
  queue \<open>xs\<close>, and \<open>free_seg\<close> that the freed slots are \<open>xs\<close>.
\<close>

named_theorems seg_simps \<open>rules for linked segments\<close>

fun dlseg :: "SlabOrder list \<Rightarrow> nat \<Rightarrow> nat list \<Rightarrow> nat \<Rightarrow> bool" where
  "dlseg sl prv [] nxt \<longleftrightarrow> True"
| "dlseg sl prv (x # xs) nxt \<longleftrightarrow>
     x < length sl \<and> so_prev (sl ! x) = prv \<and> so_next (sl ! x) = hd (xs @ [nxt]) \<and> dlseg sl x xs nxt"

fun free_seg :: "SlabOrder list \<Rightarrow> nat \<Rightarrow> nat list \<Rightarrow> bool" where
  "free_seg sl h [] \<longleftrightarrow> h = kNil"
| "free_seg sl h (x # xs) \<longleftrightarrow> h = x \<and> x < length sl \<and> free_seg sl (so_next (sl ! x)) xs"

definition level_rep :: "SlabOrder list \<Rightarrow> LevelSlot \<Rightarrow> nat list \<Rightarrow> bool" where
  "level_rep sl l xs \<longleftrightarrow> xs \<noteq> [] \<and> distinct xs \<and> lv_head l = hd xs \<and> lv_tail l = last xs \<and> dlseg sl kNil xs kNil"

lemma dlseg_append [seg_simps]:
  "dlseg sl prv (xs @ ys) nxt \<longleftrightarrow>
     dlseg sl prv xs (hd (ys @ [nxt])) \<and> dlseg sl (last (prv # xs)) ys nxt"
proof (induction xs arbitrary: prv)
  case (Cons x xs)
  then show ?case by (cases xs) auto
qed simp

lemma dlseg_bound: "dlseg sl prv xs nxt \<Longrightarrow> x \<in> set xs \<Longrightarrow> x < length sl"
  by (induction xs arbitrary: prv) auto

lemma dlseg_cong:
  assumes "\<And>x. x \<in> set xs \<Longrightarrow> x < length sl \<Longrightarrow>
    x < length sl' \<and> so_next (sl' ! x) = so_next (sl ! x) \<and> so_prev (sl' ! x) = so_prev (sl ! x)"
    and "dlseg sl prv xs nxt"
  shows "dlseg sl' prv xs nxt"
  using assms by (induction xs arbitrary: prv) auto

lemma free_seg_bound: "free_seg sl h xs \<Longrightarrow> x \<in> set xs \<Longrightarrow> x < length sl"
  by (induction xs arbitrary: h) auto

lemma free_seg_cong:
  assumes "\<And>x. x \<in> set xs \<Longrightarrow> x < length sl \<Longrightarrow> x < length sl' \<and> so_next (sl' ! x) = so_next (sl ! x)"
    and "free_seg sl h xs"
  shows "free_seg sl' h xs"
  using assms by (induction xs arbitrary: h) auto

lemma dlseg_update_other [simp]:
  "y \<notin> set xs \<Longrightarrow> dlseg (sl[y := e]) prv xs nxt \<longleftrightarrow> dlseg sl prv xs nxt"
  by (induction xs arbitrary: prv) (auto simp: nth_list_update_neq)

lemma free_seg_update_other [simp]:
  "y \<notin> set xs \<Longrightarrow> free_seg (sl[y := e]) h xs \<longleftrightarrow> free_seg sl h xs"
  by (induction xs arbitrary: h) (auto simp: nth_list_update_neq)

text \<open>Redirecting the link at either end of a segment.\<close>

lemma dlseg_relink_end:
  assumes "dlseg sl prv (xs @ [y]) n" "y \<notin> set xs"
  shows "dlseg (sl[y := (sl ! y)\<lparr>so_next := n'\<rparr>]) prv (xs @ [y]) n'"
  using assms by (simp add: dlseg_append)

lemma dlseg_relink_start:
  assumes "dlseg sl prv (x # xs) n" "x \<notin> set xs"
  shows "dlseg (sl[x := (sl ! x)\<lparr>so_prev := p'\<rparr>]) p' (x # xs) n"
  using assms by simp

text \<open>Appending a slot to a level, and taking one out of it.\<close>

lemma link_back_empty:
  assumes "slot < length sl"
  obtains sl' l' where "link_back sl empty_level slot = Some (sl', l')" "level_rep sl' l' [slot]"
    "length sl' = length sl" "\<And>x. x \<noteq> slot \<Longrightarrow> sl' ! x = sl ! x"
    "\<And>x. so_order (sl' ! x) = so_order (sl ! x)"
proof (rule that)
  let ?sl = "sl[slot := (sl ! slot)\<lparr>so_next := kNil, so_prev := kNil\<rparr>]"
  show "link_back sl empty_level slot = Some (?sl, \<lparr>lv_head = slot, lv_tail = slot\<rparr>)"
    using assms by (simp add: link_back_def empty_level_def)
  show "level_rep ?sl \<lparr>lv_head = slot, lv_tail = slot\<rparr> [slot]"
    using assms by (simp add: level_rep_def)
  show "so_order (?sl ! x) = so_order (sl ! x)" for x
    using assms by (cases "x = slot") auto
qed auto

lemma link_back_rep:
  assumes rep: "level_rep sl l xs" and slot: "slot < length sl" "slot \<notin> set xs" and small: "length sl \<le> kNil"
  obtains sl' l' where "link_back sl l slot = Some (sl', l')" "level_rep sl' l' (xs @ [slot])"
    "length sl' = length sl" "\<And>x. x \<noteq> slot \<Longrightarrow> x \<notin> set xs \<Longrightarrow> sl' ! x = sl ! x"
    "\<And>x. so_order (sl' ! x) = so_order (sl ! x)"
proof -
  define t where "t = lv_tail l"
  obtain ys where xs: "xs = ys @ [t]"
    using rep by (metis append_butlast_last_id level_rep_def t_def)
  have seg: "dlseg sl kNil (ys @ [t]) kNil" and dist: "distinct (ys @ [t])" using rep xs by (auto simp: level_rep_def)
  have t: "t < length sl" "t \<noteq> kNil" "t \<noteq> slot" using dlseg_bound [OF seg, of t] small slot xs by auto
  let ?sl1 = "sl[slot := (sl ! slot)\<lparr>so_next := kNil, so_prev := t\<rparr>]"
  let ?sl2 = "?sl1[t := (?sl1 ! t)\<lparr>so_next := slot\<rparr>]"
  have "dlseg ?sl2 kNil (ys @ [t]) slot"
    by (rule dlseg_relink_end [where n = kNil]) (use seg dist slot xs in auto)
  then have "dlseg ?sl2 kNil ((ys @ [t]) @ [slot]) kNil"
    unfolding dlseg_append [of _ _ "ys @ [t]"] using slot t by simp
  then have "level_rep ?sl2 (l\<lparr>lv_tail := slot\<rparr>) (xs @ [slot])"
    using rep slot xs by (simp add: level_rep_def hd_append)
  moreover have "link_back sl l slot = Some (?sl2, l\<lparr>lv_tail := slot\<rparr>)"
    using slot t by (simp add: link_back_def t_def [symmetric])
  moreover have "so_order (?sl2 ! x) = so_order (sl ! x)" for x
    using t slot by (cases "x = t"; cases "x = slot") auto
  ultimately show ?thesis
    using that [of ?sl2 "l\<lparr>lv_tail := slot\<rparr>"] xs by (simp add: nth_list_update_neq)
qed

lemma unlink_rep:
  assumes rep: "level_rep sl l (as @ x # bs)" and small: "length sl \<le> kNil"
  obtains sl' l' where "unlink sl l x = Some (sl', l')"
    "if as @ bs = [] then lv_head l' = kNil else level_rep sl' l' (as @ bs) \<and> lv_head l' \<noteq> kNil"
    "length sl' = length sl" "\<And>y. y \<notin> set (as @ bs) \<Longrightarrow> sl' ! y = sl ! y"
    "\<And>y. so_order (sl' ! y) = so_order (sl ! y)"
proof -
  let ?p = "last (kNil # as)" and ?n = "hd (bs @ [kNil])"
  have seg: "dlseg sl kNil (as @ x # bs) kNil" and dist: "distinct (as @ x # bs)"
    and ends: "lv_head l = hd (as @ x # bs)" "lv_tail l = last (as @ x # bs)"
    using rep by (auto simp: level_rep_def)
  have bound: "y < length sl" "y \<noteq> kNil" if "y \<in> set (as @ x # bs)" for y
    using dlseg_bound [OF seg that] small by auto
  have x: "x < length sl" "so_next (sl ! x) = ?n" "so_prev (sl ! x) = ?p"
    and as: "dlseg sl kNil as x" and bs: "dlseg sl x bs kNil"
    using seg by (auto simp: dlseg_append)
  have pin: "as \<noteq> [] \<Longrightarrow> ?p \<in> set as" and nin: "bs \<noteq> [] \<Longrightarrow> ?n \<in> set bs" by (auto simp: hd_append)
  have pn: "?p = kNil \<longleftrightarrow> as = []" "?n = kNil \<longleftrightarrow> bs = []"
    using bound(2) pin nin by fastforce+
  define sl1 where "sl1 = (if as = [] then sl else sl[?p := (sl ! ?p)\<lparr>so_next := ?n\<rparr>])"
  define sl2 where "sl2 = (if bs = [] then sl1 else sl1[?n := (sl1 ! ?n)\<lparr>so_prev := ?p\<rparr>])"
  define l1 where "l1 = (if as = [] then l\<lparr>lv_head := ?n\<rparr> else l)"
  define l2 where "l2 = (if bs = [] then l1\<lparr>lv_tail := ?p\<rparr> else l1)"
  have len: "length sl1 = length sl" "length sl2 = length sl" by (simp_all add: sl1_def sl2_def)
  have un: "unlink sl l x = Some (sl2, l2)"
    using x bound pin nin len pn by (simp add: unlink_def sl1_def sl2_def l1_def l2_def Let_def del: hd_append)
  have "dlseg sl1 kNil as ?n"
  proof (cases as rule: rev_cases)
    case (snoc as' p)
    with as dist dlseg_relink_end [of sl kNil as' p x ?n] show ?thesis by (simp add: sl1_def)
  qed simp
  then have as2: "dlseg sl2 kNil as ?n" using dist by (cases bs) (auto simp: sl2_def)
  have bs1: "dlseg sl1 x bs kNil" using bs dist by (cases as rule: rev_cases) (auto simp: sl1_def)
  have bs2: "dlseg sl2 ?p bs kNil"
  proof (cases bs)
    case (Cons n bs')
    with bs1 dist dlseg_relink_start [of sl1 x n bs' kNil ?p] show ?thesis by (simp add: sl2_def)
  qed simp
  have "if as @ bs = [] then lv_head l2 = kNil else level_rep sl2 l2 (as @ bs) \<and> lv_head l2 \<noteq> kNil"
    using as2 bs2 dist ends bound pn
    by (cases as; cases bs rule: rev_cases) (auto simp: level_rep_def dlseg_append l1_def l2_def hd_append)
  moreover have "sl2 ! y = sl ! y" if "y \<notin> set (as @ bs)" for y
    using that by (cases as rule: rev_cases; cases bs) (auto simp: sl1_def sl2_def nth_list_update_neq)
  moreover have "so_order (sl2 ! y) = so_order (sl ! y)" for y
    using bound(1) by (cases as rule: rev_cases; cases bs) (auto simp: sl1_def sl2_def nth_list_update)
  ultimately show ?thesis using that un len by blast
qed

subsection \<open>The book's representation\<close>

text \<open>
  \<open>book_rep b Q F\<close>: on side \<open>sd\<close> the orders resting at price \<open>p\<close> are the slots \<open>Q sd p\<close>, in
  queue order, and the freed slots are \<open>F\<close>. Every linked order is filed under its own side and
  price, the two indices satisfy their invariant, and all slots are below \<open>kNil\<close>.
\<close>

type_synonym queues = "Side \<Rightarrow> Price \<Rightarrow> nat list"

definition set_queue :: "queues \<Rightarrow> Side \<Rightarrow> Price \<Rightarrow> nat list \<Rightarrow> queues" where
  "set_queue Q sd p xs = Q(sd := (Q sd)(p := xs))"

lemma set_queue_apply: "set_queue Q sd p xs sd' p' = (if sd' = sd \<and> p' = p then xs else Q sd' p')"
  by (simp add: set_queue_def)

definition slot_order :: "MatchingBook \<Rightarrow> nat \<Rightarrow> BookOrder" where
  "slot_order b x = so_order (mb_slab b ! x)"

definition index_rep :: "SlabOrder list \<Rightarrow> SideIndex \<Rightarrow> (Price \<Rightarrow> nat list) \<Rightarrow> bool" where
  "index_rep sl s q \<longleftrightarrow> si_inv s \<and>
     (\<forall>p. case find_level s p of None \<Rightarrow> q p = [] | Some l \<Rightarrow> level_rep sl l (q p))"

definition book_rep :: "MatchingBook \<Rightarrow> queues \<Rightarrow> nat list \<Rightarrow> bool" where
  "book_rep b Q F \<longleftrightarrow>
     length (mb_slab b) \<le> kNil \<and>
     (\<forall>sd. si_side (side_of b sd) = sd \<and> index_rep (mb_slab b) (side_of b sd) (Q sd)) \<and>
     (\<forall>sd p. \<forall>x \<in> set (Q sd p). bo_side (slot_order b x) = sd \<and> bo_price (slot_order b x) = p) \<and>
     distinct F \<and> free_seg (mb_slab b) (mb_free_head b) F \<and>
     (\<forall>sd p. set F \<inter> set (Q sd p) = {})"

lemma side_of_set_side [simp]: "side_of (set_side b sd s) sd' = (if sd' = sd then s else side_of b sd')"
  by (cases sd; cases sd') (auto simp: side_of_def set_side_def)

lemma set_side_frame [simp]:
  "mb_slab (set_side b sd s) = mb_slab b" "mb_free_head (set_side b sd s) = mb_free_head b"
  "side_of (b\<lparr>mb_slab := sl\<rparr>) sd = side_of b sd" "side_of (b\<lparr>mb_free_head := h\<rparr>) sd = side_of b sd"
  by (auto simp: set_side_def side_of_def)

lemma index_rep_find:
  assumes "index_rep sl s q"
  shows "find_level s p = None \<longleftrightarrow> q p = []" "find_level s p = Some l \<Longrightarrow> level_rep sl l (q p)"
    and "si_inv s" "level_prices s = {p. q p \<noteq> []}"
proof -
  from assms have c: "case find_level s p of None \<Rightarrow> q p = [] | Some l \<Rightarrow> level_rep sl l (q p)" for p
    by (simp add: index_rep_def)
  have n: "find_level s p = None \<longleftrightarrow> q p = []" for p
    using c [of p] by (auto simp: level_rep_def split: option.splits)
  then show "find_level s p = None \<longleftrightarrow> q p = []" .
  show "find_level s p = Some l \<Longrightarrow> level_rep sl l (q p)" using c [of p] by simp
  show "si_inv s" using assms by (simp add: index_rep_def)
  show "level_prices s = {p. q p \<noteq> []}" using n by (auto simp: level_prices_def dom_def)
qed

lemma index_rep_bound: "index_rep sl s q \<Longrightarrow> x \<in> set (q p) \<Longrightarrow> x < length sl"
proof -
  assume r: "index_rep sl s q" and x: "x \<in> set (q p)"
  then obtain l where "find_level s p = Some l" using index_rep_find(1) [OF r, of p] by fastforce
  from index_rep_find(2) [OF r this] x show ?thesis by (auto simp: level_rep_def dest: dlseg_bound)
qed

text \<open>Changing slots no queue of this side uses leaves the side as it is.\<close>

lemma index_rep_cong:
  assumes "index_rep sl s q"
    and "\<And>p x. x \<in> set (q p) \<Longrightarrow> x < length sl' \<and> so_next (sl' ! x) = so_next (sl ! x) \<and> so_prev (sl' ! x) = so_prev (sl ! x)"
  shows "index_rep sl' s q"
proof -
  have "level_rep sl' l (q p)" if "level_rep sl l (q p)" for l p
    using that dlseg_cong [of "q p" sl sl' kNil kNil] assms(2) by (auto simp: level_rep_def)
  then have "case find_level s p of None \<Rightarrow> q p = [] | Some l \<Rightarrow> level_rep sl' l (q p)" for p
    using index_rep_find(1,2) [OF assms(1), of p] by (cases "find_level s p") auto
  then show ?thesis using index_rep_find(3) [OF assms(1)] by (simp add: index_rep_def)
qed

text \<open>Replacing the queue at one price, with all other levels of the side unchanged.\<close>

lemma index_rep_update:
  assumes "index_rep sl s q" "si_inv s'" "find_level s' = (find_level s)(p := r)"
    and "case r of None \<Rightarrow> xs = [] | Some l \<Rightarrow> level_rep sl' l xs"
    and "\<And>p' x. p' \<noteq> p \<Longrightarrow> x \<in> set (q p') \<Longrightarrow> x < length sl' \<and> sl' ! x = sl ! x"
  shows "index_rep sl' s' (q(p := xs))"
proof -
  have "level_rep sl' l (q p')" if "level_rep sl l (q p')" "p' \<noteq> p" for l p'
    using that dlseg_cong [of "q p'" sl sl' kNil kNil] assms(5) by (auto simp: level_rep_def)
  then have "case find_level s' p' of None \<Rightarrow> (q(p := xs)) p' = [] | Some l \<Rightarrow> level_rep sl' l ((q(p := xs)) p')" for p'
    using index_rep_find(1,2) [OF assms(1), of p'] assms(3,4)
    by (cases "p' = p"; cases "find_level s p'"; cases r) auto
  then show ?thesis using assms(2) by (simp add: index_rep_def)
qed

lemma book_repD:
  assumes "book_rep b Q F"
  shows "length (mb_slab b) \<le> kNil" "si_side (side_of b sd) = sd" "index_rep (mb_slab b) (side_of b sd) (Q sd)"
    and "x \<in> set (Q sd p) \<Longrightarrow> bo_side (slot_order b x) = sd"
    and "x \<in> set (Q sd p) \<Longrightarrow> bo_price (slot_order b x) = p"
    and "distinct F" "free_seg (mb_slab b) (mb_free_head b) F" "set F \<inter> set (Q sd p) = {}"
    and "x \<in> set (Q sd p) \<Longrightarrow> x < length (mb_slab b)" "x \<in> set F \<Longrightarrow> x < length (mb_slab b)"
    and "distinct (Q sd p)"
proof -
  show r: "index_rep (mb_slab b) (side_of b sd) (Q sd)" using assms by (simp add: book_rep_def)
  then show "x \<in> set (Q sd p) \<Longrightarrow> x < length (mb_slab b)" by (rule index_rep_bound)
  show "x \<in> set F \<Longrightarrow> x < length (mb_slab b)"
    using assms free_seg_bound by (auto simp: book_rep_def)
  show "distinct (Q sd p)"
    using index_rep_find(1,2) [OF r, of p] by (cases "find_level (side_of b sd) p") (auto simp: level_rep_def)
qed (use assms in \<open>auto simp: book_rep_def\<close>)

text \<open>A slot rests in at most one queue.\<close>

lemma book_rep_unique:
  "book_rep b Q F \<Longrightarrow> x \<in> set (Q sd p) \<Longrightarrow> x \<in> set (Q sd' p') \<Longrightarrow> sd = sd' \<and> p = p'"
  by (metis book_repD(4,5))

lemma new_book_rep: "band \<le> 64 * 64 * 64 \<Longrightarrow> book_rep (new_book band) (\<lambda>_ _. []) []"
proof -
  assume "band \<le> 64 * 64 * 64"
  moreover have "side_of (new_book band) sd = new_side_index sd band" for sd
    by (cases sd) (simp_all add: side_of_def new_book_def)
  ultimately show ?thesis
    by (simp add: book_rep_def index_rep_def new_side_index_inv new_side_index_find)
      (simp add: new_book_def new_side_index_def)
qed

end
