(* ===== verification/Book_Laws.thy ===== *)
theory Book_Laws
  imports Matching_Book
begin

text \<open>
  What the operations of \<open>MatchingBook\<close> do to the queues of resting orders. \<open>queue b sd p\<close> reads
  the slots resting at one price off the slab, in time order; \<open>book_inv\<close> is the class invariant.
  Each operation is shown to return (no access outside the slab, no null level) and its effect is
  stated on \<open>queue\<close> and on the order stored in each slot. The laws are collected in the locale
  \<open>price_time_book\<close>, the interface the matching engine relies on.
\<close>

subsection \<open>Reading the queues off the slab\<close>

fun chain :: "SlabOrder list \<Rightarrow> nat \<Rightarrow> nat \<Rightarrow> nat list" where
  "chain sl 0 x = []"
| "chain sl (Suc n) x = (if x < length sl then x # chain sl n (so_next (sl ! x)) else [])"

definition queue :: "MatchingBook \<Rightarrow> queues" where
  "queue b sd p = (case find_level (side_of b sd) p of
     None \<Rightarrow> [] | Some l \<Rightarrow> chain (mb_slab b) (length (mb_slab b)) (lv_head l))"

definition free_slots :: "MatchingBook \<Rightarrow> nat list" where
  "free_slots b = chain (mb_slab b) (length (mb_slab b)) (mb_free_head b)"

definition book_inv :: "MatchingBook \<Rightarrow> bool" where
  "book_inv b \<longleftrightarrow> book_rep b (queue b) (free_slots b)"

definition live_slots :: "MatchingBook \<Rightarrow> nat set" where
  "live_slots b = {x. \<exists>sd p. x \<in> set (queue b sd p)}"

text \<open>Prices far enough from the ends of \<open>int64_t\<close> that no band around them overflows.\<close>

definition price_ok :: "Price \<Rightarrow> bool" where
  "price_ok p \<longleftrightarrow> \<bar>ival p\<bar> \<le> 2 ^ 62"

definition has_room :: "MatchingBook \<Rightarrow> bool" where
  "has_room b \<longleftrightarrow> length (mb_slab b) < kNil"

lemma distinct_bound: "distinct xs \<Longrightarrow> (\<And>x. x \<in> set xs \<Longrightarrow> x < n) \<Longrightarrow> length xs \<le> n"
  by (metis card_lessThan card_mono distinct_card finite_lessThan lessThan_iff subsetI)

lemma chain_dlseg:
  "dlseg sl prv xs kNil \<Longrightarrow> length sl \<le> kNil \<Longrightarrow> length xs \<le> n \<Longrightarrow> chain sl n (hd (xs @ [kNil])) = xs"
  by (induction sl n "hd (xs @ [kNil])" arbitrary: prv xs rule: chain.induct)
    (case_tac xs; force)+

lemma chain_free:
  "free_seg sl h xs \<Longrightarrow> length sl \<le> kNil \<Longrightarrow> length xs \<le> n \<Longrightarrow> chain sl n h = xs"
proof (induction xs arbitrary: h n)
  case Nil
  then show ?case by (cases n) auto
next
  case (Cons x xs)
  then show ?case by (cases n) auto
qed

text \<open>The book determines its queues.\<close>

lemma book_rep_queue:
  assumes r: "book_rep b Q F"
  shows "queue b = Q" "free_slots b = F"
proof -
  have small: "length (mb_slab b) \<le> kNil" by (rule book_repD(1) [OF r])
  have "queue b sd p = Q sd p" for sd p
  proof (cases "find_level (side_of b sd) p")
    case None
    then show ?thesis using index_rep_find(1) [OF book_repD(3) [OF r, of sd], of p] by (simp add: queue_def)
  next
    case (Some l)
    then have l: "level_rep (mb_slab b) l (Q sd p)" by (rule index_rep_find(2) [OF book_repD(3) [OF r]])
    have "length (Q sd p) \<le> length (mb_slab b)"
      using book_repD(9,11) [OF r] by (rule distinct_bound [rotated])
    then show ?thesis using chain_dlseg [of "mb_slab b" kNil "Q sd p"] l small Some
      by (simp add: queue_def level_rep_def hd_append)
  qed
  then show "queue b = Q" by (simp add: fun_eq_iff)
  show "free_slots b = F"
    unfolding free_slots_def
    by (rule chain_free [OF book_repD(7) [OF r] small]) (use book_repD(6,10) [OF r] in \<open>auto intro: distinct_bound\<close>)
qed

lemma book_rep_inv: "book_rep b Q F \<Longrightarrow> book_inv b \<and> queue b = Q"
  by (simp add: book_inv_def book_rep_queue)

lemma new_book_inv:
  assumes "band \<le> 64 * 64 * 64"
  shows "book_inv (new_book band)" "queue (new_book band) = (\<lambda>_ _. [])"
  using book_rep_inv [OF new_book_rep [OF assms]] by auto

lemma price_okD: "price_ok p \<Longrightarrow> band \<le> 64 * 64 * 64 \<Longrightarrow> price_fits band p"
proof -
  assume "price_ok p" and b: "band \<le> 64 * 64 * 64"
  then have "- (2 ^ 62) \<le> ival p" "ival p \<le> 2 ^ 62" by (auto simp: price_ok_def abs_le_iff)
  moreover have "int (band div 2) \<le> 262144" "int band \<le> 262144" "0 \<le> int (band div 2)" using b by auto
  ultimately show ?thesis unfolding price_fits_def by simp
qed

subsection \<open>Slots\<close>

lemma index_rep_update_slot:
  assumes r: "index_rep sl s q" and y: "\<And>p. y \<notin> set (q p)"
  shows "index_rep (sl[y := e]) s q"
proof (rule index_rep_cong [OF r])
  fix p x assume "x \<in> set (q p)"
  moreover from this y have "y \<noteq> x" by blast
  ultimately show "x < length (sl[y := e]) \<and> so_next (sl[y := e] ! x) = so_next (sl ! x) \<and> so_prev (sl[y := e] ! x) = so_prev (sl ! x)"
    using index_rep_bound [OF r] by simp
qed

lemma acquire_slot_rep:
  assumes r: "book_rep b Q F" and room: "has_room b"
  obtains b' h F' where "acquire_slot b ord = Some (b', h)" "book_rep b' Q F'" "h < length (mb_slab b')"
    "h \<notin> set F'" "\<And>sd p. h \<notin> set (Q sd p)" "slot_order b' h = ord"
    "\<And>x sd p. x \<in> set (Q sd p) \<Longrightarrow> slot_order b' x = slot_order b x"
    "length (mb_slab b') \<le> Suc (length (mb_slab b))"
proof (cases F)
  case Nil
  let ?e = "\<lparr>so_order = ord, so_next = kNil, so_prev = kNil\<rparr>"
  let ?b = "b\<lparr>mb_slab := mb_slab b @ [?e]\<rparr>" and ?h = "length (mb_slab b)"
  have fh: "mb_free_head b = kNil" using book_repD(7) [OF r] Nil by simp
  have slot: "x < ?h" if "x \<in> set (Q sd p)" for x sd p using book_repD(9) [OF r that] .
  have ord: "slot_order ?b x = slot_order b x" if "x < ?h" for x using that by (simp add: slot_order_def nth_append)
  have "?h < kNil" using room by (simp add: has_room_def)
  then have "acquire_slot b ord = Some (?b, ?h)"
    using fh by (simp add: acquire_slot_def kNil_def)
  moreover have "book_rep ?b Q F"
    unfolding book_rep_def
  proof (intro conjI allI ballI)
    fix sd p
    show "index_rep (mb_slab ?b) (side_of ?b sd) (Q sd)"
      using slot by (auto intro!: index_rep_cong [OF book_repD(3) [OF r]] less_SucI simp: nth_append)
    show "bo_side (slot_order ?b x) = sd" "bo_price (slot_order ?b x) = p" if "x \<in> set (Q sd p)" for x
      using book_repD(4,5) [OF r that] ord [OF slot [OF that]] by simp_all
  qed (use r Nil fh \<open>?h < kNil\<close> in \<open>auto simp: book_repD\<close>)
  ultimately show ?thesis
    using that [of ?b ?h F] slot ord Nil by (fastforce simp: slot_order_def)
next
  case (Cons h F')
  let ?e = "mb_slab b ! h"
  let ?b = "b\<lparr>mb_slab := (mb_slab b)[h := ?e\<lparr>so_order := ord\<rparr>], mb_free_head := so_next ?e\<rparr>"
  have h: "mb_free_head b = h" "h < length (mb_slab b)" "free_seg (mb_slab b) (so_next ?e) F'"
    using book_repD(7) [OF r] Cons by auto
  have dj: "h \<notin> set F'" "distinct F'" "h \<notin> set (Q sd p)" for sd p
    using book_repD(6) [OF r] book_repD(8) [OF r, of sd p] Cons by auto
  have ord: "slot_order ?b x = slot_order b x" if "x \<noteq> h" for x using that by (simp add: slot_order_def)
  have nk: "h \<noteq> kNil" using h(2) book_repD(1) [OF r] by auto
  have acq: "acquire_slot b ord = Some (?b, h)"
    using h nk by (simp add: acquire_slot_def)
  have r': "book_rep ?b Q F'"
    unfolding book_rep_def
  proof (intro conjI allI ballI)
    fix sd p
    show "index_rep (mb_slab ?b) (side_of ?b sd) (Q sd)"
      using dj(3) by (simp add: index_rep_update_slot [OF book_repD(3) [OF r]])
    show "bo_side (slot_order ?b x) = sd" "bo_price (slot_order ?b x) = p" if "x \<in> set (Q sd p)" for x
      using book_repD(4,5) [OF r that] ord [of x] that dj(3) [of sd p] by (metis, metis)
    show "set F' \<inter> set (Q sd p) = {}" using book_repD(8) [OF r, of sd p] Cons by auto
  qed (use r dj h in \<open>auto simp: book_repD\<close>)
  have "slot_order ?b x = slot_order b x" if "x \<in> set (Q sd p)" for x sd p
    using ord [of x] dj(3) [of sd p] that by blast
  moreover have "slot_order ?b h = ord" using h(2) by (simp add: slot_order_def)
  ultimately show ?thesis using that [OF acq r' _ dj(1) dj(3)] h(2) by simp
qed

text \<open>Replacing one queue and its level, with every other slot left alone.\<close>

lemma book_rep_set_queue:
  assumes r: "book_rep b Q F" and inv: "si_inv s" "si_side s = sd"
    and find: "find_level s = (find_level (side_of b sd))(p := l)"
    and l: "case l of None \<Rightarrow> xs = [] | Some l \<Rightarrow> level_rep sl l xs"
    and len: "length sl = length (mb_slab b)" and ord: "\<And>x. so_order (sl ! x) = slot_order b x"
    and frame: "\<And>x. x \<notin> set (Q sd p) \<Longrightarrow> x \<notin> set xs \<Longrightarrow> sl ! x = mb_slab b ! x"
    and xs: "\<And>x. x \<in> set xs \<Longrightarrow> x \<notin> set F \<and> bo_side (slot_order b x) = sd \<and> bo_price (slot_order b x) = p"
  shows "book_rep (set_side (b\<lparr>mb_slab := sl\<rparr>) sd s) (set_queue Q sd p xs) F"
    (is "book_rep ?b ?Q F")
proof -
  have o: "slot_order ?b x = slot_order b x" for x using ord by (simp add: slot_order_def)
  have other: "sl ! x = mb_slab b ! x" if "x \<in> set (Q sd' p')" "\<not> (sd' = sd \<and> p' = p)" for x sd' p'
    using frame [of x] that xs [of x] book_repD(4,5) [OF r] by metis
  have fr: "sl ! x = mb_slab b ! x" if "x \<in> set F" for x
    using frame [of x] that xs [of x] book_repD(8) [OF r, of sd p] by blast
  have idx: "index_rep sl s ((Q sd)(p := xs))"
    by (rule index_rep_update [OF book_repD(3) [OF r] inv(1) find l]) (use other len book_repD(9) [OF r] in auto)
  have idx': "index_rep sl (side_of b sd') (Q sd')" if "sd' \<noteq> sd" for sd'
    by (rule index_rep_cong [OF book_repD(3) [OF r]]) (use that other len book_repD(9) [OF r] in auto)
  show ?thesis
    unfolding book_rep_def
  proof (intro conjI allI ballI)
    fix sd' p'
    show "index_rep (mb_slab ?b) (side_of ?b sd') (?Q sd')"
      using idx idx' by (simp add: set_queue_def)
    show "bo_side (slot_order ?b x) = sd'" "bo_price (slot_order ?b x) = p'" if "x \<in> set (?Q sd' p')" for x
      using that xs [of x] book_repD(4,5) [OF r, of x sd' p'] unfolding o by (auto simp: set_queue_apply split: if_splits)
    show "set F \<inter> set (?Q sd' p') = {}" using xs book_repD(8) [OF r, of sd' p'] by (auto simp: set_queue_apply)
    show "free_seg (mb_slab ?b) (mb_free_head ?b) F"
      using free_seg_cong [OF _ book_repD(7) [OF r], of sl] fr len by simp
  qed (use r inv(2) len in \<open>auto simp: book_repD\<close>)
qed

lemma release_slot_rep:
  assumes r: "book_rep b Q F" and x: "x < length (mb_slab b)" "x \<notin> set F" "\<And>sd p. x \<notin> set (Q sd p)"
  obtains b' where "release_slot b x = Some b'" "book_rep b' Q (x # F)" "slot_order b' = slot_order b"
    "length (mb_slab b') = length (mb_slab b)" "\<And>sd. side_of b' sd = side_of b sd"
proof
  let ?b = "b\<lparr>mb_slab := (mb_slab b)[x := (mb_slab b ! x)\<lparr>so_next := mb_free_head b\<rparr>], mb_free_head := x\<rparr>"
  show "release_slot b x = Some ?b" using x by (simp add: release_slot_def)
  show o: "slot_order ?b = slot_order b" using x by (auto simp: slot_order_def fun_eq_iff nth_list_update)
  show "book_rep ?b Q (x # F)"
    unfolding book_rep_def o
  proof (intro conjI allI ballI)
    fix sd p
    show "index_rep (mb_slab ?b) (side_of ?b sd) (Q sd)"
      using x(3) by (simp add: index_rep_update_slot [OF book_repD(3) [OF r]])
    show "set (x # F) \<inter> set (Q sd p) = {}" using book_repD(8) [OF r, of sd p] x(3) by auto
  qed (use r x in \<open>auto simp: book_repD\<close>)
qed simp_all

subsection \<open>Adding an order\<close>

lemma add_rep:
  assumes r: "book_rep b Q F" and room: "has_room b" and ok: "price_ok (bo_price ord)"
  obtains b' h F' where "add b ord = Some (b', h)"
    "book_rep b' (set_queue Q (bo_side ord) (bo_price ord) (Q (bo_side ord) (bo_price ord) @ [h])) F'"
    "\<And>sd p. h \<notin> set (Q sd p)" "slot_order b' h = ord"
    "\<And>x sd p. x \<in> set (Q sd p) \<Longrightarrow> slot_order b' x = slot_order b x"
    "length (mb_slab b') \<le> Suc (length (mb_slab b))"
proof -
  let ?sd = "bo_side ord" and ?p = "bo_price ord"
  obtain b1 h F' where a: "acquire_slot b ord = Some (b1, h)" and r1: "book_rep b1 Q F'"
    and h: "h < length (mb_slab b1)" "h \<notin> set F'" "\<And>sd p. h \<notin> set (Q sd p)" "slot_order b1 h = ord"
    and o: "\<And>x sd p. x \<in> set (Q sd p) \<Longrightarrow> slot_order b1 x = slot_order b x"
    and len1: "length (mb_slab b1) \<le> Suc (length (mb_slab b))"
    using acquire_slot_rep [OF r room, of ord] by metis
  let ?s = "side_of b1 ?sd"
  have idx: "index_rep (mb_slab b1) ?s (Q ?sd)" by (rule book_repD(3) [OF r1])
  have inv: "si_inv ?s" by (rule index_rep_find(3) [OF idx])
  let ?l = "case find_level ?s ?p of Some l \<Rightarrow> l | None \<Rightarrow> empty_level"
  obtain s' where s': "level_for ?s ?p = Some s'" "si_inv s'" "si_side s' = si_side ?s"
    "find_level s' = (find_level ?s)(?p \<mapsto> ?l)"
    using level_for [OF inv, of ?p] price_okD [OF ok si_invD(3) [OF inv]] by metis
  have lvl: "level_at s' ?p = Some ?l" by (rule level_at_find [OF s'(2)]) (simp add: s'(4))
  obtain sl l where lb: "link_back (mb_slab b1) ?l h = Some (sl, l)" and rep: "level_rep sl l (Q ?sd ?p @ [h])"
    and sl: "length sl = length (mb_slab b1)" "\<And>x. so_order (sl ! x) = so_order (mb_slab b1 ! x)"
    and fr: "\<And>x. x \<noteq> h \<Longrightarrow> x \<notin> set (Q ?sd ?p) \<Longrightarrow> sl ! x = mb_slab b1 ! x"
  proof (cases "find_level ?s ?p")
    case None
    then have "Q ?sd ?p = []" using index_rep_find(1) [OF idx] by simp
    with None that show thesis using link_back_empty [OF h(1)] by (metis append_Nil option.simps(4))
  next
    case (Some l)
    show thesis
      by (rule link_back_rep [OF index_rep_find(2) [OF idx Some] h(1) h(3) book_repD(1) [OF r1]])
        (use that Some in auto)
  qed
  let ?b = "set_side (b1\<lparr>mb_slab := sl\<rparr>) ?sd (put_level s' ?p l)"
  have put: "si_inv (put_level s' ?p l)" "find_level (put_level s' ?p l) = (find_level ?s)(?p \<mapsto> l)"
    "si_side (put_level s' ?p l) = ?sd"
    using put_level [OF s'(2), of ?p l] s'(3,4) book_repD(2) [OF r1] by auto
  have "add b ord = Some (?b, h)" using a s'(1) lvl lb by (simp add: add_def)
  moreover have "book_rep ?b (set_queue Q ?sd ?p (Q ?sd ?p @ [h])) F'"
    using h book_repD(4,5) [OF r1] book_repD(8) [OF r1, of ?sd ?p] rep sl fr
    by (intro book_rep_set_queue [OF r1 put(1,3,2)]) (auto simp: slot_order_def)
  moreover have "slot_order ?b = slot_order b1" using sl(2) by (simp add: slot_order_def fun_eq_iff)
  ultimately show ?thesis using that [of ?b h F'] h o len1 sl(1) by simp
qed

subsection \<open>Taking an order out\<close>

text \<open>Unlinking a slot, dropping the level when its queue becomes empty: the part \<open>remove_at\<close> and
  \<open>remove_front\<close> share.\<close>

lemma unlink_level:
  assumes r: "book_rep b Q F" and x: "x \<in> set (Q sd p)"
  obtains l sl l' s where "find_level (side_of b sd) p = Some l" "level_at (side_of b sd) p = Some l"
    "l = \<lparr>lv_head = hd (Q sd p), lv_tail = lv_tail l\<rparr>"
    "unlink (mb_slab b) l x = Some (sl, l')" "length sl = length (mb_slab b)"
    "\<And>y. so_order (sl ! y) = slot_order b y"
    "(if lv_head l' = kNil then erase_level (put_level (side_of b sd) p l') p else Some (put_level (side_of b sd) p l')) = Some s"
    "book_rep (set_side (b\<lparr>mb_slab := sl\<rparr>) sd s) (set_queue Q sd p (remove1 x (Q sd p))) F"
proof -
  let ?s = "side_of b sd"
  have idx: "index_rep (mb_slab b) ?s (Q sd)" by (rule book_repD(3) [OF r])
  have inv: "si_inv ?s" by (rule index_rep_find(3) [OF idx])
  obtain l where l: "find_level ?s p = Some l" using index_rep_find(1) [OF idx, of p] x by fastforce
  then have rep: "level_rep (mb_slab b) l (Q sd p)" by (rule index_rep_find(2) [OF idx])
  obtain as bs where q: "Q sd p = as @ x # bs" using x by (metis split_list)
  have na: "x \<notin> set as" "x \<notin> set bs" using book_repD(11) [OF r, of sd p] q by auto
  then have q': "remove1 x (Q sd p) = as @ bs" using q by (simp add: remove1_append)
  obtain sl l' where u: "unlink (mb_slab b) l x = Some (sl, l')"
    and c: "if as @ bs = [] then lv_head l' = kNil else level_rep sl l' (as @ bs) \<and> lv_head l' \<noteq> kNil"
    and sl: "length sl = length (mb_slab b)" "\<And>y. y \<notin> set (as @ bs) \<Longrightarrow> sl ! y = mb_slab b ! y"
      "\<And>y. so_order (sl ! y) = so_order (mb_slab b ! y)"
    using unlink_rep [OF rep [unfolded q] book_repD(1) [OF r]] by metis
  note put = put_level [OF inv, of p l']
  obtain s where s: "(if lv_head l' = kNil then erase_level (put_level ?s p l') p else Some (put_level ?s p l')) = Some s"
    and si: "si_inv s" "si_side s = sd"
    and find: "find_level s = (find_level ?s)(p := (if as @ bs = [] then None else Some l'))"
  proof (cases "as @ bs = []")
    case True
    then show thesis using that put l c erase_level [of "put_level ?s p l'" p] book_repD(2) [OF r]
      by (metis fun_upd_upd option.discI)
  next
    case False
    then show thesis using that [of "put_level ?s p l'"] put l c book_repD(2) [OF r] by (simp split: if_splits)
  qed
  have "book_rep (set_side (b\<lparr>mb_slab := sl\<rparr>) sd s) (set_queue Q sd p (as @ bs)) F"
    by (rule book_rep_set_queue [OF r si find])
      (use c sl q book_repD(4,5) [OF r, of _ sd p] book_repD(8) [OF r, of sd p] in
        \<open>auto simp: slot_order_def split: if_splits\<close>)
  moreover have "l = \<lparr>lv_head = hd (Q sd p), lv_tail = lv_tail l\<rparr>" using rep by (simp add: level_rep_def)
  ultimately show ?thesis
    using that l level_at_find [OF inv l] u sl(1,3) s q' by (simp add: slot_order_def)
qed

text \<open>Handing the unlinked slot back to the free list.\<close>

lemma release_unlinked:
  assumes r: "book_rep b Q F" and x: "x \<in> set (Q sd p)" and sl: "length sl = length (mb_slab b)"
    and r': "book_rep (set_side (b\<lparr>mb_slab := sl\<rparr>) sd s) (set_queue Q sd p (remove1 x (Q sd p))) F"
  obtains b' where "release_slot (set_side (b\<lparr>mb_slab := sl\<rparr>) sd s) x = Some b'"
    "book_rep b' (set_queue Q sd p (remove1 x (Q sd p))) (x # F)"
    "slot_order b' = slot_order (b\<lparr>mb_slab := sl\<rparr>)" "length (mb_slab b') = length (mb_slab b)"
proof -
  have q: "x \<notin> set (set_queue Q sd p (remove1 x (Q sd p)) sd' p')" for sd' p'
  proof (cases "sd' = sd \<and> p' = p")
    case True
    then show ?thesis using book_repD(11) [OF r, of sd p] by (simp add: set_queue_apply)
  next
    case False
    then have "x \<notin> set (Q sd' p')" using book_rep_unique [OF r x, of sd' p'] by auto
    with False show ?thesis unfolding set_queue_apply by auto
  qed
  have f: "x \<notin> set F" using book_repD(8) [OF r, of sd p] x by auto
  have len: "x < length (mb_slab (set_side (b\<lparr>mb_slab := sl\<rparr>) sd s))" using book_repD(9) [OF r x] sl by simp
  have "slot_order (set_side (b\<lparr>mb_slab := sl\<rparr>) sd s) = slot_order (b\<lparr>mb_slab := sl\<rparr>)"
    by (simp add: slot_order_def fun_eq_iff)
  with release_slot_rep [OF r' len f q] sl that show ?thesis by (metis set_side_frame(1) MatchingBook.select_convs(1) MatchingBook.surjective MatchingBook.update_convs(1))
qed

lemma remove_at_rep:
  assumes r: "book_rep b Q F" and x: "x \<in> set (Q sd p)"
  obtains b' where "remove_at b x = Some (b', slot_order b x)"
    "book_rep b' (set_queue Q sd p (remove1 x (Q sd p))) (x # F)"
    "slot_order b' = slot_order b" "length (mb_slab b') = length (mb_slab b)"
proof -
  obtain l sl l' s where l: "find_level (side_of b sd) p = Some l"
    and u: "unlink (mb_slab b) l x = Some (sl, l')" "length sl = length (mb_slab b)"
    and o: "\<And>y. so_order (sl ! y) = slot_order b y"
    and s: "(if lv_head l' = kNil then erase_level (put_level (side_of b sd) p l') p else Some (put_level (side_of b sd) p l')) = Some s"
    and r': "book_rep (set_side (b\<lparr>mb_slab := sl\<rparr>) sd s) (set_queue Q sd p (remove1 x (Q sd p))) F"
    using unlink_level [OF r x] by metis
  obtain b' where b': "release_slot (set_side (b\<lparr>mb_slab := sl\<rparr>) sd s) x = Some b'"
    "book_rep b' (set_queue Q sd p (remove1 x (Q sd p))) (x # F)"
    "slot_order b' = slot_order (b\<lparr>mb_slab := sl\<rparr>)" "length (mb_slab b') = length (mb_slab b)"
    by (rule release_unlinked [OF r x u(2) r'])
  have x': "so_order (mb_slab b ! x) = slot_order b x" "bo_side (slot_order b x) = sd" "bo_price (slot_order b x) = p"
    using book_repD(4,5) [OF r x] by (simp_all add: slot_order_def)
  have "remove_at b x = Some (b', slot_order b x)"
    using book_repD(9) [OF r x] l u s b'(1) x'
    by (cases "lv_head l' = kNil") (simp_all add: remove_at_def Let_def)
  moreover have "slot_order b' = slot_order b" using b'(3) o by (simp add: slot_order_def fun_eq_iff)
  ultimately show ?thesis using that b' by blast
qed

subsection \<open>Changing an order in place\<close>

text \<open>Neither of the two in-place updates touches a link, a side or a price.\<close>

lemma book_rep_set_order:
  assumes r: "book_rep b Q F" and x: "x \<in> set (Q sd p)" and keep: "bo_side ord = sd" "bo_price ord = p"
    and b': "b' = b\<lparr>mb_slab := (mb_slab b)[x := (mb_slab b ! x)\<lparr>so_order := ord\<rparr>]\<rparr>"
  shows "book_rep b' Q F" "slot_order b' = (slot_order b)(x := ord)"
proof -
  note xl = book_repD(9) [OF r x]
  show o: "slot_order b' = (slot_order b)(x := ord)"
    using xl by (auto simp: b' slot_order_def fun_eq_iff nth_list_update)
  have same: "y < length (mb_slab b') \<and> so_next (mb_slab b' ! y) = so_next (mb_slab b ! y) \<and>
      so_prev (mb_slab b' ! y) = so_prev (mb_slab b ! y)" if "y < length (mb_slab b)" for y
    using xl that by (simp add: b' nth_list_update)
  have side: "side_of b' sd = side_of b sd" for sd by (simp add: b')
  show "book_rep b' Q F"
    unfolding book_rep_def
  proof (intro conjI allI ballI)
    fix sd' p'
    show "index_rep (mb_slab b') (side_of b' sd') (Q sd')"
      using index_rep_cong [OF book_repD(3) [OF r], of sd' "mb_slab b'"] same book_repD(9) [OF r] side by metis
    show "bo_side (slot_order b' y) = sd'" "bo_price (slot_order b' y) = p'" if "y \<in> set (Q sd' p')" for y
      using book_repD(4,5) [OF r that] book_rep_unique [OF r x, of sd' p'] that keep by (auto simp: o)
    show "free_seg (mb_slab b') (mb_free_head b') F"
      using free_seg_cong [OF _ book_repD(7) [OF r], of "mb_slab b'"] same by (simp add: b')
  qed (use r side in \<open>auto simp: book_repD b'\<close>)
qed

lemma reduce_at_rep:
  assumes r: "book_rep b Q F" and x: "x \<in> set (Q sd p)"
  obtains b' where "reduce_at b x n = Some b'" "book_rep b' Q F"
    "slot_order b' = (slot_order b)(x := (slot_order b x)\<lparr>bo_remaining_quantity := n\<rparr>)"
    "length (mb_slab b') = length (mb_slab b)"
proof -
  let ?o = "(slot_order b x)\<lparr>bo_remaining_quantity := n\<rparr>"
  let ?b = "b\<lparr>mb_slab := (mb_slab b)[x := (mb_slab b ! x)\<lparr>so_order := ?o\<rparr>]\<rparr>"
  have "reduce_at b x n = Some ?b"
    using book_repD(9) [OF r x] by (simp add: reduce_at_def slot_order_def)
  with book_rep_set_order [OF r x _ _ refl, of ?o] book_repD(4,5) [OF r x] that show ?thesis by simp
qed

lemma set_client_order_id_at_rep:
  assumes r: "book_rep b Q F" and x: "x \<in> set (Q sd p)"
  obtains b' where "set_client_order_id_at b x n = Some b'" "book_rep b' Q F"
    "slot_order b' = (slot_order b)(x := (slot_order b x)\<lparr>bo_client_order_id := n\<rparr>)"
    "length (mb_slab b') = length (mb_slab b)"
proof -
  let ?o = "(slot_order b x)\<lparr>bo_client_order_id := n\<rparr>"
  let ?b = "b\<lparr>mb_slab := (mb_slab b)[x := (mb_slab b ! x)\<lparr>so_order := ?o\<rparr>]\<rparr>"
  have "set_client_order_id_at b x n = Some ?b"
    using book_repD(9) [OF r x] by (simp add: set_client_order_id_at_def slot_order_def)
  with book_rep_set_order [OF r x _ _ refl, of ?o] book_repD(4,5) [OF r x] that show ?thesis by simp
qed

subsection \<open>The front of the best level\<close>

definition prices :: "MatchingBook \<Rightarrow> Side \<Rightarrow> Price set" where
  "prices b sd = {p. queue b sd p \<noteq> []}"

lemma prices_level_prices: "book_rep b Q F \<Longrightarrow> level_prices (side_of b sd) = prices b sd"
  using index_rep_find(4) [OF book_repD(3)] book_rep_queue(1) by (simp add: prices_def)

lemma si_empty_prices: "book_rep b Q F \<Longrightarrow> si_empty (side_of b sd) \<longleftrightarrow> prices b sd = {}"
  using prices_level_prices index_rep_find(3) [OF book_repD(3)] si_empty_iff by metis

lemma finite_prices: "book_rep b Q F \<Longrightarrow> finite (prices b sd)"
  using prices_level_prices index_rep_find(3) [OF book_repD(3)] finite_level_prices by metis

lemma best_price_book:
  assumes r: "book_rep b Q F" and "prices b sd \<noteq> {}"
  obtains p where "best_price (side_of b sd) = Some p" "first_price sd (prices b sd) p" "Q sd p \<noteq> []"
proof -
  have lp: "level_prices (side_of b sd) = prices b sd" by (rule prices_level_prices [OF r])
  obtain p where p: "best_price (side_of b sd) = Some p" "first_price (si_side (side_of b sd)) (level_prices (side_of b sd)) p"
    using best_price [OF index_rep_find(3) [OF book_repD(3) [OF r]]] lp assms(2) by metis
  then have "first_price sd (prices b sd) p" using lp book_repD(2) [OF r] by simp
  moreover from this have "Q sd p \<noteq> []" by (simp add: first_price_def prices_def book_rep_queue(1) [OF r])
  ultimately show ?thesis using that p by blast
qed

lemma front_slot_rep:
  assumes r: "book_rep b Q F" and "prices b sd \<noteq> {}"
  obtains p where "first_price sd (prices b sd) p" "front_slot b sd = Some (hd (Q sd p))" "hd (Q sd p) \<in> set (Q sd p)"
proof -
  obtain p where p: "best_price (side_of b sd) = Some p" "first_price sd (prices b sd) p" "Q sd p \<noteq> []"
    by (rule best_price_book [OF assms])
  then have hd: "hd (Q sd p) \<in> set (Q sd p)" by simp
  obtain l where "level_at (side_of b sd) p = Some l" "l = \<lparr>lv_head = hd (Q sd p), lv_tail = lv_tail l\<rparr>"
    using unlink_level [OF r hd] by metis
  then have "front_slot b sd = Some (hd (Q sd p))" using p(1) by (metis LevelSlot.select_convs(1) bind.bind_lunit front_slot_def)
  with that p hd show ?thesis by blast
qed

lemma remove_front_rep:
  assumes r: "book_rep b Q F" and "first_price sd (prices b sd) p"
  obtains b' where "remove_front b sd = Some b'" "book_rep b' (set_queue Q sd p (tl (Q sd p))) (hd (Q sd p) # F)"
    "slot_order b' = slot_order b" "length (mb_slab b') = length (mb_slab b)"
proof -
  have p: "best_price (side_of b sd) = Some p" "Q sd p \<noteq> []"
    using best_price_book [OF r, of sd] assms(2) first_price_unique by (metis empty_iff first_price_def)+
  let ?x = "hd (Q sd p)"
  have hd: "?x \<in> set (Q sd p)" using p by simp
  have rm: "remove1 ?x (Q sd p) = tl (Q sd p)" using p(2) by (cases "Q sd p") auto
  obtain l sl l' s where l: "level_at (side_of b sd) p = Some l" "l = \<lparr>lv_head = ?x, lv_tail = lv_tail l\<rparr>"
    and u: "unlink (mb_slab b) l ?x = Some (sl, l')" "length sl = length (mb_slab b)"
    and o: "\<And>y. so_order (sl ! y) = slot_order b y"
    and s: "(if lv_head l' = kNil then erase_level (put_level (side_of b sd) p l') p else Some (put_level (side_of b sd) p l')) = Some s"
    and r': "book_rep (set_side (b\<lparr>mb_slab := sl\<rparr>) sd s) (set_queue Q sd p (remove1 ?x (Q sd p))) F"
    using unlink_level [OF r hd] by metis
  obtain b' where b': "release_slot (set_side (b\<lparr>mb_slab := sl\<rparr>) sd s) ?x = Some b'"
    "book_rep b' (set_queue Q sd p (remove1 ?x (Q sd p))) (?x # F)"
    "slot_order b' = slot_order (b\<lparr>mb_slab := sl\<rparr>)" "length (mb_slab b') = length (mb_slab b)"
    by (rule release_unlinked [OF r hd u(2) r'])
  have lh: "lv_head l = ?x" using l(2) by (metis LevelSlot.select_convs(1))
  have comm: "release_slot (set_side c sd s) y = map_option (\<lambda>c. set_side c sd s) (release_slot c y)" for c y
    by (cases "y < length (mb_slab c)") (simp_all add: release_slot_def set_side_def vget_def)
  obtain c where c: "release_slot (b\<lparr>mb_slab := sl\<rparr>) ?x = Some c" "b' = set_side c sd s"
    using b'(1) unfolding comm by auto
  have "remove_front b sd = Some b'"
    using p(1) l(1) u s c lh by (cases "lv_head l' = kNil") (simp_all add: remove_front_def Let_def)
  moreover have "slot_order b' = slot_order b" using b'(3) o by (simp add: slot_order_def fun_eq_iff)
  ultimately show ?thesis using that b' rm by simp
qed

subsection \<open>Walking a side in priority order\<close>

definition crosses :: "Side \<Rightarrow> Price \<Rightarrow> Price \<Rightarrow> bool" where
  "crosses sd limit p \<longleftrightarrow> (if sd = Buy then limit \<le> p else p \<le> limit)"

definition resting :: "MatchingBook \<Rightarrow> nat \<Rightarrow> nat" where
  "resting b x = unat (bo_remaining_quantity (slot_order b x))"

definition depth :: "MatchingBook \<Rightarrow> Side \<Rightarrow> Price \<Rightarrow> nat" where
  "depth b sd p = sum_list (map (resting b) (queue b sd p))"

definition crossable :: "MatchingBook \<Rightarrow> Side \<Rightarrow> Price \<Rightarrow> nat" where
  "crossable b sd limit = (\<Sum>p \<in> {p \<in> prices b sd. crosses sd limit p}. depth b sd p)"

lemma level_orders_dlseg:
  assumes "dlseg sl prv xs kNil" "length sl \<le> kNil"
  shows "level_orders sl (hd (xs @ [kNil])) = Some (map (\<lambda>x. so_order (sl ! x)) xs)"
  using assms
proof (induction xs arbitrary: prv)
  case (Cons x xs)
  then have "level_orders sl (so_next (sl ! x)) = Some (map (\<lambda>x. so_order (sl ! x)) xs)" by auto
  with Cons.prems show ?case by (subst level_orders.simps) auto
qed (simp add: level_orders.simps)

lemma cross_level_dlseg:
  assumes "dlseg sl prv xs kNil" "length sl \<le> kNil"
    and "unat acc + (\<Sum>x\<leftarrow>xs. unat (bo_remaining_quantity (so_order (sl ! x)))) = t" "t < 2 ^ 64"
  obtains c r where "cross_level sl n (hd (xs @ [kNil])) acc = Some (c, r)"
    "c \<longleftrightarrow> xs \<noteq> [] \<and> unat n \<le> t" "if c then n \<le> r else unat r = t"
proof -
  have "\<exists>c r. cross_level sl n (hd (xs @ [kNil])) acc = Some (c, r) \<and> (c \<longleftrightarrow> xs \<noteq> [] \<and> unat n \<le> t) \<and>
      (if c then n \<le> r else unat r = t)"
    using assms(1,3)
  proof (induction xs arbitrary: prv acc)
    case Nil
    then show ?case by (subst cross_level.simps) auto
  next
    case (Cons x xs)
    let ?acc = "acc + bo_remaining_quantity (so_order (sl ! x))"
    have x: "x < length sl" "x \<noteq> kNil" "so_next (sl ! x) = hd (xs @ [kNil])" "dlseg sl x xs kNil"
      using Cons.prems(1) assms(2) by auto
    have "unat acc + unat (bo_remaining_quantity (so_order (sl ! x))) < 2 ^ LENGTH(64)"
      using Cons.prems(2) assms(4) by simp
    then have acc: "unat ?acc = unat acc + unat (bo_remaining_quantity (so_order (sl ! x)))"
      by (rule unat_add_lem [THEN iffD1])
    show ?case
    proof (cases "n \<le> ?acc")
      case True
      then have "unat n \<le> t" using acc Cons.prems(2) by (simp add: word_le_nat_alt)
      with True x show ?thesis by (subst cross_level.simps) auto
    next
      case False
      obtain c r where c: "cross_level sl n (hd (xs @ [kNil])) ?acc = Some (c, r)"
        "c \<longleftrightarrow> xs \<noteq> [] \<and> unat n \<le> t" "if c then n \<le> r else unat r = t"
        using Cons.IH [OF x(4), of ?acc] acc Cons.prems(2) by auto
      moreover have "cross_level sl n (hd ((x # xs) @ [kNil])) acc = Some (c, r)"
        using False x c(1) by (subst cross_level.simps) simp
      moreover have "unat n \<le> t \<longrightarrow> xs \<noteq> []"
        using False acc Cons.prems(2) by (auto simp: word_le_nat_alt)
      ultimately show ?thesis by auto
    qed
  qed
  then show ?thesis using that by blast
qed

lemma level_at_queue:
  assumes r: "book_rep b Q F" and "p \<in> prices b sd"
  obtains l where "level_at (side_of b sd) p = Some l" "lv_head l = hd (queue b sd p @ [kNil])"
    "dlseg (mb_slab b) kNil (queue b sd p) kNil"
proof -
  have q: "queue b sd p = Q sd p" "Q sd p \<noteq> []" using assms book_rep_queue(1) by (auto simp: prices_def)
  have idx: "index_rep (mb_slab b) (side_of b sd) (Q sd)" by (rule book_repD(3) [OF r])
  obtain l where l: "find_level (side_of b sd) p = Some l" using index_rep_find(1) [OF idx, of p] q by auto
  from index_rep_find(2) [OF idx this] level_at_find [OF index_rep_find(3) [OF idx] l] q that
  show ?thesis by (simp add: level_rep_def hd_append)
qed

lemma orders_from_walk:
  assumes r: "book_rep b Q F" and p: "p \<in> prices b sd"
  shows "orders_from (mb_slab b) (side_of b sd) p =
    Some (map (slot_order b) (concat (map (queue b sd) (side_index.remaining (side_of b sd) p))))"
proof -
  let ?s = "side_of b sd" and ?P = "\<lambda>p ps. orders_from (mb_slab b) (side_of b sd) p = Some (map (slot_order b) (concat (map (queue b sd) ps)))"
  have inv: "si_inv ?s" by (rule index_rep_find(3) [OF book_repD(3) [OF r]])
  have lp: "level_prices ?s = prices b sd" by (rule prices_level_prices [OF r])
  have so: "(\<lambda>x. so_order (mb_slab b ! x)) = slot_order b" by (simp add: fun_eq_iff slot_order_def)
  have lvl: "\<exists>l. level_at ?s p = Some l \<and> level_orders (mb_slab b) (lv_head l) = Some (map (slot_order b) (queue b sd p))"
    if "p \<in> level_prices ?s" for p
    using level_at_queue [OF r, of p sd] that level_orders_dlseg [OF _ book_repD(1) [OF r], of kNil "queue b sd p"]
    unfolding lp so by metis
  show ?thesis
  proof (rule side_index.walk_induct [OF inv, where P = ?P])
    show "p \<in> level_prices ?s" using p lp by simp
    show "?P p [p]" if "p \<in> level_prices ?s" "next_price ?s p = Some None" for p
      using lvl [OF that(1)] that(2) by (subst orders_from.simps) auto
    show "?P p (p # side_index.remaining ?s q)"
      if "p \<in> level_prices ?s" "next_price ?s p = Some (Some q)" "?P q (side_index.remaining ?s q)" for p q
      using lvl [OF that(1)] that(2,3) by (subst orders_from.simps) auto
  qed
qed

lemma all_of_rep:
  assumes r: "book_rep b Q F"
  shows "all_of b sd = Some (map (slot_order b) (concat (map (queue b sd) (priority_prices sd (prices b sd)))))"
proof (cases "prices b sd = {}")
  case True
  then show ?thesis using si_empty_prices [OF r, of sd] by (simp add: all_of_def)
next
  case False
  let ?s = "side_of b sd"
  have inv: "si_inv ?s" by (rule index_rep_find(3) [OF book_repD(3) [OF r]])
  have lp: "level_prices ?s = prices b sd" by (rule prices_level_prices [OF r])
  obtain p where "best_price ?s = Some p" "p \<in> prices b sd"
    "side_index.remaining ?s p = priority_prices sd (prices b sd)"
    using side_index.remaining_best [OF inv] False book_repD(2) [OF r] lp by metis
  then show ?thesis using False si_empty_prices [OF r, of sd] orders_from_walk [OF r, of p sd] by (simp add: all_of_def)
qed

text \<open>
  \<open>crossable_quantity\<close> stops as soon as it has seen enough. As long as the crossing quantity fits
  the 64-bit accumulator, the answer reaches the requested quantity exactly when the crossing
  orders do, and it is their exact total when they do not.
\<close>

definition covers :: "Quantity \<Rightarrow> Quantity \<Rightarrow> nat \<Rightarrow> bool" where
  "covers r n t \<longleftrightarrow> (n \<le> r \<longleftrightarrow> unat n \<le> t) \<and> (t < unat n \<longrightarrow> unat r = t)"

definition crossing_depth :: "MatchingBook \<Rightarrow> Side \<Rightarrow> Price \<Rightarrow> Price list \<Rightarrow> nat" where
  "crossing_depth b sd limit ps = sum_list (map (depth b sd) (filter (crosses sd limit) ps))"

lemma cross_level_queue:
  assumes r: "book_rep b Q F" and p: "p \<in> prices b sd" and t: "unat acc + depth b sd p = t" "t < 2 ^ 64"
  obtains l c a where "level_at (side_of b sd) p = Some l"
    "cross_level (mb_slab b) n (lv_head l) acc = Some (c, a)" "c \<longleftrightarrow> unat n \<le> t" "if c then n \<le> a else unat a = t"
proof -
  obtain l where l: "level_at (side_of b sd) p = Some l" "lv_head l = hd (queue b sd p @ [kNil])"
    "dlseg (mb_slab b) kNil (queue b sd p) kNil"
    by (rule level_at_queue [OF r p])
  have q: "queue b sd p \<noteq> []" using p by (simp add: prices_def)
  have "(\<Sum>x\<leftarrow>queue b sd p. unat (bo_remaining_quantity (so_order (mb_slab b ! x)))) = depth b sd p"
    by (simp add: depth_def resting_def [abs_def] slot_order_def)
  then show ?thesis
    using cross_level_dlseg [OF l(3) book_repD(1) [OF r], of acc t n] t l(1,2) q that by metis
qed

lemma cross_levels_walk:
  assumes r: "book_rep b Q F" and p: "p \<in> prices b sd"
    and t: "unat acc + crossing_depth b sd limit (side_index.remaining (side_of b sd) p) = t" "t < 2 ^ 64"
  obtains a where "cross_levels (mb_slab b) (side_of b sd) (sd = Buy) limit n p acc = Some a" "covers a n t"
proof -
  let ?s = "side_of b sd"
  let ?P = "\<lambda>p ps. \<forall>acc. unat acc + crossing_depth b sd limit ps = t \<longrightarrow>
    (\<exists>a. cross_levels (mb_slab b) ?s (sd = Buy) limit n p acc = Some a \<and> covers a n t)"
  have inv: "si_inv ?s" by (rule index_rep_find(3) [OF book_repD(3) [OF r]])
  have lp: "level_prices ?s = prices b sd" by (rule prices_level_prices [OF r])
  have sd: "si_side ?s = sd" by (rule book_repD(2) [OF r])
  have stop: "(if sd = Buy then limit > p else limit < p) \<longleftrightarrow> \<not> crosses sd limit p" for p
    by (auto simp: crosses_def)
  have cov: "covers acc n t" if "unat acc = t" for acc using that by (auto simp: covers_def word_le_nat_alt)
  have covc: "covers a n t" if "unat n \<le> t" "n \<le> a" for a using that by (simp add: covers_def)
  have "?P p (side_index.remaining ?s p)"
  proof (rule side_index.walk_induct [OF inv, where P = ?P])
    show "p \<in> level_prices ?s" using p lp by simp
  next
    fix p assume p: "p \<in> level_prices ?s" and n: "next_price ?s p = Some None"
    show "?P p [p]"
    proof (intro allI impI)
      fix acc :: Quantity assume acc: "unat acc + crossing_depth b sd limit [p] = t"
      show "\<exists>a. cross_levels (mb_slab b) ?s (sd = Buy) limit n p acc = Some a \<and> covers a n t"
      proof (cases "crosses sd limit p")
        case True
        then obtain l c a where "level_at ?s p = Some l" "cross_level (mb_slab b) n (lv_head l) acc = Some (c, a)"
          "c \<longleftrightarrow> unat n \<le> t" "if c then n \<le> a else unat a = t"
          using cross_level_queue [OF r, of p sd acc t n] p lp acc t(2) by (auto simp: crossing_depth_def)
        then show ?thesis using n True cov covc
          by (subst cross_levels.simps) (auto simp: stop simp del: not_less split: if_splits)
      next
        case False
        then show ?thesis using acc cov by (subst cross_levels.simps) (simp add: stop crossing_depth_def)
      qed
    qed
  next
    fix p q assume p: "p \<in> level_prices ?s" and n: "next_price ?s p = Some (Some q)" and b: "better (si_side ?s) p q"
      and IH: "?P q (side_index.remaining ?s q)"
    show "?P p (p # side_index.remaining ?s q)"
    proof (intro allI impI)
      fix acc :: Quantity assume acc: "unat acc + crossing_depth b sd limit (p # side_index.remaining ?s q) = t"
      show "\<exists>a. cross_levels (mb_slab b) ?s (sd = Buy) limit n p acc = Some a \<and> covers a n t"
      proof (cases "crosses sd limit p")
        case True
        define u where "u = unat acc + depth b sd p"
        have ut: "u + crossing_depth b sd limit (side_index.remaining ?s q) = t" "u < 2 ^ 64"
          using acc t(2) True by (auto simp: crossing_depth_def u_def)
        obtain l c a where la: "level_at ?s p = Some l" "cross_level (mb_slab b) n (lv_head l) acc = Some (c, a)"
          "c \<longleftrightarrow> unat n \<le> u" "if c then n \<le> a else unat a = u"
          using cross_level_queue [OF r, of p sd acc u n] p lp ut(2) by (auto simp: u_def)
        show ?thesis
        proof (cases c)
          case True
          then show ?thesis using la covc ut \<open>crosses sd limit p\<close> by (subst cross_levels.simps) (simp add: stop)
        next
          case False
          then obtain a' where "cross_levels (mb_slab b) ?s (sd = Buy) limit n q a = Some a'" "covers a' n t"
            using IH ut(1) la(4) by auto
          then show ?thesis using la False n \<open>crosses sd limit p\<close> by (subst cross_levels.simps) (simp add: stop)
        qed
      next
        case False
        have "\<not> crosses sd limit x" if "x \<in> set (p # side_index.remaining ?s q)" for x
        proof -
          have "x = p \<or> better sd p x"
            using that b sd better_trans side_index.finite_levels [OF inv] unfolding side_index.remaining_def by fastforce
          then show ?thesis using False by (cases sd) (auto simp: crosses_def)
        qed
        then have "crossing_depth b sd limit (p # side_index.remaining ?s q) = 0"
          unfolding crossing_depth_def by (metis filter_False list.simps(8) sum_list.Nil)
        then show ?thesis using acc cov False by (subst cross_levels.simps) (simp add: stop)
      qed
    qed
  qed
  then show ?thesis using that t(1) by blast
qed

lemma crossing_depth_all:
  "finite S \<Longrightarrow> crossing_depth b sd limit (priority_prices sd S) = (\<Sum>p \<in> {p \<in> S. crosses sd limit p}. depth b sd p)"
  unfolding crossing_depth_def
  by (subst sum_list_distinct_conv_sum_set) (auto intro!: distinct_filter sum.cong)

lemma crossable_quantity_rep:
  assumes r: "book_rep b Q F" and t: "crossable b sd limit < 2 ^ 64"
  obtains a where "crossable_quantity b sd limit n = Some a" "n \<noteq> 0 \<Longrightarrow> covers a n (crossable b sd limit)"
proof (cases "prices b sd = {}")
  case True
  then have "crossable_quantity b sd limit n = Some 0" "crossable b sd limit = 0"
    using si_empty_prices [OF r, of sd] by (simp_all add: crossable_quantity_def crossable_def)
  then show ?thesis using that by (simp add: covers_def unat_gt_0)
next
  case False
  let ?s = "side_of b sd"
  have inv: "si_inv ?s" by (rule index_rep_find(3) [OF book_repD(3) [OF r]])
  have lp: "level_prices ?s = prices b sd" by (rule prices_level_prices [OF r])
  obtain p where p: "best_price ?s = Some p" "p \<in> prices b sd"
    "side_index.remaining ?s p = priority_prices sd (prices b sd)"
    using side_index.remaining_best [OF inv] False book_repD(2) [OF r] lp by metis
  have "unat (0 :: Quantity) + crossing_depth b sd limit (side_index.remaining ?s p) = crossable b sd limit"
    unfolding p(3) crossable_def by (simp add: crossing_depth_all finite_prices [OF r])
  from cross_levels_walk [OF r p(2) this t] obtain a
    where "cross_levels (mb_slab b) ?s (sd = Buy) limit n p 0 = Some a" "covers a n (crossable b sd limit)" by metis
  then show ?thesis using that False si_empty_prices [OF r, of sd] p(1) by (simp add: crossable_quantity_def)
qed

end
