(* ===== verification/Price_Time_Book.thy ===== *)
theory Price_Time_Book
  imports Book_Laws
begin

text \<open>
  The book as its users see it: on each side one list of resting orders, best price first and
  oldest first within a price. The locale \<open>price_time_book\<close> states what each operation does to
  that list; \<open>MatchingBook\<close> is shown to be an instance, and the matching engine's proofs rest on
  the interface only.
\<close>

subsection \<open>One side as a list\<close>

definition slots :: "MatchingBook \<Rightarrow> Side \<Rightarrow> nat list" where
  "slots b sd = concat (map (queue b sd) (priority_prices sd (prices b sd)))"

text \<open>Time priority: a new order goes behind every order at its own price or a better one.\<close>

definition enqueue :: "Side \<Rightarrow> ('x \<Rightarrow> Price) \<Rightarrow> Price \<Rightarrow> 'x \<Rightarrow> 'x list \<Rightarrow> 'x list" where
  "enqueue sd key p x xs =
     takeWhile (\<lambda>y. \<not> better sd p (key y)) xs @ x # dropWhile (\<lambda>y. \<not> better sd p (key y)) xs"

definition in_priority :: "Side \<Rightarrow> ('x \<Rightarrow> Price) \<Rightarrow> 'x list \<Rightarrow> bool" where
  "in_priority sd key xs \<longleftrightarrow> sorted_wrt (\<lambda>x y. \<not> better sd (key y) (key x)) xs"

lemma set_enqueue [simp]: "set (enqueue sd key p x xs) = insert x (set xs)"
proof -
  have "set xs = set (takeWhile P xs @ dropWhile P xs)" for P by simp
  then show ?thesis unfolding enqueue_def by (metis Un_insert_right list.simps(15) set_append)
qed

lemma enqueue_append:
  assumes "\<And>y. y \<in> set A \<Longrightarrow> \<not> better sd p (key y)" "\<And>y. y \<in> set C \<Longrightarrow> better sd p (key y)"
  shows "enqueue sd key p x (A @ C) = A @ x # C"
proof -
  have "takeWhile (\<lambda>y. \<not> better sd p (key y)) C = []" "dropWhile (\<lambda>y. \<not> better sd p (key y)) C = C"
    using assms(2) by (cases C; simp)+
  then show ?thesis using assms(1) by (simp add: enqueue_def)
qed

lemma sorted_wrt_concat:
  assumes "\<And>p. p \<in> set ps \<Longrightarrow> sorted_wrt R (q p)"
    and "sorted_wrt (\<lambda>p p'. \<forall>x \<in> set (q p). \<forall>y \<in> set (q p'). R x y) ps"
  shows "sorted_wrt R (concat (map q ps))"
  using assms by (induction ps) (auto simp: sorted_wrt_append)

lemma concat_priority_superset:
  assumes "finite T" "S \<subseteq> T" "\<And>p. p \<in> T - S \<Longrightarrow> q p = []"
  shows "concat (map q (priority_prices sd S)) = concat (map q (priority_prices sd T))"
proof -
  have "priority_prices sd S = filter (\<lambda>p. p \<in> S) (priority_prices sd T)"
    using assms(1,2) finite_subset [OF assms(2,1)] sorted_priority_prices
    by (intro sorted_wrt_better_unique [of sd]) (auto intro: sorted_wrt_filter)
  moreover have "concat (map q (filter (\<lambda>p. p \<in> S) ps)) = concat (map q ps)" if "set ps \<subseteq> T" for ps
    using that assms(3) by (induction ps) auto
  ultimately show ?thesis using assms(1) by simp
qed

lemma slots_superset:
  assumes r: "book_rep b Q F" and "finite T" "prices b sd \<subseteq> T"
  shows "slots b sd = concat (map (Q sd) (priority_prices sd T))"
  unfolding slots_def book_rep_queue(1) [OF r]
  by (rule concat_priority_superset) (use assms in \<open>auto simp: prices_def book_rep_queue(1) [OF r]\<close>)

lemma set_slots: "book_rep b Q F \<Longrightarrow> x \<in> set (slots b sd) \<longleftrightarrow> (\<exists>p. x \<in> set (Q sd p))"
  unfolding slots_def by (auto simp: finite_prices) (auto simp: book_rep_queue(1) prices_def, metis empty_iff empty_set)

text \<open>A queue in the middle of its side, and what replacing it does.\<close>

lemma slots_split:
  assumes r: "book_rep b Q F"
  obtains A C where "slots b sd = A @ Q sd p @ C"
    "\<And>x. x \<in> set A \<Longrightarrow> better sd (bo_price (slot_order b x)) p"
    "\<And>x. x \<in> set C \<Longrightarrow> better sd p (bo_price (slot_order b x))"
    "\<And>b' xs F'. book_rep b' (set_queue Q sd p xs) F' \<Longrightarrow> slots b' sd = A @ xs @ C"
proof -
  let ?T = "insert p (prices b sd)"
  have T: "finite ?T" using finite_prices [OF r] by simp
  then obtain ps qs where s: "priority_prices sd ?T = ps @ p # qs"
    using split_list [of p "priority_prices sd ?T"] by auto
  have srt: "sorted_wrt (better sd) (ps @ p # qs)" using sorted_priority_prices s by metis
  let ?A = "concat (map (Q sd) ps)" and ?C = "concat (map (Q sd) qs)"
  have "p \<notin> set ps" "p \<notin> set qs" using distinct_priority_prices [of sd ?T] s by auto
  then have fr: "concat (map (set_queue Q sd p xs sd) ps) = ?A" "concat (map (set_queue Q sd p xs sd) qs) = ?C" for xs
    by (auto simp: set_queue_apply intro!: arg_cong [where f = concat])
  show ?thesis
  proof (rule that [of ?A ?C])
    show "slots b sd = ?A @ Q sd p @ ?C" using slots_superset [OF r T, of sd] s by auto
    show "better sd (bo_price (slot_order b x)) p" if "x \<in> set ?A" for x
      using that srt book_repD(5) [OF r] by (auto simp: sorted_wrt_append)
    show "better sd p (bo_price (slot_order b x))" if "x \<in> set ?C" for x
      using that srt book_repD(5) [OF r] by (auto simp: sorted_wrt_append)
    show "slots b' sd = ?A @ xs @ ?C" if "book_rep b' (set_queue Q sd p xs) F'" for b' xs F'
    proof -
      have "prices b' sd \<subseteq> ?T"
        using book_rep_queue(1) [OF that] book_rep_queue(1) [OF r] by (auto simp: prices_def set_queue_apply)
      then show ?thesis using slots_superset [OF that T] s fr by (simp add: set_queue_apply)
    qed
  qed
qed

lemma slots_other:
  "book_rep b Q F \<Longrightarrow> book_rep b' (set_queue Q sd p xs) F' \<Longrightarrow> sd' \<noteq> sd \<Longrightarrow> slots b' sd' = slots b sd'"
  using book_rep_queue(1) [of b Q F] book_rep_queue(1) [of b' "set_queue Q sd p xs" F']
  by (simp add: slots_def prices_def set_queue_def)

lemma slots_same: "book_rep b Q F \<Longrightarrow> book_rep b' Q F' \<Longrightarrow> slots b' = slots b"
  using book_rep_queue(1) [of b Q F] book_rep_queue(1) [of b' Q F'] by (intro ext) (simp add: slots_def prices_def)

lemma slots_distinct:
  assumes r: "book_rep b Q F"
  shows "distinct (slots b sd)"
proof -
  have "distinct (concat (map (Q sd) ps))" if "distinct ps" for ps
    using that book_repD(11) [OF r] book_rep_unique [OF r] by (induction ps) (auto, blast)
  then show ?thesis using book_rep_queue(1) [OF r] by (simp add: slots_def)
qed

lemma slots_in_priority:
  assumes r: "book_rep b Q F"
  shows "in_priority sd (\<lambda>x. bo_price (slot_order b x)) (slots b sd)"
  unfolding in_priority_def slots_def book_rep_queue(1) [OF r]
proof (rule sorted_wrt_concat)
  let ?R = "\<lambda>x y. \<not> better sd (bo_price (slot_order b y)) (bo_price (slot_order b x))"
  have "?R x y" if "x \<in> set (Q sd p)" "y \<in> set (Q sd p)" for x y p
    using that book_repD(5) [OF r] better_irrefl by metis
  moreover have "sorted_wrt ?R xs" if "\<forall>x \<in> set xs. \<forall>y \<in> set xs. ?R x y" for xs
    using that by (induction xs) auto
  ultimately show "sorted_wrt ?R (Q sd p)" for p by blast
  show "sorted_wrt (\<lambda>p p'. \<forall>x \<in> set (Q sd p). \<forall>y \<in> set (Q sd p'). ?R x y) (priority_prices sd (prices b sd))"
  proof (rule sorted_wrt_mono_rel [OF _ sorted_priority_prices])
    show "\<forall>x \<in> set (Q sd p). \<forall>y \<in> set (Q sd p'). ?R x y" if "better sd p p'" for p p'
      using that book_repD(5) [OF r] better_asym by metis
  qed
qed

subsection \<open>The operations on the list\<close>

definition slab_size :: "MatchingBook \<Rightarrow> nat" where
  "slab_size b = length (mb_slab b)"

lemma length_slots: "book_rep b Q F \<Longrightarrow> length (slots b sd) \<le> slab_size b"
  unfolding slab_size_def using slots_distinct set_slots book_repD(9) by (intro distinct_bound) metis+

lemma add_slots:
  assumes r: "book_inv b" and room: "slab_size b < kNil" and ok: "price_ok (bo_price ord)"
  shows "\<exists>b' h. add b ord = Some (b', h) \<and> book_inv b' \<and> (\<forall>sd. h \<notin> set (slots b sd)) \<and>
    slots b' (bo_side ord) = enqueue (bo_side ord) (\<lambda>x. bo_price (slot_order b x)) (bo_price ord) h (slots b (bo_side ord)) \<and>
    slots b' (contra (bo_side ord)) = slots b (contra (bo_side ord)) \<and> slot_order b' h = ord \<and>
    (\<forall>sd. \<forall>x \<in> set (slots b sd). slot_order b' x = slot_order b x) \<and> slab_size b' \<le> Suc (slab_size b)"
proof -
  let ?sd = "bo_side ord" and ?p = "bo_price ord"
  obtain Q F where r: "book_rep b Q F" using assms(1) by (auto simp: book_inv_def)
  obtain b' h F' where a: "add b ord = Some (b', h)" and r': "book_rep b' (set_queue Q ?sd ?p (Q ?sd ?p @ [h])) F'"
    and h: "\<And>sd p. h \<notin> set (Q sd p)" "slot_order b' h = ord"
    and o: "\<And>x sd p. x \<in> set (Q sd p) \<Longrightarrow> slot_order b' x = slot_order b x"
    and len: "length (mb_slab b') \<le> Suc (length (mb_slab b))"
    using add_rep [OF r _ ok] room by (metis has_room_def slab_size_def)
  obtain A C where s: "slots b ?sd = A @ Q ?sd ?p @ C"
    "\<And>x. x \<in> set A \<Longrightarrow> better ?sd (bo_price (slot_order b x)) ?p"
    "\<And>x. x \<in> set C \<Longrightarrow> better ?sd ?p (bo_price (slot_order b x))" "slots b' ?sd = A @ (Q ?sd ?p @ [h]) @ C"
    using slots_split [OF r, of ?sd ?p] r' by metis
  have "\<not> better ?sd ?p (bo_price (slot_order b x))" if "x \<in> set (A @ Q ?sd ?p)" for x
    using that s(2) book_repD(5) [OF r, of x ?sd ?p] better_asym by auto
  then have "enqueue ?sd (\<lambda>x. bo_price (slot_order b x)) ?p h ((A @ Q ?sd ?p) @ C) = (A @ Q ?sd ?p) @ h # C"
    using s(3) by (rule enqueue_append)
  then show ?thesis
    using a h o len s(1,4) slots_other [OF r r', of "contra ?sd"] set_slots [OF r] book_rep_inv [OF r']
    by (auto simp: slab_size_def)
qed

lemma remove_slots:
  assumes "book_inv b" and x: "x \<in> set (slots b sd)"
  shows "\<exists>b'. remove_at b x = Some (b', slot_order b x) \<and> book_inv b' \<and> slots b' sd = remove1 x (slots b sd) \<and>
    slots b' (contra sd) = slots b (contra sd) \<and> slot_order b' = slot_order b \<and> slab_size b' = slab_size b"
proof -
  obtain Q F where r: "book_rep b Q F" using assms(1) by (auto simp: book_inv_def)
  obtain p where p: "x \<in> set (Q sd p)" using x set_slots [OF r] by blast
  obtain b' where b': "remove_at b x = Some (b', slot_order b x)"
    and r': "book_rep b' (set_queue Q sd p (remove1 x (Q sd p))) (x # F)"
    and o: "slot_order b' = slot_order b" "length (mb_slab b') = length (mb_slab b)"
    by (rule remove_at_rep [OF r p])
  obtain A C where s: "slots b sd = A @ Q sd p @ C" "slots b' sd = A @ remove1 x (Q sd p) @ C"
    using slots_split [OF r, of sd p] r' by metis
  have "x \<notin> set A" using slots_distinct [OF r, of sd] p s(1) by auto
  then have "slots b' sd = remove1 x (slots b sd)" using s p by (simp add: remove1_append)
  then show ?thesis using b' o slots_other [OF r r', of "contra sd"] book_rep_inv [OF r'] by (simp add: slab_size_def)
qed

lemma update_slots:
  assumes "book_inv b" and x: "x \<in> set (slots b sd)"
  shows "book_at b x = Some (slot_order b x)"
    "\<exists>b'. reduce_at b x n = Some b' \<and> book_inv b' \<and> slots b' = slots b \<and>
      slot_order b' = (slot_order b)(x := (slot_order b x)\<lparr>bo_remaining_quantity := n\<rparr>) \<and> slab_size b' = slab_size b"
    "\<exists>b'. set_client_order_id_at b x c = Some b' \<and> book_inv b' \<and> slots b' = slots b \<and>
      slot_order b' = (slot_order b)(x := (slot_order b x)\<lparr>bo_client_order_id := c\<rparr>) \<and> slab_size b' = slab_size b"
proof -
  obtain Q F where r: "book_rep b Q F" using assms(1) by (auto simp: book_inv_def)
  obtain p where p: "x \<in> set (Q sd p)" using x set_slots [OF r] by blast
  show "book_at b x = Some (slot_order b x)"
    using book_repD(9) [OF r p] by (simp add: book_at_def slot_order_def)
  show "\<exists>b'. reduce_at b x n = Some b' \<and> book_inv b' \<and> slots b' = slots b \<and>
      slot_order b' = (slot_order b)(x := (slot_order b x)\<lparr>bo_remaining_quantity := n\<rparr>) \<and> slab_size b' = slab_size b"
    using reduce_at_rep [OF r p, of n] book_rep_inv slots_same [OF r] by (metis slab_size_def)
  show "\<exists>b'. set_client_order_id_at b x c = Some b' \<and> book_inv b' \<and> slots b' = slots b \<and>
      slot_order b' = (slot_order b)(x := (slot_order b x)\<lparr>bo_client_order_id := c\<rparr>) \<and> slab_size b' = slab_size b"
    using set_client_order_id_at_rep [OF r p, of c] book_rep_inv slots_same [OF r] by (metis slab_size_def)
qed

lemma prices_slots: "book_rep b Q F \<Longrightarrow> prices b sd = {} \<longleftrightarrow> slots b sd = []"
  using finite_prices [of b Q F sd]
  by (auto simp: slots_def) (metis empty_iff mem_Collect_eq prices_def set_priority_prices)

lemma slots_front:
  assumes r: "book_rep b Q F" and f: "first_price sd (prices b sd) p"
  obtains C where "slots b sd = Q sd p @ C" "hd (slots b sd) = hd (Q sd p)" "Q sd p \<noteq> []"
    "\<And>b' xs F'. book_rep b' (set_queue Q sd p xs) F' \<Longrightarrow> slots b' sd = xs @ C"
proof -
  obtain A C where s: "slots b sd = A @ Q sd p @ C" "\<And>x. x \<in> set A \<Longrightarrow> better sd (bo_price (slot_order b x)) p"
    "\<And>b' xs F'. book_rep b' (set_queue Q sd p xs) F' \<Longrightarrow> slots b' sd = A @ xs @ C"
    using slots_split [OF r, of sd p] by metis
  have "x \<notin> set A" for x
  proof
    assume x: "x \<in> set A"
    then have "x \<in> set (slots b sd)" using s(1) by simp
    then obtain q where "x \<in> set (Q sd q)" using set_slots [OF r] by blast
    then have "q \<in> prices b sd" "bo_price (slot_order b x) = q"
      using book_repD(5) [OF r] book_rep_queue(1) [OF r] by (auto simp: prices_def)
    then show False using f s(2) [OF x] better_asym by (metis better_irrefl first_price_def)
  qed
  then have "A = []" by (cases A) auto
  moreover have "Q sd p \<noteq> []" using f book_rep_queue(1) [OF r] by (simp add: first_price_def prices_def)
  ultimately show ?thesis using that [of C] s(1,3) by simp
qed

lemma front_slots:
  assumes "book_inv b"
  shows "front_of_best b sd = Some (case slots b sd of [] \<Rightarrow> None | x # _ \<Rightarrow> Some (slot_order b x))"
    "slots b sd = x # xs \<Longrightarrow> reduce_front b sd n = reduce_at b x n"
    "slots b sd = x # xs \<Longrightarrow> \<exists>b'. remove_front b sd = Some b' \<and> book_inv b' \<and> slots b' sd = xs \<and>
      slots b' (contra sd) = slots b (contra sd) \<and> slot_order b' = slot_order b \<and> slab_size b' = slab_size b"
proof -
  obtain Q F where r: "book_rep b Q F" using assms by (auto simp: book_inv_def)
  have front: "front_slot b sd = Some (hd (slots b sd)) \<and> hd (slots b sd) < length (mb_slab b)" if ne: "slots b sd \<noteq> []"
  proof -
    obtain p where p: "first_price sd (prices b sd) p" "front_slot b sd = Some (hd (Q sd p))"
      using front_slot_rep [OF r, of sd] prices_slots [OF r] ne by blast
    then show ?thesis using slots_front [OF r p(1)] book_repD(9) [OF r] by (metis hd_in_set)
  qed
  then show "front_of_best b sd = Some (case slots b sd of [] \<Rightarrow> None | x # _ \<Rightarrow> Some (slot_order b x))"
    using si_empty_prices [OF r, of sd] prices_slots [OF r, of sd]
    by (cases "slots b sd") (simp_all add: front_of_best_def slot_order_def)
  show "slots b sd = x # xs \<Longrightarrow> reduce_front b sd n = reduce_at b x n"
    using front by (simp add: reduce_front_def)
  assume sl: "slots b sd = x # xs"
  then have "prices b sd \<noteq> {}" using prices_slots [OF r, of sd] by simp
  then obtain p where p: "first_price sd (prices b sd) p" by (rule best_price_book [OF r])
  obtain C where C: "slots b sd = Q sd p @ C" "Q sd p \<noteq> []"
    "\<And>b' xs F'. book_rep b' (set_queue Q sd p xs) F' \<Longrightarrow> slots b' sd = xs @ C"
    using slots_front [OF r p] by metis
  obtain b' where b': "remove_front b sd = Some b'" and r': "book_rep b' (set_queue Q sd p (tl (Q sd p))) (hd (Q sd p) # F)"
    and o: "slot_order b' = slot_order b" "length (mb_slab b') = length (mb_slab b)"
    by (rule remove_front_rep [OF r p])
  have "xs = tl (Q sd p) @ C" using C(1,2) sl by (metis list.sel(3) tl_append2)
  then show "\<exists>b'. remove_front b sd = Some b' \<and> book_inv b' \<and> slots b' sd = xs \<and>
      slots b' (contra sd) = slots b (contra sd) \<and> slot_order b' = slot_order b \<and> slab_size b' = slab_size b"
    using b' o C(3) [OF r'] slots_other [OF r r', of "contra sd"] book_rep_inv [OF r'] by (simp add: slab_size_def)
qed

text \<open>The quantity an incoming order can trade against, off the list.\<close>

definition crossing :: "Side \<Rightarrow> Price \<Rightarrow> BookOrder list \<Rightarrow> nat" where
  "crossing sd limit os = (\<Sum>ord \<leftarrow> filter (\<lambda>ord. crosses sd limit (bo_price ord)) os. unat (bo_remaining_quantity ord))"

lemma crossing_simps [simp]:
  "crossing sd limit [] = 0"
  "crossing sd limit (ord # os) =
     (if crosses sd limit (bo_price ord) then unat (bo_remaining_quantity ord) else 0) + crossing sd limit os"
  by (simp_all add: crossing_def)

lemma crossing_append: "crossing sd limit (xs @ ys) = crossing sd limit xs + crossing sd limit ys"
  by (simp add: crossing_def)

lemma crossing_queue:
  assumes "\<And>ord. ord \<in> set os \<Longrightarrow> bo_price ord = p"
  shows "crossing sd limit os = (if crosses sd limit p then \<Sum>ord \<leftarrow> os. unat (bo_remaining_quantity ord) else 0)"
  using assms by (induction os) auto

lemma crossable_slots:
  assumes r: "book_rep b Q F"
  shows "crossable b sd limit = crossing sd limit (map (slot_order b) (slots b sd))"
proof -
  have q: "crossing sd limit (map (slot_order b) (queue b sd p)) = (if crosses sd limit p then depth b sd p else 0)" for p
  proof (subst crossing_queue)
    show "bo_price ord = p" if "ord \<in> set (map (slot_order b) (queue b sd p))" for ord
      using that book_repD(5) [OF r, of _ sd p] by (auto simp: book_rep_queue(1) [OF r])
  qed (simp add: depth_def resting_def [abs_def] comp_def)
  have "crossing sd limit (map (slot_order b) (concat (map (queue b sd) ps))) = crossing_depth b sd limit ps" for ps
    by (induction ps) (simp_all add: crossing_append q crossing_depth_def)
  then show ?thesis
    unfolding crossable_def slots_def using crossing_depth_all [OF finite_prices [OF r], where b = b and sd = sd and limit = limit] by simp
qed

subsection \<open>The interface\<close>

locale price_time_book =
  fixes inv :: "'b \<Rightarrow> bool" and size_of :: "'b \<Rightarrow> nat" and side_list :: "'b \<Rightarrow> Side \<Rightarrow> nat list"
    and order :: "'b \<Rightarrow> nat \<Rightarrow> BookOrder"
    and add_op :: "'b \<Rightarrow> BookOrder \<Rightarrow> ('b \<times> nat) option"
    and remove_op :: "'b \<Rightarrow> nat \<Rightarrow> ('b \<times> BookOrder) option"
    and at_op :: "'b \<Rightarrow> nat \<Rightarrow> BookOrder option"
    and reduce_op :: "'b \<Rightarrow> nat \<Rightarrow> Quantity \<Rightarrow> 'b option"
    and rename_op :: "'b \<Rightarrow> nat \<Rightarrow> ClientOrderId \<Rightarrow> 'b option"
    and front_op :: "'b \<Rightarrow> Side \<Rightarrow> BookOrder option option"
    and reduce_front_op :: "'b \<Rightarrow> Side \<Rightarrow> Quantity \<Rightarrow> 'b option"
    and remove_front_op :: "'b \<Rightarrow> Side \<Rightarrow> 'b option"
    and all_op :: "'b \<Rightarrow> Side \<Rightarrow> BookOrder list option"
    and crossable_op :: "'b \<Rightarrow> Side \<Rightarrow> Price \<Rightarrow> Quantity \<Rightarrow> Quantity option"
  assumes distinct_list: "inv b \<Longrightarrow> distinct (side_list b sd)"
    and length_list: "inv b \<Longrightarrow> length (side_list b sd) \<le> size_of b \<and> size_of b \<le> kNil"
    and filed: "inv b \<Longrightarrow> x \<in> set (side_list b sd) \<Longrightarrow> bo_side (order b x) = sd"
    and priority: "inv b \<Longrightarrow> in_priority sd (\<lambda>x. bo_price (order b x)) (side_list b sd)"
    and add_law: "inv b \<Longrightarrow> size_of b < kNil \<Longrightarrow> price_ok (bo_price ord) \<Longrightarrow>
      \<exists>b' h. add_op b ord = Some (b', h) \<and> inv b' \<and> (\<forall>sd. h \<notin> set (side_list b sd)) \<and>
        side_list b' (bo_side ord) = enqueue (bo_side ord) (\<lambda>x. bo_price (order b x)) (bo_price ord) h (side_list b (bo_side ord)) \<and>
        side_list b' (contra (bo_side ord)) = side_list b (contra (bo_side ord)) \<and> order b' h = ord \<and>
        (\<forall>sd. \<forall>x \<in> set (side_list b sd). order b' x = order b x) \<and> size_of b' \<le> Suc (size_of b)"
    and remove_law: "inv b \<Longrightarrow> x \<in> set (side_list b sd) \<Longrightarrow>
      \<exists>b'. remove_op b x = Some (b', order b x) \<and> inv b' \<and> side_list b' sd = remove1 x (side_list b sd) \<and>
        side_list b' (contra sd) = side_list b (contra sd) \<and> order b' = order b \<and> size_of b' = size_of b"
    and at_law: "inv b \<Longrightarrow> x \<in> set (side_list b sd) \<Longrightarrow> at_op b x = Some (order b x)"
    and reduce_law: "inv b \<Longrightarrow> x \<in> set (side_list b sd) \<Longrightarrow>
      \<exists>b'. reduce_op b x n = Some b' \<and> inv b' \<and> side_list b' = side_list b \<and>
        order b' = (order b)(x := (order b x)\<lparr>bo_remaining_quantity := n\<rparr>) \<and> size_of b' = size_of b"
    and rename_law: "inv b \<Longrightarrow> x \<in> set (side_list b sd) \<Longrightarrow>
      \<exists>b'. rename_op b x c = Some b' \<and> inv b' \<and> side_list b' = side_list b \<and>
        order b' = (order b)(x := (order b x)\<lparr>bo_client_order_id := c\<rparr>) \<and> size_of b' = size_of b"
    and front_law: "inv b \<Longrightarrow> front_op b sd = Some (case side_list b sd of [] \<Rightarrow> None | x # _ \<Rightarrow> Some (order b x))"
    and reduce_front_law: "inv b \<Longrightarrow> side_list b sd = x # xs \<Longrightarrow> reduce_front_op b sd n = reduce_op b x n"
    and remove_front_law: "inv b \<Longrightarrow> side_list b sd = x # xs \<Longrightarrow>
      \<exists>b'. remove_front_op b sd = Some b' \<and> inv b' \<and> side_list b' sd = xs \<and>
        side_list b' (contra sd) = side_list b (contra sd) \<and> order b' = order b \<and> size_of b' = size_of b"
    and all_law: "inv b \<Longrightarrow> all_op b sd = Some (map (order b) (side_list b sd))"
    and crossable_law: "inv b \<Longrightarrow> crossing sd limit (map (order b) (side_list b sd)) < 2 ^ 64 \<Longrightarrow> n \<noteq> 0 \<Longrightarrow>
      \<exists>a. crossable_op b sd limit n = Some a \<and> covers a n (crossing sd limit (map (order b) (side_list b sd)))"
begin

definition orders_on :: "'b \<Rightarrow> Side \<Rightarrow> BookOrder list" where
  "orders_on b sd = map (order b) (side_list b sd)"

definition resting_slots :: "'b \<Rightarrow> nat set" where
  "resting_slots b = set (side_list b Buy) \<union> set (side_list b Sell)"

lemma resting_slots_iff: "x \<in> resting_slots b \<longleftrightarrow> (\<exists>sd. x \<in> set (side_list b sd))"
proof
  assume "x \<in> resting_slots b"
  then show "\<exists>sd. x \<in> set (side_list b sd)" unfolding resting_slots_def by blast
next
  assume "\<exists>sd. x \<in> set (side_list b sd)"
  then obtain sd where "x \<in> set (side_list b sd)" ..
  then show "x \<in> resting_slots b" by (cases sd) (auto simp: resting_slots_def)
qed

lemma resting_slots_side: "resting_slots b = set (side_list b sd) \<union> set (side_list b (contra sd))"
  by (cases sd) (auto simp: resting_slots_def)

lemma sides_disjoint: "inv b \<Longrightarrow> x \<in> set (side_list b sd) \<Longrightarrow> x \<notin> set (side_list b (contra sd))"
  using filed by (metis contra_neq(1))

lemma slot_side: "inv b \<Longrightarrow> x \<in> resting_slots b \<Longrightarrow> x \<in> set (side_list b (bo_side (order b x)))"
  using filed resting_slots_iff by metis

end

interpretation book: price_time_book book_inv slab_size slots slot_order
  add remove_at book_at reduce_at set_client_order_id_at front_of_best reduce_front remove_front all_of crossable_quantity
proof
  fix b sd x xs n c ord limit
  assume i: "book_inv b"
  then obtain Q F where r: "book_rep b Q F" by (auto simp: book_inv_def)
  show "distinct (slots b sd)" by (rule slots_distinct [OF r])
  show "length (slots b sd) \<le> slab_size b \<and> slab_size b \<le> kNil"
    using length_slots [OF r] book_repD(1) [OF r] by (simp add: slab_size_def)
  show "x \<in> set (slots b sd) \<Longrightarrow> bo_side (slot_order b x) = sd" using set_slots [OF r] book_repD(4) [OF r] by blast
  show "in_priority sd (\<lambda>x. bo_price (slot_order b x)) (slots b sd)" by (rule slots_in_priority [OF r])
  show "all_of b sd = Some (map (slot_order b) (slots b sd))" using all_of_rep [OF r] by (simp add: slots_def)
  show "\<exists>a. crossable_quantity b sd limit n = Some a \<and> covers a n (crossing sd limit (map (slot_order b) (slots b sd)))"
    if "crossing sd limit (map (slot_order b) (slots b sd)) < 2 ^ 64" "n \<noteq> 0"
    using crossable_quantity_rep [OF r, of sd limit n] that unfolding crossable_slots [OF r] by metis
qed (fact add_slots remove_slots update_slots front_slots)+

end
