(* ===== verification/Matching_Engine.thy ===== *)
theory Matching_Engine
  imports Price_Time_Book
begin

text \<open>
  The matching engine (\<open>exchange/matching/matching_engine.cpp\<close>): the instrument registry, the
  directory of live orders, the three engine-owned counters, and the handlers for new orders,
  cancels and replaces. The events passed to the sink are returned as a list. A result of \<open>None\<close>
  is an access out of bounds, an \<open>at\<close> on a missing key or a loop that does not end.
\<close>

subsection \<open>State\<close>

record OrderRef =
  ref_original_quantity :: Quantity
  ref_order_sequence :: u64
  ref_handle :: nat
  ref_instrument_id :: InstrumentId

type_synonym LiveKey = "AccountId \<times> ClientOrderId"

record MatchingEngine =
  me_slot_of_id :: "nat list"
  me_books :: "MatchingBook list"
  me_expected_orders_per_book :: nat
  me_band_ticks :: nat
  me_by_id :: "(InstrumentId \<times> nat) list"
  me_orders :: "LiveKey \<rightharpoonup> OrderRef"
  me_next_exchange_order_id :: ExchangeOrderId
  me_next_event_sequence :: EventSequence
  me_next_priority :: u64

definition kMaxInstrumentId :: InstrumentId where
  "kMaxInstrumentId = 2 ^ 22 - 1"

definition kLadderByteBudget :: nat where
  "kLadderByteBudget = 8 * 2 ^ 20"

definition kNoSlot :: nat where
  "kNoSlot = 2 ^ 32 - 1"

subsection \<open>The registry\<close>

definition knows_instrument :: "MatchingEngine \<Rightarrow> InstrumentId \<Rightarrow> bool" where
  "knows_instrument E i \<longleftrightarrow> unat i < length (me_slot_of_id E) \<and> me_slot_of_id E ! unat i \<noteq> kNoSlot"

text \<open>\<open>std::vector::resize\<close> with a fill value.\<close>

definition resize :: "'a list \<Rightarrow> nat \<Rightarrow> 'a \<Rightarrow> 'a list" where
  "resize xs n v = take n xs @ replicate (n - length xs) v"

text \<open>\<open>std::lower_bound\<close> on the id-ordered table, then insertion at that position.\<close>

fun insert_by_id :: "InstrumentId \<times> nat \<Rightarrow> (InstrumentId \<times> nat) list \<Rightarrow> (InstrumentId \<times> nat) list" where
  "insert_by_id e [] = [e]"
| "insert_by_id e (x # xs) = (if fst x < fst e then x # insert_by_id e xs else e # x # xs)"

definition register_instrument :: "MatchingEngine \<Rightarrow> InstrumentId \<Rightarrow> MatchingEngine \<times> bool" where
  "register_instrument E i =
     (if i > kMaxInstrumentId \<or> knows_instrument E i then (E, False)
      else let
        table = (if unat i \<ge> length (me_slot_of_id E) then resize (me_slot_of_id E) (unat i + 1) kNoSlot
                 else me_slot_of_id E);
        slot = length (me_books E) mod 2 ^ 32;
        band = min (me_band_ticks E) (band_for (length (me_books E) + 1) kLadderByteBudget)
      in (E\<lparr>me_band_ticks := band,
           me_books := me_books E @ [new_book band],
           me_slot_of_id := table[unat i := slot],
           me_by_id := insert_by_id (i, slot) (me_by_id E)\<rparr>, True))"

definition empty_engine :: MatchingEngine where
  "empty_engine = \<lparr>me_slot_of_id = [], me_books = [], me_expected_orders_per_book = 0,
     me_band_ticks = kMaxBandTicks, me_by_id = [], me_orders = Map.empty,
     me_next_exchange_order_id = 1, me_next_event_sequence = 1, me_next_priority = 1\<rparr>"

definition new_engine :: "InstrumentId list \<Rightarrow> nat \<Rightarrow> MatchingEngine" where
  "new_engine universe expected_resting_orders =
     (let widest = fold (\<lambda>i w. if i \<le> kMaxInstrumentId then max w i else w) universe 0;
          E = (if universe \<noteq> [] then
                 empty_engine\<lparr>me_slot_of_id := replicate (unat widest + 1) kNoSlot,
                   me_expected_orders_per_book := expected_resting_orders div length universe,
                   me_band_ticks := band_for (length universe) kLadderByteBudget\<rparr>
               else empty_engine)
      in fold (\<lambda>i E. fst (register_instrument E i)) universe E)"

text \<open>\<open>book_for\<close> and the write-back that the C++ reference does in place.\<close>

definition book_slot :: "MatchingEngine \<Rightarrow> InstrumentId \<Rightarrow> nat option" where
  "book_slot E i = vget (me_slot_of_id E) (unat i)"

definition book_for :: "MatchingEngine \<Rightarrow> InstrumentId \<Rightarrow> MatchingBook option" where
  "book_for E i = do { s \<leftarrow> book_slot E i; vget (me_books E) s }"

definition set_book :: "MatchingEngine \<Rightarrow> InstrumentId \<Rightarrow> MatchingBook \<Rightarrow> MatchingEngine option" where
  "set_book E i b = do {
     s \<leftarrow> book_slot E i;
     books \<leftarrow> vset (me_books E) s b;
     Some (E\<lparr>me_books := books\<rparr>)
   }"

definition engine_out_of_band_levels :: "MatchingEngine \<Rightarrow> nat" where
  "engine_out_of_band_levels E = sum_list (map out_of_band_levels (me_books E))"

subsection \<open>Snapshots\<close>

record InstrumentBookSnapshot =
  ib_instrument_id :: InstrumentId
  ib_bids :: "ExchangeRestingOrder list"
  ib_asks :: "ExchangeRestingOrder list"

type_synonym EngineStateSnapshot = "InstrumentBookSnapshot list"

definition compose :: "MatchingEngine \<Rightarrow> BookOrder \<Rightarrow> InstrumentId \<Rightarrow> ExchangeRestingOrder option" where
  "compose E ord i = do {
     ref \<leftarrow> me_orders E (bo_account_id ord, bo_client_order_id ord);
     Some \<lparr>er_exchange_order_id = bo_exchange_order_id ord,
       er_client_order_id = bo_client_order_id ord,
       er_account_id = bo_account_id ord,
       er_price = bo_price ord,
       er_original_quantity = ref_original_quantity ref,
       er_remaining_quantity = bo_remaining_quantity ord,
       er_order_sequence = ref_order_sequence ref,
       er_instrument_id = i,
       er_side = bo_side ord,
       er_time_in_force = bo_time_in_force ord\<rparr>
   }"

fun compose_all :: "MatchingEngine \<Rightarrow> InstrumentId \<Rightarrow> BookOrder list \<Rightarrow> ExchangeRestingOrder list option" where
  "compose_all E i [] = Some []"
| "compose_all E i (ord # os) = do {
     c \<leftarrow> compose E ord i;
     cs \<leftarrow> compose_all E i os;
     Some (c # cs)
   }"

fun snapshot_from :: "MatchingEngine \<Rightarrow> (InstrumentId \<times> nat) list \<Rightarrow> EngineStateSnapshot option" where
  "snapshot_from E [] = Some []"
| "snapshot_from E ((i, slot) # entries) = do {
     b \<leftarrow> vget (me_books E) slot;
     bids \<leftarrow> all_bids b;
     asks \<leftarrow> all_asks b;
     bids \<leftarrow> compose_all E i bids;
     asks \<leftarrow> compose_all E i asks;
     rest \<leftarrow> snapshot_from E entries;
     Some (if bids = [] \<and> asks = [] then rest
           else \<lparr>ib_instrument_id = i, ib_bids = bids, ib_asks = asks\<rparr> # rest)
   }"

definition snapshot :: "MatchingEngine \<Rightarrow> EngineStateSnapshot option" where
  "snapshot E = snapshot_from E (me_by_id E)"

subsection \<open>Emitting events\<close>

text \<open>\<open>sink(...{.event_sequence = next_event_sequence_++, ...})\<close>.\<close>

definition bump_event :: "MatchingEngine \<Rightarrow> MatchingEngine" where
  "bump_event E = E\<lparr>me_next_event_sequence := me_next_event_sequence E + 1\<rparr>"

definition reject_new_order ::
  "MatchingEngine \<Rightarrow> NewOrderCommand \<Rightarrow> RejectReason \<Rightarrow> MatchingEngine \<times> ExchangeEvent list" where
  "reject_new_order E cmd reason =
     (bump_event E, [OrderRejected \<lparr>rj_event_sequence = me_next_event_sequence E,
        rj_command_sequence = nc_command_sequence cmd, rj_account_id = nc_account_id cmd,
        rj_client_order_id = nc_client_order_id cmd, rj_instrument_id = nc_instrument_id cmd,
        rj_reason = reason\<rparr>])"

definition reject_replace_order ::
  "MatchingEngine \<Rightarrow> ReplaceOrderCommand \<Rightarrow> RejectReason \<Rightarrow> MatchingEngine \<times> ExchangeEvent list" where
  "reject_replace_order E cmd reason =
     (bump_event E, [OrderRejected \<lparr>rj_event_sequence = me_next_event_sequence E,
        rj_command_sequence = rc_command_sequence cmd, rj_account_id = rc_account_id cmd,
        rj_client_order_id = rc_original_client_order_id cmd, rj_instrument_id = rc_instrument_id cmd,
        rj_reason = reason\<rparr>])"

text \<open>The rejection a cancel emits inline.\<close>

definition reject_cancel ::
  "MatchingEngine \<Rightarrow> CancelOrderCommand \<Rightarrow> RejectReason \<Rightarrow> MatchingEngine \<times> ExchangeEvent list" where
  "reject_cancel E cmd reason =
     (bump_event E, [OrderRejected \<lparr>rj_event_sequence = me_next_event_sequence E,
        rj_command_sequence = cc_command_sequence cmd, rj_account_id = cc_account_id cmd,
        rj_client_order_id = cc_client_order_id cmd, rj_instrument_id = cc_instrument_id cmd,
        rj_reason = reason\<rparr>])"

subsection \<open>Matching\<close>

definition engine_crossable_quantity ::
  "MatchingEngine \<Rightarrow> InstrumentId \<Rightarrow> Side \<Rightarrow> Price \<Rightarrow> Quantity \<Rightarrow> Quantity option" where
  "engine_crossable_quantity E i incoming_side price quantity = do {
     b \<leftarrow> book_for E i;
     crossable_quantity b (contra incoming_side) price quantity
   }"

definition trade_event ::
  "EventSequence \<Rightarrow> CommandSequence \<Rightarrow> ExchangeRestingOrder \<Rightarrow> BookOrder \<Rightarrow> Quantity \<Rightarrow> ExchangeEvent" where
  "trade_event seq command_sequence incoming c trade_qty = (let
      aggressor_cp = \<lparr>tc_account_id = er_account_id incoming,
        tc_client_order_id = er_client_order_id incoming,
        tc_exchange_order_id = er_exchange_order_id incoming,
        tc_remaining_quantity = er_remaining_quantity incoming - trade_qty\<rparr>;
      resting_cp = \<lparr>tc_account_id = bo_account_id c,
        tc_client_order_id = bo_client_order_id c,
        tc_exchange_order_id = bo_exchange_order_id c,
        tc_remaining_quantity = bo_remaining_quantity c - trade_qty\<rparr>
    in TradeExecuted \<lparr>te_event_sequence = seq, te_command_sequence = command_sequence,
        te_instrument_id = er_instrument_id incoming, te_price = bo_price c, te_quantity = trade_qty,
        te_aggressor_side = er_side incoming,
        te_buyer = (if er_side incoming = Buy then aggressor_cp else resting_cp),
        te_seller = (if er_side incoming = Buy then resting_cp else aggressor_cp)\<rparr>)"

text \<open>One iteration of the matching loop, against the order \<open>c\<close> at the front of the contra side.\<close>

definition match_once ::
  "MatchingEngine \<Rightarrow> MatchingBook \<Rightarrow> ExchangeRestingOrder \<Rightarrow> CommandSequence \<Rightarrow> BookOrder \<Rightarrow>
     (MatchingEngine \<times> ExchangeRestingOrder \<times> ExchangeEvent list) option" where
  "match_once E b incoming command_sequence c = (let
      contra_side = contra (er_side incoming);
      trade_qty = min (er_remaining_quantity incoming) (bo_remaining_quantity c);
      contra_remaining_after = bo_remaining_quantity c - trade_qty;
      trade = trade_event (me_next_event_sequence E) command_sequence incoming c trade_qty;
      incoming' = incoming\<lparr>er_remaining_quantity := er_remaining_quantity incoming - trade_qty\<rparr>;
      E1 = bump_event E
    in if contra_remaining_after = 0 then do {
         b' \<leftarrow> remove_front b contra_side;
         E2 \<leftarrow> set_book E1 (er_instrument_id incoming) b';
         let E3 = E2\<lparr>me_orders := (me_orders E2)((bo_account_id c, bo_client_order_id c) := None)\<rparr>;
         Some (bump_event E3, incoming',
           [trade, BookOrderRemoved \<lparr>bm_event_sequence = me_next_event_sequence E3,
             bm_instrument_id = er_instrument_id incoming,
             bm_exchange_order_id = bo_exchange_order_id c, bm_side = bo_side c, bm_price = bo_price c\<rparr>])
       } else do {
         b' \<leftarrow> reduce_front b contra_side contra_remaining_after;
         E2 \<leftarrow> set_book E1 (er_instrument_id incoming) b';
         Some (bump_event E2, incoming',
           [trade, BookOrderReduced \<lparr>bd_event_sequence = me_next_event_sequence E2,
             bd_instrument_id = er_instrument_id incoming,
             bd_exchange_order_id = bo_exchange_order_id c, bd_side = bo_side c, bd_price = bo_price c,
             bd_new_remaining_quantity = contra_remaining_after\<rparr>])
       })"

partial_function (option) match_and_rest ::
  "MatchingEngine \<Rightarrow> ExchangeRestingOrder \<Rightarrow> CommandSequence \<Rightarrow>
     (MatchingEngine \<times> ExchangeRestingOrder \<times> ExchangeEvent list) option" where
  "match_and_rest E incoming command_sequence =
     (if er_remaining_quantity incoming = 0 then Some (E, incoming, [])
      else do {
        b \<leftarrow> book_for E (er_instrument_id incoming);
        front \<leftarrow> front_of_best b (contra (er_side incoming));
        (case front of
           None \<Rightarrow> Some (E, incoming, [])
         | Some c \<Rightarrow>
             if \<not> (if er_side incoming = Buy then er_price incoming \<ge> bo_price c
                  else er_price incoming \<le> bo_price c)
             then Some (E, incoming, [])
             else do {
               (E1, incoming1, evs1) \<leftarrow> match_once E b incoming command_sequence c;
               (E2, incoming2, evs2) \<leftarrow> match_and_rest E1 incoming1 command_sequence;
               Some (E2, incoming2, evs1 @ evs2)
             })
      })"

declare match_and_rest.simps [code]

definition book_order_of :: "ExchangeRestingOrder \<Rightarrow> BookOrder" where
  "book_order_of ord = \<lparr>bo_exchange_order_id = er_exchange_order_id ord,
     bo_client_order_id = er_client_order_id ord, bo_account_id = er_account_id ord,
     bo_price = er_price ord, bo_remaining_quantity = er_remaining_quantity ord,
     bo_side = er_side ord, bo_time_in_force = er_time_in_force ord\<rparr>"

definition rest_remainder_if_applicable ::
  "MatchingEngine \<Rightarrow> ExchangeRestingOrder \<Rightarrow> (MatchingEngine \<times> ExchangeEvent list) option" where
  "rest_remainder_if_applicable E ord =
     (if er_time_in_force ord \<noteq> GTC \<or> er_remaining_quantity ord = 0 then Some (E, [])
      else do {
        b \<leftarrow> book_for E (er_instrument_id ord);
        (b', handle) \<leftarrow> add b (book_order_of ord);
        E1 \<leftarrow> set_book E (er_instrument_id ord) b';
        let E2 = E1\<lparr>me_orders := (me_orders E1)((er_account_id ord, er_client_order_id ord) \<mapsto>
          \<lparr>ref_original_quantity = er_original_quantity ord, ref_order_sequence = er_order_sequence ord,
           ref_handle = handle, ref_instrument_id = er_instrument_id ord\<rparr>)\<rparr>;
        Some (bump_event E2, [BookOrderAdded \<lparr>ba_event_sequence = me_next_event_sequence E2,
          ba_instrument_id = er_instrument_id ord, ba_exchange_order_id = er_exchange_order_id ord,
          ba_side = er_side ord, ba_price = er_price ord, ba_quantity = er_remaining_quantity ord\<rparr>])
      })"

text \<open>Matching an order and resting what is left, the common tail of the two order-entry handlers.\<close>

definition match_then_rest ::
  "MatchingEngine \<Rightarrow> ExchangeRestingOrder \<Rightarrow> CommandSequence \<Rightarrow> (MatchingEngine \<times> ExchangeEvent list) option" where
  "match_then_rest E ord command_sequence = do {
     (E1, ord1, evs1) \<leftarrow> match_and_rest E ord command_sequence;
     (E2, evs2) \<leftarrow> rest_remainder_if_applicable E1 ord1;
     Some (E2, evs1 @ evs2)
   }"

subsection \<open>Handlers\<close>

definition accepted_event :: "NewOrderCommand \<Rightarrow> EventSequence \<Rightarrow> ExchangeOrderId \<Rightarrow> ExchangeEvent" where
  "accepted_event cmd seq oid = OrderAccepted \<lparr>oa_event_sequence = seq,
     oa_command_sequence = nc_command_sequence cmd, oa_account_id = nc_account_id cmd,
     oa_client_order_id = nc_client_order_id cmd, oa_exchange_order_id = oid,
     oa_instrument_id = nc_instrument_id cmd, oa_side = nc_side cmd, oa_price = nc_price cmd,
     oa_quantity = nc_quantity cmd, oa_order_type = nc_order_type cmd,
     oa_time_in_force = nc_time_in_force cmd\<rparr>"

definition incoming_order :: "NewOrderCommand \<Rightarrow> ExchangeOrderId \<Rightarrow> u64 \<Rightarrow> ExchangeRestingOrder" where
  "incoming_order cmd oid priority = \<lparr>er_exchange_order_id = oid,
     er_client_order_id = nc_client_order_id cmd, er_account_id = nc_account_id cmd,
     er_price = nc_price cmd, er_original_quantity = nc_quantity cmd,
     er_remaining_quantity = nc_quantity cmd, er_order_sequence = priority,
     er_instrument_id = nc_instrument_id cmd, er_side = nc_side cmd,
     er_time_in_force = nc_time_in_force cmd\<rparr>"

definition accept_new_order ::
  "MatchingEngine \<Rightarrow> NewOrderCommand \<Rightarrow> (MatchingEngine \<times> ExchangeEvent list) option" where
  "accept_new_order E cmd = (let
      oid = me_next_exchange_order_id E;
      ord = incoming_order cmd oid (me_next_priority E);
      ev = accepted_event cmd (me_next_event_sequence E) oid;
      E1 = bump_event (E\<lparr>me_next_exchange_order_id := oid + 1, me_next_priority := me_next_priority E + 1\<rparr>)
    in do {
      (E2, evs) \<leftarrow> match_then_rest E1 ord (nc_command_sequence cmd);
      Some (E2, ev # evs)
    })"

definition process_new_order ::
  "MatchingEngine \<Rightarrow> NewOrderCommand \<Rightarrow> (MatchingEngine \<times> ExchangeEvent list) option" where
  "process_new_order E cmd =
     (if \<not> knows_instrument E (nc_instrument_id cmd) then Some (reject_new_order E cmd InvalidInstrument)
      else if nc_price cmd \<le> 0 then Some (reject_new_order E cmd InvalidPrice)
      else if nc_quantity cmd = 0 then Some (reject_new_order E cmd InvalidQuantity)
      else if me_orders E (nc_account_id cmd, nc_client_order_id cmd) \<noteq> None
        then Some (reject_new_order E cmd DuplicateOrderId)
      else if nc_time_in_force cmd = FOK then do {
        available \<leftarrow> engine_crossable_quantity E (nc_instrument_id cmd) (nc_side cmd) (nc_price cmd) (nc_quantity cmd);
        if available < nc_quantity cmd then Some (reject_new_order E cmd InsufficientLiquidity)
        else accept_new_order E cmd
      }
      else accept_new_order E cmd)"

definition process_cancel ::
  "MatchingEngine \<Rightarrow> CancelOrderCommand \<Rightarrow> (MatchingEngine \<times> ExchangeEvent list) option" where
  "process_cancel E cmd =
     (if \<not> knows_instrument E (cc_instrument_id cmd) then Some (reject_cancel E cmd InvalidInstrument)
      else case me_orders E (cc_account_id cmd, cc_client_order_id cmd) of
        None \<Rightarrow> Some (reject_cancel E cmd UnknownOrderId)
      | Some ref \<Rightarrow>
          if ref_instrument_id ref \<noteq> cc_instrument_id cmd then Some (reject_cancel E cmd UnknownOrderId)
          else do {
            let E1 = E\<lparr>me_orders := (me_orders E)((cc_account_id cmd, cc_client_order_id cmd) := None)\<rparr>;
            b \<leftarrow> book_for E1 (cc_instrument_id cmd);
            (b', removed) \<leftarrow> remove_at b (ref_handle ref);
            E2 \<leftarrow> set_book E1 (cc_instrument_id cmd) b';
            let seq = me_next_event_sequence E2;
            Some (bump_event (bump_event E2),
              [OrderCancelled \<lparr>oc_event_sequence = seq, oc_command_sequence = cc_command_sequence cmd,
                 oc_account_id = cc_account_id cmd, oc_client_order_id = cc_client_order_id cmd,
                 oc_exchange_order_id = bo_exchange_order_id removed, oc_instrument_id = cc_instrument_id cmd\<rparr>,
               BookOrderRemoved \<lparr>bm_event_sequence = seq + 1, bm_instrument_id = cc_instrument_id cmd,
                 bm_exchange_order_id = bo_exchange_order_id removed, bm_side = bo_side removed,
                 bm_price = bo_price removed\<rparr>])
          })"

definition replaced_event :: "ReplaceOrderCommand \<Rightarrow> EventSequence \<Rightarrow> ExchangeOrderId \<Rightarrow> ExchangeEvent" where
  "replaced_event cmd seq oid = OrderReplaced \<lparr>rp_event_sequence = seq,
     rp_command_sequence = rc_command_sequence cmd, rp_account_id = rc_account_id cmd,
     rp_original_client_order_id = rc_original_client_order_id cmd,
     rp_new_client_order_id = rc_new_client_order_id cmd, rp_exchange_order_id = oid,
     rp_instrument_id = rc_instrument_id cmd, rp_new_price = rc_new_price cmd,
     rp_new_quantity = rc_new_quantity cmd\<rparr>"

definition replacement_order ::
  "ReplaceOrderCommand \<Rightarrow> BookOrder \<Rightarrow> ExchangeOrderId \<Rightarrow> u64 \<Rightarrow> ExchangeRestingOrder" where
  "replacement_order cmd old oid priority = \<lparr>er_exchange_order_id = oid,
     er_client_order_id = rc_new_client_order_id cmd, er_account_id = rc_account_id cmd,
     er_price = rc_new_price cmd, er_original_quantity = rc_new_quantity cmd,
     er_remaining_quantity = rc_new_quantity cmd, er_order_sequence = priority,
     er_instrument_id = rc_instrument_id cmd, er_side = bo_side old,
     er_time_in_force = bo_time_in_force old\<rparr>"

text \<open>The two branches of a replace: in place with priority kept, or cancel-plus-new.\<close>

definition replace_in_place ::
  "MatchingEngine \<Rightarrow> MatchingBook \<Rightarrow> ReplaceOrderCommand \<Rightarrow> OrderRef \<Rightarrow> BookOrder \<Rightarrow>
     (MatchingEngine \<times> ExchangeEvent list) option" where
  "replace_in_place E b cmd ref old = do {
     b1 \<leftarrow> reduce_at b (ref_handle ref) (rc_new_quantity cmd);
     b2 \<leftarrow> set_client_order_id_at b1 (ref_handle ref) (rc_new_client_order_id cmd);
     E1 \<leftarrow> set_book E (rc_instrument_id cmd) b2;
     let orders = (me_orders E1)((rc_account_id cmd, rc_original_client_order_id cmd) := None);
     let E2 = E1\<lparr>me_orders := orders((rc_account_id cmd, rc_new_client_order_id cmd) \<mapsto> ref)\<rparr>;
     let seq = me_next_event_sequence E2;
     Some (bump_event (bump_event E2),
       [replaced_event cmd seq (bo_exchange_order_id old),
        BookOrderReduced \<lparr>bd_event_sequence = seq + 1, bd_instrument_id = rc_instrument_id cmd,
          bd_exchange_order_id = bo_exchange_order_id old, bd_side = bo_side old,
          bd_price = bo_price old, bd_new_remaining_quantity = rc_new_quantity cmd\<rparr>])
   }"

definition replace_requeue ::
  "MatchingEngine \<Rightarrow> MatchingBook \<Rightarrow> ReplaceOrderCommand \<Rightarrow> OrderRef \<Rightarrow> BookOrder \<Rightarrow>
     (MatchingEngine \<times> ExchangeEvent list) option" where
  "replace_requeue E b cmd ref old = do {
     (b1, _) \<leftarrow> remove_at b (ref_handle ref);
     E1 \<leftarrow> set_book E (rc_instrument_id cmd) b1;
     let E2 = E1\<lparr>me_orders := (me_orders E1)((rc_account_id cmd, rc_original_client_order_id cmd) := None)\<rparr>;
     let oid = me_next_exchange_order_id E2;
     let seq = me_next_event_sequence E2;
     let ord = replacement_order cmd old oid (me_next_priority E2);
     let E3 = bump_event (bump_event
       (E2\<lparr>me_next_exchange_order_id := oid + 1, me_next_priority := me_next_priority E2 + 1\<rparr>));
     (E4, evs) \<leftarrow> match_then_rest E3 ord (rc_command_sequence cmd);
     Some (E4, replaced_event cmd seq oid #
       BookOrderRemoved \<lparr>bm_event_sequence = seq + 1, bm_instrument_id = rc_instrument_id cmd,
         bm_exchange_order_id = bo_exchange_order_id old, bm_side = bo_side old,
         bm_price = bo_price old\<rparr> # evs)
   }"

definition process_replace ::
  "MatchingEngine \<Rightarrow> ReplaceOrderCommand \<Rightarrow> (MatchingEngine \<times> ExchangeEvent list) option" where
  "process_replace E cmd =
     (if \<not> knows_instrument E (rc_instrument_id cmd) then Some (reject_replace_order E cmd InvalidInstrument)
      else if rc_new_price cmd \<le> 0 \<or> rc_new_quantity cmd = 0
        then Some (reject_replace_order E cmd InvalidReplacement)
      else case me_orders E (rc_account_id cmd, rc_original_client_order_id cmd) of
        None \<Rightarrow> Some (reject_replace_order E cmd UnknownOrderId)
      | Some ref \<Rightarrow>
          if ref_instrument_id ref \<noteq> rc_instrument_id cmd then Some (reject_replace_order E cmd UnknownOrderId)
          else do {
            b \<leftarrow> book_for E (rc_instrument_id cmd);
            old \<leftarrow> book_at b (ref_handle ref);
            if rc_new_price cmd = bo_price old \<and> rc_new_quantity cmd \<le> bo_remaining_quantity old
            then replace_in_place E b cmd ref old
            else replace_requeue E b cmd ref old
          })"

fun process :: "MatchingEngine \<Rightarrow> ExchangeCommand \<Rightarrow> (MatchingEngine \<times> ExchangeEvent list) option" where
  "process E (NewOrder cmd) = process_new_order E cmd"
| "process E (CancelOrder cmd) = process_cancel E cmd"
| "process E (ReplaceOrder cmd) = process_replace E cmd"

end
