(* ===== verification/Matching_Spec.thy ===== *)
theory Matching_Spec
  imports Price_Time_Book
begin

text \<open>
  Price-time-priority matching as a function on lists of orders, independent of the engine's data
  structures: the incoming quantity is filled from the front of the contra side while prices
  cross, and what is left is queued behind its peers. The matching engine is shown to implement it.
\<close>

subsection \<open>Filling from the front\<close>

fun match_spec ::
  "Side \<Rightarrow> Price \<Rightarrow> Quantity \<Rightarrow> BookOrder list \<Rightarrow> (BookOrder \<times> Quantity) list \<times> Quantity \<times> BookOrder list" where
  "match_spec sd limit n [] = ([], n, [])"
| "match_spec sd limit n (c # os) =
     (if n = 0 \<or> \<not> crosses (contra sd) limit (bo_price c) then ([], n, c # os)
      else if bo_remaining_quantity c \<le> n then
        (let (fills, n', os') = match_spec sd limit (n - bo_remaining_quantity c) os
         in ((c, bo_remaining_quantity c) # fills, n', os'))
      else ([(c, n)], 0, c\<lparr>bo_remaining_quantity := bo_remaining_quantity c - n\<rparr> # os))"

definition filled :: "(BookOrder \<times> Quantity) list \<Rightarrow> nat" where
  "filled fills = (\<Sum>(c, q) \<leftarrow> fills. unat q)"

definition total_quantity :: "BookOrder list \<Rightarrow> nat" where
  "total_quantity os = (\<Sum>c \<leftarrow> os. unat (bo_remaining_quantity c))"

lemma filled_simps [simp]: "filled [] = 0" "filled ((c, q) # fills) = unat q + filled fills"
  by (simp_all add: filled_def)

lemma total_quantity_simps [simp]: "total_quantity [] = 0"
  "total_quantity (c # os) = unat (bo_remaining_quantity c) + total_quantity os"
  by (simp_all add: total_quantity_def)

lemma unat_diff: "b \<le> a \<Longrightarrow> unat (a - b) = unat a - unat (b :: 'a::len word)"
  by (simp add: unat_sub)

lemma match_spec_Cons:
  assumes "match_spec sd limit n (c # os) = (fills, n', os')"
  obtains (stop) "n = 0 \<or> \<not> crosses (contra sd) limit (bo_price c)" "fills = []" "n' = n" "os' = c # os"
  | (full) fs where "n \<noteq> 0" "crosses (contra sd) limit (bo_price c)" "bo_remaining_quantity c \<le> n"
      "match_spec sd limit (n - bo_remaining_quantity c) os = (fs, n', os')" "fills = (c, bo_remaining_quantity c) # fs"
  | (part) "n \<noteq> 0" "crosses (contra sd) limit (bo_price c)" "n < bo_remaining_quantity c" "fills = [(c, n)]" "n' = 0"
      "os' = c\<lparr>bo_remaining_quantity := bo_remaining_quantity c - n\<rparr> # os"
proof (cases "n = 0 \<or> \<not> crosses (contra sd) limit (bo_price c)")
  case True
  then show ?thesis using stop assms by simp
next
  case False
  note F = this
  show ?thesis
  proof (cases "bo_remaining_quantity c \<le> n")
    case True
    obtain fs m ws where m: "match_spec sd limit (n - bo_remaining_quantity c) os = (fs, m, ws)" by (metis prod_cases3)
    then show ?thesis using full [of fs] assms F True by simp
  next
    case False
    then show ?thesis using part assms F by (simp flip: not_le)
  qed
qed

text \<open>Nothing is created or lost: what the incoming order gives up is what the contra side gives up.\<close>

lemma match_spec_conserves:
  assumes "match_spec sd limit n os = (fills, n', os')"
  shows "filled fills + unat n' = unat n" "total_quantity os = total_quantity os' + filled fills"
  using assms
proof (induction os arbitrary: n fills n' os')
  case (Cons c os)
  {
    case 1
    then show ?case using Cons.IH(1) [of "n - bo_remaining_quantity c"]
      by (auto simp: word_le_nat_alt unat_diff split: if_splits prod.splits)
  next
    case 2
    then show ?case using Cons.IH(2) [of "n - bo_remaining_quantity c"]
      by (auto simp: not_le word_less_nat_alt unat_diff order.strict_implies_order split: if_splits prod.splits)
  }
qed auto

text \<open>Price-time priority: the filled orders are the front of the queue, in order, and only the
  last of them can be left with a remainder.\<close>

lemma match_spec_prefix:
  assumes "match_spec sd limit n os = (fills, n', os')"
  shows "\<exists>rest. os = map fst fills @ rest \<and>
    (if \<forall>(c, q) \<in> set fills. q = bo_remaining_quantity c then os' = rest
     else \<exists>full c q. fills = full @ [(c, q)] \<and> q < bo_remaining_quantity c \<and> n' = 0 \<and>
       (\<forall>(c, q) \<in> set full. q = bo_remaining_quantity c) \<and>
       os' = c\<lparr>bo_remaining_quantity := bo_remaining_quantity c - q\<rparr> # rest)"
  using assms
proof (induction os arbitrary: n fills)
  case (Cons c os)
  let ?q = "bo_remaining_quantity c"
  from Cons.prems show ?case
  proof (cases rule: match_spec_Cons)
    case stop
    then show ?thesis by simp
  next
    case fs: (full fs)
    from Cons.IH [OF fs(4)] obtain rest where rest: "os = map fst fs @ rest"
      "if \<forall>(c, q) \<in> set fs. q = bo_remaining_quantity c then os' = rest
       else \<exists>full c q. fs = full @ [(c, q)] \<and> q < bo_remaining_quantity c \<and> n' = 0 \<and>
         (\<forall>(c, q) \<in> set full. q = bo_remaining_quantity c) \<and>
         os' = c\<lparr>bo_remaining_quantity := bo_remaining_quantity c - q\<rparr> # rest" by blast
    show ?thesis
    proof (cases "\<forall>(c, q) \<in> set fs. q = bo_remaining_quantity c")
      case True
      with rest fs show ?thesis by auto
    next
      case False
      with rest(2) obtain full d q where "fs = full @ [(d, q)]" "q < bo_remaining_quantity d" "n' = 0"
        "\<forall>(c, q) \<in> set full. q = bo_remaining_quantity c"
        "os' = d\<lparr>bo_remaining_quantity := bo_remaining_quantity d - q\<rparr> # rest" by auto
      then show ?thesis using rest(1) fs(5) False
        by (intro exI [of _ rest]) (auto intro!: exI [of _ "(c, ?q) # full"])
    qed
  next
    case part
    then show ?thesis by (auto intro!: exI [of _ os])
  qed
qed simp

lemma match_spec_crosses:
  assumes "match_spec sd limit n os = (fills, n', os')" "(c, q) \<in> set fills"
  shows "crosses (contra sd) limit (bo_price c)" "c \<in> set os" "q \<le> bo_remaining_quantity c"
proof -
  have "crosses (contra sd) limit (bo_price c) \<and> c \<in> set os \<and> q \<le> bo_remaining_quantity c"
    using assms
  proof (induction os arbitrary: n fills)
    case (Cons d os)
    from Cons.prems(1) show ?case
    proof (cases rule: match_spec_Cons)
      case (full fs)
      then show ?thesis using Cons.IH [OF full(4)] Cons.prems(2) by auto
    qed (use Cons.prems(2) in auto)
  qed auto
  then show "crosses (contra sd) limit (bo_price c)" "c \<in> set os" "q \<le> bo_remaining_quantity c" by auto
qed

text \<open>The incoming order stops only when it is filled or nothing crosses any more.\<close>

lemma not_crosses_worse: "\<not> crosses sd limit p \<Longrightarrow> \<not> better sd q p \<Longrightarrow> \<not> crosses sd limit q"
  by (cases sd) (auto simp: crosses_def)

lemma crossing_0:
  "\<forall>c \<in> set os. \<not> crosses sd limit (bo_price c) \<Longrightarrow> crossing sd limit os = 0"
  by (induction os) auto

lemma match_spec_exhausts:
  assumes "match_spec sd limit n os = (fills, n', os')" "in_priority (contra sd) bo_price os" "n' \<noteq> 0" "c \<in> set os'"
  shows "\<not> crosses (contra sd) limit (bo_price c)"
  using assms
proof (induction os arbitrary: n fills)
  case (Cons d os)
  have p: "in_priority (contra sd) bo_price os" "\<forall>c \<in> set os. \<not> better (contra sd) (bo_price c) (bo_price d)"
    using Cons.prems(2) by (auto simp: in_priority_def)
  from Cons.prems(1) show ?case
  proof (cases rule: match_spec_Cons)
    case stop
    then show ?thesis using Cons.prems(3,4) p(2) not_crosses_worse by auto
  next
    case full
    then show ?thesis using Cons.IH Cons.prems(3,4) p(1) by blast
  qed (use Cons.prems(3) in simp)
qed auto

lemma match_spec_remaining:
  assumes "match_spec sd limit n os = (fills, n', os')" "in_priority (contra sd) bo_price os"
  shows "unat n' = unat n - crossing (contra sd) limit os"
  using assms
proof (induction os arbitrary: n fills)
  case (Cons d os)
  have p: "in_priority (contra sd) bo_price os" "\<forall>c \<in> set os. \<not> better (contra sd) (bo_price c) (bo_price d)"
    using Cons.prems(2) by (auto simp: in_priority_def)
  from Cons.prems(1) show ?case
  proof (cases rule: match_spec_Cons)
    case stop
    have "crossing (contra sd) limit (d # os) = 0" if "n \<noteq> 0"
      using that stop(1) p(2) not_crosses_worse by (intro crossing_0) auto
    with stop show ?thesis by (cases "n = 0") auto
  next
    case full
    then show ?thesis using Cons.IH [OF full(4) p(1)] by (simp add: unat_diff)
  next
    case part
    then show ?thesis by (simp add: word_less_nat_alt)
  qed
qed auto

text \<open>What stays keeps its order; only the remaining quantity of the first one may change.\<close>

lemma match_spec_rest:
  assumes "match_spec sd limit n os = (fills, n', os')" "c \<in> set os'"
  obtains d where "d \<in> set os" "c = d\<lparr>bo_remaining_quantity := bo_remaining_quantity c\<rparr>"
    "bo_remaining_quantity c \<le> bo_remaining_quantity d" "0 < bo_remaining_quantity d \<Longrightarrow> 0 < bo_remaining_quantity c"
proof -
  have "\<exists>d \<in> set os. c = d\<lparr>bo_remaining_quantity := bo_remaining_quantity c\<rparr> \<and>
      bo_remaining_quantity c \<le> bo_remaining_quantity d \<and> (0 < bo_remaining_quantity d \<longrightarrow> 0 < bo_remaining_quantity c)"
    using assms(1)
  proof (induction os arbitrary: n fills)
    case (Cons e os)
    from Cons.prems show ?case
    proof (cases rule: match_spec_Cons)
      case stop
      then show ?thesis using assms(2) by (intro bexI [of _ c]) auto
    next
      case full
      then show ?thesis using Cons.IH by force
    next
      case part
      then have "c = e\<lparr>bo_remaining_quantity := bo_remaining_quantity e - n\<rparr> \<or> c \<in> set os" using assms(2) by auto
      moreover have "bo_remaining_quantity e - n \<le> bo_remaining_quantity e" "0 < bo_remaining_quantity e - n"
        using part(3) by (auto simp: word_le_nat_alt word_less_nat_alt unat_diff)
      ultimately show ?thesis by (auto intro: bexI [of _ e] bexI [of _ c])
    qed
  qed (use assms(2) in auto)
  then show ?thesis using that by blast
qed

lemma match_spec_in_priority:
  assumes "match_spec sd limit n os = (fills, n', os')" "in_priority sd' bo_price os"
  shows "in_priority sd' bo_price os'"
  using assms
proof (induction os arbitrary: n fills)
  case (Cons e os)
  then show ?case using Cons.IH [of "n - bo_remaining_quantity e"]
    by (auto simp: in_priority_def split: if_splits prod.splits)
qed auto

subsection \<open>Submitting an order\<close>

type_synonym spec_book = "Side \<Rightarrow> BookOrder list"

definition submit_spec ::
  "spec_book \<Rightarrow> BookOrder \<Rightarrow> spec_book \<times> (BookOrder \<times> Quantity) list \<times> Quantity" where
  "submit_spec V ord = (let
      sd = bo_side ord;
      (fills, n, os) = match_spec sd (bo_price ord) (bo_remaining_quantity ord) (V (contra sd));
      V1 = V(contra sd := os)
    in (if bo_time_in_force ord = GTC \<and> n \<noteq> 0
        then V1(sd := enqueue sd bo_price (bo_price ord) (ord\<lparr>bo_remaining_quantity := n\<rparr>) (V1 sd))
        else V1, fills, n))"

lemma submit_spec_eq:
  assumes "match_spec (bo_side ord) (bo_price ord) (bo_remaining_quantity ord) (V (contra (bo_side ord))) = (fills, n, os)"
  shows "submit_spec V ord = (let V1 = V(contra (bo_side ord) := os) in
    if bo_time_in_force ord = GTC \<and> n \<noteq> 0
    then V1(bo_side ord := enqueue (bo_side ord) bo_price (bo_price ord) (ord\<lparr>bo_remaining_quantity := n\<rparr>) (V (bo_side ord)))
    else V1, fills, n)"
  using assms by (simp add: submit_spec_def Let_def)

text \<open>A book in which no bid reaches an ask.\<close>

definition uncrossed :: "spec_book \<Rightarrow> bool" where
  "uncrossed V \<longleftrightarrow> (\<forall>x \<in> set (V Buy). \<forall>y \<in> set (V Sell). bo_price x < bo_price y)"

lemma uncrossed_side:
  "uncrossed V \<longleftrightarrow> (\<forall>x \<in> set (V sd). \<forall>y \<in> set (V (contra sd)). \<not> crosses (contra sd) (bo_price x) (bo_price y))"
  by (cases sd) (auto simp: uncrossed_def crosses_def not_le)

lemma map_enqueue:
  assumes "\<And>x. x \<in> set xs \<Longrightarrow> f' x = f x"
  shows "map f' (enqueue sd (\<lambda>x. key (f x)) p h xs) = enqueue sd key p (f' h) (map f xs)"
proof -
  have "map f' (takeWhile P xs) = map f (takeWhile P xs)" "map f' (dropWhile P xs) = map f (dropWhile P xs)" for P
    using assms by (auto dest: set_takeWhileD set_dropWhileD)
  then show ?thesis by (simp add: enqueue_def takeWhile_map dropWhile_map comp_def)
qed

lemma in_priority_enqueue:
  assumes "in_priority sd key xs" "key x = p"
  shows "in_priority sd key (enqueue sd key p x xs)"
proof -
  let ?P = "\<lambda>y. \<not> better sd p (key y)"
  have s: "sorted_wrt (\<lambda>x y. \<not> better sd (key y) (key x)) (takeWhile ?P xs @ dropWhile ?P xs)"
    using assms(1) by (simp add: in_priority_def)
  have t: "\<not> better sd p (key y)" if "y \<in> set (takeWhile ?P xs)" for y using set_takeWhileD [OF that] by simp
  have d: "better sd p (key y)" if y: "y \<in> set (dropWhile ?P xs)" for y
  proof (cases "dropWhile ?P xs")
    case Nil
    with y show ?thesis by (simp only: list.set empty_iff)
  next
    case (Cons z zs)
    then have "better sd p (key z)" using hd_dropWhile [of ?P xs] by auto
    moreover have "y = z \<or> \<not> better sd (key y) (key z)" using s y unfolding Cons by (auto simp: sorted_wrt_append)
    ultimately show ?thesis by (cases sd) auto
  qed
  have d': "\<not> better sd (key y) p" if "y \<in> set (dropWhile ?P xs)" for y using d [OF that] better_asym by blast
  show ?thesis
    using s [unfolded sorted_wrt_append] t d' unfolding in_priority_def enqueue_def
    by (simp add: sorted_wrt_append assms(2))
qed

lemma submit_spec_in_priority:
  assumes "submit_spec V ord = (V', fills, n)" "\<And>sd. in_priority sd bo_price (V sd)"
  shows "in_priority sd bo_price (V' sd)"
proof -
  obtain fs m os where m: "match_spec (bo_side ord) (bo_price ord) (bo_remaining_quantity ord) (V (contra (bo_side ord))) = (fs, m, os)"
    by (metis prod_cases3)
  have os: "in_priority (contra (bo_side ord)) bo_price os" using match_spec_in_priority [OF m assms(2)] .
  have "in_priority (bo_side ord) bo_price (enqueue (bo_side ord) bo_price (bo_price ord) (ord\<lparr>bo_remaining_quantity := m\<rparr>) (V (bo_side ord)))"
    using assms(2) by (intro in_priority_enqueue) auto
  with os assms(1,2) show ?thesis
    using side_cases_contra [of sd "bo_side ord"] unfolding submit_spec_eq [of _ V, OF m] by (auto simp: Let_def)
qed

lemma submit_spec_uncrossed:
  assumes "submit_spec V ord = (V', fills, n)" "\<And>sd. in_priority sd bo_price (V sd)" "uncrossed V"
  shows "uncrossed V'"
proof -
  let ?sd = "bo_side ord"
  obtain fs m os where m: "match_spec ?sd (bo_price ord) (bo_remaining_quantity ord) (V (contra ?sd)) = (fs, m, os)"
    by (metis prod_cases3)
  have old: "\<not> crosses (contra ?sd) (bo_price x) (bo_price y)" if x: "x \<in> set (V ?sd)" and y: "y \<in> set os" for x y
  proof -
    obtain d where "d \<in> set (V (contra ?sd))" "y = d\<lparr>bo_remaining_quantity := bo_remaining_quantity y\<rparr>"
      using match_spec_rest [OF m y] by metis
    moreover from this(2) have "bo_price y = bo_price d" by (metis BookOrder.select_convs(4) BookOrder.surjective BookOrder.update_convs(5))
    ultimately show ?thesis using assms(3) x by (simp add: uncrossed_side [of _ ?sd])
  qed
  have new: "\<not> crosses (contra ?sd) (bo_price ord) (bo_price y)" if "m \<noteq> 0" "y \<in> set os" for y
    using match_spec_exhausts [OF m assms(2) that] .
  from old new assms(1) show ?thesis
    unfolding uncrossed_side [of V' ?sd] submit_spec_eq [of _ V, OF m] by (auto simp: Let_def split: if_splits)
qed

end
