(* ===== verification/Engine_Registry.thy ===== *)
theory Engine_Registry
  imports Matching_Engine Matching_Spec
begin

text \<open>
  The instrument registry of the engine: \<open>slot_of_id_\<close>, \<open>books_\<close> and \<open>by_id_\<close> stay in step, so
  that the engine can be read as a map from instruments to books, and the engine invariant over
  that map and the directory of live orders.
\<close>

subsection \<open>The registry invariant\<close>

definition slot_for :: "MatchingEngine \<Rightarrow> InstrumentId \<Rightarrow> nat" where
  "slot_for E i = me_slot_of_id E ! unat i"

definition reg_inv :: "MatchingEngine \<Rightarrow> bool" where
  "reg_inv E \<longleftrightarrow> length (me_slot_of_id E) \<le> 2 ^ 22 \<and> me_band_ticks E \<le> kMaxBandTicks \<and>
     (\<forall>i. knows_instrument E i \<longrightarrow> slot_for E i < length (me_books E)) \<and>
     (\<forall>i j. knows_instrument E i \<longrightarrow> knows_instrument E j \<longrightarrow> slot_for E i = slot_for E j \<longrightarrow> i = j) \<and>
     sorted_wrt (<) (map fst (me_by_id E)) \<and>
     set (me_by_id E) = {(i, slot_for E i) | i. knows_instrument E i} \<and>
     length (me_by_id E) = length (me_books E)"

definition engine_books :: "MatchingEngine \<Rightarrow> InstrumentId \<rightharpoonup> MatchingBook" where
  "engine_books E i = (if knows_instrument E i then book_for E i else None)"

lemma reg_invD:
  assumes "reg_inv E"
  shows "length (me_slot_of_id E) \<le> 2 ^ 22" "me_band_ticks E \<le> kMaxBandTicks"
    "knows_instrument E i \<Longrightarrow> slot_for E i < length (me_books E)"
    "knows_instrument E i \<Longrightarrow> knows_instrument E j \<Longrightarrow> slot_for E i = slot_for E j \<Longrightarrow> i = j"
    "sorted_wrt (<) (map fst (me_by_id E))"
    "set (me_by_id E) = {(i, slot_for E i) | i. knows_instrument E i}"
    "length (me_by_id E) = length (me_books E)"
  using assms unfolding reg_inv_def by blast+

lemma books_bounded:
  assumes "reg_inv E"
  shows "length (me_books E) \<le> 2 ^ 22"
proof -
  have "distinct (map fst (me_by_id E))" using reg_invD(5) [OF assms] by (metis strict_sorted_iff)
  then have "distinct (map unat (map fst (me_by_id E)))" unfolding distinct_map [of unat] by (auto intro!: inj_onI dest: unsigned_word_eqI)
  moreover have "k < length (me_slot_of_id E)" if "k \<in> set (map unat (map fst (me_by_id E)))" for k
    using that reg_invD(6) [OF assms] by (auto simp: knows_instrument_def)
  ultimately have "length (map unat (map fst (me_by_id E))) \<le> length (me_slot_of_id E)" by (rule distinct_bound)
  then show ?thesis using reg_invD(1,7) [OF assms] by simp
qed

lemma engine_books_eq:
  "reg_inv E \<Longrightarrow> engine_books E i = (if knows_instrument E i then Some (me_books E ! slot_for E i) else None)"
  using reg_invD(3) [of E i]
  by (simp add: engine_books_def book_for_def book_slot_def slot_for_def knows_instrument_def)

lemma engine_books_known: "reg_inv E \<Longrightarrow> engine_books E i = Some b \<Longrightarrow> knows_instrument E i \<and> book_for E i = Some b"
  by (auto simp: engine_books_def split: if_splits)

text \<open>Writing one instrument's book back.\<close>

lemma set_book_reg:
  assumes r: "reg_inv E" and k: "knows_instrument E i"
  obtains books where "set_book E i b = Some (E\<lparr>me_books := books\<rparr>)" "reg_inv (E\<lparr>me_books := books\<rparr>)"
    "engine_books (E\<lparr>me_books := books\<rparr>) = (engine_books E)(i \<mapsto> b)"
proof -
  let ?books = "(me_books E)[slot_for E i := b]"
  let ?E = "E\<lparr>me_books := ?books\<rparr>"
  have f: "knows_instrument ?E j = knows_instrument E j" "slot_for ?E j = slot_for E j" for j
    by (simp_all add: knows_instrument_def slot_for_def)
  have s: "set_book E i b = Some ?E"
    using k reg_invD(3) [OF r k] by (simp add: set_book_def book_slot_def slot_for_def knows_instrument_def)
  have r': "reg_inv ?E" using r by (simp add: reg_inv_def f)
  have "engine_books ?E j = ((engine_books E)(i \<mapsto> b)) j" for j
  proof (cases "j = i")
    case True
    then show ?thesis using k reg_invD(3) [OF r k] by (simp add: engine_books_eq [OF r'] f)
  next
    case False
    then have "knows_instrument E j \<Longrightarrow> slot_for E i \<noteq> slot_for E j" using reg_invD(4) [OF r k, of j] by blast
    with False show ?thesis by (simp add: engine_books_eq [OF r] engine_books_eq [OF r'] f)
  qed
  then show ?thesis using that s r' by blast
qed

lemma reg_inv_frame [simp]:
  "reg_inv (E\<lparr>me_orders := D\<rparr>) = reg_inv E" "reg_inv (bump_event E) = reg_inv E"
  "reg_inv (E\<lparr>me_next_exchange_order_id := a\<rparr>) = reg_inv E" "reg_inv (E\<lparr>me_next_priority := c\<rparr>) = reg_inv E"
  by (simp_all add: reg_inv_def knows_instrument_def slot_for_def bump_event_def)

lemma engine_books_frame [simp]:
  "engine_books (E\<lparr>me_orders := D\<rparr>) = engine_books E" "engine_books (bump_event E) = engine_books E"
  "engine_books (E\<lparr>me_next_exchange_order_id := a\<rparr>) = engine_books E"
  "engine_books (E\<lparr>me_next_priority := c\<rparr>) = engine_books E"
  by (simp_all add: engine_books_def book_for_def book_slot_def knows_instrument_def bump_event_def fun_eq_iff)

lemma bump_event_simps [simp]:
  "me_orders (bump_event E) = me_orders E" "me_next_exchange_order_id (bump_event E) = me_next_exchange_order_id E"
  "me_next_priority (bump_event E) = me_next_priority E"
  "me_next_event_sequence (bump_event E) = me_next_event_sequence E + 1"
  "me_books (bump_event E) = me_books E" "me_slot_of_id (bump_event E) = me_slot_of_id E"
  "knows_instrument (bump_event E) i = knows_instrument E i"
  by (simp_all add: bump_event_def knows_instrument_def)

subsection \<open>Registration\<close>

lemma nth_resize: "n \<ge> length xs \<Longrightarrow> k < n \<Longrightarrow> resize xs n v ! k = (if k < length xs then xs ! k else v)"
  by (auto simp: resize_def nth_append)

lemma length_resize [simp]: "length (resize xs n v) = n"
  by (simp add: resize_def)

lemma set_insert_by_id [simp]: "set (insert_by_id e xs) = insert e (set xs)"
  by (induction xs) auto

lemma length_insert_by_id [simp]: "length (insert_by_id e xs) = Suc (length xs)"
  by (induction xs) auto

lemma sorted_insert_by_id:
  "sorted_wrt (<) (map fst xs) \<Longrightarrow> fst e \<notin> fst ` set xs \<Longrightarrow> sorted_wrt (<) (map fst (insert_by_id e xs))"
  by (induction xs) (auto simp: not_less order_le_less)

lemma bit_floor_le: "0 < n \<Longrightarrow> bit_floor n \<le> n"
  by (induction n rule: bit_floor.induct) (subst bit_floor.simps, fastforce)

lemma band_for_le: "band_for n budget \<le> kMaxBandTicks"
proof -
  have "bit_floor (min t kMaxBandTicks) \<le> kMaxBandTicks" if "\<not> t < kMinBandTicks" for t
  proof -
    have "0 < min t kMaxBandTicks" using that by (auto simp: kMinBandTicks_def kMaxBandTicks_def)
    from bit_floor_le [OF this] show ?thesis by simp
  qed
  then show ?thesis by (simp add: band_for_def Let_def)
qed

lemma register_knows:
  assumes r: "reg_inv E" and new: "i \<le> kMaxInstrumentId" "\<not> knows_instrument E i"
  defines "E' \<equiv> fst (register_instrument E i)"
  shows "knows_instrument E' j \<longleftrightarrow> j = i \<or> knows_instrument E j"
    "knows_instrument E j \<Longrightarrow> slot_for E' j = slot_for E j" "slot_for E' i = length (me_books E)"
    "length (me_slot_of_id E') \<le> 2 ^ 22"
proof -
  define table where "table = (if unat i \<ge> length (me_slot_of_id E) then resize (me_slot_of_id E) (unat i + 1) kNoSlot
                 else me_slot_of_id E)"
  have small: "length (me_books E) < kNoSlot" using books_bounded [OF r] by (simp add: kNoSlot_def)
  then have "length (me_books E) mod 2 ^ 32 = length (me_books E)" by (simp add: kNoSlot_def)
  then have E': "me_slot_of_id E' = table[unat i := length (me_books E)]"
    using new(2) new(1) [unfolded not_less [symmetric]] by (simp add: E'_def register_instrument_def Let_def table_def)
  have i: "unat i < length table" "unat i < 2 ^ 22"
    using new(1) by (auto simp: table_def kMaxInstrumentId_def word_le_nat_alt)
  have tab: "table ! k = (if k < length (me_slot_of_id E) then me_slot_of_id E ! k else kNoSlot)" if "k < length table" for k
    using that by (auto simp: table_def nth_resize split: if_splits)
  have len: "length (me_slot_of_id E) \<le> length table" by (simp add: table_def)
  show "length (me_slot_of_id E') \<le> 2 ^ 22"
    using reg_invD(1) [OF r] i(2) by (auto simp: E' table_def)
  show "slot_for E' i = length (me_books E)" using i by (simp add: slot_for_def E')
  show "knows_instrument E' j \<longleftrightarrow> j = i \<or> knows_instrument E j"
    using i(1) small tab [of "unat j"] len
    by (auto simp: knows_instrument_def E' nth_list_update split: if_splits dest: unsigned_word_eqI)
  show "slot_for E' j = slot_for E j" if "knows_instrument E j"
  proof -
    have "unat j \<noteq> unat i" using that new(2) unsigned_word_eqI by blast
    then show ?thesis using that tab [of "unat j"] len by (simp add: slot_for_def E' knows_instrument_def)
  qed
qed

lemma register_instrument_reg:
  assumes r: "reg_inv E"
  shows "reg_inv (fst (register_instrument E i))" 
    and "snd (register_instrument E i) \<longleftrightarrow> i \<le> kMaxInstrumentId \<and> \<not> knows_instrument E i"
    and "\<not> snd (register_instrument E i) \<Longrightarrow> fst (register_instrument E i) = E"
    and "snd (register_instrument E i) \<Longrightarrow>
      \<exists>band \<le> kMaxBandTicks. engine_books (fst (register_instrument E i)) = (engine_books E)(i \<mapsto> new_book band)"
    and "me_orders (fst (register_instrument E i)) = me_orders E"
proof -
  let ?E = "fst (register_instrument E i)"
  show snd: "snd (register_instrument E i) \<longleftrightarrow> i \<le> kMaxInstrumentId \<and> \<not> knows_instrument E i"
    by (auto simp: register_instrument_def Let_def)
  show same: "?E = E" if "\<not> snd (register_instrument E i)"
    using that by (auto simp: register_instrument_def Let_def)
  show "me_orders ?E = me_orders E" by (simp add: register_instrument_def Let_def)
  {
    assume "snd (register_instrument E i)"
    then have new: "i \<le> kMaxInstrumentId" "\<not> knows_instrument E i" using snd by auto
    note k = register_knows [OF r new]
    let ?band = "min (me_band_ticks E) (band_for (length (me_books E) + 1) kLadderByteBudget)"
    have books: "me_books ?E = me_books E @ [new_book ?band]" and band: "me_band_ticks ?E = ?band"
      using new by (auto simp: register_instrument_def Let_def)
    have "length (me_books E) < kNoSlot" using books_bounded [OF r] by (simp add: kNoSlot_def)
    then have by_id: "me_by_id ?E = insert_by_id (i, length (me_books E)) (me_by_id E)"
      using new by (auto simp: register_instrument_def Let_def kNoSlot_def)
    have srt: "sorted_wrt (<) (map fst (me_by_id ?E))"
      unfolding by_id using reg_invD(5,6) [OF r] new(2) by (intro sorted_insert_by_id) auto
    have "set (me_by_id ?E) = {(j, slot_for ?E j) | j. knows_instrument ?E j}"
      unfolding by_id using reg_invD(6) [OF r] k by auto
    moreover have "slot_for ?E j < length (me_books ?E)" if "knows_instrument ?E j" for j
      using that k(1,2) [of j] k(3) reg_invD(3) [OF r, of j] books by (auto simp: less_Suc_eq)
    moreover have "j = j'" if "knows_instrument ?E j" "knows_instrument ?E j'" "slot_for ?E j = slot_for ?E j'" for j j'
      using that k(1,2) [of j] k(3) k(1,2) [of j'] reg_invD(3,4) [OF r, of j] reg_invD(3) [OF r, of j'] by (metis less_irrefl)
    ultimately have r': "reg_inv ?E"
      using k(4) srt band by_id books reg_invD(2,7) [OF r] band_for_le
      unfolding reg_inv_def by (auto simp: min_le_iff_disj)
    have "engine_books ?E j = ((engine_books E)(i \<mapsto> new_book ?band)) j" for j
      using k(1,2) [of j] k(3) books reg_invD(3) [OF r, of j]
      by (cases "j = i") (auto simp: engine_books_eq [OF r] engine_books_eq [OF r'] nth_append)
    then have "engine_books ?E = (engine_books E)(i \<mapsto> new_book ?band)" by blast
    moreover have "?band \<le> kMaxBandTicks" using band_for_le by (simp add: min_le_iff_disj)
    ultimately have "\<exists>band \<le> kMaxBandTicks. engine_books ?E = (engine_books E)(i \<mapsto> new_book band)" by blast
    note this r'
  }
  note new = this
  show "snd (register_instrument E i) \<Longrightarrow> \<exists>band \<le> kMaxBandTicks. engine_books ?E = (engine_books E)(i \<mapsto> new_book band)"
    by (rule new(1))
  show "reg_inv ?E" using new(2) same r by (cases "snd (register_instrument E i)") auto
qed

subsection \<open>The engine invariant\<close>

text \<open>
  The directory and the books describe the same orders: every entry points at a resting order
  with that key, on that instrument, and every resting order has its entry. Resting orders are
  good-till-cancel with a positive remainder, and no book is crossed.
\<close>

definition order_key :: "BookOrder \<Rightarrow> LiveKey" where
  "order_key ord = (bo_account_id ord, bo_client_order_id ord)"

definition dir_inv :: "(InstrumentId \<rightharpoonup> MatchingBook) \<Rightarrow> (LiveKey \<rightharpoonup> OrderRef) \<Rightarrow> bool" where
  "dir_inv B D \<longleftrightarrow>
     (\<forall>k r. D k = Some r \<longrightarrow> (\<exists>b. B (ref_instrument_id r) = Some b \<and> ref_handle r \<in> book.resting_slots b \<and>
        order_key (slot_order b (ref_handle r)) = k)) \<and>
     (\<forall>i b x. B i = Some b \<longrightarrow> x \<in> book.resting_slots b \<longrightarrow>
        (\<exists>r. D (order_key (slot_order b x)) = Some r \<and> ref_handle r = x \<and> ref_instrument_id r = i))"

abbreviation view :: "MatchingBook \<Rightarrow> spec_book" where
  "view b \<equiv> book.orders_on b"

text \<open>Quantities below \<open>2\<^sup>3\<^sup>2\<close> keep every sum over a side's at most \<open>2\<^sup>3\<^sup>2\<close> orders inside 64 bits.\<close>

definition qty_ok :: "Quantity \<Rightarrow> bool" where
  "qty_ok q \<longleftrightarrow> unat q < 2 ^ 32"

definition good_order :: "BookOrder \<Rightarrow> bool" where
  "good_order ord \<longleftrightarrow> bo_time_in_force ord = GTC \<and> 0 < bo_remaining_quantity ord \<and>
     qty_ok (bo_remaining_quantity ord) \<and> price_ok (bo_price ord) \<and> 0 < bo_price ord"

definition book_ok :: "MatchingBook \<Rightarrow> bool" where
  "book_ok b \<longleftrightarrow> book_inv b \<and> (\<forall>sd. \<forall>ord \<in> set (view b sd). good_order ord) \<and> uncrossed (view b)"

definition engine_inv :: "MatchingEngine \<Rightarrow> bool" where
  "engine_inv E \<longleftrightarrow> reg_inv E \<and> (\<forall>i b. engine_books E i = Some b \<longrightarrow> book_ok b) \<and>
     dir_inv (engine_books E) (me_orders E)"

lemma engine_invD:
  assumes "engine_inv E"
  shows "reg_inv E" "engine_books E i = Some b \<Longrightarrow> book_ok b" "dir_inv (engine_books E) (me_orders E)"
    "engine_books E i = Some b \<Longrightarrow> book_inv b"
  using assms by (auto simp: engine_inv_def book_ok_def)

lemma new_book_view:
  assumes "band \<le> kMaxBandTicks"
  shows "book_ok (new_book band)" "view (new_book band) = (\<lambda>_. [])" "book.resting_slots (new_book band) = {}"
    "slab_size (new_book band) = 0"
proof -
  have band: "band \<le> 64 * 64 * 64" using assms by (simp add: kMaxBandTicks_def)
  have "slots (new_book band) sd = []" for sd
    by (simp add: slots_def prices_def new_book_inv(2) [OF band])
  then show v: "view (new_book band) = (\<lambda>_. [])" and "book.resting_slots (new_book band) = {}"
    by (simp_all add: book.orders_on_def book.resting_slots_def fun_eq_iff)
  show "book_ok (new_book band)" using new_book_inv(1) [OF band] by (simp add: book_ok_def v uncrossed_def)
  show "slab_size (new_book band) = 0" by (simp add: slab_size_def new_book_def)
qed

lemma register_instrument_inv:
  assumes inv: "engine_inv E"
  shows "engine_inv (fst (register_instrument E i))" (is "engine_inv ?E")
proof (cases "snd (register_instrument E i)")
  case False
  then show ?thesis using register_instrument_reg(3) [OF engine_invD(1) [OF inv]] inv by simp
next
  case True
  note r = engine_invD(1) [OF inv]
  obtain band where band: "band \<le> kMaxBandTicks" "engine_books ?E = (engine_books E)(i \<mapsto> new_book band)"
    using register_instrument_reg(4) [OF r True] by blast
  have "engine_books E i = None"
    using True register_instrument_reg(2) [OF r] by (simp add: engine_books_def)
  then have "dir_inv (engine_books ?E) (me_orders ?E)"
    using engine_invD(3) [OF inv] new_book_view(3) [OF band(1)]
    unfolding register_instrument_reg(5) [OF r] band(2) dir_inv_def by (auto, metis option.distinct(1))
  then show ?thesis
    using register_instrument_reg(1) [OF r] engine_invD(2) [OF inv] new_book_view(1) [OF band(1)]
    unfolding engine_inv_def band(2) by auto
qed

lemma fold_register_inv: "engine_inv E \<Longrightarrow> engine_inv (fold (\<lambda>i E. fst (register_instrument E i)) is E)"
  by (induction "is" arbitrary: E) (auto intro: register_instrument_inv)

lemma widest_le: "w \<le> kMaxInstrumentId \<Longrightarrow>
    fold (\<lambda>i w. if i \<le> kMaxInstrumentId then max w i else w) is w \<le> kMaxInstrumentId"
  by (induction "is" arbitrary: w) auto

lemma unregistered_inv:
  assumes "\<forall>s \<in> set (me_slot_of_id E). s = kNoSlot" "length (me_slot_of_id E) \<le> 2 ^ 22" "me_books E = []"
    "me_by_id E = []" "me_orders E = Map.empty" "me_band_ticks E \<le> kMaxBandTicks"
  shows "engine_inv E"
proof -
  have k: "\<not> knows_instrument E i" for i using assms(1) by (auto simp: knows_instrument_def)
  then have "engine_books E = Map.empty" by (simp add: engine_books_def fun_eq_iff)
  with k assms show ?thesis by (simp add: engine_inv_def reg_inv_def dir_inv_def)
qed

lemma new_engine_inv: "engine_inv (new_engine universe expected)"
proof -
  let ?w = "fold (\<lambda>i w. if i \<le> kMaxInstrumentId then max w i else w) universe 0"
  have "?w \<le> kMaxInstrumentId" by (rule widest_le) simp
  then have "unat ?w + 1 \<le> 2 ^ 22" by (simp add: word_le_nat_alt kMaxInstrumentId_def)
  then show ?thesis
    unfolding new_engine_def Let_def
    by (intro fold_register_inv unregistered_inv) (auto simp: empty_engine_def band_for_le)
qed

end
