(* ===== verification/Engine_Laws.thy ===== *)
theory Engine_Laws
  imports Engine_Registry
begin

text \<open>
  The engine's handlers implement the matching specification: on an engine satisfying its
  invariant they return, keep the invariant, transform the two order lists of one instrument the
  way \<open>match_spec\<close> and \<open>submit_spec\<close> say, and emit exactly the events of the fills.
\<close>

subsection \<open>The directory follows the books\<close>

lemma dir_invD:
  assumes "dir_inv B D"
  shows "D k = Some r \<Longrightarrow> \<exists>b. B (ref_instrument_id r) = Some b \<and> ref_handle r \<in> book.resting_slots b \<and>
      order_key (slot_order b (ref_handle r)) = k"
    "B i = Some b \<Longrightarrow> x \<in> book.resting_slots b \<Longrightarrow>
      \<exists>r. D (order_key (slot_order b x)) = Some r \<and> ref_handle r = x \<and> ref_instrument_id r = i"
  using assms unfolding dir_inv_def by blast+

lemma dir_inv_inj:
  assumes "dir_inv B D" "B i = Some b" "x \<in> book.resting_slots b" "B j = Some c" "y \<in> book.resting_slots c"
    "order_key (slot_order b x) = order_key (slot_order c y)"
  shows "i = j \<and> x = y"
  using dir_invD(2) [OF assms(1,2,3)] dir_invD(2) [OF assms(1,4,5)] assms(6) by auto

lemma dir_remove:
  assumes d: "dir_inv B D" and b: "B i = Some b" "x \<in> book.resting_slots b"
    and b': "book.resting_slots b' = book.resting_slots b - {x}" "slot_order b' = slot_order b"
  shows "dir_inv (B(i \<mapsto> b')) (D(order_key (slot_order b x) := None))"
  unfolding dir_inv_def
proof (intro conjI allI impI)
  fix k r assume r: "(D(order_key (slot_order b x) := None)) k = Some r"
  then have k: "k \<noteq> order_key (slot_order b x)" "D k = Some r" by (auto split: if_splits)
  from dir_invD(1) [OF d k(2)] k(1) b b'
  show "\<exists>c. (B(i \<mapsto> b')) (ref_instrument_id r) = Some c \<and> ref_handle r \<in> book.resting_slots c \<and>
      order_key (slot_order c (ref_handle r)) = k"
    by (cases "ref_instrument_id r = i") auto
next
  fix j c y assume c: "(B(i \<mapsto> b')) j = Some c" "y \<in> book.resting_slots c"
  obtain c0 where c0: "B j = Some c0" "y \<in> book.resting_slots c0" "slot_order c y = slot_order c0 y" "\<not> (j = i \<and> y = x)"
    using c b b' by (cases "j = i") auto
  then have "order_key (slot_order c0 y) \<noteq> order_key (slot_order b x)" using dir_inv_inj [OF d c0(1,2) b] by auto
  with dir_invD(2) [OF d c0(1,2)] c0(3)
  show "\<exists>r. (D(order_key (slot_order b x) := None)) (order_key (slot_order c y)) = Some r \<and> ref_handle r = y \<and> ref_instrument_id r = j"
    by simp
qed

lemma dir_update:
  assumes d: "dir_inv B D" and b: "B i = Some b" and b': "book.resting_slots b' = book.resting_slots b"
    and o: "\<And>x. x \<in> book.resting_slots b \<Longrightarrow> order_key (slot_order b' x) = order_key (slot_order b x)"
  shows "dir_inv (B(i \<mapsto> b')) D"
  unfolding dir_inv_def
proof (intro conjI allI impI)
  fix k r assume "D k = Some r"
  from dir_invD(1) [OF d this] b b' o
  show "\<exists>c. (B(i \<mapsto> b')) (ref_instrument_id r) = Some c \<and> ref_handle r \<in> book.resting_slots c \<and>
      order_key (slot_order c (ref_handle r)) = k"
    by (cases "ref_instrument_id r = i") auto
next
  fix j c y assume "(B(i \<mapsto> b')) j = Some c" "y \<in> book.resting_slots c"
  with dir_invD(2) [OF d, of j _ y] b b' o
  show "\<exists>r. D (order_key (slot_order c y)) = Some r \<and> ref_handle r = y \<and> ref_instrument_id r = j"
    by (cases "j = i") auto
qed

lemma dir_add:
  assumes d: "dir_inv B D" and b: "B i = Some b"
    and b': "book.resting_slots b' = insert x (book.resting_slots b)"
    and o: "\<And>y. y \<in> book.resting_slots b \<Longrightarrow> slot_order b' y = slot_order b y"
    and k: "order_key (slot_order b' x) = k" "D k = None" and r: "ref_handle r = x" "ref_instrument_id r = i"
  shows "dir_inv (B(i \<mapsto> b')) (D(k \<mapsto> r))"
  unfolding dir_inv_def
proof (intro conjI allI impI)
  fix k' r' assume "(D(k \<mapsto> r)) k' = Some r'"
  then consider "k' = k" "r' = r" | "k' \<noteq> k" "D k' = Some r'" by (auto split: if_splits)
  then show "\<exists>c. (B(i \<mapsto> b')) (ref_instrument_id r') = Some c \<and> ref_handle r' \<in> book.resting_slots c \<and>
      order_key (slot_order c (ref_handle r')) = k'"
  proof cases
    case 1
    then show ?thesis using r k b' by simp
  next
    case 2
    from dir_invD(1) [OF d 2(2)] b b' o show ?thesis by (cases "ref_instrument_id r' = i") auto
  qed
next
  fix j c y assume c: "(B(i \<mapsto> b')) j = Some c" "y \<in> book.resting_slots c"
  show "\<exists>r'. (D(k \<mapsto> r)) (order_key (slot_order c y)) = Some r' \<and> ref_handle r' = y \<and> ref_instrument_id r' = j"
  proof (cases "j = i \<and> y = x")
    case True
    then show ?thesis using c k r by simp
  next
    case False
    then obtain c0 where c0: "B j = Some c0" "y \<in> book.resting_slots c0" "slot_order c y = slot_order c0 y"
      using c b b' o by (cases "j = i") auto
    from dir_invD(2) [OF d c0(1,2)] k(2) c0(3) show ?thesis by auto
  qed
qed

subsection \<open>One fill\<close>

fun fill_events ::
  "EventSequence \<Rightarrow> CommandSequence \<Rightarrow> ExchangeRestingOrder \<Rightarrow> (BookOrder \<times> Quantity) list \<Rightarrow> ExchangeEvent list" where
  "fill_events seq cs inc [] = []"
| "fill_events seq cs inc ((c, q) # fills) =
     trade_event seq cs inc c q #
     (if q = bo_remaining_quantity c
      then BookOrderRemoved \<lparr>bm_event_sequence = seq + 1, bm_instrument_id = er_instrument_id inc,
        bm_exchange_order_id = bo_exchange_order_id c, bm_side = bo_side c, bm_price = bo_price c\<rparr>
      else BookOrderReduced \<lparr>bd_event_sequence = seq + 1, bd_instrument_id = er_instrument_id inc,
        bd_exchange_order_id = bo_exchange_order_id c, bd_side = bo_side c, bd_price = bo_price c,
        bd_new_remaining_quantity = bo_remaining_quantity c - q\<rparr>) #
     fill_events (seq + 2) cs (inc\<lparr>er_remaining_quantity := er_remaining_quantity inc - q\<rparr>) fills"

definition filled_keys :: "(BookOrder \<times> Quantity) list \<Rightarrow> LiveKey set" where
  "filled_keys fills = {order_key c | c q. (c, q) \<in> set fills \<and> q = bo_remaining_quantity c}"

lemma filled_keys_simps [simp]:
  "filled_keys [] = {}"
  "filled_keys ((c, q) # fills) = (if q = bo_remaining_quantity c then {order_key c} else {}) \<union> filled_keys fills"
  by (auto simp: filled_keys_def)

lemma book_ok_shrink:
  assumes "book_ok b" "book_inv b'"
    and "\<And>sd ord. ord \<in> set (view b' sd) \<Longrightarrow> good_order ord \<and> (\<exists>ord' \<in> set (view b sd). bo_price ord' = bo_price ord)"
  shows "book_ok b'"
proof -
  have "bo_price x < bo_price y" if xy: "x \<in> set (view b' Buy)" "y \<in> set (view b' Sell)" for x y
  proof -
    obtain x' y' where "x' \<in> set (view b Buy)" "bo_price x' = bo_price x" "y' \<in> set (view b Sell)" "bo_price y' = bo_price y"
      using assms(3) [OF xy(1)] assms(3) [OF xy(2)] by blast
    then show ?thesis using assms(1) by (metis book_ok_def uncrossed_def)
  qed
  then show ?thesis using assms by (auto simp: book_ok_def uncrossed_def)
qed

lemma engine_inv_update:
  assumes inv: "engine_inv E" and "reg_inv E'" "engine_books E' = (engine_books E)(i \<mapsto> b')" "book_ok b'"
    "dir_inv ((engine_books E)(i \<mapsto> b')) (me_orders E')"
  shows "engine_inv E'"
  unfolding engine_inv_def assms(3)
proof (intro conjI allI impI)
  fix j b assume "((engine_books E)(i \<mapsto> b')) j = Some b"
  then show "book_ok b" using assms(4) engine_invD(2) [OF inv, of j b] by (simp split: if_splits)
qed fact+

lemma restrict_UNIV [simp]: "m |` UNIV = m"
  by (simp add: fun_eq_iff restrict_map_def)

lemma view_update: "x \<notin> set (slots b sd) \<Longrightarrow> slots b' sd = slots b sd \<Longrightarrow> slot_order b' = (slot_order b)(x := ord) \<Longrightarrow>
    view b' sd = view b sd"
  by (simp add: book.orders_on_def)

lemma spec_book_eqI: "V sd = W sd \<Longrightarrow> V (contra sd) = W (contra sd) \<Longrightarrow> V = (W :: spec_book)"
  by (rule ext, rename_tac t, case_tac "t = sd") (use side_cases_contra in metis)+

text \<open>
  Common facts about the book of one instrument in an engine satisfying its invariant; each
  iteration of the loop replaces that book.
\<close>

lemma match_once_fill:
  assumes inv: "engine_inv E" and b: "engine_books E (er_instrument_id inc) = Some b"
    and sl: "slots b (contra (er_side inc)) = x # xs" and c: "c = slot_order b x"
    and n: "er_remaining_quantity inc \<noteq> 0"
    and q: "q = min (er_remaining_quantity inc) (bo_remaining_quantity c)"
  obtains E' b' where
    "match_once E b inc cs c = Some (E', inc\<lparr>er_remaining_quantity := er_remaining_quantity inc - q\<rparr>,
       fill_events (me_next_event_sequence E) cs inc [(c, q)])"
    "engine_inv E'" "engine_books E' = (engine_books E)(er_instrument_id inc \<mapsto> b')"
    "view b' = (view b)(contra (er_side inc) :=
       (if q = bo_remaining_quantity c then map (slot_order b) xs
        else c\<lparr>bo_remaining_quantity := bo_remaining_quantity c - q\<rparr> # map (slot_order b) xs))"
    "slots b' (contra (er_side inc)) = (if q = bo_remaining_quantity c then xs else x # xs)"
    "slab_size b' = slab_size b" "me_orders E' = me_orders E |` (- filled_keys [(c, q)])"
    "me_next_event_sequence E' = me_next_event_sequence E + 2"
    "me_next_exchange_order_id E' = me_next_exchange_order_id E" "me_next_priority E' = me_next_priority E"
proof -
  let ?i = "er_instrument_id inc" and ?cs = "contra (er_side inc)"
  note r = engine_invD(1) [OF inv]
  have bi: "book_inv b" and bok: "book_ok b" and d: "dir_inv (engine_books E) (me_orders E)"
    using engine_invD [OF inv] b by auto
  have k: "knows_instrument (bump_event E) ?i" using engine_books_known [OF r b] by simp
  have r1: "reg_inv (bump_event E)" using r by simp
  have x1: "x \<in> set (slots b ?cs)" using sl by simp
  then have "x \<in> book.resting_slots b" using book.resting_slots_iff by blast
  note x = x1 this
  have xc: "x \<notin> set (slots b (er_side inc))" using book.sides_disjoint [OF bi x(1)] by simp
  have xd: "x \<notin> set xs" using book.distinct_list [OF bi, of ?cs] sl by simp
  have good: "good_order ord" if "ord \<in> set (view b sd)" for sd ord using bok that by (auto simp: book_ok_def)
  have cin: "c \<in> set (view b ?cs)" using sl c by (simp add: book.orders_on_def)
  have qle: "q \<le> bo_remaining_quantity c" using q by simp
  show ?thesis
  proof (cases "q = bo_remaining_quantity c")
    case True
    obtain b' where rm: "remove_front b ?cs = Some b'" "book_inv b'" "slots b' ?cs = xs"
      "slots b' (er_side inc) = slots b (er_side inc)" "slot_order b' = slot_order b" "slab_size b' = slab_size b"
      using book.remove_front_law [OF bi sl] by auto
    have v: "view b' = (view b)(?cs := map (slot_order b) xs)"
      by (rule spec_book_eqI [of _ "er_side inc"]) (simp_all add: book.orders_on_def rm)
    have res: "book.resting_slots b' = book.resting_slots b - {x}"
      using xc xd rm sl by (auto simp: book.resting_slots_side [where sd = "er_side inc"])
    have sub: "set (view b' sd) \<subseteq> set (view b sd)" for sd
      using sl by (cases "sd = ?cs") (auto simp: v book.orders_on_def)
    then have ok': "book_ok b'" using good by (intro book_ok_shrink [OF bok rm(2)]) blast
    obtain books where sb: "set_book (bump_event E) ?i b' = Some ((bump_event E)\<lparr>me_books := books\<rparr>)"
      "reg_inv ((bump_event E)\<lparr>me_books := books\<rparr>)"
      "engine_books ((bump_event E)\<lparr>me_books := books\<rparr>) = (engine_books E)(?i \<mapsto> b')"
      using set_book_reg [OF r1 k] by (metis engine_books_frame(2))
    let ?E = "bump_event ((bump_event E)\<lparr>me_books := books, me_orders := (me_orders E)(order_key c := None)\<rparr>)"
    have bk: "engine_books ?E = (engine_books E)(?i \<mapsto> b')" "reg_inv ?E" using sb(2,3) by simp_all
    have inv': "engine_inv ?E"
      using dir_remove [OF d b x(2) res rm(5)] c by (intro engine_inv_update [OF inv bk(2,1) ok']) simp
    have "match_once E b inc cs c = Some (?E, inc\<lparr>er_remaining_quantity := er_remaining_quantity inc - q\<rparr>,
       fill_events (me_next_event_sequence E) cs inc [(c, q)])"
      using True rm(1) sb(1) by (simp add: match_once_def Let_def order_key_def q [symmetric])
    from that [OF this inv' bk(1)] v rm True show ?thesis by (simp add: restrict_complement_singleton_eq)
  next
    case False
    define m where "m = bo_remaining_quantity c - q"
    have m: "m \<noteq> 0" "m \<le> bo_remaining_quantity c" using False qle
      by (auto simp: m_def word_le_nat_alt unat_diff)
    have co: "c\<lparr>bo_remaining_quantity := m\<rparr> = (slot_order b x)\<lparr>bo_remaining_quantity := m\<rparr>" using c by simp
    obtain b' where rd: "reduce_front b ?cs m = Some b'" "book_inv b'" "slots b' = slots b"
      "slot_order b' = (slot_order b)(x := c\<lparr>bo_remaining_quantity := m\<rparr>)" "slab_size b' = slab_size b"
      using book.reduce_law [OF bi x(1), of m] book.reduce_front_law [OF bi sl, of m] unfolding co by auto
    have v: "view b' = (view b)(?cs := c\<lparr>bo_remaining_quantity := m\<rparr> # map (slot_order b) xs)"
      by (rule spec_book_eqI [of _ "er_side inc"])
        (use sl xd xc view_update [OF xc _ rd(4)] rd(3) in \<open>auto simp: book.orders_on_def rd(4)\<close>)
    have res: "book.resting_slots b' = book.resting_slots b" by (simp add: book.resting_slots_def rd(3))
    have "good_order ord \<and> (\<exists>ord' \<in> set (view b sd). bo_price ord' = bo_price ord)" if "ord \<in> set (view b' sd)" for sd ord
    proof (cases "ord \<in> set (view b sd)")
      case True
      then show ?thesis using good by blast
    next
      case F: False
      then have "ord = c\<lparr>bo_remaining_quantity := m\<rparr>" "sd = ?cs"
        using that sl unfolding v by (auto simp: book.orders_on_def split: if_splits)
      moreover have "good_order (c\<lparr>bo_remaining_quantity := m\<rparr>)"
        using good [OF cin] m by (auto simp: good_order_def qty_ok_def word_le_nat_alt word_gt_0)
      ultimately show ?thesis using cin by force
    qed
    then have ok': "book_ok b'" by (intro book_ok_shrink [OF bok rd(2)])
    obtain books where sb: "set_book (bump_event E) ?i b' = Some ((bump_event E)\<lparr>me_books := books\<rparr>)"
      "reg_inv ((bump_event E)\<lparr>me_books := books\<rparr>)"
      "engine_books ((bump_event E)\<lparr>me_books := books\<rparr>) = (engine_books E)(?i \<mapsto> b')"
      using set_book_reg [OF r1 k] by (metis engine_books_frame(2))
    let ?E = "bump_event ((bump_event E)\<lparr>me_books := books\<rparr>)"
    have bk: "engine_books ?E = (engine_books E)(?i \<mapsto> b')" "reg_inv ?E" using sb(2,3) by simp_all
    have "dir_inv ((engine_books E)(?i \<mapsto> b')) (me_orders E)"
      by (rule dir_update [OF d b res]) (use c in \<open>auto simp: rd(4) order_key_def\<close>)
    then have inv': "engine_inv ?E" by (intro engine_inv_update [OF inv bk(2,1) ok']) simp
    have "match_once E b inc cs c = Some (?E, inc\<lparr>er_remaining_quantity := er_remaining_quantity inc - q\<rparr>,
       fill_events (me_next_event_sequence E) cs inc [(c, q)])"
      using False m rd(1) sb(1) by (simp add: match_once_def Let_def q [symmetric] m_def [symmetric])
    from that [OF this inv' bk(1)] v rd False sl show ?thesis by (simp add: m_def)
  qed
qed

subsection \<open>The matching loop\<close>

lemma crosses_contra:
  "crosses (contra sd) limit p \<longleftrightarrow> (if sd = Buy then limit \<ge> p else limit \<le> p)"
  by (cases sd) (simp_all add: crosses_def)

lemma fill_events_append:
  "fill_events seq cs inc ((c, q) # fills) =
     fill_events seq cs inc [(c, q)] @ fill_events (seq + 2) cs (inc\<lparr>er_remaining_quantity := er_remaining_quantity inc - q\<rparr>) fills"
  by simp

lemma match_and_rest_refines:
  assumes "engine_inv E" "engine_books E (er_instrument_id inc) = Some b"
    "match_spec (er_side inc) (er_price inc) (er_remaining_quantity inc) (view b (contra (er_side inc))) = (fills, n, os)"
  shows "\<exists>E' b'. match_and_rest E inc cs = Some (E', inc\<lparr>er_remaining_quantity := n\<rparr>,
      fill_events (me_next_event_sequence E) cs inc fills) \<and>
    engine_inv E' \<and> engine_books E' = (engine_books E)(er_instrument_id inc \<mapsto> b') \<and>
    view b' = (view b)(contra (er_side inc) := os) \<and> slab_size b' = slab_size b \<and>
    me_orders E' = me_orders E |` (- filled_keys fills) \<and>
    me_next_event_sequence E' = me_next_event_sequence E + 2 * of_nat (length fills) \<and>
    me_next_exchange_order_id E' = me_next_exchange_order_id E \<and> me_next_priority E' = me_next_priority E"
  using assms
proof (induction "length (slots b (contra (er_side inc)))" arbitrary: E inc b fills rule: less_induct)
  case less
  let ?i = "er_instrument_id inc" and ?cs = "contra (er_side inc)" and ?n = "er_remaining_quantity inc"
  note inv = less.prems(1) and b = less.prems(2) and spec = less.prems(3)
  have bk: "book_for E ?i = Some b" using engine_books_known [OF engine_invD(1) [OF inv] b] by simp
  have bi: "book_inv b" using engine_invD(4) [OF inv b] .
  have front: "front_of_best b ?cs = Some (case slots b ?cs of [] \<Rightarrow> None | x # _ \<Rightarrow> Some (slot_order b x))"
    by (rule book.front_law [OF bi])
  have stop: ?case if "fills = []" "n = ?n" "os = view b ?cs" "match_and_rest E inc cs = Some (E, inc, [])"
  proof -
    have "(view b)(?cs := os) = view b" "(engine_books E)(?i \<mapsto> b) = engine_books E" "inc\<lparr>er_remaining_quantity := n\<rparr> = inc"
      using that(2,3) b by (auto simp: fun_upd_idem)
    then show ?thesis using that(1,4) inv by (intro exI [of _ E] exI [of _ b]) simp
  qed
  show ?case
  proof (cases "slots b ?cs")
    case Nil
    then have "match_and_rest E inc cs = Some (E, inc, [])" using bk front by (subst match_and_rest.simps) simp
    with Nil spec stop show ?thesis by (simp add: book.orders_on_def)
  next
    case (Cons x xs)
    define c where "c = slot_order b x"
    have v: "view b ?cs = c # map (slot_order b) xs" by (simp add: book.orders_on_def Cons c_def)
    have cross: "(if er_side inc = Buy then er_price inc \<ge> bo_price c else er_price inc \<le> bo_price c) \<longleftrightarrow>
        crosses ?cs (er_price inc) (bo_price c)" by (simp add: crosses_contra)
    define q where "q = min ?n (bo_remaining_quantity c)"
    have go: "match_and_rest E inc cs = do {
        (E1, inc1, evs1) \<leftarrow> match_once E b inc cs c; (E2, inc2, evs2) \<leftarrow> match_and_rest E1 inc1 cs;
        Some (E2, inc2, evs1 @ evs2) }" if "?n \<noteq> 0" "crosses ?cs (er_price inc) (bo_price c)"
      using that bk front Cons cross by (subst match_and_rest.simps) (simp add: c_def [symmetric])
    from spec [unfolded v] show ?thesis
    proof (cases rule: match_spec_Cons)
      case stop': stop
      then have "match_and_rest E inc cs = Some (E, inc, [])"
        using bk front Cons cross by (subst match_and_rest.simps) (auto simp: c_def [symmetric])
      with stop' v stop show ?thesis by simp
    next
      case (full fs)
      have q: "q = bo_remaining_quantity c" using full(3) by (simp add: q_def min_def)
      let ?inc = "inc\<lparr>er_remaining_quantity := ?n - q\<rparr>"
      obtain E1 b1 where s1: "match_once E b inc cs c = Some (E1, ?inc, fill_events (me_next_event_sequence E) cs inc [(c, q)])"
        "engine_inv E1" "engine_books E1 = (engine_books E)(?i \<mapsto> b1)" "view b1 = (view b)(?cs := map (slot_order b) xs)"
        "slots b1 ?cs = xs" "slab_size b1 = slab_size b" "me_orders E1 = me_orders E |` (- {order_key c})"
        "me_next_event_sequence E1 = me_next_event_sequence E + 2"
        "me_next_exchange_order_id E1 = me_next_exchange_order_id E" "me_next_priority E1 = me_next_priority E"
        using match_once_fill [OF inv b Cons c_def full(1) q_def, of cs] q by (auto simp del: fill_events.simps)
      have "\<exists>E' b'. match_and_rest E1 ?inc cs = Some (E', ?inc\<lparr>er_remaining_quantity := n\<rparr>,
            fill_events (me_next_event_sequence E1) cs ?inc fs) \<and>
          engine_inv E' \<and> engine_books E' = (engine_books E1)(?i \<mapsto> b') \<and>
          view b' = (view b1)(?cs := os) \<and> slab_size b' = slab_size b1 \<and>
          me_orders E' = me_orders E1 |` (- filled_keys fs) \<and>
          me_next_event_sequence E' = me_next_event_sequence E1 + 2 * of_nat (length fs) \<and>
          me_next_exchange_order_id E' = me_next_exchange_order_id E1 \<and> me_next_priority E' = me_next_priority E1"
        using less.hyps [of b1 ?inc E1 fs] s1(2-5) full(4) q Cons by simp
      then obtain E' b' where s2: "match_and_rest E1 ?inc cs = Some (E', ?inc\<lparr>er_remaining_quantity := n\<rparr>,
            fill_events (me_next_event_sequence E1) cs ?inc fs)"
          "engine_inv E'" "engine_books E' = (engine_books E1)(?i \<mapsto> b')"
          "view b' = (view b1)(?cs := os)" "slab_size b' = slab_size b1"
          "me_orders E' = me_orders E1 |` (- filled_keys fs)"
          "me_next_event_sequence E' = me_next_event_sequence E1 + 2 * of_nat (length fs)"
          "me_next_exchange_order_id E' = me_next_exchange_order_id E1" "me_next_priority E' = me_next_priority E1"
        by blast
      have "match_and_rest E inc cs = Some (E', inc\<lparr>er_remaining_quantity := n\<rparr>,
          fill_events (me_next_event_sequence E) cs inc fills)"
        unfolding full(5) fill_events_append [where fills = fs] go [OF full(1,2)] using s1(1,8) s2(1) q by (simp del: fill_events.simps)
      moreover have "me_orders E' = me_orders E |` (- filled_keys fills)"
        using s1(7) s2(6) full(5) by (simp, metis Compl_Un insert_is_Un Int_commute)
      ultimately show ?thesis
        using s1 s2 full(5) by (intro exI [of _ E'] exI [of _ b']) (simp del: fill_events.simps)
    next
      case part
      have q: "q = ?n" "q \<noteq> bo_remaining_quantity c" using part(3) by (auto simp: q_def min_def)
      obtain E1 b1 where s1: "match_once E b inc cs c = Some (E1, inc\<lparr>er_remaining_quantity := ?n - q\<rparr>,
            fill_events (me_next_event_sequence E) cs inc [(c, q)])"
        "engine_inv E1" "engine_books E1 = (engine_books E)(?i \<mapsto> b1)"
        "view b1 = (view b)(?cs := c\<lparr>bo_remaining_quantity := bo_remaining_quantity c - q\<rparr> # map (slot_order b) xs)"
        "slab_size b1 = slab_size b" "me_orders E1 = me_orders E |` (- filled_keys [(c, q)])"
        "me_next_event_sequence E1 = me_next_event_sequence E + 2"
        "me_next_exchange_order_id E1 = me_next_exchange_order_id E" "me_next_priority E1 = me_next_priority E"
        using match_once_fill [OF inv b Cons c_def part(1) q_def, of cs] unfolding if_not_P [OF q(2)] by blast
      have "match_and_rest E1 (inc\<lparr>er_remaining_quantity := 0\<rparr>) cs = Some (E1, inc\<lparr>er_remaining_quantity := 0\<rparr>, [])"
        by (subst match_and_rest.simps) simp
      then have "match_and_rest E inc cs = Some (E1, inc\<lparr>er_remaining_quantity := 0\<rparr>, fill_events (me_next_event_sequence E) cs inc [(c, q)])"
        unfolding go [OF part(1,2)] using s1(1) q by (simp del: fill_events.simps)
      then show ?thesis using s1 part(4-6) q by (intro exI [of _ E1] exI [of _ b1]) (simp del: fill_events.simps)
    qed
  qed
qed

subsection \<open>Resting the remainder\<close>

definition rests :: "ExchangeRestingOrder \<Rightarrow> bool" where
  "rests ord \<longleftrightarrow> er_time_in_force ord = GTC \<and> er_remaining_quantity ord \<noteq> 0"

definition rest_events :: "EventSequence \<Rightarrow> ExchangeRestingOrder \<Rightarrow> ExchangeEvent list" where
  "rest_events seq ord = (if rests ord then [BookOrderAdded \<lparr>ba_event_sequence = seq,
     ba_instrument_id = er_instrument_id ord, ba_exchange_order_id = er_exchange_order_id ord,
     ba_side = er_side ord, ba_price = er_price ord, ba_quantity = er_remaining_quantity ord\<rparr>] else [])"

lemma rest_refines:
  assumes inv: "engine_inv E" and b: "engine_books E (er_instrument_id ord) = Some b" and room: "slab_size b < kNil"
    and good: "rests ord \<Longrightarrow> good_order (book_order_of ord)"
    and fresh: "me_orders E (er_account_id ord, er_client_order_id ord) = None"
    and V: "V = (if rests ord then (view b)(er_side ord := enqueue (er_side ord) bo_price (er_price ord) (book_order_of ord) (view b (er_side ord))) else view b)"
    and unc: "uncrossed V"
  obtains E' b' where "rest_remainder_if_applicable E ord = Some (E', rest_events (me_next_event_sequence E) ord)"
    "engine_inv E'" "engine_books E' = (engine_books E)(er_instrument_id ord \<mapsto> b')" "view b' = V"
    "slab_size b' \<le> Suc (slab_size b)"
    "dom (me_orders E') = dom (me_orders E) \<union> (if rests ord then {(er_account_id ord, er_client_order_id ord)} else {})"
    "me_next_event_sequence E' = me_next_event_sequence E + of_nat (length (rest_events (me_next_event_sequence E) ord))"
    "me_next_exchange_order_id E' = me_next_exchange_order_id E" "me_next_priority E' = me_next_priority E"
proof (cases "rests ord")
  case False
  then have "rest_remainder_if_applicable E ord = Some (E, [])" "rest_events (me_next_event_sequence E) ord = []"
    by (auto simp: rests_def rest_remainder_if_applicable_def rest_events_def)
  moreover have "(engine_books E)(er_instrument_id ord \<mapsto> b) = engine_books E" using b by (simp add: fun_upd_idem)
  ultimately show ?thesis using that [of E b] inv False V by simp
next
  case True
  let ?i = "er_instrument_id ord" and ?sd = "er_side ord" and ?o = "book_order_of ord"
    and ?k = "(er_account_id ord, er_client_order_id ord)"
  note r = engine_invD(1) [OF inv]
  have bi: "book_inv b" and bok: "book_ok b" and d: "dir_inv (engine_books E) (me_orders E)"
    using engine_invD [OF inv] b by auto
  have bk: "book_for E ?i = Some b" "knows_instrument E ?i" using engine_books_known [OF r b] by auto
  have o: "bo_side ?o = ?sd" "bo_price ?o = er_price ord" "order_key ?o = ?k"
    by (simp_all add: book_order_of_def order_key_def)
  have "price_ok (bo_price ?o)" using good [OF True] by (simp add: good_order_def)
  then obtain b' h where a: "add b ?o = Some (b', h)" "book_inv b'" "\<And>sd. h \<notin> set (slots b sd)"
    "slots b' ?sd = enqueue ?sd (\<lambda>x. bo_price (slot_order b x)) (er_price ord) h (slots b ?sd)"
    "slots b' (contra ?sd) = slots b (contra ?sd)" "slot_order b' h = ?o"
    "\<And>sd x. x \<in> set (slots b sd) \<Longrightarrow> slot_order b' x = slot_order b x" "slab_size b' \<le> Suc (slab_size b)"
    using book.add_law [OF bi room, of ?o] unfolding o by blast
  have v: "view b' = V"
  proof (rule spec_book_eqI [of _ ?sd])
    show "view b' ?sd = V ?sd"
      using True V map_enqueue [of "slots b ?sd" "slot_order b'" "slot_order b" ?sd bo_price "er_price ord" h] a(6,7)
      by (simp add: book.orders_on_def a(4))
    show "view b' (contra ?sd) = V (contra ?sd)" using True V a(5,7) by (simp add: book.orders_on_def)
  qed
  have "good_order x" if "x \<in> set (view b' sd)" for x sd
    using that bok good [OF True] True V unfolding v book_ok_def by (auto split: if_splits)
  then have ok': "book_ok b'" using a(2) unc v by (simp add: book_ok_def)
  have res: "book.resting_slots b' = insert h (book.resting_slots b)"
    using a(4,5) by (auto simp: book.resting_slots_side [where sd = ?sd])
  have keep: "slot_order b' x = slot_order b x" if "x \<in> book.resting_slots b" for x
    using that a(7) book.resting_slots_iff by blast
  let ?r = "\<lparr>ref_original_quantity = er_original_quantity ord, ref_order_sequence = er_order_sequence ord,
           ref_handle = h, ref_instrument_id = ?i\<rparr>"
  obtain books where sb: "set_book E ?i b' = Some (E\<lparr>me_books := books\<rparr>)" "reg_inv (E\<lparr>me_books := books\<rparr>)"
    "engine_books (E\<lparr>me_books := books\<rparr>) = (engine_books E)(?i \<mapsto> b')"
    using set_book_reg [OF r bk(2)] by metis
  let ?E = "bump_event (E\<lparr>me_books := books, me_orders := (me_orders E)(?k \<mapsto> ?r)\<rparr>)"
  have bk': "engine_books ?E = (engine_books E)(?i \<mapsto> b')" "reg_inv ?E" using sb(2,3) by simp_all
  have "dir_inv ((engine_books E)(?i \<mapsto> b')) ((me_orders E)(?k \<mapsto> ?r))"
    by (rule dir_add [OF d b res keep]) (use a(6) o fresh in auto)
  then have inv': "engine_inv ?E" by (intro engine_inv_update [OF inv bk'(2,1) ok']) simp
  have "rest_remainder_if_applicable E ord = Some (?E, rest_events (me_next_event_sequence E) ord)"
    using True bk(1) a(1) sb(1) by (simp add: rest_remainder_if_applicable_def rests_def rest_events_def)
  from that [OF this inv' bk'(1) v a(8)] True show ?thesis by (simp add: rest_events_def insert_commute)
qed

subsection \<open>Submitting an order to the engine\<close>

definition submit_events ::
  "EventSequence \<Rightarrow> CommandSequence \<Rightarrow> ExchangeRestingOrder \<Rightarrow> (BookOrder \<times> Quantity) list \<Rightarrow> Quantity \<Rightarrow> ExchangeEvent list" where
  "submit_events seq cs ord fills n =
     fill_events seq cs ord fills @ rest_events (seq + 2 * of_nat (length fills)) (ord\<lparr>er_remaining_quantity := n\<rparr>)"

lemma length_fill_events [simp]: "length (fill_events seq cs ord fills) = 2 * length fills"
  by (induction seq cs ord fills rule: fill_events.induct) simp_all

lemma book_order_of_simps [simp]:
  "bo_side (book_order_of ord) = er_side ord" "bo_price (book_order_of ord) = er_price ord"
  "bo_remaining_quantity (book_order_of ord) = er_remaining_quantity ord"
  "bo_time_in_force (book_order_of ord) = er_time_in_force ord"
  "order_key (book_order_of ord) = (er_account_id ord, er_client_order_id ord)"
  "book_order_of (ord\<lparr>er_remaining_quantity := n\<rparr>) = (book_order_of ord)\<lparr>bo_remaining_quantity := n\<rparr>"
  by (simp_all add: book_order_of_def order_key_def)

lemma view_in_priority: "book_inv b \<Longrightarrow> in_priority sd bo_price (view b sd)"
  using book.priority [of b sd] by (simp add: book.orders_on_def in_priority_def sorted_wrt_map)

lemma match_then_rest_refines:
  assumes inv: "engine_inv E" and b: "engine_books E (er_instrument_id ord) = Some b" and room: "slab_size b < kNil"
    and ok: "price_ok (er_price ord)" "0 < er_price ord" "qty_ok (er_remaining_quantity ord)"
    and fresh: "me_orders E (er_account_id ord, er_client_order_id ord) = None"
    and spec: "submit_spec (view b) (book_order_of ord) = (V, fills, n)"
  obtains E' b' where "match_then_rest E ord cs = Some (E', submit_events (me_next_event_sequence E) cs ord fills n)"
    "engine_inv E'" "engine_books E' = (engine_books E)(er_instrument_id ord \<mapsto> b')" "view b' = V"
    "slab_size b' \<le> Suc (slab_size b)"
    "dom (me_orders E') = dom (me_orders E) - filled_keys fills \<union>
       (if er_time_in_force ord = GTC \<and> n \<noteq> 0 then {(er_account_id ord, er_client_order_id ord)} else {})"
    "me_next_event_sequence E' = me_next_event_sequence E + of_nat (length (submit_events (me_next_event_sequence E) cs ord fills n))"
    "me_next_exchange_order_id E' = me_next_exchange_order_id E" "me_next_priority E' = me_next_priority E"
proof -
  let ?sd = "er_side ord" and ?i = "er_instrument_id ord" and ?ord = "ord\<lparr>er_remaining_quantity := n\<rparr>"
  obtain os where m: "match_spec ?sd (er_price ord) (er_remaining_quantity ord) (view b (contra ?sd)) = (fills, n, os)"
    using spec by (auto simp: submit_spec_def Let_def split: prod.splits)
  obtain E1 b1 where s1: "match_and_rest E ord cs = Some (E1, ?ord, fill_events (me_next_event_sequence E) cs ord fills)"
    "engine_inv E1" "engine_books E1 = (engine_books E)(?i \<mapsto> b1)" "view b1 = (view b)(contra ?sd := os)"
    "slab_size b1 = slab_size b" "me_orders E1 = me_orders E |` (- filled_keys fills)"
    "me_next_event_sequence E1 = me_next_event_sequence E + 2 * of_nat (length fills)"
    "me_next_exchange_order_id E1 = me_next_exchange_order_id E" "me_next_priority E1 = me_next_priority E"
    using match_and_rest_refines [OF inv b m, of cs] by blast
  have bi: "book_inv b" "book_ok b" using engine_invD [OF inv] b by auto
  have V: "V = (if rests ?ord then (view b1)(er_side ?ord := enqueue (er_side ?ord) bo_price (er_price ?ord) (book_order_of ?ord) (view b1 (er_side ?ord))) else view b1)"
    using spec submit_spec_eq [of "book_order_of ord" "view b" fills n os] m by (auto simp: s1(4) rests_def Let_def)
  have unc: "uncrossed V"
    using submit_spec_uncrossed [OF spec view_in_priority [OF bi(1)]] bi(2) by (simp add: book_ok_def)
  have "unat n \<le> unat (er_remaining_quantity ord)" using match_spec_conserves(1) [OF m] by simp
  then have good: "rests ?ord \<Longrightarrow> good_order (book_order_of ?ord)"
    using ok by (auto simp: good_order_def rests_def qty_ok_def word_gt_0)
  have fresh': "me_orders E1 (er_account_id ?ord, er_client_order_id ?ord) = None"
    using fresh by (simp add: s1(6) restrict_map_def)
  have b1: "engine_books E1 (er_instrument_id ?ord) = Some b1" "slab_size b1 < kNil" using s1(3,5) room by simp_all
  obtain E' b' where s2: "rest_remainder_if_applicable E1 ?ord = Some (E', rest_events (me_next_event_sequence E1) ?ord)"
    "engine_inv E'" "engine_books E' = (engine_books E1)(er_instrument_id ?ord \<mapsto> b')" "view b' = V" "slab_size b' \<le> Suc (slab_size b1)"
    "dom (me_orders E') = dom (me_orders E1) \<union> (if rests ?ord then {(er_account_id ?ord, er_client_order_id ?ord)} else {})"
    "me_next_event_sequence E' = me_next_event_sequence E1 + of_nat (length (rest_events (me_next_event_sequence E1) ?ord))"
    "me_next_exchange_order_id E' = me_next_exchange_order_id E1" "me_next_priority E' = me_next_priority E1"
    using rest_refines [OF s1(2) b1 good fresh' V unc] by blast
  have "match_then_rest E ord cs = Some (E', submit_events (me_next_event_sequence E) cs ord fills n)"
    using s1(1) s2(1) by (simp add: match_then_rest_def submit_events_def s1(7))
  then show ?thesis
    using that [of E' b'] s2 s1 by (simp add: rests_def submit_events_def dom_restrict Diff_eq)
qed

end
