(* ===== verification/Engine_Handlers.thy ===== *)
theory Engine_Handlers
  imports Engine_Laws
begin

text \<open>
  The three command handlers against their specification: which commands are rejected and why,
  what an accepted one does to the order lists of its instrument, and that every handler keeps the
  engine invariant.
\<close>

subsection \<open>Views and capacity\<close>

definition engine_view :: "MatchingEngine \<Rightarrow> InstrumentId \<Rightarrow> spec_book" where
  "engine_view E i = (case engine_books E i of None \<Rightarrow> (\<lambda>_. []) | Some b \<Rightarrow> view b)"

definition engine_load :: "MatchingEngine \<Rightarrow> nat \<Rightarrow> bool" where
  "engine_load E n \<longleftrightarrow> (\<forall>i b. engine_books E i = Some b \<longrightarrow> slab_size b \<le> n)"

lemma engine_view_Some [simp]: "engine_books E i = Some b \<Longrightarrow> engine_view E i = view b"
  by (simp add: engine_view_def)

lemma engine_view_update:
  "engine_books E' = (engine_books E)(i \<mapsto> b) \<Longrightarrow> engine_view E' = (engine_view E)(i := view b)"
  by (auto simp: engine_view_def fun_eq_iff)

lemma engine_load_update:
  "engine_load E n \<Longrightarrow> engine_books E' = (engine_books E)(i \<mapsto> b) \<Longrightarrow> slab_size b \<le> m \<Longrightarrow> n \<le> m \<Longrightarrow> engine_load E' m"
  unfolding engine_load_def by (metis fun_upd_apply option.inject order_trans)

lemma known_book:
  assumes "engine_inv E" "knows_instrument E i"
  obtains b where "engine_books E i = Some b" "book_for E i = Some b"
  using engine_books_eq [OF engine_invD(1) [OF assms(1)], of i] engine_books_known [OF engine_invD(1) [OF assms(1)], of i] assms(2)
  by auto

text \<open>The crossing quantity of a side never overflows 64 bits.\<close>

lemma crossing_le: "(\<And>ord. ord \<in> set os \<Longrightarrow> qty_ok (bo_remaining_quantity ord)) \<Longrightarrow> crossing sd limit os \<le> length os * (2 ^ 32 - 1)"
proof (induction os)
  case (Cons c os)
  have "unat (bo_remaining_quantity c) \<le> 2 ^ 32 - 1" using Cons.prems [of c] by (simp add: qty_ok_def)
  with Cons show ?case by (auto intro: add_mono)
qed simp

lemma crossing_fits:
  assumes "book_ok b"
  shows "crossing sd limit (view b sd) < 2 ^ 64"
proof -
  have "crossing sd limit (view b sd) \<le> length (view b sd) * (2 ^ 32 - 1)"
    using assms by (intro crossing_le) (auto simp: book_ok_def good_order_def)
  also have "\<dots> \<le> (2 ^ 32 - 1) * (2 ^ 32 - 1)"
    using book.length_list [of b sd] assms by (intro mult_right_mono) (auto simp: book_ok_def kNil_def book.orders_on_def)
  finally show ?thesis by simp
qed

subsection \<open>New orders\<close>

text \<open>Why a new order is rejected, if it is.\<close>

definition new_order_verdict :: "MatchingEngine \<Rightarrow> NewOrderCommand \<Rightarrow> RejectReason option" where
  "new_order_verdict E cmd =
     (if \<not> knows_instrument E (nc_instrument_id cmd) then Some InvalidInstrument
      else if nc_price cmd \<le> 0 then Some InvalidPrice
      else if nc_quantity cmd = 0 then Some InvalidQuantity
      else if me_orders E (nc_account_id cmd, nc_client_order_id cmd) \<noteq> None then Some DuplicateOrderId
      else if nc_time_in_force cmd = FOK \<and>
          crossing (contra (nc_side cmd)) (nc_price cmd) (engine_view E (nc_instrument_id cmd) (contra (nc_side cmd)))
            < unat (nc_quantity cmd) then Some InsufficientLiquidity
      else None)"

definition new_book_order :: "MatchingEngine \<Rightarrow> NewOrderCommand \<Rightarrow> BookOrder" where
  "new_book_order E cmd = book_order_of (incoming_order cmd (me_next_exchange_order_id E) (me_next_priority E))"

lemma process_new_order_verdict:
  assumes inv: "engine_inv E"
  shows "process_new_order E cmd = (case new_order_verdict E cmd of
    Some reason \<Rightarrow> Some (reject_new_order E cmd reason) | None \<Rightarrow> accept_new_order E cmd)"
proof (cases "knows_instrument E (nc_instrument_id cmd) \<and> \<not> nc_price cmd \<le> 0 \<and> nc_quantity cmd \<noteq> 0 \<and>
    me_orders E (nc_account_id cmd, nc_client_order_id cmd) = None \<and> nc_time_in_force cmd = FOK")
  case True
  let ?i = "nc_instrument_id cmd" and ?cs = "contra (nc_side cmd)"
  obtain b where b: "engine_books E ?i = Some b" "book_for E ?i = Some b" using known_book [OF inv] True by blast
  have bok: "book_ok b" "book_inv b" using engine_invD [OF inv] b(1) by auto
  obtain a where a: "crossable_quantity b ?cs (nc_price cmd) (nc_quantity cmd) = Some a"
    "covers a (nc_quantity cmd) (crossing ?cs (nc_price cmd) (view b ?cs))"
    using book.crossable_law [OF bok(2), of ?cs "nc_price cmd" "nc_quantity cmd"] crossing_fits [OF bok(1), of ?cs "nc_price cmd"] True
    by (auto simp: book.orders_on_def)
  have "a < nc_quantity cmd \<longleftrightarrow> crossing ?cs (nc_price cmd) (view b ?cs) < unat (nc_quantity cmd)"
    using a(2) by (auto simp: covers_def not_le [symmetric])
  then show ?thesis using True b a(1)
    by (simp add: process_new_order_def new_order_verdict_def engine_crossable_quantity_def)
next
  case False
  then show ?thesis by (auto simp: process_new_order_def new_order_verdict_def)
qed

definition cmd_bounds :: "Price \<Rightarrow> Quantity \<Rightarrow> bool" where
  "cmd_bounds p q \<longleftrightarrow> price_ok p \<and> qty_ok q"

lemma accept_new_order_refines:
  assumes inv: "engine_inv E" and load: "engine_load E n" "n < kNil" and ok: "cmd_bounds (nc_price cmd) (nc_quantity cmd)"
    and v: "new_order_verdict E cmd = None"
    and spec: "submit_spec (engine_view E (nc_instrument_id cmd)) (new_book_order E cmd) = (V, fills, m)"
  obtains E' where "accept_new_order E cmd = Some (E',
      accepted_event cmd (me_next_event_sequence E) (me_next_exchange_order_id E) #
      submit_events (me_next_event_sequence E + 1) (nc_command_sequence cmd)
        (incoming_order cmd (me_next_exchange_order_id E) (me_next_priority E)) fills m)"
    "engine_inv E'" "engine_view E' = (engine_view E)(nc_instrument_id cmd := V)" "engine_load E' (Suc n)"
    "dom (me_orders E') = dom (me_orders E) - filled_keys fills \<union>
       (if nc_time_in_force cmd = GTC \<and> m \<noteq> 0 then {(nc_account_id cmd, nc_client_order_id cmd)} else {})"
    "me_next_event_sequence E' = me_next_event_sequence E + 1 + of_nat (length (submit_events (me_next_event_sequence E + 1)
        (nc_command_sequence cmd) (incoming_order cmd (me_next_exchange_order_id E) (me_next_priority E)) fills m))"
    "me_next_exchange_order_id E' = me_next_exchange_order_id E + 1" "me_next_priority E' = me_next_priority E + 1"
proof -
  let ?i = "nc_instrument_id cmd" and ?ord = "incoming_order cmd (me_next_exchange_order_id E) (me_next_priority E)"
  let ?E1 = "bump_event (E\<lparr>me_next_exchange_order_id := me_next_exchange_order_id E + 1, me_next_priority := me_next_priority E + 1\<rparr>)"
  have k: "knows_instrument E ?i" "0 < nc_price cmd" "me_orders E (nc_account_id cmd, nc_client_order_id cmd) = None"
    using v by (auto simp: new_order_verdict_def not_le split: if_splits)
  obtain b where b: "engine_books E ?i = Some b" using known_book [OF inv k(1)] by blast
  have o: "er_instrument_id ?ord = ?i" "er_price ?ord = nc_price cmd" "er_remaining_quantity ?ord = nc_quantity cmd"
    "er_account_id ?ord = nc_account_id cmd" "er_client_order_id ?ord = nc_client_order_id cmd"
    "er_time_in_force ?ord = nc_time_in_force cmd"
    by (simp_all add: incoming_order_def)
  have inv1: "engine_inv ?E1" using inv by (simp add: engine_inv_def)
  have b1: "engine_books ?E1 (er_instrument_id ?ord) = Some b" using b o by simp
  have room: "slab_size b < kNil" using load b by (auto simp: engine_load_def dest: order_le_less_trans)
  have ok': "price_ok (er_price ?ord)" "0 < er_price ?ord" "qty_ok (er_remaining_quantity ?ord)"
    using ok k(2) o by (auto simp: cmd_bounds_def)
  have fresh: "me_orders ?E1 (er_account_id ?ord, er_client_order_id ?ord) = None" using k(3) o by simp
  have spec': "submit_spec (view b) (book_order_of ?ord) = (V, fills, m)" using spec b by (simp add: new_book_order_def)
  obtain E' b' where s: "match_then_rest ?E1 ?ord (nc_command_sequence cmd) =
      Some (E', submit_events (me_next_event_sequence ?E1) (nc_command_sequence cmd) ?ord fills m)"
    "engine_inv E'" "engine_books E' = (engine_books ?E1)(er_instrument_id ?ord \<mapsto> b')" "view b' = V"
    "slab_size b' \<le> Suc (slab_size b)"
    "dom (me_orders E') = dom (me_orders ?E1) - filled_keys fills \<union>
       (if er_time_in_force ?ord = GTC \<and> m \<noteq> 0 then {(er_account_id ?ord, er_client_order_id ?ord)} else {})"
    "me_next_event_sequence E' = me_next_event_sequence ?E1 + of_nat (length (submit_events (me_next_event_sequence ?E1) (nc_command_sequence cmd) ?ord fills m))"
    "me_next_exchange_order_id E' = me_next_exchange_order_id ?E1" "me_next_priority E' = me_next_priority ?E1"
    using match_then_rest_refines [OF inv1 b1 room ok' fresh spec', of "nc_command_sequence cmd"] by blast
  have bk: "engine_books E' = (engine_books E)(?i \<mapsto> b')" using s(3) o by simp
  have "slab_size b' \<le> Suc n" using s(5) load(1) b by (auto simp: engine_load_def intro: le_trans)
  then have "engine_load E' (Suc n)" using engine_load_update [OF load(1) bk] by simp
  moreover have "accept_new_order E cmd = Some (E',
      accepted_event cmd (me_next_event_sequence E) (me_next_exchange_order_id E) #
      submit_events (me_next_event_sequence E + 1) (nc_command_sequence cmd) ?ord fills m)"
    using s(1) by (simp add: accept_new_order_def Let_def)
  ultimately show ?thesis using that s engine_view_update [OF bk] o by simp
qed

subsection \<open>Finding a live order\<close>

definition without_key :: "LiveKey \<Rightarrow> spec_book \<Rightarrow> spec_book" where
  "without_key k V = (\<lambda>sd. filter (\<lambda>ord. order_key ord \<noteq> k) (V sd))"

lemma live_order:
  assumes inv: "engine_inv E" and r: "me_orders E k = Some ref"
  obtains b where "engine_books E (ref_instrument_id ref) = Some b" "book_for E (ref_instrument_id ref) = Some b"
    "knows_instrument E (ref_instrument_id ref)"
    "ref_handle ref \<in> set (slots b (bo_side (slot_order b (ref_handle ref))))" "ref_handle ref \<in> book.resting_slots b"
    "order_key (slot_order b (ref_handle ref)) = k"
    "\<And>y. y \<in> book.resting_slots b \<Longrightarrow> order_key (slot_order b y) = k \<longleftrightarrow> y = ref_handle ref"
proof -
  note d = engine_invD(3) [OF inv]
  obtain b where b: "engine_books E (ref_instrument_id ref) = Some b" "ref_handle ref \<in> book.resting_slots b"
    "order_key (slot_order b (ref_handle ref)) = k"
    using dir_invD(1) [OF d r] by blast
  have "order_key (slot_order b y) = k \<longleftrightarrow> y = ref_handle ref" if "y \<in> book.resting_slots b" for y
    using dir_inv_inj [OF d b(1) that b(1,2)] b(3) by auto
  then show ?thesis
    using that [OF b(1)] engine_books_known [OF engine_invD(1) [OF inv] b(1)] book.slot_side [OF engine_invD(4) [OF inv b(1)] b(2)] b(2,3)
    by blast
qed

lemma view_without_key:
  assumes bi: "book_inv b" and x: "x \<in> set (slots b sd)"
    and key: "\<And>y. y \<in> book.resting_slots b \<Longrightarrow> order_key (slot_order b y) = k \<longleftrightarrow> y = x"
    and b': "slots b' sd = remove1 x (slots b sd)" "slots b' (contra sd) = slots b (contra sd)" "slot_order b' = slot_order b"
  shows "view b' = without_key k (view b)" "book.resting_slots b' = book.resting_slots b - {x}"
proof -
  have in_res: "y \<in> book.resting_slots b" if "y \<in> set (slots b t)" for y t
    using that book.resting_slots_iff by blast
  have f: "filter (\<lambda>ord. order_key ord \<noteq> k) (map (slot_order b) (slots b t)) = map (slot_order b) (filter (\<lambda>y. y \<noteq> x) (slots b t))" for t
    unfolding filter_map comp_def by (intro arg_cong [where f = "map (slot_order b)"] filter_cong refl) (use key in_res in auto)
  have rm: "remove1 x (slots b sd) = filter (\<lambda>y. y \<noteq> x) (slots b sd)"
    unfolding distinct_remove1_removeAll [OF book.distinct_list [OF bi]] removeAll_filter_not_eq by (intro filter_cong) auto
  have other: "filter (\<lambda>y. y \<noteq> x) (slots b (contra sd)) = slots b (contra sd)"
    using book.sides_disjoint [OF bi x] by (intro filter_True) auto
  show "view b' = without_key k (view b)"
    by (rule spec_book_eqI [of _ sd]) (simp_all add: book.orders_on_def b' without_key_def f rm other)
  show "book.resting_slots b' = book.resting_slots b - {x}"
    using book.sides_disjoint [OF bi x] by (auto simp: book.resting_slots_side [where sd = sd] b' rm)
qed

text \<open>Taking one live order out of its book and out of the directory.\<close>

lemma remove_live_order:
  assumes inv: "engine_inv E" and load: "engine_load E n" and r: "me_orders E k = Some ref"
    and b: "engine_books E (ref_instrument_id ref) = Some b"
  obtains b' books where "remove_at b (ref_handle ref) = Some (b', slot_order b (ref_handle ref))"
    "\<And>D. set_book (E\<lparr>me_orders := D\<rparr>) (ref_instrument_id ref) b' = Some (E\<lparr>me_books := books, me_orders := D\<rparr>)"
    "engine_inv (E\<lparr>me_books := books, me_orders := (me_orders E)(k := None)\<rparr>)"
    "engine_books (E\<lparr>me_books := books\<rparr>) = (engine_books E)(ref_instrument_id ref \<mapsto> b')"
    "view b' = without_key k (view b)" "slab_size b' = slab_size b"
proof -
  let ?i = "ref_instrument_id ref" and ?x = "ref_handle ref"
  let ?sd = "bo_side (slot_order b ?x)"
  have bk: "knows_instrument E ?i" "?x \<in> set (slots b ?sd)" "?x \<in> book.resting_slots b" "order_key (slot_order b ?x) = k"
    and key: "\<And>y. y \<in> book.resting_slots b \<Longrightarrow> order_key (slot_order b y) = k \<longleftrightarrow> y = ?x"
    using live_order [OF inv r] b by (metis option.inject)+
  have bi: "book_inv b" "book_ok b" using engine_invD [OF inv] b by auto
  obtain b' where rm: "remove_at b ?x = Some (b', slot_order b ?x)" "book_inv b'" "slots b' ?sd = remove1 ?x (slots b ?sd)"
    "slots b' (contra ?sd) = slots b (contra ?sd)" "slot_order b' = slot_order b" "slab_size b' = slab_size b"
    using book.remove_law [OF bi(1) bk(2)] by blast
  note v = view_without_key [OF bi(1) bk(2) key rm(3,4,5)]
  have ok': "book_ok b'"
    by (rule book_ok_shrink [OF bi(2) rm(2)]) (use bi(2) in \<open>auto simp: v(1) without_key_def book_ok_def\<close>)
  obtain books where sb: "set_book E ?i b' = Some (E\<lparr>me_books := books\<rparr>)" "reg_inv (E\<lparr>me_books := books\<rparr>)"
    "engine_books (E\<lparr>me_books := books\<rparr>) = (engine_books E)(?i \<mapsto> b')"
    using set_book_reg [OF engine_invD(1) [OF inv] bk(1)] by metis
  let ?E = "E\<lparr>me_books := books, me_orders := (me_orders E)(k := None)\<rparr>"
  have E: "reg_inv ?E" "engine_books ?E = (engine_books E)(?i \<mapsto> b')" using sb(2,3) by simp_all
  have "engine_inv ?E"
    using dir_remove [OF engine_invD(3) [OF inv] b bk(3) v(2) rm(5)] bk(4) by (intro engine_inv_update [OF inv E ok']) simp
  moreover have "set_book (E\<lparr>me_orders := D\<rparr>) ?i b' = Some (E\<lparr>me_books := books, me_orders := D\<rparr>)" for D
    using sb(1) by (cases E) (auto simp: set_book_def book_slot_def split: bind_splits)
  ultimately show ?thesis using that rm(1,6) sb(3) v(1) by blast
qed

subsection \<open>Cancels\<close>

definition cancel_verdict :: "MatchingEngine \<Rightarrow> CancelOrderCommand \<Rightarrow> RejectReason option" where
  "cancel_verdict E cmd =
     (if \<not> knows_instrument E (cc_instrument_id cmd) then Some InvalidInstrument
      else case me_orders E (cc_account_id cmd, cc_client_order_id cmd) of
        None \<Rightarrow> Some UnknownOrderId
      | Some ref \<Rightarrow> if ref_instrument_id ref \<noteq> cc_instrument_id cmd then Some UnknownOrderId else None)"

definition cancel_events :: "EventSequence \<Rightarrow> CancelOrderCommand \<Rightarrow> BookOrder \<Rightarrow> ExchangeEvent list" where
  "cancel_events seq cmd removed =
     [OrderCancelled \<lparr>oc_event_sequence = seq, oc_command_sequence = cc_command_sequence cmd,
        oc_account_id = cc_account_id cmd, oc_client_order_id = cc_client_order_id cmd,
        oc_exchange_order_id = bo_exchange_order_id removed, oc_instrument_id = cc_instrument_id cmd\<rparr>,
      BookOrderRemoved \<lparr>bm_event_sequence = seq + 1, bm_instrument_id = cc_instrument_id cmd,
        bm_exchange_order_id = bo_exchange_order_id removed, bm_side = bo_side removed, bm_price = bo_price removed\<rparr>]"

lemma process_cancel_rejects:
  "cancel_verdict E cmd = Some reason \<Longrightarrow> process_cancel E cmd = Some (reject_cancel E cmd reason)"
  by (auto simp: cancel_verdict_def process_cancel_def split: if_splits option.splits)

lemma process_cancel_refines:
  assumes inv: "engine_inv E" and load: "engine_load E n" and v: "cancel_verdict E cmd = None"
  defines "k \<equiv> (cc_account_id cmd, cc_client_order_id cmd)"
  obtains E' removed where "process_cancel E cmd = Some (E', cancel_events (me_next_event_sequence E) cmd removed)"
    "removed \<in> set (engine_view E (cc_instrument_id cmd) (bo_side removed))" "order_key removed = k"
    "engine_inv E'" "engine_view E' = (engine_view E)(cc_instrument_id cmd := without_key k (engine_view E (cc_instrument_id cmd)))"
    "engine_load E' n" "me_orders E' = (me_orders E)(k := None)"
    "me_next_event_sequence E' = me_next_event_sequence E + 2"
    "me_next_exchange_order_id E' = me_next_exchange_order_id E" "me_next_priority E' = me_next_priority E"
proof -
  obtain ref where ref: "me_orders E k = Some ref" "ref_instrument_id ref = cc_instrument_id cmd"
    using v by (auto simp: cancel_verdict_def k_def split: if_splits option.splits)
  let ?x = "ref_handle ref"
  obtain b where b: "engine_books E (ref_instrument_id ref) = Some b" "book_for E (ref_instrument_id ref) = Some b"
    "knows_instrument E (ref_instrument_id ref)" "?x \<in> set (slots b (bo_side (slot_order b ?x)))" "order_key (slot_order b ?x) = k"
    using live_order [OF inv ref(1)] by metis
  obtain b' books where rm: "remove_at b ?x = Some (b', slot_order b ?x)"
    "\<And>D. set_book (E\<lparr>me_orders := D\<rparr>) (ref_instrument_id ref) b' = Some (E\<lparr>me_books := books, me_orders := D\<rparr>)"
    "engine_inv (E\<lparr>me_books := books, me_orders := (me_orders E)(k := None)\<rparr>)"
    "engine_books (E\<lparr>me_books := books\<rparr>) = (engine_books E)(ref_instrument_id ref \<mapsto> b')"
    "view b' = without_key k (view b)" "slab_size b' = slab_size b"
    using remove_live_order [OF inv load ref(1) b(1)] by metis
  let ?E = "bump_event (bump_event (E\<lparr>me_books := books, me_orders := (me_orders E)(k := None)\<rparr>))"
  have bf: "book_for (E\<lparr>me_orders := D\<rparr>) i = book_for E i" for D i by (simp add: book_for_def book_slot_def)
  have bk: "engine_books ?E = (engine_books E)(ref_instrument_id ref \<mapsto> b')" using rm(4) by simp
  have "slab_size b' \<le> n" using load b(1) rm(6) by (simp add: engine_load_def)
  then have "engine_load ?E n" by (rule engine_load_update [OF load bk]) simp
  moreover have "process_cancel E cmd = Some (?E, cancel_events (me_next_event_sequence E) cmd (slot_order b ?x))"
    using b(2,3) ref rm(1,2) by (simp add: process_cancel_def k_def [symmetric] bf cancel_events_def Let_def)
  moreover have "engine_inv ?E" using rm(3) by (simp add: engine_inv_def)
  moreover have "slot_order b ?x \<in> set (engine_view E (cc_instrument_id cmd) (bo_side (slot_order b ?x)))"
    using b(1,4) ref(2) by (simp add: book.orders_on_def)
  ultimately show ?thesis
    using that [of ?E "slot_order b ?x"] engine_view_update [OF bk] rm(5) b(1,5) ref(2) by simp
qed

subsection \<open>Replaces\<close>

definition replace_verdict :: "MatchingEngine \<Rightarrow> ReplaceOrderCommand \<Rightarrow> RejectReason option" where
  "replace_verdict E cmd =
     (if \<not> knows_instrument E (rc_instrument_id cmd) then Some InvalidInstrument
      else if rc_new_price cmd \<le> 0 \<or> rc_new_quantity cmd = 0 then Some InvalidReplacement
      else case me_orders E (rc_account_id cmd, rc_original_client_order_id cmd) of
        None \<Rightarrow> Some UnknownOrderId
      | Some ref \<Rightarrow> if ref_instrument_id ref \<noteq> rc_instrument_id cmd then Some UnknownOrderId else None)"

text \<open>
  The engine never checks the new client order id of a replace. The directory stays faithful only
  if that id is the old one or names no live order of the account.
\<close>

definition replace_fresh :: "MatchingEngine \<Rightarrow> ReplaceOrderCommand \<Rightarrow> bool" where
  "replace_fresh E cmd \<longleftrightarrow> rc_new_client_order_id cmd = rc_original_client_order_id cmd \<or>
     me_orders E (rc_account_id cmd, rc_new_client_order_id cmd) = None"

lemma process_replace_rejects:
  "replace_verdict E cmd = Some reason \<Longrightarrow> process_replace E cmd = Some (reject_replace_order E cmd reason)"
  by (auto simp: replace_verdict_def process_replace_def split: if_splits option.splits)

definition rewrite_key :: "LiveKey \<Rightarrow> Quantity \<Rightarrow> ClientOrderId \<Rightarrow> spec_book \<Rightarrow> spec_book" where
  "rewrite_key k q c V = (\<lambda>sd. map (\<lambda>ord. if order_key ord = k
     then ord\<lparr>bo_remaining_quantity := q, bo_client_order_id := c\<rparr> else ord) (V sd))"

lemma dir_rekey:
  assumes d: "dir_inv B D" and b: "B i = Some b" and r: "D k = Some r" "ref_instrument_id r = i" "ref_handle r = x"
    and b': "book.resting_slots b' = book.resting_slots b" "\<And>y. y \<noteq> x \<Longrightarrow> slot_order b' y = slot_order b y"
      "order_key (slot_order b' x) = k'"
    and fresh: "k' = k \<or> D k' = None"
  shows "dir_inv (B(i \<mapsto> b')) (D(k := None, k' \<mapsto> r))"
  unfolding dir_inv_def
proof (intro conjI allI impI)
  have x: "x \<in> book.resting_slots b" "order_key (slot_order b x) = k" using dir_invD(1) [OF d r(1)] r b by auto
  {
    fix l s assume "(D(k := None, k' \<mapsto> r)) l = Some s"
    then consider "l = k'" "s = r" | "l \<noteq> k'" "l \<noteq> k" "D l = Some s" by (auto split: if_splits)
    then show "\<exists>c. (B(i \<mapsto> b')) (ref_instrument_id s) = Some c \<and> ref_handle s \<in> book.resting_slots c \<and>
        order_key (slot_order c (ref_handle s)) = l"
    proof cases
      case 1
      then show ?thesis using r x b' by simp
    next
      case 2
      obtain c where c: "B (ref_instrument_id s) = Some c" "ref_handle s \<in> book.resting_slots c" "order_key (slot_order c (ref_handle s)) = l"
        using dir_invD(1) [OF d 2(3)] by blast
      show ?thesis
      proof (cases "ref_instrument_id s = i")
        case True
        then have "ref_handle s \<noteq> x" using c b x(2) 2(2) by auto
        then show ?thesis using True c b b' by simp
      qed (use c in simp)
    qed
  next
    fix j c y assume c: "(B(i \<mapsto> b')) j = Some c" "y \<in> book.resting_slots c"
    show "\<exists>s. (D(k := None, k' \<mapsto> r)) (order_key (slot_order c y)) = Some s \<and> ref_handle s = y \<and> ref_instrument_id s = j"
    proof (cases "j = i \<and> y = x")
      case True
      then show ?thesis using c r b'(3) by simp
    next
      case False
      then obtain c0 where c0: "B j = Some c0" "y \<in> book.resting_slots c0" "slot_order c y = slot_order c0 y"
        using c b b' by (cases "j = i") auto
      obtain s where s: "D (order_key (slot_order c0 y)) = Some s" "ref_handle s = y" "ref_instrument_id s = j"
        using dir_invD(2) [OF d c0(1,2)] by blast
      have "order_key (slot_order c0 y) \<noteq> k" using s r False by auto
      moreover from this have "order_key (slot_order c0 y) \<noteq> k'" using s(1) fresh by auto
      ultimately show ?thesis using s c0(3) by simp
    qed
  }
qed

text \<open>The edit in place, with no condition on the new client order id.\<close>

lemma replace_in_place_effect:
  assumes inv: "engine_inv E" and ref: "me_orders E k = Some ref"
    and b: "engine_books E (ref_instrument_id ref) = Some b" and old: "old = slot_order b (ref_handle ref)"
    and cmd: "k = (rc_account_id cmd, rc_original_client_order_id cmd)" "ref_instrument_id ref = rc_instrument_id cmd"
  obtains E' b2 where "replace_in_place E b cmd ref old = Some (E',
      [replaced_event cmd (me_next_event_sequence E) (bo_exchange_order_id old),
       BookOrderReduced \<lparr>bd_event_sequence = me_next_event_sequence E + 1, bd_instrument_id = rc_instrument_id cmd,
          bd_exchange_order_id = bo_exchange_order_id old, bd_side = bo_side old,
          bd_price = bo_price old, bd_new_remaining_quantity = rc_new_quantity cmd\<rparr>])"
    "reg_inv E'" "engine_books E' = (engine_books E)(rc_instrument_id cmd \<mapsto> b2)"
    "book_inv b2" "slots b2 = slots b" "book.resting_slots b2 = book.resting_slots b" "slab_size b2 = slab_size b"
    "slot_order b2 = (slot_order b)(ref_handle ref :=
       old\<lparr>bo_remaining_quantity := rc_new_quantity cmd, bo_client_order_id := rc_new_client_order_id cmd\<rparr>)"
    "view b2 = rewrite_key k (rc_new_quantity cmd) (rc_new_client_order_id cmd) (view b)"
    "me_orders E' = (me_orders E)(k := None, (rc_account_id cmd, rc_new_client_order_id cmd) \<mapsto> ref)"
    "me_next_event_sequence E' = me_next_event_sequence E + 2"
    "me_next_exchange_order_id E' = me_next_exchange_order_id E" "me_next_priority E' = me_next_priority E"
proof -
  let ?x = "ref_handle ref" and ?i = "rc_instrument_id cmd" and ?k' = "(rc_account_id cmd, rc_new_client_order_id cmd)"
  let ?new = "old\<lparr>bo_remaining_quantity := rc_new_quantity cmd, bo_client_order_id := rc_new_client_order_id cmd\<rparr>"
  have bk: "knows_instrument E ?i" "?x \<in> set (slots b (bo_side old))"
    and key: "\<And>y. y \<in> book.resting_slots b \<Longrightarrow> order_key (slot_order b y) = k \<longleftrightarrow> y = ?x"
    using live_order [OF inv ref] b old cmd(2) by (metis option.inject)+
  have bi: "book_inv b" using engine_invD [OF inv] b by auto
  obtain b1 where b1: "reduce_at b ?x (rc_new_quantity cmd) = Some b1" "book_inv b1" "slots b1 = slots b"
    "slot_order b1 = (slot_order b)(?x := (slot_order b ?x)\<lparr>bo_remaining_quantity := rc_new_quantity cmd\<rparr>)" "slab_size b1 = slab_size b"
    using book.reduce_law [OF bi bk(2)] by blast
  have "?x \<in> set (slots b1 (bo_side old))" using bk(2) b1(3) by simp
  then obtain b2 where b2: "set_client_order_id_at b1 ?x (rc_new_client_order_id cmd) = Some b2" "book_inv b2" "slots b2 = slots b1"
    "slot_order b2 = (slot_order b1)(?x := (slot_order b1 ?x)\<lparr>bo_client_order_id := rc_new_client_order_id cmd\<rparr>)" "slab_size b2 = slab_size b1"
    using book.rename_law [OF b1(2)] by blast
  have o2: "slot_order b2 = (slot_order b)(?x := ?new)" using b1(4) b2(4) old by simp
  have res: "book.resting_slots b2 = book.resting_slots b" by (simp add: book.resting_slots_def b1(3) b2(3))
  have v: "view b2 = rewrite_key k (rc_new_quantity cmd) (rc_new_client_order_id cmd) (view b)"
  proof
    fix sd
    have "slot_order b2 y = (if order_key (slot_order b y) = k then
        (slot_order b y)\<lparr>bo_remaining_quantity := rc_new_quantity cmd, bo_client_order_id := rc_new_client_order_id cmd\<rparr>
        else slot_order b y)" if "y \<in> set (slots b sd)" for y
    proof -
      have "y \<in> book.resting_slots b" using that book.resting_slots_iff by blast
      then show ?thesis using key old by (auto simp: o2)
    qed
    then show "view b2 sd = rewrite_key k (rc_new_quantity cmd) (rc_new_client_order_id cmd) (view b) sd"
      by (simp add: book.orders_on_def rewrite_key_def b1(3) b2(3))
  qed
  obtain books where sb: "set_book E ?i b2 = Some (E\<lparr>me_books := books\<rparr>)" "reg_inv (E\<lparr>me_books := books\<rparr>)"
    "engine_books (E\<lparr>me_books := books\<rparr>) = (engine_books E)(?i \<mapsto> b2)"
    using set_book_reg [OF engine_invD(1) [OF inv] bk(1)] by metis
  let ?E = "bump_event (bump_event (E\<lparr>me_books := books, me_orders := (me_orders E)(k := None, ?k' \<mapsto> ref)\<rparr>))"
  have E: "reg_inv ?E" "engine_books ?E = (engine_books E)(?i \<mapsto> b2)" using sb(2,3) by simp_all
  show ?thesis
    by (rule that [of ?E b2])
      (use E v res o2 cmd b1(1,3,5) b2(1,2,3,5) sb(1) in \<open>simp_all add: replace_in_place_def Let_def\<close>)
qed

lemma replace_in_place_refines:
  assumes inv: "engine_inv E" and load: "engine_load E n" and ref: "me_orders E k = Some ref"
    and b: "engine_books E (ref_instrument_id ref) = Some b" and old: "old = slot_order b (ref_handle ref)"
    and cmd: "k = (rc_account_id cmd, rc_original_client_order_id cmd)" "ref_instrument_id ref = rc_instrument_id cmd"
    and q: "rc_new_quantity cmd \<noteq> 0" "rc_new_quantity cmd \<le> bo_remaining_quantity old"
    and fresh: "replace_fresh E cmd"
  obtains E' where "replace_in_place E b cmd ref old = Some (E',
      [replaced_event cmd (me_next_event_sequence E) (bo_exchange_order_id old),
       BookOrderReduced \<lparr>bd_event_sequence = me_next_event_sequence E + 1, bd_instrument_id = rc_instrument_id cmd,
          bd_exchange_order_id = bo_exchange_order_id old, bd_side = bo_side old,
          bd_price = bo_price old, bd_new_remaining_quantity = rc_new_quantity cmd\<rparr>])"
    "engine_inv E'" "engine_view E' = (engine_view E)(rc_instrument_id cmd :=
      rewrite_key k (rc_new_quantity cmd) (rc_new_client_order_id cmd) (engine_view E (rc_instrument_id cmd)))"
    "engine_load E' n"
    "me_orders E' = (me_orders E)(k := None, (rc_account_id cmd, rc_new_client_order_id cmd) \<mapsto> ref)"
    "me_next_event_sequence E' = me_next_event_sequence E + 2"
    "me_next_exchange_order_id E' = me_next_exchange_order_id E" "me_next_priority E' = me_next_priority E"
proof -
  let ?x = "ref_handle ref" and ?i = "rc_instrument_id cmd"
  obtain E' b2 where e: "replace_in_place E b cmd ref old = Some (E',
      [replaced_event cmd (me_next_event_sequence E) (bo_exchange_order_id old),
       BookOrderReduced \<lparr>bd_event_sequence = me_next_event_sequence E + 1, bd_instrument_id = rc_instrument_id cmd,
          bd_exchange_order_id = bo_exchange_order_id old, bd_side = bo_side old,
          bd_price = bo_price old, bd_new_remaining_quantity = rc_new_quantity cmd\<rparr>])"
    and E: "reg_inv E'" "engine_books E' = (engine_books E)(?i \<mapsto> b2)"
    and b2: "book_inv b2" "slots b2 = slots b" "book.resting_slots b2 = book.resting_slots b" "slab_size b2 = slab_size b"
    and o2: "slot_order b2 = (slot_order b)(?x :=
       old\<lparr>bo_remaining_quantity := rc_new_quantity cmd, bo_client_order_id := rc_new_client_order_id cmd\<rparr>)"
    and v: "view b2 = rewrite_key k (rc_new_quantity cmd) (rc_new_client_order_id cmd) (view b)"
    and D: "me_orders E' = (me_orders E)(k := None, (rc_account_id cmd, rc_new_client_order_id cmd) \<mapsto> ref)"
    and rest: "me_next_event_sequence E' = me_next_event_sequence E + 2"
      "me_next_exchange_order_id E' = me_next_exchange_order_id E" "me_next_priority E' = me_next_priority E"
    by (rule replace_in_place_effect [OF inv ref b old cmd])
  have key: "order_key old = k" "\<And>y. y \<in> book.resting_slots b \<Longrightarrow> order_key (slot_order b y) = k \<longleftrightarrow> y = ?x"
    using live_order [OF inv ref] b old by (metis option.inject)+
  have ok2: "book_ok b2"
  proof (rule book_ok_shrink [OF _ b2(1)])
    show ok: "book_ok b" using engine_invD [OF inv] b by auto
    fix sd ord assume "ord \<in> set (view b2 sd)"
    then obtain ord0 where o0: "ord0 \<in> set (view b sd)" "ord = (if order_key ord0 = k then
        ord0\<lparr>bo_remaining_quantity := rc_new_quantity cmd, bo_client_order_id := rc_new_client_order_id cmd\<rparr> else ord0)"
      by (auto simp: v rewrite_key_def)
    have g: "good_order ord0" using ok o0(1) by (auto simp: book_ok_def)
    have "ord0 = old" if "order_key ord0 = k"
      using o0(1) that key(2) old book.resting_slots_iff by (auto simp: book.orders_on_def)
    then have "good_order ord" using g q o0(2) by (auto simp: good_order_def qty_ok_def word_gt_0 word_le_nat_alt)
    then show "good_order ord \<and> (\<exists>ord' \<in> set (view b sd). bo_price ord' = bo_price ord)" using o0 by auto
  qed
  have "dir_inv ((engine_books E)(?i \<mapsto> b2)) (me_orders E')"
    unfolding D by (rule dir_rekey [OF engine_invD(3) [OF inv] b [unfolded cmd(2)] ref cmd(2) refl b2(3)])
      (use key(1) cmd(1) fresh in \<open>auto simp: o2 order_key_def replace_fresh_def\<close>)
  then have "engine_inv E'" by (intro engine_inv_update [OF inv E ok2]) simp
  moreover have "slab_size b2 \<le> n" using load b b2(4) by (simp add: engine_load_def)
  then have "engine_load E' n" by (rule engine_load_update [OF load E(2)]) simp
  ultimately show ?thesis
    using that [OF e] engine_view_update [OF E(2)] v b cmd D rest by simp
qed

lemma replace_requeue_refines:
  assumes inv: "engine_inv E" and load: "engine_load E n" "n < kNil" and ref: "me_orders E k = Some ref"
    and b: "engine_books E (ref_instrument_id ref) = Some b" and old: "old = slot_order b (ref_handle ref)"
    and cmd: "k = (rc_account_id cmd, rc_original_client_order_id cmd)" "ref_instrument_id ref = rc_instrument_id cmd"
    and ok: "cmd_bounds (rc_new_price cmd) (rc_new_quantity cmd)" "0 < rc_new_price cmd"
    and fresh: "replace_fresh E cmd"
    and ord: "ord = replacement_order cmd old (me_next_exchange_order_id E) (me_next_priority E)"
    and spec: "submit_spec (without_key k (engine_view E (rc_instrument_id cmd))) (book_order_of ord) = (V, fills, m)"
  obtains E' where "replace_requeue E b cmd ref old = Some (E',
      replaced_event cmd (me_next_event_sequence E) (me_next_exchange_order_id E) #
      BookOrderRemoved \<lparr>bm_event_sequence = me_next_event_sequence E + 1, bm_instrument_id = rc_instrument_id cmd,
         bm_exchange_order_id = bo_exchange_order_id old, bm_side = bo_side old, bm_price = bo_price old\<rparr> #
      submit_events (me_next_event_sequence E + 2) (rc_command_sequence cmd) ord fills m)"
    "engine_inv E'" "engine_view E' = (engine_view E)(rc_instrument_id cmd := V)" "engine_load E' (Suc n)"
    "dom (me_orders E') = dom (me_orders E) - {k} - filled_keys fills \<union>
       (if bo_time_in_force old = GTC \<and> m \<noteq> 0 then {(rc_account_id cmd, rc_new_client_order_id cmd)} else {})"
    "me_next_event_sequence E' = me_next_event_sequence E + 2 +
       of_nat (length (submit_events (me_next_event_sequence E + 2) (rc_command_sequence cmd) ord fills m))"
    "me_next_exchange_order_id E' = me_next_exchange_order_id E + 1" "me_next_priority E' = me_next_priority E + 1"
proof -
  let ?i = "rc_instrument_id cmd"
  obtain b1 books where rm: "remove_at b (ref_handle ref) = Some (b1, old)"
    "\<And>D. set_book (E\<lparr>me_orders := D\<rparr>) ?i b1 = Some (E\<lparr>me_books := books, me_orders := D\<rparr>)"
    "engine_inv (E\<lparr>me_books := books, me_orders := (me_orders E)(k := None)\<rparr>)"
    "engine_books (E\<lparr>me_books := books\<rparr>) = (engine_books E)(?i \<mapsto> b1)"
    "view b1 = without_key k (view b)" "slab_size b1 = slab_size b"
    using remove_live_order [OF inv load(1) ref b] unfolding cmd(2) old by metis
  have sb: "set_book E ?i b1 = Some (E\<lparr>me_books := books\<rparr>)"
    using rm(2) [of "me_orders E"] by simp
  let ?E2 = "E\<lparr>me_books := books, me_orders := (me_orders E)(k := None)\<rparr>"
  let ?E3 = "bump_event (bump_event (?E2\<lparr>me_next_exchange_order_id := me_next_exchange_order_id E + 1, me_next_priority := me_next_priority E + 1\<rparr>))"
  have o: "er_instrument_id ord = ?i" "er_price ord = rc_new_price cmd" "er_remaining_quantity ord = rc_new_quantity cmd"
    "er_account_id ord = rc_account_id cmd" "er_client_order_id ord = rc_new_client_order_id cmd"
    "er_time_in_force ord = bo_time_in_force old"
    by (simp_all add: ord replacement_order_def)
  have inv3: "engine_inv ?E3" using rm(3) by (simp add: engine_inv_def)
  have b3: "engine_books ?E3 (er_instrument_id ord) = Some b1" using rm(4) o by simp
  have room: "slab_size b1 < kNil" using load b rm(6) by (auto simp: engine_load_def dest: order_le_less_trans)
  have ok': "price_ok (er_price ord)" "0 < er_price ord" "qty_ok (er_remaining_quantity ord)"
    using ok o by (auto simp: cmd_bounds_def)
  have fresh': "me_orders ?E3 (er_account_id ord, er_client_order_id ord) = None"
    using fresh o cmd(1) by (auto simp: replace_fresh_def)
  have spec': "submit_spec (view b1) (book_order_of ord) = (V, fills, m)" using spec b cmd(2) rm(5) by simp
  obtain E' b' where s: "match_then_rest ?E3 ord (rc_command_sequence cmd) =
      Some (E', submit_events (me_next_event_sequence ?E3) (rc_command_sequence cmd) ord fills m)"
    "engine_inv E'" "engine_books E' = (engine_books ?E3)(er_instrument_id ord \<mapsto> b')" "view b' = V"
    "slab_size b' \<le> Suc (slab_size b1)"
    "dom (me_orders E') = dom (me_orders ?E3) - filled_keys fills \<union>
       (if er_time_in_force ord = GTC \<and> m \<noteq> 0 then {(er_account_id ord, er_client_order_id ord)} else {})"
    "me_next_event_sequence E' = me_next_event_sequence ?E3 + of_nat (length (submit_events (me_next_event_sequence ?E3) (rc_command_sequence cmd) ord fills m))"
    "me_next_exchange_order_id E' = me_next_exchange_order_id ?E3" "me_next_priority E' = me_next_priority ?E3"
    using match_then_rest_refines [OF inv3 b3 room ok' fresh' spec', of "rc_command_sequence cmd"] by blast
  have bk: "engine_books E' = (engine_books E)(?i \<mapsto> b')" using s(3) rm(4) o by simp
  have "slab_size b' \<le> Suc n" using s(5) rm(6) load(1) b by (auto simp: engine_load_def intro: le_trans)
  then have "engine_load E' (Suc n)" using engine_load_update [OF load(1) bk] by simp
  moreover have "replace_requeue E b cmd ref old = Some (E',
      replaced_event cmd (me_next_event_sequence E) (me_next_exchange_order_id E) #
      BookOrderRemoved \<lparr>bm_event_sequence = me_next_event_sequence E + 1, bm_instrument_id = ?i,
         bm_exchange_order_id = bo_exchange_order_id old, bm_side = bo_side old, bm_price = bo_price old\<rparr> #
      submit_events (me_next_event_sequence E + 2) (rc_command_sequence cmd) ord fills m)"
    using s(1) rm(1) sb cmd(1) by (simp add: replace_requeue_def Let_def ord [symmetric] add.assoc)
  ultimately show ?thesis using that s engine_view_update [OF bk] o by (simp add: add.assoc)
qed

subsection \<open>Any command\<close>

text \<open>Events numbered one by one from a given sequence number.\<close>

fun numbered :: "EventSequence \<Rightarrow> ExchangeEvent list \<Rightarrow> bool" where
  "numbered seq [] \<longleftrightarrow> True"
| "numbered seq (e # es) \<longleftrightarrow> event_sequence e = seq \<and> numbered (seq + 1) es"

lemma numbered_append: "numbered seq (xs @ ys) \<longleftrightarrow> numbered seq xs \<and> numbered (seq + of_nat (length xs)) ys"
  by (induction xs arbitrary: seq) (simp_all add: add.assoc)

lemma numbered_fill_events: "numbered seq (fill_events seq cs ord fills)"
  by (induction seq cs ord fills rule: fill_events.induct) (simp_all add: trade_event_def Let_def add.assoc)

lemma numbered_submit_events: "numbered seq (submit_events seq cs ord fills n)"
  by (simp add: submit_events_def numbered_append numbered_fill_events rest_events_def)

fun command_ok :: "MatchingEngine \<Rightarrow> ExchangeCommand \<Rightarrow> bool" where
  "command_ok E (NewOrder cmd) \<longleftrightarrow> cmd_bounds (nc_price cmd) (nc_quantity cmd)"
| "command_ok E (CancelOrder cmd) \<longleftrightarrow> True"
| "command_ok E (ReplaceOrder cmd) \<longleftrightarrow> cmd_bounds (rc_new_price cmd) (rc_new_quantity cmd) \<and> replace_fresh E cmd"

text \<open>The live key a command may introduce.\<close>

fun command_keys :: "ExchangeCommand \<Rightarrow> LiveKey list" where
  "command_keys (NewOrder cmd) = [(nc_account_id cmd, nc_client_order_id cmd)]"
| "command_keys (CancelOrder cmd) = []"
| "command_keys (ReplaceOrder cmd) = [(rc_account_id cmd, rc_new_client_order_id cmd)]"

text \<open>What every command guarantees.\<close>

definition command_done :: "MatchingEngine \<Rightarrow> nat \<Rightarrow> ExchangeCommand \<Rightarrow> MatchingEngine \<Rightarrow> ExchangeEvent list \<Rightarrow> bool" where
  "command_done E n cmd E' evs \<longleftrightarrow> engine_inv E' \<and> engine_load E' (Suc n) \<and> evs \<noteq> [] \<and>
     numbered (me_next_event_sequence E) evs \<and>
     me_next_event_sequence E' = me_next_event_sequence E + of_nat (length evs) \<and>
     dom (me_orders E') \<subseteq> dom (me_orders E) \<union> set (command_keys cmd)"

lemma rejected_done:
  assumes "engine_inv E" "engine_load E n"
    and "res = reject_new_order E c1 r \<or> res = reject_cancel E c2 r \<or> res = reject_replace_order E c3 r"
  shows "command_done E n cmd (fst res) (snd res)"
proof -
  have "engine_inv (bump_event E)" using assms(1) by (simp add: engine_inv_def)
  moreover have "engine_load (bump_event E) (Suc n)" using assms(2) by (auto simp: engine_load_def intro: le_SucI)
  ultimately show ?thesis using assms(3)
    by (auto simp: command_done_def reject_new_order_def reject_cancel_def reject_replace_order_def)
qed

lemma engine_load_mono: "engine_load E n \<Longrightarrow> n \<le> m \<Longrightarrow> engine_load E m"
  unfolding engine_load_def by (meson order_trans)

lemma process_new_order_done:
  assumes inv: "engine_inv E" and load: "engine_load E n" "n < kNil" and ok: "cmd_bounds (nc_price cmd) (nc_quantity cmd)"
  shows "\<exists>E' evs. process_new_order E cmd = Some (E', evs) \<and> command_done E n (NewOrder cmd) E' evs"
proof (cases "new_order_verdict E cmd")
  case (Some r)
  then show ?thesis using rejected_done [OF inv load(1), of "reject_new_order E cmd r"] process_new_order_verdict [OF inv, of cmd]
    by (metis option.simps(5) prod.collapse)
next
  case None
  obtain V fills m where spec: "submit_spec (engine_view E (nc_instrument_id cmd)) (new_book_order E cmd) = (V, fills, m)"
    by (metis prod_cases3)
  show ?thesis
    by (rule accept_new_order_refines [OF inv load ok None spec])
      (auto simp: process_new_order_verdict [OF inv] None command_done_def accepted_event_def numbered_submit_events add.assoc)
qed

lemma process_cancel_done:
  assumes inv: "engine_inv E" and load: "engine_load E n"
  shows "\<exists>E' evs. process_cancel E cmd = Some (E', evs) \<and> command_done E n (CancelOrder cmd) E' evs"
proof (cases "cancel_verdict E cmd")
  case (Some r)
  then show ?thesis using rejected_done [OF inv load, of "reject_cancel E cmd r"] process_cancel_rejects [OF Some]
    by (metis prod.collapse)
next
  case None
  show ?thesis
    by (rule process_cancel_refines [OF inv load None])
      (auto simp: command_done_def cancel_events_def intro: engine_load_mono)
qed

lemma process_replace_done:
  assumes inv: "engine_inv E" and load: "engine_load E n" "n < kNil"
    and ok: "cmd_bounds (rc_new_price cmd) (rc_new_quantity cmd)" and fresh: "replace_fresh E cmd"
  shows "\<exists>E' evs. process_replace E cmd = Some (E', evs) \<and> command_done E n (ReplaceOrder cmd) E' evs"
proof (cases "replace_verdict E cmd")
  case (Some r)
  then show ?thesis using rejected_done [OF inv load(1), of "reject_replace_order E cmd r"] process_replace_rejects [OF Some]
    by (metis prod.collapse)
next
  case None
  let ?k = "(rc_account_id cmd, rc_original_client_order_id cmd)"
  obtain ref where ref: "me_orders E ?k = Some ref" "ref_instrument_id ref = rc_instrument_id cmd"
    and v: "knows_instrument E (rc_instrument_id cmd)" "\<not> rc_new_price cmd \<le> 0" "rc_new_quantity cmd \<noteq> 0"
    using None by (auto simp: replace_verdict_def split: if_splits option.splits)
  obtain b where b: "engine_books E (ref_instrument_id ref) = Some b" "book_for E (ref_instrument_id ref) = Some b"
    "ref_handle ref \<in> set (slots b (bo_side (slot_order b (ref_handle ref))))"
    using live_order [OF inv ref(1)] by metis
  let ?old = "slot_order b (ref_handle ref)"
  have p: "process_replace E cmd = (if rc_new_price cmd = bo_price ?old \<and> rc_new_quantity cmd \<le> bo_remaining_quantity ?old
      then replace_in_place E b cmd ref ?old else replace_requeue E b cmd ref ?old)"
    using v ref b(2) book.at_law [OF engine_invD(4) [OF inv b(1)] b(3)] by (simp add: process_replace_def)
  show ?thesis
  proof (cases "rc_new_price cmd = bo_price ?old \<and> rc_new_quantity cmd \<le> bo_remaining_quantity ?old")
    case True
    show ?thesis
      by (rule replace_in_place_refines [OF inv load(1) ref(1) b(1) refl refl ref(2) v(3) conjunct2 [OF True] fresh])
        (use p True in \<open>auto simp: command_done_def replaced_event_def intro: engine_load_mono\<close>)
  next
    case False
    obtain V fills m where spec: "submit_spec (without_key ?k (engine_view E (rc_instrument_id cmd)))
        (book_order_of (replacement_order cmd ?old (me_next_exchange_order_id E) (me_next_priority E))) = (V, fills, m)"
      by (metis prod_cases3)
    have "0 < rc_new_price cmd" using v(2) by simp
    from replace_requeue_refines [OF inv load ref(1) b(1) refl refl ref(2) ok this fresh refl spec] obtain E' where
      E': "replace_requeue E b cmd ref ?old = Some (E',
        replaced_event cmd (me_next_event_sequence E) (me_next_exchange_order_id E) #
        BookOrderRemoved \<lparr>bm_event_sequence = me_next_event_sequence E + 1, bm_instrument_id = rc_instrument_id cmd,
           bm_exchange_order_id = bo_exchange_order_id ?old, bm_side = bo_side ?old, bm_price = bo_price ?old\<rparr> #
        submit_events (me_next_event_sequence E + 2) (rc_command_sequence cmd)
          (replacement_order cmd ?old (me_next_exchange_order_id E) (me_next_priority E)) fills m)"
      "engine_inv E'" "engine_load E' (Suc n)"
      "dom (me_orders E') = dom (me_orders E) - {?k} - filled_keys fills \<union>
         (if bo_time_in_force ?old = GTC \<and> m \<noteq> 0 then {(rc_account_id cmd, rc_new_client_order_id cmd)} else {})"
      "me_next_event_sequence E' = me_next_event_sequence E + 2 + of_nat (length (submit_events (me_next_event_sequence E + 2)
          (rc_command_sequence cmd) (replacement_order cmd ?old (me_next_exchange_order_id E) (me_next_priority E)) fills m))"
      by metis
    then have "command_done E n (ReplaceOrder cmd) E' (replaced_event cmd (me_next_event_sequence E) (me_next_exchange_order_id E) #
        BookOrderRemoved \<lparr>bm_event_sequence = me_next_event_sequence E + 1, bm_instrument_id = rc_instrument_id cmd,
           bm_exchange_order_id = bo_exchange_order_id ?old, bm_side = bo_side ?old, bm_price = bo_price ?old\<rparr> #
        submit_events (me_next_event_sequence E + 2) (rc_command_sequence cmd)
          (replacement_order cmd ?old (me_next_exchange_order_id E) (me_next_priority E)) fills m)"
      by (auto simp: command_done_def replaced_event_def numbered_submit_events add.assoc)
    then show ?thesis using p False E'(1) by auto
  qed
qed

lemma process_done:
  assumes "engine_inv E" "engine_load E n" "n < kNil" "command_ok E cmd"
  shows "\<exists>E' evs. process E cmd = Some (E', evs) \<and> command_done E n cmd E' evs"
  using process_new_order_done [OF assms(1,2,3)] process_cancel_done [OF assms(1,2)] process_replace_done [OF assms(1,2,3)] assms(4)
  by (cases cmd) auto

end
