(* ===== verification/Engine_Properties.thy ===== *)
theory Engine_Properties
  imports Engine_Handlers
begin

text \<open>
  The properties of the matching engine: it never fails and keeps its invariant over any run of
  well-bounded commands, its books are never crossed, matching follows price-time priority and
  conserves quantity, and each handler does what its policy says.
\<close>

subsection \<open>Runs of commands\<close>

fun run :: "MatchingEngine \<Rightarrow> ExchangeCommand list \<Rightarrow> (MatchingEngine \<times> ExchangeEvent list) option" where
  "run E [] = Some (E, [])"
| "run E (cmd # cmds) = do {
     (E1, evs1) \<leftarrow> process E cmd;
     (E2, evs2) \<leftarrow> run E1 cmds;
     Some (E2, evs1 @ evs2)
   }"

fun bounded_command :: "ExchangeCommand \<Rightarrow> bool" where
  "bounded_command (NewOrder cmd) \<longleftrightarrow> cmd_bounds (nc_price cmd) (nc_quantity cmd)"
| "bounded_command (CancelOrder cmd) \<longleftrightarrow> True"
| "bounded_command (ReplaceOrder cmd) \<longleftrightarrow> cmd_bounds (rc_new_price cmd) (rc_new_quantity cmd)"

subsection \<open>The initial engine\<close>

lemma register_state:
  fixes i :: InstrumentId
  assumes "engine_inv E" "engine_load E 0" "engine_view E = (\<lambda>_ _. [])" "me_orders E = Map.empty"
  defines "E' \<equiv> fst (register_instrument E i)"
  shows "engine_load E' 0" "engine_view E' = (\<lambda>_ _. [])" "me_orders E' = Map.empty"
    "knows_instrument E' j \<longleftrightarrow> knows_instrument E j \<or> j = i \<and> i \<le> kMaxInstrumentId"
    "me_next_event_sequence E' = me_next_event_sequence E"
proof -
  note r = engine_invD(1) [OF assms(1)]
  have "engine_load E' 0 \<and> engine_view E' = (\<lambda>_ _. []) \<and> (knows_instrument E' j \<longleftrightarrow> knows_instrument E j \<or> j = i \<and> i \<le> kMaxInstrumentId)"
  proof (cases "snd (register_instrument E i)")
    case True
    then obtain band where band: "band \<le> kMaxBandTicks" "engine_books E' = (engine_books E)(i \<mapsto> new_book band)"
      using register_instrument_reg(4) [OF r True] by (auto simp: E'_def)
    have new: "i \<le> kMaxInstrumentId" "\<not> knows_instrument E i" using register_instrument_reg(2) [OF r] True by auto
    have "engine_load E' 0"
      using engine_load_update [OF assms(2) band(2)] new_book_view(4) [OF band(1)] by simp
    moreover have "engine_view E' = (\<lambda>_ _. [])"
      using engine_view_update [OF band(2)] new_book_view(2) [OF band(1)] assms(3) by (simp add: fun_eq_iff)
    ultimately show ?thesis using register_knows(1) [OF r new, of j] new by (auto simp: E'_def)
  next
    case False
    then have "E' = E" "\<not> (i \<le> kMaxInstrumentId \<and> \<not> knows_instrument E i)"
      using register_instrument_reg(2,3) [OF r] by (auto simp: E'_def)
    then show ?thesis using assms(2,3) by auto
  qed
  then show "engine_load E' 0" "engine_view E' = (\<lambda>_ _. [])"
    "knows_instrument E' j \<longleftrightarrow> knows_instrument E j \<or> j = i \<and> i \<le> kMaxInstrumentId" by auto
  show "me_orders E' = Map.empty" using register_instrument_reg(5) [OF r] assms(4) by (simp add: E'_def)
  show "me_next_event_sequence E' = me_next_event_sequence E" by (simp add: E'_def register_instrument_def Let_def)
qed

lemma fold_register_state:
  fixes ids :: "InstrumentId list"
  assumes "engine_inv E" "engine_load E 0" "engine_view E = (\<lambda>_ _. [])" "me_orders E = Map.empty"
  defines "E' \<equiv> fold (\<lambda>i E. fst (register_instrument E i)) ids E"
  shows "engine_load E' 0 \<and> engine_view E' = (\<lambda>_ _. []) \<and> me_orders E' = Map.empty \<and>
    (\<forall>j. knows_instrument E' j \<longleftrightarrow> knows_instrument E j \<or> j \<in> set ids \<and> j \<le> kMaxInstrumentId) \<and>
    me_next_event_sequence E' = me_next_event_sequence E"
  using assms(1-4) unfolding E'_def
proof (induction ids arbitrary: E)
  case (Cons i ids)
  note st = register_state [OF Cons.prems, of i]
  show ?case using Cons.IH [OF register_instrument_inv [OF Cons.prems(1), of i] st(1-3)] st(4,5) by auto
qed simp

lemma new_engine_state:
  "engine_load (new_engine universe n) 0" "engine_view (new_engine universe n) = (\<lambda>_ _. [])"
  "me_orders (new_engine universe n) = Map.empty"
  "knows_instrument (new_engine universe n) i \<longleftrightarrow> i \<in> set universe \<and> i \<le> kMaxInstrumentId"
  "me_next_event_sequence (new_engine universe n) = 1"
proof -
  let ?w = "fold (\<lambda>i w. if i \<le> kMaxInstrumentId then max w i else w) universe 0"
  define E where "E = (if universe \<noteq> [] then
                 empty_engine\<lparr>me_slot_of_id := replicate (unat ?w + 1) kNoSlot,
                   me_expected_orders_per_book := n div length universe,
                   me_band_ticks := band_for (length universe) kLadderByteBudget\<rparr>
               else empty_engine)"
  have "unat ?w + 1 \<le> 2 ^ 22" using widest_le [of 0 universe] by (simp add: word_le_nat_alt kMaxInstrumentId_def)
  then have inv: "engine_inv E" by (intro unregistered_inv) (auto simp: E_def empty_engine_def band_for_le)
  have k: "\<not> knows_instrument E j" for j by (auto simp: E_def knows_instrument_def empty_engine_def simp del: replicate_Suc)
  then have eb: "engine_books E = Map.empty" by (simp add: engine_books_def fun_eq_iff)
  have "engine_load E 0" "engine_view E = (\<lambda>_ _. [])" "me_orders E = Map.empty" "me_next_event_sequence E = 1"
    by (simp_all add: engine_load_def engine_view_def eb fun_eq_iff) (simp_all add: E_def empty_engine_def)
  with fold_register_state [OF inv, of universe] k
  show "engine_load (new_engine universe n) 0" "engine_view (new_engine universe n) = (\<lambda>_ _. [])"
    "me_orders (new_engine universe n) = Map.empty" "me_next_event_sequence (new_engine universe n) = 1"
    "knows_instrument (new_engine universe n) i \<longleftrightarrow> i \<in> set universe \<and> i \<le> kMaxInstrumentId"
    by (auto simp: new_engine_def E_def [symmetric] Let_def)
qed

subsection \<open>Registration survives every command\<close>

lemma set_book_slots: "set_book E i b = Some E' \<Longrightarrow> me_slot_of_id E' = me_slot_of_id E"
  by (auto simp: set_book_def split: bind_splits)

lemma match_once_slots: "match_once E b incoming cs c = Some (E', incoming', evs) \<Longrightarrow> me_slot_of_id E' = me_slot_of_id E"
  by (auto simp: match_once_def Let_def bump_event_def dest!: set_book_slots split: if_splits bind_splits)

lemma match_and_rest_slots:
  assumes "match_and_rest E incoming cs = Some (E', incoming', evs)"
  shows "me_slot_of_id E' = me_slot_of_id E"
proof -
  have "me_slot_of_id (fst (E', incoming', evs)) = me_slot_of_id E"
    using _ assms
  proof (rule match_and_rest.raw_induct [where P = "\<lambda>E incoming cs r. me_slot_of_id (fst r) = me_slot_of_id E"])
    fix rec :: "MatchingEngine \<Rightarrow> ExchangeRestingOrder \<Rightarrow> CommandSequence \<Rightarrow>
      (MatchingEngine \<times> ExchangeRestingOrder \<times> ExchangeEvent list) option" and E incoming cs r
    assume "\<And>E incoming cs r. rec E incoming cs = Some r \<Longrightarrow> me_slot_of_id (fst r) = me_slot_of_id E"
    then have rec: "rec E incoming cs = Some (E', incoming', evs) \<Longrightarrow> me_slot_of_id E' = me_slot_of_id E" for E E' cs incoming incoming' evs by force
    assume "(if er_remaining_quantity incoming = 0 then Some (E, incoming, [])
        else do {
          b \<leftarrow> book_for E (er_instrument_id incoming);
          front \<leftarrow> front_of_best b (contra (er_side incoming));
          (case front of None \<Rightarrow> Some (E, incoming, [])
           | Some c \<Rightarrow> if \<not> (if er_side incoming = Buy then er_price incoming \<ge> bo_price c else er_price incoming \<le> bo_price c)
               then Some (E, incoming, [])
               else do {
                 (E1, incoming1, evs1) \<leftarrow> match_once E b incoming cs c;
                 (E2, incoming2, evs2) \<leftarrow> rec E1 incoming1 cs;
                 Some (E2, incoming2, evs1 @ evs2)
               })
        }) = Some r"
    then show "me_slot_of_id (fst r) = me_slot_of_id E"
      by (auto dest!: match_once_slots rec split: if_splits bind_splits option.splits prod.splits)
  qed
  then show ?thesis by simp
qed

lemma rest_slots: "rest_remainder_if_applicable E ord = Some (E', evs) \<Longrightarrow> me_slot_of_id E' = me_slot_of_id E"
  by (auto simp: rest_remainder_if_applicable_def bump_event_def dest!: set_book_slots split: if_splits bind_splits prod.splits)

lemma match_then_rest_slots: "match_then_rest E ord cs = Some (E', evs) \<Longrightarrow> me_slot_of_id E' = me_slot_of_id E"
  by (auto simp: match_then_rest_def dest!: match_and_rest_slots rest_slots split: bind_splits prod.splits)

lemma accept_slots: "accept_new_order E cmd = Some (E', evs) \<Longrightarrow> me_slot_of_id E' = me_slot_of_id E"
  by (auto simp: accept_new_order_def Let_def bump_event_def dest!: match_then_rest_slots split: bind_splits prod.splits)

lemma process_slots: "process E cmd = Some (E', evs) \<Longrightarrow> me_slot_of_id E' = me_slot_of_id E"
proof (cases cmd)
  case (NewOrder c)
  moreover assume "process E cmd = Some (E', evs)"
  ultimately show ?thesis
    by (auto simp: process_new_order_def reject_new_order_def bump_event_def dest!: accept_slots split: if_splits bind_splits)
next
  case (CancelOrder c)
  moreover assume "process E cmd = Some (E', evs)"
  ultimately show ?thesis
    by (auto simp: process_cancel_def reject_cancel_def bump_event_def Let_def dest!: set_book_slots
        split: if_splits bind_splits option.splits prod.splits)
next
  case (ReplaceOrder c)
  moreover assume "process E cmd = Some (E', evs)"
  ultimately show ?thesis
    by (auto simp: process_replace_def reject_replace_order_def replace_in_place_def replace_requeue_def bump_event_def Let_def
        dest!: set_book_slots match_then_rest_slots split: if_splits bind_splits option.splits prod.splits)
qed

lemma process_knows: "process E cmd = Some (E', evs) \<Longrightarrow> knows_instrument E' i \<longleftrightarrow> knows_instrument E i"
  using process_slots by (simp add: knows_instrument_def)

lemma run_knows: "run E cmds = Some (E', evs) \<Longrightarrow> knows_instrument E' i \<longleftrightarrow> knows_instrument E i"
proof (induction cmds arbitrary: E evs)
  case (Cons cmd cmds)
  then obtain E1 evs1 evs2 where "process E cmd = Some (E1, evs1)" "run E1 cmds = Some (E', evs2)"
    by (auto split: bind_splits prod.splits)
  then show ?case using Cons.IH process_knows by blast
qed simp

subsection \<open>Runs\<close>

lemma bounded_command_ok:
  assumes "bounded_command cmd" "set (command_keys cmd) \<inter> dom (me_orders E) = {}"
  shows "command_ok E cmd"
  using assms by (cases cmd) (auto simp: replace_fresh_def)

lemma run_done:
  assumes "engine_inv E" "engine_load E n" "n + length cmds \<le> kNil" "\<And>cmd. cmd \<in> set cmds \<Longrightarrow> bounded_command cmd"
    "distinct (concat (map command_keys cmds))" "set (concat (map command_keys cmds)) \<inter> dom (me_orders E) = {}"
  shows "\<exists>E' evs. run E cmds = Some (E', evs) \<and> engine_inv E' \<and> engine_load E' (n + length cmds) \<and>
    numbered (me_next_event_sequence E) evs \<and> length cmds \<le> length evs"
  using assms
proof (induction cmds arbitrary: E n)
  case (Cons cmd cmds)
  have ok: "command_ok E cmd" using Cons.prems(4,6) by (intro bounded_command_ok) auto
  have small: "n < kNil" "Suc n + length cmds \<le> kNil" using Cons.prems(3) by auto
  obtain E1 evs1 where p: "process E cmd = Some (E1, evs1)" and d: "command_done E n cmd E1 evs1"
    using process_done [OF Cons.prems(1,2) small(1) ok] by blast
  have e1: "engine_inv E1" "engine_load E1 (Suc n)" "dom (me_orders E1) \<subseteq> dom (me_orders E) \<union> set (command_keys cmd)"
    "numbered (me_next_event_sequence E) evs1" "me_next_event_sequence E1 = me_next_event_sequence E + of_nat (length evs1)" "evs1 \<noteq> []"
    using d by (auto simp: command_done_def)
  have "set (command_keys cmd) \<inter> set (concat (map command_keys cmds)) = {}" and dist: "distinct (concat (map command_keys cmds))"
    using Cons.prems(5) by auto
  moreover have "set (concat (map command_keys cmds)) \<inter> dom (me_orders E) = {}" using Cons.prems(6) by auto
  ultimately have keys: "set (concat (map command_keys cmds)) \<inter> dom (me_orders E1) = {}" using e1(3) by blast
  have b: "\<And>c. c \<in> set cmds \<Longrightarrow> bounded_command c" using Cons.prems(4) by simp
  obtain E2 evs2 where r: "run E1 cmds = Some (E2, evs2)" "engine_inv E2" "engine_load E2 (Suc n + length cmds)"
    "numbered (me_next_event_sequence E1) evs2" "length cmds \<le> length evs2"
    using Cons.IH [OF e1(1,2) small(2) b dist keys] by blast
  have "run E (cmd # cmds) = Some (E2, evs1 @ evs2)" using p r(1) by simp
  moreover have "length (cmd # cmds) \<le> length (evs1 @ evs2)" using r(5) e1(6) by (cases evs1) auto
  ultimately show ?case using r e1 by (auto simp: numbered_append)
qed simp

subsection \<open>Sample commands and states\<close>

definition sample_new :: "Side \<Rightarrow> ClientOrderId \<Rightarrow> u64 \<Rightarrow> Quantity \<Rightarrow> TimeInForce \<Rightarrow> NewOrderCommand" where
  "sample_new sd c p q tif = \<lparr>nc_command_sequence = c, nc_account_id = 1, nc_client_order_id = c, nc_instrument_id = 7,
     nc_side = sd, nc_price = I64 p, nc_quantity = q, nc_order_type = Limit, nc_time_in_force = tif\<rparr>"

definition sample_engine0 :: MatchingEngine where
  "sample_engine0 = new_engine [7] 4"

text \<open>One resting bid of 10 at 100, then a second one of 5 behind it.\<close>

definition sample_engine1 :: MatchingEngine where
  "sample_engine1 = fst (the (accept_new_order sample_engine0 (sample_new Buy 1 100 10 GTC)))"

definition sample_engine2 :: MatchingEngine where
  "sample_engine2 = fst (the (accept_new_order sample_engine1 (sample_new Buy 2 100 5 GTC)))"

definition sample_order :: "u64 \<Rightarrow> Quantity \<Rightarrow> BookOrder" where
  "sample_order c q = \<lparr>bo_exchange_order_id = c, bo_client_order_id = c, bo_account_id = 1, bo_price = I64 100,
     bo_remaining_quantity = q, bo_side = Buy, bo_time_in_force = GTC\<rparr>"

lemma sample_simps [simp]:
  "nc_account_id (sample_new sd c p q tif) = 1" "nc_client_order_id (sample_new sd c p q tif) = c"
  "nc_instrument_id (sample_new sd c p q tif) = 7" "nc_side (sample_new sd c p q tif) = sd"
  "nc_price (sample_new sd c p q tif) = I64 p" "nc_quantity (sample_new sd c p q tif) = q"
  "nc_time_in_force (sample_new sd c p q tif) = tif"
  by (simp_all add: sample_new_def)

lemma sample_bounds [simp]: "cmd_bounds (I64 100) 10" "cmd_bounds (I64 100) 5" "\<not> I64 100 \<le> 0"
  by (simp_all add: cmd_bounds_def price_ok_def qty_ok_def ival_def i64_order_defs)

lemma sample_engine0:
  "engine_inv sample_engine0" "engine_load sample_engine0 0" "engine_view sample_engine0 = (\<lambda>_ _. [])"
  "me_orders sample_engine0 = Map.empty" "knows_instrument sample_engine0 7"
  by (simp_all add: sample_engine0_def new_engine_inv new_engine_state kMaxInstrumentId_def)

lemma register_counter: "me_next_exchange_order_id (fst (register_instrument E i)) = me_next_exchange_order_id E"
  by (simp add: register_instrument_def Let_def)

lemma sample_oid0: "me_next_exchange_order_id sample_engine0 = 1"
  by (simp add: sample_engine0_def new_engine_def Let_def register_counter empty_engine_def)

lemma knows_view: "engine_inv E \<Longrightarrow> engine_view E i sd \<noteq> [] \<Longrightarrow> knows_instrument E i"
  by (auto simp: engine_view_def engine_books_def split: option.splits if_splits)

lemma sample_engine1:
  "engine_inv sample_engine1" "engine_load sample_engine1 1"
  "engine_view sample_engine1 7 = (\<lambda>_. [])(Buy := [sample_order 1 10])"
  "dom (me_orders sample_engine1) = {(1, 1)}" "knows_instrument sample_engine1 7"
  "me_next_exchange_order_id sample_engine1 = 2"
proof -
  let ?cmd = "sample_new Buy 1 100 10 GTC"
  have v: "new_order_verdict sample_engine0 ?cmd = None"
    using sample_engine0 by (simp add: new_order_verdict_def)
  have o: "new_book_order sample_engine0 ?cmd = sample_order 1 10"
    by (simp add: new_book_order_def book_order_of_def incoming_order_def sample_order_def sample_new_def sample_oid0)
  have spec: "submit_spec (engine_view sample_engine0 (nc_instrument_id ?cmd)) (new_book_order sample_engine0 ?cmd) =
      ((\<lambda>_. [])(Buy := [sample_order 1 10]), [], 10)"
    unfolding o by (simp add: submit_spec_def sample_engine0 enqueue_def sample_order_def fun_eq_iff)
  obtain E' where E': "sample_engine1 = E'" "engine_inv E'" "engine_view E' = (engine_view sample_engine0)(7 := (\<lambda>_. [])(Buy := [sample_order 1 10]))"
    "engine_load E' (Suc 0)" "dom (me_orders E') = {(1, 1)}" "me_next_exchange_order_id E' = 2"
    by (rule accept_new_order_refines [OF sample_engine0(1,2) _ _ v spec])
      (auto simp: sample_engine1_def kNil_def sample_engine0 sample_oid0)
  then show "engine_inv sample_engine1" "engine_load sample_engine1 1"
    "engine_view sample_engine1 7 = (\<lambda>_. [])(Buy := [sample_order 1 10])"
    "dom (me_orders sample_engine1) = {(1, 1)}" "me_next_exchange_order_id sample_engine1 = 2" by simp_all
  then show "knows_instrument sample_engine1 7" by (intro knows_view [of _ _ Buy]) simp_all
qed

lemma sample_engine2:
  "engine_inv sample_engine2" "engine_load sample_engine2 2"
  "engine_view sample_engine2 7 = (\<lambda>_. [])(Buy := [sample_order 1 10, sample_order 2 5])"
  "dom (me_orders sample_engine2) = {(1, 1), (1, 2)}" "knows_instrument sample_engine2 7"
proof -
  let ?cmd = "sample_new Buy 2 100 5 GTC"
  have "(1, 2) \<notin> dom (me_orders sample_engine1)" unfolding sample_engine1(4) by simp
  then have "me_orders sample_engine1 (1, 2) = None" by (simp add: domIff)
  then have v: "new_order_verdict sample_engine1 ?cmd = None"
    using sample_engine1 by (simp add: new_order_verdict_def)
  have o: "new_book_order sample_engine1 ?cmd = sample_order 2 5"
    by (simp add: new_book_order_def book_order_of_def incoming_order_def sample_order_def sample_new_def sample_engine1)
  have spec: "submit_spec (engine_view sample_engine1 (nc_instrument_id ?cmd)) (new_book_order sample_engine1 ?cmd) =
      ((\<lambda>_. [])(Buy := [sample_order 1 10, sample_order 2 5]), [], 5)"
    unfolding o by (simp add: submit_spec_def sample_engine1 enqueue_def sample_order_def fun_eq_iff)
  obtain E' where E': "sample_engine2 = E'" "engine_inv E'" "engine_view E' = (engine_view sample_engine1)(7 := (\<lambda>_. [])(Buy := [sample_order 1 10, sample_order 2 5]))"
    "engine_load E' (Suc (Suc 0))" "dom (me_orders E') = {(1, 2), (1, 1)}"
    by (rule accept_new_order_refines [OF sample_engine1(1,2) _ _ v spec])
      (auto simp: sample_engine2_def kNil_def sample_engine1)
  then show "engine_inv sample_engine2" "engine_load sample_engine2 2"
    "engine_view sample_engine2 7 = (\<lambda>_. [])(Buy := [sample_order 1 10, sample_order 2 5])"
    "dom (me_orders sample_engine2) = {(1, 1), (1, 2)}" by (simp_all add: numeral_2_eq_2 insert_commute)
  then show "knows_instrument sample_engine2 7" by (intro knows_view [of _ _ Buy]) simp_all
qed

subsection \<open>Properties\<close>

text \<open>
  C1. Memory safety, termination and gapless events. From a freshly built engine, any sequence of
  at most \<open>kNil\<close> commands whose prices and quantities are bounded and whose client order ids are
  not reused is processed to the end: no access outside the slab, the ladder or the registry, no
  lookup of a missing directory entry, no endless loop. The engine invariant holds afterwards, the
  events are numbered 1, 2, 3, ... without a gap, and every command produced at least one.
\<close>

theorem engine_run_safe:
  assumes "length cmds \<le> kNil" "\<forall>cmd \<in> set cmds. bounded_command cmd" "distinct (concat (map command_keys cmds))"
  shows "\<exists>E evs. run (new_engine universe expected) cmds = Some (E, evs) \<and> engine_inv E \<and>
    numbered 1 evs \<and> length cmds \<le> length evs"
proof -
  have "set (concat (map command_keys cmds)) \<inter> dom (me_orders (new_engine universe expected)) = {}"
    by (simp add: new_engine_state(3))
  then show ?thesis
    using run_done [OF new_engine_inv new_engine_state(1), of cmds universe expected] assms by (auto simp: new_engine_state(5))
qed

theorem engine_run_safe_witness:
  "\<exists>E evs. run (new_engine [7] 4) [NewOrder (sample_new Buy 1 100 10 GTC), NewOrder (sample_new Sell 2 100 5 IOC)] = Some (E, evs) \<and>
    engine_inv E \<and> numbered 1 evs \<and> Suc (Suc 0) \<le> length evs"
  using engine_run_safe [of "[NewOrder (sample_new Buy 1 100 10 GTC), NewOrder (sample_new Sell 2 100 5 IOC)]" "[7]" 4]
  by (simp add: kNil_def)

text \<open>
  C2. A new order that passes the checks does to the books exactly what price-time-priority
  matching asks for: the two order lists of its instrument become those of \<open>submit_spec\<close>, every other
  instrument keeps its lists, the events are the acceptance, a trade and a book event per fill in
  order, and the added remainder if any, and the directory loses the filled orders and gains
  the resting remainder.
\<close>

theorem new_order_refines_spec:
  assumes "engine_inv E" "engine_load E n" "n < kNil" "cmd_bounds (nc_price cmd) (nc_quantity cmd)"
    and "new_order_verdict E cmd = None"
    and "submit_spec (engine_view E (nc_instrument_id cmd)) (new_book_order E cmd) = (V, fills, m)"
  shows "\<exists>E'. process E (NewOrder cmd) = Some (E',
      accepted_event cmd (me_next_event_sequence E) (me_next_exchange_order_id E) #
      submit_events (me_next_event_sequence E + 1) (nc_command_sequence cmd)
        (incoming_order cmd (me_next_exchange_order_id E) (me_next_priority E)) fills m) \<and>
    engine_inv E' \<and> engine_view E' = (engine_view E)(nc_instrument_id cmd := V) \<and>
    dom (me_orders E') = dom (me_orders E) - filled_keys fills \<union>
       (if nc_time_in_force cmd = GTC \<and> m \<noteq> 0 then {(nc_account_id cmd, nc_client_order_id cmd)} else {})"
  by (rule accept_new_order_refines [OF assms])
    (use process_new_order_verdict [OF assms(1), of cmd] assms(5) in simp)

theorem new_order_refines_spec_witness:
  "\<exists>E'. process sample_engine1 (NewOrder (sample_new Sell 2 100 4 GTC)) = Some (E',
      accepted_event (sample_new Sell 2 100 4 GTC) (me_next_event_sequence sample_engine1) 2 #
      submit_events (me_next_event_sequence sample_engine1 + 1) 2
        (incoming_order (sample_new Sell 2 100 4 GTC) 2 (me_next_priority sample_engine1)) [(sample_order 1 10, 4)] 0) \<and>
    engine_inv E' \<and> engine_view E' 7 Buy = [sample_order 1 6] \<and> engine_view E' 7 Sell = []"
proof -
  let ?cmd = "sample_new Sell 2 100 4 GTC"
  have "(1, 2) \<notin> dom (me_orders sample_engine1)" unfolding sample_engine1(4) by simp
  then have v: "new_order_verdict sample_engine1 ?cmd = None"
    using sample_engine1(5) by (simp add: new_order_verdict_def domIff)
  have spec: "submit_spec (engine_view sample_engine1 (nc_instrument_id ?cmd)) (new_book_order sample_engine1 ?cmd) =
      ((\<lambda>_. [])(Buy := [sample_order 1 6]), [(sample_order 1 10, 4)], 0)"
    by (simp add: submit_spec_def sample_engine1 new_book_order_def book_order_of_def incoming_order_def
        sample_order_def crosses_def fun_eq_iff)
  have b: "cmd_bounds (nc_price ?cmd) (nc_quantity ?cmd)" by (simp add: cmd_bounds_def price_ok_def qty_ok_def ival_def)
  have c: "nc_command_sequence ?cmd = 2" by (simp add: sample_new_def)
  from new_order_refines_spec [OF sample_engine1(1,2) _ b v spec] show ?thesis
    by (auto simp: kNil_def sample_engine1(6) c)
qed

text \<open>What the invariant says of one book, in terms of the lists the code reads.\<close>

lemma inv_uncrossed_and_sorted:
  assumes "engine_inv E" "knows_instrument E i"
  shows "\<exists>b bids asks. book_for E i = Some b \<and> all_bids b = Some bids \<and> all_asks b = Some asks \<and>
    sorted_wrt (\<lambda>x y. bo_price x \<ge> bo_price y) bids \<and> sorted_wrt (\<lambda>x y. bo_price x \<le> bo_price y) asks \<and>
    (\<forall>x \<in> set bids. \<forall>y \<in> set asks. bo_price x < bo_price y)"
proof -
  obtain b where b: "engine_books E i = Some b" "book_for E i = Some b" by (rule known_book [OF assms])
  have bok: "book_ok b" "book_inv b" using engine_invD [OF assms(1)] b(1) by auto
  have "all_bids b = Some (view b Buy)" "all_asks b = Some (view b Sell)"
    using book.all_law [OF bok(2)] by (simp_all add: all_bids_def all_asks_def book.orders_on_def)
  moreover have "sorted_wrt (\<lambda>x y. bo_price x \<ge> bo_price y) (view b Buy)" "sorted_wrt (\<lambda>x y. bo_price x \<le> bo_price y) (view b Sell)"
    using view_in_priority [OF bok(2), of Buy] view_in_priority [OF bok(2), of Sell] by (simp_all add: in_priority_def not_less)
  ultimately show ?thesis using b(2) bok(1) by (auto simp: book_ok_def uncrossed_def)
qed

text \<open>
  C3. The book is never crossed and always in priority order: from a freshly built engine, after any
  sequence of at most \<open>kNil\<close> bounded commands that do not reuse client order ids, the bids and the
  asks of every registered instrument can be read, bids descend in price, asks ascend, and every bid
  is below every ask. The commands are arbitrary otherwise, so this holds at every point of a run.
\<close>

theorem book_uncrossed_and_sorted:
  assumes "length cmds \<le> kNil" "\<forall>cmd \<in> set cmds. bounded_command cmd" "distinct (concat (map command_keys cmds))"
    and "i \<in> set universe" "i \<le> kMaxInstrumentId"
  shows "\<exists>E evs b bids asks. run (new_engine universe expected) cmds = Some (E, evs) \<and>
    book_for E i = Some b \<and> all_bids b = Some bids \<and> all_asks b = Some asks \<and>
    sorted_wrt (\<lambda>x y. bo_price x \<ge> bo_price y) bids \<and> sorted_wrt (\<lambda>x y. bo_price x \<le> bo_price y) asks \<and>
    (\<forall>x \<in> set bids. \<forall>y \<in> set asks. bo_price x < bo_price y)"
proof -
  have "set (concat (map command_keys cmds)) \<inter> dom (me_orders (new_engine universe expected)) = {}"
    by (simp add: new_engine_state(3))
  then obtain E evs where r: "run (new_engine universe expected) cmds = Some (E, evs)" "engine_inv E"
    using run_done [OF new_engine_inv new_engine_state(1), of cmds universe expected] assms(1-3) by auto
  then have "knows_instrument E i" using run_knows [OF r(1)] new_engine_state(4) assms(4,5) by blast
  from inv_uncrossed_and_sorted [OF r(2) this] r(1) show ?thesis by blast
qed

theorem book_uncrossed_and_sorted_witness:
  "\<exists>E evs b bids asks. run (new_engine [7] 4)
      [NewOrder (sample_new Buy 1 100 10 GTC), NewOrder (sample_new Sell 2 100 5 GTC)] = Some (E, evs) \<and>
    book_for E 7 = Some b \<and> all_bids b = Some bids \<and> all_asks b = Some asks \<and>
    sorted_wrt (\<lambda>x y. bo_price x \<ge> bo_price y) bids \<and> sorted_wrt (\<lambda>x y. bo_price x \<le> bo_price y) asks \<and>
    (\<forall>x \<in> set bids. \<forall>y \<in> set asks. bo_price x < bo_price y)"
  by (rule book_uncrossed_and_sorted) (simp_all add: kNil_def kMaxInstrumentId_def)

subsection \<open>Matching\<close>

fun traded_quantity :: "ExchangeEvent list \<Rightarrow> nat" where
  "traded_quantity [] = 0"
| "traded_quantity (TradeExecuted t # evs) = unat (te_quantity t) + traded_quantity evs"
| "traded_quantity (_ # evs) = traded_quantity evs"

lemma traded_fill_events [simp]: "traded_quantity (fill_events seq cs inc fills) = filled fills"
  by (induction seq cs inc fills rule: fill_events.induct) (auto simp: trade_event_def Let_def)

lemma traded_append [simp]: "traded_quantity (xs @ ys) = traded_quantity xs + traded_quantity ys"
  by (induction xs rule: traded_quantity.induct) simp_all

lemma traded_rest_events [simp]: "traded_quantity (rest_events seq ord) = 0"
  by (simp add: rest_events_def)

lemma traded_submit_events [simp]: "traded_quantity (submit_events seq cs ord fills n) = filled fills"
  by (simp add: submit_events_def)

lemma match_facts:
  assumes "engine_inv E" "knows_instrument E (er_instrument_id inc)" "book_for E (er_instrument_id inc) = Some b"
    "all_of b (contra (er_side inc)) = Some os"
  shows "engine_books E (er_instrument_id inc) = Some b" "os = view b (contra (er_side inc))"
    "in_priority (contra (er_side inc)) bo_price os"
proof -
  show b: "engine_books E (er_instrument_id inc) = Some b" using assms(2,3) by (simp add: engine_books_def)
  have bi: "book_inv b" using engine_invD(4) [OF assms(1) b] .
  show os: "os = view b (contra (er_side inc))" using book.all_law [OF bi] assms(4) by (simp add: book.orders_on_def)
  show "in_priority (contra (er_side inc)) bo_price os" using view_in_priority [OF bi] os by simp
qed

text \<open>
  C4. Price-time priority. The loop always ends, and the orders it trades against are the front of
  the contra side in priority order: each is filled completely before the next is touched, only
  the last may keep a remainder, every one crosses the incoming limit price, and if the incoming
  order is left with a remainder no order that still rests on the contra side crosses it.
\<close>

theorem matching_price_time_priority:
  assumes "engine_inv E" "knows_instrument E (er_instrument_id inc)" "book_for E (er_instrument_id inc) = Some b"
    "all_of b (contra (er_side inc)) = Some os"
  shows "\<exists>E' inc' fills rest. match_and_rest E inc cs = Some (E', inc', fill_events (me_next_event_sequence E) cs inc fills) \<and>
    os = map fst fills @ rest \<and>
    (\<forall>(c, q) \<in> set (butlast fills). q = bo_remaining_quantity c) \<and>
    (\<forall>(c, q) \<in> set fills. q \<le> bo_remaining_quantity c \<and> crosses (contra (er_side inc)) (er_price inc) (bo_price c)) \<and>
    (er_remaining_quantity inc' \<noteq> 0 \<longrightarrow> (\<forall>(c, q) \<in> set fills. q = bo_remaining_quantity c) \<and>
       (\<forall>c \<in> set rest. \<not> crosses (contra (er_side inc)) (er_price inc) (bo_price c)))"
proof -
  note f = match_facts [OF assms]
  obtain fills n os' where m: "match_spec (er_side inc) (er_price inc) (er_remaining_quantity inc) os = (fills, n, os')"
    by (metis prod_cases3)
  obtain E' where E': "match_and_rest E inc cs = Some (E', inc\<lparr>er_remaining_quantity := n\<rparr>, fill_events (me_next_event_sequence E) cs inc fills)"
    using match_and_rest_refines [OF assms(1) f(1), of fills n os' cs] m f(2) by auto
  obtain rest where rest: "os = map fst fills @ rest"
    "if \<forall>(c, q) \<in> set fills. q = bo_remaining_quantity c then os' = rest
     else \<exists>full c q. fills = full @ [(c, q)] \<and> q < bo_remaining_quantity c \<and> n = 0 \<and>
       (\<forall>(c, q) \<in> set full. q = bo_remaining_quantity c) \<and>
       os' = c\<lparr>bo_remaining_quantity := bo_remaining_quantity c - q\<rparr> # rest"
    using match_spec_prefix [OF m] by blast
  have "\<forall>(c, q) \<in> set (butlast fills). q = bo_remaining_quantity c"
    using rest(2) by (auto split: if_splits dest: in_set_butlastD)
  moreover have "n \<noteq> 0 \<longrightarrow> (\<forall>(c, q) \<in> set fills. q = bo_remaining_quantity c) \<and>
      (\<forall>c \<in> set rest. \<not> crosses (contra (er_side inc)) (er_price inc) (bo_price c))"
    using rest(2) match_spec_exhausts [OF m f(3)] by (auto split: if_splits)
  ultimately show ?thesis
    using E' rest(1) match_spec_crosses [OF m]
    by (intro exI [of _ E'] exI [of _ "inc\<lparr>er_remaining_quantity := n\<rparr>"] exI [of _ fills] exI [of _ rest]) auto
qed

theorem matching_price_time_priority_witness:
  "\<exists>b E' inc' fills rest. book_for sample_engine2 7 = Some b \<and>
    match_and_rest sample_engine2 (incoming_order (sample_new Sell 3 90 12 IOC) 3 3) 3 =
      Some (E', inc', fill_events (me_next_event_sequence sample_engine2) 3 (incoming_order (sample_new Sell 3 90 12 IOC) 3 3) fills) \<and>
    [sample_order 1 10, sample_order 2 5] = map fst fills @ rest \<and>
    (\<forall>(c, q) \<in> set (butlast fills). q = bo_remaining_quantity c)"
proof -
  let ?inc = "incoming_order (sample_new Sell 3 90 12 IOC) 3 3"
  have o: "er_instrument_id ?inc = 7" "er_side ?inc = Sell" by (simp_all add: incoming_order_def)
  obtain b where b: "engine_books sample_engine2 7 = Some b" "book_for sample_engine2 7 = Some b"
    by (rule known_book [OF sample_engine2(1,5)])
  have "all_of b Buy = Some [sample_order 1 10, sample_order 2 5]"
    using book.all_law [OF engine_invD(4) [OF sample_engine2(1) b(1)], of Buy] sample_engine2(3) b(1)
    by (simp add: book.orders_on_def [symmetric])
  then show ?thesis
    using matching_price_time_priority [of sample_engine2 ?inc b "[sample_order 1 10, sample_order 2 5]" 3] o b(2) sample_engine2(1,5)
    by (simp del: butlast.simps) blast
qed

text \<open>
  Conservation. The trades of one matching pass move exactly the quantity the incoming order
  loses, which is exactly the quantity the contra side loses; the incoming order's own side and
  all other instruments are untouched.
\<close>

theorem matching_conserves_quantity:
  assumes "engine_inv E" "knows_instrument E (er_instrument_id inc)" "book_for E (er_instrument_id inc) = Some b"
    "all_of b (contra (er_side inc)) = Some os"
  shows "\<exists>E' inc' evs b' os'. match_and_rest E inc cs = Some (E', inc', evs) \<and>
    book_for E' (er_instrument_id inc) = Some b' \<and> all_of b' (contra (er_side inc)) = Some os' \<and>
    all_of b' (er_side inc) = all_of b (er_side inc) \<and>
    (\<forall>i. i \<noteq> er_instrument_id inc \<longrightarrow> engine_view E' i = engine_view E i) \<and>
    unat (er_remaining_quantity inc) = traded_quantity evs + unat (er_remaining_quantity inc') \<and>
    total_quantity os = traded_quantity evs + total_quantity os'"
proof -
  note f = match_facts [OF assms]
  obtain fills n os' where m: "match_spec (er_side inc) (er_price inc) (er_remaining_quantity inc) os = (fills, n, os')"
    by (metis prod_cases3)
  obtain E' b' where E': "match_and_rest E inc cs = Some (E', inc\<lparr>er_remaining_quantity := n\<rparr>, fill_events (me_next_event_sequence E) cs inc fills)"
    "engine_inv E'" "engine_books E' = (engine_books E)(er_instrument_id inc \<mapsto> b')" "view b' = (view b)(contra (er_side inc) := os')"
    using match_and_rest_refines [OF assms(1) f(1), of fills n os' cs] m f(2) by auto
  have b': "engine_books E' (er_instrument_id inc) = Some b'" using E'(3) by simp
  have "book_for E' (er_instrument_id inc) = Some b'" using engine_books_known [OF engine_invD(1) [OF E'(2)] b'] by simp
  moreover have "all_of b' sd = Some (view b' sd)" "all_of b sd = Some (view b sd)" for sd
    using book.all_law [OF engine_invD(4) [OF E'(2) b']] book.all_law [OF engine_invD(4) [OF assms(1) f(1)]]
    by (simp_all add: book.orders_on_def)
  moreover have "engine_view E' i = engine_view E i" if "i \<noteq> er_instrument_id inc" for i
    using engine_view_update [OF E'(3)] that by simp
  ultimately show ?thesis
    using E'(1,4) match_spec_conserves [OF m] by (intro exI [of _ E'] exI conjI) auto
qed

theorem matching_conserves_quantity_witness:
  "\<exists>b E' inc' evs b' os'. book_for sample_engine2 7 = Some b \<and>
    match_and_rest sample_engine2 (incoming_order (sample_new Sell 3 90 12 IOC) 3 3) 3 = Some (E', inc', evs) \<and>
    all_of b' Buy = Some os' \<and> (12 :: nat) = traded_quantity evs + unat (er_remaining_quantity inc') \<and>
    (15 :: nat) = traded_quantity evs + total_quantity os'"
proof -
  let ?inc = "incoming_order (sample_new Sell 3 90 12 IOC) 3 3"
  have o: "er_instrument_id ?inc = 7" "er_side ?inc = Sell" "er_remaining_quantity ?inc = 12" by (simp_all add: incoming_order_def)
  obtain b where b: "engine_books sample_engine2 7 = Some b" "book_for sample_engine2 7 = Some b"
    by (rule known_book [OF sample_engine2(1,5)])
  have "all_of b Buy = Some [sample_order 1 10, sample_order 2 5]"
    using book.all_law [OF engine_invD(4) [OF sample_engine2(1) b(1)], of Buy] sample_engine2(3) b(1)
    by (simp add: book.orders_on_def [symmetric])
  moreover have "total_quantity [sample_order 1 10, sample_order 2 5] = 15" by (simp add: sample_order_def)
  ultimately show ?thesis
    using matching_conserves_quantity [of sample_engine2 ?inc b "[sample_order 1 10, sample_order 2 5]" 3] o b(2) sample_engine2(1,5)
    by simp blast
qed

subsection \<open>Handlers\<close>

text \<open>
  C6. Fill-or-kill is all or nothing: a valid FOK order is rejected with \<open>InsufficientLiquidity\<close> and
  changes nothing but the event counter when less than its quantity crosses; otherwise its trades
  add up to its whole quantity and nothing of it rests.
\<close>

theorem fok_all_or_nothing:
  assumes "engine_inv E" "engine_load E n" "n < kNil" "cmd_bounds (nc_price cmd) (nc_quantity cmd)"
    and "nc_time_in_force cmd = FOK" "knows_instrument E (nc_instrument_id cmd)" "0 < nc_price cmd" "nc_quantity cmd \<noteq> 0"
    and "me_orders E (nc_account_id cmd, nc_client_order_id cmd) = None"
  shows "if crossing (contra (nc_side cmd)) (nc_price cmd) (engine_view E (nc_instrument_id cmd) (contra (nc_side cmd))) < unat (nc_quantity cmd)
    then process E (NewOrder cmd) = Some (reject_new_order E cmd InsufficientLiquidity)
    else \<exists>E' evs. process E (NewOrder cmd) = Some (E', evs) \<and> traded_quantity evs = unat (nc_quantity cmd) \<and>
      engine_view E' (nc_instrument_id cmd) (nc_side cmd) = engine_view E (nc_instrument_id cmd) (nc_side cmd) \<and>
      me_orders E' (nc_account_id cmd, nc_client_order_id cmd) = None"
proof (cases "crossing (contra (nc_side cmd)) (nc_price cmd) (engine_view E (nc_instrument_id cmd) (contra (nc_side cmd))) < unat (nc_quantity cmd)")
  case True
  then have "new_order_verdict E cmd = Some InsufficientLiquidity" using assms(5-9) by (simp add: new_order_verdict_def)
  with True process_new_order_verdict [OF assms(1), of cmd] show ?thesis by simp
next
  case False
  then have v: "new_order_verdict E cmd = None" using assms(5-9) by (simp add: new_order_verdict_def)
  let ?i = "nc_instrument_id cmd" and ?sd = "nc_side cmd"
  obtain b where b: "engine_books E ?i = Some b" using known_book [OF assms(1,6)] by blast
  have prio: "in_priority (contra ?sd) bo_price (engine_view E ?i (contra ?sd))"
    using view_in_priority [OF engine_invD(4) [OF assms(1) b]] b by simp
  obtain fills m os where m: "match_spec ?sd (nc_price cmd) (nc_quantity cmd) (engine_view E ?i (contra ?sd)) = (fills, m, os)"
    by (metis prod_cases3)
  have "m = 0" using match_spec_remaining [OF m prio] False by (simp add: unat_eq_zero)
  then have full: "filled fills = unat (nc_quantity cmd)" using match_spec_conserves(1) [OF m] by simp
  let ?o = "new_book_order E cmd"
  have o: "bo_side ?o = ?sd" "bo_price ?o = nc_price cmd" "bo_remaining_quantity ?o = nc_quantity cmd" "bo_time_in_force ?o = FOK"
    using assms(5) by (simp_all add: new_book_order_def book_order_of_def incoming_order_def)
  have spec: "submit_spec (engine_view E ?i) ?o = ((engine_view E ?i)(contra ?sd := os), fills, m)"
    using submit_spec_eq [of ?o "engine_view E ?i" fills m os] m unfolding o by simp
  obtain E' where E': "accept_new_order E cmd = Some (E',
      accepted_event cmd (me_next_event_sequence E) (me_next_exchange_order_id E) #
      submit_events (me_next_event_sequence E + 1) (nc_command_sequence cmd)
        (incoming_order cmd (me_next_exchange_order_id E) (me_next_priority E)) fills m)"
    "engine_view E' = (engine_view E)(?i := (engine_view E ?i)(contra ?sd := os))"
    "dom (me_orders E') = dom (me_orders E) - filled_keys fills \<union>
       (if nc_time_in_force cmd = GTC \<and> m \<noteq> 0 then {(nc_account_id cmd, nc_client_order_id cmd)} else {})"
    using accept_new_order_refines [OF assms(1-4) v spec] by metis
  have "(nc_account_id cmd, nc_client_order_id cmd) \<notin> dom (me_orders E')" unfolding E'(3) using assms(5,9) by (simp add: domIff)
  then show ?thesis
    using False full E'(1,2) process_new_order_verdict [OF assms(1), of cmd] v
    by (simp add: accepted_event_def domIff)
qed

theorem fok_all_or_nothing_witness:
  "\<exists>E' evs. process sample_engine2 (NewOrder (sample_new Sell 3 90 12 FOK)) = Some (E', evs) \<and> traded_quantity evs = 12 \<and>
      engine_view E' 7 Sell = [] \<and> me_orders E' (1, 3) = None"
proof -
  have c: "crossing Buy (I64 90) (engine_view sample_engine2 7 Buy) = 15"
    using sample_engine2(3) by (simp add: sample_order_def crosses_def i64_order_defs ival_def)
  have "(1, 3) \<notin> dom (me_orders sample_engine2)" unfolding sample_engine2(4) by simp
  then have "me_orders sample_engine2 (1, 3) = None" by (simp add: domIff)
  moreover have "cmd_bounds (I64 90) 12" "0 < I64 90"
    by (simp_all add: cmd_bounds_def price_ok_def qty_ok_def ival_def i64_order_defs)
  ultimately show ?thesis
    using fok_all_or_nothing [of sample_engine2 2 "sample_new Sell 3 90 12 FOK"] sample_engine2(1,2,3,5) c
    by (simp add: kNil_def)
qed

text \<open>
  C7. A cancel of a live order removes that order and nothing else: every other order of both sides
  keeps its place, the directory loses exactly that entry, and the two events name the order's
  exchange id, side and price.
\<close>

theorem cancel_removes_one_order:
  assumes "engine_inv E" "cancel_verdict E cmd = None"
  shows "\<exists>E' removed. process E (CancelOrder cmd) = Some (E', cancel_events (me_next_event_sequence E) cmd removed) \<and>
    removed \<in> set (engine_view E (cc_instrument_id cmd) (bo_side removed)) \<and>
    order_key removed = (cc_account_id cmd, cc_client_order_id cmd) \<and> engine_inv E' \<and>
    engine_view E' = (engine_view E)(cc_instrument_id cmd :=
      without_key (cc_account_id cmd, cc_client_order_id cmd) (engine_view E (cc_instrument_id cmd))) \<and>
    me_orders E' = (me_orders E)((cc_account_id cmd, cc_client_order_id cmd) := None)"
proof -
  obtain n where "engine_load E n"
  proof
    show "engine_load E kNil"
      unfolding engine_load_def using book.length_list engine_invD(4) [OF assms(1)] by blast
  qed
  from process_cancel_refines [OF assms(1) this assms(2)] show ?thesis by (metis process.simps(2))
qed

definition sample_cancel :: CancelOrderCommand where
  "sample_cancel = \<lparr>cc_command_sequence = 4, cc_account_id = 1, cc_client_order_id = 1, cc_instrument_id = 7\<rparr>"

lemma sample_live:
  assumes "k \<in> {(1, 1), (1, 2)}"
  obtains ref where "me_orders sample_engine2 k = Some ref" "ref_instrument_id ref = 7"
proof -
  obtain b where b: "engine_books sample_engine2 7 = Some b" using known_book [OF sample_engine2(1,5)] by blast
  have v: "view b Buy = [sample_order 1 10, sample_order 2 5]" using sample_engine2(3) b by simp
  have "k \<in> order_key ` set (view b Buy)" using assms by (auto simp: v order_key_def sample_order_def)
  then obtain x where "x \<in> set (slots b Buy)" "k = order_key (slot_order b x)" by (auto simp: book.orders_on_def)
  then show ?thesis
    using that dir_invD(2) [OF engine_invD(3) [OF sample_engine2(1)] b, of x] book.resting_slots_iff by blast
qed

theorem cancel_removes_one_order_witness:
  "\<exists>E' removed. process sample_engine2 (CancelOrder sample_cancel) =
      Some (E', cancel_events (me_next_event_sequence sample_engine2) sample_cancel removed) \<and>
    order_key removed = (1, 1) \<and> engine_view E' 7 Buy = [sample_order 2 5]"
proof -
  obtain ref where "me_orders sample_engine2 (1, 1) = Some ref" "ref_instrument_id ref = 7" by (rule sample_live [of "(1, 1)"]) auto
  then have "cancel_verdict sample_engine2 sample_cancel = None"
    using sample_engine2(5) by (simp add: cancel_verdict_def sample_cancel_def)
  moreover have "without_key (1, 1) (engine_view sample_engine2 7) Buy = [sample_order 2 5]"
    by (simp add: without_key_def sample_engine2(3) order_key_def sample_order_def)
  ultimately show ?thesis
    using cancel_removes_one_order [OF sample_engine2(1), of sample_cancel] by (auto simp: sample_cancel_def)
qed

lemma replace_target:
  assumes inv: "engine_inv E" and verd: "replace_verdict E cmd = None"
    and old: "old \<in> set (engine_view E (rc_instrument_id cmd) sd)"
    and key: "order_key old = (rc_account_id cmd, rc_original_client_order_id cmd)"
  obtains ref b where "me_orders E (rc_account_id cmd, rc_original_client_order_id cmd) = Some ref"
    "ref_instrument_id ref = rc_instrument_id cmd" "knows_instrument E (rc_instrument_id cmd)"
    "0 < rc_new_price cmd" "rc_new_quantity cmd \<noteq> 0"
    "engine_books E (ref_instrument_id ref) = Some b" "old = slot_order b (ref_handle ref)"
    "ref_handle ref \<in> set (slots b (bo_side old))"
    "process E (ReplaceOrder cmd) = (if rc_new_price cmd = bo_price old \<and> rc_new_quantity cmd \<le> bo_remaining_quantity old
       then replace_in_place E b cmd ref old else replace_requeue E b cmd ref old)"
proof -
  let ?k = "(rc_account_id cmd, rc_original_client_order_id cmd)"
  obtain ref where ref: "me_orders E ?k = Some ref" "ref_instrument_id ref = rc_instrument_id cmd"
    and v: "knows_instrument E (rc_instrument_id cmd)" "\<not> rc_new_price cmd \<le> 0" "rc_new_quantity cmd \<noteq> 0"
    using verd by (auto simp: replace_verdict_def split: if_splits option.splits)
  obtain b where b: "engine_books E (ref_instrument_id ref) = Some b" "book_for E (ref_instrument_id ref) = Some b"
    "ref_handle ref \<in> set (slots b (bo_side (slot_order b (ref_handle ref))))"
    and k: "\<And>y. y \<in> book.resting_slots b \<Longrightarrow> order_key (slot_order b y) = ?k \<longleftrightarrow> y = ref_handle ref"
    using live_order [OF inv ref(1)] by metis
  obtain y where y: "y \<in> set (slots b sd)" "old = slot_order b y" using old b(1) ref(2) by (auto simp: book.orders_on_def)
  then have o: "old = slot_order b (ref_handle ref)" using k [of y] book.resting_slots_iff key by blast
  have "process E (ReplaceOrder cmd) = (if rc_new_price cmd = bo_price old \<and> rc_new_quantity cmd \<le> bo_remaining_quantity old
       then replace_in_place E b cmd ref old else replace_requeue E b cmd ref old)"
    using v ref b(2) book.at_law [OF engine_invD(4) [OF inv b(1)] b(3)] o by (simp add: process_replace_def)
  then show ?thesis using that ref v b(1,3) o by simp
qed

text \<open>
  C8. The replace policy, priority kept: a replace at the same price with a quantity not above what
  is left edits the order where it stands. Both order lists keep their orders in place, only this
  order's remaining quantity and client order id change, its exchange order id survives, and the
  directory finds it under the new id.
\<close>

theorem replace_keeps_priority:
  assumes "engine_inv E" "replace_verdict E cmd = None" "replace_fresh E cmd"
    and "old \<in> set (engine_view E (rc_instrument_id cmd) sd)"
    and "order_key old = (rc_account_id cmd, rc_original_client_order_id cmd)"
    and "rc_new_price cmd = bo_price old" "rc_new_quantity cmd \<le> bo_remaining_quantity old"
  shows "\<exists>E' ref. process E (ReplaceOrder cmd) = Some (E',
      [replaced_event cmd (me_next_event_sequence E) (bo_exchange_order_id old),
       BookOrderReduced \<lparr>bd_event_sequence = me_next_event_sequence E + 1, bd_instrument_id = rc_instrument_id cmd,
          bd_exchange_order_id = bo_exchange_order_id old, bd_side = bo_side old,
          bd_price = bo_price old, bd_new_remaining_quantity = rc_new_quantity cmd\<rparr>]) \<and>
    engine_inv E' \<and> engine_view E' = (engine_view E)(rc_instrument_id cmd :=
      rewrite_key (order_key old) (rc_new_quantity cmd) (rc_new_client_order_id cmd) (engine_view E (rc_instrument_id cmd))) \<and>
    me_orders E (order_key old) = Some ref \<and>
    me_orders E' = (me_orders E)(order_key old := None, (rc_account_id cmd, rc_new_client_order_id cmd) \<mapsto> ref)"
proof -
  have load: "engine_load E kNil"
    unfolding engine_load_def using book.length_list engine_invD(4) [OF assms(1)] by blast
  obtain ref b where t: "me_orders E (order_key old) = Some ref" "ref_instrument_id ref = rc_instrument_id cmd"
    "rc_new_quantity cmd \<noteq> 0" "engine_books E (ref_instrument_id ref) = Some b" "old = slot_order b (ref_handle ref)"
    "process E (ReplaceOrder cmd) = replace_in_place E b cmd ref old"
    using replace_target [OF assms(1,2,4,5)] assms(5-7) by metis
  from replace_in_place_refines [OF assms(1) load t(1,4,5) assms(5) t(2,3) assms(7,3)]
  show ?thesis unfolding t(6) using t(1) by metis
qed

definition sample_replace :: "ClientOrderId \<Rightarrow> u64 \<Rightarrow> Quantity \<Rightarrow> ReplaceOrderCommand" where
  "sample_replace c p q = \<lparr>rc_command_sequence = 5, rc_account_id = 1, rc_original_client_order_id = 1,
     rc_new_client_order_id = c, rc_instrument_id = 7, rc_new_price = I64 p, rc_new_quantity = q\<rparr>"

lemma sample_replace_verdict:
  "0 < I64 p \<Longrightarrow> q \<noteq> 0 \<Longrightarrow> replace_verdict sample_engine2 (sample_replace c p q) = None"
  using sample_engine2(5) by (rule_tac sample_live [of "(1, 1)"]) (auto simp: replace_verdict_def sample_replace_def)

lemma sample_price: "0 < I64 100" "0 < I64 101"
  by (simp_all add: i64_order_defs ival_def)

lemma sample_replace_fresh: "replace_fresh sample_engine2 (sample_replace 3 p q)"
proof -
  have "(1, 3) \<notin> dom (me_orders sample_engine2)" unfolding sample_engine2(4) by simp
  then show ?thesis by (simp add: replace_fresh_def sample_replace_def domIff)
qed

theorem replace_keeps_priority_witness:
  "\<exists>E' evs. process sample_engine2 (ReplaceOrder (sample_replace 3 100 8)) = Some (E', evs) \<and> engine_inv E' \<and>
    engine_view E' 7 Buy = [(sample_order 1 8)\<lparr>bo_client_order_id := 3\<rparr>, sample_order 2 5]"
proof -
  let ?cmd = "sample_replace 3 100 8"
  have a: "sample_order 1 10 \<in> set (engine_view sample_engine2 (rc_instrument_id ?cmd) Buy)"
    using sample_engine2(3) by (simp add: sample_replace_def)
  have k: "order_key (sample_order 1 10) = (rc_account_id ?cmd, rc_original_client_order_id ?cmd)"
    and p: "rc_new_price ?cmd = bo_price (sample_order 1 10)" "rc_new_quantity ?cmd \<le> bo_remaining_quantity (sample_order 1 10)"
    by (simp_all add: order_key_def sample_order_def sample_replace_def)
  have "replace_verdict sample_engine2 ?cmd = None" using sample_price by (intro sample_replace_verdict) simp_all
  from replace_keeps_priority [OF sample_engine2(1) this sample_replace_fresh a k p] show ?thesis
    by (auto simp: sample_replace_def sample_engine2(3) rewrite_key_def order_key_def sample_order_def)
qed

text \<open>
  C9. The replace policy, priority lost: any other valid replace is cancel-plus-new. The old order
  leaves the book, and the replacement, under a fresh exchange order id, is submitted like a new
  order: it trades if it crosses, and its remainder queues behind its peers.
\<close>

theorem replace_requeues:
  assumes "engine_inv E" "engine_load E n" "n < kNil" "cmd_bounds (rc_new_price cmd) (rc_new_quantity cmd)"
    and "replace_verdict E cmd = None" "replace_fresh E cmd"
    and "old \<in> set (engine_view E (rc_instrument_id cmd) sd)"
    and "order_key old = (rc_account_id cmd, rc_original_client_order_id cmd)"
    and "rc_new_price cmd \<noteq> bo_price old \<or> bo_remaining_quantity old < rc_new_quantity cmd"
    and "submit_spec (without_key (order_key old) (engine_view E (rc_instrument_id cmd)))
      (book_order_of (replacement_order cmd old (me_next_exchange_order_id E) (me_next_priority E))) = (V, fills, m)"
  shows "\<exists>E'. process E (ReplaceOrder cmd) = Some (E',
      replaced_event cmd (me_next_event_sequence E) (me_next_exchange_order_id E) #
      BookOrderRemoved \<lparr>bm_event_sequence = me_next_event_sequence E + 1, bm_instrument_id = rc_instrument_id cmd,
         bm_exchange_order_id = bo_exchange_order_id old, bm_side = bo_side old, bm_price = bo_price old\<rparr> #
      submit_events (me_next_event_sequence E + 2) (rc_command_sequence cmd)
        (replacement_order cmd old (me_next_exchange_order_id E) (me_next_priority E)) fills m) \<and>
    engine_inv E' \<and> engine_view E' = (engine_view E)(rc_instrument_id cmd := V)"
proof -
  have "\<not> (rc_new_price cmd = bo_price old \<and> rc_new_quantity cmd \<le> bo_remaining_quantity old)" using assms(9) by auto
  then obtain ref b where t: "me_orders E (order_key old) = Some ref" "ref_instrument_id ref = rc_instrument_id cmd"
    "0 < rc_new_price cmd" "engine_books E (ref_instrument_id ref) = Some b" "old = slot_order b (ref_handle ref)"
    "process E (ReplaceOrder cmd) = replace_requeue E b cmd ref old"
    using replace_target [OF assms(1,5,7,8)] assms(8) by metis
  from replace_requeue_refines [OF assms(1-3) t(1,4,5) assms(8) t(2) assms(4) t(3) assms(6) refl assms(10)]
  show ?thesis unfolding t(6) by metis
qed

theorem replace_requeues_witness:
  "\<exists>E' evs. process sample_engine2 (ReplaceOrder (sample_replace 3 100 20)) = Some (E', evs) \<and> engine_inv E' \<and>
    map bo_client_order_id (engine_view E' 7 Buy) = [2, 3]"
proof -
  let ?cmd = "sample_replace 3 100 20"
  let ?ord = "book_order_of (replacement_order ?cmd (sample_order 1 10) (me_next_exchange_order_id sample_engine2) (me_next_priority sample_engine2))"
  have a: "sample_order 1 10 \<in> set (engine_view sample_engine2 (rc_instrument_id ?cmd) Buy)"
    using sample_engine2(3) by (simp add: sample_replace_def)
  have k: "order_key (sample_order 1 10) = (rc_account_id ?cmd, rc_original_client_order_id ?cmd)"
    and q: "rc_new_price ?cmd \<noteq> bo_price (sample_order 1 10) \<or> bo_remaining_quantity (sample_order 1 10) < rc_new_quantity ?cmd"
    by (simp_all add: order_key_def sample_order_def sample_replace_def)
  have bd: "cmd_bounds (rc_new_price ?cmd) (rc_new_quantity ?cmd)"
    by (simp add: sample_replace_def cmd_bounds_def price_ok_def qty_ok_def ival_def)
  have v: "replace_verdict sample_engine2 ?cmd = None" using sample_price by (intro sample_replace_verdict) simp_all
  have spec: "submit_spec (without_key (order_key (sample_order 1 10)) (engine_view sample_engine2 (rc_instrument_id ?cmd))) ?ord =
      ((\<lambda>_. [])(Buy := [sample_order 2 5, ?ord]), [], 20)"
    by (simp add: submit_spec_def without_key_def sample_engine2(3) order_key_def sample_order_def sample_replace_def
        replacement_order_def book_order_of_def enqueue_def fun_eq_iff)
  have "map bo_client_order_id [sample_order 2 5, ?ord] = [2, 3]"
    by (simp add: sample_order_def book_order_of_def replacement_order_def sample_replace_def)
  with replace_requeues [OF sample_engine2(1,2) _ bd v sample_replace_fresh a k q spec] show ?thesis
    by (auto simp: kNil_def sample_replace_def)
qed

text \<open>
  C10. Rejections. Which commands are refused and why is decided by the order of the checks in
  the handlers, and a refused command changes nothing in the engine but the event counter: books,
  directory, registry and the order counters stay, and the single event carries the reason.
\<close>

fun verdict :: "MatchingEngine \<Rightarrow> ExchangeCommand \<Rightarrow> RejectReason option" where
  "verdict E (NewOrder cmd) = new_order_verdict E cmd"
| "verdict E (CancelOrder cmd) = cancel_verdict E cmd"
| "verdict E (ReplaceOrder cmd) = replace_verdict E cmd"

theorem rejection_changes_nothing:
  assumes "engine_inv E" "verdict E cmd = Some reason"
  shows "\<exists>ev. process E cmd = Some (bump_event E, [OrderRejected ev]) \<and> rj_reason ev = reason \<and>
    rj_event_sequence ev = me_next_event_sequence E"
  using assms process_new_order_verdict [OF assms(1)] process_cancel_rejects process_replace_rejects
  by (cases cmd) (auto simp: reject_new_order_def reject_cancel_def reject_replace_order_def)

theorem rejection_changes_nothing_witness:
  "\<exists>ev. process sample_engine1 (NewOrder (sample_new Buy 1 100 10 GTC)) = Some (bump_event sample_engine1, [OrderRejected ev]) \<and>
    rj_reason ev = DuplicateOrderId"
proof -
  have "(1, 1) \<in> dom (me_orders sample_engine1)" using sample_engine1(4) by simp
  then have "verdict sample_engine1 (NewOrder (sample_new Buy 1 100 10 GTC)) = Some DuplicateOrderId"
    using sample_engine1(5) by (auto simp: new_order_verdict_def)
  from rejection_changes_nothing [OF sample_engine1(1) this] show ?thesis by blast
qed

subsection \<open>Snapshots\<close>

lemma compose_all_view:
  assumes "\<And>ord. ord \<in> set os \<Longrightarrow> me_orders E (order_key ord) \<noteq> None"
  obtains cs where "compose_all E i os = Some cs" "map book_order_of cs = os" "\<And>c. c \<in> set cs \<Longrightarrow> er_instrument_id c = i"
proof -
  have "\<exists>cs. compose_all E i os = Some cs \<and> map book_order_of cs = os \<and> (\<forall>c \<in> set cs. er_instrument_id c = i)"
    using assms
  proof (induction os)
    case (Cons ord os)
    obtain ref where "me_orders E (order_key ord) = Some ref" using Cons.prems [of ord] by auto
    then obtain c where "compose E ord i = Some c" "book_order_of c = ord" "er_instrument_id c = i"
      by (auto simp: compose_def order_key_def book_order_of_def)
    with Cons show ?case by auto
  qed simp
  then show ?thesis using that by blast
qed

lemma snapshot_from_view:
  assumes inv: "engine_inv E" and "set entries \<subseteq> set (me_by_id E)"
  shows "\<exists>snap. snapshot_from E entries = Some snap \<and>
    map (\<lambda>s. (ib_instrument_id s, map book_order_of (ib_bids s), map book_order_of (ib_asks s))) snap =
    map (\<lambda>(i, _). (i, engine_view E i Buy, engine_view E i Sell))
      (filter (\<lambda>(i, _). engine_view E i Buy \<noteq> [] \<or> engine_view E i Sell \<noteq> []) entries)"
  using assms(2)
proof (induction entries)
  case (Cons e entries)
  note r = engine_invD(1) [OF inv]
  obtain i slot where e: "e = (i, slot)" by (cases e)
  have k: "knows_instrument E i" "slot = slot_for E i" using Cons.prems reg_invD(6) [OF r] e by auto
  have b: "engine_books E i = Some (me_books E ! slot)" "slot < length (me_books E)"
    using engine_books_eq [OF r, of i] k reg_invD(3) [OF r k(1)] by simp_all
  let ?b = "me_books E ! slot"
  have bi: "book_inv ?b" using engine_invD(4) [OF inv b(1)] .
  have all: "all_bids ?b = Some (view ?b Buy)" "all_asks ?b = Some (view ?b Sell)"
    using book.all_law [OF bi] by (simp_all add: all_bids_def all_asks_def book.orders_on_def)
  have live: "me_orders E (order_key ord) \<noteq> None" if o: "ord \<in> set (view ?b sd)" for ord sd
  proof -
    obtain x where "x \<in> set (slots ?b sd)" "ord = slot_order ?b x" using o by (auto simp: book.orders_on_def)
    then show ?thesis using dir_invD(2) [OF engine_invD(3) [OF inv] b(1), of x] book.resting_slots_iff by fastforce
  qed
  obtain bs where bs: "compose_all E i (view ?b Buy) = Some bs" "map book_order_of bs = view ?b Buy"
    using compose_all_view [of "view ?b Buy" E i] live by metis
  obtain as where as: "compose_all E i (view ?b Sell) = Some as" "map book_order_of as = view ?b Sell"
    using compose_all_view [of "view ?b Sell" E i] live by metis
  obtain snap where snap: "snapshot_from E entries = Some snap"
    "map (\<lambda>s. (ib_instrument_id s, map book_order_of (ib_bids s), map book_order_of (ib_asks s))) snap =
     map (\<lambda>(i, _). (i, engine_view E i Buy, engine_view E i Sell))
      (filter (\<lambda>(i, _). engine_view E i Buy \<noteq> [] \<or> engine_view E i Sell \<noteq> []) entries)"
    using Cons by auto
  have e1: "view ?b Buy = [] \<longleftrightarrow> bs = []" "view ?b Sell = [] \<longleftrightarrow> as = []" using bs(2) as(2) by auto
  have "snapshot_from E (e # entries) = Some (if bs = [] \<and> as = [] then snap
      else \<lparr>ib_instrument_id = i, ib_bids = bs, ib_asks = as\<rparr> # snap)"
    using b(2) all bs(1) as(1) snap(1) e by simp
  then show ?case using snap(2) bs(2) as(2) e e1 engine_view_Some [OF b(1)] by auto
qed simp

text \<open>
  A snapshot of an engine satisfying the invariant always succeeds (the directory lookup in
  \<open>compose\<close> never misses) and lists, by ascending instrument id, exactly the instruments with
  resting orders, each with its bids and asks in priority order.
\<close>

theorem snapshot_lists_resting_orders:
  assumes "engine_inv E"
  shows "\<exists>snap. snapshot E = Some snap \<and> sorted_wrt (<) (map ib_instrument_id snap) \<and>
    {ib_instrument_id s | s. s \<in> set snap} = {i. engine_view E i Buy \<noteq> [] \<or> engine_view E i Sell \<noteq> []} \<and>
    (\<forall>s \<in> set snap. map book_order_of (ib_bids s) = engine_view E (ib_instrument_id s) Buy \<and>
       map book_order_of (ib_asks s) = engine_view E (ib_instrument_id s) Sell)"
proof -
  note r = engine_invD(1) [OF assms]
  let ?P = "\<lambda>(i, _ :: nat). engine_view E i Buy \<noteq> [] \<or> engine_view E i Sell \<noteq> []"
  let ?f = "\<lambda>s. (ib_instrument_id s, map book_order_of (ib_bids s), map book_order_of (ib_asks s))"
  let ?g = "\<lambda>(i, _ :: nat). (i, engine_view E i Buy, engine_view E i Sell)"
  obtain snap where s: "snapshot E = Some snap" and eq: "map ?f snap = map ?g (filter ?P (me_by_id E))"
    using snapshot_from_view [OF assms subset_refl] by (auto simp: snapshot_def)
  have "map ib_instrument_id snap = map fst (map ?f snap)" by simp
  also have "\<dots> = map fst (filter ?P (me_by_id E))" unfolding eq by (simp add: case_prod_unfold comp_def)
  finally have ids: "map ib_instrument_id snap = map fst (filter ?P (me_by_id E))" .
  have "sorted_wrt (<) (map ib_instrument_id snap)"
    using reg_invD(5) [OF r] unfolding ids sorted_wrt_map by (rule sorted_wrt_filter)
  moreover have "{ib_instrument_id s | s. s \<in> set snap} = {i. engine_view E i Buy \<noteq> [] \<or> engine_view E i Sell \<noteq> []}"
  proof -
    have "{ib_instrument_id s | s. s \<in> set snap} = set (map ib_instrument_id snap)" by auto
    also have "\<dots> = {i. engine_view E i Buy \<noteq> [] \<or> engine_view E i Sell \<noteq> []}"
      unfolding ids using reg_invD(6) [OF r] knows_view [OF assms] by (force simp: image_iff)
    finally show ?thesis .
  qed
  moreover have "map book_order_of (ib_bids s) = engine_view E (ib_instrument_id s) Buy \<and>
      map book_order_of (ib_asks s) = engine_view E (ib_instrument_id s) Sell" if "s \<in> set snap" for s
  proof -
    have "?f s \<in> set (map ?g (filter ?P (me_by_id E)))" unfolding eq [symmetric] using that by simp
    then show ?thesis by auto
  qed
  ultimately show ?thesis using s by blast
qed

theorem snapshot_lists_resting_orders_witness:
  "\<exists>snap. snapshot sample_engine2 = Some snap \<and>
    (\<forall>s \<in> set snap. map book_order_of (ib_bids s) = engine_view sample_engine2 (ib_instrument_id s) Buy)"
  using snapshot_lists_resting_orders [OF sample_engine2(1)] by blast

subsection \<open>A replace onto a live client order id\<close>

text \<open>The order resting in a slot of an instrument's book.\<close>

definition order_at :: "MatchingEngine \<Rightarrow> InstrumentId \<Rightarrow> nat \<Rightarrow> BookOrder option" where
  "order_at E i x = (case engine_books E i of None \<Rightarrow> None
     | Some b \<Rightarrow> if x \<in> book.resting_slots b then Some (slot_order b x) else None)"

lemma order_at_Some: "order_at E i x = Some ord \<longleftrightarrow>
    (\<exists>b. engine_books E i = Some b \<and> x \<in> book.resting_slots b \<and> slot_order b x = ord)"
  by (auto simp: order_at_def split: option.splits if_splits)

text \<open>A cancel that finds a directory entry takes out the order at that place and leaves all the
  other places alone, whether or not the rest of the directory is right.\<close>

lemma cancel_through_entry:
  fixes c :: CancelOrderCommand
  defines "k \<equiv> (cc_account_id c, cc_client_order_id c)"
  assumes r: "reg_inv E" and b: "engine_books E (cc_instrument_id c) = Some b" "book_inv b"
    and ref: "me_orders E k = Some ref" "ref_instrument_id ref = cc_instrument_id c" "ref_handle ref \<in> book.resting_slots b"
  obtains E' where "process E (CancelOrder c) = Some (E', cancel_events (me_next_event_sequence E) c (slot_order b (ref_handle ref)))"
    "reg_inv E'" "me_orders E' = (me_orders E)(k := None)" "knows_instrument E' (cc_instrument_id c)"
    "\<And>j y. \<not> (j = cc_instrument_id c \<and> y = ref_handle ref) \<Longrightarrow> order_at E' j y = order_at E j y"
proof -
  let ?x = "ref_handle ref" and ?i = "cc_instrument_id c"
  let ?sd = "bo_side (slot_order b ?x)"
  have kn: "knows_instrument E ?i" "book_for E ?i = Some b" using engine_books_known [OF r b(1)] by auto
  have x: "?x \<in> set (slots b ?sd)" by (rule book.slot_side [OF b(2) ref(3)])
  obtain b' where rm: "remove_at b ?x = Some (b', slot_order b ?x)" "slots b' ?sd = remove1 ?x (slots b ?sd)"
    "slots b' (contra ?sd) = slots b (contra ?sd)" "slot_order b' = slot_order b"
    using book.remove_law [OF b(2) x] by blast
  let ?D = "(me_orders E)(k := None)"
  have r1: "reg_inv (E\<lparr>me_orders := ?D\<rparr>)" and k1: "knows_instrument (E\<lparr>me_orders := ?D\<rparr>) ?i"
    and bf: "book_for (E\<lparr>me_orders := ?D\<rparr>) ?i = Some b" and eb: "engine_books (E\<lparr>me_orders := ?D\<rparr>) = engine_books E"
    using r kn by (simp_all add: book_for_def book_slot_def knows_instrument_def)
  obtain books where sb: "set_book (E\<lparr>me_orders := ?D\<rparr>) ?i b' = Some (E\<lparr>me_orders := ?D, me_books := books\<rparr>)"
    "reg_inv (E\<lparr>me_orders := ?D, me_books := books\<rparr>)"
    "engine_books (E\<lparr>me_orders := ?D, me_books := books\<rparr>) = (engine_books E)(?i \<mapsto> b')"
    using set_book_reg [OF r1 k1] unfolding eb by metis
  let ?E = "bump_event (bump_event (E\<lparr>me_orders := ?D, me_books := books\<rparr>))"
  have p: "process E (CancelOrder c) = Some (?E, cancel_events (me_next_event_sequence E) c (slot_order b ?x))"
    using kn(1) ref(1,2) bf rm(1) sb(1) by (simp add: process_cancel_def k_def [symmetric] cancel_events_def Let_def)
  have books: "engine_books ?E = (engine_books E)(?i \<mapsto> b')" using sb(3) by simp
  have "y \<in> book.resting_slots b' \<longleftrightarrow> y \<in> book.resting_slots b" if "y \<noteq> ?x" for y
    using that rm(2,3) by (simp add: book.resting_slots_side [where sd = ?sd] in_set_remove1)
  then have at: "order_at ?E j y = order_at E j y" if "\<not> (j = ?i \<and> y = ?x)" for j y
    using that b(1) rm(4) by (cases "j = ?i") (simp_all add: order_at_def sb(3))
  have "knows_instrument ?E ?i" using engine_books_known [of ?E ?i b'] sb(2) books by simp
  then show ?thesis using that [OF p] sb(2) at by simp
qed

text \<open>
  C12. The precondition \<open>replace_fresh\<close> is not checked by the engine. A priority-keeping replace
  whose new client order id already names another live order of the account is accepted like any
  other: it reports the replacement and the reduced order. The order that held the id still rests in
  its slot, unchanged, but no directory entry leads to that slot any more, so the directory invariant
  is broken. A cancel under the id then takes out the renamed order instead, and a second one is
  refused as unknown while the first holder of the id still rests.
\<close>

theorem replace_onto_live_id_breaks_directory:
  fixes cmd :: ReplaceOrderCommand and s :: CommandSequence
  defines "c \<equiv> \<lparr>cc_command_sequence = s, cc_account_id = rc_account_id cmd,
      cc_client_order_id = rc_new_client_order_id cmd, cc_instrument_id = rc_instrument_id cmd\<rparr>"
  assumes "engine_inv E" "replace_verdict E cmd = None"
    and "old \<in> set (engine_view E (rc_instrument_id cmd) sd)"
    and "order_key old = (rc_account_id cmd, rc_original_client_order_id cmd)"
    and "rc_new_price cmd = bo_price old" "rc_new_quantity cmd \<le> bo_remaining_quantity old"
    and "rc_new_client_order_id cmd \<noteq> rc_original_client_order_id cmd"
    and "me_orders E (rc_account_id cmd, rc_new_client_order_id cmd) = Some ref'"
  shows "\<exists>E' E2 other. process E (ReplaceOrder cmd) = Some (E',
      [replaced_event cmd (me_next_event_sequence E) (bo_exchange_order_id old),
       BookOrderReduced \<lparr>bd_event_sequence = me_next_event_sequence E + 1, bd_instrument_id = rc_instrument_id cmd,
          bd_exchange_order_id = bo_exchange_order_id old, bd_side = bo_side old,
          bd_price = bo_price old, bd_new_remaining_quantity = rc_new_quantity cmd\<rparr>]) \<and>
    order_key other = (rc_account_id cmd, rc_new_client_order_id cmd) \<and>
    order_at E (ref_instrument_id ref') (ref_handle ref') = Some other \<and>
    order_at E' (ref_instrument_id ref') (ref_handle ref') = Some other \<and>
    (\<nexists>k r. me_orders E' k = Some r \<and> ref_instrument_id r = ref_instrument_id ref' \<and> ref_handle r = ref_handle ref') \<and>
    \<not> dir_inv (engine_books E') (me_orders E') \<and>
    process E' (CancelOrder c) = Some (E2, cancel_events (me_next_event_sequence E') c
      (old\<lparr>bo_remaining_quantity := rc_new_quantity cmd, bo_client_order_id := rc_new_client_order_id cmd\<rparr>)) \<and>
    order_at E2 (ref_instrument_id ref') (ref_handle ref') = Some other \<and>
    process E2 (CancelOrder c) = Some (reject_cancel E2 c UnknownOrderId)"
proof -
  let ?k = "(rc_account_id cmd, rc_original_client_order_id cmd)" and ?k' = "(rc_account_id cmd, rc_new_client_order_id cmd)"
    and ?i = "rc_instrument_id cmd" and ?j = "ref_instrument_id ref'" and ?y = "ref_handle ref'"
  let ?new = "old\<lparr>bo_remaining_quantity := rc_new_quantity cmd, bo_client_order_id := rc_new_client_order_id cmd\<rparr>"
  note inv = assms(2) and ne = assms(8) and ref' = assms(9) and d = engine_invD(3) [OF assms(2)]
  obtain ref b where t: "me_orders E ?k = Some ref" "ref_instrument_id ref = ?i" "engine_books E (ref_instrument_id ref) = Some b"
    "old = slot_order b (ref_handle ref)" "process E (ReplaceOrder cmd) = replace_in_place E b cmd ref old"
    using replace_target [OF assms(2-5)] assms(6,7) by metis
  let ?x = "ref_handle ref"
  obtain E' b2 where e: "process E (ReplaceOrder cmd) = Some (E',
      [replaced_event cmd (me_next_event_sequence E) (bo_exchange_order_id old),
       BookOrderReduced \<lparr>bd_event_sequence = me_next_event_sequence E + 1, bd_instrument_id = ?i,
          bd_exchange_order_id = bo_exchange_order_id old, bd_side = bo_side old,
          bd_price = bo_price old, bd_new_remaining_quantity = rc_new_quantity cmd\<rparr>])"
    and E': "reg_inv E'" "engine_books E' = (engine_books E)(?i \<mapsto> b2)" "book_inv b2"
      "book.resting_slots b2 = book.resting_slots b" "slot_order b2 = (slot_order b)(?x := ?new)"
      "me_orders E' = (me_orders E)(?k := None, ?k' \<mapsto> ref)"
    unfolding t(5) by (rule replace_in_place_effect [OF inv t(1,3,4) refl t(2)])
  have x: "?x \<in> book.resting_slots b" "order_key (slot_order b ?x) = ?k" using dir_invD(1) [OF d t(1)] t(3) by auto
  obtain b' where o: "engine_books E ?j = Some b'" "?y \<in> book.resting_slots b'" "order_key (slot_order b' ?y) = ?k'"
    using dir_invD(1) [OF d ref'] by blast
  let ?other = "slot_order b' ?y"
  have apart: "\<not> (?j = ?i \<and> ?y = ?x)" using o x(2) t(2,3) ne by auto
  have at: "order_at E ?j ?y = Some ?other" using o by (simp add: order_at_Some)
  have "order_at E' ?j ?y = order_at E ?j ?y"
    using apart t(2,3) E'(2,4,5) by (cases "?j = ?i") (auto simp: order_at_def)
  with at have at': "order_at E' ?j ?y = Some ?other" by simp
  have unfound: "\<nexists>k r. me_orders E' k = Some r \<and> ref_instrument_id r = ?j \<and> ref_handle r = ?y"
  proof
    assume "\<exists>k r. me_orders E' k = Some r \<and> ref_instrument_id r = ?j \<and> ref_handle r = ?y"
    then obtain k r where r: "me_orders E' k = Some r" "ref_instrument_id r = ?j" "ref_handle r = ?y" by blast
    then have "k \<noteq> ?k'" "me_orders E k = Some r" using apart t(2) E'(6) by (auto split: if_splits)
    then show False using dir_invD(1) [OF d, of k r] r o by auto
  qed
  have "\<not> dir_inv (engine_books E') (me_orders E')"
    using at' unfound dir_invD(2) [of "engine_books E'" "me_orders E'" ?j _ ?y] by (fastforce simp: order_at_Some)
  moreover have c: "cc_account_id c = rc_account_id cmd" "cc_client_order_id c = rc_new_client_order_id cmd" "cc_instrument_id c = ?i"
    by (simp_all add: c_def)
  have entry: "engine_books E' ?i = Some b2" "me_orders E' ?k' = Some ref" "?x \<in> book.resting_slots b2" "slot_order b2 ?x = ?new"
    using E'(2,4,5,6) x(1) by simp_all
  obtain E2 where E2: "process E' (CancelOrder c) = Some (E2, cancel_events (me_next_event_sequence E') c ?new)"
    "me_orders E2 = (me_orders E')(?k' := None)" "knows_instrument E2 ?i"
    "\<And>j y. \<not> (j = ?i \<and> y = ?x) \<Longrightarrow> order_at E2 j y = order_at E' j y"
    using cancel_through_entry [OF E'(1), of c b2 ref, unfolded c, OF entry(1) E'(3) entry(2) t(2) entry(3)] unfolding entry(4) by metis
  have "process E2 (CancelOrder c) = Some (reject_cancel E2 c UnknownOrderId)"
    using E2(2,3) c by (simp add: process_cancel_def)
  moreover have "order_at E2 ?j ?y = Some ?other" using E2(4) [OF apart] at' by simp
  ultimately show ?thesis using e o(3) at at' unfound E2(1) by blast
qed

theorem replace_onto_live_id_breaks_directory_witness:
  "\<exists>E' evs E2 evs2 c ref other. me_orders sample_engine2 (1, 2) = Some ref \<and>
    process sample_engine2 (ReplaceOrder (sample_replace 2 100 8)) = Some (E', evs) \<and>
    \<not> dir_inv (engine_books E') (me_orders E') \<and> cc_client_order_id c = 2 \<and>
    process E' (CancelOrder c) = Some (E2, evs2) \<and> order_key other = (1, 2) \<and>
    order_at E2 (ref_instrument_id ref) (ref_handle ref) = Some other \<and>
    process E2 (CancelOrder c) = Some (reject_cancel E2 c UnknownOrderId)"
proof -
  let ?cmd = "sample_replace 2 100 8"
  have a: "sample_order 1 10 \<in> set (engine_view sample_engine2 (rc_instrument_id ?cmd) Buy)"
    using sample_engine2(3) by (simp add: sample_replace_def)
  have k: "order_key (sample_order 1 10) = (rc_account_id ?cmd, rc_original_client_order_id ?cmd)"
    and p: "rc_new_price ?cmd = bo_price (sample_order 1 10)" "rc_new_quantity ?cmd \<le> bo_remaining_quantity (sample_order 1 10)"
      "rc_new_client_order_id ?cmd \<noteq> rc_original_client_order_id ?cmd"
    and ids: "(rc_account_id ?cmd, rc_new_client_order_id ?cmd) = (1, 2)" "rc_account_id ?cmd = 1" "rc_new_client_order_id ?cmd = 2"
    by (simp_all add: order_key_def sample_order_def sample_replace_def)
  obtain ref where l: "me_orders sample_engine2 (1, 2) = Some ref" by (rule sample_live [of "(1, 2)"]) auto
  have v: "replace_verdict sample_engine2 ?cmd = None" using sample_price by (intro sample_replace_verdict) simp_all
  let ?c = "\<lparr>cc_command_sequence = 6, cc_account_id = rc_account_id ?cmd,
      cc_client_order_id = rc_new_client_order_id ?cmd, cc_instrument_id = rc_instrument_id ?cmd\<rparr>"
  have c: "cc_client_order_id ?c = 2" by (simp add: ids)
  from replace_onto_live_id_breaks_directory [OF sample_engine2(1) v a k p l [folded ids(1)], of 6] c l show ?thesis
    unfolding ids(1) by metis
qed

end
