(* ===== verification/Ledger.thy ===== *)
theory Ledger
  imports Exchange_Core
begin

text \<open>
  The account ledger (\<open>exchange/ledger/ledger.cpp\<close>): cash and position balances per account and
  one reservation per resting order, driven by the engine's events. Cash is a wrapping 64-bit
  integer, quantities are wrapping 64-bit words, so the conservation and reservation equations
  below hold in modular arithmetic, without assuming that nothing overflows.
\<close>

subsection \<open>State\<close>

type_synonym Balance = i64

record AccountBalances =
  ab_cash_total :: Balance
  ab_cash_reserved :: Balance
  ab_position_total :: "InstrumentId \<rightharpoonup> Quantity"
  ab_position_reserved :: "InstrumentId \<rightharpoonup> Quantity"

definition no_balances :: AccountBalances where
  "no_balances = \<lparr>ab_cash_total = 0, ab_cash_reserved = 0,
     ab_position_total = Map.empty, ab_position_reserved = Map.empty\<rparr>"

record Hold =
  hd_instrument_id :: InstrumentId
  hd_side :: Side
  hd_limit_price :: Price
  hd_remaining :: Quantity

type_synonym HoldKey = "AccountId \<times> ClientOrderId"

record Ledger =
  ld_accounts :: "AccountId \<rightharpoonup> AccountBalances"
  ld_holds :: "HoldKey \<rightharpoonup> Hold"

definition empty_ledger :: Ledger where
  "empty_ledger = \<lparr>ld_accounts = Map.empty, ld_holds = Map.empty\<rparr>"

text \<open>\<open>map[key]\<close> on a missing key reads, and inserts, a zero.\<close>

definition map_at :: "('k \<rightharpoonup> Quantity) \<Rightarrow> 'k \<Rightarrow> Quantity" where
  "map_at m k = (case m k of None \<Rightarrow> 0 | Some v \<Rightarrow> v)"

definition balances :: "Ledger \<Rightarrow> AccountId \<Rightarrow> AccountBalances" where
  "balances L a = (case ld_accounts L a of None \<Rightarrow> no_balances | Some b \<Rightarrow> b)"

definition set_balances :: "Ledger \<Rightarrow> AccountId \<Rightarrow> AccountBalances \<Rightarrow> Ledger" where
  "set_balances L a b = L\<lparr>ld_accounts := (ld_accounts L)(a \<mapsto> b)\<rparr>"

text \<open>\<open>static_cast<Balance>(quantity) * price\<close>.\<close>

definition notional :: "Quantity \<Rightarrow> Price \<Rightarrow> Balance" where
  "notional q p = I64 q * p"

subsection \<open>Operations\<close>

definition deposit_cash :: "Ledger \<Rightarrow> AccountId \<Rightarrow> Balance \<Rightarrow> Ledger" where
  "deposit_cash L a amount = (let b = balances L a in
     set_balances L a (b\<lparr>ab_cash_total := ab_cash_total b + amount\<rparr>))"

definition deposit_position :: "Ledger \<Rightarrow> AccountId \<Rightarrow> InstrumentId \<Rightarrow> Quantity \<Rightarrow> Ledger" where
  "deposit_position L a i amount = (let b = balances L a in
     set_balances L a (b\<lparr>ab_position_total := (ab_position_total b)(i \<mapsto> map_at (ab_position_total b) i + amount)\<rparr>))"

definition available_cash :: "Ledger \<Rightarrow> AccountId \<Rightarrow> Balance" where
  "available_cash L a = (case ld_accounts L a of None \<Rightarrow> 0
     | Some b \<Rightarrow> ab_cash_total b - ab_cash_reserved b)"

definition available_position :: "Ledger \<Rightarrow> AccountId \<Rightarrow> InstrumentId \<Rightarrow> Quantity" where
  "available_position L a i = (case ld_accounts L a of None \<Rightarrow> 0
     | Some b \<Rightarrow> map_at (ab_position_total b) i - map_at (ab_position_reserved b) i)"

definition find_hold :: "Ledger \<Rightarrow> AccountId \<Rightarrow> ClientOrderId \<Rightarrow> Hold option" where
  "find_hold L a c = ld_holds L (a, c)"

definition open_hold :: "Ledger \<Rightarrow> AccountId \<Rightarrow> ClientOrderId \<Rightarrow> InstrumentId \<Rightarrow> Side \<Rightarrow> Price \<Rightarrow> Quantity \<Rightarrow> Ledger" where
  "open_hold L a c i sd limit_price quantity =
     (if quantity = 0 then L
      else let
        b = balances L a;
        b' = (if sd = Buy then b\<lparr>ab_cash_reserved := ab_cash_reserved b + notional quantity limit_price\<rparr>
              else b\<lparr>ab_position_reserved := (ab_position_reserved b)(i \<mapsto> map_at (ab_position_reserved b) i + quantity)\<rparr>);
        L' = set_balances L a b'
      in L'\<lparr>ld_holds := (ld_holds L')((a, c) \<mapsto>
           \<lparr>hd_instrument_id = i, hd_side = sd, hd_limit_price = limit_price, hd_remaining = quantity\<rparr>)\<rparr>)"

definition release_hold_fully :: "Ledger \<Rightarrow> AccountId \<Rightarrow> Hold \<Rightarrow> Ledger" where
  "release_hold_fully L a h =
     (if hd_remaining h = 0 then L
      else let b = balances L a in
        if hd_side h = Buy
        then set_balances L a (b\<lparr>ab_cash_reserved := ab_cash_reserved b - notional (hd_remaining h) (hd_limit_price h)\<rparr>)
        else set_balances L a (b\<lparr>ab_position_reserved := (ab_position_reserved b)(hd_instrument_id h \<mapsto>
               map_at (ab_position_reserved b) (hd_instrument_id h) - hd_remaining h)\<rparr>))"

definition settle_hold :: "Ledger \<Rightarrow> TradeCounterparty \<Rightarrow> Side \<Rightarrow> InstrumentId \<Rightarrow> Quantity \<Rightarrow> Ledger" where
  "settle_hold L leg sd i trade_quantity =
     (let key = (tc_account_id leg, tc_client_order_id leg) in
      case ld_holds L key of
        None \<Rightarrow> L
      | Some h \<Rightarrow> let
          b = balances L (tc_account_id leg);
          b' = (if sd = Buy then b\<lparr>ab_cash_reserved := ab_cash_reserved b - notional trade_quantity (hd_limit_price h)\<rparr>
                else b\<lparr>ab_position_reserved := (ab_position_reserved b)(i \<mapsto> map_at (ab_position_reserved b) i - trade_quantity)\<rparr>);
          L' = set_balances L (tc_account_id leg) b'
        in if tc_remaining_quantity leg = 0 then L'\<lparr>ld_holds := (ld_holds L')(key := None)\<rparr>
           else L'\<lparr>ld_holds := (ld_holds L')(key \<mapsto> h\<lparr>hd_remaining := tc_remaining_quantity leg\<rparr>)\<rparr>)"

definition settle_leg :: "Ledger \<Rightarrow> TradeCounterparty \<Rightarrow> Side \<Rightarrow> InstrumentId \<Rightarrow> Price \<Rightarrow> Quantity \<Rightarrow> Ledger" where
  "settle_leg L leg sd i trade_price trade_quantity =
     (let L1 = settle_hold L leg sd i trade_quantity;
          b = balances L1 (tc_account_id leg)
      in set_balances L1 (tc_account_id leg)
        (if sd = Buy then b\<lparr>ab_cash_total := ab_cash_total b - notional trade_quantity trade_price,
           ab_position_total := (ab_position_total b)(i \<mapsto> map_at (ab_position_total b) i + trade_quantity)\<rparr>
         else b\<lparr>ab_cash_total := ab_cash_total b + notional trade_quantity trade_price,
           ab_position_total := (ab_position_total b)(i \<mapsto> map_at (ab_position_total b) i - trade_quantity)\<rparr>))"

definition on_order_accepted :: "Ledger \<Rightarrow> OrderAcceptedEvent \<Rightarrow> Ledger" where
  "on_order_accepted L ev =
     (if oa_time_in_force ev \<noteq> GTC then L
      else open_hold L (oa_account_id ev) (oa_client_order_id ev) (oa_instrument_id ev) (oa_side ev) (oa_price ev) (oa_quantity ev))"

definition on_order_replaced :: "Ledger \<Rightarrow> OrderReplacedEvent \<Rightarrow> Ledger" where
  "on_order_replaced L ev =
     (let key = (rp_account_id ev, rp_original_client_order_id ev) in
      case ld_holds L key of
        None \<Rightarrow> L
      | Some old \<Rightarrow> let
          L1 = release_hold_fully L (rp_account_id ev) old;
          L2 = L1\<lparr>ld_holds := (ld_holds L1)(key := None)\<rparr>
        in open_hold L2 (rp_account_id ev) (rp_new_client_order_id ev) (rp_instrument_id ev) (hd_side old)
             (rp_new_price ev) (rp_new_quantity ev))"

definition on_order_cancelled :: "Ledger \<Rightarrow> OrderCancelledEvent \<Rightarrow> Ledger" where
  "on_order_cancelled L ev =
     (let key = (oc_account_id ev, oc_client_order_id ev) in
      case ld_holds L key of
        None \<Rightarrow> L
      | Some h \<Rightarrow> let L1 = release_hold_fully L (oc_account_id ev) h
                  in L1\<lparr>ld_holds := (ld_holds L1)(key := None)\<rparr>)"

definition on_trade_executed :: "Ledger \<Rightarrow> TradeExecutedEvent \<Rightarrow> Ledger" where
  "on_trade_executed L ev =
     settle_leg (settle_leg L (te_buyer ev) Buy (te_instrument_id ev) (te_price ev) (te_quantity ev))
       (te_seller ev) Sell (te_instrument_id ev) (te_price ev) (te_quantity ev)"

fun ledger_apply :: "Ledger \<Rightarrow> ExchangeEvent \<Rightarrow> Ledger" where
  "ledger_apply L (OrderAccepted ev) = on_order_accepted L ev"
| "ledger_apply L (OrderReplaced ev) = on_order_replaced L ev"
| "ledger_apply L (OrderCancelled ev) = on_order_cancelled L ev"
| "ledger_apply L (TradeExecuted ev) = on_trade_executed L ev"
| "ledger_apply L (OrderRejected ev) = L"
| "ledger_apply L (BookOrderAdded ev) = L"
| "ledger_apply L (BookOrderReduced ev) = L"
| "ledger_apply L (BookOrderRemoved ev) = L"

subsection \<open>Reading balances\<close>

definition cash :: "Ledger \<Rightarrow> AccountId \<Rightarrow> Balance" where
  "cash L a = ab_cash_total (balances L a)"

definition cash_reserved :: "Ledger \<Rightarrow> AccountId \<Rightarrow> Balance" where
  "cash_reserved L a = ab_cash_reserved (balances L a)"

definition position :: "Ledger \<Rightarrow> AccountId \<Rightarrow> InstrumentId \<Rightarrow> Quantity" where
  "position L a i = map_at (ab_position_total (balances L a)) i"

definition position_reserved :: "Ledger \<Rightarrow> AccountId \<Rightarrow> InstrumentId \<Rightarrow> Quantity" where
  "position_reserved L a i = map_at (ab_position_reserved (balances L a)) i"

lemmas balance_defs = cash_def cash_reserved_def position_def position_reserved_def

lemma map_at_simps [simp]: "map_at (m(k \<mapsto> v)) k' = (if k' = k then v else map_at m k')" "map_at Map.empty k = 0"
  by (simp_all add: map_at_def)

lemma balances_set [simp]: "balances (set_balances L a b) a' = (if a' = a then b else balances L a')"
  by (simp add: balances_def set_balances_def)

lemma ledger_frame [simp]:
  "ld_holds (set_balances L a b) = ld_holds L" "balances (L\<lparr>ld_holds := H\<rparr>) a = balances L a"
  by (simp_all add: set_balances_def balances_def)

lemma available_eq:
  "available_cash L a = cash L a - cash_reserved L a"
  "available_position L a i = position L a i - position_reserved L a i"
  by (simp_all add: available_cash_def available_position_def balance_defs balances_def no_balances_def split: option.split)

text \<open>What a hold reserves.\<close>

definition hold_cash :: "Hold \<Rightarrow> Balance" where
  "hold_cash h = (if hd_side h = Buy then notional (hd_remaining h) (hd_limit_price h) else 0)"

definition hold_position :: "InstrumentId \<Rightarrow> Hold \<Rightarrow> Quantity" where
  "hold_position i h = (if hd_side h = Sell \<and> hd_instrument_id h = i then hd_remaining h else 0)"

lemma open_hold_effect:
  assumes "q \<noteq> 0" and h: "h = \<lparr>hd_instrument_id = i, hd_side = sd, hd_limit_price = p, hd_remaining = q\<rparr>"
  shows "ld_holds (open_hold L a c i sd p q) = (ld_holds L)((a, c) \<mapsto> h)"
    "cash (open_hold L a c i sd p q) a' = cash L a'" "position (open_hold L a c i sd p q) a' j = position L a' j"
    "cash_reserved (open_hold L a c i sd p q) a' = cash_reserved L a' + (if a' = a then hold_cash h else 0)"
    "position_reserved (open_hold L a c i sd p q) a' j = position_reserved L a' j + (if a' = a then hold_position j h else 0)"
  using assms(1) by (cases sd; simp add: open_hold_def Let_def balance_defs h hold_cash_def hold_position_def)+

lemma release_hold_effect:
  "ld_holds (release_hold_fully L a h) = ld_holds L"
  "cash (release_hold_fully L a h) a' = cash L a'" "position (release_hold_fully L a h) a' j = position L a' j"
  "cash_reserved (release_hold_fully L a h) a' = cash_reserved L a' - (if a' = a then hold_cash h else 0)"
  "position_reserved (release_hold_fully L a h) a' j = position_reserved L a' j - (if a' = a then hold_position j h else 0)"
  by (cases "hd_side h"; cases "hd_remaining h = 0";
      simp add: release_hold_fully_def Let_def balance_defs hold_cash_def hold_position_def notional_def zero_i64_def [symmetric])+

lemma notional_add: "notional (q + r) p = notional q p + notional r p"
  by (cases p) (simp add: notional_def plus_i64_def times_i64_def distrib_right)

lemma notional_0 [simp]: "notional 0 p = 0"
  by (cases p) (simp add: notional_def times_i64_def zero_i64_def)

text \<open>A leg fits its hold: same side and instrument, and the hold covers exactly this slice and the rest.\<close>

definition leg_ok :: "Ledger \<Rightarrow> TradeCounterparty \<Rightarrow> Side \<Rightarrow> InstrumentId \<Rightarrow> Quantity \<Rightarrow> bool" where
  "leg_ok L leg sd i q \<longleftrightarrow> (case ld_holds L (tc_account_id leg, tc_client_order_id leg) of
     None \<Rightarrow> True
   | Some h \<Rightarrow> hd_side h = sd \<and> hd_instrument_id h = i \<and> hd_remaining h = q + tc_remaining_quantity leg)"

definition leg_hold :: "Ledger \<Rightarrow> TradeCounterparty \<Rightarrow> Hold option" where
  "leg_hold L leg = (case ld_holds L (tc_account_id leg, tc_client_order_id leg) of
     None \<Rightarrow> None
   | Some h \<Rightarrow> if tc_remaining_quantity leg = 0 then None else Some (h\<lparr>hd_remaining := tc_remaining_quantity leg\<rparr>))"

text \<open>A sum over the holds of one account.\<close>

definition over_holds :: "(Hold \<Rightarrow> 'a :: ab_group_add) \<Rightarrow> (HoldKey \<rightharpoonup> Hold) \<Rightarrow> AccountId \<Rightarrow> 'a" where
  "over_holds f H a = (\<Sum>k \<in> {k \<in> dom H. fst k = a}. f (the (H k)))"

definition hold_part :: "(Hold \<Rightarrow> 'a :: ab_group_add) \<Rightarrow> Hold option \<Rightarrow> 'a" where
  "hold_part f v = (case v of None \<Rightarrow> 0 | Some h \<Rightarrow> f h)"

lemma hold_part_simps [simp]: "hold_part f None = 0" "hold_part f (Some h) = f h"
  by (simp_all add: hold_part_def)

lemma over_holds_update:
  assumes "finite (dom H)"
  shows "over_holds f (H(k := v)) a = over_holds f H a + (if fst k = a then hold_part f v - hold_part f (H k) else 0)"
proof -
  let ?K = "{j \<in> dom H. fst j = a} - {k}"
  have fin: "finite ?K" using assms by simp
  have same: "(\<Sum>j \<in> ?K. f (the ((H(k := v)) j))) = (\<Sum>j \<in> ?K. f (the (H j)))" by (rule sum.cong) auto
  have new: "over_holds f (H(k := v)) a = (if fst k = a then hold_part f v else 0) + (\<Sum>j \<in> ?K. f (the (H j)))"
  proof (cases "fst k = a \<and> v \<noteq> None")
    case True
    then have "{j \<in> dom (H(k := v)). fst j = a} = insert k ?K" by auto
    then have "over_holds f (H(k := v)) a = (\<Sum>j \<in> insert k ?K. f (the ((H(k := v)) j)))" by (simp only: over_holds_def)
    also have "\<dots> = f (the v) + (\<Sum>j \<in> ?K. f (the ((H(k := v)) j)))" using fin by (subst sum.insert) auto
    finally show ?thesis using True same by (auto simp: hold_part_def)
  next
    case False
    then have "{j \<in> dom (H(k := v)). fst j = a} = ?K" by (auto split: if_splits)
    then show ?thesis using False same by (auto simp: over_holds_def hold_part_def split: option.splits)
  qed
  have old: "over_holds f H a = (if fst k = a then hold_part f (H k) else 0) + (\<Sum>j \<in> ?K. f (the (H j)))"
  proof (cases "k \<in> {j \<in> dom H. fst j = a}")
    case True
    then show ?thesis using sum.remove [OF _ True, of "\<lambda>j. f (the (H j))"] assms by (auto simp: over_holds_def hold_part_def)
  next
    case False
    then show ?thesis by (auto simp: over_holds_def hold_part_def domIff)
  qed
  show ?thesis unfolding new old by simp
qed

text \<open>The reservation invariant: what is reserved is exactly what the open holds ask for.\<close>

definition reserved_ok :: "Ledger \<Rightarrow> bool" where
  "reserved_ok L \<longleftrightarrow> finite (dom (ld_holds L)) \<and>
     (\<forall>a. cash_reserved L a = over_holds hold_cash (ld_holds L) a) \<and>
     (\<forall>a i. position_reserved L a i = over_holds (hold_position i) (ld_holds L) a)"

lemma reserved_okI:
  assumes "reserved_ok L" "ld_holds L' = (ld_holds L)(k := v)"
    "\<And>a. cash_reserved L' a = cash_reserved L a + (if fst k = a then hold_part hold_cash v - hold_part hold_cash (ld_holds L k) else 0)"
    "\<And>a i. position_reserved L' a i = position_reserved L a i +
       (if fst k = a then hold_part (hold_position i) v - hold_part (hold_position i) (ld_holds L k) else 0)"
  shows "reserved_ok L'"
  using assms by (simp add: reserved_ok_def over_holds_update)

lemma settle_leg_effect:
  shows "ld_holds (settle_leg L leg sd i p q) = (ld_holds L)((tc_account_id leg, tc_client_order_id leg) := leg_hold L leg)"
    "cash (settle_leg L leg sd i p q) a = cash L a + (if a = tc_account_id leg then (if sd = Buy then - notional q p else notional q p) else 0)"
    "position (settle_leg L leg sd i p q) a j = position L a j +
       (if a = tc_account_id leg \<and> j = i then (if sd = Buy then q else - q) else 0)"
    "leg_ok L leg sd i q \<Longrightarrow> reserved_ok L \<Longrightarrow> reserved_ok (settle_leg L leg sd i p q)"
proof -
  let ?k = "(tc_account_id leg, tc_client_order_id leg)" and ?L = "settle_leg L leg sd i p q"
  have holds: "ld_holds ?L = (ld_holds L)(?k := leg_hold L leg)"
    by (auto simp: settle_leg_def settle_hold_def leg_hold_def Let_def fun_upd_idem split: option.split)
  then show "ld_holds ?L = (ld_holds L)(?k := leg_hold L leg)" .
  show "cash ?L a = cash L a + (if a = tc_account_id leg then (if sd = Buy then - notional q p else notional q p) else 0)"
    "position ?L a j = position L a j + (if a = tc_account_id leg \<and> j = i then (if sd = Buy then q else - q) else 0)"
    by (auto simp: settle_leg_def settle_hold_def Let_def balance_defs split: option.split)
  assume ok: "leg_ok L leg sd i q" and r: "reserved_ok L"
  show "reserved_ok ?L"
  proof (cases "ld_holds L ?k")
    case None
    then have "cash_reserved ?L a = cash_reserved L a" "position_reserved ?L a j = position_reserved L a j" for a j
      by (simp_all add: settle_leg_def settle_hold_def Let_def balance_defs)
    then show ?thesis using r holds None by (intro reserved_okI [OF r holds]) (auto simp: leg_hold_def)
  next
    case (Some h)
    have h: "hd_side h = sd" "hd_instrument_id h = i" "hd_remaining h = q + tc_remaining_quantity leg"
      using ok Some by (auto simp: leg_ok_def)
    have c: "cash_reserved ?L a = cash_reserved L a - (if a = tc_account_id leg \<and> sd = Buy then notional q (hd_limit_price h) else 0)"
      "position_reserved ?L a j = position_reserved L a j - (if a = tc_account_id leg \<and> sd = Sell \<and> j = i then q else 0)" for a j
      using Some by (cases sd; simp add: settle_leg_def settle_hold_def Let_def balance_defs)+
    have n: "hold_part hold_cash (leg_hold L leg) = (if sd = Buy then notional (tc_remaining_quantity leg) (hd_limit_price h) else 0)"
      "hold_part (hold_position j) (leg_hold L leg) = (if sd = Sell \<and> j = i then tc_remaining_quantity leg else 0)" for j
      using Some h by (auto simp: leg_hold_def hold_cash_def hold_position_def)
    have o: "hold_part hold_cash (ld_holds L ?k) = (if sd = Buy then notional q (hd_limit_price h) + notional (tc_remaining_quantity leg) (hd_limit_price h) else 0)"
      "hold_part (hold_position j) (ld_holds L ?k) = (if sd = Sell \<and> j = i then q + tc_remaining_quantity leg else 0)" for j
      using Some h by (auto simp: hold_cash_def hold_position_def notional_add)
    show ?thesis
      by (rule reserved_okI [OF r holds]) (auto simp: c n o)
  qed
qed

subsection \<open>Events\<close>

text \<open>
  An event agrees with the open holds: a new order's key is not in use, a replacement's is the old
  one or unused, and each leg of a trade fits its hold. The matching engine only emits such events
  as long as replaces do not reuse a live client order id.
\<close>

definition leg_key :: "TradeCounterparty \<Rightarrow> HoldKey" where
  "leg_key leg = (tc_account_id leg, tc_client_order_id leg)"

fun event_fits :: "Ledger \<Rightarrow> ExchangeEvent \<Rightarrow> bool" where
  "event_fits L (OrderAccepted ev) \<longleftrightarrow> oa_time_in_force ev \<noteq> GTC \<or> ld_holds L (oa_account_id ev, oa_client_order_id ev) = None"
| "event_fits L (OrderReplaced ev) \<longleftrightarrow> rp_new_client_order_id ev = rp_original_client_order_id ev \<or>
     ld_holds L (rp_account_id ev, rp_new_client_order_id ev) = None"
| "event_fits L (TradeExecuted ev) \<longleftrightarrow> leg_key (te_buyer ev) \<noteq> leg_key (te_seller ev) \<and>
     leg_ok L (te_buyer ev) Buy (te_instrument_id ev) (te_quantity ev) \<and>
     leg_ok L (te_seller ev) Sell (te_instrument_id ev) (te_quantity ev)"
| "event_fits L _ \<longleftrightarrow> True"

lemma open_hold_reserved:
  assumes "reserved_ok L" "ld_holds L (a, c) = None"
  shows "reserved_ok (open_hold L a c i sd p q)"
proof (cases "q = 0")
  case True
  then show ?thesis using assms by (simp add: open_hold_def)
next
  case False
  then show ?thesis
    by (intro reserved_okI [OF assms(1) open_hold_effect(1) [OF False refl]])
      (auto simp: open_hold_effect [OF False refl] assms(2))
qed

lemma drop_hold_reserved:
  assumes "reserved_ok L" "ld_holds L (a, c) = Some h"
  shows "reserved_ok ((release_hold_fully L a h)\<lparr>ld_holds := (ld_holds L)((a, c) := None)\<rparr>)"
  by (rule reserved_okI [OF assms(1), where k = "(a, c)" and v = None])
    (use assms(2) release_hold_effect(4,5) [of L a h] in \<open>auto simp: balance_defs\<close>)

lemma leg_ok_other:
  assumes "leg_key leg' \<noteq> leg_key leg" "leg_ok L leg' sd' i' q'"
  shows "leg_ok (settle_leg L leg sd i p q) leg' sd' i' q'"
  using assms by (auto simp: leg_ok_def settle_leg_effect(1) leg_key_def)

text \<open>
  C13. Reservations never leak. If the reserved cash and position of every account are what its
  open holds ask for, they still are after any event that agrees with the holds: new orders,
  replaces on both paths, cancels and trades on both legs, partial fills included. The equations
  hold in the ledger's own wrapping arithmetic.
\<close>

theorem ledger_reservation_invariant:
  assumes "reserved_ok L" "event_fits L ev"
  shows "reserved_ok (ledger_apply L ev)"
proof (cases ev)
  case (OrderAccepted e)
  then show ?thesis using assms by (auto simp: on_order_accepted_def open_hold_reserved)
next
  case (OrderReplaced e)
  let ?a = "rp_account_id e" and ?c = "rp_original_client_order_id e"
  show ?thesis
  proof (cases "ld_holds L (?a, ?c)")
    case None
    then show ?thesis using OrderReplaced assms by (simp add: on_order_replaced_def)
  next
    case (Some h)
    let ?L = "(release_hold_fully L ?a h)\<lparr>ld_holds := (ld_holds L)((?a, ?c) := None)\<rparr>"
    have "reserved_ok ?L" by (rule drop_hold_reserved [OF assms(1) Some])
    moreover have "ld_holds ?L (?a, rp_new_client_order_id e) = None" using assms(2) OrderReplaced by auto
    ultimately have "reserved_ok (open_hold ?L ?a (rp_new_client_order_id e) (rp_instrument_id e) (hd_side h) (rp_new_price e) (rp_new_quantity e))"
      by (rule open_hold_reserved)
    then show ?thesis using OrderReplaced Some by (simp add: on_order_replaced_def Let_def release_hold_effect(1))
  qed
next
  case (OrderCancelled e)
  show ?thesis
  proof (cases "ld_holds L (oc_account_id e, oc_client_order_id e)")
    case None
    then show ?thesis using OrderCancelled assms by (simp add: on_order_cancelled_def)
  next
    case (Some h)
    then show ?thesis using OrderCancelled drop_hold_reserved [OF assms(1) Some]
      by (simp add: on_order_cancelled_def Let_def release_hold_effect(1))
  qed
next
  case (TradeExecuted e)
  then show ?thesis using assms leg_ok_other [of "te_seller e" "te_buyer e"]
    by (auto simp: on_trade_executed_def intro!: settle_leg_effect(4))
qed (use assms in simp_all)

lemma empty_ledger_reserved: "reserved_ok empty_ledger"
  by (simp add: reserved_ok_def empty_ledger_def balance_defs balances_def no_balances_def over_holds_def)

definition sample_accepted :: OrderAcceptedEvent where
  "sample_accepted = \<lparr>oa_event_sequence = 1, oa_command_sequence = 1, oa_account_id = 5, oa_client_order_id = 9,
     oa_exchange_order_id = 1, oa_instrument_id = 7, oa_side = Buy, oa_price = I64 100, oa_quantity = 3,
     oa_order_type = Limit, oa_time_in_force = GTC\<rparr>"

theorem ledger_reservation_invariant_witness:
  "reserved_ok (ledger_apply empty_ledger (OrderAccepted sample_accepted)) \<and>
   cash_reserved (ledger_apply empty_ledger (OrderAccepted sample_accepted)) 5 = I64 300"
proof -
  have "event_fits empty_ledger (OrderAccepted sample_accepted)" by (simp add: empty_ledger_def)
  moreover have "cash_reserved (ledger_apply empty_ledger (OrderAccepted sample_accepted)) 5 = I64 300"
    by (simp add: sample_accepted_def on_order_accepted_def open_hold_def balance_defs balances_def no_balances_def
        empty_ledger_def set_balances_def notional_def plus_i64_def times_i64_def zero_i64_def)
  ultimately show ?thesis using ledger_reservation_invariant [OF empty_ledger_reserved] by blast
qed

text \<open>
  C14. Trades move, never create: over any finite group of accounts that contains both parties, the
  total cash and the total position of every instrument are the same before and after a trade,
  whatever holds exist, and a trade never changes another instrument's positions.
\<close>

theorem trade_conserves_totals:
  assumes "finite A" "tc_account_id (te_buyer ev) \<in> A" "tc_account_id (te_seller ev) \<in> A"
  shows "(\<Sum>a \<in> A. cash (ledger_apply L (TradeExecuted ev)) a) = (\<Sum>a \<in> A. cash L a) \<and>
    (\<forall>i. (\<Sum>a \<in> A. position (ledger_apply L (TradeExecuted ev)) a i) = (\<Sum>a \<in> A. position L a i)) \<and>
    (\<forall>a i. i \<noteq> te_instrument_id ev \<longrightarrow> position (ledger_apply L (TradeExecuted ev)) a i = position L a i)"
proof -
  let ?n = "notional (te_quantity ev) (te_price ev)" and ?q = "te_quantity ev"
    and ?b = "tc_account_id (te_buyer ev)" and ?s = "tc_account_id (te_seller ev)" and ?j = "te_instrument_id ev"
  have c: "cash (ledger_apply L (TradeExecuted ev)) a = cash L a + (if a = ?b then - ?n else 0) + (if a = ?s then ?n else 0)" for a
    by (simp add: on_trade_executed_def settle_leg_effect(2))
  have p: "position (ledger_apply L (TradeExecuted ev)) a i =
      position L a i + (if a = ?b then (if i = ?j then ?q else 0) else 0) + (if a = ?s then (if i = ?j then - ?q else 0) else 0)" for a i
    by (simp add: on_trade_executed_def settle_leg_effect(3))
  show ?thesis unfolding c p using assms by (simp add: sum.distrib)
qed

definition sample_trade :: TradeExecutedEvent where
  "sample_trade = \<lparr>te_event_sequence = 2, te_command_sequence = 1, te_instrument_id = 7, te_price = I64 100, te_quantity = 3,
     te_aggressor_side = Buy,
     te_buyer = \<lparr>tc_account_id = 5, tc_client_order_id = 9, tc_exchange_order_id = 1, tc_remaining_quantity = 0\<rparr>,
     te_seller = \<lparr>tc_account_id = 6, tc_client_order_id = 1, tc_exchange_order_id = 2, tc_remaining_quantity = 4\<rparr>\<rparr>"

theorem trade_conserves_totals_witness:
  "(\<Sum>a \<in> {5, 6}. cash (ledger_apply empty_ledger (TradeExecuted sample_trade)) a) = (\<Sum>a \<in> {5, 6}. cash empty_ledger a)"
  using trade_conserves_totals [of "{5, 6}" sample_trade empty_ledger] by (simp add: sample_trade_def)

text \<open>
  Cancelling an accepted resting order gives back exactly what accepting it locked: cash,
  positions and both reservations of every account return to their values, and the hold is gone.
\<close>

theorem accept_then_cancel_restores:
  assumes "oa_time_in_force acc = GTC" "oa_quantity acc \<noteq> 0" "ld_holds L (oa_account_id acc, oa_client_order_id acc) = None"
    and "oc_account_id can = oa_account_id acc" "oc_client_order_id can = oa_client_order_id acc"
  defines "L' \<equiv> ledger_apply (ledger_apply L (OrderAccepted acc)) (OrderCancelled can)"
  shows "ld_holds L' = ld_holds L \<and> (\<forall>a. cash L' a = cash L a \<and> cash_reserved L' a = cash_reserved L a) \<and>
    (\<forall>a i. position L' a i = position L a i \<and> position_reserved L' a i = position_reserved L a i) \<and>
    (\<forall>a. available_cash L' a = available_cash L a) \<and> (\<forall>a i. available_position L' a i = available_position L a i)"
proof -
  let ?a = "oa_account_id acc" and ?c = "oa_client_order_id acc"
  let ?h = "\<lparr>hd_instrument_id = oa_instrument_id acc, hd_side = oa_side acc, hd_limit_price = oa_price acc, hd_remaining = oa_quantity acc\<rparr>"
  let ?L1 = "open_hold L ?a ?c (oa_instrument_id acc) (oa_side acc) (oa_price acc) (oa_quantity acc)"
  note o = open_hold_effect [OF assms(2) refl, of L ?a ?c "oa_instrument_id acc" "oa_side acc" "oa_price acc"]
  have L': "L' = (release_hold_fully ?L1 ?a ?h)\<lparr>ld_holds := (ld_holds ?L1)((?a, ?c) := None)\<rparr>"
    using assms(1,4,5) by (simp add: L'_def on_order_accepted_def on_order_cancelled_def o(1) Let_def release_hold_effect(1))
  have f: "cash (M\<lparr>ld_holds := H\<rparr>) b = cash M b" "cash_reserved (M\<lparr>ld_holds := H\<rparr>) b = cash_reserved M b"
    "position (M\<lparr>ld_holds := H\<rparr>) b i = position M b i" "position_reserved (M\<lparr>ld_holds := H\<rparr>) b i = position_reserved M b i" for M H b i
    by (simp_all add: balance_defs)
  have "ld_holds L' = ld_holds L" using assms(3) by (simp add: L' o(1) fun_upd_idem)
  moreover have "cash L' b = cash L b" "cash_reserved L' b = cash_reserved L b"
    "position L' b i = position L b i" "position_reserved L' b i = position_reserved L b i" for b i
    unfolding L' f release_hold_effect(2-5) o(2-5) by simp_all
  ultimately show ?thesis by (simp add: available_eq)
qed

theorem accept_then_cancel_restores_witness:
  "available_cash (ledger_apply (ledger_apply empty_ledger (OrderAccepted sample_accepted))
     (OrderCancelled \<lparr>oc_event_sequence = 3, oc_command_sequence = 2, oc_account_id = 5, oc_client_order_id = 9,
        oc_exchange_order_id = 1, oc_instrument_id = 7\<rparr>)) 5 = available_cash empty_ledger 5"
  using accept_then_cancel_restores [of sample_accepted empty_ledger "\<lparr>oc_event_sequence = 3, oc_command_sequence = 2,
    oc_account_id = 5, oc_client_order_id = 9, oc_exchange_order_id = 1, oc_instrument_id = 7\<rparr>"]
  by (simp add: sample_accepted_def empty_ledger_def)

end
