(* ===== verification/Risk_Gate.thy ===== *)
theory Risk_Gate
  imports Engine_Properties Ledger
begin

text \<open>
  Pre-trade risk (\<open>exchange/risk/risk_engine.cpp\<close>) and its composition with the ledger and the
  matching engine (\<open>exchange/risk/risk_gated_engine.cpp\<close>): new orders and replaces are checked against
  the available balance before the engine sees them, and every event the engine emits is applied
  to the ledger.
\<close>

subsection \<open>The risk check\<close>

record RiskLimits =
  rl_max_order_quantity :: Quantity

definition default_limits :: RiskLimits where
  "default_limits = \<lparr>rl_max_order_quantity = 1000000\<rparr>"

definition check_new :: "RiskLimits \<Rightarrow> NewOrderCommand \<Rightarrow> Ledger \<Rightarrow> RejectReason" where
  "check_new limits cmd L =
     (if nc_quantity cmd > rl_max_order_quantity limits then OrderTooLarge
      else if nc_side cmd = Buy then
        (if available_cash L (nc_account_id cmd) < notional (nc_quantity cmd) (nc_price cmd)
         then InsufficientFunds else NoReason)
      else
        (if available_position L (nc_account_id cmd) (nc_instrument_id cmd) < nc_quantity cmd
         then InsufficientPosition else NoReason))"

definition check_replace :: "RiskLimits \<Rightarrow> ReplaceOrderCommand \<Rightarrow> Ledger \<Rightarrow> RejectReason" where
  "check_replace limits cmd L =
     (if rc_new_quantity cmd > rl_max_order_quantity limits then OrderTooLarge
      else case find_hold L (rc_account_id cmd) (rc_original_client_order_id cmd) of
        None \<Rightarrow> NoReason
      | Some h \<Rightarrow>
          if hd_instrument_id h \<noteq> rc_instrument_id cmd then NoReason
          else if hd_side h = Buy then
            (let old_required = notional (hd_remaining h) (hd_limit_price h);
                 new_required = notional (rc_new_quantity cmd) (rc_new_price cmd);
                 extra_required = max 0 (new_required - old_required)
             in if available_cash L (rc_account_id cmd) < extra_required then InsufficientFunds else NoReason)
          else
            (let extra_required = (if rc_new_quantity cmd > hd_remaining h then rc_new_quantity cmd - hd_remaining h else 0)
             in if available_position L (rc_account_id cmd) (rc_instrument_id cmd) < extra_required
                then InsufficientPosition else NoReason))"

subsection \<open>The gated engine\<close>

record RiskGatedEngine =
  rg_engine :: MatchingEngine
  rg_ledger :: Ledger
  rg_limits :: RiskLimits

text \<open>Running the engine with a sink that applies each event to the ledger first.\<close>

definition process_and_apply :: "RiskGatedEngine \<Rightarrow> ExchangeCommand \<Rightarrow> (RiskGatedEngine \<times> ExchangeEvent list) option" where
  "process_and_apply G cmd = do {
     (E, evs) \<leftarrow> process (rg_engine G) cmd;
     Some (G\<lparr>rg_engine := E, rg_ledger := fold (\<lambda>ev L. ledger_apply L ev) evs (rg_ledger G)\<rparr>, evs)
   }"

definition gated_process :: "RiskGatedEngine \<Rightarrow> ExchangeCommand \<Rightarrow> (RiskGatedEngine \<times> ExchangeEvent list) option" where
  "gated_process G cmd =
     (case cmd of
        NewOrder c \<Rightarrow>
          if \<not> knows_instrument (rg_engine G) (nc_instrument_id c) then
            (let (E, evs) = reject_new_order (rg_engine G) c InvalidInstrument in Some (G\<lparr>rg_engine := E\<rparr>, evs))
          else
            (let reason = check_new (rg_limits G) c (rg_ledger G) in
             if reason \<noteq> NoReason then
               (let (E, evs) = reject_new_order (rg_engine G) c reason in Some (G\<lparr>rg_engine := E\<rparr>, evs))
             else process_and_apply G cmd)
      | ReplaceOrder c \<Rightarrow>
          if \<not> knows_instrument (rg_engine G) (rc_instrument_id c) then
            (let (E, evs) = reject_replace_order (rg_engine G) c InvalidInstrument in Some (G\<lparr>rg_engine := E\<rparr>, evs))
          else
            (let reason = check_replace (rg_limits G) c (rg_ledger G) in
             if reason \<noteq> NoReason then
               (let (E, evs) = reject_replace_order (rg_engine G) c reason in Some (G\<lparr>rg_engine := E\<rparr>, evs))
             else process_and_apply G cmd)
      | CancelOrder c \<Rightarrow> process_and_apply G cmd)"

subsection \<open>The check in exact arithmetic\<close>

lemma ival_notional:
  assumes "unat q < 2 ^ 63" "in_i64 (int (unat q) * ival p)"
  shows "ival (notional q p) = int (unat q) * ival p"
  using assms by (simp add: notional_def ival_mult ival_I64_of)

text \<open>
  C16. A buy is let through only if the account can pay for all of it: when the order's
  notional fits 64 bits, a passing check means the available cash covers quantity times price as
  integers, and the reservation opened for it leaves the account's available cash non-negative.
\<close>

theorem passed_buy_is_covered:
  assumes "check_new limits cmd L = NoReason" "nc_side cmd = Buy"
    and "unat (rl_max_order_quantity limits) < 2 ^ 63" "in_i64 (int (unat (nc_quantity cmd)) * ival (nc_price cmd))"
  shows "int (unat (nc_quantity cmd)) * ival (nc_price cmd) \<le> ival (available_cash L (nc_account_id cmd)) \<and>
    (0 \<le> ival (nc_price cmd) \<longrightarrow> nc_quantity cmd \<noteq> 0 \<longrightarrow>
      0 \<le> ival (available_cash (open_hold L (nc_account_id cmd) (nc_client_order_id cmd) (nc_instrument_id cmd) Buy
        (nc_price cmd) (nc_quantity cmd)) (nc_account_id cmd)))"
proof -
  let ?q = "nc_quantity cmd" and ?p = "nc_price cmd" and ?a = "nc_account_id cmd"
  have q: "?q \<le> rl_max_order_quantity limits" "\<not> available_cash L ?a < notional ?q ?p"
    using assms(1,2) by (auto simp: check_new_def not_less split: if_splits)
  have "unat ?q < 2 ^ 63" using q(1) assms(3) by (simp add: word_le_nat_alt)
  then have n: "ival (notional ?q ?p) = int (unat ?q) * ival ?p" using assms(4) by (rule ival_notional)
  have le: "ival (notional ?q ?p) \<le> ival (available_cash L ?a)" using q(2) by (simp add: not_less i64_order_defs)
  have "0 \<le> ival (available_cash (open_hold L ?a (nc_client_order_id cmd) (nc_instrument_id cmd) Buy ?p ?q) ?a)"
    if "0 \<le> ival ?p" "?q \<noteq> 0"
  proof -
    have "available_cash (open_hold L ?a (nc_client_order_id cmd) (nc_instrument_id cmd) Buy ?p ?q) ?a =
        available_cash L ?a - notional ?q ?p"
      using open_hold_effect [OF that(2) refl, of L ?a "nc_client_order_id cmd" "nc_instrument_id cmd" Buy ?p]
      by (simp add: available_eq hold_cash_def)
    moreover have "0 \<le> ival (notional ?q ?p)" using that(1) n by simp
    then have "in_i64 (ival (available_cash L ?a) - ival (notional ?q ?p))"
      using le ival_range(2) [of "available_cash L ?a"] by (simp add: in_i64_def)
    ultimately show ?thesis using le by (simp add: ival_diff)
  qed
  then show ?thesis using le n by simp
qed

definition sample_buy :: NewOrderCommand where
  "sample_buy = sample_new Buy 3 100 10 GTC"

definition sample_ledger :: Ledger where
  "sample_ledger = deposit_cash empty_ledger 1 (I64 1500)"

theorem passed_buy_is_covered_witness:
  "check_new default_limits sample_buy sample_ledger = NoReason \<and>
   int (unat (nc_quantity sample_buy)) * ival (nc_price sample_buy) \<le> ival (available_cash sample_ledger (nc_account_id sample_buy))"
proof -
  have c: "check_new default_limits sample_buy sample_ledger = NoReason"
    by (simp add: check_new_def default_limits_def sample_buy_def sample_ledger_def deposit_cash_def balances_def empty_ledger_def
        set_balances_def available_cash_def no_balances_def notional_def i64_order_defs ival_def plus_i64_def minus_i64_def times_i64_def zero_i64_def)
  have b: "in_i64 (int (unat (nc_quantity sample_buy)) * ival (nc_price sample_buy))"
    by (simp add: sample_buy_def in_i64_def ival_def)
  have "nc_side sample_buy = Buy" "unat (rl_max_order_quantity default_limits) < 2 ^ 63"
    by (simp_all add: sample_buy_def default_limits_def)
  from passed_buy_is_covered [OF c this b] c show ?thesis by blast
qed

text \<open>The notional the check computes is the exact product modulo \<open>2 ^ 64\<close>, read as a signed number.\<close>

lemma ival_notional_wrapped:
  assumes "2 ^ 63 \<le> (int (unat q) * ival p) mod 2 ^ 64"
  shows "ival (notional q p) = (int (unat q) * ival p) mod 2 ^ 64 - 2 ^ 64"
proof -
  let ?N = "int (unat q) * ival p"
  have "i64_bits (notional q p) = word_of_int ?N" by (simp add: notional_def)
  then have "ival (notional q p) = sint (word_of_int ?N :: u64)" by (simp only: ival_def)
  then have s: "ival (notional q p) = signed_take_bit 63 ?N" by (simp only: signed_of_int) simp
  have "signed_take_bit 63 ?N = (?N mod 2 ^ 64 + 2 ^ 63) mod 2 ^ 64 - 2 ^ 63"
    by (simp add: signed_take_bit_eq_take_bit_shift take_bit_eq_mod mod_simps)
  moreover have "(m + 2 ^ 63) mod 2 ^ 64 = m + 2 ^ 63 - 2 ^ 64" if "2 ^ 63 \<le> m" "m < 2 ^ 64" for m :: int
    using that mod_add_self2 [of "m + 2 ^ 63 - 2 ^ 64" "2 ^ 64"] mod_pos_pos_trivial [of "m + 2 ^ 63 - 2 ^ 64" "2 ^ 64"] by (simp add: add.commute)
  then have "(?N mod 2 ^ 64 + 2 ^ 63) mod 2 ^ 64 = ?N mod 2 ^ 64 + 2 ^ 63 - 2 ^ 64" using assms by simp
  ultimately show ?thesis using s by simp
qed

text \<open>
  C17. Without a bound on the price the multiplication wraps, and the check can be passed without money: whenever the wrapped product is negative, that is when the
  exact product lies modulo \<open>2 ^ 64\<close> in the upper half, a buy at a positive price within the
  quantity limit passes the check for any account whose available cash is not negative, although its cost exceeds all cash an account can have, and the
  gated engine hands it to the matching engine.
\<close>

theorem unfunded_buy_passes_on_overflow:
  assumes "nc_side cmd = Buy" "nc_quantity cmd \<le> rl_max_order_quantity limits" "0 < nc_price cmd"
    and "2 ^ 63 \<le> (int (unat (nc_quantity cmd)) * ival (nc_price cmd)) mod 2 ^ 64" "0 \<le> ival (available_cash L (nc_account_id cmd))"
  shows "check_new limits cmd L = NoReason \<and>
    ival (available_cash L (nc_account_id cmd)) < int (unat (nc_quantity cmd)) * ival (nc_price cmd) \<and>
    (knows_instrument E (nc_instrument_id cmd) \<longrightarrow>
      gated_process \<lparr>rg_engine = E, rg_ledger = L, rg_limits = limits\<rparr> (NewOrder cmd) =
      process_and_apply \<lparr>rg_engine = E, rg_ledger = L, rg_limits = limits\<rparr> (NewOrder cmd))"
proof -
  let ?N = "int (unat (nc_quantity cmd)) * ival (nc_price cmd)"
  have "?N mod 2 ^ 64 < 2 ^ 64" by simp
  then have "ival (notional (nc_quantity cmd) (nc_price cmd)) < 0" using ival_notional_wrapped [OF assms(4)] by linarith
  then have "\<not> available_cash L (nc_account_id cmd) < notional (nc_quantity cmd) (nc_price cmd)"
    using assms(5) by (simp add: less_i64_def)
  then have c: "check_new limits cmd L = NoReason" using assms(1,2) by (simp add: check_new_def not_less [symmetric])
  have "0 \<le> ?N" using assms(3) by (simp add: less_i64_def ival_def)
  then have "?N mod 2 ^ 64 \<le> ?N" by (simp add: zmod_le_nonneg_dividend)
  then have "ival (available_cash L (nc_account_id cmd)) < ?N" using assms(4) ival_range(2) [of "available_cash L (nc_account_id cmd)"] by linarith
  then show ?thesis using c by (simp add: gated_process_def)
qed

definition overflowing_buy :: NewOrderCommand where
  "overflowing_buy = sample_new Buy 1 (2 ^ 62) 2 GTC"

theorem unfunded_buy_passes_on_overflow_witness:
  "check_new default_limits overflowing_buy empty_ledger = NoReason \<and>
   ival (available_cash empty_ledger (nc_account_id overflowing_buy)) < int (unat (nc_quantity overflowing_buy)) * ival (nc_price overflowing_buy)"
proof -
  have "2 ^ 63 \<le> (int (unat (nc_quantity overflowing_buy)) * ival (nc_price overflowing_buy)) mod 2 ^ 64"
    by (simp add: overflowing_buy_def ival_def)
  moreover have "nc_side overflowing_buy = Buy" "nc_quantity overflowing_buy \<le> rl_max_order_quantity default_limits" "0 < nc_price overflowing_buy"
    "0 \<le> ival (available_cash empty_ledger (nc_account_id overflowing_buy))"
    by (simp_all add: overflowing_buy_def default_limits_def i64_order_defs ival_def empty_ledger_def available_cash_def)
  ultimately show ?thesis using unfunded_buy_passes_on_overflow [of overflowing_buy default_limits empty_ledger] by blast
qed

end
