(* ===== verification/Byte_IO.thy ===== *)
theory Byte_IO
  imports Exchange_Core
begin

text \<open>
  Big-endian byte encoding (\<open>common/byte_io.hpp\<close>): the \<open>put\<close> functions append to a buffer, the
  \<open>ByteReader\<close> reads from a span with a bounds check and leaves its position alone when there is
  not enough left. The lemmas give each pair as a pair of inverse functions on fields of fixed
  width, in the form the codecs rewrite with: what a reader has left is \<open>br_rest\<close>, a \<open>put\<close> is an
  append of the field's bytes, a \<open>get\<close> splits the field off. The locale \<open>framed_codec\<close> states what
  every message codec of the program promises about its own frames, and derives what the readers
  of byte streams rely on.
\<close>

subsection \<open>Writing\<close>

type_synonym byte = u8

definition byte_of :: "nat \<Rightarrow> 'a::len word \<Rightarrow> byte" where
  "byte_of shift v = ucast (drop_bit shift v AND 0xFF)"

definition put_u8 :: "u8 \<Rightarrow> byte list \<Rightarrow> byte list" where
  "put_u8 v buf = buf @ [v]"

definition put_u16 :: "u16 \<Rightarrow> byte list \<Rightarrow> byte list" where
  "put_u16 v buf = (buf @ [byte_of 8 v]) @ [byte_of 0 v]"

definition put_u32 :: "u32 \<Rightarrow> byte list \<Rightarrow> byte list" where
  "put_u32 v buf = fold (\<lambda>shift buf. buf @ [byte_of shift v]) [24, 16, 8, 0] buf"

definition put_u64 :: "u64 \<Rightarrow> byte list \<Rightarrow> byte list" where
  "put_u64 v buf = fold (\<lambda>shift buf. buf @ [byte_of shift v]) [56, 48, 40, 32, 24, 16, 8, 0] buf"

definition put_i64 :: "i64 \<Rightarrow> byte list \<Rightarrow> byte list" where
  "put_i64 v buf = put_u64 (i64_bits v) buf"

subsection \<open>Reading\<close>

record ByteReader =
  br_data :: "byte list"
  br_pos :: nat

definition new_reader :: "byte list \<Rightarrow> ByteReader" where
  "new_reader data = \<lparr>br_data = data, br_pos = 0\<rparr>"

definition remaining :: "ByteReader \<Rightarrow> nat" where
  "remaining r = length (br_data r) - br_pos r"

text \<open>The loop \<open>for (i = 0; i < n; ++i) v = (v << 8) | data_[pos_ + i]\<close>.\<close>

definition read_loop :: "nat \<Rightarrow> ByteReader \<Rightarrow> 'a::len word" where
  "read_loop n r = foldl (\<lambda>v i. push_bit 8 v OR ucast (br_data r ! (br_pos r + i))) 0 [0..<n]"

definition get_u8 :: "ByteReader \<Rightarrow> u8 option \<times> ByteReader" where
  "get_u8 r = (if remaining r < 1 then (None, r)
     else (Some (br_data r ! br_pos r), r\<lparr>br_pos := br_pos r + 1\<rparr>))"

definition get_u16 :: "ByteReader \<Rightarrow> u16 option \<times> ByteReader" where
  "get_u16 r = (if remaining r < 2 then (None, r)
     else (Some (read_loop 2 r), r\<lparr>br_pos := br_pos r + 2\<rparr>))"

definition get_u32 :: "ByteReader \<Rightarrow> u32 option \<times> ByteReader" where
  "get_u32 r = (if remaining r < 4 then (None, r)
     else (Some (read_loop 4 r), r\<lparr>br_pos := br_pos r + 4\<rparr>))"

definition get_u64 :: "ByteReader \<Rightarrow> u64 option \<times> ByteReader" where
  "get_u64 r = (if remaining r < 8 then (None, r)
     else (Some (read_loop 8 r), r\<lparr>br_pos := br_pos r + 8\<rparr>))"

definition get_i64 :: "ByteReader \<Rightarrow> i64 option \<times> ByteReader" where
  "get_i64 r = (case get_u64 r of
     (None, r') \<Rightarrow> (None, r')
   | (Some v, r') \<Rightarrow> (Some (I64 v), r'))"

subsection \<open>Big-endian values\<close>

definition be_bytes :: "nat \<Rightarrow> 'a::len word \<Rightarrow> byte list" where
  "be_bytes n v = map (\<lambda>i. byte_of (8 * (n - 1 - i)) v) [0..<n]"

definition be_value :: "byte list \<Rightarrow> 'a::len word" where
  "be_value bs = foldl (\<lambda>v b. push_bit 8 v OR ucast b) 0 bs"

lemma bit_byte_of: "bit (byte_of s v) k \<longleftrightarrow> k < 8 \<and> bit v (s + k)" for v :: "'a::len word"
proof -
  have "bit (0xFF :: 'a word) k \<longleftrightarrow> k < 8 \<and> k < LENGTH('a)"
  proof -
    have "(0xFF :: 'a word) = mask 8" by (simp add: mask_eq_exp_minus_1)
    then show ?thesis by (simp only: bit_mask_iff possible_bit_word) auto
  qed
  then show ?thesis by (auto simp: byte_of_def bit_and_iff bit_drop_bit_eq bit_ucast_iff dest: bit_imp_le_length)
qed

lemma be_value_snoc: "be_value (bs @ [b]) = push_bit 8 (be_value bs) OR ucast b"
  by (simp add: be_value_def)

lemma bit_be_value:
  "bit (be_value bs :: 'a::len word) k \<longleftrightarrow>
     k < LENGTH('a) \<and> k div 8 < length bs \<and> bit (bs ! (length bs - 1 - k div 8)) (k mod 8)"
proof (induction bs arbitrary: k rule: rev_induct)
  case Nil
  then show ?case by (simp add: be_value_def)
next
  case (snoc b bs)
  show ?case
  proof (cases "k < 8")
    case True
    then show ?thesis by (simp add: be_value_snoc bit_or_iff bit_push_bit_iff bit_ucast_iff nth_append)
  next
    case False
    then obtain j where j: "k = j + 8" by (metis add.commute le_Suc_ex not_less)
    have nb: "\<not> bit b k" using False by (auto dest: bit_imp_le_length)
    have "bit (be_value (bs @ [b]) :: 'a word) k \<longleftrightarrow> k < LENGTH('a) \<and> bit (be_value bs :: 'a word) j"
      using nb by (auto simp: be_value_snoc bit_or_iff bit_push_bit_iff bit_ucast_iff j)
    also have "\<dots> \<longleftrightarrow> k < LENGTH('a) \<and> j div 8 < length bs \<and> bit (bs ! (length bs - 1 - j div 8)) (j mod 8)"
      using j by (auto simp: snoc.IH)
    also have "\<dots> \<longleftrightarrow> k < LENGTH('a) \<and> k div 8 < length (bs @ [b]) \<and>
        bit ((bs @ [b]) ! (length (bs @ [b]) - 1 - k div 8)) (k mod 8)"
      by (auto simp: j nth_append div_add_self2)
    finally show ?thesis .
  qed
qed

lemma length_be_bytes [simp]: "length (be_bytes n v) = n"
  by (simp add: be_bytes_def)

lemma be_value_bytes: "LENGTH('a) = 8 * n \<Longrightarrow> be_value (be_bytes n v) = (v :: 'a::len word)"
proof (rule bit_word_eqI)
  fix k assume n: "LENGTH('a) = 8 * n" and k: "k < LENGTH('a)"
  have "k div 8 < n" using n k by simp
  then have "8 * (n - 1 - (n - 1 - k div 8)) + k mod 8 = k" by simp
  with \<open>k div 8 < n\<close> k show "bit (be_value (be_bytes n v) :: 'a word) k = bit v k"
    by (simp add: bit_be_value be_bytes_def bit_byte_of)
qed

lemma be_bytes_value:
  assumes "LENGTH('a) = 8 * n" "length bs = n"
  shows "be_bytes n (be_value bs :: 'a::len word) = bs"
proof (rule nth_equalityI)
  fix i assume "i < length (be_bytes n (be_value bs :: 'a word))"
  then have i: "i < n" by simp
  have "bit (byte_of (8 * (n - 1 - i)) (be_value bs :: 'a word)) k = bit (bs ! i) k" if k: "k < 8" for k
  proof -
    have "8 * (n - 1 - i) + k < 8 * n" using i k by simp
    moreover have "(8 * (n - 1 - i) + k) div 8 = n - 1 - i" "(8 * (n - 1 - i) + k) mod 8 = k" using k by simp_all
    ultimately show ?thesis using assms i k by (simp add: bit_byte_of bit_be_value)
  qed
  then have "byte_of (8 * (n - 1 - i)) (be_value bs :: 'a word) = bs ! i" by (auto intro!: bit_word_eqI)
  then show "be_bytes n (be_value bs :: 'a word) ! i = bs ! i" using i by (simp add: be_bytes_def)
qed (simp add: assms(2))

subsection \<open>Fields\<close>

named_theorems wire_simps
  \<open>reading back what was written, field by field\<close>

lemma put_append [wire_simps]:
  "put_u8 v buf = buf @ [v]" "put_u16 w buf = buf @ be_bytes 2 w" "put_u32 x buf = buf @ be_bytes 4 x"
  "put_u64 y buf = buf @ be_bytes 8 y" "put_i64 z buf = buf @ be_bytes 8 (i64_bits z)"
  by (simp_all add: put_u8_def put_u16_def put_u32_def put_u64_def put_i64_def be_bytes_def upt_rec numeral_eq_Suc)

definition br_rest :: "ByteReader \<Rightarrow> byte list" where
  "br_rest r = drop (br_pos r) (br_data r)"

definition advance :: "nat \<Rightarrow> ByteReader \<Rightarrow> ByteReader" where
  "advance n r = r\<lparr>br_pos := br_pos r + n\<rparr>"

lemma br_rest_simps [wire_simps]: "br_rest (new_reader data) = data" "br_rest (advance n r) = drop n (br_rest r)"
  by (simp_all add: br_rest_def new_reader_def advance_def add.commute)

lemma remaining_rest: "remaining r = length (br_rest r)"
  by (simp add: remaining_def br_rest_def)

lemma read_loop_rest:
  assumes "n \<le> length (br_rest r)"
  shows "read_loop n r = (be_value (take n (br_rest r)) :: 'a::len word)"
proof -
  have "(be_value (take m (br_rest r)) :: 'a word) = read_loop m r" if "m \<le> n" for m
    using that
  proof (induction m)
    case 0
    then show ?case by (simp add: be_value_def read_loop_def)
  next
    case (Suc m)
    then have "m < length (br_rest r)" using assms by simp
    then have "take (Suc m) (br_rest r) = take m (br_rest r) @ [br_data r ! (br_pos r + m)]"
      by (simp add: take_Suc_conv_app_nth) (simp add: br_rest_def)
    then show ?case using Suc by (simp add: be_value_snoc read_loop_def)
  qed
  from this [of n] show ?thesis by simp
qed

lemma get_rest [wire_simps]:
  "get_u8 r = (if length (br_rest r) < 1 then (None, r) else (Some (hd (br_rest r)), advance 1 r))"
  "get_u16 r = (if length (br_rest r) < 2 then (None, r) else (Some (be_value (take 2 (br_rest r))), advance 2 r))"
  "get_u32 r = (if length (br_rest r) < 4 then (None, r) else (Some (be_value (take 4 (br_rest r))), advance 4 r))"
  "get_u64 r = (if length (br_rest r) < 8 then (None, r) else (Some (be_value (take 8 (br_rest r))), advance 8 r))"
  "get_i64 r = (if length (br_rest r) < 8 then (None, r) else (Some (I64 (be_value (take 8 (br_rest r)))), advance 8 r))"
proof -
  have "br_data r ! br_pos r = hd (br_rest r)" if "\<not> length (br_rest r) < 1"
    using that by (simp add: br_rest_def hd_drop_conv_nth)
  then show "get_u8 r = (if length (br_rest r) < 1 then (None, r) else (Some (hd (br_rest r)), advance 1 r))"
    by (simp add: get_u8_def remaining_rest advance_def)
qed (simp_all add: get_u16_def get_u32_def get_u64_def get_i64_def remaining_rest advance_def read_loop_rest)

lemma be_roundtrip [wire_simps]:
  "be_value (be_bytes 2 w) = (w :: u16)" "be_value (be_bytes 4 x) = (x :: u32)" "be_value (be_bytes 8 y) = (y :: u64)"
  by (simp_all add: be_value_bytes)

lemma be_take_drop [wire_simps]:
  "take n (be_bytes n v) = be_bytes n v" "drop n (be_bytes n v) = []"
  by simp_all

lemma be_bytes_back:
  "length bs = 2 \<Longrightarrow> be_bytes 2 (be_value bs :: u16) = bs" "length bs = 4 \<Longrightarrow> be_bytes 4 (be_value bs :: u32) = bs"
  "length bs = 8 \<Longrightarrow> be_bytes 8 (be_value bs :: u64) = bs"
  by (simp_all add: be_bytes_value)

text \<open>Enough bytes always are the encoding of some field.\<close>

lemma field_exhaust:
  "1 \<le> length bs \<Longrightarrow> \<exists>v rest. bs = [v] @ rest"
  "2 \<le> length bs \<Longrightarrow> \<exists>(w :: u16) rest. bs = be_bytes 2 w @ rest"
  "4 \<le> length bs \<Longrightarrow> \<exists>(x :: u32) rest. bs = be_bytes 4 x @ rest"
  "8 \<le> length bs \<Longrightarrow> \<exists>(y :: u64) rest. bs = be_bytes 8 y @ rest"
proof -
  show "\<exists>v rest. bs = [v] @ rest" if "1 \<le> length bs" using that by (cases bs) auto
  show "\<exists>(w :: u16) rest. bs = be_bytes 2 w @ rest" if "2 \<le> length bs"
    using that be_bytes_back(1) [of "take 2 bs"] by (metis append_take_drop_id length_take min.absorb2)
  show "\<exists>(x :: u32) rest. bs = be_bytes 4 x @ rest" if "4 \<le> length bs"
    using that be_bytes_back(2) [of "take 4 bs"] by (metis append_take_drop_id length_take min.absorb2)
  show "\<exists>(y :: u64) rest. bs = be_bytes 8 y @ rest" if "8 \<le> length bs"
    using that be_bytes_back(3) [of "take 8 bs"] by (metis append_take_drop_id length_take min.absorb2)
qed

text \<open>
  Re-encoding what was read gives the bytes back: rewriting with \<open>wire_back\<close> turns the claim that a
  byte string is the concatenation of its re-encoded fields into its length.
\<close>

named_theorems wire_back
  \<open>re-encoding the fields of a byte string\<close>

lemma take_append_back [wire_back]: "bs = take n bs @ xs \<longleftrightarrow> drop n bs = xs"
  by (metis append_take_drop_id same_append_eq)

lemma take_all_back [wire_back]: "bs = take n bs \<longleftrightarrow> length bs \<le> n"
  by (metis take_all_iff)

lemma hd_append_back [wire_back]: "bs \<noteq> [] \<Longrightarrow> bs = hd bs # xs \<longleftrightarrow> drop 1 bs = xs"
  by (cases bs) auto

declare be_bytes_back [wire_back]

lemma be_bytes_inject [simp]:
  "be_bytes 2 w = be_bytes 2 w' \<longleftrightarrow> w = (w' :: u16)" "be_bytes 4 x = be_bytes 4 x' \<longleftrightarrow> x = (x' :: u32)"
  "be_bytes 8 y = be_bytes 8 y' \<longleftrightarrow> y = (y' :: u64)"
  by (metis be_roundtrip)+

subsection \<open>The enumerations on the wire\<close>

definition is_valid_side :: "u8 \<Rightarrow> bool" where
  "is_valid_side raw \<longleftrightarrow> raw = side_code Buy \<or> raw = side_code Sell"

text \<open>\<open>static_cast\<close> back to the enumeration, after the validity check.\<close>

definition to_side :: "u8 \<Rightarrow> Side" where
  "to_side raw = (if raw = side_code Buy then Buy else Sell)"

definition is_valid_order_type :: "u8 \<Rightarrow> bool" where
  "is_valid_order_type raw \<longleftrightarrow> raw = order_type_code Limit"

definition to_order_type :: "u8 \<Rightarrow> OrderType" where
  "to_order_type raw = Limit"

definition is_valid_time_in_force :: "u8 \<Rightarrow> bool" where
  "is_valid_time_in_force raw \<longleftrightarrow> raw = tif_code GTC \<or> raw = tif_code IOC \<or> raw = tif_code FOK"

definition to_time_in_force :: "u8 \<Rightarrow> TimeInForce" where
  "to_time_in_force raw = (if raw = tif_code GTC then GTC else if raw = tif_code IOC then IOC else FOK)"

lemma enum_codes [wire_simps]:
  "is_valid_side (side_code s)" "to_side (side_code s) = s"
  "is_valid_order_type (order_type_code t)" "to_order_type (order_type_code t) = t"
  "is_valid_time_in_force (tif_code f)" "to_time_in_force (tif_code f) = f"
  by (cases s; cases t; cases f; simp add: is_valid_side_def to_side_def is_valid_order_type_def to_order_type_def
      is_valid_time_in_force_def to_time_in_force_def)+

lemma enum_ex: "(\<exists>s. P s) \<longleftrightarrow> P Buy \<or> P Sell" "(\<exists>t. Q t) \<longleftrightarrow> Q Limit" "(\<exists>f. R f) \<longleftrightarrow> R GTC \<or> R IOC \<or> R FOK"
  by (metis Side.exhaust, metis OrderType.exhaust, metis TimeInForce.exhaust)

lemma enum_valid:
  "is_valid_side raw \<longleftrightarrow> (\<exists>s. raw = side_code s)" "is_valid_order_type raw \<longleftrightarrow> (\<exists>t. raw = order_type_code t)"
  "is_valid_time_in_force raw \<longleftrightarrow> (\<exists>f. raw = tif_code f)"
  by (simp_all add: is_valid_side_def is_valid_order_type_def is_valid_time_in_force_def enum_ex)

lemma enum_back [wire_back]:
  "is_valid_side raw \<Longrightarrow> side_code (to_side raw) = raw"
  "is_valid_order_type raw \<Longrightarrow> order_type_code (to_order_type raw) = raw"
  "is_valid_time_in_force raw \<Longrightarrow> tif_code (to_time_in_force raw) = raw"
  by (auto simp: enum_valid enum_codes)

subsection \<open>Codecs of self-delimiting frames\<close>

text \<open>
  The contract between a message codec and everything that reads a stream of its frames: decoding
  the encoding of a message, whatever follows it, gives the message back. An exact codec accepts
  nothing else.
\<close>

locale framed_codec =
  fixes encode :: "'m \<Rightarrow> byte list" and decode :: "byte list \<Rightarrow> 'e + 'm"
  assumes decode_encode: "decode (encode m @ rest) = Inr m"
    and encode_nonempty: "encode m \<noteq> []"
begin

lemma encode_prefix_free: "encode m @ r = encode m' @ r' \<longleftrightarrow> m = m' \<and> r = r'"
  by (metis decode_encode same_append_eq sum.inject(2))

lemma encode_inject: "encode m = encode m' \<longleftrightarrow> m = m'"
  using encode_prefix_free [of m "[]" m' "[]"] by simp

lemma stream_inject: "concat (map encode ms) = concat (map encode ms') \<longleftrightarrow> ms = ms'"
proof (induction ms arbitrary: ms')
  case Nil
  then show ?case by (cases ms') (auto simp: encode_nonempty)
next
  case (Cons m ms)
  then show ?case by (cases ms') (auto simp: encode_nonempty encode_prefix_free)
qed

end

locale exact_codec = framed_codec +
  assumes decode_only: "decode bs = Inr m \<Longrightarrow> \<exists>rest. bs = encode m @ rest"
begin

lemma decode_iff: "decode bs = Inr m \<longleftrightarrow> (\<exists>rest. bs = encode m @ rest)"
  using decode_only decode_encode by blast

end

text \<open>
  How every codec of the program is built: a fixed-size header that announces the payload size, a
  check of that size against the message type, a bounds check, and a payload decoder.
\<close>

locale sized_codec =
  fixes header_size :: nat and header_frame :: "'h \<Rightarrow> byte list" and read_header :: "byte list \<Rightarrow> 'e + 'h"
    and announced :: "'h \<Rightarrow> nat" and expected :: "'h \<Rightarrow> nat" and read_payload :: "'h \<Rightarrow> byte list \<Rightarrow> 'e + 'm"
    and header_for :: "'m \<Rightarrow> 'h" and payload_for :: "'m \<Rightarrow> byte list" and wrong_size :: 'e and too_short :: 'e
    and frame :: "'m \<Rightarrow> byte list" and decode :: "byte list \<Rightarrow> 'e + 'm"
  assumes frame_eq: "frame m = header_frame (header_for m) @ payload_for m"
    and decode_eq: "decode bs = (case read_header bs of Inl e \<Rightarrow> Inl e
      | Inr h \<Rightarrow> if announced h \<noteq> expected h then Inl wrong_size
          else if length bs < header_size + announced h then Inl too_short
          else read_payload h (take (announced h) (drop header_size bs)))"
    and header_read: "read_header (header_frame h @ rest) = Inr h"
    and payload_read: "read_payload (header_for m) (payload_for m) = Inr m"
    and header_length: "length (header_frame h) = header_size" and header_size_pos: "0 < header_size"
    and announced_for: "announced (header_for m) = expected (header_for m)"
    and payload_length: "length (payload_for m) = expected (header_for m)"
begin

lemma length_frame: "length (frame m) = header_size + expected (header_for m)"
  by (simp add: frame_eq header_length payload_length)

lemma frame_accepted: "decode (frame m @ rest) = Inr m"
  by (simp add: frame_eq decode_eq header_read announced_for header_length payload_length payload_read)

lemma cut_after_header:
  assumes "header_size \<le> k" "k < length (frame m)"
  shows "decode (take k (frame m)) = Inl too_short"
proof -
  have "take k (frame m) = header_frame (header_for m) @ take (k - header_size) (payload_for m)"
    using assms by (simp add: frame_eq header_length)
  then show ?thesis using assms by (simp add: decode_eq header_read announced_for length_frame header_length payload_length)
qed

text \<open>What a reader does that first reads the header alone and then as much as it announces.\<close>

lemma header_of_frame: "read_header (take header_size (frame m @ rest)) = Inr (header_for m)"
  using header_read [of "header_for m" "[]"] by (simp add: frame_eq header_length)

lemma frame_by_header:
  "take header_size (frame m @ rest) @ take (announced (header_for m)) (drop header_size (frame m @ rest)) = frame m"
  "drop (announced (header_for m)) (drop header_size (frame m @ rest)) = rest"
  "length (take (announced (header_for m)) (drop header_size (frame m @ rest))) = announced (header_for m)"
  "length (take header_size (frame m @ rest)) = header_size"
  by (simp_all add: length_frame announced_for frame_eq header_length payload_length)

end

sublocale sized_codec \<subseteq> framed_codec frame decode
proof unfold_locales
  show "frame m \<noteq> []" for m using length_frame [of m] header_size_pos by auto
qed (rule frame_accepted)

locale exact_sized_codec = sized_codec +
  assumes header_only: "read_header bs = Inr h \<Longrightarrow> \<exists>rest. bs = header_frame h @ rest"
    and payload_only: "read_payload h bs = Inr m \<Longrightarrow> announced h = expected h \<Longrightarrow> length bs = expected h \<Longrightarrow>
      h = header_for m \<and> bs = payload_for m"

sublocale exact_sized_codec \<subseteq> exact_codec frame decode
proof unfold_locales
  fix bs m assume dec: "decode bs = Inr m"
  then obtain h where "read_header bs = Inr h" by (auto simp: decode_eq split: sum.splits)
  then obtain rest where bs: "bs = header_frame h @ rest" using header_only by blast
  have sz: "announced h = expected h" "announced h \<le> length rest"
    and pay: "read_payload h (take (announced h) rest) = Inr m"
    using dec by (auto simp: decode_eq bs header_read header_length split: if_splits)
  then have "h = header_for m \<and> take (announced h) rest = payload_for m"
    using payload_only [OF pay sz(1)] by (metis length_take min.absorb2)
  then have "bs = frame m @ drop (announced h) rest" by (metis append.assoc append_take_drop_id bs frame_eq)
  then show "\<exists>rest. bs = frame m @ rest" by blast
qed

text \<open>A reader that peels one frame at a time off a stream whose frames a codec wrote.\<close>

locale frame_stream = framed_codec +
  fixes read_next :: "byte list \<Rightarrow> (('e + 'm) \<times> byte list) option"
  assumes next_end: "read_next [] = None"
    and next_frame: "read_next (encode m @ rest) = Some (Inr m, rest)"
    and next_progress: "read_next bs = Some (x, rest) \<Longrightarrow> length rest < length bs"

text \<open>Reading until the clean end of the stream, at most \<open>n\<close> frames.\<close>

fun read_frames :: "(byte list \<Rightarrow> (('e + 'm) \<times> byte list) option) \<Rightarrow> nat \<Rightarrow> byte list \<Rightarrow> ('e + 'm) list" where
  "read_frames rd 0 bs = []"
| "read_frames rd (Suc n) bs = (case rd bs of None \<Rightarrow> [] | Some (x, rest) \<Rightarrow> x # read_frames rd n rest)"

context frame_stream
begin

lemma read_all_frames: "length ms \<le> n \<Longrightarrow> read_frames read_next n (concat (map encode ms)) = map Inr ms"
proof (induction ms arbitrary: n)
  case Nil
  then show ?case by (cases n) (simp_all add: next_end)
next
  case (Cons m ms)
  then obtain k where "n = Suc k" by (cases n) simp_all
  with Cons show ?case by (simp add: next_frame)
qed

lemma read_frames_stable: "length bs \<le> n \<Longrightarrow> read_frames read_next n bs = read_frames read_next (length bs) bs"
proof (induction "length bs" arbitrary: n bs rule: less_induct)
  case less
  show ?case
  proof (cases "read_next bs")
    case None
    then show ?thesis by (cases n; cases "length bs") simp_all
  next
    case (Some p)
    then obtain x rest where p: "read_next bs = Some (x, rest)" by (cases p) auto
    have lt: "length rest < length bs" using next_progress [OF p] .
    then obtain k l where kl: "n = Suc k" "length bs = Suc l" using less.prems by (cases n; cases "length bs") auto
    have "length rest \<le> k" "length rest \<le> l" using lt less.prems kl by simp_all
    then show ?thesis using less.hyps [OF lt, of k] less.hyps [OF lt, of l] p kl by simp
  qed
qed

end

end
