(* ===== verification/Command_Journal.thy ===== *)
theory Command_Journal
  imports Byte_IO Matching_Engine
begin

text \<open>
  The command journal (\<open>exchange/persistence/\<close>): the codec of journal frames, the writer, the reader
  that takes one frame at a time off a file, replay of a journal into a fresh engine, and the
  FNV-1a fingerprint of an engine snapshot. A file is the list of the bytes in it; reading past
  its end returns fewer bytes, as \<open>ifstream::read\<close> with \<open>gcount\<close> does.
\<close>

subsection \<open>Frames\<close>

definition cj_HEADER_SIZE :: nat where
  "cj_HEADER_SIZE = 12"

datatype CommandMessageType = CmNewOrder | CmCancelOrder | CmReplaceOrder | CmRegisterInstrument

fun command_type_code :: "CommandMessageType \<Rightarrow> u8" where
  "command_type_code CmNewOrder = 1"
| "command_type_code CmCancelOrder = 2"
| "command_type_code CmReplaceOrder = 3"
| "command_type_code CmRegisterInstrument = 4"

record CommandHeader =
  ch_type :: CommandMessageType
  ch_payload_size :: u16
  ch_command_sequence :: CommandSequence

fun command_payload_size_for :: "CommandMessageType \<Rightarrow> nat" where
  "command_payload_size_for CmNewOrder = 8 + 8 + 4 + 1 + 8 + 8 + 1 + 1"
| "command_payload_size_for CmCancelOrder = 8 + 8 + 4"
| "command_payload_size_for CmReplaceOrder = 8 + 8 + 8 + 4 + 8 + 8"
| "command_payload_size_for CmRegisterInstrument = 4"

record RegisterInstrumentRecord =
  ri_instrument_id :: InstrumentId

datatype JournalFrame = FrameCommand ExchangeCommand | FrameRegister RegisterInstrumentRecord

datatype CommandDecodeError =
    CdTruncatedHeader
  | CdTruncatedPayload
  | CdInvalidReserved
  | CdInvalidMessageType
  | CdInvalidMessageSize
  | CdInvalidSide
  | CdInvalidOrderType
  | CdInvalidTimeInForce

type_synonym DecodedFrame = "CommandDecodeError + JournalFrame"

fun command_error_string :: "CommandDecodeError \<Rightarrow> string" where
  "command_error_string CdTruncatedHeader = ''TruncatedHeader''"
| "command_error_string CdTruncatedPayload = ''TruncatedPayload''"
| "command_error_string CdInvalidReserved = ''InvalidReserved''"
| "command_error_string CdInvalidMessageType = ''InvalidMessageType''"
| "command_error_string CdInvalidMessageSize = ''InvalidMessageSize''"
| "command_error_string CdInvalidSide = ''InvalidSide''"
| "command_error_string CdInvalidOrderType = ''InvalidOrderType''"
| "command_error_string CdInvalidTimeInForce = ''InvalidTimeInForce''"

subsection \<open>Encoder\<close>

definition cj_put_header :: "CommandMessageType \<Rightarrow> CommandSequence \<Rightarrow> u16 \<Rightarrow> byte list \<Rightarrow> byte list" where
  "cj_put_header ty command_sequence payload_size out =
     put_u64 command_sequence (put_u16 payload_size (put_u8 0 (put_u8 (command_type_code ty) out)))"

fun encode_command :: "ExchangeCommand \<Rightarrow> byte list \<Rightarrow> byte list" where
  "encode_command (NewOrder cmd) out =
     (let out = cj_put_header CmNewOrder (nc_command_sequence cmd) (of_nat (command_payload_size_for CmNewOrder)) out;
          out = put_u64 (nc_account_id cmd) out;
          out = put_u64 (nc_client_order_id cmd) out;
          out = put_u32 (nc_instrument_id cmd) out;
          out = put_u8 (side_code (nc_side cmd)) out;
          out = put_i64 (nc_price cmd) out;
          out = put_u64 (nc_quantity cmd) out;
          out = put_u8 (order_type_code (nc_order_type cmd)) out
      in put_u8 (tif_code (nc_time_in_force cmd)) out)"
| "encode_command (CancelOrder cmd) out =
     (let out = cj_put_header CmCancelOrder (cc_command_sequence cmd) (of_nat (command_payload_size_for CmCancelOrder)) out;
          out = put_u64 (cc_account_id cmd) out;
          out = put_u64 (cc_client_order_id cmd) out
      in put_u32 (cc_instrument_id cmd) out)"
| "encode_command (ReplaceOrder cmd) out =
     (let out = cj_put_header CmReplaceOrder (rc_command_sequence cmd) (of_nat (command_payload_size_for CmReplaceOrder)) out;
          out = put_u64 (rc_account_id cmd) out;
          out = put_u64 (rc_original_client_order_id cmd) out;
          out = put_u64 (rc_new_client_order_id cmd) out;
          out = put_u32 (rc_instrument_id cmd) out;
          out = put_i64 (rc_new_price cmd) out
      in put_u64 (rc_new_quantity cmd) out)"

definition encode_register_instrument :: "InstrumentId \<Rightarrow> byte list \<Rightarrow> byte list" where
  "encode_register_instrument i out =
     put_u32 i (cj_put_header CmRegisterInstrument 0 (of_nat (command_payload_size_for CmRegisterInstrument)) out)"

subsection \<open>Decoder\<close>

definition cj_is_known_type :: "u8 \<Rightarrow> bool" where
  "cj_is_known_type raw \<longleftrightarrow> raw = command_type_code CmNewOrder \<or> raw = command_type_code CmCancelOrder \<or>
     raw = command_type_code CmReplaceOrder \<or> raw = command_type_code CmRegisterInstrument"

definition to_command_type :: "u8 \<Rightarrow> CommandMessageType" where
  "to_command_type raw =
     (if raw = command_type_code CmNewOrder then CmNewOrder
      else if raw = command_type_code CmCancelOrder then CmCancelOrder
      else if raw = command_type_code CmReplaceOrder then CmReplaceOrder
      else CmRegisterInstrument)"

definition decode_command_header :: "byte list \<Rightarrow> CommandDecodeError + CommandHeader" where
  "decode_command_header data =
     (if length data < cj_HEADER_SIZE then Inl CdTruncatedHeader
      else let
        r = new_reader (take cj_HEADER_SIZE data);
        (type_raw, r) = get_u8 r;
        (reserved, r) = get_u8 r;
        (payload_size, r) = get_u16 r;
        (command_sequence, r) = get_u64 r
      in case (type_raw, reserved, payload_size, command_sequence) of
        (Some type_raw, Some reserved, Some payload_size, Some command_sequence) \<Rightarrow>
          if reserved \<noteq> 0 then Inl CdInvalidReserved
          else if \<not> cj_is_known_type type_raw then Inl CdInvalidMessageType
          else Inr \<lparr>ch_type = to_command_type type_raw, ch_payload_size = payload_size,
                 ch_command_sequence = command_sequence\<rparr>
      | _ \<Rightarrow> Inl CdTruncatedHeader)"

definition decode_new_order_frame :: "CommandHeader \<Rightarrow> ByteReader \<Rightarrow> DecodedFrame" where
  "decode_new_order_frame header r = (let
      (account_id, r) = get_u64 r;
      (client_order_id, r) = get_u64 r;
      (instrument_id, r) = get_u32 r;
      (side_raw, r) = get_u8 r;
      (price, r) = get_i64 r;
      (quantity, r) = get_u64 r;
      (order_type_raw, r) = get_u8 r;
      (tif_raw, r) = get_u8 r
    in case (account_id, client_order_id, instrument_id, side_raw, price, quantity, order_type_raw, tif_raw) of
      (Some account_id, Some client_order_id, Some instrument_id, Some side_raw, Some price, Some quantity,
       Some order_type_raw, Some tif_raw) \<Rightarrow>
        if \<not> is_valid_side side_raw then Inl CdInvalidSide
        else if \<not> is_valid_order_type order_type_raw then Inl CdInvalidOrderType
        else if \<not> is_valid_time_in_force tif_raw then Inl CdInvalidTimeInForce
        else Inr (FrameCommand (NewOrder \<lparr>nc_command_sequence = ch_command_sequence header,
               nc_account_id = account_id, nc_client_order_id = client_order_id, nc_instrument_id = instrument_id,
               nc_side = to_side side_raw, nc_price = price, nc_quantity = quantity,
               nc_order_type = to_order_type order_type_raw, nc_time_in_force = to_time_in_force tif_raw\<rparr>))
    | _ \<Rightarrow> Inl CdTruncatedPayload)"

definition decode_cancel_frame :: "CommandHeader \<Rightarrow> ByteReader \<Rightarrow> DecodedFrame" where
  "decode_cancel_frame header r = (let
      (account_id, r) = get_u64 r;
      (client_order_id, r) = get_u64 r;
      (instrument_id, r) = get_u32 r
    in case (account_id, client_order_id, instrument_id) of
      (Some account_id, Some client_order_id, Some instrument_id) \<Rightarrow>
        Inr (FrameCommand (CancelOrder \<lparr>cc_command_sequence = ch_command_sequence header,
               cc_account_id = account_id, cc_client_order_id = client_order_id, cc_instrument_id = instrument_id\<rparr>))
    | _ \<Rightarrow> Inl CdTruncatedPayload)"

definition decode_replace_frame :: "CommandHeader \<Rightarrow> ByteReader \<Rightarrow> DecodedFrame" where
  "decode_replace_frame header r = (let
      (account_id, r) = get_u64 r;
      (original_client_order_id, r) = get_u64 r;
      (new_client_order_id, r) = get_u64 r;
      (instrument_id, r) = get_u32 r;
      (new_price, r) = get_i64 r;
      (new_quantity, r) = get_u64 r
    in case (account_id, original_client_order_id, new_client_order_id, instrument_id, new_price, new_quantity) of
      (Some account_id, Some original_client_order_id, Some new_client_order_id, Some instrument_id,
       Some new_price, Some new_quantity) \<Rightarrow>
        Inr (FrameCommand (ReplaceOrder \<lparr>rc_command_sequence = ch_command_sequence header,
               rc_account_id = account_id, rc_original_client_order_id = original_client_order_id,
               rc_new_client_order_id = new_client_order_id, rc_instrument_id = instrument_id,
               rc_new_price = new_price, rc_new_quantity = new_quantity\<rparr>))
    | _ \<Rightarrow> Inl CdTruncatedPayload)"

definition decode_register_frame :: "ByteReader \<Rightarrow> DecodedFrame" where
  "decode_register_frame r = (let (instrument_id, r) = get_u32 r in
     case instrument_id of
       Some instrument_id \<Rightarrow> Inr (FrameRegister \<lparr>ri_instrument_id = instrument_id\<rparr>)
     | None \<Rightarrow> Inl CdTruncatedPayload)"

definition decode_frame_payload :: "CommandHeader \<Rightarrow> ByteReader \<Rightarrow> DecodedFrame" where
  "decode_frame_payload header r = (case ch_type header of
     CmNewOrder \<Rightarrow> decode_new_order_frame header r
   | CmCancelOrder \<Rightarrow> decode_cancel_frame header r
   | CmReplaceOrder \<Rightarrow> decode_replace_frame header r
   | CmRegisterInstrument \<Rightarrow> decode_register_frame r)"

definition decode_journal_frame :: "byte list \<Rightarrow> DecodedFrame" where
  "decode_journal_frame data =
     (case decode_command_header data of
        Inl e \<Rightarrow> Inl e
      | Inr header \<Rightarrow>
          let expected_payload = command_payload_size_for (ch_type header) in
          if unat (ch_payload_size header) \<noteq> expected_payload then Inl CdInvalidMessageSize
          else if length data < cj_HEADER_SIZE + unat (ch_payload_size header) then Inl CdTruncatedPayload
          else decode_frame_payload header
                 (new_reader (take (unat (ch_payload_size header)) (drop cj_HEADER_SIZE data))))"

subsection \<open>The file\<close>

text \<open>
  The writer: registration frames of the universe first, in one write, then a frame per command.
  The state of the writer is what the file holds.
\<close>

definition new_journal :: "InstrumentId list \<Rightarrow> byte list" where
  "new_journal instruments = fold (\<lambda>i buf. encode_register_instrument i buf) instruments []"

definition journal_write :: "byte list \<Rightarrow> ExchangeCommand \<Rightarrow> byte list" where
  "journal_write file command = file @ encode_command command []"

text \<open>The reader: the bytes of the file not read yet. \<open>None\<close> is a clean end of file.\<close>

definition journal_next :: "byte list \<Rightarrow> (DecodedFrame \<times> byte list) option" where
  "journal_next file = (let
      header_bytes = take cj_HEADER_SIZE file;
      file1 = drop cj_HEADER_SIZE file
    in if length header_bytes = 0 then None
       else if length header_bytes < cj_HEADER_SIZE then Some (Inl CdTruncatedHeader, file1)
       else case decode_command_header header_bytes of
         Inl e \<Rightarrow> Some (Inl e, file1)
       | Inr header \<Rightarrow> let
           payload = take (unat (ch_payload_size header)) file1;
           file2 = drop (unat (ch_payload_size header)) file1
         in if length payload < unat (ch_payload_size header) then Some (Inl CdTruncatedPayload, file2)
            else Some (decode_journal_frame (header_bytes @ payload), file2))"

subsection \<open>Replay\<close>

record CommandReplayOutcome =
  cr_engine :: MatchingEngine
  cr_events :: "ExchangeEvent list"
  cr_commands_processed :: nat
  cr_instruments_registered :: nat
  cr_stopped_early :: bool
  cr_stop_reason :: string

definition new_replay_outcome :: CommandReplayOutcome where
  "new_replay_outcome = \<lparr>cr_engine = new_engine [] 0, cr_events = [], cr_commands_processed = 0,
     cr_instruments_registered = 0, cr_stopped_early = False, cr_stop_reason = ''''\<rparr>"

lemma journal_next_progress: "journal_next file = Some (x, rest) \<Longrightarrow> length rest < length file"
  by (auto simp: journal_next_def Let_def cj_HEADER_SIZE_def split: if_splits sum.splits)

function replay_loop :: "bool \<Rightarrow> CommandReplayOutcome \<Rightarrow> byte list \<Rightarrow> CommandReplayOutcome option" where
  "replay_loop stop_on_decode_error outcome file =
     (case journal_next file of
        None \<Rightarrow> Some outcome
      | Some (Inl e, rest) \<Rightarrow>
          let outcome = outcome\<lparr>cr_stop_reason := ''decode error: '' @ command_error_string e\<rparr> in
          if stop_on_decode_error then Some (outcome\<lparr>cr_stopped_early := True\<rparr>)
          else replay_loop stop_on_decode_error outcome rest
      | Some (Inr (FrameRegister registration), rest) \<Rightarrow>
          let (E, added) = register_instrument (cr_engine outcome) (ri_instrument_id registration) in
          replay_loop stop_on_decode_error
            (outcome\<lparr>cr_engine := E, cr_instruments_registered := cr_instruments_registered outcome + (if added then 1 else 0)\<rparr>) rest
      | Some (Inr (FrameCommand command), rest) \<Rightarrow>
          (case process (cr_engine outcome) command of
             None \<Rightarrow> None
           | Some (E, evs) \<Rightarrow> replay_loop stop_on_decode_error
               (outcome\<lparr>cr_engine := E, cr_events := cr_events outcome @ evs,
                  cr_commands_processed := cr_commands_processed outcome + 1\<rparr>) rest))"
  by pat_completeness auto

termination
  by (relation "measure (\<lambda>(_, _, file). length file)") (auto dest: journal_next_progress)

text \<open>The file is \<open>None\<close> when it cannot be opened.\<close>

definition run_command_replay :: "string \<Rightarrow> byte list option \<Rightarrow> bool \<Rightarrow> CommandReplayOutcome option" where
  "run_command_replay journal_path journal stop_on_decode_error =
     (case journal of
        None \<Rightarrow> Some (new_replay_outcome\<lparr>cr_stopped_early := True,
          cr_stop_reason := ''could not open journal file: '' @ journal_path\<rparr>)
      | Some file \<Rightarrow> replay_loop stop_on_decode_error new_replay_outcome file)"

subsection \<open>The fingerprint of a snapshot\<close>

definition put_order :: "ExchangeRestingOrder \<Rightarrow> byte list \<Rightarrow> byte list" where
  "put_order ord buf = (let
      buf = put_u64 (er_exchange_order_id ord) buf;
      buf = put_u64 (er_client_order_id ord) buf;
      buf = put_u64 (er_account_id ord) buf;
      buf = put_u32 (er_instrument_id ord) buf;
      buf = put_u8 (side_code (er_side ord)) buf;
      buf = put_i64 (er_price ord) buf;
      buf = put_u64 (er_original_quantity ord) buf;
      buf = put_u64 (er_remaining_quantity ord) buf;
      buf = put_u8 (tif_code (er_time_in_force ord)) buf
    in put_u64 (er_order_sequence ord) buf)"

definition kFnvOffsetBasis :: u64 where
  "kFnvOffsetBasis = 14695981039346656037"

definition kFnvPrime :: u64 where
  "kFnvPrime = 1099511628211"

definition fnv1a :: "byte list \<Rightarrow> u64" where
  "fnv1a bytes = foldl (\<lambda>hash b. (hash XOR ucast b) * kFnvPrime) kFnvOffsetBasis bytes"

definition put_instrument :: "InstrumentBookSnapshot \<Rightarrow> byte list \<Rightarrow> byte list" where
  "put_instrument instrument buf = (let
      buf = put_u32 (ib_instrument_id instrument) buf;
      buf = put_u64 (of_nat (length (ib_bids instrument))) buf;
      buf = fold put_order (ib_bids instrument) buf;
      buf = put_u64 (of_nat (length (ib_asks instrument))) buf
    in fold put_order (ib_asks instrument) buf)"

definition snapshot_bytes :: "EngineStateSnapshot \<Rightarrow> byte list" where
  "snapshot_bytes snap = fold put_instrument snap (put_u64 (of_nat (length snap)) [])"

definition hash_state_snapshot :: "EngineStateSnapshot \<Rightarrow> u64" where
  "hash_state_snapshot snap = fnv1a (snapshot_bytes snap)"

subsection \<open>The codec of journal frames\<close>

fun journal_frame :: "JournalFrame \<Rightarrow> byte list" where
  "journal_frame (FrameCommand c) = encode_command c []"
| "journal_frame (FrameRegister r) = encode_register_instrument (ri_instrument_id r) []"

fun frame_header :: "JournalFrame \<Rightarrow> CommandHeader" where
  "frame_header (FrameCommand (NewOrder c)) = \<lparr>ch_type = CmNewOrder,
     ch_payload_size = of_nat (command_payload_size_for CmNewOrder), ch_command_sequence = nc_command_sequence c\<rparr>"
| "frame_header (FrameCommand (CancelOrder c)) = \<lparr>ch_type = CmCancelOrder,
     ch_payload_size = of_nat (command_payload_size_for CmCancelOrder), ch_command_sequence = cc_command_sequence c\<rparr>"
| "frame_header (FrameCommand (ReplaceOrder c)) = \<lparr>ch_type = CmReplaceOrder,
     ch_payload_size = of_nat (command_payload_size_for CmReplaceOrder), ch_command_sequence = rc_command_sequence c\<rparr>"
| "frame_header (FrameRegister r) = \<lparr>ch_type = CmRegisterInstrument,
     ch_payload_size = of_nat (command_payload_size_for CmRegisterInstrument), ch_command_sequence = 0\<rparr>"

fun frame_payload :: "JournalFrame \<Rightarrow> byte list" where
  "frame_payload (FrameCommand (NewOrder c)) = be_bytes 8 (nc_account_id c) @ be_bytes 8 (nc_client_order_id c) @
     be_bytes 4 (nc_instrument_id c) @ [side_code (nc_side c)] @ be_bytes 8 (i64_bits (nc_price c)) @
     be_bytes 8 (nc_quantity c) @ [order_type_code (nc_order_type c)] @ [tif_code (nc_time_in_force c)]"
| "frame_payload (FrameCommand (CancelOrder c)) = be_bytes 8 (cc_account_id c) @ be_bytes 8 (cc_client_order_id c) @
     be_bytes 4 (cc_instrument_id c)"
| "frame_payload (FrameCommand (ReplaceOrder c)) = be_bytes 8 (rc_account_id c) @
     be_bytes 8 (rc_original_client_order_id c) @ be_bytes 8 (rc_new_client_order_id c) @ be_bytes 4 (rc_instrument_id c) @
     be_bytes 8 (i64_bits (rc_new_price c)) @ be_bytes 8 (rc_new_quantity c)"
| "frame_payload (FrameRegister r) = be_bytes 4 (ri_instrument_id r)"

definition command_header_frame :: "CommandHeader \<Rightarrow> byte list" where
  "command_header_frame h = [command_type_code (ch_type h), 0] @ be_bytes 2 (ch_payload_size h) @
     be_bytes 8 (ch_command_sequence h)"

lemma length_command_header_frame [simp]: "length (command_header_frame h) = 12"
  by (simp add: command_header_frame_def)

lemma command_type_codes [wire_simps]:
  "cj_is_known_type (command_type_code ty)" "to_command_type (command_type_code ty) = ty"
  by (cases ty; simp add: cj_is_known_type_def to_command_type_def)+

lemma decode_command_header_frame: "decode_command_header (command_header_frame h @ rest) = Inr h"
  by (simp add: decode_command_header_def command_header_frame_def cj_HEADER_SIZE_def wire_simps)

lemma journal_frame_eq: "journal_frame f = command_header_frame (frame_header f) @ frame_payload f"
  by (cases f rule: frame_header.cases)
    (simp_all add: encode_register_instrument_def cj_put_header_def command_header_frame_def wire_simps)

lemma decode_frame_payload_bytes: "decode_frame_payload (frame_header f) (new_reader (frame_payload f)) = Inr f"
  by (cases f rule: frame_header.cases)
    (simp_all add: decode_frame_payload_def decode_new_order_frame_def decode_cancel_frame_def decode_replace_frame_def
      decode_register_frame_def wire_simps)

lemma frame_sizes:
  "unat (ch_payload_size (frame_header f)) = command_payload_size_for (ch_type (frame_header f))"
  "length (frame_payload f) = command_payload_size_for (ch_type (frame_header f))"
  by (cases f rule: frame_header.cases; simp)+

interpretation cj: sized_codec 12 command_header_frame decode_command_header "\<lambda>h. unat (ch_payload_size h)"
  "\<lambda>h. command_payload_size_for (ch_type h)" "\<lambda>h bs. decode_frame_payload h (new_reader bs)" frame_header frame_payload
  CdInvalidMessageSize CdTruncatedPayload journal_frame decode_journal_frame
  by unfold_locales (unfold decode_journal_frame_def cj_HEADER_SIZE_def Let_def,
      simp_all add: journal_frame_eq decode_command_header_frame decode_frame_payload_bytes frame_sizes)

lemma journal_next_frame: "journal_next (journal_frame f @ rest) = Some (Inr f, rest)"
  using cj.header_of_frame [of f rest] cj.frame_by_header [of f rest] cj.decode_encode [of f "[]"]
  by (simp add: journal_next_def cj_HEADER_SIZE_def Let_def cj.encode_nonempty del: length_take)

interpretation journal: frame_stream journal_frame decode_journal_frame journal_next
  by unfold_locales (simp add: journal_next_def, rule journal_next_frame, rule journal_next_progress)

end
