(* ===== verification/Engine_Determinism.thy ===== *)
theory Engine_Determinism
  imports Engine_Properties
begin

text \<open>
  The engine's behaviour depends on its order lists and counters only, not on how the books lay them
  out. Two engines that show the same market react to every command with the same events and show
  the same market afterwards, whatever the widths of their price ladders, the slots their orders sit
  in or the history of their free lists. This is what makes replaying a journal into an engine
  that was built differently meaningful.
\<close>

subsection \<open>The directory is a function of the order lists\<close>

lemma live_iff:
  assumes inv: "engine_inv E"
  shows "(\<exists>r. me_orders E k = Some r \<and> ref_instrument_id r = i) \<longleftrightarrow> (\<exists>sd. \<exists>ord \<in> set (engine_view E i sd). order_key ord = k)"
proof
  assume "\<exists>r. me_orders E k = Some r \<and> ref_instrument_id r = i"
  then obtain r where r: "me_orders E k = Some r" "ref_instrument_id r = i" by blast
  obtain b where "engine_books E i = Some b" "ref_handle r \<in> set (slots b (bo_side (slot_order b (ref_handle r))))"
    "order_key (slot_order b (ref_handle r)) = k"
    using live_order [OF inv r(1)] unfolding r(2) by metis
  then show "\<exists>sd. \<exists>ord \<in> set (engine_view E i sd). order_key ord = k" by (auto simp: book.orders_on_def)
next
  assume "\<exists>sd. \<exists>ord \<in> set (engine_view E i sd). order_key ord = k"
  then obtain sd ord where o: "ord \<in> set (engine_view E i sd)" "order_key ord = k" by blast
  then obtain b where b: "engine_books E i = Some b" by (auto simp: engine_view_def split: option.splits)
  with o obtain x where "x \<in> set (slots b sd)" "slot_order b x = ord" by (auto simp: book.orders_on_def)
  then show "\<exists>r. me_orders E k = Some r \<and> ref_instrument_id r = i"
    using dir_invD(2) [OF engine_invD(3) [OF inv] b, of x] book.resting_slots_iff o(2) by blast
qed

lemma live_order_unique:
  assumes inv: "engine_inv E" and o: "ord \<in> set (engine_view E i sd)" "ord' \<in> set (engine_view E i sd')" "order_key ord = order_key ord'"
  shows "ord = ord'"
proof -
  obtain b where b: "engine_books E i = Some b" using o(1) by (auto simp: engine_view_def split: option.splits)
  obtain x y where xy: "x \<in> book.resting_slots b" "y \<in> book.resting_slots b" "slot_order b x = ord" "slot_order b y = ord'"
    using o(1,2) b book.resting_slots_iff by (auto simp: book.orders_on_def)
  have "x = y" using dir_inv_inj [OF engine_invD(3) [OF inv] b xy(1) b xy(2)] xy(3,4) o(3) by auto
  then show ?thesis using xy(3,4) by simp
qed

subsection \<open>Engines that show the same market\<close>

definition same_market :: "MatchingEngine \<Rightarrow> MatchingEngine \<Rightarrow> bool" where
  "same_market E F \<longleftrightarrow> engine_inv E \<and> engine_inv F \<and> engine_view E = engine_view F \<and>
     (\<forall>i. knows_instrument E i \<longleftrightarrow> knows_instrument F i) \<and>
     me_next_event_sequence E = me_next_event_sequence F \<and>
     me_next_exchange_order_id E = me_next_exchange_order_id F \<and> me_next_priority E = me_next_priority F"

lemma same_marketD:
  assumes "same_market E F"
  shows "engine_inv E" "engine_inv F" "engine_view E = engine_view F" "knows_instrument E i \<longleftrightarrow> knows_instrument F i"
    "me_next_event_sequence E = me_next_event_sequence F" "me_next_exchange_order_id E = me_next_exchange_order_id F"
    "me_next_priority E = me_next_priority F"
    "(\<exists>r. me_orders E k = Some r \<and> ref_instrument_id r = i) \<longleftrightarrow> (\<exists>r. me_orders F k = Some r \<and> ref_instrument_id r = i)"
    "me_orders E k = None \<longleftrightarrow> me_orders F k = None"
proof -
  show s: "engine_inv E" "engine_inv F" "engine_view E = engine_view F" "knows_instrument E i \<longleftrightarrow> knows_instrument F i"
    "me_next_event_sequence E = me_next_event_sequence F" "me_next_exchange_order_id E = me_next_exchange_order_id F"
    "me_next_priority E = me_next_priority F"
    using assms by (auto simp: same_market_def)
  show "(\<exists>r. me_orders E k = Some r \<and> ref_instrument_id r = i) \<longleftrightarrow> (\<exists>r. me_orders F k = Some r \<and> ref_instrument_id r = i)" for i
    using live_iff [OF s(1)] live_iff [OF s(2)] s(3) by simp
  then show "me_orders E k = None \<longleftrightarrow> me_orders F k = None" by (metis not_None_eq)
qed

lemma same_verdicts:
  assumes "same_market E F"
  shows "new_order_verdict E nc = new_order_verdict F nc" "cancel_verdict E cc = cancel_verdict F cc"
    "replace_verdict E rc = replace_verdict F rc"
proof -
  note s = same_marketD [OF assms]
  show "new_order_verdict E nc = new_order_verdict F nc"
    by (simp add: new_order_verdict_def s(3) s(4) s(9))
  show "cancel_verdict E cc = cancel_verdict F cc"
    using s(4) s(8) [of "(cc_account_id cc, cc_client_order_id cc)" "cc_instrument_id cc"]
    by (auto simp: cancel_verdict_def split: option.splits)
  show "replace_verdict E rc = replace_verdict F rc"
    using s(4) s(8) [of "(rc_account_id rc, rc_original_client_order_id rc)" "rc_instrument_id rc"]
    by (auto simp: replace_verdict_def split: option.splits)
qed

lemma bump_event_market:
  "engine_inv (bump_event E) \<longleftrightarrow> engine_inv E" "engine_view (bump_event E) = engine_view E"
  "knows_instrument (bump_event E) i \<longleftrightarrow> knows_instrument E i"
  by (simp_all add: engine_inv_def engine_view_def fun_eq_iff)

lemma same_market_rejected: "same_market E F \<Longrightarrow> same_market (bump_event E) (bump_event F)"
  by (simp add: same_market_def bump_event_market)

text \<open>One command, given both engines complete it.\<close>

lemma new_order_same:
  assumes s: "same_market E F" and load: "engine_load E n" "n < kNil" "engine_load F m" "m < kNil"
    and ok: "cmd_bounds (nc_price cmd) (nc_quantity cmd)"
  obtains E' F' evs where "process_new_order E cmd = Some (E', evs)" "process_new_order F cmd = Some (F', evs)"
    "engine_inv E'" "engine_inv F'" "engine_view E' = engine_view F'" "me_next_event_sequence E' = me_next_event_sequence F'"
    "me_next_exchange_order_id E' = me_next_exchange_order_id F'" "me_next_priority E' = me_next_priority F'"
proof (cases "new_order_verdict E cmd")
  case (Some reason)
  note d = same_marketD [OF s]
  show ?thesis
    using that [of "bump_event E" _ "bump_event F"] same_marketD [OF same_market_rejected [OF s]] Some same_verdicts(1) [OF s, of cmd]
      process_new_order_verdict [OF d(1), of cmd] process_new_order_verdict [OF d(2), of cmd] d(5)
    by (simp add: reject_new_order_def)
next
  case None
  note d = same_marketD [OF s]
  have vF: "new_order_verdict F cmd = None" using None same_verdicts(1) [OF s] by simp
  obtain V fills r where spec: "submit_spec (engine_view E (nc_instrument_id cmd)) (new_book_order E cmd) = (V, fills, r)"
    by (metis prod_cases3)
  then have specF: "submit_spec (engine_view F (nc_instrument_id cmd)) (new_book_order F cmd) = (V, fills, r)"
    using d by (simp add: new_book_order_def)
  let ?evs = "accepted_event cmd (me_next_event_sequence E) (me_next_exchange_order_id E) #
      submit_events (me_next_event_sequence E + 1) (nc_command_sequence cmd)
        (incoming_order cmd (me_next_exchange_order_id E) (me_next_priority E)) fills r"
  obtain E' where E': "accept_new_order E cmd = Some (E', ?evs)" "engine_inv E'" "engine_view E' = (engine_view E)(nc_instrument_id cmd := V)"
    "me_next_event_sequence E' = me_next_event_sequence E + of_nat (length ?evs)"
    "me_next_exchange_order_id E' = me_next_exchange_order_id E + 1" "me_next_priority E' = me_next_priority E + 1"
    by (rule accept_new_order_refines [OF d(1) load(1,2) ok None spec]) simp
  obtain F' where F': "accept_new_order F cmd = Some (F', ?evs)" "engine_inv F'" "engine_view F' = (engine_view E)(nc_instrument_id cmd := V)"
    "me_next_event_sequence F' = me_next_event_sequence E + of_nat (length ?evs)"
    "me_next_exchange_order_id F' = me_next_exchange_order_id E + 1" "me_next_priority F' = me_next_priority E + 1"
    by (rule accept_new_order_refines [OF d(2) load(3,4) ok vF specF]) (simp add: d)
  show ?thesis
    using that [of E' ?evs F'] E' F' None vF process_new_order_verdict [OF d(1), of cmd] process_new_order_verdict [OF d(2), of cmd] by simp
qed

lemma cancel_same:
  assumes s: "same_market E F" and load: "engine_load E n" "engine_load F m"
  obtains E' F' evs where "process_cancel E cmd = Some (E', evs)" "process_cancel F cmd = Some (F', evs)"
    "engine_inv E'" "engine_inv F'" "engine_view E' = engine_view F'" "me_next_event_sequence E' = me_next_event_sequence F'"
    "me_next_exchange_order_id E' = me_next_exchange_order_id F'" "me_next_priority E' = me_next_priority F'"
proof (cases "cancel_verdict E cmd")
  case (Some reason)
  then have "cancel_verdict F cmd = Some reason" using same_verdicts(2) [OF s] by simp
  then show ?thesis
    using that [of "bump_event E" _ "bump_event F"] same_marketD [OF same_market_rejected [OF s]] Some same_marketD(5) [OF s]
      process_cancel_rejects [of E cmd] process_cancel_rejects [of F cmd]
    by (simp add: reject_cancel_def)
next
  case None
  note d = same_marketD [OF s]
  have vF: "cancel_verdict F cmd = None" using None same_verdicts(2) [OF s] by simp
  obtain E' x where E': "process_cancel E cmd = Some (E', cancel_events (me_next_event_sequence E) cmd x)"
    "x \<in> set (engine_view E (cc_instrument_id cmd) (bo_side x))" "order_key x = (cc_account_id cmd, cc_client_order_id cmd)"
    "engine_inv E'" "engine_view E' = (engine_view E)(cc_instrument_id cmd :=
       without_key (cc_account_id cmd, cc_client_order_id cmd) (engine_view E (cc_instrument_id cmd)))"
    "me_next_event_sequence E' = me_next_event_sequence E + 2"
    "me_next_exchange_order_id E' = me_next_exchange_order_id E" "me_next_priority E' = me_next_priority E"
    using process_cancel_refines [OF d(1) load(1) None] by metis
  obtain F' y where F': "process_cancel F cmd = Some (F', cancel_events (me_next_event_sequence F) cmd y)"
    "y \<in> set (engine_view F (cc_instrument_id cmd) (bo_side y))" "order_key y = (cc_account_id cmd, cc_client_order_id cmd)"
    "engine_inv F'" "engine_view F' = (engine_view F)(cc_instrument_id cmd :=
       without_key (cc_account_id cmd, cc_client_order_id cmd) (engine_view F (cc_instrument_id cmd)))"
    "me_next_event_sequence F' = me_next_event_sequence F + 2"
    "me_next_exchange_order_id F' = me_next_exchange_order_id F" "me_next_priority F' = me_next_priority F"
    using process_cancel_refines [OF d(2) load(2) vF] by metis
  have "x = y" using live_order_unique [OF d(1) E'(2), of y "bo_side y"] E'(3) F'(2,3) d(3) by simp
  then show ?thesis using that [of E' _ F'] E' F' d by simp
qed

text \<open>What a replace that is not rejected finds and does.\<close>

lemma process_replace_cases:
  assumes inv: "engine_inv E" and v: "replace_verdict E cmd = None"
  defines "k \<equiv> (rc_account_id cmd, rc_original_client_order_id cmd)"
  obtains ref b old where "me_orders E k = Some ref" "ref_instrument_id ref = rc_instrument_id cmd"
    "engine_books E (ref_instrument_id ref) = Some b" "old = slot_order b (ref_handle ref)"
    "old \<in> set (engine_view E (rc_instrument_id cmd) (bo_side old))" "order_key old = k"
    "\<not> rc_new_price cmd \<le> 0" "rc_new_quantity cmd \<noteq> 0"
    "process_replace E cmd = (if rc_new_price cmd = bo_price old \<and> rc_new_quantity cmd \<le> bo_remaining_quantity old
      then replace_in_place E b cmd ref old else replace_requeue E b cmd ref old)"
proof -
  obtain ref where ref: "me_orders E k = Some ref" "ref_instrument_id ref = rc_instrument_id cmd"
    and w: "knows_instrument E (rc_instrument_id cmd)" "\<not> rc_new_price cmd \<le> 0" "rc_new_quantity cmd \<noteq> 0"
    using v by (auto simp: replace_verdict_def k_def split: if_splits option.splits)
  obtain b where b: "engine_books E (ref_instrument_id ref) = Some b" "book_for E (ref_instrument_id ref) = Some b"
    "ref_handle ref \<in> set (slots b (bo_side (slot_order b (ref_handle ref))))" "order_key (slot_order b (ref_handle ref)) = k"
    using live_order [OF inv ref(1)] by metis
  have "slot_order b (ref_handle ref) \<in> set (engine_view E (rc_instrument_id cmd) (bo_side (slot_order b (ref_handle ref))))"
    using b(1,3) ref(2) by (simp add: book.orders_on_def)
  moreover have "process_replace E cmd = (if rc_new_price cmd = bo_price (slot_order b (ref_handle ref)) \<and>
        rc_new_quantity cmd \<le> bo_remaining_quantity (slot_order b (ref_handle ref))
      then replace_in_place E b cmd ref (slot_order b (ref_handle ref)) else replace_requeue E b cmd ref (slot_order b (ref_handle ref)))"
    using w ref b(2) book.at_law [OF engine_invD(4) [OF inv b(1)] b(3)] by (simp add: process_replace_def k_def)
  ultimately show ?thesis using that [OF ref b(1) refl] b(4) w by blast
qed

text \<open>The outcome of a replace in terms of the order lists and counters alone.\<close>

definition replace_outcome ::
  "MatchingEngine \<Rightarrow> ReplaceOrderCommand \<Rightarrow> BookOrder \<Rightarrow> (InstrumentId \<Rightarrow> spec_book) \<times> ExchangeEvent list \<times> u64" where
  "replace_outcome E cmd old =
     (let i = rc_instrument_id cmd; k = (rc_account_id cmd, rc_original_client_order_id cmd); seq = me_next_event_sequence E in
      if rc_new_price cmd = bo_price old \<and> rc_new_quantity cmd \<le> bo_remaining_quantity old
      then ((engine_view E)(i := rewrite_key k (rc_new_quantity cmd) (rc_new_client_order_id cmd) (engine_view E i)),
        [replaced_event cmd seq (bo_exchange_order_id old),
         BookOrderReduced \<lparr>bd_event_sequence = seq + 1, bd_instrument_id = i, bd_exchange_order_id = bo_exchange_order_id old,
           bd_side = bo_side old, bd_price = bo_price old, bd_new_remaining_quantity = rc_new_quantity cmd\<rparr>], 0)
      else let ord = replacement_order cmd old (me_next_exchange_order_id E) (me_next_priority E);
               (V, fills, m) = submit_spec (without_key k (engine_view E i)) (book_order_of ord)
        in ((engine_view E)(i := V),
          replaced_event cmd seq (me_next_exchange_order_id E) #
          BookOrderRemoved \<lparr>bm_event_sequence = seq + 1, bm_instrument_id = i, bm_exchange_order_id = bo_exchange_order_id old,
            bm_side = bo_side old, bm_price = bo_price old\<rparr> #
          submit_events (seq + 2) (rc_command_sequence cmd) ord fills m, 1))"

lemma process_replace_outcome:
  assumes inv: "engine_inv E" and load: "engine_load E n" "n < kNil" and v: "replace_verdict E cmd = None"
    and ok: "cmd_bounds (rc_new_price cmd) (rc_new_quantity cmd)" and fresh: "replace_fresh E cmd"
  obtains E' old W evs d where "replace_outcome E cmd old = (W, evs, d)" "process_replace E cmd = Some (E', evs)"
    "old \<in> set (engine_view E (rc_instrument_id cmd) (bo_side old))"
    "order_key old = (rc_account_id cmd, rc_original_client_order_id cmd)" "engine_inv E'" "engine_view E' = W"
    "me_next_event_sequence E' = me_next_event_sequence E + of_nat (length evs)"
    "me_next_exchange_order_id E' = me_next_exchange_order_id E + d" "me_next_priority E' = me_next_priority E + d"
proof (rule process_replace_cases [OF inv v])
  fix ref b old
  assume ref: "me_orders E (rc_account_id cmd, rc_original_client_order_id cmd) = Some ref" "ref_instrument_id ref = rc_instrument_id cmd"
    and b: "engine_books E (ref_instrument_id ref) = Some b" and old: "old = slot_order b (ref_handle ref)"
    and o: "old \<in> set (engine_view E (rc_instrument_id cmd) (bo_side old))" "order_key old = (rc_account_id cmd, rc_original_client_order_id cmd)"
    and w: "\<not> rc_new_price cmd \<le> 0" "rc_new_quantity cmd \<noteq> 0"
    and p: "process_replace E cmd = (if rc_new_price cmd = bo_price old \<and> rc_new_quantity cmd \<le> bo_remaining_quantity old
      then replace_in_place E b cmd ref old else replace_requeue E b cmd ref old)"
  show ?thesis
  proof (cases "rc_new_price cmd = bo_price old \<and> rc_new_quantity cmd \<le> bo_remaining_quantity old")
    case True
    show ?thesis
      by (rule replace_in_place_refines [OF inv load(1) ref(1) b old refl ref(2) w(2) conjunct2 [OF True] fresh])
        (use p True o in \<open>auto simp: replace_outcome_def Let_def intro!: that\<close>)
  next
    case False
    obtain V fills m where spec: "submit_spec (without_key (rc_account_id cmd, rc_original_client_order_id cmd)
        (engine_view E (rc_instrument_id cmd)))
        (book_order_of (replacement_order cmd old (me_next_exchange_order_id E) (me_next_priority E))) = (V, fills, m)"
      by (metis prod_cases3)
    have pos: "0 < rc_new_price cmd" using w(1) by simp
    show ?thesis
      by (rule replace_requeue_refines [OF inv load ref(1) b old refl ref(2) ok pos fresh refl spec])
        (use p False o spec in \<open>auto simp: replace_outcome_def Let_def add.assoc intro!: that\<close>)
  qed
qed

lemma replace_same:
  assumes s: "same_market E F" and load: "engine_load E n" "n < kNil" "engine_load F m" "m < kNil"
    and ok: "cmd_bounds (rc_new_price cmd) (rc_new_quantity cmd)" "replace_fresh E cmd"
  obtains E' F' evs where "process_replace E cmd = Some (E', evs)" "process_replace F cmd = Some (F', evs)"
    "engine_inv E'" "engine_inv F'" "engine_view E' = engine_view F'" "me_next_event_sequence E' = me_next_event_sequence F'"
    "me_next_exchange_order_id E' = me_next_exchange_order_id F'" "me_next_priority E' = me_next_priority F'"
proof (cases "replace_verdict E cmd")
  case (Some reason)
  then have "replace_verdict F cmd = Some reason" using same_verdicts(3) [OF s] by simp
  then show ?thesis
    using that [of "bump_event E" _ "bump_event F"] same_marketD [OF same_market_rejected [OF s]] Some same_marketD(5) [OF s]
      process_replace_rejects [of E cmd] process_replace_rejects [of F cmd]
    by (simp add: reject_replace_order_def)
next
  case None
  note d = same_marketD [OF s]
  have vF: "replace_verdict F cmd = None" using None same_verdicts(3) [OF s] by simp
  have fF: "replace_fresh F cmd" using ok(2) d(9) by (simp add: replace_fresh_def)
  obtain E' x W evs c where E': "replace_outcome E cmd x = (W, evs, c)" "process_replace E cmd = Some (E', evs)"
    "x \<in> set (engine_view E (rc_instrument_id cmd) (bo_side x))"
    "order_key x = (rc_account_id cmd, rc_original_client_order_id cmd)" "engine_inv E'" "engine_view E' = W"
    "me_next_event_sequence E' = me_next_event_sequence E + of_nat (length evs)"
    "me_next_exchange_order_id E' = me_next_exchange_order_id E + c" "me_next_priority E' = me_next_priority E + c"
    by (rule process_replace_outcome [OF d(1) load(1,2) None ok])
  obtain F' y W' evs' c' where F': "replace_outcome F cmd y = (W', evs', c')" "process_replace F cmd = Some (F', evs')"
    "y \<in> set (engine_view F (rc_instrument_id cmd) (bo_side y))"
    "order_key y = (rc_account_id cmd, rc_original_client_order_id cmd)" "engine_inv F'" "engine_view F' = W'"
    "me_next_event_sequence F' = me_next_event_sequence F + of_nat (length evs')"
    "me_next_exchange_order_id F' = me_next_exchange_order_id F + c'" "me_next_priority F' = me_next_priority F + c'"
    by (rule process_replace_outcome [OF d(2) load(3,4) vF ok(1) fF])
  have "x = y" using live_order_unique [OF d(1) E'(3), of y "bo_side y"] E'(4) F'(3,4) d(3) by simp
  moreover have "replace_outcome F cmd x = replace_outcome E cmd x" by (simp only: replace_outcome_def d(3,5,6,7))
  ultimately have "(W', evs', c') = (W, evs, c)" using E'(1) F'(1) by metis
  then show ?thesis using that [of E' evs F'] E' F' d by simp
qed

lemma process_same:
  assumes s: "same_market E F" and load: "engine_load E n" "n < kNil" "engine_load F m" "m < kNil" and ok: "command_ok E cmd"
  obtains E' F' evs where "process E cmd = Some (E', evs)" "process F cmd = Some (F', evs)" "same_market E' F'"
proof -
  have "\<exists>E' F' evs. process E cmd = Some (E', evs) \<and> process F cmd = Some (F', evs) \<and> engine_inv E' \<and> engine_inv F' \<and>
      engine_view E' = engine_view F' \<and> me_next_event_sequence E' = me_next_event_sequence F' \<and>
      me_next_exchange_order_id E' = me_next_exchange_order_id F' \<and> me_next_priority E' = me_next_priority F'"
  proof (cases cmd)
    case (NewOrder c)
    show ?thesis by (rule new_order_same [OF s load, of c]) (use ok NewOrder in auto)
  next
    case (CancelOrder c)
    show ?thesis by (rule cancel_same [OF s load(1,3), of c]) (use CancelOrder in auto)
  next
    case (ReplaceOrder c)
    show ?thesis by (rule replace_same [OF s load, of c]) (use ok ReplaceOrder in auto)
  qed
  then obtain E' F' evs where r: "process E cmd = Some (E', evs)" "process F cmd = Some (F', evs)" "engine_inv E'" "engine_inv F'"
    "engine_view E' = engine_view F'" "me_next_event_sequence E' = me_next_event_sequence F'"
    "me_next_exchange_order_id E' = me_next_exchange_order_id F'" "me_next_priority E' = me_next_priority F'"
    by blast
  then have "same_market E' F'"
    using process_knows [OF r(1)] process_knows [OF r(2)] same_marketD(4) [OF s] by (simp add: same_market_def)
  then show ?thesis using that r by blast
qed

text \<open>The conditions on a run under which its commands are processed: those of \<open>run_done\<close>.\<close>

definition runnable :: "MatchingEngine \<Rightarrow> nat \<Rightarrow> ExchangeCommand list \<Rightarrow> bool" where
  "runnable E n cmds \<longleftrightarrow> engine_load E n \<and> n + length cmds \<le> kNil \<and> (\<forall>cmd \<in> set cmds. bounded_command cmd) \<and>
     distinct (concat (map command_keys cmds)) \<and> set (concat (map command_keys cmds)) \<inter> dom (me_orders E) = {}"

lemma runnable_Cons:
  assumes run: "runnable E n (cmd # cmds)" and inv: "engine_inv E"
  shows "engine_load E n" "n < kNil" "command_ok E cmd"
    "process E cmd = Some (E', evs) \<Longrightarrow> runnable E' (Suc n) cmds"
proof -
  show l: "engine_load E n" "n < kNil" using run by (auto simp: runnable_def)
  show ok: "command_ok E cmd" using run by (intro bounded_command_ok) (auto simp: runnable_def)
  assume p: "process E cmd = Some (E', evs)"
  then have "command_done E n cmd E' evs" using process_done [OF inv l ok] by auto
  then have E': "engine_load E' (Suc n)" "dom (me_orders E') \<subseteq> dom (me_orders E) \<union> set (command_keys cmd)"
    by (auto simp: command_done_def)
  have "set (command_keys cmd) \<inter> set (concat (map command_keys cmds)) = {}" "distinct (concat (map command_keys cmds))"
    "set (concat (map command_keys cmds)) \<inter> dom (me_orders E) = {}"
    using run by (auto simp: runnable_def)
  then have "set (concat (map command_keys cmds)) \<inter> dom (me_orders E') = {}" using E'(2) by blast
  then show "runnable E' (Suc n) cmds" using run E'(1) by (auto simp: runnable_def)
qed

lemma run_same:
  assumes "same_market E F" "runnable E n cmds" "runnable F m cmds"
  obtains E' F' evs where "run E cmds = Some (E', evs)" "run F cmds = Some (F', evs)" "same_market E' F'"
  using assms
proof (induction cmds arbitrary: E F n m thesis)
  case Nil
  then show ?case by simp
next
  case (Cons cmd cmds)
  note inv = same_marketD(1,2) [OF Cons.prems(2)]
  note rE = runnable_Cons [OF Cons.prems(3) inv(1)] and rF = runnable_Cons [OF Cons.prems(4) inv(2)]
  obtain E1 F1 evs1 where 1: "process E cmd = Some (E1, evs1)" "process F cmd = Some (F1, evs1)" "same_market E1 F1"
    by (rule process_same [OF Cons.prems(2) rE(1,2) rF(1,2) rE(3)])
  obtain E2 F2 evs2 where "run E1 cmds = Some (E2, evs2)" "run F1 cmds = Some (F2, evs2)" "same_market E2 F2"
    by (rule Cons.IH [OF _ 1(3) rE(4) [OF 1(1)] rF(4) [OF 1(2)]])
  then show ?case using Cons.prems(1) 1 by simp
qed

text \<open>Any two ways of registering the same instruments start from the same market.\<close>

lemma fold_register_counters:
  "me_next_exchange_order_id (fold (\<lambda>i E. fst (register_instrument E i)) ids E) = me_next_exchange_order_id E"
  "me_next_priority (fold (\<lambda>i E. fst (register_instrument E i)) ids E) = me_next_priority E"
  by (induction ids arbitrary: E) (simp_all add: register_instrument_def Let_def)

lemma new_engine_counters:
  "me_next_exchange_order_id (new_engine universe n) = 1" "me_next_priority (new_engine universe n) = 1"
  by (simp_all add: new_engine_def Let_def fold_register_counters empty_engine_def)

end
