(* ===== verification/Journal_Properties.thy ===== *)
theory Journal_Properties
  imports Command_Journal Engine_Determinism
begin

text \<open>
  The properties of the command journal: replaying what the writer wrote reproduces the run, and a
  journal cut at any byte still gives back every complete frame.
\<close>

subsection \<open>What the writer writes\<close>

definition journal_of :: "InstrumentId list \<Rightarrow> ExchangeCommand list \<Rightarrow> byte list" where
  "journal_of universe cmds = fold (\<lambda>cmd file. journal_write file cmd) cmds (new_journal universe)"

definition frames_of :: "InstrumentId list \<Rightarrow> ExchangeCommand list \<Rightarrow> JournalFrame list" where
  "frames_of universe cmds = map (\<lambda>i. FrameRegister \<lparr>ri_instrument_id = i\<rparr>) universe @ map FrameCommand cmds"

lemma encode_register_appends: "encode_register_instrument i out = out @ encode_register_instrument i []"
  by (simp add: encode_register_instrument_def cj_put_header_def wire_simps)

lemma new_journal_frames: "new_journal ids = concat (map (\<lambda>i. journal_frame (FrameRegister \<lparr>ri_instrument_id = i\<rparr>)) ids)"
proof -
  have "fold (\<lambda>i buf. encode_register_instrument i buf) ids out =
      out @ concat (map (\<lambda>i. journal_frame (FrameRegister \<lparr>ri_instrument_id = i\<rparr>)) ids)" for out
  proof (induction ids arbitrary: out)
    case (Cons i ids)
    then show ?case using encode_register_appends [of i out] by simp
  qed simp
  then show ?thesis by (simp add: new_journal_def)
qed

lemma journal_of_frames: "journal_of universe cmds = concat (map journal_frame (frames_of universe cmds))"
proof -
  have "fold (\<lambda>cmd file. journal_write file cmd) cmds f = f @ concat (map (\<lambda>c. journal_frame (FrameCommand c)) cmds)" for f
    by (induction cmds arbitrary: f) (simp_all add: journal_write_def)
  then show ?thesis by (simp add: journal_of_def frames_of_def new_journal_frames comp_def)
qed

subsection \<open>Replay\<close>

declare replay_loop.simps [simp del]

lemma replay_registrations:
  "\<exists>n. replay_loop stop outcome (concat (map (\<lambda>i. journal_frame (FrameRegister \<lparr>ri_instrument_id = i\<rparr>)) ids) @ rest) =
   replay_loop stop (outcome\<lparr>cr_engine := fold (\<lambda>i E. fst (register_instrument E i)) ids (cr_engine outcome),
     cr_instruments_registered := n\<rparr>) rest"
proof (induction ids arbitrary: outcome)
  case Nil
  show ?case by (rule exI [of _ "cr_instruments_registered outcome"]) simp
next
  case (Cons i ids)
  obtain E added where r: "register_instrument (cr_engine outcome) i = (E, added)" by (cases "register_instrument (cr_engine outcome) i")
  show ?case
    using Cons.IH [of "outcome\<lparr>cr_engine := E, cr_instruments_registered := cr_instruments_registered outcome + (if added then 1 else 0)\<rparr>"]
    by (subst replay_loop.simps) (simp add: journal.next_frame r del: journal_frame.simps)
qed

lemma replay_commands:
  assumes "run (cr_engine outcome) cmds = Some (E, evs)"
  shows "replay_loop stop outcome (concat (map (\<lambda>c. journal_frame (FrameCommand c)) cmds)) =
    Some (outcome\<lparr>cr_engine := E, cr_events := cr_events outcome @ evs, cr_commands_processed := cr_commands_processed outcome + length cmds\<rparr>)"
  using assms
proof (induction cmds arbitrary: outcome evs)
  case Nil
  then show ?case by (subst replay_loop.simps) (simp add: journal.next_end)
next
  case (Cons cmd cmds)
  then obtain E1 evs1 evs2 where p: "process (cr_engine outcome) cmd = Some (E1, evs1)" "run E1 cmds = Some (E, evs2)" "evs = evs1 @ evs2"
    by (auto split: bind_splits)
  show ?case
    using p Cons.IH [of "outcome\<lparr>cr_engine := E1, cr_events := cr_events outcome @ evs1, cr_commands_processed := cr_commands_processed outcome + 1\<rparr>" evs2]
    by (subst replay_loop.simps) (simp add: journal.next_frame del: journal_frame.simps)
qed

lemma new_engines_same_market:
  "same_market (new_engine universe n) (fold (\<lambda>i E. fst (register_instrument E i)) universe (new_engine [] m))"
  "engine_load (fold (\<lambda>i E. fst (register_instrument E i)) universe (new_engine [] m)) 0"
  "me_orders (fold (\<lambda>i E. fst (register_instrument E i)) universe (new_engine [] m)) = Map.empty"
proof -
  let ?F = "fold (\<lambda>i E. fst (register_instrument E i)) universe (new_engine [] m)"
  note f = fold_register_state [OF new_engine_inv new_engine_state(1-3), of universe "[]" m]
  show "engine_load ?F 0" "me_orders ?F = Map.empty" using f by simp_all
  show "same_market (new_engine universe n) ?F"
    using f by (simp add: same_market_def new_engine_inv fold_register_inv new_engine_state new_engine_counters fold_register_counters)
qed

text \<open>
  C18. Replaying a journal reproduces the run that wrote it. For every run of C1, the journal
  written for it (the registrations of the universe, then the commands in order) replays to the end,
  with either policy on decode errors: every command is processed, the events are the same event
  for event, and the rebuilt engine shows the same order lists and counters, although it was built
  without a universe and its price ladders may have other widths than the original's.
\<close>

theorem replay_reproduces_run:
  assumes "length cmds \<le> kNil" "\<forall>cmd \<in> set cmds. bounded_command cmd" "distinct (concat (map command_keys cmds))"
  shows "\<exists>E evs out. run (new_engine universe expected) cmds = Some (E, evs) \<and>
    run_command_replay path (Some (journal_of universe cmds)) stop_on_decode_error = Some out \<and>
    cr_events out = evs \<and> same_market E (cr_engine out) \<and> cr_commands_processed out = length cmds \<and> \<not> cr_stopped_early out"
proof -
  let ?E = "new_engine universe expected" and ?F = "fold (\<lambda>i E. fst (register_instrument E i)) universe (new_engine [] 0)"
  have "runnable ?E 0 cmds" "runnable ?F 0 cmds"
    using assms by (simp_all add: runnable_def new_engine_state new_engines_same_market)
  from run_same [OF new_engines_same_market(1) this] obtain E F evs where
    r: "run ?E cmds = Some (E, evs)" "run ?F cmds = Some (F, evs)" "same_market E F" by metis
  obtain n where "replay_loop stop_on_decode_error new_replay_outcome (journal_of universe cmds) =
      replay_loop stop_on_decode_error (new_replay_outcome\<lparr>cr_engine := ?F, cr_instruments_registered := n\<rparr>)
        (concat (map (\<lambda>c. journal_frame (FrameCommand c)) cmds))"
    using replay_registrations [of stop_on_decode_error new_replay_outcome universe "concat (map (\<lambda>c. journal_frame (FrameCommand c)) cmds)"]
    by (auto simp: journal_of_frames frames_of_def comp_def new_replay_outcome_def)
  also have "\<dots> = Some (new_replay_outcome\<lparr>cr_engine := F, cr_instruments_registered := n, cr_events := evs,
      cr_commands_processed := length cmds\<rparr>)"
    using replay_commands [of "new_replay_outcome\<lparr>cr_engine := ?F, cr_instruments_registered := n\<rparr>" cmds F evs stop_on_decode_error] r(2)
    by (simp add: new_replay_outcome_def)
  finally have "run_command_replay path (Some (journal_of universe cmds)) stop_on_decode_error =
      Some (new_replay_outcome\<lparr>cr_engine := F, cr_instruments_registered := n, cr_events := evs, cr_commands_processed := length cmds\<rparr>)"
    by (simp add: run_command_replay_def)
  then show ?thesis using r by (simp add: new_replay_outcome_def)
qed

theorem replay_reproduces_run_witness:
  "\<exists>E evs out. run (new_engine [7] 4) [NewOrder (sample_new Buy 1 100 10 GTC)] = Some (E, evs) \<and>
    run_command_replay ''j'' (Some (journal_of [7] [NewOrder (sample_new Buy 1 100 10 GTC)])) True = Some out \<and>
    cr_events out = evs \<and> same_market E (cr_engine out) \<and> cr_commands_processed out = 1 \<and> \<not> cr_stopped_early out"
  using replay_reproduces_run [of "[NewOrder (sample_new Buy 1 100 10 GTC)]" "[7]" 4 "''j''" True] by (simp add: kNil_def)

subsection \<open>A journal cut short\<close>

lemma journal_next_cut:
  assumes "0 < k" "k < length (journal_frame f)"
  shows "journal_next (take k (journal_frame f)) = Some (Inl (if k < 12 then CdTruncatedHeader else CdTruncatedPayload), [])"
proof (cases "k < 12")
  case True
  then show ?thesis using assms by (simp add: journal_next_def cj_HEADER_SIZE_def Let_def cj.encode_nonempty)
next
  case False
  have "take 12 (take k (journal_frame f)) = take 12 (journal_frame f @ [])" using False by (simp add: min_absorb1)
  moreover have "decode_command_header (take 12 (journal_frame f @ [])) = Inr (frame_header f)" by (rule cj.header_of_frame)
  moreover have len: "length (journal_frame f) = 12 + unat (ch_payload_size (frame_header f))" by (simp add: cj.length_frame frame_sizes)
  moreover have "k - 12 < unat (ch_payload_size (frame_header f))" using assms(2) False len by linarith
  ultimately show ?thesis using assms False by (simp add: journal_next_def cj_HEADER_SIZE_def Let_def cj.encode_nonempty)
qed

lemma cut_frames:
  assumes "k \<le> length (concat (map journal_frame fs))" "k \<le> n"
  shows "\<exists>j tail. j \<le> length fs \<and> read_frames journal_next n (take k (concat (map journal_frame fs))) = map Inr (take j fs) @ tail \<and>
    length (concat (map journal_frame (take j fs))) \<le> k \<and>
    (if k = length (concat (map journal_frame (take j fs))) then tail = []
     else j < length fs \<and> k < length (concat (map journal_frame (take (Suc j) fs))) \<and>
       (tail = [Inl CdTruncatedHeader] \<or> tail = [Inl CdTruncatedPayload]))"
  using assms
proof (induction fs arbitrary: k n)
  case Nil
  then show ?case by (cases n) (simp_all add: journal.next_end)
next
  case (Cons f fs)
  let ?l = "length (journal_frame f)"
  have pos: "0 < ?l" using cj.encode_nonempty by simp
  consider "k = 0" | "0 < k" "k < ?l" | "?l \<le> k" by linarith
  then show ?case
  proof cases
    case 1
    then show ?thesis by (intro exI [of _ 0] exI [of _ "[]"]) (cases n; simp add: journal.next_end)
  next
    case 2
    then obtain m where m: "n = Suc m" using Cons.prems by (cases n) auto
    have end_of: "read_frames journal_next m [] = ([] :: (CommandDecodeError + JournalFrame) list)" by (cases m) (simp_all add: journal.next_end)
    show ?thesis
      using 2 m journal_next_cut [OF 2] end_of
      by (intro exI [of _ 0] exI [of _ "[Inl (if k < 12 then CdTruncatedHeader else CdTruncatedPayload)]"]) simp
  next
    case 3
    then obtain m where m: "n = Suc m" using pos Cons.prems by (cases n) auto
    have t: "take k (concat (map journal_frame (f # fs))) = journal_frame f @ take (k - ?l) (concat (map journal_frame fs))" using 3 by simp
    have "k - ?l \<le> length (concat (map journal_frame fs))" using Cons.prems by simp
    moreover have "k - ?l \<le> m" using Cons.prems(2) m pos by arith
    ultimately obtain j tail where
      j: "j \<le> length fs" "read_frames journal_next m (take (k - ?l) (concat (map journal_frame fs))) = map Inr (take j fs) @ tail"
        "length (concat (map journal_frame (take j fs))) \<le> k - ?l"
        "if k - ?l = length (concat (map journal_frame (take j fs))) then tail = []
         else j < length fs \<and> k - ?l < length (concat (map journal_frame (take (Suc j) fs))) \<and>
           (tail = [Inl CdTruncatedHeader] \<or> tail = [Inl CdTruncatedPayload])"
      using Cons.IH [of "k - ?l" m] by metis
    show ?thesis
    proof (intro exI [of _ "Suc j"] exI [of _ tail] conjI)
      show "read_frames journal_next n (take k (concat (map journal_frame (f # fs)))) = map Inr (take (Suc j) (f # fs)) @ tail"
        unfolding t m using j(2) by (simp add: journal.next_frame)
    qed (use j 3 in \<open>auto split: if_splits\<close>)
  qed
qed

text \<open>
  C19. A journal cut at any byte, as by a crash while writing, still yields every frame that was
  written completely, unchanged and in order. Reading then ends cleanly if the cut falls between
  two frames, and with exactly one truncation error if it falls inside one: no frame is invented
  from a partial one.
\<close>

theorem cut_journal_keeps_complete_frames:
  assumes "k \<le> length (journal_of universe cmds)"
  shows "\<exists>j tail. j \<le> length (frames_of universe cmds) \<and>
    read_frames journal_next k (take k (journal_of universe cmds)) = map Inr (take j (frames_of universe cmds)) @ tail \<and>
    length (concat (map journal_frame (take j (frames_of universe cmds)))) \<le> k \<and>
    (if k = length (concat (map journal_frame (take j (frames_of universe cmds)))) then tail = []
     else j < length (frames_of universe cmds) \<and>
       k < length (concat (map journal_frame (take (Suc j) (frames_of universe cmds)))) \<and>
       (tail = [Inl CdTruncatedHeader] \<or> tail = [Inl CdTruncatedPayload]))"
  using cut_frames [of k "frames_of universe cmds" k] assms by (simp add: journal_of_frames)

theorem cut_journal_keeps_complete_frames_witness:
  "\<exists>j tail. j \<le> length (frames_of [7] []) \<and>
    read_frames journal_next 15 (take 15 (journal_of [7] [])) = map Inr (take j (frames_of [7] [])) @ tail \<and>
    length (concat (map journal_frame (take j (frames_of [7] [])))) \<le> 15 \<and>
    (if 15 = length (concat (map journal_frame (take j (frames_of [7] [])))) then tail = []
     else j < length (frames_of [7] []) \<and> 15 < length (concat (map journal_frame (take (Suc j) (frames_of [7] [])))) \<and>
       (tail = [Inl CdTruncatedHeader] \<or> tail = [Inl CdTruncatedPayload]))"
  by (rule cut_journal_keeps_complete_frames)
    (simp add: journal_of_def new_journal_def encode_register_instrument_def cj_put_header_def wire_simps)

end
