(* ===== verification/Market_Data_Protocol.thy ===== *)
theory Market_Data_Protocol
  imports Byte_IO
begin

text \<open>
  The market-data wire format (\<open>protocol/messages.hpp\<close>, \<open>protocol/encoder.cpp\<close>,
  \<open>protocol/decoder.cpp\<close>): a 20-byte header with a type, a payload size, a sequence number and a
  timestamp, and five fixed-size payloads. The codec is shown to satisfy \<open>framed_codec\<close>.
\<close>

subsection \<open>Messages\<close>

definition HEADER_SIZE :: nat where
  "HEADER_SIZE = 20"

datatype MessageType = MtAddOrder | MtCancelOrder | MtModifyOrder | MtTrade | MtClearBook

fun message_type_code :: "MessageType \<Rightarrow> u8" where
  "message_type_code MtAddOrder = 1"
| "message_type_code MtCancelOrder = 2"
| "message_type_code MtModifyOrder = 3"
| "message_type_code MtTrade = 4"
| "message_type_code MtClearBook = 5"

record Header =
  h_type :: MessageType
  h_payload_size :: u16
  h_sequence_number :: Sequence
  h_timestamp_ns :: Timestamp

record AddOrder =
  ao_sequence_number :: Sequence
  ao_timestamp_ns :: Timestamp
  ao_order_id :: OrderId
  ao_instrument_id :: InstrumentId
  ao_price :: Price
  ao_quantity :: Quantity
  ao_side :: Side

record CancelOrder =
  co_sequence_number :: Sequence
  co_timestamp_ns :: Timestamp
  co_order_id :: OrderId
  co_instrument_id :: InstrumentId

record ModifyOrder =
  mo_sequence_number :: Sequence
  mo_timestamp_ns :: Timestamp
  mo_order_id :: OrderId
  mo_instrument_id :: InstrumentId
  mo_new_price :: Price
  mo_new_quantity :: Quantity

record Trade =
  tr_sequence_number :: Sequence
  tr_timestamp_ns :: Timestamp
  tr_instrument_id :: InstrumentId
  tr_price :: Price
  tr_quantity :: Quantity
  tr_aggressor_side :: Side

record ClearBook =
  cb_sequence_number :: Sequence
  cb_timestamp_ns :: Timestamp
  cb_instrument_id :: InstrumentId

datatype Event =
    EvAdd AddOrder
  | EvCancel CancelOrder
  | EvModify ModifyOrder
  | EvTrade Trade
  | EvClear ClearBook

fun payload_size_for :: "MessageType \<Rightarrow> nat" where
  "payload_size_for MtAddOrder = 8 + 4 + 8 + 8 + 1"
| "payload_size_for MtCancelOrder = 8 + 4"
| "payload_size_for MtModifyOrder = 8 + 4 + 8 + 8"
| "payload_size_for MtTrade = 4 + 8 + 8 + 1"
| "payload_size_for MtClearBook = 4"

datatype DecodeError =
    TruncatedHeader
  | TruncatedPayload
  | InvalidReserved
  | InvalidMessageType
  | InvalidMessageSize
  | InvalidSide

subsection \<open>Encoder\<close>

definition put_header :: "MessageType \<Rightarrow> Sequence \<Rightarrow> Timestamp \<Rightarrow> u16 \<Rightarrow> byte list \<Rightarrow> byte list" where
  "put_header ty seq ts payload_size buf =
     put_u64 ts (put_u64 seq (put_u16 payload_size (put_u8 0 (put_u8 (message_type_code ty) buf))))"

definition put_side :: "Side \<Rightarrow> byte list \<Rightarrow> byte list" where
  "put_side s buf = put_u8 (side_code s) buf"

definition put_event_header :: "MessageType \<Rightarrow> Sequence \<Rightarrow> Timestamp \<Rightarrow> byte list \<Rightarrow> byte list" where
  "put_event_header ty seq ts buf = put_header ty seq ts (of_nat (payload_size_for ty)) buf"

fun encode_event :: "Event \<Rightarrow> byte list \<Rightarrow> byte list" where
  "encode_event (EvAdd msg) out =
     (let out = put_event_header MtAddOrder (ao_sequence_number msg) (ao_timestamp_ns msg) out;
          out = put_u64 (ao_order_id msg) out;
          out = put_u32 (ao_instrument_id msg) out;
          out = put_i64 (ao_price msg) out;
          out = put_u64 (ao_quantity msg) out
      in put_side (ao_side msg) out)"
| "encode_event (EvCancel msg) out =
     (let out = put_event_header MtCancelOrder (co_sequence_number msg) (co_timestamp_ns msg) out;
          out = put_u64 (co_order_id msg) out
      in put_u32 (co_instrument_id msg) out)"
| "encode_event (EvModify msg) out =
     (let out = put_event_header MtModifyOrder (mo_sequence_number msg) (mo_timestamp_ns msg) out;
          out = put_u64 (mo_order_id msg) out;
          out = put_u32 (mo_instrument_id msg) out;
          out = put_i64 (mo_new_price msg) out
      in put_u64 (mo_new_quantity msg) out)"
| "encode_event (EvTrade msg) out =
     (let out = put_event_header MtTrade (tr_sequence_number msg) (tr_timestamp_ns msg) out;
          out = put_u32 (tr_instrument_id msg) out;
          out = put_i64 (tr_price msg) out;
          out = put_u64 (tr_quantity msg) out
      in put_side (tr_aggressor_side msg) out)"
| "encode_event (EvClear msg) out =
     (let out = put_event_header MtClearBook (cb_sequence_number msg) (cb_timestamp_ns msg) out
      in put_u32 (cb_instrument_id msg) out)"

subsection \<open>Decoder\<close>

definition is_known_type :: "u8 \<Rightarrow> bool" where
  "is_known_type raw \<longleftrightarrow> raw = message_type_code MtAddOrder \<or> raw = message_type_code MtCancelOrder \<or>
     raw = message_type_code MtModifyOrder \<or> raw = message_type_code MtTrade \<or> raw = message_type_code MtClearBook"

definition to_message_type :: "u8 \<Rightarrow> MessageType" where
  "to_message_type raw =
     (if raw = message_type_code MtAddOrder then MtAddOrder
      else if raw = message_type_code MtCancelOrder then MtCancelOrder
      else if raw = message_type_code MtModifyOrder then MtModifyOrder
      else if raw = message_type_code MtTrade then MtTrade
      else MtClearBook)"

definition decode_header :: "byte list \<Rightarrow> DecodeError + Header" where
  "decode_header data =
     (if length data < HEADER_SIZE then Inl TruncatedHeader
      else let
        r = new_reader (take HEADER_SIZE data);
        (type_raw, r) = get_u8 r;
        (reserved, r) = get_u8 r;
        (payload_size, r) = get_u16 r;
        (seq, r) = get_u64 r;
        (ts, r) = get_u64 r
      in case (type_raw, reserved, payload_size, seq, ts) of
        (Some type_raw, Some reserved, Some payload_size, Some seq, Some ts) \<Rightarrow>
          if reserved \<noteq> 0 then Inl InvalidReserved
          else if \<not> is_known_type type_raw then Inl InvalidMessageType
          else Inr \<lparr>h_type = to_message_type type_raw, h_payload_size = payload_size,
                 h_sequence_number = seq, h_timestamp_ns = ts\<rparr>
      | _ \<Rightarrow> Inl TruncatedHeader)"

text \<open>The switch of \<open>decode_event\<close>, one case per message type, on a reader over the payload.\<close>

definition decode_add_order :: "Header \<Rightarrow> ByteReader \<Rightarrow> DecodeError + Event" where
  "decode_add_order header r = (let
      (order_id, r) = get_u64 r;
      (instrument_id, r) = get_u32 r;
      (price, r) = get_i64 r;
      (quantity, r) = get_u64 r;
      (side_raw, r) = get_u8 r
    in case (order_id, instrument_id, price, quantity, side_raw) of
      (Some order_id, Some instrument_id, Some price, Some quantity, Some side_raw) \<Rightarrow>
        if \<not> is_valid_side side_raw then Inl InvalidSide
        else Inr (EvAdd \<lparr>ao_sequence_number = h_sequence_number header, ao_timestamp_ns = h_timestamp_ns header,
               ao_order_id = order_id, ao_instrument_id = instrument_id, ao_price = price,
               ao_quantity = quantity, ao_side = to_side side_raw\<rparr>)
    | _ \<Rightarrow> Inl TruncatedPayload)"

definition decode_cancel_order :: "Header \<Rightarrow> ByteReader \<Rightarrow> DecodeError + Event" where
  "decode_cancel_order header r = (let
      (order_id, r) = get_u64 r;
      (instrument_id, r) = get_u32 r
    in case (order_id, instrument_id) of
      (Some order_id, Some instrument_id) \<Rightarrow>
        Inr (EvCancel \<lparr>co_sequence_number = h_sequence_number header, co_timestamp_ns = h_timestamp_ns header,
               co_order_id = order_id, co_instrument_id = instrument_id\<rparr>)
    | _ \<Rightarrow> Inl TruncatedPayload)"

definition decode_modify_order :: "Header \<Rightarrow> ByteReader \<Rightarrow> DecodeError + Event" where
  "decode_modify_order header r = (let
      (order_id, r) = get_u64 r;
      (instrument_id, r) = get_u32 r;
      (new_price, r) = get_i64 r;
      (new_quantity, r) = get_u64 r
    in case (order_id, instrument_id, new_price, new_quantity) of
      (Some order_id, Some instrument_id, Some new_price, Some new_quantity) \<Rightarrow>
        Inr (EvModify \<lparr>mo_sequence_number = h_sequence_number header, mo_timestamp_ns = h_timestamp_ns header,
               mo_order_id = order_id, mo_instrument_id = instrument_id,
               mo_new_price = new_price, mo_new_quantity = new_quantity\<rparr>)
    | _ \<Rightarrow> Inl TruncatedPayload)"

definition decode_trade :: "Header \<Rightarrow> ByteReader \<Rightarrow> DecodeError + Event" where
  "decode_trade header r = (let
      (instrument_id, r) = get_u32 r;
      (price, r) = get_i64 r;
      (quantity, r) = get_u64 r;
      (side_raw, r) = get_u8 r
    in case (instrument_id, price, quantity, side_raw) of
      (Some instrument_id, Some price, Some quantity, Some side_raw) \<Rightarrow>
        if \<not> is_valid_side side_raw then Inl InvalidSide
        else Inr (EvTrade \<lparr>tr_sequence_number = h_sequence_number header, tr_timestamp_ns = h_timestamp_ns header,
               tr_instrument_id = instrument_id, tr_price = price, tr_quantity = quantity,
               tr_aggressor_side = to_side side_raw\<rparr>)
    | _ \<Rightarrow> Inl TruncatedPayload)"

definition decode_clear_book :: "Header \<Rightarrow> ByteReader \<Rightarrow> DecodeError + Event" where
  "decode_clear_book header r = (let (instrument_id, r) = get_u32 r in
     case instrument_id of
       Some instrument_id \<Rightarrow> Inr (EvClear \<lparr>cb_sequence_number = h_sequence_number header,
         cb_timestamp_ns = h_timestamp_ns header, cb_instrument_id = instrument_id\<rparr>)
     | None \<Rightarrow> Inl TruncatedPayload)"

definition decode_payload :: "Header \<Rightarrow> ByteReader \<Rightarrow> DecodeError + Event" where
  "decode_payload header r = (case h_type header of
     MtAddOrder \<Rightarrow> decode_add_order header r
   | MtCancelOrder \<Rightarrow> decode_cancel_order header r
   | MtModifyOrder \<Rightarrow> decode_modify_order header r
   | MtTrade \<Rightarrow> decode_trade header r
   | MtClearBook \<Rightarrow> decode_clear_book header r)"

definition decode_event :: "byte list \<Rightarrow> DecodeError + Event" where
  "decode_event data =
     (case decode_header data of
        Inl e \<Rightarrow> Inl e
      | Inr header \<Rightarrow>
          let expected_payload = payload_size_for (h_type header) in
          if unat (h_payload_size header) \<noteq> expected_payload then Inl InvalidMessageSize
          else if length data < HEADER_SIZE + unat (h_payload_size header) then Inl TruncatedPayload
          else decode_payload header (new_reader (take (unat (h_payload_size header)) (drop HEADER_SIZE data))))"

subsection \<open>What the decoder accepts\<close>

text \<open>A header with these fields, as bytes.\<close>

definition header_bytes :: "u8 \<Rightarrow> u8 \<Rightarrow> u16 \<Rightarrow> u64 \<Rightarrow> u64 \<Rightarrow> byte list" where
  "header_bytes ty res ps seq ts = [ty, res] @ be_bytes 2 ps @ be_bytes 8 seq @ be_bytes 8 ts"

lemma length_header_bytes [simp]: "length (header_bytes ty res ps seq ts) = 20"
  by (simp add: header_bytes_def)

lemma header_exhaust:
  assumes "20 \<le> length data"
  obtains ty res ps seq ts rest where "data = header_bytes ty res ps seq ts @ rest"
proof -
  obtain ty r1 where 1: "data = [ty] @ r1" using field_exhaust(1) [of data] assms by auto
  obtain res r2 where 2: "r1 = [res] @ r2" using field_exhaust(1) [of r1] assms 1 by auto
  obtain ps r3 where 3: "r2 = be_bytes 2 (ps :: u16) @ r3" using field_exhaust(2) [of r2] assms 1 2 by auto
  obtain seq r4 where 4: "r3 = be_bytes 8 (seq :: u64) @ r4" using field_exhaust(4) [of r3] assms 1 2 3 by auto
  obtain ts r5 where 5: "r4 = be_bytes 8 (ts :: u64) @ r5" using field_exhaust(4) [of r4] assms 1 2 3 4 by auto
  show ?thesis using that 1 2 3 4 5 by (simp add: header_bytes_def)
qed

lemma decode_header_bytes:
  "decode_header (header_bytes ty res ps seq ts @ rest) =
     (if res \<noteq> 0 then Inl InvalidReserved
      else if \<not> is_known_type ty then Inl InvalidMessageType
      else Inr \<lparr>h_type = to_message_type ty, h_payload_size = ps, h_sequence_number = seq, h_timestamp_ns = ts\<rparr>)"
  by (simp add: decode_header_def header_bytes_def HEADER_SIZE_def wire_simps)

lemma decode_header_short: "length data < 20 \<Longrightarrow> decode_header data = Inl TruncatedHeader"
  by (simp add: decode_header_def HEADER_SIZE_def)

lemma type_codes [wire_simps]: "is_known_type (message_type_code ty)" "to_message_type (message_type_code ty) = ty"
  by (cases ty; simp add: is_known_type_def to_message_type_def)+

lemma type_back: "is_known_type raw \<Longrightarrow> message_type_code (to_message_type raw) = raw"
  by (auto simp: is_known_type_def to_message_type_def)

lemma put_header_bytes [wire_simps]:
  "put_event_header ty seq ts buf = buf @ header_bytes (message_type_code ty) 0 (of_nat (payload_size_for ty)) seq ts"
  by (simp add: put_event_header_def put_header_def header_bytes_def wire_simps)

lemma payload_size_fits [simp]: "unat (of_nat (payload_size_for ty) :: u16) = payload_size_for ty"
  by (cases ty) simp_all

text \<open>The fields of a payload, after the header.\<close>

fun event_type :: "Event \<Rightarrow> MessageType" where
  "event_type (EvAdd _) = MtAddOrder"
| "event_type (EvCancel _) = MtCancelOrder"
| "event_type (EvModify _) = MtModifyOrder"
| "event_type (EvTrade _) = MtTrade"
| "event_type (EvClear _) = MtClearBook"

fun event_seq :: "Event \<Rightarrow> Sequence" where
  "event_seq (EvAdd m) = ao_sequence_number m"
| "event_seq (EvCancel m) = co_sequence_number m"
| "event_seq (EvModify m) = mo_sequence_number m"
| "event_seq (EvTrade m) = tr_sequence_number m"
| "event_seq (EvClear m) = cb_sequence_number m"

fun event_ts :: "Event \<Rightarrow> Timestamp" where
  "event_ts (EvAdd m) = ao_timestamp_ns m"
| "event_ts (EvCancel m) = co_timestamp_ns m"
| "event_ts (EvModify m) = mo_timestamp_ns m"
| "event_ts (EvTrade m) = tr_timestamp_ns m"
| "event_ts (EvClear m) = cb_timestamp_ns m"

fun payload_bytes :: "Event \<Rightarrow> byte list" where
  "payload_bytes (EvAdd m) = be_bytes 8 (ao_order_id m) @ be_bytes 4 (ao_instrument_id m) @
     be_bytes 8 (i64_bits (ao_price m)) @ be_bytes 8 (ao_quantity m) @ [side_code (ao_side m)]"
| "payload_bytes (EvCancel m) = be_bytes 8 (co_order_id m) @ be_bytes 4 (co_instrument_id m)"
| "payload_bytes (EvModify m) = be_bytes 8 (mo_order_id m) @ be_bytes 4 (mo_instrument_id m) @
     be_bytes 8 (i64_bits (mo_new_price m)) @ be_bytes 8 (mo_new_quantity m)"
| "payload_bytes (EvTrade m) = be_bytes 4 (tr_instrument_id m) @ be_bytes 8 (i64_bits (tr_price m)) @
     be_bytes 8 (tr_quantity m) @ [side_code (tr_aggressor_side m)]"
| "payload_bytes (EvClear m) = be_bytes 4 (cb_instrument_id m)"

lemma length_payload_bytes [simp]: "length (payload_bytes ev) = payload_size_for (event_type ev)"
  by (cases ev) simp_all

text \<open>The bytes of one event frame.\<close>

abbreviation event_frame :: "Event \<Rightarrow> byte list" where
  "event_frame ev \<equiv> encode_event ev []"

lemma encode_event_bytes:
  "encode_event ev out = out @ header_bytes (message_type_code (event_type ev)) 0
     (of_nat (payload_size_for (event_type ev))) (event_seq ev) (event_ts ev) @ payload_bytes ev"
  by (cases ev) (simp_all add: wire_simps put_side_def)

lemma length_event_frame [simp]: "length (event_frame ev) = 20 + payload_size_for (event_type ev)"
  by (simp add: encode_event_bytes)

lemma encode_event_appends: "encode_event ev out = out @ event_frame ev"
  by (simp add: encode_event_bytes)

lemmas decode_payload_defs = decode_payload_def decode_add_order_def decode_cancel_order_def decode_modify_order_def
  decode_trade_def decode_clear_book_def

text \<open>The header of a message, and a header as bytes.\<close>

definition header_of :: "Event \<Rightarrow> Header" where
  "header_of ev = \<lparr>h_type = event_type ev, h_payload_size = of_nat (payload_size_for (event_type ev)),
     h_sequence_number = event_seq ev, h_timestamp_ns = event_ts ev\<rparr>"

definition header_frame :: "Header \<Rightarrow> byte list" where
  "header_frame h = header_bytes (message_type_code (h_type h)) 0 (h_payload_size h) (h_sequence_number h) (h_timestamp_ns h)"

lemma length_header_frame [simp]: "length (header_frame h) = 20"
  by (simp add: header_frame_def)

lemma decode_header_iff: "decode_header data = Inr h \<longleftrightarrow> (\<exists>rest. data = header_frame h @ rest)"
proof (cases "20 \<le> length data")
  case True
  then obtain ty res ps seq ts rest where data: "data = header_bytes ty res ps seq ts @ rest" by (rule header_exhaust)
  have "decode_header data = Inr h \<longleftrightarrow> res = 0 \<and> is_known_type ty \<and>
      h = \<lparr>h_type = to_message_type ty, h_payload_size = ps, h_sequence_number = seq, h_timestamp_ns = ts\<rparr>"
    by (auto simp: data decode_header_bytes)
  also have "\<dots> \<longleftrightarrow> header_bytes ty res ps seq ts = header_frame h"
    by (auto simp: header_frame_def header_bytes_def type_back type_codes)
  finally show ?thesis by (auto simp: data)
qed (auto simp: decode_header_short)

lemma decode_payload_iff:
  assumes "unat (h_payload_size h) = payload_size_for (h_type h)" "length bs = payload_size_for (h_type h)"
  shows "decode_payload h (new_reader bs) = Inr ev \<longleftrightarrow> h = header_of ev \<and> bs = payload_bytes ev"
proof
  assume "h = header_of ev \<and> bs = payload_bytes ev"
  then show "decode_payload h (new_reader bs) = Inr ev"
    by (cases ev) (simp_all add: header_of_def decode_payload_defs wire_simps)
next
  assume dec: "decode_payload h (new_reader bs) = Inr ev"
  have "bs = payload_bytes ev \<and> h_type h = event_type ev \<and> h_sequence_number h = event_seq ev \<and> h_timestamp_ns h = event_ts ev"
    using dec assms(2) by (cases "h_type h") (auto simp: decode_payload_defs wire_simps wire_back split: if_splits)
  moreover from this assms(1) have "h_payload_size h = of_nat (payload_size_for (event_type ev))"
    by (simp add: word_unat_eq_iff)
  ultimately show "h = header_of ev \<and> bs = payload_bytes ev" by (simp add: header_of_def)
qed

interpretation md: exact_sized_codec 20 header_frame decode_header "\<lambda>h. unat (h_payload_size h)" "\<lambda>h. payload_size_for (h_type h)"
  "\<lambda>h bs. decode_payload h (new_reader bs)" header_of payload_bytes InvalidMessageSize TruncatedPayload event_frame decode_event
proof
  show "event_frame ev = header_frame (header_of ev) @ payload_bytes ev" for ev
    by (simp add: encode_event_bytes header_frame_def header_of_def)
qed (unfold decode_event_def HEADER_SIZE_def Let_def, use decode_header_iff decode_payload_iff in \<open>auto simp: header_of_def\<close>)

end
