(* ===== verification/Order_Entry_Protocol.thy ===== *)
theory Order_Entry_Protocol
  imports Byte_IO
begin

text \<open>
  The order-entry wire format (\<open>protocol/order_entry/\<close>): three client requests and five gateway
  responses behind a 3-byte header of type and payload size. The codec satisfies \<open>framed_codec\<close>.
\<close>

subsection \<open>Messages\<close>

definition oe_HEADER_SIZE :: nat where
  "oe_HEADER_SIZE = 3"

datatype OeMessageType = OmNewOrder | OmCancelOrder | OmReplaceOrder | OmAccepted | OmRejected | OmCancelled | OmReplaced | OmTradeReport

fun oe_type_code :: "OeMessageType \<Rightarrow> u8" where
  "oe_type_code OmNewOrder = 1"
| "oe_type_code OmCancelOrder = 2"
| "oe_type_code OmReplaceOrder = 3"
| "oe_type_code OmAccepted = 10"
| "oe_type_code OmRejected = 11"
| "oe_type_code OmCancelled = 12"
| "oe_type_code OmReplaced = 13"
| "oe_type_code OmTradeReport = 14"

record OeHeader =
  oh_type :: OeMessageType
  oh_payload_size :: u16

record OeNewOrder =
  on_account_id :: AccountId
  on_client_order_id :: ClientOrderId
  on_instrument_id :: InstrumentId
  on_side :: Side
  on_price :: Price
  on_quantity :: Quantity
  on_order_type :: OrderType
  on_time_in_force :: TimeInForce

record OeCancelOrder =
  ocn_account_id :: AccountId
  ocn_client_order_id :: ClientOrderId
  ocn_instrument_id :: InstrumentId

record OeReplaceOrder =
  orp_account_id :: AccountId
  orp_original_client_order_id :: ClientOrderId
  orp_new_client_order_id :: ClientOrderId
  orp_instrument_id :: InstrumentId
  orp_new_price :: Price
  orp_new_quantity :: Quantity

record OeAccepted =
  oac_account_id :: AccountId
  oac_client_order_id :: ClientOrderId
  oac_exchange_order_id :: ExchangeOrderId
  oac_instrument_id :: InstrumentId
  oac_side :: Side
  oac_price :: Price
  oac_quantity :: Quantity
  oac_order_type :: OrderType
  oac_time_in_force :: TimeInForce

record OeRejected =
  orj_account_id :: AccountId
  orj_client_order_id :: ClientOrderId
  orj_instrument_id :: InstrumentId
  orj_reason :: RejectReason

record OeCancelled =
  oca_account_id :: AccountId
  oca_client_order_id :: ClientOrderId
  oca_exchange_order_id :: ExchangeOrderId
  oca_instrument_id :: InstrumentId

record OeReplaced =
  ord_account_id :: AccountId
  ord_original_client_order_id :: ClientOrderId
  ord_new_client_order_id :: ClientOrderId
  ord_exchange_order_id :: ExchangeOrderId
  ord_instrument_id :: InstrumentId
  ord_new_price :: Price
  ord_new_quantity :: Quantity

record OeTradeReport =
  otr_account_id :: AccountId
  otr_client_order_id :: ClientOrderId
  otr_exchange_order_id :: ExchangeOrderId
  otr_instrument_id :: InstrumentId
  otr_price :: Price
  otr_quantity :: Quantity
  otr_remaining_quantity :: Quantity

datatype Message =
    MsgNewOrder OeNewOrder
  | MsgCancelOrder OeCancelOrder
  | MsgReplaceOrder OeReplaceOrder
  | MsgAccepted OeAccepted
  | MsgRejected OeRejected
  | MsgCancelled OeCancelled
  | MsgReplaced OeReplaced
  | MsgTradeReport OeTradeReport

fun oe_payload_size_for :: "OeMessageType \<Rightarrow> nat" where
  "oe_payload_size_for OmNewOrder = 8 + 8 + 4 + 1 + 8 + 8 + 1 + 1"
| "oe_payload_size_for OmCancelOrder = 8 + 8 + 4"
| "oe_payload_size_for OmReplaceOrder = 8 + 8 + 8 + 4 + 8 + 8"
| "oe_payload_size_for OmAccepted = 8 + 8 + 8 + 4 + 1 + 8 + 8 + 1 + 1"
| "oe_payload_size_for OmRejected = 8 + 8 + 4 + 1"
| "oe_payload_size_for OmCancelled = 8 + 8 + 8 + 4"
| "oe_payload_size_for OmReplaced = 8 + 8 + 8 + 8 + 4 + 8 + 8"
| "oe_payload_size_for OmTradeReport = 8 + 8 + 8 + 4 + 8 + 8 + 8"

datatype OeDecodeError =
    OeTruncatedHeader
  | OeTruncatedPayload
  | OeInvalidMessageType
  | OeInvalidMessageSize
  | OeInvalidSide
  | OeInvalidOrderType
  | OeInvalidTimeInForce
  | OeInvalidRejectReason

text \<open>The numeric values of \<open>RejectReason\<close>.\<close>

fun reject_reason_code :: "RejectReason \<Rightarrow> u8" where
  "reject_reason_code NoReason = 0"
| "reject_reason_code InvalidPrice = 1"
| "reject_reason_code InvalidQuantity = 2"
| "reject_reason_code DuplicateOrderId = 3"
| "reject_reason_code UnknownOrderId = 4"
| "reject_reason_code InvalidInstrument = 5"
| "reject_reason_code InsufficientLiquidity = 6"
| "reject_reason_code InvalidReplacement = 7"
| "reject_reason_code InternalError = 8"
| "reject_reason_code InsufficientFunds = 9"
| "reject_reason_code InsufficientPosition = 10"
| "reject_reason_code OrderTooLarge = 11"
| "reject_reason_code AccountMismatch = 12"

subsection \<open>Encoder\<close>

definition oe_put_header :: "OeMessageType \<Rightarrow> u16 \<Rightarrow> byte list \<Rightarrow> byte list" where
  "oe_put_header ty payload_size out = put_u16 payload_size (put_u8 (oe_type_code ty) out)"

definition oe_put_side :: "Side \<Rightarrow> byte list \<Rightarrow> byte list" where
  "oe_put_side s out = put_u8 (side_code s) out"

definition put_order_type :: "OrderType \<Rightarrow> byte list \<Rightarrow> byte list" where
  "put_order_type t out = put_u8 (order_type_code t) out"

definition put_time_in_force :: "TimeInForce \<Rightarrow> byte list \<Rightarrow> byte list" where
  "put_time_in_force t out = put_u8 (tif_code t) out"

definition put_reject_reason :: "RejectReason \<Rightarrow> byte list \<Rightarrow> byte list" where
  "put_reject_reason r out = put_u8 (reject_reason_code r) out"

definition oe_put_message_header :: "OeMessageType \<Rightarrow> byte list \<Rightarrow> byte list" where
  "oe_put_message_header ty out = oe_put_header ty (of_nat (oe_payload_size_for ty)) out"

fun encode_message :: "Message \<Rightarrow> byte list \<Rightarrow> byte list" where
  "encode_message (MsgNewOrder msg) out =
     (let out = oe_put_message_header OmNewOrder out;
          out = put_u64 (on_account_id msg) out;
          out = put_u64 (on_client_order_id msg) out;
          out = put_u32 (on_instrument_id msg) out;
          out = oe_put_side (on_side msg) out;
          out = put_i64 (on_price msg) out;
          out = put_u64 (on_quantity msg) out;
          out = put_order_type (on_order_type msg) out
      in put_time_in_force (on_time_in_force msg) out)"
| "encode_message (MsgCancelOrder msg) out =
     (let out = oe_put_message_header OmCancelOrder out;
          out = put_u64 (ocn_account_id msg) out;
          out = put_u64 (ocn_client_order_id msg) out
      in put_u32 (ocn_instrument_id msg) out)"
| "encode_message (MsgReplaceOrder msg) out =
     (let out = oe_put_message_header OmReplaceOrder out;
          out = put_u64 (orp_account_id msg) out;
          out = put_u64 (orp_original_client_order_id msg) out;
          out = put_u64 (orp_new_client_order_id msg) out;
          out = put_u32 (orp_instrument_id msg) out;
          out = put_i64 (orp_new_price msg) out
      in put_u64 (orp_new_quantity msg) out)"
| "encode_message (MsgAccepted msg) out =
     (let out = oe_put_message_header OmAccepted out;
          out = put_u64 (oac_account_id msg) out;
          out = put_u64 (oac_client_order_id msg) out;
          out = put_u64 (oac_exchange_order_id msg) out;
          out = put_u32 (oac_instrument_id msg) out;
          out = oe_put_side (oac_side msg) out;
          out = put_i64 (oac_price msg) out;
          out = put_u64 (oac_quantity msg) out;
          out = put_order_type (oac_order_type msg) out
      in put_time_in_force (oac_time_in_force msg) out)"
| "encode_message (MsgRejected msg) out =
     (let out = oe_put_message_header OmRejected out;
          out = put_u64 (orj_account_id msg) out;
          out = put_u64 (orj_client_order_id msg) out;
          out = put_u32 (orj_instrument_id msg) out
      in put_reject_reason (orj_reason msg) out)"
| "encode_message (MsgCancelled msg) out =
     (let out = oe_put_message_header OmCancelled out;
          out = put_u64 (oca_account_id msg) out;
          out = put_u64 (oca_client_order_id msg) out;
          out = put_u64 (oca_exchange_order_id msg) out
      in put_u32 (oca_instrument_id msg) out)"
| "encode_message (MsgReplaced msg) out =
     (let out = oe_put_message_header OmReplaced out;
          out = put_u64 (ord_account_id msg) out;
          out = put_u64 (ord_original_client_order_id msg) out;
          out = put_u64 (ord_new_client_order_id msg) out;
          out = put_u64 (ord_exchange_order_id msg) out;
          out = put_u32 (ord_instrument_id msg) out;
          out = put_i64 (ord_new_price msg) out
      in put_u64 (ord_new_quantity msg) out)"
| "encode_message (MsgTradeReport msg) out =
     (let out = oe_put_message_header OmTradeReport out;
          out = put_u64 (otr_account_id msg) out;
          out = put_u64 (otr_client_order_id msg) out;
          out = put_u64 (otr_exchange_order_id msg) out;
          out = put_u32 (otr_instrument_id msg) out;
          out = put_i64 (otr_price msg) out;
          out = put_u64 (otr_quantity msg) out
      in put_u64 (otr_remaining_quantity msg) out)"

subsection \<open>Decoder\<close>

definition oe_is_known_type :: "u8 \<Rightarrow> bool" where
  "oe_is_known_type raw \<longleftrightarrow> raw = oe_type_code OmNewOrder \<or>
     raw = oe_type_code OmCancelOrder \<or>
     raw = oe_type_code OmReplaceOrder \<or>
     raw = oe_type_code OmAccepted \<or>
     raw = oe_type_code OmRejected \<or>
     raw = oe_type_code OmCancelled \<or>
     raw = oe_type_code OmReplaced \<or>
     raw = oe_type_code OmTradeReport"

definition to_oe_type :: "u8 \<Rightarrow> OeMessageType" where
  "to_oe_type raw =
     (if raw = oe_type_code OmNewOrder then OmNewOrder
      else if raw = oe_type_code OmCancelOrder then OmCancelOrder
      else if raw = oe_type_code OmReplaceOrder then OmReplaceOrder
      else if raw = oe_type_code OmAccepted then OmAccepted
      else if raw = oe_type_code OmRejected then OmRejected
      else if raw = oe_type_code OmCancelled then OmCancelled
      else if raw = oe_type_code OmReplaced then OmReplaced
      else OmTradeReport)"

definition is_valid_reject_reason :: "u8 \<Rightarrow> bool" where
  "is_valid_reject_reason raw \<longleftrightarrow> raw = reject_reason_code NoReason \<or>
     raw = reject_reason_code InvalidPrice \<or>
     raw = reject_reason_code InvalidQuantity \<or>
     raw = reject_reason_code DuplicateOrderId \<or>
     raw = reject_reason_code UnknownOrderId \<or>
     raw = reject_reason_code InvalidInstrument \<or>
     raw = reject_reason_code InsufficientLiquidity \<or>
     raw = reject_reason_code InvalidReplacement \<or>
     raw = reject_reason_code InternalError \<or>
     raw = reject_reason_code InsufficientFunds \<or>
     raw = reject_reason_code InsufficientPosition \<or>
     raw = reject_reason_code OrderTooLarge \<or>
     raw = reject_reason_code AccountMismatch"

definition to_reject_reason :: "u8 \<Rightarrow> RejectReason" where
  "to_reject_reason raw =
     (if raw = reject_reason_code NoReason then NoReason
      else if raw = reject_reason_code InvalidPrice then InvalidPrice
      else if raw = reject_reason_code InvalidQuantity then InvalidQuantity
      else if raw = reject_reason_code DuplicateOrderId then DuplicateOrderId
      else if raw = reject_reason_code UnknownOrderId then UnknownOrderId
      else if raw = reject_reason_code InvalidInstrument then InvalidInstrument
      else if raw = reject_reason_code InsufficientLiquidity then InsufficientLiquidity
      else if raw = reject_reason_code InvalidReplacement then InvalidReplacement
      else if raw = reject_reason_code InternalError then InternalError
      else if raw = reject_reason_code InsufficientFunds then InsufficientFunds
      else if raw = reject_reason_code InsufficientPosition then InsufficientPosition
      else if raw = reject_reason_code OrderTooLarge then OrderTooLarge
      else AccountMismatch)"

definition oe_decode_header :: "byte list \<Rightarrow> OeDecodeError + OeHeader" where
  "oe_decode_header data =
     (if length data < oe_HEADER_SIZE then Inl OeTruncatedHeader
      else let
        r = new_reader (take oe_HEADER_SIZE data);
        (type_raw, r) = get_u8 r;
        (payload_size, r) = get_u16 r
      in case (type_raw, payload_size) of
        (Some type_raw, Some payload_size) \<Rightarrow>
          if \<not> oe_is_known_type type_raw then Inl OeInvalidMessageType
          else Inr \<lparr>oh_type = to_oe_type type_raw, oh_payload_size = payload_size\<rparr>
      | _ \<Rightarrow> Inl OeTruncatedHeader)"

text \<open>The switch of \<open>decode_message\<close>, one case per message type.\<close>

definition decode_oe_new_order :: "ByteReader \<Rightarrow> OeDecodeError + Message" where
  "decode_oe_new_order r = (let
      (account_id, r) = get_u64 r;
      (client_order_id, r) = get_u64 r;
      (instrument_id, r) = get_u32 r;
      (side_raw, r) = get_u8 r;
      (price, r) = get_i64 r;
      (quantity, r) = get_u64 r;
      (order_type_raw, r) = get_u8 r;
      (tif_raw, r) = get_u8 r
    in case (account_id, client_order_id, instrument_id, side_raw, price, quantity, order_type_raw, tif_raw) of
      (Some account_id, Some client_order_id, Some instrument_id, Some side_raw, Some price, Some quantity, Some order_type_raw, Some tif_raw) \<Rightarrow>
        if \<not> is_valid_side side_raw then Inl OeInvalidSide
        else if \<not> is_valid_order_type order_type_raw then Inl OeInvalidOrderType
        else if \<not> is_valid_time_in_force tif_raw then Inl OeInvalidTimeInForce
        else Inr (MsgNewOrder \<lparr>on_account_id = account_id, on_client_order_id = client_order_id, on_instrument_id = instrument_id, on_side = to_side side_raw, on_price = price, on_quantity = quantity, on_order_type = to_order_type order_type_raw, on_time_in_force = to_time_in_force tif_raw\<rparr>)
    | _ \<Rightarrow> Inl OeTruncatedPayload)"

definition decode_oe_cancel_order :: "ByteReader \<Rightarrow> OeDecodeError + Message" where
  "decode_oe_cancel_order r = (let
      (account_id, r) = get_u64 r;
      (client_order_id, r) = get_u64 r;
      (instrument_id, r) = get_u32 r
    in case (account_id, client_order_id, instrument_id) of
      (Some account_id, Some client_order_id, Some instrument_id) \<Rightarrow>
        Inr (MsgCancelOrder \<lparr>ocn_account_id = account_id, ocn_client_order_id = client_order_id, ocn_instrument_id = instrument_id\<rparr>)
    | _ \<Rightarrow> Inl OeTruncatedPayload)"

definition decode_oe_replace_order :: "ByteReader \<Rightarrow> OeDecodeError + Message" where
  "decode_oe_replace_order r = (let
      (account_id, r) = get_u64 r;
      (original_client_order_id, r) = get_u64 r;
      (new_client_order_id, r) = get_u64 r;
      (instrument_id, r) = get_u32 r;
      (new_price, r) = get_i64 r;
      (new_quantity, r) = get_u64 r
    in case (account_id, original_client_order_id, new_client_order_id, instrument_id, new_price, new_quantity) of
      (Some account_id, Some original_client_order_id, Some new_client_order_id, Some instrument_id, Some new_price, Some new_quantity) \<Rightarrow>
        Inr (MsgReplaceOrder \<lparr>orp_account_id = account_id, orp_original_client_order_id = original_client_order_id, orp_new_client_order_id = new_client_order_id, orp_instrument_id = instrument_id, orp_new_price = new_price, orp_new_quantity = new_quantity\<rparr>)
    | _ \<Rightarrow> Inl OeTruncatedPayload)"

definition decode_oe_accepted :: "ByteReader \<Rightarrow> OeDecodeError + Message" where
  "decode_oe_accepted r = (let
      (account_id, r) = get_u64 r;
      (client_order_id, r) = get_u64 r;
      (exchange_order_id, r) = get_u64 r;
      (instrument_id, r) = get_u32 r;
      (side_raw, r) = get_u8 r;
      (price, r) = get_i64 r;
      (quantity, r) = get_u64 r;
      (order_type_raw, r) = get_u8 r;
      (tif_raw, r) = get_u8 r
    in case (account_id, client_order_id, exchange_order_id, instrument_id, side_raw, price, quantity, order_type_raw, tif_raw) of
      (Some account_id, Some client_order_id, Some exchange_order_id, Some instrument_id, Some side_raw, Some price, Some quantity, Some order_type_raw, Some tif_raw) \<Rightarrow>
        if \<not> is_valid_side side_raw then Inl OeInvalidSide
        else if \<not> is_valid_order_type order_type_raw then Inl OeInvalidOrderType
        else if \<not> is_valid_time_in_force tif_raw then Inl OeInvalidTimeInForce
        else Inr (MsgAccepted \<lparr>oac_account_id = account_id, oac_client_order_id = client_order_id, oac_exchange_order_id = exchange_order_id, oac_instrument_id = instrument_id, oac_side = to_side side_raw, oac_price = price, oac_quantity = quantity, oac_order_type = to_order_type order_type_raw, oac_time_in_force = to_time_in_force tif_raw\<rparr>)
    | _ \<Rightarrow> Inl OeTruncatedPayload)"

definition decode_oe_rejected :: "ByteReader \<Rightarrow> OeDecodeError + Message" where
  "decode_oe_rejected r = (let
      (account_id, r) = get_u64 r;
      (client_order_id, r) = get_u64 r;
      (instrument_id, r) = get_u32 r;
      (reason_raw, r) = get_u8 r
    in case (account_id, client_order_id, instrument_id, reason_raw) of
      (Some account_id, Some client_order_id, Some instrument_id, Some reason_raw) \<Rightarrow>
        if \<not> is_valid_reject_reason reason_raw then Inl OeInvalidRejectReason
        else Inr (MsgRejected \<lparr>orj_account_id = account_id, orj_client_order_id = client_order_id, orj_instrument_id = instrument_id, orj_reason = to_reject_reason reason_raw\<rparr>)
    | _ \<Rightarrow> Inl OeTruncatedPayload)"

definition decode_oe_cancelled :: "ByteReader \<Rightarrow> OeDecodeError + Message" where
  "decode_oe_cancelled r = (let
      (account_id, r) = get_u64 r;
      (client_order_id, r) = get_u64 r;
      (exchange_order_id, r) = get_u64 r;
      (instrument_id, r) = get_u32 r
    in case (account_id, client_order_id, exchange_order_id, instrument_id) of
      (Some account_id, Some client_order_id, Some exchange_order_id, Some instrument_id) \<Rightarrow>
        Inr (MsgCancelled \<lparr>oca_account_id = account_id, oca_client_order_id = client_order_id, oca_exchange_order_id = exchange_order_id, oca_instrument_id = instrument_id\<rparr>)
    | _ \<Rightarrow> Inl OeTruncatedPayload)"

definition decode_oe_replaced :: "ByteReader \<Rightarrow> OeDecodeError + Message" where
  "decode_oe_replaced r = (let
      (account_id, r) = get_u64 r;
      (original_client_order_id, r) = get_u64 r;
      (new_client_order_id, r) = get_u64 r;
      (exchange_order_id, r) = get_u64 r;
      (instrument_id, r) = get_u32 r;
      (new_price, r) = get_i64 r;
      (new_quantity, r) = get_u64 r
    in case (account_id, original_client_order_id, new_client_order_id, exchange_order_id, instrument_id, new_price, new_quantity) of
      (Some account_id, Some original_client_order_id, Some new_client_order_id, Some exchange_order_id, Some instrument_id, Some new_price, Some new_quantity) \<Rightarrow>
        Inr (MsgReplaced \<lparr>ord_account_id = account_id, ord_original_client_order_id = original_client_order_id, ord_new_client_order_id = new_client_order_id, ord_exchange_order_id = exchange_order_id, ord_instrument_id = instrument_id, ord_new_price = new_price, ord_new_quantity = new_quantity\<rparr>)
    | _ \<Rightarrow> Inl OeTruncatedPayload)"

definition decode_oe_trade_report :: "ByteReader \<Rightarrow> OeDecodeError + Message" where
  "decode_oe_trade_report r = (let
      (account_id, r) = get_u64 r;
      (client_order_id, r) = get_u64 r;
      (exchange_order_id, r) = get_u64 r;
      (instrument_id, r) = get_u32 r;
      (price, r) = get_i64 r;
      (quantity, r) = get_u64 r;
      (remaining_quantity, r) = get_u64 r
    in case (account_id, client_order_id, exchange_order_id, instrument_id, price, quantity, remaining_quantity) of
      (Some account_id, Some client_order_id, Some exchange_order_id, Some instrument_id, Some price, Some quantity, Some remaining_quantity) \<Rightarrow>
        Inr (MsgTradeReport \<lparr>otr_account_id = account_id, otr_client_order_id = client_order_id, otr_exchange_order_id = exchange_order_id, otr_instrument_id = instrument_id, otr_price = price, otr_quantity = quantity, otr_remaining_quantity = remaining_quantity\<rparr>)
    | _ \<Rightarrow> Inl OeTruncatedPayload)"

definition decode_oe_payload :: "OeMessageType \<Rightarrow> ByteReader \<Rightarrow> OeDecodeError + Message" where
  "decode_oe_payload ty r = (case ty of
     OmNewOrder \<Rightarrow> decode_oe_new_order r
   | OmCancelOrder \<Rightarrow> decode_oe_cancel_order r
   | OmReplaceOrder \<Rightarrow> decode_oe_replace_order r
   | OmAccepted \<Rightarrow> decode_oe_accepted r
   | OmRejected \<Rightarrow> decode_oe_rejected r
   | OmCancelled \<Rightarrow> decode_oe_cancelled r
   | OmReplaced \<Rightarrow> decode_oe_replaced r
   | OmTradeReport \<Rightarrow> decode_oe_trade_report r)"

definition decode_message :: "byte list \<Rightarrow> OeDecodeError + Message" where
  "decode_message data =
     (case oe_decode_header data of
        Inl e \<Rightarrow> Inl e
      | Inr header \<Rightarrow>
          let expected_payload = oe_payload_size_for (oh_type header) in
          if unat (oh_payload_size header) \<noteq> expected_payload then Inl OeInvalidMessageSize
          else if length data < oe_HEADER_SIZE + unat (oh_payload_size header) then Inl OeTruncatedPayload
          else decode_oe_payload (oh_type header)
                 (new_reader (take (unat (oh_payload_size header)) (drop oe_HEADER_SIZE data))))"

subsection \<open>What the decoder accepts\<close>

lemma reject_reason_codes [wire_simps]:
  "is_valid_reject_reason (reject_reason_code r)" "to_reject_reason (reject_reason_code r) = r"
  by (cases r; simp add: is_valid_reject_reason_def to_reject_reason_def)+

lemma reject_reason_back [wire_back]: "is_valid_reject_reason raw \<Longrightarrow> reject_reason_code (to_reject_reason raw) = raw"
  by (auto simp: is_valid_reject_reason_def to_reject_reason_def)

lemma oe_type_codes [wire_simps]: "oe_is_known_type (oe_type_code ty)" "to_oe_type (oe_type_code ty) = ty"
  by (cases ty; simp add: oe_is_known_type_def to_oe_type_def)+

lemma oe_type_back: "oe_is_known_type raw \<Longrightarrow> oe_type_code (to_oe_type raw) = raw"
  by (auto simp: oe_is_known_type_def to_oe_type_def)

lemma oe_payload_size_fits [simp]: "unat (of_nat (oe_payload_size_for ty) :: u16) = oe_payload_size_for ty"
  by (cases ty) simp_all

definition oe_header_bytes :: "u8 \<Rightarrow> u16 \<Rightarrow> byte list" where
  "oe_header_bytes ty ps = [ty] @ be_bytes 2 ps"

lemma length_oe_header_bytes [simp]: "length (oe_header_bytes ty ps) = 3"
  by (simp add: oe_header_bytes_def)

lemma oe_header_exhaust:
  assumes "3 \<le> length data"
  obtains ty ps rest where "data = oe_header_bytes ty ps @ rest"
proof -
  obtain ty r1 where 1: "data = [ty] @ r1" using field_exhaust(1) [of data] assms by auto
  obtain ps r2 where 2: "r1 = be_bytes 2 (ps :: u16) @ r2" using field_exhaust(2) [of r1] assms 1 by auto
  show ?thesis using that 1 2 by (simp add: oe_header_bytes_def)
qed

lemma oe_decode_header_bytes:
  "oe_decode_header (oe_header_bytes ty ps @ rest) =
     (if \<not> oe_is_known_type ty then Inl OeInvalidMessageType
      else Inr \<lparr>oh_type = to_oe_type ty, oh_payload_size = ps\<rparr>)"
  by (simp add: oe_decode_header_def oe_header_bytes_def oe_HEADER_SIZE_def wire_simps)

lemma oe_decode_header_short: "length data < 3 \<Longrightarrow> oe_decode_header data = Inl OeTruncatedHeader"
  by (simp add: oe_decode_header_def oe_HEADER_SIZE_def)

fun message_type :: "Message \<Rightarrow> OeMessageType" where
  "message_type (MsgNewOrder _) = OmNewOrder"
| "message_type (MsgCancelOrder _) = OmCancelOrder"
| "message_type (MsgReplaceOrder _) = OmReplaceOrder"
| "message_type (MsgAccepted _) = OmAccepted"
| "message_type (MsgRejected _) = OmRejected"
| "message_type (MsgCancelled _) = OmCancelled"
| "message_type (MsgReplaced _) = OmReplaced"
| "message_type (MsgTradeReport _) = OmTradeReport"

fun message_payload :: "Message \<Rightarrow> byte list" where
  "message_payload (MsgNewOrder m) = be_bytes 8 (on_account_id m) @
     be_bytes 8 (on_client_order_id m) @
     be_bytes 4 (on_instrument_id m) @
     [side_code (on_side m)] @
     be_bytes 8 (i64_bits (on_price m)) @
     be_bytes 8 (on_quantity m) @
     [order_type_code (on_order_type m)] @
     [tif_code (on_time_in_force m)]"
| "message_payload (MsgCancelOrder m) = be_bytes 8 (ocn_account_id m) @
     be_bytes 8 (ocn_client_order_id m) @
     be_bytes 4 (ocn_instrument_id m)"
| "message_payload (MsgReplaceOrder m) = be_bytes 8 (orp_account_id m) @
     be_bytes 8 (orp_original_client_order_id m) @
     be_bytes 8 (orp_new_client_order_id m) @
     be_bytes 4 (orp_instrument_id m) @
     be_bytes 8 (i64_bits (orp_new_price m)) @
     be_bytes 8 (orp_new_quantity m)"
| "message_payload (MsgAccepted m) = be_bytes 8 (oac_account_id m) @
     be_bytes 8 (oac_client_order_id m) @
     be_bytes 8 (oac_exchange_order_id m) @
     be_bytes 4 (oac_instrument_id m) @
     [side_code (oac_side m)] @
     be_bytes 8 (i64_bits (oac_price m)) @
     be_bytes 8 (oac_quantity m) @
     [order_type_code (oac_order_type m)] @
     [tif_code (oac_time_in_force m)]"
| "message_payload (MsgRejected m) = be_bytes 8 (orj_account_id m) @
     be_bytes 8 (orj_client_order_id m) @
     be_bytes 4 (orj_instrument_id m) @
     [reject_reason_code (orj_reason m)]"
| "message_payload (MsgCancelled m) = be_bytes 8 (oca_account_id m) @
     be_bytes 8 (oca_client_order_id m) @
     be_bytes 8 (oca_exchange_order_id m) @
     be_bytes 4 (oca_instrument_id m)"
| "message_payload (MsgReplaced m) = be_bytes 8 (ord_account_id m) @
     be_bytes 8 (ord_original_client_order_id m) @
     be_bytes 8 (ord_new_client_order_id m) @
     be_bytes 8 (ord_exchange_order_id m) @
     be_bytes 4 (ord_instrument_id m) @
     be_bytes 8 (i64_bits (ord_new_price m)) @
     be_bytes 8 (ord_new_quantity m)"
| "message_payload (MsgTradeReport m) = be_bytes 8 (otr_account_id m) @
     be_bytes 8 (otr_client_order_id m) @
     be_bytes 8 (otr_exchange_order_id m) @
     be_bytes 4 (otr_instrument_id m) @
     be_bytes 8 (i64_bits (otr_price m)) @
     be_bytes 8 (otr_quantity m) @
     be_bytes 8 (otr_remaining_quantity m)"

lemma length_message_payload [simp]: "length (message_payload m) = oe_payload_size_for (message_type m)"
  by (cases m) simp_all

abbreviation message_frame :: "Message \<Rightarrow> byte list" where
  "message_frame m \<equiv> encode_message m []"

lemma encode_message_bytes:
  "encode_message m out = out @ oe_header_bytes (oe_type_code (message_type m))
     (of_nat (oe_payload_size_for (message_type m))) @ message_payload m"
  by (cases m) (simp_all add: wire_simps oe_put_side_def put_order_type_def put_time_in_force_def put_reject_reason_def
      oe_put_message_header_def oe_put_header_def oe_header_bytes_def)

lemma length_message_frame [simp]: "length (message_frame m) = 3 + oe_payload_size_for (message_type m)"
  by (simp add: encode_message_bytes)

lemmas decode_oe_defs = decode_oe_payload_def decode_oe_new_order_def decode_oe_cancel_order_def decode_oe_replace_order_def decode_oe_accepted_def decode_oe_rejected_def decode_oe_cancelled_def decode_oe_replaced_def decode_oe_trade_report_def

lemma decode_oe_payload_bytes: "decode_oe_payload (message_type m) (new_reader (message_payload m)) = Inr m"
  by (cases m) (simp_all add: decode_oe_defs wire_simps)

text \<open>The header of a message, and a header as bytes.\<close>

definition message_header :: "Message \<Rightarrow> OeHeader" where
  "message_header m = \<lparr>oh_type = message_type m, oh_payload_size = of_nat (oe_payload_size_for (message_type m))\<rparr>"

definition oe_header_frame :: "OeHeader \<Rightarrow> byte list" where
  "oe_header_frame h = oe_header_bytes (oe_type_code (oh_type h)) (oh_payload_size h)"

lemma length_oe_header_frame [simp]: "length (oe_header_frame h) = 3"
  by (simp add: oe_header_frame_def)

lemma oe_decode_header_iff: "oe_decode_header data = Inr h \<longleftrightarrow> (\<exists>rest. data = oe_header_frame h @ rest)"
proof (cases "3 \<le> length data")
  case True
  then obtain ty ps rest where data: "data = oe_header_bytes ty ps @ rest" by (rule oe_header_exhaust)
  have "oe_decode_header data = Inr h \<longleftrightarrow> oe_is_known_type ty \<and> h = \<lparr>oh_type = to_oe_type ty, oh_payload_size = ps\<rparr>"
    by (auto simp: data oe_decode_header_bytes)
  also have "\<dots> \<longleftrightarrow> oe_header_bytes ty ps = oe_header_frame h"
    by (auto simp: oe_header_frame_def oe_header_bytes_def oe_type_back oe_type_codes)
  finally show ?thesis by (auto simp: data)
qed (auto simp: oe_decode_header_short)

lemma message_payload_back:
  "decode_oe_new_order (new_reader bs) = Inr m \<Longrightarrow> length bs = 39 \<Longrightarrow> bs = message_payload m \<and> message_type m = OmNewOrder"
  "decode_oe_cancel_order (new_reader bs) = Inr m \<Longrightarrow> length bs = 20 \<Longrightarrow> bs = message_payload m \<and> message_type m = OmCancelOrder"
  "decode_oe_replace_order (new_reader bs) = Inr m \<Longrightarrow> length bs = 44 \<Longrightarrow> bs = message_payload m \<and> message_type m = OmReplaceOrder"
  "decode_oe_accepted (new_reader bs) = Inr m \<Longrightarrow> length bs = 47 \<Longrightarrow> bs = message_payload m \<and> message_type m = OmAccepted"
  "decode_oe_rejected (new_reader bs) = Inr m \<Longrightarrow> length bs = 21 \<Longrightarrow> bs = message_payload m \<and> message_type m = OmRejected"
  "decode_oe_cancelled (new_reader bs) = Inr m \<Longrightarrow> length bs = 28 \<Longrightarrow> bs = message_payload m \<and> message_type m = OmCancelled"
  "decode_oe_replaced (new_reader bs) = Inr m \<Longrightarrow> length bs = 52 \<Longrightarrow> bs = message_payload m \<and> message_type m = OmReplaced"
  "decode_oe_trade_report (new_reader bs) = Inr m \<Longrightarrow> length bs = 52 \<Longrightarrow> bs = message_payload m \<and> message_type m = OmTradeReport"
  subgoal by (simp add: decode_oe_new_order_def wire_simps split: if_splits) (auto simp: wire_back)
  subgoal by (simp add: decode_oe_cancel_order_def wire_simps split: if_splits) (auto simp: wire_back)
  subgoal by (simp add: decode_oe_replace_order_def wire_simps split: if_splits) (auto simp: wire_back)
  subgoal by (simp add: decode_oe_accepted_def wire_simps split: if_splits) (auto simp: wire_back)
  subgoal by (simp add: decode_oe_rejected_def wire_simps split: if_splits) (auto simp: wire_back)
  subgoal by (simp add: decode_oe_cancelled_def wire_simps split: if_splits) (auto simp: wire_back)
  subgoal by (simp add: decode_oe_replaced_def wire_simps split: if_splits) (auto simp: wire_back)
  subgoal by (simp add: decode_oe_trade_report_def wire_simps split: if_splits) (auto simp: wire_back)
  done

lemma decode_oe_payload_iff:
  assumes "unat (oh_payload_size h) = oe_payload_size_for (oh_type h)" "length bs = oe_payload_size_for (oh_type h)"
  shows "decode_oe_payload (oh_type h) (new_reader bs) = Inr m \<longleftrightarrow> h = message_header m \<and> bs = message_payload m"
proof
  assume "h = message_header m \<and> bs = message_payload m"
  then show "decode_oe_payload (oh_type h) (new_reader bs) = Inr m"
    by (simp add: message_header_def decode_oe_payload_bytes)
next
  assume dec: "decode_oe_payload (oh_type h) (new_reader bs) = Inr m"
  then have "bs = message_payload m \<and> oh_type h = message_type m"
    using assms(2) message_payload_back by (cases "oh_type h") (simp_all add: decode_oe_payload_def)
  moreover from this assms(1) have "oh_payload_size h = of_nat (oe_payload_size_for (message_type m))"
    by (simp add: word_unat_eq_iff)
  ultimately show "h = message_header m \<and> bs = message_payload m" by (simp add: message_header_def)
qed

interpretation oe: exact_sized_codec 3 oe_header_frame oe_decode_header "\<lambda>h. unat (oh_payload_size h)"
  "\<lambda>h. oe_payload_size_for (oh_type h)" "\<lambda>h bs. decode_oe_payload (oh_type h) (new_reader bs)"
  message_header message_payload OeInvalidMessageSize OeTruncatedPayload message_frame decode_message
proof
  show "message_frame m = oe_header_frame (message_header m) @ message_payload m" for m
    by (simp add: encode_message_bytes oe_header_frame_def message_header_def)
qed (unfold decode_message_def oe_HEADER_SIZE_def Let_def, use oe_decode_header_iff decode_oe_payload_iff in \<open>auto simp: message_header_def decode_oe_payload_bytes\<close>)

end
