(* ===== verification/Codec_Properties.thy ===== *)
theory Codec_Properties
  imports Market_Data_Protocol Order_Entry_Protocol
begin

text \<open>
  The properties of the two wire protocols: market data (\<open>protocol/encoder.cpp\<close>, \<open>protocol/decoder.cpp\<close>)
  and order entry (\<open>exchange/order_entry\<close>). They rest on the interpretations \<open>md\<close> and \<open>oe\<close> of the
  codec interface.
\<close>

text \<open>
  C20. The two decoders accept exactly the encoders' output: \<open>decode_event\<close> returns \<open>ev\<close> if and only if the bytes begin with the frame \<open>encode_event\<close> writes
  for \<open>ev\<close>, and for each of the eight order-entry messages \<open>decode_message\<close> returns \<open>m\<close> if and only if they begin with the frame \<open>encode_message\<close> writes for \<open>m\<close>. So every event
  and message survives a round trip, trailing bytes are left alone, two never share a frame, and no other byte string (bad type, reserved byte, size, side) decodes.
\<close>

theorem codecs_exact:
  "(decode_event data = Inr ev \<longleftrightarrow> (\<exists>rest. data = encode_event ev [] @ rest)) \<and>
   (decode_message data = Inr m \<longleftrightarrow> (\<exists>rest. data = encode_message m [] @ rest))"
  by (rule conjI [OF md.decode_iff oe.decode_iff])

text \<open>
  A frame cut short anywhere is refused as truncated and never read past its end: before the end
  of the header as \<open>TruncatedHeader\<close>, after it as \<open>TruncatedPayload\<close>, in both protocols.
\<close>

theorem truncated_frames_refused:
  assumes "i < length (encode_event ev [])" "j < length (encode_message m [])"
  shows "decode_event (take i (encode_event ev [])) = Inl (if i < 20 then TruncatedHeader else TruncatedPayload) \<and>
    decode_message (take j (encode_message m [])) = Inl (if j < 3 then OeTruncatedHeader else OeTruncatedPayload)"
proof
  show "decode_event (take i (encode_event ev [])) = Inl (if i < 20 then TruncatedHeader else TruncatedPayload)"
    using md.cut_after_header [of i ev] assms(1) decode_header_short [of "take i (encode_event ev [])"]
    by (auto simp: decode_event_def)
  show "decode_message (take j (encode_message m [])) = Inl (if j < 3 then OeTruncatedHeader else OeTruncatedPayload)"
    using oe.cut_after_header [of j m] assms(2) oe_decode_header_short [of "take j (encode_message m [])"]
    by (auto simp: decode_message_def)
qed

lemma truncated_frames_refused_witness:
  "decode_event (take 22 (encode_event (EvClear \<lparr>cb_sequence_number = 1, cb_timestamp_ns = 2, cb_instrument_id = 3\<rparr>) [])) =
      Inl TruncatedPayload \<and>
   decode_message (take 2 (encode_message (MsgCancelled \<lparr>oca_account_id = 1, oca_client_order_id = 2, oca_exchange_order_id = 3,
      oca_instrument_id = 4\<rparr>) [])) = Inl OeTruncatedHeader"
  using truncated_frames_refused [of 22 "EvClear \<lparr>cb_sequence_number = 1, cb_timestamp_ns = 2, cb_instrument_id = 3\<rparr>"
    2 "MsgCancelled \<lparr>oca_account_id = 1, oca_client_order_id = 2, oca_exchange_order_id = 3, oca_instrument_id = 4\<rparr>"]
  by (simp del: encode_event.simps encode_message.simps)

end
