(* ===== verification/Packet_Transport.thy ===== *)
theory Packet_Transport
  imports Market_Data_Protocol
begin

text \<open>
  Datagrams of market-data frames (\<open>net/packet.cpp\<close>) and the classification of sequence numbers
  (\<open>common/sequence_validator.cpp\<close>, \<open>net/packet_sequence_tracker.hpp\<close>). The lemmas characterise what
  \<open>unpack_frames\<close> accepts, chunk by chunk, and compare the tracker with a reference that keeps the
  whole history.
\<close>

subsection \<open>Packets\<close>

definition PACKET_MAGIC :: u32 where
  "PACKET_MAGIC = 0x4D444831"

definition PACKET_VERSION :: u16 where
  "PACKET_VERSION = 1"

definition PACKET_HEADER_SIZE :: nat where
  "PACKET_HEADER_SIZE = 20"

record PacketHeader =
  ph_magic :: u32
  ph_version :: u16
  ph_frame_count :: u16
  ph_packet_sequence :: u64
  ph_payload_length :: u32

datatype PacketError =
    PkTruncatedHeader
  | PkInvalidMagic
  | PkInvalidVersion
  | PkZeroFrameCount
  | PkPayloadLengthMismatch
  | PkInnerFrameHeaderInvalid
  | PkFrameCountMismatch

record UnpackedPacket =
  up_header :: PacketHeader
  up_frames :: "(DecodeError + Event) list"

definition pack_frames :: "u64 \<Rightarrow> Event list \<Rightarrow> byte list" where
  "pack_frames packet_sequence events = (let
     payload = fold encode_event events [];
     out = put_u32 PACKET_MAGIC [];
     out = put_u16 PACKET_VERSION out;
     out = put_u16 (of_nat (length events)) out;
     out = put_u64 packet_sequence out;
     out = put_u32 (of_nat (length payload)) out
   in out @ payload)"

text \<open>The loop over the frames: the remaining iterations, the offset and the frames so far.\<close>

fun unpack_loop :: "nat \<Rightarrow> byte list \<Rightarrow> nat \<Rightarrow> (DecodeError + Event) list \<Rightarrow> PacketError + nat \<times> (DecodeError + Event) list" where
  "unpack_loop 0 remaining_bytes offset frames = Inr (offset, frames)"
| "unpack_loop (Suc i) remaining_bytes offset frames = (let rest = drop offset remaining_bytes in
     case decode_header rest of
       Inl _ \<Rightarrow> Inl PkInnerFrameHeaderInvalid
     | Inr header \<Rightarrow>
         let frame_len = HEADER_SIZE + unat (h_payload_size header) in
         if length rest < frame_len then Inl PkInnerFrameHeaderInvalid
         else unpack_loop i remaining_bytes (offset + frame_len) (frames @ [decode_event (take frame_len rest)]))"

definition unpack_frames :: "byte list \<Rightarrow> PacketError + UnpackedPacket" where
  "unpack_frames datagram =
     (if length datagram < PACKET_HEADER_SIZE then Inl PkTruncatedHeader
      else let
        r = new_reader (take PACKET_HEADER_SIZE datagram);
        (magic, r) = get_u32 r;
        (version, r) = get_u16 r;
        (frame_count, r) = get_u16 r;
        (packet_sequence, r) = get_u64 r;
        (payload_length, r) = get_u32 r
      in case (magic, version, frame_count, packet_sequence, payload_length) of
        (Some magic, Some version, Some frame_count, Some packet_sequence, Some payload_length) \<Rightarrow>
          if magic \<noteq> PACKET_MAGIC then Inl PkInvalidMagic
          else if version \<noteq> PACKET_VERSION then Inl PkInvalidVersion
          else if frame_count = 0 then Inl PkZeroFrameCount
          else let remaining_bytes = drop PACKET_HEADER_SIZE datagram in
            if length remaining_bytes \<noteq> unat payload_length then Inl PkPayloadLengthMismatch
            else (case unpack_loop (unat frame_count) remaining_bytes 0 [] of
              Inl e \<Rightarrow> Inl e
            | Inr (offset, frames) \<Rightarrow>
                if offset \<noteq> length remaining_bytes then Inl PkFrameCountMismatch
                else Inr \<lparr>up_header = \<lparr>ph_magic = magic, ph_version = version, ph_frame_count = frame_count,
                       ph_packet_sequence = packet_sequence, ph_payload_length = payload_length\<rparr>, up_frames = frames\<rparr>)
      | _ \<Rightarrow> Inl PkTruncatedHeader)"

subsection \<open>Sequence numbers\<close>

datatype SequenceOutcome = InOrder | Duplicate | OutOfOrder | Missing

record SequenceCheck =
  sc_outcome :: SequenceOutcome
  sc_observed :: Sequence
  sc_expected :: Sequence

type_synonym SequenceValidator = "Sequence option"

definition sequence_check :: "SequenceValidator \<Rightarrow> Sequence \<Rightarrow> SequenceValidator \<times> SequenceCheck" where
  "sequence_check last_seen seq = (case last_seen of
     None \<Rightarrow> (Some seq, \<lparr>sc_outcome = InOrder, sc_observed = seq, sc_expected = 0\<rparr>)
   | Some last_seq \<Rightarrow>
       if seq = last_seq + 1 then (Some seq, \<lparr>sc_outcome = InOrder, sc_observed = seq, sc_expected = 0\<rparr>)
       else if seq = last_seq then (Some last_seq, \<lparr>sc_outcome = Duplicate, sc_observed = seq, sc_expected = 0\<rparr>)
       else if seq < last_seq then (Some last_seq, \<lparr>sc_outcome = OutOfOrder, sc_observed = seq, sc_expected = 0\<rparr>)
       else (Some seq, \<lparr>sc_outcome = Missing, sc_observed = seq, sc_expected = last_seq + 1\<rparr>))"

definition sequence_reset :: "SequenceValidator \<Rightarrow> Sequence \<Rightarrow> SequenceValidator" where
  "sequence_reset v seq = Some seq"

record PacketSequenceStats =
  pss_packets_seen :: u64
  pss_in_order :: u64
  pss_duplicate :: u64
  pss_out_of_order :: u64
  pss_missing_events :: u64

record PacketSequenceTracker =
  pst_validator :: SequenceValidator
  pst_stats :: PacketSequenceStats

definition new_tracker :: PacketSequenceTracker where
  "new_tracker = \<lparr>pst_validator = None, pst_stats = \<lparr>pss_packets_seen = 0, pss_in_order = 0, pss_duplicate = 0,
     pss_out_of_order = 0, pss_missing_events = 0\<rparr>\<rparr>"

definition observe :: "PacketSequenceTracker \<Rightarrow> Sequence \<Rightarrow> PacketSequenceTracker \<times> SequenceCheck" where
  "observe t packet_sequence = (let
     (v, check) = sequence_check (pst_validator t) packet_sequence;
     stats = (pst_stats t)\<lparr>pss_packets_seen := pss_packets_seen (pst_stats t) + 1\<rparr>;
     stats = (case sc_outcome check of
         InOrder \<Rightarrow> stats\<lparr>pss_in_order := pss_in_order stats + 1\<rparr>
       | Duplicate \<Rightarrow> stats\<lparr>pss_duplicate := pss_duplicate stats + 1\<rparr>
       | OutOfOrder \<Rightarrow> stats\<lparr>pss_out_of_order := pss_out_of_order stats + 1\<rparr>
       | Missing \<Rightarrow> stats\<lparr>pss_missing_events := pss_missing_events stats + 1\<rparr>)
   in (t\<lparr>pst_validator := v, pst_stats := stats\<rparr>, check))"

subsection \<open>What a packet is\<close>

text \<open>A chunk whose header says how long it is; \<open>decode_event\<close> may still refuse its contents.\<close>

definition well_framed :: "byte list \<Rightarrow> bool" where
  "well_framed c \<longleftrightarrow> (case decode_header c of Inl _ \<Rightarrow> False | Inr h \<Rightarrow> length c = 20 + unat (h_payload_size h))"

definition packet_bytes :: "u32 \<Rightarrow> u16 \<Rightarrow> u16 \<Rightarrow> u64 \<Rightarrow> u32 \<Rightarrow> byte list" where
  "packet_bytes magic version count seq len = be_bytes 4 magic @ be_bytes 2 version @ be_bytes 2 count @ be_bytes 8 seq @ be_bytes 4 len"

lemma length_packet_bytes [simp]: "length (packet_bytes magic version count seq len) = 20"
  by (simp add: packet_bytes_def)

lemma packet_exhaust:
  assumes "20 \<le> length data"
  obtains magic version count seq len rest where "data = packet_bytes magic version count seq len @ rest"
proof -
  obtain magic r1 where 1: "data = be_bytes 4 (magic :: u32) @ r1" using field_exhaust(3) [of data] assms by auto
  obtain version r2 where 2: "r1 = be_bytes 2 (version :: u16) @ r2" using field_exhaust(2) [of r1] assms 1 by auto
  obtain count r3 where 3: "r2 = be_bytes 2 (count :: u16) @ r3" using field_exhaust(2) [of r2] assms 1 2 by auto
  obtain seq r4 where 4: "r3 = be_bytes 8 (seq :: u64) @ r4" using field_exhaust(4) [of r3] assms 1 2 3 by auto
  obtain len r5 where 5: "r4 = be_bytes 4 (len :: u32) @ r5" using field_exhaust(3) [of r4] assms 1 2 3 4 by auto
  show ?thesis using that 1 2 3 4 5 by (simp add: packet_bytes_def)
qed

lemma unpack_packet_bytes:
  "unpack_frames (packet_bytes magic version count seq len @ rest) =
     (if magic \<noteq> PACKET_MAGIC then Inl PkInvalidMagic
      else if version \<noteq> PACKET_VERSION then Inl PkInvalidVersion
      else if count = 0 then Inl PkZeroFrameCount
      else if length rest \<noteq> unat len then Inl PkPayloadLengthMismatch
      else (case unpack_loop (unat count) rest 0 [] of
              Inl e \<Rightarrow> Inl e
            | Inr (offset, frames) \<Rightarrow>
                if offset \<noteq> length rest then Inl PkFrameCountMismatch
                else Inr \<lparr>up_header = \<lparr>ph_magic = magic, ph_version = version, ph_frame_count = count,
                       ph_packet_sequence = seq, ph_payload_length = len\<rparr>, up_frames = frames\<rparr>))"
  by (simp add: unpack_frames_def packet_bytes_def PACKET_HEADER_SIZE_def wire_simps)

lemma pack_frames_bytes:
  "pack_frames seq events = packet_bytes PACKET_MAGIC PACKET_VERSION (of_nat (length events)) seq
     (of_nat (length (concat (map event_frame events)))) @ concat (map event_frame events)"
proof -
  have "fold encode_event events out = out @ concat (map event_frame events)" for out
  proof (induction events arbitrary: out)
    case (Cons ev events)
    then show ?case by (subst (2) encode_event_appends [symmetric] | simp add: encode_event_appends [of ev out])+
  qed simp
  then show ?thesis by (simp add: pack_frames_def Let_def wire_simps packet_bytes_def)
qed

lemma well_framed_iff:
  "well_framed c \<longleftrightarrow> (\<exists>h. decode_header c = Inr h \<and> length c = 20 + unat (h_payload_size h))"
  by (auto simp: well_framed_def split: sum.splits)

lemma event_frame_well_framed: "well_framed (event_frame ev)"
proof -
  have "decode_header (event_frame ev) = Inr (header_of ev)"
    unfolding decode_header_iff by (rule exI) (rule md.frame_eq)
  moreover have "length (event_frame ev) = 20 + unat (h_payload_size (header_of ev))" by (simp add: header_of_def)
  ultimately show ?thesis by (auto simp: well_framed_def)
qed

text \<open>The header is read from the first 20 bytes alone.\<close>

lemma decode_header_take: "20 \<le> n \<Longrightarrow> decode_header (take n bs) = Inr h \<longleftrightarrow> decode_header bs = Inr h"
  by (auto simp: decode_header_iff) (metis append_take_drop_id append.assoc)+

lemma unpack_loop_chunks:
  assumes "\<forall>c \<in> set chunks. well_framed c"
  shows "unpack_loop (length chunks) (pre @ concat chunks @ post) (length pre) frames =
    Inr (length (pre @ concat chunks), frames @ map decode_event chunks)"
  using assms
proof (induction chunks arbitrary: pre frames)
  case (Cons c chunks)
  then obtain h where h: "decode_header c = Inr h" "length c = 20 + unat (h_payload_size h)" by (auto simp: well_framed_iff)
  let ?rest = "c @ concat chunks @ post"
  have "decode_header ?rest = Inr h" using h(1) by (auto simp: decode_header_iff)
  moreover have "take (20 + unat (h_payload_size h)) ?rest = c" using h(2) by simp
  ultimately show ?case
    using Cons.IH [of "pre @ c" "frames @ [decode_event c]"] Cons.prems h(2) by (simp add: Let_def HEADER_SIZE_def add.assoc)
qed simp

lemma unpack_loop_only_chunks:
  assumes "unpack_loop n bs off frames = Inr (off', frames')" "off \<le> length bs"
  obtains chunks where "length chunks = n" "\<forall>c \<in> set chunks. well_framed c" "frames' = frames @ map decode_event chunks"
    "take off' bs = take off bs @ concat chunks" "off' \<le> length bs"
  using assms
proof (induction n arbitrary: off frames thesis)
  case (Suc n)
  let ?rest = "drop off bs"
  obtain h where h: "decode_header ?rest = Inr h" using Suc.prems(2) by (auto simp: Let_def split: sum.splits)
  let ?len = "20 + unat (h_payload_size h)" and ?c = "take (20 + unat (h_payload_size h)) (drop off bs)"
  have len: "?len \<le> length ?rest" and step: "unpack_loop n bs (off + ?len) (frames @ [decode_event ?c]) = Inr (off', frames')"
    using Suc.prems(2) h by (auto simp: Let_def HEADER_SIZE_def split: if_splits)
  have c: "well_framed ?c" using h len decode_header_take [of ?len ?rest h] by (auto simp: well_framed_iff)
  have off: "off + ?len \<le> length bs" using len Suc.prems(3) by simp
  obtain chunks where ch: "length chunks = n" "\<forall>c \<in> set chunks. well_framed c"
    "frames' = (frames @ [decode_event ?c]) @ map decode_event chunks"
    "take off' bs = take (off + ?len) bs @ concat chunks" "off' \<le> length bs"
    using Suc.IH [OF _ step off] by blast
  show ?case
    by (rule Suc.prems(1) [of "?c # chunks"]) (use ch c in \<open>auto simp: take_add\<close>)
qed simp

text \<open>What \<open>unpack_frames\<close> accepts: a packet header and as many well-framed chunks as it says.\<close>

lemma unpack_iff:
  "unpack_frames data = Inr p \<longleftrightarrow> (\<exists>chunks seq. chunks \<noteq> [] \<and> length chunks < 2 ^ 16 \<and> length (concat chunks) < 2 ^ 32 \<and>
     (\<forall>c \<in> set chunks. well_framed c) \<and>
     data = packet_bytes PACKET_MAGIC PACKET_VERSION (of_nat (length chunks)) seq (of_nat (length (concat chunks))) @ concat chunks \<and>
     p = \<lparr>up_header = \<lparr>ph_magic = PACKET_MAGIC, ph_version = PACKET_VERSION, ph_frame_count = of_nat (length chunks),
       ph_packet_sequence = seq, ph_payload_length = of_nat (length (concat chunks))\<rparr>, up_frames = map decode_event chunks\<rparr>)"
  (is "_ \<longleftrightarrow> ?R")
proof
  assume ok: "unpack_frames data = Inr p"
  then have "20 \<le> length data" by (auto simp: unpack_frames_def PACKET_HEADER_SIZE_def split: if_splits)
  then obtain magic version count seq len rest where data: "data = packet_bytes magic version count seq len @ rest"
    by (rule packet_exhaust)
  obtain off frames where f: "magic = PACKET_MAGIC" "version = PACKET_VERSION" "count \<noteq> 0" "length rest = unat len"
    "unpack_loop (unat count) rest 0 [] = Inr (off, frames)" "off = length rest"
    "p = \<lparr>up_header = \<lparr>ph_magic = magic, ph_version = version, ph_frame_count = count,
       ph_packet_sequence = seq, ph_payload_length = len\<rparr>, up_frames = frames\<rparr>"
    using ok by (auto simp: data unpack_packet_bytes split: if_splits sum.splits prod.splits)
  obtain chunks where ch: "length chunks = unat count" "\<forall>c \<in> set chunks. well_framed c" "frames = map decode_event chunks"
    "rest = concat chunks"
    using unpack_loop_only_chunks [OF f(5)] f(6) by auto
  have "unat count < 2 ^ 16" "unat len < 2 ^ 32" "chunks \<noteq> []"
    using unsigned_less [of count] unsigned_less [of len] ch(1) f(3) by (auto simp: unat_eq_0)
  moreover have "of_nat (length chunks) = count" "of_nat (length (concat chunks)) = len"
    using ch(1,4) f(4) by (simp_all add: word_unat_eq_iff)
  ultimately show ?R using ch f data by (intro exI [of _ chunks] exI [of _ seq]) auto
next
  assume ?R
  then obtain chunks seq where c: "chunks \<noteq> []" "length chunks < 2 ^ 16" "length (concat chunks) < 2 ^ 32" "\<forall>c \<in> set chunks. well_framed c"
    "data = packet_bytes PACKET_MAGIC PACKET_VERSION (of_nat (length chunks)) seq (of_nat (length (concat chunks))) @ concat chunks"
    "p = \<lparr>up_header = \<lparr>ph_magic = PACKET_MAGIC, ph_version = PACKET_VERSION, ph_frame_count = of_nat (length chunks),
       ph_packet_sequence = seq, ph_payload_length = of_nat (length (concat chunks))\<rparr>, up_frames = map decode_event chunks\<rparr>" by blast
  have n: "unat (of_nat (length chunks) :: u16) = length chunks" "unat (of_nat (length (concat chunks)) :: u32) = length (concat chunks)"
    using c(2,3) by (simp_all add: unat_of_nat)
  then have "(of_nat (length chunks) :: u16) \<noteq> 0" using c(1) by (metis length_0_conv unsigned_0)
  then show "unpack_frames data = Inr p" using n unpack_loop_chunks [OF c(4), of "[]" "[]" "[]"] by (simp add: c(5,6) unpack_packet_bytes)
qed

lemma well_framed_prefix_free:
  assumes "well_framed c" "well_framed c'" "c @ r = c' @ r'"
  shows "c = c'" "r = r'"
proof -
  obtain h h' where h: "decode_header c = Inr h" "length c = 20 + unat (h_payload_size h)"
    "decode_header c' = Inr h'" "length c' = 20 + unat (h_payload_size h')" using assms(1,2) by (auto simp: well_framed_iff)
  then have "decode_header (c @ r) = Inr h" "decode_header (c' @ r') = Inr h'" by (auto simp: decode_header_iff)
  then have "length c = length c'" using assms(3) h by simp
  then show "c = c'" "r = r'" using assms(3) by auto
qed

lemma well_framed_concat:
  assumes "\<forall>c \<in> set cs. well_framed c" "\<forall>c \<in> set ds. well_framed c" "concat cs = concat ds"
  shows "cs = ds"
  using assms
proof (induction cs arbitrary: ds)
  case Nil
  then show ?case by (cases ds) (auto simp: well_framed_def decode_header_short)
next
  case (Cons c cs)
  then obtain d ds' where ds: "ds = d # ds'" by (cases ds) (auto simp: well_framed_def decode_header_short)
  then have "c = d \<and> concat cs = concat ds'" using Cons.prems well_framed_prefix_free [of c d "concat cs" "concat ds'"] by simp
  then show ?case using Cons.IH [of ds'] Cons.prems ds by simp
qed

lemma well_framed_event: "well_framed c \<Longrightarrow> decode_event c = Inr ev \<longleftrightarrow> c = event_frame ev"
proof
  assume c: "well_framed c" "decode_event c = Inr ev"
  then obtain rest where "c @ [] = event_frame ev @ rest" unfolding md.decode_iff by auto
  then show "c = event_frame ev" by (rule well_framed_prefix_free(1) [OF c(1) event_frame_well_framed])
next
  assume "c = event_frame ev"
  then show "decode_event c = Inr ev" using md.frame_accepted [of ev "[]"] by simp
qed

lemma well_framed_events:
  "\<forall>c \<in> set cs. well_framed c \<Longrightarrow> map decode_event cs = map Inr events \<longleftrightarrow> cs = map event_frame events"
proof (induction cs arbitrary: events)
  case (Cons c cs)
  then show ?case using well_framed_event [of c] by (cases events) auto
qed auto

lemma event_frames_size: "length (concat (map event_frame events)) \<le> 49 * length events"
proof (induction events)
  case (Cons ev events)
  have "payload_size_for (event_type ev) \<le> 29" by (cases "event_type ev") simp_all
  then show ?case using Cons by simp
qed simp

subsection \<open>Properties of packets\<close>

text \<open>
  A datagram unpacks to the packet sequence \<open>seq\<close> and the events \<open>events\<close> with no decode error among
  them if and only if it is what \<open>pack_frames\<close> writes for them and there is at least one and at most 65535
  of them: a round trip, and nothing else is accepted.
\<close>

theorem packet_codec_exact:
  "unpack_frames data = Inr \<lparr>up_header = \<lparr>ph_magic = PACKET_MAGIC, ph_version = PACKET_VERSION,
       ph_frame_count = of_nat (length events), ph_packet_sequence = seq,
       ph_payload_length = of_nat (length (concat (map event_frame events)))\<rparr>, up_frames = map Inr events\<rparr> \<longleftrightarrow>
     events \<noteq> [] \<and> length events < 2 ^ 16 \<and> data = pack_frames seq events"
  (is "?L \<longleftrightarrow> ?R")
proof
  assume ?L
  then obtain chunks where c: "chunks \<noteq> []" "length chunks < 2 ^ 16" "\<forall>c \<in> set chunks. well_framed c" "map decode_event chunks = map Inr events"
    "data = packet_bytes PACKET_MAGIC PACKET_VERSION (of_nat (length chunks)) seq (of_nat (length (concat chunks))) @ concat chunks"
    unfolding unpack_iff by auto
  moreover have "chunks = map event_frame events" using c(3,4) well_framed_events by blast
  ultimately show ?R by (auto simp: pack_frames_bytes)
next
  assume R: ?R
  then have "length (concat (map event_frame events)) < 2 ^ 32" using event_frames_size [of events] by simp
  then show ?L unfolding unpack_iff
    using R event_frame_well_framed md.frame_accepted [of _ "[]", symmetric]
    by (intro exI [of _ "map event_frame events"] exI [of _ seq]) (auto simp: pack_frames_bytes)
qed

text \<open>
  \<open>pack_frames\<close> does not refuse more than 65535 events: the count is cut to 16 bits, and the datagram
  it returns is one its own reader rejects, whatever the events.
\<close>

theorem oversized_packet_unreadable:
  assumes "2 ^ 16 \<le> length events"
  shows "\<exists>e. unpack_frames (pack_frames seq events) = Inl e"
proof (rule ccontr)
  assume "\<nexists>e. unpack_frames (pack_frames seq events) = Inl e"
  then obtain p where "unpack_frames (pack_frames seq events) = Inr p" by (metis sum.exhaust)
  then obtain chunks count len seq' where c: "length chunks < 2 ^ 16" "\<forall>c \<in> set chunks. well_framed c"
    "pack_frames seq events = packet_bytes PACKET_MAGIC PACKET_VERSION count seq' len @ concat chunks"
    unfolding unpack_iff by blast
  then have "drop 20 (pack_frames seq events) = concat chunks" by simp
  then have "concat (map event_frame events) = concat chunks" by (simp add: pack_frames_bytes)
  then have "map event_frame events = chunks" using well_framed_concat c(2) event_frame_well_framed by simp
  then show False using c(1) assms by auto
qed

lemma oversized_packet_unreadable_witness:
  "\<exists>events e. length events = 2 ^ 16 \<and> unpack_frames (pack_frames 1 events) = Inl e"
proof -
  let ?events = "replicate (2 ^ 16) (EvClear \<lparr>cb_sequence_number = 1, cb_timestamp_ns = 2, cb_instrument_id = 3\<rparr>)"
  have "2 ^ 16 \<le> length ?events" by simp
  then obtain e where "unpack_frames (pack_frames 1 ?events) = Inl e" using oversized_packet_unreadable by blast
  moreover have "length ?events = 2 ^ 16" by simp
  ultimately show ?thesis by blast
qed

subsection \<open>Classifying sequence numbers\<close>

fun observe_all :: "PacketSequenceTracker \<Rightarrow> Sequence list \<Rightarrow> PacketSequenceTracker \<times> SequenceCheck list" where
  "observe_all t [] = (t, [])"
| "observe_all t (s # ss) = (let (t1, c) = observe t s; (t2, cs) = observe_all t1 ss in (t2, c # cs))"

text \<open>The reference: compare with the highest number in the whole history.\<close>

definition classify :: "Sequence list \<Rightarrow> Sequence \<Rightarrow> SequenceCheck" where
  "classify history seq =
     (if history = [] \<or> seq = Max (set history) + 1 then \<lparr>sc_outcome = InOrder, sc_observed = seq, sc_expected = 0\<rparr>
      else if seq = Max (set history) then \<lparr>sc_outcome = Duplicate, sc_observed = seq, sc_expected = 0\<rparr>
      else if seq < Max (set history) then \<lparr>sc_outcome = OutOfOrder, sc_observed = seq, sc_expected = 0\<rparr>
      else \<lparr>sc_outcome = Missing, sc_observed = seq, sc_expected = Max (set history) + 1\<rparr>)"

fun classify_all :: "Sequence list \<Rightarrow> Sequence list \<Rightarrow> SequenceCheck list" where
  "classify_all history [] = []"
| "classify_all history (s # ss) = classify history s # classify_all (history @ [s]) ss"

definition highest :: "Sequence list \<Rightarrow> SequenceValidator" where
  "highest history = (if history = [] then None else Some (Max (set history)))"

lemma sequence_check_classify:
  assumes "- 1 \<notin> set history"
  shows "sequence_check (highest history) seq = (highest (history @ [seq]), classify history seq)"
proof (cases "history = []")
  case False
  obtain m where m: "Max (set history) = m" by simp
  have "m \<in> set history" unfolding m [symmetric] using False by (intro Max_in) auto
  then have "m \<noteq> - 1" using assms by metis
  then have "1 + m \<noteq> 0" by (metis add.commute add_eq_0_iff)
  then have "m < m + 1" using unatSuc [of m] by (simp add: word_less_nat_alt add.commute)
  moreover have "Max (insert seq (set history)) = max seq m" using False m by simp
  ultimately show ?thesis using False
    by (auto simp: sequence_check_def highest_def classify_def max_def not_less m)
qed (simp add: sequence_check_def highest_def classify_def)

definition counted :: "SequenceOutcome \<Rightarrow> SequenceCheck list \<Rightarrow> u64" where
  "counted k cs = of_nat (length (filter (\<lambda>c. sc_outcome c = k) cs))"

lemma observe_all_classify:
  assumes "- 1 \<notin> set history \<union> set ss" "pst_validator t = highest history"
  shows "snd (observe_all t ss) = classify_all history ss"
  using assms
proof (induction ss arbitrary: history t)
  case (Cons s ss)
  have "sequence_check (pst_validator t) s = (highest (history @ [s]), classify history s)"
    using sequence_check_classify [of history s] Cons.prems by simp
  then have "pst_validator (fst (observe t s)) = highest (history @ [s])" "snd (observe t s) = classify history s"
    by (simp_all add: observe_def Let_def)
  then show ?case using Cons.IH [of "history @ [s]" "fst (observe t s)"] Cons.prems by (auto split: prod.splits)
qed simp

lemma observe_all_counts:
  assumes "observe_all t ss = (t', cs)"
  shows "pst_stats t' = \<lparr>pss_packets_seen = pss_packets_seen (pst_stats t) + of_nat (length ss),
    pss_in_order = pss_in_order (pst_stats t) + counted InOrder cs, pss_duplicate = pss_duplicate (pst_stats t) + counted Duplicate cs,
    pss_out_of_order = pss_out_of_order (pst_stats t) + counted OutOfOrder cs,
    pss_missing_events = pss_missing_events (pst_stats t) + counted Missing cs\<rparr>"
  using assms
proof (induction ss arbitrary: t cs)
  case (Cons s ss)
  obtain t1 c where 1: "observe t s = (t1, c)" by fastforce
  obtain cs' where 2: "observe_all t1 ss = (t', cs')" "cs = c # cs'" using Cons.prems 1 by (auto split: prod.splits)
  show ?case using Cons.IH [OF 2(1)] 1 2(2)
    by (cases "sc_outcome c") (auto simp: observe_def Let_def counted_def split: prod.splits)
qed (simp add: counted_def)

text \<open>
  The tracker, which remembers one number, classifies every packet of any stream as the reference
  does that compares it with the highest number of the whole history (in order, duplicate, out of order,
  or a gap with the first missing number), for numbers below \<open>2 ^ 64 - 1\<close>; and its counters are the number
  of packets and of packets of each class.
\<close>

theorem tracker_classifies_by_history:
  assumes "- 1 \<notin> set ss"
  shows "let (t, cs) = observe_all new_tracker ss in cs = classify_all [] ss \<and>
    pst_stats t = \<lparr>pss_packets_seen = of_nat (length ss), pss_in_order = counted InOrder cs,
      pss_duplicate = counted Duplicate cs, pss_out_of_order = counted OutOfOrder cs, pss_missing_events = counted Missing cs\<rparr>"
proof -
  obtain t cs where r: "observe_all new_tracker ss = (t, cs)" by fastforce
  have "cs = classify_all [] ss"
    using observe_all_classify [of "[]" ss new_tracker] assms r by (simp add: new_tracker_def highest_def)
  then show ?thesis using observe_all_counts [OF r] r by (simp add: new_tracker_def)
qed

lemma tracker_classifies_by_history_witness:
  "map sc_outcome (classify_all [] [5, 6, 9, 8, 9]) = [InOrder, InOrder, Missing, OutOfOrder, Duplicate] \<and>
   (let (t, cs) = observe_all new_tracker [5, 6, 9, 8, 9] in cs = classify_all [] [5, 6, 9, 8, 9] \<and> pss_packets_seen (pst_stats t) = 5)"
proof -
  have c: "map sc_outcome (classify_all [] [5, 6, 9, 8, 9]) = [InOrder, InOrder, Missing, OutOfOrder, Duplicate]"
    by (simp add: classify_def)
  have "- 1 \<notin> set [5, 6, 9, 8, 9 :: Sequence]" by simp
  from tracker_classifies_by_history [OF this] c show ?thesis by (auto simp del: observe_all.simps classify_all.simps split: prod.splits)
qed

end
