(* ===== verification/Subscriber_Book.thy ===== *)
theory Subscriber_Book
  imports Exchange_Core "HOL-Library.Multiset"
begin

text \<open>
  The order book a market-data subscriber builds (\<open>book/price_level.hpp\<close>, \<open>book/order_book.cpp\<close>,
  \<open>book/book_manager.cpp\<close>): two ordered maps of price levels, each a linked list of orders with a
  running total, and an index from order id to a list iterator. An iterator is the identity of a list
  node; using one whose node is not in the list is \<open>None\<close>. The lemmas relate a book to the list of its
  orders in the order they came to rest.
\<close>

subsection \<open>Price levels\<close>

type_synonym node = nat

record RestingOrder =
  ro_id :: OrderId
  ro_quantity :: Quantity

record PriceLevel =
  pl_price :: Price
  pl_orders :: "(node \<times> RestingOrder) list"
  pl_aggregate_qty :: Quantity

definition new_price_level :: "Price \<Rightarrow> PriceLevel" where
  "new_price_level price = \<lparr>pl_price = price, pl_orders = [], pl_aggregate_qty = 0\<rparr>"

text \<open>\<open>it\<close> is the node the list allocates; it becomes the returned iterator.\<close>

definition pl_add :: "node \<Rightarrow> OrderId \<Rightarrow> Quantity \<Rightarrow> PriceLevel \<Rightarrow> PriceLevel" where
  "pl_add it oid qty l = l\<lparr>pl_orders := pl_orders l @ [(it, \<lparr>ro_id = oid, ro_quantity = qty\<rparr>)],
     pl_aggregate_qty := pl_aggregate_qty l + qty\<rparr>"

definition pl_remove :: "node \<Rightarrow> PriceLevel \<Rightarrow> PriceLevel option" where
  "pl_remove it l = do {
     order \<leftarrow> map_of (pl_orders l) it;
     Some (l\<lparr>pl_aggregate_qty := pl_aggregate_qty l - ro_quantity order,
       pl_orders := filter (\<lambda>e. fst e \<noteq> it) (pl_orders l)\<rparr>)
   }"

definition pl_empty :: "PriceLevel \<Rightarrow> bool" where
  "pl_empty l \<longleftrightarrow> pl_orders l = []"

subsection \<open>The book\<close>

datatype BookError =
    BeUnknownOrderId
  | BeDuplicateOrderId
  | BeInvalidPrice
  | BeInvalidQuantity

record PriceLevelView =
  plv_price :: Price
  plv_aggregate_quantity :: Quantity
  plv_order_count :: nat

record OrderView =
  ov_order_id :: OrderId
  ov_price :: Price
  ov_quantity :: Quantity

record OrderLocation =
  ol_side :: Side
  ol_price :: Price
  ol_it :: node

text \<open>The key of \<open>bids_\<close>, a map ordered by \<open>std::greater\<close>.\<close>

datatype bid_price = Bid (bid_key: Price)

instantiation bid_price :: linorder
begin

definition less_eq_bid_price :: "bid_price \<Rightarrow> bid_price \<Rightarrow> bool" where
  "less_eq_bid_price x y \<longleftrightarrow> bid_key y \<le> bid_key x"

definition less_bid_price :: "bid_price \<Rightarrow> bid_price \<Rightarrow> bool" where
  "less_bid_price x y \<longleftrightarrow> bid_key y < bid_key x"

instance
  by standard (auto simp: less_eq_bid_price_def less_bid_price_def intro: bid_price.expand)

end

record OrderBook =
  ob_bids :: "(bid_price, PriceLevel) omap"
  ob_asks :: "(Price, PriceLevel) omap"
  ob_order_index :: "OrderId \<rightharpoonup> OrderLocation"
  ob_next_node :: node

definition empty_order_book :: OrderBook where
  "empty_order_book = \<lparr>ob_bids = [], ob_asks = [], ob_order_index = Map.empty, ob_next_node = 0\<rparr>"

text \<open>One branch of \<open>insert_at\<close>: \<open>try_emplace\<close>, then \<open>add\<close> on the level it points to.\<close>

definition level_insert :: "'k::linorder \<Rightarrow> Price \<Rightarrow> node \<Rightarrow> OrderId \<Rightarrow> Quantity \<Rightarrow> ('k, PriceLevel) omap \<Rightarrow> ('k, PriceLevel) omap" where
  "level_insert key price it oid qty levels = (let
     level = (case map_of levels key of None \<Rightarrow> new_price_level price | Some l \<Rightarrow> l)
   in omap_put key (pl_add it oid qty level) levels)"

text \<open>One branch of \<open>erase_at\<close>; \<open>find\<close> at the end of the map is dereferenced all the same.\<close>

definition level_erase :: "'k::linorder \<Rightarrow> node \<Rightarrow> ('k, PriceLevel) omap \<Rightarrow> ('k, PriceLevel) omap option" where
  "level_erase key it levels = do {
     level \<leftarrow> map_of levels key;
     level' \<leftarrow> pl_remove it level;
     Some (if pl_empty level' then omap_erase key levels else omap_put key level' levels)
   }"

definition insert_at :: "Side \<Rightarrow> OrderId \<Rightarrow> Price \<Rightarrow> Quantity \<Rightarrow> OrderBook \<Rightarrow> OrderBook" where
  "insert_at side oid price qty b = (let it = ob_next_node b; b = b\<lparr>ob_next_node := it + 1\<rparr> in
     case side of
       Buy \<Rightarrow> b\<lparr>ob_bids := level_insert (Bid price) price it oid qty (ob_bids b),
         ob_order_index := (ob_order_index b)(oid \<mapsto> \<lparr>ol_side = side, ol_price = price, ol_it = it\<rparr>)\<rparr>
     | Sell \<Rightarrow> b\<lparr>ob_asks := level_insert price price it oid qty (ob_asks b),
         ob_order_index := (ob_order_index b)(oid \<mapsto> \<lparr>ol_side = side, ol_price = price, ol_it = it\<rparr>)\<rparr>)"

definition erase_at :: "OrderLocation \<Rightarrow> OrderBook \<Rightarrow> OrderBook option" where
  "erase_at loc b = (case ol_side loc of
     Buy \<Rightarrow> do { levels \<leftarrow> level_erase (Bid (ol_price loc)) (ol_it loc) (ob_bids b); Some (b\<lparr>ob_bids := levels\<rparr>) }
   | Sell \<Rightarrow> do { levels \<leftarrow> level_erase (ol_price loc) (ol_it loc) (ob_asks b); Some (b\<lparr>ob_asks := levels\<rparr>) })"

definition ob_add_order :: "OrderId \<Rightarrow> Price \<Rightarrow> Quantity \<Rightarrow> Side \<Rightarrow> OrderBook \<Rightarrow> (OrderBook \<times> BookError option) option" where
  "ob_add_order oid price qty side b =
     (if price \<le> 0 then Some (b, Some BeInvalidPrice)
      else if qty = 0 then Some (b, Some BeInvalidQuantity)
      else if ob_order_index b oid \<noteq> None then Some (b, Some BeDuplicateOrderId)
      else Some (insert_at side oid price qty b, None))"

definition ob_cancel_order :: "OrderId \<Rightarrow> OrderBook \<Rightarrow> (OrderBook \<times> BookError option) option" where
  "ob_cancel_order oid b = (case ob_order_index b oid of
     None \<Rightarrow> Some (b, Some BeUnknownOrderId)
   | Some loc \<Rightarrow> do {
       b1 \<leftarrow> erase_at loc b;
       Some (b1\<lparr>ob_order_index := (ob_order_index b1)(oid := None)\<rparr>, None)
     })"

definition ob_modify_order :: "OrderId \<Rightarrow> Price \<Rightarrow> Quantity \<Rightarrow> OrderBook \<Rightarrow> (OrderBook \<times> BookError option) option" where
  "ob_modify_order oid new_price new_qty b =
     (if new_price \<le> 0 then Some (b, Some BeInvalidPrice)
      else if new_qty = 0 then Some (b, Some BeInvalidQuantity)
      else case ob_order_index b oid of
        None \<Rightarrow> Some (b, Some BeUnknownOrderId)
      | Some loc \<Rightarrow> do {
          b1 \<leftarrow> erase_at loc b;
          let b2 = b1\<lparr>ob_order_index := (ob_order_index b1)(oid := None)\<rparr>;
          Some (insert_at (ol_side loc) oid new_price new_qty b2, None)
        })"

definition ob_clear :: "OrderBook \<Rightarrow> OrderBook" where
  "ob_clear b = b\<lparr>ob_bids := [], ob_asks := [], ob_order_index := Map.empty\<rparr>"

definition level_view :: "Price \<Rightarrow> PriceLevel \<Rightarrow> PriceLevelView" where
  "level_view price l = \<lparr>plv_price = price, plv_aggregate_quantity = pl_aggregate_qty l, plv_order_count = length (pl_orders l)\<rparr>"

definition ob_best_bid :: "OrderBook \<Rightarrow> PriceLevelView option" where
  "ob_best_bid b = (case ob_bids b of [] \<Rightarrow> None | (key, l) # _ \<Rightarrow> Some (level_view (bid_key key) l))"

definition ob_best_ask :: "OrderBook \<Rightarrow> PriceLevelView option" where
  "ob_best_ask b = (case ob_asks b of [] \<Rightarrow> None | (price, l) # _ \<Rightarrow> Some (level_view price l))"

text \<open>The loop of \<open>top_bids\<close> and \<open>top_asks\<close>: until the end of the map or \<open>n\<close> entries in \<open>result\<close>.\<close>

fun top_loop :: "nat \<Rightarrow> ('k \<Rightarrow> Price) \<Rightarrow> ('k, PriceLevel) omap \<Rightarrow> PriceLevelView list \<Rightarrow> PriceLevelView list" where
  "top_loop n price_of_key [] result = result"
| "top_loop n price_of_key ((key, l) # levels) result =
     (if length result < n then top_loop n price_of_key levels (result @ [level_view (price_of_key key) l]) else result)"

definition ob_top_bids :: "nat \<Rightarrow> OrderBook \<Rightarrow> PriceLevelView list" where
  "ob_top_bids n b = top_loop n bid_key (ob_bids b) []"

definition ob_top_asks :: "nat \<Rightarrow> OrderBook \<Rightarrow> PriceLevelView list" where
  "ob_top_asks n b = top_loop n (\<lambda>price. price) (ob_asks b) []"

definition level_order_views :: "Price \<Rightarrow> PriceLevel \<Rightarrow> OrderView list" where
  "level_order_views price l =
     map (\<lambda>(_, order). \<lparr>ov_order_id = ro_id order, ov_price = price, ov_quantity = ro_quantity order\<rparr>) (pl_orders l)"

definition ob_all_bids :: "OrderBook \<Rightarrow> OrderView list" where
  "ob_all_bids b = concat (map (\<lambda>(key, l). level_order_views (bid_key key) l) (ob_bids b))"

definition ob_all_asks :: "OrderBook \<Rightarrow> OrderView list" where
  "ob_all_asks b = concat (map (\<lambda>(price, l). level_order_views price l) (ob_asks b))"

definition ob_has_order :: "OrderId \<Rightarrow> OrderBook \<Rightarrow> bool" where
  "ob_has_order oid b \<longleftrightarrow> ob_order_index b oid \<noteq> None"

subsection \<open>Books by instrument\<close>

text \<open>
  The two unordered maps are kept as sorted association lists; their iteration order is never
  observed, since \<open>instruments\<close> collects the keys in a \<open>std::set\<close>.
\<close>

record InstrumentStats =
  is_trade_count :: u64
  is_traded_quantity :: Quantity
  is_last_trade_price :: Price

record BookManager =
  bm_books :: "(InstrumentId, OrderBook) omap"
  bm_stats :: "(InstrumentId, InstrumentStats) omap"

definition new_book_manager :: BookManager where
  "new_book_manager = \<lparr>bm_books = [], bm_stats = []\<rparr>"

text \<open>\<open>book_for\<close> is \<open>operator[]\<close>: it creates the book it does not find.\<close>

definition bm_book_for :: "InstrumentId \<Rightarrow> BookManager \<Rightarrow> OrderBook \<times> BookManager" where
  "bm_book_for iid m = (case map_of (bm_books m) iid of
     Some b \<Rightarrow> (b, m)
   | None \<Rightarrow> (empty_order_book, m\<lparr>bm_books := omap_put iid empty_order_book (bm_books m)\<rparr>))"

definition find_book :: "InstrumentId \<Rightarrow> BookManager \<Rightarrow> OrderBook option" where
  "find_book iid m = map_of (bm_books m) iid"

definition record_trade :: "InstrumentId \<Rightarrow> Price \<Rightarrow> Quantity \<Rightarrow> BookManager \<Rightarrow> BookManager" where
  "record_trade iid price qty m = (let
     s = (case map_of (bm_stats m) iid of
            None \<Rightarrow> \<lparr>is_trade_count = 0, is_traded_quantity = 0, is_last_trade_price = 0\<rparr> | Some s \<Rightarrow> s);
     s = s\<lparr>is_trade_count := is_trade_count s + 1\<rparr>;
     s = s\<lparr>is_traded_quantity := is_traded_quantity s + qty\<rparr>;
     s = s\<lparr>is_last_trade_price := price\<rparr>
   in m\<lparr>bm_stats := omap_put iid s (bm_stats m)\<rparr>)"

definition trade_stats :: "InstrumentId \<Rightarrow> BookManager \<Rightarrow> InstrumentStats option" where
  "trade_stats iid m = map_of (bm_stats m) iid"

definition bm_instruments :: "BookManager \<Rightarrow> InstrumentId list" where
  "bm_instruments m = sorted_list_of_set (set (map fst (bm_books m)) \<union> set (map fst (bm_stats m)))"

subsection \<open>The orders of a book in order of arrival\<close>

record arrival =
  ar_node :: node
  ar_id :: OrderId
  ar_side :: Side
  ar_price :: Price
  ar_quantity :: Quantity

definition level_of :: "Price \<Rightarrow> arrival list \<Rightarrow> PriceLevel" where
  "level_of price os = \<lparr>pl_price = price, pl_orders = map (\<lambda>a. (ar_node a, \<lparr>ro_id = ar_id a, ro_quantity = ar_quantity a\<rparr>)) os,
     pl_aggregate_qty = sum_list (map ar_quantity os)\<rparr>"

text \<open>One side's map, for the arrivals of that side and the key the map is ordered by.\<close>

definition levels_rep :: "('k::linorder \<Rightarrow> Price) \<Rightarrow> (arrival \<Rightarrow> 'k) \<Rightarrow> ('k, PriceLevel) omap \<Rightarrow> arrival list \<Rightarrow> bool" where
  "levels_rep price_of_key key levels os \<longleftrightarrow> omap_sorted levels \<and>
     (\<forall>k. map_of levels k = (let ks = filter (\<lambda>a. key a = k) os in if ks = [] then None else Some (level_of (price_of_key k) ks)))"

definition location_of :: "arrival \<Rightarrow> OrderLocation" where
  "location_of a = \<lparr>ol_side = ar_side a, ol_price = ar_price a, ol_it = ar_node a\<rparr>"

definition side_arrivals :: "Side \<Rightarrow> arrival list \<Rightarrow> arrival list" where
  "side_arrivals s os = filter (\<lambda>a. ar_side a = s) os"

definition ob_rep :: "OrderBook \<Rightarrow> arrival list \<Rightarrow> bool" where
  "ob_rep b os \<longleftrightarrow> levels_rep bid_key (\<lambda>a. Bid (ar_price a)) (ob_bids b) (side_arrivals Buy os) \<and>
     levels_rep (\<lambda>price. price) ar_price (ob_asks b) (side_arrivals Sell os) \<and>
     distinct (map ar_id os) \<and> distinct (map ar_node os) \<and> (\<forall>a \<in> set os. ar_node a < ob_next_node b) \<and>
     (\<forall>a \<in> set os. 0 < ar_price a \<and> ar_quantity a \<noteq> 0) \<and>
     ob_order_index b = map_of (map (\<lambda>a. (ar_id a, location_of a)) os)"

lemma levels_repD:
  assumes "levels_rep pk key levels os"
  shows "omap_sorted levels"
    "map_of levels k = (if filter (\<lambda>a. key a = k) os = [] then None else Some (level_of (pk k) (filter (\<lambda>a. key a = k) os)))"
  using assms by (auto simp: levels_rep_def Let_def)

lemma pl_add_level:
  "pl_add (ar_node a) (ar_id a) (ar_quantity a) (level_of p os) = level_of p (os @ [a])"
  by (simp add: pl_add_def level_of_def)

lemma level_insert_rep:
  assumes "levels_rep pk key levels os" "pk (key a) = ar_price a"
  shows "levels_rep pk key (level_insert (key a) (ar_price a) (ar_node a) (ar_id a) (ar_quantity a) levels) (os @ [a])"
proof -
  note d = levels_repD [OF assms(1)]
  have "new_price_level (ar_price a) = level_of (pk (key a)) []" by (simp add: new_price_level_def level_of_def assms(2))
  then have "(case map_of levels (key a) of None \<Rightarrow> new_price_level (ar_price a) | Some l \<Rightarrow> l) =
      level_of (pk (key a)) (filter (\<lambda>b. key b = key a) os)"
    by (simp add: d(2))
  then show ?thesis
    by (simp add: levels_rep_def level_insert_def pl_add_level omap_put_sorted [OF d(1)] omap_put_map_of [OF d(1)] d(2) Let_def)
qed

lemma map_of_level:
  assumes "distinct (map ar_node os)" "a \<in> set os"
  shows "map_of (pl_orders (level_of p os)) (ar_node a) = Some \<lparr>ro_id = ar_id a, ro_quantity = ar_quantity a\<rparr>"
  using assms by (intro map_of_is_SomeI) (auto simp: level_of_def comp_def)

lemma sum_list_remove1_node:
  assumes "distinct (map ar_node os)" "a \<in> set os"
  shows "sum_list (map ar_quantity (filter (\<lambda>b. ar_node b \<noteq> ar_node a) os)) = sum_list (map ar_quantity os) - ar_quantity a"
  using assms
proof (induction os)
  case (Cons x os)
  show ?case
  proof (cases "x = a")
    case True
    then have "filter (\<lambda>b. ar_node b \<noteq> ar_node a) os = os" using Cons.prems(1) by (intro filter_True) (auto simp: image_iff)
    then show ?thesis using True by simp
  next
    case False
    then have "ar_node x \<noteq> ar_node a" using Cons.prems by force
    then show ?thesis using Cons False by (simp add: algebra_simps)
  qed
qed simp

lemma pl_remove_level:
  assumes "distinct (map ar_node os)" "a \<in> set os"
  shows "pl_remove (ar_node a) (level_of p os) = Some (level_of p (filter (\<lambda>b. ar_node b \<noteq> ar_node a) os))"
  using map_of_level [OF assms, of p] sum_list_remove1_node [OF assms]
  by (simp add: pl_remove_def level_of_def filter_map comp_def)

lemma level_erase_rep:
  assumes "levels_rep pk key levels os" "distinct (map ar_node os)" "a \<in> set os"
  shows "\<exists>levels'. level_erase (key a) (ar_node a) levels = Some levels' \<and>
    levels_rep pk key levels' (filter (\<lambda>b. ar_node b \<noteq> ar_node a) os)"
proof -
  note d = levels_repD [OF assms(1)]
  let ?ks = "filter (\<lambda>b. key b = key a) os" and ?os' = "filter (\<lambda>b. ar_node b \<noteq> ar_node a) os"
  let ?ks' = "filter (\<lambda>b. ar_node b \<noteq> ar_node a) ?ks"
  have a: "a \<in> set ?ks" and dist: "distinct (map ar_node ?ks)" using assms(2,3) by (auto simp: distinct_map_filter)
  have ne: "?ks \<noteq> []" using a by (metis empty_iff list.set(1))
  have same: "b = a" if "b \<in> set os" "ar_node b = ar_node a" for b
    using assms(2,3) that by (simp add: distinct_map inj_on_def)
  have other: "filter (\<lambda>b. key b = k) ?os' = filter (\<lambda>b. key b = k) os" if "k \<noteq> key a" for k
    using that same by (auto intro!: filter_cong)
  have this_key: "filter (\<lambda>b. key b = key a) ?os' = ?ks'" by (auto intro: filter_cong)
  have "pl_empty (level_of p ?ks') \<longleftrightarrow> ?ks' = []" for p by (simp add: pl_empty_def level_of_def)
  then have "level_erase (key a) (ar_node a) levels =
      Some (if ?ks' = [] then omap_erase (key a) levels else omap_put (key a) (level_of (pk (key a)) ?ks') levels)"
    using d(2) [of "key a"] ne pl_remove_level [OF dist a] by (simp add: level_erase_def del: filter_filter)
  moreover have "levels_rep pk key (if ?ks' = [] then omap_erase (key a) levels else omap_put (key a) (level_of (pk (key a)) ?ks') levels) ?os'"
    unfolding levels_rep_def Let_def
    using omap_erase_sorted [OF d(1)] omap_put_sorted [OF d(1)] d(2) other this_key
    by (auto simp: omap_erase_map_of omap_put_map_of [OF d(1)] simp del: filter_filter)
  ultimately show ?thesis by blast
qed

text \<open>Iterating over the levels in map order lists the orders sorted by key, earlier arrivals first.\<close>

lemma levels_keys:
  assumes "levels_rep pk key levels os"
  shows "fst ` set levels = key ` set os" "distinct (map fst levels)"
proof -
  note d = levels_repD [OF assms]
  have "k \<in> fst ` set levels \<longleftrightarrow> k \<in> key ` set os" for k
  proof -
    have "k \<in> fst ` set levels \<longleftrightarrow> map_of levels k \<noteq> None" by (simp add: map_of_eq_None_iff)
    also have "\<dots> \<longleftrightarrow> filter (\<lambda>a. key a = k) os \<noteq> []" by (simp add: d(2))
    also have "\<dots> \<longleftrightarrow> k \<in> key ` set os" by (auto simp: filter_empty_conv)
    finally show ?thesis .
  qed
  then show "fst ` set levels = key ` set os" by blast
  show "distinct (map fst levels)" using d(1) by (simp add: omap_sorted_def strict_sorted_iff)
qed

lemma concat_by_key:
  assumes "sorted_wrt (<) ks" "set ks = key ` set os"
  shows "concat (map (\<lambda>k. filter (\<lambda>a. key a = k) os) ks) = sort_key key os"
proof (rule properties_for_sort_key [symmetric])
  have dist: "distinct ks" and sorted: "sorted ks" using assms(1) by (simp_all add: strict_sorted_iff)
  have one: "filter (\<lambda>a. key a = j) (concat (map (\<lambda>k. filter (\<lambda>a. key a = k) os) ks)) = (if j \<in> set ks then filter (\<lambda>a. key a = j) os else [])" for j
    using dist
  proof (induction ks)
    case (Cons k ks)
    have "filter (\<lambda>a. key a = j) (filter (\<lambda>a. key a = k) os) = (if j = k then filter (\<lambda>a. key a = j) os else [])"
      by (auto simp: filter_empty_conv intro: filter_cong)
    then show ?case using Cons by auto
  qed simp
  show "mset (concat (map (\<lambda>k. filter (\<lambda>a. key a = k) os) ks)) = mset os"
  proof (rule multiset_eqI)
    fix a
    have "count (mset (filter (\<lambda>b. key b = key a) (concat (map (\<lambda>k. filter (\<lambda>a. key a = k) os) ks)))) a =
        count (mset (filter (\<lambda>b. key b = key a) os)) a"
      unfolding one using assms(2) by (auto simp: filter_empty_conv count_eq_zero_iff)
    then show "count (mset (concat (map (\<lambda>k. filter (\<lambda>a. key a = k) os) ks))) a = count (mset os) a" by simp
  qed
  show "filter (\<lambda>b. key a = key b) (concat (map (\<lambda>k. filter (\<lambda>a. key a = k) os) ks)) = filter (\<lambda>b. key a = key b) os"
    if "a \<in> set (concat (map (\<lambda>k. filter (\<lambda>a. key a = k) os) ks))" for a
    using one [of "key a"] that by (auto simp: eq_commute [of "key a"])
  show "sorted (map key (concat (map (\<lambda>k. filter (\<lambda>a. key a = k) os) ks)))"
    using sorted
  proof (induction ks)
    case (Cons k ks)
    have "map key (filter (\<lambda>a. key a = k) os) = replicate (length (filter (\<lambda>a. key a = k) os)) k"
      by (rule replicate_eqI) auto
    then have "sorted (map key (filter (\<lambda>a. key a = k) os))" by (metis sorted_replicate)
    then show ?case using Cons by (auto simp: sorted_append)
  qed simp
qed

lemma levels_eq:
  assumes "levels_rep pk key levels os"
  shows "levels = map (\<lambda>k. (k, level_of (pk k) (filter (\<lambda>a. key a = k) os))) (sorted_list_of_set (key ` set os))"
proof -
  note d = levels_repD [OF assms] and k = levels_keys [OF assms]
  have "sorted_wrt (<) (map fst levels)" using d(1) by (simp add: omap_sorted_def)
  then have keys: "map fst levels = sorted_list_of_set (key ` set os)"
    using k(1) by (intro sorted_list_of_set.idem_if_sorted_distinct [symmetric, of "map fst levels", simplified k(1) set_map]) (auto simp: strict_sorted_iff)
  have "levels = map (\<lambda>e. (fst e, level_of (pk (fst e)) (filter (\<lambda>a. key a = fst e) os))) levels"
  proof (rule nth_equalityI)
    fix i assume i: "i < length levels"
    then have "map_of levels (fst (levels ! i)) = Some (snd (levels ! i))" using k(2) by (intro map_of_is_SomeI) auto
    then show "levels ! i = map (\<lambda>e. (fst e, level_of (pk (fst e)) (filter (\<lambda>a. key a = fst e) os))) levels ! i"
      using d(2) [of "fst (levels ! i)"] i by (auto simp: prod_eq_iff split: if_splits)
  qed simp
  then show ?thesis by (simp add: keys [symmetric] comp_def)
qed

subsection \<open>What a book promises\<close>

record book_entry =
  en_id :: OrderId
  en_side :: Side
  en_price :: Price
  en_quantity :: Quantity

definition entry_of :: "arrival \<Rightarrow> book_entry" where
  "entry_of a = \<lparr>en_id = ar_id a, en_side = ar_side a, en_price = ar_price a, en_quantity = ar_quantity a\<rparr>"

datatype book_op =
    OpAdd OrderId Price Quantity Side
  | OpCancel OrderId
  | OpModify OrderId Price Quantity
  | OpClear

text \<open>The specification: the entries in order of arrival, a modified order arriving anew.\<close>

definition spec_find :: "OrderId \<Rightarrow> book_entry list \<Rightarrow> book_entry option" where
  "spec_find oid es = find (\<lambda>e. en_id e = oid) es"

definition spec_remove :: "OrderId \<Rightarrow> book_entry list \<Rightarrow> book_entry list" where
  "spec_remove oid es = filter (\<lambda>e. en_id e \<noteq> oid) es"

fun spec_step :: "book_op \<Rightarrow> book_entry list \<Rightarrow> book_entry list \<times> BookError option" where
  "spec_step (OpAdd oid price qty side) es =
     (if price \<le> 0 then (es, Some BeInvalidPrice)
      else if qty = 0 then (es, Some BeInvalidQuantity)
      else if spec_find oid es \<noteq> None then (es, Some BeDuplicateOrderId)
      else (es @ [\<lparr>en_id = oid, en_side = side, en_price = price, en_quantity = qty\<rparr>], None))"
| "spec_step (OpCancel oid) es =
     (if spec_find oid es = None then (es, Some BeUnknownOrderId) else (spec_remove oid es, None))"
| "spec_step (OpModify oid price qty) es =
     (if price \<le> 0 then (es, Some BeInvalidPrice)
      else if qty = 0 then (es, Some BeInvalidQuantity)
      else case spec_find oid es of
        None \<Rightarrow> (es, Some BeUnknownOrderId)
      | Some e \<Rightarrow> (spec_remove oid es @ [e\<lparr>en_price := price, en_quantity := qty\<rparr>], None))"
| "spec_step OpClear es = ([], None)"

fun ob_step :: "book_op \<Rightarrow> OrderBook \<Rightarrow> (OrderBook \<times> BookError option) option" where
  "ob_step (OpAdd oid price qty side) b = ob_add_order oid price qty side b"
| "ob_step (OpCancel oid) b = ob_cancel_order oid b"
| "ob_step (OpModify oid price qty) b = ob_modify_order oid price qty b"
| "ob_step OpClear b = Some (ob_clear b, None)"

definition side_entries :: "Side \<Rightarrow> book_entry list \<Rightarrow> book_entry list" where
  "side_entries s es = filter (\<lambda>e. en_side e = s) es"

definition spec_levels :: "(book_entry \<Rightarrow> 'k::linorder) \<Rightarrow> ('k \<Rightarrow> Price) \<Rightarrow> book_entry list \<Rightarrow> PriceLevelView list" where
  "spec_levels key pk es = map (\<lambda>k. let ks = filter (\<lambda>e. key e = k) es in
     \<lparr>plv_price = pk k, plv_aggregate_quantity = sum_list (map en_quantity ks), plv_order_count = length ks\<rparr>)
     (sorted_list_of_set (key ` set es))"

definition entry_view :: "book_entry \<Rightarrow> OrderView" where
  "entry_view e = \<lparr>ov_order_id = en_id e, ov_price = en_price e, ov_quantity = en_quantity e\<rparr>"

lemma entry_of_simps [simp]:
  "en_id (entry_of a) = ar_id a" "en_side (entry_of a) = ar_side a" "en_price (entry_of a) = ar_price a"
  "en_quantity (entry_of a) = ar_quantity a"
  by (simp_all add: entry_of_def)

lemma ob_repD:
  assumes "ob_rep b os"
  shows "levels_rep bid_key (\<lambda>a. Bid (ar_price a)) (ob_bids b) (side_arrivals Buy os)"
    "levels_rep (\<lambda>price. price) ar_price (ob_asks b) (side_arrivals Sell os)"
    "distinct (map ar_id os)" "distinct (map ar_node os)" "a \<in> set os \<Longrightarrow> ar_node a < ob_next_node b"
    "a \<in> set os \<Longrightarrow> 0 < ar_price a \<and> ar_quantity a \<noteq> 0"
    "ob_order_index b = map_of (map (\<lambda>a. (ar_id a, location_of a)) os)"
  using assms by (auto simp: ob_rep_def)

lemma index_iff:
  assumes "ob_rep b os"
  shows "ob_order_index b oid = Some loc \<longleftrightarrow> (\<exists>a \<in> set os. ar_id a = oid \<and> loc = location_of a)"
proof -
  have "distinct (map fst (map (\<lambda>a. (ar_id a, location_of a)) os))" using ob_repD(3) [OF assms] by (simp add: comp_def)
  then show ?thesis unfolding ob_repD(7) [OF assms] by (subst map_of_eq_Some_iff) auto
qed

lemma spec_find_iff:
  assumes "ob_rep b os"
  shows "spec_find oid (map entry_of os) = None \<longleftrightarrow> ob_order_index b oid = None"
    "a \<in> set os \<Longrightarrow> spec_find (ar_id a) (map entry_of os) = Some (entry_of a)"
proof -
  show "spec_find oid (map entry_of os) = None \<longleftrightarrow> ob_order_index b oid = None"
    using index_iff [OF assms, of oid] by (force simp: spec_find_def find_None_iff)
  show "spec_find (ar_id a) (map entry_of os) = Some (entry_of a)" if "a \<in> set os"
    using that ob_repD(3) [OF assms] unfolding spec_find_def by (induction os) (auto simp: image_iff)
qed

lemma insert_at_rep:
  assumes "ob_rep b os" "\<forall>a \<in> set os. ar_id a \<noteq> oid" "0 < price" "qty \<noteq> 0"
  shows "ob_rep (insert_at side oid price qty b)
    (os @ [\<lparr>ar_node = ob_next_node b, ar_id = oid, ar_side = side, ar_price = price, ar_quantity = qty\<rparr>])"
proof -
  note d = ob_repD [OF assms(1)]
  let ?a = "\<lparr>ar_node = ob_next_node b, ar_id = oid, ar_side = side, ar_price = price, ar_quantity = qty\<rparr>"
  have fresh: "\<forall>a \<in> set os. ar_node a < ob_next_node b" using d(5) by blast
  have idx: "map_of (map (\<lambda>a. (ar_id a, location_of a)) os @ [(oid, location_of ?a)]) =
      (map_of (map (\<lambda>a. (ar_id a, location_of a)) os))(oid \<mapsto> location_of ?a)"
    using assms(2) by (induction os) (auto simp: fun_eq_iff)
  show ?thesis
    using d assms fresh level_insert_rep [OF d(1), of ?a] level_insert_rep [OF d(2), of ?a] idx
    by (cases side) (auto simp: ob_rep_def insert_at_def side_arrivals_def location_of_def Let_def)
qed

lemma erase_at_rep:
  assumes "ob_rep b os" "a \<in> set os"
  shows "\<exists>b1. erase_at (location_of a) b = Some b1 \<and> ob_order_index b1 = ob_order_index b \<and>
    ob_rep (b1\<lparr>ob_order_index := (ob_order_index b1)(ar_id a := None)\<rparr>) (filter (\<lambda>x. ar_id x \<noteq> ar_id a) os)"
proof -
  note d = ob_repD [OF assms(1)]
  let ?os' = "filter (\<lambda>x. ar_id x \<noteq> ar_id a) os"
  have eq: "x = a" if "x \<in> set os" "ar_node x = ar_node a \<or> ar_id x = ar_id a" for x
    using d(3,4) assms(2) that by (auto simp: distinct_map dest: inj_onD)
  then have same: "ar_id x = ar_id a \<longleftrightarrow> ar_node x = ar_node a" if "x \<in> set os" for x
    using that by blast
  have side: "side_arrivals s ?os' = filter (\<lambda>x. ar_node x \<noteq> ar_node a) (side_arrivals s os)" for s
    using same by (auto simp: side_arrivals_def intro!: filter_cong)
  have other: "filter (\<lambda>x. ar_node x \<noteq> ar_node a) (side_arrivals s os) = side_arrivals s os" if "ar_side a \<noteq> s" for s
    using that eq by (auto simp: side_arrivals_def intro!: filter_cong)
  have "map_of (map (\<lambda>x. (ar_id x, location_of x)) ?os') k =
      (if k = ar_id a then None else map_of (map (\<lambda>x. (ar_id x, location_of x)) os) k)" for k
    by (induction os) auto
  then have idx: "(map_of (map (\<lambda>x. (ar_id x, location_of x)) os))(ar_id a := None) = map_of (map (\<lambda>x. (ar_id x, location_of x)) ?os')"
    by auto
  have dist: "distinct (map ar_node (side_arrivals s os))" for s using d(4) by (simp add: side_arrivals_def distinct_map_filter)
  have mem: "a \<in> set (side_arrivals (ar_side a) os)" using assms(2) by (simp add: side_arrivals_def)
  show ?thesis
  proof (cases "ar_side a")
    case Buy
    obtain l where "level_erase (Bid (ar_price a)) (ar_node a) (ob_bids b) = Some l"
      "levels_rep bid_key (\<lambda>a. Bid (ar_price a)) l (side_arrivals Buy ?os')"
      using level_erase_rep [OF d(1) dist, of a] mem Buy side by auto
    then show ?thesis using d Buy side [of Sell] other [of Sell] idx
      by (auto simp: erase_at_def location_of_def ob_rep_def distinct_map_filter)
  next
    case Sell
    obtain l where "level_erase (ar_price a) (ar_node a) (ob_asks b) = Some l"
      "levels_rep (\<lambda>price. price) ar_price l (side_arrivals Sell ?os')"
      using level_erase_rep [OF d(2) dist, of a] mem Sell side by auto
    then show ?thesis using d Sell side [of Buy] other [of Buy] idx
      by (auto simp: erase_at_def location_of_def ob_rep_def distinct_map_filter)
  qed
qed

lemma spec_remove_entries: "spec_remove oid (map entry_of os) = map entry_of (filter (\<lambda>x. ar_id x \<noteq> oid) os)"
  by (simp add: spec_remove_def filter_map comp_def)

definition book_entries :: "OrderBook \<Rightarrow> book_entry list \<Rightarrow> bool" where
  "book_entries b es \<longleftrightarrow> (\<exists>os. ob_rep b os \<and> es = map entry_of os)"

lemma book_entriesI: "ob_rep b os \<Longrightarrow> es = map entry_of os \<Longrightarrow> book_entries b es"
  by (auto simp: book_entries_def)

lemma empty_order_book_entries: "book_entries empty_order_book []"
  by (simp add: book_entries_def ob_rep_def empty_order_book_def levels_rep_def side_arrivals_def)

lemma add_order_refines:
  assumes "book_entries b es"
  shows "\<exists>b'. ob_add_order oid price qty side b = Some (b', snd (spec_step (OpAdd oid price qty side) es)) \<and>
    book_entries b' (fst (spec_step (OpAdd oid price qty side) es))"
proof -
  obtain os where os: "ob_rep b os" "es = map entry_of os" using assms by (auto simp: book_entries_def)
  have none: "ob_order_index b oid = None \<longleftrightarrow> (\<forall>a \<in> set os. ar_id a \<noteq> oid)" using index_iff [OF os(1)] by (metis not_Some_eq)
  show ?thesis
  proof (cases "0 < price \<and> qty \<noteq> 0 \<and> ob_order_index b oid = None")
    case True
    then have "ob_rep (insert_at side oid price qty b)
        (os @ [\<lparr>ar_node = ob_next_node b, ar_id = oid, ar_side = side, ar_price = price, ar_quantity = qty\<rparr>])"
      using insert_at_rep [OF os(1)] none by blast
    then have "book_entries (insert_at side oid price qty b) (es @ [\<lparr>en_id = oid, en_side = side, en_price = price, en_quantity = qty\<rparr>])"
      by (rule book_entriesI) (simp add: os(2) entry_of_def)
    then show ?thesis using True spec_find_iff(1) [OF os(1), of oid] by (auto simp: ob_add_order_def os(2) not_le)
  next
    case False
    then show ?thesis using assms spec_find_iff(1) [OF os(1), of oid] by (auto simp: ob_add_order_def os(2) not_le)
  qed
qed

lemma cancel_order_refines:
  assumes "book_entries b es"
  shows "\<exists>b'. ob_cancel_order oid b = Some (b', snd (spec_step (OpCancel oid) es)) \<and> book_entries b' (fst (spec_step (OpCancel oid) es))"
proof -
  obtain os where os: "ob_rep b os" "es = map entry_of os" using assms by (auto simp: book_entries_def)
  show ?thesis
  proof (cases "ob_order_index b oid")
    case None
    then show ?thesis using assms spec_find_iff(1) [OF os(1), of oid] by (simp add: ob_cancel_order_def os(2))
  next
    case (Some loc)
    then obtain a where a: "a \<in> set os" "ar_id a = oid" "loc = location_of a" using index_iff [OF os(1)] by blast
    then show ?thesis using erase_at_rep [OF os(1) a(1)] Some spec_find_iff(1) [OF os(1), of oid]
      by (auto simp: ob_cancel_order_def os(2) spec_remove_entries book_entries_def)
  qed
qed

lemma modify_order_refines:
  assumes "book_entries b es"
  shows "\<exists>b'. ob_modify_order oid price qty b = Some (b', snd (spec_step (OpModify oid price qty) es)) \<and>
    book_entries b' (fst (spec_step (OpModify oid price qty) es))"
proof -
  obtain os where os: "ob_rep b os" "es = map entry_of os" using assms by (auto simp: book_entries_def)
  show ?thesis
  proof (cases "0 < price \<and> qty \<noteq> 0 \<and> ob_order_index b oid \<noteq> None")
    case False
    then show ?thesis using assms spec_find_iff(1) [OF os(1), of oid] by (auto simp: ob_modify_order_def os(2) not_le)
  next
    case True
    then obtain a where a: "a \<in> set os" "ar_id a = oid" "ob_order_index b oid = Some (location_of a)"
      using index_iff [OF os(1)] by blast
    obtain b1 where b1: "erase_at (location_of a) b = Some b1"
      "ob_rep (b1\<lparr>ob_order_index := (ob_order_index b1)(oid := None)\<rparr>) (filter (\<lambda>x. ar_id x \<noteq> oid) os)"
      using erase_at_rep [OF os(1) a(1)] a(2) by auto
    let ?b2 = "b1\<lparr>ob_order_index := (ob_order_index b1)(oid := None)\<rparr>"
    have "book_entries (insert_at (ar_side a) oid price qty ?b2)
        (map entry_of (filter (\<lambda>x. ar_id x \<noteq> oid) os) @ [(entry_of a)\<lparr>en_price := price, en_quantity := qty\<rparr>])"
      by (rule book_entriesI [OF insert_at_rep [OF b1(2)]]) (use True a(2) in \<open>auto simp: entry_of_def\<close>)
    then show ?thesis using True a b1(1) spec_find_iff(2) [OF os(1) a(1)]
      by (auto simp: ob_modify_order_def os(2) not_le spec_remove_entries location_of_def Let_def)
  qed
qed

lemma ob_clear_refines: "book_entries b es \<Longrightarrow> book_entries (ob_clear b) []"
  by (auto simp: book_entries_def ob_rep_def ob_clear_def levels_rep_def side_arrivals_def)

text \<open>The interface the replay relies on: every operation succeeds, answers and acts as specified.\<close>

fun run_ops :: "(book_op \<Rightarrow> 'b \<Rightarrow> ('b \<times> BookError option) option) \<Rightarrow> book_op list \<Rightarrow> 'b \<Rightarrow> ('b \<times> BookError option list) option" where
  "run_ops step [] b = Some (b, [])"
| "run_ops step (op # ops) b = do {
     (b1, e) \<leftarrow> step op b;
     (b2, es) \<leftarrow> run_ops step ops b1;
     Some (b2, e # es)
   }"

fun run_spec :: "book_op list \<Rightarrow> book_entry list \<Rightarrow> book_entry list \<times> BookError option list" where
  "run_spec [] xs = (xs, [])"
| "run_spec (op # ops) xs = (let (xs1, e) = spec_step op xs; (xs2, es) = run_spec ops xs1 in (xs2, e # es))"

locale resting_book =
  fixes rep :: "'b \<Rightarrow> book_entry list \<Rightarrow> bool" and step :: "book_op \<Rightarrow> 'b \<Rightarrow> ('b \<times> BookError option) option"
  assumes step_law: "rep b xs \<Longrightarrow> \<exists>b'. step op b = Some (b', snd (spec_step op xs)) \<and> rep b' (fst (spec_step op xs))"
begin

lemma run_law: "rep b xs \<Longrightarrow> \<exists>b'. run_ops step ops b = Some (b', snd (run_spec ops xs)) \<and> rep b' (fst (run_spec ops xs))"
proof (induction ops arbitrary: b xs)
  case (Cons op ops)
  obtain b1 where b1: "step op b = Some (b1, snd (spec_step op xs))" "rep b1 (fst (spec_step op xs))"
    using step_law [OF Cons.prems] by blast
  then show ?case using Cons.IH [OF b1(2)] by (auto split: prod.splits)
qed auto

end

interpretation ob: resting_book book_entries ob_step
proof
  fix b xs op assume b: "book_entries b xs"
  show "\<exists>b'. ob_step op b = Some (b', snd (spec_step op xs)) \<and> book_entries b' (fst (spec_step op xs))"
  proof (cases op)
    case (OpAdd oid price qty side)
    then show ?thesis using add_order_refines [OF b] by simp
  next
    case (OpCancel oid)
    then show ?thesis using cancel_order_refines [OF b] by simp
  next
    case (OpModify oid price qty)
    then show ?thesis using modify_order_refines [OF b] by simp
  next
    case OpClear
    then show ?thesis using ob_clear_refines [OF b] by simp
  qed
qed

subsection \<open>Views\<close>

lemma top_loop_take:
  "length result \<le> n \<Longrightarrow> top_loop n pk levels result =
     result @ take (n - length result) (map (\<lambda>(k, l). level_view (pk k) l) levels)"
  by (induction n pk levels result rule: top_loop.induct) (auto simp: take_Cons' Suc_diff_Suc)

lemma level_views:
  assumes "levels_rep pk (key \<circ> entry_of) levels os"
  shows "map (\<lambda>(k, l). level_view (pk k) l) levels = spec_levels key pk (map entry_of os)"
proof -
  have f: "filter (\<lambda>e. key e = k) (map entry_of os) = map entry_of (filter (\<lambda>a. key (entry_of a) = k) os)" for k
    by (simp add: filter_map comp_def)
  show ?thesis
    by (subst levels_eq [OF assms]) (simp add: spec_levels_def f level_view_def level_of_def comp_def image_image Let_def)
qed

lemma insort_key_map: "insort_key f (g x) (map g xs) = map g (insort_key (\<lambda>a. f (g a)) x xs)"
  by (induction xs) auto

lemma sort_key_map: "sort_key f (map g xs) = map g (sort_key (\<lambda>a. f (g a)) xs)"
  by (induction xs) (auto simp: insort_key_map)

lemma level_orders:
  assumes "levels_rep pk (key \<circ> entry_of) levels os" "\<forall>e. pk (key e) = en_price e"
  shows "concat (map (\<lambda>(k, l). level_order_views (pk k) l) levels) = map entry_view (sort_key key (map entry_of os))"
proof -
  let ?ks = "sorted_list_of_set ((key \<circ> entry_of) ` set os)"
  have "concat (map (\<lambda>(k, l). level_order_views (pk k) l) levels) =
      concat (map (\<lambda>k. map (entry_view \<circ> entry_of) (filter (\<lambda>a. (key \<circ> entry_of) a = k) os)) ?ks)"
    using assms(2)
    by (subst levels_eq [OF assms(1)]) (auto simp: level_order_views_def level_of_def entry_view_def comp_def
        intro!: arg_cong [where f = concat] map_cong)
  also have "\<dots> = map (entry_view \<circ> entry_of) (concat (map (\<lambda>k. filter (\<lambda>a. (key \<circ> entry_of) a = k) os) ?ks))"
    by (simp add: map_concat comp_def)
  also have "\<dots> = map (entry_view \<circ> entry_of) (sort_key (key \<circ> entry_of) os)" by (subst concat_by_key) auto
  also have "\<dots> = map entry_view (sort_key key (map entry_of os))" by (simp add: sort_key_map comp_def)
  finally show ?thesis .
qed

text \<open>The two sides of a book, as lists of entries and with the keys their maps are ordered by.\<close>

abbreviation spec_bids :: "book_entry list \<Rightarrow> PriceLevelView list" where
  "spec_bids xs \<equiv> spec_levels (\<lambda>e. Bid (en_price e)) bid_key (side_entries Buy xs)"

abbreviation spec_asks :: "book_entry list \<Rightarrow> PriceLevelView list" where
  "spec_asks xs \<equiv> spec_levels en_price (\<lambda>price. price) (side_entries Sell xs)"

lemma side_arrival_entries: "map entry_of (side_arrivals s os) = side_entries s (map entry_of os)"
  by (simp add: side_arrivals_def side_entries_def filter_map comp_def)

lemma book_views:
  assumes "book_entries b xs"
  shows "map (\<lambda>(k, l). level_view (bid_key k) l) (ob_bids b) = spec_bids xs"
    "map (\<lambda>(k, l). level_view k l) (ob_asks b) = spec_asks xs"
    "ob_all_bids b = map entry_view (sort_key (\<lambda>e. Bid (en_price e)) (side_entries Buy xs))"
    "ob_all_asks b = map entry_view (sort_key en_price (side_entries Sell xs))"
proof -
  obtain os where os: "ob_rep b os" "xs = map entry_of os" using assms by (auto simp: book_entries_def)
  have bids: "levels_rep bid_key ((\<lambda>e. Bid (en_price e)) \<circ> entry_of) (ob_bids b) (side_arrivals Buy os)"
    and asks: "levels_rep (\<lambda>price. price) (en_price \<circ> entry_of) (ob_asks b) (side_arrivals Sell os)"
    using ob_repD(1,2) [OF os(1)] by (simp_all add: comp_def)
  show "map (\<lambda>(k, l). level_view (bid_key k) l) (ob_bids b) = spec_bids xs"
    "map (\<lambda>(k, l). level_view k l) (ob_asks b) = spec_asks xs"
    using level_views [OF bids] level_views [OF asks] by (simp_all add: os(2) side_arrival_entries)
  show "ob_all_bids b = map entry_view (sort_key (\<lambda>e. Bid (en_price e)) (side_entries Buy xs))"
    "ob_all_asks b = map entry_view (sort_key en_price (side_entries Sell xs))"
    using level_orders [OF bids] level_orders [OF asks]
    by (simp_all add: os(2) side_arrival_entries ob_all_bids_def ob_all_asks_def)
qed

lemma best_views:
  assumes "book_entries b xs"
  shows "ob_best_bid b = (case spec_bids xs of [] \<Rightarrow> None | v # _ \<Rightarrow> Some v)"
    "ob_best_ask b = (case spec_asks xs of [] \<Rightarrow> None | v # _ \<Rightarrow> Some v)"
  using book_views(1,2) [OF assms] by (auto simp: ob_best_bid_def ob_best_ask_def split: list.splits)

subsection \<open>Properties\<close>

text \<open>
  C30. Whatever operations a subscriber's book is given, starting empty, none uses a dead iterator or
  a missing level, each answers with the error the list of entries in order of arrival calls for (and
  leaves the book alone then), and afterwards every view is the one of that list: all orders by price
  priority and then arrival, with a modified order arriving anew, the best levels with their total
  quantity (modulo 2^64, as the code adds) and count, and an order known to the index exactly when it is in the list.
\<close>

theorem order_book_refines_entries:
  "\<exists>b xs. run_ops ob_step ops empty_order_book = Some (b, snd (run_spec ops [])) \<and> xs = fst (run_spec ops []) \<and>
     ob_all_bids b = map entry_view (sort_key (\<lambda>e. Bid (en_price e)) (side_entries Buy xs)) \<and>
     ob_all_asks b = map entry_view (sort_key en_price (side_entries Sell xs)) \<and>
     ob_top_bids n b = take n (spec_bids xs) \<and> ob_top_asks n b = take n (spec_asks xs) \<and>
     ob_best_bid b = (case spec_bids xs of [] \<Rightarrow> None | v # _ \<Rightarrow> Some v) \<and>
     ob_best_ask b = (case spec_asks xs of [] \<Rightarrow> None | v # _ \<Rightarrow> Some v) \<and>
     ob_has_order oid b = (spec_find oid xs \<noteq> None)"
proof -
  obtain b where b: "run_ops ob_step ops empty_order_book = Some (b, snd (run_spec ops []))" "book_entries b (fst (run_spec ops []))"
    using ob.run_law [OF empty_order_book_entries] by blast
  then obtain os where os: "ob_rep b os" "fst (run_spec ops []) = map entry_of os" by (auto simp: book_entries_def)
  have "ob_has_order oid b = (spec_find oid (fst (run_spec ops [])) \<noteq> None)"
    using spec_find_iff(1) [OF os(1)] os(2) by (simp add: ob_has_order_def)
  moreover have "ob_top_bids n b = take n (spec_bids (fst (run_spec ops [])))" "ob_top_asks n b = take n (spec_asks (fst (run_spec ops [])))"
    using book_views(1,2) [OF b(2)] by (simp_all add: ob_top_bids_def ob_top_asks_def top_loop_take)
  ultimately show ?thesis using b(1) book_views(3,4) [OF b(2)] best_views [OF b(2)]
    by (intro exI [of _ b] exI [of _ "fst (run_spec ops [])"] conjI) simp_all
qed

end
