(* ===== verification/Market_Data_Replay.thy ===== *)
theory Market_Data_Replay
  imports Packet_Transport Subscriber_Book
begin

text \<open>
  The subscriber's replay (\<open>replay/event_file_writer.cpp\<close>, \<open>event_file_reader.cpp\<close>, \<open>replay_engine.cpp\<close>,
  \<open>snapshot.cpp\<close>): event files, applying decoded frames to the books with sequence checking and snapshot
  recovery, and writing and reading snapshots. The file system is a map from paths to contents; the
  elapsed time the statistics report is left out.
\<close>

type_synonym files = "string \<rightharpoonup> byte list"

subsection \<open>Event files\<close>

definition new_event_file :: "byte list" where
  "new_event_file = []"

definition write_event :: "byte list \<Rightarrow> Event \<Rightarrow> byte list" where
  "write_event file_bytes event = (let buffer = encode_event event [] in file_bytes @ buffer)"

definition event_next :: "byte list \<Rightarrow> ((DecodeError + Event) \<times> byte list) option" where
  "event_next bytes = (let
      header_bytes = take HEADER_SIZE bytes;
      bytes1 = drop HEADER_SIZE bytes
    in if length header_bytes = 0 then None
       else if length header_bytes < HEADER_SIZE then Some (Inl TruncatedHeader, bytes1)
       else case decode_header header_bytes of
         Inl e \<Rightarrow> Some (Inl e, bytes1)
       | Inr header \<Rightarrow> let
           payload = take (unat (h_payload_size header)) bytes1;
           bytes2 = drop (unat (h_payload_size header)) bytes1
         in if length payload < unat (h_payload_size header) then Some (Inl TruncatedPayload, bytes2)
            else Some (decode_event (header_bytes @ payload), bytes2))"

subsection \<open>Applying events\<close>

record ReplayStats =
  rs_messages_processed :: u64
  rs_decode_failures :: u64
  rs_sequence_failures :: u64
  rs_recoveries :: u64
  rs_adds :: u64
  rs_cancels :: u64
  rs_modifies :: u64
  rs_trades :: u64
  rs_clears :: u64
  rs_book_errors :: u64

definition new_replay_stats :: ReplayStats where
  "new_replay_stats = \<lparr>rs_messages_processed = 0, rs_decode_failures = 0, rs_sequence_failures = 0, rs_recoveries = 0,
     rs_adds = 0, rs_cancels = 0, rs_modifies = 0, rs_trades = 0, rs_clears = 0, rs_book_errors = 0\<rparr>"

definition sequence_of :: "Event \<Rightarrow> Sequence" where
  "sequence_of event = (case event of
     EvAdd msg \<Rightarrow> ao_sequence_number msg
   | EvCancel msg \<Rightarrow> co_sequence_number msg
   | EvModify msg \<Rightarrow> mo_sequence_number msg
   | EvTrade msg \<Rightarrow> tr_sequence_number msg
   | EvClear msg \<Rightarrow> cb_sequence_number msg)"

text \<open>A call on \<open>books.book_for(id)\<close>, a reference into the map.\<close>

definition on_book :: "InstrumentId \<Rightarrow> (OrderBook \<Rightarrow> (OrderBook \<times> BookError option) option) \<Rightarrow> BookManager \<Rightarrow>
  (BookManager \<times> BookError option) option" where
  "on_book iid f m = (let (b, m1) = bm_book_for iid m in do {
     (b', err) \<leftarrow> f b;
     Some (m1\<lparr>bm_books := omap_put iid b' (bm_books m1)\<rparr>, err)
   })"

definition count_error :: "BookError option \<Rightarrow> ReplayStats \<Rightarrow> ReplayStats" where
  "count_error err stats = (if err \<noteq> None then stats\<lparr>rs_book_errors := rs_book_errors stats + 1\<rparr> else stats)"

fun apply_event :: "Event \<Rightarrow> BookManager \<Rightarrow> ReplayStats \<Rightarrow> (BookManager \<times> ReplayStats) option" where
  "apply_event (EvAdd msg) books stats = do {
     let stats = stats\<lparr>rs_adds := rs_adds stats + 1\<rparr>;
     (books, err) \<leftarrow> on_book (ao_instrument_id msg) (ob_add_order (ao_order_id msg) (ao_price msg) (ao_quantity msg) (ao_side msg)) books;
     Some (books, count_error err stats)
   }"
| "apply_event (EvCancel msg) books stats = do {
     let stats = stats\<lparr>rs_cancels := rs_cancels stats + 1\<rparr>;
     (books, err) \<leftarrow> on_book (co_instrument_id msg) (ob_cancel_order (co_order_id msg)) books;
     Some (books, count_error err stats)
   }"
| "apply_event (EvModify msg) books stats = do {
     let stats = stats\<lparr>rs_modifies := rs_modifies stats + 1\<rparr>;
     (books, err) \<leftarrow> on_book (mo_instrument_id msg) (ob_modify_order (mo_order_id msg) (mo_new_price msg) (mo_new_quantity msg)) books;
     Some (books, count_error err stats)
   }"
| "apply_event (EvTrade msg) books stats =
     Some (record_trade (tr_instrument_id msg) (tr_price msg) (tr_quantity msg) books, stats\<lparr>rs_trades := rs_trades stats + 1\<rparr>)"
| "apply_event (EvClear msg) books stats = do {
     let stats = stats\<lparr>rs_clears := rs_clears stats + 1\<rparr>;
     (books, err) \<leftarrow> on_book (cb_instrument_id msg) (\<lambda>b. Some (ob_clear b, None)) books;
     Some (books, stats)
   }"

subsection \<open>Snapshots\<close>

definition SNAPSHOT_MAGIC :: u32 where
  "SNAPSHOT_MAGIC = 0x4D444832"

definition SNAPSHOT_VERSION :: u16 where
  "SNAPSHOT_VERSION = 1"

definition SNAPSHOT_HEADER_SIZE :: nat where
  "SNAPSHOT_HEADER_SIZE = 24"

definition append_side :: "OrderBook \<Rightarrow> InstrumentId \<Rightarrow> Side \<Rightarrow> bool \<Rightarrow> Sequence \<Rightarrow> u64 \<times> byte list \<Rightarrow> u64 \<times> byte list" where
  "append_side b iid side is_bid sequence_number acc = (let orders = if is_bid then ob_all_bids b else ob_all_asks b in
     fold (\<lambda>o' (entry_count, out). (entry_count + 1,
       encode_event (EvAdd \<lparr>ao_sequence_number = sequence_number, ao_timestamp_ns = 0, ao_order_id = ov_order_id o',
         ao_instrument_id = iid, ao_price = ov_price o', ao_quantity = ov_quantity o', ao_side = side\<rparr>) out)) orders acc)"

definition snapshot_entries :: "Sequence \<Rightarrow> BookManager \<Rightarrow> u64 \<times> byte list" where
  "snapshot_entries sequence_number books = fold (\<lambda>iid acc. case find_book iid books of
     None \<Rightarrow> acc
   | Some b \<Rightarrow> append_side b iid Sell False sequence_number (append_side b iid Buy True sequence_number acc))
     (bm_instruments books) (0, [])"

definition write_snapshot :: "bool \<Rightarrow> string \<Rightarrow> Sequence \<Rightarrow> BookManager \<Rightarrow> files \<Rightarrow> files \<times> bool" where
  "write_snapshot writable path sequence_number books fs = (let
     (entry_count, entries) = snapshot_entries sequence_number books;
     header = put_u32 SNAPSHOT_MAGIC [];
     header = put_u16 SNAPSHOT_VERSION header;
     header = put_u16 0 header;
     header = put_u64 sequence_number header;
     header = put_u64 entry_count header
   in if \<not> writable then (fs, False) else (fs(path \<mapsto> header @ entries), True))"

record SnapshotLoadResult =
  sl_sequence_number :: Sequence
  sl_books :: BookManager

text \<open>The loop over the entries. \<open>None\<close> is undefined behaviour, \<open>Some None\<close> the returned \<open>nullopt\<close>.\<close>

fun snapshot_loop :: "nat \<Rightarrow> byte list \<Rightarrow> BookManager \<Rightarrow> BookManager option option" where
  "snapshot_loop 0 bytes books = Some (Some books)"
| "snapshot_loop (Suc n) bytes books = (let header_bytes = take HEADER_SIZE bytes; bytes1 = drop HEADER_SIZE bytes in
     if length header_bytes < HEADER_SIZE then Some None
     else case decode_header header_bytes of
       Inl _ \<Rightarrow> Some None
     | Inr header \<Rightarrow>
         if h_type header \<noteq> MtAddOrder then Some None
         else let payload = take (unat (h_payload_size header)) bytes1; bytes2 = drop (unat (h_payload_size header)) bytes1 in
           if length payload < unat (h_payload_size header) then Some None
           else case decode_event (header_bytes @ payload) of
             Inr (EvAdd add_msg) \<Rightarrow> do {
               (books1, err) \<leftarrow> on_book (ao_instrument_id add_msg)
                 (ob_add_order (ao_order_id add_msg) (ao_price add_msg) (ao_quantity add_msg) (ao_side add_msg)) books;
               if err \<noteq> None then Some None else snapshot_loop n bytes2 books1
             }
           | Inr _ \<Rightarrow> None
           | Inl _ \<Rightarrow> Some None)"

definition read_snapshot :: "files \<Rightarrow> string \<Rightarrow> SnapshotLoadResult option option" where
  "read_snapshot fs path = (case fs path of
     None \<Rightarrow> Some None
   | Some bytes \<Rightarrow> let header_buf = take SNAPSHOT_HEADER_SIZE bytes; bytes1 = drop SNAPSHOT_HEADER_SIZE bytes in
       if length header_buf < SNAPSHOT_HEADER_SIZE then Some None
       else let
         r = new_reader header_buf;
         (magic, r) = get_u32 r;
         (version, r) = get_u16 r;
         (reserved, r) = get_u16 r;
         (sequence_number, r) = get_u64 r;
         (entry_count, r) = get_u64 r
       in case (magic, version, reserved, sequence_number, entry_count) of
         (Some magic, Some version, Some reserved, Some sequence_number, Some entry_count) \<Rightarrow>
           if magic \<noteq> SNAPSHOT_MAGIC \<or> version \<noteq> SNAPSHOT_VERSION \<or> reserved \<noteq> 0 then Some None
           else map_option (map_option (\<lambda>books. \<lparr>sl_sequence_number = sequence_number, sl_books = books\<rparr>))
             (snapshot_loop (unat entry_count) bytes1 new_book_manager)
       | _ \<Rightarrow> Some None)"

subsection \<open>Replay\<close>

record ReplayOptions =
  rp_stop_on_sequence_error :: bool
  rp_stop_on_decode_error :: bool
  rp_recovery_snapshot_path :: "string option"

record ReplayOutcome =
  rp_stats :: ReplayStats
  rp_books :: BookManager
  rp_stopped_early :: bool
  rp_stop_reason :: string
  rp_last_sequence_number :: "Sequence option"

definition new_outcome :: ReplayOutcome where
  "new_outcome = \<lparr>rp_stats = new_replay_stats, rp_books = new_book_manager, rp_stopped_early = False, rp_stop_reason = '''',
     rp_last_sequence_number = None\<rparr>"

fun decode_error_string :: "DecodeError \<Rightarrow> string" where
  "decode_error_string TruncatedHeader = ''TruncatedHeader''"
| "decode_error_string TruncatedPayload = ''TruncatedPayload''"
| "decode_error_string InvalidReserved = ''InvalidReserved''"
| "decode_error_string InvalidMessageType = ''InvalidMessageType''"
| "decode_error_string InvalidMessageSize = ''InvalidMessageSize''"
| "decode_error_string InvalidSide = ''InvalidSide''"

text \<open>An unsigned integer as \<open>operator<<\<close> prints it.\<close>

fun decimal_nat :: "nat \<Rightarrow> string" where
  "decimal_nat n = (if n < 10 then [char_of (48 + n)] else decimal_nat (n div 10) @ [char_of (48 + n mod 10)])"

declare decimal_nat.simps [simp del]

definition decimal :: "u64 \<Rightarrow> string" where
  "decimal w = decimal_nat (unat w)"

definition describe_sequence_error :: "SequenceCheck \<Rightarrow> string" where
  "describe_sequence_error check = (case sc_outcome check of
     Duplicate \<Rightarrow> ''duplicate sequence '' @ decimal (sc_observed check)
   | OutOfOrder \<Rightarrow> ''out-of-order sequence '' @ decimal (sc_observed check)
   | Missing \<Rightarrow> ''missing sequence(s) ['' @ decimal (sc_expected check) @ ''..'' @ decimal (sc_observed check - 1) @ '']''
   | InOrder \<Rightarrow> ''in-order sequence '' @ decimal (sc_observed check))"

definition stop_replay :: "string \<Rightarrow> ReplayOutcome \<Rightarrow> ReplayOutcome" where
  "stop_replay reason outcome = outcome\<lparr>rp_stopped_early := True, rp_stop_reason := reason\<rparr>"

definition add_stats :: "(ReplayStats \<Rightarrow> ReplayStats) \<Rightarrow> ReplayOutcome \<Rightarrow> ReplayOutcome" where
  "add_stats f outcome = outcome\<lparr>rp_stats := f (rp_stats outcome)\<rparr>"

text \<open>What happens to an event that is not refused: counted, remembered and applied.\<close>

definition process_event :: "Event \<Rightarrow> ReplayOutcome \<Rightarrow> ReplayOutcome option" where
  "process_event event outcome = (let
     outcome = add_stats (\<lambda>s. s\<lparr>rs_messages_processed := rs_messages_processed s + 1\<rparr>) outcome;
     outcome = outcome\<lparr>rp_last_sequence_number := Some (sequence_of event)\<rparr>
   in do {
     (books, stats) \<leftarrow> apply_event event (rp_books outcome) (rp_stats outcome);
     Some (outcome\<lparr>rp_books := books, rp_stats := stats\<rparr>)
   })"

definition apply_frame_result :: "files \<Rightarrow> DecodeError + Event \<Rightarrow> SequenceValidator \<Rightarrow> ReplayOptions \<Rightarrow> ReplayOutcome \<Rightarrow>
  (bool \<times> SequenceValidator \<times> ReplayOutcome) option" where
  "apply_frame_result fs frame validator options outcome = (case frame of
     Inl e \<Rightarrow>
       let outcome = add_stats (\<lambda>s. s\<lparr>rs_decode_failures := rs_decode_failures s + 1\<rparr>) outcome in
       if rp_stop_on_decode_error options
       then Some (True, validator, stop_replay (''decode error: '' @ decode_error_string e) outcome)
       else Some (False, validator, outcome)
   | Inr event \<Rightarrow>
       let (validator, check) = sequence_check validator (sequence_of event) in
       if sc_outcome check = InOrder
       then map_option (\<lambda>outcome. (False, validator, outcome)) (process_event event outcome)
       else let outcome = add_stats (\<lambda>s. s\<lparr>rs_sequence_failures := rs_sequence_failures s + 1\<rparr>) outcome in
         case (if sc_outcome check = Missing then rp_recovery_snapshot_path options else None) of
           Some path \<Rightarrow> (case read_snapshot fs path of
               None \<Rightarrow> None
             | Some None \<Rightarrow>
                 Some (True, validator, stop_replay (''sequence gap recovery failed: could not load snapshot '' @ path) outcome)
             | Some (Some loaded) \<Rightarrow>
                 let outcome = add_stats (\<lambda>s. s\<lparr>rs_recoveries := rs_recoveries s + 1\<rparr>) (outcome\<lparr>rp_books := sl_books loaded\<rparr>) in
                 map_option (\<lambda>outcome. (False, sequence_reset validator (sequence_of event), outcome)) (process_event event outcome))
         | None \<Rightarrow>
             if rp_stop_on_sequence_error options
             then Some (True, validator, stop_replay (describe_sequence_error check) outcome)
             else map_option (\<lambda>outcome. (False, validator, outcome)) (process_event event outcome))"

lemma event_next_progress: "event_next bytes = Some (x, rest) \<Longrightarrow> length rest < length bytes"
  by (auto simp: event_next_def Let_def HEADER_SIZE_def split: if_splits sum.splits)

function event_replay_loop :: "files \<Rightarrow> ReplayOptions \<Rightarrow> SequenceValidator \<Rightarrow> ReplayOutcome \<Rightarrow> byte list \<Rightarrow> ReplayOutcome option" where
  "event_replay_loop fs options validator outcome bytes = (case event_next bytes of
     None \<Rightarrow> Some outcome
   | Some (frame, rest) \<Rightarrow> (case apply_frame_result fs frame validator options outcome of
       None \<Rightarrow> None
     | Some (stop, validator, outcome) \<Rightarrow>
         if stop then Some outcome else event_replay_loop fs options validator outcome rest))"
  by pat_completeness auto

termination
  by (relation "measure (\<lambda>(_, _, _, _, bytes). length bytes)") (auto dest: event_next_progress)

declare event_replay_loop.simps [simp del]

definition run_replay :: "files \<Rightarrow> string \<Rightarrow> ReplayOptions \<Rightarrow> ReplayOutcome option" where
  "run_replay fs input_path options = (case fs input_path of
     None \<Rightarrow> Some (stop_replay (''failed to open input file: '' @ input_path) new_outcome)
   | Some bytes \<Rightarrow> event_replay_loop fs options None new_outcome bytes)"

subsection \<open>The books as lists of entries\<close>

type_synonym market_entries = "InstrumentId \<Rightarrow> book_entry list"

definition manager_entries :: "BookManager \<Rightarrow> market_entries \<Rightarrow> bool" where
  "manager_entries m es \<longleftrightarrow> omap_sorted (bm_books m) \<and>
     (\<forall>i. case map_of (bm_books m) i of None \<Rightarrow> es i = [] | Some b \<Rightarrow> book_entries b (es i))"

fun event_op :: "Event \<Rightarrow> (InstrumentId \<times> book_op) option" where
  "event_op (EvAdd msg) = Some (ao_instrument_id msg, OpAdd (ao_order_id msg) (ao_price msg) (ao_quantity msg) (ao_side msg))"
| "event_op (EvCancel msg) = Some (co_instrument_id msg, OpCancel (co_order_id msg))"
| "event_op (EvModify msg) = Some (mo_instrument_id msg, OpModify (mo_order_id msg) (mo_new_price msg) (mo_new_quantity msg))"
| "event_op (EvTrade msg) = None"
| "event_op (EvClear msg) = Some (cb_instrument_id msg, OpClear)"

definition spec_event :: "Event \<Rightarrow> market_entries \<Rightarrow> market_entries" where
  "spec_event ev es = (case event_op ev of None \<Rightarrow> es | Some (i, op) \<Rightarrow> es(i := fst (spec_step op (es i))))"

lemma manager_entriesD:
  assumes "manager_entries m es"
  shows "map_of (bm_books m) i = Some b \<Longrightarrow> book_entries b (es i)" "map_of (bm_books m) i = None \<Longrightarrow> es i = []"
    "omap_sorted (bm_books m)"
proof -
  have "case map_of (bm_books m) i of None \<Rightarrow> es i = [] | Some b \<Rightarrow> book_entries b (es i)"
    using assms by (simp add: manager_entries_def)
  then show "map_of (bm_books m) i = Some b \<Longrightarrow> book_entries b (es i)" "map_of (bm_books m) i = None \<Longrightarrow> es i = []" by simp_all
  show "omap_sorted (bm_books m)" using assms by (simp add: manager_entries_def)
qed

lemma new_book_manager_entries: "manager_entries new_book_manager (\<lambda>_. [])"
  by (simp add: manager_entries_def new_book_manager_def)

lemma record_trade_entries: "manager_entries (record_trade i p q m) es \<longleftrightarrow> manager_entries m es"
  by (simp add: record_trade_def manager_entries_def Let_def)

lemma on_book_entries:
  assumes "manager_entries m es"
  shows "\<exists>m'. on_book i (ob_step op) m = Some (m', snd (spec_step op (es i))) \<and> manager_entries m' (es(i := fst (spec_step op (es i))))"
proof -
  obtain b m1 where b: "bm_book_for i m = (b, m1)" by fastforce
  have m1: "book_entries b (es i)" "omap_sorted (bm_books m1)" "j \<noteq> i \<Longrightarrow> map_of (bm_books m1) j = map_of (bm_books m) j" for j
    using b manager_entriesD [OF assms] empty_order_book_entries
    by (auto simp: bm_book_for_def omap_put_sorted omap_put_map_of split: option.splits)
  obtain b' where b': "ob_step op b = Some (b', snd (spec_step op (es i)))" "book_entries b' (fst (spec_step op (es i)))"
    using ob.step_law [OF m1(1)] by blast
  have "manager_entries (m1\<lparr>bm_books := omap_put i b' (bm_books m1)\<rparr>) (es(i := fst (spec_step op (es i))))"
    unfolding manager_entries_def
  proof (intro conjI allI)
    show "omap_sorted (bm_books (m1\<lparr>bm_books := omap_put i b' (bm_books m1)\<rparr>))" using m1(2) by (simp add: omap_put_sorted)
    show "case map_of (bm_books (m1\<lparr>bm_books := omap_put i b' (bm_books m1)\<rparr>)) j of
        None \<Rightarrow> (es(i := fst (spec_step op (es i)))) j = [] | Some b \<Rightarrow> book_entries b ((es(i := fst (spec_step op (es i)))) j)" for j
      using b'(2) m1(2,3) manager_entriesD(1,2) [OF assms, of j] by (cases "j = i") (auto simp: omap_put_map_of split: option.splits)
  qed
  then show ?thesis using b b'(1) by (simp add: on_book_def)
qed

lemma apply_event_entries:
  assumes "manager_entries m es"
  shows "\<exists>m' st'. apply_event ev m st = Some (m', st') \<and> manager_entries m' (spec_event ev es) \<and>
    rs_messages_processed st' = rs_messages_processed st \<and> rs_sequence_failures st' = rs_sequence_failures st \<and>
    rs_recoveries st' = rs_recoveries st \<and> rs_decode_failures st' = rs_decode_failures st"
proof (cases ev)
  case (EvAdd msg)
  then show ?thesis using on_book_entries [OF assms, of "ao_instrument_id msg" "OpAdd (ao_order_id msg) (ao_price msg) (ao_quantity msg) (ao_side msg)"]
    by (auto simp: spec_event_def count_error_def ob_step.simps [abs_def] Let_def simp del: spec_step.simps)
next
  case (EvCancel msg)
  then show ?thesis using on_book_entries [OF assms, of "co_instrument_id msg" "OpCancel (co_order_id msg)"]
    by (auto simp: spec_event_def count_error_def ob_step.simps [abs_def] Let_def simp del: spec_step.simps)
next
  case (EvModify msg)
  then show ?thesis using on_book_entries [OF assms, of "mo_instrument_id msg" "OpModify (mo_order_id msg) (mo_new_price msg) (mo_new_quantity msg)"]
    by (auto simp: spec_event_def count_error_def ob_step.simps [abs_def] Let_def simp del: spec_step.simps)
next
  case (EvClear msg)
  then show ?thesis using on_book_entries [OF assms, of "cb_instrument_id msg" OpClear]
    by (auto simp: spec_event_def ob_step.simps [abs_def] Let_def simp del: spec_step.simps)
qed (use assms in \<open>auto simp: spec_event_def record_trade_entries\<close>)

subsection \<open>What a book shows\<close>

definition book_shows :: "OrderBook \<Rightarrow> book_entry list \<Rightarrow> bool" where
  "book_shows b xs \<longleftrightarrow> ob_all_bids b = map entry_view (sort_key (\<lambda>e. Bid (en_price e)) (side_entries Buy xs)) \<and>
     ob_all_asks b = map entry_view (sort_key en_price (side_entries Sell xs)) \<and>
     (\<forall>n. ob_top_bids n b = take n (spec_bids xs)) \<and> (\<forall>n. ob_top_asks n b = take n (spec_asks xs))"

lemma book_entries_shows: "book_entries b xs \<Longrightarrow> book_shows b xs"
  using book_views [of b xs] by (simp add: book_shows_def ob_top_bids_def ob_top_asks_def top_loop_take)

definition manager_shows :: "BookManager \<Rightarrow> market_entries \<Rightarrow> bool" where
  "manager_shows m es \<longleftrightarrow> (\<forall>i. case find_book i m of None \<Rightarrow> es i = [] | Some b \<Rightarrow> book_shows b (es i))"

lemma manager_entries_shows: "manager_entries m es \<Longrightarrow> manager_shows m es"
  using manager_entriesD(1,2) [of m es] book_entries_shows by (auto simp: manager_shows_def find_book_def split: option.splits)

text \<open>The operations the events of one instrument ask for.\<close>

definition instrument_ops :: "InstrumentId \<Rightarrow> Event list \<Rightarrow> book_op list" where
  "instrument_ops i evs = concat (map (\<lambda>ev. case event_op ev of None \<Rightarrow> [] | Some (j, op) \<Rightarrow> if j = i then [op] else []) evs)"

lemma fold_spec_event: "fold spec_event evs es i = fst (run_spec (instrument_ops i evs) (es i))"
proof (induction evs arbitrary: es)
  case (Cons ev evs)
  then show ?case by (auto simp: spec_event_def instrument_ops_def split: option.splits prod.splits)
qed (simp add: instrument_ops_def)

lemma fold_spec_events: "fold spec_event evs es = (\<lambda>i. fst (run_spec (instrument_ops i evs) (es i)))"
  by (rule ext) (rule fold_spec_event)

subsection \<open>Reading event files\<close>

lemma event_next_frame: "event_next (event_frame ev @ rest) = Some (Inr ev, rest)"
  using md.header_of_frame [of ev rest] md.frame_by_header [of ev rest] md.decode_encode [of ev "[]"]
  by (simp add: event_next_def HEADER_SIZE_def Let_def md.encode_nonempty del: length_take)

interpretation event_file: frame_stream event_frame decode_event event_next
  by unfold_locales (simp add: event_next_def, rule event_next_frame, rule event_next_progress)

definition event_file_of :: "Event list \<Rightarrow> byte list" where
  "event_file_of events = fold (\<lambda>ev out. write_event out ev) events new_event_file"

lemma event_file_frames: "event_file_of events = concat (map event_frame events)"
proof -
  have "fold (\<lambda>ev out. write_event out ev) events out = out @ concat (map event_frame events)" for out
    by (induction events arbitrary: out) (simp_all add: write_event_def)
  then show ?thesis by (simp add: event_file_of_def new_event_file_def)
qed

fun gapless :: "SequenceValidator \<Rightarrow> Event list \<Rightarrow> bool" where
  "gapless v [] = True"
| "gapless v (ev # evs) \<longleftrightarrow> (case v of None \<Rightarrow> True | Some l \<Rightarrow> sequence_of ev = l + 1) \<and> gapless (Some (sequence_of ev)) evs"

definition after_events :: "SequenceValidator \<Rightarrow> Event list \<Rightarrow> SequenceValidator" where
  "after_events v evs = (if evs = [] then v else Some (sequence_of (last evs)))"

lemma process_event_entries:
  assumes "manager_entries (rp_books out) es"
  shows "\<exists>out'. process_event ev out = Some out' \<and> manager_entries (rp_books out') (spec_event ev es) \<and>
    rp_stopped_early out' = rp_stopped_early out \<and> rp_stop_reason out' = rp_stop_reason out \<and>
    rp_last_sequence_number out' = Some (sequence_of ev) \<and>
    rs_messages_processed (rp_stats out') = rs_messages_processed (rp_stats out) + 1 \<and>
    rs_sequence_failures (rp_stats out') = rs_sequence_failures (rp_stats out) \<and>
    rs_recoveries (rp_stats out') = rs_recoveries (rp_stats out) \<and>
    rs_decode_failures (rp_stats out') = rs_decode_failures (rp_stats out)"
  using apply_event_entries [OF assms, of ev "(rp_stats out)\<lparr>rs_messages_processed := rs_messages_processed (rp_stats out) + 1\<rparr>"]
  by (auto simp: process_event_def add_stats_def)

lemma replay_in_order:
  assumes "case v of None \<Rightarrow> True | Some l \<Rightarrow> sequence_of ev = l + 1"
  shows "event_replay_loop fs options v out (event_frame ev @ rest) =
    Option.bind (process_event ev out) (\<lambda>out'. event_replay_loop fs options (Some (sequence_of ev)) out' rest)"
  using assms
  by (subst event_replay_loop.simps)
    (auto simp: event_next_frame apply_frame_result_def sequence_check_def split: option.splits bind_splits)

lemma replay_end: "event_replay_loop fs options v out [] = Some out"
  by (subst event_replay_loop.simps) (simp add: event_next_def)

text \<open>A gapless stretch of frames is applied event by event; what follows it is read afterwards.\<close>

lemma replay_gapless:
  assumes "gapless v evs" "manager_entries (rp_books out) es"
  shows "\<exists>out'. (\<forall>fs options rest. event_replay_loop fs options v out (concat (map event_frame evs) @ rest) =
      event_replay_loop fs options (after_events v evs) out' rest) \<and>
    manager_entries (rp_books out') (fold spec_event evs es) \<and>
    rp_stopped_early out' = rp_stopped_early out \<and> rp_stop_reason out' = rp_stop_reason out \<and>
    rp_last_sequence_number out' = (if evs = [] then rp_last_sequence_number out else Some (sequence_of (last evs))) \<and>
    rs_messages_processed (rp_stats out') = rs_messages_processed (rp_stats out) + of_nat (length evs) \<and>
    rs_sequence_failures (rp_stats out') = rs_sequence_failures (rp_stats out) \<and>
    rs_recoveries (rp_stats out') = rs_recoveries (rp_stats out) \<and>
    rs_decode_failures (rp_stats out') = rs_decode_failures (rp_stats out)"
  using assms
proof (induction evs arbitrary: v out es)
  case (Cons ev evs)
  obtain out1 where out1: "process_event ev out = Some out1" "manager_entries (rp_books out1) (spec_event ev es)"
    "rp_stopped_early out1 = rp_stopped_early out" "rp_stop_reason out1 = rp_stop_reason out"
    "rp_last_sequence_number out1 = Some (sequence_of ev)"
    "rs_messages_processed (rp_stats out1) = rs_messages_processed (rp_stats out) + 1"
    "rs_sequence_failures (rp_stats out1) = rs_sequence_failures (rp_stats out)"
    "rs_recoveries (rp_stats out1) = rs_recoveries (rp_stats out)"
    "rs_decode_failures (rp_stats out1) = rs_decode_failures (rp_stats out)"
    using process_event_entries [OF Cons.prems(2), of ev] by blast
  have step: "event_replay_loop fs options v out (concat (map event_frame (ev # evs)) @ rest) =
      event_replay_loop fs options (Some (sequence_of ev)) out1 (concat (map event_frame evs) @ rest)" for fs options rest
    using replay_in_order [of ev v fs options out "concat (map event_frame evs) @ rest"] Cons.prems(1) out1(1) by simp
  have "after_events v (ev # evs) = after_events (Some (sequence_of ev)) evs" by (simp add: after_events_def)
  then show ?case using Cons.IH [OF _ out1(2), of "Some (sequence_of ev)"] Cons.prems(1) step out1(3-9)
    by (auto simp: add.commute)
qed (auto simp: after_events_def)

subsection \<open>Snapshots round trip\<close>

definition add_event :: "Sequence \<Rightarrow> InstrumentId \<Rightarrow> book_entry \<Rightarrow> Event" where
  "add_event seq i e = EvAdd \<lparr>ao_sequence_number = seq, ao_timestamp_ns = 0, ao_order_id = en_id e, ao_instrument_id = i,
     ao_price = en_price e, ao_quantity = en_quantity e, ao_side = en_side e\<rparr>"

text \<open>The order in which a snapshot lists the entries of a book.\<close>

definition snapshot_order :: "book_entry list \<Rightarrow> book_entry list" where
  "snapshot_order xs = sort_key (\<lambda>e. Bid (en_price e)) (side_entries Buy xs) @ sort_key en_price (side_entries Sell xs)"

lemma side_entries_simps [simp]:
  "side_entries s (xs @ ys) = side_entries s xs @ side_entries s ys" "set (side_entries s xs) = {e \<in> set xs. en_side e = s}"
  by (auto simp: side_entries_def)

lemma side_entries_sorted:
  "side_entries s (sort_key f (side_entries s xs)) = sort_key f (side_entries s xs)"
  "s \<noteq> s' \<Longrightarrow> side_entries s (sort_key f (side_entries s' xs)) = []"
  by (auto simp: side_entries_def filter_empty_conv filter_id_conv)

lemma spec_levels_sort: "spec_levels key pk (sort_key key xs) = spec_levels key pk xs"
  by (simp add: spec_levels_def sort_key_stable)

lemma snapshot_order_shows: "book_shows b (snapshot_order xs) \<longleftrightarrow> book_shows b xs"
proof -
  have "side_entries Buy (snapshot_order xs) = sort_key (\<lambda>e. Bid (en_price e)) (side_entries Buy xs)"
    "side_entries Sell (snapshot_order xs) = sort_key en_price (side_entries Sell xs)"
    by (simp_all add: snapshot_order_def side_entries_sorted)
  then show ?thesis
    by (simp add: book_shows_def spec_levels_sort sort_key_id_if_sorted)
qed

lemma append_side_frames:
  assumes "\<forall>e \<in> set xs. en_side e = side" "(if is_bid then ob_all_bids b else ob_all_asks b) = map entry_view xs"
  shows "append_side b i side is_bid seq (n, out) = (n + of_nat (length xs), out @ concat (map (\<lambda>e. event_frame (add_event seq i e)) xs))"
proof -
  have "fold (\<lambda>o' (entry_count, out). (entry_count + 1,
       encode_event (EvAdd \<lparr>ao_sequence_number = seq, ao_timestamp_ns = 0, ao_order_id = ov_order_id o',
         ao_instrument_id = i, ao_price = ov_price o', ao_quantity = ov_quantity o', ao_side = side\<rparr>) out)) (map entry_view xs) (n, out) =
      (n + of_nat (length xs), out @ concat (map (\<lambda>e. event_frame (add_event seq i e)) xs))"
    using assms(1)
  proof (induction xs arbitrary: n out)
    case (Cons e xs)
    have "encode_event (EvAdd \<lparr>ao_sequence_number = seq, ao_timestamp_ns = 0, ao_order_id = ov_order_id (entry_view e),
         ao_instrument_id = i, ao_price = ov_price (entry_view e), ao_quantity = ov_quantity (entry_view e), ao_side = side\<rparr>) out =
        out @ event_frame (add_event seq i e)"
      using Cons.prems by (simp only: encode_event_appends [of _ out]) (simp add: add_event_def entry_view_def)
    then show ?case using Cons.IH [of "n + 1" "out @ event_frame (add_event seq i e)"] Cons.prems
      by (simp add: add.commute del: encode_event.simps)
  qed simp
  then show ?thesis using assms(2) unfolding append_side_def Let_def by presburger
qed

definition snapshot_events :: "Sequence \<Rightarrow> market_entries \<Rightarrow> InstrumentId list \<Rightarrow> Event list" where
  "snapshot_events seq es ids = concat (map (\<lambda>i. map (add_event seq i) (snapshot_order (es i))) ids)"

lemma snapshot_entries_frames:
  assumes "manager_entries m es"
  shows "snapshot_entries seq m = (of_nat (length (snapshot_events seq es (bm_instruments m))),
    concat (map event_frame (snapshot_events seq es (bm_instruments m))))"
proof -
  have "fold (\<lambda>iid acc. case find_book iid m of
     None \<Rightarrow> acc
   | Some b \<Rightarrow> append_side b iid Sell False seq (append_side b iid Buy True seq acc)) ids (n, out) =
      (n + of_nat (length (snapshot_events seq es ids)), out @ concat (map event_frame (snapshot_events seq es ids)))" for ids n out
  proof (induction ids arbitrary: n out)
    case (Cons i ids)
    have tail: "snapshot_events seq es (i # ids) = map (add_event seq i) (snapshot_order (es i)) @ snapshot_events seq es ids"
      by (simp add: snapshot_events_def)
    show ?case
    proof (cases "find_book i m")
      case None
      then have "es i = []" using manager_entriesD(2) [OF assms] by (simp add: find_book_def)
      then have "snapshot_events seq es (i # ids) = snapshot_events seq es ids"
        unfolding tail by (simp add: snapshot_order_def side_entries_def)
      then show ?thesis using Cons None by simp
    next
      case (Some b)
      then have b: "book_shows b (es i)" using manager_entriesD(1) [OF assms] book_entries_shows by (simp add: find_book_def)
      have "append_side b i Sell False seq (append_side b i Buy True seq (n, out)) =
          (n + of_nat (length (snapshot_order (es i))), out @ concat (map event_frame (map (add_event seq i) (snapshot_order (es i)))))"
        using b append_side_frames [of "sort_key (\<lambda>e. Bid (en_price e)) (side_entries Buy (es i))" Buy True b i seq]
          append_side_frames [of "sort_key en_price (side_entries Sell (es i))" Sell False b i seq]
        by (simp add: book_shows_def snapshot_order_def comp_def del: encode_event.simps)
      then show ?thesis using Cons Some unfolding tail by (simp add: comp_def del: encode_event.simps)
    qed
  qed (simp add: snapshot_events_def)
  then show ?thesis by (simp add: snapshot_entries_def)
qed

text \<open>A stream of additions that no book refuses.\<close>

fun fresh_adds :: "Event list \<Rightarrow> market_entries \<Rightarrow> bool" where
  "fresh_adds [] es = True"
| "fresh_adds (EvAdd msg # evs) es \<longleftrightarrow>
     snd (spec_step (OpAdd (ao_order_id msg) (ao_price msg) (ao_quantity msg) (ao_side msg)) (es (ao_instrument_id msg))) = None \<and>
     fresh_adds evs (spec_event (EvAdd msg) es)"
| "fresh_adds (ev # evs) es = False"

lemma snapshot_loop_frames:
  assumes "fresh_adds evs es" "manager_entries m es"
  shows "\<exists>m'. snapshot_loop (length evs) (concat (map event_frame evs) @ rest) m = Some (Some m') \<and>
    manager_entries m' (fold spec_event evs es)"
  using assms
proof (induction evs es arbitrary: m rule: fresh_adds.induct)
  case (2 msg evs es)
  let ?f = "event_frame (EvAdd msg)" and ?op = "OpAdd (ao_order_id msg) (ao_price msg) (ao_quantity msg) (ao_side msg)"
  let ?bytes = "?f @ concat (map event_frame evs) @ rest"
  obtain m1 where m1: "on_book (ao_instrument_id msg) (ob_step ?op) m = Some (m1, None)" "manager_entries m1 (spec_event (EvAdd msg) es)"
    using on_book_entries [OF 2(3), of "ao_instrument_id msg" ?op] 2(2) by (auto simp: spec_event_def simp del: spec_step.simps)
  have "snapshot_loop (length (EvAdd msg # evs)) ?bytes m = snapshot_loop (length evs) (concat (map event_frame evs) @ rest) m1"
    using m1(1) md.header_of_frame [of "EvAdd msg" "concat (map event_frame evs) @ rest"]
      md.frame_by_header [of "EvAdd msg" "concat (map event_frame evs) @ rest"] md.decode_encode [of "EvAdd msg" "[]"]
    by (simp add: HEADER_SIZE_def Let_def header_of_def ob_step.simps [abs_def] del: encode_event.simps length_take take_append)
  then show ?case using 2(1) [OF _ m1(2)] 2(2) by (simp del: encode_event.simps)
qed auto

lemma snapshot_adds:
  assumes "distinct (map en_id xs)" "\<forall>e \<in> set xs. 0 < en_price e \<and> en_quantity e \<noteq> 0" "\<forall>e \<in> set xs. spec_find (en_id e) (es i) = None"
  shows "fresh_adds (map (add_event seq i) xs @ evs) es \<longleftrightarrow> fresh_adds evs (es(i := es i @ xs))"
    "fold spec_event (map (add_event seq i) xs) es = es(i := es i @ xs)"
proof -
  have "(fresh_adds (map (add_event seq i) xs @ evs) es \<longleftrightarrow> fresh_adds evs (es(i := es i @ xs))) \<and>
      fold spec_event (map (add_event seq i) xs) es = es(i := es i @ xs)"
    using assms
  proof (induction xs arbitrary: es)
    case (Cons e xs)
    have step: "spec_step (OpAdd (en_id e) (en_price e) (en_quantity e) (en_side e)) (es i) = (es i @ [e], None)"
      using Cons.prems(2,3) by (auto simp: not_le)
    then have ev: "spec_event (add_event seq i e) es = es(i := es i @ [e])" by (simp add: spec_event_def add_event_def)
    define f where "f = es(i := es i @ [e])"
    have f: "f i = es i @ [e]" "f(i := f i @ xs) = es(i := es i @ e # xs)" by (simp_all add: f_def)
    have "\<forall>e' \<in> set xs. spec_find (en_id e') (f i) = None"
      using Cons.prems(1,3) by (auto simp: f spec_find_def find_None_iff)
    then have IH: "(fresh_adds (map (add_event seq i) xs @ evs) f \<longleftrightarrow> fresh_adds evs (es(i := es i @ e # xs))) \<and>
        fold spec_event (map (add_event seq i) xs) f = es(i := es i @ e # xs)"
      using Cons.IH [of f] Cons.prems(1,2) unfolding f(2) by (simp add: fun_upd_def)
    have "fresh_adds (add_event seq i e # map (add_event seq i) xs @ evs) es \<longleftrightarrow> fresh_adds (map (add_event seq i) xs @ evs) f"
      using step ev unfolding f_def by (simp add: add_event_def [of seq i e] del: spec_step.simps)
    then show ?case using IH ev by (simp add: f_def fun_upd_def)
  qed (simp add: fun_upd_idem)
  then show "fresh_adds (map (add_event seq i) xs @ evs) es \<longleftrightarrow> fresh_adds evs (es(i := es i @ xs))"
    "fold spec_event (map (add_event seq i) xs) es = es(i := es i @ xs)" by blast+
qed

lemma book_entries_valid:
  assumes "book_entries b xs"
  shows "distinct (map en_id xs)" "e \<in> set xs \<Longrightarrow> 0 < en_price e \<and> en_quantity e \<noteq> 0"
  using assms by (auto simp: book_entries_def ob_rep_def comp_def)

lemma snapshot_order_mset: "mset (snapshot_order xs) = mset xs"
proof -
  have "en_side e = Buy \<longleftrightarrow> en_side e \<noteq> Sell" for e by (cases "en_side e") auto
  then have "filter_mset (\<lambda>e. en_side e = Buy) (mset xs) + filter_mset (\<lambda>e. en_side e = Sell) (mset xs) = mset xs"
    by (intro union_filter_mset_complement) blast
  then show ?thesis by (simp add: snapshot_order_def side_entries_def)
qed

lemma manager_shows_snapshot: "manager_shows m (\<lambda>i. snapshot_order (es i)) \<longleftrightarrow> manager_shows m es"
proof -
  have "snapshot_order xs = [] \<longleftrightarrow> xs = []" for xs using snapshot_order_mset by (metis mset_zero_iff)
  then show ?thesis by (simp add: manager_shows_def snapshot_order_shows cong: option.case_cong)
qed

lemma snapshot_order_valid:
  assumes "manager_entries m es"
  shows "distinct (map en_id (snapshot_order (es i)))" "\<forall>e \<in> set (snapshot_order (es i)). 0 < en_price e \<and> en_quantity e \<noteq> 0"
proof -
  have v: "distinct (map en_id (es i))" "\<forall>e \<in> set (es i). 0 < en_price e \<and> en_quantity e \<noteq> 0"
    using manager_entriesD(1,2) [OF assms, of i] book_entries_valid by (cases "map_of (bm_books m) i"; auto)+
  have "mset (snapshot_order (es i)) = mset (es i)" by (rule snapshot_order_mset)
  then have "mset (map en_id (snapshot_order (es i))) = mset (map en_id (es i))" "set (snapshot_order (es i)) = set (es i)"
    by (simp, metis set_mset_mset)
  then show "distinct (map en_id (snapshot_order (es i)))" "\<forall>e \<in> set (snapshot_order (es i)). 0 < en_price e \<and> en_quantity e \<noteq> 0"
    using v mset_eq_imp_distinct_iff by blast+
qed

lemma snapshot_events_fresh:
  assumes "manager_entries m es" "distinct ids" "\<forall>i \<in> set ids. fs i = []"
  shows "fresh_adds (snapshot_events seq es ids) fs \<and>
    fold spec_event (snapshot_events seq es ids) fs = (\<lambda>i. if i \<in> set ids then snapshot_order (es i) else fs i)"
  using assms(2,3)
proof (induction ids arbitrary: fs)
  case (Cons i ids)
  note v = snapshot_order_valid [OF assms(1), of i]
  have none: "\<forall>e \<in> set (snapshot_order (es i)). spec_find (en_id e) (fs i) = None" using Cons.prems by (simp add: spec_find_def)
  note add = snapshot_adds [where es = fs and i = i, OF v none]
  define f where "f = fs(i := fs i @ snapshot_order (es i))"
  have f: "f i = snapshot_order (es i)" "\<forall>j. j \<noteq> i \<longrightarrow> f j = fs j" using Cons.prems by (simp_all add: f_def)
  have rest: "\<forall>j \<in> set ids. f j = []" using Cons.prems f by force
  have tail: "snapshot_events seq es (i # ids) = map (add_event seq i) (snapshot_order (es i)) @ snapshot_events seq es ids"
    by (simp add: snapshot_events_def)
  show ?case unfolding tail fold_append comp_apply add f_def [symmetric]
    using Cons.IH [OF _ rest] Cons.prems f by (auto simp: fun_eq_iff)
qed (auto simp: snapshot_events_def)

lemma snapshot_instruments:
  assumes "manager_entries m es"
  shows "distinct (bm_instruments m)" "i \<notin> set (bm_instruments m) \<Longrightarrow> es i = []"
proof -
  show "distinct (bm_instruments m)" by (simp add: bm_instruments_def)
  assume "i \<notin> set (bm_instruments m)"
  then have "map_of (bm_books m) i = None" by (auto simp: bm_instruments_def map_of_eq_None_iff)
  then show "es i = []" using manager_entriesD(2) [OF assms] by blast
qed

lemma read_written_snapshot:
  assumes "manager_entries m es" "length (snapshot_events seq es (bm_instruments m)) < 2 ^ 64"
  shows "\<exists>m'. read_snapshot (fst (write_snapshot True path seq m fs)) path = Some (Some \<lparr>sl_sequence_number = seq, sl_books = m'\<rparr>) \<and>
    manager_entries m' (\<lambda>i. snapshot_order (es i))"
proof -
  let ?evs = "snapshot_events seq es (bm_instruments m)"
  have fresh: "fresh_adds ?evs (\<lambda>_. [])" and
    eq: "fold spec_event ?evs (\<lambda>_. []) = (\<lambda>i. if i \<in> set (bm_instruments m) then snapshot_order (es i) else [])"
    using snapshot_events_fresh [OF assms(1) snapshot_instruments(1) [OF assms(1)], of "\<lambda>_. []" seq] by auto
  have "snapshot_order (es i) = []" if "i \<notin> set (bm_instruments m)" for i
    using snapshot_instruments(2) [OF assms(1) that] by (simp add: snapshot_order_def side_entries_def)
  then have es': "fold spec_event ?evs (\<lambda>_. []) = (\<lambda>i. snapshot_order (es i))" unfolding eq by auto
  obtain m' where m': "snapshot_loop (length ?evs) (concat (map event_frame ?evs) @ []) new_book_manager = Some (Some m')"
    "manager_entries m' (\<lambda>i. snapshot_order (es i))"
    using snapshot_loop_frames [OF fresh new_book_manager_entries, of "[]"] es' by auto
  have n: "unat (of_nat (length ?evs) :: u64) = length ?evs" using assms(2) by (simp add: unat_of_nat)
  have "read_snapshot (fst (write_snapshot True path seq m fs)) path =
      map_option (map_option (\<lambda>books. \<lparr>sl_sequence_number = seq, sl_books = books\<rparr>))
        (snapshot_loop (unat (of_nat (length ?evs) :: u64)) (concat (map event_frame ?evs)) new_book_manager)"
    by (simp add: read_snapshot_def write_snapshot_def snapshot_entries_frames [OF assms(1)] SNAPSHOT_HEADER_SIZE_def wire_simps
        del: encode_event.simps)
  then show ?thesis using m' n by simp
qed

text \<open>At most as many entries as events.\<close>

lemma spec_step_length: "length (fst (spec_step op xs)) \<le> Suc (length xs)"
  by (cases op) (auto simp: spec_remove_def split: option.splits intro: le_SucI order_trans [OF length_filter_le])

fun apply_events :: "Event list \<Rightarrow> BookManager \<Rightarrow> ReplayStats \<Rightarrow> (BookManager \<times> ReplayStats) option" where
  "apply_events [] m st = Some (m, st)"
| "apply_events (ev # evs) m st = do { (m1, st1) \<leftarrow> apply_event ev m st; apply_events evs m1 st1 }"

lemma apply_events_entries:
  "manager_entries m es \<Longrightarrow> \<exists>m' st'. apply_events evs m st = Some (m', st') \<and> manager_entries m' (fold spec_event evs es)"
proof (induction evs arbitrary: m es st)
  case (Cons ev evs)
  obtain m1 st1 where "apply_event ev m st = Some (m1, st1)" "manager_entries m1 (spec_event ev es)"
    using apply_event_entries [OF Cons.prems] by blast
  then show ?case using Cons.IH [of m1 "spec_event ev es" st1] by auto
qed auto

definition total_entries :: "InstrumentId set \<Rightarrow> market_entries \<Rightarrow> nat" where
  "total_entries I es = (\<Sum>i \<in> I. length (es i))"

lemma total_entries_event: "finite I \<Longrightarrow> total_entries I (spec_event ev es) \<le> Suc (total_entries I es)"
proof (cases "event_op ev")
  case (Some p)
  then obtain i op where p: "event_op ev = Some (i, op)" by (cases p) auto
  assume I: "finite I"
  show ?thesis
  proof (cases "i \<in> I")
    case True
    have "total_entries I (spec_event ev es) = length (fst (spec_step op (es i))) + (\<Sum>j \<in> I - {i}. length (es j))"
      using I True p by (simp add: total_entries_def spec_event_def sum.remove)
    also have "\<dots> \<le> Suc (length (es i)) + (\<Sum>j \<in> I - {i}. length (es j))" using spec_step_length by simp
    also have "\<dots> = Suc (total_entries I es)" using I True by (simp add: total_entries_def sum.remove)
    finally show ?thesis .
  next
    case False
    then have "total_entries I (spec_event ev es) = total_entries I es"
      using p by (auto simp: total_entries_def spec_event_def intro!: sum.cong)
    then show ?thesis by simp
  qed
qed (simp add: spec_event_def)

lemma total_entries_events: "finite I \<Longrightarrow> total_entries I (fold spec_event evs es) \<le> total_entries I es + length evs"
proof (induction evs arbitrary: es)
  case (Cons ev evs)
  have "total_entries I (fold spec_event evs (spec_event ev es)) \<le> total_entries I (spec_event ev es) + length evs"
    by (rule Cons.IH [OF Cons.prems])
  then show ?case using total_entries_event [OF Cons.prems, of ev es] by simp
qed simp

lemma snapshot_events_length: "distinct ids \<Longrightarrow> length (snapshot_events seq es ids) \<le> total_entries (set ids) es"
proof (induction ids)
  case (Cons i ids)
  have "length (snapshot_order (es i)) = length (es i)" using snapshot_order_mset by (metis size_mset)
  then show ?case using Cons by (simp add: snapshot_events_def total_entries_def)
qed (simp add: snapshot_events_def total_entries_def)

lemma events_manager:
  assumes "apply_events events new_book_manager new_replay_stats = Some (m, st)"
  shows "manager_entries m (fold spec_event events (\<lambda>_. []))"
  using apply_events_entries [OF new_book_manager_entries, of events new_replay_stats] assms by auto

lemma read_snapshot_of_events:
  assumes "length events < 2 ^ 64" "apply_events events new_book_manager new_replay_stats = Some (m, st)"
  shows "\<exists>m'. read_snapshot (fst (write_snapshot True path seq m fs)) path = Some (Some \<lparr>sl_sequence_number = seq, sl_books = m'\<rparr>) \<and>
    manager_entries m' (\<lambda>i. snapshot_order (fst (run_spec (instrument_ops i events) [])))"
proof -
  let ?es = "fold spec_event events (\<lambda>_. [])"
  note m = events_manager [OF assms(2)]
  have "length (snapshot_events seq ?es (bm_instruments m)) \<le> length events"
    using snapshot_events_length [OF snapshot_instruments(1) [OF m], of seq ?es]
      total_entries_events [of "set (bm_instruments m)" events "\<lambda>_. []"] by (simp add: total_entries_def)
  then show ?thesis using read_written_snapshot [OF m, of seq path fs] assms(1) by (auto simp: fold_spec_events)
qed

lemma read_snapshot_cong: "fs path = fs' path \<Longrightarrow> read_snapshot fs path = read_snapshot fs' path"
  by (simp add: read_snapshot_def)

subsection \<open>Properties\<close>

text \<open>
  C31. Replaying an event file rebuilds the books. For every list of events with consecutive sequence
  numbers, the file the writer produces for them replays to its end, whatever the options: nothing
  stops early, every event is counted as processed, no error of decoding or sequence is counted, and
  the book of each instrument shows exactly what the instrument's own operations build from nothing.
\<close>

theorem replay_rebuilds_books:
  assumes "gapless None events" "fs path = Some (event_file_of events)"
  shows "\<exists>out. run_replay fs path options = Some out \<and> \<not> rp_stopped_early out \<and>
    rs_messages_processed (rp_stats out) = of_nat (length events) \<and> rs_decode_failures (rp_stats out) = 0 \<and>
    rs_sequence_failures (rp_stats out) = 0 \<and> rs_recoveries (rp_stats out) = 0 \<and>
    rp_last_sequence_number out = (if events = [] then None else Some (sequence_of (last events))) \<and>
    manager_shows (rp_books out) (\<lambda>i. fst (run_spec (instrument_ops i events) []))"
proof -
  have start: "manager_entries (rp_books new_outcome) (\<lambda>_. [])" by (simp add: new_outcome_def new_book_manager_entries)
  obtain out where out: "\<forall>fs options rest. event_replay_loop fs options None new_outcome (concat (map event_frame events) @ rest) =
      event_replay_loop fs options (after_events None events) out rest"
    "manager_entries (rp_books out) (fold spec_event events (\<lambda>_. []))" "rp_stopped_early out = rp_stopped_early new_outcome"
    "rp_last_sequence_number out = (if events = [] then rp_last_sequence_number new_outcome else Some (sequence_of (last events)))"
    "rs_messages_processed (rp_stats out) = rs_messages_processed (rp_stats new_outcome) + of_nat (length events)"
    "rs_sequence_failures (rp_stats out) = rs_sequence_failures (rp_stats new_outcome)"
    "rs_recoveries (rp_stats out) = rs_recoveries (rp_stats new_outcome)"
    "rs_decode_failures (rp_stats out) = rs_decode_failures (rp_stats new_outcome)"
    using replay_gapless [OF assms(1) start] by blast
  have "run_replay fs path options = Some out"
    using out(1) [rule_format, of fs options "[]"] by (simp add: run_replay_def assms(2) event_file_frames replay_end)
  moreover have "manager_shows (rp_books out) (\<lambda>i. fst (run_spec (instrument_ops i events) []))"
    using manager_entries_shows [OF out(2)] by (simp add: fold_spec_events)
  ultimately show ?thesis using out(3-8) by (auto simp: new_outcome_def new_replay_stats_def)
qed

text \<open>A sample stream and what replaying it gives.\<close>

definition sample_events :: "Event list" where
  "sample_events =
    [EvAdd \<lparr>ao_sequence_number = 7, ao_timestamp_ns = 1, ao_order_id = 11, ao_instrument_id = 3, ao_price = 100, ao_quantity = 5, ao_side = Buy\<rparr>,
     EvAdd \<lparr>ao_sequence_number = 8, ao_timestamp_ns = 2, ao_order_id = 12, ao_instrument_id = 3, ao_price = 101, ao_quantity = 4, ao_side = Buy\<rparr>,
     EvModify \<lparr>mo_sequence_number = 9, mo_timestamp_ns = 3, mo_order_id = 11, mo_instrument_id = 3, mo_new_price = 101, mo_new_quantity = 6\<rparr>,
     EvCancel \<lparr>co_sequence_number = 10, co_timestamp_ns = 4, co_order_id = 12, co_instrument_id = 3\<rparr>]"

lemma sample_gapless: "gapless None sample_events"
  by (simp add: sample_events_def sequence_of_def)

lemma sample_positive: "\<not> (100 :: i64) \<le> 0" "\<not> (101 :: i64) \<le> 0"
  by (simp_all add: less_eq_i64_def ival_def zero_i64_def i64_bits_numeral)

lemma sample_entries:
  "fst (run_spec (instrument_ops 3 sample_events) []) = [\<lparr>en_id = 11, en_side = Buy, en_price = 101, en_quantity = 6\<rparr>]"
  using sample_positive by (simp add: instrument_ops_def sample_events_def spec_find_def spec_remove_def)

lemma sample_book:
  assumes "manager_shows m (\<lambda>i. fst (run_spec (instrument_ops i sample_events) []))"
  shows "\<exists>b. find_book 3 m = Some b \<and> ob_all_bids b = [\<lparr>ov_order_id = 11, ov_price = 101, ov_quantity = 6\<rparr>]"
proof -
  have "case find_book 3 m of None \<Rightarrow> False
      | Some b \<Rightarrow> book_shows b [\<lparr>en_id = 11, en_side = Buy, en_price = 101, en_quantity = 6\<rparr>]"
    using assms [unfolded manager_shows_def, rule_format, of 3] sample_entries by (auto split: option.splits)
  then show ?thesis by (auto simp: book_shows_def side_entries_def entry_view_def split: option.splits)
qed

lemma replay_rebuilds_books_witness:
  "gapless None sample_events \<and>
   (\<exists>out b. run_replay [''day.bin'' \<mapsto> event_file_of sample_events] ''day.bin''
       \<lparr>rp_stop_on_sequence_error = True, rp_stop_on_decode_error = True, rp_recovery_snapshot_path = None\<rparr> = Some out \<and>
     rs_messages_processed (rp_stats out) = 4 \<and> find_book 3 (rp_books out) = Some b \<and>
     ob_all_bids b = [\<lparr>ov_order_id = 11, ov_price = 101, ov_quantity = 6\<rparr>])"
proof -
  let ?fs = "[''day.bin'' \<mapsto> event_file_of sample_events]"
  let ?o = "\<lparr>rp_stop_on_sequence_error = True, rp_stop_on_decode_error = True, rp_recovery_snapshot_path = None\<rparr>"
  have "?fs ''day.bin'' = Some (event_file_of sample_events)" by simp
  from replay_rebuilds_books [of sample_events ?fs "''day.bin''" ?o, OF sample_gapless this] obtain out where out: "run_replay ?fs ''day.bin'' ?o = Some out"
    "rs_messages_processed (rp_stats out) = of_nat (length sample_events)"
    "manager_shows (rp_books out) (\<lambda>i. fst (run_spec (instrument_ops i sample_events) []))" by blast
  have "rs_messages_processed (rp_stats out) = 4" using out(2) by (simp add: sample_events_def)
  then show ?thesis using sample_gapless out(1) sample_book [OF out(3)] by blast
qed

text \<open>
  With the default policy, replay stops at the first event whose sequence number does not follow:
  if the gapless events \<open>pre\<close> (at least one) are followed by such an event, and it is not a gap a recovery
  snapshot is configured for, the outcome is the one of \<open>pre\<close> alone, books included, except that it is marked
  as stopped early with the description of the fault and one sequence failure; neither that event nor
  anything after it is applied.
\<close>

theorem replay_stops_at_sequence_error:
  assumes "gapless None pre" "pre \<noteq> []" "sequence_check (Some (sequence_of (last pre))) (sequence_of ev) = (v, check)"
    "sc_outcome check \<noteq> InOrder" "rp_stop_on_sequence_error options"
    "sc_outcome check = Missing \<longrightarrow> rp_recovery_snapshot_path options = None"
  shows "\<exists>out. run_replay [path \<mapsto> event_file_of pre] path options = Some out \<and>
    run_replay [path \<mapsto> event_file_of (pre @ ev # post)] path options =
      Some (stop_replay (describe_sequence_error check) (add_stats (\<lambda>s. s\<lparr>rs_sequence_failures := rs_sequence_failures s + 1\<rparr>) out))"
proof -
  have start: "manager_entries (rp_books new_outcome) (\<lambda>_. [])" by (simp add: new_outcome_def new_book_manager_entries)
  have none: "(if sc_outcome check = Missing then rp_recovery_snapshot_path options else None) = None" using assms(6) by simp
  have after: "after_events None pre = Some (sequence_of (last pre))" using assms(2) by (simp add: after_events_def)
  obtain out where out: "\<forall>fs options rest. event_replay_loop fs options None new_outcome (concat (map event_frame pre) @ rest) =
      event_replay_loop fs options (Some (sequence_of (last pre))) out rest"
    using replay_gapless [OF assms(1) start] unfolding after by blast
  have "event_replay_loop fs options (Some (sequence_of (last pre))) out (event_frame ev @ rest) =
      Some (stop_replay (describe_sequence_error check) (add_stats (\<lambda>s. s\<lparr>rs_sequence_failures := rs_sequence_failures s + 1\<rparr>) out))" for fs rest
    using assms(3-5) none
    by (subst event_replay_loop.simps) (auto simp: event_next_frame apply_frame_result_def Let_def split: option.splits)
  moreover have "event_replay_loop fs options None new_outcome (concat (map event_frame pre)) = Some out" for fs
    using out [rule_format, of fs options "[]"] by (simp add: replay_end)
  ultimately show ?thesis using out by (intro exI [of _ out]) (simp add: run_replay_def event_file_frames)
qed

lemma replay_stops_at_sequence_error_witness:
  "\<exists>out. run_replay [''day.bin'' \<mapsto> event_file_of (take 2 sample_events)] ''day.bin''
       \<lparr>rp_stop_on_sequence_error = True, rp_stop_on_decode_error = True, rp_recovery_snapshot_path = None\<rparr> = Some out \<and>
     run_replay [''day.bin'' \<mapsto> event_file_of (take 2 sample_events @ drop 3 sample_events)] ''day.bin''
       \<lparr>rp_stop_on_sequence_error = True, rp_stop_on_decode_error = True, rp_recovery_snapshot_path = None\<rparr> =
       Some (stop_replay ''missing sequence(s) [9..9]'' (add_stats (\<lambda>s. s\<lparr>rs_sequence_failures := rs_sequence_failures s + 1\<rparr>) out))"
proof -
  let ?o = "\<lparr>rp_stop_on_sequence_error = True, rp_stop_on_decode_error = True, rp_recovery_snapshot_path = None\<rparr>"
  let ?c = "\<lparr>sc_outcome = Missing, sc_observed = 10, sc_expected = 9\<rparr>"
  have "gapless None (take 2 sample_events)" "take 2 sample_events \<noteq> []" by (simp_all add: sample_events_def sequence_of_def)
  moreover have "sequence_check (Some (sequence_of (last (take 2 sample_events)))) (sequence_of (sample_events ! 3)) = (Some 10, ?c)"
    by (simp add: sample_events_def sequence_of_def sequence_check_def numeral_3_eq_3)
  moreover have "describe_sequence_error ?c = ''missing sequence(s) [9..9]''"
    by (simp add: describe_sequence_error_def decimal_def decimal_nat.simps char_of_def bit_0)
  moreover have "take 2 sample_events @ drop 3 sample_events = take 2 sample_events @ sample_events ! 3 # []"
    by (simp add: sample_events_def)
  ultimately show ?thesis
    using replay_stops_at_sequence_error [of "take 2 sample_events" "sample_events ! 3" "Some 10" ?c ?o "''day.bin''" "[]"] by simp
qed

text \<open>
  A snapshot read back shows the same books. For the books any list of fewer than \<open>2 ^ 64\<close> events
  builds, writing a snapshot and reading it succeeds, returns the sequence number it was tagged with,
  and every instrument's book shows the same orders in the same priority and the same levels.
\<close>

theorem snapshot_roundtrip:
  assumes "length events < 2 ^ 64" "apply_events events new_book_manager new_replay_stats = Some (m, st)"
  shows "\<exists>m'. read_snapshot (fst (write_snapshot True path seq m fs)) path =
      Some (Some \<lparr>sl_sequence_number = seq, sl_books = m'\<rparr>) \<and>
    manager_shows m (\<lambda>i. fst (run_spec (instrument_ops i events) [])) \<and>
    manager_shows m' (\<lambda>i. fst (run_spec (instrument_ops i events) []))"
proof -
  have "manager_shows m (\<lambda>i. fst (run_spec (instrument_ops i events) []))"
    using manager_entries_shows [OF events_manager [OF assms(2)]] by (simp add: fold_spec_events)
  then show ?thesis using read_snapshot_of_events [OF assms, of path seq fs] manager_entries_shows manager_shows_snapshot by blast
qed

lemma snapshot_roundtrip_witness:
  "\<exists>m st m' b. apply_events sample_events new_book_manager new_replay_stats = Some (m, st) \<and>
     read_snapshot (fst (write_snapshot True ''snap.bin'' 10 m Map.empty)) ''snap.bin'' =
       Some (Some \<lparr>sl_sequence_number = 10, sl_books = m'\<rparr>) \<and>
     find_book 3 m' = Some b \<and> ob_all_bids b = [\<lparr>ov_order_id = 11, ov_price = 101, ov_quantity = 6\<rparr>]"
proof -
  obtain m st where m: "apply_events sample_events new_book_manager new_replay_stats = Some (m, st)"
    using apply_events_entries [OF new_book_manager_entries] by blast
  have n: "length sample_events < 2 ^ 64" by (simp add: sample_events_def)
  obtain m' where m': "read_snapshot (fst (write_snapshot True ''snap.bin'' 10 m Map.empty)) ''snap.bin'' =
      Some (Some \<lparr>sl_sequence_number = 10, sl_books = m'\<rparr>)"
    "manager_shows m' (\<lambda>i. fst (run_spec (instrument_ops i sample_events) []))"
    using snapshot_roundtrip [OF n m, of "''snap.bin''" 10 Map.empty] by blast
  obtain b where b: "find_book 3 m' = Some b" "ob_all_bids b = [\<lparr>ov_order_id = 11, ov_price = 101, ov_quantity = 6\<rparr>]"
    using m'(2) sample_book by blast
  show ?thesis using m m'(1) b by blast
qed

text \<open>
  Recovery from a gap. When a snapshot is configured and the file holds the gapless events \<open>pre\<close>, then a
  jump in the sequence numbers, then the gapless events \<open>ev # post\<close>, replay reads to the end: the books are
  replaced by those of the snapshot (here of the events \<open>old\<close>) and built on by \<open>ev\<close> and everything after it,
  one sequence failure and one recovery are counted, and nothing of the events before the jump is left
  in the books.
\<close>

theorem gap_recovery_resumes_from_snapshot:
  assumes "gapless None pre" "pre \<noteq> []"
    "sc_outcome (snd (sequence_check (Some (sequence_of (last pre))) (sequence_of ev))) = Missing"
    "gapless (Some (sequence_of ev)) post" "rp_recovery_snapshot_path options = Some snap"
    "length old < 2 ^ 64" "apply_events old new_book_manager new_replay_stats = Some (m, st)"
    "fs snap = fst (write_snapshot True snap seq m Map.empty) snap" "fs path = Some (event_file_of (pre @ ev # post))"
  shows "\<exists>out. run_replay fs path options = Some out \<and> \<not> rp_stopped_early out \<and>
    rs_sequence_failures (rp_stats out) = 1 \<and> rs_recoveries (rp_stats out) = 1 \<and>
    rs_messages_processed (rp_stats out) = of_nat (length pre + 1 + length post) \<and>
    manager_shows (rp_books out) (\<lambda>i. fst (run_spec (instrument_ops i (ev # post))
      (snapshot_order (fst (run_spec (instrument_ops i old) [])))))"
proof -
  have start: "manager_entries (rp_books new_outcome) (\<lambda>_. [])" by (simp add: new_outcome_def new_book_manager_entries)
  have after: "after_events None pre = Some (sequence_of (last pre))" using assms(2) by (simp add: after_events_def)
  let ?es = "\<lambda>i. snapshot_order (fst (run_spec (instrument_ops i old) []))"
  obtain m' where m': "read_snapshot fs snap = Some (Some \<lparr>sl_sequence_number = seq, sl_books = m'\<rparr>)" "manager_entries m' ?es"
    using read_snapshot_of_events [OF assms(6,7), of snap seq Map.empty] read_snapshot_cong [of fs snap "fst (write_snapshot True snap seq m Map.empty)", OF assms(8)] by auto
  obtain out1 where out1: "\<forall>fs options rest. event_replay_loop fs options None new_outcome (concat (map event_frame pre) @ rest) =
      event_replay_loop fs options (Some (sequence_of (last pre))) out1 rest" "rp_stopped_early out1 = False"
    "rs_messages_processed (rp_stats out1) = of_nat (length pre)" "rs_sequence_failures (rp_stats out1) = 0" "rs_recoveries (rp_stats out1) = 0"
    using replay_gapless [OF assms(1) start] unfolding after by (auto simp: new_outcome_def new_replay_stats_def)
  let ?out = "add_stats (\<lambda>s. s\<lparr>rs_recoveries := rs_recoveries s + 1\<rparr>)
    ((add_stats (\<lambda>s. s\<lparr>rs_sequence_failures := rs_sequence_failures s + 1\<rparr>) out1)\<lparr>rp_books := m'\<rparr>)"
  have "manager_entries (rp_books ?out) ?es" using m'(2) by (simp add: add_stats_def)
  then obtain out2 where out2: "process_event ev ?out = Some out2" "manager_entries (rp_books out2) (spec_event ev ?es)"
    "rp_stopped_early out2 = False" "rs_messages_processed (rp_stats out2) = of_nat (length pre) + 1"
    "rs_sequence_failures (rp_stats out2) = 1" "rs_recoveries (rp_stats out2) = 1"
    using process_event_entries [of ?out ?es ev] out1(2-5) by (auto simp: add_stats_def)
  have step: "event_replay_loop fs options (Some (sequence_of (last pre))) out1 (event_frame ev @ rest) =
      event_replay_loop fs options (Some (sequence_of ev)) out2 rest" for rest
    using assms(3,5) m'(1) out2(1)
    by (subst event_replay_loop.simps)
      (auto simp: event_next_frame apply_frame_result_def Let_def sequence_reset_def split: prod.splits)
  obtain out where out: "\<forall>fs options rest. event_replay_loop fs options (Some (sequence_of ev)) out2 (concat (map event_frame post) @ rest) =
      event_replay_loop fs options (after_events (Some (sequence_of ev)) post) out rest"
    "manager_entries (rp_books out) (fold spec_event post (spec_event ev ?es))" "rp_stopped_early out = False"
    "rs_messages_processed (rp_stats out) = of_nat (length pre) + 1 + of_nat (length post)"
    "rs_sequence_failures (rp_stats out) = 1" "rs_recoveries (rp_stats out) = 1"
    using replay_gapless [OF assms(4) out2(2)] out2(3-6) by auto
  have "run_replay fs path options = Some out"
    using out1(1) [rule_format, of fs options "event_frame ev @ concat (map event_frame post)"]
      step [of "concat (map event_frame post)"] out(1) [rule_format, of fs options "[]"]
    by (simp add: run_replay_def assms(9) event_file_frames replay_end del: encode_event.simps)
  moreover have "manager_shows (rp_books out) (\<lambda>i. fst (run_spec (instrument_ops i (ev # post)) (?es i)))"
    using manager_entries_shows [OF out(2)] fold_spec_events [of "ev # post" ?es] by simp
  ultimately show ?thesis using out(3-6) by (simp add: add.assoc add.commute add.left_commute)
qed

lemma gap_recovery_resumes_from_snapshot_witness:
  "\<exists>m st fs out. apply_events (take 2 sample_events) new_book_manager new_replay_stats = Some (m, st) \<and>
     fs ''snap.bin'' = fst (write_snapshot True ''snap.bin'' 8 m Map.empty) ''snap.bin'' \<and>
     fs ''day.bin'' = Some (event_file_of (take 1 sample_events @ sample_events ! 3 # [])) \<and>
     run_replay fs ''day.bin'' \<lparr>rp_stop_on_sequence_error = True, rp_stop_on_decode_error = True,
       rp_recovery_snapshot_path = Some ''snap.bin''\<rparr> = Some out \<and> rs_recoveries (rp_stats out) = 1"
proof -
  let ?o = "\<lparr>rp_stop_on_sequence_error = True, rp_stop_on_decode_error = True, rp_recovery_snapshot_path = Some ''snap.bin''\<rparr>"
  obtain m st where m: "apply_events (take 2 sample_events) new_book_manager new_replay_stats = Some (m, st)"
    using apply_events_entries [OF new_book_manager_entries] by blast
  let ?fs = "(fst (write_snapshot True ''snap.bin'' 8 m Map.empty))(''day.bin'' \<mapsto> event_file_of (take 1 sample_events @ sample_events ! 3 # []))"
  have "gapless None (take 1 sample_events)" "take 1 sample_events \<noteq> []" "length (take 2 sample_events) < 2 ^ 64"
    "gapless (Some (sequence_of (sample_events ! 3))) []"
    by (simp_all add: sample_events_def)
  moreover have "sc_outcome (snd (sequence_check (Some (sequence_of (last (take 1 sample_events)))) (sequence_of (sample_events ! 3)))) = Missing"
    by (simp add: sample_events_def sequence_of_def sequence_check_def numeral_3_eq_3)
  moreover have "?fs ''snap.bin'' = fst (write_snapshot True ''snap.bin'' 8 m Map.empty) ''snap.bin''"
    "?fs ''day.bin'' = Some (event_file_of (take 1 sample_events @ sample_events ! 3 # []))"
    "rp_recovery_snapshot_path ?o = Some ''snap.bin''" by simp_all
  ultimately show ?thesis
    using gap_recovery_resumes_from_snapshot [of "take 1 sample_events" "sample_events ! 3" "[]" ?o "''snap.bin''" "take 2 sample_events" m st ?fs 8 "''day.bin''"] m
    by (intro exI [of _ m] exI [of _ st] exI [of _ ?fs]) blast
qed

end
