(* ===== verification/Market_Data_Feed.thy ===== *)
theory Market_Data_Feed
  imports Engine_Determinism Market_Data_Replay
begin

text \<open>
  The market-data publisher (\<open>exchange/market_data/market_data_publisher.cpp\<close>) and the composition of
  the exchange with a subscriber: the feed published for a run of the matching engine rebuilds, in the
  subscriber's books, the price levels of the exchange.
\<close>

subsection \<open>The publisher\<close>

text \<open>
  The clock is a parameter: \<open>clock n\<close> is the reading taken for the message numbered \<open>n\<close>. The sink receives the
  returned message, if there is one.
\<close>

record MarketDataPublisher =
  mp_next_sequence :: Sequence

definition new_publisher :: MarketDataPublisher where
  "new_publisher = \<lparr>mp_next_sequence = 1\<rparr>"

definition next_sequence_number :: "MarketDataPublisher \<Rightarrow> Sequence \<times> MarketDataPublisher" where
  "next_sequence_number pub = (mp_next_sequence pub, pub\<lparr>mp_next_sequence := mp_next_sequence pub + 1\<rparr>)"

definition publish_book_order_added ::
  "(Sequence \<Rightarrow> Timestamp) \<Rightarrow> BookOrderAddedEvent \<Rightarrow> MarketDataPublisher \<Rightarrow> MarketDataPublisher \<times> Event option" where
  "publish_book_order_added clock event pub = (let (n, pub) = next_sequence_number pub in
     (pub, Some (EvAdd \<lparr>ao_sequence_number = n, ao_timestamp_ns = clock n, ao_order_id = ba_exchange_order_id event,
       ao_instrument_id = ba_instrument_id event, ao_price = ba_price event, ao_quantity = ba_quantity event, ao_side = ba_side event\<rparr>)))"

definition publish_book_order_reduced ::
  "(Sequence \<Rightarrow> Timestamp) \<Rightarrow> BookOrderReducedEvent \<Rightarrow> MarketDataPublisher \<Rightarrow> MarketDataPublisher \<times> Event option" where
  "publish_book_order_reduced clock event pub = (let (n, pub) = next_sequence_number pub in
     (pub, Some (EvModify \<lparr>mo_sequence_number = n, mo_timestamp_ns = clock n, mo_order_id = bd_exchange_order_id event,
       mo_instrument_id = bd_instrument_id event, mo_new_price = bd_price event, mo_new_quantity = bd_new_remaining_quantity event\<rparr>)))"

definition publish_book_order_removed ::
  "(Sequence \<Rightarrow> Timestamp) \<Rightarrow> BookOrderRemovedEvent \<Rightarrow> MarketDataPublisher \<Rightarrow> MarketDataPublisher \<times> Event option" where
  "publish_book_order_removed clock event pub = (let (n, pub) = next_sequence_number pub in
     (pub, Some (EvCancel \<lparr>co_sequence_number = n, co_timestamp_ns = clock n, co_order_id = bm_exchange_order_id event,
       co_instrument_id = bm_instrument_id event\<rparr>)))"

definition publish_trade_executed ::
  "(Sequence \<Rightarrow> Timestamp) \<Rightarrow> TradeExecutedEvent \<Rightarrow> MarketDataPublisher \<Rightarrow> MarketDataPublisher \<times> Event option" where
  "publish_trade_executed clock event pub = (let (n, pub) = next_sequence_number pub in
     (pub, Some (EvTrade \<lparr>tr_sequence_number = n, tr_timestamp_ns = clock n, tr_instrument_id = te_instrument_id event,
       tr_price = te_price event, tr_quantity = te_quantity event, tr_aggressor_side = te_aggressor_side event\<rparr>)))"

definition publish :: "(Sequence \<Rightarrow> Timestamp) \<Rightarrow> ExchangeEvent \<Rightarrow> MarketDataPublisher \<Rightarrow> MarketDataPublisher \<times> Event option" where
  "publish clock event pub = (case event of
     BookOrderAdded e \<Rightarrow> publish_book_order_added clock e pub
   | BookOrderReduced e \<Rightarrow> publish_book_order_reduced clock e pub
   | BookOrderRemoved e \<Rightarrow> publish_book_order_removed clock e pub
   | TradeExecuted e \<Rightarrow> publish_trade_executed clock e pub
   | _ \<Rightarrow> (pub, None))"

fun publish_all :: "(Sequence \<Rightarrow> Timestamp) \<Rightarrow> ExchangeEvent list \<Rightarrow> MarketDataPublisher \<Rightarrow> MarketDataPublisher \<times> Event list" where
  "publish_all clock [] pub = (pub, [])"
| "publish_all clock (ev # evs) pub = (let (pub1, msg) = publish clock ev pub; (pub2, msgs) = publish_all clock evs pub1 in
     (pub2, (case msg of None \<Rightarrow> [] | Some m \<Rightarrow> [m]) @ msgs))"

lemmas publish_defs = publish_def publish_book_order_added_def publish_book_order_reduced_def publish_book_order_removed_def
  publish_trade_executed_def next_sequence_number_def

text \<open>The feed is numbered without a gap.\<close>

lemma publish_numbered:
  assumes "publish clock ev pub = (pub', msg)"
  shows "(msg = None \<and> pub' = pub) \<or> (\<exists>m. msg = Some m \<and> sequence_of m = mp_next_sequence pub \<and>
    mp_next_sequence pub' = mp_next_sequence pub + 1)"
  using assms by (cases ev) (auto simp: publish_defs sequence_of_def)

lemma publish_all_gapless:
  assumes "publish_all clock evs pub = (pub', feed)"
  shows "gapless (Some (mp_next_sequence pub - 1)) feed" "mp_next_sequence pub' = mp_next_sequence pub + of_nat (length feed)"
proof -
  have "gapless (Some (mp_next_sequence pub - 1)) feed \<and> mp_next_sequence pub' = mp_next_sequence pub + of_nat (length feed)"
    using assms
  proof (induction evs arbitrary: pub feed)
    case (Cons ev evs)
    obtain pub1 msg where 1: "publish clock ev pub = (pub1, msg)" by fastforce
    obtain msgs where 2: "publish_all clock evs pub1 = (pub', msgs)" "feed = (case msg of None \<Rightarrow> [] | Some m \<Rightarrow> [m]) @ msgs"
      using Cons.prems 1 by (auto split: prod.splits)
    show ?case using Cons.IH [OF 2(1)] 2(2) publish_numbered [OF 1] by (auto simp: algebra_simps)
  qed simp
  then show "gapless (Some (mp_next_sequence pub - 1)) feed" "mp_next_sequence pub' = mp_next_sequence pub + of_nat (length feed)" by blast+
qed

lemma gapless_start: "gapless v evs \<Longrightarrow> gapless None evs"
  by (cases evs) auto

subsection \<open>What the feed asks of a subscriber\<close>

fun exchange_op :: "ExchangeEvent \<Rightarrow> (InstrumentId \<times> book_op) option" where
  "exchange_op (BookOrderAdded e) = Some (ba_instrument_id e, OpAdd (ba_exchange_order_id e) (ba_price e) (ba_quantity e) (ba_side e))"
| "exchange_op (BookOrderReduced e) = Some (bd_instrument_id e, OpModify (bd_exchange_order_id e) (bd_price e) (bd_new_remaining_quantity e))"
| "exchange_op (BookOrderRemoved e) = Some (bm_instrument_id e, OpCancel (bm_exchange_order_id e))"
| "exchange_op _ = None"

text \<open>Operations that a subscriber carries out without an error.\<close>

fun clean_ops :: "(InstrumentId \<times> book_op) list \<Rightarrow> market_entries \<Rightarrow> market_entries option" where
  "clean_ops [] es = Some es"
| "clean_ops ((i, op) # ops) es = (case spec_step op (es i) of
     (xs, None) \<Rightarrow> clean_ops ops (es(i := xs))
   | (xs, Some _) \<Rightarrow> None)"

lemma clean_ops_append: "clean_ops (xs @ ys) es = Option.bind (clean_ops xs es) (clean_ops ys)"
  by (induction xs arbitrary: es) (auto split: prod.splits option.splits)

definition exchange_ops :: "ExchangeEvent list \<Rightarrow> (InstrumentId \<times> book_op) list" where
  "exchange_ops evs = List.map_filter exchange_op evs"

definition event_ops :: "Event list \<Rightarrow> (InstrumentId \<times> book_op) list" where
  "event_ops evs = List.map_filter event_op evs"

lemma ops_simps [simp]:
  "exchange_ops [] = []" "exchange_ops (ev # evs) = (case exchange_op ev of None \<Rightarrow> exchange_ops evs | Some p \<Rightarrow> p # exchange_ops evs)"
  "exchange_ops (evs @ evs') = exchange_ops evs @ exchange_ops evs'"
  "event_ops [] = []" "event_ops (m # ms) = (case event_op m of None \<Rightarrow> event_ops ms | Some p \<Rightarrow> p # event_ops ms)"
  by (simp_all add: exchange_ops_def event_ops_def map_filter_def split: option.splits)

lemma publish_op:
  "publish clock ev pub = (pub', msg) \<Longrightarrow> exchange_op ev = (case msg of None \<Rightarrow> None | Some m \<Rightarrow> event_op m)"
  by (cases ev) (auto simp: publish_defs)

lemma publish_all_ops: "publish_all clock evs pub = (pub', feed) \<Longrightarrow> event_ops feed = exchange_ops evs"
proof (induction evs arbitrary: pub feed)
  case (Cons ev evs)
  obtain pub1 msg where 1: "publish clock ev pub = (pub1, msg)" by fastforce
  obtain msgs where 2: "publish_all clock evs pub1 = (pub', msgs)" "feed = (case msg of None \<Rightarrow> [] | Some m \<Rightarrow> [m]) @ msgs"
    using Cons.prems 1 by (auto split: prod.splits)
  show ?case using Cons.IH [OF 2(1)] 2(2) publish_op [OF 1] by (auto split: option.splits)
qed simp

lemma apply_event_errors:
  assumes "manager_entries m es" "apply_event ev m st = Some (m', st')"
  shows "rs_book_errors st' = rs_book_errors st +
    (case event_op ev of None \<Rightarrow> 0 | Some (i, op) \<Rightarrow> if snd (spec_step op (es i)) = None then 0 else 1)"
proof (cases ev)
  case (EvAdd msg)
  then show ?thesis using assms(2) on_book_entries [OF assms(1), of "ao_instrument_id msg" "OpAdd (ao_order_id msg) (ao_price msg) (ao_quantity msg) (ao_side msg)"]
    by (auto simp: count_error_def ob_step.simps [abs_def] Let_def simp del: spec_step.simps)
next
  case (EvCancel msg)
  then show ?thesis using assms(2) on_book_entries [OF assms(1), of "co_instrument_id msg" "OpCancel (co_order_id msg)"]
    by (auto simp: count_error_def ob_step.simps [abs_def] Let_def simp del: spec_step.simps)
next
  case (EvModify msg)
  then show ?thesis using assms(2) on_book_entries [OF assms(1), of "mo_instrument_id msg" "OpModify (mo_order_id msg) (mo_new_price msg) (mo_new_quantity msg)"]
    by (auto simp: count_error_def ob_step.simps [abs_def] Let_def simp del: spec_step.simps)
next
  case (EvClear msg)
  then show ?thesis using assms(2) by (auto simp: Let_def on_book_def split: prod.splits)
qed (use assms(2) in auto)

lemma apply_clean_events:
  assumes "clean_ops (event_ops ms) es = Some es'" "manager_entries m es"
  shows "\<exists>m' st'. apply_events ms m st = Some (m', st') \<and> manager_entries m' es' \<and> rs_book_errors st' = rs_book_errors st"
  using assms
proof (induction ms arbitrary: es m st)
  case (Cons ev ms)
  obtain m1 st1 where 1: "apply_event ev m st = Some (m1, st1)" "manager_entries m1 (spec_event ev es)"
    using apply_event_entries [OF Cons.prems(2), of ev st] by blast
  have "clean_ops (event_ops ms) (spec_event ev es) = Some es'" "rs_book_errors st1 = rs_book_errors st"
    using Cons.prems(1) apply_event_errors [OF Cons.prems(2) 1(1)]
    by (auto simp: spec_event_def split: option.splits prod.splits)
  then show ?case using Cons.IH [OF _ 1(2), of st1] 1(1) by auto
qed simp

subsection \<open>Resting orders as entries\<close>

definition order_entry :: "Side \<Rightarrow> BookOrder \<Rightarrow> book_entry" where
  "order_entry sd ord = \<lparr>en_id = bo_exchange_order_id ord, en_side = sd, en_price = bo_price ord, en_quantity = bo_remaining_quantity ord\<rparr>"

definition market_of :: "spec_book \<Rightarrow> book_entry list" where
  "market_of V = map (order_entry Buy) (V Buy) @ map (order_entry Sell) (V Sell)"

text \<open>A subscriber's entries that are, up to their order, the resting orders of the exchange.\<close>

definition mirrors :: "book_entry list \<Rightarrow> spec_book \<Rightarrow> bool" where
  "mirrors xs V \<longleftrightarrow> mset xs = mset (market_of V) \<and> distinct (map en_id xs)"

definition market_ids :: "spec_book \<Rightarrow> ExchangeOrderId set" where
  "market_ids V = {bo_exchange_order_id ord | ord sd. ord \<in> set (V sd)}"

lemma order_entry_simps [simp]:
  "en_id (order_entry sd ord) = bo_exchange_order_id ord" "en_side (order_entry sd ord) = sd"
  "en_price (order_entry sd ord) = bo_price ord" "en_quantity (order_entry sd ord) = bo_remaining_quantity ord"
  by (simp_all add: order_entry_def)

lemma set_market_of: "set (market_of V) = {order_entry sd ord | sd ord. ord \<in> set (V sd)}"
proof -
  have "(\<exists>sd ord. e = order_entry sd ord \<and> ord \<in> set (V sd)) \<longleftrightarrow> e \<in> order_entry Buy ` set (V Buy) \<or> e \<in> order_entry Sell ` set (V Sell)" for e
    by (auto simp: enum_ex(1))
  then show ?thesis by (auto simp: market_of_def)
qed

lemma mirrorsD:
  assumes "mirrors xs V"
  shows "set xs = {order_entry sd ord | sd ord. ord \<in> set (V sd)}" "distinct (map en_id xs)" "mset xs = mset (market_of V)"
    "distinct (map en_id (market_of V))" "en_id ` set xs = market_ids V"
proof -
  show m: "distinct (map en_id xs)" "mset xs = mset (market_of V)" using assms by (auto simp: mirrors_def)
  show s: "set xs = {order_entry sd ord | sd ord. ord \<in> set (V sd)}"
    using mset_eq_setD [OF m(2)] by (simp add: set_market_of)
  show "distinct (map en_id (market_of V))" using m by (metis mset_eq_imp_distinct_iff mset_map)
  show "en_id ` set xs = market_ids V" unfolding s market_ids_def by force
qed

lemma mirrors_unique:
  assumes "mirrors xs V" "ord \<in> set (V sd)" "ord' \<in> set (V sd')" "bo_exchange_order_id ord = bo_exchange_order_id ord'"
  shows "order_entry sd ord = order_entry sd' ord'"
proof -
  have "inj_on en_id (set xs)" using mirrorsD(2) [OF assms(1)] by (simp add: distinct_map)
  moreover have "order_entry sd ord \<in> set xs" "order_entry sd' ord' \<in> set xs" using mirrorsD(1) [OF assms(1)] assms(2,3) by auto
  ultimately show ?thesis using assms(4) by (intro inj_onD [of en_id "set xs"]) simp_all
qed

lemma spec_find_distinct: "distinct (map en_id xs) \<Longrightarrow> e \<in> set xs \<Longrightarrow> spec_find (en_id e) xs = Some e"
  by (induction xs) (auto simp: spec_find_def image_iff)

lemma spec_find_None: "spec_find x xs = None \<longleftrightarrow> x \<notin> en_id ` set xs"
  by (auto simp: spec_find_def find_None_iff)

text \<open>How the three operations of the feed act on a mirror.\<close>

lemma mirrors_cancel:
  assumes "mirrors xs V" "ord \<in> set (V sd)" "\<And>sd. V' sd = filter (\<lambda>o'. bo_exchange_order_id o' \<noteq> bo_exchange_order_id ord) (V sd)"
  shows "\<exists>xs'. spec_step (OpCancel (bo_exchange_order_id ord)) xs = (xs', None) \<and> mirrors xs' V'"
proof -
  let ?x = "bo_exchange_order_id ord"
  have "spec_find ?x xs \<noteq> None" using mirrorsD(5) [OF assms(1)] assms(2) by (auto simp: spec_find_None market_ids_def)
  moreover have "market_of V' = filter (\<lambda>e. en_id e \<noteq> ?x) (market_of V)"
    by (simp add: market_of_def assms(3) filter_map comp_def)
  then have "mset (market_of V') = filter_mset (\<lambda>e. en_id e \<noteq> ?x) (mset (market_of V))" by (metis mset_filter)
  then have "mset (spec_remove ?x xs) = mset (market_of V')" using mirrorsD(3) [OF assms(1)] by (simp add: spec_remove_def)
  then have "mirrors (spec_remove ?x xs) V'"
    using mirrorsD(2) [OF assms(1)] by (simp add: mirrors_def spec_remove_def distinct_map_filter)
  ultimately show ?thesis by simp
qed

lemma distinct_map_filter_mset:
  assumes "distinct (map f xs)" "e \<in> set xs"
  shows "mset xs = add_mset e (mset (filter (\<lambda>y. f y \<noteq> f e) xs))"
  using assms
proof (induction xs)
  case (Cons x xs)
  show ?case
  proof (cases "x = e")
    case True
    then have "filter (\<lambda>y. f y \<noteq> f e) xs = xs" using Cons.prems(1) by (intro filter_True) (auto simp: image_iff)
    then show ?thesis using True by simp
  next
    case False
    then have "f x \<noteq> f e" using Cons.prems by (auto simp: image_iff)
    then show ?thesis using Cons False by (simp add: add_mset_commute)
  qed
qed simp

lemma mirrors_modify:
  assumes "mirrors xs V" "ord \<in> set (V sd)" "0 < bo_price ord" "q \<noteq> 0"
    "\<And>t. map (order_entry t) (V' t) =
      map (\<lambda>o'. order_entry t (if bo_exchange_order_id o' = bo_exchange_order_id ord then o'\<lparr>bo_remaining_quantity := q\<rparr> else o')) (V t)"
  shows "\<exists>xs'. spec_step (OpModify (bo_exchange_order_id ord) (bo_price ord) q) xs = (xs', None) \<and> mirrors xs' V'"
proof -
  let ?x = "bo_exchange_order_id ord" and ?e = "order_entry sd ord"
  let ?e' = "?e\<lparr>en_quantity := q\<rparr>" and ?up = "\<lambda>e. if en_id e = bo_exchange_order_id ord then e\<lparr>en_quantity := q\<rparr> else e"
  have d: "distinct (map en_id xs)" using mirrorsD(2) [OF assms(1)] .
  have mem: "?e \<in> set xs" using mirrorsD(1) [OF assms(1)] assms(2) by auto
  have find: "spec_find ?x xs = Some ?e" using spec_find_distinct [OF d mem] by simp
  have "order_entry t (if bo_exchange_order_id o' = ?x then o'\<lparr>bo_remaining_quantity := q\<rparr> else o') = ?up (order_entry t o')" for t o'
    by (simp add: order_entry_def)
  then have "market_of V' = map ?up (market_of V)" by (simp only: market_of_def assms(5) map_append map_map comp_def)
  then have "mset (market_of V') = image_mset ?up (mset xs)" using mirrorsD(3) [OF assms(1)] by (simp only: mset_map)
  also have "mset xs = add_mset ?e (mset (spec_remove ?x xs))"
    using distinct_map_filter_mset [OF d mem] by (simp add: spec_remove_def)
  also have "image_mset ?up (add_mset ?e (mset (spec_remove ?x xs))) = add_mset ?e' (mset (spec_remove ?x xs))"
  proof -
    have "map ?up (spec_remove ?x xs) = spec_remove ?x xs" by (rule map_idI) (simp add: spec_remove_def)
    then have "image_mset ?up (mset (spec_remove ?x xs)) = mset (spec_remove ?x xs)" by (simp only: mset_map [symmetric])
    then show ?thesis unfolding image_mset_add_mset by simp
  qed
  finally have "mset (spec_remove ?x xs @ [?e']) = mset (market_of V')" by simp
  moreover have "distinct (map en_id (spec_remove ?x xs @ [?e']))"
    using d by (auto simp: spec_remove_def distinct_map_filter)
  ultimately have "mirrors (spec_remove ?x xs @ [?e']) V'" by (simp add: mirrors_def)
  moreover have "?e' = ?e\<lparr>en_price := bo_price ord, en_quantity := q\<rparr>" by (simp add: order_entry_def)
  ultimately have "mirrors (spec_remove ?x xs @ [?e\<lparr>en_price := bo_price ord, en_quantity := q\<rparr>]) V'" by (simp only:)
  then show ?thesis using find assms(3,4) by (simp add: not_le [symmetric])
qed

lemma mirrors_add:
  assumes "mirrors xs V" "bo_exchange_order_id ord \<notin> market_ids V" "0 < bo_price ord" "bo_remaining_quantity ord \<noteq> 0"
    "mset (market_of V') = add_mset (order_entry sd ord) (mset (market_of V))"
  shows "\<exists>xs'. spec_step (OpAdd (bo_exchange_order_id ord) (bo_price ord) (bo_remaining_quantity ord) sd) xs = (xs', None) \<and> mirrors xs' V'"
proof -
  have "spec_find (bo_exchange_order_id ord) xs = None" using mirrorsD(5) [OF assms(1)] assms(2) by (simp add: spec_find_None)
  moreover have "mirrors (xs @ [order_entry sd ord]) V'"
    using mirrorsD(2,3,5) [OF assms(1)] assms(2,5) by (simp add: mirrors_def)
  ultimately show ?thesis using assms(3,4) by (simp add: not_le [symmetric] order_entry_def)
qed

subsection \<open>The feed of one command\<close>

definition good_market :: "spec_book \<Rightarrow> bool" where
  "good_market V \<longleftrightarrow> (\<forall>sd. \<forall>ord \<in> set (V sd). 0 < bo_price ord)"

lemma mirrors_side_distinct:
  assumes "mirrors xs V"
  shows "distinct (map bo_exchange_order_id (V sd))"
    "sd \<noteq> sd' \<Longrightarrow> ord \<in> set (V sd) \<Longrightarrow> ord' \<in> set (V sd') \<Longrightarrow> bo_exchange_order_id ord \<noteq> bo_exchange_order_id ord'"
proof -
  have "distinct (map en_id (market_of V))" by (rule mirrorsD(4) [OF assms])
  then have "distinct (map bo_exchange_order_id (V Buy) @ map bo_exchange_order_id (V Sell))" by (simp add: market_of_def comp_def)
  then show "distinct (map bo_exchange_order_id (V sd))" by (cases sd) auto
  show "bo_exchange_order_id ord \<noteq> bo_exchange_order_id ord'" if "sd \<noteq> sd'" "ord \<in> set (V sd)" "ord' \<in> set (V sd')"
    using mirrors_unique [OF assms that(2,3)] that(1) by (metis order_entry_simps(2))
qed

lemma mirrors_drop_front:
  assumes "mirrors xs V" "V cs = c # os"
  shows "(V(cs := os)) sd = filter (\<lambda>o'. bo_exchange_order_id o' \<noteq> bo_exchange_order_id c) (V sd)"
proof (cases "sd = cs")
  case True
  have "bo_exchange_order_id c \<notin> bo_exchange_order_id ` set os" using mirrors_side_distinct(1) [OF assms(1), of cs] assms(2) by simp
  then have "filter (\<lambda>o'. bo_exchange_order_id o' \<noteq> bo_exchange_order_id c) os = os" by (intro filter_True) (auto simp: image_iff)
  then show ?thesis using True assms(2) by simp
next
  case False
  have "filter (\<lambda>o'. bo_exchange_order_id o' \<noteq> bo_exchange_order_id c) (V sd) = V sd"
    using mirrors_side_distinct(2) [OF assms(1) False, of _ c] assms(2) by (intro filter_True) auto
  then show ?thesis using False by simp
qed

lemma mirrors_shrink_front:
  assumes "mirrors xs V" "V cs = c # os"
  shows "map (order_entry sd) ((V(cs := c\<lparr>bo_remaining_quantity := q\<rparr> # os)) sd) =
    map (\<lambda>o'. order_entry sd (if bo_exchange_order_id o' = bo_exchange_order_id c then o'\<lparr>bo_remaining_quantity := q\<rparr> else o')) (V sd)"
proof (cases "sd = cs")
  case True
  have "bo_exchange_order_id c \<notin> bo_exchange_order_id ` set os" using mirrors_side_distinct(1) [OF assms(1), of cs] assms(2) by simp
  then show ?thesis using True assms(2) by (auto simp: image_iff)
next
  case False
  then show ?thesis using mirrors_side_distinct(2) [OF assms(1) False, of _ c] assms(2) by auto
qed

lemma fill_events_mirror:
  assumes "match_spec sd limit n os = (fills, n', os')" "V (contra sd) = os" "mirrors (es i) V" "good_market V"
    "er_instrument_id inc = i"
  shows "\<exists>xs. clean_ops (exchange_ops (fill_events seq cs inc fills)) es = Some (es(i := xs)) \<and> mirrors xs (V(contra sd := os'))"
  using assms
proof (induction os arbitrary: n fills V es seq inc)
  case Nil
  then show ?case by (auto simp: fun_upd_idem intro!: exI [of _ "es i"])
next
  case (Cons c os)
  note m = Cons.prems(3)
  have c: "c \<in> set (V (contra sd))" using Cons.prems(2) by simp
  then have price: "0 < bo_price c" using Cons.prems(4) by (simp only: good_market_def)
  from Cons.prems(1) show ?case
  proof (cases rule: match_spec_Cons)
    case stop
    then show ?thesis using Cons.prems(2,3) by (auto simp: fun_upd_idem intro!: exI [of _ "es i"])
  next
    case (full fs)
    obtain xs where xs: "spec_step (OpCancel (bo_exchange_order_id c)) (es i) = (xs, None)" "mirrors xs (V(contra sd := os))"
      using mirrors_cancel [OF m c mirrors_drop_front [OF m Cons.prems(2)]] by blast
    have "set ((V(contra sd := os)) t) \<subseteq> set (V t)" for t using Cons.prems(2) by auto
    then have good: "good_market (V(contra sd := os))" using Cons.prems(4) unfolding good_market_def by blast
    have "\<exists>ys. clean_ops (exchange_ops (fill_events (seq + 2) cs
        (inc\<lparr>er_remaining_quantity := er_remaining_quantity inc - bo_remaining_quantity c\<rparr>) fs)) (es(i := xs)) = Some ((es(i := xs))(i := ys)) \<and>
      mirrors ys ((V(contra sd := os))(contra sd := os'))"
      by (rule Cons.IH [OF full(4)]) (use xs(2) good Cons.prems(5) in \<open>simp_all add: fun_upd_def\<close>)
    then obtain ys where "clean_ops (exchange_ops (fill_events (seq + 2) cs
        (inc\<lparr>er_remaining_quantity := er_remaining_quantity inc - bo_remaining_quantity c\<rparr>) fs)) (es(i := xs)) = Some (es(i := ys))"
      "mirrors ys (V(contra sd := os'))" by (simp only: fun_upd_upd) blast
    moreover from this(1) have "clean_ops (exchange_ops (fill_events seq cs inc fills)) es = Some (es(i := ys))"
      using full(5) xs(1) Cons.prems(5) by (simp add: trade_event_def Let_def del: spec_step.simps)
    ultimately show ?thesis by (intro exI [of _ ys] conjI)
  next
    case part
    have q: "bo_remaining_quantity c - n \<noteq> 0" "n \<noteq> bo_remaining_quantity c" using part(3) by auto
    obtain xs where xs: "spec_step (OpModify (bo_exchange_order_id c) (bo_price c) (bo_remaining_quantity c - n)) (es i) = (xs, None)"
      "mirrors xs (V(contra sd := os'))"
      using mirrors_modify [OF m c price q(1) mirrors_shrink_front [OF m Cons.prems(2)]] part(6) by blast
    moreover from this(1) have "clean_ops (exchange_ops (fill_events seq cs inc fills)) es = Some (es(i := xs))"
      using part(4) q(2) Cons.prems(5) by (simp add: trade_event_def Let_def del: spec_step.simps)
    ultimately show ?thesis by (intro exI [of _ xs] conjI)
  qed
qed

lemma match_spec_ids:
  "match_spec sd limit n os = (fills, n', os') \<Longrightarrow> bo_exchange_order_id ` set os' \<subseteq> bo_exchange_order_id ` set os"
proof (induction os arbitrary: n fills)
  case (Cons c os)
  from Cons.prems show ?case
    by (cases rule: match_spec_Cons) (use Cons.IH in \<open>auto simp: image_iff\<close>)
qed auto

lemma mset_enqueue: "mset (enqueue sd key p x xs) = add_mset x (mset xs)"
proof -
  have "mset xs = mset (takeWhile P xs) + mset (dropWhile P xs)" for P by (metis mset_append takeWhile_dropWhile_id)
  then show ?thesis by (simp add: enqueue_def)
qed

lemma market_of_enqueue:
  "mset (market_of (V(sd := enqueue sd key p ord (V sd)))) = add_mset (order_entry sd ord) (mset (market_of V))"
  by (cases sd) (simp_all add: market_of_def mset_enqueue)

lemma market_ids_shrink: "bo_exchange_order_id ` set os' \<subseteq> bo_exchange_order_id ` set (V sd) \<Longrightarrow> market_ids (V(sd := os')) \<subseteq> market_ids V"
proof -
  have ids: "market_ids W = (\<Union>t. bo_exchange_order_id ` set (W t))" for W by (auto simp: market_ids_def)
  assume os': "bo_exchange_order_id ` set os' \<subseteq> bo_exchange_order_id ` set (V sd)"
  have "bo_exchange_order_id ` set ((V(sd := os')) t) \<subseteq> bo_exchange_order_id ` set (V t)" for t using os' by (cases "t = sd") simp_all
  then show ?thesis unfolding ids by blast
qed

lemma submit_events_mirror:
  assumes "submit_spec V (book_order_of ord) = (V', fills, m)" "mirrors (es i) V" "good_market V" "er_instrument_id ord = i"
    "er_exchange_order_id ord \<notin> market_ids V" "0 < er_price ord"
  shows "\<exists>xs. clean_ops (exchange_ops (submit_events seq cs ord fills m)) es = Some (es(i := xs)) \<and> mirrors xs V'"
proof -
  let ?sd = "er_side ord"
  obtain os where ms: "match_spec ?sd (er_price ord) (er_remaining_quantity ord) (V (contra ?sd)) = (fills, m, os)"
    using assms(1) by (auto simp: submit_spec_def Let_def split: prod.splits)
  let ?V1 = "V(contra ?sd := os)"
  have V': "V' = (if rests (ord\<lparr>er_remaining_quantity := m\<rparr>)
      then ?V1(?sd := enqueue ?sd bo_price (er_price ord) ((book_order_of ord)\<lparr>bo_remaining_quantity := m\<rparr>) (?V1 ?sd)) else ?V1)"
    using assms(1) ms by (auto simp: submit_spec_def Let_def rests_def)
  obtain xs where xs: "clean_ops (exchange_ops (fill_events seq cs ord fills)) es = Some (es(i := xs))" "mirrors xs ?V1"
    using fill_events_mirror [where V = V and es = es, OF ms refl assms(2,3,4)] by blast
  show ?thesis
  proof (cases "rests (ord\<lparr>er_remaining_quantity := m\<rparr>)")
    case False
    then show ?thesis using xs V' by (intro exI [of _ xs]) (simp add: submit_events_def rest_events_def clean_ops_append)
  next
    case True
    let ?o = "(book_order_of ord)\<lparr>bo_remaining_quantity := m\<rparr>"
    have fresh: "bo_exchange_order_id ?o \<notin> market_ids ?V1"
      using market_ids_shrink [of os V "contra (er_side ord)", OF match_spec_ids [OF ms]] assms(5) by (auto simp: book_order_of_def)
    have "V' = ?V1(?sd := enqueue ?sd bo_price (er_price ord) ?o (?V1 ?sd))" using V' True by simp
    then have "mset (market_of V') = add_mset (order_entry ?sd ?o) (mset (market_of ?V1))"
      using market_of_enqueue [of ?V1 ?sd bo_price "er_price ord" ?o] by simp
    moreover have "bo_remaining_quantity ?o \<noteq> 0" "0 < bo_price ?o" using True assms(6) by (simp_all add: rests_def)
    ultimately obtain ys where "spec_step (OpAdd (bo_exchange_order_id ?o) (bo_price ?o) (bo_remaining_quantity ?o) ?sd) xs = (ys, None)" "mirrors ys V'"
      using mirrors_add [OF xs(2) fresh, of V' ?sd] by blast
    then show ?thesis using xs(1) True assms(4)
      by (auto simp: submit_events_def rest_events_def clean_ops_append book_order_of_def simp del: spec_step.simps)
  qed
qed

definition feed_ok :: "MatchingEngine \<Rightarrow> market_entries \<Rightarrow> bool" where
  "feed_ok E es \<longleftrightarrow> (\<forall>i. mirrors (es i) (engine_view E i)) \<and>
     (\<forall>i. \<forall>x \<in> market_ids (engine_view E i). x < me_next_exchange_order_id E)"

lemma engine_good_market: "engine_inv E \<Longrightarrow> good_market (engine_view E i)"
  using engine_invD(2) [of E i] by (auto simp: good_market_def engine_view_def book_ok_def good_order_def split: option.splits)

lemma without_key_by_id:
  assumes "engine_inv E" "mirrors xs (engine_view E i)" "ord \<in> set (engine_view E i sd)" "order_key ord = k"
  shows "without_key k (engine_view E i) t = filter (\<lambda>o'. bo_exchange_order_id o' \<noteq> bo_exchange_order_id ord) (engine_view E i t)"
    "map (order_entry t) (rewrite_key k q c (engine_view E i) t) =
     map (\<lambda>o'. order_entry t (if bo_exchange_order_id o' = bo_exchange_order_id ord then o'\<lparr>bo_remaining_quantity := q\<rparr> else o')) (engine_view E i t)"
proof -
  have iff: "order_key o' = k \<longleftrightarrow> bo_exchange_order_id o' = bo_exchange_order_id ord" if o': "o' \<in> set (engine_view E i t)" for o' t
  proof
    assume "order_key o' = k"
    then show "bo_exchange_order_id o' = bo_exchange_order_id ord" using live_order_unique [OF assms(1) o' assms(3)] assms(4) by simp
  next
    assume same: "bo_exchange_order_id o' = bo_exchange_order_id ord"
    show "order_key o' = k"
    proof (cases "t = sd")
      case True
      have "inj_on bo_exchange_order_id (set (engine_view E i sd))"
        using mirrors_side_distinct(1) [OF assms(2)] by (simp add: distinct_map)
      then show ?thesis using o' assms(3,4) same True by (auto dest: inj_onD)
    next
      case False
      then show ?thesis using mirrors_side_distinct(2) [OF assms(2) False o' assms(3)] same by blast
    qed
  qed
  show "without_key k (engine_view E i) t = filter (\<lambda>o'. bo_exchange_order_id o' \<noteq> bo_exchange_order_id ord) (engine_view E i t)"
    unfolding without_key_def using iff by (auto intro: filter_cong)
  show "map (order_entry t) (rewrite_key k q c (engine_view E i) t) =
     map (\<lambda>o'. order_entry t (if bo_exchange_order_id o' = bo_exchange_order_id ord then o'\<lparr>bo_remaining_quantity := q\<rparr> else o')) (engine_view E i t)"
    using iff by (auto simp: rewrite_key_def order_entry_def)
qed

lemma market_ids_simps:
  "market_ids (without_key k V) \<subseteq> market_ids V" "market_ids (rewrite_key k q c V) \<subseteq> market_ids V"
  by (auto simp: market_ids_def without_key_def rewrite_key_def)

lemma submit_spec_ids:
  assumes "submit_spec V (book_order_of ord) = (V', fills, m)"
  shows "market_ids V' \<subseteq> insert (er_exchange_order_id ord) (market_ids V)"
proof -
  obtain os where ms: "match_spec (er_side ord) (er_price ord) (er_remaining_quantity ord) (V (contra (er_side ord))) = (fills, m, os)"
    using assms by (auto simp: submit_spec_def Let_def split: prod.splits)
  let ?V1 = "V(contra (er_side ord) := os)"
  have le: "market_ids ?V1 \<subseteq> market_ids V" by (rule market_ids_shrink [of os V "contra (er_side ord)", OF match_spec_ids [OF ms]])
  have "market_ids (W(sd := enqueue sd key p x (W sd))) \<subseteq> insert (bo_exchange_order_id x) (market_ids W)" for W sd key p x
    by (auto simp: market_ids_def split: if_splits)
  from this [of ?V1 "er_side ord" bo_price "er_price ord" "(book_order_of ord)\<lparr>bo_remaining_quantity := m\<rparr>"]
  have "market_ids V' \<subseteq> insert (er_exchange_order_id ord) (market_ids ?V1)"
    using assms ms by (auto simp: submit_spec_def Let_def book_order_of_def split: if_splits)
  then show ?thesis using le by blast
qed

lemma feed_okI:
  assumes "feed_ok E es" "engine_view E' = (engine_view E)(i := V)" "mirrors xs V"
    "\<And>x. x \<in> market_ids V \<Longrightarrow> x < me_next_exchange_order_id E'" "me_next_exchange_order_id E \<le> me_next_exchange_order_id E'"
  shows "feed_ok E' (es(i := xs))"
proof -
  have "mirrors ((es(i := xs)) j) (engine_view E' j)" for j using assms(1-3) by (cases "j = i") (simp_all add: feed_ok_def)
  moreover have "x < me_next_exchange_order_id E'" if "x \<in> market_ids (engine_view E' j)" for j x
  proof (cases "j = i")
    case True
    then show ?thesis using that assms(2,4) by simp
  next
    case False
    then have "x < me_next_exchange_order_id E" using that assms(1,2) by (auto simp: feed_ok_def)
    then show ?thesis using assms(5) by (rule order_less_le_trans)
  qed
  ultimately show ?thesis by (simp add: feed_ok_def)
qed

lemma feed_rejected: "feed_ok E es \<Longrightarrow> feed_ok (bump_event E) es"
  by (simp add: feed_ok_def bump_event_market)

lemma next_id_grows:
  assumes "unat (me_next_exchange_order_id E) < 2 ^ 64 - 1"
  shows "me_next_exchange_order_id E < me_next_exchange_order_id E + 1"
proof -
  have "unat (1 + me_next_exchange_order_id E) = Suc (unat (me_next_exchange_order_id E))"
    using assms by (intro unatSuc) (auto simp: unat_eq_0 [symmetric] unat_word_ariths)
  then show ?thesis by (simp add: word_less_nat_alt add.commute)
qed

lemma new_order_feed:
  assumes inv: "engine_inv E" and load: "engine_load E n" "n < kNil" and ok: "cmd_bounds (nc_price cmd) (nc_quantity cmd)"
    and feed: "feed_ok E es" and room: "unat (me_next_exchange_order_id E) < 2 ^ 64 - 1"
  obtains E' evs es' where "process_new_order E cmd = Some (E', evs)" "clean_ops (exchange_ops evs) es = Some es'" "feed_ok E' es'"
    "me_next_exchange_order_id E' = me_next_exchange_order_id E \<or> me_next_exchange_order_id E' = me_next_exchange_order_id E + 1"
proof (cases "new_order_verdict E cmd")
  case (Some reason)
  then show ?thesis using that [of "bump_event E"] process_new_order_verdict [OF inv, of cmd] feed_rejected [OF feed]
    by (simp add: reject_new_order_def)
next
  case None
  let ?i = "nc_instrument_id cmd" and ?ord = "incoming_order cmd (me_next_exchange_order_id E) (me_next_priority E)"
  obtain V fills r where spec: "submit_spec (engine_view E ?i) (new_book_order E cmd) = (V, fills, r)" by (metis prod_cases3)
  obtain E' where E': "accept_new_order E cmd = Some (E', accepted_event cmd (me_next_event_sequence E) (me_next_exchange_order_id E) #
      submit_events (me_next_event_sequence E + 1) (nc_command_sequence cmd) ?ord fills r)"
    "engine_view E' = (engine_view E)(?i := V)" "me_next_exchange_order_id E' = me_next_exchange_order_id E + 1"
    by (rule accept_new_order_refines [OF inv load ok None spec])
  have pos: "0 < er_price ?ord" using None by (auto simp: new_order_verdict_def incoming_order_def not_le split: if_splits)
  have m: "mirrors (es ?i) (engine_view E ?i)" and old: "\<forall>x \<in> market_ids (engine_view E ?i). x < me_next_exchange_order_id E"
    using feed by (simp_all add: feed_ok_def)
  have fresh: "er_exchange_order_id ?ord \<notin> market_ids (engine_view E ?i)" using old by (auto simp: incoming_order_def)
  have ord: "er_instrument_id ?ord = ?i" "er_exchange_order_id ?ord = me_next_exchange_order_id E" by (simp_all add: incoming_order_def)
  obtain xs where xs: "clean_ops (exchange_ops (submit_events (me_next_event_sequence E + 1) (nc_command_sequence cmd) ?ord fills r)) es = Some (es(?i := xs))"
    "mirrors xs V"
    using submit_events_mirror [OF spec [unfolded new_book_order_def], where es = es, OF m engine_good_market [OF inv] ord(1) fresh pos] by blast
  note grow = next_id_grows [OF room]
  have "x < me_next_exchange_order_id E'" if "x \<in> market_ids V" for x
    using submit_spec_ids [OF spec [unfolded new_book_order_def]] that old grow E'(3) ord(2) by (auto intro: order_less_trans)
  then have "feed_ok E' (es(?i := xs))"
    using feed_okI [OF feed E'(2) xs(2)] E'(3) grow by (simp add: order.strict_implies_order)
  then show ?thesis using that [of E' _ "es(?i := xs)"] None process_new_order_verdict [OF inv, of cmd] E'(1,3) xs(1)
    by (simp add: accepted_event_def)
qed

lemma cancel_feed:
  assumes inv: "engine_inv E" and load: "engine_load E n" and feed: "feed_ok E es"
  obtains E' evs es' where "process_cancel E cmd = Some (E', evs)" "clean_ops (exchange_ops evs) es = Some es'" "feed_ok E' es'"
    "me_next_exchange_order_id E' = me_next_exchange_order_id E"
proof (cases "cancel_verdict E cmd")
  case (Some reason)
  then show ?thesis using that [of "bump_event E"] process_cancel_rejects [of E cmd] feed_rejected [OF feed] by (simp add: reject_cancel_def)
next
  case None
  let ?i = "cc_instrument_id cmd" and ?k = "(cc_account_id cmd, cc_client_order_id cmd)"
  obtain E' x where E': "process_cancel E cmd = Some (E', cancel_events (me_next_event_sequence E) cmd x)"
    "x \<in> set (engine_view E ?i (bo_side x))" "order_key x = ?k"
    "engine_view E' = (engine_view E)(?i := without_key ?k (engine_view E ?i))"
    "me_next_exchange_order_id E' = me_next_exchange_order_id E"
    using process_cancel_refines [OF inv load None] by metis
  have m: "mirrors (es ?i) (engine_view E ?i)" and old: "\<forall>x \<in> market_ids (engine_view E ?i). x < me_next_exchange_order_id E"
    using feed by (simp_all add: feed_ok_def)
  obtain xs where xs: "spec_step (OpCancel (bo_exchange_order_id x)) (es ?i) = (xs, None)" "mirrors xs (without_key ?k (engine_view E ?i))"
    using mirrors_cancel [OF m E'(2) without_key_by_id(1) [OF inv m E'(2,3)]] by blast
  have "feed_ok E' (es(?i := xs))"
    using feed_okI [OF feed E'(4) xs(2)] market_ids_simps(1) [of ?k "engine_view E ?i"] old E'(5) by auto
  then show ?thesis using that [of E' _ "es(?i := xs)"] E'(1,5) xs(1) by (simp add: cancel_events_def del: spec_step.simps)
qed

lemma replace_feed:
  assumes inv: "engine_inv E" and load: "engine_load E n" "n < kNil" and ok: "cmd_bounds (rc_new_price cmd) (rc_new_quantity cmd)"
    and fresh: "replace_fresh E cmd" and feed: "feed_ok E es" and room: "unat (me_next_exchange_order_id E) < 2 ^ 64 - 1"
  obtains E' evs es' where "process_replace E cmd = Some (E', evs)" "clean_ops (exchange_ops evs) es = Some es'" "feed_ok E' es'"
    "me_next_exchange_order_id E' = me_next_exchange_order_id E \<or> me_next_exchange_order_id E' = me_next_exchange_order_id E + 1"
proof (cases "replace_verdict E cmd")
  case (Some reason)
  then show ?thesis using that [of "bump_event E"] process_replace_rejects [of E cmd] feed_rejected [OF feed]
    by (simp add: reject_replace_order_def)
next
  case None
  let ?i = "rc_instrument_id cmd" and ?k = "(rc_account_id cmd, rc_original_client_order_id cmd)"
  obtain E' old W evs d where E': "replace_outcome E cmd old = (W, evs, d)" "process_replace E cmd = Some (E', evs)"
    "old \<in> set (engine_view E ?i (bo_side old))" "order_key old = ?k" "engine_view E' = W"
    "me_next_exchange_order_id E' = me_next_exchange_order_id E + d"
    by (rule process_replace_outcome [OF inv load None ok fresh])
  have m: "mirrors (es ?i) (engine_view E ?i)" and lt: "\<forall>x \<in> market_ids (engine_view E ?i). x < me_next_exchange_order_id E"
    using feed by (simp_all add: feed_ok_def)
  have pos: "0 < rc_new_price cmd" "rc_new_quantity cmd \<noteq> 0"
    using None by (auto simp: replace_verdict_def not_le split: if_splits option.splits)
  have price: "0 < bo_price old" using engine_good_market [OF inv, of ?i] E'(3) unfolding good_market_def by blast
  note grow = next_id_grows [OF room]
  show ?thesis
  proof (cases "rc_new_price cmd = bo_price old \<and> rc_new_quantity cmd \<le> bo_remaining_quantity old")
    case True
    let ?V = "rewrite_key ?k (rc_new_quantity cmd) (rc_new_client_order_id cmd) (engine_view E ?i)"
    have W: "W = (engine_view E)(?i := ?V)" "d = 0" and evs: "exchange_ops evs = [(?i, OpModify (bo_exchange_order_id old) (bo_price old) (rc_new_quantity cmd))]"
      using E'(1) True by (auto simp: replace_outcome_def Let_def replaced_event_def)
    obtain xs where xs: "spec_step (OpModify (bo_exchange_order_id old) (bo_price old) (rc_new_quantity cmd)) (es ?i) = (xs, None)" "mirrors xs ?V"
      using mirrors_modify [where V' = ?V, OF m E'(3) price pos(2) without_key_by_id(2) [OF inv m E'(3,4)]] by blast
    have next_id: "me_next_exchange_order_id E' = me_next_exchange_order_id E" using E'(6) W(2) by simp
    have ids: "market_ids ?V \<subseteq> market_ids (engine_view E ?i)" by (rule market_ids_simps(2))
    have "\<forall>x \<in> market_ids ?V. x < me_next_exchange_order_id E'" using subsetD [OF ids] lt next_id by simp
    then have "feed_ok E' (es(?i := xs))" by (intro feed_okI [OF feed E'(5) [unfolded W(1)] xs(2)]) (simp_all add: next_id)
    then show ?thesis using that [of E' evs "es(?i := xs)"] E'(2,6) W(2) evs xs(1) by (simp del: spec_step.simps)
  next
    case False
    let ?ord = "replacement_order cmd old (me_next_exchange_order_id E) (me_next_priority E)"
    obtain V fills r where spec: "submit_spec (without_key ?k (engine_view E ?i)) (book_order_of ?ord) = (V, fills, r)"
      by (metis prod_cases3)
    have W: "W = (engine_view E)(?i := V)" "d = 1" and evs: "exchange_ops evs = (?i, OpCancel (bo_exchange_order_id old)) #
        exchange_ops (submit_events (me_next_event_sequence E + 2) (rc_command_sequence cmd) ?ord fills r)"
      using E'(1) False spec by (auto simp: replace_outcome_def Let_def replaced_event_def)
    have ord: "er_instrument_id ?ord = ?i" "er_exchange_order_id ?ord = me_next_exchange_order_id E" "er_price ?ord = rc_new_price cmd"
      by (simp_all add: replacement_order_def)
    obtain xs where xs: "spec_step (OpCancel (bo_exchange_order_id old)) (es ?i) = (xs, None)" "mirrors xs (without_key ?k (engine_view E ?i))"
      using mirrors_cancel [OF m E'(3) without_key_by_id(1) [OF inv m E'(3,4)]] by blast
    have good: "good_market (without_key ?k (engine_view E ?i))"
      using engine_good_market [OF inv, of ?i] by (auto simp: good_market_def without_key_def)
    have ids: "market_ids (without_key ?k (engine_view E ?i)) \<subseteq> market_ids (engine_view E ?i)" by (rule market_ids_simps(1))
    then have new: "er_exchange_order_id ?ord \<notin> market_ids (without_key ?k (engine_view E ?i))" using lt ord(2) by auto
    have m1: "mirrors ((es(?i := xs)) ?i) (without_key ?k (engine_view E ?i))" using xs(2) by simp
    have pos': "0 < er_price ?ord" using pos(1) ord(3) by simp
    obtain ys where ys: "clean_ops (exchange_ops (submit_events (me_next_event_sequence E + 2) (rc_command_sequence cmd) ?ord fills r)) (es(?i := xs)) =
        Some ((es(?i := xs))(?i := ys))" "mirrors ys V"
      using submit_events_mirror [where es = "es(?i := xs)", OF spec m1 good ord(1) new pos'] by blast
    have "x < me_next_exchange_order_id E'" if "x \<in> market_ids V" for x
      using submit_spec_ids [OF spec] that ids lt grow E'(6) W(2) ord(2) by (auto intro: order_less_trans)
    then have "feed_ok E' (es(?i := ys))"
      using feed_okI [OF feed E'(5) [unfolded W(1)] ys(2)] E'(6) W(2) grow by (simp add: order.strict_implies_order)
    then show ?thesis using that [of E' evs "es(?i := ys)"] E'(2,6) W(2) evs xs(1) ys(1) by (simp del: spec_step.simps)
  qed
qed

lemma process_feed:
  assumes "engine_inv E" "engine_load E n" "n < kNil" "command_ok E cmd" "feed_ok E es"
    "unat (me_next_exchange_order_id E) < 2 ^ 64 - 1" "process E cmd = Some (E', evs)"
  shows "\<exists>es'. clean_ops (exchange_ops evs) es = Some es' \<and> feed_ok E' es'"
    "unat (me_next_exchange_order_id E') \<le> Suc (unat (me_next_exchange_order_id E))"
proof -
  have "\<exists>es'. clean_ops (exchange_ops evs) es = Some es' \<and> feed_ok E' es' \<and>
      (me_next_exchange_order_id E' = me_next_exchange_order_id E \<or> me_next_exchange_order_id E' = me_next_exchange_order_id E + 1)"
  proof (cases cmd)
    case (NewOrder c)
    show ?thesis by (rule new_order_feed [OF assms(1,2,3) _ assms(5,6), of c]) (use assms(4,7) NewOrder in auto)
  next
    case (CancelOrder c)
    show ?thesis by (rule cancel_feed [OF assms(1,2,5), of c]) (use assms(7) CancelOrder in auto)
  next
    case (ReplaceOrder c)
    show ?thesis by (rule replace_feed [OF assms(1,2,3) _ _ assms(5,6), of c]) (use assms(4,7) ReplaceOrder in auto)
  qed
  moreover have "unat (x + 1) \<le> Suc (unat x)" for x :: u64 by (simp add: unat_word_ariths mod_less_eq_dividend le_trans [OF mod_less_eq_dividend])
  ultimately show "\<exists>es'. clean_ops (exchange_ops evs) es = Some es' \<and> feed_ok E' es'"
    "unat (me_next_exchange_order_id E') \<le> Suc (unat (me_next_exchange_order_id E))" by auto
qed

lemma run_feed:
  assumes "engine_inv E" "runnable E n cmds" "feed_ok E es" "unat (me_next_exchange_order_id E) \<le> Suc n" "run E cmds = Some (E', evs)"
  shows "\<exists>es'. clean_ops (exchange_ops evs) es = Some es' \<and> feed_ok E' es'"
  using assms
proof (induction cmds arbitrary: E n es evs)
  case (Cons cmd cmds)
  note r = runnable_Cons [OF Cons.prems(2,1)]
  obtain E1 evs1 evs2 where 1: "process E cmd = Some (E1, evs1)" "run E1 cmds = Some (E', evs2)" "evs = evs1 @ evs2"
    using Cons.prems(5) by (auto split: bind_splits)
  have inv1: "engine_inv E1" using process_done [OF Cons.prems(1) r(1,2,3)] 1(1) by (auto simp: command_done_def)
  have room: "unat (me_next_exchange_order_id E) < 2 ^ 64 - 1" using Cons.prems(4) r(2) by (simp add: kNil_def)
  obtain es1 where es1: "clean_ops (exchange_ops evs1) es = Some es1" "feed_ok E1 es1"
    using process_feed(1) [OF Cons.prems(1) r(1,2,3) Cons.prems(3) room 1(1)] by blast
  have "unat (me_next_exchange_order_id E1) \<le> Suc (Suc n)"
    using process_feed(2) [OF Cons.prems(1) r(1,2,3) Cons.prems(3) room 1(1)] Cons.prems(4) by simp
  then obtain es' where "clean_ops (exchange_ops evs2) es1 = Some es'" "feed_ok E' es'"
    using Cons.IH [OF inv1 r(4) [OF 1(1)] es1(2) _ 1(2)] by blast
  then show ?case using es1(1) 1(3) by (simp add: clean_ops_append)
qed auto

subsection \<open>What the views of a book depend on\<close>

lemma spec_levels_mset:
  assumes "mset xs = mset ys"
  shows "spec_levels key pk xs = spec_levels key pk ys"
proof -
  have f: "mset (filter P xs) = mset (filter P ys)" for P using assms by (simp add: mset_filter)
  have "sum_list (map en_quantity (filter P xs)) = sum_list (map en_quantity (filter P ys))" for P
    using f [of P] by (metis mset_map sum_mset_sum_list)
  moreover have "length (filter P xs) = length (filter P ys)" for P using f [of P] by (metis size_mset)
  moreover have "set xs = set ys" using assms by (rule mset_eq_setD)
  ultimately show ?thesis by (simp add: spec_levels_def Let_def)
qed

text \<open>The price levels of the exchange's own resting orders.\<close>

definition exchange_bids :: "spec_book \<Rightarrow> PriceLevelView list" where
  "exchange_bids V = spec_levels (\<lambda>e. Bid (en_price e)) bid_key (map (order_entry Buy) (V Buy))"

definition exchange_asks :: "spec_book \<Rightarrow> PriceLevelView list" where
  "exchange_asks V = spec_levels en_price (\<lambda>price. price) (map (order_entry Sell) (V Sell))"

lemma mirrors_levels:
  assumes "mirrors xs V"
  shows "spec_bids xs = exchange_bids V" "spec_asks xs = exchange_asks V"
proof -
  have "side_entries s (market_of V) = map (order_entry s) (V s)" for s
    by (cases s) (simp_all add: side_entries_def market_of_def filter_map comp_def)
  moreover have "mset (side_entries s xs) = mset (side_entries s (market_of V))" for s
    using mirrorsD(3) [OF assms] by (simp add: side_entries_def mset_filter)
  ultimately have "mset (side_entries s xs) = mset (map (order_entry s) (V s))" for s by simp
  then show "spec_bids xs = exchange_bids V" "spec_asks xs = exchange_asks V"
    unfolding exchange_bids_def exchange_asks_def by (auto intro: spec_levels_mset simp del: mset_map)
qed

lemma mirrors_Nil: "mirrors [] V \<Longrightarrow> V sd = []"
  by (cases sd) (auto simp: mirrors_def market_of_def)

definition same_levels :: "MatchingEngine \<Rightarrow> BookManager \<Rightarrow> bool" where
  "same_levels E m \<longleftrightarrow> (\<forall>i. case find_book i m of
     None \<Rightarrow> engine_view E i Buy = [] \<and> engine_view E i Sell = []
   | Some b \<Rightarrow> \<forall>n. ob_top_bids n b = take n (exchange_bids (engine_view E i)) \<and> ob_top_asks n b = take n (exchange_asks (engine_view E i)))"

lemma feed_same_levels:
  assumes "feed_ok E es" "manager_entries m es"
  shows "same_levels E m"
  unfolding same_levels_def
proof
  fix i
  have m: "mirrors (es i) (engine_view E i)" using assms(1) by (simp add: feed_ok_def)
  have "case find_book i m of None \<Rightarrow> es i = [] | Some b \<Rightarrow> book_shows b (es i)"
    using manager_entries_shows [OF assms(2)] by (simp add: manager_shows_def)
  then show "case find_book i m of
     None \<Rightarrow> engine_view E i Buy = [] \<and> engine_view E i Sell = []
   | Some b \<Rightarrow> \<forall>n. ob_top_bids n b = take n (exchange_bids (engine_view E i)) \<and> ob_top_asks n b = take n (exchange_asks (engine_view E i))"
    using m mirrors_levels [OF m] mirrors_Nil [of "engine_view E i"] by (auto simp: book_shows_def split: option.splits)
qed

text \<open>A run of the engine and what its feed does to a subscriber's entries.\<close>

lemma run_clean_feed:
  assumes "length cmds \<le> kNil" "\<forall>cmd \<in> set cmds. bounded_command cmd" "distinct (concat (map command_keys cmds))"
  shows "\<exists>E evs es. run (new_engine universe expected) cmds = Some (E, evs) \<and> clean_ops (exchange_ops evs) (\<lambda>_. []) = Some es \<and> feed_ok E es"
proof -
  let ?E = "new_engine universe expected"
  have fresh: "set (concat (map command_keys cmds)) \<inter> dom (me_orders ?E) = {}" by (simp add: new_engine_state(3))
  obtain E evs where r: "run ?E cmds = Some (E, evs)"
    using run_done [OF new_engine_inv new_engine_state(1), of cmds universe expected] assms fresh by auto
  have start: "runnable ?E 0 cmds" using assms fresh by (simp add: runnable_def new_engine_state(1))
  have feed0: "feed_ok ?E (\<lambda>_. [])" by (simp add: feed_ok_def mirrors_def market_of_def market_ids_def new_engine_state(2))
  show ?thesis using run_feed [OF new_engine_inv start feed0 _ r] r by (auto simp: new_engine_counters)
qed

subsection \<open>Properties\<close>

text \<open>
  C35. The feed reproduces the exchange. From a freshly built engine, run any sequence of at most
  \<open>kNil\<close> bounded commands with fresh client order ids and publish every event. The published
  messages are numbered 1, 2, 3, ... without a gap, a subscriber applies all of them without a single book
  error, and at the end each of its books shows, to any depth, exactly the price levels, total quantities and
  order counts of the exchange's resting orders of that instrument; an instrument without a
  subscriber's book has no resting order.
\<close>

theorem subscriber_levels_match_exchange:
  assumes "length cmds \<le> kNil" "\<forall>cmd \<in> set cmds. bounded_command cmd" "distinct (concat (map command_keys cmds))"
  shows "\<exists>E evs pub feed m st. run (new_engine universe expected) cmds = Some (E, evs) \<and>
    publish_all clock evs new_publisher = (pub, feed) \<and> gapless (Some 0) feed \<and> mp_next_sequence pub = 1 + of_nat (length feed) \<and>
    apply_events feed new_book_manager new_replay_stats = Some (m, st) \<and> rs_book_errors st = 0 \<and> same_levels E m"
proof -
  obtain E evs es where r: "run (new_engine universe expected) cmds = Some (E, evs)" and es: "clean_ops (exchange_ops evs) (\<lambda>_. []) = Some es" "feed_ok E es"
    using run_clean_feed [OF assms] by blast
  obtain pub feed where pub: "publish_all clock evs new_publisher = (pub, feed)" by fastforce
  have "clean_ops (event_ops feed) (\<lambda>_. []) = Some es" using es(1) publish_all_ops [OF pub] by simp
  from apply_clean_events [OF this new_book_manager_entries, of new_replay_stats] obtain m st where
    m: "apply_events feed new_book_manager new_replay_stats = Some (m, st)" "manager_entries m es" "rs_book_errors st = 0"
    using that by (auto simp: new_replay_stats_def)
  show ?thesis using r pub publish_all_gapless [OF pub] m(1,3) feed_same_levels [OF es(2) m(2)] by (auto simp: new_publisher_def)
qed

theorem subscriber_levels_match_exchange_witness:
  "\<exists>E evs pub feed m st. run (new_engine [7] 4) [NewOrder (sample_new Buy 1 100 10 GTC), NewOrder (sample_new Sell 2 100 5 IOC)] = Some (E, evs) \<and>
    publish_all (\<lambda>n. n) evs new_publisher = (pub, feed) \<and> gapless (Some 0) feed \<and> mp_next_sequence pub = 1 + of_nat (length feed) \<and>
    apply_events feed new_book_manager new_replay_stats = Some (m, st) \<and> rs_book_errors st = 0 \<and> same_levels E m"
  using subscriber_levels_match_exchange [of "[NewOrder (sample_new Buy 1 100 10 GTC), NewOrder (sample_new Sell 2 100 5 IOC)]" "[7]" 4 "\<lambda>n. n"]
  by (simp add: kNil_def)

end
