(* ===== verification/Feed_Generator.thy ===== *)
theory Feed_Generator
  imports Market_Data_Feed
begin

text \<open>
  The event-file generator (\<open>apps/feed_generator/main.cpp\<close>). Its random source is an argument: one record of draws for each round of the loop, with the ranges of the
  distributions as hypothesis. The properties compose it with the file writer and the replay engine.
\<close>

subsection \<open>The generator\<close>

record draws =
  dw_step :: Timestamp
  dw_roll :: nat
  dw_instrument :: InstrumentId
  dw_side :: bool
  dw_jitter :: Price
  dw_quantity :: Quantity
  dw_index :: "nat \<Rightarrow> nat"

definition draws_ok :: "u32 \<Rightarrow> draws \<Rightarrow> bool" where
  "draws_ok instruments d \<longleftrightarrow> dw_roll d < 100 \<and> 1 \<le> dw_instrument d \<and> dw_instrument d \<le> instruments \<and>
     - 50 \<le> ival (dw_jitter d) \<and> ival (dw_jitter d) \<le> 50 \<and> 1 \<le> dw_quantity d \<and> dw_quantity d \<le> 100 \<and> (\<forall>n > 0. dw_index d n < n)"

record OpenOrder =
  oo_instrument_id :: InstrumentId
  oo_order_id :: OrderId

datatype EventKind = KindAdd | KindCancel | KindModify | KindTrade | KindClear

record FeedGenerator =
  fg_mid_price :: "Price list"
  fg_open_orders :: "OpenOrder list"
  fg_next_seq :: Sequence
  fg_next_order_id :: OrderId
  fg_timestamp :: Timestamp
  fg_adds_emitted :: u64

text \<open>
  The initial prices; index 0 is unused. The length of the vector is computed in 32 bits, and the loop writes outside the vector if that wraps. The indices are
  those of a loop that ends, which is every loop but the one for \<open>2 ^ 32 - 1\<close> instruments, whose first write is already outside.
\<close>

fun fill_mids :: "nat list \<Rightarrow> Price list \<Rightarrow> Price list option" where
  "fill_mids [] mids = Some mids"
| "fill_mids (i # is) mids = (if i < length mids then fill_mids is (mids[i := 100000 + of_nat i * 1000]) else None)"

definition new_generator :: "u32 \<Rightarrow> FeedGenerator option" where
  "new_generator instruments = map_option (\<lambda>mids. \<lparr>fg_mid_price = mids, fg_open_orders = [], fg_next_seq = 1, fg_next_order_id = 1,
       fg_timestamp = 1000000000, fg_adds_emitted = 0\<rparr>)
     (fill_mids [1..<unat instruments + 1] (replicate (unat (instruments + 1)) 0))"

definition pick_kind :: "draws \<Rightarrow> FeedGenerator \<Rightarrow> EventKind" where
  "pick_kind d g = (if fg_open_orders g = [] then KindAdd
     else if dw_roll d < 70 then KindAdd else if dw_roll d < 85 then KindCancel else if dw_roll d < 95 then KindModify
     else if dw_roll d < 99 then KindTrade else KindClear)"

definition drawn_side :: "draws \<Rightarrow> Side" where
  "drawn_side d = (if dw_side d then Sell else Buy)"

text \<open>The price vector is indexed; outside it the access is undefined.\<close>

definition mid_at :: "InstrumentId \<Rightarrow> FeedGenerator \<Rightarrow> Price option" where
  "mid_at i g = (if unat i < length (fg_mid_price g) then Some (fg_mid_price g ! unat i) else None)"

definition at_least_100 :: "Price \<Rightarrow> Price" where
  "at_least_100 p = (if p < 100 then 100 else p)"

text \<open>The drawn jitter is added in signed arithmetic, which must not overflow.\<close>

definition jittered :: "Price \<Rightarrow> draws \<Rightarrow> Price option" where
  "jittered mid d = (if in_i64 (ival mid + ival (dw_jitter d)) then Some (at_least_100 (mid + dw_jitter d)) else None)"

definition emit_add :: "Sequence \<Rightarrow> draws \<Rightarrow> FeedGenerator \<Rightarrow> (Event \<times> FeedGenerator) option" where
  "emit_add seq d g = map_option (\<lambda>price. let oid = fg_next_order_id g in
     (EvAdd \<lparr>ao_sequence_number = seq, ao_timestamp_ns = fg_timestamp g, ao_order_id = oid, ao_instrument_id = dw_instrument d, ao_price = price,
        ao_quantity = dw_quantity d, ao_side = drawn_side d\<rparr>,
      g\<lparr>fg_mid_price := (fg_mid_price g)[unat (dw_instrument d) := price], fg_next_order_id := oid + 1,
        fg_open_orders := fg_open_orders g @ [\<lparr>oo_instrument_id = dw_instrument d, oo_order_id = oid\<rparr>], fg_adds_emitted := fg_adds_emitted g + 1\<rparr>))
     (Option.bind (mid_at (dw_instrument d) g) (\<lambda>mid. jittered mid d))"

text \<open>The chosen order is overwritten by the last one, which is then dropped.\<close>

definition emit_cancel :: "Sequence \<Rightarrow> draws \<Rightarrow> FeedGenerator \<Rightarrow> (Event \<times> FeedGenerator) option" where
  "emit_cancel seq d g = (let os = fg_open_orders g; idx = dw_index d (length os) in
     if os = [] \<or> idx \<ge> length os then None
     else Some (EvCancel \<lparr>co_sequence_number = seq, co_timestamp_ns = fg_timestamp g, co_order_id = oo_order_id (os ! idx), co_instrument_id = oo_instrument_id (os ! idx)\<rparr>,
       g\<lparr>fg_open_orders := butlast (os[idx := last os])\<rparr>))"

definition emit_modify :: "Sequence \<Rightarrow> draws \<Rightarrow> FeedGenerator \<Rightarrow> (Event \<times> FeedGenerator) option" where
  "emit_modify seq d g = (let os = fg_open_orders g; idx = dw_index d (length os) in
     if idx \<ge> length os then None
     else map_option (\<lambda>price. (EvModify \<lparr>mo_sequence_number = seq, mo_timestamp_ns = fg_timestamp g, mo_order_id = oo_order_id (os ! idx),
         mo_instrument_id = oo_instrument_id (os ! idx), mo_new_price = price, mo_new_quantity = dw_quantity d\<rparr>, g))
       (Option.bind (mid_at (oo_instrument_id (os ! idx)) g) (\<lambda>mid. jittered mid d)))"

definition emit_trade :: "Sequence \<Rightarrow> draws \<Rightarrow> FeedGenerator \<Rightarrow> (Event \<times> FeedGenerator) option" where
  "emit_trade seq d g = map_option (\<lambda>mid. (EvTrade \<lparr>tr_sequence_number = seq, tr_timestamp_ns = fg_timestamp g, tr_instrument_id = dw_instrument d,
      tr_price = mid, tr_quantity = dw_quantity d, tr_aggressor_side = drawn_side d\<rparr>, g)) (mid_at (dw_instrument d) g)"

definition emit_clear :: "Sequence \<Rightarrow> draws \<Rightarrow> FeedGenerator \<Rightarrow> (Event \<times> FeedGenerator) option" where
  "emit_clear seq d g = Some (EvClear \<lparr>cb_sequence_number = seq, cb_timestamp_ns = fg_timestamp g, cb_instrument_id = dw_instrument d\<rparr>,
     g\<lparr>fg_open_orders := filter (\<lambda>o1. oo_instrument_id o1 \<noteq> dw_instrument d) (fg_open_orders g)\<rparr>)"

text \<open>One round of the loop, and the loop.\<close>

definition generate_event :: "draws \<Rightarrow> FeedGenerator \<Rightarrow> (Event \<times> FeedGenerator) option" where
  "generate_event d g0 = (let g = g0\<lparr>fg_timestamp := fg_timestamp g0 + dw_step d, fg_next_seq := fg_next_seq g0 + 1\<rparr>; seq = fg_next_seq g0 in
     case pick_kind d g of
       KindAdd \<Rightarrow> emit_add seq d g
     | KindCancel \<Rightarrow> emit_cancel seq d g
     | KindModify \<Rightarrow> emit_modify seq d g
     | KindTrade \<Rightarrow> emit_trade seq d g
     | KindClear \<Rightarrow> emit_clear seq d g)"

fun generate_feed :: "u64 \<Rightarrow> draws list \<Rightarrow> FeedGenerator \<Rightarrow> (Event list \<times> FeedGenerator) option" where
  "generate_feed orders [] g = Some ([], g)"
| "generate_feed orders (d # ds) g = (if fg_adds_emitted g < orders
     then Option.bind (generate_event d g) (\<lambda>(ev, g1). map_option (\<lambda>(evs, g2). (ev # evs, g2)) (generate_feed orders ds g1))
     else Some ([], g))"

subsection \<open>What it keeps\<close>

text \<open>
  The open orders are exactly the orders resting at a subscriber that has applied what was emitted; their ids are distinct and below the next one.
  A price moves by at most 50 with each order added.
\<close>

definition open_ids :: "OpenOrder list \<Rightarrow> InstrumentId \<Rightarrow> OrderId set" where
  "open_ids os i = oo_order_id ` {o1 \<in> set os. oo_instrument_id o1 = i}"

definition generator_ok :: "u32 \<Rightarrow> FeedGenerator \<Rightarrow> market_entries \<Rightarrow> bool" where
  "generator_ok instruments g es \<longleftrightarrow> length (fg_mid_price g) = unat instruments + 1 \<and>
     (\<forall>m \<in> set (fg_mid_price g). 0 \<le> ival m \<and> ival m \<le> 2 ^ 43 + 50 * int (unat (fg_next_order_id g))) \<and> distinct (fg_open_orders g) \<and>
     (\<forall>o1 \<in> set (fg_open_orders g). oo_instrument_id o1 \<le> instruments \<and> oo_order_id o1 < fg_next_order_id g) \<and>
     (\<forall>i. en_id ` set (es i) = open_ids (fg_open_orders g) i)"

lemma open_ids_append: "open_ids (os @ [o1]) i = (if oo_instrument_id o1 = i then insert (oo_order_id o1) (open_ids os i) else open_ids os i)"
  by (auto simp: open_ids_def)

lemma spec_find_ids: "spec_find oid xs = None \<longleftrightarrow> oid \<notin> en_id ` set xs"
  by (auto simp: spec_find_def find_None_iff)

lemma at_least_100_pos: "\<not> at_least_100 p \<le> 0"
proof -
  have "(0 :: i64) < 100" by code_simp
  then show ?thesis by (auto simp: at_least_100_def not_le intro: less_le_trans)
qed

lemma mid_at_ok: "generator_ok instruments g es \<Longrightarrow> i \<le> instruments \<Longrightarrow> \<exists>mid. mid_at i g = Some mid \<and> mid \<in> set (fg_mid_price g)"
  by (auto simp: mid_at_def generator_ok_def word_le_nat_alt)

lemma at_least_100_bounds: "ival p \<le> b \<Longrightarrow> 100 \<le> b \<Longrightarrow> 0 \<le> ival (at_least_100 p) \<and> ival (at_least_100 p) \<le> b"
proof -
  have "ival 100 = 100" by code_simp
  then show "ival p \<le> b \<Longrightarrow> 100 \<le> b \<Longrightarrow> 0 \<le> ival (at_least_100 p) \<and> ival (at_least_100 p) \<le> b"
    by (auto simp: at_least_100_def less_i64_def)
qed

lemma jittered_ok:
  assumes "generator_ok instruments g es" "draws_ok instruments d" "i \<le> instruments" "unat (fg_next_order_id g) + 1 < 2 ^ 56"
  shows "\<exists>price. Option.bind (mid_at i g) (\<lambda>mid. jittered mid d) = Some price \<and> \<not> price \<le> 0 \<and> 0 \<le> ival price \<and>
    ival price \<le> 2 ^ 43 + 50 * (int (unat (fg_next_order_id g)) + 1)"
proof -
  obtain mid where mid: "mid_at i g = Some mid" "mid \<in> set (fg_mid_price g)" using mid_at_ok [OF assms(1,3)] by blast
  then have b: "0 \<le> ival mid" "ival mid \<le> 2 ^ 43 + 50 * int (unat (fg_next_order_id g))" using assms(1) by (auto simp: generator_ok_def)
  have j: "- 50 \<le> ival (dw_jitter d)" "ival (dw_jitter d) \<le> 50" using assms(2) by (auto simp: draws_ok_def)
  define n where "n = int (unat (fg_next_order_id g))"
  have "int (unat (fg_next_order_id g) + 1) < int (2 ^ 56)" using assms(4) by (subst of_nat_less_iff)
  then have "n + 1 < 2 ^ 56" by (simp add: n_def)
  then have "in_i64 (ival mid + ival (dw_jitter d))" using b j unfolding n_def [symmetric] by (simp add: in_i64_def)
  moreover from this have "ival (mid + dw_jitter d) = ival mid + ival (dw_jitter d)" by (rule ival_add)
  ultimately show ?thesis
    using mid(1) b j at_least_100_pos at_least_100_bounds [of "mid + dw_jitter d" "2 ^ 43 + 50 * (int (unat (fg_next_order_id g)) + 1)"]
    by (simp add: jittered_def)
qed

definition emitted_ok :: "u32 \<Rightarrow> FeedGenerator \<Rightarrow> market_entries \<Rightarrow> (Event \<times> FeedGenerator) option \<Rightarrow> Sequence \<Rightarrow> bool" where
  "emitted_ok instruments g es r seq \<longleftrightarrow> (\<exists>ev g' es'. r = Some (ev, g') \<and> sequence_of ev = seq \<and> fg_next_seq g' = fg_next_seq g \<and>
     fg_next_order_id g' \<in> {fg_next_order_id g, fg_next_order_id g + 1} \<and> clean_ops (event_ops [ev]) es = Some es' \<and> generator_ok instruments g' es')"

lemma emit_add_ok:
  assumes "generator_ok instruments g es" "draws_ok instruments d" "unat (fg_next_order_id g) + 1 < 2 ^ 56"
  shows "emitted_ok instruments g es (emit_add seq d g) seq"
proof -
  let ?i = "dw_instrument d" and ?oid = "fg_next_order_id g"
  obtain price where price: "Option.bind (mid_at ?i g) (\<lambda>mid. jittered mid d) = Some price" "\<not> price \<le> 0" "0 \<le> ival price"
    "ival price \<le> 2 ^ 43 + 50 * (int (unat ?oid) + 1)"
    using jittered_ok [OF assms(1,2) _ assms(3), of ?i] assms(2) by (auto simp: draws_ok_def)
  have next_id: "unat (?oid + 1) = unat ?oid + 1" using assms(3) by (simp add: unat_word_ariths)
  then have above: "?oid < ?oid + 1" by (simp add: word_less_nat_alt)
  have fresh: "spec_find ?oid (es ?i) = None" using assms(1) unfolding spec_find_ids generator_ok_def open_ids_def by auto
  have "dw_quantity d \<noteq> 0" using assms(2) by (auto simp: draws_ok_def)
  then have "clean_ops [(?i, OpAdd ?oid price (dw_quantity d) (drawn_side d))] es =
      Some (es(?i := es ?i @ [\<lparr>en_id = ?oid, en_side = drawn_side d, en_price = price, en_quantity = dw_quantity d\<rparr>]))"
    using fresh price(2) by simp
  moreover have "0 \<le> ival m \<and> ival m \<le> 2 ^ 43 + 50 * int (unat ?oid + 1)" if "m \<in> set ((fg_mid_price g)[unat ?i := price])" for m
    using assms(1) price(3,4) set_update_subset_insert [of "fg_mid_price g" "unat ?i" price] that unfolding generator_ok_def by fastforce
  then have "generator_ok instruments (g\<lparr>fg_mid_price := (fg_mid_price g)[unat ?i := price], fg_next_order_id := ?oid + 1,
        fg_open_orders := fg_open_orders g @ [\<lparr>oo_instrument_id = ?i, oo_order_id = ?oid\<rparr>], fg_adds_emitted := fg_adds_emitted g + 1\<rparr>)
      (es(?i := es ?i @ [\<lparr>en_id = ?oid, en_side = drawn_side d, en_price = price, en_quantity = dw_quantity d\<rparr>]))"
    using assms(1,2) above next_id unfolding generator_ok_def draws_ok_def by (auto simp: open_ids_append intro: less_trans)
  ultimately show ?thesis using price(1) unfolding emitted_ok_def
    by (auto simp: emit_add_def sequence_of_def Let_def)
qed

lemma swap_remove_set:
  assumes "distinct os" "i < length os"
  shows "set (butlast (os[i := last os])) = set os - {os ! i}" "distinct (butlast (os[i := last os]))"
proof -
  obtain ys y where os: "os = ys @ [y]" using assms(2) by (cases os rule: rev_cases) auto
  have "set (butlast (os[i := last os])) = set os - {os ! i} \<and> distinct (butlast (os[i := last os]))"
  proof (cases "i = length ys")
    case True
    then show ?thesis using os assms(1) by (auto simp: butlast_append)
  next
    case False
    then have i: "i < length ys" using assms(2) os by simp
    then have "butlast (os[i := last os]) = ys[i := y]" "os ! i = ys ! i" using os by (simp_all add: list_update_append nth_append)
    moreover have "set (ys[i := y]) = insert y (set ys - {ys ! i})" using assms(1) os i by (simp add: set_update_distinct)
    moreover have "distinct (ys[i := y])" using assms(1) os by (simp add: distinct_list_update)
    ultimately show ?thesis using assms(1) os i by (auto simp: in_set_conv_nth)
  qed
  then show "set (butlast (os[i := last os])) = set os - {os ! i}" "distinct (butlast (os[i := last os]))" by auto
qed

lemma chosen_open:
  assumes "generator_ok instruments g es" "i < length (fg_open_orders g)"
  shows "oo_order_id (fg_open_orders g ! i) \<in> en_id ` set (es (oo_instrument_id (fg_open_orders g ! i)))"
  using assms unfolding generator_ok_def open_ids_def by auto

lemma emit_cancel_ok:
  assumes "generator_ok instruments g es" "draws_ok instruments d" "fg_open_orders g \<noteq> []"
  shows "emitted_ok instruments g es (emit_cancel seq d g) seq"
proof -
  let ?os = "fg_open_orders g"
  define idx where "idx = dw_index d (length ?os)"
  define i where "i = oo_instrument_id (?os ! idx)"
  define oid where "oid = oo_order_id (?os ! idx)"
  have idx: "idx < length ?os" using assms(2,3) by (simp add: draws_ok_def idx_def)
  have dist: "distinct ?os" using assms(1) by (simp add: generator_ok_def)
  note S = swap_remove_set [OF dist idx]
  have "clean_ops [(i, OpCancel oid)] es = Some (es(i := spec_remove oid (es i)))"
    using chosen_open [OF assms(1) idx] by (simp add: spec_find_ids i_def oid_def)
  moreover have "generator_ok instruments (g\<lparr>fg_open_orders := butlast (?os[idx := last ?os])\<rparr>) (es(i := spec_remove oid (es i)))"
  proof -
    have "en_id ` set (spec_remove oid (es i)) = en_id ` set (es i) - {oid}" by (auto simp: spec_remove_def)
    moreover have "open_ids (butlast (?os[idx := last ?os])) i = open_ids ?os i - {oid}"
      unfolding open_ids_def S(1) by (auto simp: i_def oid_def)
    moreover have "open_ids (butlast (?os[idx := last ?os])) j = open_ids ?os j" if "j \<noteq> i" for j
      using that unfolding open_ids_def S(1) by (auto simp: i_def)
    ultimately show ?thesis using assms(1) S unfolding generator_ok_def by auto
  qed
  ultimately show ?thesis using idx assms(3) unfolding emitted_ok_def
    by (auto simp: emit_cancel_def sequence_of_def Let_def idx_def [symmetric] i_def oid_def)
qed

lemma emit_modify_ok:
  assumes "generator_ok instruments g es" "draws_ok instruments d" "fg_open_orders g \<noteq> []" "unat (fg_next_order_id g) + 1 < 2 ^ 56"
  shows "emitted_ok instruments g es (emit_modify seq d g) seq"
proof -
  let ?os = "fg_open_orders g"
  define idx where "idx = dw_index d (length ?os)"
  define i where "i = oo_instrument_id (?os ! idx)"
  define oid where "oid = oo_order_id (?os ! idx)"
  have idx: "idx < length ?os" using assms(2,3) by (simp add: draws_ok_def idx_def)
  then have "i \<le> instruments" using assms(1) by (auto simp: generator_ok_def i_def)
  then obtain price where price: "Option.bind (mid_at i g) (\<lambda>mid. jittered mid d) = Some price" "\<not> price \<le> 0"
    using jittered_ok [OF assms(1,2) _ assms(4), of i] by blast
  have "dw_quantity d \<noteq> 0" using assms(2) by (auto simp: draws_ok_def)
  have here: "oid \<in> en_id ` set (es i)" using chosen_open [OF assms(1) idx] by (simp add: i_def oid_def)
  then obtain e where e: "spec_find oid (es i) = Some e" using spec_find_ids [of oid "es i"] by auto
  then have "en_id e = oid" by (auto simp: spec_find_def find_Some_iff)
  let ?xs = "spec_remove oid (es i) @ [e\<lparr>en_price := price, en_quantity := dw_quantity d\<rparr>]"
  have "clean_ops [(i, OpModify oid price (dw_quantity d))] es = Some (es(i := ?xs))"
    using e \<open>dw_quantity d \<noteq> 0\<close> price(2) by simp
  moreover have "en_id ` set ?xs = en_id ` set (es i)" using here \<open>en_id e = oid\<close> by (auto simp: spec_remove_def)
  then have "generator_ok instruments g (es(i := ?xs))" using assms(1) unfolding generator_ok_def by auto
  ultimately show ?thesis using idx price(1) unfolding emitted_ok_def
    by (auto simp: emit_modify_def sequence_of_def Let_def idx_def [symmetric] i_def oid_def)
qed

lemma emit_trade_ok:
  assumes "generator_ok instruments g es" "draws_ok instruments d"
  shows "emitted_ok instruments g es (emit_trade seq d g) seq"
proof -
  obtain mid where "mid_at (dw_instrument d) g = Some mid" using mid_at_ok [OF assms(1)] assms(2) by (auto simp: draws_ok_def)
  then show ?thesis using assms(1) by (auto simp: emitted_ok_def emit_trade_def sequence_of_def)
qed

lemma emit_clear_ok:
  assumes "generator_ok instruments g es"
  shows "emitted_ok instruments g es (emit_clear seq d g) seq"
proof -
  let ?i = "dw_instrument d"
  have "generator_ok instruments (g\<lparr>fg_open_orders := filter (\<lambda>o1. oo_instrument_id o1 \<noteq> ?i) (fg_open_orders g)\<rparr>) (es(?i := []))"
    using assms unfolding generator_ok_def open_ids_def by auto
  then show ?thesis by (auto simp: emitted_ok_def emit_clear_def sequence_of_def)
qed

lemma generate_event_ok:
  assumes "generator_ok instruments g es" "draws_ok instruments d" "unat (fg_next_order_id g) + 1 < 2 ^ 56"
  shows "\<exists>ev g' es'. generate_event d g = Some (ev, g') \<and> sequence_of ev = fg_next_seq g \<and> fg_next_seq g' = fg_next_seq g + 1 \<and>
    unat (fg_next_order_id g') \<le> unat (fg_next_order_id g) + 1 \<and> clean_ops (event_ops [ev]) es = Some es' \<and> generator_ok instruments g' es'"
proof -
  let ?g = "g\<lparr>fg_timestamp := fg_timestamp g + dw_step d, fg_next_seq := fg_next_seq g + 1\<rparr>"
  have ok: "generator_ok instruments ?g es" "unat (fg_next_order_id ?g) + 1 < 2 ^ 56" using assms(1,3) by (simp_all add: generator_ok_def)
  have "emitted_ok instruments ?g es (generate_event d g) (fg_next_seq g)"
    using emit_add_ok [OF ok(1) assms(2) ok(2)] emit_cancel_ok [OF ok(1) assms(2)] emit_modify_ok [OF ok(1) assms(2) _ ok(2)]
      emit_trade_ok [OF ok(1) assms(2)] emit_clear_ok [OF ok(1)]
    by (simp add: generate_event_def Let_def pick_kind_def)
  moreover have "unat (fg_next_order_id g + 1) \<le> unat (fg_next_order_id g) + 1" by (simp add: unat_word_ariths)
  ultimately show ?thesis by (auto simp: emitted_ok_def)
qed

lemma generate_feed_ok:
  assumes "generator_ok instruments g es" "\<forall>d \<in> set ds. draws_ok instruments d" "unat (fg_next_order_id g) + length ds < 2 ^ 56"
  shows "\<exists>evs g' es'. generate_feed orders ds g = Some (evs, g') \<and> gapless (Some (fg_next_seq g - 1)) evs \<and> clean_ops (event_ops evs) es = Some es'"
  using assms
proof (induction ds arbitrary: g es)
  case (Cons d ds)
  show ?case
  proof (cases "fg_adds_emitted g < orders")
    case True
    obtain ev g1 es1 where 1: "generate_event d g = Some (ev, g1)" "sequence_of ev = fg_next_seq g" "fg_next_seq g1 = fg_next_seq g + 1"
      "unat (fg_next_order_id g1) \<le> unat (fg_next_order_id g) + 1" "clean_ops (event_ops [ev]) es = Some es1" "generator_ok instruments g1 es1"
      using generate_event_ok [OF Cons.prems(1), of d] Cons.prems(2,3) by auto
    then obtain evs g2 es2 where 2: "generate_feed orders ds g1 = Some (evs, g2)" "gapless (Some (fg_next_seq g1 - 1)) evs" "clean_ops (event_ops evs) es1 = Some es2"
      using Cons.IH [OF 1(6)] Cons.prems(2,3) by fastforce
    have "event_ops (ev # evs) = event_ops [ev] @ event_ops evs" by (simp split: option.splits)
    then have "clean_ops (event_ops (ev # evs)) es = Some es2" using 1(5) 2(3) by (simp only: clean_ops_append bind.bind_lunit)
    then show ?thesis using 1(1-3) 2(1,2) True by simp
  qed simp
qed simp

text \<open>Replaying the frames of events that a subscriber applies without an error.\<close>

lemma replay_clean:
  assumes "gapless v evs" "clean_ops (event_ops evs) es = Some es'" "manager_entries (rp_books out) es"
  shows "\<exists>out'. event_replay_loop fs options v out (concat (map event_frame evs)) = Some out' \<and> rp_stopped_early out' = rp_stopped_early out \<and>
    rs_messages_processed (rp_stats out') = rs_messages_processed (rp_stats out) + of_nat (length evs) \<and>
    rs_sequence_failures (rp_stats out') = rs_sequence_failures (rp_stats out) \<and> rs_decode_failures (rp_stats out') = rs_decode_failures (rp_stats out) \<and>
    rs_book_errors (rp_stats out') = rs_book_errors (rp_stats out)"
  using assms
proof (induction evs arbitrary: v out es)
  case Nil
  then show ?case by (simp add: replay_end)
next
  case (Cons ev evs)
  obtain out1 where 1: "process_event ev out = Some out1" "manager_entries (rp_books out1) (spec_event ev es)" "rp_stopped_early out1 = rp_stopped_early out"
    "rs_messages_processed (rp_stats out1) = rs_messages_processed (rp_stats out) + 1" "rs_sequence_failures (rp_stats out1) = rs_sequence_failures (rp_stats out)"
    "rs_decode_failures (rp_stats out1) = rs_decode_failures (rp_stats out)"
    using process_event_entries [OF Cons.prems(3), of ev] by blast
  obtain m st where a: "apply_event ev (rp_books out) ((rp_stats out)\<lparr>rs_messages_processed := rs_messages_processed (rp_stats out) + 1\<rparr>) = Some (m, st)"
    "rp_stats out1 = st" using 1(1) by (auto simp: process_event_def add_stats_def Let_def split: bind_splits)
  have "clean_ops (event_ops evs) (spec_event ev es) = Some es'" "rs_book_errors (rp_stats out1) = rs_book_errors (rp_stats out)"
    using Cons.prems(2) apply_event_errors [OF Cons.prems(3) a(1)] a(2) by (auto simp: spec_event_def split: option.splits prod.splits)
  then show ?case using Cons.IH [OF _ _ 1(2), of "Some (sequence_of ev)"] Cons.prems(1) 1(1,3-6)
      replay_in_order [of ev v fs options out "concat (map event_frame evs)"] by auto
qed

lemma fill_mids_ok:
  assumes "\<forall>i \<in> set is. i < length mids \<and> i < 2 ^ 32" "\<forall>m \<in> set mids. 0 \<le> ival m \<and> ival m \<le> 2 ^ 43"
  shows "\<exists>mids'. fill_mids is mids = Some mids' \<and> length mids' = length mids \<and> (\<forall>m \<in> set mids'. 0 \<le> ival m \<and> ival m \<le> 2 ^ 43)"
  using assms
proof (induction "is" arbitrary: mids)
  case (Cons i "is")
  let ?m = "100000 + of_nat i * 1000 :: Price"
  have "i < 2 ^ 32" using Cons.prems(1) by simp
  then have "ival ?m = 100000 + int i * 1000" by (intro ival_word_of_int) (simp_all add: in_i64_def)
  then have "0 \<le> ival ?m \<and> ival ?m \<le> 2 ^ 43" using \<open>i < 2 ^ 32\<close> by simp
  then have "\<forall>m \<in> set (mids[i := ?m]). 0 \<le> ival m \<and> ival m \<le> 2 ^ 43"
    using Cons.prems(2) set_update_subset_insert [of mids i ?m] by blast
  then show ?case using Cons.IH [of "mids[i := ?m]"] Cons.prems(1) by simp
qed simp

lemma new_generator_ok:
  assumes "instruments \<noteq> 2 ^ 32 - 1"
  obtains g where "new_generator instruments = Some g" "generator_ok instruments g (\<lambda>_. [])" "fg_next_seq g = 1" "fg_next_order_id g = 1"
proof -
  have n: "unat (instruments + 1) = unat instruments + 1"
  proof -
    have "instruments + 1 \<noteq> 0" using assms by (auto simp: add_eq_0_iff2)
    then show ?thesis using unatSuc [of instruments] by (simp add: add.commute)
  qed
  have z: "ival 0 = 0" by (simp add: ival_def)
  have b: "unat instruments < 2 ^ 32" using unsigned_less [of instruments, where ?'a = nat] by simp
  let ?is = "[1..<unat instruments + 1]" and ?z = "replicate (unat (instruments + 1)) (0 :: Price)"
  have "\<forall>i \<in> set ?is. i < length ?z \<and> i < 2 ^ 32" unfolding n using b by auto
  moreover have "\<forall>m \<in> set ?z. 0 \<le> ival m \<and> ival m \<le> 2 ^ 43" using z by simp
  ultimately obtain mids where "fill_mids ?is ?z = Some mids" "length mids = unat instruments + 1"
    "\<forall>m \<in> set mids. 0 \<le> ival m \<and> ival m \<le> 2 ^ 43"
    using fill_mids_ok [of ?is ?z] n by auto
  then show ?thesis
    by (intro that) (fastforce simp: new_generator_def generator_ok_def open_ids_def simp del: upt_Suc replicate_Suc)+
qed

text \<open>With \<open>2 ^ 32 - 1\<close> instruments the vector is empty and its first write is outside.\<close>

theorem generator_overflows_price_vector: "new_generator (2 ^ 32 - 1) = None"
proof -
  have c: "[1..<k + 1] = 1 # [Suc 1..<k + 1]" if "0 < k" for k :: nat using that by (intro upt_conv_Cons) simp
  have p: "0 < unat (2 ^ 32 - 1 :: u32)" and z: "unat (2 ^ 32 - 1 + 1 :: u32) = 0" by simp_all
  show ?thesis
    unfolding new_generator_def c [OF p] z by (simp only: fill_mids.simps replicate_0 list.size not_less_zero if_False option.map)
qed

text \<open>
  C25. Every feed the generator writes is valid, as its description says. For every number of instruments but \<open>2 ^ 32 - 1\<close>, whatever the random source draws and for fewer than
  \<open>2 ^ 56 - 1\<close> rounds, the program never leaves the price vector or the open orders and no price overflows, the events are numbered from 1 without a gap, and replaying the file
  counts every event and not one failure: no decode error, no gap, no order unknown or already there, no bad price or quantity.
\<close>

theorem generated_feed_valid:
  assumes "instruments \<noteq> 2 ^ 32 - 1" "\<forall>d \<in> set ds. draws_ok instruments d" "length ds < 2 ^ 56 - 1"
  shows "\<exists>evs g. Option.bind (new_generator instruments) (generate_feed orders ds) = Some (evs, g) \<and> gapless (Some 0) evs \<and>
    (\<forall>fs path options. fs path = Some (event_file_of evs) \<longrightarrow> (\<exists>out. run_replay fs path options = Some out \<and> \<not> rp_stopped_early out \<and>
      rs_messages_processed (rp_stats out) = of_nat (length evs) \<and> rs_sequence_failures (rp_stats out) = 0 \<and> rs_decode_failures (rp_stats out) = 0 \<and>
      rs_book_errors (rp_stats out) = 0))"
proof -
  obtain g0 where g0: "new_generator instruments = Some g0" "generator_ok instruments g0 (\<lambda>_. [])" "fg_next_seq g0 = 1" "fg_next_order_id g0 = 1"
    by (rule new_generator_ok [OF assms(1)])
  then have "unat (fg_next_order_id g0) + length ds < 2 ^ 56" using assms(3) by simp
  then obtain evs g es where g: "generate_feed orders ds g0 = Some (evs, g)" "gapless (Some 0) evs" "clean_ops (event_ops evs) (\<lambda>_. []) = Some es"
    using generate_feed_ok [OF g0(2) assms(2), of orders] g0(3) by auto
  have start: "manager_entries (rp_books new_outcome) (\<lambda>_. [])" by (simp add: new_outcome_def new_book_manager_entries)
  have "\<exists>out. run_replay fs path options = Some out \<and> \<not> rp_stopped_early out \<and>
      rs_messages_processed (rp_stats out) = of_nat (length evs) \<and> rs_sequence_failures (rp_stats out) = 0 \<and> rs_decode_failures (rp_stats out) = 0 \<and>
      rs_book_errors (rp_stats out) = 0" if "fs path = Some (event_file_of evs)" for fs path options
    using replay_clean [OF gapless_start [OF g(2)] g(3) start, of fs options] that
    by (auto simp: run_replay_def event_file_frames new_outcome_def new_replay_stats_def)
  then show ?thesis using g(1,2) g0(1) by auto
qed

text \<open>An order of instrument 1 is added and then cancelled, another one is added.\<close>

definition sample_draws :: "nat \<Rightarrow> draws" where
  "sample_draws roll = \<lparr>dw_step = 7, dw_roll = roll, dw_instrument = 1, dw_side = True, dw_jitter = 3, dw_quantity = 20, dw_index = (\<lambda>_. 0)\<rparr>"

theorem generated_feed_valid_witness:
  "\<exists>evs g. Option.bind (new_generator 1) (generate_feed 2 [sample_draws 5, sample_draws 80, sample_draws 5]) = Some (evs, g) \<and> gapless (Some 0) evs \<and>
    (\<forall>fs path options. fs path = Some (event_file_of evs) \<longrightarrow> (\<exists>out. run_replay fs path options = Some out \<and> \<not> rp_stopped_early out \<and>
      rs_messages_processed (rp_stats out) = of_nat (length evs) \<and> rs_sequence_failures (rp_stats out) = 0 \<and> rs_decode_failures (rp_stats out) = 0 \<and>
      rs_book_errors (rp_stats out) = 0))"
  by (rule generated_feed_valid) (simp_all add: draws_ok_def sample_draws_def ival_def)

end
