(* ===== verification/Spsc_Queue.thy ===== *)
theory Spsc_Queue
  imports Prelude
begin

text \<open>
  The single-producer single-consumer ring buffer (\<open>common/spsc_queue.hpp\<close>) and the queue that drops
  when full (\<open>common/dropping_queue.hpp\<close>). Two views of the same code: \<open>try_push\<close> and \<open>try_pop\<close> as
  functions on the queue, and the threads' individual loads, slot accesses and stores as steps that
  interleave freely. The indices are 64-bit words that wrap; a slot is \<open>None\<close> while no object is
  constructed in it. Steps are sequentially consistent: the acquire/release pairs order the slot
  accesses with the index accesses, which are the only shared locations.
\<close>

subsection \<open>The queue\<close>

record 'a SpscQueue =
  sq_capacity :: u64
  sq_mask :: u64
  sq_storage :: "'a option list"
  sq_high_water_mark :: u64
  sq_head :: u64
  sq_tail :: u64

partial_function (option) next_power_of_two_from :: "u64 \<Rightarrow> u64 \<Rightarrow> u64 option" where
  "next_power_of_two_from p n = (if p < n then next_power_of_two_from (push_bit 1 p) n else Some p)"

declare next_power_of_two_from.simps [code]

definition next_power_of_two :: "u64 \<Rightarrow> u64 option" where
  "next_power_of_two n = next_power_of_two_from 1 n"

definition new_spsc :: "u64 \<Rightarrow> 'a SpscQueue option" where
  "new_spsc capacity = do {
     c \<leftarrow> next_power_of_two capacity;
     Some \<lparr>sq_capacity = c, sq_mask = c - 1, sq_storage = replicate (unat c) None, sq_high_water_mark = 0,
       sq_head = 0, sq_tail = 0\<rparr>
   }"

definition slot_of :: "'a SpscQueue \<Rightarrow> u64 \<Rightarrow> nat" where
  "slot_of q i = unat (i AND sq_mask q)"

text \<open>
  \<open>construct_at\<close> needs an empty slot inside the storage, reading and \<open>destroy_at\<close> one with an object
  in it; anything else is \<open>None\<close>.
\<close>

definition construct_at :: "'a SpscQueue \<Rightarrow> nat \<Rightarrow> 'a \<Rightarrow> 'a SpscQueue option" where
  "construct_at q i v =
     (if i < length (sq_storage q) \<and> sq_storage q ! i = None then Some (q\<lparr>sq_storage := (sq_storage q)[i := Some v]\<rparr>) else None)"

definition read_slot :: "'a SpscQueue \<Rightarrow> nat \<Rightarrow> 'a option" where
  "read_slot q i = (if i < length (sq_storage q) then sq_storage q ! i else None)"

definition destroy_at :: "'a SpscQueue \<Rightarrow> nat \<Rightarrow> 'a SpscQueue option" where
  "destroy_at q i =
     (if i < length (sq_storage q) \<and> sq_storage q ! i \<noteq> None then Some (q\<lparr>sq_storage := (sq_storage q)[i := None]\<rparr>) else None)"

definition note_occupancy :: "'a SpscQueue \<Rightarrow> u64 \<Rightarrow> 'a SpscQueue" where
  "note_occupancy q new_occupancy =
     (if new_occupancy > sq_high_water_mark q then q\<lparr>sq_high_water_mark := new_occupancy\<rparr> else q)"

definition try_push :: "'a SpscQueue \<Rightarrow> 'a \<Rightarrow> ('a SpscQueue \<times> bool) option" where
  "try_push q value = (let head = sq_head q; tail = sq_tail q in
     if head - tail \<ge> sq_capacity q then Some (q, False)
     else do {
       q1 \<leftarrow> construct_at q (slot_of q head) value;
       let q2 = note_occupancy q1 (head + 1 - tail);
       Some (q2\<lparr>sq_head := head + 1\<rparr>, True)
     })"

definition try_pop :: "'a SpscQueue \<Rightarrow> ('a SpscQueue \<times> 'a option) option" where
  "try_pop q = (let tail = sq_tail q; head = sq_head q in
     if tail = head then Some (q, None)
     else do {
       v \<leftarrow> read_slot q (slot_of q tail);
       q1 \<leftarrow> destroy_at q (slot_of q tail);
       Some (q1\<lparr>sq_tail := tail + 1\<rparr>, Some v)
     })"

definition spsc_size :: "'a SpscQueue \<Rightarrow> u64" where
  "spsc_size q = sq_head q - sq_tail q"

text \<open>The destructor destroys what is still waiting; the loop runs from \<open>tail_\<close> up to \<open>head_\<close>.\<close>

partial_function (option) destroy_from :: "u64 \<Rightarrow> 'a SpscQueue \<Rightarrow> 'a SpscQueue option" where
  "destroy_from i q = (if i = sq_head q then Some q
     else Option.bind (destroy_at q (slot_of q i)) (\<lambda>q1. destroy_from (i + 1) q1))"

declare destroy_from.simps [code]

definition destroy_spsc :: "'a SpscQueue \<Rightarrow> 'a SpscQueue option" where
  "destroy_spsc q = destroy_from (sq_tail q) q"

subsection \<open>The queue that drops\<close>

record 'a DroppingQueue =
  dq_queue :: "'a SpscQueue"
  dq_dropped_count :: u64

definition new_dropping_queue :: "u64 \<Rightarrow> 'a DroppingQueue option" where
  "new_dropping_queue capacity = do {
     q \<leftarrow> new_spsc capacity;
     Some \<lparr>dq_queue = q, dq_dropped_count = 0\<rparr>
   }"

definition dq_push :: "'a DroppingQueue \<Rightarrow> 'a \<Rightarrow> ('a DroppingQueue \<times> bool) option" where
  "dq_push d value = do {
     (q, pushed) \<leftarrow> try_push (dq_queue d) value;
     Some (if pushed then (d\<lparr>dq_queue := q\<rparr>, True)
           else (d\<lparr>dq_queue := q, dq_dropped_count := dq_dropped_count d + 1\<rparr>, False))
   }"

definition dq_try_pop :: "'a DroppingQueue \<Rightarrow> ('a DroppingQueue \<times> 'a option) option" where
  "dq_try_pop d = do {
     (q, v) \<leftarrow> try_pop (dq_queue d);
     Some (d\<lparr>dq_queue := q\<rparr>, v)
   }"

subsection \<open>The two threads\<close>

text \<open>Where each thread stands inside \<open>try_push\<close> and \<open>try_pop\<close>, with its local variables.\<close>

datatype 'a producer = PIdle | PHead 'a u64 | PRoom 'a u64 u64 | PBuilt 'a u64 u64 | PMarked 'a u64

datatype 'a consumer = CIdle | CTail u64 | CReady u64 | CMoved u64 'a | CDestroyed u64 'a

record 'a spsc_state =
  ss_queue :: "'a SpscQueue"
  ss_producer :: "'a producer"
  ss_consumer :: "'a consumer"
  ss_pushed :: "'a list"
  ss_popped :: "'a list"

text \<open>
  One atomic action of the producer; \<open>v\<close> is the argument of the next \<open>try_push\<close>. The ghost list
  \<open>ss_pushed\<close> grows when the slot is published, \<open>ss_popped\<close> when a value is handed back.
\<close>

fun producer_step :: "'a \<Rightarrow> 'a spsc_state \<Rightarrow> 'a spsc_state option" where
  "producer_step v s = (let q = ss_queue s in case ss_producer s of
     PIdle \<Rightarrow> Some (s\<lparr>ss_producer := PHead v (sq_head q)\<rparr>)
   | PHead v head \<Rightarrow>
       let tail = sq_tail q in
       Some (if head - tail \<ge> sq_capacity q then s\<lparr>ss_producer := PIdle\<rparr> else s\<lparr>ss_producer := PRoom v head tail\<rparr>)
   | PRoom v head tail \<Rightarrow> do {
       q' \<leftarrow> construct_at q (slot_of q head) v;
       Some (s\<lparr>ss_queue := q', ss_producer := PBuilt v head tail\<rparr>)
     }
   | PBuilt v head tail \<Rightarrow> Some (s\<lparr>ss_queue := note_occupancy q (head + 1 - tail), ss_producer := PMarked v head\<rparr>)
   | PMarked v head \<Rightarrow>
       Some (s\<lparr>ss_queue := q\<lparr>sq_head := head + 1\<rparr>, ss_producer := PIdle, ss_pushed := ss_pushed s @ [v]\<rparr>))"

fun consumer_step :: "'a spsc_state \<Rightarrow> 'a spsc_state option" where
  "consumer_step s = (let q = ss_queue s in case ss_consumer s of
     CIdle \<Rightarrow> Some (s\<lparr>ss_consumer := CTail (sq_tail q)\<rparr>)
   | CTail tail \<Rightarrow> Some (if tail = sq_head q then s\<lparr>ss_consumer := CIdle\<rparr> else s\<lparr>ss_consumer := CReady tail\<rparr>)
   | CReady tail \<Rightarrow> do {
       v \<leftarrow> read_slot q (slot_of q tail);
       Some (s\<lparr>ss_consumer := CMoved tail v\<rparr>)
     }
   | CMoved tail v \<Rightarrow> do {
       q' \<leftarrow> destroy_at q (slot_of q tail);
       Some (s\<lparr>ss_queue := q', ss_consumer := CDestroyed tail v\<rparr>)
     }
   | CDestroyed tail v \<Rightarrow>
       Some (s\<lparr>ss_queue := q\<lparr>sq_tail := tail + 1\<rparr>, ss_consumer := CIdle, ss_popped := ss_popped s @ [v]\<rparr>))"

definition spsc_start :: "'a SpscQueue \<Rightarrow> 'a spsc_state" where
  "spsc_start q = \<lparr>ss_queue = q, ss_producer = PIdle, ss_consumer = CIdle, ss_pushed = [], ss_popped = []\<rparr>"

inductive spsc_reach :: "'a SpscQueue \<Rightarrow> 'a spsc_state \<Rightarrow> bool" for q where
  start: "spsc_reach q (spsc_start q)"
| produce: "spsc_reach q s \<Longrightarrow> producer_step v s = Some s' \<Longrightarrow> spsc_reach q s'"
| consume: "spsc_reach q s \<Longrightarrow> consumer_step s = Some s' \<Longrightarrow> spsc_reach q s'"

subsection \<open>Indices\<close>

definition ring_ok :: "nat \<Rightarrow> 'a SpscQueue \<Rightarrow> bool" where
  "ring_ok k q \<longleftrightarrow> k < 64 \<and> sq_capacity q = 2 ^ k \<and> sq_mask q = 2 ^ k - 1 \<and> length (sq_storage q) = 2 ^ k"

lemma ring_bound: "ring_ok k q \<Longrightarrow> (2::nat) ^ k < 2 ^ 64"
  unfolding ring_ok_def by (intro power_strict_increasing) auto

lemma slot_of_nat:
  assumes "ring_ok k q"
  shows "slot_of q (of_nat j) = j mod 2 ^ k"
proof -
  have "slot_of q (of_nat j) = unat (of_nat j AND mask k :: u64)"
    using assms by (simp add: slot_of_def ring_ok_def mask_eq_exp_minus_1)
  also have "\<dots> = unat (of_nat j :: u64) mod 2 ^ k"
    by (simp only: take_bit_eq_mask [symmetric] unsigned_take_bit_eq) (simp add: take_bit_eq_mod)
  also have "\<dots> = j mod 2 ^ 64 mod 2 ^ k" by (simp add: unat_of_nat)
  also have "\<dots> = j mod 2 ^ k"
    using assms le_imp_power_dvd [of k 64 "2 :: nat"] by (intro mod_mod_cancel) (simp add: ring_ok_def)
  finally show ?thesis .
qed

text \<open>The distance of two indices that are at most a lap apart, and the test for a full ring.\<close>

lemma index_distance:
  assumes "t \<le> h" "h - t < 2 ^ 64"
  shows "unat (of_nat h - of_nat t :: u64) = h - t"
proof -
  have "(of_nat h - of_nat t :: u64) = of_nat (h - t)" using assms(1) by simp
  then have "unat (of_nat h - of_nat t :: u64) = (h - t) mod 2 ^ 64" by (simp only: unat_of_nat) simp
  then show ?thesis using assms(2) by simp
qed

lemma full_iff:
  assumes "ring_ok k q" "t \<le> h" "h \<le> t + 2 ^ k"
  shows "of_nat h - of_nat t \<ge> sq_capacity q \<longleftrightarrow> h = t + 2 ^ k"
proof -
  note k = ring_bound [OF assms(1)]
  have "sq_capacity q = of_nat (2 ^ k)" using assms(1) by (simp add: ring_ok_def)
  then have "unat (sq_capacity q) = 2 ^ k mod 2 ^ 64" by (simp only: unat_of_nat) simp
  then have "unat (sq_capacity q) = 2 ^ k" using k by simp
  moreover have "h - t < 2 ^ 64" using assms(3) k by linarith
  then have "unat (of_nat h - of_nat t :: u64) = h - t" by (rule index_distance [OF assms(2)])
  ultimately show ?thesis using assms(2,3) by (auto simp: word_le_nat_alt)
qed

lemma index_eq_iff:
  assumes "ring_ok k q" "t \<le> h" "h \<le> t + 2 ^ k"
  shows "(of_nat t :: u64) = of_nat h \<longleftrightarrow> t = h"
proof -
  note k = ring_bound [OF assms(1)]
  have "h - t < 2 ^ 64" using assms(3) k by linarith
  then have "unat (of_nat h - of_nat t :: u64) = h - t" by (rule index_distance [OF assms(2)])
  then show ?thesis using assms(2) by (metis diff_is_0_eq' diff_self le_antisym unsigned_0 order_refl zero_less_diff not_less)
qed

lemma mod_window: "i \<noteq> j \<Longrightarrow> t \<le> i \<Longrightarrow> i < t + n \<Longrightarrow> t \<le> j \<Longrightarrow> j < t + n \<Longrightarrow> i mod n \<noteq> j mod (n :: nat)"
proof (induction i j rule: linorder_wlog)
  case (le i j)
  then have "j - i < n" "0 < j - i" by auto
  show ?case
  proof
    assume "i mod n = j mod n"
    then have "n dvd j - i" using le by (metis mod_eq_dvd_iff_nat)
    then show False using \<open>j - i < n\<close> \<open>0 < j - i\<close> nat_dvd_not_less by blast
  qed
next
  case (sym i j)
  then show ?case by metis
qed

subsection \<open>The invariant of the interleaving\<close>

text \<open>
  With \<open>h\<close> values published and \<open>t\<close> handed back, position \<open>j\<close> of the window of one lap from \<open>t\<close> holds
  the \<open>j\<close>-th value while it waits, the value being pushed once it is constructed, and nothing otherwise.
\<close>

definition building :: "'a producer \<Rightarrow> 'a option" where
  "building p = (case p of PBuilt v _ _ \<Rightarrow> Some v | PMarked v _ \<Rightarrow> Some v | _ \<Rightarrow> None)"

definition destroyed :: "'a consumer \<Rightarrow> bool" where
  "destroyed c = (case c of CDestroyed _ _ \<Rightarrow> True | _ \<Rightarrow> False)"

definition cell :: "'a spsc_state \<Rightarrow> nat \<Rightarrow> 'a option" where
  "cell s j = (if j < length (ss_pushed s)
     then (if j = length (ss_popped s) \<and> destroyed (ss_consumer s) then None else Some (ss_pushed s ! j))
     else if j = length (ss_pushed s) then building (ss_producer s) else None)"

definition producer_ok :: "nat \<Rightarrow> nat \<Rightarrow> nat \<Rightarrow> 'a producer \<Rightarrow> bool" where
  "producer_ok k h t p = (case p of
     PIdle \<Rightarrow> True
   | PHead _ head \<Rightarrow> head = of_nat h
   | PRoom _ head tail \<Rightarrow> head = of_nat h \<and> h < t + 2 ^ k
   | PBuilt _ head tail \<Rightarrow> head = of_nat h \<and> h < t + 2 ^ k
   | PMarked _ head \<Rightarrow> head = of_nat h \<and> h < t + 2 ^ k)"

definition consumer_ok :: "'a list \<Rightarrow> nat \<Rightarrow> 'a consumer \<Rightarrow> bool" where
  "consumer_ok pushed t c = (case c of
     CIdle \<Rightarrow> True
   | CTail tail \<Rightarrow> tail = of_nat t
   | CReady tail \<Rightarrow> tail = of_nat t \<and> t < length pushed
   | CMoved tail v \<Rightarrow> tail = of_nat t \<and> t < length pushed \<and> v = pushed ! t
   | CDestroyed tail v \<Rightarrow> tail = of_nat t \<and> t < length pushed \<and> v = pushed ! t)"

definition spsc_inv :: "nat \<Rightarrow> 'a spsc_state \<Rightarrow> bool" where
  "spsc_inv k s \<longleftrightarrow> (let q = ss_queue s; h = length (ss_pushed s); t = length (ss_popped s) in
     ring_ok k q \<and> sq_head q = of_nat h \<and> sq_tail q = of_nat t \<and> t \<le> h \<and> h \<le> t + 2 ^ k \<and>
     ss_popped s = take t (ss_pushed s) \<and>
     (\<forall>j. t \<le> j \<longrightarrow> j < t + 2 ^ k \<longrightarrow> sq_storage q ! (j mod 2 ^ k) = cell s j) \<and>
     producer_ok k h t (ss_producer s) \<and> consumer_ok (ss_pushed s) t (ss_consumer s))"

lemma ring_ok_frame [simp]:
  "ring_ok k (q\<lparr>sq_head := h\<rparr>) = ring_ok k q" "ring_ok k (q\<lparr>sq_tail := t\<rparr>) = ring_ok k q"
  "ring_ok k (note_occupancy q n) = ring_ok k q" "ring_ok k (q\<lparr>sq_storage := xs\<rparr>) \<longleftrightarrow> ring_ok k q \<and> length xs = 2 ^ k \<or>
     (k < 64 \<and> sq_capacity q = 2 ^ k \<and> sq_mask q = 2 ^ k - 1 \<and> length xs = 2 ^ k)"
  by (auto simp: ring_ok_def note_occupancy_def)

lemma note_occupancy_frame [simp]:
  "sq_storage (note_occupancy q n) = sq_storage q" "sq_head (note_occupancy q n) = sq_head q" "sq_tail (note_occupancy q n) = sq_tail q"
  by (simp_all add: note_occupancy_def)

lemma spsc_invD:
  assumes "spsc_inv k s"
  shows "ring_ok k (ss_queue s)" "sq_head (ss_queue s) = of_nat (length (ss_pushed s))"
    "sq_tail (ss_queue s) = of_nat (length (ss_popped s))" "length (ss_popped s) \<le> length (ss_pushed s)"
    "length (ss_pushed s) \<le> length (ss_popped s) + 2 ^ k" "ss_popped s = take (length (ss_popped s)) (ss_pushed s)"
    "length (ss_popped s) \<le> j \<Longrightarrow> j < length (ss_popped s) + 2 ^ k \<Longrightarrow> sq_storage (ss_queue s) ! (j mod 2 ^ k) = cell s j"
    "producer_ok k (length (ss_pushed s)) (length (ss_popped s)) (ss_producer s)"
    "consumer_ok (ss_pushed s) (length (ss_popped s)) (ss_consumer s)" "length (sq_storage (ss_queue s)) = 2 ^ k"
  using assms by (auto simp: spsc_inv_def Let_def ring_ok_def)

lemma spsc_start_inv: "ring_ok k q \<Longrightarrow> sq_head q = 0 \<Longrightarrow> sq_tail q = 0 \<Longrightarrow> (\<forall>x \<in> set (sq_storage q). x = None) \<Longrightarrow> spsc_inv k (spsc_start q)"
  by (auto simp: spsc_inv_def spsc_start_def cell_def building_def producer_ok_def consumer_ok_def ring_ok_def)

text \<open>No step of the producer fails, and each keeps the invariant.\<close>

lemma producer_step_inv:
  assumes inv: "spsc_inv k s"
  shows "\<exists>s'. producer_step v s = Some s' \<and> spsc_inv k s'"
proof (cases "ss_producer s")
  note d = spsc_invD [OF inv]
  let ?h = "length (ss_pushed s)" and ?t = "length (ss_popped s)" and ?q = "ss_queue s"
  {
    case PIdle
    then show ?thesis using inv by (auto simp: spsc_inv_def Let_def producer_ok_def cell_def building_def)
  next
    case (PHead x head)
    then have h: "head = of_nat ?h" using d(8) by (simp add: producer_ok_def)
    then show ?thesis using PHead inv full_iff [OF d(1,4,5)] d(3,5)
      by (auto simp: spsc_inv_def Let_def producer_ok_def cell_def building_def)
  next
    case (PRoom x head tail)
    then have h: "head = of_nat ?h" "?h < ?t + 2 ^ k" using d(8) by (auto simp: producer_ok_def)
    have slot: "slot_of ?q head = ?h mod 2 ^ k" using slot_of_nat [OF d(1)] h(1) by simp
    have "sq_storage ?q ! (?h mod 2 ^ k) = None" using d(7) [of ?h] d(4) h(2) PRoom by (simp add: cell_def building_def)
    then have c: "construct_at ?q (slot_of ?q head) x = Some (?q\<lparr>sq_storage := (sq_storage ?q)[?h mod 2 ^ k := Some x]\<rparr>)"
      using d(10) slot by (simp add: construct_at_def)
    let ?s = "s\<lparr>ss_queue := ?q\<lparr>sq_storage := (sq_storage ?q)[?h mod 2 ^ k := Some x]\<rparr>, ss_producer := PBuilt x head tail\<rparr>"
    have "(sq_storage ?q)[?h mod 2 ^ k := Some x] ! (j mod 2 ^ k) = cell ?s j" if "?t \<le> j" "j < ?t + 2 ^ k" for j
      using that d(7) [of j] d(10) mod_window [of ?h j ?t "2 ^ k"] d(4) h(2) PRoom
      by (cases "j = ?h") (auto simp: cell_def building_def)
    then have "spsc_inv k ?s" using inv h by (auto simp: spsc_inv_def Let_def producer_ok_def ring_ok_def)
    then show ?thesis using PRoom c by (simp add: Let_def)
  next
    case (PBuilt x head tail)
    then show ?thesis using inv by (auto simp: spsc_inv_def Let_def producer_ok_def cell_def building_def)
  next
    case (PMarked x head)
    then have h: "head = of_nat ?h" "?h < ?t + 2 ^ k" using d(8) by (auto simp: producer_ok_def)
    let ?s = "s\<lparr>ss_queue := ?q\<lparr>sq_head := head + 1\<rparr>, ss_producer := PIdle, ss_pushed := ss_pushed s @ [x]\<rparr>"
    have "consumer_ok (ss_pushed s @ [x]) ?t (ss_consumer s)"
      using d(9) by (auto simp: consumer_ok_def nth_append split: consumer.splits)
    moreover have "destroyed (ss_consumer s) \<Longrightarrow> ?t < ?h"
      using d(9) by (auto simp: destroyed_def consumer_ok_def split: consumer.splits)
    then have "cell s j = cell ?s j" for j using PMarked by (auto simp: cell_def building_def nth_append)
    ultimately have "spsc_inv k ?s" using inv h d(7) by (auto simp: spsc_inv_def Let_def producer_ok_def)
    then show ?thesis using PMarked by simp
  }
qed

lemma consumer_step_inv:
  assumes inv: "spsc_inv k s"
  shows "\<exists>s'. consumer_step s = Some s' \<and> spsc_inv k s'"
proof (cases "ss_consumer s")
  note d = spsc_invD [OF inv]
  let ?h = "length (ss_pushed s)" and ?t = "length (ss_popped s)" and ?q = "ss_queue s"
  {
    case CIdle
    then show ?thesis using inv by (auto simp: spsc_inv_def Let_def consumer_ok_def cell_def destroyed_def)
  next
    case (CTail tail)
    then have t: "tail = of_nat ?t" using d(9) by (simp add: consumer_ok_def)
    then show ?thesis using CTail inv index_eq_iff [OF d(1,4,5)] d(2,4)
      by (auto simp: spsc_inv_def Let_def consumer_ok_def cell_def destroyed_def)
  next
    case (CReady tail)
    then have t: "tail = of_nat ?t" "?t < ?h" using d(9) by (auto simp: consumer_ok_def)
    have "sq_storage ?q ! (?t mod 2 ^ k) = Some (ss_pushed s ! ?t)"
      using d(7) [of ?t] t CReady by (simp add: cell_def destroyed_def)
    then have "read_slot ?q (slot_of ?q tail) = Some (ss_pushed s ! ?t)"
      using slot_of_nat [OF d(1), of ?t] t(1) d(10) by (simp add: read_slot_def)
    then show ?thesis using CReady inv t by (auto simp: spsc_inv_def Let_def consumer_ok_def cell_def destroyed_def)
  next
    case (CMoved tail v)
    then have t: "tail = of_nat ?t" "?t < ?h" "v = ss_pushed s ! ?t" using d(9) by (auto simp: consumer_ok_def)
    have "sq_storage ?q ! (?t mod 2 ^ k) = Some v" using d(7) [of ?t] t CMoved by (simp add: cell_def destroyed_def)
    then have c: "destroy_at ?q (slot_of ?q tail) = Some (?q\<lparr>sq_storage := (sq_storage ?q)[?t mod 2 ^ k := None]\<rparr>)"
      using slot_of_nat [OF d(1), of ?t] t(1) d(10) by (simp add: destroy_at_def)
    let ?s = "s\<lparr>ss_queue := ?q\<lparr>sq_storage := (sq_storage ?q)[?t mod 2 ^ k := None]\<rparr>, ss_consumer := CDestroyed tail v\<rparr>"
    have "(sq_storage ?q)[?t mod 2 ^ k := None] ! (j mod 2 ^ k) = cell ?s j" if "?t \<le> j" "j < ?t + 2 ^ k" for j
      using that d(7) [of j] d(10) mod_window [of ?t j ?t "2 ^ k"] t CMoved
      by (cases "j = ?t") (auto simp: cell_def destroyed_def)
    then have "spsc_inv k ?s" using inv t by (auto simp: spsc_inv_def Let_def consumer_ok_def ring_ok_def)
    then show ?thesis using CMoved c by (simp add: Let_def)
  next
    case (CDestroyed tail v)
    then have t: "tail = of_nat ?t" "?t < ?h" "v = ss_pushed s ! ?t" using d(9) by (auto simp: consumer_ok_def)
    let ?s = "s\<lparr>ss_queue := ?q\<lparr>sq_tail := tail + 1\<rparr>, ss_consumer := CIdle, ss_popped := ss_popped s @ [v]\<rparr>"
    have old: "cell s ?t = None" using CDestroyed t(2) by (simp add: cell_def destroyed_def)
    have new: "cell ?s (?t + 2 ^ k) = None"
      using d(5) d(8) by (auto simp: cell_def building_def producer_ok_def destroyed_def split: producer.splits)
    have "sq_storage ?q ! (j mod 2 ^ k) = cell ?s j" if "Suc ?t \<le> j" "j < Suc ?t + 2 ^ k" for j
    proof (cases "j = ?t + 2 ^ k")
      case True
      then show ?thesis using d(7) [of ?t] old new by simp
    next
      case False
      then have "cell ?s j = cell s j" using that CDestroyed by (auto simp: cell_def destroyed_def)
      then show ?thesis using d(7) [of j] that False by simp
    qed
    moreover have "ss_popped s @ [v] = take (Suc ?t) (ss_pushed s)" using d(6) t by (simp add: take_Suc_conv_app_nth)
    moreover have "producer_ok k ?h (Suc ?t) (ss_producer s)" using d(8) by (auto simp: producer_ok_def split: producer.splits)
    ultimately have "spsc_inv k ?s" using inv t by (auto simp: spsc_inv_def Let_def consumer_ok_def)
    then show ?thesis using CDestroyed by (simp add: Let_def)
  }
qed

lemma spsc_reach_inv:
  assumes "spsc_reach q s" "spsc_inv k (spsc_start q)"
  shows "spsc_inv k s"
  using assms
proof (induction rule: spsc_reach.induct)
  case (produce s v s')
  then show ?case using producer_step_inv [of k s v] by simp
next
  case (consume s s')
  then show ?case using consumer_step_inv [of k s] by simp
qed simp

subsection \<open>Construction\<close>

lemma unat_power_2: "k < 64 \<Longrightarrow> unat (2 ^ k :: u64) = 2 ^ k"
proof -
  assume "k < 64"
  then have "(2::nat) ^ k < 2 ^ 64" by (intro power_strict_increasing) auto
  moreover have "unat (of_nat (2 ^ k) :: u64) = 2 ^ k mod 2 ^ 64" by (simp only: unat_of_nat) simp
  ultimately show ?thesis by simp
qed

lemma next_power_from:
  assumes "k \<le> 63" "unat n \<le> 2 ^ 63" "k = 0 \<or> 2 ^ (k - 1) < unat n"
  shows "\<exists>m \<le> 63. next_power_of_two_from (2 ^ k) n = Some (2 ^ m) \<and> unat n \<le> 2 ^ m \<and> (m = 0 \<or> 2 ^ (m - 1) < unat n)"
  using assms
proof (induction "63 - k" arbitrary: k rule: less_induct)
  case less
  have p: "unat (2 ^ k :: u64) = 2 ^ k" using less.prems(1) by (intro unat_power_2) simp
  show ?case
  proof (cases "2 ^ k < unat n")
    case True
    then have "k \<noteq> 63" using less.prems(2) by auto
    then have "63 - Suc k < 63 - k" "Suc k \<le> 63" using less.prems(1) by auto
    moreover have "next_power_of_two_from (2 ^ k) n = next_power_of_two_from (2 ^ Suc k) n"
      using True p by (subst next_power_of_two_from.simps) (simp add: word_less_nat_alt push_bit_eq_mult mult.commute)
    ultimately show ?thesis using less.hyps [of "Suc k"] less.prems(2) True by simp
  next
    case False
    then have "next_power_of_two_from (2 ^ k) n = Some (2 ^ k)"
      using p by (subst next_power_of_two_from.simps) (simp add: word_less_nat_alt)
    then show ?thesis using False less.prems by auto
  qed
qed

lemma new_spsc_ok:
  assumes "unat n \<le> 2 ^ 63"
  shows "\<exists>k q. new_spsc n = Some q \<and> ring_ok k q \<and> unat n \<le> 2 ^ k \<and> (k = 0 \<or> 2 ^ (k - 1) < unat n) \<and> spsc_inv k (spsc_start q)"
proof -
  obtain k where k: "k \<le> 63" "next_power_of_two n = Some (2 ^ k)" "unat n \<le> 2 ^ k" "k = 0 \<or> 2 ^ (k - 1) < unat n"
    using next_power_from [of 0 n] assms by (auto simp: next_power_of_two_def)
  let ?q = "\<lparr>sq_capacity = 2 ^ k, sq_mask = 2 ^ k - 1, sq_storage = replicate (unat (2 ^ k :: u64)) None,
    sq_high_water_mark = 0, sq_head = 0, sq_tail = 0\<rparr> :: 'a SpscQueue"
  have ok: "ring_ok k ?q" using k(1) unat_power_2 [of k] by (simp add: ring_ok_def)
  moreover have "spsc_inv k (spsc_start ?q)" by (rule spsc_start_inv [OF ok]) simp_all
  ultimately show ?thesis using k by (intro exI [of _ k] exI [of _ ?q]) (simp add: new_spsc_def)
qed

subsection \<open>Undisturbed operations\<close>

text \<open>\<open>try_push\<close> and \<open>try_pop\<close> are the actions of one thread with no action of the other in between.\<close>

fun producer_run :: "nat \<Rightarrow> 'a \<Rightarrow> 'a spsc_state \<Rightarrow> 'a spsc_state option" where
  "producer_run 0 v s = Some s"
| "producer_run (Suc n) v s = do { s' \<leftarrow> producer_step v s; producer_run n v s' }"

fun consumer_run :: "nat \<Rightarrow> 'a spsc_state \<Rightarrow> 'a spsc_state option" where
  "consumer_run 0 s = Some s"
| "consumer_run (Suc n) s = do { s' \<leftarrow> consumer_step s; consumer_run n s' }"

lemma producer_run_inv: "spsc_inv k s \<Longrightarrow> \<exists>s'. producer_run n v s = Some s' \<and> spsc_inv k s'"
proof (induction n arbitrary: s)
  case (Suc n)
  then obtain s' where "producer_step v s = Some s'" "spsc_inv k s'" using producer_step_inv [of k s v] by auto
  then show ?case using Suc.IH [of s'] by (simp del: producer_step.simps)
qed simp

lemma consumer_run_inv: "spsc_inv k s \<Longrightarrow> \<exists>s'. consumer_run n s = Some s' \<and> spsc_inv k s'"
proof (induction n arbitrary: s)
  case (Suc n)
  then obtain s' where "consumer_step s = Some s'" "spsc_inv k s'" using consumer_step_inv [of k s] by auto
  then show ?case using Suc.IH [of s'] by (simp del: consumer_step.simps)
qed simp

lemma push_as_steps:
  assumes "ss_producer s = PIdle"
  shows "producer_run (if sq_head (ss_queue s) - sq_tail (ss_queue s) \<ge> sq_capacity (ss_queue s) then 2 else 5) v s =
    map_option (\<lambda>(q, pushed). s\<lparr>ss_queue := q, ss_pushed := ss_pushed s @ (if pushed then [v] else [])\<rparr>) (try_push (ss_queue s) v)"
  using assms
  by (cases s) (auto simp: try_push_def Let_def numeral_eq_Suc construct_at_def split: bind_splits)

lemma pop_as_steps:
  assumes "ss_consumer s = CIdle"
  shows "consumer_run (if sq_tail (ss_queue s) = sq_head (ss_queue s) then 2 else 5) s =
    map_option (\<lambda>(q, v). s\<lparr>ss_queue := q, ss_popped := ss_popped s @ (case v of None \<Rightarrow> [] | Some x \<Rightarrow> [x])\<rparr>) (try_pop (ss_queue s))"
  using assms
  by (cases s) (auto simp: try_pop_def Let_def numeral_eq_Suc destroy_at_def split: bind_splits)

subsection \<open>A bounded FIFO queue\<close>

text \<open>
  What the users of a queue rely on: a push appends unless the queue is full and says which, a pop
  takes the oldest element, and nothing fails.
\<close>

datatype 'a queue_op = Push 'a | Pop

datatype 'a queue_reply = Pushed bool | Popped "'a option"

fun run_queue :: "('q \<Rightarrow> 'a \<Rightarrow> ('q \<times> bool) option) \<Rightarrow> ('q \<Rightarrow> ('q \<times> 'a option) option) \<Rightarrow> 'q \<Rightarrow> 'a queue_op list \<Rightarrow>
  ('q \<times> 'a queue_reply list) option" where
  "run_queue push pop q [] = Some (q, [])"
| "run_queue push pop q (Push v # ops) = do {
     (q1, b) \<leftarrow> push q v;
     (q2, rs) \<leftarrow> run_queue push pop q1 ops;
     Some (q2, Pushed b # rs)
   }"
| "run_queue push pop q (Pop # ops) = do {
     (q1, v) \<leftarrow> pop q;
     (q2, rs) \<leftarrow> run_queue push pop q1 ops;
     Some (q2, Popped v # rs)
   }"

text \<open>The reference: a list of at most \<open>room\<close> elements.\<close>

fun run_list :: "nat \<Rightarrow> 'a list \<Rightarrow> 'a queue_op list \<Rightarrow> 'a list \<times> 'a queue_reply list" where
  "run_list room xs [] = (xs, [])"
| "run_list room xs (Push v # ops) = (let b = length xs < room; (ys, rs) = run_list room (if b then xs @ [v] else xs) ops in
     (ys, Pushed b # rs))"
| "run_list room xs (Pop # ops) = (let (ys, rs) = run_list room (tl xs) ops in
     (ys, Popped (case xs of [] \<Rightarrow> None | x # _ \<Rightarrow> Some x) # rs))"

locale bounded_fifo =
  fixes inv :: "'q \<Rightarrow> bool" and contents :: "'q \<Rightarrow> 'a list" and room :: "'q \<Rightarrow> nat"
    and push :: "'q \<Rightarrow> 'a \<Rightarrow> ('q \<times> bool) option" and pop :: "'q \<Rightarrow> ('q \<times> 'a option) option" and size_of :: "'q \<Rightarrow> u64"
  assumes push_law: "inv q \<Longrightarrow> \<exists>q'. push q v = Some (q', length (contents q) < room q) \<and> inv q' \<and> room q' = room q \<and>
      contents q' = (if length (contents q) < room q then contents q @ [v] else contents q)"
    and pop_law: "inv q \<Longrightarrow> \<exists>q'. pop q = Some (q', case contents q of [] \<Rightarrow> None | x # _ \<Rightarrow> Some x) \<and> inv q' \<and> room q' = room q \<and>
      contents q' = tl (contents q)"
    and size_law: "inv q \<Longrightarrow> unat (size_of q) = length (contents q) \<and> length (contents q) \<le> room q"
begin

text \<open>Any sequence of pushes and pops behaves as on the list.\<close>

lemma run_as_list:
  assumes "inv q"
  shows "\<exists>q'. run_queue push pop q ops = Some (q', snd (run_list (room q) (contents q) ops)) \<and> inv q' \<and> room q' = room q \<and>
    contents q' = fst (run_list (room q) (contents q) ops)"
  using assms
proof (induction ops arbitrary: q)
  case (Cons op ops)
  show ?case
  proof (cases op)
    case (Push v)
    obtain q1 where "push q v = Some (q1, length (contents q) < room q)" "inv q1" "room q1 = room q"
      "contents q1 = (if length (contents q) < room q then contents q @ [v] else contents q)"
      using push_law [OF Cons.prems, of v] by blast
    then show ?thesis using Cons.IH [of q1] Push by (auto split: prod.splits)
  next
    case Pop
    obtain q1 where "pop q = Some (q1, case contents q of [] \<Rightarrow> None | x # _ \<Rightarrow> Some x)" "inv q1" "room q1 = room q"
      "contents q1 = tl (contents q)"
      using pop_law [OF Cons.prems] by blast
    then show ?thesis using Cons.IH [of q1] Pop by (auto split: prod.splits list.splits)
  qed
qed simp

end

definition spsc_contents :: "'a SpscQueue \<Rightarrow> 'a list" where
  "spsc_contents q = map (\<lambda>i. the (sq_storage q ! slot_of q (sq_tail q + of_nat i))) [0..<unat (sq_head q - sq_tail q)]"

definition spsc_quiet :: "nat \<Rightarrow> 'a SpscQueue \<Rightarrow> 'a list \<Rightarrow> 'a list \<Rightarrow> bool" where
  "spsc_quiet k q pushed popped \<longleftrightarrow> spsc_inv k \<lparr>ss_queue = q, ss_producer = PIdle, ss_consumer = CIdle, ss_pushed = pushed, ss_popped = popped\<rparr>"

definition spsc_ok :: "'a SpscQueue \<Rightarrow> bool" where
  "spsc_ok q \<longleftrightarrow> (\<exists>k pushed popped. spsc_quiet k q pushed popped)"

lemma spsc_quiet_contents:
  assumes "spsc_quiet k q pushed popped"
  shows "spsc_contents q = drop (length popped) pushed" "unat (sq_capacity q) = 2 ^ k"
    "length pushed \<le> length popped + 2 ^ k" "unat (spsc_size q) = length (spsc_contents q)"
proof -
  note d = spsc_invD [OF assms [unfolded spsc_quiet_def], simplified]
  have k: "(2::nat) ^ k < 2 ^ 64" by (rule ring_bound [OF d(1)])
  have n: "unat (sq_head q - sq_tail q) = length pushed - length popped"
    unfolding d(2,3) using d(4,5) k by (intro index_distance) linarith+
  show "spsc_contents q = drop (length popped) pushed"
  proof (rule nth_equalityI)
    show "length (spsc_contents q) = length (drop (length popped) pushed)" by (simp add: spsc_contents_def n)
    fix i assume "i < length (spsc_contents q)"
    then have i: "i < length pushed - length popped" by (simp add: spsc_contents_def n)
    have "slot_of q (sq_tail q + of_nat i) = (length popped + i) mod 2 ^ k"
      using slot_of_nat [OF d(1), of "length popped + i"] d(3) by simp
    then have "sq_storage q ! slot_of q (sq_tail q + of_nat i) = Some (pushed ! (length popped + i))"
      using spsc_invD(7) [OF assms [unfolded spsc_quiet_def], of "length popped + i"] d(5) i
      by (simp add: cell_def destroyed_def less_diff_conv add.commute)
    then show "spsc_contents q ! i = drop (length popped) pushed ! i" using i by (simp add: spsc_contents_def n)
  qed
  then show "unat (spsc_size q) = length (spsc_contents q)" by (simp add: spsc_size_def n)
  show "unat (sq_capacity q) = 2 ^ k" using d(1) unat_power_2 [of k] by (simp add: ring_ok_def)
  show "length pushed \<le> length popped + 2 ^ k" by (rule d(5))
qed

lemma try_push_law:
  assumes "spsc_quiet k q pushed popped"
  shows "\<exists>q'. try_push q v = Some (q', length (spsc_contents q) < 2 ^ k) \<and>
    spsc_quiet k q' (pushed @ (if length (spsc_contents q) < 2 ^ k then [v] else [])) popped"
proof -
  let ?s = "\<lparr>ss_queue = q, ss_producer = PIdle, ss_consumer = CIdle, ss_pushed = pushed, ss_popped = popped\<rparr>"
  note d = spsc_invD [OF assms [unfolded spsc_quiet_def], simplified]
  have full: "sq_head q - sq_tail q \<ge> sq_capacity q \<longleftrightarrow> \<not> length (spsc_contents q) < 2 ^ k"
    using full_iff [OF d(1,4,5)] d(2-5) spsc_quiet_contents(1) [OF assms] by auto
  obtain s' where s': "producer_run (if sq_head q - sq_tail q \<ge> sq_capacity q then 2 else 5) v ?s = Some s'" "spsc_inv k s'"
    using producer_run_inv [of k ?s] assms by (auto simp: spsc_quiet_def)
  then obtain q' b where q': "try_push q v = Some (q', b)" "s' = ?s\<lparr>ss_queue := q', ss_pushed := pushed @ (if b then [v] else [])\<rparr>"
    using push_as_steps [of ?s v] by (cases "try_push q v") (auto split: prod.splits)
  have "b = (length (spsc_contents q) < 2 ^ k)" using q'(1) full by (auto simp: try_push_def Let_def split: if_splits bind_splits)
  then show ?thesis using q' s'(2) by (auto simp: spsc_quiet_def)
qed

lemma try_pop_law:
  assumes "spsc_quiet k q pushed popped"
  shows "\<exists>q'. try_pop q = Some (q', case spsc_contents q of [] \<Rightarrow> None | x # _ \<Rightarrow> Some x) \<and>
    spsc_quiet k q' pushed (popped @ (case spsc_contents q of [] \<Rightarrow> [] | x # _ \<Rightarrow> [x]))"
proof -
  let ?s = "\<lparr>ss_queue = q, ss_producer = PIdle, ss_consumer = CIdle, ss_pushed = pushed, ss_popped = popped\<rparr>"
  note d = spsc_invD [OF assms [unfolded spsc_quiet_def], simplified]
  note c = spsc_quiet_contents(1) [OF assms]
  obtain s' where s': "consumer_run (if sq_tail q = sq_head q then 2 else 5) ?s = Some s'" "spsc_inv k s'"
    using consumer_run_inv [of k ?s] assms by (auto simp: spsc_quiet_def)
  then obtain q' r where q': "try_pop q = Some (q', r)" "s' = ?s\<lparr>ss_queue := q', ss_popped := popped @ (case r of None \<Rightarrow> [] | Some x \<Rightarrow> [x])\<rparr>"
    using pop_as_steps [of ?s] by (cases "try_pop q") (auto split: prod.splits)
  note d' = spsc_invD [OF s'(2), unfolded q'(2), simplified]
  have "sq_tail q = sq_head q \<longleftrightarrow> spsc_contents q = []"
    using index_eq_iff [OF d(1,4,5)] d(2,3,4) c by auto
  then have r: "r = None \<longleftrightarrow> spsc_contents q = []" using q'(1)
    by (cases "read_slot q (slot_of q (sq_tail q))"; cases r) (auto simp: try_pop_def Let_def split: if_splits bind_splits)
  have "r = (case spsc_contents q of [] \<Rightarrow> None | x # _ \<Rightarrow> Some x)"
  proof (cases r)
    case (Some x)
    have "popped @ [x] = take (length popped + 1) pushed" using d'(6) Some by simp
    moreover have "length popped < length pushed" using d'(4) Some by simp
    ultimately have "x = pushed ! length popped" by (metis nth_append_length nth_take less_add_one)
    moreover have "spsc_contents q = pushed ! length popped # drop (Suc (length popped)) pushed"
      using c \<open>length popped < length pushed\<close> by (simp add: Cons_nth_drop_Suc)
    ultimately show ?thesis using Some by simp
  qed (use r in simp)
  then show ?thesis using q' s'(2) by (cases "spsc_contents q") (auto simp: spsc_quiet_def)
qed

interpretation spsc: bounded_fifo spsc_ok spsc_contents "\<lambda>q. unat (sq_capacity q)" try_push try_pop spsc_size
proof
  fix q :: "'a SpscQueue" and v
  assume "spsc_ok q"
  then obtain k pushed popped where s: "spsc_quiet k q pushed popped" by (auto simp: spsc_ok_def)
  note c = spsc_quiet_contents [OF s]
  have le: "length popped \<le> length pushed" using spsc_invD(4) [OF s [unfolded spsc_quiet_def]] by simp
  obtain q' where q': "try_push q v = Some (q', length (spsc_contents q) < 2 ^ k)"
    "spsc_quiet k q' (pushed @ (if length (spsc_contents q) < 2 ^ k then [v] else [])) popped"
    using try_push_law [OF s] by blast
  then show "\<exists>q'. try_push q v = Some (q', length (spsc_contents q) < unat (sq_capacity q)) \<and> spsc_ok q' \<and>
      unat (sq_capacity q') = unat (sq_capacity q) \<and>
      spsc_contents q' = (if length (spsc_contents q) < unat (sq_capacity q) then spsc_contents q @ [v] else spsc_contents q)"
    using spsc_quiet_contents(1,2) [OF q'(2)] c(1,2) le by (auto simp: spsc_ok_def)
  obtain q' where q': "try_pop q = Some (q', case spsc_contents q of [] \<Rightarrow> None | x # _ \<Rightarrow> Some x)"
    "spsc_quiet k q' pushed (popped @ (case spsc_contents q of [] \<Rightarrow> [] | x # _ \<Rightarrow> [x]))"
    using try_pop_law [OF s] by blast
  have tail: "drop (length (popped @ (case spsc_contents q of [] \<Rightarrow> [] | x # _ \<Rightarrow> [x]))) pushed = tl (spsc_contents q)"
  proof (cases "spsc_contents q")
    case (Cons x xs)
    then show ?thesis using c(1) drop_drop [of 1 "length popped" pushed] by (simp add: drop_Suc tl_drop)
  qed (use c(1) in simp)
  from q' show "\<exists>q'. try_pop q = Some (q', case spsc_contents q of [] \<Rightarrow> None | x # _ \<Rightarrow> Some x) \<and> spsc_ok q' \<and>
      unat (sq_capacity q') = unat (sq_capacity q) \<and> spsc_contents q' = tl (spsc_contents q)"
    using spsc_quiet_contents(1,2) [OF q'(2)] c(2) tail by (auto simp: spsc_ok_def)
  show "unat (spsc_size q) = length (spsc_contents q) \<and> length (spsc_contents q) \<le> unat (sq_capacity q)"
    using c by auto
qed

text \<open>The queue that drops is the same queue with a counter beside it.\<close>

interpretation dropping: bounded_fifo "\<lambda>d. spsc_ok (dq_queue d)" "\<lambda>d. spsc_contents (dq_queue d)"
  "\<lambda>d. unat (sq_capacity (dq_queue d))" dq_push dq_try_pop "\<lambda>d. spsc_size (dq_queue d)"
proof
  fix d :: "'a DroppingQueue" and v
  assume ok: "spsc_ok (dq_queue d)"
  show "\<exists>d'. dq_push d v = Some (d', length (spsc_contents (dq_queue d)) < unat (sq_capacity (dq_queue d))) \<and> spsc_ok (dq_queue d') \<and>
      unat (sq_capacity (dq_queue d')) = unat (sq_capacity (dq_queue d)) \<and> spsc_contents (dq_queue d') =
      (if length (spsc_contents (dq_queue d)) < unat (sq_capacity (dq_queue d)) then spsc_contents (dq_queue d) @ [v]
       else spsc_contents (dq_queue d))"
    using spsc.push_law [OF ok, of v] by (auto simp: dq_push_def)
  show "\<exists>d'. dq_try_pop d = Some (d', case spsc_contents (dq_queue d) of [] \<Rightarrow> None | x # _ \<Rightarrow> Some x) \<and> spsc_ok (dq_queue d') \<and>
      unat (sq_capacity (dq_queue d')) = unat (sq_capacity (dq_queue d)) \<and> spsc_contents (dq_queue d') = tl (spsc_contents (dq_queue d))"
    using spsc.pop_law [OF ok] by (auto simp: dq_try_pop_def)
  show "unat (spsc_size (dq_queue d)) = length (spsc_contents (dq_queue d)) \<and>
      length (spsc_contents (dq_queue d)) \<le> unat (sq_capacity (dq_queue d))"
    by (rule spsc.size_law [OF ok])
qed

lemma dropping_counts:
  assumes "run_queue dq_push dq_try_pop d ops = Some (d', rs)"
  shows "dq_dropped_count d' = dq_dropped_count d + of_nat (length (filter (\<lambda>r. r = Pushed False) rs))"
  using assms
proof (induction ops arbitrary: d rs)
  case (Cons op ops)
  then show ?case by (cases op) (auto simp: dq_push_def dq_try_pop_def split: bind_splits if_splits)
qed simp

subsection \<open>Construction that never ends, and destruction\<close>

text \<open>Above \<open>2 ^ 63\<close> the shift drops the only bit and the loop goes on with 0.\<close>

lemma next_power_doubles:
  assumes "p = 0 \<or> (\<exists>k \<le> 63. p = 2 ^ k)"
  shows "push_bit 1 p = (0 :: u64) \<or> (\<exists>k \<le> 63. push_bit 1 p = (2 :: u64) ^ k)"
proof (cases "p = 0")
  case False
  then obtain k where k: "k \<le> 63" "p = 2 ^ k" using assms by auto
  then have "push_bit 1 p = 2 ^ Suc k" by (simp add: push_bit_eq_mult mult.commute)
  then show ?thesis using k by (cases "k = 63") (auto intro!: exI [of _ "Suc k"])
qed simp

lemma next_power_diverges:
  assumes "next_power_of_two_from p n = Some r"
  shows "2 ^ 63 < unat n \<longrightarrow> (p = 0 \<or> (\<exists>k \<le> 63. p = 2 ^ k)) \<longrightarrow> False"
  using assms
proof (rule next_power_of_two_from.raw_induct [rotated])
  fix f :: "u64 \<Rightarrow> u64 \<Rightarrow> u64 option" and p n r
  assume IH: "\<And>p n r. f p n = Some r \<Longrightarrow> 2 ^ 63 < unat n \<longrightarrow> (p = 0 \<or> (\<exists>k \<le> 63. p = 2 ^ k)) \<longrightarrow> False"
    and r: "(if p < n then f (push_bit 1 p) n else Some p) = Some r"
  show "2 ^ 63 < unat n \<longrightarrow> (p = 0 \<or> (\<exists>k \<le> 63. p = 2 ^ k)) \<longrightarrow> False"
  proof (intro impI)
    assume n: "2 ^ 63 < unat n" and p: "p = 0 \<or> (\<exists>k \<le> 63. p = 2 ^ k)"
    have "unat p \<le> 2 ^ 63" using p unat_power_2 power_increasing [of _ 63 "2 :: nat"] by fastforce
    then have "p < n" using n by (simp add: word_less_nat_alt)
    then show False using IH [of "push_bit 1 p" n r] r n next_power_doubles [OF p] by auto
  qed
qed

lemma next_power_of_two_cases:
  "if unat n \<le> 2 ^ 63 then \<exists>m \<le> 63. next_power_of_two n = Some (2 ^ m) \<and> unat n \<le> 2 ^ m \<and> (m = 0 \<or> 2 ^ (m - 1) < unat n)
   else next_power_of_two n = None"
  using next_power_from [of 0 n] next_power_diverges [of 1 n]
  by (cases "next_power_of_two_from 1 n") (auto simp: next_power_of_two_def intro: exI [of _ 0])

lemma window_covers:
  assumes "i < (n :: nat)"
  obtains j where "t \<le> j" "j < t + n" "j mod n = i"
proof (cases "t mod n \<le> i")
  case True
  show ?thesis
  proof (rule that [of "n * (t div n) + i"])
    show "t \<le> n * (t div n) + i" using True mult_div_mod_eq [of n t] by linarith
    show "n * (t div n) + i < t + n" using assms mult_div_mod_eq [of n t] by linarith
  qed (use assms in simp)
next
  case False
  show ?thesis
  proof (rule that [of "n * (t div n) + (i + n)"])
    have "t mod n < n" using assms by simp
    then show "t \<le> n * (t div n) + (i + n)" using mult_div_mod_eq [of n t] by linarith
    show "n * (t div n) + (i + n) < t + n" using False mult_div_mod_eq [of n t] by linarith
  qed (use assms in simp)
qed

lemma destroy_from_empties:
  assumes "ring_ok k q" "sq_head q = of_nat h" "t \<le> h" "h \<le> t + 2 ^ k"
    "\<forall>j. t \<le> j \<longrightarrow> j < t + 2 ^ k \<longrightarrow> (sq_storage q ! (j mod 2 ^ k) \<noteq> None \<longleftrightarrow> j < h)"
  shows "destroy_from (of_nat t) q = Some (q\<lparr>sq_storage := replicate (2 ^ k) None\<rparr>)"
  using assms
proof (induction "h - t" arbitrary: t q)
  case 0
  have len: "length (sq_storage q) = 2 ^ k" using 0 by (simp add: ring_ok_def)
  have "sq_storage q ! i = None" if i: "i < 2 ^ k" for i
  proof -
    obtain j where "t \<le> j" "j < t + 2 ^ k" "j mod 2 ^ k = i" using window_covers [OF i] .
    then show ?thesis using 0 by auto
  qed
  then have "sq_storage q = replicate (2 ^ k) None" using len by (intro nth_equalityI) auto
  then show ?case using 0 by (subst destroy_from.simps) (simp)
next
  case (Suc n)
  then have lt: "t < h" by simp
  have slot: "slot_of q (of_nat t) = t mod 2 ^ k" using slot_of_nat [OF Suc.prems(1)] by simp
  let ?q = "q\<lparr>sq_storage := (sq_storage q)[t mod 2 ^ k := None]\<rparr>"
  have len: "length (sq_storage q) = 2 ^ k" using Suc.prems(1) by (simp add: ring_ok_def)
  have d: "destroy_at q (slot_of q (of_nat t)) = Some ?q"
    using Suc.prems(5) lt len slot by (auto simp: destroy_at_def)
  have ne: "(of_nat t :: u64) \<noteq> of_nat h" using index_eq_iff [OF Suc.prems(1,3,4)] lt by simp
  have "\<forall>j. Suc t \<le> j \<longrightarrow> j < Suc t + 2 ^ k \<longrightarrow> (sq_storage ?q ! (j mod 2 ^ k) \<noteq> None \<longleftrightarrow> j < h)"
  proof (intro allI impI)
    fix j assume j: "Suc t \<le> j" "j < Suc t + 2 ^ k"
    show "sq_storage ?q ! (j mod 2 ^ k) \<noteq> None \<longleftrightarrow> j < h"
    proof (cases "j = t + 2 ^ k")
      case True
      then show ?thesis using len Suc.prems(4) by simp
    next
      case False
      then show ?thesis using j mod_window [of t j t "2 ^ k"] Suc.prems(5) by (auto simp: nth_list_update)
    qed
  qed
  moreover have "ring_ok k ?q" using Suc.prems(1) by (simp add: ring_ok_def)
  ultimately have "destroy_from (of_nat (Suc t)) ?q = Some (?q\<lparr>sq_storage := replicate (2 ^ k) None\<rparr>)"
    using Suc.hyps(1) [of "Suc t" ?q] Suc.hyps(2) Suc.prems(2,4) lt by simp
  then show ?case using ne d Suc.prems(2) by (subst destroy_from.simps) (simp add: add.commute)
qed

lemma destroy_spsc_empties:
  assumes "spsc_quiet k q pushed popped"
  shows "destroy_spsc q = Some (q\<lparr>sq_storage := replicate (2 ^ k) None\<rparr>)"
proof -
  let ?s = "\<lparr>ss_queue = q, ss_producer = PIdle, ss_consumer = CIdle, ss_pushed = pushed, ss_popped = popped\<rparr>"
  have inv: "spsc_inv k ?s" using assms by (simp add: spsc_quiet_def)
  note d = spsc_invD [OF inv, simplified]
  have "\<forall>j. length popped \<le> j \<longrightarrow> j < length popped + 2 ^ k \<longrightarrow>
      (sq_storage q ! (j mod 2 ^ k) \<noteq> None \<longleftrightarrow> j < length pushed)"
    using spsc_invD(7) [OF inv] by (auto simp: cell_def destroyed_def building_def split: if_splits)
  then show ?thesis unfolding destroy_spsc_def d(3) using destroy_from_empties [OF d(1,2,4,5)] by blast
qed

subsection \<open>Properties\<close>

text \<open>The slot each thread is about to touch.\<close>

definition producer_slot :: "'a spsc_state \<Rightarrow> nat option" where
  "producer_slot s = (case ss_producer s of PRoom _ head _ \<Rightarrow> Some (slot_of (ss_queue s) head) | _ \<Rightarrow> None)"

definition consumer_slot :: "'a spsc_state \<Rightarrow> nat option" where
  "consumer_slot s = (case ss_consumer s of CReady tail \<Rightarrow> Some (slot_of (ss_queue s) tail)
     | CMoved tail _ \<Rightarrow> Some (slot_of (ss_queue s) tail) | _ \<Rightarrow> None)"

lemma slots_apart:
  assumes "spsc_inv k s" "producer_slot s = Some i" "consumer_slot s = Some j"
  shows "i \<noteq> j"
proof -
  note d = spsc_invD [OF assms(1)]
  let ?h = "length (ss_pushed s)" and ?t = "length (ss_popped s)"
  have "i = slot_of (ss_queue s) (of_nat ?h)" "?h < ?t + 2 ^ k"
    using assms(2) d(8) by (auto simp: producer_slot_def producer_ok_def split: producer.splits)
  moreover have "j = slot_of (ss_queue s) (of_nat ?t)" "?t < ?h"
    using assms(3) d(9) by (auto simp: consumer_slot_def consumer_ok_def split: consumer.splits)
  ultimately show ?thesis using mod_window [of ?h ?t ?t "2 ^ k"] by (simp add: slot_of_nat [OF d(1)])
qed

lemma new_spsc_bound: "new_spsc n = Some q \<Longrightarrow> unat n \<le> 2 ^ 63"
  using next_power_of_two_cases [of n] by (auto simp: new_spsc_def split: if_splits bind_splits)

lemma new_spsc_inv:
  assumes "new_spsc n = Some q"
  shows "\<exists>k. spsc_inv k (spsc_start q) \<and> spsc_quiet k q [] [] \<and> unat n \<le> 2 ^ k"
  using new_spsc_ok [OF new_spsc_bound [OF assms], where 'a = 'a] assms by (auto simp: spsc_quiet_def spsc_start_def)

lemma spsc_inv_capacity: "spsc_inv k s \<Longrightarrow> unat (sq_capacity (ss_queue s)) = 2 ^ k"
  using unat_power_2 [of k] by (auto simp: spsc_inv_def ring_ok_def Let_def)

text \<open>
  C23. Under every interleaving of one producer's and one consumer's individual loads, slot accesses
  and stores, whatever values are pushed and however often the 64-bit indices wrap: what has been
  popped is a prefix of what has been pushed (first in, first out, nothing lost, duplicated or
  invented), at most \<open>capacity\<close> values wait and \<open>size()\<close> says how many, no step reads or destroys an empty
  slot or constructs over a live object, and the two threads never touch the same slot at the same time.
\<close>

theorem spsc_fifo_under_interleaving:
  assumes "new_spsc capacity = Some q" "spsc_reach q s"
  shows "ss_popped s = take (length (ss_popped s)) (ss_pushed s) \<and>
    unat (spsc_size (ss_queue s)) = length (ss_pushed s) - length (ss_popped s) \<and>
    length (ss_pushed s) - length (ss_popped s) \<le> unat (sq_capacity (ss_queue s)) \<and>
    unat capacity \<le> unat (sq_capacity (ss_queue s)) \<and>
    producer_step v s \<noteq> None \<and> consumer_step s \<noteq> None \<and>
    (producer_slot s = None \<or> producer_slot s \<noteq> consumer_slot s)"
proof -
  obtain k where k': "spsc_inv k (spsc_start q)" "unat capacity \<le> 2 ^ k" using new_spsc_inv [OF assms(1)] by auto
  then have inv: "spsc_inv k s" using assms spsc_reach_inv by auto
  note d = spsc_invD [OF inv] and k = ring_bound [OF spsc_invD(1) [OF inv]]
  have "unat (spsc_size (ss_queue s)) = length (ss_pushed s) - length (ss_popped s)"
    unfolding spsc_size_def d(2,3) using d(4,5) k by (intro index_distance) linarith+
  moreover have "producer_slot s = None \<or> producer_slot s \<noteq> consumer_slot s"
    using slots_apart [OF inv] by (cases "producer_slot s"; cases "consumer_slot s") auto
  ultimately show ?thesis using d(5,6) k'(2) spsc_inv_capacity [OF inv] producer_step_inv [OF inv, of v] consumer_step_inv [OF inv]
    by auto
qed

lemma spsc_fifo_under_interleaving_witness:
  "\<exists>q s. new_spsc 1 = Some q \<and> spsc_reach q s \<and> ss_producer s = PMarked (7 :: nat) 0 \<and> ss_consumer s = CTail 0 \<and>
    length (ss_pushed s) - length (ss_popped s) \<le> unat (sq_capacity (ss_queue s))"
proof -
  let ?q = "\<lparr>sq_capacity = 1, sq_mask = 0, sq_storage = [None], sq_high_water_mark = 0, sq_head = 0, sq_tail = 0\<rparr> :: nat SpscQueue"
  let ?s = "\<lambda>st p c hw. \<lparr>ss_queue = ?q\<lparr>sq_storage := [st], sq_high_water_mark := hw\<rparr>, ss_producer = p, ss_consumer = c,
    ss_pushed = [], ss_popped = []\<rparr> :: nat spsc_state"
  have new: "new_spsc 1 = Some ?q"
    by (simp add: new_spsc_def next_power_of_two_def next_power_of_two_from.simps)
  have "spsc_reach ?q (?s None PIdle CIdle 0)" using spsc_reach.start [of ?q] by (simp add: spsc_start_def)
  then have "spsc_reach ?q (?s None (PHead 7 0) CIdle 0)" by (rule spsc_reach.produce [where v = 7]) simp
  then have "spsc_reach ?q (?s None (PRoom 7 0 0) CIdle 0)" by (rule spsc_reach.produce [where v = 7]) simp
  then have "spsc_reach ?q (?s None (PRoom 7 0 0) (CTail 0) 0)" by (rule spsc_reach.consume) simp
  then have "spsc_reach ?q (?s (Some 7) (PBuilt 7 0 0) (CTail 0) 0)"
    by (rule spsc_reach.produce [where v = 7]) (simp add: construct_at_def slot_of_def)
  then have r: "spsc_reach ?q (?s (Some 7) (PMarked 7 0) (CTail 0) 1)"
    by (rule spsc_reach.produce [where v = 7]) (simp add: note_occupancy_def)
  show ?thesis using spsc_fifo_under_interleaving [OF new r] new r
    by (intro exI [of _ ?q] exI [of _ "?s (Some 7) (PMarked 7 0) (CTail 0) 1"]) simp
qed

text \<open>
  Run from construction without interference, any sequence of \<open>try_push\<close> and \<open>try_pop\<close> gives exactly
  the replies a list of at most \<open>capacity_\<close> elements gives: a push is refused only when that many wait, a
  pop returns the oldest or \<open>nullopt\<close>; and the destructor then destroys each waiting object once and
  ends with every slot empty.
\<close>

theorem spsc_refines_list:
  assumes "new_spsc capacity = Some q"
  shows "\<exists>q'. run_queue try_push try_pop q ops = Some (q', snd (run_list (unat (sq_capacity q)) [] ops)) \<and>
    spsc_contents q' = fst (run_list (unat (sq_capacity q)) [] ops) \<and>
    unat (spsc_size q') = length (spsc_contents q') \<and>
    destroy_spsc q' = Some (q'\<lparr>sq_storage := replicate (unat (sq_capacity q)) None\<rparr>)"
proof -
  obtain k where k: "spsc_quiet k q [] []" using new_spsc_inv [OF assms] by auto
  then have ok: "spsc_ok q" and c: "spsc_contents q = []" using spsc_quiet_contents(1) [OF k] by (auto simp: spsc_ok_def)
  obtain q' where q': "run_queue try_push try_pop q ops = Some (q', snd (run_list (unat (sq_capacity q)) [] ops))"
    "spsc_ok q'" "unat (sq_capacity q') = unat (sq_capacity q)" "spsc_contents q' = fst (run_list (unat (sq_capacity q)) [] ops)"
    using spsc.run_as_list [OF ok, of ops] c by auto
  then obtain k' pushed popped where s: "spsc_quiet k' q' pushed popped" by (auto simp: spsc_ok_def)
  have "unat (sq_capacity q) = 2 ^ k'" using spsc_quiet_contents(2) [OF s] q'(3) by simp
  then show ?thesis using q' spsc_quiet_contents(4) [OF s] destroy_spsc_empties [OF s] by auto
qed

lemma spsc_refines_list_witness:
  "\<exists>q. new_spsc 2 = Some (q :: nat SpscQueue) \<and> (\<exists>q'. run_queue try_push try_pop q [Push 1, Push 2, Push 3, Pop, Push 4, Pop, Pop, Pop] =
     Some (q', [Pushed True, Pushed True, Pushed False, Popped (Some 1), Pushed True, Popped (Some 2), Popped (Some 4), Popped None]))"
proof -
  let ?q = "\<lparr>sq_capacity = 2, sq_mask = 1, sq_storage = [None, None], sq_high_water_mark = 0, sq_head = 0, sq_tail = 0\<rparr> :: nat SpscQueue"
  have two: "replicate 2 None = [None, None]" by (simp add: numeral_2_eq_2)
  have new: "new_spsc 2 = Some ?q"
    by (simp add: new_spsc_def next_power_of_two_def next_power_of_two_from.simps two)
  show ?thesis using spsc_refines_list [OF new, of "[Push 1, Push 2, Push 3, Pop, Push 4, Pop, Pop, Pop]"] new by (intro exI [of _ ?q]) auto
qed

text \<open>
  \<open>next_power_of_two\<close> returns the least power of two that is at least its argument (1 for 0) whenever
  the argument is at most \<open>2 ^ 63\<close>, and never returns for a larger one: the shift reaches 0 and the loop
  condition stays true.
\<close>

theorem next_power_of_two_least:
  "if unat n \<le> 2 ^ 63 then \<exists>m \<le> 63. next_power_of_two n = Some (2 ^ m) \<and> unat n \<le> 2 ^ m \<and> (m = 0 \<or> 2 ^ (m - 1) < unat n)
   else next_power_of_two n = None"
  by (rule next_power_of_two_cases)

text \<open>
  The queue that drops gives the replies of the bounded list too, and its counter is the number of
  pushes it refused (modulo \<open>2 ^ 64\<close>): every value was either delivered, is still waiting or is counted.
\<close>

theorem dropping_queue_counts_drops:
  assumes "new_dropping_queue capacity = Some d"
  shows "\<exists>d'. run_queue dq_push dq_try_pop d ops = Some (d', snd (run_list (unat (sq_capacity (dq_queue d))) [] ops)) \<and>
    spsc_contents (dq_queue d') = fst (run_list (unat (sq_capacity (dq_queue d))) [] ops) \<and>
    dq_dropped_count d' = of_nat (length (filter (\<lambda>r. r = Pushed False) (snd (run_list (unat (sq_capacity (dq_queue d))) [] ops))))"
proof -
  have d: "new_spsc capacity = Some (dq_queue d)" "dq_dropped_count d = 0"
    using assms by (auto simp: new_dropping_queue_def split: bind_splits)
  obtain k where k: "spsc_quiet k (dq_queue d) [] []" using new_spsc_inv [OF d(1)] by auto
  then have ok: "spsc_ok (dq_queue d)" and c: "spsc_contents (dq_queue d) = []"
    using spsc_quiet_contents(1) [OF k] by (auto simp: spsc_ok_def)
  show ?thesis using dropping.run_as_list [OF ok, of ops] c d(2) dropping_counts [of d ops] by fastforce
qed

lemma dropping_queue_counts_drops_witness:
  "\<exists>d d'. new_dropping_queue 1 = Some (d :: nat DroppingQueue) \<and>
    run_queue dq_push dq_try_pop d [Push 1, Push 2, Pop, Push 3, Push 4] =
      Some (d', [Pushed True, Pushed False, Popped (Some 1), Pushed True, Pushed False]) \<and> dq_dropped_count d' = 2"
proof -
  let ?d = "\<lparr>dq_queue = \<lparr>sq_capacity = 1, sq_mask = 0, sq_storage = [None], sq_high_water_mark = 0, sq_head = 0, sq_tail = 0\<rparr>,
    dq_dropped_count = 0\<rparr> :: nat DroppingQueue"
  have new: "new_dropping_queue 1 = Some ?d"
    by (simp add: new_dropping_queue_def new_spsc_def next_power_of_two_def next_power_of_two_from.simps)
  have list: "run_list 1 [] [Push 1, Push 2, Pop, Push 3, Push 4] =
    ([3], [Pushed True, Pushed False, Popped (Some 1), Pushed True, Pushed False])" by simp
  show ?thesis using dropping_queue_counts_drops [OF new, of "[Push 1, Push 2, Pop, Push 3, Push 4]"] new
    by (simp only: list SpscQueue.simps DroppingQueue.simps unsigned_1 snd_conv) auto
qed

end
