(* ===== verification/Matching_Pipeline.thy ===== *)
theory Matching_Pipeline
  imports Spsc_Queue Engine_Properties
begin

text \<open>
  The command sequencer and the matching pipeline (\<open>exchange/sequencing/command_sequencer.cpp\<close>,
  \<open>matching_pipeline.cpp\<close>): a producer thread that numbers commands and pushes them, a matching thread
  that pops and processes them, and a stop request from any thread. The actions of the threads
  interleave freely; the calls \<open>size\<close>, \<open>try_push\<close> and \<open>try_pop\<close> are single actions here, which is what
  the interleaving result of the queue itself allows. The processor is a parameter, as in the code:
  \<open>process\<close> of the engine unless the caller supplies another; \<open>None\<close> stands for one that faults.
\<close>

subsection \<open>The sequencer\<close>

record CommandSequencer =
  cq_next_sequence :: CommandSequence

definition new_sequencer :: CommandSequencer where
  "new_sequencer = \<lparr>cq_next_sequence = 1\<rparr>"

fun with_command_sequence :: "CommandSequence \<Rightarrow> ExchangeCommand \<Rightarrow> ExchangeCommand" where
  "with_command_sequence n (NewOrder cmd) = NewOrder (cmd\<lparr>nc_command_sequence := n\<rparr>)"
| "with_command_sequence n (CancelOrder cmd) = CancelOrder (cmd\<lparr>cc_command_sequence := n\<rparr>)"
| "with_command_sequence n (ReplaceOrder cmd) = ReplaceOrder (cmd\<lparr>rc_command_sequence := n\<rparr>)"

definition sequence :: "CommandSequencer \<Rightarrow> ExchangeCommand \<Rightarrow> CommandSequencer \<times> ExchangeCommand" where
  "sequence sq command = (let assigned = cq_next_sequence sq in
     (sq\<lparr>cq_next_sequence := assigned + 1\<rparr>, with_command_sequence assigned command))"

subsection \<open>The pipeline\<close>

text \<open>
  Where the two threads stand. The producer is outside \<open>submit\<close>, or between the room check and the
  push, holding the command as given and as numbered. The matching thread is about to pop, has found the queue
  empty and not yet looked at the stop token, has a command in hand, or has left its loop.
\<close>

datatype submitter = SIdle | SChecked ExchangeCommand ExchangeCommand

datatype matcher = Polling | FoundEmpty | Holding ExchangeCommand | Finished

record 's MatchingPipeline =
  pi_sequencer :: CommandSequencer
  pi_queue :: "ExchangeCommand SpscQueue"
  pi_state :: 's
  pi_events :: "ExchangeEvent list"
  pi_commands_processed :: u64
  pi_commands_rejected :: u64
  pi_stop_requested :: bool
  pi_submitter :: submitter
  pi_matcher :: matcher
  pi_replies :: "(ExchangeCommand \<times> bool) list"
  pi_accepted :: "ExchangeCommand list"
  pi_processed :: "ExchangeCommand list"

text \<open>
  \<open>pi_events\<close> is what the sink has received. The last three fields are history only, no action reads
  them: the answers of \<open>submit\<close>, the commands pushed, and the commands handed to the processor.
\<close>

definition new_pipeline :: "u64 \<Rightarrow> 's \<Rightarrow> 's MatchingPipeline option" where
  "new_pipeline queue_capacity s = do {
     q \<leftarrow> new_spsc queue_capacity;
     Some \<lparr>pi_sequencer = new_sequencer, pi_queue = q, pi_state = s, pi_events = [], pi_commands_processed = 0,
       pi_commands_rejected = 0, pi_stop_requested = False, pi_submitter = SIdle, pi_matcher = Polling,
       pi_replies = [], pi_accepted = [], pi_processed = []\<rparr>
   }"

text \<open>
  The two actions of \<open>submit\<close>: the room check with the numbering, which only this thread touches, and the push.
\<close>

definition reject_submit :: "ExchangeCommand \<Rightarrow> 's MatchingPipeline \<Rightarrow> 's MatchingPipeline" where
  "reject_submit command p = p\<lparr>pi_commands_rejected := pi_commands_rejected p + 1, pi_submitter := SIdle,
     pi_replies := pi_replies p @ [(command, False)]\<rparr>"

definition submit_step :: "ExchangeCommand \<Rightarrow> 's MatchingPipeline \<Rightarrow> 's MatchingPipeline option" where
  "submit_step command p = (case pi_submitter p of
     SIdle \<Rightarrow>
       if spsc_size (pi_queue p) \<ge> sq_capacity (pi_queue p) then Some (reject_submit command p)
       else let (sq, sequenced) = sequence (pi_sequencer p) command in
         Some (p\<lparr>pi_sequencer := sq, pi_submitter := SChecked command sequenced\<rparr>)
   | SChecked command sequenced \<Rightarrow> do {
       (q, pushed) \<leftarrow> try_push (pi_queue p) sequenced;
       Some (if pushed then p\<lparr>pi_queue := q, pi_submitter := SIdle, pi_replies := pi_replies p @ [(command, True)],
                 pi_accepted := pi_accepted p @ [sequenced]\<rparr>
             else reject_submit command (p\<lparr>pi_queue := q\<rparr>))
     })"

text \<open>The body of the matching thread's loop.\<close>

definition match_step ::
  "('s \<Rightarrow> ExchangeCommand \<Rightarrow> ('s \<times> ExchangeEvent list) option) \<Rightarrow> 's MatchingPipeline \<Rightarrow> 's MatchingPipeline option" where
  "match_step processor p = (case pi_matcher p of
     Polling \<Rightarrow> do {
       (q, command) \<leftarrow> try_pop (pi_queue p);
       Some (p\<lparr>pi_queue := q, pi_matcher := (case command of None \<Rightarrow> FoundEmpty | Some c \<Rightarrow> Holding c)\<rparr>)
     }
   | FoundEmpty \<Rightarrow> Some (p\<lparr>pi_matcher := (if pi_stop_requested p then Finished else Polling)\<rparr>)
   | Holding command \<Rightarrow> do {
       (s, evs) \<leftarrow> processor (pi_state p) command;
       Some (p\<lparr>pi_state := s, pi_events := pi_events p @ evs, pi_commands_processed := pi_commands_processed p + 1,
         pi_matcher := Polling, pi_processed := pi_processed p @ [command]\<rparr>)
     }
   | Finished \<Rightarrow> Some p)"

text \<open>\<open>stop\<close> requests the stop and joins: it returns once the matching thread is \<open>Finished\<close>.\<close>

definition request_stop :: "'s MatchingPipeline \<Rightarrow> 's MatchingPipeline" where
  "request_stop p = p\<lparr>pi_stop_requested := True\<rparr>"

inductive pipeline_reach ::
  "('s \<Rightarrow> ExchangeCommand \<Rightarrow> ('s \<times> ExchangeEvent list) option) \<Rightarrow> 's MatchingPipeline \<Rightarrow> 's MatchingPipeline \<Rightarrow> bool"
  for processor p0 where
  start: "pipeline_reach processor p0 p0"
| submit: "pipeline_reach processor p0 p \<Longrightarrow> submit_step command p = Some p' \<Longrightarrow> pipeline_reach processor p0 p'"
| match: "pipeline_reach processor p0 p \<Longrightarrow> match_step processor p = Some p' \<Longrightarrow> pipeline_reach processor p0 p'"
| stop: "pipeline_reach processor p0 p \<Longrightarrow> pipeline_reach processor p0 (request_stop p)"

fun match_steps ::
  "('s \<Rightarrow> ExchangeCommand \<Rightarrow> ('s \<times> ExchangeEvent list) option) \<Rightarrow> nat \<Rightarrow> 's MatchingPipeline \<Rightarrow> 's MatchingPipeline option" where
  "match_steps processor 0 p = Some p"
| "match_steps processor (Suc n) p = Option.bind (match_step processor p) (match_steps processor n)"

subsection \<open>What the pipeline should have done\<close>

fun number_from :: "CommandSequence \<Rightarrow> ExchangeCommand list \<Rightarrow> ExchangeCommand list" where
  "number_from n [] = []"
| "number_from n (c # cs) = with_command_sequence n c # number_from (n + 1) cs"

fun process_all :: "('s \<Rightarrow> ExchangeCommand \<Rightarrow> ('s \<times> ExchangeEvent list) option) \<Rightarrow> 's \<Rightarrow> ExchangeCommand list \<Rightarrow>
  ('s \<times> ExchangeEvent list) option" where
  "process_all processor s [] = Some (s, [])"
| "process_all processor s (c # cs) = do {
     (s1, evs1) \<leftarrow> processor s c;
     (s2, evs2) \<leftarrow> process_all processor s1 cs;
     Some (s2, evs1 @ evs2)
   }"

lemma process_all_engine: "process_all process E cmds = run E cmds"
  by (induction cmds arbitrary: E) simp_all

lemma number_from_snoc: "number_from n (cs @ [c]) = number_from n cs @ [with_command_sequence (n + of_nat (length cs)) c]"
  by (induction cs arbitrary: n) (simp_all add: algebra_simps)

lemma length_number_from [simp]: "length (number_from n cs) = length cs"
  by (induction cs arbitrary: n) simp_all

lemma process_all_append: "process_all processor s (xs @ ys) = do {
     (s1, evs1) \<leftarrow> process_all processor s xs;
     (s2, evs2) \<leftarrow> process_all processor s1 ys;
     Some (s2, evs1 @ evs2)
   }"
  by (induction xs arbitrary: s) (auto split: bind_splits)

abbreviation accepted_of :: "(ExchangeCommand \<times> bool) list \<Rightarrow> ExchangeCommand list" where
  "accepted_of replies \<equiv> map fst (filter snd replies)"

abbreviation rejected_of :: "(ExchangeCommand \<times> bool) list \<Rightarrow> ExchangeCommand list" where
  "rejected_of replies \<equiv> map fst (filter (\<lambda>r. \<not> snd r) replies)"

fun held :: "matcher \<Rightarrow> ExchangeCommand list" where
  "held (Holding c) = [c]"
| "held _ = []"

subsection \<open>The invariant\<close>

definition submitter_ok :: "'s MatchingPipeline \<Rightarrow> bool" where
  "submitter_ok p \<longleftrightarrow> (case pi_submitter p of
     SIdle \<Rightarrow> cq_next_sequence (pi_sequencer p) = 1 + of_nat (length (pi_accepted p))
   | SChecked raw c \<Rightarrow> c = with_command_sequence (1 + of_nat (length (pi_accepted p))) raw \<and>
       cq_next_sequence (pi_sequencer p) = 2 + of_nat (length (pi_accepted p)) \<and>
       length (spsc_contents (pi_queue p)) < unat (sq_capacity (pi_queue p)))"

definition pipeline_inv ::
  "('s \<Rightarrow> ExchangeCommand \<Rightarrow> ('s \<times> ExchangeEvent list) option) \<Rightarrow> 's \<Rightarrow> 's MatchingPipeline \<Rightarrow> bool" where
  "pipeline_inv processor s p \<longleftrightarrow> spsc_ok (pi_queue p) \<and> submitter_ok p \<and>
     pi_accepted p = number_from 1 (accepted_of (pi_replies p)) \<and>
     pi_commands_rejected p = of_nat (length (rejected_of (pi_replies p))) \<and>
     pi_accepted p = pi_processed p @ held (pi_matcher p) @ spsc_contents (pi_queue p) \<and>
     process_all processor s (pi_processed p) = Some (pi_state p, pi_events p) \<and>
     pi_commands_processed p = of_nat (length (pi_processed p))"

lemma pipeline_invD:
  assumes "pipeline_inv processor s p"
  shows "spsc_ok (pi_queue p)" "submitter_ok p" "pi_accepted p = number_from 1 (accepted_of (pi_replies p))"
    "pi_commands_rejected p = of_nat (length (rejected_of (pi_replies p)))"
    "pi_accepted p = pi_processed p @ held (pi_matcher p) @ spsc_contents (pi_queue p)"
    "process_all processor s (pi_processed p) = Some (pi_state p, pi_events p)"
    "pi_commands_processed p = of_nat (length (pi_processed p))"
  using assms unfolding pipeline_inv_def by blast+

lemma new_pipeline_inv:
  assumes "new_pipeline capacity s = Some p"
  shows "pipeline_inv processor s p"
proof -
  obtain q :: "ExchangeCommand SpscQueue" where q: "new_spsc capacity = Some q"
    using assms by (auto simp: new_pipeline_def split: bind_splits)
  then obtain k where k: "spsc_quiet k q [] []" using new_spsc_inv by blast
  have "spsc_ok q" "spsc_contents q = []" using k spsc_quiet_contents(1) [OF k] by (auto simp: spsc_ok_def)
  then show ?thesis using assms q by (auto simp: new_pipeline_def pipeline_inv_def submitter_ok_def new_sequencer_def)
qed

text \<open>The producer: the check is decisive, so the push after it succeeds.\<close>

lemma submit_step_inv:
  assumes inv: "pipeline_inv processor s p"
  obtains p' where "submit_step command p = Some p'" "pipeline_inv processor s p'"
proof (cases "pi_submitter p")
  case SIdle
  note d = pipeline_invD [OF inv]
  have size: "unat (spsc_size (pi_queue p)) = length (spsc_contents (pi_queue p))" using spsc.size_law [OF d(1)] by simp
  show ?thesis
  proof (cases "spsc_size (pi_queue p) \<ge> sq_capacity (pi_queue p)")
    case True
    have "pipeline_inv processor s (reject_submit command p)"
      using d SIdle by (simp add: pipeline_inv_def reject_submit_def submitter_ok_def)
    then show ?thesis using that [of "reject_submit command p"] SIdle True by (simp add: submit_step_def)
  next
    case False
    then have "length (spsc_contents (pi_queue p)) < unat (sq_capacity (pi_queue p))" using size by (simp add: not_le word_less_nat_alt)
    then have "pipeline_inv processor s (p\<lparr>pi_sequencer := fst (sequence (pi_sequencer p) command),
        pi_submitter := SChecked command (snd (sequence (pi_sequencer p) command))\<rparr>)"
      using d SIdle by (simp add: pipeline_inv_def submitter_ok_def sequence_def Let_def)
    then show ?thesis using that SIdle False by (simp add: submit_step_def sequence_def Let_def)
  qed
next
  case (SChecked raw c)
  note d = pipeline_invD [OF inv]
  have c: "c = with_command_sequence (1 + of_nat (length (pi_accepted p))) raw"
    "cq_next_sequence (pi_sequencer p) = 2 + of_nat (length (pi_accepted p))"
    "length (spsc_contents (pi_queue p)) < unat (sq_capacity (pi_queue p))"
    using d(2) SChecked by (simp_all add: submitter_ok_def)
  obtain q where q: "try_push (pi_queue p) c = Some (q, True)" "spsc_ok q" "spsc_contents q = spsc_contents (pi_queue p) @ [c]"
    using spsc.push_law [OF d(1), of c] c(3) by auto
  have "length (pi_accepted p) = length (accepted_of (pi_replies p))" using d(3) by (metis length_number_from)
  then have "pipeline_inv processor s (p\<lparr>pi_queue := q, pi_submitter := SIdle, pi_replies := pi_replies p @ [(raw, True)],
      pi_accepted := pi_accepted p @ [c]\<rparr>)"
    using d q c(1,2) by (simp add: pipeline_inv_def submitter_ok_def number_from_snoc)
  then show ?thesis using that SChecked q(1) by (simp add: submit_step_def)
qed

text \<open>The matching thread: only the processor can fail.\<close>

lemma match_step_inv:
  assumes inv: "pipeline_inv processor s p" and step: "match_step processor p = Some p'"
  shows "pipeline_inv processor s p'"
proof -
  note d = pipeline_invD [OF inv]
  show ?thesis
  proof (cases "pi_matcher p")
    case Polling
    obtain q where q: "try_pop (pi_queue p) = Some (q, case spsc_contents (pi_queue p) of [] \<Rightarrow> None | x # _ \<Rightarrow> Some x)"
      "spsc_ok q" "unat (sq_capacity q) = unat (sq_capacity (pi_queue p))" "spsc_contents q = tl (spsc_contents (pi_queue p))"
      using spsc.pop_law [OF d(1)] by blast
    then show ?thesis using d step Polling
      by (cases "spsc_contents (pi_queue p)") (auto simp: match_step_def pipeline_inv_def submitter_ok_def split: submitter.splits)
  next
    case (Holding c)
    then obtain s1 evs where "processor (pi_state p) c = Some (s1, evs)"
      "p' = p\<lparr>pi_state := s1, pi_events := pi_events p @ evs, pi_commands_processed := pi_commands_processed p + 1,
         pi_matcher := Polling, pi_processed := pi_processed p @ [c]\<rparr>"
      using step by (auto simp: match_step_def split: bind_splits)
    then show ?thesis using d Holding
      by (auto simp: pipeline_inv_def submitter_ok_def process_all_append split: submitter.splits)
  qed (use d step in \<open>auto simp: match_step_def pipeline_inv_def submitter_ok_def split: submitter.splits if_splits\<close>)
qed

lemma request_stop_inv: "pipeline_inv processor s p \<Longrightarrow> pipeline_inv processor s (request_stop p)"
  by (auto simp: pipeline_inv_def request_stop_def submitter_ok_def split: submitter.splits)

lemma reach_inv:
  assumes "pipeline_reach processor p0 p" "new_pipeline capacity s = Some p0"
  shows "pipeline_inv processor s p"
  using assms(1)
proof induction
  case start
  show ?case by (rule new_pipeline_inv [OF assms(2)])
next
  case (submit p command p')
  show ?case using submit_step_inv [OF submit.IH, of command] submit.hyps(2) by (metis option.inject)
next
  case (match p p')
  show ?case by (rule match_step_inv [OF match.IH match.hyps(2)])
next
  case (stop p)
  show ?case by (rule request_stop_inv [OF stop.IH])
qed

subsection \<open>Draining\<close>

text \<open>Once a stop has been requested, the matching thread on its own finishes what is queued and leaves its loop.\<close>

lemma match_steps_finished: "pi_matcher p = Finished \<Longrightarrow> match_steps processor n p = Some p"
  by (induction n) (simp_all add: match_step_def)

lemma match_steps_polling:
  assumes "pipeline_inv processor s p" "pi_stop_requested p" "pi_matcher p = Polling"
    "process_all processor s (pi_accepted p) \<noteq> None" "n \<ge> 2 * length (spsc_contents (pi_queue p)) + 2"
  shows "\<exists>p'. match_steps processor n p = Some p' \<and> pi_matcher p' = Finished \<and> pi_processed p' = pi_accepted p \<and>
    pi_replies p' = pi_replies p \<and> pipeline_inv processor s p'"
  using assms
proof (induction "length (spsc_contents (pi_queue p))" arbitrary: n p)
  case 0
  note d = pipeline_invD [OF 0(2)]
  obtain m where n: "n = Suc (Suc m)" using 0(6) by (metis add_2_eq_Suc' le_Suc_ex add_Suc)
  obtain q where q: "try_pop (pi_queue p) = Some (q, None)" using spsc.pop_law [OF d(1)] 0(1) by auto
  let ?p1 = "p\<lparr>pi_queue := q, pi_matcher := FoundEmpty\<rparr>" and ?p2 = "p\<lparr>pi_queue := q, pi_matcher := Finished\<rparr>"
  have 1: "match_step processor p = Some ?p1" "match_step processor ?p1 = Some ?p2" using 0(3,4) q by (simp_all add: match_step_def)
  have "pipeline_inv processor s ?p2" by (intro match_step_inv [OF match_step_inv [OF 0(2) 1(1)] 1(2)])
  moreover have "match_steps processor n p = Some ?p2" using 1 n match_steps_finished [of ?p2 processor m] by simp
  ultimately show ?case using d(5) 0(1,4) by auto
next
  case (Suc len)
  note d = pipeline_invD [OF Suc(3)]
  obtain c cs where c: "spsc_contents (pi_queue p) = c # cs" using Suc(2) by (metis length_Suc_conv)
  obtain m where n: "n = Suc (Suc m)" "m \<ge> 2 * length cs + 2" using Suc(7) c by (cases n; cases "n - 1") auto
  obtain q where q: "try_pop (pi_queue p) = Some (q, Some c)" "spsc_contents q = cs" using spsc.pop_law [OF d(1)] c by auto
  have acc: "pi_accepted p = pi_processed p @ c # cs" using d(5) c Suc(5) by simp
  obtain s1 evs where s1: "processor (pi_state p) c = Some (s1, evs)"
    using Suc(6) d(6) acc by (auto simp: process_all_append split: bind_splits)
  let ?p1 = "p\<lparr>pi_queue := q, pi_matcher := Holding c\<rparr>"
  let ?p2 = "?p1\<lparr>pi_state := s1, pi_events := pi_events p @ evs, pi_commands_processed := pi_commands_processed p + 1,
         pi_matcher := Polling, pi_processed := pi_processed p @ [c]\<rparr>"
  have 1: "match_step processor p = Some ?p1" "match_step processor ?p1 = Some ?p2" using Suc(5) q(1) s1 by (simp_all add: match_step_def)
  have inv2: "pipeline_inv processor s ?p2" by (intro match_step_inv [OF match_step_inv [OF Suc(3) 1(1)] 1(2)])
  have "\<exists>p'. match_steps processor m ?p2 = Some p' \<and> pi_matcher p' = Finished \<and> pi_processed p' = pi_accepted ?p2 \<and>
    pi_replies p' = pi_replies ?p2 \<and> pipeline_inv processor s p'"
    by (rule Suc(1) [OF _ inv2]) (use Suc(2,4,6) c q(2) n(2) in simp_all)
  then show ?case using n(1) 1 by simp
qed

lemma match_steps_drain:
  assumes "pipeline_inv processor s p" "pi_stop_requested p" "pi_matcher p \<noteq> FoundEmpty" "pi_matcher p \<noteq> Finished"
    "process_all processor s (pi_accepted p) \<noteq> None" "n \<ge> 2 * length (spsc_contents (pi_queue p)) + 3"
  shows "\<exists>p'. match_steps processor n p = Some p' \<and> pi_matcher p' = Finished \<and> pi_processed p' = pi_accepted p \<and>
    pi_replies p' = pi_replies p \<and> pipeline_inv processor s p'"
proof (cases "pi_matcher p")
  case Polling
  then show ?thesis using match_steps_polling [OF assms(1,2) _ assms(5), of n] assms(6) by simp
next
  case (Holding c)
  note d = pipeline_invD [OF assms(1)]
  obtain m where n: "n = Suc m" "m \<ge> 2 * length (spsc_contents (pi_queue p)) + 2" using assms(6) by (cases n) auto
  obtain s1 evs where s1: "processor (pi_state p) c = Some (s1, evs)"
    using assms(5) d(5,6) Holding by (auto simp: process_all_append split: bind_splits)
  let ?p1 = "p\<lparr>pi_state := s1, pi_events := pi_events p @ evs, pi_commands_processed := pi_commands_processed p + 1,
         pi_matcher := Polling, pi_processed := pi_processed p @ [c]\<rparr>"
  have 1: "match_step processor p = Some ?p1" using Holding s1 by (simp add: match_step_def)
  have "\<exists>p'. match_steps processor m ?p1 = Some p' \<and> pi_matcher p' = Finished \<and> pi_processed p' = pi_accepted ?p1 \<and>
    pi_replies p' = pi_replies ?p1 \<and> pipeline_inv processor s p'"
    by (rule match_steps_polling [OF match_step_inv [OF assms(1) 1]]) (use assms(2,5) n(2) in simp_all)
  then show ?thesis using n(1) 1 by simp
qed (use assms(3,4) in simp_all)

subsection \<open>Sample schedules\<close>

definition sample_pipeline :: "'s \<Rightarrow> 's MatchingPipeline" where
  "sample_pipeline s = \<lparr>pi_sequencer = new_sequencer,
     pi_queue = \<lparr>sq_capacity = 1, sq_mask = 0, sq_storage = [None], sq_high_water_mark = 0, sq_head = 0, sq_tail = 0\<rparr>,
     pi_state = s, pi_events = [], pi_commands_processed = 0, pi_commands_rejected = 0, pi_stop_requested = False,
     pi_submitter = SIdle, pi_matcher = Polling, pi_replies = [], pi_accepted = [], pi_processed = []\<rparr>"

lemma sample_pipeline_new: "new_pipeline 1 s = Some (sample_pipeline s)"
  by (simp add: new_pipeline_def new_spsc_def next_power_of_two_def next_power_of_two_from.simps sample_pipeline_def)

text \<open>One command through \<open>submit\<close>, from a pipeline whose matching thread is anywhere.\<close>

definition sample_submitted :: "ExchangeCommand \<Rightarrow> 's MatchingPipeline \<Rightarrow> 's MatchingPipeline" where
  "sample_submitted c p = p\<lparr>pi_sequencer := \<lparr>cq_next_sequence = 2\<rparr>,
     pi_queue := \<lparr>sq_capacity = 1, sq_mask = 0, sq_storage = [Some (with_command_sequence 1 c)], sq_high_water_mark = 1, sq_head = 1, sq_tail = 0\<rparr>,
     pi_replies := [(c, True)], pi_accepted := [with_command_sequence 1 c]\<rparr>"

lemmas sample_pipeline_simps = sample_pipeline_def sample_submitted_def submit_step_def match_step_def sequence_def new_sequencer_def
  spsc_size_def try_push_def try_pop_def construct_at_def read_slot_def slot_of_def note_occupancy_def Let_def

lemma sample_submit:
  assumes "p = (sample_pipeline s)\<lparr>pi_matcher := m\<rparr>"
  shows "Option.bind (submit_step c p) (submit_step c) = Some (sample_submitted c p)"
  using assms by (simp add: sample_pipeline_simps)

lemma sample_submit_reach:
  assumes "pipeline_reach processor p0 p" "p = (sample_pipeline s)\<lparr>pi_matcher := m\<rparr>"
  shows "pipeline_reach processor p0 (sample_submitted c p)"
proof -
  obtain p1 where "submit_step c p = Some p1" "submit_step c p1 = Some (sample_submitted c p)"
    using sample_submit [OF assms(2), of c] by (cases "submit_step c p") auto
  then show ?thesis using assms(1) by (blast intro: pipeline_reach.submit)
qed

subsection \<open>Properties\<close>

text \<open>
  C36. Commands are processed in the order accepted. In every interleaving of the producer, the
  matching thread and stop requests, the commands that entered the queue are exactly those \<open>submit\<close> answered
  \<open>true\<close> for, numbered 1, 2, 3, ... in submission order whatever numbers they came with; a refused
  command takes no number and is counted. What has been processed is an initial part of them, at most one more
  than the queue's capacity behind, and the processor's state and the events sent to the sink are those of
  processing that part in order. No action of the producer fails, its second push attempt never finds the queue
  full, and the matching thread fails only where the processor does.
\<close>

theorem pipeline_processes_in_order:
  assumes "new_pipeline capacity s = Some p0" "pipeline_reach processor p0 p"
  shows "pi_accepted p = number_from 1 (accepted_of (pi_replies p)) \<and>
    pi_commands_rejected p = of_nat (length (rejected_of (pi_replies p))) \<and>
    (\<exists>rest. pi_accepted p = pi_processed p @ rest \<and> length rest \<le> Suc (unat (sq_capacity (pi_queue p)))) \<and>
    process_all processor s (pi_processed p) = Some (pi_state p, pi_events p) \<and>
    pi_commands_processed p = of_nat (length (pi_processed p)) \<and>
    (\<exists>p'. submit_step command p = Some p' \<and>
       (\<forall>raw c. pi_submitter p = SChecked raw c \<longrightarrow> pi_replies p' = pi_replies p @ [(raw, True)])) \<and>
    (match_step processor p = None \<longrightarrow> (\<exists>c. pi_matcher p = Holding c \<and> processor (pi_state p) c = None))"
proof -
  note d = pipeline_invD [OF reach_inv [OF assms(2,1)]]
  have "length (held (pi_matcher p)) \<le> 1" by (cases "pi_matcher p") simp_all
  then have behind: "\<exists>rest. pi_accepted p = pi_processed p @ rest \<and> length rest \<le> Suc (unat (sq_capacity (pi_queue p)))"
    using d(5) spsc.size_law [OF d(1)] by (intro exI [of _ "held (pi_matcher p) @ spsc_contents (pi_queue p)"]) simp
  obtain p' where "submit_step command p = Some p'" by (rule submit_step_inv [OF reach_inv [OF assms(2,1)]])
  moreover from this have "pi_replies p' = pi_replies p @ [(raw, True)]" if "pi_submitter p = SChecked raw c" for raw c
    using spsc.push_law [OF d(1), of c] d(2) that by (auto simp: submit_step_def submitter_ok_def)
  moreover have "\<exists>c. pi_matcher p = Holding c \<and> processor (pi_state p) c = None" if "match_step processor p = None"
    using that spsc.pop_law [OF d(1)] by (cases "pi_matcher p") (auto simp: match_step_def split: bind_splits)
  ultimately show ?thesis using d(3,4,6,7) behind by blast
qed

theorem pipeline_processes_in_order_witness:
  "\<exists>p. pipeline_reach process (sample_pipeline (new_engine [7] 4)) p \<and>
     pi_replies p = [(NewOrder (sample_new Buy 1 100 10 GTC), True), (NewOrder (sample_new Sell 2 100 5 IOC), False)] \<and>
     pi_accepted p = [NewOrder ((sample_new Buy 1 100 10 GTC)\<lparr>nc_command_sequence := 1\<rparr>)] \<and> pi_commands_rejected p = 1"
proof -
  let ?s = "new_engine [7] 4" and ?c = "NewOrder (sample_new Buy 1 100 10 GTC)" and ?d = "NewOrder (sample_new Sell 2 100 5 IOC)"
  let ?p1 = "sample_submitted ?c (sample_pipeline ?s)"
  have "pipeline_reach process (sample_pipeline ?s) ?p1"
    by (rule sample_submit_reach [OF pipeline_reach.start]) (simp add: sample_pipeline_def)
  moreover have "submit_step ?d ?p1 = Some (reject_submit ?d ?p1)" by (simp add: sample_pipeline_simps)
  ultimately have r: "pipeline_reach process (sample_pipeline ?s) (reject_submit ?d ?p1)" by (rule pipeline_reach.submit)
  have "pi_replies (reject_submit ?d ?p1) = [(?c, True), (?d, False)]" by (simp add: reject_submit_def sample_submitted_def)
  then show ?thesis using r pipeline_processes_in_order [OF sample_pipeline_new r]
    by (intro exI [of _ "reject_submit ?d ?p1"]) simp
qed

text \<open>
  C37. A stop drains. If a stop is requested at any moment other than between an empty pop and the look
  at the stop token, the matching thread processes every accepted command that is still queued or in hand and
  leaves its loop after at most three actions more than two per queued command: \<open>stop\<close> returns, and the state and the events
  are those of processing all accepted commands in order. The processor is only asked to handle these.
\<close>

theorem stop_drains_queue:
  assumes "new_pipeline capacity s = Some p0" "pipeline_reach processor p0 p" "pi_stop_requested p"
    "pi_matcher p \<noteq> FoundEmpty" "pi_matcher p \<noteq> Finished" "process_all processor s (pi_accepted p) \<noteq> None"
    "n \<ge> 2 * length (spsc_contents (pi_queue p)) + 3"
  shows "\<exists>p'. match_steps processor n p = Some p' \<and> pi_matcher p' = Finished \<and> pi_processed p' = pi_accepted p \<and>
    process_all processor s (pi_accepted p) = Some (pi_state p', pi_events p')"
  using match_steps_drain [OF reach_inv [OF assms(2,1)] assms(3-7)] pipeline_invD(6) by metis

theorem stop_drains_queue_witness:
  "\<exists>p p'. pipeline_reach process (sample_pipeline (new_engine [7] 4)) p \<and> pi_stop_requested p \<and> pi_matcher p = Polling \<and>
     match_steps process 5 p = Some p' \<and> pi_matcher p' = Finished \<and>
     pi_processed p' = [NewOrder ((sample_new Buy 1 100 10 GTC)\<lparr>nc_command_sequence := 1\<rparr>)]"
proof -
  let ?s = "new_engine [7] 4" and ?c = "NewOrder (sample_new Buy 1 100 10 GTC)"
  let ?p = "request_stop (sample_submitted ?c (sample_pipeline ?s))"
  have r: "pipeline_reach process (sample_pipeline ?s) ?p"
    by (intro pipeline_reach.stop sample_submit_reach [OF pipeline_reach.start]) (simp add: sample_pipeline_def)
  have p: "pi_stop_requested ?p" "pi_matcher ?p = Polling" "pi_accepted ?p = [with_command_sequence 1 ?c]"
    by (simp_all add: request_stop_def sample_submitted_def sample_pipeline_def)
  have "length (spsc_contents (pi_queue ?p)) = 1"
    by (simp add: spsc_contents_def request_stop_def sample_submitted_def)
  then have n: "2 * length (spsc_contents (pi_queue ?p)) + 3 \<le> 5" by simp
  have same: "with_command_sequence 1 ?c = ?c" by (simp add: sample_new_def)
  have "\<exists>E evs. run ?s [with_command_sequence 1 ?c] = Some (E, evs)"
    using run_done [OF new_engine_inv new_engine_state(1), of "[?c]" "[7]" 4] unfolding same
    by (auto simp: new_engine_state(3) kNil_def)
  then have "process_all process ?s (pi_accepted ?p) \<noteq> None" by (auto simp only: p(3) process_all_engine)
  from stop_drains_queue [OF sample_pipeline_new r p(1) _ _ this n] show ?thesis using r p by auto
qed

subsection \<open>The window in which a stop loses commands\<close>

text \<open>The actions of the other threads while the matching thread stands still: \<open>Some c\<close> is an action of the producer, \<open>None\<close> a stop request.\<close>

fun window_steps :: "ExchangeCommand option list \<Rightarrow> 's MatchingPipeline \<Rightarrow> 's MatchingPipeline option" where
  "window_steps [] p = Some p"
| "window_steps (Some c # acts) p = Option.bind (submit_step c p) (window_steps acts)"
| "window_steps (None # acts) p = window_steps acts (request_stop p)"

lemma window_steps_reach:
  "pipeline_reach processor p0 p \<Longrightarrow> window_steps acts p = Some p1 \<Longrightarrow> pipeline_reach processor p0 p1"
proof (induction acts p rule: window_steps.induct)
  case (2 c acts p)
  then show ?case by (auto simp: bind_eq_Some_conv intro: pipeline_reach.submit)
qed (auto intro: pipeline_reach.stop)

text \<open>What the actions of the other threads leave alone.\<close>

definition matcher_side :: "'s MatchingPipeline \<Rightarrow> matcher \<times> 's \<times> ExchangeEvent list \<times> u64 \<times> ExchangeCommand list" where
  "matcher_side p = (pi_matcher p, pi_state p, pi_events p, pi_commands_processed p, pi_processed p)"

lemma submit_step_keeps:
  "submit_step c p = Some p' \<Longrightarrow> matcher_side p' = matcher_side p \<and> (\<exists>rest. pi_accepted p' = pi_accepted p @ rest)"
  by (auto simp: submit_step_def matcher_side_def reject_submit_def Let_def case_prod_beta bind_eq_Some_conv split: submitter.splits if_splits)

lemma window_steps_keeps:
  "window_steps acts p = Some p1 \<Longrightarrow> matcher_side p1 = matcher_side p \<and> (\<exists>rest. pi_accepted p1 = pi_accepted p @ rest)"
proof (induction acts p rule: window_steps.induct)
  case (2 c acts p)
  then obtain p' where "submit_step c p = Some p'" "window_steps acts p' = Some p1" by (auto simp: bind_eq_Some_conv)
  then show ?case using 2(1) submit_step_keeps [of c p p'] by fastforce
qed (auto simp: request_stop_def matcher_side_def)

lemma finished_for_good:
  assumes "pipeline_reach processor p2 p3" "pi_matcher p2 = Finished"
  shows "matcher_side p3 = matcher_side p2 \<and> (\<exists>rest. pi_accepted p3 = pi_accepted p2 @ rest)"
  using assms
proof (induction rule: pipeline_reach.induct)
  case (submit p command p')
  then show ?case using submit_step_keeps [of command p p'] by fastforce
next
  case (match p p')
  then have "p' = p" by (auto simp: matcher_side_def match_step_def)
  then show ?case using match by simp
qed (auto simp: request_stop_def matcher_side_def)

text \<open>
  C38. A stop loses the commands accepted in one window. Once the matching thread has found the queue empty, and as long as it has not looked at the stop token, the
  other threads can act as they like: if a stop is requested by the time the thread looks, it leaves its loop, and from then on, in every continuation, it processes
  nothing more. All commands accepted in the window, answered \<open>true\<close>, stay in the queue for ever. And every command can be accepted there while there is room.
\<close>

theorem stop_can_lose_accepted_command:
  assumes "new_pipeline capacity s = Some p0" "pipeline_reach processor p0 p" "pi_matcher p = FoundEmpty"
  shows "(\<forall>acts p1. window_steps acts p = Some p1 \<longrightarrow> pi_stop_requested p1 \<longrightarrow>
      (\<exists>p2. match_step processor p1 = Some p2 \<and> (\<forall>p3. pipeline_reach processor p2 p3 \<longrightarrow> pi_matcher p3 = Finished \<and> pi_processed p3 = pi_processed p \<and>
         pi_state p3 = pi_state p \<and> pi_events p3 = pi_events p \<and> (\<exists>rest. pi_accepted p3 = pi_accepted p1 @ rest)) \<and>
       pi_accepted p1 = pi_processed p @ spsc_contents (pi_queue p1))) \<and>
    (pi_submitter p = SIdle \<longrightarrow> length (spsc_contents (pi_queue p)) < unat (sq_capacity (pi_queue p)) \<longrightarrow>
      (\<exists>p1. window_steps [Some command, Some command, None] p = Some p1 \<and> pi_stop_requested p1 \<and> pi_replies p1 = pi_replies p @ [(command, True)] \<and>
         pi_accepted p1 = pi_accepted p @ [with_command_sequence (1 + of_nat (length (pi_accepted p))) command]))"
proof (intro conjI allI impI)
  fix acts p1
  assume w: "window_steps acts p = Some p1" and stop: "pi_stop_requested p1"
  note keep = window_steps_keeps [OF w]
  have m: "pi_matcher p1 = FoundEmpty" using keep assms(3) by (simp add: matcher_side_def)
  let ?p2 = "p1\<lparr>pi_matcher := Finished\<rparr>"
  have "match_step processor p1 = Some ?p2" using m stop by (simp add: match_step_def)
  moreover have "pi_matcher p3 = Finished \<and> pi_processed p3 = pi_processed p \<and> pi_state p3 = pi_state p \<and> pi_events p3 = pi_events p \<and>
      (\<exists>rest. pi_accepted p3 = pi_accepted p1 @ rest)" if "pipeline_reach processor ?p2 p3" for p3
    using finished_for_good [OF that] keep by (simp add: matcher_side_def)
  moreover have "pi_accepted p1 = pi_processed p @ spsc_contents (pi_queue p1)"
    using pipeline_invD(5) [OF reach_inv [OF window_steps_reach [OF assms(2) w] assms(1)]] m keep by (simp add: matcher_side_def)
  ultimately show "\<exists>p2. match_step processor p1 = Some p2 \<and> (\<forall>p3. pipeline_reach processor p2 p3 \<longrightarrow> pi_matcher p3 = Finished \<and> pi_processed p3 = pi_processed p \<and>
         pi_state p3 = pi_state p \<and> pi_events p3 = pi_events p \<and> (\<exists>rest. pi_accepted p3 = pi_accepted p1 @ rest)) \<and>
       pi_accepted p1 = pi_processed p @ spsc_contents (pi_queue p1)" by blast
next
  assume idle: "pi_submitter p = SIdle" and room: "length (spsc_contents (pi_queue p)) < unat (sq_capacity (pi_queue p))"
  note d = pipeline_invD [OF reach_inv [OF assms(2,1)]]
  have n: "cq_next_sequence (pi_sequencer p) = 1 + of_nat (length (pi_accepted p))" using d(2) idle by (simp add: submitter_ok_def)
  have "\<not> spsc_size (pi_queue p) \<ge> sq_capacity (pi_queue p)"
    using spsc.size_law [OF d(1)] room by (simp add: not_le word_less_nat_alt)
  moreover obtain q where "try_push (pi_queue p) (with_command_sequence (1 + of_nat (length (pi_accepted p))) command) = Some (q, True)"
    using spsc.push_law [OF d(1)] room by auto
  ultimately show "\<exists>p1. window_steps [Some command, Some command, None] p = Some p1 \<and> pi_stop_requested p1 \<and> pi_replies p1 = pi_replies p @ [(command, True)] \<and>
         pi_accepted p1 = pi_accepted p @ [with_command_sequence (1 + of_nat (length (pi_accepted p))) command]"
    using idle n by (simp add: submit_step_def sequence_def request_stop_def Let_def)
qed

text \<open>In the first window of a run a command is submitted, then stop is called: nothing is ever processed.\<close>

theorem stop_can_lose_accepted_command_witness:
  "\<exists>p1 p2. window_steps [Some (NewOrder (sample_new Buy 1 100 10 GTC)), Some (NewOrder (sample_new Buy 1 100 10 GTC)), None]
       ((sample_pipeline (new_engine [7] 4))\<lparr>pi_matcher := FoundEmpty\<rparr>) = Some p1 \<and>
     pi_replies p1 = [(NewOrder (sample_new Buy 1 100 10 GTC), True)] \<and> match_step process p1 = Some p2 \<and>
     (\<forall>p3. pipeline_reach process p2 p3 \<longrightarrow> pi_matcher p3 = Finished \<and> pi_processed p3 = [] \<and> pi_events p3 = [])"
proof -
  let ?s = "new_engine [7] 4" and ?c = "NewOrder (sample_new Buy 1 100 10 GTC)"
  let ?p = "(sample_pipeline ?s)\<lparr>pi_matcher := FoundEmpty\<rparr>"
  have "match_step process (sample_pipeline ?s) = Some ?p" by (simp add: sample_pipeline_simps)
  then have r: "pipeline_reach process (sample_pipeline ?s) ?p" by (rule pipeline_reach.match [OF pipeline_reach.start])
  have p: "pi_matcher ?p = FoundEmpty" "pi_submitter ?p = SIdle" "pi_replies ?p = []" "pi_processed ?p = []" "pi_events ?p = []"
    by (simp_all add: sample_pipeline_def)
  have "spsc_contents (pi_queue ?p) = []" by (simp add: sample_pipeline_def spsc_contents_def)
  then have room: "length (spsc_contents (pi_queue ?p)) < unat (sq_capacity (pi_queue ?p))" by (simp add: sample_pipeline_def)
  note C = stop_can_lose_accepted_command [OF sample_pipeline_new r p(1), of ?c]
  obtain p1 where p1: "window_steps [Some ?c, Some ?c, None] ?p = Some p1" "pi_stop_requested p1" "pi_replies p1 = pi_replies ?p @ [(?c, True)]"
    using C p(2) room by blast
  obtain p2 where p2: "match_step process p1 = Some p2"
    "\<forall>p3. pipeline_reach process p2 p3 \<longrightarrow> pi_matcher p3 = Finished \<and> pi_processed p3 = pi_processed ?p \<and>
         pi_state p3 = pi_state ?p \<and> pi_events p3 = pi_events ?p \<and> (\<exists>rest. pi_accepted p3 = pi_accepted p1 @ rest)"
    using C p1(1,2) by blast
  show ?thesis using p1(1,3) p2 p(3-5) by (intro exI [of _ p1] exI [of _ p2]) auto
qed

end
