(* ===== verification/Order_Gateway.thy ===== *)
theory Order_Gateway
  imports Order_Entry_Protocol
begin

text \<open>
  The translations of the order-entry gateway (\<open>exchange/gateway/order_entry_gateway.cpp\<close>): a client
  request becomes a command of the exchange, an event of the exchange becomes the reports to the accounts
  it concerns, each with the order it is about.
\<close>

type_synonym OrderKey = "AccountId \<times> ClientOrderId"

fun to_command :: "Message \<Rightarrow> ExchangeCommand option" where
  "to_command (MsgNewOrder msg) = Some (NewOrder \<lparr>nc_command_sequence = 0, nc_account_id = on_account_id msg,
     nc_client_order_id = on_client_order_id msg, nc_instrument_id = on_instrument_id msg, nc_side = on_side msg,
     nc_price = on_price msg, nc_quantity = on_quantity msg, nc_order_type = on_order_type msg,
     nc_time_in_force = on_time_in_force msg\<rparr>)"
| "to_command (MsgCancelOrder msg) = Some (CancelOrder \<lparr>cc_command_sequence = 0, cc_account_id = ocn_account_id msg,
     cc_client_order_id = ocn_client_order_id msg, cc_instrument_id = ocn_instrument_id msg\<rparr>)"
| "to_command (MsgReplaceOrder msg) = Some (ReplaceOrder \<lparr>rc_command_sequence = 0, rc_account_id = orp_account_id msg,
     rc_original_client_order_id = orp_original_client_order_id msg, rc_new_client_order_id = orp_new_client_order_id msg,
     rc_instrument_id = orp_instrument_id msg, rc_new_price = orp_new_price msg, rc_new_quantity = orp_new_quantity msg\<rparr>)"
| "to_command _ = None"

text \<open>The report of a trade to one of its two parties.\<close>

definition trade_report :: "TradeExecutedEvent \<Rightarrow> TradeCounterparty \<Rightarrow> OrderKey \<times> Message" where
  "trade_report ev leg = ((tc_account_id leg, tc_client_order_id leg), MsgTradeReport \<lparr>otr_account_id = tc_account_id leg,
     otr_client_order_id = tc_client_order_id leg, otr_exchange_order_id = tc_exchange_order_id leg,
     otr_instrument_id = te_instrument_id ev, otr_price = te_price ev, otr_quantity = te_quantity ev,
     otr_remaining_quantity = tc_remaining_quantity leg\<rparr>)"

fun to_execution_reports :: "ExchangeEvent \<Rightarrow> (OrderKey \<times> Message) list" where
  "to_execution_reports (OrderAccepted ev) = [((oa_account_id ev, oa_client_order_id ev), MsgAccepted
     \<lparr>oac_account_id = oa_account_id ev, oac_client_order_id = oa_client_order_id ev,
      oac_exchange_order_id = oa_exchange_order_id ev, oac_instrument_id = oa_instrument_id ev, oac_side = oa_side ev,
      oac_price = oa_price ev, oac_quantity = oa_quantity ev, oac_order_type = oa_order_type ev,
      oac_time_in_force = oa_time_in_force ev\<rparr>)]"
| "to_execution_reports (OrderRejected ev) = [((rj_account_id ev, rj_client_order_id ev), MsgRejected
     \<lparr>orj_account_id = rj_account_id ev, orj_client_order_id = rj_client_order_id ev,
      orj_instrument_id = rj_instrument_id ev, orj_reason = rj_reason ev\<rparr>)]"
| "to_execution_reports (OrderCancelled ev) = [((oc_account_id ev, oc_client_order_id ev), MsgCancelled
     \<lparr>oca_account_id = oc_account_id ev, oca_client_order_id = oc_client_order_id ev,
      oca_exchange_order_id = oc_exchange_order_id ev, oca_instrument_id = oc_instrument_id ev\<rparr>)]"
| "to_execution_reports (OrderReplaced ev) = [((rp_account_id ev, rp_original_client_order_id ev), MsgReplaced
     \<lparr>ord_account_id = rp_account_id ev, ord_original_client_order_id = rp_original_client_order_id ev,
      ord_new_client_order_id = rp_new_client_order_id ev, ord_exchange_order_id = rp_exchange_order_id ev,
      ord_instrument_id = rp_instrument_id ev, ord_new_price = rp_new_price ev, ord_new_quantity = rp_new_quantity ev\<rparr>)]"
| "to_execution_reports (TradeExecuted ev) = [trade_report ev (te_buyer ev), trade_report ev (te_seller ev)]"
| "to_execution_reports (BookOrderAdded _) = []"
| "to_execution_reports (BookOrderReduced _) = []"
| "to_execution_reports (BookOrderRemoved _) = []"

text \<open>The messages an event sends to one account.\<close>

definition reports_to :: "AccountId \<Rightarrow> ExchangeEvent \<Rightarrow> Message list" where
  "reports_to a ev = map snd (filter (\<lambda>r. fst (fst r) = a) (to_execution_reports ev))"

text \<open>The account a command acts for.\<close>

fun command_account :: "ExchangeCommand \<Rightarrow> AccountId" where
  "command_account (NewOrder c) = nc_account_id c"
| "command_account (CancelOrder c) = cc_account_id c"
| "command_account (ReplaceOrder c) = rc_account_id c"

end
