(* ===== verification/Gateway_Sessions.thy ===== *)
theory Gateway_Sessions
  imports Order_Gateway Spsc_Queue Ledger
begin

text \<open>
  The sessions of the order-entry gateway (\<open>exchange/gateway/order_entry_gateway.cpp\<close>): accepting
  connections, the reader and writer thread of each, the binding of a session to an account, and the
  routing of reports on the matching thread. A \<open>Connection*\<close> is the position of the connection in the
  vector that owns them all, from which nothing is erased. Every section under \<open>sessions_mutex_\<close>, every access to
  \<open>closed\<close>, every queue operation and every socket call is one action; the actions of all threads
  interleave freely. What a socket delivers or takes, and the events the pipeline produces, are arguments of the actions.
\<close>

subsection \<open>State\<close>

type_synonym SessionId = u64
type_synonym connection_ref = nat

text \<open>
  Where the two threads of a connection stand. The reader is about to call \<open>read\<close>, in the loop over the
  buffered frames, before \<open>claim_order_ownership\<close>, before \<open>submit_command\<close>, between the store to \<open>closed\<close> and
  \<open>unbind_session\<close>, or done. The writer is at the loop test, about to look at the backlog, at the
  replies, at the reports, has bytes of a message left to write, or is done.
\<close>

datatype reader = Reading | Draining | Claiming AccountId Message ExchangeCommand | Submitting ExchangeCommand | Closing | ReaderDone

datatype writer = LoopTest | AtBacklog | AtReplies | AtReports | Writing "byte list" | WriterDone

record Connection =
  cn_session_id :: SessionId
  cn_read_buffer :: "byte list"
  cn_outbound :: "Message SpscQueue"
  cn_session_outbound :: "Message SpscQueue"
  cn_replay_backlog :: "Message list"
  cn_account_id :: "AccountId option"
  cn_closed :: bool
  cn_reader :: reader
  cn_writer :: writer
  cn_received :: "byte list"
  cn_requests :: "Message list"
  cn_sent :: "Message list"
  cn_wire :: "byte list"

text \<open>
  The last four fields are history that no action reads: the bytes the socket has delivered, the messages decoded from
  them, the messages the writer has taken, and the bytes the socket has accepted.
\<close>

record OrderEntryGatewayOptions =
  go_outbound_queue_capacity :: u64
  go_pending_report_capacity :: u64

record OrderEntryGateway =
  gw_options :: OrderEntryGatewayOptions
  gw_stop_requested :: bool
  gw_connections :: "Connection list"
  gw_next_session_id :: SessionId
  gw_account_sessions :: "AccountId \<rightharpoonup> connection_ref list"
  gw_order_owner :: "OrderKey \<rightharpoonup> connection_ref"
  gw_pending_reports :: "AccountId \<rightharpoonup> Message list"
  gw_submitted :: "(connection_ref \<times> ExchangeCommand) list"

text \<open>\<open>gw_submitted\<close> is what the readers have handed to \<open>submit_command\<close>, in the order of \<open>submit_mutex_\<close>.\<close>

definition new_gateway :: "OrderEntryGatewayOptions \<Rightarrow> OrderEntryGateway" where
  "new_gateway options = \<lparr>gw_options = options, gw_stop_requested = False, gw_connections = [], gw_next_session_id = 1,
     gw_account_sessions = Map.empty, gw_order_owner = Map.empty, gw_pending_reports = Map.empty, gw_submitted = []\<rparr>"

definition new_connection :: "SessionId \<Rightarrow> u64 \<Rightarrow> Connection option" where
  "new_connection ident outbound_capacity = do {
     outbound \<leftarrow> new_spsc outbound_capacity;
     session_outbound \<leftarrow> new_spsc outbound_capacity;
     Some \<lparr>cn_session_id = ident, cn_read_buffer = [], cn_outbound = outbound, cn_session_outbound = session_outbound,
       cn_replay_backlog = [], cn_account_id = None, cn_closed = False, cn_reader = Reading, cn_writer = LoopTest,
       cn_received = [], cn_requests = [], cn_sent = [], cn_wire = []\<rparr>
   }"

abbreviation conn_of :: "OrderEntryGateway \<Rightarrow> connection_ref \<Rightarrow> Connection" where
  "conn_of g i \<equiv> gw_connections g ! i"

definition set_conn :: "connection_ref \<Rightarrow> Connection \<Rightarrow> OrderEntryGateway \<Rightarrow> OrderEntryGateway" where
  "set_conn i c g = g\<lparr>gw_connections := (gw_connections g)[i := c]\<rparr>"

text \<open>\<open>stop\<close> begins with the request every loop tests; closing the sockets ends the blocked reads.\<close>

definition stop_gateway :: "OrderEntryGateway \<Rightarrow> OrderEntryGateway" where
  "stop_gateway g = g\<lparr>gw_stop_requested := True\<rparr>"

definition connection_count :: "OrderEntryGateway \<Rightarrow> nat" where
  "connection_count g = length (gw_connections g)"

subsection \<open>Accepting\<close>

definition accept_connection :: "OrderEntryGateway \<Rightarrow> OrderEntryGateway option" where
  "accept_connection g = (if gw_stop_requested g then Some g else do {
     conn \<leftarrow> new_connection (gw_next_session_id g) (go_outbound_queue_capacity (gw_options g));
     Some (g\<lparr>gw_next_session_id := gw_next_session_id g + 1, gw_connections := gw_connections g @ [conn]\<rparr>)
   })"

subsection \<open>Binding sessions and claiming orders\<close>

fun message_account :: "Message \<Rightarrow> AccountId" where
  "message_account (MsgNewOrder m) = on_account_id m"
| "message_account (MsgCancelOrder m) = ocn_account_id m"
| "message_account (MsgReplaceOrder m) = orp_account_id m"
| "message_account (MsgAccepted m) = oac_account_id m"
| "message_account (MsgRejected m) = orj_account_id m"
| "message_account (MsgCancelled m) = oca_account_id m"
| "message_account (MsgReplaced m) = ord_account_id m"
| "message_account (MsgTradeReport m) = otr_account_id m"

definition bind_session :: "connection_ref \<Rightarrow> AccountId \<Rightarrow> OrderEntryGateway \<Rightarrow> OrderEntryGateway" where
  "bind_session i a g =
     (let g = g\<lparr>gw_account_sessions := (gw_account_sessions g)
            (a \<mapsto> (case gw_account_sessions g a of None \<Rightarrow> [] | Some bound \<Rightarrow> bound) @ [i])\<rparr>;
          conn = conn_of g i;
          (g, conn) = (case gw_pending_reports g a of
              None \<Rightarrow> (g, conn)
            | Some pending \<Rightarrow> (g\<lparr>gw_pending_reports := (gw_pending_reports g)(a := None)\<rparr>, conn\<lparr>cn_replay_backlog := pending\<rparr>))
      in set_conn i (conn\<lparr>cn_account_id := Some a\<rparr>) g)"

definition unbind_session :: "connection_ref \<Rightarrow> OrderEntryGateway \<Rightarrow> OrderEntryGateway" where
  "unbind_session i g = (case cn_account_id (conn_of g i) of
     None \<Rightarrow> g
   | Some a \<Rightarrow>
       let g = (case gw_account_sessions g a of
              None \<Rightarrow> g
            | Some bound \<Rightarrow>
                let bound = removeAll i bound in
                g\<lparr>gw_account_sessions := (gw_account_sessions g)(a := if bound = [] then None else Some bound)\<rparr>)
       in g\<lparr>gw_order_owner := (\<lambda>key. if gw_order_owner g key = Some i then None else gw_order_owner g key)\<rparr>)"

fun mismatch_rejection :: "ExchangeCommand \<Rightarrow> Message" where
  "mismatch_rejection (NewOrder cmd) = MsgRejected \<lparr>orj_account_id = nc_account_id cmd,
     orj_client_order_id = nc_client_order_id cmd, orj_instrument_id = nc_instrument_id cmd, orj_reason = AccountMismatch\<rparr>"
| "mismatch_rejection (CancelOrder cmd) = MsgRejected \<lparr>orj_account_id = cc_account_id cmd,
     orj_client_order_id = cc_client_order_id cmd, orj_instrument_id = cc_instrument_id cmd, orj_reason = AccountMismatch\<rparr>"
| "mismatch_rejection (ReplaceOrder cmd) = MsgRejected \<lparr>orj_account_id = rc_account_id cmd,
     orj_client_order_id = rc_original_client_order_id cmd, orj_instrument_id = rc_instrument_id cmd, orj_reason = AccountMismatch\<rparr>"

definition reject_account_mismatch :: "connection_ref \<Rightarrow> ExchangeCommand \<Rightarrow> OrderEntryGateway \<Rightarrow> OrderEntryGateway option" where
  "reject_account_mismatch i command g = do {
     (q, pushed) \<leftarrow> try_push (cn_session_outbound (conn_of g i)) (mismatch_rejection command);
     Some (set_conn i ((conn_of g i)\<lparr>cn_session_outbound := q\<rparr>) g)
   }"

text \<open>\<open>try_emplace\<close> keeps an entry that is there.\<close>

definition try_emplace :: "'k \<Rightarrow> 'v \<Rightarrow> ('k \<rightharpoonup> 'v) \<Rightarrow> ('k \<rightharpoonup> 'v)" where
  "try_emplace k v m = (if m k = None then m(k \<mapsto> v) else m)"

fun claimed_key :: "AccountId \<Rightarrow> Message \<Rightarrow> OrderKey option" where
  "claimed_key a (MsgNewOrder m) = Some (a, on_client_order_id m)"
| "claimed_key a (MsgCancelOrder m) = Some (a, ocn_client_order_id m)"
| "claimed_key a (MsgReplaceOrder m) = Some (a, orp_original_client_order_id m)"
| "claimed_key a _ = None"

definition claim_order_ownership :: "connection_ref \<Rightarrow> AccountId \<Rightarrow> Message \<Rightarrow> OrderEntryGateway \<Rightarrow> OrderEntryGateway" where
  "claim_order_ownership i a message g = (case claimed_key a message of
     None \<Rightarrow> g
   | Some key \<Rightarrow> g\<lparr>gw_order_owner := try_emplace key i (gw_order_owner g)\<rparr>)"

subsection \<open>The reader\<close>

text \<open>
  One turn of the loop over \<open>read_buffer\<close>: \<open>None\<close> when it breaks for more data, otherwise the outcome of
  decoding the frame at the front and the buffer without it.
\<close>

definition next_frame :: "byte list \<Rightarrow> ((OeDecodeError + Message) \<times> byte list) option" where
  "next_frame buffer = (case oe_decode_header buffer of
     Inl e \<Rightarrow> None
   | Inr header \<Rightarrow>
       let frame_size = oe_HEADER_SIZE + unat (oh_payload_size header) in
       if length buffer < frame_size then None
       else Some (decode_message (take frame_size buffer), drop frame_size buffer))"

definition set_reader :: "connection_ref \<Rightarrow> reader \<Rightarrow> OrderEntryGateway \<Rightarrow> OrderEntryGateway" where
  "set_reader i r g = set_conn i ((conn_of g i)\<lparr>cn_reader := r\<rparr>) g"

definition handle_request :: "connection_ref \<Rightarrow> Message \<Rightarrow> OrderEntryGateway \<Rightarrow> OrderEntryGateway option" where
  "handle_request i message g = (case to_command message of
     None \<Rightarrow> Some g
   | Some command \<Rightarrow>
       let a = message_account message in
       (case cn_account_id (conn_of g i) of
          None \<Rightarrow> Some (set_reader i (Claiming a message command) (bind_session i a g))
        | Some b \<Rightarrow>
            if b \<noteq> a then reject_account_mismatch i command g
            else Some (set_reader i (Claiming a message command) g)))"

text \<open>\<open>read\<close> returns bytes, or nothing more: then the reader marks the connection and leaves its loop.\<close>

definition read_bytes :: "connection_ref \<Rightarrow> byte list \<Rightarrow> OrderEntryGateway \<Rightarrow> OrderEntryGateway" where
  "read_bytes i chunk g = (let conn = conn_of g i in
     set_conn i (if chunk = [] then conn\<lparr>cn_closed := True, cn_reader := Closing\<rparr>
       else conn\<lparr>cn_read_buffer := cn_read_buffer conn @ chunk, cn_reader := Draining,
         cn_received := cn_received conn @ chunk\<rparr>) g)"

definition drain_step :: "connection_ref \<Rightarrow> OrderEntryGateway \<Rightarrow> OrderEntryGateway option" where
  "drain_step i g = (case next_frame (cn_read_buffer (conn_of g i)) of
     None \<Rightarrow> Some (set_reader i Reading g)
   | Some (result, rest) \<Rightarrow>
       let conn = (conn_of g i)\<lparr>cn_read_buffer := rest\<rparr> in
       (case result of
          Inl e \<Rightarrow> Some (set_conn i conn g)
        | Inr message \<Rightarrow> handle_request i message (set_conn i (conn\<lparr>cn_requests := cn_requests conn @ [message]\<rparr>) g)))"

text \<open>
  The commands reach the pipeline one at a time, in the order of \<open>submit_mutex_\<close>; the reader ignores the answer.
\<close>

definition submit_command :: "connection_ref \<Rightarrow> ExchangeCommand \<Rightarrow> OrderEntryGateway \<Rightarrow> OrderEntryGateway" where
  "submit_command i command g = g\<lparr>gw_submitted := gw_submitted g @ [(i, command)]\<rparr>"

text \<open>One action of the reader thread; \<open>chunk\<close> is what a call of \<open>read\<close> returns.\<close>

definition reader_step :: "connection_ref \<Rightarrow> byte list \<Rightarrow> OrderEntryGateway \<Rightarrow> OrderEntryGateway option" where
  "reader_step i chunk g = (case cn_reader (conn_of g i) of
     Reading \<Rightarrow> Some (read_bytes i chunk g)
   | Draining \<Rightarrow> drain_step i g
   | Claiming a message command \<Rightarrow> Some (set_reader i (Submitting command) (claim_order_ownership i a message g))
   | Submitting command \<Rightarrow> Some (set_reader i Draining (submit_command i command g))
   | Closing \<Rightarrow> Some (set_reader i ReaderDone (unbind_session i g))
   | ReaderDone \<Rightarrow> Some g)"

subsection \<open>The writer\<close>

definition take_message :: "Message \<Rightarrow> Connection \<Rightarrow> Connection" where
  "take_message m conn = conn\<lparr>cn_writer := Writing (encode_message m []), cn_sent := cn_sent conn @ [m]\<rparr>"

text \<open>
  One action of the writer thread; \<open>n\<close> is what a call of \<open>write\<close> returns, 0 for an error. \<open>write\<close> takes at
  most the bytes it is given.
\<close>

definition writer_step :: "nat \<Rightarrow> bool \<Rightarrow> Connection \<Rightarrow> Connection option" where
  "writer_step n stop conn = (case cn_writer conn of
     LoopTest \<Rightarrow> Some (conn\<lparr>cn_writer := (if stop \<or> cn_closed conn then WriterDone else AtBacklog)\<rparr>)
   | AtBacklog \<Rightarrow> Some (case cn_replay_backlog conn of
         [] \<Rightarrow> conn\<lparr>cn_writer := AtReplies\<rparr>
       | m # rest \<Rightarrow> take_message m (conn\<lparr>cn_replay_backlog := rest\<rparr>))
   | AtReplies \<Rightarrow> do {
       (q, message) \<leftarrow> try_pop (cn_session_outbound conn);
       Some (case message of
           None \<Rightarrow> conn\<lparr>cn_session_outbound := q, cn_writer := AtReports\<rparr>
         | Some m \<Rightarrow> take_message m (conn\<lparr>cn_session_outbound := q\<rparr>))
     }
   | AtReports \<Rightarrow> do {
       (q, message) \<leftarrow> try_pop (cn_outbound conn);
       Some (case message of
           None \<Rightarrow> conn\<lparr>cn_outbound := q, cn_writer := LoopTest\<rparr>
         | Some m \<Rightarrow> take_message m (conn\<lparr>cn_outbound := q\<rparr>))
     }
   | Writing buf \<Rightarrow> Some (
       if buf = [] then conn\<lparr>cn_writer := LoopTest\<rparr>
       else if n = 0 then conn\<lparr>cn_writer := WriterDone\<rparr>
       else conn\<lparr>cn_writer := Writing (drop n buf), cn_wire := cn_wire conn @ take n buf\<rparr>)
   | WriterDone \<Rightarrow> Some conn)"

subsection \<open>Routing on the matching thread\<close>

definition deliver :: "connection_ref \<Rightarrow> Message \<Rightarrow> OrderEntryGateway \<Rightarrow> OrderEntryGateway option" where
  "deliver i message g = do {
     (q, pushed) \<leftarrow> try_push (cn_outbound (conn_of g i)) message;
     Some (set_conn i ((conn_of g i)\<lparr>cn_outbound := q\<rparr>) g)
   }"

definition open_owner :: "OrderKey \<Rightarrow> OrderEntryGateway \<Rightarrow> connection_ref option" where
  "open_owner key g = (case gw_order_owner g key of
     None \<Rightarrow> None
   | Some i \<Rightarrow> if cn_closed (conn_of g i) then None else Some i)"

definition open_session :: "AccountId \<Rightarrow> OrderEntryGateway \<Rightarrow> connection_ref option" where
  "open_session a g = (case gw_account_sessions g a of
     None \<Rightarrow> None
   | Some sessions \<Rightarrow> find (\<lambda>i. \<not> cn_closed (conn_of g i)) sessions)"

definition retain_report :: "AccountId \<Rightarrow> Message \<Rightarrow> OrderEntryGateway \<Rightarrow> OrderEntryGateway" where
  "retain_report a message g = (let capacity = unat (go_pending_report_capacity (gw_options g)) in
     if capacity = 0 then g
     else
       let pending = (case gw_pending_reports g a of None \<Rightarrow> [] | Some ms \<Rightarrow> ms);
           pending = (if length pending \<ge> capacity then tl pending else pending)
       in g\<lparr>gw_pending_reports := (gw_pending_reports g)(a \<mapsto> pending @ [message])\<rparr>)"

definition route_report :: "OrderKey \<times> Message \<Rightarrow> OrderEntryGateway \<Rightarrow> OrderEntryGateway option" where
  "route_report report g = (case open_owner (fst report) g of
     Some i \<Rightarrow> deliver i (snd report) g
   | None \<Rightarrow>
       (case open_session (fst (fst report)) g of
          Some i \<Rightarrow> deliver i (snd report) g
        | None \<Rightarrow> Some (retain_report (fst (fst report)) (snd report) g)))"

definition erase_filled :: "TradeCounterparty \<Rightarrow> (OrderKey \<rightharpoonup> connection_ref) \<Rightarrow> (OrderKey \<rightharpoonup> connection_ref)" where
  "erase_filled leg owners = (if tc_remaining_quantity leg = 0
     then owners((tc_account_id leg, tc_client_order_id leg) := None) else owners)"

fun owners_after :: "Ledger \<Rightarrow> ExchangeEvent \<Rightarrow> (OrderKey \<rightharpoonup> connection_ref) \<Rightarrow> (OrderKey \<rightharpoonup> connection_ref)" where
  "owners_after L (OrderRejected ev) owners =
     (if find_hold L (rj_account_id ev) (rj_client_order_id ev) = None
      then owners((rj_account_id ev, rj_client_order_id ev) := None) else owners)"
| "owners_after L (OrderCancelled ev) owners = owners((oc_account_id ev, oc_client_order_id ev) := None)"
| "owners_after L (OrderReplaced ev) owners =
     (case owners (rp_account_id ev, rp_original_client_order_id ev) of
        None \<Rightarrow> owners
      | Some i \<Rightarrow> owners((rp_account_id ev, rp_new_client_order_id ev) \<mapsto> i,
                    (rp_account_id ev, rp_original_client_order_id ev) := None))"
| "owners_after L (TradeExecuted ev) owners = erase_filled (te_seller ev) (erase_filled (te_buyer ev) owners)"
| "owners_after L _ owners = owners"

definition update_order_ownership :: "Ledger \<Rightarrow> ExchangeEvent \<Rightarrow> OrderEntryGateway \<Rightarrow> OrderEntryGateway" where
  "update_order_ownership L event g = g\<lparr>gw_order_owner := owners_after L event (gw_order_owner g)\<rparr>"

fun route_reports :: "(OrderKey \<times> Message) list \<Rightarrow> OrderEntryGateway \<Rightarrow> OrderEntryGateway option" where
  "route_reports [] g = Some g"
| "route_reports (r # rs) g = do { g' \<leftarrow> route_report r g; route_reports rs g' }"

text \<open>\<open>L\<close> is the ledger as it stands when the event reaches the sink.\<close>

definition route_event :: "Ledger \<Rightarrow> ExchangeEvent \<Rightarrow> OrderEntryGateway \<Rightarrow> OrderEntryGateway option" where
  "route_event L event g = (let reports = to_execution_reports event in
     if reports = [] then Some g
     else do { g' \<leftarrow> route_reports reports g; Some (update_order_ownership L event g') })"

subsection \<open>The threads together\<close>

datatype gateway_action =
    Accept
  | Reader connection_ref "byte list"
  | Writer connection_ref nat
  | Route Ledger ExchangeEvent
  | Stop

text \<open>An action of a thread that does not exist, and an action of a thread that has ended, change nothing.\<close>

fun gateway_act :: "gateway_action \<Rightarrow> OrderEntryGateway \<Rightarrow> OrderEntryGateway option" where
  "gateway_act Accept g = accept_connection g"
| "gateway_act (Reader i chunk) g = (if i < length (gw_connections g) then reader_step i chunk g else Some g)"
| "gateway_act (Writer i n) g = (if i < length (gw_connections g)
     then map_option (\<lambda>conn. set_conn i conn g) (writer_step n (gw_stop_requested g) (conn_of g i)) else Some g)"
| "gateway_act (Route L event) g = route_event L event g"
| "gateway_act Stop g = Some (stop_gateway g)"

fun gateway_run :: "gateway_action list \<Rightarrow> OrderEntryGateway \<Rightarrow> OrderEntryGateway option" where
  "gateway_run [] g = Some g"
| "gateway_run (x # xs) g = do { g' \<leftarrow> gateway_act x g; gateway_run xs g' }"

end
