(* ===== verification/Gateway_Streams.thy ===== *)
theory Gateway_Streams
  imports Gateway_Sessions
begin

text \<open>
  The byte stream of a connection against what its reader makes of it: the frames the loop of
  \<open>connection_reader_loop\<close> peels off do not depend on how the stream was cut into reads, and what a
  session hands to the matching pipeline is determined by the stream alone, whatever the other threads do.
\<close>

subsection \<open>Peeling frames off a buffer\<close>

lemma next_frame_iff:
  "next_frame bs = Some (r, rest) \<longleftrightarrow> (\<exists>h payload. bs = oe_header_frame h @ payload @ rest \<and>
     length payload = unat (oh_payload_size h) \<and> r = decode_message (oe_header_frame h @ payload))"
proof
  assume nf: "next_frame bs = Some (r, rest)"
  then obtain h where "oe_decode_header bs = Inr h" by (auto simp: next_frame_def split: sum.splits)
  moreover then obtain tl where "bs = oe_header_frame h @ tl" using oe_decode_header_iff by blast
  ultimately show "\<exists>h payload. bs = oe_header_frame h @ payload @ rest \<and>
     length payload = unat (oh_payload_size h) \<and> r = decode_message (oe_header_frame h @ payload)"
    using nf by (intro exI [of _ h] exI [of _ "take (unat (oh_payload_size h)) tl"])
      (auto simp: next_frame_def oe_HEADER_SIZE_def Let_def split: if_splits)
next
  assume "\<exists>h payload. bs = oe_header_frame h @ payload @ rest \<and>
     length payload = unat (oh_payload_size h) \<and> r = decode_message (oe_header_frame h @ payload)"
  then obtain h payload where h: "bs = oe_header_frame h @ payload @ rest" "length payload = unat (oh_payload_size h)"
    "r = decode_message (oe_header_frame h @ payload)" by blast
  moreover have "oe_decode_header bs = Inr h" using h(1) oe_decode_header_iff by blast
  ultimately show "next_frame bs = Some (r, rest)" by (simp add: next_frame_def oe_HEADER_SIZE_def)
qed

lemma next_frame_shorter: "next_frame bs = Some (r, rest) \<Longrightarrow> length rest < length bs"
  by (auto simp: next_frame_iff)

lemma next_frame_more: "next_frame bs = Some (r, rest) \<Longrightarrow> next_frame (bs @ bs2) = Some (r, rest @ bs2)"
  by (force simp: next_frame_iff)

lemma next_frame_message: "next_frame (encode_message m [] @ rest) = Some (Inr m, rest)"
proof -
  have "encode_message m [] = oe_header_frame (message_header m) @ message_payload m" by (rule oe.frame_eq)
  moreover have "decode_message (encode_message m []) = Inr m" using oe.decode_encode [of m "[]"] by simp
  ultimately show ?thesis
    unfolding next_frame_iff by (intro exI [of _ "message_header m"] exI [of _ "message_payload m"]) (simp add: message_header_def)
qed

text \<open>The whole loop: the messages decoded, and what is left for the next read.\<close>

function drain_frames :: "byte list \<Rightarrow> Message list \<times> byte list" where
  "drain_frames buffer = (case next_frame buffer of
     None \<Rightarrow> ([], buffer)
   | Some (result, rest) \<Rightarrow>
       let (ms, left) = drain_frames rest in (case result of Inl e \<Rightarrow> ms | Inr m \<Rightarrow> m # ms, left))"
  by pat_completeness auto

termination by (relation "measure length") (auto dest: next_frame_shorter)

declare drain_frames.simps [simp del]

text \<open>Reading on after a pause is reading it all.\<close>

lemma drain_frames_append:
  "drain_frames (bs @ bs2) = (let (ms, left) = drain_frames bs; (ns, left') = drain_frames (left @ bs2) in (ms @ ns, left'))"
proof (induction bs rule: drain_frames.induct)
  case (1 bs)
  show ?case
  proof (cases "next_frame bs")
    case None
    then show ?thesis by (simp add: drain_frames.simps [of bs])
  next
    case (Some p)
    then obtain r rest where p: "next_frame bs = Some (r, rest)" by (cases p) auto
    then show ?thesis using 1 [OF p refl]
      by (simp add: drain_frames.simps [of bs] drain_frames.simps [of "bs @ bs2"] next_frame_more split: prod.splits sum.splits)
  qed
qed

lemma drain_frames_prefix:
  assumes "fst (drain_frames (bs @ bs2)) = ms" "drain_frames bs = (ns, left)"
  obtains ns2 where "ms = ns @ ns2" "bs2 = [] \<Longrightarrow> ns2 = []"
proof (cases "bs2 = []")
  case True
  then show ?thesis using assms that [of "[]"] by simp
next
  case False
  have "ms = ns @ fst (drain_frames (left @ bs2))" using assms drain_frames_append [of bs bs2] by (auto split: prod.splits)
  then show ?thesis using that False by blast
qed

lemma drain_frames_messages: "drain_frames (concat (map (\<lambda>m. encode_message m []) ms)) = (ms, [])"
proof (induction ms)
  case Nil
  then show ?case by (simp add: drain_frames.simps [of "[]"] next_frame_def oe_decode_header_short)
next
  case (Cons m ms)
  then show ?case by (simp add: drain_frames.simps [of "encode_message m [] @ _"] next_frame_message)
qed

subsection \<open>What one reader does to its own connection\<close>

definition in_hand :: "reader \<Rightarrow> ExchangeCommand list" where
  "in_hand r = (case r of Claiming _ _ c \<Rightarrow> [c] | Submitting c \<Rightarrow> [c] | _ \<Rightarrow> [])"

definition submitted_by :: "OrderEntryGateway \<Rightarrow> connection_ref \<Rightarrow> ExchangeCommand list" where
  "submitted_by g i = map snd (filter (\<lambda>p. fst p = i) (gw_submitted g))"

text \<open>
  The account a sequence of messages binds a session to, and the commands such a session may submit.
\<close>

definition session_account :: "Message list \<Rightarrow> AccountId option" where
  "session_account ms = (case List.map_filter to_command ms of [] \<Rightarrow> None | c # _ \<Rightarrow> Some (command_account c))"

definition own_commands :: "Message list \<Rightarrow> ExchangeCommand list" where
  "own_commands ms = filter (\<lambda>c. session_account ms = Some (command_account c)) (List.map_filter to_command ms)"

lemma map_filter_snoc: "List.map_filter f (xs @ [x]) = List.map_filter f xs @ (case f x of None \<Rightarrow> [] | Some y \<Rightarrow> [y])"
  by (simp add: List.map_filter_def split: option.splits)

lemma session_account_snoc:
  "session_account (ms @ [m]) = (case session_account ms of None \<Rightarrow> map_option command_account (to_command m) | Some a \<Rightarrow> Some a)"
  by (auto simp: session_account_def map_filter_snoc split: option.splits list.splits)

lemma own_commands_snoc:
  "own_commands (ms @ [m]) = own_commands ms @ (case to_command m of None \<Rightarrow> []
     | Some c \<Rightarrow> if session_account (ms @ [m]) = Some (command_account c) then [c] else [])"
proof (cases "session_account ms")
  case None
  then have "List.map_filter to_command ms = []" by (simp add: session_account_def split: list.splits)
  then show ?thesis by (simp add: own_commands_def map_filter_snoc split: option.splits)
next
  case (Some a)
  then show ?thesis by (simp add: own_commands_def map_filter_snoc session_account_snoc split: option.splits)
qed

lemma set_conn_frame [simp]:
  "length (gw_connections (set_conn i c g)) = length (gw_connections g)"
  "gw_account_sessions (set_conn i c g) = gw_account_sessions g" "gw_order_owner (set_conn i c g) = gw_order_owner g"
  "gw_pending_reports (set_conn i c g) = gw_pending_reports g" "gw_options (set_conn i c g) = gw_options g"
  "gw_submitted (set_conn i c g) = gw_submitted g" "gw_stop_requested (set_conn i c g) = gw_stop_requested g"
  "submitted_by (set_conn i c g) j = submitted_by g j"
  by (simp_all add: set_conn_def submitted_by_def)

lemma conn_of_set_conn [simp]:
  "i < length (gw_connections g) \<Longrightarrow> conn_of (set_conn i c g) j = (if j = i then c else conn_of g j)"
  by (simp add: set_conn_def nth_list_update)

definition stream_ok :: "Connection \<Rightarrow> bool" where
  "stream_ok conn \<longleftrightarrow>
     drain_frames (cn_received conn) = (cn_requests conn @ fst (drain_frames (cn_read_buffer conn)), snd (drain_frames (cn_read_buffer conn))) \<and>
     cn_account_id conn = session_account (cn_requests conn) \<and>
     (cn_reader conn = Reading \<longrightarrow> next_frame (cn_read_buffer conn) = None)"

definition history_ok :: "OrderEntryGateway \<Rightarrow> connection_ref \<Rightarrow> bool" where
  "history_ok g i \<longleftrightarrow> stream_ok (conn_of g i) \<and>
     submitted_by g i @ in_hand (cn_reader (conn_of g i)) = own_commands (cn_requests (conn_of g i))"

text \<open>The part of a connection only its reader touches.\<close>

definition reader_view :: "Connection \<Rightarrow> byte list \<times> byte list \<times> Message list \<times> AccountId option \<times> reader" where
  "reader_view conn = (cn_read_buffer conn, cn_received conn, cn_requests conn, cn_account_id conn, cn_reader conn)"

lemma history_ok_cong:
  assumes "reader_view (conn_of g' i) = reader_view (conn_of g i)" "submitted_by g' i = submitted_by g i"
  shows "history_ok g' i = history_ok g i"
  using assms by (simp add: history_ok_def stream_ok_def reader_view_def)

text \<open>An action of another thread leaves the view and the submissions of a session alone.\<close>

definition untouched :: "OrderEntryGateway \<Rightarrow> OrderEntryGateway \<Rightarrow> connection_ref set \<Rightarrow> bool" where
  "untouched g g' is \<longleftrightarrow> length (gw_connections g') = length (gw_connections g) \<and>
     (\<forall>j \<in> is. submitted_by g' j = submitted_by g j \<and>
        (j < length (gw_connections g) \<longrightarrow> reader_view (conn_of g' j) = reader_view (conn_of g j)))"

lemma untouched_refl: "untouched g g is"
  by (simp add: untouched_def)

lemma untouched_trans: "untouched g g1 is \<Longrightarrow> untouched g1 g2 is \<Longrightarrow> untouched g g2 is"
  by (auto simp: untouched_def)

lemma untouched_set_conn: "reader_view c = reader_view (conn_of g i) \<or> i \<notin> is \<Longrightarrow> untouched g (set_conn i c g) is"
proof -
  assume c: "reader_view c = reader_view (conn_of g i) \<or> i \<notin> is"
  have "reader_view ((gw_connections g)[i := c] ! j) = reader_view (conn_of g j)" if "j \<in> is" "j < length (gw_connections g)" for j
    using c that by (cases "j = i") auto
  then show ?thesis by (simp add: untouched_def set_conn_def submitted_by_def)
qed

lemma untouched_maps:
  "gw_connections g' = gw_connections g \<Longrightarrow> gw_submitted g' = gw_submitted g \<Longrightarrow> untouched g g' is"
  by (auto simp: untouched_def submitted_by_def)

lemma writer_view: "writer_step n stop c = Some c' \<Longrightarrow> reader_view c' = reader_view c"
  by (auto simp: writer_step_def take_message_def reader_view_def split: writer.splits list.splits option.splits if_splits bind_splits prod.splits)

lemma deliver_untouched: "deliver i m g = Some g' \<Longrightarrow> untouched g g' is"
  by (auto simp: deliver_def reader_view_def intro!: untouched_set_conn split: bind_splits)

lemma retain_untouched: "untouched g (retain_report a m g) is"
  by (rule untouched_maps) (simp_all add: retain_report_def Let_def)

lemma route_report_untouched: "route_report r g = Some g' \<Longrightarrow> untouched g g' is"
  by (auto simp: route_report_def split: option.splits intro: deliver_untouched retain_untouched)

lemma route_reports_untouched: "route_reports rs g = Some g' \<Longrightarrow> untouched g g' is"
proof (induction rs arbitrary: g)
  case (Cons r rs)
  then show ?case by (auto split: bind_splits intro: untouched_trans route_report_untouched)
qed (simp add: untouched_refl)

lemma route_event_untouched:
  assumes "route_event L ev g = Some g'"
  shows "untouched g g' is"
proof (cases "to_execution_reports ev = []")
  case True
  then show ?thesis using assms by (simp add: route_event_def untouched_refl)
next
  case False
  then obtain g1 where g1: "route_reports (to_execution_reports ev) g = Some g1" "g' = update_order_ownership L ev g1"
    using assms by (auto simp: route_event_def split: bind_splits)
  have "untouched g1 g' is" by (rule untouched_maps) (simp_all add: g1(2) update_order_ownership_def)
  then show ?thesis using route_reports_untouched [OF g1(1)] untouched_trans by blast
qed

lemma bind_untouched: "i \<notin> is \<Longrightarrow> untouched g (bind_session i a g) is"
  unfolding bind_session_def Let_def
  by (cases "gw_pending_reports g a") (auto intro!: untouched_trans [OF untouched_maps untouched_set_conn])

lemma handle_untouched:
  assumes i: "i \<notin> is" and h: "handle_request i m g = Some g'"
  shows "untouched g g' is"
proof (cases "to_command m")
  case None
  then show ?thesis using h by (simp add: handle_request_def untouched_refl)
next
  case (Some c)
  then show ?thesis using h i
    by (auto simp: handle_request_def Let_def set_reader_def reject_account_mismatch_def split: option.splits if_splits bind_splits
        intro: untouched_set_conn untouched_trans [OF bind_untouched untouched_set_conn])
qed

lemma reader_untouched:
  assumes i: "i \<notin> is" and r: "reader_step i chunk g = Some g'"
  shows "untouched g g' is"
proof (cases "cn_reader (conn_of g i)")
  case Draining
  show ?thesis
  proof (cases "next_frame (cn_read_buffer (conn_of g i))")
    case None
    then show ?thesis using r i Draining by (auto simp: reader_step_def drain_step_def set_reader_def intro: untouched_set_conn)
  next
    case (Some p)
    then obtain x rest where p: "next_frame (cn_read_buffer (conn_of g i)) = Some (x, rest)" by (cases p) auto
    show ?thesis
    proof (cases x)
      case (Inl e)
      then show ?thesis using r i Draining p by (auto simp: reader_step_def drain_step_def intro: untouched_set_conn)
    next
      case (Inr m)
      let ?c = "(conn_of g i)\<lparr>cn_read_buffer := rest, cn_requests := cn_requests (conn_of g i) @ [m]\<rparr>"
      have h: "handle_request i m (set_conn i ?c g) = Some g'" using r Draining p Inr by (simp add: reader_step_def drain_step_def)
      show ?thesis by (rule untouched_trans [OF untouched_set_conn handle_untouched [OF i h]]) (use i in simp)
    qed
  qed
next
  case (Claiming a m c)
  have "untouched g (claim_order_ownership i a m g) is"
    by (rule untouched_maps) (simp_all add: claim_order_ownership_def split: option.splits)
  then show ?thesis using r i Claiming by (auto simp: reader_step_def submit_command_def set_reader_def intro: untouched_trans untouched_set_conn)
next
  case (Submitting c)
  have "untouched g (g\<lparr>gw_submitted := gw_submitted g @ [(i, c)]\<rparr>) is" using i by (auto simp: untouched_def submitted_by_def)
  then show ?thesis using r i Submitting by (auto simp: reader_step_def submit_command_def set_reader_def intro: untouched_trans untouched_set_conn)
next
  case Closing
  have "untouched g (unbind_session i g) is"
    by (rule untouched_maps) (auto simp: unbind_session_def Let_def split: option.splits)
  then show ?thesis using r i Closing by (auto simp: reader_step_def submit_command_def set_reader_def intro: untouched_trans untouched_set_conn)
qed (use r i in \<open>auto simp: reader_step_def read_bytes_def Let_def intro: untouched_set_conn untouched_refl\<close>)

text \<open>The session's own reader keeps its history in step.\<close>

lemma command_account_of: "to_command m = Some c \<Longrightarrow> command_account c = message_account m"
  by (cases m) auto

fun account_after :: "AccountId option \<Rightarrow> ExchangeCommand option \<Rightarrow> AccountId option" where
  "account_after (Some a) c = Some a"
| "account_after None c = map_option command_account c"

fun reader_after :: "AccountId option \<Rightarrow> Message \<Rightarrow> ExchangeCommand option \<Rightarrow> reader \<Rightarrow> reader" where
  "reader_after acc m None r = r"
| "reader_after acc m (Some c) r = (if acc = Some (command_account c) then Claiming (message_account m) m c else r)"

lemma handle_view:
  assumes "i < length (gw_connections g)" "handle_request i m g = Some g'"
  shows "submitted_by g' i = submitted_by g i" "reader_view (conn_of g' i) = (let c = conn_of g i;
      a = account_after (cn_account_id c) (to_command m) in
    (cn_read_buffer c, cn_received c, cn_requests c, a, reader_after a m (to_command m) (cn_reader c)))"
proof -
  have bind: "submitted_by (bind_session i a g) i = submitted_by g i"
    "reader_view (conn_of (bind_session i a g) i) =
      (cn_read_buffer (conn_of g i), cn_received (conn_of g i), cn_requests (conn_of g i), Some a, cn_reader (conn_of g i))"
    "length (gw_connections (bind_session i a g)) = length (gw_connections g)" for a
    using assms(1) by (auto simp: bind_session_def Let_def reader_view_def set_conn_def submitted_by_def split: option.splits)
  show "submitted_by g' i = submitted_by g i" "reader_view (conn_of g' i) = (let c = conn_of g i;
      a = account_after (cn_account_id c) (to_command m) in
    (cn_read_buffer c, cn_received c, cn_requests c, a, reader_after a m (to_command m) (cn_reader c)))"
    using assms command_account_of [of m] bind
    by (cases "cn_account_id (conn_of g i)"; cases "to_command m";
        auto simp: handle_request_def reject_account_mismatch_def set_reader_def reader_view_def Let_def split: if_splits bind_splits)+
qed

lemma drain_history:
  assumes h: "history_ok g i" and l: "i < length (gw_connections g)" and r: "cn_reader (conn_of g i) = Draining"
    and s: "drain_step i g = Some g'"
  shows "history_ok g' i"
proof (cases "next_frame (cn_read_buffer (conn_of g i))")
  case None
  then show ?thesis using h l r s
    by (auto simp: drain_step_def history_ok_def stream_ok_def set_reader_def in_hand_def)
next
  case (Some p)
  then obtain x rest where p: "next_frame (cn_read_buffer (conn_of g i)) = Some (x, rest)" by (cases p) auto
  note eq = drain_frames.simps [of "cn_read_buffer (conn_of g i)"]
  show ?thesis
  proof (cases x)
    case (Inl e)
    then show ?thesis using h l r s p eq
      by (auto simp: drain_step_def history_ok_def stream_ok_def in_hand_def split: prod.splits)
  next
    case (Inr m)
    let ?c = "(conn_of g i)\<lparr>cn_read_buffer := rest, cn_requests := cn_requests (conn_of g i) @ [m]\<rparr>"
    have hr: "handle_request i m (set_conn i ?c g) = Some g'" using s p Inr by (simp add: drain_step_def)
    have v: "submitted_by g' i = submitted_by g i" "reader_view (conn_of g' i) = (let
        a = account_after (cn_account_id (conn_of g i)) (to_command m) in
      (rest, cn_received (conn_of g i), cn_requests (conn_of g i) @ [m], a, reader_after a m (to_command m) Draining))"
      using handle_view [OF _ hr] l r by (simp_all add: Let_def)
    have acc: "account_after (session_account ms) (to_command m) = session_account (ms @ [m])" for ms
      by (cases "session_account ms") (simp_all add: session_account_snoc)
    show ?thesis using h v p eq Inr r acc [of "cn_requests (conn_of g i)"]
      by (cases "to_command m")
        (auto simp: history_ok_def stream_ok_def reader_view_def Let_def own_commands_snoc in_hand_def split: prod.splits)
  qed
qed

lemma reader_history:
  assumes h: "history_ok g i" and l: "i < length (gw_connections g)" and r: "reader_step i chunk g = Some g'"
  shows "history_ok g' i"
proof (cases "cn_reader (conn_of g i)")
  case Reading
  let ?c = "conn_of g i"
  have "drain_frames (cn_received ?c @ chunk) = (cn_requests ?c @ fst (drain_frames (cn_read_buffer ?c @ chunk)), snd (drain_frames (cn_read_buffer ?c @ chunk)))"
    using h drain_frames_append [of "cn_received ?c" chunk] drain_frames_append [of "cn_read_buffer ?c" chunk]
    by (auto simp: history_ok_def stream_ok_def split: prod.splits)
  then show ?thesis using Reading h l r
    by (auto simp: reader_step_def read_bytes_def Let_def history_ok_def stream_ok_def in_hand_def)
next
  case Draining
  then show ?thesis using drain_history [OF h l] r by (simp add: reader_step_def)
next
  case (Claiming a m c)
  have "gw_connections (claim_order_ownership i a m g) = gw_connections g" "gw_submitted (claim_order_ownership i a m g) = gw_submitted g"
    by (simp_all add: claim_order_ownership_def split: option.splits)
  then show ?thesis using Claiming h l r
    by (auto simp: reader_step_def submit_command_def set_reader_def history_ok_def stream_ok_def in_hand_def submitted_by_def)
next
  case (Submitting c)
  then show ?thesis using h l r
    by (auto simp: reader_step_def submit_command_def set_reader_def history_ok_def stream_ok_def in_hand_def submitted_by_def)
next
  case Closing
  have "gw_connections (unbind_session i g) = gw_connections g" "gw_submitted (unbind_session i g) = gw_submitted g"
    by (auto simp: unbind_session_def Let_def split: option.splits)
  then show ?thesis using Closing h l r
    by (auto simp: reader_step_def submit_command_def set_reader_def history_ok_def stream_ok_def in_hand_def submitted_by_def)
qed (use h r in \<open>simp add: reader_step_def\<close>)

subsection \<open>All threads together\<close>

definition histories_ok :: "OrderEntryGateway \<Rightarrow> bool" where
  "histories_ok g \<longleftrightarrow> (\<forall>i. if i < length (gw_connections g) then history_ok g i else submitted_by g i = [])"

text \<open>A new connection has everything still before it; nothing else creates one.\<close>

definition fresh_reader :: "Connection \<Rightarrow> bool" where
  "fresh_reader conn \<longleftrightarrow> reader_view conn = ([], [], [], None, Reading)"

lemma fresh_history: "fresh_reader (conn_of g i) \<Longrightarrow> submitted_by g i = [] \<Longrightarrow> history_ok g i"
  by (simp add: fresh_reader_def reader_view_def history_ok_def stream_ok_def in_hand_def own_commands_def session_account_def
      drain_frames.simps [of "[]"] next_frame_def oe_decode_header_short List.map_filter_def)

lemma accept_adds_fresh:
  assumes "accept_connection g = Some g'"
  shows "gw_submitted g' = gw_submitted g \<and> (gw_connections g' = gw_connections g \<or>
    (\<exists>c. gw_connections g' = gw_connections g @ [c] \<and> fresh_reader c))"
  using assms by (auto simp: accept_connection_def new_connection_def fresh_reader_def reader_view_def split: if_splits bind_splits)

definition touched :: "gateway_action \<Rightarrow> connection_ref set" where
  "touched x = (case x of Reader i _ \<Rightarrow> {i} | _ \<Rightarrow> {})"

lemma act_untouched:
  assumes "gateway_act x g = Some g'" "x \<noteq> Accept"
  shows "untouched g g' (- touched x)"
proof (cases x)
  case (Reader i chunk)
  then show ?thesis using assms reader_untouched [of i "- {i}"] by (auto simp: untouched_refl touched_def split: if_splits)
next
  case (Writer i n)
  then show ?thesis using assms by (auto intro!: untouched_set_conn writer_view simp: untouched_refl split: if_splits)
next
  case (Route L ev)
  then show ?thesis using assms route_event_untouched by simp
next
  case Stop
  then show ?thesis using assms by (auto simp: stop_gateway_def intro!: untouched_maps)
qed (use assms in simp)

lemma act_effect:
  assumes "gateway_act x g = Some g'"
  shows "length (gw_connections g) \<le> length (gw_connections g')"
    "i \<notin> touched x \<Longrightarrow> submitted_by g' i = submitted_by g i"
    "i \<notin> touched x \<Longrightarrow> i < length (gw_connections g) \<Longrightarrow> reader_view (conn_of g' i) = reader_view (conn_of g i)"
    "length (gw_connections g) \<le> i \<Longrightarrow> i < length (gw_connections g') \<Longrightarrow> fresh_reader (conn_of g' i)"
  using act_untouched [OF assms] accept_adds_fresh [of g g'] assms
  by (cases "x = Accept"; auto simp: untouched_def nth_append submitted_by_def less_Suc_eq)+

lemma act_histories:
  assumes h: "histories_ok g" and x: "gateway_act x g = Some g'"
  shows "histories_ok g'"
  unfolding histories_ok_def
proof
  fix i
  note e = act_effect [OF x]
  have hi: "if i < length (gw_connections g) then history_ok g i else submitted_by g i = []" using h unfolding histories_ok_def by blast
  show "if i < length (gw_connections g') then history_ok g' i else submitted_by g' i = []"
  proof (cases "i \<in> touched x")
    case True
    then obtain chunk where c: "x = Reader i chunk" by (auto simp: touched_def split: gateway_action.splits)
    then show ?thesis using reader_history [of g i chunk g'] hi x e(1) by (auto split: if_splits)
  next
    case False
    then show ?thesis using hi e(1) e(2,3) [of i] history_ok_cong [of g' i g] fresh_history [OF e(4)]
      by (cases "i < length (gw_connections g)") auto
  qed
qed

lemma run_histories: "gateway_run xs g = Some g' \<Longrightarrow> histories_ok g \<Longrightarrow> histories_ok g'"
  by (induction xs arbitrary: g) (auto split: bind_splits dest: act_histories)

lemma new_histories: "histories_ok (new_gateway options)"
  by (simp add: histories_ok_def new_gateway_def submitted_by_def)

subsection \<open>A type byte that no message has\<close>

text \<open>
  Once the buffer starts with an unknown type byte and a whole header is there, no further byte makes the reader
  decode anything: it keeps breaking out of the loop to wait for more.
\<close>

definition stalled :: "Connection \<Rightarrow> bool" where
  "stalled conn \<longleftrightarrow> 3 \<le> length (cn_read_buffer conn) \<and> \<not> oe_is_known_type (hd (cn_read_buffer conn)) \<and>
     cn_reader conn \<in> {Reading, Draining, Closing, ReaderDone}"

lemma stalled_no_frame:
  assumes "3 \<le> length bs" "\<not> oe_is_known_type (hd bs)"
  shows "next_frame bs = None"
proof -
  obtain ty ps rest where "bs = oe_header_bytes ty ps @ rest" using assms(1) oe_header_exhaust by blast
  then show ?thesis using assms(2) using oe_decode_header_bytes [of ty ps rest]
    by (simp add: next_frame_def oe_header_bytes_def)
qed

lemma act_stalled:
  assumes s: "stalled (conn_of g i)" "i < length (gw_connections g)" and x: "gateway_act x g = Some g'"
  shows "stalled (conn_of g' i) \<and> i < length (gw_connections g') \<and> cn_requests (conn_of g' i) = cn_requests (conn_of g i) \<and>
    submitted_by g' i = submitted_by g i \<and> length (cn_read_buffer (conn_of g i)) \<le> length (cn_read_buffer (conn_of g' i))"
proof (cases "i \<in> touched x")
  case True
  then obtain chunk where c: "x = Reader i chunk" by (auto simp: touched_def split: gateway_action.splits)
  have "next_frame (cn_read_buffer (conn_of g i)) = None" using stalled_no_frame s by (simp add: stalled_def)
  moreover have "gw_connections (unbind_session i g) = gw_connections g" "gw_submitted (unbind_session i g) = gw_submitted g"
    by (auto simp: unbind_session_def Let_def split: option.splits)
  moreover have "hd (xs @ ys) = hd xs" if "3 \<le> length xs" for xs ys :: "byte list" using that by (cases xs) auto
  ultimately show ?thesis using c s x
    by (auto simp: reader_step_def read_bytes_def drain_step_def set_reader_def stalled_def Let_def submitted_by_def split: if_splits)
next
  case False
  then show ?thesis using s act_effect(1) [OF x] act_effect(2,3) [OF x, of i] by (simp add: stalled_def reader_view_def)
qed

lemma run_stalled:
  assumes "stalled (conn_of g i)" "i < length (gw_connections g)" "gateway_run xs g = Some g'"
  shows "stalled (conn_of g' i) \<and> i < length (gw_connections g') \<and> cn_requests (conn_of g' i) = cn_requests (conn_of g i) \<and>
    submitted_by g' i = submitted_by g i \<and> length (cn_read_buffer (conn_of g i)) \<le> length (cn_read_buffer (conn_of g' i))"
  using assms
proof (induction xs arbitrary: g)
  case (Cons x xs)
  then obtain g1 where "gateway_act x g = Some g1" "gateway_run xs g1 = Some g'" by (auto split: bind_splits)
  then show ?case using act_stalled [OF Cons.prems(1,2)] Cons.IH [of g1] by fastforce
qed simp

end
