(* ===== verification/Gateway_Properties.thy ===== *)
theory Gateway_Properties
  imports Gateway_Streams
begin

text \<open>
  The properties of the gateway's sessions: the bytes of a connection are cut into the same messages
  however the network segments them, and under every interleaving of the threads the routing maps
  describe the live sessions and no session sees or does anything for another account.
\<close>

subsection \<open>The invariant of one connection\<close>

fun is_mismatch :: "Message \<Rightarrow> bool" where
  "is_mismatch (MsgRejected m) \<longleftrightarrow> orj_reason m = AccountMismatch"
| "is_mismatch _ \<longleftrightarrow> False"

fun reader_ok :: "AccountId option \<Rightarrow> bool \<Rightarrow> reader \<Rightarrow> bool" where
  "reader_ok acc closed (Claiming a m c) \<longleftrightarrow> \<not> closed \<and> acc = Some a \<and> command_account c = a"
| "reader_ok acc closed (Submitting c) \<longleftrightarrow> \<not> closed \<and> acc = Some (command_account c)"
| "reader_ok acc closed r \<longleftrightarrow> (closed \<longleftrightarrow> r = Closing \<or> r = ReaderDone)"

definition unwritten :: "writer \<Rightarrow> byte list" where
  "unwritten w = (case w of Writing buf \<Rightarrow> buf | _ \<Rightarrow> [])"

text \<open>What the socket has taken is the encoding of the messages taken, up to what is still to write.\<close>

definition wire_ok :: "Connection \<Rightarrow> bool" where
  "wire_ok conn \<longleftrightarrow> (\<exists>rest. cn_wire conn @ rest = concat (map (\<lambda>m. encode_message m []) (cn_sent conn)) \<and>
     (cn_writer conn \<noteq> WriterDone \<longrightarrow> rest = unwritten (cn_writer conn)))"

definition queues_private :: "Connection \<Rightarrow> bool" where
  "queues_private conn \<longleftrightarrow>
     (\<forall>m \<in> set (cn_replay_backlog conn) \<union> set (spsc_contents (cn_outbound conn)). cn_account_id conn = Some (message_account m)) \<and>
     (\<forall>m \<in> set (spsc_contents (cn_session_outbound conn)). is_mismatch m) \<and>
     (\<forall>m \<in> set (cn_sent conn). cn_account_id conn = Some (message_account m) \<or> is_mismatch m)"

definition conn_ok :: "Connection \<Rightarrow> bool" where
  "conn_ok conn \<longleftrightarrow> spsc_ok (cn_outbound conn) \<and> spsc_ok (cn_session_outbound conn) \<and> queues_private conn \<and> wire_ok conn \<and>
     reader_ok (cn_account_id conn) (cn_closed conn) (cn_reader conn)"

lemma new_connection_ok:
  assumes "unat n \<le> 2 ^ 63"
  shows "\<exists>conn. new_connection ident n = Some conn \<and> conn_ok conn \<and> cn_account_id conn = None \<and> cn_reader conn = Reading"
proof -
  obtain q :: "Message SpscQueue" where q: "new_spsc n = Some q" using new_spsc_ok [OF assms] by blast
  then obtain k where k: "spsc_quiet k q [] []" using new_spsc_inv by blast
  have "spsc_ok q" "spsc_contents q = []" using k spsc_quiet_contents(1) [OF k] by (auto simp: spsc_ok_def)
  with q show ?thesis
    by (simp add: new_connection_def conn_ok_def queues_private_def wire_ok_def unwritten_def)
qed

subsection \<open>The invariant of the gateway\<close>

definition bound :: "OrderEntryGateway \<Rightarrow> AccountId \<Rightarrow> connection_ref \<Rightarrow> bool" where
  "bound g a i \<longleftrightarrow> i < length (gw_connections g) \<and> cn_account_id (conn_of g i) = Some a \<and> cn_reader (conn_of g i) \<noteq> ReaderDone"

definition sessions_of :: "OrderEntryGateway \<Rightarrow> AccountId \<Rightarrow> connection_ref list" where
  "sessions_of g a = (case gw_account_sessions g a of None \<Rightarrow> [] | Some is \<Rightarrow> is)"

definition sessions_ok :: "OrderEntryGateway \<Rightarrow> bool" where
  "sessions_ok g \<longleftrightarrow> (\<forall>a. gw_account_sessions g a \<noteq> Some [] \<and> distinct (sessions_of g a) \<and>
     (\<forall>i. i \<in> set (sessions_of g a) \<longleftrightarrow> bound g a i))"

definition owners_ok :: "OrderEntryGateway \<Rightarrow> bool" where
  "owners_ok g \<longleftrightarrow> (\<forall>a x i. gw_order_owner g (a, x) = Some i \<longrightarrow> bound g a i)"

definition pending_ok :: "OrderEntryGateway \<Rightarrow> bool" where
  "pending_ok g \<longleftrightarrow> (\<forall>a ms. gw_pending_reports g a = Some ms \<longrightarrow>
     ms \<noteq> [] \<and> length ms \<le> unat (go_pending_report_capacity (gw_options g)) \<and> (\<forall>m \<in> set ms. message_account m = a) \<and>
     (\<forall>i. bound g a i \<longrightarrow> cn_closed (conn_of g i)))"

definition submitted_ok :: "OrderEntryGateway \<Rightarrow> bool" where
  "submitted_ok g \<longleftrightarrow> (\<forall>(i, c) \<in> set (gw_submitted g). i < length (gw_connections g) \<and>
     cn_account_id (conn_of g i) = Some (command_account c))"

definition gateway_ok :: "OrderEntryGateway \<Rightarrow> bool" where
  "gateway_ok g \<longleftrightarrow> (\<forall>i < length (gw_connections g). conn_ok (conn_of g i)) \<and> sessions_ok g \<and> owners_ok g \<and> pending_ok g \<and> submitted_ok g"

lemmas maps_ok_defs = sessions_ok_def owners_ok_def pending_ok_def submitted_ok_def sessions_of_def

lemma gateway_okD:
  assumes "gateway_ok g"
  shows "i < length (gw_connections g) \<Longrightarrow> conn_ok (conn_of g i)" "sessions_ok g" "owners_ok g" "pending_ok g" "submitted_ok g"
  using assms by (auto simp: gateway_ok_def)

lemma sessions_of_set_conn [simp]: "sessions_of (set_conn i c g) = sessions_of g"
  by (simp add: sessions_of_def fun_eq_iff)

text \<open>Changing what the maps do not speak of in one connection.\<close>

definition same_role :: "Connection \<Rightarrow> Connection \<Rightarrow> bool" where
  "same_role c d \<longleftrightarrow> cn_account_id c = cn_account_id d \<and> cn_closed c = cn_closed d \<and>
     (cn_reader c = ReaderDone \<longleftrightarrow> cn_reader d = ReaderDone)"

lemma gateway_ok_set_conn:
  assumes ok: "gateway_ok g" and i: "i < length (gw_connections g)" and c: "conn_ok c" "same_role c (conn_of g i)"
  shows "gateway_ok (set_conn i c g)"
proof -
  have b: "bound (set_conn i c g) a j \<longleftrightarrow> bound g a j" for a j
    using c(2) i by (auto simp: same_role_def bound_def)
  have cl: "cn_closed (conn_of (set_conn i c g) j) = cn_closed (conn_of g j)"
    "cn_account_id (conn_of (set_conn i c g) j) = cn_account_id (conn_of g j)" for j
    using c(2) i by (auto simp: same_role_def)
  note d = gateway_okD [OF ok]
  have "sessions_ok (set_conn i c g)" using d(2) by (simp add: sessions_ok_def b)
  moreover have "owners_ok (set_conn i c g)" using d(3) by (simp add: owners_ok_def b)
  moreover have "pending_ok (set_conn i c g)" using d(4) unfolding pending_ok_def b cl by simp
  moreover have "submitted_ok (set_conn i c g)" using d(5) unfolding submitted_ok_def cl by simp
  ultimately show ?thesis using d(1) c(1) i by (simp add: gateway_ok_def)
qed

subsection \<open>Every action keeps the invariant\<close>

lemma push_private:
  assumes "spsc_ok q"
  obtains q' b where "try_push q m = Some (q', b)" "spsc_ok q'" "set (spsc_contents q') \<subseteq> insert m (set (spsc_contents q))"
proof -
  obtain q' where q': "try_push q m = Some (q', length (spsc_contents q) < unat (sq_capacity q))" "spsc_ok q'"
    "spsc_contents q' = (if length (spsc_contents q) < unat (sq_capacity q) then spsc_contents q @ [m] else spsc_contents q)"
    using spsc.push_law [OF assms, of m] by blast
  then show ?thesis by (intro that [OF q'(1,2)]) auto
qed

lemma pop_private:
  assumes "spsc_ok q"
  obtains q' r where "try_pop q = Some (q', r)" "spsc_ok q'" "set (spsc_contents q') \<subseteq> set (spsc_contents q)"
    "\<And>m. r = Some m \<Longrightarrow> m \<in> set (spsc_contents q)"
proof -
  obtain q' where q': "try_pop q = Some (q', case spsc_contents q of [] \<Rightarrow> None | x # _ \<Rightarrow> Some x)" "spsc_ok q'"
    "spsc_contents q' = tl (spsc_contents q)" using spsc.pop_law [OF assms] by blast
  show ?thesis using q' by (intro that [OF q'(1,2)]) (cases "spsc_contents q"; simp add: subset_insertI)+
qed

lemma accept_ok:
  assumes ok: "gateway_ok g" and cap: "unat (go_outbound_queue_capacity (gw_options g)) \<le> 2 ^ 63"
  shows "\<exists>g'. accept_connection g = Some g' \<and> gateway_ok g'"
proof (cases "gw_stop_requested g")
  case False
  obtain c where c: "new_connection (gw_next_session_id g) (go_outbound_queue_capacity (gw_options g)) = Some c" "conn_ok c"
    "cn_account_id c = None" using new_connection_ok [OF cap] by blast
  let ?g = "g\<lparr>gw_next_session_id := gw_next_session_id g + 1, gw_connections := gw_connections g @ [c]\<rparr>"
  have b: "bound ?g a j \<longleftrightarrow> bound g a j" for a j using c(3) by (auto simp: bound_def nth_append less_Suc_eq)
  note d = gateway_okD [OF ok]
  have "sessions_ok ?g" using d(2) by (simp add: sessions_ok_def b sessions_of_def)
  moreover have "owners_ok ?g" using d(3) by (simp add: owners_ok_def b)
  moreover have "pending_ok ?g" using d(4) unfolding pending_ok_def b by (auto simp: nth_append bound_def)
  moreover have "submitted_ok ?g" using d(5) by (fastforce simp: submitted_ok_def nth_append)
  moreover have "conn_ok ((gw_connections g @ [c]) ! j)" if "j < Suc (length (gw_connections g))" for j
    using that d(1) c(2) by (auto simp: nth_append less_Suc_eq)
  ultimately show ?thesis using c(1) False by (simp add: accept_connection_def gateway_ok_def)
qed (use ok in \<open>simp add: accept_connection_def\<close>)

lemma writer_ok:
  assumes ok: "conn_ok c"
  shows "\<exists>c'. writer_step n stop c = Some c' \<and> conn_ok c' \<and> same_role c' c"
proof -
  have d: "spsc_ok (cn_outbound c)" "spsc_ok (cn_session_outbound c)" "queues_private c" "wire_ok c"
    "reader_ok (cn_account_id c) (cn_closed c) (cn_reader c)"
    using ok by (auto simp: conn_ok_def)
  obtain q r where q: "try_pop (cn_session_outbound c) = Some (q, r)" "spsc_ok q"
    "set (spsc_contents q) \<subseteq> set (spsc_contents (cn_session_outbound c))" "\<And>m. r = Some m \<Longrightarrow> m \<in> set (spsc_contents (cn_session_outbound c))"
    using pop_private [OF d(2)] by metis
  obtain p s where p: "try_pop (cn_outbound c) = Some (p, s)" "spsc_ok p"
    "set (spsc_contents p) \<subseteq> set (spsc_contents (cn_outbound c))" "\<And>m. s = Some m \<Longrightarrow> m \<in> set (spsc_contents (cn_outbound c))"
    using pop_private [OF d(1)] by metis
  show ?thesis
  proof (cases "cn_writer c")
    case (Writing buf)
    with d show ?thesis
      by (auto simp: writer_step_def conn_ok_def same_role_def queues_private_def wire_ok_def unwritten_def)
  next
    case AtBacklog
    with d show ?thesis
      by (cases "cn_replay_backlog c")
        (auto simp: writer_step_def conn_ok_def same_role_def queues_private_def wire_ok_def unwritten_def take_message_def)
  next
    case AtReplies
    with d q show ?thesis
      by (cases r) (auto simp: writer_step_def conn_ok_def same_role_def queues_private_def wire_ok_def unwritten_def take_message_def)
  next
    case AtReports
    with d p show ?thesis
      by (cases s) (auto simp: writer_step_def conn_ok_def same_role_def queues_private_def wire_ok_def unwritten_def take_message_def)
  qed (use d in \<open>auto simp: writer_step_def conn_ok_def same_role_def queues_private_def wire_ok_def unwritten_def\<close>)
qed

lemma deliver_ok:
  assumes ok: "gateway_ok g" and i: "bound g (message_account m) i"
  shows "\<exists>g'. deliver i m g = Some g' \<and> gateway_ok g' \<and> gw_options g' = gw_options g"
proof -
  have l: "i < length (gw_connections g)" and a: "cn_account_id (conn_of g i) = Some (message_account m)"
    using i by (simp_all add: bound_def)
  have d: "conn_ok (conn_of g i)" using gateway_okD(1) [OF ok l] .
  then obtain q b where q: "try_push (cn_outbound (conn_of g i)) m = Some (q, b)" "spsc_ok q"
    "set (spsc_contents q) \<subseteq> insert m (set (spsc_contents (cn_outbound (conn_of g i))))"
    using push_private [of "cn_outbound (conn_of g i)" m] by (auto simp: conn_ok_def)
  have "conn_ok ((conn_of g i)\<lparr>cn_outbound := q\<rparr>)"
    using d q(2,3) a by (auto simp: conn_ok_def queues_private_def wire_ok_def)
  then have "gateway_ok (set_conn i ((conn_of g i)\<lparr>cn_outbound := q\<rparr>) g)"
    by (intro gateway_ok_set_conn [OF ok l]) (simp_all add: same_role_def)
  then show ?thesis using q(1) by (simp add: deliver_def)
qed

lemma retain_ok:
  assumes ok: "gateway_ok g" and none: "open_session (message_account m) g = None"
  shows "gateway_ok (retain_report (message_account m) m g)"
proof -
  let ?a = "message_account m" and ?g = "retain_report (message_account m) m g"
  note d = gateway_okD [OF ok]
  have f: "gw_connections ?g = gw_connections g" "gw_account_sessions ?g = gw_account_sessions g" "gw_order_owner ?g = gw_order_owner g"
    "gw_submitted ?g = gw_submitted g" "gw_options ?g = gw_options g" by (simp_all add: retain_report_def Let_def)
  have b: "bound ?g a j \<longleftrightarrow> bound g a j" for a j by (simp add: bound_def f)
  have cl: "cn_closed (conn_of g j)" if "bound g ?a j" for j
  proof -
    have "j \<in> set (sessions_of g ?a)" using that d(2) by (auto simp: sessions_ok_def)
    then show ?thesis using none by (auto simp: open_session_def sessions_of_def find_None_iff split: option.splits)
  qed
  have "pending_ok ?g"
  proof (cases "unat (go_pending_report_capacity (gw_options g)) = 0")
    case True
    then show ?thesis using d(4) by (simp add: retain_report_def)
  next
    case False
    define n where "n = unat (go_pending_report_capacity (gw_options g))"
    define ms where "ms = (case gw_pending_reports g ?a of None \<Rightarrow> [] | Some ms \<Rightarrow> ms)"
    define ms' where "ms' = (if n \<le> length ms then tl ms else ms) @ [m]"
    have g': "?g = g\<lparr>gw_pending_reports := (gw_pending_reports g)(?a \<mapsto> ms')\<rparr>"
      using False by (simp add: retain_report_def ms'_def ms_def n_def Let_def)
    have tl: "set (tl ms) \<subseteq> set ms" by (cases ms) auto
    have "length ms \<le> n \<and> (\<forall>x \<in> set ms. message_account x = ?a)"
    proof (cases "gw_pending_reports g ?a")
      case (Some l)
      then have "ms = l" by (simp add: ms_def)
      then show ?thesis using d(4) Some unfolding pending_ok_def n_def by blast
    qed (simp add: ms_def)
    then have "ms' \<noteq> []" "length ms' \<le> n" "\<forall>x \<in> set ms'. message_account x = ?a"
      using False tl by (auto simp: ms'_def n_def)
    then show ?thesis using d(4) cl unfolding pending_ok_def b f by (auto simp: g' n_def split: if_splits)
  qed
  then show ?thesis using d by (simp add: gateway_ok_def sessions_ok_def owners_ok_def submitted_ok_def b f sessions_of_def)
qed

lemma report_account: "r \<in> set (to_execution_reports ev) \<Longrightarrow> message_account (snd r) = fst (fst r)"
  by (cases ev) (auto simp: trade_report_def)

lemma retain_frame: "gw_options (retain_report a m g) = gw_options g"
  by (simp add: retain_report_def Let_def)

lemma route_report_ok:
  assumes ok: "gateway_ok g" and a: "message_account m = a"
  shows "\<exists>g'. route_report ((a, x), m) g = Some g' \<and> gateway_ok g' \<and> gw_options g' = gw_options g"
proof -
  note d = gateway_okD [OF ok]
  have b: "bound g a i" if "open_owner (a, x) g = Some i \<or> open_session a g = Some i" for i
  proof -
    have "gw_order_owner g (a, x) = Some i \<or> i \<in> set (sessions_of g a)"
      using that by (auto simp: open_owner_def open_session_def sessions_of_def find_Some_iff split: option.splits if_splits)
    then show ?thesis using d(2,3) by (auto simp: sessions_ok_def owners_ok_def)
  qed
  show ?thesis
  proof (cases "open_owner (a, x) g")
    case (Some i)
    then show ?thesis using deliver_ok [OF ok, of m i] b a by (simp add: route_report_def)
  next
    case None
    then show ?thesis using deliver_ok [OF ok, of m] b a retain_ok [OF ok, of m] retain_frame
      by (cases "open_session a g") (auto simp: route_report_def)
  qed
qed

lemma route_reports_ok:
  assumes "gateway_ok g" "\<forall>r \<in> set rs. message_account (snd r) = fst (fst r)"
  shows "\<exists>g'. route_reports rs g = Some g' \<and> gateway_ok g' \<and> gw_options g' = gw_options g"
  using assms
proof (induction rs arbitrary: g)
  case (Cons r rs)
  obtain a x m where r: "r = ((a, x), m)" by (metis surj_pair)
  then obtain g1 where "route_report r g = Some g1" "gateway_ok g1" "gw_options g1 = gw_options g"
    using route_report_ok [OF Cons.prems(1), of m a x] Cons.prems(2) by auto
  then show ?case using Cons.IH [of g1] Cons.prems(2) by auto
qed simp

text \<open>Ownership entries only move within an account.\<close>

lemma owners_after_from:
  assumes "owners_after L ev owners (a, x) = Some i"
  shows "\<exists>y. owners (a, y) = Some i"
  using assms by (cases ev) (auto simp: erase_filled_def split: if_splits option.splits)

lemma owners_ok_update:
  assumes "gateway_ok g" "\<And>a x i. owners (a, x) = Some i \<Longrightarrow> bound g a i"
  shows "gateway_ok (g\<lparr>gw_order_owner := owners\<rparr>)"
  using assms unfolding gateway_ok_def sessions_ok_def owners_ok_def pending_ok_def submitted_ok_def sessions_of_def bound_def
  by simp

lemma route_event_ok:
  assumes ok: "gateway_ok g"
  shows "\<exists>g'. route_event L ev g = Some g' \<and> gateway_ok g' \<and> gw_options g' = gw_options g"
proof -
  obtain g1 where g1: "route_reports (to_execution_reports ev) g = Some g1" "gateway_ok g1" "gw_options g1 = gw_options g"
    using route_reports_ok [OF ok, of "to_execution_reports ev"] report_account by blast
  have "gateway_ok (update_order_ownership L ev g1)"
    unfolding update_order_ownership_def
    using owners_after_from gateway_okD(3) [OF g1(2)] by (intro owners_ok_update [OF g1(2)]) (metis owners_ok_def)
  then show ?thesis using g1 ok by (auto simp: route_event_def Let_def update_order_ownership_def)
qed

lemma is_mismatch_rejection: "is_mismatch (mismatch_rejection c)"
  by (cases c) simp_all

text \<open>Moving the reader of an open session on, and taking bytes in or out of its buffer.\<close>

lemma reader_move_ok:
  assumes "gateway_ok g" "i < length (gw_connections g)" "reader_ok (cn_account_id (conn_of g i)) (cn_closed (conn_of g i)) r"
    "r = ReaderDone \<longleftrightarrow> cn_reader (conn_of g i) = ReaderDone"
  shows "gateway_ok (set_conn i ((conn_of g i)\<lparr>cn_read_buffer := bs, cn_reader := r, cn_received := rs, cn_requests := ms\<rparr>) g)"
  using assms gateway_okD(1) [OF assms(1,2)]
  by (intro gateway_ok_set_conn) (auto simp: conn_ok_def queues_private_def wire_ok_def same_role_def)

lemma set_reader_ok:
  assumes "gateway_ok g" "i < length (gw_connections g)" "reader_ok (cn_account_id (conn_of g i)) (cn_closed (conn_of g i)) r"
    "r = ReaderDone \<longleftrightarrow> cn_reader (conn_of g i) = ReaderDone"
  shows "gateway_ok (set_reader i r g)"
proof -
  let ?c = "conn_of g i"
  have "?c\<lparr>cn_reader := r\<rparr> = ?c\<lparr>cn_read_buffer := cn_read_buffer ?c, cn_reader := r, cn_received := cn_received ?c,
    cn_requests := cn_requests ?c\<rparr>" by simp
  then show ?thesis
    using reader_move_ok [OF assms, where bs = "cn_read_buffer ?c" and rs = "cn_received ?c" and ms = "cn_requests ?c"] by (simp add: set_reader_def)
qed

lemma mismatch_ok:
  assumes ok: "gateway_ok g" and l: "i < length (gw_connections g)"
  shows "\<exists>g'. reject_account_mismatch i c g = Some g' \<and> gateway_ok g' \<and> gw_options g' = gw_options g"
proof -
  have d: "conn_ok (conn_of g i)" using gateway_okD(1) [OF ok l] .
  then obtain q b where q: "try_push (cn_session_outbound (conn_of g i)) (mismatch_rejection c) = Some (q, b)" "spsc_ok q"
    "set (spsc_contents q) \<subseteq> insert (mismatch_rejection c) (set (spsc_contents (cn_session_outbound (conn_of g i))))"
    using push_private [of "cn_session_outbound (conn_of g i)" "mismatch_rejection c"] by (auto simp: conn_ok_def)
  have "conn_ok ((conn_of g i)\<lparr>cn_session_outbound := q\<rparr>)"
    using d q(2,3) is_mismatch_rejection [of c] by (auto simp: conn_ok_def queues_private_def wire_ok_def)
  then have "gateway_ok (set_conn i ((conn_of g i)\<lparr>cn_session_outbound := q\<rparr>) g)"
    by (intro gateway_ok_set_conn [OF ok l]) (simp_all add: same_role_def)
  then show ?thesis using q(1) by (simp add: reject_account_mismatch_def)
qed

text \<open>Binding an unbound session: it joins its account, which from then on has no retained reports.\<close>

lemma bind_session_eq:
  assumes "i < length (gw_connections g)"
  shows "bind_session i a g = set_conn i ((conn_of g i)\<lparr>
      cn_replay_backlog := (case gw_pending_reports g a of None \<Rightarrow> cn_replay_backlog (conn_of g i) | Some ms \<Rightarrow> ms),
      cn_account_id := Some a\<rparr>)
    (g\<lparr>gw_account_sessions := (gw_account_sessions g)(a \<mapsto> sessions_of g a @ [i]),
       gw_pending_reports := (gw_pending_reports g)(a := None)\<rparr>)"
  by (cases "gw_pending_reports g a") (simp_all add: bind_session_def Let_def sessions_of_def set_conn_def fun_upd_idem)

lemma bind_ok:
  assumes ok: "gateway_ok g" and l: "i < length (gw_connections g)" and none: "cn_account_id (conn_of g i) = None"
    and r: "cn_reader (conn_of g i) = Draining"
  shows "gateway_ok (bind_session i a g)"
proof -
  let ?g = "bind_session i a g"
  note d = gateway_okD [OF ok]
  define c where "c = conn_of ?g i"
  have c: "conn_of ?g j = (if j = i then c else conn_of g j)" "length (gw_connections ?g) = length (gw_connections g)" for j
    unfolding c_def using l by (simp_all add: bind_session_eq nth_list_update set_conn_def)
  have f: "cn_account_id c = Some a" "cn_reader c = Draining" "cn_closed c = cn_closed (conn_of g i)"
    "gw_order_owner ?g = gw_order_owner g" "gw_submitted ?g = gw_submitted g" "gw_options ?g = gw_options g"
    "sessions_of ?g b = (if b = a then sessions_of g a @ [i] else sessions_of g b)"
    "gw_pending_reports ?g = (gw_pending_reports g)(a := None)" for b
    unfolding c_def using l r by (simp_all add: bind_session_eq sessions_of_def set_conn_def fun_eq_iff)
  have b: "bound ?g b j \<longleftrightarrow> (if j = i then b = a else bound g b j)" for b j
    using f(1,2) l by (auto simp: bound_def c)
  have fresh: "i \<notin> set (sessions_of g b)" "gw_order_owner g (b, x) \<noteq> Some i" for b x
    using d(2,3) none by (auto simp: sessions_ok_def owners_ok_def bound_def)
  have "conn_ok c"
  proof -
    have "message_account m = a" if "gw_pending_reports g a = Some ms" "m \<in> set ms" for m ms
      using that d(4) by (auto simp: pending_ok_def)
    moreover have "conn_ok (conn_of g i)" using d(1) l by simp
    ultimately show ?thesis unfolding c_def using l none r
      by (auto simp: bind_session_eq set_conn_def conn_ok_def queues_private_def wire_ok_def split: option.splits)
  qed
  then have "\<forall>j < length (gw_connections ?g). conn_ok (conn_of ?g j)" using d(1) by (simp add: c)
  moreover have "sessions_ok ?g"
    unfolding sessions_ok_def f(7) b using d(2) fresh(1) l
    by (auto simp: sessions_ok_def bind_session_eq sessions_of_def set_conn_def split: if_splits)
  moreover have "owners_ok ?g" using d(3) fresh(2) unfolding owners_ok_def f b by auto
  moreover have "pending_ok ?g" using d(4) unfolding pending_ok_def f b c by (auto split: if_splits)
  moreover have "submitted_ok ?g" using d(5) none unfolding submitted_ok_def f c by fastforce
  ultimately show ?thesis by (simp add: gateway_ok_def)
qed

text \<open>Unbinding: the session leaves its account and every order it owned.\<close>

lemma unbind_sessions:
  assumes ok: "sessions_ok g"
  shows "gw_account_sessions (unbind_session i g) b \<noteq> Some []" "sessions_of (unbind_session i g) b = removeAll i (sessions_of g b)"
proof -
  have un: "removeAll i (sessions_of g b) = sessions_of g b" if "cn_account_id (conn_of g i) \<noteq> Some b"
    using ok that by (intro removeAll_id) (auto simp: sessions_ok_def bound_def)
  have ne: "gw_account_sessions g b \<noteq> Some []" using ok by (simp add: sessions_ok_def)
  have "gw_account_sessions (unbind_session i g) b \<noteq> Some [] \<and> sessions_of (unbind_session i g) b = removeAll i (sessions_of g b)"
  proof (cases "cn_account_id (conn_of g i) = Some b")
    case False
    then have "gw_account_sessions (unbind_session i g) b = gw_account_sessions g b"
      by (auto simp: unbind_session_def Let_def split: option.splits)
    then show ?thesis using ne un [OF False] by (simp add: sessions_of_def)
  next
    case True
    then show ?thesis by (cases "gw_account_sessions g b") (auto simp: unbind_session_def sessions_of_def Let_def)
  qed
  then show "gw_account_sessions (unbind_session i g) b \<noteq> Some []" "sessions_of (unbind_session i g) b = removeAll i (sessions_of g b)"
    by blast+
qed

lemma unbind_ok:
  assumes ok: "gateway_ok g" and l: "i < length (gw_connections g)" and r: "cn_reader (conn_of g i) = Closing"
  shows "gateway_ok (set_reader i ReaderDone (unbind_session i g))"
proof -
  let ?g = "set_reader i ReaderDone (unbind_session i g)"
  note d = gateway_okD [OF ok]
  have f: "gw_pending_reports ?g = gw_pending_reports g" "gw_options ?g = gw_options g" "gw_submitted ?g = gw_submitted g"
    "length (gw_connections ?g) = length (gw_connections g)"
    by (auto simp: set_reader_def set_conn_def unbind_session_def Let_def split: option.splits)
  have c: "conn_of ?g j = (if j = i then (conn_of g i)\<lparr>cn_reader := ReaderDone\<rparr> else conn_of g j)" for j
    using l by (auto simp: set_reader_def set_conn_def unbind_session_def Let_def nth_list_update split: option.splits)
  have b: "bound ?g b j \<longleftrightarrow> j \<noteq> i \<and> bound g b j" for b j by (auto simp: bound_def f c)
  have s: "gw_account_sessions ?g b \<noteq> Some []" "sessions_of ?g b = removeAll i (sessions_of g b)" for b
    using unbind_sessions [OF d(2)] by (simp_all add: set_reader_def)
  have o: "gw_order_owner ?g (b, x) = Some j \<Longrightarrow> j \<noteq> i \<and> gw_order_owner g (b, x) = Some j" for b x j
    using d(3) by (cases "cn_account_id (conn_of g i)")
      (auto simp: set_reader_def set_conn_def unbind_session_def Let_def owners_ok_def bound_def split: option.splits if_splits)
  have "conn_ok (conn_of g i)" using d(1) l by simp
  then have "\<forall>j < length (gw_connections ?g). conn_ok (conn_of ?g j)"
    using d(1) r by (auto simp: c f conn_ok_def queues_private_def wire_ok_def)
  moreover have "sessions_ok ?g" using d(2) unfolding sessions_ok_def s(2) b using s(1) by (auto simp: distinct_removeAll)
  moreover have "owners_ok ?g" using d(3) o unfolding owners_ok_def b by blast
  moreover have "pending_ok ?g" using d(4) unfolding pending_ok_def f b c by simp
  moreover have "submitted_ok ?g" using d(5) unfolding submitted_ok_def f c by auto
  ultimately show ?thesis by (simp add: gateway_ok_def)
qed

text \<open>The end of the stream: the session stops counting as open.\<close>

lemma read_bytes_ok:
  assumes ok: "gateway_ok g" and l: "i < length (gw_connections g)" and r: "cn_reader (conn_of g i) = Reading"
  shows "gateway_ok (read_bytes i chunk g)"
proof -
  note d = gateway_okD [OF ok]
  have o: "conn_ok (conn_of g i)" "\<not> cn_closed (conn_of g i)" using d(1) [OF l] r by (simp_all add: conn_ok_def)
  show ?thesis
  proof (cases "chunk = []")
    case False
    let ?c = "conn_of g i"
    have "?c\<lparr>cn_read_buffer := cn_read_buffer ?c @ chunk, cn_reader := Draining, cn_received := cn_received ?c @ chunk\<rparr> =
      ?c\<lparr>cn_read_buffer := cn_read_buffer ?c @ chunk, cn_reader := Draining, cn_received := cn_received ?c @ chunk,
        cn_requests := cn_requests ?c\<rparr>" by simp
    then show ?thesis
      using False reader_move_ok [OF ok l, where r = Draining and bs = "cn_read_buffer ?c @ chunk" and rs = "cn_received ?c @ chunk"
        and ms = "cn_requests ?c"] r o
      by (simp add: read_bytes_def Let_def)
  next
    case True
    let ?g = "read_bytes i chunk g"
    have f: "sessions_of ?g = sessions_of g" "gw_account_sessions ?g = gw_account_sessions g" "gw_order_owner ?g = gw_order_owner g"
      "gw_pending_reports ?g = gw_pending_reports g" "gw_options ?g = gw_options g" "gw_submitted ?g = gw_submitted g"
      "length (gw_connections ?g) = length (gw_connections g)" by (simp_all add: read_bytes_def Let_def)
    have c: "conn_of ?g j = (if j = i then (conn_of g i)\<lparr>cn_closed := True, cn_reader := Closing\<rparr> else conn_of g j)" for j
      using l True by (simp add: read_bytes_def)
    have b: "bound ?g b j \<longleftrightarrow> bound g b j" for b j using r by (auto simp: bound_def f c)
    have "\<forall>j < length (gw_connections ?g). conn_ok (conn_of ?g j)"
      using d(1) o by (auto simp: c f conn_ok_def queues_private_def wire_ok_def)
    moreover have "sessions_ok ?g" using d(2) unfolding sessions_ok_def f b .
    moreover have "owners_ok ?g" using d(3) unfolding owners_ok_def f b .
    moreover have "pending_ok ?g" using d(4) unfolding pending_ok_def f b c by auto
    moreover have "submitted_ok ?g" using d(5) unfolding submitted_ok_def f c by auto
    ultimately show ?thesis by (simp add: gateway_ok_def)
  qed
qed

lemma submit_ok:
  assumes ok: "gateway_ok g" and l: "i < length (gw_connections g)" and a: "cn_account_id (conn_of g i) = Some (command_account c)"
  shows "gateway_ok (g\<lparr>gw_submitted := gw_submitted g @ [(i, c)]\<rparr>)"
  using ok l a unfolding gateway_ok_def sessions_ok_def owners_ok_def pending_ok_def submitted_ok_def sessions_of_def bound_def
  by simp

lemma handle_request_ok:
  assumes ok: "gateway_ok g" and l: "i < length (gw_connections g)" and r: "cn_reader (conn_of g i) = Draining"
  shows "\<exists>g'. handle_request i m g = Some g' \<and> gateway_ok g' \<and> gw_options g' = gw_options g"
proof (cases "to_command m")
  case (Some c)
  note acc = command_account_of [OF Some]
  have o: "\<not> cn_closed (conn_of g i)" using gateway_okD(1) [OF ok l] r by (simp add: conn_ok_def)
  show ?thesis
  proof (cases "cn_account_id (conn_of g i)")
    case None
    let ?g = "bind_session i (message_account m) g"
    have "gateway_ok (set_reader i (Claiming (message_account m) m c) ?g)"
      using bind_ok [OF ok l None r, of "message_account m"] acc l o r by (intro set_reader_ok) (simp_all add: bind_session_eq set_conn_def)
    then show ?thesis using None Some l by (simp add: handle_request_def Let_def) (simp add: set_reader_def bind_session_eq)
  next
    case a: (Some b)
    have "gateway_ok (set_reader i (Claiming b m c) g)" if "b = message_account m"
      using that set_reader_ok [OF ok l] a acc o r by simp
    then show ?thesis using a Some mismatch_ok [OF ok l, of c] by (simp add: handle_request_def set_reader_def Let_def)
  qed
qed (use ok in \<open>simp add: handle_request_def\<close>)

lemma drain_ok:
  assumes ok: "gateway_ok g" and l: "i < length (gw_connections g)" and r: "cn_reader (conn_of g i) = Draining"
  shows "\<exists>g'. drain_step i g = Some g' \<and> gateway_ok g' \<and> gw_options g' = gw_options g"
proof -
  let ?c = "conn_of g i"
  have o: "\<not> cn_closed ?c" using gateway_okD(1) [OF ok l] r by (simp add: conn_ok_def)
  have upd: "gateway_ok (set_conn i (?c\<lparr>cn_read_buffer := bs, cn_requests := ms\<rparr>) g)" for bs ms
  proof -
    have e: "?c\<lparr>cn_read_buffer := bs, cn_requests := ms\<rparr> =
      ?c\<lparr>cn_read_buffer := bs, cn_reader := Draining, cn_received := cn_received ?c, cn_requests := ms\<rparr>" using r by simp
    show ?thesis unfolding e by (rule reader_move_ok [OF ok l]) (simp_all add: r o)
  qed
  show ?thesis
  proof (cases "next_frame (cn_read_buffer ?c)")
    case None
    then show ?thesis using set_reader_ok [OF ok l, of Reading] r o by (simp add: drain_step_def set_reader_def)
  next
    case (Some p)
    then obtain x rest where x: "next_frame (cn_read_buffer ?c) = Some (x, rest)" by (cases p) auto
    have drop: "gateway_ok (set_conn i (?c\<lparr>cn_read_buffer := rest\<rparr>) g)" using upd [of "cn_requests ?c" rest] by simp
    show ?thesis
    proof (cases x)
      case (Inl e)
      then show ?thesis using x drop by (simp add: drain_step_def)
    next
      case (Inr m)
      then show ?thesis using x handle_request_ok [OF upd [of "cn_requests ?c @ [m]" rest], of i m] l r
        by (simp add: drain_step_def Let_def)
    qed
  qed
qed

lemma reader_step_ok:
  assumes ok: "gateway_ok g" and l: "i < length (gw_connections g)"
  shows "\<exists>g'. reader_step i chunk g = Some g' \<and> gateway_ok g' \<and> gw_options g' = gw_options g"
proof (cases "cn_reader (conn_of g i)")
  case Reading
  then show ?thesis using read_bytes_ok [OF ok l] by (simp add: reader_step_def read_bytes_def Let_def)
next
  case Draining
  then show ?thesis using drain_ok [OF ok l] by (simp add: reader_step_def)
next
  case (Claiming a m c)
  have o: "\<not> cn_closed (conn_of g i)" "cn_account_id (conn_of g i) = Some a" "command_account c = a"
    using gateway_okD(1) [OF ok l] Claiming by (auto simp: conn_ok_def)
  define owners where "owners = gw_order_owner (claim_order_ownership i a m g)"
  have g': "claim_order_ownership i a m g = g\<lparr>gw_order_owner := owners\<rparr>"
    by (cases "claimed_key a m") (simp_all add: owners_def claim_order_ownership_def)
  have "gateway_ok (g\<lparr>gw_order_owner := owners\<rparr>)"
  proof (rule owners_ok_update [OF ok])
    fix b x j assume "owners (b, x) = Some j"
    then have "gw_order_owner g (b, x) = Some j \<or> b = a \<and> j = i"
      by (cases m) (auto simp: owners_def claim_order_ownership_def try_emplace_def split: if_splits)
    then show "bound g b j" using gateway_okD(3) [OF ok] o l Claiming by (auto simp: owners_ok_def bound_def)
  qed
  then have "gateway_ok (set_reader i (Submitting c) (claim_order_ownership i a m g))"
    unfolding g' using o l Claiming by (intro set_reader_ok) simp_all
  then show ?thesis using Claiming by (simp add: reader_step_def g' set_reader_def)
next
  case (Submitting c)
  have o: "\<not> cn_closed (conn_of g i)" "cn_account_id (conn_of g i) = Some (command_account c)"
    using gateway_okD(1) [OF ok l] Submitting by (simp_all add: conn_ok_def)
  have "gateway_ok (set_reader i Draining (g\<lparr>gw_submitted := gw_submitted g @ [(i, c)]\<rparr>))"
    using submit_ok [OF ok l o(2)] o l Submitting by (intro set_reader_ok) simp_all
  then show ?thesis using Submitting by (simp add: reader_step_def submit_command_def set_reader_def)
next
  case Closing
  have "gw_options (unbind_session i g) = gw_options g"
    by (auto simp: unbind_session_def Let_def split: option.splits)
  then show ?thesis using Closing unbind_ok [OF ok l Closing] by (simp add: reader_step_def submit_command_def set_reader_def)
next
  case ReaderDone
  then show ?thesis using ok by (simp add: reader_step_def)
qed

lemma gateway_act_ok:
  assumes ok: "gateway_ok g" and cap: "unat (go_outbound_queue_capacity (gw_options g)) \<le> 2 ^ 63"
  shows "\<exists>g'. gateway_act x g = Some g' \<and> gateway_ok g' \<and> gw_options g' = gw_options g"
proof (cases x)
  case Accept
  obtain g' where "accept_connection g = Some g'" "gateway_ok g'" using accept_ok [OF ok cap] by blast
  then show ?thesis using Accept by (auto simp: accept_connection_def split: if_splits bind_splits)
next
  case (Reader i chunk)
  then show ?thesis using ok reader_step_ok [OF ok] by simp
next
  case (Writer i n)
  show ?thesis
  proof (cases "i < length (gw_connections g)")
    case True
    obtain c where "writer_step n (gw_stop_requested g) (conn_of g i) = Some c" "conn_ok c" "same_role c (conn_of g i)"
      using writer_ok [OF gateway_okD(1) [OF ok True]] by blast
    then show ?thesis using Writer True gateway_ok_set_conn [OF ok True] by simp
  qed (use Writer ok in simp)
next
  case (Route L ev)
  then show ?thesis using route_event_ok [OF ok] by simp
next
  case Stop
  then show ?thesis using ok unfolding gateway_ok_def sessions_ok_def owners_ok_def pending_ok_def submitted_ok_def sessions_of_def bound_def
    by (simp add: stop_gateway_def)
qed

lemma new_gateway_ok: "gateway_ok (new_gateway options)"
  by (simp add: new_gateway_def gateway_ok_def maps_ok_defs bound_def)

lemma gateway_run_ok:
  assumes "gateway_ok g" "unat (go_outbound_queue_capacity (gw_options g)) \<le> 2 ^ 63"
  shows "\<exists>g'. gateway_run xs g = Some g' \<and> gateway_ok g' \<and> gw_options g' = gw_options g"
  using assms
proof (induction xs arbitrary: g)
  case (Cons x xs)
  then obtain g1 where "gateway_act x g = Some g1" "gateway_ok g1" "gw_options g1 = gw_options g" using gateway_act_ok by blast
  then show ?case using Cons.IH [of g1] Cons.prems(2) by simp
qed simp

subsection \<open>Properties\<close>

text \<open>
  C5. Sessions are well formed and private under every interleaving of the accept, reader, writer and
  matching threads. No action faults (no queue slot is touched in the wrong state). The routing maps hold only positions of
  existing connections: \<open>account_sessions_\<close> lists, without repetition, exactly the sessions bound to the account and not yet unbound,
  and every order's owner is such a session of the order's account. Retained reports are within the capacity and exist only while the account has
  no open session. Every report queued for or written to a session is of the account it bound to; the one exception is
  the gateway's own \<open>AccountMismatch\<close> answer. What a session hands to the matching pipeline acts for its account, and
  the bytes on its socket are the messages its writer took, in order and whole up to the last.
\<close>

theorem sessions_isolated:
  assumes "unat (go_outbound_queue_capacity options) \<le> 2 ^ 63"
  shows "\<exists>g. gateway_run acts (new_gateway options) = Some g \<and> gateway_ok g \<and>
    (\<forall>i < connection_count g. \<forall>m \<in> set (cn_sent (conn_of g i)). cn_account_id (conn_of g i) = Some (message_account m) \<or> is_mismatch m) \<and>
    (\<forall>(i, c) \<in> set (gw_submitted g). cn_account_id (conn_of g i) = Some (command_account c))"
proof -
  have "gw_options (new_gateway options) = options" by (simp add: new_gateway_def)
  then obtain g where g: "gateway_run acts (new_gateway options) = Some g" "gateway_ok g"
    using gateway_run_ok [OF new_gateway_ok, of options acts] assms by auto
  have "cn_account_id (conn_of g i) = Some (message_account m) \<or> is_mismatch m"
    if "i < length (gw_connections g)" "m \<in> set (cn_sent (conn_of g i))" for i m
    using gateway_okD(1) [OF g(2) that(1)] that(2) by (simp add: conn_ok_def queues_private_def)
  moreover have "\<forall>(i, c) \<in> set (gw_submitted g). cn_account_id (conn_of g i) = Some (command_account c)"
    using gateway_okD(5) [OF g(2)] by (auto simp: submitted_ok_def)
  ultimately show ?thesis using g by (simp add: connection_count_def)
qed

text \<open>
  A run used below: a report for account 7 is retained, the account's client connects, and its first request is read
  while its writer stands between looking at the backlog and looking at the reports.
\<close>

definition sample_options :: OrderEntryGatewayOptions where
  "sample_options = \<lparr>go_outbound_queue_capacity = 2, go_pending_report_capacity = 2\<rparr>"

definition sample_cancelled :: "u64 \<Rightarrow> ExchangeEvent" where
  "sample_cancelled x = OrderCancelled \<lparr>oc_event_sequence = x, oc_command_sequence = x, oc_account_id = 7,
     oc_client_order_id = x, oc_exchange_order_id = x, oc_instrument_id = 1\<rparr>"

definition sample_request :: Message where
  "sample_request = MsgCancelOrder \<lparr>ocn_account_id = 7, ocn_client_order_id = 3, ocn_instrument_id = 1\<rparr>"

definition overtaking_run :: "gateway_action list" where
  "overtaking_run = [Accept, Route empty_ledger (sample_cancelled 1), Writer 0 0, Writer 0 0, Writer 0 0,
     Reader 0 (encode_message sample_request []), Reader 0 [], Route empty_ledger (sample_cancelled 2),
     Writer 0 0, Writer 0 31, Writer 0 0, Writer 0 0, Writer 0 0]"

theorem sessions_isolated_witness:
  "\<exists>g. gateway_run overtaking_run (new_gateway sample_options) = Some g \<and> gateway_ok g \<and>
    (\<forall>i < connection_count g. \<forall>m \<in> set (cn_sent (conn_of g i)). cn_account_id (conn_of g i) = Some (message_account m) \<or> is_mismatch m)"
proof -
  have "unat (go_outbound_queue_capacity sample_options) \<le> 2 ^ 63" by (simp add: sample_options_def)
  from sessions_isolated [OF this, of overtaking_run] show ?thesis by blast
qed

text \<open>
  The comment at \<open>replay_backlog\<close> says that a retained report can never arrive after a live one. It can: the
  writer that has found the backlog empty goes on to the reports, and both the hand-over at binding and the next
  event may come in between. Here the report of the second event is sent before that of the first.
\<close>

theorem retained_report_can_follow_live_one:
  "map_option (\<lambda>g. cn_sent (conn_of g 0)) (gateway_run overtaking_run (new_gateway sample_options)) =
    Some (map snd (to_execution_reports (sample_cancelled 2) @ to_execution_reports (sample_cancelled 1)))"
  by code_simp

lemma stream_prefix:
  assumes "gateway_run acts (new_gateway options) = Some g" "i < connection_count g"
    and "cn_received (conn_of g i) @ bs = concat (map (\<lambda>m. encode_message m []) ms)"
  shows "\<exists>k. cn_requests (conn_of g i) = take k ms \<and> cn_account_id (conn_of g i) = session_account (take k ms) \<and>
    submitted_by g i @ in_hand (cn_reader (conn_of g i)) = own_commands (take k ms) \<and>
    (bs = [] \<longrightarrow> cn_reader (conn_of g i) = Reading \<longrightarrow> take k ms = ms)"
proof -
  let ?c = "conn_of g i"
  have h: "history_ok g i"
    using run_histories [OF assms(1) new_histories] assms(2) by (auto simp: histories_ok_def connection_count_def)
  then have d: "drain_frames (cn_received ?c) = (cn_requests ?c @ fst (drain_frames (cn_read_buffer ?c)), snd (drain_frames (cn_read_buffer ?c)))"
    by (simp add: history_ok_def stream_ok_def)
  have whole: "fst (drain_frames (cn_received ?c @ bs)) = ms" by (simp add: assms(3) drain_frames_messages)
  then obtain ns where ms: "ms = cn_requests ?c @ ns"
    using d drain_frames_append [of "cn_received ?c" bs] by (auto split: prod.splits)
  have "ns = []" if "bs = []" "cn_reader ?c = Reading"
  proof -
    have "drain_frames (cn_read_buffer ?c) = ([], cn_read_buffer ?c)"
      using h that(2) drain_frames.simps [of "cn_read_buffer ?c"] by (simp add: history_ok_def stream_ok_def)
    then show ?thesis using d whole ms that(1) by simp
  qed
  then show ?thesis using h ms by (intro exI [of _ "length (cn_requests ?c)"]) (simp add: history_ok_def stream_ok_def)
qed

text \<open>
  C22. What a session does is a function of the bytes its client wrote. However the network cuts the stream and
  however the threads interleave: when the bytes received so far are the beginning of the encodings of the messages
  \<open>ms\<close>, the messages decoded are a prefix of \<open>ms\<close>; the session is bound to the account of the first request among them,
  and the commands it has handed over, with the one in hand, are exactly that account's requests, in
  order. Once everything has arrived and the reader is back at \<open>read\<close>, the prefix is all of \<open>ms\<close>.
\<close>

theorem session_follows_its_stream:
  assumes "gateway_run acts (new_gateway options) = Some g" "i < connection_count g"
    and "cn_received (conn_of g i) @ bs = concat (map (\<lambda>m. encode_message m []) ms)"
  shows "\<exists>k. cn_requests (conn_of g i) = take k ms \<and> cn_account_id (conn_of g i) = session_account (take k ms) \<and>
    submitted_by g i @ in_hand (cn_reader (conn_of g i)) = own_commands (take k ms) \<and>
    (bs = [] \<longrightarrow> cn_reader (conn_of g i) = Reading \<longrightarrow> take k ms = ms)"
  using stream_prefix [OF assms] .

text \<open>One request in two pieces.\<close>

definition split_run :: "gateway_action list" where
  "split_run = [Accept, Reader 0 (take 10 (encode_message sample_request [])), Reader 0 [],
     Reader 0 (drop 10 (encode_message sample_request [])), Reader 0 [], Reader 0 [], Reader 0 [], Reader 0 []]"

lemma split_run_ends:
  "map_option (\<lambda>g. (cn_received (conn_of g 0), connection_count g, cn_reader (conn_of g 0))) (gateway_run split_run (new_gateway sample_options)) =
    Some (encode_message sample_request [], 1, Reading)"
  by code_simp

theorem session_follows_its_stream_witness:
  "\<exists>g. gateway_run split_run (new_gateway sample_options) = Some g \<and> cn_account_id (conn_of g 0) = Some 7 \<and>
    submitted_by g 0 = [the (to_command sample_request)]"
proof -
  obtain g where g: "gateway_run split_run (new_gateway sample_options) = Some g" "cn_received (conn_of g 0) = encode_message sample_request []"
    "connection_count g = 1" "cn_reader (conn_of g 0) = Reading" using split_run_ends by auto
  have "cn_received (conn_of g 0) @ [] = concat (map (\<lambda>m. encode_message m []) [sample_request])" using g(2) by simp
  from session_follows_its_stream [OF g(1) _ this] g(3,4)
  have "cn_account_id (conn_of g 0) = session_account [sample_request]" "submitted_by g 0 = own_commands [sample_request]"
    by (auto simp: in_hand_def)
  then show ?thesis using g(1) by (auto simp: session_account_def own_commands_def List.map_filter_def sample_request_def)
qed

text \<open>
  A client whose stream ever shows an unknown type byte where a frame should start is never answered again: nothing after it is decoded,
  nothing is submitted, the connection stays open and the buffer only grows.
\<close>

theorem unknown_type_stalls_session:
  assumes "stalled (conn_of g i)" "i < connection_count g" "gateway_run acts g = Some g'"
  shows "cn_requests (conn_of g' i) = cn_requests (conn_of g i) \<and> submitted_by g' i = submitted_by g i \<and>
    length (cn_read_buffer (conn_of g i)) \<le> length (cn_read_buffer (conn_of g' i)) \<and> stalled (conn_of g' i)"
  using run_stalled [OF assms(1) _ assms(3)] assms(2) by (simp add: connection_count_def)

lemma unknown_type_stalls_session_witness:
  "\<exists>g. gateway_run [Accept, Reader 0 [255, 0, 0]] (new_gateway sample_options) = Some g \<and> connection_count g = 1 \<and> stalled (conn_of g 0) \<and>
    (\<forall>acts g'. gateway_run acts g = Some g' \<longrightarrow> submitted_by g' 0 = [])"
proof -
  have "map_option (\<lambda>g. (connection_count g, stalled (conn_of g 0), submitted_by g 0))
      (gateway_run [Accept, Reader 0 [255, 0, 0]] (new_gateway sample_options)) = Some (1, True, [])" by code_simp
  then obtain g where g: "gateway_run [Accept, Reader 0 [255, 0, 0]] (new_gateway sample_options) = Some g" "connection_count g = 1"
    "stalled (conn_of g 0)" "submitted_by g 0 = []" by auto
  then have "submitted_by g' 0 = []" if "gateway_run acts g = Some g'" for acts g'
    using unknown_type_stalls_session [OF g(3) _ that] by simp
  then show ?thesis using g by blast
qed

end
