(* ===== verification/Order_Entry_Client.thy ===== *)
theory Order_Entry_Client
  imports Gateway_Properties
begin

text \<open>
  The trader's end of an order-entry connection (\<open>trader/oms/order_entry_client.cpp\<close>): sending whole
  messages through a socket that takes a few bytes at a time, and the reader thread that cuts the bytes
  of the exchange into messages for its sink. The answers of the socket are arguments.
\<close>

subsection \<open>The client\<close>

text \<open>\<open>oec_sunk\<close> is history: the messages the sink has received.\<close>

record OrderEntryClient =
  oec_connected :: bool
  oec_read_buffer :: "byte list"
  oec_sunk :: "Message list"

definition new_client :: OrderEntryClient where
  "new_client = \<lparr>oec_connected = False, oec_read_buffer = [], oec_sunk = []\<rparr>"

text \<open>\<open>connected\<close> is the answer of the socket.\<close>

definition client_connect :: "bool \<Rightarrow> OrderEntryClient \<Rightarrow> OrderEntryClient \<times> bool" where
  "client_connect connected c = (if \<not> connected then (c, False) else (c\<lparr>oec_connected := True\<rparr>, True))"

text \<open>
  The write loop of \<open>send\<close>: the bytes the socket took and the result, given what its successive calls of \<open>write\<close> return; 0 stands
  for an error, as does a call after the last answer.
\<close>

fun write_all :: "nat list \<Rightarrow> byte list \<Rightarrow> byte list \<times> bool" where
  "write_all ns [] = ([], True)"
| "write_all [] buf = ([], False)"
| "write_all (n # ns) buf = (if n = 0 then ([], False)
     else let (taken, ok) = write_all ns (drop n buf) in (take n buf @ taken, ok))"

definition client_send :: "nat list \<Rightarrow> Message \<Rightarrow> byte list \<times> bool" where
  "client_send ns message = write_all ns (encode_message message [])"

text \<open>One turn of \<open>reader_loop\<close>: every complete frame goes to the sink, a malformed one is dropped.\<close>

function client_drain :: "OrderEntryClient \<Rightarrow> OrderEntryClient" where
  "client_drain c = (case next_frame (oec_read_buffer c) of
     None \<Rightarrow> c
   | Some (result, rest) \<Rightarrow>
       let c = c\<lparr>oec_read_buffer := rest\<rparr> in
       client_drain (case result of Inl e \<Rightarrow> c | Inr message \<Rightarrow> c\<lparr>oec_sunk := oec_sunk c @ [message]\<rparr>))"
  by pat_completeness auto

termination
  by (relation "measure (\<lambda>c. length (oec_read_buffer c))") (auto dest: next_frame_shorter split: sum.splits)

declare client_drain.simps [simp del]

definition client_read :: "byte list \<Rightarrow> OrderEntryClient \<Rightarrow> OrderEntryClient" where
  "client_read chunk c = (if chunk = [] then c\<lparr>oec_connected := False\<rparr>
     else client_drain (c\<lparr>oec_read_buffer := oec_read_buffer c @ chunk\<rparr>))"

subsection \<open>What gets through\<close>

lemma write_all_prefix: "\<exists>rest. buf = fst (write_all ns buf) @ rest \<and> (snd (write_all ns buf) \<longrightarrow> rest = [])"
proof (induction ns buf rule: write_all.induct)
  case (3 n ns b bs)
  then show ?case
  proof (cases "n = 0")
    case False
    then obtain rest where "drop n (b # bs) = fst (write_all ns (drop n (b # bs))) @ rest"
      "snd (write_all ns (drop n (b # bs))) \<longrightarrow> rest = []" using 3 by blast
    then show ?thesis using False append_take_drop_id [of n "b # bs"]
      by (auto split: prod.splits simp del: append_take_drop_id intro!: exI [of _ rest])
  qed simp
qed simp_all

lemma client_drain_eq:
  "client_drain c = c\<lparr>oec_read_buffer := snd (drain_frames (oec_read_buffer c)),
     oec_sunk := oec_sunk c @ fst (drain_frames (oec_read_buffer c))\<rparr>"
proof (induction c rule: client_drain.induct)
  case (1 c)
  show ?case
  proof (cases "next_frame (oec_read_buffer c)")
    case None
    then show ?thesis by (simp add: client_drain.simps [of c] drain_frames.simps [of "oec_read_buffer c"])
  next
    case (Some p)
    then obtain r rest where p: "next_frame (oec_read_buffer c) = Some (r, rest)" by (cases p) auto
    show ?thesis using 1 [OF p refl refl] p
      by (cases r) (simp_all add: client_drain.simps [of c] drain_frames.simps [of "oec_read_buffer c"] split: prod.splits)
  qed
qed

definition client_run :: "byte list list \<Rightarrow> OrderEntryClient \<Rightarrow> OrderEntryClient" where
  "client_run chunks c = fold client_read chunks c"

lemma client_run_eq:
  "drain_frames bs = (oec_sunk c, oec_read_buffer c) \<Longrightarrow> drain_frames (bs @ concat chunks) =
    (oec_sunk (client_run chunks c), oec_read_buffer (client_run chunks c))"
proof (induction chunks arbitrary: bs c)
  case Nil
  then show ?case by (simp add: client_run_def)
next
  case (Cons ch chunks)
  have "drain_frames (bs @ ch) = (oec_sunk (client_read ch c), oec_read_buffer (client_read ch c))"
    using Cons.prems drain_frames_append [of bs ch] by (auto simp: client_read_def client_drain_eq split: prod.splits)
  then show ?case using Cons.IH [of "bs @ ch" "client_read ch c"] by (simp add: client_run_def)
qed

text \<open>
  C15. The connection loses and invents nothing in either direction. What the trader's sink receives, however the
  network cuts the gateway's bytes, is a prefix of the messages the session's writer took, and all of them once the
  bytes have arrived and the writer is at rest. In the other direction, when every \<open>send\<close> succeeds, whatever the socket
  takes per call, the gateway's reader decodes a prefix of the messages sent, and all of them once it waits for more.
\<close>

theorem connection_carries_messages:
  assumes "unat (go_outbound_queue_capacity options) \<le> 2 ^ 63"
    and "gateway_run acts (new_gateway options) = Some g" "i < connection_count g"
    and "concat chunks @ bs = cn_wire (conn_of g i)"
    and "\<forall>(ns, m) \<in> set sends. snd (client_send ns m)"
    and "cn_received (conn_of g i) @ cs = concat (map (\<lambda>(ns, m). fst (client_send ns m)) sends)"
  shows "(\<exists>k. oec_sunk (client_run chunks new_client) = take k (cn_sent (conn_of g i)) \<and>
      (bs = [] \<longrightarrow> cn_writer (conn_of g i) \<in> {LoopTest, AtBacklog, AtReplies, AtReports} \<longrightarrow> take k (cn_sent (conn_of g i)) = cn_sent (conn_of g i))) \<and>
    (\<exists>k. cn_requests (conn_of g i) = take k (map snd sends) \<and>
      (cs = [] \<longrightarrow> cn_reader (conn_of g i) = Reading \<longrightarrow> take k (map snd sends) = map snd sends))"
proof
  let ?c = "conn_of g i"
  have "gw_options (new_gateway options) = options" by (simp add: new_gateway_def)
  then have ok: "gateway_ok g" using gateway_run_ok [OF new_gateway_ok, of options acts] assms(1,2) by simp
  then obtain rest where rest: "cn_wire ?c @ rest = concat (map (\<lambda>m. encode_message m []) (cn_sent ?c))"
    "cn_writer ?c \<noteq> WriterDone \<longrightarrow> rest = unwritten (cn_writer ?c)"
    using gateway_okD(1) [OF ok] assms(3) by (auto simp: conn_ok_def wire_ok_def connection_count_def)
  have d: "drain_frames ([] @ concat chunks) = (oec_sunk (client_run chunks new_client), oec_read_buffer (client_run chunks new_client))"
    by (rule client_run_eq) (simp add: new_client_def drain_frames.simps [of "[]"] next_frame_def oe_decode_header_short)
  have e: "fst (drain_frames (([] @ concat chunks) @ bs @ rest)) = cn_sent ?c"
    using drain_frames_messages [of "cn_sent ?c"] rest(1) assms(4) by (metis append.assoc append_Nil fst_conv)
  obtain ns where ns: "cn_sent ?c = oec_sunk (client_run chunks new_client) @ ns" "bs @ rest = [] \<Longrightarrow> ns = []"
    using drain_frames_prefix [OF e d] by metis
  show "\<exists>k. oec_sunk (client_run chunks new_client) = take k (cn_sent ?c) \<and>
      (bs = [] \<longrightarrow> cn_writer ?c \<in> {LoopTest, AtBacklog, AtReplies, AtReports} \<longrightarrow> take k (cn_sent ?c) = cn_sent ?c)"
    using ns rest(2) by (intro exI [of _ "length (oec_sunk (client_run chunks new_client))"]) (auto simp: unwritten_def)
  have "fst (client_send ns m) = encode_message m []" if "(ns, m) \<in> set sends" for ns m
    using write_all_prefix [of "encode_message m []" ns] assms(5) that by (auto simp: client_send_def)
  then have "concat (map (\<lambda>(ns, m). fst (client_send ns m)) sends) = concat (map (\<lambda>m. encode_message m []) (map snd sends))"
    by (intro arg_cong [where f = concat]) auto
  then show "\<exists>k. cn_requests ?c = take k (map snd sends) \<and>
      (cs = [] \<longrightarrow> cn_reader ?c = Reading \<longrightarrow> take k (map snd sends) = map snd sends)"
    using stream_prefix [OF assms(2,3), of cs "map snd sends"] assms(6) by auto
qed

theorem connection_carries_messages_witness:
  "\<exists>g. gateway_run split_run (new_gateway sample_options) = Some g \<and> (\<exists>k. cn_requests (conn_of g 0) = take k [sample_request])"
proof -
  obtain g where g: "gateway_run split_run (new_gateway sample_options) = Some g" "cn_received (conn_of g 0) = encode_message sample_request []"
    "connection_count g = 1" using split_run_ends by auto
  have s: "client_send [5, 100] sample_request = (encode_message sample_request [], True)" by code_simp
  have c: "unat (go_outbound_queue_capacity sample_options) \<le> 2 ^ 63" by (simp add: sample_options_def)
  have "concat [] @ cn_wire (conn_of g 0) = cn_wire (conn_of g 0)" by simp
  from connection_carries_messages [OF c g(1) _ this, of "[([5, 100], sample_request)]" "[]"] g s show ?thesis by auto
qed

end
