(* ===== verification/Trader_Oms.thy ===== *)
theory Trader_Oms
  imports Order_Entry_Protocol Ledger
begin

text \<open>
  The trader's side (\<open>trader/oms/\<close>, \<open>trader/positions/\<close>, \<open>trader/risk/\<close>): the order management system,
  the position tracker, the trader's own risk check, and the gated system that composes the three.
  The sender is a parameter that answers whether a message went out. Each block that the code runs
  under its mutex is one definition, so that the blocks of different threads can be interleaved;
  the calls compose them. What a call tells its update sink and its fill sink is returned.
\<close>

subsection \<open>Orders as the trader sees them\<close>

datatype ClientOrderState = PendingNew | Live | PartiallyFilled | Filled | StRejected | StCancelled | StReplaced

datatype PendingAction = NoAction | PendingCancel | PendingReplace

record ClientOrder =
  cl_account_id :: AccountId
  cl_client_order_id :: ClientOrderId
  cl_exchange_order_id :: "ExchangeOrderId option"
  cl_instrument_id :: InstrumentId
  cl_side :: Side
  cl_price :: Price
  cl_quantity :: Quantity
  cl_remaining_quantity :: Quantity
  cl_order_type :: OrderType
  cl_time_in_force :: TimeInForce
  cl_state :: ClientOrderState
  cl_pending_action :: PendingAction
  cl_last_reject_reason :: RejectReason

record Fill =
  fl_account_id :: AccountId
  fl_client_order_id :: ClientOrderId
  fl_instrument_id :: InstrumentId
  fl_side :: Side
  fl_price :: Price
  fl_quantity :: Quantity

datatype oms_output = Updated ClientOrder | Filling Fill

record OrderManagementSystem =
  om_account_id :: AccountId
  om_next_client_order_id :: ClientOrderId
  om_orders :: "ClientOrderId \<rightharpoonup> ClientOrder"

definition new_oms :: "AccountId \<Rightarrow> OrderManagementSystem" where
  "new_oms account_id = \<lparr>om_account_id = account_id, om_next_client_order_id = 1, om_orders = Map.empty\<rparr>"

definition is_live :: "ClientOrderState \<Rightarrow> bool" where
  "is_live state \<longleftrightarrow> state = Live \<or> state = PartiallyFilled"

subsection \<open>The order management system\<close>

text \<open>\<open>emplace\<close> keeps an entry that is already there.\<close>

definition emplace :: "'k \<Rightarrow> 'v \<Rightarrow> ('k \<rightharpoonup> 'v) \<Rightarrow> ('k \<rightharpoonup> 'v)" where
  "emplace k v m = (case m k of None \<Rightarrow> m(k \<mapsto> v) | Some _ \<Rightarrow> m)"

text \<open>Writing back an order that was found under its id.\<close>

definition edit_order :: "ClientOrderId \<Rightarrow> (ClientOrder \<Rightarrow> ClientOrder) \<Rightarrow> OrderManagementSystem \<Rightarrow> OrderManagementSystem" where
  "edit_order x f oms = (case om_orders oms x of
     None \<Rightarrow> oms
   | Some ord \<Rightarrow> oms\<lparr>om_orders := (om_orders oms)(x \<mapsto> f ord)\<rparr>)"

definition updated_order :: "ClientOrderId \<Rightarrow> OrderManagementSystem \<Rightarrow> oms_output list" where
  "updated_order x oms = (case om_orders oms x of None \<Rightarrow> [] | Some ord \<Rightarrow> [Updated ord])"

definition register_new ::
  "InstrumentId \<Rightarrow> Side \<Rightarrow> Price \<Rightarrow> Quantity \<Rightarrow> OrderType \<Rightarrow> TimeInForce \<Rightarrow> OrderManagementSystem \<Rightarrow>
   OrderManagementSystem \<times> ClientOrderId \<times> Message" where
  "register_new instrument_id sd price quantity order_type tif oms = (let n = om_next_client_order_id oms in
     (oms\<lparr>om_next_client_order_id := n + 1, om_orders := emplace n
        \<lparr>cl_account_id = om_account_id oms, cl_client_order_id = n, cl_exchange_order_id = None, cl_instrument_id = instrument_id,
         cl_side = sd, cl_price = price, cl_quantity = quantity, cl_remaining_quantity = quantity, cl_order_type = order_type,
         cl_time_in_force = tif, cl_state = PendingNew, cl_pending_action = NoAction, cl_last_reject_reason = NoReason\<rparr> (om_orders oms)\<rparr>,
      n, MsgNewOrder \<lparr>on_account_id = om_account_id oms, on_client_order_id = n, on_instrument_id = instrument_id, on_side = sd,
         on_price = price, on_quantity = quantity, on_order_type = order_type, on_time_in_force = tif\<rparr>))"

definition mark_send_failed :: "ClientOrderId \<Rightarrow> OrderManagementSystem \<Rightarrow> OrderManagementSystem \<times> oms_output list" where
  "mark_send_failed x oms = (let oms1 = edit_order x (\<lambda>ord. ord\<lparr>cl_state := StRejected, cl_pending_action := NoAction,
     cl_last_reject_reason := InternalError\<rparr>) oms in (oms1, updated_order x oms1))"

definition submit_new_order ::
  "(Message \<Rightarrow> bool) \<Rightarrow> InstrumentId \<Rightarrow> Side \<Rightarrow> Price \<Rightarrow> Quantity \<Rightarrow> OrderType \<Rightarrow> TimeInForce \<Rightarrow> OrderManagementSystem \<Rightarrow>
   OrderManagementSystem \<times> ClientOrderId \<times> oms_output list" where
  "submit_new_order sender instrument_id sd price quantity order_type tif oms =
     (let (oms1, n, wire_message) = register_new instrument_id sd price quantity order_type tif oms in
      if \<not> sender wire_message then let (oms2, outs) = mark_send_failed n oms1 in (oms2, n, outs)
      else (oms1, n, []))"

text \<open>The first block of \<open>cancel_order\<close> and of \<open>replace_order\<close>: \<open>None\<close> is the early return.\<close>

definition can_request :: "ClientOrder \<Rightarrow> bool" where
  "can_request ord \<longleftrightarrow> is_live (cl_state ord) \<and> cl_pending_action ord = NoAction"

definition begin_cancel :: "ClientOrderId \<Rightarrow> OrderManagementSystem \<Rightarrow> (OrderManagementSystem \<times> Message) option" where
  "begin_cancel x oms = (case om_orders oms x of
     None \<Rightarrow> None
   | Some ord \<Rightarrow> if \<not> can_request ord then None
       else Some (oms\<lparr>om_orders := (om_orders oms)(x \<mapsto> ord\<lparr>cl_pending_action := PendingCancel\<rparr>)\<rparr>,
         MsgCancelOrder \<lparr>ocn_account_id = om_account_id oms, ocn_client_order_id = x, ocn_instrument_id = cl_instrument_id ord\<rparr>))"

definition clear_pending_action :: "ClientOrderId \<Rightarrow> OrderManagementSystem \<Rightarrow> OrderManagementSystem" where
  "clear_pending_action x oms = edit_order x (\<lambda>ord. ord\<lparr>cl_pending_action := NoAction\<rparr>) oms"

definition cancel_order :: "(Message \<Rightarrow> bool) \<Rightarrow> ClientOrderId \<Rightarrow> OrderManagementSystem \<Rightarrow> OrderManagementSystem \<times> bool" where
  "cancel_order sender x oms = (case begin_cancel x oms of
     None \<Rightarrow> (oms, False)
   | Some (oms1, wire_message) \<Rightarrow>
       if \<not> sender wire_message then (clear_pending_action x oms1, False) else (oms1, True))"

definition begin_replace ::
  "ClientOrderId \<Rightarrow> Price \<Rightarrow> Quantity \<Rightarrow> OrderManagementSystem \<Rightarrow> (OrderManagementSystem \<times> ClientOrderId \<times> Message) option" where
  "begin_replace x new_price new_quantity oms = (case om_orders oms x of
     None \<Rightarrow> None
   | Some ord \<Rightarrow> if \<not> can_request ord then None
       else let n = om_next_client_order_id oms;
         orders = emplace n
           \<lparr>cl_account_id = om_account_id oms, cl_client_order_id = n, cl_exchange_order_id = None,
            cl_instrument_id = cl_instrument_id ord, cl_side = cl_side ord, cl_price = new_price, cl_quantity = new_quantity,
            cl_remaining_quantity = new_quantity, cl_order_type = cl_order_type ord, cl_time_in_force = cl_time_in_force ord,
            cl_state = PendingNew, cl_pending_action = NoAction, cl_last_reject_reason = NoReason\<rparr>
           ((om_orders oms)(x \<mapsto> ord\<lparr>cl_pending_action := PendingReplace\<rparr>))
       in Some (oms\<lparr>om_next_client_order_id := n + 1, om_orders := orders\<rparr>, n,
         MsgReplaceOrder \<lparr>orp_account_id = om_account_id oms, orp_original_client_order_id = x, orp_new_client_order_id = n,
           orp_instrument_id = cl_instrument_id ord, orp_new_price = new_price, orp_new_quantity = new_quantity\<rparr>))"

definition abort_replace :: "ClientOrderId \<Rightarrow> ClientOrderId \<Rightarrow> OrderManagementSystem \<Rightarrow> OrderManagementSystem" where
  "abort_replace x n oms = clear_pending_action x (oms\<lparr>om_orders := (om_orders oms)(n := None)\<rparr>)"

definition replace_order :: "(Message \<Rightarrow> bool) \<Rightarrow> ClientOrderId \<Rightarrow> Price \<Rightarrow> Quantity \<Rightarrow> OrderManagementSystem \<Rightarrow>
   OrderManagementSystem \<times> ClientOrderId option" where
  "replace_order sender x new_price new_quantity oms = (case begin_replace x new_price new_quantity oms of
     None \<Rightarrow> (oms, None)
   | Some (oms1, n, wire_message) \<Rightarrow>
       if \<not> sender wire_message then (abort_replace x n oms1, None) else (oms1, Some n))"

text \<open>The answers of the exchange.\<close>

definition on_accepted :: "OeAccepted \<Rightarrow> OrderManagementSystem \<Rightarrow> OrderManagementSystem \<times> oms_output list" where
  "on_accepted event oms = (let x = oac_client_order_id event;
     oms1 = edit_order x (\<lambda>ord. ord\<lparr>cl_exchange_order_id := Some (oac_exchange_order_id event), cl_state := Live,
       cl_quantity := oac_quantity event, cl_remaining_quantity := oac_quantity event\<rparr>) oms
   in (oms1, updated_order x oms1))"

definition on_rejected :: "OeRejected \<Rightarrow> OrderManagementSystem \<Rightarrow> OrderManagementSystem \<times> oms_output list" where
  "on_rejected event oms = (let x = orj_client_order_id event;
     oms1 = edit_order x (\<lambda>ord. ord\<lparr>cl_state := (if cl_state ord = PendingNew then StRejected else cl_state ord),
       cl_pending_action := NoAction, cl_last_reject_reason := orj_reason event\<rparr>) oms
   in (oms1, updated_order x oms1))"

definition on_cancelled :: "OeCancelled \<Rightarrow> OrderManagementSystem \<Rightarrow> OrderManagementSystem \<times> oms_output list" where
  "on_cancelled event oms = (let x = oca_client_order_id event;
     oms1 = edit_order x (\<lambda>ord. ord\<lparr>cl_state := StCancelled, cl_pending_action := NoAction\<rparr>) oms
   in (oms1, updated_order x oms1))"

definition on_replaced :: "OeReplaced \<Rightarrow> OrderManagementSystem \<Rightarrow> OrderManagementSystem \<times> oms_output list" where
  "on_replaced event oms = (let x = ord_original_client_order_id event; n = ord_new_client_order_id event;
     oms1 = edit_order x (\<lambda>ord. ord\<lparr>cl_state := StReplaced, cl_pending_action := NoAction\<rparr>) oms;
     oms2 = edit_order n (\<lambda>ord. ord\<lparr>cl_state := Live, cl_exchange_order_id := Some (ord_exchange_order_id event),
       cl_price := ord_new_price event, cl_quantity := ord_new_quantity event,
       cl_remaining_quantity := ord_new_quantity event\<rparr>) oms1
   in (oms2, updated_order x oms1 @ updated_order n oms2))"

definition on_trade_report :: "OeTradeReport \<Rightarrow> OrderManagementSystem \<Rightarrow> OrderManagementSystem \<times> oms_output list" where
  "on_trade_report event oms = (let x = otr_client_order_id event in
     case om_orders oms x of
       None \<Rightarrow> (oms, [])
     | Some ord \<Rightarrow> let ord1 = ord\<lparr>cl_remaining_quantity := otr_remaining_quantity event,
           cl_state := (if otr_remaining_quantity event = 0 then Filled else PartiallyFilled)\<rparr>
         in (oms\<lparr>om_orders := (om_orders oms)(x \<mapsto> ord1)\<rparr>,
             [Updated ord1, Filling \<lparr>fl_account_id = om_account_id oms, fl_client_order_id = x,
               fl_instrument_id = otr_instrument_id event, fl_side = cl_side ord, fl_price = otr_price event,
               fl_quantity = otr_quantity event\<rparr>]))"

fun handle_message :: "Message \<Rightarrow> OrderManagementSystem \<Rightarrow> OrderManagementSystem \<times> oms_output list" where
  "handle_message (MsgAccepted event) oms = on_accepted event oms"
| "handle_message (MsgRejected event) oms = on_rejected event oms"
| "handle_message (MsgCancelled event) oms = on_cancelled event oms"
| "handle_message (MsgReplaced event) oms = on_replaced event oms"
| "handle_message (MsgTradeReport event) oms = on_trade_report event oms"
| "handle_message (MsgNewOrder _) oms = (oms, [])"
| "handle_message (MsgCancelOrder _) oms = (oms, [])"
| "handle_message (MsgReplaceOrder _) oms = (oms, [])"

definition order_of :: "ClientOrderId \<Rightarrow> OrderManagementSystem \<Rightarrow> ClientOrder option" where
  "order_of x oms = om_orders oms x"

subsection \<open>The position tracker\<close>

record AccountPosition =
  ap_cash :: Balance
  ap_holdings :: "InstrumentId \<rightharpoonup> Quantity"

type_synonym PositionTracker = "AccountId \<rightharpoonup> AccountPosition"

definition account_position :: "PositionTracker \<Rightarrow> AccountId \<Rightarrow> AccountPosition" where
  "account_position t a = (case t a of None \<Rightarrow> \<lparr>ap_cash = 0, ap_holdings = Map.empty\<rparr> | Some p \<Rightarrow> p)"

definition pt_deposit_cash :: "AccountId \<Rightarrow> Balance \<Rightarrow> PositionTracker \<Rightarrow> PositionTracker" where
  "pt_deposit_cash a amount t = (let p = account_position t a in t(a \<mapsto> p\<lparr>ap_cash := ap_cash p + amount\<rparr>))"

definition pt_deposit_position :: "AccountId \<Rightarrow> InstrumentId \<Rightarrow> Quantity \<Rightarrow> PositionTracker \<Rightarrow> PositionTracker" where
  "pt_deposit_position a i amount t = (let p = account_position t a in
     t(a \<mapsto> p\<lparr>ap_holdings := (ap_holdings p)(i \<mapsto> map_at (ap_holdings p) i + amount)\<rparr>))"

definition pt_apply :: "Fill \<Rightarrow> PositionTracker \<Rightarrow> PositionTracker" where
  "pt_apply fill t = (let p = account_position t (fl_account_id fill); i = fl_instrument_id fill;
     n = notional (fl_quantity fill) (fl_price fill)
   in t(fl_account_id fill \<mapsto>
     (if fl_side fill = Buy
      then p\<lparr>ap_cash := ap_cash p - n, ap_holdings := (ap_holdings p)(i \<mapsto> map_at (ap_holdings p) i + fl_quantity fill)\<rparr>
      else p\<lparr>ap_cash := ap_cash p + n, ap_holdings := (ap_holdings p)(i \<mapsto> map_at (ap_holdings p) i - fl_quantity fill)\<rparr>)))"

definition pt_cash :: "PositionTracker \<Rightarrow> AccountId \<Rightarrow> Balance" where
  "pt_cash t a = (case t a of None \<Rightarrow> 0 | Some p \<Rightarrow> ap_cash p)"

definition pt_position :: "PositionTracker \<Rightarrow> AccountId \<Rightarrow> InstrumentId \<Rightarrow> Quantity" where
  "pt_position t a i = (case t a of None \<Rightarrow> 0 | Some p \<Rightarrow> map_at (ap_holdings p) i)"

subsection \<open>The trader's risk check and the gated system\<close>

record TraderRiskLimits =
  tl_max_order_quantity :: Quantity

definition default_trader_limits :: TraderRiskLimits where
  "default_trader_limits = \<lparr>tl_max_order_quantity = 1000000\<rparr>"

definition trader_check :: "TraderRiskLimits \<Rightarrow> AccountId \<Rightarrow> InstrumentId \<Rightarrow> Side \<Rightarrow> Price \<Rightarrow> Quantity \<Rightarrow> PositionTracker \<Rightarrow> RejectReason" where
  "trader_check limits account_id instrument_id sd price quantity positions =
     (if quantity > tl_max_order_quantity limits then OrderTooLarge
      else if sd = Buy then
        (if pt_cash positions account_id < notional quantity price then InsufficientFunds else NoReason)
      else if pt_position positions account_id instrument_id < quantity then InsufficientPosition else NoReason)"

record TraderRiskGatedOms =
  tg_account_id :: AccountId
  tg_limits :: TraderRiskLimits
  tg_positions :: PositionTracker
  tg_oms :: OrderManagementSystem

definition new_gated_oms :: "AccountId \<Rightarrow> TraderRiskLimits \<Rightarrow> TraderRiskGatedOms" where
  "new_gated_oms account_id limits = \<lparr>tg_account_id = account_id, tg_limits = limits, tg_positions = Map.empty, tg_oms = new_oms account_id\<rparr>"

record SubmitOutcome =
  so_client_order_id :: "ClientOrderId option"
  so_local_reject_reason :: RejectReason

text \<open>The fill sink of the order management system is the tracker's \<open>apply\<close>.\<close>

fun settle_outputs :: "oms_output list \<Rightarrow> PositionTracker \<Rightarrow> PositionTracker" where
  "settle_outputs [] t = t"
| "settle_outputs (Updated _ # outs) t = settle_outputs outs t"
| "settle_outputs (Filling fill # outs) t = settle_outputs outs (pt_apply fill t)"

definition tg_submit_new_order ::
  "(Message \<Rightarrow> bool) \<Rightarrow> InstrumentId \<Rightarrow> Side \<Rightarrow> Price \<Rightarrow> Quantity \<Rightarrow> OrderType \<Rightarrow> TimeInForce \<Rightarrow> TraderRiskGatedOms \<Rightarrow>
   TraderRiskGatedOms \<times> SubmitOutcome" where
  "tg_submit_new_order sender instrument_id sd price quantity order_type tif g =
     (let reason = trader_check (tg_limits g) (tg_account_id g) instrument_id sd price quantity (tg_positions g) in
      if reason \<noteq> NoReason then (g, \<lparr>so_client_order_id = None, so_local_reject_reason = reason\<rparr>)
      else let (oms, n, outs) = submit_new_order sender instrument_id sd price quantity order_type tif (tg_oms g) in
        (g\<lparr>tg_oms := oms, tg_positions := settle_outputs outs (tg_positions g)\<rparr>,
         \<lparr>so_client_order_id = Some n, so_local_reject_reason = NoReason\<rparr>))"

definition tg_cancel_order :: "(Message \<Rightarrow> bool) \<Rightarrow> ClientOrderId \<Rightarrow> TraderRiskGatedOms \<Rightarrow> TraderRiskGatedOms \<times> bool" where
  "tg_cancel_order sender x g = (let (oms, sent) = cancel_order sender x (tg_oms g) in (g\<lparr>tg_oms := oms\<rparr>, sent))"

definition tg_replace_order :: "(Message \<Rightarrow> bool) \<Rightarrow> ClientOrderId \<Rightarrow> Price \<Rightarrow> Quantity \<Rightarrow> TraderRiskGatedOms \<Rightarrow>
   TraderRiskGatedOms \<times> ClientOrderId option" where
  "tg_replace_order sender x new_price new_quantity g =
     (let (oms, n) = replace_order sender x new_price new_quantity (tg_oms g) in (g\<lparr>tg_oms := oms\<rparr>, n))"

definition tg_handle_message :: "Message \<Rightarrow> TraderRiskGatedOms \<Rightarrow> TraderRiskGatedOms" where
  "tg_handle_message message g = (let (oms, outs) = handle_message message (tg_oms g) in
     g\<lparr>tg_oms := oms, tg_positions := settle_outputs outs (tg_positions g)\<rparr>)"

definition tg_order :: "ClientOrderId \<Rightarrow> TraderRiskGatedOms \<Rightarrow> ClientOrder option" where
  "tg_order x g = order_of x (tg_oms g)"

definition tg_position :: "InstrumentId \<Rightarrow> TraderRiskGatedOms \<Rightarrow> Quantity" where
  "tg_position i g = pt_position (tg_positions g) (tg_account_id g) i"

definition tg_cash :: "TraderRiskGatedOms \<Rightarrow> Balance" where
  "tg_cash g = pt_cash (tg_positions g) (tg_account_id g)"

definition tg_deposit_cash :: "Balance \<Rightarrow> TraderRiskGatedOms \<Rightarrow> TraderRiskGatedOms" where
  "tg_deposit_cash amount g = g\<lparr>tg_positions := pt_deposit_cash (tg_account_id g) amount (tg_positions g)\<rparr>"

definition tg_deposit_position :: "InstrumentId \<Rightarrow> Quantity \<Rightarrow> TraderRiskGatedOms \<Rightarrow> TraderRiskGatedOms" where
  "tg_deposit_position i amount g = g\<lparr>tg_positions := pt_deposit_position (tg_account_id g) i amount (tg_positions g)\<rparr>"

end
