(* ===== verification/Trader_Strategies.thy ===== *)
theory Trader_Strategies
  imports Trader_Oms Subscriber_Book "HOL-Library.Signed_Division"
begin

text \<open>
  The two strategies (\<open>trader/strategies/market_maker_strategy.cpp\<close>,
  \<open>cross_venue_arbitrage_strategy.cpp\<close>). Each is driven by the subscriber's order book and acts on a
  risk-gated order management system, which the operations take and return; a venue's sender is a parameter.
\<close>

subsection \<open>The market maker\<close>

record MarketMakerConfig =
  mc_instrument_id :: InstrumentId
  mc_quote_size :: Quantity
  mc_half_spread :: Price
  mc_max_position :: Quantity
  mc_requote_threshold :: Price

definition default_market_maker :: "InstrumentId \<Rightarrow> MarketMakerConfig" where
  "default_market_maker i = \<lparr>mc_instrument_id = i, mc_quote_size = 10, mc_half_spread = I64 1, mc_max_position = 100, mc_requote_threshold = I64 1\<rparr>"

record MarketMakerStrategy =
  mm_config :: MarketMakerConfig
  mm_bid_order_id :: "ClientOrderId option"
  mm_ask_order_id :: "ClientOrderId option"

definition new_market_maker :: "MarketMakerConfig \<Rightarrow> MarketMakerStrategy" where
  "new_market_maker config = \<lparr>mm_config = config, mm_bid_order_id = None, mm_ask_order_id = None\<rparr>"

definition is_terminal :: "ClientOrderState \<Rightarrow> bool" where
  "is_terminal state \<longleftrightarrow> (case state of Filled \<Rightarrow> True | StRejected \<Rightarrow> True | StCancelled \<Rightarrow> True | StReplaced \<Rightarrow> True | _ \<Rightarrow> False)"

definition abs_diff :: "Price \<Rightarrow> Price \<Rightarrow> Price" where
  "abs_diff a b = (if a > b then a - b else b - a)"

text \<open>Division of a signed integer by two, towards zero.\<close>

definition half :: "Price \<Rightarrow> Price" where
  "half p = I64 (word_of_int (ival p sdiv 2))"

text \<open>\<open>update_side\<close> takes the id it holds for the side and returns the one it holds afterwards.\<close>

definition submit_quote :: "(Message \<Rightarrow> bool) \<Rightarrow> MarketMakerConfig \<Rightarrow> Side \<Rightarrow> Price option \<Rightarrow> TraderRiskGatedOms \<Rightarrow>
   TraderRiskGatedOms \<times> ClientOrderId option" where
  "submit_quote sender config sd desired_price g = (case desired_price of
     None \<Rightarrow> (g, None)
   | Some price \<Rightarrow>
       let (g1, outcome) = tg_submit_new_order sender (mc_instrument_id config) sd price (mc_quote_size config) Limit GTC g
       in (g1, so_client_order_id outcome))"

definition update_side :: "(Message \<Rightarrow> bool) \<Rightarrow> MarketMakerConfig \<Rightarrow> Side \<Rightarrow> ClientOrderId option \<Rightarrow> Price option \<Rightarrow> TraderRiskGatedOms \<Rightarrow>
   TraderRiskGatedOms \<times> ClientOrderId option" where
  "update_side sender config sd order_id desired_price g = (case order_id of
     None \<Rightarrow> submit_quote sender config sd desired_price g
   | Some x \<Rightarrow> (case tg_order x g of
       None \<Rightarrow> submit_quote sender config sd desired_price g
     | Some ord \<Rightarrow>
         if is_terminal (cl_state ord) then submit_quote sender config sd desired_price g
         else if cl_state ord = PendingNew \<or> cl_pending_action ord \<noteq> NoAction then (g, Some x)
         else (case desired_price of
           None \<Rightarrow> (fst (tg_cancel_order sender x g), Some x)
         | Some price \<Rightarrow>
             if abs_diff (cl_price ord) price < mc_requote_threshold config then (g, Some x)
             else (case tg_replace_order sender x price (mc_quote_size config) g of
               (g1, Some n) \<Rightarrow> (g1, Some n)
             | (g1, None) \<Rightarrow> (g1, Some x)))))"

definition update_bid :: "(Message \<Rightarrow> bool) \<Rightarrow> Price option \<Rightarrow> MarketMakerStrategy \<times> TraderRiskGatedOms \<Rightarrow> MarketMakerStrategy \<times> TraderRiskGatedOms" where
  "update_bid sender desired = (\<lambda>(s, g). let (g1, x) = update_side sender (mm_config s) Buy (mm_bid_order_id s) desired g in
     (s\<lparr>mm_bid_order_id := x\<rparr>, g1))"

definition update_ask :: "(Message \<Rightarrow> bool) \<Rightarrow> Price option \<Rightarrow> MarketMakerStrategy \<times> TraderRiskGatedOms \<Rightarrow> MarketMakerStrategy \<times> TraderRiskGatedOms" where
  "update_ask sender desired = (\<lambda>(s, g). let (g1, x) = update_side sender (mm_config s) Sell (mm_ask_order_id s) desired g in
     (s\<lparr>mm_ask_order_id := x\<rparr>, g1))"

definition current_quote :: "ClientOrderId option \<Rightarrow> TraderRiskGatedOms \<Rightarrow> ClientOrder option" where
  "current_quote order_id g = (case order_id of None \<Rightarrow> None | Some x \<Rightarrow> tg_order x g)"

definition on_book_update :: "(Message \<Rightarrow> bool) \<Rightarrow> InstrumentId \<Rightarrow> OrderBook \<Rightarrow> MarketMakerStrategy \<times> TraderRiskGatedOms \<Rightarrow>
   MarketMakerStrategy \<times> TraderRiskGatedOms" where
  "on_book_update sender instrument_id bk sg = (let s = fst sg; g = snd sg; config = mm_config s in
     if instrument_id \<noteq> mc_instrument_id config then sg
     else (case (ob_best_bid bk, ob_best_ask bk) of
       (Some best_bid, Some best_ask) \<Rightarrow> let
           mid = half (plv_price best_bid + plv_price best_ask);
           at_position_cap = tg_position (mc_instrument_id config) g \<ge> mc_max_position config;
           desired_bid = (if at_position_cap then None else Some (mid - mc_half_spread config));
           desired_ask = mid + mc_half_spread config;
           bid_would_cross_current_ask = (case (desired_bid, current_quote (mm_ask_order_id s) g) of
             (Some p, Some ask) \<Rightarrow> \<not> is_terminal (cl_state ask) \<and> p \<ge> cl_price ask | _ \<Rightarrow> False);
           ask_would_cross_current_bid = (case current_quote (mm_bid_order_id s) g of
             Some bid \<Rightarrow> \<not> is_terminal (cl_state bid) \<and> desired_ask \<le> cl_price bid | None \<Rightarrow> False)
         in if bid_would_cross_current_ask \<and> \<not> ask_would_cross_current_bid
            then update_bid sender desired_bid (update_ask sender (Some desired_ask) sg)
            else update_ask sender (Some desired_ask) (update_bid sender desired_bid sg)
     | _ \<Rightarrow> sg))"

subsection \<open>Arbitrage between two venues\<close>

record CrossVenueArbConfig =
  ac_instrument_id :: InstrumentId
  ac_trade_size :: Quantity
  ac_min_edge :: Price

record CrossVenueArbStrategy =
  av_venue_a :: TraderRiskGatedOms
  av_venue_b :: TraderRiskGatedOms
  av_config :: CrossVenueArbConfig
  av_a_best_bid :: "PriceLevelView option"
  av_a_best_ask :: "PriceLevelView option"
  av_b_best_bid :: "PriceLevelView option"
  av_b_best_ask :: "PriceLevelView option"

definition edge_reached :: "Price \<Rightarrow> PriceLevelView option \<Rightarrow> PriceLevelView option \<Rightarrow> bool" where
  "edge_reached min_edge ask bid = (case (ask, bid) of
     (Some a, Some b) \<Rightarrow> plv_price b - plv_price a \<ge> min_edge | _ \<Rightarrow> False)"

definition arb_order :: "(Message \<Rightarrow> bool) \<Rightarrow> CrossVenueArbConfig \<Rightarrow> Side \<Rightarrow> PriceLevelView option \<Rightarrow> TraderRiskGatedOms \<Rightarrow> TraderRiskGatedOms" where
  "arb_order sender config sd level g = (case level of
     None \<Rightarrow> g
   | Some l \<Rightarrow> fst (tg_submit_new_order sender (ac_instrument_id config) sd (plv_price l) (ac_trade_size config) Limit IOC g))"

definition evaluate :: "(Message \<Rightarrow> bool) \<Rightarrow> (Message \<Rightarrow> bool) \<Rightarrow> CrossVenueArbStrategy \<Rightarrow> CrossVenueArbStrategy" where
  "evaluate sender_a sender_b s = (let config = av_config s in
     if edge_reached (ac_min_edge config) (av_a_best_ask s) (av_b_best_bid s)
     then s\<lparr>av_venue_a := arb_order sender_a config Buy (av_a_best_ask s) (av_venue_a s),
            av_venue_b := arb_order sender_b config Sell (av_b_best_bid s) (av_venue_b s)\<rparr>
     else if edge_reached (ac_min_edge config) (av_b_best_ask s) (av_a_best_bid s)
     then s\<lparr>av_venue_b := arb_order sender_b config Buy (av_b_best_ask s) (av_venue_b s),
            av_venue_a := arb_order sender_a config Sell (av_a_best_bid s) (av_venue_a s)\<rparr>
     else s)"

definition on_venue_a_update :: "(Message \<Rightarrow> bool) \<Rightarrow> (Message \<Rightarrow> bool) \<Rightarrow> InstrumentId \<Rightarrow> OrderBook \<Rightarrow> CrossVenueArbStrategy \<Rightarrow> CrossVenueArbStrategy" where
  "on_venue_a_update sender_a sender_b instrument_id bk s =
     (if instrument_id \<noteq> ac_instrument_id (av_config s) then s
      else evaluate sender_a sender_b (s\<lparr>av_a_best_bid := ob_best_bid bk, av_a_best_ask := ob_best_ask bk\<rparr>))"

definition on_venue_b_update :: "(Message \<Rightarrow> bool) \<Rightarrow> (Message \<Rightarrow> bool) \<Rightarrow> InstrumentId \<Rightarrow> OrderBook \<Rightarrow> CrossVenueArbStrategy \<Rightarrow> CrossVenueArbStrategy" where
  "on_venue_b_update sender_a sender_b instrument_id bk s =
     (if instrument_id \<noteq> ac_instrument_id (av_config s) then s
      else evaluate sender_a sender_b (s\<lparr>av_b_best_bid := ob_best_bid bk, av_b_best_ask := ob_best_ask bk\<rparr>))"

end
