(* ===== verification/Trader_Properties.thy ===== *)
theory Trader_Properties
  imports Trader_Strategies Order_Gateway Engine_Properties
begin

text \<open>
  The trader's side against the exchange: what an order management system sends fits what the engine
  expects, its positions follow the exchange's ledger, and a refused replace strands the order the
  strategy then holds.
\<close>

subsection \<open>Histories of an order management system\<close>

text \<open>
  The blocks the system runs under its mutex, in any order, from any threads, with the failed sends and
  the messages of the exchange anywhere in between. A history yields the requests handed to the sender.
\<close>

datatype oms_action =
    Register InstrumentId Side Price Quantity OrderType TimeInForce
  | SendFailed ClientOrderId
  | BeginCancel ClientOrderId
  | ClearPending ClientOrderId
  | BeginReplace ClientOrderId Price Quantity
  | AbortReplace ClientOrderId ClientOrderId
  | Deliver Message

fun oms_act :: "oms_action \<Rightarrow> OrderManagementSystem \<Rightarrow> OrderManagementSystem \<times> Message list" where
  "oms_act (Register i sd p q ty tif) oms = (let (oms1, _, m) = register_new i sd p q ty tif oms in (oms1, [m]))"
| "oms_act (SendFailed x) oms = (fst (mark_send_failed x oms), [])"
| "oms_act (BeginCancel x) oms = (case begin_cancel x oms of None \<Rightarrow> (oms, []) | Some (oms1, m) \<Rightarrow> (oms1, [m]))"
| "oms_act (ClearPending x) oms = (clear_pending_action x oms, [])"
| "oms_act (BeginReplace x p q) oms = (case begin_replace x p q oms of None \<Rightarrow> (oms, []) | Some (oms1, _, m) \<Rightarrow> (oms1, [m]))"
| "oms_act (AbortReplace x n) oms = (abort_replace x n oms, [])"
| "oms_act (Deliver m) oms = (fst (handle_message m oms), [])"

fun oms_run :: "oms_action list \<Rightarrow> OrderManagementSystem \<Rightarrow> OrderManagementSystem \<times> Message list" where
  "oms_run [] oms = (oms, [])"
| "oms_run (act # acts) oms = (let (oms1, ms1) = oms_act act oms; (oms2, ms2) = oms_run acts oms1 in (oms2, ms1 @ ms2))"

lemma oms_run_snoc: "oms_run (acts @ [act]) oms = (let (oms1, ms1) = oms_run acts oms; (oms2, ms2) = oms_act act oms1 in (oms2, ms1 @ ms2))"
  by (induction acts arbitrary: oms) (simp_all split: prod.splits)

text \<open>The commands the gateway makes of the requests, the ids they introduce, and the order a request is about.\<close>

definition commands_of :: "Message list \<Rightarrow> ExchangeCommand list" where
  "commands_of ms = List.map_filter to_command ms"

definition introduced :: "Message list \<Rightarrow> LiveKey list" where
  "introduced ms = concat (map command_keys (commands_of ms))"

fun target :: "ExchangeCommand \<Rightarrow> ClientOrderId option" where
  "target (NewOrder c) = None"
| "target (CancelOrder c) = Some (cc_client_order_id c)"
| "target (ReplaceOrder c) = Some (rc_original_client_order_id c)"

definition requests_on :: "ClientOrderId \<Rightarrow> Message list \<Rightarrow> nat" where
  "requests_on x ms = length (filter (\<lambda>c. target c = Some x) (commands_of ms))"

fun resolves :: "ClientOrderId \<Rightarrow> oms_action \<Rightarrow> bool" where
  "resolves x (SendFailed y) \<longleftrightarrow> y = x"
| "resolves x (ClearPending y) \<longleftrightarrow> y = x"
| "resolves x (AbortReplace y n) \<longleftrightarrow> y = x \<or> n = x"
| "resolves x (Deliver (MsgRejected e)) \<longleftrightarrow> orj_client_order_id e = x"
| "resolves x (Deliver (MsgCancelled e)) \<longleftrightarrow> oca_client_order_id e = x"
| "resolves x (Deliver (MsgReplaced e)) \<longleftrightarrow> ord_original_client_order_id e = x"
| "resolves x _ \<longleftrightarrow> False"

lemma commands_of_simps [simp]:
  "commands_of [] = []" "commands_of (ms @ ms') = commands_of ms @ commands_of ms'"
  "commands_of [m] = (case to_command m of None \<Rightarrow> [] | Some c \<Rightarrow> [c])"
  by (simp_all add: commands_of_def map_filter_def split: option.splits)

lemma introduced_append [simp]: "introduced (ms @ ms') = introduced ms @ introduced ms'" "introduced [] = []"
  by (simp_all add: introduced_def)

subsection \<open>What every action keeps\<close>

definition busy :: "ClientOrderId \<Rightarrow> OrderManagementSystem \<Rightarrow> bool" where
  "busy x oms \<longleftrightarrow> (\<exists>ord. om_orders oms x = Some ord \<and> cl_pending_action ord \<noteq> NoAction)"

lemma edit_order_simps [simp]:
  "om_account_id (edit_order x f oms) = om_account_id oms" "om_next_client_order_id (edit_order x f oms) = om_next_client_order_id oms"
  "om_orders (edit_order x f oms) y = (if y = x then map_option f (om_orders oms x) else om_orders oms y)"
  by (auto simp: edit_order_def split: option.splits)

lemmas oms_defs = register_new_def mark_send_failed_def begin_cancel_def clear_pending_action_def begin_replace_def abort_replace_def
  on_accepted_def on_rejected_def on_cancelled_def on_replaced_def on_trade_report_def emplace_def can_request_def Let_def

text \<open>Actions other than \<open>Register\<close> and \<open>BeginReplace\<close> neither name nor keep new ids.\<close>

lemma deliver_keeps:
  "om_account_id (fst (handle_message m oms)) = om_account_id oms"
  "om_next_client_order_id (fst (handle_message m oms)) = om_next_client_order_id oms"
  "dom (om_orders (fst (handle_message m oms))) = dom (om_orders oms)"
  by (cases m; auto simp: oms_defs dom_def split: option.splits)+

definition ids_ok :: "AccountId \<Rightarrow> OrderManagementSystem \<Rightarrow> Message list \<Rightarrow> bool" where
  "ids_ok a oms ms \<longleftrightarrow> om_account_id oms = a \<and> om_next_client_order_id oms = of_nat (Suc (length (introduced ms))) \<and>
     introduced ms = map (\<lambda>j. (a, of_nat (Suc j))) [0..<length (introduced ms)] \<and>
     (\<forall>x \<in> dom (om_orders oms). (a, x) \<in> set (introduced ms)) \<and>
     (\<forall>pre c post. commands_of ms = pre @ c # post \<longrightarrow> command_account c = a \<and>
        (case target c of None \<Rightarrow> True | Some x \<Rightarrow> (a, x) \<in> set (concat (map command_keys pre))))"

lemma snoc_split: "xs @ [x] = pre @ y # post \<longleftrightarrow> (post = [] \<and> pre = xs \<and> y = x) \<or> (\<exists>post'. post = post' @ [x] \<and> xs = pre @ y # post')"
  by (cases post rule: rev_cases) auto

text \<open>A request that introduces the next id, or none, and is about an order the system holds.\<close>

lemma ids_ok_request:
  assumes ok: "ids_ok a oms ms" and c: "to_command m = Some c" "command_account c = a"
    and t: "\<And>x. target c = Some x \<Longrightarrow> x \<in> dom (om_orders oms)"
    and next_id: "command_keys c = [] \<and> om_next_client_order_id oms' = om_next_client_order_id oms \<or>
      command_keys c = [(a, om_next_client_order_id oms)] \<and> om_next_client_order_id oms' = om_next_client_order_id oms + 1"
    and d: "dom (om_orders oms') \<subseteq> dom (om_orders oms) \<union> snd ` set (command_keys c)" and a: "om_account_id oms' = a"
  shows "ids_ok a oms' (ms @ [m])"
proof -
  have keys: "introduced [m] = command_keys c" using c(1) by (simp add: introduced_def)
  have old: "\<forall>x \<in> dom (om_orders oms). (a, x) \<in> set (introduced ms)" using ok unfolding ids_ok_def by blast
  have "(a, x) \<in> set (introduced (ms @ [m]))" if "x \<in> dom (om_orders oms')" for x
  proof -
    have "x \<in> dom (om_orders oms) \<or> x \<in> snd ` set (command_keys c)" using that d by blast
    then show ?thesis
    proof
      assume "x \<in> snd ` set (command_keys c)"
      then have "(a, x) \<in> set (command_keys c)" using next_id by auto
      then show ?thesis by (simp add: keys)
    qed (use old in simp)
  qed
  moreover have "om_next_client_order_id oms' = of_nat (Suc (length (introduced (ms @ [m])))) \<and>
      introduced (ms @ [m]) = map (\<lambda>j. (a, of_nat (Suc j))) [0..<length (introduced (ms @ [m]))]"
    using next_id ok by (auto simp: keys ids_ok_def)
  moreover have "command_account c' = a \<and> (case target c' of None \<Rightarrow> True | Some x \<Rightarrow> (a, x) \<in> set (concat (map command_keys pre)))"
    if "commands_of (ms @ [m]) = pre @ c' # post" for pre c' post
  proof -
    have "commands_of ms @ [c] = pre @ c' # post" using that c(1) by simp
    then consider "pre = commands_of ms" "c' = c" | post' where "commands_of ms = pre @ c' # post'" by (auto simp: snoc_split)
    then show ?thesis
    proof cases
      case 1
      then show ?thesis using c(2) t ok by (auto simp: ids_ok_def introduced_def split: option.splits)
    next
      case 2
      then show ?thesis using ok unfolding ids_ok_def by blast
    qed
  qed
  ultimately show ?thesis using a unfolding ids_ok_def by blast
qed

lemma ids_ok_quiet:
  assumes "ids_ok a oms ms" "om_account_id oms' = om_account_id oms" "om_next_client_order_id oms' = om_next_client_order_id oms"
    "dom (om_orders oms') \<subseteq> dom (om_orders oms)"
  shows "ids_ok a oms' ms"
  using assms by (auto simp: ids_ok_def)

lemma begin_cancelD:
  assumes "begin_cancel x oms = Some (oms', m)"
  shows "\<exists>ord. om_orders oms x = Some ord \<and> can_request ord \<and> m = MsgCancelOrder \<lparr>ocn_account_id = om_account_id oms, ocn_client_order_id = x,
    ocn_instrument_id = cl_instrument_id ord\<rparr> \<and> oms' = oms\<lparr>om_orders := (om_orders oms)(x \<mapsto> ord\<lparr>cl_pending_action := PendingCancel\<rparr>)\<rparr> \<and>
    (\<forall>y. busy y oms' \<longleftrightarrow> y = x \<or> busy y oms)"
  using assms by (auto simp: begin_cancel_def busy_def split: option.splits if_splits)

lemma begin_replaceD:
  assumes "begin_replace x p q oms = Some (oms', n, m)"
  shows "\<exists>ord. om_orders oms x = Some ord \<and> can_request ord \<and> n = om_next_client_order_id oms \<and> om_next_client_order_id oms' = n + 1 \<and>
    om_account_id oms' = om_account_id oms \<and> m = MsgReplaceOrder \<lparr>orp_account_id = om_account_id oms, orp_original_client_order_id = x,
      orp_new_client_order_id = n, orp_instrument_id = cl_instrument_id ord, orp_new_price = p, orp_new_quantity = q\<rparr> \<and>
    dom (om_orders oms') = insert n (dom (om_orders oms)) \<and>
    (\<forall>y. busy y oms' \<longleftrightarrow> y = x \<or> busy y oms) \<and>
    (om_orders oms n = None \<longrightarrow> om_orders oms' x = Some (ord\<lparr>cl_pending_action := PendingReplace\<rparr>) \<and>
       (\<exists>r. om_orders oms' n = Some r \<and> cl_state r = PendingNew \<and> cl_pending_action r = NoAction))"
proof -
  obtain ord where ord: "om_orders oms x = Some ord" "can_request ord"
    using assms by (auto simp: begin_replace_def split: option.splits if_splits)
  show ?thesis using assms ord by (intro exI [of _ ord]) (auto simp: begin_replace_def emplace_def busy_def Let_def split: option.splits if_splits)
qed

lemma oms_act_ids:
  assumes ok: "ids_ok a oms ms" and act: "oms_act act oms = (oms', ms')"
  shows "ids_ok a oms' (ms @ ms')"
proof -
  have a: "om_account_id oms = a" using ok by (simp add: ids_ok_def)
  show ?thesis
  proof (cases act)
    case (Register i sd p q ty tif)
    then obtain m where "ms' = [m]" "to_command m = Some (NewOrder \<lparr>nc_command_sequence = 0, nc_account_id = a,
        nc_client_order_id = om_next_client_order_id oms, nc_instrument_id = i, nc_side = sd, nc_price = p, nc_quantity = q,
        nc_order_type = ty, nc_time_in_force = tif\<rparr>)"
      "om_next_client_order_id oms' = om_next_client_order_id oms + 1" "om_account_id oms' = a"
      "dom (om_orders oms') \<subseteq> insert (om_next_client_order_id oms) (dom (om_orders oms))"
      using act a by (auto simp: oms_defs subset_insertI split: option.splits)
    then show ?thesis by (simp, intro ids_ok_request [OF ok]) auto
  next
    case (BeginCancel x)
    show ?thesis
    proof (cases "begin_cancel x oms")
      case None
      then show ?thesis using BeginCancel act ok by simp
    next
      case (Some r)
      then obtain m where m: "begin_cancel x oms = Some (oms', m)" "ms' = [m]" using BeginCancel act by (cases r) auto
      then obtain ord where "om_orders oms x = Some ord" "m = MsgCancelOrder \<lparr>ocn_account_id = om_account_id oms, ocn_client_order_id = x,
          ocn_instrument_id = cl_instrument_id ord\<rparr>" "oms' = oms\<lparr>om_orders := (om_orders oms)(x \<mapsto> ord\<lparr>cl_pending_action := PendingCancel\<rparr>)\<rparr>"
        using begin_cancelD by blast
      then show ?thesis using m(2) a by (simp, intro ids_ok_request [OF ok]) auto
    qed
  next
    case (BeginReplace x p q)
    show ?thesis
    proof (cases "begin_replace x p q oms")
      case None
      then show ?thesis using BeginReplace act ok by simp
    next
      case (Some r)
      then obtain n m where m: "begin_replace x p q oms = Some (oms', n, m)" "ms' = [m]" using BeginReplace act by (cases r) auto
      obtain ord where o: "om_orders oms x = Some ord" "n = om_next_client_order_id oms" "om_next_client_order_id oms' = n + 1"
          "om_account_id oms' = om_account_id oms" "m = MsgReplaceOrder \<lparr>orp_account_id = om_account_id oms,
          orp_original_client_order_id = x, orp_new_client_order_id = n, orp_instrument_id = cl_instrument_id ord, orp_new_price = p, orp_new_quantity = q\<rparr>"
          "dom (om_orders oms') = insert n (dom (om_orders oms))"
        using begin_replaceD [OF m(1)] by blast
      then show ?thesis using m(2) a by (simp, intro ids_ok_request [OF ok]) auto
    qed
  next
    case (Deliver m)
    then show ?thesis using act ids_ok_quiet [OF ok deliver_keeps(1,2) [of m]] deliver_keeps(3) [of m oms] by auto
  qed (use act in \<open>auto intro!: ids_ok_quiet [OF ok] simp: oms_defs edit_order_def split: option.splits if_splits\<close>)
qed

text \<open>At most one request on an order is unanswered.\<close>

lemma requests_on_append [simp]: "requests_on x (ms @ ms') = requests_on x ms + requests_on x ms'" "requests_on x [] = 0"
  by (simp_all add: requests_on_def)

lemma deliver_keeps_busy: "busy x oms \<Longrightarrow> resolves x (Deliver m) \<or> busy x (fst (handle_message m oms))"
  by (cases m) (auto simp: busy_def oms_defs split: option.splits if_splits)

lemma oms_act_requests:
  assumes "oms_act act oms = (oms', ms')"
  shows "requests_on x ms' + (if busy x oms then 1 else 0) \<le> (if resolves x act then 1 else 0) + (if busy x oms' then 1 else 0)"
proof (cases act)
  case (BeginCancel y)
  show ?thesis
  proof (cases "begin_cancel y oms")
    case (Some r)
    then obtain m where m: "begin_cancel y oms = Some (oms', m)" "ms' = [m]" using BeginCancel assms by (cases r) auto
    then obtain ord where "om_orders oms y = Some ord" "can_request ord" "\<forall>z. busy z oms' \<longleftrightarrow> z = y \<or> busy z oms"
      "commands_of ms' = [CancelOrder \<lparr>cc_command_sequence = 0, cc_account_id = om_account_id oms, cc_client_order_id = y,
        cc_instrument_id = cl_instrument_id ord\<rparr>]"
      using begin_cancelD [OF m(1)] by auto
    then show ?thesis using BeginCancel by (auto simp: requests_on_def busy_def can_request_def)
  qed (use BeginCancel assms in auto)
next
  case (BeginReplace y p q)
  show ?thesis
  proof (cases "begin_replace y p q oms")
    case (Some r)
    then obtain n m where m: "begin_replace y p q oms = Some (oms', n, m)" "ms' = [m]" using BeginReplace assms by (cases r) auto
    then obtain ord where "om_orders oms y = Some ord" "can_request ord" "\<forall>z. busy z oms' \<longleftrightarrow> z = y \<or> busy z oms"
      "commands_of ms' = [ReplaceOrder \<lparr>rc_command_sequence = 0, rc_account_id = om_account_id oms, rc_original_client_order_id = y,
        rc_new_client_order_id = n, rc_instrument_id = cl_instrument_id ord, rc_new_price = p, rc_new_quantity = q\<rparr>]"
      using begin_replaceD [OF m(1)] by auto
    then show ?thesis using BeginReplace by (auto simp: requests_on_def busy_def can_request_def)
  qed (use BeginReplace assms in auto)
next
  case (Deliver m)
  then show ?thesis using assms deliver_keeps_busy [of x oms m] by auto
next
  case (Register i sd p q ty tif)
  then show ?thesis using assms by (auto simp: oms_defs requests_on_def busy_def split: option.splits)
qed (use assms in \<open>auto simp: oms_defs busy_def edit_order_def split: option.splits if_splits\<close>)

lemma oms_act_introduces: "oms_act act oms = (oms', ms') \<Longrightarrow> length (introduced ms') \<le> 1"
proof -
  have "length ms \<le> 1 \<Longrightarrow> length (introduced ms) \<le> 1" for ms
  proof (cases ms)
    case (Cons m ms')
    assume "length ms \<le> 1"
    then show ?thesis using Cons by (cases m) (simp_all add: introduced_def)
  qed simp
  moreover assume "oms_act act oms = (oms', ms')"
  then have "length ms' \<le> 1" by (cases act) (auto simp: register_new_def Let_def split: option.splits)
  ultimately show ?thesis by blast
qed

subsection \<open>The tracker and the ledger\<close>

text \<open>The messages of one account delivered to its gated system.\<close>

definition deliver_events :: "ExchangeEvent list \<Rightarrow> TraderRiskGatedOms \<Rightarrow> TraderRiskGatedOms" where
  "deliver_events evs g = fold tg_handle_message (concat (map (reports_to (tg_account_id g)) evs)) g"

definition knows_side :: "OrderManagementSystem \<Rightarrow> ClientOrderId \<Rightarrow> Side \<Rightarrow> bool" where
  "knows_side oms x sd \<longleftrightarrow> map_option cl_side (om_orders oms x) = Some sd"

definition legs_known :: "OrderManagementSystem \<Rightarrow> ExchangeEvent \<Rightarrow> bool" where
  "legs_known oms ev \<longleftrightarrow> (case ev of
     TradeExecuted t \<Rightarrow>
       (tc_account_id (te_buyer t) = om_account_id oms \<longrightarrow> knows_side oms (tc_client_order_id (te_buyer t)) Buy) \<and>
       (tc_account_id (te_seller t) = om_account_id oms \<longrightarrow> knows_side oms (tc_client_order_id (te_seller t)) Sell)
   | _ \<Rightarrow> True)"

lemma edit_order_side:
  "(\<And>ord. cl_side (f ord) = cl_side ord) \<Longrightarrow> map_option cl_side (om_orders (edit_order y f oms) x) = map_option cl_side (om_orders oms x)"
  by (cases "om_orders oms y") simp_all

lemma handle_sides: "map_option cl_side (om_orders (fst (handle_message m oms)) x) = map_option cl_side (om_orders oms x)"
  by (cases m) (simp_all add: on_accepted_def on_rejected_def on_cancelled_def on_replaced_def on_trade_report_def Let_def edit_order_side
      del: edit_order_simps split: option.split)

lemma handle_knows_side: "knows_side oms x sd \<Longrightarrow> knows_side (fst (handle_message m oms)) x sd"
  by (simp only: knows_side_def handle_sides)

lemma tg_handle_simps [simp]:
  "tg_account_id (tg_handle_message m g) = tg_account_id g" "tg_oms (tg_handle_message m g) = fst (handle_message m (tg_oms g))"
  by (simp_all add: tg_handle_message_def split: prod.splits)

lemma fold_handle_keeps:
  "tg_account_id (fold tg_handle_message ms g) = tg_account_id g"
  "om_account_id (tg_oms (fold tg_handle_message ms g)) = om_account_id (tg_oms g)"
  "knows_side (tg_oms g) x sd \<Longrightarrow> knows_side (tg_oms (fold tg_handle_message ms g)) x sd"
  by (induction ms arbitrary: g) (simp_all add: deliver_keeps(1) handle_knows_side)

text \<open>What one message does to the tracked balances.\<close>

lemma pt_apply_effect:
  "pt_cash (pt_apply fill t) a = pt_cash t a + (if a = fl_account_id fill then
     (if fl_side fill = Buy then - notional (fl_quantity fill) (fl_price fill) else notional (fl_quantity fill) (fl_price fill)) else 0)"
  "pt_position (pt_apply fill t) a i = pt_position t a i + (if a = fl_account_id fill \<and> i = fl_instrument_id fill then
     (if fl_side fill = Buy then fl_quantity fill else - fl_quantity fill) else 0)"
  by (auto simp: pt_apply_def pt_cash_def pt_position_def account_position_def Let_def split: option.splits)

lemma settle_updates: "settle_outputs (updated_order x oms) t = t" "settle_outputs (outs @ outs') t = settle_outputs outs' (settle_outputs outs t)"
proof -
  show "settle_outputs (updated_order x oms) t = t" by (auto simp: updated_order_def split: option.splits)
  show "settle_outputs (outs @ outs') t = settle_outputs outs' (settle_outputs outs t)"
    by (induction outs t rule: settle_outputs.induct) simp_all
qed

lemma no_fill_positions:
  "(\<And>e. m \<noteq> MsgTradeReport e) \<Longrightarrow> tg_positions (tg_handle_message m g) = tg_positions g"
  by (cases m) (auto simp: tg_handle_message_def on_accepted_def on_rejected_def on_cancelled_def on_replaced_def Let_def settle_updates)

lemma trade_report_positions:
  assumes "knows_side (tg_oms g) (otr_client_order_id e) sd"
  shows "tg_positions (tg_handle_message (MsgTradeReport e) g) =
    pt_apply \<lparr>fl_account_id = om_account_id (tg_oms g), fl_client_order_id = otr_client_order_id e, fl_instrument_id = otr_instrument_id e,
      fl_side = sd, fl_price = otr_price e, fl_quantity = otr_quantity e\<rparr> (tg_positions g)"
  using assms by (auto simp: knows_side_def tg_handle_message_def on_trade_report_def Let_def)

text \<open>The ledger's totals move only with trades.\<close>

lemma ledger_totals_kept:
  "(\<And>t. ev \<noteq> TradeExecuted t) \<Longrightarrow> cash (ledger_apply L ev) a = cash L a \<and> position (ledger_apply L ev) a i = position L a i"
  by (cases ev) (auto simp: on_order_accepted_def on_order_replaced_def on_order_cancelled_def open_hold_def release_hold_fully_def
      balance_defs balances_def set_balances_def Let_def split: option.splits)

text \<open>The report of one leg of a trade, if it is for this account, and the leg in the ledger.\<close>

definition leg_messages :: "AccountId \<Rightarrow> TradeExecutedEvent \<Rightarrow> TradeCounterparty \<Rightarrow> Message list" where
  "leg_messages a t leg = (if tc_account_id leg = a then [snd (trade_report t leg)] else [])"

lemma leg_delivered:
  assumes "tg_account_id g = a" "om_account_id (tg_oms g) = a" "tc_account_id leg = a \<Longrightarrow> knows_side (tg_oms g) (tc_client_order_id leg) sd"
  shows "tg_cash (fold tg_handle_message (leg_messages a t leg) g) = tg_cash g +
      (if a = tc_account_id leg then (if sd = Buy then - notional (te_quantity t) (te_price t) else notional (te_quantity t) (te_price t)) else 0)"
    "tg_position i (fold tg_handle_message (leg_messages a t leg) g) = tg_position i g +
      (if a = tc_account_id leg \<and> i = te_instrument_id t then (if sd = Buy then te_quantity t else - te_quantity t) else 0)"
proof -
  let ?g = "fold tg_handle_message (leg_messages a t leg) g"
  have "pt_cash (tg_positions ?g) a = pt_cash (tg_positions g) a +
      (if a = tc_account_id leg then (if sd = Buy then - notional (te_quantity t) (te_price t) else notional (te_quantity t) (te_price t)) else 0) \<and>
    pt_position (tg_positions ?g) a i = pt_position (tg_positions g) a i +
      (if a = tc_account_id leg \<and> i = te_instrument_id t then (if sd = Buy then te_quantity t else - te_quantity t) else 0)"
  proof (cases "tc_account_id leg = a")
    case True
    let ?e = "\<lparr>otr_account_id = tc_account_id leg, otr_client_order_id = tc_client_order_id leg, otr_exchange_order_id = tc_exchange_order_id leg,
      otr_instrument_id = te_instrument_id t, otr_price = te_price t, otr_quantity = te_quantity t, otr_remaining_quantity = tc_remaining_quantity leg\<rparr>"
    have "?g = tg_handle_message (MsgTradeReport ?e) g" using True by (simp add: leg_messages_def trade_report_def)
    moreover have "knows_side (tg_oms g) (otr_client_order_id ?e) sd" using assms(3) True by simp
    ultimately show ?thesis using trade_report_positions [of g ?e sd] assms(2) True by (simp add: pt_apply_effect)
  qed (simp add: leg_messages_def)
  then show "tg_cash ?g = tg_cash g + (if a = tc_account_id leg then
      (if sd = Buy then - notional (te_quantity t) (te_price t) else notional (te_quantity t) (te_price t)) else 0)"
    "tg_position i ?g = tg_position i g + (if a = tc_account_id leg \<and> i = te_instrument_id t then
      (if sd = Buy then te_quantity t else - te_quantity t) else 0)"
    using assms(1) by (simp_all add: tg_cash_def tg_position_def fold_handle_keeps(1))
qed

lemma reports_to_trade: "reports_to a (TradeExecuted t) = leg_messages a t (te_buyer t) @ leg_messages a t (te_seller t)"
  by (simp add: reports_to_def leg_messages_def trade_report_def)

lemma event_moves_alike:
  assumes "tg_account_id g = a" "om_account_id (tg_oms g) = a" "legs_known (tg_oms g) ev"
  shows "tg_cash (deliver_events [ev] g) - tg_cash g = cash (ledger_apply L ev) a - cash L a"
    "tg_position i (deliver_events [ev] g) - tg_position i g = position (ledger_apply L ev) a i - position L a i"
proof -
  have "tg_cash (deliver_events [ev] g) - tg_cash g = cash (ledger_apply L ev) a - cash L a \<and>
    tg_position i (deliver_events [ev] g) - tg_position i g = position (ledger_apply L ev) a i - position L a i"
  proof (cases "\<exists>t. ev = TradeExecuted t")
    case True
    then obtain t where t: "ev = TradeExecuted t" by blast
    let ?g = "fold tg_handle_message (leg_messages a t (te_buyer t)) g"
    have known: "tc_account_id (te_buyer t) = a \<Longrightarrow> knows_side (tg_oms g) (tc_client_order_id (te_buyer t)) Buy"
      "tc_account_id (te_seller t) = a \<Longrightarrow> knows_side (tg_oms ?g) (tc_client_order_id (te_seller t)) Sell"
      using assms(2,3) t by (auto simp: legs_known_def intro: fold_handle_keeps(3))
    have "deliver_events [ev] g = fold tg_handle_message (leg_messages a t (te_seller t)) ?g"
      using assms(1) by (simp add: deliver_events_def t reports_to_trade)
    then show ?thesis
      using leg_delivered [OF assms(1,2) known(1)] leg_delivered [OF _ _ known(2)] assms(1,2)
      by (simp add: fold_handle_keeps t on_trade_executed_def settle_leg_effect(2,3))
  next
    case False
    have "\<forall>m \<in> set ms. \<forall>e. m \<noteq> MsgTradeReport e \<Longrightarrow> tg_positions (fold tg_handle_message ms h) = tg_positions h" for ms h
      by (induction ms arbitrary: h) (auto simp: no_fill_positions)
    moreover have "\<forall>m \<in> set (reports_to a ev). \<forall>e. m \<noteq> MsgTradeReport e" using False by (cases ev) (auto simp: reports_to_def)
    ultimately have "tg_positions (deliver_events [ev] g) = tg_positions g" using assms(1) by (simp add: deliver_events_def)
    then show ?thesis using False ledger_totals_kept [of ev L a i] fold_handle_keeps(1) [of "reports_to a ev" g] assms(1)
      by (auto simp: tg_cash_def tg_position_def deliver_events_def)
  qed
  then show "tg_cash (deliver_events [ev] g) - tg_cash g = cash (ledger_apply L ev) a - cash L a"
    "tg_position i (deliver_events [ev] g) - tg_position i g = position (ledger_apply L ev) a i - position L a i" by blast+
qed

lemma events_move_alike:
  assumes "tg_account_id g = a" "om_account_id (tg_oms g) = a" "\<forall>ev \<in> set evs. legs_known (tg_oms g) ev"
  shows "tg_cash (deliver_events evs g) - tg_cash g = cash (fold (\<lambda>ev L. ledger_apply L ev) evs L) a - cash L a \<and>
    tg_position i (deliver_events evs g) - tg_position i g = position (fold (\<lambda>ev L. ledger_apply L ev) evs L) a i - position L a i"
  using assms
proof (induction evs arbitrary: g L)
  case (Cons ev evs)
  let ?g = "deliver_events [ev] g"
  have step: "deliver_events (ev # evs) g = deliver_events evs ?g" by (simp add: deliver_events_def fold_handle_keeps(1))
  have "tg_account_id ?g = a" "om_account_id (tg_oms ?g) = a" using Cons.prems(1,2) by (simp_all add: deliver_events_def fold_handle_keeps)
  moreover have "legs_known (tg_oms ?g) e" if "e \<in> set evs" for e
    using Cons.prems(3) that by (auto simp: legs_known_def deliver_events_def fold_handle_keeps split: ExchangeEvent.splits)
  ultimately have rest: "tg_cash (deliver_events evs ?g) - tg_cash ?g =
      cash (fold (\<lambda>ev L. ledger_apply L ev) evs (ledger_apply L ev)) a - cash (ledger_apply L ev) a"
    "tg_position i (deliver_events evs ?g) - tg_position i ?g =
      position (fold (\<lambda>ev L. ledger_apply L ev) evs (ledger_apply L ev)) a i - position (ledger_apply L ev) a i"
    using Cons.IH [of ?g "ledger_apply L ev"] by blast+
  have "legs_known (tg_oms g) ev" using Cons.prems(3) by simp
  note first = event_moves_alike [OF Cons.prems(1,2) this]
  have chain: "x - z = u - w" if "x - y = u - v" "y - z = v - w" for x y z u v w :: "'b::ab_group_add"
  proof -
    have "x - z = (x - y) + (y - z)" by (simp add: algebra_simps)
    also have "\<dots> = u - w" unfolding that by (simp add: algebra_simps)
    finally show ?thesis .
  qed
  show ?case using chain [OF rest(1) first(1)] chain [OF rest(2) first(2)] step by simp
qed (simp add: deliver_events_def)

subsection \<open>Histories of a market maker\<close>

text \<open>
  What can happen to a market maker and the gated system it trades through: a report of the exchange arrives, the book changes, or
  somebody else submits, cancels or replaces through the same system. Whether a message goes out is up to the sender of each action.
\<close>

datatype trader_action =
    Report Message
  | BookUpdate "Message \<Rightarrow> bool" InstrumentId OrderBook
  | SubmitOrder "Message \<Rightarrow> bool" InstrumentId Side Price Quantity OrderType TimeInForce
  | CancelAny "Message \<Rightarrow> bool" ClientOrderId
  | ReplaceAny "Message \<Rightarrow> bool" ClientOrderId Price Quantity

fun trader_act :: "trader_action \<Rightarrow> MarketMakerStrategy \<times> TraderRiskGatedOms \<Rightarrow> MarketMakerStrategy \<times> TraderRiskGatedOms" where
  "trader_act (Report message) (s, g) = (s, tg_handle_message message g)"
| "trader_act (BookUpdate sender i bk) (s, g) = on_book_update sender i bk (s, g)"
| "trader_act (SubmitOrder sender i sd p q ty tif) (s, g) = (s, fst (tg_submit_new_order sender i sd p q ty tif g))"
| "trader_act (CancelAny sender x) (s, g) = (s, fst (tg_cancel_order sender x g))"
| "trader_act (ReplaceAny sender x p q) (s, g) = (s, fst (tg_replace_order sender x p q g))"

text \<open>The orders a report is about.\<close>

fun named_ids :: "Message \<Rightarrow> ClientOrderId set" where
  "named_ids (MsgAccepted event) = {oac_client_order_id event}"
| "named_ids (MsgRejected event) = {orj_client_order_id event}"
| "named_ids (MsgCancelled event) = {oca_client_order_id event}"
| "named_ids (MsgReplaced event) = {ord_original_client_order_id event, ord_new_client_order_id event}"
| "named_ids (MsgTradeReport event) = {otr_client_order_id event}"
| "named_ids _ = {}"

definition held_id :: "Side \<Rightarrow> MarketMakerStrategy \<Rightarrow> ClientOrderId option" where
  "held_id sd s = (if sd = Buy then mm_bid_order_id s else mm_ask_order_id s)"

text \<open>The order \<open>r\<close> waits under the id \<open>n\<close>, and \<open>k\<close> more ids can be given out before the counter wraps.\<close>

definition stranded :: "ClientOrderId \<Rightarrow> ClientOrder \<Rightarrow> nat \<Rightarrow> TraderRiskGatedOms \<Rightarrow> bool" where
  "stranded n r k g \<longleftrightarrow> om_orders (tg_oms g) n = Some r \<and> cl_state r = PendingNew \<and>
     unat n < unat (om_next_client_order_id (tg_oms g)) \<and> unat (om_next_client_order_id (tg_oms g)) + k < 2 ^ 64"

lemma stranded_mono: "stranded n r k g \<Longrightarrow> j \<le> k \<Longrightarrow> stranded n r j g"
  by (auto simp: stranded_def)

lemma stranded_next: "stranded n r (Suc k) g \<Longrightarrow> om_next_client_order_id (tg_oms g) \<noteq> n \<and>
    unat (om_next_client_order_id (tg_oms g) + 1) = unat (om_next_client_order_id (tg_oms g)) + 1"
  by (auto simp: stranded_def unat_word_ariths)

lemma stranded_submit:
  assumes "stranded n r (Suc k) g"
  shows "stranded n r k (fst (tg_submit_new_order sender i sd p q ty tif g))"
  using assms stranded_next [OF assms]
  by (auto simp: tg_submit_new_order_def submit_new_order_def oms_defs stranded_def split: option.splits if_splits)

lemma stranded_request:
  assumes "stranded n r k g"
  shows "tg_cancel_order sender n g = (g, False)" "tg_replace_order sender n p q g = (g, None)"
  using assms by (auto simp: stranded_def tg_cancel_order_def cancel_order_def tg_replace_order_def replace_order_def begin_cancel_def begin_replace_def
      can_request_def is_live_def)

lemma stranded_cancel:
  assumes "stranded n r k g"
  shows "stranded n r k (fst (tg_cancel_order sender x g))"
proof (cases "x = n")
  case True
  then show ?thesis using assms stranded_request(1) [OF assms] by simp
next
  case False
  then show ?thesis using assms
    by (auto simp: tg_cancel_order_def cancel_order_def begin_cancel_def clear_pending_action_def stranded_def split: option.splits if_splits)
qed

lemma stranded_replace:
  assumes "stranded n r (Suc k) g"
  shows "stranded n r k (fst (tg_replace_order sender x p q g))"
proof (cases "x = n")
  case True
  then show ?thesis using stranded_mono [OF assms] stranded_request(2) [OF assms] by simp
next
  case False
  then show ?thesis using assms stranded_next [OF assms]
    by (auto simp: tg_replace_order_def replace_order_def begin_replace_def abort_replace_def clear_pending_action_def emplace_def Let_def
        stranded_def split: option.splits if_splits)
qed

lemma stranded_report: "stranded n r k g \<Longrightarrow> n \<notin> named_ids m \<Longrightarrow> stranded n r k (tg_handle_message m g)"
  by (cases m) (auto simp: tg_handle_message_def oms_defs stranded_def split: option.splits prod.splits)

text \<open>Updating a side keeps the stranded order, and does nothing where it is held.\<close>

lemma stranded_update_side:
  assumes "stranded n r (Suc k) g"
  shows "stranded n r k (fst (update_side sender config sd x desired g))"
    "update_side sender config sd (Some n) desired g = (g, Some n)"
proof -
  have quote: "stranded n r k (fst (submit_quote sender config sd desired g))"
    using assms stranded_submit [OF assms] stranded_mono [OF assms, of k] by (simp add: submit_quote_def case_prod_beta Let_def split: option.splits)
  have change: "stranded n r k (fst (case tg_replace_order sender y p q g of (g1, Some m) \<Rightarrow> (g1, Some m) | (g1, None) \<Rightarrow> (g1, Some y)))" for y p q
    using stranded_replace [OF assms, of sender y p q] by (auto split: prod.splits option.splits)
  show "stranded n r k (fst (update_side sender config sd x desired g))"
    using quote change stranded_mono [OF assms, of k] stranded_cancel [OF stranded_mono [OF assms, of k]]
    by (simp add: update_side_def split: option.splits)
  show "update_side sender config sd (Some n) desired g = (g, Some n)"
    using assms by (simp add: stranded_def update_side_def tg_order_def order_of_def is_terminal_def)
qed

definition waits_for :: "Side \<Rightarrow> ClientOrderId \<Rightarrow> ClientOrder \<Rightarrow> nat \<Rightarrow> MarketMakerStrategy \<times> TraderRiskGatedOms \<Rightarrow> bool" where
  "waits_for sd n r k sg \<longleftrightarrow> held_id sd (fst sg) = Some n \<and> stranded n r k (snd sg)"

lemma waits_update:
  assumes "waits_for sd n r (Suc k) sg"
  shows "waits_for sd n r k (update_bid sender desired sg)" "waits_for sd n r k (update_ask sender desired sg)"
proof -
  obtain s g where sg: "sg = (s, g)" by fastforce
  then have w: "held_id sd s = Some n" "stranded n r (Suc k) g" using assms by (simp_all add: waits_for_def)
  note u = stranded_update_side [OF w(2)] stranded_mono [OF w(2), of k]
  show "waits_for sd n r k (update_bid sender desired sg)" "waits_for sd n r k (update_ask sender desired sg)"
    using w(1) u unfolding sg by (cases sd; simp add: update_bid_def update_ask_def waits_for_def held_id_def case_prod_beta Let_def)+
qed

lemma waits_book_update:
  assumes "waits_for sd n r (Suc (Suc k)) sg"
  shows "waits_for sd n r k (on_book_update sender i bk sg)"
proof -
  have "waits_for sd n r k sg" using assms stranded_mono [of n r "Suc (Suc k)" "snd sg" k] by (simp add: waits_for_def)
  then show ?thesis
    using waits_update(1) [OF waits_update(2) [OF assms]] waits_update(2) [OF waits_update(1) [OF assms]]
    by (simp add: on_book_update_def Let_def split: option.splits)
qed

lemma waits_act:
  assumes "waits_for sd n r (Suc (Suc k)) sg" "\<forall>m. act = Report m \<longrightarrow> n \<notin> named_ids m"
  shows "waits_for sd n r k (trader_act act sg)"
proof -
  obtain s g where sg: "sg = (s, g)" by fastforce
  then have w: "held_id sd s = Some n" "stranded n r (Suc (Suc k)) g" using assms by (simp_all add: waits_for_def)
  have m: "stranded n r (Suc k) g" "stranded n r k g" using stranded_mono [OF w(2)] by simp_all
  show ?thesis
    using assms waits_book_update [OF assms(1)] stranded_submit [OF m(1)] stranded_cancel [OF m(2)] stranded_replace [OF m(1)] stranded_report [OF m(2)]
    unfolding sg by (cases act) (simp_all add: waits_for_def)
qed

lemma waits_run:
  "waits_for sd n r (2 * length acts) sg \<Longrightarrow> \<forall>m. Report m \<in> set acts \<longrightarrow> n \<notin> named_ids m \<Longrightarrow> waits_for sd n r 0 (fold trader_act acts sg)"
proof (induction acts arbitrary: sg)
  case (Cons act acts)
  have "waits_for sd n r (2 * length acts) (trader_act act sg)" using Cons.prems by (intro waits_act) auto
  then show ?case using Cons.IH Cons.prems(2) by simp
qed simp

subsection \<open>Properties\<close>

text \<open>
  C26. The trader's position tracker follows the exchange's ledger. Feed any events of the exchange, through
  the gateway's reports, to the gated order management system of an account that knows, with its side,
  each order of the account that trades. Then the tracked cash and the tracked holding of every instrument move by
  exactly what the ledger's totals of the account move, also when the account trades with itself.
\<close>

theorem tracker_follows_ledger:
  assumes "tg_account_id g = a" "om_account_id (tg_oms g) = a" "\<forall>ev \<in> set evs. legs_known (tg_oms g) ev"
  shows "tg_cash (deliver_events evs g) - tg_cash g = cash (fold (\<lambda>ev L. ledger_apply L ev) evs L) a - cash L a \<and>
    (\<forall>i. tg_position i (deliver_events evs g) - tg_position i g = position (fold (\<lambda>ev L. ledger_apply L ev) evs L) a i - position L a i)"
  using events_move_alike [OF assms] by blast

definition sample_client :: "Side \<Rightarrow> ClientOrderId \<Rightarrow> ClientOrder" where
  "sample_client sd x = \<lparr>cl_account_id = 5, cl_client_order_id = x, cl_exchange_order_id = Some 1, cl_instrument_id = 7, cl_side = sd,
     cl_price = I64 100, cl_quantity = 3, cl_remaining_quantity = 3, cl_order_type = Limit, cl_time_in_force = GTC, cl_state = Live,
     cl_pending_action = NoAction, cl_last_reject_reason = NoReason\<rparr>"

definition sample_gated :: TraderRiskGatedOms where
  "sample_gated = (new_gated_oms 5 default_trader_limits)\<lparr>tg_oms := \<lparr>om_account_id = 5, om_next_client_order_id = 10,
     om_orders = [9 \<mapsto> sample_client Buy 9]\<rparr>\<rparr>"

lemmas sample_gated_simps = sample_gated_def new_gated_oms_def sample_client_def

theorem tracker_follows_ledger_witness:
  "tg_cash (deliver_events [TradeExecuted sample_trade] sample_gated) - tg_cash sample_gated =
     cash (ledger_apply empty_ledger (TradeExecuted sample_trade)) 5 - cash empty_ledger 5 \<and>
   tg_position 7 (deliver_events [TradeExecuted sample_trade] sample_gated) = 3"
proof -
  have "legs_known (tg_oms sample_gated) (TradeExecuted sample_trade)"
    by (simp add: legs_known_def knows_side_def sample_trade_def sample_gated_simps)
  then have t: "tg_cash (deliver_events [TradeExecuted sample_trade] sample_gated) - tg_cash sample_gated =
      cash (ledger_apply empty_ledger (TradeExecuted sample_trade)) 5 - cash empty_ledger 5"
    "tg_position 7 (deliver_events [TradeExecuted sample_trade] sample_gated) - tg_position 7 sample_gated =
      position (ledger_apply empty_ledger (TradeExecuted sample_trade)) 5 7 - position empty_ledger 5 7"
    using tracker_follows_ledger [of sample_gated 5 "[TradeExecuted sample_trade]" empty_ledger] by (simp_all add: sample_gated_simps)
  have "position (ledger_apply empty_ledger (TradeExecuted sample_trade)) 5 7 - position empty_ledger 5 7 = 3"
    by (simp add: on_trade_executed_def settle_leg_effect(3) sample_trade_def)
  moreover have "tg_position 7 sample_gated = 0" by (simp add: tg_position_def pt_position_def sample_gated_simps)
  ultimately show ?thesis using t by simp
qed

text \<open>
  C39. An order management system asks only for what the engine can take. For every history with fewer than
  2^64 - 1 blocks, in any interleaving of its threads with failed sends and messages of the exchange, the
  commands the gateway makes of its requests introduce every client order id at most once (the condition the
  engine's runs rest on), are all for its own account, cancel or replace only ids introduced before, and for
  each order there is at most one cancel or replace more than answers to one.
\<close>

theorem oms_requests_disciplined:
  assumes "oms_run acts (new_oms a) = (oms, ms)" "length acts < 2 ^ 64 - 1"
  shows "distinct (concat (map command_keys (commands_of ms))) \<and>
    (\<forall>pre c post. commands_of ms = pre @ c # post \<longrightarrow> command_account c = a \<and>
       (case target c of None \<Rightarrow> True | Some x \<Rightarrow> (a, x) \<in> set (concat (map command_keys pre)))) \<and>
    (\<forall>x. requests_on x ms \<le> length (filter (resolves x) acts) + 1)"
proof -
  have "ids_ok a oms ms \<and> length (introduced ms) \<le> length acts \<and>
    (\<forall>x. requests_on x ms \<le> length (filter (resolves x) acts) + (if busy x oms then 1 else 0))"
    using assms(1)
  proof (induction acts arbitrary: oms ms rule: rev_induct)
    case Nil
    then show ?case by (auto simp: ids_ok_def new_oms_def)
  next
    case (snoc act acts)
    obtain oms1 ms1 ms2 where 1: "oms_run acts (new_oms a) = (oms1, ms1)" "oms_act act oms1 = (oms, ms2)" "ms = ms1 @ ms2"
      using snoc.prems by (auto simp: oms_run_snoc split: prod.splits)
    note IH = snoc.IH [OF 1(1)]
    have "length (introduced ms2) \<le> 1" using oms_act_introduces [OF 1(2)] .
    moreover have "requests_on x ms \<le> length (filter (resolves x) (acts @ [act])) + (if busy x oms then 1 else 0)" for x
    proof -
      have "requests_on x ms1 \<le> length (filter (resolves x) acts) + (if busy x oms1 then 1 else 0)" using IH by blast
      then show ?thesis using oms_act_requests [OF 1(2), of x] 1(3) by (simp split: if_splits)
    qed
    ultimately show ?case using IH oms_act_ids [OF _ 1(2), of a ms1] 1(3) by auto
  qed
  then have ok: "ids_ok a oms ms" "length (introduced ms) < 2 ^ 64 - 1"
    "\<forall>x. requests_on x ms \<le> length (filter (resolves x) acts) + (if busy x oms then 1 else 0)" using assms(2) by auto
  have "introduced ms = map (\<lambda>j. (a, of_nat (Suc j))) [0..<length (introduced ms)]" using ok(1) unfolding ids_ok_def by blast
  moreover have "inj_on (\<lambda>j. (a, of_nat (Suc j) :: ClientOrderId)) {0..<length (introduced ms)}"
    using ok(2) by (intro inj_onI) (auto simp: word_of_nat_eq_iff take_bit_nat_eq_self simp del: of_nat_Suc)
  ultimately have "distinct (introduced ms)" by (metis distinct_map distinct_upt set_upt)
  moreover have "requests_on x ms \<le> length (filter (resolves x) acts) + 1" for x using ok(3) [rule_format, of x] by (auto split: if_splits)
  ultimately show ?thesis using ok(1) unfolding ids_ok_def introduced_def by blast
qed

theorem oms_requests_disciplined_witness:
  "let (oms, ms) = oms_run [Register 7 Buy (I64 100) 10 Limit GTC, Register 7 Sell (I64 110) 5 Limit GTC] (new_oms 5) in
     distinct (concat (map command_keys (commands_of ms))) \<and> length ms = 2"
proof -
  obtain oms ms where run: "oms_run [Register 7 Buy (I64 100) 10 Limit GTC, Register 7 Sell (I64 110) 5 Limit GTC] (new_oms 5) = (oms, ms)"
    by fastforce
  moreover have "length ms = 2" using run by (auto simp: register_new_def Let_def)
  ultimately show ?thesis using oms_requests_disciplined [OF run] by simp
qed

text \<open>
  C40. A refused replace strands its replacement. Let a live order be replaced and the engine refuse the command
  (for example because the order has just been filled). The gateway reports the refusal under the original id, so the
  original order is as before; but the replacement the system registered stays in \<open>PendingNew\<close> for good: after any further history, as long as no
  report names its id, an order the exchange never had, and the ids do not run out, it is unchanged, no cancel or replace of it is ever sent, and a market
  maker that took over its id on one side still holds it there and does nothing on that side, whatever price it wants.
\<close>

theorem refused_replace_strands_replacement:
  assumes "om_orders (tg_oms g) x = Some ord" "om_orders (tg_oms g) (om_next_client_order_id (tg_oms g)) = None"
    "om_account_id (tg_oms g) = tg_account_id g"
    "begin_replace x p q (tg_oms g) = Some (oms1, n, msg)" "to_command msg = Some (ReplaceOrder cmd)" "replace_verdict E cmd = Some reason"
    "held_id sd s = Some n" "\<forall>m. Report m \<in> set acts \<longrightarrow> n \<notin> named_ids m" "unat n + 2 * length acts + 1 < 2 ^ 64"
  shows "\<exists>E' evs r s2 g2. process E (ReplaceOrder cmd) = Some (E', evs) \<and>
    tg_order x (deliver_events evs (g\<lparr>tg_oms := oms1\<rparr>)) = Some (ord\<lparr>cl_last_reject_reason := reason\<rparr>) \<and>
    fold trader_act acts (s, deliver_events evs (g\<lparr>tg_oms := oms1\<rparr>)) = (s2, g2) \<and>
    tg_order n g2 = Some r \<and> cl_state r = PendingNew \<and> held_id sd s2 = Some n \<and>
    (\<forall>sender. tg_cancel_order sender n g2 = (g2, False)) \<and>
    (\<forall>sender p' q'. tg_replace_order sender n p' q' g2 = (g2, None)) \<and>
    (\<forall>sender desired. update_side sender (mm_config s2) sd (Some n) desired g2 = (g2, Some n))"
proof -
  obtain r where b: "can_request ord" "n = om_next_client_order_id (tg_oms g)" "om_account_id oms1 = tg_account_id g"
    "msg = MsgReplaceOrder \<lparr>orp_account_id = tg_account_id g, orp_original_client_order_id = x, orp_new_client_order_id = n,
       orp_instrument_id = cl_instrument_id ord, orp_new_price = p, orp_new_quantity = q\<rparr>"
    "om_orders oms1 x = Some (ord\<lparr>cl_pending_action := PendingReplace\<rparr>)" "om_orders oms1 n = Some r" "cl_state r = PendingNew" "cl_pending_action r = NoAction"
      "om_next_client_order_id oms1 = n + 1"
    using begin_replaceD [OF assms(4)] assms(1-3) by auto
  have cmd: "rc_account_id cmd = tg_account_id g" "rc_original_client_order_id cmd = x" using assms(5) b(4) by auto
  have ne: "n \<noteq> x" using assms(1,2) b(2) by auto
  have live: "cl_state ord \<noteq> PendingNew" using b(1) by (auto simp: can_request_def is_live_def)
  have p: "process E (ReplaceOrder cmd) = Some (reject_replace_order E cmd reason)" using process_replace_rejects [OF assms(6)] by simp
  let ?evs = "snd (reject_replace_order E cmd reason)" and ?g = "g\<lparr>tg_oms := oms1\<rparr>"
  let ?rej = "\<lparr>orj_account_id = tg_account_id g, orj_client_order_id = x, orj_instrument_id = rc_instrument_id cmd, orj_reason = reason\<rparr>"
  have reports: "concat (map (reports_to (tg_account_id g)) ?evs) = [MsgRejected ?rej]"
    using cmd by (simp add: reject_replace_order_def reports_to_def)
  let ?g' = "deliver_events ?evs ?g"
  have g': "?g' = tg_handle_message (MsgRejected ?rej) ?g" using reports by (simp add: deliver_events_def)
  then have oms': "tg_oms ?g' = fst (on_rejected ?rej oms1)" by simp
  have x: "om_orders (tg_oms ?g') x = Some (ord\<lparr>cl_last_reject_reason := reason\<rparr>)"
    unfolding oms' using b(1,5) live by (simp add: on_rejected_def Let_def can_request_def)
  have n: "om_orders (tg_oms ?g') n = Some r" unfolding oms' using b(6) ne by (simp add: on_rejected_def Let_def)
  have "unat (n + 1) = unat n + 1" using assms(9) by (simp add: unat_word_ariths)
  moreover have "om_next_client_order_id (tg_oms ?g') = n + 1" unfolding oms' using b(9) by (simp add: on_rejected_def Let_def)
  ultimately have "waits_for sd n r (2 * length acts) (s, ?g')" using assms(7,9) n b(7) by (simp add: waits_for_def stranded_def)
  from waits_run [OF this assms(8)] obtain s2 g2 where f: "fold trader_act acts (s, ?g') = (s2, g2)" "held_id sd s2 = Some n" "stranded n r 0 g2"
    by (cases "fold trader_act acts (s, ?g')") (simp add: waits_for_def)
  have "tg_order x ?g' = Some (ord\<lparr>cl_last_reject_reason := reason\<rparr>)" using x by (simp add: tg_order_def order_of_def)
  moreover have "tg_order n g2 = Some r" "cl_state r = PendingNew" using f(3) by (simp_all add: stranded_def tg_order_def order_of_def)
  moreover have "update_side sender (mm_config s2) sd (Some n) desired g2 = (g2, Some n)" for sender desired
    using f(3) by (simp add: stranded_def update_side_def tg_order_def order_of_def is_terminal_def)
  ultimately show ?thesis using p f(1,2) stranded_request [OF f(3)]
    by (intro exI [of _ "fst (reject_replace_order E cmd reason)"] exI [of _ ?evs] exI [of _ r] exI [of _ s2] exI [of _ g2]) simp
qed

text \<open>The holder of the stranded id sees a book, somebody cancels the original order, and the exchange confirms that.\<close>

definition sample_history :: "trader_action list" where
  "sample_history = [BookUpdate (\<lambda>_. True) 7 empty_order_book, CancelAny (\<lambda>_. True) 9,
     Report (MsgCancelled \<lparr>oca_account_id = 5, oca_client_order_id = 9, oca_exchange_order_id = 1, oca_instrument_id = 7\<rparr>)]"

theorem refused_replace_strands_replacement_witness:
  "\<exists>oms1 E' evs r s2 g2. begin_replace 9 (I64 101) 3 (tg_oms sample_gated) = Some (oms1, 10,
       MsgReplaceOrder \<lparr>orp_account_id = 5, orp_original_client_order_id = 9, orp_new_client_order_id = 10, orp_instrument_id = 7,
         orp_new_price = I64 101, orp_new_quantity = 3\<rparr>) \<and>
     process (new_engine [7] 4) (ReplaceOrder \<lparr>rc_command_sequence = 0, rc_account_id = 5, rc_original_client_order_id = 9,
       rc_new_client_order_id = 10, rc_instrument_id = 7, rc_new_price = I64 101, rc_new_quantity = 3\<rparr>) = Some (E', evs) \<and>
     fold trader_act sample_history ((new_market_maker (default_market_maker 7))\<lparr>mm_bid_order_id := Some 10\<rparr>,
       deliver_events evs (sample_gated\<lparr>tg_oms := oms1\<rparr>)) = (s2, g2) \<and>
     tg_order 10 g2 = Some r \<and> cl_state r = PendingNew \<and> mm_bid_order_id s2 = Some 10"
proof -
  let ?cmd = "\<lparr>rc_command_sequence = 0, rc_account_id = 5, rc_original_client_order_id = 9, rc_new_client_order_id = 10,
    rc_instrument_id = 7, rc_new_price = I64 101, rc_new_quantity = 3\<rparr> :: ReplaceOrderCommand"
  let ?msg = "MsgReplaceOrder \<lparr>orp_account_id = 5, orp_original_client_order_id = 9, orp_new_client_order_id = 10, orp_instrument_id = 7,
    orp_new_price = I64 101, orp_new_quantity = 3\<rparr>"
  obtain oms1 where b: "begin_replace 9 (I64 101) 3 (tg_oms sample_gated) = Some (oms1, 10, ?msg)"
    by (simp add: begin_replace_def sample_gated_simps can_request_def is_live_def Let_def)
  have "\<not> I64 101 \<le> 0" by (simp add: less_eq_i64_def ival_def zero_i64_def)
  then have v: "replace_verdict (new_engine [7] 4) ?cmd = Some UnknownOrderId"
    by (simp add: replace_verdict_def new_engine_state kMaxInstrumentId_def)
  have o: "om_orders (tg_oms sample_gated) 9 = Some (sample_client Buy 9)"
    "om_orders (tg_oms sample_gated) (om_next_client_order_id (tg_oms sample_gated)) = None"
    "om_account_id (tg_oms sample_gated) = tg_account_id sample_gated" by (simp_all add: sample_gated_simps)
  let ?s = "(new_market_maker (default_market_maker 7))\<lparr>mm_bid_order_id := Some 10\<rparr>"
  have h: "held_id Buy ?s = Some 10" "\<forall>m. Report m \<in> set sample_history \<longrightarrow> 10 \<notin> named_ids m"
    "unat (10 :: ClientOrderId) + 2 * length sample_history + 1 < 2 ^ 64" by (auto simp: held_id_def sample_history_def)
  have c: "to_command ?msg = Some (ReplaceOrder ?cmd)" by simp
  show ?thesis using refused_replace_strands_replacement [OF o b c v h] b unfolding held_id_def by auto
qed

end
