(* ===== verification/Strategy_Runtime.thy ===== *)
theory Strategy_Runtime
  imports Trader_Strategies Market_Data_Replay "HOL-Library.Multiset"
begin

text \<open>
  The strategy runtime (\<open>trader/strategies/strategy_runtime.cpp\<close>): sinks subscribed to an instrument are called with its book after every
  event. The sinks stand in a \<open>std::unordered_multimap\<close>, whose order among equal keys is not specified: where an insertion puts the
  new entry is an argument. A sink acts on a state of its own type, the strategies it closes over.
\<close>

type_synonym 's BookUpdateSink = "InstrumentId \<Rightarrow> OrderBook \<Rightarrow> 's \<Rightarrow> 's"

record 's StrategyRuntime =
  sr_sinks :: "(InstrumentId \<times> 's BookUpdateSink) list"

type_synonym 's sink_placement = "(InstrumentId \<times> 's BookUpdateSink) list \<Rightarrow> InstrumentId \<times> 's BookUpdateSink \<Rightarrow> (InstrumentId \<times> 's BookUpdateSink) list"

definition new_runtime :: "'s StrategyRuntime" where
  "new_runtime = \<lparr>sr_sinks = []\<rparr>"

definition subscribe :: "'s sink_placement \<Rightarrow> InstrumentId \<Rightarrow> 's BookUpdateSink \<Rightarrow> 's StrategyRuntime \<Rightarrow> 's StrategyRuntime" where
  "subscribe place instrument_id sink r = r\<lparr>sr_sinks := place (sr_sinks r) (instrument_id, sink)\<rparr>"

definition visited_instrument :: "Event \<Rightarrow> InstrumentId" where
  "visited_instrument event = (case event of
     EvAdd msg \<Rightarrow> ao_instrument_id msg | EvCancel msg \<Rightarrow> co_instrument_id msg | EvModify msg \<Rightarrow> mo_instrument_id msg
   | EvTrade msg \<Rightarrow> tr_instrument_id msg | EvClear msg \<Rightarrow> cb_instrument_id msg)"

definition on_event :: "Event \<Rightarrow> 's StrategyRuntime \<Rightarrow> BookManager \<times> 's \<Rightarrow> BookManager \<times> 's" where
  "on_event event r bs = (let
     instrument_id = visited_instrument event;
     (order_book, books) = bm_book_for instrument_id (fst bs)
   in (books, fold (\<lambda>(_, sink). sink instrument_id order_book) (filter (\<lambda>(key, _). key = instrument_id) (sr_sinks r)) (snd bs)))"

subsection \<open>Who is called\<close>

definition places :: "'s sink_placement \<Rightarrow> bool" where
  "places place \<longleftrightarrow> (\<forall>xs x. mset (place xs x) = add_mset x (mset xs))"

definition subscribe_all :: "'s sink_placement \<Rightarrow> (InstrumentId \<times> 's BookUpdateSink) list \<Rightarrow> 's StrategyRuntime" where
  "subscribe_all place subs = fold (\<lambda>(i, sink). subscribe place i sink) subs new_runtime"

lemma subscribe_all_sinks:
  assumes "places place"
  shows "mset (sr_sinks (subscribe_all place subs)) = mset subs"
proof -
  have "mset (sr_sinks (fold (\<lambda>(i, sink). subscribe place i sink) subs r)) = mset (sr_sinks r) + mset subs" for r
    using assms by (induction subs arbitrary: r) (auto simp: subscribe_def places_def)
  then show ?thesis by (simp add: subscribe_all_def new_runtime_def)
qed

text \<open>
  An event calls every sink subscribed to its instrument, each once, with the book as it stands, and no other; the books change only in that
  the instrument has one afterwards. If the sinks of the instrument commute, the outcome is that of calling them in the order
  of their subscription.
\<close>

theorem runtime_calls_subscribers:
  assumes "places place" "bm_book_for (visited_instrument event) books = (bk, books')"
    "\<forall>f g. (visited_instrument event, f) \<in> set subs \<longrightarrow> (visited_instrument event, g) \<in> set subs \<longrightarrow>
      f (visited_instrument event) bk \<circ> g (visited_instrument event) bk = g (visited_instrument event) bk \<circ> f (visited_instrument event) bk"
  shows "on_event event (subscribe_all place subs) (books, s) =
    (books', fold (\<lambda>(_, sink). sink (visited_instrument event) bk) (filter (\<lambda>(key, _). key = visited_instrument event) subs) s)"
proof -
  let ?i = "visited_instrument event" and ?f = "\<lambda>(_ :: InstrumentId, sink). sink (visited_instrument event) bk"
  have "mset (filter (\<lambda>(key, _). key = ?i) (sr_sinks (subscribe_all place subs))) = mset (filter (\<lambda>(key, _). key = ?i) subs)"
    using subscribe_all_sinks [OF assms(1)] by simp
  moreover have "?f x \<circ> ?f y = ?f y \<circ> ?f x"
    if "x \<in> set (filter (\<lambda>(key, _). key = ?i) subs)" "y \<in> set (filter (\<lambda>(key, _). key = ?i) subs)" for x y
    using that assms(3) by auto
  ultimately have "fold ?f (filter (\<lambda>(key, _). key = ?i) subs) = fold ?f (filter (\<lambda>(key, _). key = ?i) (sr_sinks (subscribe_all place subs)))"
    by (intro fold_multiset_equiv) simp_all
  then show ?thesis using assms(2) by (simp add: on_event_def Let_def)
qed

text \<open>Among sinks that do not commute the order is not that of subscription: here the one subscribed last is called first.\<close>

lemma runtime_order_unspecified:
  "\<exists>place. places place \<and> snd (on_event (EvTrade e) (subscribe_all place [(tr_instrument_id e, \<lambda>_ _ s. s @ [''first'']),
    (tr_instrument_id e, \<lambda>_ _ s. s @ [''second''])]) (books, [])) = [''second'', ''first'']"
  by (intro exI [of _ "\<lambda>xs x. x # xs"])
    (simp add: places_def on_event_def subscribe_all_def subscribe_def new_runtime_def visited_instrument_def split: prod.splits)

text \<open>The market maker of instrument 7 and a counter of the events of instrument 8 on one runtime.\<close>

definition quote_sink :: "(Message \<Rightarrow> bool) \<Rightarrow> ((MarketMakerStrategy \<times> TraderRiskGatedOms) \<times> nat) BookUpdateSink" where
  "quote_sink sender i bk = apfst (on_book_update sender i bk)"

definition sample_clear :: Event where
  "sample_clear = EvClear \<lparr>cb_sequence_number = 1, cb_timestamp_ns = 0, cb_instrument_id = 7\<rparr>"

theorem runtime_calls_subscribers_witness:
  "\<forall>sg. on_event sample_clear (subscribe_all (\<lambda>xs x. x # xs) [(8, \<lambda>_ _. apsnd Suc), (7, quote_sink (\<lambda>_. True))]) (new_book_manager, (sg, 0)) =
   (snd (bm_book_for 7 new_book_manager), (on_book_update (\<lambda>_. True) 7 empty_order_book sg, 0))"
  using runtime_calls_subscribers [of "\<lambda>xs x. x # xs" sample_clear new_book_manager "fst (bm_book_for 7 new_book_manager)"
      "snd (bm_book_for 7 new_book_manager)" "[(8, \<lambda>_ _. apsnd Suc), (7, quote_sink (\<lambda>_. True))]" "(_, 0)"]
  by (simp add: places_def visited_instrument_def quote_sink_def bm_book_for_def new_book_manager_def sample_clear_def)

end
