(* ===== verification/Lob_Book.thy ===== *)
theory Lob_Book
  imports Subscriber_Book
begin

text \<open>
  The stand-alone limit order book (\<open>LimitOrderBook\<close>): price levels, the book with its matching loop,
  and the index from order id to side and price. An iterator of a level's list is the identity of a node,
  as for the subscriber's books; dereferencing one that is not in its list, and \<open>front()\<close> of an empty list, are \<open>None\<close>.
\<close>

subsection \<open>Price levels\<close>

record LobOrder =
  lo_price :: Price
  lo_timestamp :: u64
  lo_quantity :: u32
  lo_id :: u32
  lo_side :: Side

record LobLevel =
  lv_order_map :: "u32 \<rightharpoonup> node"
  lv_orders :: "(node \<times> LobOrder) list"

definition new_lob_level :: LobLevel where
  "new_lob_level = \<lparr>lv_order_map = Map.empty, lv_orders = []\<rparr>"

definition lv_add :: "node \<Rightarrow> LobOrder \<Rightarrow> LobLevel \<Rightarrow> LobLevel" where
  "lv_add it order l = l\<lparr>lv_orders := lv_orders l @ [(it, order)], lv_order_map := (lv_order_map l)(lo_id order \<mapsto> it)\<rparr>"

definition lv_cancel :: "u32 \<Rightarrow> LobLevel \<Rightarrow> (LobLevel \<times> bool) option" where
  "lv_cancel ident l = (case lv_order_map l ident of
     None \<Rightarrow> Some (l, False)
   | Some it \<Rightarrow>
       if it \<in> fst ` set (lv_orders l)
       then Some (l\<lparr>lv_orders := filter (\<lambda>e. fst e \<noteq> it) (lv_orders l), lv_order_map := (lv_order_map l)(ident := None)\<rparr>, True)
       else None)"

definition lv_peek :: "LobLevel \<Rightarrow> LobOrder option" where
  "lv_peek l = (case lv_orders l of [] \<Rightarrow> None | e # _ \<Rightarrow> Some (snd e))"

definition lv_modify_front_quantity :: "u32 \<Rightarrow> LobLevel \<Rightarrow> LobLevel option" where
  "lv_modify_front_quantity qty l = (case lv_orders l of
     [] \<Rightarrow> None
   | (it, order) # es \<Rightarrow> Some (l\<lparr>lv_orders := (it, order\<lparr>lo_quantity := lo_quantity order - qty\<rparr>) # es\<rparr>))"

definition lv_pop :: "LobLevel \<Rightarrow> (LobOrder \<times> LobLevel) option" where
  "lv_pop l = (case lv_orders l of
     [] \<Rightarrow> None
   | (it, order) # es \<Rightarrow> Some (order, l\<lparr>lv_orders := es, lv_order_map := (lv_order_map l)(lo_id order := None)\<rparr>))"

definition lv_is_empty :: "LobLevel \<Rightarrow> bool" where
  "lv_is_empty l \<longleftrightarrow> lv_orders l = []"

definition lv_size :: "LobLevel \<Rightarrow> nat" where
  "lv_size l = length (lv_orders l)"

subsection \<open>The book\<close>

type_synonym lob_index = "u32 \<rightharpoonup> Side \<times> Price"

record LobBook =
  lb_asks :: "(Price, LobLevel) omap"
  lb_bids :: "(bid_price, LobLevel) omap"
  lb_order_index :: lob_index
  lb_next_node :: node

definition empty_lob_book :: LobBook where
  "empty_lob_book = \<lparr>lb_asks = [], lb_bids = [], lb_order_index = Map.empty, lb_next_node = 0\<rparr>"

text \<open>
  The loop of \<open>match\<close>, the same for both sides but for the price test; the iterator is always at the beginning of the map.
\<close>

definition order_total :: "('k \<times> LobLevel) list \<Rightarrow> nat" where
  "order_total levels = sum_list (map (\<lambda>e. length (lv_orders (snd e))) levels)"

function match_levels :: "('k \<Rightarrow> bool) \<Rightarrow> ('k, LobLevel) omap \<Rightarrow> u32 \<Rightarrow> u32 \<Rightarrow> lob_index \<Rightarrow>
  (('k, LobLevel) omap \<times> u32 \<times> lob_index) option" where
  "match_levels crosses [] orderQuantity filled index = Some ([], filled, index)"
| "match_levels crosses ((price, level) # levels) orderQuantity filled index =
     (if \<not> crosses price then Some ((price, level) # levels, filled, index)
      else case lv_peek level of
        None \<Rightarrow> None
      | Some front \<Rightarrow>
          if orderQuantity < lo_quantity front then
            (case lv_modify_front_quantity orderQuantity level of
               None \<Rightarrow> None
             | Some level' \<Rightarrow> Some ((price, level') # levels, filled + orderQuantity, index))
          else
            (case lv_pop level of
               None \<Rightarrow> None
             | Some (frontOrder, level') \<Rightarrow>
                 let levels' = (if lv_is_empty level' then levels else (price, level') # levels);
                     index' = index(lo_id frontOrder := None)
                 in if orderQuantity = lo_quantity front then Some (levels', filled + orderQuantity, index')
                    else match_levels crosses levels' (orderQuantity - lo_quantity frontOrder) (filled + lo_quantity frontOrder) index'))"
  by pat_completeness auto

termination
  by (relation "measure (\<lambda>(_, levels, _, _, _). order_total levels)")
    (auto simp: order_total_def lv_pop_def split: list.splits prod.splits)

definition lob_match :: "LobOrder \<Rightarrow> LobBook \<Rightarrow> (LobBook \<times> u32) option" where
  "lob_match order b = (case lo_side order of
     Buy \<Rightarrow> map_option (\<lambda>(levels, filled, index). (b\<lparr>lb_asks := levels, lb_order_index := index\<rparr>, filled))
       (match_levels (\<lambda>price. price \<le> lo_price order) (lb_asks b) (lo_quantity order) 0 (lb_order_index b))
   | Sell \<Rightarrow> map_option (\<lambda>(levels, filled, index). (b\<lparr>lb_bids := levels, lb_order_index := index\<rparr>, filled))
       (match_levels (\<lambda>price. bid_key price \<ge> lo_price order) (lb_bids b) (lo_quantity order) 0 (lb_order_index b)))"

text \<open>\<open>operator[]\<close> makes an empty level where there is none.\<close>

definition lob_rest :: "'k::linorder \<Rightarrow> node \<Rightarrow> LobOrder \<Rightarrow> ('k, LobLevel) omap \<Rightarrow> ('k, LobLevel) omap" where
  "lob_rest key it order levels =
     omap_put key (lv_add it order (case map_of levels key of None \<Rightarrow> new_lob_level | Some l \<Rightarrow> l)) levels"

definition lob_add :: "LobOrder \<Rightarrow> LobBook \<Rightarrow> (LobBook \<times> u32) option" where
  "lob_add order b = do {
     (b, filled) \<leftarrow> lob_match order b;
     let remainder = lo_quantity order - filled;
     Some (if remainder > 0 then
         (let it = lb_next_node b;
              b = (case lo_side order of
                Sell \<Rightarrow> b\<lparr>lb_asks := lob_rest (lo_price order) it order (lb_asks b)\<rparr>
              | Buy \<Rightarrow> b\<lparr>lb_bids := lob_rest (Bid (lo_price order)) it order (lb_bids b)\<rparr>)
          in b\<lparr>lb_order_index := (lb_order_index b)(lo_id order \<mapsto> (lo_side order, lo_price order)), lb_next_node := it + 1\<rparr>)
       else b, lo_id order)
   }"

text \<open>One branch of \<open>cancel\<close>; \<open>find\<close> at the end of the map is dereferenced all the same.\<close>

definition cancel_in :: "'k::linorder \<Rightarrow> u32 \<Rightarrow> ('k, LobLevel) omap \<Rightarrow> ('k, LobLevel) omap option" where
  "cancel_in key ident levels = do {
     level \<leftarrow> map_of levels key;
     (level', _) \<leftarrow> lv_cancel ident level;
     Some (if lv_is_empty level' then omap_erase key levels else omap_put key level' levels)
   }"

definition lob_cancel :: "u32 \<Rightarrow> LobBook \<Rightarrow> LobBook option" where
  "lob_cancel ident b = (case lb_order_index b ident of
     None \<Rightarrow> Some b
   | Some (Sell, price) \<Rightarrow> do {
       levels \<leftarrow> cancel_in price ident (lb_asks b);
       Some (b\<lparr>lb_asks := levels, lb_order_index := (lb_order_index b)(ident := None)\<rparr>)
     }
   | Some (Buy, price) \<Rightarrow> do {
       levels \<leftarrow> cancel_in (Bid price) ident (lb_bids b);
       Some (b\<lparr>lb_bids := levels, lb_order_index := (lb_order_index b)(ident := None)\<rparr>)
     })"

definition lob_best_ask :: "LobBook \<Rightarrow> Price option" where
  "lob_best_ask b = omap_first (lb_asks b)"

definition lob_best_bid :: "LobBook \<Rightarrow> Price option" where
  "lob_best_bid b = map_option bid_key (omap_first (lb_bids b))"

subsection \<open>Matching on a plain list\<close>

text \<open>
  What matching means, on the orders of one side in priority order: take from the front while it crosses,
  reducing the last order touched. The result is the quantity filled and the orders that stay.
\<close>

fun fill_list :: "(LobOrder \<Rightarrow> bool) \<Rightarrow> u32 \<Rightarrow> LobOrder list \<Rightarrow> u32 \<times> LobOrder list" where
  "fill_list crosses q [] = (0, [])"
| "fill_list crosses q (order # orders) =
     (if \<not> crosses order then (0, order # orders)
      else if q < lo_quantity order then (q, order\<lparr>lo_quantity := lo_quantity order - q\<rparr> # orders)
      else if q = lo_quantity order then (q, orders)
      else let (filled, left) = fill_list crosses (q - lo_quantity order) orders in (lo_quantity order + filled, left))"

lemma fill_list_step:
  "crosses order \<Longrightarrow> lo_quantity order < q \<Longrightarrow> fill_list crosses q (order # orders) =
    (lo_quantity order + fst (fill_list crosses (q - lo_quantity order) orders), snd (fill_list crosses (q - lo_quantity order) orders))"
  by (auto split: prod.splits)

declare fill_list.simps(2) [simp del]

text \<open>The cases of one step, the last one going on with the next order.\<close>

lemma fill_list_induct [case_names Nil Stop Part Whole More]:
  assumes "\<And>q. P q []" "\<And>q x xs. \<not> c x \<Longrightarrow> P q (x # xs)" "\<And>q x xs. c x \<Longrightarrow> q < lo_quantity x \<Longrightarrow> P q (x # xs)"
    "\<And>x xs. c x \<Longrightarrow> P (lo_quantity x) (x # xs)"
    "\<And>q x xs. c x \<Longrightarrow> lo_quantity x < q \<Longrightarrow> P (q - lo_quantity x) xs \<Longrightarrow> P q (x # xs)"
  shows "P q (os :: LobOrder list)"
proof (induction os arbitrary: q)
  case (Cons x xs)
  consider "\<not> c x" | "c x" "q < lo_quantity x" | "c x" "q = lo_quantity x" | "c x" "lo_quantity x < q" by force
  then show ?case using assms(2-5) Cons.IH by cases auto
qed (rule assms(1))

lemma fill_list_cases:
  "\<not> c x \<Longrightarrow> fill_list c q (x # xs) = (0, x # xs)"
  "c x \<Longrightarrow> q < lo_quantity x \<Longrightarrow> fill_list c q (x # xs) = (q, x\<lparr>lo_quantity := lo_quantity x - q\<rparr> # xs)"
  "c x \<Longrightarrow> fill_list c (lo_quantity x) (x # xs) = (lo_quantity x, xs)"
  by (simp_all add: fill_list.simps(2))

lemmas fill_list_rules = fill_list_cases fill_list_step

lemma fill_list_bound: "fst (fill_list c q os) \<le> q"
proof (induction q os rule: fill_list_induct [where c = c])
  case (More q x xs)
  then have "lo_quantity x + fst (fill_list c (q - lo_quantity x) xs) \<le> q"
    using order_less_imp_le [OF More(2)] by (auto simp: word_le_nat_alt unat_sub unat_plus_if')
  then show ?case using More by (simp add: fill_list_rules)
qed (simp_all add: fill_list_rules)

text \<open>The whole order was filled, or nothing that crosses is left.\<close>

lemma fill_list_exhausts:
  "sorted_wrt (\<lambda>x y. c y \<longrightarrow> c x) os \<Longrightarrow> fst (fill_list c q os) = q \<or> (\<forall>x \<in> set (snd (fill_list c q os)). \<not> c x)"
proof (induction q os rule: fill_list_induct [where c = c])
  case (More q x xs)
  then show ?case by (auto simp: fill_list_rules)
qed (auto simp: fill_list_rules)

text \<open>The orders that stay are the last ones, with their prices, sides and ids, and still have something to trade.\<close>

lemma fill_list_suffix:
  "\<exists>gone. map (\<lambda>x. (lo_id x, lo_side x, lo_price x)) os = gone @ map (\<lambda>x. (lo_id x, lo_side x, lo_price x)) (snd (fill_list c q os))"
proof (induction q os rule: fill_list_induct [where c = c])
  case (More q x xs)
  then show ?case by (auto simp: fill_list_rules intro: exI [of _ "_ # _"])
next
  case (Whole x xs)
  then show ?case by (auto simp: fill_list_rules intro: exI [of _ "[_]"])
qed (simp_all add: fill_list_rules)

lemma fill_list_image:
  assumes "\<And>x q. f (x\<lparr>lo_quantity := q\<rparr>) = f x"
  shows "f ` set (snd (fill_list c q os)) \<subseteq> f ` set os"
  by (induction q os rule: fill_list_induct [where c = c]) (auto simp: fill_list_rules assms)

lemma fill_list_ids: "lo_id ` set (snd (fill_list c q os)) \<subseteq> lo_id ` set os"
  by (rule fill_list_image) simp

lemma fill_list_positive: "\<forall>x \<in> set os. 0 < lo_quantity x \<Longrightarrow> \<forall>x \<in> set (snd (fill_list c q os)). 0 < lo_quantity x"
proof (induction q os rule: fill_list_induct [where c = c])
  case (Part q x xs)
  then have "0 < lo_quantity x - q" by (metis diff_eq_diff_eq diff_zero less_irrefl word_neq_0_conv)
  then show ?case using Part by (simp add: fill_list_rules)
qed (simp_all add: fill_list_rules)

subsection \<open>The matching loop refines it\<close>

definition side_orders :: "('k \<times> LobLevel) list \<Rightarrow> LobOrder list" where
  "side_orders levels = concat (map (\<lambda>e. map snd (lv_orders (snd e))) levels)"

lemma side_orders_simps [simp]:
  "side_orders [] = []" "side_orders ((k, l) # levels) = map snd (lv_orders l) @ side_orders levels"
  "side_orders (xs @ ys) = side_orders xs @ side_orders ys"
  by (simp_all add: side_orders_def)

definition node_map :: "(node \<times> LobOrder) list \<Rightarrow> u32 \<rightharpoonup> node" where
  "node_map es = map_of (map (\<lambda>e. (lo_id (snd e), fst e)) es)"

definition level_ok :: "Side \<Rightarrow> Price \<Rightarrow> node \<Rightarrow> LobLevel \<Rightarrow> bool" where
  "level_ok sd p n l \<longleftrightarrow> lv_orders l \<noteq> [] \<and> distinct (map fst (lv_orders l)) \<and> lv_order_map l = node_map (lv_orders l) \<and>
     (\<forall>e \<in> set (lv_orders l). fst e < n \<and> lo_side (snd e) = sd \<and> lo_price (snd e) = p \<and> 0 < lo_quantity (snd e))"

definition levels_ok :: "Side \<Rightarrow> ('k::linorder \<Rightarrow> Price) \<Rightarrow> node \<Rightarrow> ('k, LobLevel) omap \<Rightarrow> bool" where
  "levels_ok sd kp n levels \<longleftrightarrow> omap_sorted levels \<and> (\<forall>e \<in> set levels. level_ok sd (kp (fst e)) n (snd e))"

lemma levels_ok_Cons:
  "levels_ok sd kp n ((k, l) # levels) \<longleftrightarrow> level_ok sd (kp k) n l \<and> (\<forall>k' \<in> fst ` set levels. k < k') \<and> levels_ok sd kp n levels"
  by (auto simp: levels_ok_def omap_sorted_Cons)

abbreviation ids_of :: "LobOrder list \<Rightarrow> u32 set" where
  "ids_of os \<equiv> lo_id ` set os"

lemma node_map_tail:
  assumes "lo_id x \<notin> ids_of (map snd es)"
  shows "(node_map ((it, x) # es))(lo_id x := None) = node_map es"
proof -
  have "node_map es (lo_id x) = None" using assms by (auto simp: node_map_def map_of_eq_None_iff image_image)
  then show ?thesis by (auto simp: node_map_def fun_eq_iff)
qed

text \<open>Taking the first order off a level.\<close>

lemma level_ok_pop:
  assumes "level_ok sd p n l" "lv_orders l = (it, x) # es" "lo_id x \<notin> ids_of (map snd es)" "es \<noteq> []"
  shows "level_ok sd p n (l\<lparr>lv_orders := es, lv_order_map := (lv_order_map l)(lo_id x := None)\<rparr>)"
  using assms node_map_tail [OF assms(3)] by (auto simp: level_ok_def)

lemma match_levels_refines:
  assumes "levels_ok sd kp n levels" "distinct (map lo_id (side_orders levels))" "\<And>k. crosses k = cp (kp k)"
  shows "\<exists>levels' index'. match_levels crosses levels q filled index =
      Some (levels', filled + fst (fill_list (\<lambda>x. cp (lo_price x)) q (side_orders levels)), index') \<and>
    levels_ok sd kp n levels' \<and> side_orders levels' = snd (fill_list (\<lambda>x. cp (lo_price x)) q (side_orders levels)) \<and>
    index' = (\<lambda>i. if i \<in> ids_of (side_orders levels) - ids_of (side_orders levels') then None else index i)"
  using assms
proof (induction crosses levels q filled index rule: match_levels.induct)
  case (2 crosses k l levels q filled index)
  let ?c = "\<lambda>x. cp (lo_price x)"
  have lok: "level_ok sd (kp k) n l" and rest: "levels_ok sd kp n levels" "\<forall>k' \<in> fst ` set levels. k < k'"
    using 2(2) by (simp_all add: levels_ok_Cons)
  then obtain it x es where l: "lv_orders l = (it, x) # es" by (metis level_ok_def neq_Nil_conv surj_pair)
  have cx: "?c x = crosses k" using lok l 2(4) by (auto simp: level_ok_def)
  define l' where "l' = l\<lparr>lv_orders := es, lv_order_map := (lv_order_map l)(lo_id x := None)\<rparr>"
  define levels' where "levels' = (if es = [] then levels else (k, l') # levels)"
  have new: "lo_id x \<notin> ids_of (map snd es)" "lo_id x \<notin> ids_of (side_orders levels)" "distinct (map lo_id (side_orders levels'))"
    using 2(3) l by (auto simp: levels'_def l'_def)
  have so: "side_orders ((k, l) # levels) = x # side_orders levels'" using l by (simp add: levels'_def l'_def)
  have ok': "levels_ok sd kp n levels'"
    using rest level_ok_pop [OF lok l new(1)] by (auto simp: levels'_def l'_def levels_ok_Cons)
  have pop: "lv_pop l = Some (x, l')" "lv_is_empty l' \<longleftrightarrow> es = []" "lv_peek l = Some x"
    using l by (simp_all add: lv_pop_def lv_is_empty_def lv_peek_def l'_def)
  let ?F = "fill_list ?c q (side_orders ((k, l) # levels))"
  consider "\<not> crosses k" | "crosses k" "q < lo_quantity x" | "crosses k" "q = lo_quantity x" | "crosses k" "lo_quantity x < q" by force
  then show ?case
  proof cases
    case 1
    then have "?F = (0, side_orders ((k, l) # levels))" unfolding so using cx by (simp add: fill_list_rules)
    then show ?thesis using 1 2(2) by (intro exI [of _ "(k, l) # levels"] exI [of _ index]) (simp del: side_orders_simps)
  next
    case part: 2
    let ?x = "x\<lparr>lo_quantity := lo_quantity x - q\<rparr>"
    let ?l = "l\<lparr>lv_orders := (it, ?x) # es\<rparr>"
    have F: "?F = (q, ?x # side_orders levels')" unfolding so using cx part by (simp add: fill_list_rules)
    have "0 < lo_quantity x - q" using part(2) by (metis diff_eq_diff_eq diff_zero less_irrefl word_neq_0_conv)
    then have "levels_ok sd kp n ((k, ?l) # levels)"
      using 2(2) l by (auto simp: levels_ok_Cons level_ok_def node_map_def)
    moreover have "side_orders ((k, ?l) # levels) = ?x # side_orders levels'" using so l by simp
    moreover have "match_levels crosses ((k, l) # levels) q filled index = Some ((k, ?l) # levels, filled + q, index)"
      using part pop l by (simp add: lv_modify_front_quantity_def)
    moreover have "ids_of (side_orders ((k, l) # levels)) = ids_of (?x # side_orders levels')" unfolding so by simp
    ultimately show ?thesis using F
      by (intro exI [of _ "(k, ?l) # levels"] exI [of _ index]) (simp del: side_orders_simps add: fun_eq_iff)
  next
    case whole: 3
    have F: "?F = (q, side_orders levels')" unfolding so using cx whole by (simp add: fill_list_rules)
    have "match_levels crosses ((k, l) # levels) q filled index = Some (levels', filled + q, index(lo_id x := None))"
      using whole pop by (simp add: levels'_def)
    moreover have "ids_of (side_orders ((k, l) # levels)) - ids_of (side_orders levels') = {lo_id x}"
      unfolding so using new so 2(3) by auto
    ultimately show ?thesis using F ok'
      by (intro exI [of _ levels'] exI [of _ "index(lo_id x := None)"]) (simp del: side_orders_simps add: fun_eq_iff)
  next
    case more: 4
    let ?q = "q - lo_quantity x" and ?G = "fill_list ?c (q - lo_quantity x) (side_orders levels')"
    have F: "?F = (lo_quantity x + fst ?G, snd ?G)" unfolding so using cx more by (simp add: fill_list_rules)
    have step: "match_levels crosses ((k, l) # levels) q filled index =
        match_levels crosses levels' ?q (filled + lo_quantity x) (index(lo_id x := None))"
      using more pop by (auto simp: levels'_def Let_def)
    have "\<exists>levels'' index'. match_levels crosses levels' ?q (filled + lo_quantity x) (index(lo_id x := None)) =
        Some (levels'', filled + lo_quantity x + fst ?G, index') \<and> levels_ok sd kp n levels'' \<and> side_orders levels'' = snd ?G \<and>
        index' = (\<lambda>i. if i \<in> ids_of (side_orders levels') - ids_of (side_orders levels'') then None else (index(lo_id x := None)) i)"
      by (rule "2.IH" [of x "(x, l')" x l' levels' "index(lo_id x := None)"])
        (use more pop ok' new(3) 2(4) in \<open>simp_all add: levels'_def not_less_iff_gr_or_eq\<close>)
    then obtain levels'' where r: "match_levels crosses levels' ?q (filled + lo_quantity x) (index(lo_id x := None)) =
        Some (levels'', filled + lo_quantity x + fst ?G,
          \<lambda>i. if i \<in> ids_of (side_orders levels') - ids_of (side_orders levels'') then None else (index(lo_id x := None)) i)"
      "levels_ok sd kp n levels''" "side_orders levels'' = snd ?G" by blast
    have "lo_id x \<notin> ids_of (side_orders levels'')" using fill_list_ids [of ?c ?q "side_orders levels'"] r(3) so 2(3) by auto
    then have ix: "(\<lambda>i. if i \<in> ids_of (side_orders levels') - ids_of (side_orders levels'') then None else (index(lo_id x := None)) i) =
        (\<lambda>i. if i \<in> ids_of (side_orders ((k, l) # levels)) - ids_of (side_orders levels'') then None else index i)"
      unfolding so by (auto simp: fun_eq_iff)
    show ?thesis unfolding step r(1) F fst_conv snd_conv ix using r(2,3)
      by (intro exI conjI) (simp_all add: add.assoc del: side_orders_simps)
  qed
qed (simp add: levels_ok_def)

subsection \<open>Resting and cancelling\<close>

lemma map_eqI: "(\<And>k v. f k = Some v \<longleftrightarrow> g k = Some v) \<Longrightarrow> f = g"
  by (rule ext) (metis option.exhaust)

lemma while_append:
  "\<forall>y \<in> set xs. P y \<Longrightarrow> takeWhile P (xs @ ys) = xs @ takeWhile P ys" "\<forall>y \<in> set xs. P y \<Longrightarrow> dropWhile P (xs @ ys) = dropWhile P ys"
  by (induction xs) auto

lemma levels_ok_mono: "levels_ok sd kp n levels \<Longrightarrow> n \<le> m \<Longrightarrow> levels_ok sd kp m levels"
  by (fastforce simp: levels_ok_def level_ok_def)

lemma level_orders_key: "levels_ok sd kp n levels \<Longrightarrow> (k, l) \<in> set levels \<Longrightarrow> e \<in> set (lv_orders l) \<Longrightarrow> lo_price (snd e) = kp k"
  by (fastforce simp: levels_ok_def level_ok_def)

lemma side_orders_member: "x \<in> set (side_orders levels) \<longleftrightarrow> (\<exists>k l it. (k, l) \<in> set levels \<and> (it, x) \<in> set (lv_orders l))"
  by (force simp: side_orders_def)

lemma levels_ok_orders:
  "levels_ok sd kp n levels \<Longrightarrow> x \<in> set (side_orders levels) \<Longrightarrow> lo_side x = sd \<and> 0 < lo_quantity x \<and> (\<exists>k \<in> fst ` set levels. lo_price x = kp k)"
proof -
  assume ok: "levels_ok sd kp n levels" and "x \<in> set (side_orders levels)"
  then obtain k l it where x: "(k, l) \<in> set levels" "(it, x) \<in> set (lv_orders l)" by (auto simp: side_orders_member)
  then have "level_ok sd (kp k) n l" using ok by (auto simp: levels_ok_def)
  then show ?thesis using x by (force simp: level_ok_def)
qed

lemma level_ok_add:
  assumes "level_ok sd p n l \<or> l = new_lob_level" "lo_id x \<notin> ids_of (map snd (lv_orders l))" "lo_side x = sd" "lo_price x = p" "0 < lo_quantity x"
  shows "level_ok sd p (Suc n) (lv_add n x l)"
proof -
  have "node_map (lv_orders l @ [(n, x)]) = (node_map (lv_orders l))(lo_id x \<mapsto> n)"
  proof (rule ext)
    fix i
    have "node_map (lv_orders l) (lo_id x) = None" using assms(2) by (auto simp: node_map_def map_of_eq_None_iff image_image)
    then show "node_map (lv_orders l @ [(n, x)]) i = ((node_map (lv_orders l))(lo_id x \<mapsto> n)) i"
      by (auto simp: node_map_def map_add_def split: option.splits)
  qed
  then show ?thesis using assms by (fastforce simp: level_ok_def lv_add_def new_lob_level_def node_map_def)
qed

text \<open>A new order goes behind every order of its price and before every worse one.\<close>

lemma lob_rest_refines:
  assumes "levels_ok sd kp n levels" "lo_id x \<notin> ids_of (side_orders levels)" "lo_side x = sd" "lo_price x = kp key" "0 < lo_quantity x"
    and "\<And>k. le (kp k) \<longleftrightarrow> k \<le> key" "inj kp"
  shows "levels_ok sd kp (Suc n) (lob_rest key n x levels) \<and> side_orders (lob_rest key n x levels) =
    takeWhile (\<lambda>y. le (lo_price y)) (side_orders levels) @ x # dropWhile (\<lambda>y. le (lo_price y)) (side_orders levels)"
  using assms(1,2)
proof (induction levels)
  case Nil
  have "level_ok sd (kp key) (Suc n) (lv_add n x new_lob_level)" using level_ok_add [of sd "kp key" n new_lob_level x] assms(3-5) by (simp add: new_lob_level_def)
  then show ?case by (simp add: lob_rest_def levels_ok_def omap_sorted_def lv_add_def new_lob_level_def)
next
  case (Cons e levels)
  obtain k l where e: "e = (k, l)" by fastforce
  have ok: "level_ok sd (kp k) n l" "\<forall>k' \<in> fst ` set levels. k < k'" "levels_ok sd kp n levels"
    using Cons.prems(1) by (simp_all add: e levels_ok_Cons)
  have p: "lo_price y = kp k" if "y \<in> set (map snd (lv_orders l))" for y using ok(1) that by (auto simp: level_ok_def)
  have after: "\<not> le (lo_price y)" if ky: "key \<le> k" "y \<in> set (side_orders levels)" for y
  proof -
    obtain k' where "k' \<in> fst ` set levels" "lo_price y = kp k'" using levels_ok_orders [OF ok(3) ky(2)] by blast
    then show ?thesis using ok(2) assms(6) [of k'] ky(1) by (metis leD order_le_less_trans)
  qed
  have none: "map_of levels key = None" if "key \<le> k" using ok(2) that by (fastforce simp: map_of_eq_None_iff)
  consider "key < k" | "key = k" | "k < key" by force
  then show ?case
  proof cases
    case 1
    obtain e0 es where l: "lv_orders l = e0 # es" using ok(1) by (auto simp: level_ok_def neq_Nil_conv)
    have "\<not> le (lo_price (snd e0))" using p [of "snd e0"] l assms(6) [of k] 1 by (metis leD list.set_intros(1) list.simps(9))
    then have "takeWhile (\<lambda>y. le (lo_price y)) (side_orders (e # levels)) = []"
      "dropWhile (\<lambda>y. le (lo_price y)) (side_orders (e # levels)) = side_orders (e # levels)"
      using l by (simp_all add: e)
    moreover have "lob_rest key n x (e # levels) = (key, lv_add n x new_lob_level) # e # levels"
      using none 1 by (simp add: lob_rest_def e)
    moreover have "level_ok sd (kp key) (Suc n) (lv_add n x new_lob_level)"
      using level_ok_add [of sd "kp key" n new_lob_level x] assms(3-5) by (simp add: new_lob_level_def)
    moreover have "levels_ok sd kp (Suc n) (e # levels)" using levels_ok_mono [OF Cons.prems(1)] by simp
    ultimately show ?thesis using 1 ok(2) order_less_trans [OF 1]
      by (simp add: e levels_ok_Cons lv_add_def new_lob_level_def)
  next
    case 2
    have "\<forall>y \<in> set (side_orders levels). \<not> le (lo_price y)" using after 2 by blast
    then have all: "takeWhile (\<lambda>y. le (lo_price y)) (side_orders levels) = []" "dropWhile (\<lambda>y. le (lo_price y)) (side_orders levels) = side_orders levels"
      by (cases "side_orders levels"; simp)+
    have "\<forall>y \<in> set (map snd (lv_orders l)). le (lo_price y)" using p assms(6) [of k] eq_refl [OF 2 [symmetric]] by metis
    then have "takeWhile (\<lambda>y. le (lo_price y)) (side_orders (e # levels)) = map snd (lv_orders l)"
      "dropWhile (\<lambda>y. le (lo_price y)) (side_orders (e # levels)) = side_orders levels"
      using all while_append [of "map snd (lv_orders l)" "\<lambda>y. le (lo_price y)" "side_orders levels"] by (simp_all add: e)
    moreover have "lob_rest key n x (e # levels) = (k, lv_add n x l) # levels" using 2 by (simp add: lob_rest_def e)
    moreover have "level_ok sd (kp k) (Suc n) (lv_add n x l)"
      using level_ok_add [of sd "kp k" n l x] ok(1) Cons.prems(2) assms(3-5) 2 by (auto simp: e)
    moreover have "levels_ok sd kp (Suc n) levels" using levels_ok_mono [OF ok(3)] by simp
    ultimately show ?thesis using ok(2) by (auto simp: levels_ok_Cons lv_add_def)
  next
    case 3
    have "\<forall>y \<in> set (map snd (lv_orders l)). le (lo_price y)" using p assms(6) [of k] order_less_imp_le [OF 3] by metis
    then have "takeWhile (\<lambda>y. le (lo_price y)) (side_orders (e # levels)) = map snd (lv_orders l) @ takeWhile (\<lambda>y. le (lo_price y)) (side_orders levels)"
      "dropWhile (\<lambda>y. le (lo_price y)) (side_orders (e # levels)) = dropWhile (\<lambda>y. le (lo_price y)) (side_orders levels)"
      using while_append [of "map snd (lv_orders l)" "\<lambda>y. le (lo_price y)" "side_orders levels"] by (simp_all add: e)
    moreover have "lob_rest key n x (e # levels) = e # lob_rest key n x levels" using 3 by (auto simp: lob_rest_def e)
    moreover have "fst ` set (lob_rest key n x levels) = insert key (fst ` set levels)" by (simp add: lob_rest_def omap_put_keys)
    moreover have "level_ok sd (kp k) (Suc n) l" using ok(1) by (auto simp: level_ok_def)
    ultimately show ?thesis using Cons.IH [OF ok(3)] Cons.prems(2) ok(2) 3 by (auto simp: e levels_ok_Cons)
  qed
qed

lemma node_map_iff:
  assumes "distinct (map lo_id (map snd es))"
  shows "node_map es i = Some it \<longleftrightarrow> (\<exists>x. (it, x) \<in> set es \<and> lo_id x = i)"
proof -
  have "distinct (map fst (map (\<lambda>e. (lo_id (snd e), fst e)) es))" using assms by (simp add: comp_def)
  then show ?thesis by (force simp: node_map_def)
qed

text \<open>Cancelling takes exactly the order with that id out of its level.\<close>

lemma level_cancel:
  assumes ok: "level_ok sd p n l" and d: "distinct (map lo_id (map snd (lv_orders l)))" and i: "i \<in> ids_of (map snd (lv_orders l))"
  shows "\<exists>l'. lv_cancel i l = Some (l', True) \<and> map snd (lv_orders l') = filter (\<lambda>x. lo_id x \<noteq> i) (map snd (lv_orders l)) \<and>
    (lv_orders l' \<noteq> [] \<longrightarrow> level_ok sd p n l')"
proof -
  obtain it x where x: "(it, x) \<in> set (lv_orders l)" "lo_id x = i" using i by auto
  then have m: "lv_order_map l i = Some it" using ok node_map_iff [OF d] by (auto simp: level_ok_def)
  let ?l = "l\<lparr>lv_orders := filter (\<lambda>e. fst e \<noteq> it) (lv_orders l), lv_order_map := (lv_order_map l)(i := None)\<rparr>"
  have inj: "inj_on fst (set (lv_orders l))" "inj_on (lo_id \<circ> snd) (set (lv_orders l))"
    using ok d by (simp_all add: level_ok_def distinct_map)
  have same: "fst e \<noteq> it \<longleftrightarrow> lo_id (snd e) \<noteq> i" if "e \<in> set (lv_orders l)" for e
    using inj_onD [OF inj(1), of e "(it, x)"] inj_onD [OF inj(2), of e "(it, x)"] that x by (cases e) auto
  then have f: "filter (\<lambda>e. fst e \<noteq> it) (lv_orders l) = filter (\<lambda>e. lo_id (snd e) \<noteq> i) (lv_orders l)" by (rule filter_cong [OF refl])
  then have o: "map snd (lv_orders ?l) = filter (\<lambda>x. lo_id x \<noteq> i) (map snd (lv_orders l))" by (simp add: filter_map comp_def)
  have "node_map (lv_orders ?l) = (node_map (lv_orders l))(i := None)"
  proof (rule map_eqI)
    fix j t
    have "distinct (map lo_id (map snd (lv_orders ?l)))" unfolding o using d by (simp add: distinct_map_filter)
    then show "node_map (lv_orders ?l) j = Some t \<longleftrightarrow> ((node_map (lv_orders l))(i := None)) j = Some t"
      using node_map_iff [OF d] node_map_iff [of "lv_orders ?l" j t] by (auto simp: f)
  qed
  then have "level_ok sd p n ?l" if "lv_orders ?l \<noteq> []"
    using ok that by (auto simp: level_ok_def distinct_map_filter)
  moreover have "lv_cancel i l = Some (?l, True)" using m x(1) by (force simp: lv_cancel_def)
  ultimately show ?thesis using o by blast
qed

lemma cancel_in_refines:
  assumes "levels_ok sd kp n levels" "distinct (map lo_id (side_orders levels))" "x \<in> set (side_orders levels)" "lo_price x = kp key" "inj kp"
  shows "\<exists>levels'. cancel_in key (lo_id x) levels = Some levels' \<and> levels_ok sd kp n levels' \<and>
    side_orders levels' = filter (\<lambda>y. lo_id y \<noteq> lo_id x) (side_orders levels)"
proof -
  obtain k l it where m: "(k, l) \<in> set levels" "(it, x) \<in> set (lv_orders l)" using assms(3) by (auto simp: side_orders_member)
  have "kp k = kp key" using level_orders_key [OF assms(1) m] assms(4) by simp
  then have k: "k = key" using assms(5) by (simp add: inj_eq)
  obtain pre post where lv: "levels = pre @ (key, l) # post" using m(1) k by (metis split_list)
  have so: "omap_sorted levels" using assms(1) by (simp add: levels_ok_def)
  have keys: "key \<notin> fst ` set pre" "key \<notin> fst ` set post"
    using so by (auto simp: lv omap_sorted_def sorted_wrt_append)
  then have mo: "map_of levels key = Some l" by (simp add: lv map_add_def map_of_eq_None_iff [THEN iffD2])
  have lok: "level_ok sd (kp key) n l" using assms(1) m k by (auto simp: levels_ok_def)
  have d: "distinct (map lo_id (map snd (lv_orders l)))" using assms(2) by (simp add: lv)
  have mem: "lo_id x \<in> ids_of (map snd (lv_orders l))" using m(2) by force
  have "lo_id x \<notin> ids_of (side_orders pre)" "lo_id x \<notin> ids_of (side_orders post)"
    using assms(2) mem unfolding lv side_orders_simps map_append distinct_append set_append set_map by blast+
  then have other: "filter (\<lambda>y. lo_id y \<noteq> lo_id x) (side_orders pre) = side_orders pre" "filter (\<lambda>y. lo_id y \<noteq> lo_id x) (side_orders post) = side_orders post"
    by (auto simp: filter_id_conv image_iff)
  from mem
  obtain l' where l': "lv_cancel (lo_id x) l = Some (l', True)" "map snd (lv_orders l') = filter (\<lambda>y. lo_id y \<noteq> lo_id x) (map snd (lv_orders l))"
    "lv_orders l' \<noteq> [] \<longrightarrow> level_ok sd (kp key) n l'" using level_cancel [OF lok d] by blast
  show ?thesis
  proof (cases "lv_orders l' = []")
    case True
    have "filter (\<lambda>e. fst e \<noteq> key) pre = pre" "filter (\<lambda>e. fst e \<noteq> key) post = post"
      using keys by (auto simp: filter_id_conv image_iff)
    then have "omap_erase key levels = pre @ post" by (simp add: lv omap_erase_def)
    moreover have "levels_ok sd kp n (pre @ post)" using assms(1) by (auto simp: lv levels_ok_def omap_sorted_def sorted_wrt_append)
    moreover have "filter (\<lambda>y. lo_id y \<noteq> lo_id x) (map snd (lv_orders l)) = []" using True l'(2) by simp
    ultimately show ?thesis using mo l'(1) True other by (simp add: cancel_in_def lv_is_empty_def) (simp add: lv)
  next
    case False
    have "omap_put key l' levels = pre @ (key, l') # post"
      using so unfolding lv by (induction pre) (auto simp: omap_sorted_Cons)
    moreover have "levels_ok sd kp n (pre @ (key, l') # post)"
      using assms(1) l'(3) False by (auto simp: lv levels_ok_def omap_sorted_def)
    ultimately show ?thesis using mo l'(1,2) False other by (simp add: cancel_in_def lv_is_empty_def) (simp add: lv)
  qed
qed

end
