(* ===== verification/Lob_Properties.thy ===== *)
theory Lob_Properties
  imports Lob_Book
begin

text \<open>
  The properties of the stand-alone limit order book: every run of additions and cancellations refines
  matching on two plain lists. It is price-time matching as long as every order is either filled at once or rests untouched: an order that is
  filled in part comes to rest with its whole quantity.
\<close>

subsection \<open>The invariant\<close>

definition order_key :: "LobOrder \<Rightarrow> u32 \<times> Side \<times> Price" where
  "order_key x = (lo_id x, lo_side x, lo_price x)"

definition index_of :: "LobOrder list \<Rightarrow> lob_index" where
  "index_of os = map_of (map order_key os)"

abbreviation book_orders :: "LobBook \<Rightarrow> LobOrder list" where
  "book_orders b \<equiv> side_orders (lb_asks b) @ side_orders (lb_bids b)"

definition lob_ok :: "LobBook \<Rightarrow> bool" where
  "lob_ok b \<longleftrightarrow> levels_ok Sell id (lb_next_node b) (lb_asks b) \<and> levels_ok Buy bid_key (lb_next_node b) (lb_bids b) \<and>
     distinct (map lo_id (book_orders b)) \<and> lb_order_index b = index_of (book_orders b) \<and>
     (\<forall>x \<in> set (side_orders (lb_asks b)). \<forall>y \<in> set (side_orders (lb_bids b)). lo_price y < lo_price x)"

definition book_lists :: "LobBook \<Rightarrow> LobOrder list \<times> LobOrder list" where
  "book_lists b = (side_orders (lb_asks b), side_orders (lb_bids b))"

text \<open>
  The book as the two lists, asks from the cheapest and bids from the dearest, each price in order of arrival.
  Price-time matching, as the project describes it: an order takes what crosses, the best price first and at one price the oldest order first,
  and what is left of it goes to rest behind the orders of its price.
\<close>

definition price_time_fill :: "LobOrder \<Rightarrow> LobOrder list \<times> LobOrder list \<Rightarrow> u32 \<times> LobOrder list \<times> LobOrder list" where
  "price_time_fill order book = (let (asks, bids) = book; p = lo_price order; q = lo_quantity order in
     case lo_side order of
       Buy \<Rightarrow> (let (filled, asks') = fill_list (\<lambda>x. lo_price x \<le> p) q asks in (filled, asks', bids))
     | Sell \<Rightarrow> (let (filled, bids') = fill_list (\<lambda>x. p \<le> lo_price x) q bids in (filled, asks, bids')))"

definition price_time_rest :: "LobOrder \<Rightarrow> LobOrder list \<times> LobOrder list \<Rightarrow> LobOrder list \<times> LobOrder list" where
  "price_time_rest order book = (let (asks, bids) = book; p = lo_price order in
     case lo_side order of
       Buy \<Rightarrow> (asks, takeWhile (\<lambda>y. p \<le> lo_price y) bids @ order # dropWhile (\<lambda>y. p \<le> lo_price y) bids)
     | Sell \<Rightarrow> (takeWhile (\<lambda>y. lo_price y \<le> p) asks @ order # dropWhile (\<lambda>y. lo_price y \<le> p) asks, bids))"

definition price_time_add :: "LobOrder \<Rightarrow> LobOrder list \<times> LobOrder list \<Rightarrow> LobOrder list \<times> LobOrder list" where
  "price_time_add order book = (let (filled, book') = price_time_fill order book in
     if filled = lo_quantity order then book' else price_time_rest (order\<lparr>lo_quantity := lo_quantity order - filled\<rparr>) book')"

text \<open>What the code does instead: if anything is left of the order, it goes to rest \<^emph>\<open>as submitted\<close>.\<close>

definition lob_spec_add :: "LobOrder \<Rightarrow> LobOrder list \<times> LobOrder list \<Rightarrow> LobOrder list \<times> LobOrder list" where
  "lob_spec_add order book = (let (asks, bids) = book; p = lo_price order; q = lo_quantity order in
     case lo_side order of
       Buy \<Rightarrow> (let (filled, asks') = fill_list (\<lambda>x. lo_price x \<le> p) q asks in
         (asks', if filled = q then bids else takeWhile (\<lambda>y. p \<le> lo_price y) bids @ order # dropWhile (\<lambda>y. p \<le> lo_price y) bids))
     | Sell \<Rightarrow> (let (filled, bids') = fill_list (\<lambda>x. p \<le> lo_price x) q bids in
         (if filled = q then asks else takeWhile (\<lambda>y. lo_price y \<le> p) asks @ order # dropWhile (\<lambda>y. lo_price y \<le> p) asks, bids')))"

definition lob_spec_cancel :: "u32 \<Rightarrow> LobOrder list \<times> LobOrder list \<Rightarrow> LobOrder list \<times> LobOrder list" where
  "lob_spec_cancel ident book = map_prod (filter (\<lambda>x. lo_id x \<noteq> ident)) (filter (\<lambda>x. lo_id x \<noteq> ident)) book"

lemma index_of_iff:
  assumes "distinct (map lo_id os)"
  shows "index_of os i = Some v \<longleftrightarrow> (i, v) \<in> order_key ` set os"
proof -
  have "distinct (map fst (map order_key os))" using assms by (simp add: order_key_def comp_def)
  then show ?thesis by (simp add: index_of_def)
qed

lemma order_key_ids: "fst ` order_key ` A = lo_id ` A"
  by (simp add: order_key_def image_image)

lemma lob_okD:
  assumes "lob_ok b"
  shows "levels_ok Sell id (lb_next_node b) (lb_asks b)" "levels_ok Buy bid_key (lb_next_node b) (lb_bids b)"
    "distinct (map lo_id (book_orders b))" "lb_order_index b = index_of (book_orders b)"
    "x \<in> set (side_orders (lb_asks b)) \<Longrightarrow> y \<in> set (side_orders (lb_bids b)) \<Longrightarrow> lo_price y < lo_price x"
  using assms by (auto simp: lob_ok_def)

lemma levels_sorted:
  assumes "levels_ok sd kp n levels" "\<And>k k'. k \<le> k' \<Longrightarrow> R (kp k) (kp k')"
  shows "sorted_wrt (\<lambda>x y. R (lo_price x) (lo_price y)) (side_orders levels)"
  using assms(1)
proof (induction levels)
  case (Cons e levels)
  obtain k l where e: "e = (k, l)" by fastforce
  have ok: "level_ok sd (kp k) n l" "\<forall>k' \<in> fst ` set levels. k < k'" "levels_ok sd kp n levels"
    using Cons.prems by (simp_all add: e levels_ok_Cons)
  have p: "lo_price (snd a) = kp k" if "a \<in> set (lv_orders l)" for a using ok(1) that by (simp add: level_ok_def)
  have "R (kp k) (lo_price y)" if y: "y \<in> set (side_orders levels)" for y
  proof -
    obtain k' where "k' \<in> fst ` set levels" "lo_price y = kp k'" using levels_ok_orders [OF ok(3) y] by blast
    then show ?thesis using ok(2) assms(2) [of k k'] by fastforce
  qed
  moreover have "sorted_wrt (\<lambda>x y. R (lo_price x) (lo_price y)) (map snd (lv_orders l))"
    using p assms(2) [of k k] by (intro sorted_wrt_mono_rel [OF _ sorted_wrt_true]) auto
  ultimately show ?case using Cons.IH [OF ok(3)] p by (simp add: e sorted_wrt_append)
qed simp

text \<open>The index after a side has lost the orders at its front.\<close>

lemma index_after_fill:
  assumes d: "distinct (map lo_id all)" "distinct (map lo_id all')" and gone: "map order_key os = gone @ map order_key os'"
    and a: "set all = set os \<union> set rest" "set all' = set os' \<union> set rest" and disj: "ids_of os \<inter> ids_of rest = {}"
  shows "(\<lambda>i. if i \<in> ids_of os - ids_of os' then None else index_of all i) = index_of all'"
proof (rule map_eqI)
  fix i v
  have sub: "order_key ` set os' \<subseteq> order_key ` set os" using arg_cong [OF gone, of set] by auto
  have same: "order_key x \<in> order_key ` set os'" if x: "x \<in> set os" "lo_id x \<in> ids_of os'" for x
  proof -
    obtain y where y: "y \<in> set os'" "lo_id y = lo_id x" using x(2) by auto
    then obtain z where z: "z \<in> set os" "order_key z = order_key y" using sub by fastforce
    then have "lo_id z = lo_id x" using y(2) by (simp add: order_key_def)
    then have "z = x" using d(1) x(1) z(1) a(1) by (auto simp: distinct_map dest: inj_onD)
    then show ?thesis using z(2) y(1) by force
  qed
  have same': "(i, v) \<in> order_key ` set os'" if iv: "(i, v) \<in> order_key ` set os" "i \<in> ids_of os'"
  proof -
    obtain x where x: "x \<in> set os" "order_key x = (i, v)" using iv(1) by auto
    then have "lo_id x = i" by (simp add: order_key_def)
    then show ?thesis using same [of x] x iv(2) by simp
  qed
  have ids: "(i, v) \<in> order_key ` A \<Longrightarrow> i \<in> lo_id ` A" for A by (auto simp: order_key_def)
  have "(i, v) \<in> order_key ` set all \<and> (i \<in> ids_of os \<longrightarrow> i \<in> ids_of os') \<longleftrightarrow> (i, v) \<in> order_key ` set all'"
    unfolding a image_Un using same' sub ids [of "set rest"] ids [of "set os"] ids [of "set os'"] disj by blast
  then show "(if i \<in> ids_of os - ids_of os' then None else index_of all i) = Some v \<longleftrightarrow> index_of all' i = Some v"
    using index_of_iff [OF d(1), of i v] index_of_iff [OF d(2), of i v] by auto
qed

lemma fill_gone: "\<exists>gone. map order_key os = gone @ map order_key (snd (fill_list c q os))"
  using fill_list_suffix [of os c q] by (simp add: order_key_def [abs_def])

lemma distinct_after_fill:
  assumes "distinct (map lo_id os)"
  shows "distinct (map lo_id (snd (fill_list c q os)))"
proof -
  obtain gone where "map order_key os = gone @ map order_key (snd (fill_list c q os))" using fill_gone by blast
  then have "map fst (map order_key os) = map fst gone @ map fst (map order_key (snd (fill_list c q os)))" by simp
  then have "map lo_id os = map fst gone @ map lo_id (snd (fill_list c q os))" by (simp add: order_key_def comp_def)
  then show ?thesis using assms by simp
qed

lemma prices_after_fill: "lo_price ` set (snd (fill_list c q os)) \<subseteq> lo_price ` set os"
  by (rule fill_list_image) simp

subsection \<open>Matching\<close>

text \<open>The index and the uncrossed book survive a fill of either side.\<close>

lemma lob_match_refines:
  assumes ok: "lob_ok b"
  shows "\<exists>b'. lob_match order b = Some (b', case lo_side order of
        Buy \<Rightarrow> fst (fill_list (\<lambda>x. lo_price x \<le> lo_price order) (lo_quantity order) (side_orders (lb_asks b)))
      | Sell \<Rightarrow> fst (fill_list (\<lambda>x. lo_price order \<le> lo_price x) (lo_quantity order) (side_orders (lb_bids b)))) \<and>
    lob_ok b' \<and> lb_next_node b' = lb_next_node b \<and> book_lists b' = (case lo_side order of
        Buy \<Rightarrow> (snd (fill_list (\<lambda>x. lo_price x \<le> lo_price order) (lo_quantity order) (side_orders (lb_asks b))), side_orders (lb_bids b))
      | Sell \<Rightarrow> (side_orders (lb_asks b), snd (fill_list (\<lambda>x. lo_price order \<le> lo_price x) (lo_quantity order) (side_orders (lb_bids b)))))"
proof (cases "lo_side order")
  case Buy
  note d = lob_okD [OF ok]
  let ?c = "\<lambda>x. lo_price x \<le> lo_price order" and ?as = "side_orders (lb_asks b)" and ?bs = "side_orders (lb_bids b)"
  let ?F = "fill_list ?c (lo_quantity order) ?as"
  have da: "distinct (map lo_id ?as)" "distinct (map lo_id ?bs)" "ids_of ?as \<inter> ids_of ?bs = {}" using d(3) by auto
  obtain asks' index' where m: "match_levels (\<lambda>p. p \<le> lo_price order) (lb_asks b) (lo_quantity order) 0 (lb_order_index b) = Some (asks', 0 + fst ?F, index')"
    "levels_ok Sell id (lb_next_node b) asks'" "side_orders asks' = snd ?F"
    "index' = (\<lambda>i. if i \<in> ids_of ?as - ids_of (side_orders asks') then None else lb_order_index b i)"
    using match_levels_refines [OF d(1) da(1), where crosses = "\<lambda>p. p \<le> lo_price order" and cp = "\<lambda>p. p \<le> lo_price order" and
      q = "lo_quantity order" and filled = 0 and index = "lb_order_index b"] unfolding id_apply by blast
  let ?b = "b\<lparr>lb_asks := asks', lb_order_index := index'\<rparr>"
  have "ids_of (side_orders asks') \<inter> ids_of ?bs = {}" using da(3) fill_list_ids [of ?c "lo_quantity order" ?as] unfolding m(3) by blast
  then have dist: "distinct (map lo_id (side_orders asks' @ ?bs))"
    using distinct_after_fill [OF da(1), of ?c "lo_quantity order"] da(2) m(3) by simp
  obtain gone where "map order_key ?as = gone @ map order_key (side_orders asks')" using fill_gone m(3) by metis
  then have "index' = index_of (side_orders asks' @ ?bs)"
    unfolding m(4) d(4) by (rule index_after_fill [OF d(3) dist, where rest = ?bs]) (use da(3) in auto)
  moreover have "lo_price y < lo_price x" if xy: "x \<in> set (side_orders asks')" "y \<in> set ?bs" for x y
  proof -
    have "lo_price x \<in> lo_price ` set ?as" using xy(1) prices_after_fill [of ?c "lo_quantity order" ?as] unfolding m(3) by blast
    then obtain z where "z \<in> set ?as" "lo_price z = lo_price x" by auto
    then show ?thesis using d(5) [of z y] xy(2) by simp
  qed
  ultimately have "lob_ok ?b" using m(2) d(2) dist by (simp add: lob_ok_def)
  then show ?thesis using Buy m(1,3) by (simp add: lob_match_def book_lists_def)
next
  case Sell
  note d = lob_okD [OF ok]
  let ?c = "\<lambda>x. lo_price order \<le> lo_price x" and ?as = "side_orders (lb_asks b)" and ?bs = "side_orders (lb_bids b)"
  let ?F = "fill_list ?c (lo_quantity order) ?bs"
  have da: "distinct (map lo_id ?as)" "distinct (map lo_id ?bs)" "ids_of ?as \<inter> ids_of ?bs = {}" using d(3) by auto
  obtain bids' index' where m: "match_levels (\<lambda>p. bid_key p \<ge> lo_price order) (lb_bids b) (lo_quantity order) 0 (lb_order_index b) = Some (bids', 0 + fst ?F, index')"
    "levels_ok Buy bid_key (lb_next_node b) bids'" "side_orders bids' = snd ?F"
    "index' = (\<lambda>i. if i \<in> ids_of ?bs - ids_of (side_orders bids') then None else lb_order_index b i)"
    using match_levels_refines [OF d(2) da(2), where crosses = "\<lambda>p. bid_key p \<ge> lo_price order" and cp = "\<lambda>p. lo_price order \<le> p" and
      q = "lo_quantity order" and filled = 0 and index = "lb_order_index b"] by blast
  let ?b = "b\<lparr>lb_bids := bids', lb_order_index := index'\<rparr>"
  have "ids_of ?as \<inter> ids_of (side_orders bids') = {}" using da(3) fill_list_ids [of ?c "lo_quantity order" ?bs] unfolding m(3) by blast
  then have dist: "distinct (map lo_id (?as @ side_orders bids'))"
    using distinct_after_fill [OF da(2), of ?c "lo_quantity order"] da(1) m(3) by simp
  obtain gone where "map order_key ?bs = gone @ map order_key (side_orders bids')" using fill_gone m(3) by metis
  then have "index' = index_of (?as @ side_orders bids')"
    unfolding m(4) d(4) by (rule index_after_fill [OF d(3) dist, where rest = ?as]) (use da(3) in auto)
  moreover have "lo_price y < lo_price x" if xy: "x \<in> set ?as" "y \<in> set (side_orders bids')" for x y
  proof -
    have "lo_price y \<in> lo_price ` set ?bs" using xy(2) prices_after_fill [of ?c "lo_quantity order" ?bs] unfolding m(3) by blast
    then obtain z where "z \<in> set ?bs" "lo_price z = lo_price y" by auto
    then show ?thesis using d(5) [of x z] xy(1) by simp
  qed
  ultimately have "lob_ok ?b" using m(2) d(1) dist by (simp add: lob_ok_def)
  then show ?thesis using Sell m(1,3) by (simp add: lob_match_def book_lists_def)
qed

subsection \<open>Adding and cancelling\<close>

lemma index_of_extend:
  assumes "distinct (map lo_id all')" "distinct (map lo_id all)" "set all' = insert x (set all)" "lo_id x \<notin> ids_of all"
  shows "(index_of all)(lo_id x \<mapsto> (lo_side x, lo_price x)) = index_of all'"
proof (rule map_eqI)
  fix i v
  have "(i, v) \<in> order_key ` set all \<Longrightarrow> i \<noteq> lo_id x" using assms(4) by (auto simp: order_key_def image_iff)
  then show "((index_of all)(lo_id x \<mapsto> (lo_side x, lo_price x))) i = Some v \<longleftrightarrow> index_of all' i = Some v"
    using index_of_iff [OF assms(1), of i v] index_of_iff [OF assms(2), of i v] assms(3) by (auto simp: order_key_def)
qed

lemma inserted:
  fixes xs :: "LobOrder list"
  assumes "distinct (map lo_id xs)" "lo_id x \<notin> ids_of xs"
  shows "set (takeWhile P xs @ x # dropWhile P xs) = insert x (set xs)" "distinct (map lo_id (takeWhile P xs @ x # dropWhile P xs))"
proof -
  have t: "takeWhile P xs @ dropWhile P xs = xs" by simp
  then show "set (takeWhile P xs @ x # dropWhile P xs) = insert x (set xs)" by (metis Un_insert_right list.simps(15) set_append)
  have "mset (takeWhile P xs) + mset (dropWhile P xs) = mset xs" by (metis mset_append t)
  then have "mset (takeWhile P xs @ x # dropWhile P xs) = mset (x # xs)" by simp
  then have m: "mset (map lo_id (takeWhile P xs @ x # dropWhile P xs)) = mset (map lo_id (x # xs))" unfolding mset_map by (rule arg_cong)
  show "distinct (map lo_id (takeWhile P xs @ x # dropWhile P xs))"
    unfolding mset_eq_imp_distinct_iff [OF m] using assms by simp
qed

lemma asks_exhausted:
  assumes "levels_ok Sell id n levels" "fst (fill_list (\<lambda>x. lo_price x \<le> p) q (side_orders levels)) \<noteq> q"
    "x \<in> set (snd (fill_list (\<lambda>x. lo_price x \<le> p) q (side_orders levels)))"
  shows "p < lo_price x"
proof -
  have "sorted_wrt (\<lambda>x y. lo_price x \<le> lo_price y) (side_orders levels)"
    using levels_sorted [OF assms(1), where R = "(\<le>)"] by simp
  then have "sorted_wrt (\<lambda>x y. lo_price y \<le> p \<longrightarrow> lo_price x \<le> p) (side_orders levels)"
    by (rule sorted_wrt_mono_rel [rotated]) auto
  then show ?thesis using fill_list_exhausts [of "\<lambda>x. lo_price x \<le> p" "side_orders levels" q] assms(2,3) by auto
qed

lemma bids_exhausted:
  assumes "levels_ok Buy bid_key n levels" "fst (fill_list (\<lambda>x. p \<le> lo_price x) q (side_orders levels)) \<noteq> q"
    "x \<in> set (snd (fill_list (\<lambda>x. p \<le> lo_price x) q (side_orders levels)))"
  shows "lo_price x < p"
proof -
  have "sorted_wrt (\<lambda>x y. lo_price y \<le> lo_price x) (side_orders levels)"
    using levels_sorted [OF assms(1), where R = "(\<ge>)"] by (simp add: less_eq_bid_price_def)
  then have "sorted_wrt (\<lambda>x y. p \<le> lo_price y \<longrightarrow> p \<le> lo_price x) (side_orders levels)"
    by (rule sorted_wrt_mono_rel [rotated]) auto
  then show ?thesis using fill_list_exhausts [of "\<lambda>x. p \<le> lo_price x" "side_orders levels" q] assms(2,3) by auto
qed

text \<open>Resting an order on an uncrossed book it does not cross.\<close>

lemma rest_bid_ok:
  assumes ok: "lob_ok b" and x: "lo_id x \<notin> ids_of (book_orders b)" "lo_side x = Buy" "0 < lo_quantity x"
    and above: "\<And>y. y \<in> set (side_orders (lb_asks b)) \<Longrightarrow> lo_price x < lo_price y"
  defines "b' \<equiv> b\<lparr>lb_bids := lob_rest (Bid (lo_price x)) (lb_next_node b) x (lb_bids b),
    lb_order_index := (lb_order_index b)(lo_id x \<mapsto> (lo_side x, lo_price x)), lb_next_node := lb_next_node b + 1\<rparr>"
  shows "lob_ok b'" "book_lists b' = (side_orders (lb_asks b),
    takeWhile (\<lambda>y. lo_price x \<le> lo_price y) (side_orders (lb_bids b)) @ x # dropWhile (\<lambda>y. lo_price x \<le> lo_price y) (side_orders (lb_bids b)))"
proof -
  note d = lob_okD [OF ok]
  let ?as = "side_orders (lb_asks b)" and ?bs = "side_orders (lb_bids b)"
  define bs where "bs = takeWhile (\<lambda>y. lo_price x \<le> lo_price y) ?bs @ x # dropWhile (\<lambda>y. lo_price x \<le> lo_price y) ?bs"
  have parts: "distinct (map lo_id ?as)" "distinct (map lo_id ?bs)" "ids_of ?as \<inter> ids_of ?bs = {}" "lo_id x \<notin> ids_of ?as" "lo_id x \<notin> ids_of ?bs"
    using d(3) x(1) by auto
  have r: "levels_ok Buy bid_key (Suc (lb_next_node b)) (lob_rest (Bid (lo_price x)) (lb_next_node b) x (lb_bids b))"
    "side_orders (lob_rest (Bid (lo_price x)) (lb_next_node b) x (lb_bids b)) = bs"
    using lob_rest_refines [OF d(2) parts(5) x(2) _ x(3), of "Bid (lo_price x)" "\<lambda>p. lo_price x \<le> p"]
    by (auto simp: less_eq_bid_price_def inj_def bid_price.expand bs_def)
  have ins: "set bs = insert x (set ?bs)" "distinct (map lo_id bs)" unfolding bs_def by (rule inserted [OF parts(2,5)])+
  have dist: "distinct (map lo_id (?as @ bs))" using parts ins by simp
  have "(lb_order_index b)(lo_id x \<mapsto> (lo_side x, lo_price x)) = index_of (?as @ bs)"
    unfolding d(4) by (rule index_of_extend [OF dist d(3)]) (use ins(1) x(1) in auto)
  then show "lob_ok b'" using r dist levels_ok_mono [OF d(1)] d(5) above ins(1) by (auto simp: lob_ok_def b'_def)
  show "book_lists b' = (?as, takeWhile (\<lambda>y. lo_price x \<le> lo_price y) ?bs @ x # dropWhile (\<lambda>y. lo_price x \<le> lo_price y) ?bs)"
    using r(2) by (simp add: book_lists_def b'_def bs_def)
qed

lemma rest_ask_ok:
  assumes ok: "lob_ok b" and x: "lo_id x \<notin> ids_of (book_orders b)" "lo_side x = Sell" "0 < lo_quantity x"
    and below: "\<And>y. y \<in> set (side_orders (lb_bids b)) \<Longrightarrow> lo_price y < lo_price x"
  defines "b' \<equiv> b\<lparr>lb_asks := lob_rest (lo_price x) (lb_next_node b) x (lb_asks b),
    lb_order_index := (lb_order_index b)(lo_id x \<mapsto> (lo_side x, lo_price x)), lb_next_node := lb_next_node b + 1\<rparr>"
  shows "lob_ok b'" "book_lists b' =
    (takeWhile (\<lambda>y. lo_price y \<le> lo_price x) (side_orders (lb_asks b)) @ x # dropWhile (\<lambda>y. lo_price y \<le> lo_price x) (side_orders (lb_asks b)),
     side_orders (lb_bids b))"
proof -
  note d = lob_okD [OF ok]
  let ?as = "side_orders (lb_asks b)" and ?bs = "side_orders (lb_bids b)"
  define as where "as = takeWhile (\<lambda>y. lo_price y \<le> lo_price x) ?as @ x # dropWhile (\<lambda>y. lo_price y \<le> lo_price x) ?as"
  have parts: "distinct (map lo_id ?as)" "distinct (map lo_id ?bs)" "ids_of ?as \<inter> ids_of ?bs = {}" "lo_id x \<notin> ids_of ?as" "lo_id x \<notin> ids_of ?bs"
    using d(3) x(1) by auto
  have r: "levels_ok Sell id (Suc (lb_next_node b)) (lob_rest (lo_price x) (lb_next_node b) x (lb_asks b))"
    "side_orders (lob_rest (lo_price x) (lb_next_node b) x (lb_asks b)) = as"
    using lob_rest_refines [OF d(1) parts(4) x(2) _ x(3), of "lo_price x" "\<lambda>p. p \<le> lo_price x"] by (auto simp: as_def)
  have ins: "set as = insert x (set ?as)" "distinct (map lo_id as)" unfolding as_def by (rule inserted [OF parts(1,4)])+
  have dist: "distinct (map lo_id (as @ ?bs))" using parts ins by simp
  have "(lb_order_index b)(lo_id x \<mapsto> (lo_side x, lo_price x)) = index_of (as @ ?bs)"
    unfolding d(4) by (rule index_of_extend [OF dist d(3)]) (use ins(1) x(1) in auto)
  then show "lob_ok b'" using r dist levels_ok_mono [OF d(2)] d(5) below ins(1) by (auto simp: lob_ok_def b'_def)
  show "book_lists b' = (takeWhile (\<lambda>y. lo_price y \<le> lo_price x) ?as @ x # dropWhile (\<lambda>y. lo_price y \<le> lo_price x) ?as, ?bs)"
    using r(2) by (simp add: book_lists_def b'_def as_def)
qed

text \<open>Adding an order with a fresh id.\<close>

lemma lob_add_refines:
  assumes ok: "lob_ok b" and x: "lo_id x \<notin> ids_of (book_orders b)" "0 < lo_quantity x"
  shows "\<exists>b'. lob_add x b = Some (b', lo_id x) \<and> lob_ok b' \<and> book_lists b' = lob_spec_add x (book_lists b)"
proof -
  let ?p = "lo_price x" and ?q = "lo_quantity x" and ?as = "side_orders (lb_asks b)" and ?bs = "side_orders (lb_bids b)"
  show ?thesis
  proof (cases "lo_side x")
    case Buy
    define F where "F = fill_list (\<lambda>y. lo_price y \<le> ?p) ?q ?as"
    obtain b1 where b1: "lob_match x b = Some (b1, fst F)" "lob_ok b1" "lb_next_node b1 = lb_next_node b" "side_orders (lb_asks b1) = snd F"
      "side_orders (lb_bids b1) = ?bs" using lob_match_refines [OF ok, of x] Buy by (auto simp: F_def book_lists_def)
    have new: "lo_id x \<notin> ids_of (book_orders b1)" using x(1) fill_list_ids [of "\<lambda>y. lo_price y \<le> ?p" ?q ?as] b1(4,5) by (auto simp: F_def)
    have above: "?p < lo_price y" if "fst F \<noteq> ?q" "y \<in> set (side_orders (lb_asks b1))" for y
      using asks_exhausted [OF lob_okD(1) [OF ok]] that b1(4) by (simp add: F_def)
    have "?q - fst F > 0 \<longleftrightarrow> fst F \<noteq> ?q" by (auto simp: word_neq_0_conv [symmetric])
    then show ?thesis using b1 rest_bid_ok [OF b1(2) new Buy x(2)] above Buy
      by (cases "fst F = ?q") (auto simp: lob_add_def Let_def lob_spec_add_def book_lists_def F_def [symmetric] split: prod.splits)
  next
    case Sell
    define F where "F = fill_list (\<lambda>y. ?p \<le> lo_price y) ?q ?bs"
    obtain b1 where b1: "lob_match x b = Some (b1, fst F)" "lob_ok b1" "lb_next_node b1 = lb_next_node b" "side_orders (lb_bids b1) = snd F"
      "side_orders (lb_asks b1) = ?as" using lob_match_refines [OF ok, of x] Sell by (auto simp: F_def book_lists_def)
    have new: "lo_id x \<notin> ids_of (book_orders b1)" using x(1) fill_list_ids [of "\<lambda>y. ?p \<le> lo_price y" ?q ?bs] b1(4,5) by (auto simp: F_def)
    have below: "lo_price y < ?p" if "fst F \<noteq> ?q" "y \<in> set (side_orders (lb_bids b1))" for y
      using bids_exhausted [OF lob_okD(2) [OF ok]] that b1(4) by (simp add: F_def)
    have "?q - fst F > 0 \<longleftrightarrow> fst F \<noteq> ?q" by (auto simp: word_neq_0_conv [symmetric])
    then show ?thesis using b1 rest_ask_ok [OF b1(2) new Sell x(2)] below Sell
      by (cases "fst F = ?q") (auto simp: lob_add_def Let_def lob_spec_add_def book_lists_def F_def [symmetric] split: prod.splits)
  qed
qed

lemma index_of_filter:
  assumes "distinct (map lo_id all)"
  shows "(index_of all)(i := None) = index_of (filter (\<lambda>x. lo_id x \<noteq> i) all)"
proof (rule map_eqI)
  fix j v
  have "distinct (map lo_id (filter (\<lambda>x. lo_id x \<noteq> i) all))" using assms by (simp add: distinct_map_filter)
  then show "((index_of all)(i := None)) j = Some v \<longleftrightarrow> index_of (filter (\<lambda>x. lo_id x \<noteq> i) all) j = Some v"
    using index_of_iff [OF assms, of j v] index_of_iff [of "filter (\<lambda>x. lo_id x \<noteq> i) all" j v] by (auto simp: order_key_def)
qed

lemma filter_absent: "i \<notin> ids_of xs \<Longrightarrow> filter (\<lambda>x. lo_id x \<noteq> i) xs = xs"
  by (auto simp: filter_id_conv)

lemma lob_cancel_refines:
  assumes ok: "lob_ok b"
  shows "\<exists>b'. lob_cancel i b = Some b' \<and> lob_ok b' \<and> book_lists b' = lob_spec_cancel i (book_lists b)"
proof (cases "lb_order_index b i")
  case None
  then have "(i, v) \<notin> order_key ` set (book_orders b)" for v
    using index_of_iff [OF lob_okD(3) [OF ok], of i v] lob_okD(4) [OF ok] by simp
  then have "i \<notin> ids_of (book_orders b)" by (force simp: order_key_def)
  then have "i \<notin> ids_of (side_orders (lb_asks b))" "i \<notin> ids_of (side_orders (lb_bids b))" by auto
  then show ?thesis using None ok by (simp add: lob_cancel_def lob_spec_cancel_def book_lists_def filter_absent)
next
  case (Some v)
  note d = lob_okD [OF ok]
  let ?as = "side_orders (lb_asks b)" and ?bs = "side_orders (lb_bids b)" and ?f = "filter (\<lambda>x. lo_id x \<noteq> i)"
  obtain x where x: "x \<in> set (book_orders b)" "lo_id x = i" "v = (lo_side x, lo_price x)"
    using index_of_iff [OF d(3), of i v] d(4) Some by (auto simp: order_key_def)
  have parts: "distinct (map lo_id ?as)" "distinct (map lo_id ?bs)" "ids_of ?as \<inter> ids_of ?bs = {}" using d(3) by auto
  have dist: "distinct (map lo_id (?f ?as @ ?f ?bs))" using distinct_map_filter [OF d(3)] by (metis filter_append)
  have ix: "(lb_order_index b)(i := None) = index_of (?f ?as @ ?f ?bs)" unfolding d(4) by (simp add: index_of_filter [OF d(3)])
  show ?thesis
  proof (cases "x \<in> set ?as")
    case True
    have sd: "lo_side x = Sell" using levels_ok_orders [OF d(1) True] by simp
    have other: "?f ?bs = ?bs" using parts(3) True x(2) by (intro filter_absent) auto
    obtain levels where l: "cancel_in (lo_price x) (lo_id x) (lb_asks b) = Some levels" "levels_ok Sell id (lb_next_node b) levels"
      "side_orders levels = ?f ?as" using cancel_in_refines [OF d(1) parts(1) True, of "lo_price x"] x(2) by auto
    let ?b = "b\<lparr>lb_asks := levels, lb_order_index := (lb_order_index b)(i := None)\<rparr>"
    have "lob_ok ?b" using l(2,3) d(2,5) dist ix other by (auto simp: lob_ok_def)
    then show ?thesis using Some x(2,3) sd l other by (auto simp: lob_cancel_def lob_spec_cancel_def book_lists_def)
  next
    case False
    then have m: "x \<in> set ?bs" using x(1) by simp
    have sd: "lo_side x = Buy" using levels_ok_orders [OF d(2) m] by simp
    have other: "?f ?as = ?as" using parts(3) m x(2) by (intro filter_absent) auto
    obtain levels where l: "cancel_in (Bid (lo_price x)) (lo_id x) (lb_bids b) = Some levels" "levels_ok Buy bid_key (lb_next_node b) levels"
      "side_orders levels = ?f ?bs" using cancel_in_refines [OF d(2) parts(2) m, of "Bid (lo_price x)"] x(2)
      by (auto simp: inj_def bid_price.expand)
    let ?b = "b\<lparr>lb_bids := levels, lb_order_index := (lb_order_index b)(i := None)\<rparr>"
    have "lob_ok ?b" using l(2,3) d(1,5) dist ix other by (auto simp: lob_ok_def)
    then show ?thesis using Some x(2,3) sd l other by (auto simp: lob_cancel_def lob_spec_cancel_def book_lists_def)
  qed
qed

subsection \<open>Runs\<close>

text \<open>The commands of the engine's worker thread, and the book after it has processed a list of them.\<close>

datatype LobCommand = LobAdd LobOrder | LobCancel u32

fun lob_step :: "LobCommand \<Rightarrow> LobBook \<Rightarrow> LobBook option" where
  "lob_step (LobAdd order) b = map_option fst (lob_add order b)"
| "lob_step (LobCancel ident) b = lob_cancel ident b"

fun lob_run :: "LobCommand list \<Rightarrow> LobBook \<Rightarrow> LobBook option" where
  "lob_run [] b = Some b"
| "lob_run (c # cs) b = do { b' \<leftarrow> lob_step c b; lob_run cs b' }"

fun lob_spec_step :: "LobCommand \<Rightarrow> LobOrder list \<times> LobOrder list \<Rightarrow> LobOrder list \<times> LobOrder list" where
  "lob_spec_step (LobAdd order) bk = lob_spec_add order bk"
| "lob_spec_step (LobCancel ident) bk = lob_spec_cancel ident bk"

fun added :: "LobCommand list \<Rightarrow> LobOrder list" where
  "added [] = []"
| "added (LobAdd x # cs) = x # added cs"
| "added (LobCancel i # cs) = added cs"

lemma lob_spec_add_image:
  assumes f: "\<And>x q. f (x\<lparr>lo_quantity := q\<rparr>) = f x"
  shows "f ` set (fst (lob_spec_add x bk) @ snd (lob_spec_add x bk)) \<subseteq> insert (f x) (f ` set (fst bk @ snd bk))"
proof -
  have w: "f ` set (if b then xs else takeWhile P xs @ x # dropWhile P xs) \<subseteq> insert (f x) (f ` set xs)" for b P xs
  proof -
    have "f ` set (takeWhile P xs) \<subseteq> f ` set xs" "f ` set (dropWhile P xs) \<subseteq> f ` set xs"
      by (auto dest: set_takeWhileD set_dropWhileD)
    then show ?thesis by (auto simp: image_Un)
  qed
  let ?p = "lo_price x" and ?q = "lo_quantity x"
  show ?thesis
  proof (cases "lo_side x")
    case Buy
    obtain n os where F: "fill_list (\<lambda>y. lo_price y \<le> ?p) ?q (fst bk) = (n, os)" by fastforce
    have e: "lob_spec_add x bk = (os, if n = ?q then snd bk else takeWhile (\<lambda>y. ?p \<le> lo_price y) (snd bk) @ x # dropWhile (\<lambda>y. ?p \<le> lo_price y) (snd bk))"
      using F Buy by (cases bk) (simp add: lob_spec_add_def Let_def)
    have "f ` set os \<subseteq> f ` set (fst bk)" using fill_list_image [of f, OF f, of "\<lambda>y. lo_price y \<le> ?p" ?q "fst bk"] F by simp
    then show ?thesis unfolding e fst_conv snd_conv set_append image_Un using w by blast
  next
    case Sell
    obtain n os where F: "fill_list (\<lambda>y. ?p \<le> lo_price y) ?q (snd bk) = (n, os)" by fastforce
    have e: "lob_spec_add x bk = (if n = ?q then fst bk else takeWhile (\<lambda>y. lo_price y \<le> ?p) (fst bk) @ x # dropWhile (\<lambda>y. lo_price y \<le> ?p) (fst bk), os)"
      using F Sell by (cases bk) (simp add: lob_spec_add_def Let_def)
    have "f ` set os \<subseteq> f ` set (snd bk)" using fill_list_image [of f, OF f, of "\<lambda>y. ?p \<le> lo_price y" ?q "snd bk"] F by simp
    then show ?thesis unfolding e fst_conv snd_conv set_append image_Un using w by blast
  qed
qed

lemma fresh_after: "A \<subseteq> insert i B \<Longrightarrow> i \<notin> f ` S \<Longrightarrow> \<forall>y \<in> S. P y \<and> f y \<notin> B \<Longrightarrow> \<forall>y \<in> S. P y \<and> f y \<notin> A"
  by blast

lemma lob_run_refines:
  assumes "lob_ok b" "distinct (map lo_id (added cs))" "\<forall>x \<in> set (added cs). 0 < lo_quantity x \<and> lo_id x \<notin> ids_of (book_orders b)"
  shows "\<exists>b'. lob_run cs b = Some b' \<and> lob_ok b' \<and> book_lists b' = fold lob_spec_step cs (book_lists b)"
  using assms
proof (induction cs arbitrary: b)
  case (Cons c cs)
  show ?case
  proof (cases c)
    case (LobAdd x)
    obtain b1 where b1: "lob_add x b = Some (b1, lo_id x)" "lob_ok b1" "book_lists b1 = lob_spec_add x (book_lists b)"
      using lob_add_refines [OF Cons.prems(1), of x] Cons.prems(3) LobAdd by auto
    have ids: "ids_of (book_orders b1) \<subseteq> insert (lo_id x) (ids_of (book_orders b))"
      using lob_spec_add_image [of lo_id x "book_lists b"] b1(3) [symmetric] by (simp add: book_lists_def)
    have "\<forall>y \<in> set (added cs). 0 < lo_quantity y \<and> lo_id y \<notin> ids_of (book_orders b1)"
      by (rule fresh_after [OF ids]) (use Cons.prems(2,3) LobAdd in auto)
    then show ?thesis using Cons.IH [OF b1(2)] Cons.prems(2) LobAdd b1 by simp
  next
    case (LobCancel i)
    obtain b1 where b1: "lob_cancel i b = Some b1" "lob_ok b1" "book_lists b1 = lob_spec_cancel i (book_lists b)"
      using lob_cancel_refines [OF Cons.prems(1)] by blast
    have "ids_of (book_orders b1) \<subseteq> ids_of (book_orders b)" using b1(3) by (auto simp: book_lists_def lob_spec_cancel_def)
    then have "\<forall>y \<in> set (added cs). 0 < lo_quantity y \<and> lo_id y \<notin> ids_of (book_orders b1)"
      using Cons.prems(3) LobCancel by (auto simp del: set_append)
    then show ?thesis using Cons.IH [OF b1(2)] Cons.prems(2) LobCancel b1 by simp
  qed
qed simp

text \<open>The two agree on an order that is filled at once or not at all.\<close>

definition partly_filled :: "LobOrder \<Rightarrow> LobOrder list \<times> LobOrder list \<Rightarrow> bool" where
  "partly_filled order book \<longleftrightarrow> fst (price_time_fill order book) \<notin> {0, lo_quantity order}"

lemma price_time_add_eq: "\<not> partly_filled x bk \<Longrightarrow> lob_spec_add x bk = price_time_add x bk"
  by (cases "lo_side x"; cases bk)
    (auto simp: partly_filled_def price_time_add_def lob_spec_add_def price_time_fill_def price_time_rest_def Let_def split: prod.splits)

fun price_time_step :: "LobCommand \<Rightarrow> LobOrder list \<times> LobOrder list \<Rightarrow> LobOrder list \<times> LobOrder list" where
  "price_time_step (LobAdd order) bk = price_time_add order bk"
| "price_time_step (LobCancel ident) bk = lob_spec_cancel ident bk"

text \<open>No order of a run of price-time matching is filled in part on arrival.\<close>

fun never_partly_filled :: "LobCommand list \<Rightarrow> LobOrder list \<times> LobOrder list \<Rightarrow> bool" where
  "never_partly_filled [] bk \<longleftrightarrow> True"
| "never_partly_filled (c # cs) bk \<longleftrightarrow>
     (case c of LobAdd order \<Rightarrow> \<not> partly_filled order bk | LobCancel _ \<Rightarrow> True) \<and> never_partly_filled cs (price_time_step c bk)"

lemma price_time_run: "never_partly_filled cs bk \<Longrightarrow> fold lob_spec_step cs bk = fold price_time_step cs bk"
proof (induction cs arbitrary: bk)
  case (Cons c cs)
  then show ?case by (cases c) (auto simp: price_time_add_eq)
qed simp

lemma empty_lob_ok: "lob_ok empty_lob_book"
  by (simp add: lob_ok_def empty_lob_book_def levels_ok_def index_of_def)

lemma best_prices:
  assumes "lob_ok b"
  shows "lob_best_ask b = map_option lo_price (case side_orders (lb_asks b) of [] \<Rightarrow> None | x # _ \<Rightarrow> Some x)"
    "lob_best_bid b = map_option lo_price (case side_orders (lb_bids b) of [] \<Rightarrow> None | x # _ \<Rightarrow> Some x)"
proof -
  have first: "map_option kp (omap_first levels) = map_option lo_price (case side_orders levels of [] \<Rightarrow> None | x # _ \<Rightarrow> Some x)"
    if ok: "levels_ok sd kp n levels" for sd n and kp :: "'k::linorder \<Rightarrow> Price" and levels
  proof (cases levels)
    case (Cons e rest)
    obtain k l where e: "e = (k, l)" by fastforce
    have "level_ok sd (kp k) n l" using ok Cons by (simp add: e levels_ok_Cons)
    then show ?thesis using Cons by (cases "lv_orders l") (auto simp: e level_ok_def omap_first_def)
  qed (simp add: omap_first_def)
  show "lob_best_ask b = map_option lo_price (case side_orders (lb_asks b) of [] \<Rightarrow> None | x # _ \<Rightarrow> Some x)"
    using first [OF lob_okD(1) [OF assms]] by (simp add: lob_best_ask_def option.map_id)
  show "lob_best_bid b = map_option lo_price (case side_orders (lb_bids b) of [] \<Rightarrow> None | x # _ \<Rightarrow> Some x)"
    using first [OF lob_okD(2) [OF assms]] by (simp add: lob_best_bid_def)
qed

subsection \<open>Properties\<close>

text \<open>
  C24. The stand-alone book. For every list of commands in which the added orders have distinct ids and something to trade, the worker never touches a dead
  iterator, an empty level or a missing map entry. The book it ends with lists each side in price order and is not crossed, its index names exactly the resting
  orders, and the best prices are those of the first orders. As long as no order is filled in part on arrival, the book shows exactly the orders of price-time
  matching on two lists, in the same order; what the code does with an order filled in part is C32.
\<close>

theorem lob_refines_lists:
  assumes "distinct (map lo_id (added cs))" "\<forall>x \<in> set (added cs). 0 < lo_quantity x"
  shows "\<exists>b asks bids. lob_run cs empty_lob_book = Some b \<and> lob_ok b \<and> book_lists b = (asks, bids) \<and>
    sorted_wrt (\<lambda>x y. lo_price x \<le> lo_price y) asks \<and> sorted_wrt (\<lambda>x y. lo_price x \<ge> lo_price y) bids \<and>
    (\<forall>x \<in> set asks. \<forall>y \<in> set bids. lo_price y < lo_price x) \<and>
    lob_best_ask b = map_option lo_price (case asks of [] \<Rightarrow> None | x # _ \<Rightarrow> Some x) \<and>
    lob_best_bid b = map_option lo_price (case bids of [] \<Rightarrow> None | x # _ \<Rightarrow> Some x) \<and>
    (never_partly_filled cs ([], []) \<longrightarrow> fold price_time_step cs ([], []) = (asks, bids))"
proof -
  have e: "book_orders empty_lob_book = []" "book_lists empty_lob_book = ([], [])" by (simp_all add: empty_lob_book_def book_lists_def)
  obtain b where b: "lob_run cs empty_lob_book = Some b" "lob_ok b" "book_lists b = fold lob_spec_step cs ([], [])"
    using lob_run_refines [OF empty_lob_ok assms(1)] assms(2) e by auto
  note d = lob_okD [OF b(2)]
  have "sorted_wrt (\<lambda>x y. lo_price x \<le> lo_price y) (side_orders (lb_asks b))" using levels_sorted [OF d(1), where R = "(\<le>)"] by simp
  moreover have "sorted_wrt (\<lambda>x y. lo_price x \<ge> lo_price y) (side_orders (lb_bids b))"
    using levels_sorted [OF d(2), where R = "(\<ge>)"] by (simp add: less_eq_bid_price_def)
  moreover have "fold price_time_step cs ([], []) = (side_orders (lb_asks b), side_orders (lb_bids b))" if "never_partly_filled cs ([], [])"
    using price_time_run [OF that] b(3) by (simp add: book_lists_def)
  ultimately show ?thesis using b(1,2) d(5) best_prices [OF b(2)] by (intro exI conjI) (auto simp: book_lists_def)
qed

definition lob_order :: "Side \<Rightarrow> u32 \<Rightarrow> u64 \<Rightarrow> u32 \<Rightarrow> LobOrder" where
  "lob_order sd ident p q = \<lparr>lo_price = I64 p, lo_timestamp = 0, lo_quantity = q, lo_id = ident, lo_side = sd\<rparr>"

theorem lob_refines_lists_witness:
  "\<exists>b. lob_run [LobAdd (lob_order Sell 0 100 5), LobAdd (lob_order Buy 3 101 2), LobAdd (lob_order Sell 1 99 2), LobAdd (lob_order Buy 2 98 7), LobCancel 1]
      empty_lob_book = Some b \<and> lob_ok b \<and> book_lists b = ([lob_order Sell 0 100 3], [lob_order Buy 2 98 7]) \<and>
    lob_best_ask b = Some (I64 100) \<and> lob_best_bid b = Some (I64 98)"
proof -
  let ?cs = "[LobAdd (lob_order Sell 0 100 5), LobAdd (lob_order Buy 3 101 2), LobAdd (lob_order Sell 1 99 2), LobAdd (lob_order Buy 2 98 7), LobCancel 1]"
  have "distinct (map lo_id (added ?cs))" "\<forall>x \<in> set (added ?cs). 0 < lo_quantity x" by (simp_all add: lob_order_def)
  moreover have "never_partly_filled ?cs ([], [])" by code_simp
  moreover have "fold price_time_step ?cs ([], []) = ([lob_order Sell 0 100 3], [lob_order Buy 2 98 7])" by code_simp
  ultimately show ?thesis using lob_refines_lists [of ?cs] by (auto simp: lob_order_def)
qed

text \<open>
  C32. An order that trades in part and then rests is not reduced by what it traded: \<open>OrderBook::add\<close> puts \<open>order\<close> itself
  into the level, not the remainder it has just computed. The quantity traded and the quantity resting together exceed the
  quantity ordered.
\<close>

theorem lob_partial_fill_rests_whole:
  assumes "lob_ok b" "lo_id x \<notin> ids_of (book_orders b)" "0 < lo_quantity x"
    and "map_option snd (lob_match x b) = Some filled" "0 < filled" "filled < lo_quantity x"
  shows "\<exists>b'. lob_add x b = Some (b', lo_id x) \<and> x \<in> set (book_orders b') \<and> unat (lo_quantity x) < unat filled + unat (lo_quantity x)"
proof -
  obtain b' where b': "lob_add x b = Some (b', lo_id x)" "book_lists b' = lob_spec_add x (book_lists b)"
    using lob_add_refines [OF assms(1-3)] by blast
  have ne: "filled \<noteq> lo_quantity x" using assms(6) by auto
  obtain b1 f where m: "lob_match x b = Some (b1, f)" "f = filled" using assms(4) by auto
  have "x \<in> set (fst (lob_spec_add x (book_lists b)) @ snd (lob_spec_add x (book_lists b)))"
    using lob_match_refines [OF assms(1), of x] m ne
    by (cases "lo_side x") (auto simp: lob_spec_add_def book_lists_def Let_def split: prod.splits)
  then have "x \<in> set (book_orders b')" using b'(2) [symmetric] by (simp add: book_lists_def)
  moreover have "0 < unat filled" using assms(5) by (simp add: word_less_nat_alt)
  ultimately show ?thesis using b'(1) by auto
qed

theorem lob_partial_fill_rests_whole_witness:
  "\<exists>b b'. lob_run [LobAdd (lob_order Sell 0 100 5)] empty_lob_book = Some b \<and> lob_add (lob_order Buy 1 100 8) b = Some (b', 1) \<and>
    lob_order Buy 1 100 8 \<in> set (book_orders b')"
proof -
  obtain b where b: "lob_run [LobAdd (lob_order Sell 0 100 5)] empty_lob_book = Some b" "lob_ok b"
    "book_lists b = fold lob_spec_step [LobAdd (lob_order Sell 0 100 5)] ([], [])"
    using lob_run_refines [OF empty_lob_ok, of "[LobAdd (lob_order Sell 0 100 5)]"]
    by (auto simp: lob_order_def empty_lob_book_def book_lists_def)
  then have l: "side_orders (lb_asks b) = [lob_order Sell 0 100 5]" "side_orders (lb_bids b) = []"
    by (auto simp: book_lists_def lob_spec_add_def lob_order_def)
  have "map_option (\<lambda>b. map_option snd (lob_match (lob_order Buy 1 100 8) b)) (lob_run [LobAdd (lob_order Sell 0 100 5)] empty_lob_book) = Some (Some 5)"
    by code_simp
  then have m: "map_option snd (lob_match (lob_order Buy 1 100 8) b) = Some 5" using b(1) by simp
  have "lo_id (lob_order Buy 1 100 8) = 1" by (simp add: lob_order_def)
  then show ?thesis using lob_partial_fill_rests_whole [OF b(2) _ _ m] b(1) l by (auto simp: lob_order_def)
qed

end
