(* ===== verification/Lob_Engine.thy ===== *)
theory Lob_Engine
  imports Lob_Properties Spsc_Queue
begin

text \<open>
  The engine around the stand-alone book (\<open>LimitOrderBook/src/matching_engine.cpp\<close>, \<open>include/spsc_queue.hpp\<close>): a producer
  numbers orders and pushes commands, the worker pops them, applies them to the book and publishes the best prices.
  The queue's slots always hold an object; its indices are words that wrap.
\<close>

subsection \<open>The command queue\<close>

record 'a LobQueue =
  lq_buffer :: "'a list"
  lq_head :: u64
  lq_tail :: u64

definition lq_capacity :: "'a LobQueue \<Rightarrow> u64" where
  "lq_capacity q = of_nat (length (lq_buffer q))"

definition lq_slot :: "'a LobQueue \<Rightarrow> u64 \<Rightarrow> nat" where
  "lq_slot q i = unat (i AND (lq_capacity q - 1))"

definition new_lob_queue :: "nat \<Rightarrow> 'a \<Rightarrow> 'a LobQueue" where
  "new_lob_queue capacity item = \<lparr>lq_buffer = replicate capacity item, lq_head = 0, lq_tail = 0\<rparr>"

definition lq_push :: "'a LobQueue \<Rightarrow> 'a \<Rightarrow> ('a LobQueue \<times> bool) option" where
  "lq_push q item = (let t = lq_tail q in
     if t - lq_head q = lq_capacity q then Some (q, False)
     else if lq_slot q t < length (lq_buffer q)
     then Some (q\<lparr>lq_buffer := (lq_buffer q)[lq_slot q t := item], lq_tail := t + 1\<rparr>, True) else None)"

definition lq_pop :: "'a LobQueue \<Rightarrow> ('a LobQueue \<times> 'a option) option" where
  "lq_pop q = (let h = lq_head q in
     if h = lq_tail q then Some (q, None)
     else if lq_slot q h < length (lq_buffer q)
     then Some (q\<lparr>lq_head := h + 1\<rparr>, Some (lq_buffer q ! lq_slot q h)) else None)"

subsection \<open>The engine\<close>

record LobEngine =
  le_running :: bool
  le_best_ask :: Price
  le_best_bid :: Price
  le_queue :: "LobCommand LobQueue"
  le_book :: LobBook
  le_next_id :: u32

definition new_lob_engine :: LobEngine where
  "new_lob_engine = \<lparr>le_running = False, le_best_ask = 0, le_best_bid = 0, le_queue = new_lob_queue 4096 (LobCancel 0),
     le_book = empty_lob_book, le_next_id = 0\<rparr>"

definition lob_is_valid :: "LobOrder \<Rightarrow> bool" where
  "lob_is_valid order \<longleftrightarrow> lo_price order > 0 \<and> lo_quantity order > 0"

text \<open>\<open>now\<close> is what the clock shows; the answer of \<open>push\<close> is dropped.\<close>

definition lob_submit :: "u64 \<Rightarrow> Price \<Rightarrow> u32 \<Rightarrow> Side \<Rightarrow> LobEngine \<Rightarrow> LobEngine option" where
  "lob_submit now price quantity side e = (let
     order = \<lparr>lo_price = price, lo_timestamp = now, lo_quantity = quantity, lo_id = le_next_id e, lo_side = side\<rparr>;
     e = e\<lparr>le_next_id := le_next_id e + 1\<rparr>
   in if lob_is_valid order then map_option (\<lambda>(q, _). e\<lparr>le_queue := q\<rparr>) (lq_push (le_queue e) (LobAdd order)) else Some e)"

definition lob_submit_cancel :: "u32 \<Rightarrow> LobEngine \<Rightarrow> LobEngine option" where
  "lob_submit_cancel ident e = map_option (\<lambda>(q, _). e\<lparr>le_queue := q\<rparr>) (lq_push (le_queue e) (LobCancel ident))"

definition lob_start :: "LobEngine \<Rightarrow> LobEngine" where
  "lob_start e = e\<lparr>le_running := True\<rparr>"

definition lob_stop :: "LobEngine \<Rightarrow> LobEngine" where
  "lob_stop e = e\<lparr>le_running := False\<rparr>"

definition publish_best :: "LobEngine \<Rightarrow> LobEngine" where
  "publish_best e = e\<lparr>le_best_ask := (case lob_best_ask (le_book e) of None \<Rightarrow> 0 | Some p \<Rightarrow> p),
     le_best_bid := (case lob_best_bid (le_book e) of None \<Rightarrow> 0 | Some p \<Rightarrow> p)\<rparr>"

text \<open>One turn of the loop of \<open>run\<close>.\<close>

definition lob_turn :: "LobEngine \<Rightarrow> LobEngine option" where
  "lob_turn e = (if \<not> le_running e then Some e else do {
     (q, item) \<leftarrow> lq_pop (le_queue e);
     case item of
       None \<Rightarrow> Some (e\<lparr>le_queue := q\<rparr>)
     | Some cmd \<Rightarrow> do {
         b \<leftarrow> lob_step cmd (le_book e);
         Some (publish_best (e\<lparr>le_queue := q, le_book := b\<rparr>))
       }
   })"

definition lob_get_best_ask :: "LobEngine \<Rightarrow> Price option" where
  "lob_get_best_ask e = (if le_best_ask e = 0 then None else Some (le_best_ask e))"

definition lob_get_best_bid :: "LobEngine \<Rightarrow> Price option" where
  "lob_get_best_bid e = (if le_best_bid e = 0 then None else Some (le_best_bid e))"

subsection \<open>The queue is a bounded list\<close>

definition lq_ok :: "'a LobQueue \<Rightarrow> bool" where
  "lq_ok q \<longleftrightarrow> (\<exists>k. k < 64 \<and> length (lq_buffer q) = 2 ^ k \<and> unat (lq_tail q - lq_head q) \<le> 2 ^ k)"

definition lq_contents :: "'a LobQueue \<Rightarrow> 'a list" where
  "lq_contents q = map (\<lambda>i. lq_buffer q ! lq_slot q (lq_head q + of_nat i)) [0..<unat (lq_tail q - lq_head q)]"

lemma lq_slot_nat:
  assumes "k < 64" "length (lq_buffer q) = 2 ^ k"
  shows "lq_slot q (of_nat j) = j mod 2 ^ k"
proof -
  let ?r = "\<lparr>sq_capacity = 2 ^ k, sq_mask = 2 ^ k - 1, sq_storage = replicate (2 ^ k) (None :: unit option), sq_high_water_mark = 0,
    sq_head = 0, sq_tail = 0\<rparr>"
  have "slot_of ?r (of_nat j) = j mod 2 ^ k" using assms(1) by (intro slot_of_nat) (simp add: ring_ok_def)
  then show ?thesis using assms(2) by (simp add: slot_of_def lq_slot_def lq_capacity_def)
qed

text \<open>The queue with its indices as numbers that do not wrap.\<close>

definition lq_at :: "nat \<Rightarrow> nat \<Rightarrow> nat \<Rightarrow> 'a LobQueue \<Rightarrow> bool" where
  "lq_at k h n q \<longleftrightarrow> k < 64 \<and> length (lq_buffer q) = 2 ^ k \<and> n \<le> 2 ^ k \<and> lq_head q = of_nat h \<and> lq_tail q = of_nat (h + n)"

lemma lq_at_facts:
  assumes "lq_at k h n q"
  shows "lq_ok q" "unat (lq_tail q - lq_head q) = n" "unat (lq_capacity q) = 2 ^ k"
    "lq_contents q = map (\<lambda>i. lq_buffer q ! ((h + i) mod 2 ^ k)) [0..<n]" "lq_slot q (lq_head q) = h mod 2 ^ k"
    "lq_slot q (lq_tail q) = (h + n) mod 2 ^ k"
proof -
  have q: "k < 64" "length (lq_buffer q) = 2 ^ k" "n \<le> 2 ^ k" "lq_head q = of_nat h" "lq_tail q = of_nat (h + n)" using assms by (auto simp: lq_at_def)
  have "(2::nat) ^ k < 2 ^ 64" using q(1) by (intro power_strict_increasing) auto
  then have "n < 2 ^ 64" using q(3) by linarith
  then show n: "unat (lq_tail q - lq_head q) = n" using index_distance [of h "h + n"] unfolding q(4,5) by simp
  show "unat (lq_capacity q) = 2 ^ k" using unat_power_2 [OF q(1)] q(2) by (simp add: lq_capacity_def)
  show "lq_ok q" using q n unfolding lq_ok_def by blast
  have slot: "lq_slot q (of_nat j) = j mod 2 ^ k" for j using lq_slot_nat [OF q(1,2)] .
  show "lq_slot q (lq_head q) = h mod 2 ^ k" "lq_slot q (lq_tail q) = (h + n) mod 2 ^ k" unfolding q(4,5) slot by simp_all
  have "lq_slot q (lq_head q + of_nat i) = (h + i) mod 2 ^ k" for i using slot [of "h + i"] unfolding q(4) by simp
  then show "lq_contents q = map (\<lambda>i. lq_buffer q ! ((h + i) mod 2 ^ k)) [0..<n]" unfolding lq_contents_def n by simp
qed

lemma lq_ok_at:
  assumes "lq_ok q"
  obtains k h n where "lq_at k h n q"
proof -
  obtain k where k: "k < 64" "length (lq_buffer q) = 2 ^ k" "unat (lq_tail q - lq_head q) \<le> 2 ^ k" using assms by (auto simp: lq_ok_def)
  have "lq_tail q = of_nat (unat (lq_head q) + unat (lq_tail q - lq_head q))" by simp
  then show ?thesis using that [of k "unat (lq_head q)" "unat (lq_tail q - lq_head q)"] k unfolding lq_at_def by simp
qed

interpretation lob_queue: bounded_fifo lq_ok lq_contents "\<lambda>q. unat (lq_capacity q)" lq_push lq_pop "\<lambda>q. lq_tail q - lq_head q"
proof
  fix q :: "'a LobQueue" and v
  assume "lq_ok q"
  then obtain k h n where at: "lq_at k h n q" by (rule lq_ok_at)
  note f = lq_at_facts [OF at]
  have q: "k < 64" "length (lq_buffer q) = 2 ^ k" "n \<le> 2 ^ k" using at by (auto simp: lq_at_def)
  have len: "length (lq_contents q) = n" by (simp add: f(4))
  show "unat (lq_tail q - lq_head q) = length (lq_contents q) \<and> length (lq_contents q) \<le> unat (lq_capacity q)"
    using f(2,3) len q(3) by simp
  have full: "lq_tail q - lq_head q = lq_capacity q \<longleftrightarrow> n = 2 ^ k" using f(2,3) by (metis unsigned_word_eqI)
  show "\<exists>q'. lq_push q v = Some (q', length (lq_contents q) < unat (lq_capacity q)) \<and> lq_ok q' \<and> unat (lq_capacity q') = unat (lq_capacity q) \<and>
      lq_contents q' = (if length (lq_contents q) < unat (lq_capacity q) then lq_contents q @ [v] else lq_contents q)"
  proof (cases "n = 2 ^ k")
    case True
    then show ?thesis using full f(3) len \<open>lq_ok q\<close> by (simp add: lq_push_def)
  next
    case False
    let ?q = "q\<lparr>lq_buffer := (lq_buffer q)[(h + n) mod 2 ^ k := v], lq_tail := lq_tail q + 1\<rparr>"
    have at': "lq_at k h (Suc n) ?q" using at False by (auto simp: lq_at_def algebra_simps)
    note f' = lq_at_facts [OF at']
    have "(lq_buffer q)[(h + n) mod 2 ^ k := v] ! ((h + i) mod 2 ^ k) = lq_buffer q ! ((h + i) mod 2 ^ k)" if "i < n" for i
      using mod_window [of "h + i" "h + n" h "2 ^ k"] that q(3) False by (intro nth_list_update_neq) auto
    then have "lq_contents ?q = lq_contents q @ [v]" unfolding f(4) f'(4) using q(2) by (auto simp: nth_list_update)
    moreover have "lq_push q v = Some (?q, True)" using full False f(6) q(2) by (simp add: lq_push_def)
    ultimately show ?thesis using f'(1,3) f(3) len False q(3) by auto
  qed
  show "\<exists>q'. lq_pop q = Some (q', case lq_contents q of [] \<Rightarrow> None | x # _ \<Rightarrow> Some x) \<and> lq_ok q' \<and> unat (lq_capacity q') = unat (lq_capacity q) \<and>
      lq_contents q' = tl (lq_contents q)"
  proof (cases n)
    case 0
    then have "lq_head q = lq_tail q" using at by (simp add: lq_at_def)
    then show ?thesis using 0 f(4) \<open>lq_ok q\<close> by (simp add: lq_pop_def)
  next
    case (Suc m)
    let ?q = "q\<lparr>lq_head := lq_head q + 1\<rparr>"
    have at': "lq_at k (Suc h) m ?q" using at Suc by (auto simp: lq_at_def algebra_simps)
    note f' = lq_at_facts [OF at']
    have c: "lq_contents q = lq_buffer q ! (h mod 2 ^ k) # map (\<lambda>i. lq_buffer q ! ((Suc h + i) mod 2 ^ k)) [0..<m]"
      unfolding f(4) Suc by (simp add: upt_conv_Cons map_Suc_upt [symmetric] comp_def del: upt_Suc)
    have "lq_head q \<noteq> lq_tail q" using f(2) Suc by auto
    then have "lq_pop q = Some (?q, Some (lq_buffer q ! (h mod 2 ^ k)))" using f(5) q(2) by (simp add: lq_pop_def)
    then show ?thesis using c f'(1,3,4) f(3) by (auto simp: lq_capacity_def)
  qed
qed

subsection \<open>The threads together\<close>

text \<open>
  The producer's calls and the worker's turns in any order. The engine's state is tied to the commands pushed so far: some
  of them have been applied, the others wait in the queue.
\<close>

datatype lob_action = Submit u64 Price u32 Side | SubmitCancel u32 | Turn | Start | StopRun

fun lob_act :: "lob_action \<Rightarrow> LobEngine \<Rightarrow> LobEngine option" where
  "lob_act (Submit now price quantity side) e = lob_submit now price quantity side e"
| "lob_act (SubmitCancel ident) e = lob_submit_cancel ident e"
| "lob_act Turn e = lob_turn e"
| "lob_act Start e = Some (lob_start e)"
| "lob_act StopRun e = Some (lob_stop e)"

fun lob_acts :: "lob_action list \<Rightarrow> LobEngine \<Rightarrow> LobEngine option" where
  "lob_acts [] e = Some e"
| "lob_acts (x # xs) e = do { e' \<leftarrow> lob_act x e; lob_acts xs e' }"

lemma added_append [simp]: "added (xs @ ys) = added xs @ added ys"
  by (induction xs rule: added.induct) simp_all

lemma lob_run_append: "lob_run (xs @ ys) b = do { b' \<leftarrow> lob_run xs b; lob_run ys b' }"
  by (induction xs arbitrary: b) (simp_all split: bind_splits)

definition numbered :: "nat \<Rightarrow> LobCommand list \<Rightarrow> bool" where
  "numbered n cs \<longleftrightarrow> distinct (map lo_id (added cs)) \<and> (\<forall>x \<in> set (added cs). lob_is_valid x \<and> unat (lo_id x) < n)"

definition engine_ok :: "nat \<Rightarrow> LobEngine \<Rightarrow> bool" where
  "engine_ok n e \<longleftrightarrow> lq_ok (le_queue e) \<and> le_next_id e = of_nat n \<and>
     (\<exists>done. lob_run done empty_lob_book = Some (le_book e) \<and> numbered n (done @ lq_contents (le_queue e))) \<and>
     lob_get_best_ask e = lob_best_ask (le_book e) \<and> lob_get_best_bid e = lob_best_bid (le_book e)"

lemma numbered_mono: "numbered n cs \<Longrightarrow> n \<le> m \<Longrightarrow> numbered m cs"
  by (fastforce simp: numbered_def)

lemma numbered_prefix: "numbered n (xs @ ys) \<Longrightarrow> numbered n xs"
  by (auto simp: numbered_def)

lemma numbered_snoc:
  assumes "numbered n cs" "lob_is_valid x" "unat (lo_id x) = n"
  shows "numbered (Suc n) (cs @ [LobAdd x])"
proof -
  have "lo_id y \<noteq> lo_id x" if "y \<in> set (added cs)" for y using assms(1,3) that by (auto simp: numbered_def)
  then have "lo_id x \<notin> ids_of (added cs)" by (metis image_iff)
  then show ?thesis using numbered_mono [OF assms(1), of "Suc n"] assms(2,3) by (auto simp: numbered_def)
qed

lemma numbered_refines:
  assumes "numbered n cs"
  shows "\<exists>b. lob_run cs empty_lob_book = Some b \<and> lob_ok b \<and> book_lists b = fold lob_spec_step cs ([], [])"
  using lob_run_refines [OF empty_lob_ok, of cs] assms
  by (auto simp: numbered_def lob_is_valid_def empty_lob_book_def book_lists_def)

lemma spec_prices: "lo_price ` set (fst (fold lob_spec_step cs bk) @ snd (fold lob_spec_step cs bk)) \<subseteq> lo_price ` (set (added cs) \<union> set (fst bk @ snd bk))"
proof (induction cs arbitrary: bk)
  case (Cons c cs)
  have "lo_price ` set (fst (lob_spec_step c bk) @ snd (lob_spec_step c bk)) \<subseteq> lo_price ` (set (added [c]) \<union> set (fst bk @ snd bk))"
  proof (cases c)
    case (LobAdd x)
    then show ?thesis using lob_spec_add_image [of lo_price x bk] by auto
  next
    case (LobCancel i)
    then show ?thesis by (cases bk) (auto simp: lob_spec_cancel_def)
  qed
  moreover have "set (added (c # cs)) = set (added [c]) \<union> set (added cs)" by (cases c) auto
  ultimately show ?case using Cons.IH [of "lob_spec_step c bk"] by (simp add: image_Un) blast
qed simp

text \<open>Publishing shows the book's prices: 0, the mark of an empty side, is no price of an order.\<close>

lemma published:
  assumes "numbered n cs" "lob_run cs empty_lob_book = Some (le_book e)"
  shows "lob_get_best_ask (publish_best e) = lob_best_ask (le_book e)" "lob_get_best_bid (publish_best e) = lob_best_bid (le_book e)"
proof -
  obtain b where b: "lob_run cs empty_lob_book = Some b" "lob_ok b" "book_lists b = fold lob_spec_step cs ([], [])"
    using numbered_refines [OF assms(1)] by blast
  then have eq: "b = le_book e" using assms(2) by simp
  have "\<forall>x \<in> set (book_orders b). 0 < lo_price x"
  proof
    fix x assume "x \<in> set (book_orders b)"
    then have "lo_price x \<in> lo_price ` set (added cs)" using spec_prices [of cs "([], [])"] b(3) [symmetric] by (force simp: book_lists_def)
    then show "0 < lo_price x" using assms(1) by (auto simp: numbered_def lob_is_valid_def)
  qed
  then have "lob_best_ask b \<noteq> Some 0" "lob_best_bid b \<noteq> Some 0"
    using best_prices [OF b(2)] by (auto split: list.splits)
  then show "lob_get_best_ask (publish_best e) = lob_best_ask (le_book e)" "lob_get_best_bid (publish_best e) = lob_best_bid (le_book e)"
    unfolding eq by (auto simp: lob_get_best_ask_def lob_get_best_bid_def publish_best_def split: option.splits)
qed

lemma push_ok:
  assumes ok: "engine_ok n e" and num: "\<And>done. numbered n (done @ lq_contents (le_queue e)) \<Longrightarrow> numbered m (done @ lq_contents (le_queue e) @ [c])"
    and le: "n \<le> m"
  shows "\<exists>q r. lq_push (le_queue e) c = Some (q, r) \<and> engine_ok m (e\<lparr>le_next_id := of_nat m, le_queue := q\<rparr>)"
proof -
  have q: "lq_ok (le_queue e)" using ok by (simp add: engine_ok_def)
  obtain q' r where q': "lq_push (le_queue e) c = Some (q', r)" "lq_ok q'" "lq_contents q' = lq_contents (le_queue e) @ [c] \<or> lq_contents q' = lq_contents (le_queue e)"
    using lob_queue.push_law [OF q, of c] by (metis (full_types))
  have "numbered m (done @ lq_contents q')" if d: "numbered n (done @ lq_contents (le_queue e))" for "done"
    using q'(3) num [OF d] numbered_mono [OF d le] by (elim disjE) simp_all
  then show ?thesis using ok q' by (auto simp: engine_ok_def lob_get_best_ask_def lob_get_best_bid_def)
qed

lemma lob_act_ok:
  assumes ok: "engine_ok n e" and n: "n < 2 ^ 32 - 1"
  shows "\<exists>e' m. lob_act x e = Some e' \<and> n \<le> m \<and> m \<le> Suc n \<and> engine_ok m e'"
proof (cases x)
  case (Submit now p q sd)
  let ?o = "\<lparr>lo_price = p, lo_timestamp = now, lo_quantity = q, lo_id = le_next_id e, lo_side = sd\<rparr>"
  have ident: "unat (le_next_id e) = n" using ok n by (simp add: engine_ok_def unat_of_nat)
  have next_id: "le_next_id e + 1 = of_nat (Suc n)" using ok by (simp add: engine_ok_def)
  show ?thesis
  proof (cases "lob_is_valid ?o")
    case True
    have "numbered (Suc n) (done @ lq_contents (le_queue e) @ [LobAdd ?o])" if "numbered n (done @ lq_contents (le_queue e))" for "done"
      using numbered_snoc [OF that True] ident by simp
    then obtain q' r where "lq_push (le_queue e) (LobAdd ?o) = Some (q', r)" "engine_ok (Suc n) (e\<lparr>le_next_id := of_nat (Suc n), le_queue := q'\<rparr>)"
      using push_ok [OF ok, of "Suc n"] by (meson le_SucI order_refl)
    then show ?thesis using Submit True next_id by (intro exI [of _ "e\<lparr>le_next_id := of_nat (Suc n), le_queue := q'\<rparr>"] exI [of _ "Suc n"])
      (simp add: lob_submit_def Let_def)
  next
    case False
    have "engine_ok (Suc n) (e\<lparr>le_next_id := of_nat (Suc n)\<rparr>)"
      using ok numbered_mono [of n _ "Suc n"] by (auto simp: engine_ok_def lob_get_best_ask_def lob_get_best_bid_def)
    then show ?thesis using Submit False next_id by (intro exI [of _ "e\<lparr>le_next_id := of_nat (Suc n)\<rparr>"] exI [of _ "Suc n"])
      (simp add: lob_submit_def Let_def)
  qed
next
  case (SubmitCancel i)
  have "numbered n (done @ lq_contents (le_queue e) @ [LobCancel i])" if "numbered n (done @ lq_contents (le_queue e))" for "done"
    using that by (simp add: numbered_def)
  then obtain q' r where "lq_push (le_queue e) (LobCancel i) = Some (q', r)" "engine_ok n (e\<lparr>le_next_id := of_nat n, le_queue := q'\<rparr>)"
    using push_ok [OF ok, of n] by blast
  moreover have "e\<lparr>le_next_id := of_nat n\<rparr> = e" using ok by (simp add: engine_ok_def)
  ultimately show ?thesis using SubmitCancel by (intro exI [of _ "e\<lparr>le_queue := q'\<rparr>"] exI [of _ n])
    (simp add: lob_submit_cancel_def)
next
  case Turn
  have q: "lq_ok (le_queue e)" using ok by (simp add: engine_ok_def)
  obtain q' where q': "lq_pop (le_queue e) = Some (q', case lq_contents (le_queue e) of [] \<Rightarrow> None | c # _ \<Rightarrow> Some c)" "lq_ok q'"
    "lq_contents q' = tl (lq_contents (le_queue e))" using lob_queue.pop_law [OF q] by blast
  obtain "done" where d: "lob_run done empty_lob_book = Some (le_book e)" "numbered n (done @ lq_contents (le_queue e))"
    using ok by (auto simp: engine_ok_def)
  show ?thesis
  proof (cases "le_running e \<and> lq_contents (le_queue e) \<noteq> []")
    case False
    then show ?thesis using Turn ok q' d
      by (intro exI [of _ "if le_running e then e\<lparr>le_queue := q'\<rparr> else e"] exI [of _ n])
        (auto simp: lob_turn_def engine_ok_def lob_get_best_ask_def lob_get_best_bid_def)
  next
    case True
    then obtain c rest where c: "lq_contents (le_queue e) = c # rest" by (meson neq_Nil_conv)
    have num1: "numbered n ((done @ [c]) @ rest)" using d(2) by (simp add: c)
    note num = num1 numbered_prefix [OF num1]
    obtain b where b: "lob_run (done @ [c]) empty_lob_book = Some b" using numbered_refines [OF num(2)] by blast
    then have s: "lob_step c (le_book e) = Some b" using d(1) by (simp add: lob_run_append split: bind_splits)
    let ?e = "e\<lparr>le_queue := q', le_book := b\<rparr>"
    have p: "lob_get_best_ask (publish_best ?e) = lob_best_ask b" "lob_get_best_bid (publish_best ?e) = lob_best_bid b"
      using published [OF num(2), of ?e] b by simp_all
    have f: "le_queue (publish_best ?e) = q'" "le_book (publish_best ?e) = b" "le_next_id (publish_best ?e) = le_next_id e"
      by (simp_all add: publish_best_def)
    have "engine_ok n (publish_best ?e)"
      unfolding engine_ok_def f p using ok q' b num(1) c by (auto simp: engine_ok_def intro!: exI [of _ "done @ [c]"])
    then show ?thesis using Turn True q'(1) c s by (intro exI [of _ "publish_best ?e"] exI [of _ n]) (simp add: lob_turn_def)
  qed
next
  case Start
  then show ?thesis using ok by (intro exI [of _ "lob_start e"] exI [of _ n]) (auto simp: lob_start_def engine_ok_def lob_get_best_ask_def lob_get_best_bid_def)
next
  case StopRun
  then show ?thesis using ok by (intro exI [of _ "lob_stop e"] exI [of _ n]) (auto simp: lob_stop_def engine_ok_def lob_get_best_ask_def lob_get_best_bid_def)
qed

lemma new_engine_ok: "engine_ok 0 new_lob_engine"
proof -
  have "length (lq_buffer (new_lob_queue 4096 c)) = 2 ^ 12" for c :: LobCommand by (simp add: new_lob_queue_def)
  then have "lq_at 12 0 0 (new_lob_queue 4096 (LobCancel 0))" by (simp add: lq_at_def) (simp add: new_lob_queue_def)
  from lq_at_facts(1,4) [OF this] show ?thesis
    by (auto simp: engine_ok_def new_lob_engine_def numbered_def lob_get_best_ask_def lob_get_best_bid_def lob_best_ask_def lob_best_bid_def
        empty_lob_book_def omap_first_def intro: exI [of _ "[]"])
qed

lemma lob_acts_ok:
  assumes "engine_ok n e" "n + length xs < 2 ^ 32"
  shows "\<exists>e' m. lob_acts xs e = Some e' \<and> engine_ok m e'"
  using assms
proof (induction xs arbitrary: n e)
  case (Cons x xs)
  obtain e1 m where "lob_act x e = Some e1" "m \<le> Suc n" "engine_ok m e1"
    using lob_act_ok [OF Cons.prems(1), of x] Cons.prems(2) by auto
  then show ?case using Cons.IH [of m e1] Cons.prems(2) by auto
qed auto

text \<open>
  Under every interleaving of producer calls and worker turns (fewer than \<open>2 ^ 32\<close>, so that ids do not repeat), nothing faults, the
  book is the one of a run of commands, hence the result of price-time matching, and the published prices are its best prices.
\<close>

theorem lob_engine_publishes_best:
  assumes "length acts < 2 ^ 32"
  shows "\<exists>e cs. lob_acts acts new_lob_engine = Some e \<and> lob_run cs empty_lob_book = Some (le_book e) \<and> lob_ok (le_book e) \<and>
    lob_get_best_ask e = lob_best_ask (le_book e) \<and> lob_get_best_bid e = lob_best_bid (le_book e)"
proof -
  obtain e m where e: "lob_acts acts new_lob_engine = Some e" "engine_ok m e"
    using lob_acts_ok [OF new_engine_ok, of acts] assms by auto
  then obtain cs where cs: "lob_run cs empty_lob_book = Some (le_book e)" "numbered m (cs @ lq_contents (le_queue e))"
    by (auto simp: engine_ok_def)
  then have "numbered m cs" by (blast intro: numbered_prefix)
  then have "lob_ok (le_book e)" using numbered_refines cs(1) by fastforce
  then show ?thesis using e cs(1) by (auto simp: engine_ok_def)
qed

end
