(* ===== verification/Cpp_Vector.thy ===== *)
theory Cpp_Vector
  imports Prelude
begin

text \<open>
  The container exercise \<open>Vector\<close> (\<open>src/vector.cpp\<close>) over an explicit heap: raw storage is allocated and freed, objects are constructed in
  it and destroyed. An operation is \<open>None\<close> where the C++ is undefined (a freed or null block, a slot without an object) and also
  where memory would be given back, or overwritten, while an object lives in it, which is a leak. Copying an object may throw; moving does not.
  Sizes are \<open>size_t\<close> values, natural numbers below \<open>2 ^ 64\<close> with the wrap written out, and an allocation gets the bytes it asks for:
  when \<open>sizeof(T) * size\<close> wraps, the block is too short for its vector. Allocating never fails here.
\<close>

subsection \<open>The heap\<close>

text \<open>A slot is raw, holds an object, or holds an object that was moved from.\<close>

datatype 'a slot = Raw | Obj 'a | Moved

record 'a heap =
  hp_next :: nat
  hp_blocks :: "nat \<rightharpoonup> 'a slot list"

type_synonym ptr = "nat option"

definition size_t :: "nat \<Rightarrow> nat" where
  "size_t n = n mod 2 ^ 64"

text \<open>\<open>operator new[](sizeof(T) * n)\<close>: the product wraps, and the block has as many slots of \<open>w = sizeof(T)\<close> bytes as the bytes asked for hold.\<close>

definition slots_of :: "nat \<Rightarrow> nat \<Rightarrow> nat" where
  "slots_of w n = size_t (w * n) div w"

definition op_new :: "nat \<Rightarrow> nat \<Rightarrow> 'a heap \<Rightarrow> nat \<times> 'a heap" where
  "op_new w n h = (hp_next h, h\<lparr>hp_next := hp_next h + 1, hp_blocks := (hp_blocks h)(hp_next h \<mapsto> replicate (slots_of w n) Raw)\<rparr>)"

definition op_delete :: "ptr \<Rightarrow> 'a heap \<Rightarrow> 'a heap option" where
  "op_delete p h = (case p of
     None \<Rightarrow> Some h
   | Some a \<Rightarrow> (case hp_blocks h a of
       None \<Rightarrow> None
     | Some b \<Rightarrow> if \<forall>s \<in> set b. s = Raw then Some (h\<lparr>hp_blocks := (hp_blocks h)(a := None)\<rparr>) else None))"

text \<open>Reading and writing the slot \<open>i\<close> of the block at \<open>p\<close>.\<close>

definition slot_at :: "ptr \<Rightarrow> nat \<Rightarrow> 'a heap \<Rightarrow> 'a slot option" where
  "slot_at p i h = (case p of None \<Rightarrow> None | Some a \<Rightarrow> (case hp_blocks h a of None \<Rightarrow> None | Some b \<Rightarrow> if i < length b then Some (b ! i) else None))"

definition put_slot :: "ptr \<Rightarrow> nat \<Rightarrow> 'a slot \<Rightarrow> 'a heap \<Rightarrow> 'a heap" where
  "put_slot p i s h = (case p of None \<Rightarrow> h | Some a \<Rightarrow> (case hp_blocks h a of None \<Rightarrow> h
     | Some b \<Rightarrow> h\<lparr>hp_blocks := (hp_blocks h)(a \<mapsto> b[i := s])\<rparr>))"

definition heap_construct :: "ptr \<Rightarrow> nat \<Rightarrow> 'a \<Rightarrow> 'a heap \<Rightarrow> 'a heap option" where
  "heap_construct p i x h = (if slot_at p i h = Some Raw then Some (put_slot p i (Obj x) h) else None)"

definition heap_destroy :: "ptr \<Rightarrow> nat \<Rightarrow> 'a heap \<Rightarrow> 'a heap option" where
  "heap_destroy p i h = (case slot_at p i h of None \<Rightarrow> None | Some Raw \<Rightarrow> None | Some _ \<Rightarrow> Some (put_slot p i Raw h))"

definition read_at :: "ptr \<Rightarrow> nat \<Rightarrow> 'a heap \<Rightarrow> 'a option" where
  "read_at p i h = (case slot_at p i h of Some (Obj x) \<Rightarrow> Some x | _ \<Rightarrow> None)"

text \<open>Destroying the objects \<open>i - 1\<close> to \<open>0\<close>, the loop of every clean-up.\<close>

fun destroy_down :: "ptr \<Rightarrow> nat \<Rightarrow> 'a heap \<Rightarrow> 'a heap option" where
  "destroy_down p 0 h = Some h"
| "destroy_down p (Suc i) h = Option.bind (heap_destroy p i h) (destroy_down p i)"

text \<open>Copying \<open>xs\<close> into the slots from \<open>i\<close> on; \<open>fails k\<close> says that constructing slot \<open>k\<close> throws. The result is where it threw, if it did.\<close>

fun fill :: "(nat \<Rightarrow> bool) \<Rightarrow> ptr \<Rightarrow> nat \<Rightarrow> 'a list \<Rightarrow> 'a heap \<Rightarrow> (nat option \<times> 'a heap) option" where
  "fill fails p i [] h = Some (None, h)"
| "fill fails p i (x # xs) h = (if fails i then Some (Some i, h) else Option.bind (heap_construct p i x h) (fill fails p (i + 1) xs))"

text \<open>Moving the first objects of \<open>p\<close> into \<open>q\<close>, from \<open>i\<close> up.\<close>

fun move_up :: "ptr \<Rightarrow> ptr \<Rightarrow> nat \<Rightarrow> nat \<Rightarrow> 'a heap \<Rightarrow> 'a heap option" where
  "move_up p q i 0 h = Some h"
| "move_up p q i (Suc n) h = Option.bind (read_at p i h) (\<lambda>x. Option.bind (heap_construct q i x (put_slot p i Moved h)) (move_up p q (i + 1) n))"

subsection \<open>The vector\<close>

datatype vector_error = OutOfRange | CopyThrew

record Vector =
  vc_size :: nat
  vc_capacity :: nat
  vc_data :: ptr

definition empty_vector :: Vector where
  "empty_vector = \<lparr>vc_size = 0, vc_capacity = 0, vc_data = None\<rparr>"

text \<open>The constructors allocate \<open>capacity\<close> slots, copy the values and clean up when a copy throws.\<close>

definition construct_vector :: "nat \<Rightarrow> (nat \<Rightarrow> bool) \<Rightarrow> nat \<Rightarrow> 'a list \<Rightarrow> 'a heap \<Rightarrow> ((vector_error + Vector) \<times> 'a heap) option" where
  "construct_vector w fails capacity xs h = (let (a, h1) = op_new w capacity h in
     Option.bind (fill fails (Some a) 0 xs h1) (\<lambda>(thrown, h2). case thrown of
       None \<Rightarrow> Some (Inr \<lparr>vc_size = length xs, vc_capacity = capacity, vc_data = Some a\<rparr>, h2)
     | Some i \<Rightarrow> Option.bind (destroy_down (Some a) i h2) (\<lambda>h3. Option.bind (op_delete (Some a) h3) (\<lambda>h4. Some (Inl CopyThrew, h4)))))"

definition vector_of_value :: "nat \<Rightarrow> (nat \<Rightarrow> bool) \<Rightarrow> nat \<Rightarrow> 'a \<Rightarrow> 'a heap \<Rightarrow> ((vector_error + Vector) \<times> 'a heap) option" where
  "vector_of_value w fails sz val h = construct_vector w fails sz (replicate sz val) h"

definition vector_of_list :: "nat \<Rightarrow> (nat \<Rightarrow> bool) \<Rightarrow> 'a list \<Rightarrow> 'a heap \<Rightarrow> ((vector_error + Vector) \<times> 'a heap) option" where
  "vector_of_list w fails xs h = construct_vector w fails (length xs) xs h"

fun read_all :: "ptr \<Rightarrow> nat \<Rightarrow> nat \<Rightarrow> 'a heap \<Rightarrow> 'a list option" where
  "read_all p i 0 h = Some []"
| "read_all p i (Suc n) h = Option.bind (read_at p i h) (\<lambda>x. map_option ((#) x) (read_all p (i + 1) n h))"

definition copy_vector :: "nat \<Rightarrow> (nat \<Rightarrow> bool) \<Rightarrow> Vector \<Rightarrow> 'a heap \<Rightarrow> ((vector_error + Vector) \<times> 'a heap) option" where
  "copy_vector w fails v h = Option.bind (read_all (vc_data v) 0 (vc_size v) h) (\<lambda>xs. construct_vector w fails (vc_capacity v) xs h)"

definition destroy_vector :: "Vector \<Rightarrow> 'a heap \<Rightarrow> 'a heap option" where
  "destroy_vector v h = Option.bind (destroy_down (vc_data v) (vc_size v) h) (op_delete (vc_data v))"




text \<open>Moving to a new block, the common part of \<open>reserve\<close> and \<open>shrink_to_fit\<close>.\<close>

definition reallocate :: "nat \<Rightarrow> nat \<Rightarrow> Vector \<Rightarrow> 'a heap \<Rightarrow> (Vector \<times> 'a heap) option" where
  "reallocate w sz v h = (let (a, h1) = op_new w sz h in
     Option.bind (move_up (vc_data v) (Some a) 0 (vc_size v) h1) (\<lambda>h2.
     Option.bind (destroy_down (vc_data v) (vc_size v) h2) (\<lambda>h3.
     Option.bind (op_delete (vc_data v) h3) (\<lambda>h4. Some (v\<lparr>vc_data := Some a, vc_capacity := sz\<rparr>, h4)))))"

definition vector_reserve :: "nat \<Rightarrow> nat \<Rightarrow> Vector \<Rightarrow> 'a heap \<Rightarrow> (Vector \<times> 'a heap) option" where
  "vector_reserve w sz v h = (if sz \<le> vc_capacity v then Some (v, h) else reallocate w sz v h)"


text \<open>The argument of \<open>push_back\<close> is a reference: to a value elsewhere, or to an element of a block of the heap.\<close>

datatype 'a reference = Outside 'a | Inside ptr nat

fun deref :: "'a reference \<Rightarrow> 'a heap \<Rightarrow> 'a option" where
  "deref (Outside x) h = Some x"
| "deref (Inside p i) h = read_at p i h"

definition push_back :: "nat \<Rightarrow> bool \<Rightarrow> 'a reference \<Rightarrow> Vector \<Rightarrow> 'a heap \<Rightarrow> ((vector_error option \<times> Vector) \<times> 'a heap) option" where
  "push_back w throws value v h =
     Option.bind (if vc_size v = vc_capacity v then vector_reserve w (max (size_t (2 * vc_capacity v)) 1) v h else Some (v, h)) (\<lambda>(v1, h1).
     Option.bind (deref value h1) (\<lambda>x.
       if throws then Some ((Some CopyThrew, v1), h1)
       else Option.bind (heap_construct (vc_data v1) (vc_size v1) x h1) (\<lambda>h2. Some ((None, v1\<lparr>vc_size := size_t (vc_size v1 + 1)\<rparr>), h2))))"


text \<open>Destroying from the end down to \<open>size\<close>.\<close>

fun destroy_to :: "nat \<Rightarrow> nat \<Rightarrow> ptr \<Rightarrow> 'a heap \<Rightarrow> 'a heap option" where
  "destroy_to sz 0 p h = Some h"
| "destroy_to sz (Suc n) p h = (if Suc n > sz then Option.bind (heap_destroy p n h) (destroy_to sz n p) else Some h)"

definition vector_resize :: "nat \<Rightarrow> (nat \<Rightarrow> bool) \<Rightarrow> nat \<Rightarrow> 'a \<Rightarrow> Vector \<Rightarrow> 'a heap \<Rightarrow> ((vector_error option \<times> Vector) \<times> 'a heap) option" where
  "vector_resize w fails sz val v h =
     (if sz > vc_size v then
        Option.bind (vector_reserve w sz v h) (\<lambda>(v1, h1).
        Option.bind (fill fails (vc_data v1) (vc_size v1) (replicate (sz - vc_size v1) val) h1) (\<lambda>(thrown, h2). case thrown of
          Some _ \<Rightarrow> Some ((Some CopyThrew, v1), h2)
        | None \<Rightarrow> Some ((None, v1\<lparr>vc_size := sz\<rparr>), h2)))
      else map_option (\<lambda>h1. ((None, v\<lparr>vc_size := sz\<rparr>), h1)) (destroy_to sz (vc_size v) (vc_data v) h))"


text \<open>\<open>v = w\<close> for two vectors that are not the same object: a copy is swapped in and the old contents destroyed.\<close>

definition copy_assign :: "nat \<Rightarrow> (nat \<Rightarrow> bool) \<Rightarrow> Vector \<Rightarrow> Vector \<Rightarrow> 'a heap \<Rightarrow> ((vector_error option \<times> Vector) \<times> 'a heap) option" where
  "copy_assign w fails v u h = Option.bind (copy_vector w fails u h) (\<lambda>(r, h1). case r of
     Inl e \<Rightarrow> Some ((Some e, v), h1)
   | Inr tmp \<Rightarrow> map_option (\<lambda>h2. ((None, tmp), h2)) (destroy_vector v h1))"

definition move_assign :: "Vector \<Rightarrow> Vector \<Rightarrow> 'a heap \<Rightarrow> ((Vector \<times> Vector) \<times> 'a heap) option" where
  "move_assign v w h = map_option (\<lambda>h1. ((w, empty_vector), h1)) (destroy_vector v h)"

definition move_construct :: "Vector \<Rightarrow> Vector \<times> Vector" where
  "move_construct w = (w, empty_vector)"

definition swap_vectors :: "Vector \<Rightarrow> Vector \<Rightarrow> Vector \<times> Vector" where
  "swap_vectors v w = (w, v)"

subsection \<open>Blocks\<close>

definition set_block :: "nat \<Rightarrow> 'a slot list \<Rightarrow> 'a heap \<Rightarrow> 'a heap" where
  "set_block a b h = h\<lparr>hp_blocks := (hp_blocks h)(a \<mapsto> b)\<rparr>"

lemma set_block_simps [simp]:
  "hp_blocks (set_block a b h) = (hp_blocks h)(a \<mapsto> b)" "hp_next (set_block a b h) = hp_next h" "set_block a b (set_block a b' h) = set_block a b h"
  by (simp_all add: set_block_def)

lemma set_block_same: "hp_blocks h a = Some b \<Longrightarrow> set_block a b h = h"
  by (simp add: set_block_def map_upd_triv)

lemma slot_at_block: "hp_blocks h a = Some (ss @ s # rest) \<Longrightarrow> i = length ss \<Longrightarrow> slot_at (Some a) i h = Some s"
  by (simp add: slot_at_def)

lemma put_slot_block: "hp_blocks h a = Some (ss @ s # rest) \<Longrightarrow> i = length ss \<Longrightarrow> put_slot (Some a) i t h = set_block a (ss @ t # rest) h"
  by (simp add: put_slot_def set_block_def)

lemma construct_block:
  "hp_blocks h a = Some (ss @ Raw # rest) \<Longrightarrow> i = length ss \<Longrightarrow> heap_construct (Some a) i x h = Some (set_block a (ss @ Obj x # rest) h)"
  by (simp add: heap_construct_def slot_at_block put_slot_block)

lemma destroy_block:
  "hp_blocks h a = Some (ss @ s # rest) \<Longrightarrow> i = length ss \<Longrightarrow> s \<noteq> Raw \<Longrightarrow> heap_destroy (Some a) i h = Some (set_block a (ss @ Raw # rest) h)"
  by (cases s) (simp_all add: heap_destroy_def slot_at_block put_slot_block)

lemma read_block: "hp_blocks h a = Some (ss @ Obj x # rest) \<Longrightarrow> i = length ss \<Longrightarrow> read_at (Some a) i h = Some x"
  by (simp add: read_at_def slot_at_block)

lemma delete_block: "hp_blocks h a = Some (replicate n Raw) \<Longrightarrow> op_delete (Some a) h = Some (h\<lparr>hp_blocks := (hp_blocks h)(a := None)\<rparr>)"
  by (simp add: op_delete_def)

lemma destroy_to_block:
  assumes "hp_blocks h a = Some (ss @ ts @ rest)" "Raw \<notin> set ts"
  shows "destroy_to (length ss) (length ss + length ts) (Some a) h = Some (set_block a (ss @ replicate (length ts) Raw @ rest) h)"
  using assms
proof (induction ts arbitrary: h rest rule: rev_induct)
  case Nil
  then show ?case by (cases "length ss") (simp_all add: set_block_same)
next
  case (snoc t ts)
  let ?h = "set_block a (ss @ ts @ Raw # rest) h"
  have "heap_destroy (Some a) (length ss + length ts) h = Some ?h"
    using destroy_block [of h a "ss @ ts" t rest] snoc.prems by auto
  moreover have "destroy_to (length ss) (length ss + length ts) (Some a) ?h = Some (set_block a (ss @ replicate (length ts) Raw @ Raw # rest) h)"
    using snoc.IH [of ?h "Raw # rest"] snoc.prems(2) by simp
  ultimately show ?case by (simp add: replicate_append_same [symmetric])
qed

lemma destroy_down_to: "destroy_down p n h = destroy_to 0 n p h"
proof (induction n arbitrary: h)
  case (Suc n)
  then show ?case by (cases "heap_destroy p n h") simp_all
qed simp

lemma destroy_down_block:
  assumes "hp_blocks h a = Some (ts @ rest)" "Raw \<notin> set ts"
  shows "destroy_down (Some a) (length ts) h = Some (set_block a (replicate (length ts) Raw @ rest) h)"
  using destroy_to_block [of h a "[]" ts rest] assms by (simp add: destroy_down_to)

text \<open>Filling stops at the first slot whose construction throws.\<close>

lemma fill_block:
  assumes "hp_blocks h a = Some (ss @ replicate (length xs) Raw @ rest)"
  shows "\<exists>k \<le> length xs. fill fails (Some a) (length ss) xs h =
      Some (if k = length xs then None else Some (length ss + k), set_block a (ss @ map Obj (take k xs) @ replicate (length xs - k) Raw @ rest) h) \<and>
    (k < length xs \<longrightarrow> fails (length ss + k)) \<and> (\<forall>i < k. \<not> fails (length ss + i))"
  using assms
proof (induction xs arbitrary: h ss)
  case Nil
  then show ?case by (simp add: set_block_same)
next
  case (Cons x xs)
  show ?case
  proof (cases "fails (length ss)")
    case True
    then show ?thesis using Cons.prems by (intro exI [of _ 0]) (simp add: set_block_same)
  next
    case False
    let ?h = "set_block a (ss @ Obj x # replicate (length xs) Raw @ rest) h"
    have step: "heap_construct (Some a) (length ss) x h = Some ?h" using construct_block [of h a ss] Cons.prems by simp
    have "hp_blocks ?h a = Some ((ss @ [Obj x]) @ replicate (length xs) Raw @ rest)" by simp
    from Cons.IH [OF this] obtain k where
      k: "k \<le> length xs" "fill fails (Some a) (length (ss @ [Obj x])) xs ?h =
        Some (if k = length xs then None else Some (length (ss @ [Obj x]) + k),
          set_block a ((ss @ [Obj x]) @ map Obj (take k xs) @ replicate (length xs - k) Raw @ rest) ?h)"
      "k < length xs \<longrightarrow> fails (length (ss @ [Obj x]) + k)" "\<forall>i < k. \<not> fails (length (ss @ [Obj x]) + i)" by blast
    have "\<not> fails (length ss + i)" if "i < Suc k" for i using that k(4) False by (cases i) auto
    then show ?thesis using False k(1-3) step by (intro exI [of _ "Suc k"]) auto
  qed
qed

lemma move_up_blocks:
  assumes "a \<noteq> c" "hp_blocks h a = Some (replicate i Moved @ map Obj xs @ r1)" "hp_blocks h c = Some (map Obj ys @ replicate (length xs) Raw @ r2)" "length ys = i"
  shows "move_up (Some a) (Some c) i (length xs) h =
    Some (set_block c (map Obj (ys @ xs) @ r2) (set_block a (replicate (i + length xs) Moved @ r1) h))"
  using assms
proof (induction xs arbitrary: h i ys)
  case Nil
  then show ?case by (simp add: set_block_same)
next
  case (Cons x xs)
  let ?h1 = "set_block a (replicate i Moved @ Moved # map Obj xs @ r1) h"
  let ?h2 = "set_block c (map Obj ys @ Obj x # replicate (length xs) Raw @ r2) ?h1"
  have 1: "read_at (Some a) i h = Some x" "put_slot (Some a) i Moved h = ?h1"
    using Cons.prems(2) read_block [of h a "replicate i Moved" x] put_slot_block [of h a "replicate i Moved" "Obj x"] by auto
  have 2: "heap_construct (Some c) i x ?h1 = Some ?h2"
    using construct_block [of ?h1 c "map Obj ys"] Cons.prems(1,3,4) by auto
  have "move_up (Some a) (Some c) (i + 1) (length xs) ?h2 =
      Some (set_block c (map Obj ((ys @ [x]) @ xs) @ r2) (set_block a (replicate (i + 1 + length xs) Moved @ r1) ?h2))"
    using Cons.prems(1,4) by (intro Cons.IH) (simp_all add: replicate_app_Cons_same)
  moreover have "set_block c b (set_block a b' (set_block c b2 (set_block a b3 h))) = set_block c b (set_block a b' h)" for b b' b2 b3
    using Cons.prems(1) by (simp add: set_block_def fun_upd_twist)
  ultimately show ?case using 1 2 by simp
qed

lemma read_all_block:
  assumes "hp_blocks h a = Some (ss @ map Obj xs @ rest)"
  shows "read_all (Some a) (length ss) (length xs) h = Some xs"
  using assms
proof (induction xs arbitrary: ss)
  case (Cons x xs)
  have "read_at (Some a) (length ss) h = Some x" using read_block [of h a ss x] Cons.prems by simp
  then show ?case using Cons.IH [of "ss @ [Obj x]"] Cons.prems by simp
qed simp

subsection \<open>A vector represents a list\<close>

definition heap_ok :: "'a heap \<Rightarrow> bool" where
  "heap_ok h \<longleftrightarrow> (\<forall>a \<ge> hp_next h. hp_blocks h a = None)"

definition holds :: "Vector \<Rightarrow> 'a list \<Rightarrow> 'a heap \<Rightarrow> bool" where
  "holds v xs h \<longleftrightarrow> heap_ok h \<and> vc_size v = length xs \<and> length xs \<le> vc_capacity v \<and> (case vc_data v of
     None \<Rightarrow> vc_capacity v = 0
   | Some a \<Rightarrow> hp_blocks h a = Some (map Obj xs @ replicate (vc_capacity v - length xs) Raw))"

text \<open>The blocks that are not the vector's: whatever an operation does, these stay, and no other appear.\<close>

definition others :: "Vector \<Rightarrow> 'a heap \<Rightarrow> nat \<rightharpoonup> 'a slot list" where
  "others v h = hp_blocks h |` (- set_option (vc_data v))"

definition becomes :: "Vector \<times> 'a heap \<Rightarrow> 'a list \<Rightarrow> Vector \<times> 'a heap \<Rightarrow> bool" where
  "becomes vh xs vh' \<longleftrightarrow> holds (fst vh') xs (snd vh') \<and> others (fst vh') (snd vh') = others (fst vh) (snd vh)"

lemma holds_block:
  assumes "holds v xs h" "vc_data v = Some a"
  shows "hp_blocks h a = Some (map Obj xs @ replicate (vc_capacity v - length xs) Raw)" "a < hp_next h" "heap_ok h"
proof -
  show b: "hp_blocks h a = Some (map Obj xs @ replicate (vc_capacity v - length xs) Raw)" "heap_ok h" using assms by (simp_all add: holds_def)
  show "a < hp_next h" using b by (auto simp: heap_ok_def not_le [symmetric])
qed

lemma holds_size: "holds v xs h \<Longrightarrow> vc_size v = length xs"
  by (simp add: holds_def)

lemma holds_null: "holds v xs h \<Longrightarrow> vc_data v = None \<Longrightarrow> xs = [] \<and> vc_size v = 0 \<and> vc_capacity v = 0"
  by (auto simp: holds_def)

lemma others_set_block [simp]: "vc_data v = Some a \<Longrightarrow> others v (set_block a b h) = others v h"
  by (auto simp: others_def restrict_map_def)

lemma heap_ok_set_block [simp]: "a < hp_next h \<Longrightarrow> heap_ok (set_block a b h) = heap_ok h"
  by (auto simp: heap_ok_def)

text \<open>When the product does not wrap, the block has the slots asked for.\<close>

definition room :: "nat \<Rightarrow> nat \<Rightarrow> bool" where
  "room w n \<longleftrightarrow> 0 < w \<and> w * n < 2 ^ 64"


lemma room_size [simp]: "room w n \<Longrightarrow> size_t n = n"
proof -
  assume "room w n"
  then have "n \<le> w * n" "w * n < 2 ^ 64" by (auto simp: room_def)
  then have "n < 2 ^ 64" by (rule le_less_trans)
  then show ?thesis by (simp add: size_t_def)
qed

lemma slots_of_room [simp]: "room w n \<Longrightarrow> slots_of w n = n"
  by (simp add: room_def slots_of_def size_t_def)

lemma new_block:
  assumes "room w n"
  shows "op_new w n h = (hp_next h, set_block (hp_next h) (replicate n Raw) (h\<lparr>hp_next := hp_next h + 1\<rparr>))"
  using assms by (simp add: op_new_def set_block_def)

text \<open>Moving to a new block keeps the elements; the old block is gone.\<close>

lemma reallocate_holds:
  assumes "holds v xs h" "length xs \<le> n" "room w n"
  shows "\<exists>v' h'. reallocate w n v h = Some (v', h') \<and> becomes (v, h) xs (v', h') \<and> vc_capacity v' = n \<and> vc_size v' = vc_size v \<and>
    (\<forall>a. vc_data v = Some a \<longrightarrow> hp_blocks h' a = None)"
proof (cases "vc_data v")
  case None
  then show ?thesis using holds_null [OF assms(1)] assms
    by (auto simp: reallocate_def op_new_def op_delete_def becomes_def holds_def others_def heap_ok_def restrict_map_def)
next
  case (Some a)
  let ?c = "hp_next h"
  let ?h1 = "set_block ?c (replicate n Raw) (h\<lparr>hp_next := ?c + 1\<rparr>)"
  note B = holds_block [OF assms(1) Some]
  have sz: "vc_size v = length xs" using assms(1) by (simp add: holds_def)
  have ne: "a \<noteq> ?c" using B(2) by simp
  define r1 :: "'a slot list" where "r1 = replicate (vc_capacity v - length xs) Raw"
  define r2 :: "'a slot list" where "r2 = replicate (n - length xs) Raw"
  let ?h2 = "set_block ?c (map Obj xs @ r2) (set_block a (replicate (length xs) Moved @ r1) ?h1)"
  have n: "replicate n Raw = replicate (length xs) Raw @ r2" using assms(2) by (simp add: r2_def replicate_add [symmetric])
  have 2: "move_up (Some a) (Some ?c) 0 (length xs) ?h1 = Some ?h2"
    using move_up_blocks [of a ?c ?h1 0 xs r1 "[]" r2] ne B(1) n by (simp add: r1_def)
  have "hp_blocks ?h2 a = Some (replicate (length xs) Moved @ r1)" using ne by simp
  from destroy_down_block [OF this] have 3: "destroy_down (Some a) (length xs) ?h2 = Some (set_block a (replicate (length xs) Raw @ r1) ?h2)"
    by simp
  let ?h3 = "set_block a (replicate (length xs) Raw @ r1) ?h2"
  let ?h4 = "?h3\<lparr>hp_blocks := (hp_blocks ?h3)(a := None)\<rparr>"
  have "hp_blocks ?h3 a = Some (replicate (length xs + (vc_capacity v - length xs)) Raw)" by (simp add: r1_def replicate_add)
  from delete_block [OF this] have 4: "op_delete (Some a) ?h3 = Some ?h4" .
  let ?v = "v\<lparr>vc_data := Some ?c, vc_capacity := n\<rparr>"
  have "reallocate w n v h = Some (?v, ?h4)"
    using 2 3 4 Some sz by (simp add: reallocate_def new_block [OF assms(3)])
  moreover have "holds ?v xs ?h4" using ne B(3) assms(2) sz by (auto simp: holds_def heap_ok_def r2_def)
  moreover have "others ?v ?h4 = others v h"
    using Some ne B(3) by (auto simp: others_def restrict_map_def heap_ok_def fun_eq_iff)
  ultimately show ?thesis using Some ne by (auto simp: becomes_def)
qed


lemma reserve_holds:
  assumes "holds v xs h" "room w n"
  shows "\<exists>v' h'. vector_reserve w n v h = Some (v', h') \<and> becomes (v, h) xs (v', h') \<and> vc_capacity v' = max n (vc_capacity v) \<and> vc_size v' = vc_size v"
proof (cases "n \<le> vc_capacity v")
  case True
  then show ?thesis using assms by (auto simp: vector_reserve_def becomes_def)
next
  case False
  moreover have "length xs \<le> vc_capacity v" using assms by (simp add: holds_def)
  ultimately show ?thesis using reallocate_holds [OF assms(1) _ assms(2)] by (auto simp: vector_reserve_def)
qed



text \<open>The capacity after the growth of \<open>push_back\<close>.\<close>

definition grown :: "nat \<Rightarrow> nat \<Rightarrow> nat" where
  "grown n cap = (if n = cap then max (2 * cap) 1 else cap)"



text \<open>Destroying from the end leaves a prefix.\<close>

lemma destroy_to_holds:
  assumes "holds v xs h" "n \<le> length xs"
  shows "\<exists>h'. destroy_to n (length xs) (vc_data v) h = Some h' \<and> becomes (v, h) (take n xs) (v\<lparr>vc_size := n\<rparr>, h')"
proof (cases "vc_data v")
  case None
  then show ?thesis using holds_null [OF assms(1) None] assms by (auto simp: becomes_def holds_def others_def)
next
  case (Some a)
  note B = holds_block [OF assms(1) Some]
  have cap: "length xs \<le> vc_capacity v" using assms(1) by (simp add: holds_def)
  define r :: "'a slot list" where "r = replicate (vc_capacity v - length xs) Raw"
  let ?h = "set_block a (map Obj (take n xs) @ replicate (length xs - n) Raw @ r) h"
  have "map Obj xs = map Obj (take n xs) @ map Obj (drop n xs)" by (simp flip: map_append)
  then have "hp_blocks h a = Some (map Obj (take n xs) @ map Obj (drop n xs) @ r)" using B(1) by (simp add: r_def)
  from destroy_to_block [OF this] have "destroy_to n (length xs) (Some a) h = Some ?h" using assms(2) by (simp add: min_absorb2 image_iff)
  moreover have "replicate (length xs - n) Raw @ r = replicate (vc_capacity v - n) Raw"
    using cap assms(2) by (simp add: r_def replicate_add [symmetric])
  then have "holds (v\<lparr>vc_size := n\<rparr>) (take n xs) ?h" using B(2,3) Some cap assms(2) by (simp add: holds_def min_absorb2)
  moreover have "others (v\<lparr>vc_size := n\<rparr>) ?h = others v h" using Some by (auto simp: others_def restrict_map_def)
  ultimately show ?thesis using Some by (auto simp: becomes_def)
qed



lemma destroy_holds:
  assumes "holds v xs h"
  shows "\<exists>h'. destroy_vector v h = Some h' \<and> hp_blocks h' = others v h \<and> heap_ok h'"
proof (cases "vc_data v")
  case None
  then show ?thesis using holds_null [OF assms None] assms by (simp add: destroy_vector_def op_delete_def others_def holds_def restrict_map_def)
next
  case (Some a)
  obtain h1 where 1: "destroy_down (vc_data v) (vc_size v) h = Some h1" "becomes (v, h) [] (v\<lparr>vc_size := 0\<rparr>, h1)"
    using destroy_to_holds [OF assms, of 0] assms by (auto simp: destroy_down_to holds_def)
  then have b: "hp_blocks h1 a = Some (replicate (vc_capacity v) Raw)" "heap_ok h1" using Some by (auto simp: becomes_def holds_def)
  have "others (v\<lparr>vc_size := 0\<rparr>) h1 = others v h" using 1(2) by (simp add: becomes_def)
  then have "(hp_blocks h1)(a := None) = others v h" using Some by (simp add: others_def restrict_map_def fun_eq_iff) metis
  moreover have "heap_ok (h1\<lparr>hp_blocks := (hp_blocks h1)(a := None)\<rparr>)" using b(2) by (simp add: heap_ok_def)
  ultimately show ?thesis using 1(1) Some delete_block [OF b(1)] by (simp add: destroy_vector_def)
qed



subsection \<open>Constructors and assignment\<close>

text \<open>A constructor makes a vector of its values in a new block, or one of its copies throws and the heap's blocks are as before.\<close>

lemma construct_holds:
  assumes "heap_ok h" "length xs \<le> n" "room w n"
  shows "\<exists>r h'. construct_vector w fails n xs h = Some (r, h') \<and> (case r of
      Inl e \<Rightarrow> e = CopyThrew \<and> (\<exists>i < length xs. fails i) \<and> hp_blocks h' = hp_blocks h \<and> heap_ok h'
    | Inr v \<Rightarrow> (\<forall>i < length xs. \<not> fails i) \<and> vc_data v = Some (hp_next h) \<and> vc_capacity v = n \<and> holds v xs h' \<and> others v h' = hp_blocks h)"
proof -
  let ?c = "hp_next h"
  let ?h1 = "set_block ?c (replicate n Raw) (h\<lparr>hp_next := ?c + 1\<rparr>)"
  define r where "r = replicate (n - length xs) (Raw :: 'a slot)"
  have fresh: "hp_blocks h ?c = None" using assms(1) by (simp add: heap_ok_def)
  have "replicate n Raw = replicate (length xs) Raw @ r" using assms(2) by (simp add: r_def replicate_add [symmetric])
  then have "hp_blocks ?h1 ?c = Some ([] @ replicate (length xs) Raw @ r)" by simp
  from fill_block [OF this, of fails] obtain k where k: "k \<le> length xs" "k < length xs \<longrightarrow> fails k" "\<forall>i < k. \<not> fails i"
    "fill fails (Some ?c) 0 xs ?h1 = Some (if k = length xs then None else Some k,
       set_block ?c (map Obj (take k xs) @ replicate (length xs - k) Raw @ r) ?h1)" by auto
  let ?h2 = "set_block ?c (map Obj (take k xs) @ replicate (length xs - k) Raw @ r) ?h1"
  show ?thesis
  proof (cases "k = length xs")
    case True
    let ?v = "\<lparr>vc_size = length xs, vc_capacity = n, vc_data = Some ?c\<rparr>"
    have "construct_vector w fails n xs h = Some (Inr ?v, ?h2)" using k(4) True by (simp add: construct_vector_def new_block [OF assms(3)])
    moreover have "holds ?v xs ?h2" using True assms by (auto simp: holds_def heap_ok_def r_def)
    moreover have "others ?v ?h2 = hp_blocks h" using fresh by (auto simp: others_def restrict_map_def)
    ultimately show ?thesis using k(3) True by auto
  next
    case False
    let ?h3 = "set_block ?c (replicate (length (map Obj (take k xs))) Raw @ replicate (length xs - k) Raw @ r) ?h2"
    have "hp_blocks ?h2 ?c = Some (map Obj (take k xs) @ replicate (length xs - k) Raw @ r)" by simp
    from destroy_down_block [OF this] have 3: "destroy_down (Some ?c) k ?h2 = Some ?h3" using k(1) by (auto simp: min_absorb2)
    let ?h4 = "?h3\<lparr>hp_blocks := (hp_blocks ?h3)(?c := None)\<rparr>"
    have "hp_blocks ?h3 ?c = Some (replicate n Raw)" using k(1) assms(2) by (simp add: r_def min_absorb2 replicate_add [symmetric])
    from delete_block [OF this] have 4: "op_delete (Some ?c) ?h3 = Some ?h4" .
    have "construct_vector w fails n xs h = Some (Inl CopyThrew, ?h4)"
      using k(4) False 3 4 by (simp add: construct_vector_def new_block [OF assms(3)])
    moreover have "hp_blocks ?h4 = hp_blocks h" "heap_ok ?h4" using fresh assms(1) by (auto simp: heap_ok_def)
    moreover have "\<exists>i < length xs. fails i" using k(1,2) False by (intro exI [of _ k]) simp
    ultimately show ?thesis by (intro exI [of _ "Inl CopyThrew"] exI [of _ ?h4]) simp
  qed
qed

lemma read_all_holds: "holds v xs h \<Longrightarrow> read_all (vc_data v) 0 (vc_size v) h = Some xs"
proof (cases "vc_data v")
  case (Some a)
  assume h: "holds v xs h"
  have "hp_blocks h a = Some ([] @ map Obj xs @ replicate (vc_capacity v - length xs) Raw)" using holds_block(1) [OF h Some] by simp
  from read_all_block [OF this] show ?thesis using Some h by (simp add: holds_def)
qed (auto dest: holds_null)

lemma copy_holds:
  assumes "holds u xs h" "room w (vc_capacity u)"
  shows "\<exists>r h'. copy_vector w fails u h = Some (r, h') \<and> (case r of
      Inl e \<Rightarrow> e = CopyThrew \<and> (\<exists>i < length xs. fails i) \<and> hp_blocks h' = hp_blocks h \<and> heap_ok h'
    | Inr v \<Rightarrow> (\<forall>i < length xs. \<not> fails i) \<and> vc_data v = Some (hp_next h) \<and> vc_capacity v = vc_capacity u \<and> holds v xs h' \<and> others v h' = hp_blocks h)"
  using construct_holds [of h xs "vc_capacity u" w fails] read_all_holds [OF assms(1)] assms by (simp add: copy_vector_def holds_def)

lemma holds_frame:
  assumes "holds v xs h" "heap_ok h'" "\<And>a. vc_data v = Some a \<Longrightarrow> hp_blocks h' a = hp_blocks h a"
  shows "holds v xs h'"
  using assms by (auto simp: holds_def split: option.splits)

lemma others_apply: "vc_data v \<noteq> Some a \<Longrightarrow> others v h a = hp_blocks h a"
  by (simp add: others_def restrict_map_def)

text \<open>
  Copy assignment between two vectors: the target becomes a copy and its old storage is given back, or a copy throws and nothing has changed; the source stays.
\<close>

lemma copy_assign_holds:
  assumes "holds v ys h" "holds u xs h" "vc_data v = vc_data u \<longrightarrow> vc_data v = None" "room w (vc_capacity u)"
  shows "\<exists>r v' h'. copy_assign w fails v u h = Some ((r, v'), h') \<and> holds u xs h' \<and>
    (if \<exists>i < length xs. fails i then r = Some CopyThrew \<and> v' = v \<and> holds v ys h' \<and> hp_blocks h' = hp_blocks h
     else r = None \<and> becomes (v, h) xs (v', h'))"
proof -
  obtain r h1 where c: "copy_vector w fails u h = Some (r, h1)" "case r of
      Inl e \<Rightarrow> e = CopyThrew \<and> (\<exists>i < length xs. fails i) \<and> hp_blocks h1 = hp_blocks h \<and> heap_ok h1
    | Inr v \<Rightarrow> (\<forall>i < length xs. \<not> fails i) \<and> vc_data v = Some (hp_next h) \<and> vc_capacity v = vc_capacity u \<and> holds v xs h1 \<and> others v h1 = hp_blocks h"
    using copy_holds [OF assms(2,4)] by blast
  show ?thesis
  proof (cases r)
    case (Inl e)
    then show ?thesis using c holds_frame [OF assms(1), of h1] holds_frame [OF assms(2), of h1] by (auto simp: copy_assign_def)
  next
    case (Inr tmp)
    then have t: "\<not> (\<exists>i < length xs. fails i)" "vc_data tmp = Some (hp_next h)" "holds tmp xs h1" "others tmp h1 = hp_blocks h" using c(2) by auto
    have old: "hp_blocks h1 a = hp_blocks h a" if "a < hp_next h" for a
      using others_apply [of tmp a h1] t(2,4) that by simp
    have v1: "holds v ys h1" using holds_frame [OF assms(1), of h1] t(3) old holds_block(2) [OF assms(1)] by (simp add: holds_def)
    then obtain h2 where d: "destroy_vector v h1 = Some h2" "hp_blocks h2 = others v h1" "heap_ok h2" using destroy_holds by blast
    have "vc_data v \<noteq> Some (hp_next h)" using holds_block(2) [OF assms(1)] by auto
    then have tmp: "holds tmp xs h2" using holds_frame [OF t(3) d(3)] t(2) d(2) others_apply [of v "hp_next h" h1] by simp
    have "holds u xs h2" using holds_frame [OF assms(2) d(3)] d(2) old holds_block(2) [OF assms(2)] assms(3) others_apply [of v _ h1] by fastforce
    moreover have "others tmp h2 = others tmp h1 |` (- set_option (vc_data v))" unfolding others_def d(2) by (simp add: Int_commute)
    then have "others tmp h2 = others v h" unfolding t(4) by (simp add: others_def)
    ultimately show ?thesis using c(1) Inr d(1) t(1) tmp by (auto simp: copy_assign_def becomes_def)
  qed
qed

text \<open>Move assignment: the target takes the source's storage, the source is left empty, the old storage is given back.\<close>

lemma move_assign_holds:
  assumes "holds v ys h" "holds w xs h" "vc_data v = vc_data w \<longrightarrow> vc_data v = None"
  shows "\<exists>h'. move_assign v w h = Some ((w, empty_vector), h') \<and> holds w xs h' \<and> holds empty_vector [] h' \<and> hp_blocks h' = others v h"
proof -
  obtain h1 where d: "destroy_vector v h = Some h1" "hp_blocks h1 = others v h" "heap_ok h1" using destroy_holds [OF assms(1)] by blast
  have "holds w xs h1" using holds_frame [OF assms(2) d(3)] d(2) assms(3) others_apply [of v _ h] by fastforce
  then show ?thesis using d by (auto simp: move_assign_def holds_def empty_vector_def)
qed

subsection \<open>A vector implements a list\<close>

















subsection \<open>Three defects\<close>

text \<open>\<open>v.push_back(v[i])\<close> on a full vector reads the element through a reference into the storage that \<open>reserve\<close> has just freed.\<close>

theorem push_back_own_element:
  assumes "holds v xs h" "i < length xs" "vc_size v = vc_capacity v" "room w (grown (length xs) (vc_capacity v))"
  shows "push_back w throws (Inside (vc_data v) i) v h = None"
proof -
  obtain a where a: "vc_data v = Some a" using assms holds_null [OF assms(1)] by (cases "vc_data v") auto
  have c: "vc_capacity v > 0" "length xs = vc_capacity v" using assms(2,3) holds_size [OF assms(1)] by linarith+
  then have g: "grown (length xs) (vc_capacity v) = 2 * vc_capacity v" by (simp add: grown_def)
  then have s: "size_t (2 * vc_capacity v) = 2 * vc_capacity v" using assms(4) by (intro room_size [of w]) simp
  obtain v1 h1 where "reallocate w (2 * vc_capacity v) v h = Some (v1, h1)" "hp_blocks h1 a = None"
    using reallocate_holds [OF assms(1), of "2 * vc_capacity v" w] assms(4) a c g by (fastforce simp: holds_def)
  then show ?thesis using c s a assms(3) by (simp add: push_back_def vector_reserve_def read_at_def slot_at_def max_def)
qed

text \<open>
  When \<open>sizeof(T) * n\<close> wraps, \<open>reserve(n)\<close> gets a block too short for the \<open>n\<close> elements the vector then counts on. If it cannot even hold one element more than
  there are, \<open>reserve\<close> itself or the next \<open>push_back\<close> constructs an object outside the block.
\<close>

definition block_length :: "nat \<Rightarrow> 'a heap \<Rightarrow> nat option" where
  "block_length a h = map_option length (hp_blocks h a)"

lemma put_slot_length [simp]: "block_length a (put_slot p i s h) = block_length a h"
  by (auto simp: block_length_def put_slot_def split: option.splits)

lemma heap_construct_length: "heap_construct p i x h = Some h' \<Longrightarrow> block_length a h' = block_length a h"
  by (auto simp: heap_construct_def split: if_splits)

lemma heap_destroy_length: "heap_destroy p i h = Some h' \<Longrightarrow> block_length a h' = block_length a h"
  by (auto simp: heap_destroy_def split: option.splits slot.splits)

lemma move_up_length: "move_up p q i n h = Some h' \<Longrightarrow> block_length a h' = block_length a h"
proof (induction n arbitrary: i h)
  case (Suc n)
  then obtain x h1 where "heap_construct q i x (put_slot p i Moved h) = Some h1" "move_up p q (i + 1) n h1 = Some h'"
    by (auto simp: bind_eq_Some_conv)
  then show ?case using Suc.IH heap_construct_length [of q i x _ h1 a] by simp
qed simp

lemma destroy_down_length: "destroy_down p n h = Some h' \<Longrightarrow> block_length a h' = block_length a h"
proof (induction n arbitrary: h)
  case (Suc n)
  then obtain h1 where "heap_destroy p n h = Some h1" "destroy_down p n h1 = Some h'" by (auto simp: bind_eq_Some_conv)
  then show ?case using Suc.IH heap_destroy_length [of p n h h1 a] by simp
qed simp

lemma op_delete_length: "op_delete p h = Some h' \<Longrightarrow> p \<noteq> Some a \<Longrightarrow> block_length a h' = block_length a h"
  by (auto simp: op_delete_def block_length_def split: option.splits if_splits)

lemma reallocate_length:
  assumes "reallocate w n v h = Some (v', h')" "vc_data v \<noteq> Some (hp_next h)"
  shows "v' = v\<lparr>vc_data := Some (hp_next h), vc_capacity := n\<rparr>" "block_length (hp_next h) h' = Some (slots_of w n)"
proof -
  let ?h1 = "snd (op_new w n h)"
  obtain h2 h3 h4 where r: "move_up (vc_data v) (Some (hp_next h)) 0 (vc_size v) ?h1 = Some h2" "destroy_down (vc_data v) (vc_size v) h2 = Some h3"
    "op_delete (vc_data v) h3 = Some h4" "v' = v\<lparr>vc_data := Some (hp_next h), vc_capacity := n\<rparr>" "h' = h4"
    using assms(1) by (auto simp: reallocate_def op_new_def bind_eq_Some_conv)
  then show "v' = v\<lparr>vc_data := Some (hp_next h), vc_capacity := n\<rparr>" by simp
  have "block_length (hp_next h) ?h1 = Some (slots_of w n)" by (simp add: block_length_def op_new_def)
  then show "block_length (hp_next h) h' = Some (slots_of w n)"
    using move_up_length [OF r(1)] destroy_down_length [OF r(2)] op_delete_length [OF r(3) assms(2)] r(5) by simp
qed

lemma construct_outside: "block_length a h = Some n \<Longrightarrow> n \<le> i \<Longrightarrow> heap_construct (Some a) i x h = None"
  by (auto simp: heap_construct_def slot_at_def block_length_def)

theorem reserve_overflow_writes_outside:
  assumes "holds v xs h" "vc_capacity v < n" "slots_of w n \<le> length xs"
  shows "Option.bind (vector_reserve w n v h) (\<lambda>(v1, h1). push_back w False (Outside x) v1 h1) = None"
proof (cases "reallocate w n v h")
  case None
  then show ?thesis using assms(2) by (simp add: vector_reserve_def)
next
  case (Some vh)
  obtain v1 h1 where vh: "vh = (v1, h1)" by fastforce
  have "vc_data v \<noteq> Some (hp_next h)" using holds_block(2) [OF assms(1)] by auto
  note r = reallocate_length [OF Some [unfolded vh] this]
  have "vc_size v < n" "vc_size v = length xs" using assms(1,2) by (auto simp: holds_def)
  then have "push_back w False (Outside x) v1 h1 = None" using construct_outside [OF r(2), of "length xs" x] assms(3) by (simp add: push_back_def r(1))
  then show ?thesis using Some vh assms(2) by (simp add: vector_reserve_def)
qed

text \<open>With four-byte elements a request for \<open>2 ^ 62\<close> of them asks for no storage at all.\<close>

lemma reserve_overflow_example: "slots_of 4 (2 ^ 62) = 0"
  by (simp add: slots_of_def size_t_def)

text \<open>When a copy made by \<open>resize\<close> throws after another was made, that other one is never destroyed: giving back the storage leaks it.\<close>

theorem resize_leaks_when_copy_throws:
  assumes "holds v xs h" "length xs < n" "\<not> fails (length xs)" "fails i" "length xs < i" "i < n" "room w n"
  shows "\<exists>v' h'. vector_resize w fails n x v h = Some ((Some CopyThrew, v'), h') \<and> vc_size v' = length xs \<and> destroy_vector v' h' = None"
proof -
  let ?ys = "replicate (n - length xs) x"
  obtain v1 h1 where 1: "vector_reserve w n v h = Some (v1, h1)" "holds v1 xs h1" "vc_capacity v1 \<ge> n"
    using reserve_holds [OF assms(1,7)] by (auto simp: becomes_def)
  then obtain a where a: "vc_data v1 = Some a" using assms(2) holds_null [OF 1(2)] by (cases "vc_data v1") auto
  have n: "replicate (vc_capacity v1 - length xs) Raw = replicate (length ?ys) Raw @ replicate (vc_capacity v1 - n) Raw"
    using 1(3) assms(2) by (simp add: replicate_add [symmetric])
  have "hp_blocks h1 a = Some (map Obj xs @ replicate (length ?ys) Raw @ replicate (vc_capacity v1 - n) Raw)"
    using holds_block(1) [OF 1(2) a] n by simp
  from fill_block [OF this, of fails] obtain k where
    k: "k \<le> length ?ys" "k < length ?ys \<longrightarrow> fails (length xs + k)" "\<forall>i < k. \<not> fails (length xs + i)"
      "fill fails (Some a) (length xs) ?ys h1 = Some (if k = length ?ys then None else Some (length xs + k),
        set_block a (map Obj xs @ map Obj (take k ?ys) @ replicate (length ?ys - k) Raw @ replicate (vc_capacity v1 - n) Raw) h1)"
    unfolding length_map by blast
  have "i - length xs < n - length xs" using assms(5,6) by simp
  then have "k \<noteq> length ?ys" using k(3) [rule_format, of "i - length xs"] assms(4,5) by auto
  moreover from this have "k \<noteq> 0" using k(1,2) assms(3) by (cases k) auto
  then have "Obj x \<in> set (map Obj (take k ?ys))" using assms(2) by (simp add: take_replicate)
  moreover from this have leak: "op_delete (Some a) (set_block a (ss @ map Obj (take k ?ys) @ r) g) = None" for ss r and g :: "'a heap"
    by (auto simp: op_delete_def)
  let ?h2 = "set_block a (map Obj xs @ map Obj (take k ?ys) @ replicate (length ?ys - k) Raw @ replicate (vc_capacity v1 - n) Raw) h1"
  have "hp_blocks ?h2 a = Some (map Obj xs @ map Obj (take k ?ys) @ replicate (length ?ys - k) Raw @ replicate (vc_capacity v1 - n) Raw)" by simp
  from destroy_down_block [OF this] have "destroy_vector v1 ?h2 = None"
    using leak holds_size [OF 1(2)] a by (simp add: destroy_vector_def image_iff del: set_block_simps)
  ultimately show ?thesis using 1 k(4) a assms(1,2) holds_size [OF 1(2)] holds_size [OF assms(1)] by (auto simp: vector_resize_def)
qed

end
