(* ===== verification/Cpp_Optional.thy ===== *)
theory Cpp_Optional
  imports Cpp_Vector
begin

text \<open>
  The exercise \<open>Optional\<close> (\<open>src/optional.cpp\<close>): a flag beside a union in which an object is constructed and destroyed by hand. The storage is a slot of the heap of
  \<open>Cpp_Vector\<close>; an operation is \<open>None\<close> where an object would be constructed over another, or destroyed or read where there is none. Constructing and copying may throw.
\<close>

subsection \<open>The class\<close>

record 'a Optional =
  on_valid :: bool
  on_storage :: "'a slot"

definition optional_null :: "'a Optional" where
  "optional_null = \<lparr>on_valid = False, on_storage = Raw\<rparr>"

text \<open>\<open>std::construct_at\<close> and \<open>std::destroy_at\<close> on the storage.\<close>

definition build :: "'a slot \<Rightarrow> 'a Optional \<Rightarrow> 'a Optional option" where
  "build x o1 = (if on_storage o1 = Raw then Some (o1\<lparr>on_storage := x\<rparr>) else None)"

definition tear_down :: "'a Optional \<Rightarrow> 'a Optional option" where
  "tear_down o1 = (if on_storage o1 = Raw then None else Some (o1\<lparr>on_storage := Raw\<rparr>))"

definition stored :: "'a Optional \<Rightarrow> 'a slot option" where
  "stored o1 = (if on_storage o1 = Raw then None else Some (on_storage o1))"

text \<open>The value constructors; when the construction throws there is no object.\<close>

definition optional_of :: "bool \<Rightarrow> 'a \<Rightarrow> 'a Optional option option" where
  "optional_of throws x = (if throws then Some None else map_option Some (build (Obj x) \<lparr>on_valid = True, on_storage = Raw\<rparr>))"

definition copy_optional :: "bool \<Rightarrow> 'a Optional \<Rightarrow> 'a Optional option option" where
  "copy_optional throws o2 = (let o1 = \<lparr>on_valid = on_valid o2, on_storage = Raw\<rparr> in
     if on_valid o2 then Option.bind (stored o2) (\<lambda>x. if throws then Some None else map_option Some (build x o1)) else Some (Some o1))"

text \<open>Moving takes the object and leaves a moved-from one: the source stays valid.\<close>

definition move_optional :: "'a Optional \<Rightarrow> ('a Optional \<times> 'a Optional) option" where
  "move_optional o2 = (let o1 = \<lparr>on_valid = on_valid o2, on_storage = Raw\<rparr> in
     if on_valid o1 then Option.bind (stored o2) (\<lambda>x. map_option (\<lambda>o3. (o3, o2\<lparr>on_storage := Moved\<rparr>)) (build x o1)) else Some (o1, o2))"

text \<open>Copy assignment; the flag of the result says whether the copy threw.\<close>

definition assign_optional :: "bool \<Rightarrow> 'a Optional \<Rightarrow> 'a Optional \<Rightarrow> (bool \<times> 'a Optional) option" where
  "assign_optional throws o1 o2 =
     (if on_valid o1 \<and> on_valid o2 then
        Option.bind (stored o1) (\<lambda>_. Option.bind (stored o2) (\<lambda>x. Some (if throws then (True, o1) else (False, o1\<lparr>on_storage := x\<rparr>))))
      else if on_valid o1 \<and> \<not> on_valid o2 then map_option (\<lambda>o3. (False, o3\<lparr>on_valid := on_valid o2\<rparr>)) (tear_down o1)
      else if \<not> on_valid o1 \<and> on_valid o2 then
        Option.bind (stored o2) (\<lambda>x. if throws then Some (True, o1) else map_option (\<lambda>o3. (False, o3\<lparr>on_valid := on_valid o2\<rparr>)) (build x o1))
      else Some (False, o1))"

definition move_assign_optional :: "'a Optional \<Rightarrow> 'a Optional \<Rightarrow> ('a Optional \<times> 'a Optional) option" where
  "move_assign_optional o1 o2 =
     (if on_valid o1 \<and> on_valid o2 then
        Option.bind (stored o1) (\<lambda>_. Option.bind (stored o2) (\<lambda>x. Some (o1\<lparr>on_storage := x\<rparr>, o2\<lparr>on_storage := Moved\<rparr>)))
      else if on_valid o1 \<and> \<not> on_valid o2 then map_option (\<lambda>o3. (o3\<lparr>on_valid := on_valid o2\<rparr>, o2)) (tear_down o1)
      else if \<not> on_valid o1 \<and> on_valid o2 then
        Option.bind (stored o2) (\<lambda>x. map_option (\<lambda>o3. (o3\<lparr>on_valid := on_valid o2\<rparr>, o2\<lparr>on_storage := Moved\<rparr>)) (build x o1))
      else Some (o1, o2))"

text \<open>\<open>value\<close> throws on an empty optional; \<open>operator*\<close> does not look.\<close>

definition optional_value :: "'a Optional \<Rightarrow> 'a slot option option" where
  "optional_value o1 = (if \<not> on_valid o1 then Some None else map_option Some (stored o1))"

definition value_or :: "'a \<Rightarrow> 'a Optional \<Rightarrow> 'a slot option" where
  "value_or fallback o1 = (if on_valid o1 then stored o1 else Some (Obj fallback))"

definition optional_reset :: "'a Optional \<Rightarrow> 'a Optional option" where
  "optional_reset o1 = (if on_valid o1 then map_option (\<lambda>o2. o2\<lparr>on_valid := False\<rparr>) (tear_down o1) else Some o1)"

definition optional_emplace :: "bool \<Rightarrow> 'a \<Rightarrow> 'a Optional \<Rightarrow> (bool \<times> 'a Optional) option" where
  "optional_emplace throws x o1 = Option.bind (if on_valid o1 then tear_down o1 else Some o1) (\<lambda>o2. let o3 = o2\<lparr>on_valid := False\<rparr> in
     if throws then Some (True, o3) else map_option (\<lambda>o4. (False, o4\<lparr>on_valid := True\<rparr>)) (build (Obj x) o3))"

definition give_optional :: "'a Optional \<Rightarrow> 'a Optional \<Rightarrow> ('a Optional \<times> 'a Optional) option" where
  "give_optional o1 o2 = Option.bind (stored o1) (\<lambda>x. Option.bind (build x o2) (\<lambda>o3. map_option (\<lambda>o4. (o4\<lparr>on_valid := False\<rparr>, o3\<lparr>on_valid := True\<rparr>))
     (tear_down (o1\<lparr>on_storage := Moved\<rparr>))))"

definition swap_optional :: "'a Optional \<Rightarrow> 'a Optional \<Rightarrow> ('a Optional \<times> 'a Optional) option" where
  "swap_optional o1 o2 =
     (if on_valid o1 \<and> on_valid o2 then
        Option.bind (stored o1) (\<lambda>x. map_option (\<lambda>y. (o1\<lparr>on_storage := y\<rparr>, o2\<lparr>on_storage := x\<rparr>)) (stored o2))
      else if on_valid o1 \<and> \<not> on_valid o2 then give_optional o1 o2
      else if \<not> on_valid o1 \<and> on_valid o2 then map_option (\<lambda>(a, b). (b, a)) (give_optional o2 o1)
      else Some (o1, o2))"

definition equal_optional :: "'a Optional \<Rightarrow> 'a Optional \<Rightarrow> bool option" where
  "equal_optional o1 o2 = (if on_valid o1 \<noteq> on_valid o2 then Some False
     else if \<not> on_valid o1 then Some True else Option.bind (stored o1) (\<lambda>x. map_option ((=) x) (stored o2)))"

text \<open>The destructor returns the storage, in which no object must be left.\<close>

definition destroy_optional :: "'a Optional \<Rightarrow> 'a slot option" where
  "destroy_optional o1 = (if on_valid o1 then map_option on_storage (tear_down o1) else Some (on_storage o1))"

subsection \<open>It implements an option\<close>

text \<open>The flag is set exactly while the storage holds an object; what it holds is the option.\<close>

definition means :: "'a Optional \<Rightarrow> 'a slot option \<Rightarrow> bool" where
  "means o1 x \<longleftrightarrow> x \<noteq> Some Raw \<and> o1 = (case x of None \<Rightarrow> optional_null | Some s \<Rightarrow> \<lparr>on_valid = True, on_storage = s\<rparr>)"

lemmas optional_defs = build_def tear_down_def stored_def optional_null_def means_def Let_def

text \<open>
  Every member of \<open>Optional\<close> acts as on a mathematical option, with and without an exception: no object is constructed over another, read or destroyed where there
  is none, and after the destructor the storage is raw. A move leaves the source holding a moved-from object, not empty.
\<close>

theorem optional_implements_option:
  assumes "means o1 x" "means o2 y"
  shows "means optional_null None"
    "\<exists>r. optional_of throws v = Some r \<and> (if throws then r = None else \<exists>p. r = Some p \<and> means p (Some (Obj v)))"
    "\<exists>r. copy_optional throws o1 = Some r \<and> (if throws \<and> x \<noteq> None then r = None else \<exists>p. r = Some p \<and> means p x)"
    "\<exists>p q. move_optional o1 = Some (p, q) \<and> means p x \<and> means q (map_option (\<lambda>_. Moved) x)"
    "\<exists>p. assign_optional throws o1 o2 = Some (throws \<and> y \<noteq> None, p) \<and> means p (if throws \<and> y \<noteq> None then x else y)"
    "\<exists>p q. move_assign_optional o1 o2 = Some (p, q) \<and> means p y \<and> means q (map_option (\<lambda>_. Moved) y)"
    "optional_value o1 = Some x" "value_or v o1 = Some (case x of None \<Rightarrow> Obj v | Some s \<Rightarrow> s)"
    "\<exists>p. optional_reset o1 = Some p \<and> means p None"
    "\<exists>p. optional_emplace throws v o1 = Some (throws, p) \<and> means p (if throws then None else Some (Obj v))"
    "\<exists>p q. swap_optional o1 o2 = Some (p, q) \<and> means p y \<and> means q x"
    "equal_optional o1 o2 = Some (x = y)" "destroy_optional o1 = Some Raw"
proof -
  note unf = optional_defs
  show "means optional_null None" by (simp add: unf)
  show "\<exists>r. optional_of throws v = Some r \<and> (if throws then r = None else \<exists>p. r = Some p \<and> means p (Some (Obj v)))"
    by (simp add: optional_of_def unf)
  show "\<exists>r. copy_optional throws o1 = Some r \<and> (if throws \<and> x \<noteq> None then r = None else \<exists>p. r = Some p \<and> means p x)"
    using assms(1) by (cases x; cases throws) (auto simp: copy_optional_def unf)
  show "\<exists>p q. move_optional o1 = Some (p, q) \<and> means p x \<and> means q (map_option (\<lambda>_. Moved) x)"
    using assms(1) by (cases x) (auto simp: move_optional_def unf)
  show "\<exists>p. assign_optional throws o1 o2 = Some (throws \<and> y \<noteq> None, p) \<and> means p (if throws \<and> y \<noteq> None then x else y)"
    using assms by (cases x; cases y; cases throws) (auto simp: assign_optional_def unf)
  show "\<exists>p q. move_assign_optional o1 o2 = Some (p, q) \<and> means p y \<and> means q (map_option (\<lambda>_. Moved) y)"
    using assms by (cases x; cases y) (auto simp: move_assign_optional_def unf)
  show "optional_value o1 = Some x" using assms(1) by (cases x) (auto simp: optional_value_def unf)
  show "value_or v o1 = Some (case x of None \<Rightarrow> Obj v | Some s \<Rightarrow> s)" using assms(1) by (cases x) (auto simp: value_or_def unf)
  show "\<exists>p. optional_reset o1 = Some p \<and> means p None" using assms(1) by (cases x) (auto simp: optional_reset_def unf)
  show "\<exists>p. optional_emplace throws v o1 = Some (throws, p) \<and> means p (if throws then None else Some (Obj v))"
    using assms(1) by (cases x; cases throws) (auto simp: optional_emplace_def unf)
  show "\<exists>p q. swap_optional o1 o2 = Some (p, q) \<and> means p y \<and> means q x"
    using assms by (cases x; cases y) (auto simp: swap_optional_def give_optional_def unf)
  show "equal_optional o1 o2 = Some (x = y)" using assms by (cases x; cases y) (auto simp: equal_optional_def unf)
  show "destroy_optional o1 = Some Raw" using assms(1) by (cases x) (auto simp: destroy_optional_def unf)
qed

end
