(* ===== verification/Cpp_String.thy ===== *)
theory Cpp_String
  imports Main
begin

text \<open>
  The exercise \<open>String\<close> (\<open>src/string.cpp\<close>). A string owns its buffer alone, so the buffer is part of its value: a list of characters in which \<open>None\<close> is one never written.
  An operation is \<open>None\<close> where the C++ is undefined: a null buffer, a place outside it or one never written is used. Indices that the code keeps in an
  \<open>int\<close> are cut to 32 bits.
\<close>

subsection \<open>The class\<close>

record String =
  st_size :: nat
  st_capacity :: nat
  st_data :: "char option list option"

definition empty_string :: String where
  "empty_string = \<lparr>st_size = 0, st_capacity = 0, st_data = None\<rparr>"

definition char_at :: "nat \<Rightarrow> String \<Rightarrow> char option" where
  "char_at i s = Option.bind (st_data s) (\<lambda>b. if i < length b then b ! i else None)"

definition put_char :: "nat \<Rightarrow> char \<Rightarrow> String \<Rightarrow> String option" where
  "put_char i c s = Option.bind (st_data s) (\<lambda>b. if i < length b then Some (s\<lparr>st_data := Some (b[i := Some c])\<rparr>) else None)"

definition to_int :: "int \<Rightarrow> int" where
  "to_int x = (x + 2 ^ 31) mod 2 ^ 32 - 2 ^ 31"

text \<open>An access that throws is \<open>Some None\<close>.\<close>

definition access :: "String \<Rightarrow> int \<Rightarrow> char option option" where
  "access s index = (if index < 0 \<or> index \<ge> int (st_size s) then Some None else map_option Some (char_at (nat index) s))"

definition get_capacity :: "String \<Rightarrow> nat" where
  "get_capacity s = max (2 * st_capacity s) 1"

definition initialize_string :: "string \<Rightarrow> String" where
  "initialize_string str = \<lparr>st_size = length str, st_capacity = length str, st_data = Some (map Some str)\<rparr>"

definition string_of_char :: "char \<Rightarrow> String" where
  "string_of_char ch = \<lparr>st_size = 1, st_capacity = 1, st_data = Some [Some ch]\<rparr>"

fun read_chars :: "nat \<Rightarrow> nat \<Rightarrow> String \<Rightarrow> string option" where
  "read_chars i 0 s = Some []"
| "read_chars i (Suc n) s = Option.bind (char_at i s) (\<lambda>c. map_option ((#) c) (read_chars (i + 1) n s))"

definition copy_string :: "String \<Rightarrow> String option" where
  "copy_string s = map_option initialize_string (read_chars 0 (st_size s) s)"

fun same_chars :: "nat \<Rightarrow> nat \<Rightarrow> String \<Rightarrow> (nat \<Rightarrow> char option) \<Rightarrow> bool option" where
  "same_chars i 0 s f = Some True"
| "same_chars i (Suc n) s f = Option.bind (char_at i s) (\<lambda>c. Option.bind (f i) (\<lambda>d. if c \<noteq> d then Some False else same_chars (i + 1) n s f))"

definition equal_string :: "String \<Rightarrow> String \<Rightarrow> bool option" where
  "equal_string s t = (if st_size s \<noteq> st_size t then Some False else same_chars 0 (st_size t) s (\<lambda>i. char_at i t))"

definition equal_chars :: "String \<Rightarrow> string \<Rightarrow> bool option" where
  "equal_chars s str = (if st_size s \<noteq> length str then Some False
     else same_chars 0 (length str) s (\<lambda>i. if i < length str then Some (str ! i) else None))"

definition string_reserve :: "nat \<Rightarrow> String \<Rightarrow> String option" where
  "string_reserve sz s = (if sz \<le> st_size s then Some s
     else map_option (\<lambda>cs. s\<lparr>st_capacity := sz, st_data := Some (map Some cs @ replicate (sz - st_size s) None)\<rparr>) (read_chars 0 (st_size s) s))"

fun fill_chars :: "nat \<Rightarrow> nat \<Rightarrow> char \<Rightarrow> String \<Rightarrow> String option" where
  "fill_chars i 0 c s = Some s"
| "fill_chars i (Suc n) c s = Option.bind (put_char i c s) (fill_chars (i + 1) n c)"

definition string_resize :: "nat \<Rightarrow> char \<Rightarrow> String \<Rightarrow> String option" where
  "string_resize sz c s = map_option (\<lambda>s1. s1\<lparr>st_size := sz\<rparr>)
     (if sz > st_size s then Option.bind (string_reserve sz s) (fill_chars (st_size s) (sz - st_size s) c) else Some s)"

definition string_push_back :: "char \<Rightarrow> String \<Rightarrow> String option" where
  "string_push_back c s = Option.bind (if st_size s = st_capacity s then string_reserve (get_capacity s) s else Some s) (\<lambda>s1.
     map_option (\<lambda>s2. s2\<lparr>st_size := st_size s2 + 1\<rparr>) (put_char (st_size s1) c s1))"

definition string_pop_back :: "String \<Rightarrow> String" where
  "string_pop_back s = (if st_size s = 0 then s else s\<lparr>st_size := st_size s - 1\<rparr>)"

definition string_front :: "String \<Rightarrow> char option option" where
  "string_front s = access s 0"

text \<open>\<open>m_size - 1\<close> is computed in 64 bits and passed as an \<open>int\<close>.\<close>

definition string_back :: "String \<Rightarrow> char option option" where
  "string_back s = access s (to_int ((int (st_size s) - 1) mod 2 ^ 64))"

fun push_all :: "string \<Rightarrow> String \<Rightarrow> String option" where
  "push_all [] s = Some s"
| "push_all (c # cs) s = Option.bind (string_push_back c s) (push_all cs)"

definition append_chars :: "String \<Rightarrow> string \<Rightarrow> String option" where
  "append_chars s str = Option.bind (copy_string s) (push_all str)"

definition append_string :: "String \<Rightarrow> String \<Rightarrow> String option" where
  "append_string s t = Option.bind (read_chars 0 (st_size t) t) (append_chars s)"

text \<open>
  \<open>operator>>\<close>: skip blanks, then read to the next blank, which is taken too. The last component says whether the stream is still good: \<open>get\<close> at its end fails it.
\<close>

fun read_word :: "(char \<Rightarrow> bool) \<Rightarrow> string \<Rightarrow> String \<Rightarrow> (String \<times> string \<times> bool) option" where
  "read_word isspace [] s = Some (s, [], False)"
| "read_word isspace (c # cs) s = (if isspace c then Some (s, cs, True) else Option.bind (string_push_back c s) (read_word isspace cs))"

fun read_from :: "(char \<Rightarrow> bool) \<Rightarrow> string \<Rightarrow> (String \<times> string \<times> bool) option" where
  "read_from isspace [] = Some (initialize_string [], [], False)"
| "read_from isspace (c # cs) = (if isspace c then read_from isspace cs
     else Option.bind (string_push_back c (initialize_string [])) (read_word isspace cs))"

subsection \<open>A string represents a list of characters\<close>

definition spells :: "String \<Rightarrow> string \<Rightarrow> bool" where
  "spells s cs \<longleftrightarrow> st_size s = length cs \<and> (case st_data s of
     None \<Rightarrow> cs = [] \<and> st_capacity s = 0
   | Some b \<Rightarrow> length b = st_capacity s \<and> length cs \<le> length b \<and> take (length cs) b = map Some cs)"

lemma spells_char_at: "spells s cs \<Longrightarrow> i < length cs \<Longrightarrow> char_at i s = Some (cs ! i)"
  by (auto simp: spells_def char_at_def split: option.splits dest!: arg_cong [where f = "\<lambda>xs. xs ! i"])

lemma spells_read: "spells s cs \<Longrightarrow> i + n \<le> length cs \<Longrightarrow> read_chars i n s = Some (take n (drop i cs))"
proof (induction n arbitrary: i)
  case (Suc n)
  then show ?case using spells_char_at [of s cs i] Suc.IH [of "i + 1"] by (simp add: Cons_nth_drop_Suc [symmetric] del: drop_Suc_Cons)
qed simp

lemma spells_all: "spells s cs \<Longrightarrow> read_chars 0 (st_size s) s = Some cs"
  using spells_read [of s cs 0 "length cs"] by (simp add: spells_def)

lemma spells_initialize: "spells (initialize_string cs) cs"
  by (simp add: spells_def initialize_string_def)

lemma reserve_spells:
  assumes "spells s cs"
  shows "\<exists>s'. string_reserve n s = Some s' \<and> spells s' cs \<and> (length cs < n \<longrightarrow> st_capacity s' = n) \<and> (n \<le> length cs \<longrightarrow> s' = s)"
  using assms spells_all [OF assms] by (auto simp: string_reserve_def spells_def)

lemma put_spells:
  assumes "spells s cs" "length cs < st_capacity s"
  shows "\<exists>s'. put_char (length cs) c s = Some s' \<and> spells (s'\<lparr>st_size := length cs + 1\<rparr>) (cs @ [c]) \<and> st_capacity s' = st_capacity s \<and> st_size s' = st_size s"
proof -
  obtain b where b: "st_data s = Some b" "length b = st_capacity s" "take (length cs) b = map Some cs" "st_size s = length cs"
    using assms by (cases "st_data s") (auto simp: spells_def)
  then show ?thesis using assms(2)
    by (intro exI [of _ "s\<lparr>st_data := Some (b[length cs := Some c])\<rparr>"]) (simp add: spells_def put_char_def take_Suc_conv_app_nth)
qed

lemma push_back_spells:
  assumes "spells s cs"
  shows "\<exists>s'. string_push_back c s = Some s' \<and> spells s' (cs @ [c])"
proof -
  have "\<exists>s1. (if st_size s = st_capacity s then string_reserve (get_capacity s) s else Some s) = Some s1 \<and> spells s1 cs \<and> length cs < st_capacity s1"
  proof (cases "st_size s = st_capacity s")
    case True
    then show ?thesis using reserve_spells [OF assms, of "get_capacity s"] assms by (auto simp: get_capacity_def spells_def)
  next
    case False
    then show ?thesis using assms by (auto simp: spells_def split: option.splits)
  qed
  then obtain s1 where "(if st_size s = st_capacity s then string_reserve (get_capacity s) s else Some s) = Some s1" "spells s1 cs" "length cs < st_capacity s1" by blast
  then show ?thesis using put_spells [of s1 cs c] by (auto simp: string_push_back_def spells_def)
qed

lemma push_all_spells: "spells s cs \<Longrightarrow> \<exists>s'. push_all ds s = Some s' \<and> spells s' (cs @ ds)"
proof (induction ds arbitrary: s cs)
  case (Cons d ds)
  obtain s1 where "string_push_back d s = Some s1" "spells s1 (cs @ [d])" using push_back_spells [OF Cons.prems] by blast
  then show ?case using Cons.IH [of s1 "cs @ [d]"] by simp
qed simp

lemma append_spells: "spells s cs \<Longrightarrow> \<exists>s'. append_chars s ds = Some s' \<and> spells s' (cs @ ds)"
  using push_all_spells [OF spells_initialize [of cs], of ds] spells_all [of s cs] by (simp add: append_chars_def copy_string_def)

lemma put_size: "put_char i c (s\<lparr>st_size := k\<rparr>) = map_option (\<lambda>s'. s'\<lparr>st_size := k\<rparr>) (put_char i c s)"
  by (cases "st_data s") (auto simp: put_char_def)

lemma fill_size: "fill_chars i n c (s\<lparr>st_size := k\<rparr>) = map_option (\<lambda>s'. s'\<lparr>st_size := k\<rparr>) (fill_chars i n c s)"
proof (induction n arbitrary: i s)
  case (Suc n)
  then show ?case by (cases "put_char i c s") (simp_all add: put_size)
qed simp

lemma fill_spells:
  assumes "spells s cs" "length cs + n \<le> st_capacity s"
  shows "\<exists>s'. fill_chars (length cs) n c s = Some s' \<and> spells (s'\<lparr>st_size := length cs + n\<rparr>) (cs @ replicate n c)"
  using assms
proof (induction n arbitrary: s cs)
  case 0
  then show ?case by (auto simp: spells_def split: option.splits)
next
  case (Suc n)
  obtain s1 where 1: "put_char (length cs) c s = Some s1" "spells (s1\<lparr>st_size := length cs + 1\<rparr>) (cs @ [c])" "st_capacity s1 = st_capacity s"
    using put_spells [OF Suc.prems(1), of c] Suc.prems(2) by auto
  obtain s2 where "fill_chars (length (cs @ [c])) n c (s1\<lparr>st_size := length cs + 1\<rparr>) = Some s2"
    "spells (s2\<lparr>st_size := length (cs @ [c]) + n\<rparr>) ((cs @ [c]) @ replicate n c)"
    using Suc.IH [OF 1(2)] Suc.prems(2) 1(3) by auto
  then show ?case using 1(1) by (auto simp: fill_size)
qed

lemma shorten_spells:
  assumes "spells s cs" "n \<le> length cs"
  shows "spells (s\<lparr>st_size := n\<rparr>) (take n cs)"
proof (cases "st_data s")
  case (Some b)
  then have b: "length b = st_capacity s" "length cs \<le> length b" "take (length cs) b = map Some cs" using assms(1) by (simp_all add: spells_def)
  have "take n b = take n (take (length cs) b)" using assms(2) by (simp add: min_absorb1)
  also have "\<dots> = map Some (take n cs)" unfolding b(3) by (rule take_map)
  finally show ?thesis using Some assms(2) b(1,2) by (simp add: spells_def min_absorb2)
qed (use assms in \<open>simp add: spells_def\<close>)

lemma resize_spells:
  assumes "spells s cs"
  shows "\<exists>s'. string_resize n c s = Some s' \<and> spells s' (take n cs @ replicate (n - length cs) c)"
proof (cases "n > length cs")
  case True
  then obtain s1 where 1: "string_reserve n s = Some s1" "spells s1 cs" "st_capacity s1 = n" using reserve_spells [OF assms, of n] by auto
  then show ?thesis using fill_spells [OF 1(2), of "n - length cs" c] True assms by (auto simp: string_resize_def spells_def)
next
  case False
  then have "spells (s\<lparr>st_size := n\<rparr>) (take n cs)" using shorten_spells [OF assms] by simp
  then show ?thesis using False assms by (simp add: string_resize_def spells_def)
qed

lemma same_chars_spells:
  assumes "spells s cs" "\<And>i. i < length cs \<Longrightarrow> f i = Some (ds ! i)" "length ds = length cs" "i + n = length cs"
  shows "same_chars i n s f = Some (drop i cs = drop i ds)"
  using assms(4)
proof (induction n arbitrary: i)
  case 0
  then show ?case using assms(3) by simp
next
  case (Suc n)
  then have "drop i cs = cs ! i # drop (i + 1) cs" "drop i ds = ds ! i # drop (i + 1) ds" using assms(3) by (simp_all add: Cons_nth_drop_Suc)
  then show ?case using Suc spells_char_at [OF assms(1), of i] assms(2) [of i] by simp
qed

lemma access_spells: "spells s cs \<Longrightarrow> access s (int i) = Some (if i < length cs then Some (cs ! i) else None)"
  using spells_char_at [of s cs i] by (auto simp: access_def spells_def)

lemma to_int_small:
  assumes "0 \<le> x" "x < 2 ^ 31"
  shows "to_int (x mod 2 ^ 64) = x"
proof -
  have "x mod 2 ^ 64 = x" using assms by (intro mod_pos_pos_trivial) auto
  moreover have "(x + 2 ^ 31) mod 2 ^ 32 = x + 2 ^ 31" using assms by (intro mod_pos_pos_trivial) auto
  ultimately show ?thesis by (simp add: to_int_def)
qed

lemma back_spells:
  assumes "spells s cs" "length cs \<le> 2 ^ 31"
  shows "string_back s = Some (if cs = [] then None else Some (last cs))"
proof (cases cs rule: rev_cases)
  case Nil
  then show ?thesis using assms(1) by (simp add: string_back_def access_def to_int_def spells_def)
next
  case (snoc ys y)
  have "length ys < 2 ^ 31" using assms(2) snoc by simp
  then have "int (length ys) < 2 ^ 31" by (metis of_nat_less_iff of_nat_numeral of_nat_power)
  then have "to_int (int (length ys) mod 2 ^ 64) = int (length ys)" by (intro to_int_small) simp_all
  moreover have "st_size s = Suc (length ys)" using assms(1) snoc by (simp add: spells_def)
  ultimately show ?thesis using access_spells [OF assms(1), of "length ys"] snoc by (simp add: string_back_def)
qed

text \<open>Reading a word: what stands between the blanks, and the stream good only if a blank followed.\<close>

lemma read_word_spells:
  "spells s ds \<Longrightarrow> \<exists>s'. read_word isspace cs s = Some (s', tl (dropWhile (\<lambda>c. \<not> isspace c) cs), \<exists>c \<in> set cs. isspace c) \<and>
     spells s' (ds @ takeWhile (\<lambda>c. \<not> isspace c) cs)"
proof (induction cs arbitrary: s ds)
  case (Cons c cs)
  show ?case
  proof (cases "isspace c")
    case False
    obtain s1 where "string_push_back c s = Some s1" "spells s1 (ds @ [c])" using push_back_spells [OF Cons.prems] by blast
    then show ?thesis using Cons.IH [of s1 "ds @ [c]"] False by simp
  qed (use Cons.prems in simp)
qed simp

text \<open>
  Every member of \<open>String\<close> acts as on a list of characters and uses only what is allocated and written; \<open>back\<close> while the length fits an \<open>int\<close>. Reading takes the next word
  and leaves the stream good only if a blank stands after it: at the end of the input a word is read and the stream has failed all the same.
\<close>

theorem string_implements_list:
  assumes "spells s cs" "spells t ds"
  shows "spells empty_string []" "spells (initialize_string es) es" "spells (string_of_char c) [c]"
    "\<exists>s'. copy_string s = Some s' \<and> spells s' cs"
    "equal_string s t = Some (cs = ds)" "equal_chars s es = Some (cs = es)"
    "\<exists>s'. string_reserve n s = Some s' \<and> spells s' cs"
    "\<exists>s'. string_resize n c s = Some s' \<and> spells s' (take n cs @ replicate (n - length cs) c)"
    "\<exists>s'. string_push_back c s = Some s' \<and> spells s' (cs @ [c])" "spells (string_pop_back s) (butlast cs)"
    "string_front s = Some (if cs = [] then None else Some (hd cs))"
    "length cs \<le> 2 ^ 31 \<Longrightarrow> string_back s = Some (if cs = [] then None else Some (last cs))"
    "\<exists>s'. append_string s t = Some s' \<and> spells s' (cs @ ds)"
    "\<exists>s' rest. read_from isspace es = Some (s', rest, \<exists>c \<in> set (dropWhile isspace es). isspace c) \<and>
      spells s' (takeWhile (\<lambda>c. \<not> isspace c) (dropWhile isspace es))"
proof -
  show "spells (initialize_string es) es" by (rule spells_initialize)
  show "spells empty_string []" "spells (string_of_char c) [c]" by (simp_all add: empty_string_def spells_def string_of_char_def)
  show "\<exists>s'. copy_string s = Some s' \<and> spells s' cs" using spells_all [OF assms(1)] spells_initialize by (simp add: copy_string_def)
  show "equal_string s t = Some (cs = ds)"
    using same_chars_spells [OF assms(1), of "\<lambda>i. char_at i t" ds 0 "length cs"] spells_char_at [OF assms(2)] assms by (auto simp: equal_string_def spells_def)
  show "equal_chars s es = Some (cs = es)"
    using same_chars_spells [OF assms(1), of "\<lambda>i. if i < length es then Some (es ! i) else None" es 0 "length cs"] assms(1) by (auto simp: equal_chars_def spells_def)
  show "\<exists>s'. string_reserve n s = Some s' \<and> spells s' cs" using reserve_spells [OF assms(1)] by blast
  show "\<exists>s'. string_resize n c s = Some s' \<and> spells s' (take n cs @ replicate (n - length cs) c)" using resize_spells [OF assms(1)] .
  show "\<exists>s'. string_push_back c s = Some s' \<and> spells s' (cs @ [c])" using push_back_spells [OF assms(1)] .
  show "spells (string_pop_back s) (butlast cs)"
  proof (cases "cs = []")
    case True
    then show ?thesis using assms(1) by (simp add: string_pop_back_def spells_def)
  next
    case False
    moreover from this have "st_size s = length cs" "st_size s \<noteq> 0" using assms(1) by (simp_all add: spells_def)
    ultimately show ?thesis using shorten_spells [OF assms(1), of "length cs - 1"] by (simp add: string_pop_back_def butlast_conv_take)
  qed
  show "string_front s = Some (if cs = [] then None else Some (hd cs))"
    using access_spells [OF assms(1), of 0] by (simp add: string_front_def hd_conv_nth)
  show "string_back s = Some (if cs = [] then None else Some (last cs))" if "length cs \<le> 2 ^ 31" using back_spells [OF assms(1) that] .
  show "\<exists>s'. append_string s t = Some s' \<and> spells s' (cs @ ds)" using append_spells [OF assms(1)] spells_all [OF assms(2)] by (simp add: append_string_def)
  show "\<exists>s' rest. read_from isspace es = Some (s', rest, \<exists>c \<in> set (dropWhile isspace es). isspace c) \<and>
      spells s' (takeWhile (\<lambda>c. \<not> isspace c) (dropWhile isspace es))"
  proof (induction es)
    case Nil
    then show ?case by (simp add: spells_initialize)
  next
    case (Cons e es)
    obtain s1 where "string_push_back e (initialize_string []) = Some s1" "spells s1 [e]" using push_back_spells [OF spells_initialize [of "[]"], of e] by auto
    then show ?case using Cons read_word_spells [of s1 "[e]" isspace es] by auto
  qed
qed

end
