(* ===== verification/Smart_Pointers.thy ===== *)
theory Smart_Pointers
  imports "HOL-Library.Multiset"
begin

text \<open>
  The reference-counted pointer (\<open>src/shared_pointer.cpp\<close>) and the owning pointer (\<open>src/unique_pointer.cpp\<close>) over a memory of objects and
  counters. \<open>None\<close> is where the C++ is undefined: a null pointer or a dead counter is read, or a dead object is deleted.
\<close>

subsection \<open>Memory\<close>

record 'a memory =
  my_next :: nat
  my_objects :: "nat \<rightharpoonup> 'a"
  my_counts :: "nat \<rightharpoonup> nat"

definition empty_memory :: "'a memory" where
  "empty_memory = \<lparr>my_next = 0, my_objects = Map.empty, my_counts = Map.empty\<rparr>"

definition new_object :: "'a \<Rightarrow> 'a memory \<Rightarrow> nat \<times> 'a memory" where
  "new_object x m = (my_next m, m\<lparr>my_next := my_next m + 1, my_objects := (my_objects m)(my_next m \<mapsto> x)\<rparr>)"

definition new_count :: "'a memory \<Rightarrow> nat \<times> 'a memory" where
  "new_count m = (my_next m, m\<lparr>my_next := my_next m + 1, my_counts := (my_counts m)(my_next m \<mapsto> 1)\<rparr>)"

definition delete_object :: "nat option \<Rightarrow> 'a memory \<Rightarrow> 'a memory option" where
  "delete_object p m = (case p of
     None \<Rightarrow> Some m
   | Some a \<Rightarrow> if my_objects m a = None then None else Some (m\<lparr>my_objects := (my_objects m)(a := None)\<rparr>))"

subsection \<open>SharedPtr\<close>

record SharedPtr =
  sp_ptr :: "nat option"
  sp_count :: "nat option"

definition null_shared :: SharedPtr where
  "null_shared = \<lparr>sp_ptr = None, sp_count = None\<rparr>"

definition shared_of :: "nat option \<Rightarrow> 'a memory \<Rightarrow> SharedPtr \<times> 'a memory" where
  "shared_of p m = (let (c, m1) = new_count m in (\<lparr>sp_ptr = p, sp_count = Some c\<rparr>, m1))"

definition reduce_ownership :: "SharedPtr \<Rightarrow> 'a memory \<Rightarrow> 'a memory option" where
  "reduce_ownership s m = (case sp_count s of
     None \<Rightarrow> Some m
   | Some c \<Rightarrow> (case my_counts m c of
       None \<Rightarrow> None
     | Some n \<Rightarrow> if n - 1 = 0 then delete_object (sp_ptr s) (m\<lparr>my_counts := (my_counts m)(c := None)\<rparr>)
                else Some (m\<lparr>my_counts := (my_counts m)(c \<mapsto> n - 1)\<rparr>)))"

definition copy_shared :: "SharedPtr \<Rightarrow> 'a memory \<Rightarrow> (SharedPtr \<times> 'a memory) option" where
  "copy_shared s m = (if sp_ptr s = None then Some (null_shared, m)
     else (case sp_count s of
       None \<Rightarrow> None
     | Some c \<Rightarrow> (case my_counts m c of None \<Rightarrow> None | Some n \<Rightarrow> Some (s, m\<lparr>my_counts := (my_counts m)(c \<mapsto> n + 1)\<rparr>))))"

text \<open>Both assignments between two different pointers; the second component of a move is what is left of the source.\<close>

definition assign_shared :: "SharedPtr \<Rightarrow> SharedPtr \<Rightarrow> 'a memory \<Rightarrow> (SharedPtr \<times> 'a memory) option" where
  "assign_shared s t m = Option.bind (reduce_ownership s m) (copy_shared t)"

definition move_shared :: "SharedPtr \<Rightarrow> SharedPtr \<times> SharedPtr" where
  "move_shared t = (t, null_shared)"

definition move_assign_shared :: "SharedPtr \<Rightarrow> SharedPtr \<Rightarrow> 'a memory \<Rightarrow> ((SharedPtr \<times> SharedPtr) \<times> 'a memory) option" where
  "move_assign_shared s t m = map_option (\<lambda>m1. (move_shared t, m1)) (reduce_ownership s m)"

definition reset_shared :: "nat option \<Rightarrow> SharedPtr \<Rightarrow> 'a memory \<Rightarrow> (SharedPtr \<times> 'a memory) option" where
  "reset_shared p s m = map_option (\<lambda>m1. if p = None then (null_shared, m1) else shared_of p m1) (reduce_ownership s m)"

definition use_count :: "SharedPtr \<Rightarrow> 'a memory \<Rightarrow> nat option" where
  "use_count s m = Option.bind (sp_count s) (my_counts m)"

definition deref_shared :: "SharedPtr \<Rightarrow> 'a memory \<Rightarrow> 'a option" where
  "deref_shared s m = Option.bind (sp_ptr s) (my_objects m)"

subsection \<open>Ownership\<close>

text \<open>
  \<open>B\<close> says which object a counter stands for. Every pointer is null or one of those sharing a counter; a counter holds the number of pointers that
  share it, which is not zero; the objects that exist are those with a counter, each with one.
\<close>

definition sharing :: "SharedPtr multiset \<Rightarrow> nat \<Rightarrow> nat" where
  "sharing H c = size (filter_mset (\<lambda>s. sp_count s = Some c) H)"

definition owned :: "(nat \<rightharpoonup> nat option) \<Rightarrow> SharedPtr multiset \<Rightarrow> 'a memory \<Rightarrow> bool" where
  "owned B H m \<longleftrightarrow>
     (\<forall>s. s \<in># H \<longrightarrow> s = null_shared \<or> (\<exists>c. sp_count s = Some c \<and> B c = Some (sp_ptr s))) \<and>
     (\<forall>c. my_counts m c = (if B c = None then None else Some (sharing H c))) \<and> (\<forall>c. B c \<noteq> None \<longrightarrow> sharing H c > 0) \<and>
     (\<forall>a. my_objects m a \<noteq> None \<longleftrightarrow> (\<exists>c. B c = Some (Some a))) \<and> (\<forall>c c' a. B c = Some (Some a) \<longrightarrow> B c' = Some (Some a) \<longrightarrow> c = c') \<and>
     (\<forall>a. my_objects m a \<noteq> None \<longrightarrow> a < my_next m) \<and> (\<forall>c. B c \<noteq> None \<longrightarrow> c < my_next m)"

lemma sharing_simps [simp]:
  "sharing {#} c = 0" "sharing (add_mset s H) c = (if sp_count s = Some c then 1 else 0) + sharing H c"
  by (simp_all add: sharing_def)

lemma null_shared_simps [simp]: "sp_ptr null_shared = None" "sp_count null_shared = None"
  by (simp_all add: null_shared_def)

lemma owned_null [simp]: "owned B (add_mset null_shared H) m = owned B H m"
  by (auto simp: owned_def)

lemma ownedI:
  assumes "\<And>s. s \<in># H \<Longrightarrow> s = null_shared \<or> (\<exists>c. sp_count s = Some c \<and> B c = Some (sp_ptr s))"
    "\<And>c. my_counts m c = (if B c = None then None else Some (sharing H c))" "\<And>c. B c \<noteq> None \<Longrightarrow> sharing H c > 0"
    "\<And>a. my_objects m a \<noteq> None \<longleftrightarrow> (\<exists>c. B c = Some (Some a))" "\<And>c c' a. B c = Some (Some a) \<Longrightarrow> B c' = Some (Some a) \<Longrightarrow> c = c'"
    "\<And>a. my_objects m a \<noteq> None \<Longrightarrow> a < my_next m" "\<And>c. B c \<noteq> None \<Longrightarrow> c < my_next m"
  shows "owned B H m"
  unfolding owned_def using assms by blast

lemma ownedD:
  assumes "owned B H m"
  shows "\<And>s. s \<in># H \<Longrightarrow> s = null_shared \<or> (\<exists>c. sp_count s = Some c \<and> B c = Some (sp_ptr s))"
    "\<And>c. my_counts m c = (if B c = None then None else Some (sharing H c))" "\<And>c. B c \<noteq> None \<Longrightarrow> sharing H c > 0"
    "\<And>a. my_objects m a \<noteq> None \<longleftrightarrow> (\<exists>c. B c = Some (Some a))" "\<And>c c' a. B c = Some (Some a) \<Longrightarrow> B c' = Some (Some a) \<Longrightarrow> c = c'"
    "\<And>a. my_objects m a \<noteq> None \<Longrightarrow> a < my_next m" "\<And>c. B c \<noteq> None \<Longrightarrow> c < my_next m"
  using assms unfolding owned_def by blast+

lemma owned_counter:
  assumes "owned B (add_mset s H) m" "s \<noteq> null_shared"
  obtains c where "sp_count s = Some c" "B c = Some (sp_ptr s)" "my_counts m c = Some (Suc (sharing H c))"
proof -
  obtain c where c: "sp_count s = Some c" "B c = Some (sp_ptr s)" using ownedD(1) [OF assms(1), of s] assms(2) by auto
  then show thesis using ownedD(2) [OF assms(1), of c] that by simp
qed

text \<open>The last pointer to an object takes the object and the counter with it.\<close>

lemma owned_delete:
  assumes "owned B (add_mset s H) m" "sp_count s = Some c" "B c = Some (sp_ptr s)" "sharing H c = 0"
  shows "owned (B(c := None)) H (m\<lparr>my_counts := (my_counts m)(c := None), my_objects := (my_objects m) |` (- set_option (sp_ptr s))\<rparr>)"
proof (rule ownedI)
  note D = ownedD [OF assms(1)]
  show "t = null_shared \<or> (\<exists>d. sp_count t = Some d \<and> (B(c := None)) d = Some (sp_ptr t))" if "t \<in># H" for t
  proof -
    have "sp_count t \<noteq> Some c" using assms(4) that by (auto simp: sharing_def)
    then show ?thesis using D(1) [of t] that by auto
  qed
  show "my_counts (m\<lparr>my_counts := (my_counts m)(c := None), my_objects := my_objects m |` (- set_option (sp_ptr s))\<rparr>) d =
      (if (B(c := None)) d = None then None else Some (sharing H d))" for d
    using D(2) [of d] assms(2) by auto
  show "sharing H d > 0" if "(B(c := None)) d \<noteq> None" for d using D(3) [of d] that assms(2) by (auto split: if_splits)
  show "my_objects (m\<lparr>my_counts := (my_counts m)(c := None), my_objects := my_objects m |` (- set_option (sp_ptr s))\<rparr>) a \<noteq> None \<longleftrightarrow>
      (\<exists>d. (B(c := None)) d = Some (Some a))" for a
  proof -
    have "(\<exists>d. (B(c := None)) d = Some (Some a)) \<longleftrightarrow> (\<exists>d. B d = Some (Some a)) \<and> sp_ptr s \<noteq> Some a"
      using D(5) [of _ a c] assms(3) by (metis fun_upd_apply option.distinct(1) option.inject)
    then show ?thesis using D(4) [of a] by (simp add: restrict_map_def)
  qed
qed (use ownedD(5-7) [OF assms(1)] in \<open>auto simp: restrict_map_def split: if_splits\<close>)

lemma owned_reduce:
  assumes "owned B (add_mset s H) m"
  shows "\<exists>m' B'. reduce_ownership s m = Some m' \<and> owned B' H m'"
proof (cases "s = null_shared")
  case True
  then show ?thesis using assms by (auto simp: reduce_ownership_def)
next
  case False
  obtain c where c: "sp_count s = Some c" "B c = Some (sp_ptr s)" "my_counts m c = Some (Suc (sharing H c))"
    using owned_counter [OF assms False] by metis
  show ?thesis
  proof (cases "sharing H c = 0")
    case True
    have "my_objects m a \<noteq> None" if "sp_ptr s = Some a" for a using ownedD(4) [OF assms, of a] c(2) that by auto
    moreover have "my_objects m |` (- set_option (Some a)) = (my_objects m)(a := None)" for a by (auto simp: restrict_map_def fun_eq_iff)
    ultimately have "reduce_ownership s m =
        Some (m\<lparr>my_counts := (my_counts m)(c := None), my_objects := (my_objects m) |` (- set_option (sp_ptr s))\<rparr>)"
      using c(1,3) True by (cases "sp_ptr s") (simp_all add: reduce_ownership_def delete_object_def restrict_map_def)
    then show ?thesis using owned_delete [OF assms c(1,2) True] by blast
  next
    case some: False
    let ?m = "m\<lparr>my_counts := (my_counts m)(c \<mapsto> sharing H c)\<rparr>"
    note D = ownedD [OF assms]
    have "owned B H ?m"
    proof (rule ownedI)
      show "my_counts ?m d = (if B d = None then None else Some (sharing H d))" for d using D(2) [of d] c by auto
      show "sharing H d > 0" if "B d \<noteq> None" for d using D(3) [OF that] c(1) some by (auto split: if_splits)
    qed (use D(1,4-7) in auto)
    then show ?thesis using c(1,3) some by (auto simp: reduce_ownership_def)
  qed
qed

lemma owned_copy:
  assumes "owned B (add_mset s H) m"
  shows "\<exists>s' m'. copy_shared s m = Some (s', m') \<and> owned B (add_mset s' (add_mset s H)) m' \<and> s' = (if sp_ptr s = None then null_shared else s)"
proof (cases "sp_ptr s = None")
  case True
  then show ?thesis using assms by (simp add: copy_shared_def)
next
  case False
  then have "s \<noteq> null_shared" by auto
  then obtain c where c: "sp_count s = Some c" "B c = Some (sp_ptr s)" "my_counts m c = Some (Suc (sharing H c))"
    using owned_counter [OF assms] by metis
  let ?m = "m\<lparr>my_counts := (my_counts m)(c \<mapsto> Suc (sharing H c) + 1)\<rparr>"
  note D = ownedD [OF assms]
  have "owned B (add_mset s (add_mset s H)) ?m"
  proof (rule ownedI)
    show "my_counts ?m d = (if B d = None then None else Some (sharing (add_mset s (add_mset s H)) d))" for d using D(2) [of d] c by auto
    show "sharing (add_mset s (add_mset s H)) d > 0" if "B d \<noteq> None" for d using D(3) [OF that] by (auto split: if_splits)
  qed (use D(1,4-7) in auto)
  then show ?thesis using c(1,3) False by (auto simp: copy_shared_def)
qed

lemma fresh_counter:
  assumes "owned B H m" "my_next m \<le> c"
  shows "B c = None" "sharing H c = 0"
proof -
  show b: "B c = None" using ownedD(7) [OF assms(1), of c] assms(2) by (cases "B c") auto
  have "sp_count t \<noteq> Some c" if "t \<in># H" for t using ownedD(1) [OF assms(1) that] b by auto
  then show "sharing H c = 0" by (auto simp: sharing_def)
qed

text \<open>One more pointer, with a counter of its own: to a new object, or to none.\<close>

lemma owned_extend:
  assumes "owned B H m" "my_next m \<le> c" "sp_count s = Some c" "\<And>d a. sp_ptr s = Some a \<Longrightarrow> B d \<noteq> Some (Some a)"
    "my_counts m' = (my_counts m)(c \<mapsto> 1)" "\<And>a. my_objects m' a \<noteq> None \<longleftrightarrow> my_objects m a \<noteq> None \<or> sp_ptr s = Some a"
    "\<And>a. sp_ptr s = Some a \<Longrightarrow> a < my_next m'" "c < my_next m'" "my_next m \<le> my_next m'"
  shows "owned (B(c \<mapsto> sp_ptr s)) (add_mset s H) m'"
proof (rule ownedI)
  note D = ownedD [OF assms(1)]
  note F = fresh_counter [OF assms(1,2)]
  show "t = null_shared \<or> (\<exists>d. sp_count t = Some d \<and> (B(c \<mapsto> sp_ptr s)) d = Some (sp_ptr t))" if "t \<in># add_mset s H" for t
  proof (cases "t = s")
    case True
    then show ?thesis using assms(3) by simp
  next
    case False
    then have "t \<in># H" using that by simp
    then consider "t = null_shared" | d where "sp_count t = Some d" "B d = Some (sp_ptr t)" using D(1) by blast
    then show ?thesis
    proof cases
      case 2
      then have "d \<noteq> c" using F(1) by auto
      then show ?thesis using 2 by auto
    qed simp
  qed
  show "my_counts m' d = (if (B(c \<mapsto> sp_ptr s)) d = None then None else Some (sharing (add_mset s H) d))" for d
    using D(2) [of d] F(2) assms(3,5) by (cases "d = c") auto
  show "sharing (add_mset s H) d > 0" if "(B(c \<mapsto> sp_ptr s)) d \<noteq> None" for d
    using D(3) [of d] that assms(3) by (cases "d = c") auto
  show "my_objects m' a \<noteq> None \<longleftrightarrow> (\<exists>d. (B(c \<mapsto> sp_ptr s)) d = Some (Some a))" for a
    using D(4) [of a] F(1) assms(6) [of a] by (metis fun_upd_apply option.distinct(1) option.inject)
  show "d = d'" if "(B(c \<mapsto> sp_ptr s)) d = Some (Some a)" "(B(c \<mapsto> sp_ptr s)) d' = Some (Some a)" for d d' a
    using D(5) [of d a d'] that assms(4) [of a] by (cases "d = c"; cases "d' = c") auto
  show "a < my_next m'" if "my_objects m' a \<noteq> None" for a
    using D(6) [of a] that assms(6,7) [of a] assms(9) by fastforce
  show "d < my_next m'" if "(B(c \<mapsto> sp_ptr s)) d \<noteq> None" for d
    using D(7) [of d] that assms(8,9) by (cases "d = c") auto
qed

lemma owned_new:
  assumes "owned B H m" "new_object x m = (a, m1)" "shared_of (Some a) m1 = (s, m2)"
  shows "\<exists>B'. owned B' (add_mset s H) m2"
proof -
  have m: "a = my_next m" "s = \<lparr>sp_ptr = Some a, sp_count = Some (my_next m + 1)\<rparr>"
    "m2 = m\<lparr>my_next := my_next m + 2, my_objects := (my_objects m)(a \<mapsto> x), my_counts := (my_counts m)(my_next m + 1 \<mapsto> 1)\<rparr>"
    using assms(2,3) by (auto simp: new_object_def shared_of_def new_count_def)
  have "B d \<noteq> Some (Some a)" for d using ownedD(4,6) [OF assms(1), of a] m(1) by auto
  then have "owned (B(my_next m + 1 \<mapsto> sp_ptr s)) (add_mset s H) m2" using m by (intro owned_extend [OF assms(1)]) auto
  then show ?thesis by blast
qed

lemma owned_count_only: "owned B H m \<Longrightarrow> shared_of None m = (s, m2) \<Longrightarrow> \<exists>B'. owned B' (add_mset s H) m2"
  using owned_extend [of B H m "my_next m" s m2] by (auto simp: shared_of_def new_count_def)

text \<open>Resetting: between the allocation of the argument and the new counter, an object exists that no pointer owns.\<close>

lemma owned_reset:
  assumes "owned B (add_mset s H) m" "new_object x m = (a, m1)"
  shows "\<exists>s' m2 B'. reset_shared (Some a) s m1 = Some (s', m2) \<and> owned B' (add_mset s' H) m2"
proof -
  obtain m' B' where r: "reduce_ownership s m = Some m'" "owned B' H m'" using owned_reduce [OF assms(1)] by blast
  have a: "a = my_next m" "m1 = m\<lparr>my_next := my_next m + 1, my_objects := (my_objects m)(a \<mapsto> x)\<rparr>" using assms(2) by (auto simp: new_object_def)
  have "sp_ptr s \<noteq> Some a" using ownedD(1) [OF assms(1), of s] ownedD(4,6) [OF assms(1), of a] a(1) by auto
  then have "reduce_ownership s m1 = Some (m'\<lparr>my_next := my_next m + 1, my_objects := (my_objects m')(a \<mapsto> x)\<rparr>) \<and> my_next m' = my_next m"
    using r(1) a unfolding reduce_ownership_def delete_object_def
    by (auto split: option.splits if_splits simp: fun_upd_twist)
  then have "reduce_ownership s m1 = Some (snd (new_object x m'))" "fst (new_object x m') = a" using a by (simp_all add: new_object_def)
  moreover obtain s' m2 where "shared_of (Some a) (snd (new_object x m')) = (s', m2)" by fastforce
  ultimately show ?thesis using owned_new [OF r(2), of x a "snd (new_object x m')" s' m2] by (auto simp: reset_shared_def)
qed

subsection \<open>Programs with shared pointers\<close>

text \<open>
  The pointers of a program, numbered in the order of their construction; a destroyed one is \<open>None\<close>. A command that names a pointer there is not, or assigns one to
  itself, does nothing.
\<close>

datatype 'a pointer_command =
    Default | Make 'a | MakeNull | CopyFrom nat | MoveFrom nat | Assign nat nat | MoveAssign nat nat | ResetTo nat 'a | ResetNull nat | Destroy nat

type_synonym 'a pointer_world = "SharedPtr option list \<times> 'a memory"

definition handle :: "'b option list \<Rightarrow> nat \<Rightarrow> 'b option" where
  "handle hs i = (if i < length hs then hs ! i else None)"

fun pointer_step :: "'a pointer_command \<Rightarrow> 'a pointer_world \<Rightarrow> 'a pointer_world option" where
  "pointer_step Default (hs, m) = Some (hs @ [Some null_shared], m)"
| "pointer_step (Make x) (hs, m) = (let (a, m1) = new_object x m; (s, m2) = shared_of (Some a) m1 in Some (hs @ [Some s], m2))"
| "pointer_step MakeNull (hs, m) = (let (s, m1) = shared_of None m in Some (hs @ [Some s], m1))"
| "pointer_step (CopyFrom i) (hs, m) = (case handle hs i of None \<Rightarrow> Some (hs, m)
     | Some s \<Rightarrow> map_option (\<lambda>(s', m1). (hs @ [Some s'], m1)) (copy_shared s m))"
| "pointer_step (MoveFrom i) (hs, m) = (case handle hs i of None \<Rightarrow> Some (hs, m)
     | Some s \<Rightarrow> let (t, rest) = move_shared s in Some (hs[i := Some rest] @ [Some t], m))"
| "pointer_step (Assign i j) (hs, m) = (case (handle hs i, handle hs j) of
       (Some s, Some t) \<Rightarrow> if i = j then Some (hs, m) else map_option (\<lambda>(s', m1). (hs[i := Some s'], m1)) (assign_shared s t m)
     | _ \<Rightarrow> Some (hs, m))"
| "pointer_step (MoveAssign i j) (hs, m) = (case (handle hs i, handle hs j) of
       (Some s, Some t) \<Rightarrow> if i = j then Some (hs, m) else map_option (\<lambda>((s', rest), m1). (hs[i := Some s', j := Some rest], m1)) (move_assign_shared s t m)
     | _ \<Rightarrow> Some (hs, m))"
| "pointer_step (ResetTo i x) (hs, m) = (case handle hs i of None \<Rightarrow> Some (hs, m)
     | Some s \<Rightarrow> let (a, m1) = new_object x m in map_option (\<lambda>(s', m2). (hs[i := Some s'], m2)) (reset_shared (Some a) s m1))"
| "pointer_step (ResetNull i) (hs, m) = (case handle hs i of None \<Rightarrow> Some (hs, m)
     | Some s \<Rightarrow> map_option (\<lambda>(s', m1). (hs[i := Some s'], m1)) (reset_shared None s m))"
| "pointer_step (Destroy i) (hs, m) = (case handle hs i of None \<Rightarrow> Some (hs, m)
     | Some s \<Rightarrow> map_option (Pair (hs[i := None])) (reduce_ownership s m))"

fun pointer_run :: "'a pointer_command list \<Rightarrow> 'a pointer_world \<Rightarrow> 'a pointer_world option" where
  "pointer_run [] world = Some world"
| "pointer_run (c # cs) world = Option.bind (pointer_step c world) (pointer_run cs)"

fun present :: "'b option \<Rightarrow> 'b multiset" where
  "present None = {#}"
| "present (Some s) = {#s#}"

definition live :: "'b option list \<Rightarrow> 'b multiset" where
  "live hs = (\<Sum>h\<leftarrow>hs. present h)"

lemma live_append [simp]: "live (hs @ [h]) = present h + live hs"
  by (simp add: live_def)

lemma live_update: "i < length hs \<Longrightarrow> live (hs[i := h]) = present h + live (hs[i := None])"
  by (induction hs arbitrary: i) (auto simp: live_def ac_simps split: nat.splits)

lemma live_at:
  assumes "handle hs i = Some s"
  obtains H where "live hs = add_mset s H" "\<And>h. live (hs[i := h]) = present h + H" "i < length hs" "hs ! i = Some s"
proof -
  have i: "i < length hs" "hs ! i = Some s" using assms by (auto simp: handle_def split: if_splits)
  then show thesis using that live_update [OF i(1)] list_update_id [of hs i] by (metis add_mset_add_single add.commute present.simps(2))
qed

definition world_ok :: "'a pointer_world \<Rightarrow> bool" where
  "world_ok world \<longleftrightarrow> (\<exists>B. owned B (live (fst world)) (snd world))"

lemma replace_ok:
  assumes "world_ok (hs, m)" "handle hs i = Some s"
    "\<And>B H. owned B (add_mset s H) m \<Longrightarrow> \<exists>s' m' B'. f = Some (s', m') \<and> owned B' (add_mset s' H) m'"
  shows "\<exists>world. map_option (\<lambda>(s', m1). (hs[i := Some s'], m1)) f = Some world \<and> world_ok world"
proof -
  obtain H where H: "live hs = add_mset s H" "\<And>h. live (hs[i := h]) = present h + H" using live_at [OF assms(2)] by metis
  then obtain B where "owned B (add_mset s H) m" using assms(1) by (auto simp: world_ok_def)
  from assms(3) [OF this] show ?thesis using H(2) by (auto simp: world_ok_def)
qed

text \<open>Two pointers of the program.\<close>

lemma live_at_two:
  assumes "handle hs i = Some s" "handle hs j = Some t" "i \<noteq> j"
  obtains H where "live hs = add_mset s (add_mset t H)" "\<And>h k. live (hs[i := h, j := k]) = present h + present k + H"
    "\<And>h. live (hs[i := h]) = present h + add_mset t H"
proof -
  obtain H where H: "live hs = add_mset s H" "\<And>h. live (hs[i := h]) = present h + H" "i < length hs" using live_at [OF assms(1)] by metis
  have "handle (hs[i := None]) j = Some t" using assms(2,3) by (simp add: handle_def split: if_splits)
  then obtain K where K: "live (hs[i := None]) = add_mset t K" "\<And>k. live (hs[i := None, j := k]) = present k + K" using live_at by metis
  then have "H = add_mset t K" using H(2) [of None] by simp
  moreover have "live (hs[i := h, j := k]) = present h + present k + K" for h k
  proof -
    have "handle (hs[j := k, i := Some s]) i = Some s" using H(3) by (simp add: handle_def)
    then obtain L where L: "\<And>h. live (hs[j := k, i := Some s, i := h]) = present h + L" using live_at by metis
    have "L = present k + K" using L [of None] K(2) [of k] assms(3) by (simp add: list_update_swap)
    then show ?thesis using L [of h] assms(3) by (simp add: list_update_swap ac_simps)
  qed
  ultimately show thesis using that [of K] H by simp
qed

lemma step_ok:
  assumes "world_ok world"
  shows "\<exists>world'. pointer_step c world = Some world' \<and> world_ok world'"
proof -
  obtain hs m where w: "world = (hs, m)" by fastforce
  obtain B where B: "owned B (live hs) m" using assms w by (auto simp: world_ok_def)
  note ok = assms [unfolded w]
  show ?thesis
  proof (cases c)
    case Default
    then show ?thesis using B w by (auto simp: world_ok_def)
  next
    case (Make x)
    obtain a m1 s m2 where "new_object x m = (a, m1)" "shared_of (Some a) m1 = (s, m2)" by (metis prod.exhaust)
    then show ?thesis using owned_new [OF B] Make w by (auto simp: world_ok_def)
  next
    case MakeNull
    obtain s m1 where "shared_of None m = (s, m1)" by (metis prod.exhaust)
    then show ?thesis using owned_count_only [OF B] MakeNull w by (auto simp: world_ok_def)
  next
    case (CopyFrom i)
    show ?thesis
    proof (cases "handle hs i")
      case (Some s)
      then obtain H where H: "live hs = add_mset s H" using live_at by metis
      then obtain s' m' where "copy_shared s m = Some (s', m')" "owned B (add_mset s' (live hs)) m'" using owned_copy [of B s H m] B by auto
      then show ?thesis using CopyFrom Some w by (auto simp: world_ok_def)
    qed (use CopyFrom w ok in simp)
  next
    case (MoveFrom i)
    show ?thesis
    proof (cases "handle hs i")
      case (Some s)
      then obtain H where H: "live hs = add_mset s H" "\<And>h. live (hs[i := h]) = present h + H" using live_at by metis
      then show ?thesis using B MoveFrom Some w by (auto simp: world_ok_def move_shared_def add_mset_commute)
    qed (use MoveFrom w ok in simp)
  next
    case (Assign i j)
    show ?thesis
    proof (cases "i \<noteq> j \<and> handle hs i \<noteq> None \<and> handle hs j \<noteq> None")
      case True
      then obtain s t where st: "handle hs i = Some s" "handle hs j = Some t" by auto
      then obtain H where H: "live hs = add_mset s (add_mset t H)" "\<And>h. live (hs[i := h]) = present h + add_mset t H"
        using live_at_two [OF st] True by metis
      obtain m1 B1 where r: "reduce_ownership s m = Some m1" "owned B1 (add_mset t H) m1" using owned_reduce B H(1) by metis
      obtain s' m2 where "copy_shared t m1 = Some (s', m2)" "owned B1 (add_mset s' (add_mset t H)) m2" using owned_copy [OF r(2)] by metis
      moreover from this have "world_ok (hs[i := Some s'], m2)" using H(2) by (auto simp: world_ok_def add_mset_commute)
      ultimately show ?thesis using Assign True st w r(1) by (simp add: assign_shared_def)
    qed (use Assign w ok in \<open>auto split: option.splits\<close>)
  next
    case (MoveAssign i j)
    show ?thesis
    proof (cases "i \<noteq> j \<and> handle hs i \<noteq> None \<and> handle hs j \<noteq> None")
      case True
      then obtain s t where st: "handle hs i = Some s" "handle hs j = Some t" by auto
      then obtain H where H: "live hs = add_mset s (add_mset t H)" "\<And>h k. live (hs[i := h, j := k]) = present h + present k + H"
        using live_at_two [OF st] True by metis
      obtain m1 B1 where "reduce_ownership s m = Some m1" "owned B1 (add_mset t H) m1" using owned_reduce B H(1) by metis
      then show ?thesis using MoveAssign True st w H(2) by (auto simp: world_ok_def move_assign_shared_def move_shared_def add_mset_commute)
    qed (use MoveAssign w ok in \<open>auto split: option.splits\<close>)
  next
    case (ResetTo i x)
    show ?thesis
    proof (cases "handle hs i")
      case (Some s)
      obtain a m1 where n: "new_object x m = (a, m1)" by fastforce
      show ?thesis using replace_ok [OF ok Some owned_reset [OF _ n]] ResetTo Some w n by simp
    qed (use ResetTo w ok in simp)
  next
    case (ResetNull i)
    show ?thesis
    proof (cases "handle hs i")
      case (Some s)
      have "\<exists>s' m' B'. reset_shared None s m = Some (s', m') \<and> owned B' (add_mset s' H) m'" if "owned B (add_mset s H) m" for B H
        using owned_reduce [OF that] by (auto simp: reset_shared_def)
      then show ?thesis using replace_ok [OF ok Some, of "reset_shared None s m"] ResetNull Some w by simp
    qed (use ResetNull w ok in simp)
  next
    case (Destroy i)
    show ?thesis
    proof (cases "handle hs i")
      case (Some s)
      then obtain H where H: "live hs = add_mset s H" "\<And>h. live (hs[i := h]) = present h + H" using live_at by metis
      then show ?thesis using owned_reduce [of B s H m] B Destroy Some w by (auto simp: world_ok_def)
    qed (use Destroy w ok in simp)
  qed
qed

lemma run_ok: "world_ok world \<Longrightarrow> \<exists>world'. pointer_run cs world = Some world' \<and> world_ok world'"
proof (induction cs arbitrary: world)
  case (Cons c cs)
  obtain w where "pointer_step c world = Some w" "world_ok w" using step_ok [OF Cons.prems] by blast
  then show ?case using Cons.IH [of w] by simp
qed simp

text \<open>
  Whatever a program does with its pointers, nothing is used or deleted after its death. An object lives exactly as long as a pointer points to it; the counter of a pointer that
  points to an object is the number of pointers to that object; and when all pointers are destroyed nothing is left.
\<close>

theorem shared_pointers_sound:
  shows "\<exists>hs m. pointer_run cs ([], empty_memory) = Some (hs, m) \<and>
    (\<forall>a. my_objects m a \<noteq> None \<longleftrightarrow> (\<exists>s. s \<in># live hs \<and> sp_ptr s = Some a)) \<and>
    (\<forall>s a. s \<in># live hs \<longrightarrow> sp_ptr s = Some a \<longrightarrow> use_count s m = Some (size (filter_mset (\<lambda>t. sp_ptr t = Some a) (live hs)))) \<and>
    (live hs = {#} \<longrightarrow> my_objects m = Map.empty \<and> my_counts m = Map.empty)"
proof -
  have "world_ok ([], empty_memory)" by (auto simp: world_ok_def live_def owned_def empty_memory_def intro: exI [of _ Map.empty])
  then obtain hs m where run: "pointer_run cs ([], empty_memory) = Some (hs, m)" "world_ok (hs, m)" using run_ok [of "([], empty_memory)" cs] by auto
  then obtain B where "owned B (live hs) m" by (auto simp: world_ok_def)
  note D = ownedD [OF this]
  have shared: "\<exists>s. s \<in># live hs \<and> sp_count s = Some c" if "B c \<noteq> None" for c
    using D(3) [OF that] by (auto simp: sharing_def nonempty_has_size [symmetric] multiset_nonemptyE elim: multiset_nonemptyE)
  have ptr: "B c = Some (sp_ptr s)" if "s \<in># live hs" "sp_count s = Some c" for s c using D(1) [OF that(1)] that(2) by auto
  have "my_objects m a \<noteq> None \<longleftrightarrow> (\<exists>s. s \<in># live hs \<and> sp_ptr s = Some a)" for a
  proof
    assume "my_objects m a \<noteq> None"
    then obtain c where "B c = Some (Some a)" using D(4) by auto
    then show "\<exists>s. s \<in># live hs \<and> sp_ptr s = Some a" using shared [of c] ptr by auto
  next
    assume "\<exists>s. s \<in># live hs \<and> sp_ptr s = Some a"
    then show "my_objects m a \<noteq> None" using D(1) D(4) [of a] by fastforce
  qed
  moreover have "use_count s m = Some (size (filter_mset (\<lambda>t. sp_ptr t = Some a) (live hs)))" if s: "s \<in># live hs" "sp_ptr s = Some a" for s a
  proof -
    obtain c where c: "sp_count s = Some c" "B c = Some (Some a)" using D(1) [OF s(1)] s(2) by auto
    have "sp_ptr t = Some a \<longleftrightarrow> sp_count t = Some c" if t: "t \<in># live hs" for t
    proof
      assume "sp_ptr t = Some a"
      moreover from this obtain d where "sp_count t = Some d" "B d = Some (Some a)" using D(1) [OF t] by auto
      ultimately show "sp_count t = Some c" using D(5) c(2) by blast
    qed (use ptr [OF t] c(2) in simp)
    then have "filter_mset (\<lambda>t. sp_ptr t = Some a) (live hs) = filter_mset (\<lambda>t. sp_count t = Some c) (live hs)" by (intro filter_mset_cong) auto
    then show ?thesis using D(2) [of c] c by (simp add: use_count_def sharing_def)
  qed
  moreover have "my_objects m = Map.empty \<and> my_counts m = Map.empty" if "live hs = {#}"
  proof -
    have "B c = None" for c using D(3) [of c] that by (cases "B c") auto
    then show ?thesis using D(2,4) by (auto simp: fun_eq_iff)
  qed
  ultimately show ?thesis using run(1) by blast
qed

subsection \<open>UniquePtr\<close>

text \<open>
  A program with owning pointers; a pointer that is null or destroyed is \<open>None\<close>. \<open>release\<close> hands the object to the caller: the released ones are
  recorded. A command that names a pointer there is not, or moves one to itself, does nothing.
\<close>

datatype 'a unique_command = UMake 'a | UMove nat | UMoveAssign nat nat | UReset nat 'a | UResetNull nat | URelease nat | USwap nat nat | UDestroy nat

type_synonym 'a unique_world = "nat option list \<times> nat multiset \<times> 'a memory"

fun unique_step :: "'a unique_command \<Rightarrow> 'a unique_world \<Rightarrow> 'a unique_world option" where
  "unique_step (UMake x) (us, r, m) = (let (a, m1) = new_object x m in Some (us @ [Some a], r, m1))"
| "unique_step (UMove i) (us, r, m) = (if i < length us then Some (us[i := None] @ [us ! i], r, m) else Some (us, r, m))"
| "unique_step (UMoveAssign i j) (us, r, m) = (if i < length us \<and> j < length us \<and> i \<noteq> j
     then map_option (\<lambda>m1. (us[i := us ! j, j := None], r, m1)) (delete_object (us ! i) m) else Some (us, r, m))"
| "unique_step (UReset i x) (us, r, m) = (if i < length us
     then let (a, m1) = new_object x m in map_option (\<lambda>m2. (us[i := Some a], r, m2)) (delete_object (us ! i) m1) else Some (us, r, m))"
| "unique_step (UResetNull i) (us, r, m) = (if i < length us then map_option (\<lambda>m1. (us[i := None], r, m1)) (delete_object (us ! i) m) else Some (us, r, m))"
| "unique_step (URelease i) (us, r, m) = (if i < length us then Some (us[i := None], present (us ! i) + r, m) else Some (us, r, m))"
| "unique_step (USwap i j) (us, r, m) = (if i < length us \<and> j < length us then Some (us[i := us ! j, j := us ! i], r, m) else Some (us, r, m))"
| "unique_step (UDestroy i) (us, r, m) = (if i < length us then map_option (\<lambda>m1. (us[i := None], r, m1)) (delete_object (us ! i) m) else Some (us, r, m))"

fun unique_run :: "'a unique_command list \<Rightarrow> 'a unique_world \<Rightarrow> 'a unique_world option" where
  "unique_run [] world = Some world"
| "unique_run (c # cs) world = Option.bind (unique_step c world) (unique_run cs)"

text \<open>Every object has exactly one owner, a pointer or the caller of \<open>release\<close>, and every owner an object.\<close>

definition one_owner :: "nat multiset \<Rightarrow> 'a memory \<Rightarrow> bool" where
  "one_owner P m \<longleftrightarrow> (\<forall>a. count P a = (if my_objects m a = None then 0 else 1)) \<and> (\<forall>a. my_objects m a \<noteq> None \<longrightarrow> a < my_next m)"

definition unique_ok :: "'a unique_world \<Rightarrow> bool" where
  "unique_ok world = (case world of (us, r, m) \<Rightarrow> one_owner (live us + r) m)"

lemma one_owner_new:
  assumes "one_owner P m" "new_object x m = (a, m1)"
  shows "one_owner (add_mset a P) m1"
  using assms by (auto simp: one_owner_def new_object_def less_Suc_eq)

lemma one_owner_delete:
  assumes "one_owner (present p + P) m"
  shows "\<exists>m'. delete_object p m = Some m' \<and> one_owner P m' \<and> my_next m' = my_next m"
proof (cases p)
  case None
  then show ?thesis using assms by (simp add: delete_object_def)
next
  case (Some a)
  have a: "count P b + (if b = a then 1 else 0) = (if my_objects m b = None then 0 else 1)" for b
  proof -
    have "count (present p + P) b = (if my_objects m b = None then 0 else 1)" using assms unfolding one_owner_def by blast
    then show ?thesis using Some by (cases "b = a") simp_all
  qed
  have "my_objects m a \<noteq> None" using a [of a] by (simp split: if_splits)
  moreover have "one_owner P (m\<lparr>my_objects := (my_objects m)(a := None)\<rparr>)"
    unfolding one_owner_def
  proof (intro conjI allI impI)
    show "count P b = (if my_objects (m\<lparr>my_objects := (my_objects m)(a := None)\<rparr>) b = None then 0 else 1)" for b
      using a [of b] by (cases "b = a") (auto split: if_splits)
    show "b < my_next (m\<lparr>my_objects := (my_objects m)(a := None)\<rparr>)" if "my_objects (m\<lparr>my_objects := (my_objects m)(a := None)\<rparr>) b \<noteq> None" for b
      using assms that by (simp add: one_owner_def split: if_splits)
  qed
  ultimately show ?thesis using Some by (simp add: delete_object_def)
qed

lemma live_slot: "i < length us \<Longrightarrow> live us = present (us ! i) + live (us[i := None])"
  using live_update [of i us "us ! i"] by simp

lemma live_two_slots:
  assumes "i < length us" "j < length us" "i \<noteq> j"
  shows "live us = present (us ! i) + present (us ! j) + live (us[i := None, j := None])"
    "live (us[i := h, j := k]) = present h + present k + live (us[i := None, j := None])"
proof -
  have 1: "live (us[i := h, j := k]) = present k + live (us[i := h, j := None])" for h k using live_update [of j "us[i := h]" k] assms(2) by simp
  have 2: "live (us[i := h, j := None]) = present h + live (us[i := None, j := None])" for h
    using live_update [of i "us[j := None]" h] assms unfolding list_update_swap [OF assms(3), of us] by simp
  show two: "live (us[i := h, j := k]) = present h + present k + live (us[i := None, j := None])" for h k
    unfolding 1 [of h k] 2 [of h] by (simp only: ac_simps)
  show "live us = present (us ! i) + present (us ! j) + live (us[i := None, j := None])" using two [of "us ! i" "us ! j"] by simp
qed

lemma unique_step_ok:
  assumes "unique_ok world"
  shows "\<exists>world'. unique_step c world = Some world' \<and> unique_ok world'"
proof -
  obtain us r m where w: "world = (us, r, m)" by (cases world) auto
  have ok: "one_owner (live us + r) m" using assms w by (simp add: unique_ok_def)
  have slot: "one_owner (present (us ! i) + (live (us[i := None]) + r)) m" if "i < length us" for i
    using ok live_slot [OF that] by (simp add: ac_simps)
  show ?thesis
  proof (cases c)
    case (UMake x)
    obtain a m1 where n: "new_object x m = (a, m1)" by fastforce
    then show ?thesis using one_owner_new [OF ok n] UMake w by (simp add: unique_ok_def)
  next
    case (UMove i)
    then show ?thesis using slot [of i] w assms by (cases "i < length us") (simp_all add: unique_ok_def add.assoc)
  next
    case (UMoveAssign i j)
    show ?thesis
    proof (cases "i < length us \<and> j < length us \<and> i \<noteq> j")
      case True
      then have l: "live us = present (us ! i) + present (us ! j) + live (us[i := None, j := None])"
        "live (us[i := us ! j, j := None]) = present (us ! j) + live (us[i := None, j := None])"
        using live_two_slots(1) [of i us j] live_two_slots(2) [of i us j "us ! j" None] by simp_all
      then obtain m1 where "delete_object (us ! i) m = Some m1" "one_owner (live (us[i := us ! j, j := None]) + r) m1"
        using one_owner_delete [of "us ! i" "live (us[i := us ! j, j := None]) + r" m] ok by (auto simp: ac_simps)
      then show ?thesis using UMoveAssign True w by (simp add: unique_ok_def)
    qed (use UMoveAssign w assms in auto)
  next
    case (UReset i x)
    show ?thesis
    proof (cases "i < length us")
      case True
      obtain a m1 where n: "new_object x m = (a, m1)" by fastforce
      have "one_owner (present (us ! i) + (add_mset a (live (us[i := None]) + r))) m1" using one_owner_new [OF slot [OF True] n] by simp
      from one_owner_delete [OF this] obtain m2 where "delete_object (us ! i) m1 = Some m2" "one_owner (add_mset a (live (us[i := None]) + r)) m2" by blast
      then show ?thesis using UReset True w n live_update [OF True, of "Some a"] by (simp add: unique_ok_def)
    qed (use UReset w assms in auto)
  next
    case (URelease i)
    have "one_owner (live (us[i := None]) + (present (us ! i) + r)) m" if "i < length us" using slot [OF that] by (simp only: ac_simps)
    then show ?thesis using URelease w assms by (cases "i < length us") (simp_all add: unique_ok_def)
  next
    case (USwap i j)
    show ?thesis
    proof (cases "i < length us \<and> j < length us \<and> i \<noteq> j")
      case True
      then have "live (us[i := us ! j, j := us ! i]) = live us"
        using live_two_slots(1) [of i us j] live_two_slots(2) [of i us j "us ! j" "us ! i"] by (simp add: ac_simps)
      then show ?thesis using USwap True w ok by (simp add: unique_ok_def)
    qed (use USwap w assms in \<open>auto simp: unique_ok_def\<close>)
  next
    case (UResetNull i)
    then show ?thesis using one_owner_delete [OF slot, of i] w assms by (cases "i < length us") (auto simp: unique_ok_def)
  next
    case (UDestroy i)
    then show ?thesis using one_owner_delete [OF slot, of i] w assms by (cases "i < length us") (auto simp: unique_ok_def)
  qed
qed

text \<open>Whatever a program does with owning pointers, nothing is deleted twice, and every object has exactly one owner at any time.\<close>

theorem unique_pointers_sound:
  "\<exists>us r m. unique_run cs ([], {#}, empty_memory) = Some (us, r, m) \<and> (\<forall>a. count (live us + r) a = (if my_objects m a = None then 0 else 1))"
proof -
  have "\<exists>w. unique_run cs world = Some w \<and> unique_ok w" if "unique_ok world" for world :: "'a unique_world"
    using that
  proof (induction cs arbitrary: world)
    case (Cons c cs)
    obtain w where "unique_step c world = Some w" "unique_ok w" using unique_step_ok [OF Cons.prems] by blast
    then show ?case using Cons.IH [of w] by simp
  qed simp
  moreover have "unique_ok ([], {#}, empty_memory)" by (simp add: unique_ok_def one_owner_def empty_memory_def live_def)
  ultimately obtain w where "unique_run cs ([], {#}, empty_memory) = Some w" "unique_ok w" by blast
  then show ?thesis unfolding unique_ok_def one_owner_def by (cases w) auto
qed

end
