(* ===== verification/Thread_Pool.thy ===== *)
theory Thread_Pool
  imports "HOL-Library.Multiset"
begin

text \<open>
  The thread pool with a mutex and condition variables (\<open>src/ThreadPool\<close>). Every block the code runs under \<open>mtx\<close> is one action, as are the
  notifications, which it sends after releasing the mutex, and the call of a task. A thread asleep in \<open>cv.wait\<close> goes on when it is notified or
  spuriously. Among tasks of equal priority the queue may give out any: the choice is an argument, as is whom \<open>notify_one\<close> wakes.
\<close>

subsection \<open>State\<close>

datatype Priority = Low | Medium | High

fun priority_value :: "Priority \<Rightarrow> nat" where
  "priority_value Low = 0"
| "priority_value Medium = 1"
| "priority_value High = 2"

type_synonym 'a pool_task = "Priority \<times> 'a"

definition comparator :: "'a pool_task \<Rightarrow> 'a pool_task \<Rightarrow> bool" where
  "comparator a b \<longleftrightarrow> priority_value (fst a) < priority_value (fst b)"

text \<open>Where a worker stands: about to take the mutex and look, asleep, with a task in its hands, about to report it done, or gone.\<close>

datatype 'a pool_worker = PwCheck | PwAsleep | PwRun 'a | PwFinish | PwExit

text \<open>
  A client of the pool is outside, with the answer of its last call; about to notify after \<open>submit\<close>; in \<open>wait\<close> or \<open>wait_for\<close>, looking or asleep; or in \<open>stop\<close>,
  about to notify or joining.
\<close>

datatype pool_answer = NoAnswer | Submitted | Refused | AllDone bool | Stopped

datatype pool_client = ClFree pool_answer | ClNotify | ClWait bool | ClWaiting bool | ClNotifyAll | ClJoin

datatype 'a pool_call = CallSubmit Priority 'a | CallWait | CallWaitFor | CallStop | GoOn | WakeUp | TimeOut

text \<open>\<open>tp_submitted\<close>, \<open>tp_called\<close> and \<open>tp_ran\<close> record which tasks were accepted, which were taken up by a worker to the end, and which of these were not cancelled.\<close>

record 'a ThreadPool =
  tp_workers :: "'a pool_worker list"
  tp_tasks :: "'a pool_task list"
  tp_active :: int
  tp_stop :: bool
  tp_cancelled :: "'a list"
  tp_clients :: "pool_client list"
  tp_submitted :: "'a list"
  tp_called :: "'a list"
  tp_ran :: "'a list"

definition new_thread_pool :: "nat \<Rightarrow> nat \<Rightarrow> 'a ThreadPool" where
  "new_thread_pool n clients = \<lparr>tp_workers = replicate n PwCheck, tp_tasks = [], tp_active = 0, tp_stop = False, tp_cancelled = [],
     tp_clients = replicate clients (ClFree NoAnswer), tp_submitted = [], tp_called = [], tp_ran = []\<rparr>"

definition set_worker :: "nat \<Rightarrow> 'a pool_worker \<Rightarrow> 'a ThreadPool \<Rightarrow> 'a ThreadPool" where
  "set_worker w s p = p\<lparr>tp_workers := (tp_workers p)[w := s]\<rparr>"

definition set_client :: "nat \<Rightarrow> pool_client \<Rightarrow> 'a ThreadPool \<Rightarrow> 'a ThreadPool" where
  "set_client c s p = p\<lparr>tp_clients := (tp_clients p)[c := s]\<rparr>"

subsection \<open>The worker\<close>

text \<open>\<open>top\<close> is a task no other one comes before; \<open>i\<close> says which.\<close>

definition is_top :: "nat \<Rightarrow> 'a pool_task list \<Rightarrow> bool" where
  "is_top i ts \<longleftrightarrow> i < length ts \<and> list_all (\<lambda>t. \<not> comparator (ts ! i) t) ts"

definition take_task :: "nat \<Rightarrow> nat \<Rightarrow> 'a ThreadPool \<Rightarrow> 'a ThreadPool" where
  "take_task i w p = (if is_top i (tp_tasks p) then
     set_worker w (PwRun (snd (tp_tasks p ! i))) (p\<lparr>tp_tasks := take i (tp_tasks p) @ drop (Suc i) (tp_tasks p), tp_active := tp_active p + 1\<rparr>)
   else p)"

definition call_task :: "nat \<Rightarrow> 'a \<Rightarrow> 'a ThreadPool \<Rightarrow> 'a ThreadPool" where
  "call_task w t p = set_worker w PwFinish
     (p\<lparr>tp_called := tp_called p @ [t], tp_ran := (if t \<in> set (tp_cancelled p) then tp_ran p else tp_ran p @ [t])\<rparr>)"

definition all_done :: "'a ThreadPool \<Rightarrow> bool" where
  "all_done p \<longleftrightarrow> tp_tasks p = [] \<and> tp_active p = 0"

text \<open>\<open>allTasksDoneCv.notify_all\<close>\<close>

fun wake_client :: "pool_client \<Rightarrow> pool_client" where
  "wake_client (ClWaiting timed) = ClWait timed"
| "wake_client c = c"

definition finish_task :: "nat \<Rightarrow> 'a ThreadPool \<Rightarrow> 'a ThreadPool" where
  "finish_task w p = (let p1 = p\<lparr>tp_active := tp_active p - 1\<rparr> in
     set_worker w PwCheck (if all_done p1 then p1\<lparr>tp_clients := map wake_client (tp_clients p1)\<rparr> else p1))"

text \<open>One action of worker \<open>w\<close> in \<open>workerLoop\<close>; \<open>spurious\<close> lets a sleeping one wake by itself.\<close>

definition worker_action :: "bool \<Rightarrow> nat \<Rightarrow> nat \<Rightarrow> 'a ThreadPool \<Rightarrow> 'a ThreadPool" where
  "worker_action spurious i w p = (case tp_workers p ! w of
     PwCheck \<Rightarrow>
       if tp_stop p \<or> tp_tasks p \<noteq> [] then
         (if tp_stop p \<and> tp_tasks p = [] then set_worker w PwExit p else take_task i w p)
       else set_worker w PwAsleep p
   | PwAsleep \<Rightarrow> if spurious then set_worker w PwCheck p else p
   | PwRun t \<Rightarrow> call_task w t p
   | PwFinish \<Rightarrow> finish_task w p
   | PwExit \<Rightarrow> p)"

subsection \<open>The clients\<close>

fun wake_worker :: "'a pool_worker \<Rightarrow> 'a pool_worker" where
  "wake_worker PwAsleep = PwCheck"
| "wake_worker s = s"

definition submit_task :: "nat \<Rightarrow> Priority \<Rightarrow> 'a \<Rightarrow> 'a ThreadPool \<Rightarrow> 'a ThreadPool" where
  "submit_task c pr t p = (if tp_stop p then set_client c (ClFree Refused) p
     else set_client c ClNotify (p\<lparr>tp_tasks := tp_tasks p @ [(pr, t)], tp_submitted := tp_submitted p @ [t]\<rparr>))"

text \<open>\<open>notify_one\<close> wakes worker \<open>w\<close> if it sleeps, and nobody only if nobody sleeps.\<close>

definition notify_one :: "nat \<Rightarrow> nat \<Rightarrow> 'a ThreadPool \<Rightarrow> 'a ThreadPool" where
  "notify_one w c p = (if \<not> list_ex (\<lambda>s. s = PwAsleep) (tp_workers p) then set_client c (ClFree Submitted) p
     else if w < length (tp_workers p) \<and> tp_workers p ! w = PwAsleep then set_client c (ClFree Submitted) (set_worker w PwCheck p) else p)"

text \<open>Joining the same threads from two threads at once is undefined: a client enters \<open>stop\<close> only while no other is in it.\<close>

definition request_stop_pool :: "nat \<Rightarrow> 'a ThreadPool \<Rightarrow> 'a ThreadPool" where
  "request_stop_pool c p = (if list_ex (\<lambda>s. s = ClNotifyAll \<or> s = ClJoin) (tp_clients p) then p
     else set_client c ClNotifyAll (p\<lparr>tp_stop := True\<rparr>))"

definition client_action :: "'a pool_call \<Rightarrow> nat \<Rightarrow> nat \<Rightarrow> 'a ThreadPool \<Rightarrow> 'a ThreadPool" where
  "client_action call w c p = (case tp_clients p ! c of
     ClFree _ \<Rightarrow> (case call of
         CallSubmit pr t \<Rightarrow> submit_task c pr t p
       | CallWait \<Rightarrow> set_client c (ClWait False) p
       | CallWaitFor \<Rightarrow> set_client c (ClWait True) p
       | CallStop \<Rightarrow> request_stop_pool c p
       | _ \<Rightarrow> p)
   | ClNotify \<Rightarrow> notify_one w c p
   | ClWait timed \<Rightarrow> if all_done p then set_client c (ClFree (AllDone True)) p else set_client c (ClWaiting timed) p
   | ClWaiting timed \<Rightarrow> (case call of
         WakeUp \<Rightarrow> set_client c (ClWait timed) p
       | TimeOut \<Rightarrow> if timed then set_client c (ClFree (AllDone (all_done p))) p else p
       | _ \<Rightarrow> p)
   | ClNotifyAll \<Rightarrow> set_client c ClJoin (p\<lparr>tp_workers := map wake_worker (tp_workers p)\<rparr>)
   | ClJoin \<Rightarrow> if list_all (\<lambda>s. s = PwExit) (tp_workers p) then set_client c (ClFree Stopped) p else p)"

definition cancel_task :: "'a \<Rightarrow> 'a ThreadPool \<Rightarrow> 'a ThreadPool" where
  "cancel_task t p = p\<lparr>tp_cancelled := t # tp_cancelled p\<rparr>"

inductive thread_pool_reach :: "'a ThreadPool \<Rightarrow> 'a ThreadPool \<Rightarrow> bool" for p0 where
  pool_start: "thread_pool_reach p0 p0"
| pool_worker: "thread_pool_reach p0 p \<Longrightarrow> w < length (tp_workers p) \<Longrightarrow> thread_pool_reach p0 (worker_action spurious i w p)"
| pool_client: "thread_pool_reach p0 p \<Longrightarrow> c < length (tp_clients p) \<Longrightarrow> thread_pool_reach p0 (client_action call w c p)"
| pool_cancel: "thread_pool_reach p0 p \<Longrightarrow> thread_pool_reach p0 (cancel_task t p)"

subsection \<open>The invariant\<close>

fun engaged :: "'a pool_worker \<Rightarrow> bool" where
  "engaged (PwRun t) = True"
| "engaged PwFinish = True"
| "engaged _ = False"

fun carried :: "'a pool_worker \<Rightarrow> 'a multiset" where
  "carried (PwRun t) = {#t#}"
| "carried _ = {#}"

definition hands :: "'a pool_worker multiset \<Rightarrow> 'a multiset" where
  "hands W = (\<Sum>s\<in>#W. carried s)"

lemma hands_simps [simp]: "hands {#} = {#}" "hands (add_mset s W) = carried s + hands W"
  by (simp_all add: hands_def)

text \<open>
  \<open>activeTasks\<close> counts the engaged workers; every accepted task is done, queued or in one worker's hands; while a worker sleeps there are no more queued tasks than workers on their
  way to look plus notifications on their way, and after a stop the notification of it is still to come; a worker leaves only when nothing is left to do; nobody sleeps in
  \<open>wait\<close> when all is done.
\<close>

definition account_ok :: "'a ThreadPool \<Rightarrow> 'a pool_worker multiset \<Rightarrow> bool" where
  "account_ok p W \<longleftrightarrow> tp_active p = int (size (filter_mset engaged W)) \<and>
     mset (tp_submitted p) = mset (tp_called p) + image_mset snd (mset (tp_tasks p)) + hands W \<and> mset (tp_ran p) \<subseteq># mset (tp_called p)"

definition wake_ok :: "'a ThreadPool \<Rightarrow> 'a pool_worker multiset \<Rightarrow> pool_client multiset \<Rightarrow> bool" where
  "wake_ok p W C \<longleftrightarrow>
     (PwAsleep \<in># W \<longrightarrow> length (tp_tasks p) \<le> count W PwCheck + count C ClNotify \<and> (tp_stop p \<longrightarrow> ClNotifyAll \<in># C)) \<and>
     (PwExit \<in># W \<longrightarrow> tp_stop p \<and> tp_tasks p = []) \<and> (\<forall>timed. ClWaiting timed \<in># C \<longrightarrow> \<not> all_done p)"

definition pool_inv :: "'a ThreadPool \<Rightarrow> bool" where
  "pool_inv p \<longleftrightarrow> account_ok p (mset (tp_workers p)) \<and> wake_ok p (mset (tp_workers p)) (mset (tp_clients p))"

lemma update_mset:
  assumes "i < length xs"
  obtains M where "mset xs = add_mset (xs ! i) M" "\<And>v. mset (xs[i := v]) = add_mset v M"
proof
  show "mset xs = add_mset (xs ! i) (mset xs - {#xs ! i#})" using assms by simp
  show "mset (xs[i := v]) = add_mset v (mset xs - {#xs ! i#})" for v using assms by (simp add: mset_update)
qed

lemma remove_nth_mset: "i < length ts \<Longrightarrow> mset ts = add_mset (ts ! i) (mset (take i ts @ drop (Suc i) ts))"
  by (metis id_take_nth_drop mset.simps(2) mset_append union_mset_add_mset_right)

lemma new_thread_pool_inv: "pool_inv (new_thread_pool n clients :: 'a ThreadPool)"
proof -
  have "filter_mset engaged (replicate_mset n (PwCheck :: 'a pool_worker)) = {#}" "hands (replicate_mset n (PwCheck :: 'a pool_worker)) = {#}" by (induction n) simp_all
  then show ?thesis by (simp add: pool_inv_def account_ok_def wake_ok_def new_thread_pool_def)
qed

lemma pool_invI:
  "mset (tp_workers p) = W \<Longrightarrow> mset (tp_clients p) = C \<Longrightarrow> account_ok p W \<Longrightarrow> wake_ok p W C \<Longrightarrow> pool_inv p"
  by (simp add: pool_inv_def)

lemma at_worker:
  assumes "pool_inv p" "w < length (tp_workers p)" "tp_workers p ! w = s"
  obtains M C where "\<And>v. mset ((tp_workers p)[w := v]) = add_mset v M" "mset (tp_clients p) = C" "account_ok p (add_mset s M)" "wake_ok p (add_mset s M) C"
  using update_mset [OF assms(2)] assms(1,3) unfolding pool_inv_def by metis

lemma at_client:
  assumes "pool_inv p" "c < length (tp_clients p)" "tp_clients p ! c = s"
  obtains W D where "mset (tp_workers p) = W" "\<And>v. mset ((tp_clients p)[c := v]) = add_mset v D" "account_ok p W" "wake_ok p W (add_mset s D)"
  using update_mset [OF assms(2)] assms(1,3) unfolding pool_inv_def by metis

lemmas pool_defs = account_ok_def wake_ok_def all_done_def set_worker_def set_client_def

lemma set_worker_simps [simp]:
  "tp_workers (set_worker w s p) = (tp_workers p)[w := s]" "tp_clients (set_worker w s p) = tp_clients p"
  "account_ok (set_worker w s p) W = account_ok p W" "wake_ok (set_worker w s p) W C = wake_ok p W C"
  by (simp_all add: pool_defs)

lemma set_client_simps [simp]:
  "tp_workers (set_client c t p) = tp_workers p" "tp_clients (set_client c t p) = (tp_clients p)[c := t]"
  "account_ok (set_client c t p) W = account_ok p W" "wake_ok (set_client c t p) W C = wake_ok p W C"
  by (simp_all add: pool_defs)

lemma set_worker_inv:
  assumes "pool_inv p" "w < length (tp_workers p)" "tp_workers p ! w = s"
    "\<And>M C. account_ok p (add_mset s M) \<Longrightarrow> wake_ok p (add_mset s M) C \<Longrightarrow> account_ok q (add_mset s' M) \<and> wake_ok q (add_mset s' M) C"
    "tp_workers q = tp_workers p" "tp_clients q = tp_clients p"
  shows "pool_inv (set_worker w s' q)"
proof -
  obtain M C where M: "\<And>v. mset ((tp_workers p)[w := v]) = add_mset v M" "mset (tp_clients p) = C" "account_ok p (add_mset s M)" "wake_ok p (add_mset s M) C"
    using at_worker [OF assms(1-3)] by metis
  from assms(4) [OF M(3,4)] show ?thesis
    using M(1,2) assms(5,6) by (intro pool_invI [of _ "add_mset s' M" C]) simp_all
qed

lemma set_client_inv:
  assumes "pool_inv p" "c < length (tp_clients p)" "tp_clients p ! c = s"
    "\<And>W D. account_ok p W \<Longrightarrow> wake_ok p W (add_mset s D) \<Longrightarrow> account_ok q W \<and> wake_ok q W (add_mset s' D)"
    "tp_workers q = tp_workers p" "tp_clients q = tp_clients p"
  shows "pool_inv (set_client c s' q)"
proof -
  obtain W D where M: "mset (tp_workers p) = W" "\<And>v. mset ((tp_clients p)[c := v]) = add_mset v D" "account_ok p W" "wake_ok p W (add_mset s D)"
    using at_client [OF assms(1-3)] by metis
  from assms(4) [OF M(3,4)] show ?thesis
    using M(1,2) assms(5,6) by (intro pool_invI [of _ W "add_mset s' D"]) simp_all
qed

lemma take_task_inv:
  assumes "pool_inv p" "w < length (tp_workers p)" "tp_workers p ! w = PwCheck" "tp_tasks p \<noteq> []"
  shows "pool_inv (take_task i w p)"
proof (cases "is_top i (tp_tasks p)")
  case True
  then have i: "i < length (tp_tasks p)" by (simp add: is_top_def)
  note T = remove_nth_mset [OF i]
  have "length (tp_tasks p) = Suc (length (take i (tp_tasks p) @ drop (Suc i) (tp_tasks p)))" using i by simp
  then show ?thesis using True T unfolding take_task_def if_P [OF True]
    by (intro set_worker_inv [OF assms(1-3)]) (auto simp: pool_defs)
qed (use assms(1) in \<open>simp add: take_task_def\<close>)

lemma call_task_inv:
  assumes "pool_inv p" "w < length (tp_workers p)" "tp_workers p ! w = PwRun t"
  shows "pool_inv (call_task w t p)"
  unfolding call_task_def by (intro set_worker_inv [OF assms]) (auto simp: pool_defs intro: subset_mset.order_trans)

text \<open>Waking the clients of \<open>wait\<close> leaves everything as it is but that none of them is asleep.\<close>

lemma wake_client_eq [simp]:
  "ClNotify = wake_client c \<longleftrightarrow> ClNotify = c" "ClNotifyAll = wake_client c \<longleftrightarrow> ClNotifyAll = c" "ClWaiting timed \<noteq> wake_client c"
  "wake_client c = ClNotify \<longleftrightarrow> c = ClNotify"
  by (cases c; simp)+

lemma wake_clients:
  "count (image_mset wake_client C) ClNotify = count C ClNotify" "ClNotifyAll \<in> wake_client ` A \<longleftrightarrow> ClNotifyAll \<in> A" "ClWaiting timed \<notin> wake_client ` A"
  by (induction C) (auto simp: image_iff)

lemma finish_task_inv:
  assumes "pool_inv p" "w < length (tp_workers p)" "tp_workers p ! w = PwFinish"
  shows "pool_inv (finish_task w p)"
proof -
  let ?p = "p\<lparr>tp_active := tp_active p - 1\<rparr>"
  obtain M C where M: "\<And>v. mset ((tp_workers p)[w := v]) = add_mset v M" "mset (tp_clients p) = C"
    "account_ok p (add_mset PwFinish M)" "wake_ok p (add_mset PwFinish M) C"
    using at_worker [OF assms] by metis
  have acc: "account_ok (finish_task w p) (add_mset PwCheck M)" using M(3) by (auto simp: finish_task_def pool_defs Let_def)
  show ?thesis
  proof (cases "all_done ?p")
    case True
    then show ?thesis using M acc wake_clients
      by (intro pool_invI [of _ "add_mset PwCheck M" "image_mset wake_client C"]) (auto simp: finish_task_def set_worker_def wake_ok_def Let_def)
  next
    case False
    then show ?thesis using M acc
      by (intro pool_invI [of _ "add_mset PwCheck M" C]) (auto simp: finish_task_def set_worker_def wake_ok_def Let_def all_done_def)
  qed
qed

lemma worker_action_inv:
  assumes "pool_inv p" "w < length (tp_workers p)"
  shows "pool_inv (worker_action spurious i w p)"
proof (cases "tp_workers p ! w")
  case PwCheck
  show ?thesis
  proof (cases "tp_tasks p = []")
    case True
    then have "pool_inv (set_worker w (if tp_stop p then PwExit else PwAsleep) p)"
      by (intro set_worker_inv [OF assms PwCheck]) (auto simp: pool_defs)
    then show ?thesis using PwCheck True by (simp add: worker_action_def split: if_splits)
  qed (use PwCheck take_task_inv [OF assms PwCheck] in \<open>simp add: worker_action_def\<close>)
next
  case PwAsleep
  have "pool_inv (set_worker w PwCheck p)" by (intro set_worker_inv [OF assms PwAsleep]) (auto simp: pool_defs)
  then show ?thesis using PwAsleep assms(1) by (simp add: worker_action_def)
qed (use assms in \<open>simp_all add: worker_action_def call_task_inv finish_task_inv\<close>)

lemma wake_worker_eq [simp]:
  "PwAsleep \<noteq> wake_worker s" "PwExit = wake_worker s \<longleftrightarrow> PwExit = s" "engaged (wake_worker s) = engaged s" "carried (wake_worker s) = carried s"
  by (cases s; simp)+

lemma wake_all_workers:
  "size (filter_mset engaged (image_mset wake_worker W)) = size (filter_mset engaged W)" "hands (image_mset wake_worker W) = hands W"
  by (induction W) simp_all

lemma notify_one_inv:
  assumes "pool_inv p" "c < length (tp_clients p)" "tp_clients p ! c = ClNotify"
  shows "pool_inv (notify_one w c p)"
proof (cases "PwAsleep \<in> set (tp_workers p)")
  case False
  obtain W D where M: "mset (tp_workers p) = W" "\<And>v. mset ((tp_clients p)[c := v]) = add_mset v D" "account_ok p W" "wake_ok p W (add_mset ClNotify D)"
    using at_client [OF assms] by metis
  then have "PwAsleep \<notin># W" using False by auto
  then show ?thesis using M False
    by (intro pool_invI [of _ W "add_mset (ClFree Submitted) D"]) (auto simp: notify_one_def list_ex_iff pool_defs)
next
  case True
  show ?thesis
  proof (cases "w < length (tp_workers p) \<and> tp_workers p ! w = PwAsleep")
    case sleeps: True
    obtain M C where M: "\<And>v. mset ((tp_workers p)[w := v]) = add_mset v M" "mset (tp_clients p) = C"
      "account_ok p (add_mset PwAsleep M)" "wake_ok p (add_mset PwAsleep M) C" using at_worker [OF assms(1)] sleeps by metis
    obtain D where D: "C = add_mset ClNotify D" "\<And>v. mset ((tp_clients p)[c := v]) = add_mset v D" using update_mset [OF assms(2)] assms(3) M(2) by metis
    have "notify_one w c p = set_client c (ClFree Submitted) (set_worker w PwCheck p)" using sleeps True by (auto simp: notify_one_def list_ex_iff)
    then show ?thesis using M D
      by (intro pool_invI [of _ "add_mset PwCheck M" "add_mset (ClFree Submitted) D"]) (auto simp: pool_defs)
  qed (use True assms(1) in \<open>auto simp: notify_one_def list_ex_iff\<close>)
qed

lemma client_action_inv:
  assumes "pool_inv p" "c < length (tp_clients p)"
  shows "pool_inv (client_action call w c p)"
proof (cases "tp_clients p ! c")
  case (ClFree a)
  note S = set_client_inv [OF assms ClFree]
  have "pool_inv (set_client c (ClFree Refused) p)" by (intro S) (auto simp: pool_defs)
  moreover have "pool_inv (set_client c ClNotify (p\<lparr>tp_tasks := tp_tasks p @ [(pr, t)], tp_submitted := tp_submitted p @ [t]\<rparr>))" if "\<not> tp_stop p" for pr t
    using that by (intro S) (auto simp: pool_defs)
  ultimately have "pool_inv (submit_task c pr t p)" for pr t by (simp add: submit_task_def)
  moreover have "pool_inv (set_client c (ClWait timed) p)" for timed by (intro S) (auto simp: pool_defs)
  moreover have "pool_inv (set_client c ClNotifyAll (p\<lparr>tp_stop := True\<rparr>))" by (intro S) (auto simp: pool_defs)
  then have "pool_inv (request_stop_pool c p)" using assms(1) by (simp add: request_stop_pool_def)
  ultimately show ?thesis using ClFree assms(1) by (cases call) (simp_all add: client_action_def)
next
  case ClNotify
  then show ?thesis using notify_one_inv [OF assms] by (simp add: client_action_def)
next
  case (ClWait timed)
  have "pool_inv (set_client c (if all_done p then ClFree (AllDone True) else ClWaiting timed) p)"
    by (intro set_client_inv [OF assms ClWait]) (auto simp: pool_defs)
  then show ?thesis using ClWait by (simp add: client_action_def split: if_splits)
next
  case (ClWaiting timed)
  note S = set_client_inv [OF assms ClWaiting, of p]
  have "pool_inv (set_client c (ClWait timed) p)" "pool_inv (set_client c (ClFree a) p)" for a by (intro S; auto simp: pool_defs)+
  then show ?thesis using ClWaiting assms(1) by (cases timed) (simp_all add: client_action_def split: pool_call.splits)
next
  case ClNotifyAll
  obtain W D where M: "mset (tp_workers p) = W" "\<And>v. mset ((tp_clients p)[c := v]) = add_mset v D" "account_ok p W" "wake_ok p W (add_mset ClNotifyAll D)"
    using at_client [OF assms ClNotifyAll] by metis
  have "PwAsleep \<notin># image_mset wake_worker W" "PwExit \<in># image_mset wake_worker W \<longleftrightarrow> PwExit \<in># W" by (auto simp: image_iff)
  then show ?thesis using M ClNotifyAll wake_all_workers [of W]
    by (intro pool_invI [of _ "image_mset wake_worker W" "add_mset ClJoin D"]) (simp_all add: client_action_def account_ok_def wake_ok_def set_client_def all_done_def del: set_image_mset)
next
  case ClJoin
  have "pool_inv (set_client c (ClFree Stopped) p)" by (intro set_client_inv [OF assms ClJoin]) (auto simp: pool_defs)
  then show ?thesis using ClJoin assms(1) by (simp add: client_action_def)
qed

lemma thread_pool_reach_inv:
  assumes "thread_pool_reach p0 p" "pool_inv p0"
  shows "pool_inv p"
  using assms(1)
proof induction
  case (pool_cancel p t)
  then have "account_ok p (mset (tp_workers p))" "wake_ok p (mset (tp_workers p)) (mset (tp_clients p))" by (simp_all add: pool_inv_def)
  moreover have "account_ok (cancel_task t p) W = account_ok p W" "wake_ok (cancel_task t p) W C = wake_ok p W C" for W C
    by (simp_all add: cancel_task_def account_ok_def wake_ok_def all_done_def)
  ultimately show ?case by (simp add: pool_inv_def cancel_task_def)
qed (simp_all add: worker_action_inv client_action_inv assms(2))

lemma action_lengths [simp]:
  "length (tp_workers (worker_action spurious i w p)) = length (tp_workers p)" "length (tp_clients (worker_action spurious i w p)) = length (tp_clients p)"
  "length (tp_workers (client_action call v c p)) = length (tp_workers p)" "length (tp_clients (client_action call v c p)) = length (tp_clients p)"
  by (auto simp: worker_action_def client_action_def take_task_def call_task_def finish_task_def submit_task_def notify_one_def request_stop_pool_def
      set_client_def set_worker_def Let_def split: pool_worker.splits pool_client.splits pool_call.splits)

lemma reach_length: "thread_pool_reach p0 p \<Longrightarrow> length (tp_workers p) = length (tp_workers p0)"
  by (induction rule: thread_pool_reach.induct) (simp_all add: cancel_task_def)

subsection \<open>What the pool promises\<close>

lemma idle_hands: "size (filter_mset engaged W) = 0 \<Longrightarrow> hands W = {#}"
proof (induction W)
  case (add s W)
  then show ?case by (cases s) auto
qed simp

lemma all_done_called: "pool_inv p \<Longrightarrow> all_done p \<Longrightarrow> mset (tp_called p) = mset (tp_submitted p)"
  using idle_hands [of "mset (tp_workers p)"] by (auto simp: pool_inv_def account_ok_def all_done_def)

lemma joined_called:
  assumes "pool_inv p" "list_all (\<lambda>s. s = PwExit) (tp_workers p)" "tp_workers p \<noteq> []"
  shows "mset (tp_called p) = mset (tp_submitted p)"
proof -
  have e: "s = PwExit" if "s \<in># mset (tp_workers p)" for s using that assms(2) by (simp add: list_all_iff)
  then have idle: "filter_mset engaged (mset (tp_workers p)) = {#}" by force
  have "PwExit \<in># mset (tp_workers p)" using e assms(3) by (cases "tp_workers p") auto
  then have "tp_active p = int (size (filter_mset engaged (mset (tp_workers p))))" "tp_tasks p = []"
    using assms(1) by (simp_all add: pool_inv_def account_ok_def wake_ok_def)
  then have "all_done p" unfolding all_done_def idle by simp
  then show ?thesis using all_done_called [OF assms(1)] by simp
qed

text \<open>
  C21. Whatever the interleaving of the workers, of the clients and of cancellations: an accepted task has been taken up once, waits in the queue, or is in one worker's hands. No
  wake-up is lost: while a worker sleeps, the queued tasks are at most as many as the workers on their way to look plus the notifications still to be sent; after
  a stop a worker sleeps only until the notification still to be sent; and nobody sleeps in \<open>wait\<close> when all is done. A worker takes a task of the highest priority there is.
  When \<open>wait\<close> or \<open>wait_for\<close> answer that all is done, and when \<open>stop\<close> returns, every accepted task has been taken up to its end.
\<close>

theorem thread_pool_sound:
  assumes "thread_pool_reach (new_thread_pool n clients) p" "n > 0"
  shows "mset (tp_submitted p) = mset (tp_called p) + image_mset snd (mset (tp_tasks p)) + hands (mset (tp_workers p)) \<and>
    (PwAsleep \<in> set (tp_workers p) \<longrightarrow> length (tp_tasks p) \<le> count_list (tp_workers p) PwCheck + count_list (tp_clients p) ClNotify \<and>
      (tp_stop p \<longrightarrow> ClNotifyAll \<in> set (tp_clients p))) \<and>
    (ClWaiting timed \<in> set (tp_clients p) \<longrightarrow> \<not> all_done p) \<and>
    (w < length (tp_workers p) \<longrightarrow> tp_workers p ! w = PwCheck \<longrightarrow> tp_workers (worker_action spurious i w p) ! w = PwRun t \<longrightarrow>
      (\<exists>pr. (pr, t) \<in> set (tp_tasks p) \<and> (\<forall>(pr', _) \<in> set (tp_tasks p). priority_value pr' \<le> priority_value pr))) \<and>
    (c < length (tp_clients p) \<longrightarrow> tp_clients p ! c \<notin> range ClFree \<longrightarrow>
      tp_clients (client_action call v c p) ! c \<in> {ClFree (AllDone True), ClFree Stopped} \<longrightarrow> mset (tp_called p) = mset (tp_submitted p))"
proof -
  have inv: "pool_inv p" using thread_pool_reach_inv [OF assms(1) new_thread_pool_inv] .
  have "tp_workers p \<noteq> []" using reach_length [OF assms(1)] assms(2) by (auto simp: new_thread_pool_def)
  note joined = joined_called [OF inv _ this]
  have inv_facts: "account_ok p (mset (tp_workers p))" "wake_ok p (mset (tp_workers p)) (mset (tp_clients p))" using inv by (simp_all add: pool_inv_def)
  have top: "\<exists>pr. (pr, t) \<in> set (tp_tasks p) \<and> (\<forall>(pr', _) \<in> set (tp_tasks p). priority_value pr' \<le> priority_value pr)"
    if w: "w < length (tp_workers p)" "tp_workers p ! w = PwCheck" "tp_workers (worker_action spurious i w p) ! w = PwRun t"
  proof -
    have "is_top i (tp_tasks p) \<and> t = snd (tp_tasks p ! i)" using w by (auto simp: worker_action_def take_task_def split: if_splits)
    then show ?thesis
      by (intro exI [of _ "fst (tp_tasks p ! i)"]) (auto simp: is_top_def comparator_def list_all_iff not_less)
  qed
  have answered: "mset (tp_called p) = mset (tp_submitted p)"
    if c: "c < length (tp_clients p)" "tp_clients p ! c \<notin> range ClFree"
      "tp_clients (client_action call v c p) ! c \<in> {ClFree (AllDone True), ClFree Stopped}"
    using c all_done_called [OF inv] joined
    by (cases "tp_clients p ! c"; cases call) (auto simp: client_action_def notify_one_def split: if_splits)
  show ?thesis using inv_facts top answered by (auto simp: account_ok_def wake_ok_def count_mset)
qed

text \<open>
  One worker, one client: the worker goes to sleep, the client submits a task, which wakes it, and sleeps in \<open>wait\<close> until the worker has reported the task done.
\<close>

definition pool_schedule :: "'a pool_call option list \<Rightarrow> 'a ThreadPool \<Rightarrow> 'a ThreadPool" where
  "pool_schedule acts p = fold (\<lambda>a q. case a of None \<Rightarrow> worker_action False 0 0 q | Some call \<Rightarrow> client_action call 0 0 q) acts p"

lemma pool_schedule_reach:
  "thread_pool_reach p0 p \<Longrightarrow> 0 < length (tp_workers p) \<Longrightarrow> 0 < length (tp_clients p) \<Longrightarrow> thread_pool_reach p0 (pool_schedule acts p)"
proof (induction acts arbitrary: p)
  case (Cons a acts)
  have "thread_pool_reach p0 (case a of None \<Rightarrow> worker_action False 0 0 p | Some call \<Rightarrow> client_action call 0 0 p)"
    using Cons.prems by (auto intro: thread_pool_reach.intros split: option.splits)
  from Cons.IH [OF this] Cons.prems(2,3) show ?case
    by (cases a) (simp_all add: pool_schedule_def length_greater_0_conv [symmetric] del: length_greater_0_conv)
qed (simp add: pool_schedule_def)

definition sample_thread_pool :: "int ThreadPool" where
  "sample_thread_pool = pool_schedule [None, Some (CallSubmit High 5), Some GoOn, Some CallWait, None, Some GoOn, None, None] (new_thread_pool 1 1)"

lemma sample_thread_pool_reach: "thread_pool_reach (new_thread_pool 1 1) sample_thread_pool"
  unfolding sample_thread_pool_def by (intro pool_schedule_reach pool_start) (simp_all add: new_thread_pool_def)

lemma sample_thread_pool_state:
  "tp_clients sample_thread_pool = [ClWait False]" "tp_called sample_thread_pool = [5]"
  "tp_clients (client_action GoOn 0 0 sample_thread_pool) = [ClFree (AllDone True)]"
  by code_simp+

theorem thread_pool_sound_witness:
  "tp_clients (client_action GoOn 0 0 sample_thread_pool) ! 0 = ClFree (AllDone True) \<and> mset (tp_submitted sample_thread_pool) = {#5#}"
  using thread_pool_sound [OF sample_thread_pool_reach, of False 0 False 0 0 0 GoOn 0] sample_thread_pool_state by auto

end
