(* ===== verification/Work_Deque.thy ===== *)
theory Work_Deque
  imports Prelude "HOL-Library.Multiset"
begin

text \<open>
  The bounded work-stealing deque (\<open>ChaseLevThreadPool/WorkerDeque.hpp\<close>): one owner pushes and pops at the
  bottom, any number of thieves steal at the top. Every load, store and compare-exchange of the three
  operations is one action, and the actions of owner and thieves interleave freely. Steps are sequentially
  consistent, which is what the fences of the code are there for; the indices are 64-bit in the
  code and exact here (they grow by one per push).
\<close>

subsection \<open>The deque and its threads\<close>

text \<open>
  Where the owner stands: outside, in \<open>push\<close> before reading \<open>top_\<close>, before writing the slot, before
  publishing; in \<open>pop\<close> before lowering \<open>bottom_\<close>, before reading \<open>top_\<close>, before restoring \<open>bottom_\<close> (empty), before the
  compare-exchange (last element), before setting \<open>bottom_\<close> after it, before reading the slot.
\<close>

datatype 'a owner = OIdle | OPush 'a int | OPushStore 'a int | OPushPublish 'a int
  | OPop int | OPopTop int | OPopRestore int | OPopCas int int | OPopSet int int bool | OPopRead int

text \<open>A thief: outside, with \<open>top_\<close> read, with the bounds checked, with the slot read.\<close>

datatype 'a thief = TIdle | TTop int | TBounds int | THave int 'a

record 'a WorkerDeque =
  wd_top :: int
  wd_bottom :: int
  wd_buffer :: "'a list"
  wd_owner :: "'a owner"
  wd_thieves :: "nat \<Rightarrow> 'a thief"
  wd_pushed :: "'a list"
  wd_returned :: "'a list"

text \<open>The last two fields are history: the items published, and the items \<open>pop\<close> and \<open>steal\<close> have returned.\<close>

definition capacity :: "'a WorkerDeque \<Rightarrow> int" where
  "capacity d = int (length (wd_buffer d))"

definition ring_mask :: "nat \<Rightarrow> int \<Rightarrow> nat" where
  "ring_mask n val = nat (val AND (int n - 1))"

definition get_mask :: "'a WorkerDeque \<Rightarrow> int \<Rightarrow> nat" where
  "get_mask d val = ring_mask (length (wd_buffer d)) val"

definition new_deque :: "'a list \<Rightarrow> 'a WorkerDeque" where
  "new_deque buffer = \<lparr>wd_top = 0, wd_bottom = 0, wd_buffer = buffer, wd_owner = OIdle, wd_thieves = (\<lambda>_. TIdle), wd_pushed = [], wd_returned = []\<rparr>"

text \<open>One action of the owner; \<open>call\<close> is its next call when it is outside: \<open>push\<close> of an item, or \<open>pop\<close>.\<close>

fun owner_step :: "'a option \<Rightarrow> 'a WorkerDeque \<Rightarrow> 'a WorkerDeque" where
  "owner_step call d = (case wd_owner d of
     OIdle \<Rightarrow> d\<lparr>wd_owner := (case call of Some item \<Rightarrow> OPush item (wd_bottom d) | None \<Rightarrow> OPop (wd_bottom d - 1))\<rparr>
   | OPush item b \<Rightarrow> d\<lparr>wd_owner := (if b - wd_top d \<ge> capacity d then OIdle else OPushStore item b)\<rparr>
   | OPushStore item b \<Rightarrow> d\<lparr>wd_buffer := (wd_buffer d)[get_mask d b := item], wd_owner := OPushPublish item b\<rparr>
   | OPushPublish item b \<Rightarrow> d\<lparr>wd_bottom := b + 1, wd_owner := OIdle, wd_pushed := wd_pushed d @ [item]\<rparr>
   | OPop b \<Rightarrow> d\<lparr>wd_bottom := b, wd_owner := OPopTop b\<rparr>
   | OPopTop b \<Rightarrow>
       let t = wd_top d; sz = b - t in
       d\<lparr>wd_owner := (if sz < 0 then OPopRestore t else if sz > 0 then OPopRead b else OPopCas b t)\<rparr>
   | OPopRestore t \<Rightarrow> d\<lparr>wd_bottom := t, wd_owner := OIdle\<rparr>
   | OPopCas b t \<Rightarrow> (if wd_top d = t then d\<lparr>wd_top := t + 1, wd_owner := OPopSet b t True\<rparr> else d\<lparr>wd_owner := OPopSet b t False\<rparr>)
   | OPopSet b t won \<Rightarrow> d\<lparr>wd_bottom := t + 1, wd_owner := (if won then OPopRead b else OIdle)\<rparr>
   | OPopRead b \<Rightarrow> d\<lparr>wd_owner := OIdle, wd_returned := wd_returned d @ [wd_buffer d ! get_mask d b]\<rparr>)"

fun thief_step :: "nat \<Rightarrow> 'a WorkerDeque \<Rightarrow> 'a WorkerDeque" where
  "thief_step j d = (let goto = (\<lambda>s. (wd_thieves d)(j := s)) in case wd_thieves d j of
     TIdle \<Rightarrow> d\<lparr>wd_thieves := goto (TTop (wd_top d))\<rparr>
   | TTop t \<Rightarrow> d\<lparr>wd_thieves := goto (if wd_bottom d - t \<le> 0 then TIdle else TBounds t)\<rparr>
   | TBounds t \<Rightarrow> d\<lparr>wd_thieves := goto (THave t (wd_buffer d ! get_mask d t))\<rparr>
   | THave t task \<Rightarrow>
       if wd_top d = t then d\<lparr>wd_top := t + 1, wd_thieves := goto TIdle, wd_returned := wd_returned d @ [task]\<rparr>
       else d\<lparr>wd_thieves := goto TIdle\<rparr>)"

inductive deque_reach :: "'a WorkerDeque \<Rightarrow> 'a WorkerDeque \<Rightarrow> bool" for d0 where
  start: "deque_reach d0 d0"
| owner: "deque_reach d0 d \<Longrightarrow> deque_reach d0 (owner_step call d)"
| thief: "deque_reach d0 d \<Longrightarrow> deque_reach d0 (thief_step j d)"

declare owner_step.simps [simp del] thief_step.simps [simp del]

subsection \<open>The invariant\<close>

text \<open>
  Where the deque ends: \<open>pop\<close> lowers \<open>bottom_\<close> before it knows whether it gets the element there, which still belongs to
  the deque until then.
\<close>

definition logical_bottom :: "'a WorkerDeque \<Rightarrow> int" where
  "logical_bottom d = (case wd_owner d of OPopTop b \<Rightarrow> b + 1 | OPopRestore t \<Rightarrow> t | OPopCas b t \<Rightarrow> b + 1 | OPopSet b t _ \<Rightarrow> t + 1
     | _ \<Rightarrow> wd_bottom d)"

definition item_at :: "'a WorkerDeque \<Rightarrow> int \<Rightarrow> 'a" where
  "item_at d i = wd_buffer d ! get_mask d i"

definition contents :: "'a WorkerDeque \<Rightarrow> 'a list" where
  "contents d = map (item_at d) [wd_top d..logical_bottom d - 1]"

text \<open>The element the owner has won and not yet returned.\<close>

definition won_item :: "'a WorkerDeque \<Rightarrow> 'a list" where
  "won_item d = (case wd_owner d of OPopRead b \<Rightarrow> [item_at d b] | OPopSet b _ True \<Rightarrow> [item_at d b] | _ \<Rightarrow> [])"

text \<open>What has left the deque, the owner's item last.\<close>

definition taken :: "'a WorkerDeque \<Rightarrow> 'a list" where
  "taken d = wd_returned d @ won_item d"

definition owner_ok :: "'a WorkerDeque \<Rightarrow> bool" where
  "owner_ok d = (case wd_owner d of
     OIdle \<Rightarrow> True
   | OPush _ b \<Rightarrow> b = wd_bottom d
   | OPushStore _ b \<Rightarrow> b = wd_bottom d \<and> b - wd_top d < capacity d
   | OPushPublish x b \<Rightarrow> b = wd_bottom d \<and> b - wd_top d < capacity d \<and> item_at d b = x
   | OPop b \<Rightarrow> b = wd_bottom d - 1
   | OPopTop b \<Rightarrow> b = wd_bottom d
   | OPopRestore t \<Rightarrow> t = wd_bottom d + 1 \<and> wd_top d = t
   | OPopCas b t \<Rightarrow> b = t \<and> b = wd_bottom d \<and> t \<le> wd_top d
   | OPopSet b t _ \<Rightarrow> b = t \<and> b = wd_bottom d \<and> wd_top d = t + 1
   | OPopRead _ \<Rightarrow> True)"

definition thief_ok :: "'a WorkerDeque \<Rightarrow> 'a thief \<Rightarrow> bool" where
  "thief_ok d th = (case th of
     TIdle \<Rightarrow> True
   | TTop t \<Rightarrow> t \<le> wd_top d
   | TBounds t \<Rightarrow> t \<le> wd_top d \<and> (wd_top d = t \<longrightarrow> t < logical_bottom d)
   | THave t x \<Rightarrow> t \<le> wd_top d \<and> (wd_top d = t \<longrightarrow> t < logical_bottom d \<and> item_at d t = x))"

definition deque_ok :: "'a WorkerDeque \<Rightarrow> bool" where
  "deque_ok d \<longleftrightarrow> (\<exists>k. length (wd_buffer d) = 2 ^ k) \<and> wd_top d \<le> logical_bottom d \<and> logical_bottom d - wd_top d \<le> capacity d \<and>
     owner_ok d \<and> (\<forall>j. thief_ok d (wd_thieves d j)) \<and>
     mset (wd_pushed d) = mset (wd_returned d) + mset (won_item d) + mset (contents d)"

lemma get_mask_mod:
  assumes "length (wd_buffer d) = 2 ^ k"
  shows "get_mask d i = nat (i mod 2 ^ k)"
proof -
  have "i AND (2 ^ k - 1) = i mod (2 ^ k :: int)" by (metis mask_eq_exp_minus_1 take_bit_eq_mask take_bit_eq_mod)
  then show ?thesis using assms by (simp add: get_mask_def ring_mask_def)
qed

lemma slots_differ:
  assumes "length (wd_buffer d) = 2 ^ k" "t \<le> i" "i < t + capacity d" "t \<le> j" "j < t + capacity d" "i \<noteq> j"
  shows "get_mask d i \<noteq> get_mask d j"
proof
  assume "get_mask d i = get_mask d j"
  then have "i mod 2 ^ k = j mod 2 ^ k" using assms(1) by (simp add: get_mask_mod nat_eq_iff2)
  then have "2 ^ k dvd i - j" by (simp add: mod_eq_dvd_iff)
  moreover have "\<bar>i - j\<bar> < 2 ^ k" using assms by (simp add: capacity_def)
  ultimately show False using assms(6) zdvd_not_zless [of "\<bar>i - j\<bar>" "2 ^ k"] by (metis abs_of_nonneg abs_ge_zero diff_eq_eq dvd_abs_iff eq_iff_diff_eq_0 less_le zero_less_abs_iff)
qed

lemma slot_bound: "length (wd_buffer d) = 2 ^ k \<Longrightarrow> get_mask d i < length (wd_buffer d)"
  by (simp add: get_mask_mod nat_less_iff)

lemma frame_simps [simp]:
  "capacity (d\<lparr>wd_owner := ow\<rparr>) = capacity d" "capacity (d\<lparr>wd_bottom := b\<rparr>) = capacity d" "capacity (d\<lparr>wd_top := t\<rparr>) = capacity d"
  "capacity (d\<lparr>wd_thieves := th\<rparr>) = capacity d" "capacity (d\<lparr>wd_pushed := p\<rparr>) = capacity d" "capacity (d\<lparr>wd_returned := r\<rparr>) = capacity d"
  "item_at (d\<lparr>wd_owner := ow\<rparr>) = item_at d" "item_at (d\<lparr>wd_bottom := b\<rparr>) = item_at d" "item_at (d\<lparr>wd_top := t\<rparr>) = item_at d"
  "item_at (d\<lparr>wd_thieves := th\<rparr>) = item_at d" "item_at (d\<lparr>wd_pushed := p\<rparr>) = item_at d" "item_at (d\<lparr>wd_returned := r\<rparr>) = item_at d"
  by (simp_all add: capacity_def item_at_def get_mask_def fun_eq_iff)

lemma deque_okD:
  assumes "deque_ok d"
  shows "wd_top d \<le> logical_bottom d" "logical_bottom d - wd_top d \<le> capacity d" "owner_ok d" "thief_ok d (wd_thieves d j)"
    "mset (wd_pushed d) = mset (wd_returned d) + mset (won_item d) + mset (contents d)"
  using assms by (auto simp: deque_ok_def)

text \<open>An action that leaves both ends and the slots alone.\<close>

lemma deque_ok_frame:
  assumes "deque_ok d" "wd_top d' = wd_top d" "logical_bottom d' = logical_bottom d" "wd_buffer d' = wd_buffer d" "wd_thieves d' = wd_thieves d"
    "owner_ok d'" "wd_pushed d' = wd_pushed d" "taken d' = taken d"
  shows "deque_ok d' \<and> contents d' = contents d"
proof -
  have same: "capacity d' = capacity d" "item_at d' = item_at d" using assms(4) by (simp_all add: capacity_def item_at_def get_mask_def fun_eq_iff)
  then have "contents d' = contents d" using assms(2,3) by (simp add: contents_def)
  moreover have "thief_ok d' th = thief_ok d th" for th using assms(2,3) same by (simp add: thief_ok_def split: thief.splits)
  moreover have "mset (wd_returned d') + mset (won_item d') = mset (wd_returned d) + mset (won_item d)"
    using arg_cong [OF assms(8), of mset] by (simp add: taken_def)
  ultimately show ?thesis using assms(1-7) same by (simp add: deque_ok_def)
qed

text \<open>Taking the first element: the top moves up, past every thief that had seen it.\<close>

lemma take_first_ok:
  assumes ok: "deque_ok d" and lt: "wd_top d < logical_bottom d"
    and d': "wd_top d' = wd_top d + 1" "logical_bottom d' = logical_bottom d" "wd_buffer d' = wd_buffer d" "owner_ok d'" "wd_pushed d' = wd_pushed d"
    and th: "\<And>j. wd_thieves d' j = wd_thieves d j \<or> wd_thieves d' j = TIdle"
    and m: "mset (wd_returned d') + mset (won_item d') = mset (wd_returned d) + mset (won_item d) + {#item_at d (wd_top d)#}"
  shows "deque_ok d' \<and> contents d = item_at d (wd_top d) # contents d'"
proof -
  note D = deque_okD [OF ok]
  have same: "capacity d' = capacity d" "item_at d' = item_at d" using d'(3) by (simp_all add: capacity_def item_at_def get_mask_def fun_eq_iff)
  have c: "contents d = item_at d (wd_top d) # contents d'"
    using lt d'(1,2) same by (simp add: contents_def upto_rec1 [of "wd_top d"])
  have "thief_ok d' (wd_thieves d' j)" for j
    using D(4) [of j] th [of j] d'(1) by (auto simp: thief_ok_def split: thief.splits)
  then show ?thesis using ok D(1,2) lt d' same m c by (simp add: deque_ok_def)
qed

text \<open>
  The specification, a sequence of items. An action of the owner leaves it alone, adds the pushed item at the end, or takes the
  last item; an action of a thief leaves it alone or takes the first.
\<close>

definition owner_move :: "'a WorkerDeque \<Rightarrow> 'a WorkerDeque \<Rightarrow> bool" where
  "owner_move d d' \<longleftrightarrow>
     (contents d' = contents d \<and> wd_pushed d' = wd_pushed d \<and> taken d' = taken d) \<or>
     (\<exists>x. contents d' = contents d @ [x] \<and> wd_pushed d' = wd_pushed d @ [x] \<and> taken d' = taken d) \<or>
     (\<exists>x. contents d = contents d' @ [x] \<and> wd_pushed d' = wd_pushed d \<and> taken d' = taken d @ [x])"

definition thief_move :: "'a WorkerDeque \<Rightarrow> 'a WorkerDeque \<Rightarrow> bool" where
  "thief_move d d' \<longleftrightarrow> wd_pushed d' = wd_pushed d \<and> won_item d' = won_item d \<and>
     (contents d' = contents d \<and> wd_returned d' = wd_returned d \<or>
      (\<exists>x. contents d = x # contents d' \<and> wd_returned d' = wd_returned d @ [x]))"

lemmas owner_defs = owner_ok_def logical_bottom_def won_item_def taken_def

text \<open>Writing the free slot: no item of the deque and none a thief can still take lies there.\<close>

lemma push_store_ok:
  assumes ok: "deque_ok d" and ow: "wd_owner d = OPushStore item b"
  shows "deque_ok (owner_step call d) \<and> contents (owner_step call d) = contents d"
proof -
  let ?d = "owner_step call d"
  note D = deque_okD [OF ok]
  obtain k where k: "length (wd_buffer d) = 2 ^ k" using ok by (auto simp: deque_ok_def)
  have b: "b = wd_bottom d" "b - wd_top d < capacity d" "wd_top d \<le> b" using D(1,3) ow by (auto simp: owner_defs)
  have step: "?d = d\<lparr>wd_buffer := (wd_buffer d)[get_mask d b := item], wd_owner := OPushPublish item b\<rparr>"
    using ow by (simp add: owner_step.simps)
  have fields: "wd_buffer ?d = (wd_buffer d)[get_mask d b := item]" "wd_top ?d = wd_top d" "wd_bottom ?d = b" "wd_owner ?d = OPushPublish item b"
    "wd_thieves ?d = wd_thieves d" "wd_pushed ?d = wd_pushed d" "wd_returned ?d = wd_returned d"
    using b by (simp_all add: step)
  have cap: "capacity ?d = capacity d" by (simp add: capacity_def fields)
  have mask: "get_mask ?d i = get_mask d i" for i by (simp add: get_mask_def fields)
  have old: "item_at ?d i = item_at d i" if i: "wd_top d \<le> i" "i < b" for i
    using slots_differ [OF k, of "wd_top d" i b] i b by (simp add: item_at_def mask fields)
  have new: "item_at ?d b = item" using slot_bound [OF k] by (simp add: item_at_def mask fields)
  have lb: "logical_bottom ?d = b" "logical_bottom d = b" using ow b by (simp_all add: fields logical_bottom_def)
  have c: "contents ?d = contents d" using old lb by (simp add: contents_def fields)
  have "thief_ok ?d (wd_thieves ?d j)" for j
    using D(4) [of j] lb old b by (auto simp: thief_ok_def fields split: thief.splits)
  moreover have "owner_ok ?d" using b new by (simp add: owner_ok_def fields cap)
  moreover have "won_item ?d = won_item d" using ow by (simp add: won_item_def fields)
  ultimately show ?thesis using D k lb b c by (auto simp: deque_ok_def fields cap)
qed

lemma push_publish_ok:
  assumes ok: "deque_ok d" and ow: "wd_owner d = OPushPublish item b"
  shows "deque_ok (owner_step call d) \<and> contents (owner_step call d) = contents d @ [item]"
proof -
  let ?d = "owner_step call d"
  note D = deque_okD [OF ok]
  have b: "b = wd_bottom d" "b - wd_top d < capacity d" "wd_top d \<le> b" "item_at d b = item" using D(1,3) ow by (auto simp: owner_defs)
  have step: "?d = d\<lparr>wd_bottom := b + 1, wd_owner := OIdle, wd_pushed := wd_pushed d @ [item]\<rparr>"
    using ow by (simp add: owner_step.simps)
  have lb: "logical_bottom ?d = b + 1" "logical_bottom d = b" using ow b by (simp_all add: step logical_bottom_def)
  have c: "contents ?d = contents d @ [item]"
    using lb b upto_rec2 [of "wd_top d" b] by (simp add: contents_def) (simp add: step)
  have "thief_ok ?d (wd_thieves ?d j)" for j
    using D(4) [of j] lb by (auto simp: thief_ok_def step split: thief.splits)
  then show ?thesis using ok c lb b ow by (simp add: deque_ok_def owner_ok_def won_item_def) (simp add: step)
qed

lemma pop_last_ok:
  assumes ok: "deque_ok d" and ow: "wd_owner d = OPopTop b" and lt: "wd_top d < b"
  shows "deque_ok (owner_step call d) \<and> contents d = contents (owner_step call d) @ [item_at d b]"
proof -
  let ?d = "owner_step call d"
  note D = deque_okD [OF ok]
  have b: "b = wd_bottom d" using D(3) ow by (auto simp: owner_defs)
  have step: "?d = d\<lparr>wd_owner := OPopRead b\<rparr>" using ow lt by (simp add: owner_step.simps Let_def)
  have lb: "logical_bottom ?d = b" "logical_bottom d = b + 1" using ow b by (simp_all add: step logical_bottom_def)
  have c: "contents d = contents ?d @ [item_at d b]"
    using lb lt upto_rec2 [of "wd_top d" b] by (simp add: contents_def) (simp add: step)
  have "thief_ok ?d (wd_thieves ?d j)" for j
    using D(4) [of j] lb lt by (auto simp: thief_ok_def step split: thief.splits)
  then show ?thesis using ok c lb b ow lt by (simp add: deque_ok_def owner_ok_def won_item_def) (simp add: step)
qed

lemma owner_step_ok:
  assumes ok: "deque_ok d"
  shows "deque_ok (owner_step call d) \<and> owner_move d (owner_step call d)"
proof -
  note D = deque_okD [OF ok]
  have frame: ?thesis if same: "wd_pushed (owner_step call d) = wd_pushed d" "taken (owner_step call d) = taken d"
      "deque_ok (owner_step call d) \<and> contents (owner_step call d) = contents d"
    using same by (simp add: owner_move_def)
  show ?thesis
  proof (cases "wd_owner d")
    case OIdle
    then show ?thesis by (intro frame deque_ok_frame [OF ok]) (auto simp: owner_step.simps owner_defs split: option.splits)
  next
    case (OPush item b)
    then show ?thesis using D(3) by (intro frame deque_ok_frame [OF ok]) (auto simp: owner_step.simps owner_defs)
  next
    case (OPushStore item b)
    then show ?thesis using push_store_ok [OF ok OPushStore] by (intro frame) (simp_all add: owner_step.simps owner_defs)
  next
    case (OPushPublish item b)
    then show ?thesis using push_publish_ok [OF ok OPushPublish]
      by (auto simp: owner_move_def) (simp_all add: owner_step.simps owner_defs)
  next
    case (OPop b)
    then show ?thesis using D(3) by (intro frame deque_ok_frame [OF ok]) (auto simp: owner_step.simps owner_defs)
  next
    case (OPopTop b)
    show ?thesis
    proof (cases "wd_top d < b")
      case True
      then show ?thesis using pop_last_ok [OF ok OPopTop] OPopTop
        by (auto simp: owner_move_def) (simp_all add: owner_step.simps owner_defs Let_def)
    next
      case False
      then show ?thesis using OPopTop D(1,3)
        by (intro frame deque_ok_frame [OF ok]) (auto simp: owner_step.simps owner_defs Let_def)
    qed
  next
    case (OPopRestore t)
    then show ?thesis using D(3) by (intro frame deque_ok_frame [OF ok]) (auto simp: owner_step.simps owner_defs)
  next
    case (OPopCas b t)
    show ?thesis
    proof (cases "wd_top d = t")
      case True
      have "deque_ok (owner_step call d) \<and> contents d = item_at d (wd_top d) # contents (owner_step call d)"
        by (rule take_first_ok [OF ok]) (use OPopCas True D(1,3) in \<open>auto simp: owner_step.simps owner_defs\<close>)
      moreover have "contents (owner_step call d) = []" using OPopCas True D(3) by (simp add: owner_step.simps owner_defs contents_def)
      ultimately show ?thesis using OPopCas True D(3)
        by (auto simp: owner_move_def) (simp_all add: owner_step.simps owner_defs)
    next
      case False
      then show ?thesis using OPopCas D(1,3)
        by (intro frame deque_ok_frame [OF ok]) (auto simp: owner_step.simps owner_defs)
    qed
  next
    case (OPopSet b t won)
    then show ?thesis using D(3) by (intro frame deque_ok_frame [OF ok]) (auto simp: owner_step.simps owner_defs)
  next
    case (OPopRead b)
    then show ?thesis by (intro frame deque_ok_frame [OF ok]) (auto simp: owner_step.simps owner_defs item_at_def)
  qed
qed

lemma won_item_frame: "wd_owner d' = wd_owner d \<Longrightarrow> wd_buffer d' = wd_buffer d \<Longrightarrow> won_item d' = won_item d"
  by (simp add: won_item_def item_at_def get_mask_def capacity_def split: owner.splits bool.splits)

lemma thief_step_won: "won_item (thief_step j d) = won_item d"
  by (rule won_item_frame) (simp_all add: thief_step.simps Let_def split: thief.splits)

text \<open>A thief that moves without taking anything.\<close>

lemma thief_frame:
  assumes ok: "deque_ok d" and th: "thief_ok d s"
  shows "deque_ok (d\<lparr>wd_thieves := (wd_thieves d)(j := s)\<rparr>) \<and> contents (d\<lparr>wd_thieves := (wd_thieves d)(j := s)\<rparr>) = contents d"
proof -
  let ?d = "d\<lparr>wd_thieves := (wd_thieves d)(j := s)\<rparr>"
  have same: "logical_bottom ?d = logical_bottom d" "won_item ?d = won_item d" "owner_ok ?d = owner_ok d"
    by (simp_all add: owner_defs split: owner.splits)
  moreover have c: "contents ?d = contents d" using same by (simp add: contents_def)
  moreover have "thief_ok ?d x = thief_ok d x" for x using same by (simp add: thief_ok_def split: thief.splits)
  ultimately show ?thesis using ok th by (auto simp: deque_ok_def)
qed

lemma thief_step_ok:
  assumes ok: "deque_ok d"
  shows "deque_ok (thief_step j d) \<and> thief_move d (thief_step j d)"
proof -
  note D = deque_okD [OF ok]
  have frame: ?thesis if s: "thief_step j d = d\<lparr>wd_thieves := (wd_thieves d)(j := s)\<rparr>" "thief_ok d s" for s
    using thief_frame [OF ok s(2)] s(1) thief_step_won [of j d] by (simp add: thief_move_def)
  have bottom: "wd_bottom d \<le> logical_bottom d" using D(3) by (auto simp: owner_defs split: owner.splits)
  show ?thesis
  proof (cases "wd_thieves d j")
    case TIdle
    then show ?thesis by (intro frame [of "TTop (wd_top d)"]) (simp_all add: thief_step.simps thief_ok_def)
  next
    case (TTop t)
    then show ?thesis using D(4) [of j] bottom
      by (intro frame [of "if wd_bottom d - t \<le> 0 then TIdle else TBounds t"]) (simp_all add: thief_step.simps thief_ok_def)
  next
    case (TBounds t)
    then show ?thesis using D(4) [of j]
      by (intro frame [of "THave t (wd_buffer d ! get_mask d t)"]) (simp_all add: thief_step.simps thief_ok_def item_at_def)
  next
    case (THave t task)
    show ?thesis
    proof (cases "wd_top d = t")
      case True
      have first: "t < logical_bottom d" "item_at d t = task" using D(4) [of j] THave True by (simp_all add: thief_ok_def)
      have "deque_ok (thief_step j d) \<and> contents d = item_at d (wd_top d) # contents (thief_step j d)"
        by (rule take_first_ok [OF ok])
          (use THave True first D(3) in \<open>auto simp: thief_step.simps owner_defs split: owner.splits\<close>)
      then show ?thesis using THave True first by (auto simp: thief_move_def thief_step_won) (simp_all add: thief_step.simps)
    next
      case False
      then show ?thesis using THave by (intro frame [of TIdle]) (simp_all add: thief_step.simps thief_ok_def)
    qed
  qed
qed

lemma new_deque_ok: "length buffer = 2 ^ k \<Longrightarrow> deque_ok (new_deque buffer)"
  by (auto simp: deque_ok_def new_deque_def owner_defs thief_ok_def contents_def capacity_def)

lemma deque_reach_ok:
  assumes "deque_reach d0 d" "deque_ok d0"
  shows "deque_ok d"
  using assms by induction (simp_all add: owner_step_ok thief_step_ok)

text \<open>
  C33. Whatever the interleaving: the deque is a sequence of items, no longer than the buffer, at whose end \<open>push\<close> adds and \<open>pop\<close> takes and
  at whose front \<open>steal\<close> takes; an item that was pushed is in it or has been returned, to exactly one caller.
\<close>

theorem work_deque_is_a_deque:
  assumes size: "length buffer = 2 ^ k" and reach: "deque_reach (new_deque buffer) d"
  shows "mset (wd_pushed d) = mset (taken d) + mset (contents d) \<and> length (contents d) \<le> length (wd_buffer d) \<and>
    (wd_owner d = OIdle \<longrightarrow> contents d = map (item_at d) [wd_top d..wd_bottom d - 1]) \<and>
    owner_move d (owner_step call d) \<and> thief_move d (thief_step j d)"
proof -
  have ok: "deque_ok d" using deque_reach_ok [OF reach new_deque_ok [OF size]] .
  note D = deque_okD [OF ok]
  have "length (contents d) \<le> length (wd_buffer d)" using D(1,2) by (simp add: contents_def capacity_def)
  moreover have "wd_owner d = OIdle \<longrightarrow> contents d = map (item_at d) [wd_top d..wd_bottom d - 1]"
    by (simp add: contents_def logical_bottom_def)
  ultimately show ?thesis using owner_step_ok [OF ok] thief_step_ok [OF ok] D(5) by (simp add: taken_def)
qed

text \<open>The owner pushes 5 and 6 into an empty deque of two slots and begins to pop while a thief steals: both get one.\<close>

definition deque_run :: "(bool \<times> 'a option) list \<Rightarrow> 'a WorkerDeque \<Rightarrow> 'a WorkerDeque" where
  "deque_run acts d = fold (\<lambda>(own, call) e. if own then owner_step call e else thief_step 0 e) acts d"

lemma deque_run_reach: "deque_reach d0 d \<Longrightarrow> deque_reach d0 (deque_run acts d)"
proof (induction acts arbitrary: d)
  case Nil
  then show ?case by (simp add: deque_run_def)
next
  case (Cons a acts)
  have "deque_reach d0 (if fst a then owner_step (snd a) d else thief_step 0 d)" using Cons.prems by (simp add: deque_reach.intros)
  from Cons.IH [OF this] show ?case by (simp add: deque_run_def case_prod_beta)
qed

definition sample_race :: "int WorkerDeque" where
  "sample_race = deque_run (replicate 4 (True, Some 5) @ replicate 4 (True, Some 6) @ replicate 2 (True, None) @ replicate 4 (False, None)
     @ replicate 2 (True, None)) (new_deque [0, 0])"

lemma sample_race_reach: "deque_reach (new_deque [0, 0]) sample_race"
  unfolding sample_race_def by (rule deque_run_reach [OF deque_reach.start])

lemma sample_race_returned: "wd_returned sample_race = [5] \<and> wd_owner sample_race = OPopSet 1 1 True"
  by code_simp

theorem work_deque_is_a_deque_witness:
  "mset (wd_pushed sample_race) = mset (taken sample_race) + mset (contents sample_race) \<and> wd_returned sample_race = [5]"
  using work_deque_is_a_deque [of "[0, 0]" 1 sample_race] sample_race_reach sample_race_returned by simp

end
