(* ===== verification/Global_Queue.thy ===== *)
theory Global_Queue
  imports Work_Deque
begin

text \<open>
  The queue \<open>submit\<close> feeds and the workers drain (\<open>ChaseLevThreadPool/GlobalSPMCQueue.hpp\<close>): one producer, any number of
  consumers. As for the deque, every load, store and compare-exchange is one action. The ring is that of the deque without
  \<open>pop\<close>, and every action is simulated by actions of the deque, which carry its invariant over.
\<close>

subsection \<open>The queue and its threads\<close>

text \<open>
  The producer: outside, before reading \<open>top_\<close>, before writing the slot, before publishing. A consumer: outside, at the head of its
  loop with a position, past the emptiness test, with the slot read.
\<close>

datatype 'a queue_producer = QIdle | QPush 'a int | QStore 'a int | QPublish 'a int

datatype 'a queue_consumer = CIdle | CPos int | CBounds int | CHave int 'a

record 'a GlobalSPMCQueue =
  gq_top :: int
  gq_bottom :: int
  gq_buffer :: "'a list"
  gq_producer :: "'a queue_producer"
  gq_consumers :: "nat \<Rightarrow> 'a queue_consumer"
  gq_pushed :: "'a list"
  gq_returned :: "'a list"

definition new_global_queue :: "'a list \<Rightarrow> 'a GlobalSPMCQueue" where
  "new_global_queue buffer = \<lparr>gq_top = 0, gq_bottom = 0, gq_buffer = buffer, gq_producer = QIdle, gq_consumers = (\<lambda>_. CIdle), gq_pushed = [], gq_returned = []\<rparr>"

text \<open>One action of \<open>push\<close>; \<open>item\<close> is the argument of the next call when the producer is outside.\<close>

fun queue_push_step :: "'a \<Rightarrow> 'a GlobalSPMCQueue \<Rightarrow> 'a GlobalSPMCQueue" where
  "queue_push_step item q = (case gq_producer q of
     QIdle \<Rightarrow> q\<lparr>gq_producer := QPush item (gq_bottom q)\<rparr>
   | QPush x b \<Rightarrow> q\<lparr>gq_producer := (if b - gq_top q \<ge> int (length (gq_buffer q)) then QIdle else QStore x b)\<rparr>
   | QStore x b \<Rightarrow> q\<lparr>gq_buffer := (gq_buffer q)[ring_mask (length (gq_buffer q)) b := x], gq_producer := QPublish x b\<rparr>
   | QPublish x b \<Rightarrow> q\<lparr>gq_bottom := b + 1, gq_producer := QIdle, gq_pushed := gq_pushed q @ [x]\<rparr>)"

text \<open>One action of \<open>pop\<close>; the weak compare-exchange may fail for no reason, and a failed one reloads the position.\<close>

fun queue_pop_step :: "bool \<Rightarrow> nat \<Rightarrow> 'a GlobalSPMCQueue \<Rightarrow> 'a GlobalSPMCQueue" where
  "queue_pop_step spurious j q = (let goto = (\<lambda>s. (gq_consumers q)(j := s)) in case gq_consumers q j of
     CIdle \<Rightarrow> q\<lparr>gq_consumers := goto (CPos (gq_top q))\<rparr>
   | CPos pos \<Rightarrow> q\<lparr>gq_consumers := goto (if pos \<ge> gq_bottom q then CIdle else CBounds pos)\<rparr>
   | CBounds pos \<Rightarrow> q\<lparr>gq_consumers := goto (CHave pos (gq_buffer q ! ring_mask (length (gq_buffer q)) pos))\<rparr>
   | CHave pos item \<Rightarrow>
       if gq_top q = pos \<and> \<not> spurious
       then q\<lparr>gq_top := pos + 1, gq_consumers := goto CIdle, gq_returned := gq_returned q @ [item]\<rparr>
       else q\<lparr>gq_consumers := goto (CPos (gq_top q))\<rparr>)"

declare queue_push_step.simps [simp del] queue_pop_step.simps [simp del]

subsection \<open>The queue as a deque nobody pops\<close>

fun owner_of :: "'a queue_producer \<Rightarrow> 'a owner" where
  "owner_of QIdle = OIdle"
| "owner_of (QPush x b) = OPush x b"
| "owner_of (QStore x b) = OPushStore x b"
| "owner_of (QPublish x b) = OPushPublish x b"

fun thief_of :: "'a queue_consumer \<Rightarrow> 'a thief" where
  "thief_of CIdle = TIdle"
| "thief_of (CPos t) = TTop t"
| "thief_of (CBounds t) = TBounds t"
| "thief_of (CHave t x) = THave t x"

definition as_deque :: "'a GlobalSPMCQueue \<Rightarrow> 'a WorkerDeque" where
  "as_deque q = \<lparr>wd_top = gq_top q, wd_bottom = gq_bottom q, wd_buffer = gq_buffer q, wd_owner = owner_of (gq_producer q),
     wd_thieves = thief_of \<circ> gq_consumers q, wd_pushed = gq_pushed q, wd_returned = gq_returned q\<rparr>"

definition queue_ok :: "'a GlobalSPMCQueue \<Rightarrow> bool" where
  "queue_ok q = deque_ok (as_deque q)"

definition queue_contents :: "'a GlobalSPMCQueue \<Rightarrow> 'a list" where
  "queue_contents q = contents (as_deque q)"

lemma new_global_queue_ok: "length buffer = 2 ^ k \<Longrightarrow> queue_ok (new_global_queue buffer)"
proof -
  assume "length buffer = 2 ^ k"
  moreover have "as_deque (new_global_queue buffer) = new_deque buffer" by (simp add: as_deque_def new_global_queue_def new_deque_def comp_def)
  ultimately show ?thesis by (simp add: queue_ok_def new_deque_ok)
qed

lemma push_simulated: "as_deque (queue_push_step item q) = owner_step (Some item) (as_deque q)"
  by (cases "gq_producer q") (simp_all add: as_deque_def queue_push_step.simps owner_step.simps capacity_def get_mask_def)

text \<open>A consumer's action is the thief's, except that a failed compare-exchange goes back to the loop.\<close>

lemma pop_simulated:
  "as_deque (queue_pop_step spurious j q) =
    (case gq_consumers q j of CHave pos item \<Rightarrow>
       if gq_top q = pos \<and> \<not> spurious then thief_step j (as_deque q)
       else (as_deque q)\<lparr>wd_thieves := (wd_thieves (as_deque q))(j := TTop (gq_top q))\<rparr>
     | _ \<Rightarrow> thief_step j (as_deque q))"
  by (cases "gq_consumers q j") (simp_all add: as_deque_def queue_pop_step.simps thief_step.simps get_mask_def fun_upd_comp Let_def)

lemma as_deque_won: "won_item (as_deque q) = []"
  by (cases "gq_producer q") (simp_all add: as_deque_def won_item_def)

lemma queue_account: "queue_ok q \<Longrightarrow> mset (gq_pushed q) = mset (gq_returned q) + mset (queue_contents q)"
  using deque_okD(5) [of "as_deque q"] by (simp add: queue_ok_def queue_contents_def as_deque_won) (simp add: as_deque_def)

lemma queue_push_ok: "queue_ok q \<Longrightarrow> queue_ok (queue_push_step item q)"
  using owner_step_ok [of "as_deque q"] by (simp add: queue_ok_def push_simulated)

lemma queue_pop_ok:
  assumes "queue_ok q"
  shows "queue_ok (queue_pop_step spurious j q)"
proof -
  have "thief_ok (as_deque q) (TTop (gq_top q))" by (simp add: thief_ok_def as_deque_def)
  from thief_frame [OF assms [unfolded queue_ok_def] this]
  show ?thesis using thief_step_ok [OF assms [unfolded queue_ok_def], of j]
    by (simp add: queue_ok_def pop_simulated split: queue_consumer.splits)
qed

text \<open>What the calls have published and taken.\<close>

lemma queue_push_lists:
  "gq_returned (queue_push_step item q) = gq_returned q \<and>
   gq_pushed (queue_push_step item q) = gq_pushed q @ (case gq_producer q of QPublish x b \<Rightarrow> [x] | _ \<Rightarrow> [])"
  by (cases "gq_producer q") (simp_all add: queue_push_step.simps)

lemma queue_pop_lists:
  "gq_pushed (queue_pop_step spurious j q) = gq_pushed q \<and> gq_returned (queue_pop_step spurious j q) = gq_returned q @
     (case gq_consumers q j of CHave pos item \<Rightarrow> if gq_top q = pos \<and> \<not> spurious then [item] else [] | _ \<Rightarrow> [])"
  by (cases "gq_consumers q j") (simp_all add: queue_pop_step.simps Let_def)

text \<open>\<open>pop\<close> reports an empty queue only when it is empty.\<close>

lemma queue_pop_none:
  assumes "queue_ok q" "gq_consumers q j = CPos pos" "pos \<ge> gq_bottom q"
  shows "queue_contents q = []"
proof -
  have "thief_ok (as_deque q) (wd_thieves (as_deque q) j)" using assms(1) by (simp add: queue_ok_def deque_okD)
  then have "pos \<le> gq_top q" using assms(2) by (simp add: as_deque_def thief_ok_def)
  moreover have "logical_bottom (as_deque q) = gq_bottom q"
    by (cases "gq_producer q") (simp_all add: as_deque_def logical_bottom_def)
  ultimately show ?thesis using assms(3) by (simp add: queue_contents_def contents_def) (simp add: as_deque_def)
qed

end
