(* ===== verification/Worker_Pool.thy ===== *)
theory Worker_Pool
  imports Global_Queue
begin

text \<open>
  The work-stealing thread pool (\<open>ChaseLevThreadPool/WorkerPool.hpp\<close>, \<open>Task.hpp\<close>): the worker loops, \<open>submit\<close> and the
  destructor over the global queue and one deque per worker. A worker, or the thread that owns the pool, takes one action at a time, an
  action of the queue or the deque it is in a call of, and the actions of all threads interleave freely. A task
  is an opaque item whose execution is one action; what it computes, and the future that carries the result, is not modelled.
\<close>

subsection \<open>The pool and its threads\<close>

text \<open>
  A worker stands at the head of its loop, in the first \<open>pop\<close> of its deque, with a task to run, in the \<open>pop\<close> of the global queue, in the
  \<open>push\<close> that republishes a task, in the \<open>pop\<close> after it, in the \<open>steal\<close> from its \<open>i\<close>-th neighbour, or has left.
\<close>

datatype 'a worker = WLoop | WPop | WRun 'a | WGlobal | WPush 'a | WPop2 | WSteal nat | WExit

text \<open>
  The thread that owns the pool is outside, in the spinning loop of \<open>submit\<close> (pushing, or about to test \<open>running_\<close>), or in the destructor:
  stopping, joining worker \<open>n\<close>, draining the global queue, draining deque \<open>n\<close>, running a drained task, done.
\<close>

datatype 'a main = MIdle | MSubmit 'a | MCheck 'a | MStop | MJoin nat | MDrainGlobal | MDrainLocal nat | MDrainRun 'a "nat option" | MDone

record 'a WorkerPool =
  wp_queue :: "'a GlobalSPMCQueue"
  wp_running :: bool
  wp_deques :: "'a WorkerDeque list"
  wp_workers :: "'a worker list"
  wp_main :: "'a main"
  wp_submitted :: "'a list"
  wp_executed :: "'a list"

text \<open>The last two fields are history: the tasks \<open>submit\<close> has enqueued, and the tasks run.\<close>

definition new_pool :: "'a list \<Rightarrow> 'a list \<Rightarrow> nat \<Rightarrow> 'a WorkerPool" where
  "new_pool global local n = \<lparr>wp_queue = new_global_queue global, wp_running = True, wp_deques = replicate n (new_deque local),
     wp_workers = replicate n WLoop, wp_main = MIdle, wp_submitted = [], wp_executed = []\<rparr>"

text \<open>What a call that has just finished returned: the items by which the histories have grown.\<close>

definition took :: "'a WorkerDeque \<Rightarrow> 'a WorkerDeque \<Rightarrow> 'a list" where
  "took d d' = drop (length (wd_returned d)) (wd_returned d')"

definition put :: "'a WorkerDeque \<Rightarrow> 'a WorkerDeque \<Rightarrow> 'a list" where
  "put d d' = drop (length (wd_pushed d)) (wd_pushed d')"

definition queue_took :: "'a GlobalSPMCQueue \<Rightarrow> 'a GlobalSPMCQueue \<Rightarrow> 'a list" where
  "queue_took q q' = drop (length (gq_returned q)) (gq_returned q')"

text \<open>Where the thread goes when its call is over: with the task it got, or on to the next alternative.\<close>

fun with_task :: "('a \<Rightarrow> 'b) \<Rightarrow> 'b \<Rightarrow> 'a list \<Rightarrow> 'b" where
  "with_task run none [] = none"
| "with_task run none (x # xs) = run x"

definition execute_task :: "'a \<Rightarrow> 'a WorkerPool \<Rightarrow> 'a WorkerPool" where
  "execute_task x p = p\<lparr>wp_executed := wp_executed p @ [x]\<rparr>"

fun worker_step :: "bool \<Rightarrow> nat \<Rightarrow> 'a WorkerPool \<Rightarrow> 'a WorkerPool" where
  "worker_step spurious tid p = (let goto = (\<lambda>w. (wp_workers p)[tid := w]); d = wp_deques p ! tid in case wp_workers p ! tid of
     WLoop \<Rightarrow> p\<lparr>wp_workers := goto (if wp_running p then WPop else WExit)\<rparr>
   | WPop \<Rightarrow>
       let d' = owner_step None d in
       p\<lparr>wp_deques := (wp_deques p)[tid := d'], wp_workers := goto (if wd_owner d' \<noteq> OIdle then WPop else with_task WRun WGlobal (took d d'))\<rparr>
   | WRun x \<Rightarrow> execute_task x (p\<lparr>wp_workers := goto WLoop\<rparr>)
   | WGlobal \<Rightarrow>
       let q' = queue_pop_step spurious tid (wp_queue p) in
       p\<lparr>wp_queue := q',
         wp_workers := goto (if gq_consumers q' tid \<noteq> CIdle then WGlobal else with_task WPush (WSteal 1) (queue_took (wp_queue p) q'))\<rparr>
   | WPush x \<Rightarrow>
       let d' = owner_step (Some x) d in
       p\<lparr>wp_deques := (wp_deques p)[tid := d'], wp_workers := goto (if wd_owner d' \<noteq> OIdle then WPush x else if put d d' = [] then WRun x else WPop2)\<rparr>
   | WPop2 \<Rightarrow>
       let d' = owner_step None d in
       p\<lparr>wp_deques := (wp_deques p)[tid := d'], wp_workers := goto (if wd_owner d' \<noteq> OIdle then WPop2 else with_task WRun WLoop (took d d'))\<rparr>
   | WSteal i \<Rightarrow>
       if i \<ge> length (wp_workers p) then p\<lparr>wp_workers := goto WLoop\<rparr>
       else let threadId = (tid + i) mod length (wp_workers p); v = wp_deques p ! threadId; v' = thief_step tid v in
       p\<lparr>wp_deques := (wp_deques p)[threadId := v'],
         wp_workers := goto (if wd_thieves v' tid \<noteq> TIdle then WSteal i else with_task WRun (WSteal (i + 1)) (took v v'))\<rparr>
   | WExit \<Rightarrow> p)"

text \<open>The owner's thread; \<open>call\<close> is its next call when it is outside: \<open>submit\<close> of a task, or the destructor.\<close>

fun main_step :: "bool \<Rightarrow> 'a option \<Rightarrow> 'a WorkerPool \<Rightarrow> 'a WorkerPool" where
  "main_step spurious call p = (case wp_main p of
     MIdle \<Rightarrow> p\<lparr>wp_main := (case call of Some x \<Rightarrow> MSubmit x | None \<Rightarrow> MStop)\<rparr>
   | MSubmit x \<Rightarrow>
       let q' = queue_push_step x (wp_queue p); pushed = (gq_pushed q' \<noteq> gq_pushed (wp_queue p)) in
       p\<lparr>wp_queue := q', wp_main := (if gq_producer q' \<noteq> QIdle then MSubmit x else if pushed then MIdle else MCheck x),
         wp_submitted := (if pushed then wp_submitted p @ [x] else wp_submitted p)\<rparr>
   | MCheck x \<Rightarrow> p\<lparr>wp_main := (if wp_running p then MSubmit x else MIdle)\<rparr>
   | MStop \<Rightarrow> p\<lparr>wp_running := False, wp_main := MJoin 0\<rparr>
   | MJoin n \<Rightarrow>
       if n \<ge> length (wp_workers p) then p\<lparr>wp_main := MDrainGlobal\<rparr>
       else if wp_workers p ! n = WExit then p\<lparr>wp_main := MJoin (n + 1)\<rparr> else p
   | MDrainGlobal \<Rightarrow>
       let j = length (wp_workers p); q' = queue_pop_step spurious j (wp_queue p) in
       p\<lparr>wp_queue := q',
         wp_main := (if gq_consumers q' j \<noteq> CIdle then MDrainGlobal
           else with_task (\<lambda>x. MDrainRun x None) (MDrainLocal 0) (queue_took (wp_queue p) q'))\<rparr>
   | MDrainLocal n \<Rightarrow>
       if n \<ge> length (wp_workers p) then p\<lparr>wp_main := MDone\<rparr>
       else let d = wp_deques p ! n; d' = owner_step None d in
       p\<lparr>wp_deques := (wp_deques p)[n := d'],
         wp_main := (if wd_owner d' \<noteq> OIdle then MDrainLocal n else with_task (\<lambda>x. MDrainRun x (Some n)) (MDrainLocal (n + 1)) (took d d'))\<rparr>
   | MDrainRun x back \<Rightarrow> execute_task x (p\<lparr>wp_main := (case back of None \<Rightarrow> MDrainGlobal | Some n \<Rightarrow> MDrainLocal n)\<rparr>)
   | MDone \<Rightarrow> p)"

inductive pool_reach :: "'a WorkerPool \<Rightarrow> 'a WorkerPool \<Rightarrow> bool" for p0 where
  start: "pool_reach p0 p0"
| work: "pool_reach p0 p \<Longrightarrow> tid < length (wp_workers p) \<Longrightarrow> pool_reach p0 (worker_step spurious tid p)"
| own: "pool_reach p0 p \<Longrightarrow> pool_reach p0 (main_step spurious call p)"

declare worker_step.simps [simp del] main_step.simps [simp del]

subsection \<open>Where the tasks are\<close>

definition deque_bag :: "'a WorkerDeque \<Rightarrow> 'a multiset" where
  "deque_bag d = mset (contents d) + mset (won_item d)"

fun worker_bag :: "'a worker \<Rightarrow> 'a multiset" where
  "worker_bag (WRun x) = {#x#}"
| "worker_bag (WPush x) = {#x#}"
| "worker_bag w = {#}"

fun main_bag :: "'a main \<Rightarrow> 'a multiset" where
  "main_bag (MDrainRun x back) = {#x#}"
| "main_bag m = {#}"

definition pool_bag :: "'a WorkerPool \<Rightarrow> 'a multiset" where
  "pool_bag p = mset (queue_contents (wp_queue p)) + (\<Sum>d\<leftarrow>wp_deques p. deque_bag d) + (\<Sum>w\<leftarrow>wp_workers p. worker_bag w) + main_bag (wp_main p)"

text \<open>The call each thread is in fits its place in the loop.\<close>

fun popping :: "'a owner \<Rightarrow> bool" where
  "popping (OPush x b) = False"
| "popping (OPushStore x b) = False"
| "popping (OPushPublish x b) = False"
| "popping ow = True"

fun pushing :: "'a \<Rightarrow> 'a owner \<Rightarrow> bool" where
  "pushing y OIdle = True"
| "pushing y (OPush x b) = (x = y)"
| "pushing y (OPushStore x b) = (x = y)"
| "pushing y (OPushPublish x b) = (x = y)"
| "pushing y ow = False"

fun worker_fits :: "'a worker \<Rightarrow> 'a owner \<Rightarrow> bool" where
  "worker_fits WPop ow = popping ow"
| "worker_fits WPop2 ow = popping ow"
| "worker_fits WExit ow = popping ow"
| "worker_fits (WPush x) ow = pushing x ow"
| "worker_fits w ow = (ow = OIdle)"

fun submitting :: "'a \<Rightarrow> 'a queue_producer \<Rightarrow> bool" where
  "submitting y QIdle = True"
| "submitting y (QPush x b) = (x = y)"
| "submitting y (QStore x b) = (x = y)"
| "submitting y (QPublish x b) = (x = y)"

definition exited :: "nat \<Rightarrow> 'a WorkerPool \<Rightarrow> bool" where
  "exited n p \<longleftrightarrow> (\<forall>tid < n. tid < length (wp_workers p) \<longrightarrow> wp_workers p ! tid = WExit)"

definition drained :: "nat \<Rightarrow> 'a WorkerPool \<Rightarrow> bool" where
  "drained n p \<longleftrightarrow> exited (length (wp_workers p)) p \<and> queue_contents (wp_queue p) = [] \<and>
     (\<forall>tid < n. tid < length (wp_deques p) \<longrightarrow> contents (wp_deques p ! tid) = [] \<and> wd_owner (wp_deques p ! tid) = OIdle)"

fun main_ok :: "'a main \<Rightarrow> 'a WorkerPool \<Rightarrow> bool" where
  "main_ok MIdle p = (wp_running p \<and> gq_producer (wp_queue p) = QIdle)"
| "main_ok (MSubmit x) p = (wp_running p \<and> submitting x (gq_producer (wp_queue p)))"
| "main_ok (MCheck x) p = (wp_running p \<and> gq_producer (wp_queue p) = QIdle)"
| "main_ok MStop p = True"
| "main_ok (MJoin n) p = exited n p"
| "main_ok MDrainGlobal p = exited (length (wp_workers p)) p"
| "main_ok (MDrainLocal n) p = drained n p"
| "main_ok (MDrainRun x None) p = exited (length (wp_workers p)) p"
| "main_ok (MDrainRun x (Some n)) p = drained n p"
| "main_ok MDone p = drained (length (wp_workers p)) p"

definition pool_ok :: "'a WorkerPool \<Rightarrow> bool" where
  "pool_ok p \<longleftrightarrow> queue_ok (wp_queue p) \<and> length (wp_deques p) = length (wp_workers p) \<and>
     (\<forall>tid < length (wp_workers p). deque_ok (wp_deques p ! tid) \<and> worker_fits (wp_workers p ! tid) (wd_owner (wp_deques p ! tid))) \<and>
     main_ok (wp_main p) p \<and> gq_pushed (wp_queue p) = wp_submitted p \<and>
     mset (wp_submitted p) = mset (wp_executed p) + pool_bag p"

subsection \<open>One call of the deque or the queue\<close>

lemma deque_account: "deque_ok d \<Longrightarrow> mset (wd_pushed d) = mset (wd_returned d) + deque_bag d"
  using deque_okD(5) [of d] by (simp add: deque_bag_def)

lemma pop_call:
  assumes "deque_ok d" "popping (wd_owner d)"
  defines "d' \<equiv> owner_step None d"
  shows "popping (wd_owner d') \<and> wd_pushed d' = wd_pushed d \<and> wd_returned d' = wd_returned d @ took d d' \<and>
    (took d d' = [] \<or> wd_owner d' = OIdle \<and> (\<exists>x. took d d' = [x])) \<and> (wd_owner d' = OIdle \<and> took d d' = [] \<longrightarrow> contents d' = [])"
  using assms(2) deque_okD(3) [OF assms(1)]
  by (cases "wd_owner d") (auto simp: d'_def owner_step.simps took_def Let_def owner_defs contents_def)

lemma push_call:
  assumes "pushing x (wd_owner d)"
  defines "d' \<equiv> owner_step (Some x) d"
  shows "pushing x (wd_owner d') \<and> wd_returned d' = wd_returned d \<and> wd_pushed d' = wd_pushed d @ put d d' \<and>
    (put d d' = [] \<or> wd_owner d' = OIdle \<and> put d d' = [x])"
  using assms(1) by (cases "wd_owner d") (auto simp: d'_def owner_step.simps put_def)

lemma steal_call:
  fixes d :: "'a WorkerDeque" and j :: nat
  defines "d' \<equiv> thief_step j d"
  shows "wd_owner d' = wd_owner d \<and> wd_pushed d' = wd_pushed d \<and> wd_returned d' = wd_returned d @ took d d' \<and>
    (took d d' = [] \<or> wd_thieves d' j = TIdle \<and> (\<exists>x. took d d' = [x]))"
  by (cases "wd_thieves d j") (auto simp: d'_def thief_step.simps took_def Let_def)

lemma queue_pop_call:
  fixes q :: "'a GlobalSPMCQueue" and j :: nat and spurious :: bool
  assumes "queue_ok q"
  defines "q' \<equiv> queue_pop_step spurious j q"
  shows "gq_producer q' = gq_producer q \<and> gq_pushed q' = gq_pushed q \<and> gq_returned q' = gq_returned q @ queue_took q q' \<and>
    (queue_took q q' = [] \<or> gq_consumers q' j = CIdle \<and> (\<exists>x. queue_took q q' = [x])) \<and>
    (gq_consumers q' j = CIdle \<and> queue_took q q' = [] \<longrightarrow> queue_contents q' = [])"
proof (cases "gq_consumers q j")
  case (CPos pos)
  have "queue_contents q' = queue_contents q" using CPos
    by (simp add: q'_def queue_contents_def contents_def logical_bottom_def item_at_def get_mask_def as_deque_def queue_pop_step.simps fun_eq_iff split: queue_producer.splits owner.splits)
  with CPos queue_pop_none [OF assms(1) CPos] show ?thesis by (auto simp: q'_def queue_pop_step.simps queue_took_def)
qed (auto simp: q'_def queue_pop_step.simps queue_took_def Let_def)

lemma queue_push_call:
  assumes "submitting x (gq_producer q)"
  defines "q' \<equiv> queue_push_step x q"
  shows "submitting x (gq_producer q') \<and> gq_returned q' = gq_returned q \<and>
    (gq_pushed q' = gq_pushed q \<or> gq_producer q' = QIdle \<and> gq_pushed q' = gq_pushed q @ [x])"
  using assms(1) by (cases "gq_producer q") (auto simp: q'_def queue_push_step.simps)

text \<open>What each call moves between the deque or queue and the thread.\<close>

lemma bag_balance:
  assumes "deque_ok d" "deque_ok d'" "wd_pushed d' = wd_pushed d @ xs" "wd_returned d' = wd_returned d @ ys"
  shows "deque_bag d' + mset ys = deque_bag d + mset xs"
  using deque_account [OF assms(1)] deque_account [OF assms(2)] assms(3,4) by (simp add: ac_simps)

lemma queue_balance:
  assumes "queue_ok q" "queue_ok q'" "gq_pushed q' = gq_pushed q @ xs" "gq_returned q' = gq_returned q @ ys"
  shows "mset (queue_contents q') + mset ys = mset (queue_contents q) + mset xs"
  using queue_account [OF assms(1)] queue_account [OF assms(2)] assms(3,4) by (simp add: ac_simps)

lemma sum_bag_update:
  fixes f :: "'b \<Rightarrow> 'a multiset"
  shows "k < length xs \<Longrightarrow> (\<Sum>x\<leftarrow>xs[k := y]. f x) + f (xs ! k) = (\<Sum>x\<leftarrow>xs. f x) + f y"
  by (induction xs arbitrary: k) (auto simp: nth_Cons ac_simps split: nat.splits)

lemma bag_swap:
  fixes E :: "'a multiset"
  assumes "Sd' + d = Sd + d'" "Sw' + w = Sw + w'" "E' + Q' + d' + w' = E + Q + d + w"
  shows "E' + (Q' + Sd' + Sw' + M) = E + (Q + Sd + Sw + M)"
proof (rule multiset_eqI)
  fix x
  show "count (E' + (Q' + Sd' + Sw' + M)) x = count (E + (Q + Sd + Sw + M)) x"
    using arg_cong [OF assms(1), of "\<lambda>N. count N x"] arg_cong [OF assms(2), of "\<lambda>N. count N x"] arg_cong [OF assms(3), of "\<lambda>N. count N x"] by simp
qed

lemma bag_move:
  fixes S :: "'a multiset"
  assumes "S' + B = S + B'" "B' + T = B"
  shows "S' + T = S"
  using assms by (metis add.assoc add.commute add_left_cancel)

subsection \<open>The invariant holds\<close>

text \<open>One action of a worker: it changes its place, one deque, the queue, and what it holds stays in balance.\<close>

lemma worker_update_ok:
  assumes ok: "pool_ok p" and tid: "tid < length (wp_workers p)" "wp_workers p ! tid \<noteq> WExit"
    and v: "v < length (wp_workers p)" "deque_ok d'" "v \<noteq> tid \<Longrightarrow> wd_owner d' = wd_owner (wp_deques p ! v)"
    and q: "queue_ok (wp_queue p')" "gq_producer (wp_queue p') = gq_producer (wp_queue p)" "gq_pushed (wp_queue p') = gq_pushed (wp_queue p)"
    and p': "wp_deques p' = (wp_deques p)[v := d']" "wp_workers p' = (wp_workers p)[tid := w']" "wp_main p' = wp_main p"
      "wp_running p' = wp_running p" "wp_submitted p' = wp_submitted p"
    and fit: "worker_fits w' (wd_owner (wp_deques p' ! tid))"
    and balance: "mset (wp_executed p') + mset (queue_contents (wp_queue p')) + deque_bag d' + worker_bag w' =
      mset (wp_executed p) + mset (queue_contents (wp_queue p)) + deque_bag (wp_deques p ! v) + worker_bag (wp_workers p ! tid)"
  shows "pool_ok p'"
proof -
  have len: "length (wp_deques p) = length (wp_workers p)" using ok by (simp add: pool_ok_def)
  have not_all: "\<not> exited (length (wp_workers p)) p" using tid by (auto simp: exited_def)
  have main: "main_ok (wp_main p') p'"
  proof -
    have "main_ok (wp_main p) p" using ok by (simp add: pool_ok_def)
    then show ?thesis using not_all tid p' q
      by (cases "(wp_main p, p)" rule: main_ok.cases) (auto simp: drained_def exited_def nth_list_update)
  qed
  have fits: "deque_ok (wp_deques p' ! k) \<and> worker_fits (wp_workers p' ! k) (wd_owner (wp_deques p' ! k))" if k: "k < length (wp_workers p')" for k
    using ok k v tid fit p' len by (cases "k = tid"; cases "k = v") (auto simp: pool_ok_def nth_list_update)
  have "(\<Sum>d\<leftarrow>wp_deques p'. deque_bag d) + deque_bag (wp_deques p ! v) = (\<Sum>d\<leftarrow>wp_deques p. deque_bag d) + deque_bag d'"
    "(\<Sum>w\<leftarrow>wp_workers p'. worker_bag w) + worker_bag (wp_workers p ! tid) = (\<Sum>w\<leftarrow>wp_workers p. worker_bag w) + worker_bag w'"
    using sum_bag_update [of v "wp_deques p" deque_bag d'] sum_bag_update [of tid "wp_workers p" worker_bag w'] v tid len p' by auto
  from bag_swap [OF this balance]
  have "mset (wp_executed p') + pool_bag p' = mset (wp_executed p) + pool_bag p" using p'(3) by (simp add: pool_bag_def)
  then show ?thesis using ok q main fits p' len by (simp add: pool_ok_def)
qed

lemma pool_okD:
  assumes "pool_ok p" "tid < length (wp_workers p)"
  shows "deque_ok (wp_deques p ! tid)" "worker_fits (wp_workers p ! tid) (wd_owner (wp_deques p ! tid))" "queue_ok (wp_queue p)"
    "tid < length (wp_deques p)"
  using assms by (simp_all add: pool_ok_def)

text \<open>A worker in a \<open>pop\<close> of its deque: \<open>stay\<close> while the call lasts, then the task or \<open>none\<close>.\<close>

lemma worker_pop_ok:
  assumes ok: "pool_ok p" and tid: "tid < length (wp_workers p)" and w: "wp_workers p ! tid = stay" "stay = WPop \<or> stay = WPop2"
    and none: "none = WGlobal \<or> none = WLoop"
  defines "d' \<equiv> owner_step None (wp_deques p ! tid)"
  shows "pool_ok (p\<lparr>wp_deques := (wp_deques p)[tid := d'],
    wp_workers := (wp_workers p)[tid := if wd_owner d' \<noteq> OIdle then stay else with_task WRun none (took (wp_deques p ! tid) d')]\<rparr>)"
proof -
  note P = pool_okD [OF ok tid]
  have "popping (wd_owner (wp_deques p ! tid))" using P(2) w by auto
  note call = pop_call [OF P(1) this, folded d'_def]
  have d': "deque_ok d'" using owner_step_ok [OF P(1)] by (simp add: d'_def)
  let ?w' = "if wd_owner d' \<noteq> OIdle then stay else with_task WRun none (took (wp_deques p ! tid) d')"
  have "deque_bag d' + mset (took (wp_deques p ! tid) d') = deque_bag (wp_deques p ! tid)" using bag_balance [OF P(1) d', of "[]"] call by simp
  then have "worker_fits ?w' (wd_owner d') \<and> deque_bag d' + worker_bag ?w' = deque_bag (wp_deques p ! tid)"
    using call w(2) none by (cases "wd_owner d' = OIdle"; cases "took (wp_deques p ! tid) d'") auto
  then show ?thesis using w P(3,4) d' tid by (intro worker_update_ok [OF ok tid, of tid d' _ ?w']) (auto simp: ac_simps)
qed

lemma worker_push_ok:
  assumes ok: "pool_ok p" and tid: "tid < length (wp_workers p)" and w: "wp_workers p ! tid = WPush x"
  defines "d' \<equiv> owner_step (Some x) (wp_deques p ! tid)"
  shows "pool_ok (p\<lparr>wp_deques := (wp_deques p)[tid := d'],
    wp_workers := (wp_workers p)[tid := if wd_owner d' \<noteq> OIdle then WPush x else if put (wp_deques p ! tid) d' = [] then WRun x else WPop2]\<rparr>)"
proof -
  note P = pool_okD [OF ok tid]
  have "pushing x (wd_owner (wp_deques p ! tid))" using P(2) w by simp
  note call = push_call [OF this, folded d'_def]
  have d': "deque_ok d'" using owner_step_ok [OF P(1)] by (simp add: d'_def)
  let ?w' = "if wd_owner d' \<noteq> OIdle then WPush x else if put (wp_deques p ! tid) d' = [] then WRun x else WPop2"
  have "deque_bag d' = deque_bag (wp_deques p ! tid) + mset (put (wp_deques p ! tid) d')"
    using bag_balance [OF P(1) d', of "put (wp_deques p ! tid) d'" "[]"] call by simp
  then have "worker_fits ?w' (wd_owner d') \<and> deque_bag d' + worker_bag ?w' = deque_bag (wp_deques p ! tid) + {#x#}"
    using call by (cases "wd_owner d' = OIdle"; cases "put (wp_deques p ! tid) d'") auto
  then show ?thesis using w P(3,4) d' tid by (intro worker_update_ok [OF ok tid, of tid d' _ ?w']) (auto simp: ac_simps)
qed

lemma worker_steal_ok:
  assumes ok: "pool_ok p" and tid: "tid < length (wp_workers p)" and w: "wp_workers p ! tid = WSteal i" and v: "v < length (wp_workers p)"
  defines "d' \<equiv> thief_step tid (wp_deques p ! v)"
  shows "pool_ok (p\<lparr>wp_deques := (wp_deques p)[v := d'],
    wp_workers := (wp_workers p)[tid := if wd_thieves d' tid \<noteq> TIdle then WSteal i else with_task WRun (WSteal (i + 1)) (took (wp_deques p ! v) d')]\<rparr>)"
proof -
  note P = pool_okD [OF ok tid] and V = pool_okD [OF ok v]
  note call = steal_call [of tid "wp_deques p ! v", folded d'_def]
  have d': "deque_ok d'" using thief_step_ok [OF V(1)] by (simp add: d'_def)
  let ?w' = "if wd_thieves d' tid \<noteq> TIdle then WSteal i else with_task WRun (WSteal (i + 1)) (took (wp_deques p ! v) d')"
  have "deque_bag d' + mset (took (wp_deques p ! v) d') = deque_bag (wp_deques p ! v)" using bag_balance [OF V(1) d', of "[]"] call by simp
  moreover have "wd_owner ((wp_deques p)[v := d'] ! tid) = OIdle" using call P(2,4) V(4) w by (simp add: nth_list_update)
  ultimately have "worker_fits ?w' (wd_owner ((wp_deques p)[v := d'] ! tid)) \<and> deque_bag d' + worker_bag ?w' = deque_bag (wp_deques p ! v)"
    using call by (cases "wd_thieves d' tid = TIdle"; cases "took (wp_deques p ! v) d'") auto
  then show ?thesis using call w v P(3) d' by (intro worker_update_ok [OF ok tid, of v d' _ ?w']) (auto simp: ac_simps)
qed

lemma worker_global_ok:
  fixes spurious :: bool
  assumes ok: "pool_ok p" and tid: "tid < length (wp_workers p)" and w: "wp_workers p ! tid = WGlobal"
  defines "q' \<equiv> queue_pop_step spurious tid (wp_queue p)"
  shows "pool_ok (p\<lparr>wp_queue := q',
    wp_workers := (wp_workers p)[tid := if gq_consumers q' tid \<noteq> CIdle then WGlobal else with_task WPush (WSteal 1) (queue_took (wp_queue p) q')]\<rparr>)"
proof -
  note P = pool_okD [OF ok tid]
  note call = queue_pop_call [OF P(3), of spurious tid, folded q'_def]
  have q': "queue_ok q'" using queue_pop_ok [OF P(3)] by (simp add: q'_def)
  let ?w' = "if gq_consumers q' tid \<noteq> CIdle then WGlobal else with_task WPush (WSteal 1) (queue_took (wp_queue p) q')"
  have "mset (queue_contents q') + mset (queue_took (wp_queue p) q') = mset (queue_contents (wp_queue p))"
    using queue_balance [OF P(3) q', of "[]"] call by simp
  then have "worker_fits ?w' OIdle \<and> mset (queue_contents q') + worker_bag ?w' = mset (queue_contents (wp_queue p))"
    using call by (cases "gq_consumers q' tid = CIdle"; cases "queue_took (wp_queue p) q'") auto
  then show ?thesis using call w P q' tid by (intro worker_update_ok [OF ok tid, of tid "wp_deques p ! tid" _ ?w']) (auto simp: ac_simps)
qed

lemma worker_step_ok:
  assumes ok: "pool_ok p" and tid: "tid < length (wp_workers p)"
  shows "pool_ok (worker_step spurious tid p)"
proof -
  note P = pool_okD [OF ok tid]
  show ?thesis
  proof (cases "wp_workers p ! tid")
    case WLoop
    then show ?thesis
      by (intro worker_update_ok [OF ok tid, of tid "wp_deques p ! tid"]) (use P tid in \<open>auto simp: worker_step.simps\<close>)
  next
    case WPop
    then show ?thesis using worker_pop_ok [OF ok tid, of WPop WGlobal] by (simp add: worker_step.simps Let_def)
  next
    case (WRun x)
    then show ?thesis
      by (intro worker_update_ok [OF ok tid, of tid "wp_deques p ! tid"]) (use P tid in \<open>auto simp: worker_step.simps execute_task_def\<close>)
  next
    case WGlobal
    then show ?thesis using worker_global_ok [OF ok tid WGlobal, of spurious] by (simp add: worker_step.simps Let_def)
  next
    case (WPush x)
    then show ?thesis using worker_push_ok [OF ok tid WPush] by (simp add: worker_step.simps Let_def)
  next
    case WPop2
    then show ?thesis using worker_pop_ok [OF ok tid, of WPop2 WLoop] by (simp add: worker_step.simps Let_def)
  next
    case (WSteal i)
    show ?thesis
    proof (cases "i \<ge> length (wp_workers p)")
      case True
      then show ?thesis using WSteal
        by (intro worker_update_ok [OF ok tid, of tid "wp_deques p ! tid"]) (use P tid in \<open>auto simp: worker_step.simps\<close>)
    next
      case False
      moreover have "(tid + i) mod length (wp_workers p) < length (wp_workers p)" using tid by (intro mod_less_divisor) auto
      ultimately show ?thesis using WSteal worker_steal_ok [OF ok tid WSteal] by (simp add: worker_step.simps Let_def)
    qed
  next
    case WExit
    then show ?thesis using ok by (simp add: worker_step.simps)
  qed
qed

text \<open>One action of the owner's thread that leaves the workers alone.\<close>

lemma main_update_ok:
  assumes ok: "pool_ok p" and p': "wp_workers p' = wp_workers p" "length (wp_deques p') = length (wp_deques p)" "queue_ok (wp_queue p')"
      "\<And>k. k < length (wp_workers p) \<Longrightarrow> deque_ok (wp_deques p' ! k) \<and> worker_fits (wp_workers p ! k) (wd_owner (wp_deques p' ! k))"
      "main_ok (wp_main p') p'" "gq_pushed (wp_queue p') = wp_submitted p'"
    and balance: "mset (wp_submitted p') + (mset (wp_executed p) + pool_bag p) = mset (wp_submitted p) + (mset (wp_executed p') + pool_bag p')"
  shows "pool_ok p'"
  using assms by (simp add: pool_ok_def)

lemma main_deques_kept:
  assumes "pool_ok p" "k < length (wp_workers p)"
  shows "deque_ok (wp_deques p ! k) \<and> worker_fits (wp_workers p ! k) (wd_owner (wp_deques p ! k))"
  using assms by (simp add: pool_ok_def)

lemma exited_cong: "wp_workers p' = wp_workers p \<Longrightarrow> exited n p' = exited n p"
  by (simp add: exited_def)

lemma drained_cong:
  "wp_workers p' = wp_workers p \<Longrightarrow> wp_queue p' = wp_queue p \<Longrightarrow> wp_deques p' = wp_deques p \<Longrightarrow> drained n p' = drained n p"
  by (simp add: drained_def exited_def)

lemma pool_submit_ok:
  assumes ok: "pool_ok p" and m: "wp_main p = MSubmit x"
  shows "pool_ok (main_step spurious call p)"
proof -
  let ?q = "wp_queue p" and ?q' = "queue_push_step x (wp_queue p)"
  have q: "queue_ok ?q" and run: "wp_running p" "submitting x (gq_producer ?q)" and sub: "gq_pushed ?q = wp_submitted p"
    using ok m by (simp_all add: pool_ok_def)
  have q': "queue_ok ?q'" using q by (rule queue_push_ok)
  note call = queue_push_call [OF run(2)]
  have "mset (queue_contents ?q') + mset (gq_pushed ?q) = mset (queue_contents ?q) + mset (gq_pushed ?q')"
    using queue_account [OF q] queue_account [OF q'] call by (simp add: ac_simps)
  then show ?thesis using call m sub run q'
    by (intro main_update_ok [OF ok]) (use main_deques_kept [OF ok] in \<open>auto simp: main_step.simps Let_def pool_bag_def\<close>)
qed

lemma drain_global_ok:
  assumes ok: "pool_ok p" and m: "wp_main p = MDrainGlobal"
  shows "pool_ok (main_step spurious call p)"
proof -
  let ?j = "length (wp_workers p)" and ?q = "wp_queue p"
  let ?q' = "queue_pop_step spurious ?j ?q"
  have q: "queue_ok ?q" and ex: "exited ?j p" and sub: "gq_pushed ?q = wp_submitted p"
    using ok m by (simp_all add: pool_ok_def)
  have q': "queue_ok ?q'" using q by (rule queue_pop_ok)
  note call = queue_pop_call [OF q, of spurious ?j]
  have bal: "mset (queue_contents ?q') + mset (queue_took ?q ?q') = mset (queue_contents ?q)"
    using queue_balance [OF q q', of "[]"] call by simp
  show ?thesis
  proof (cases "queue_took ?q ?q'")
    case Nil
    then show ?thesis using bal call m sub ex q'
      by (intro main_update_ok [OF ok])
        (use main_deques_kept [OF ok] in \<open>auto simp: main_step.simps Let_def pool_bag_def drained_def exited_def\<close>)
  next
    case (Cons y ys)
    then show ?thesis using bal call m sub ex q'
      by (intro main_update_ok [OF ok])
        (use main_deques_kept [OF ok] in \<open>auto simp: main_step.simps Let_def pool_bag_def exited_def\<close>)
  qed
qed

lemma drain_local_ok:
  assumes ok: "pool_ok p" and m: "wp_main p = MDrainLocal n" and n: "n < length (wp_workers p)"
  shows "pool_ok (main_step spurious call p)"
proof -
  let ?d = "wp_deques p ! n" and ?d' = "owner_step None (wp_deques p ! n)"
  have dr: "drained n p" and sub: "gq_pushed (wp_queue p) = wp_submitted p" and len: "length (wp_deques p) = length (wp_workers p)"
    using ok m by (simp_all add: pool_ok_def)
  note P = pool_okD [OF ok n]
  have exit: "wp_workers p ! n = WExit" using dr n by (simp add: drained_def exited_def)
  then have "popping (wd_owner ?d)" using P(2) by simp
  note call = pop_call [OF P(1) this]
  have d': "deque_ok ?d'" using owner_step_ok [OF P(1)] by simp
  have bal: "deque_bag ?d' + mset (took ?d ?d') = deque_bag ?d" using bag_balance [OF P(1) d', of "[]"] call by simp
  have keep: "deque_ok ((wp_deques p)[n := ?d'] ! k) \<and> worker_fits (wp_workers p ! k) (wd_owner ((wp_deques p)[n := ?d'] ! k))"
    if k: "k < length (wp_workers p)" for k
    using main_deques_kept [OF ok k] d' call exit n len by (auto simp: nth_list_update)
  have "(\<Sum>d\<leftarrow>(wp_deques p)[n := ?d']. deque_bag d) + deque_bag ?d = (\<Sum>d\<leftarrow>wp_deques p. deque_bag d) + deque_bag ?d'"
    using sum_bag_update [of n "wp_deques p" deque_bag] n len by simp
  note sum = bag_move [OF this bal]
  have step: "main_step spurious call p = p\<lparr>wp_deques := (wp_deques p)[n := ?d'],
      wp_main := (if wd_owner ?d' \<noteq> OIdle then MDrainLocal n else with_task (\<lambda>x. MDrainRun x (Some n)) (MDrainLocal (n + 1)) (took ?d ?d'))\<rparr>"
    using m n by (simp add: main_step.simps Let_def)
  show ?thesis
  proof (cases "took ?d ?d'")
    case Nil
    then show ?thesis using call sum dr n len sub P(3) unfolding step
      by (intro main_update_ok [OF ok]) (use keep in \<open>auto simp: pool_bag_def m drained_def exited_def nth_list_update less_Suc_eq\<close>)
  next
    case (Cons y ys)
    then show ?thesis using call sum dr n len sub P(3) unfolding step
      by (intro main_update_ok [OF ok]) (use keep in \<open>auto simp: pool_bag_def m drained_def exited_def nth_list_update\<close>)
  qed
qed

lemma main_step_ok:
  assumes ok: "pool_ok p"
  shows "pool_ok (main_step spurious call p)"
proof -
  have main: "main_ok (wp_main p) p" and basic: "queue_ok (wp_queue p)" "gq_pushed (wp_queue p) = wp_submitted p" using ok by (simp_all add: pool_ok_def)
  note rest = main basic main_deques_kept [OF ok]
  show ?thesis
  proof (cases "wp_main p")
    case (MSubmit x)
    then show ?thesis by (rule pool_submit_ok [OF ok])
  next
    case MDrainGlobal
    then show ?thesis by (rule drain_global_ok [OF ok])
  next
    case (MDrainLocal n)
    show ?thesis
    proof (cases "n < length (wp_workers p)")
      case True
      then show ?thesis by (rule drain_local_ok [OF ok MDrainLocal])
    next
      case False
      then show ?thesis using MDrainLocal
        by (intro main_update_ok [OF ok]) (use rest in \<open>auto simp: main_step.simps pool_bag_def drained_def exited_def\<close>)
    qed
  next
    case (MDrainRun x ret)
    then show ?thesis
      by (intro main_update_ok [OF ok])
        (use rest in \<open>auto simp: main_step.simps pool_bag_def execute_task_def drained_def exited_def split: option.splits\<close>)
  next
    case (MJoin n)
    then show ?thesis
      by (intro main_update_ok [OF ok]) (use rest in \<open>auto simp: main_step.simps pool_bag_def exited_def less_Suc_eq\<close>)
  next
    case MIdle
    then show ?thesis
      by (intro main_update_ok [OF ok]) (use rest in \<open>auto simp: main_step.simps pool_bag_def split: option.splits\<close>)
  next
    case (MCheck x)
    then show ?thesis by (intro main_update_ok [OF ok]) (use rest in \<open>auto simp: main_step.simps pool_bag_def\<close>)
  next
    case MStop
    then show ?thesis by (intro main_update_ok [OF ok]) (use rest in \<open>auto simp: main_step.simps pool_bag_def exited_def\<close>)
  next
    case MDone
    then show ?thesis using ok by (simp add: main_step.simps)
  qed
qed

lemma new_pool_ok: "length global = 2 ^ k \<Longrightarrow> length local = 2 ^ m \<Longrightarrow> pool_ok (new_pool global local n)"
proof -
  assume "length global = 2 ^ k" "length local = 2 ^ m"
  note ok = new_global_queue_ok [OF this(1)] new_deque_ok [OF this(2)]
  have zero: "sum_list (replicate n {#}) = {#}" by (induction n) auto
  have "deque_bag (new_deque local) = {#}" using deque_account [OF ok(2)] by (simp add: new_deque_def)
  moreover have "queue_contents (new_global_queue global) = []" using queue_account [OF ok(1)] by (simp add: new_global_queue_def)
  ultimately have "pool_bag (new_pool global local n) = {#}" by (simp add: pool_bag_def new_pool_def zero)
  then show ?thesis using ok by (simp add: pool_ok_def) (simp add: new_pool_def new_global_queue_def new_deque_def)
qed

lemma pool_reach_ok: "pool_reach p0 p \<Longrightarrow> pool_ok p0 \<Longrightarrow> pool_ok p"
  by (induction rule: pool_reach.induct) (simp_all add: worker_step_ok main_step_ok)

lemma done_empty:
  assumes "pool_ok p" "wp_main p = MDone"
  shows "pool_bag p = {#}"
proof -
  have dr: "drained (length (wp_workers p)) p" and len: "length (wp_deques p) = length (wp_workers p)" using assms by (simp_all add: pool_ok_def)
  have "deque_bag d = {#}" if d: "d \<in> set (wp_deques p)" for d
    using dr len d by (auto simp: drained_def deque_bag_def won_item_def in_set_conv_nth)
  moreover have "worker_bag w = {#}" if w: "w \<in> set (wp_workers p)" for w
    using dr w by (auto simp: drained_def exited_def in_set_conv_nth)
  ultimately have "(\<Sum>d\<leftarrow>wp_deques p. deque_bag d) = {#}" "(\<Sum>w\<leftarrow>wp_workers p. worker_bag w) = {#}"
    by (simp_all add: sum_list_eq_0_iff cong: map_cong)
  then show ?thesis using dr assms(2) by (simp add: pool_bag_def drained_def)
qed

subsection \<open>The destructor ends\<close>

fun drain_phase :: "'a main \<Rightarrow> nat \<Rightarrow> nat" where
  "drain_phase MStop n = 2 * n + 5"
| "drain_phase (MJoin k) n = n + 4 + (n - k)"
| "drain_phase MDrainGlobal n = n + 3"
| "drain_phase (MDrainRun x None) n = n + 3"
| "drain_phase (MDrainLocal k) n = n - k + 1"
| "drain_phase (MDrainRun x (Some k)) n = n - k + 1"
| "drain_phase m n = 0"

fun pop_stage :: "'a owner \<Rightarrow> nat" where
  "pop_stage OIdle = 6"
| "pop_stage (OPop b) = 5"
| "pop_stage (OPopTop b) = 4"
| "pop_stage (OPopRestore t) = 3"
| "pop_stage (OPopCas b t) = 3"
| "pop_stage (OPopSet b t won) = 2"
| "pop_stage ow = 1"

fun queue_stage :: "int \<Rightarrow> 'a queue_consumer \<Rightarrow> nat" where
  "queue_stage t0 CIdle = 4"
| "queue_stage t0 (CPos pos) = (if pos = t0 then 3 else 7)"
| "queue_stage t0 (CBounds pos) = (if pos = t0 then 2 else 6)"
| "queue_stage t0 (CHave pos x) = (if pos = t0 then 1 else 5)"

fun drain_stage :: "'a main \<Rightarrow> 'a WorkerPool \<Rightarrow> nat" where
  "drain_stage MDrainGlobal p = queue_stage (gq_top (wp_queue p)) (gq_consumers (wp_queue p) (length (wp_workers p)))"
| "drain_stage (MDrainLocal k) p = (if k < length (wp_workers p) then pop_stage (wd_owner (wp_deques p ! k)) else 1)"
| "drain_stage m p = 0"

definition drain_order :: "('a WorkerPool \<times> 'a WorkerPool) set" where
  "drain_order = measures [\<lambda>p. length (wp_submitted p) - length (wp_executed p),
     \<lambda>p. drain_phase (wp_main p) (length (wp_workers p)), \<lambda>p. drain_stage (wp_main p) p]"

fun destroying :: "'a main \<Rightarrow> bool" where
  "destroying MIdle = False"
| "destroying (MSubmit x) = False"
| "destroying (MCheck x) = False"
| "destroying m = True"

lemma running_counts:
  assumes "pool_ok p" "wp_main p = MDrainRun x ret"
  shows "length (wp_executed p) < length (wp_submitted p)"
proof -
  have "mset (wp_submitted p) = mset (wp_executed p) + pool_bag p" using assms by (simp add: pool_ok_def)
  from arg_cong [OF this, of size] show ?thesis using assms(2) by (simp add: pool_bag_def)
qed

lemma with_task_cases: "with_task f z xs = z \<and> xs = [] \<or> (\<exists>x. with_task f z xs = f x)"
  by (cases xs) auto

lemma drain_step_decreases:
  assumes ok: "pool_ok p" and ex: "exited (length (wp_workers p)) p" and dm: "destroying (wp_main p)" "wp_main p \<noteq> MDone"
  shows "(main_step False call p, p) \<in> drain_order \<and> wp_workers (main_step False call p) = wp_workers p \<and> destroying (wp_main (main_step False call p))"
proof (cases "wp_main p")
  case (MJoin n)
  then show ?thesis using ex by (auto simp: drain_order_def main_step.simps exited_def)
next
  case MDrainGlobal
  let ?j = "length (wp_workers p)" and ?q = "wp_queue p"
  have "queue_ok ?q" using ok by (simp add: pool_ok_def)
  note call = queue_pop_call [OF this, of False ?j]
  show ?thesis using MDrainGlobal call with_task_cases [of "\<lambda>x. MDrainRun x None" "MDrainLocal 0" "queue_took ?q (queue_pop_step False ?j ?q)"]
    by (cases "gq_consumers ?q ?j") (auto simp: drain_order_def main_step.simps queue_pop_step.simps Let_def)
next
  case (MDrainLocal n)
  show ?thesis
  proof (cases "n < length (wp_workers p)")
    case True
    then have "worker_fits WExit (wd_owner (wp_deques p ! n))" "n < length (wp_deques p)"
      using pool_okD [OF ok True] ex by (simp_all add: exited_def)
    then show ?thesis using True MDrainLocal
        with_task_cases [of "\<lambda>x. MDrainRun x (Some n)" "MDrainLocal (n + 1)" "took (wp_deques p ! n) (owner_step None (wp_deques p ! n))"]
      by (cases "wd_owner (wp_deques p ! n)") (auto simp: drain_order_def main_step.simps owner_step.simps Let_def)
  next
    case False
    then show ?thesis using MDrainLocal by (simp add: drain_order_def main_step.simps)
  qed
next
  case (MDrainRun x ret)
  then show ?thesis using running_counts [OF ok MDrainRun] by (auto simp: drain_order_def main_step.simps execute_task_def split: option.splits)
qed (use dm in \<open>auto simp: drain_order_def main_step.simps\<close>)

lemma destructor_ends:
  assumes "pool_ok p" "exited (length (wp_workers p)) p" "destroying (wp_main p)"
  shows "\<exists>k. wp_main ((main_step False None ^^ k) p) = MDone"
proof -
  have "wf drain_order" by (simp add: drain_order_def)
  then show ?thesis using assms
  proof (induction p rule: wf_induct_rule)
    case (less p)
    show ?case
    proof (cases "wp_main p = MDone")
      case True
      then show ?thesis by (intro exI [of _ 0]) simp
    next
      case False
      let ?p = "main_step False None p"
      note step = drain_step_decreases [OF less.prems False, of None]
      then have "\<exists>k. wp_main ((main_step False None ^^ k) ?p) = MDone"
        using less.IH [of ?p] less.prems main_step_ok [OF less.prems(1)] by (simp add: exited_def)
      then obtain k where "wp_main ((main_step False None ^^ k) ?p) = MDone" ..
      then show ?thesis by (intro exI [of _ "Suc k"]) (simp add: funpow_swap1)
    qed
  qed
qed

subsection \<open>Every task runs exactly once\<close>

text \<open>
  C11. Whatever the interleaving of the workers, the submitter and the destructor: a task that \<open>submit\<close> enqueued has run
  once, or waits in the global queue, in one deque, or in the hands of one thread, in exactly one of these places. \<open>submit\<close> gives
  up on no task. Once the workers have left their loops, the destructor comes to its end, and then every task
  has run exactly once.
\<close>

theorem pool_runs_every_task_once:
  assumes "length global = 2 ^ k" "length local = 2 ^ m" "pool_reach (new_pool global local n) p"
  shows "mset (wp_submitted p) = mset (wp_executed p) + pool_bag p \<and>
    (wp_main p = MCheck x \<longrightarrow> wp_main (main_step spurious call p) = MSubmit x) \<and>
    (wp_main p = MDone \<longrightarrow> mset (wp_executed p) = mset (wp_submitted p)) \<and>
    (destroying (wp_main p) \<and> (\<forall>w \<in> set (wp_workers p). w = WExit) \<longrightarrow>
      (\<exists>i. wp_main ((main_step False None ^^ i) p) = MDone))"
proof -
  have ok: "pool_ok p" using pool_reach_ok [OF assms(3) new_pool_ok [OF assms(1,2)]] .
  then have "mset (wp_submitted p) = mset (wp_executed p) + pool_bag p" "main_ok (wp_main p) p" by (simp_all add: pool_ok_def)
  then show ?thesis using done_empty [OF ok] destructor_ends [OF ok] by (auto simp: exited_def main_step.simps)
qed

text \<open>
  Two tasks, two workers: worker 0 takes the first task from the global queue, republishes it, and is popping it when the destructor
  starts; the second is left to the destructor.
\<close>

definition pool_run :: "(nat option \<times> 'a option) list \<Rightarrow> 'a WorkerPool \<Rightarrow> 'a WorkerPool" where
  "pool_run acts p = fold (\<lambda>(w, call) e. case w of None \<Rightarrow> main_step False call e
     | Some tid \<Rightarrow> if tid < length (wp_workers e) then worker_step False tid e else e) acts p"

lemma pool_run_reach: "pool_reach p0 p \<Longrightarrow> pool_reach p0 (pool_run acts p)"
proof (induction acts arbitrary: p)
  case Nil
  then show ?case by (simp add: pool_run_def)
next
  case (Cons a acts)
  have "pool_reach p0 (case fst a of None \<Rightarrow> main_step False (snd a) p | Some tid \<Rightarrow> if tid < length (wp_workers p) then worker_step False tid p else p)"
    using Cons.prems by (auto intro: pool_reach.intros split: option.splits)
  from Cons.IH [OF this] show ?case by (simp add: pool_run_def case_prod_beta)
qed

definition sample_pool :: "nat WorkerPool" where
  "sample_pool = pool_run (replicate 5 (None, Some 7) @ replicate 5 (None, Some 8) @ replicate 17 (Some 0, None) @ replicate 2 (None, None) @
     replicate 7 (Some 0, None) @ [(Some 1, None)])
     (new_pool [0, 0] [0, 0] 2)"

lemma sample_pool_reach: "pool_reach (new_pool [0, 0] [0, 0] 2) sample_pool"
  unfolding sample_pool_def by (rule pool_run_reach [OF pool_reach.start])

lemma sample_pool_state: "wp_workers sample_pool = [WExit, WExit] \<and> wp_main sample_pool = MJoin 0 \<and> wp_submitted sample_pool = [7, 8] \<and> wp_executed sample_pool = [7]"
  by code_simp

theorem pool_runs_every_task_once_witness:
  "mset (wp_submitted sample_pool) = mset (wp_executed sample_pool) + pool_bag sample_pool \<and> wp_executed sample_pool = [7] \<and>
    (\<exists>i. wp_main ((main_step False None ^^ i) sample_pool) = MDone)"
  using pool_runs_every_task_once [of "[0, 0]" 1 "[0, 0]" 1 2 sample_pool] sample_pool_reach sample_pool_state by simp

end
