(* ===== verification/Ui_Hub.thy ===== *)
theory Ui_Hub
  imports Prelude "HOL-Library.Multiset"
begin

text \<open>
  The publish-subscribe hub behind the dashboard's event stream (\<open>UiGateway::SseHub\<close> in \<open>ui_gateway/ui_gateway.cpp\<close>): per topic the latest
  payload and a revision, per connection a cursor. Every call runs under the hub's mutex and is one action. The topics are an
  unordered map; its iteration order is that of the list here, and where a new topic comes to stand in it is given by \<open>arrange\<close>, a
  permutation.
\<close>

record 'p hub_entry =
  he_payload :: 'p
  he_revision :: u64

record 'p SseHub =
  sh_global_revision :: u64
  sh_topics :: "(string \<times> 'p hub_entry) list"

type_synonym hub_cursors = "string \<Rightarrow> u64"

definition new_hub :: "'p SseHub" where
  "new_hub = \<lparr>sh_global_revision = 0, sh_topics = []\<rparr>"

definition new_cursors :: hub_cursors where
  "new_cursors = (\<lambda>_. 0)"

fun assign_topic :: "string \<Rightarrow> 'e \<Rightarrow> (string \<times> 'e) list \<Rightarrow> (string \<times> 'e) list" where
  "assign_topic t e [] = []"
| "assign_topic t e ((u, f) # xs) = (if u = t then (u, e) # xs else (u, f) # assign_topic t e xs)"

definition hub_publish :: "((string \<times> 'p hub_entry) list \<Rightarrow> (string \<times> 'p hub_entry) list) \<Rightarrow> string \<Rightarrow> 'p \<Rightarrow> 'p SseHub \<Rightarrow> 'p SseHub" where
  "hub_publish arrange topic payload hub = (let
     revision = sh_global_revision hub + 1;
     entry = \<lparr>he_payload = payload, he_revision = revision\<rparr>
   in \<lparr>sh_global_revision = revision,
       sh_topics = (if topic \<in> fst ` set (sh_topics hub) then assign_topic topic entry (sh_topics hub) else arrange (sh_topics hub @ [(topic, entry)]))\<rparr>)"

text \<open>\<open>has_pending\<close> of \<open>wait_next\<close>: the first topic of the iteration that is newer than the connection's cursor.\<close>

fun ready_topic :: "hub_cursors \<Rightarrow> (string \<times> 'p hub_entry) list \<Rightarrow> (string \<times> 'p hub_entry) option" where
  "ready_topic cursors [] = None"
| "ready_topic cursors ((topic, entry) # xs) = (if he_revision entry > cursors topic then Some (topic, entry) else ready_topic cursors xs)"

definition hub_wait_next :: "'p SseHub \<Rightarrow> hub_cursors \<Rightarrow> 'p option \<times> hub_cursors" where
  "hub_wait_next hub cursors = (case ready_topic cursors (sh_topics hub) of
     None \<Rightarrow> (None, cursors)
   | Some (topic, entry) \<Rightarrow> (Some (he_payload entry), cursors(topic := he_revision entry)))"

subsection \<open>The invariant\<close>

definition hub_ok :: "'p SseHub \<Rightarrow> bool" where
  "hub_ok hub \<longleftrightarrow> distinct (map fst (sh_topics hub)) \<and> (\<forall>(t, e) \<in> set (sh_topics hub). he_revision e \<le> sh_global_revision hub)"

definition permutes :: "('e list \<Rightarrow> 'e list) \<Rightarrow> bool" where
  "permutes arrange \<longleftrightarrow> (\<forall>xs. mset (arrange xs) = mset xs)"

lemma permutesD: "permutes arrange \<Longrightarrow> set (arrange xs) = set xs \<and> length (arrange xs) = length xs \<and> (distinct (map f (arrange xs)) \<longleftrightarrow> distinct (map f xs))"
  unfolding permutes_def by (metis mset_eq_setD size_mset mset_map mset_eq_imp_distinct_iff)

lemma map_fst_assign [simp]: "map fst (assign_topic t e xs) = map fst xs"
  by (induction t e xs rule: assign_topic.induct) auto

lemma set_assign: "distinct (map fst xs) \<Longrightarrow> t \<in> fst ` set xs \<Longrightarrow> set (assign_topic t e xs) = insert (t, e) {x \<in> set xs. fst x \<noteq> t}"
proof (induction t e xs rule: assign_topic.induct)
  case (2 t e u f xs)
  then show ?case by (cases "u = t") (auto simp: image_iff)
qed auto

lemma new_hub_ok: "hub_ok new_hub"
  by (simp add: hub_ok_def new_hub_def)

lemma hub_publish_topics:
  assumes "distinct (map fst (sh_topics hub))" "permutes arrange"
  shows "distinct (map fst (sh_topics (hub_publish arrange t p hub)))"
    "set (sh_topics (hub_publish arrange t p hub)) =
       insert (t, \<lparr>he_payload = p, he_revision = sh_global_revision hub + 1\<rparr>) {x \<in> set (sh_topics hub). fst x \<noteq> t}"
proof -
  note d = assms(1)
  show "distinct (map fst (sh_topics (hub_publish arrange t p hub)))"
    using d permutesD [OF assms(2), where f = fst] by (auto simp: hub_publish_def Let_def)
  show "set (sh_topics (hub_publish arrange t p hub)) =
       insert (t, \<lparr>he_payload = p, he_revision = sh_global_revision hub + 1\<rparr>) {x \<in> set (sh_topics hub). fst x \<noteq> t}"
    using d permutesD [OF assms(2), where f = fst] by (auto simp: hub_publish_def Let_def set_assign image_iff)
qed

lemma unat_next: "w \<noteq> - 1 \<Longrightarrow> unat (w + 1) = Suc (unat w)" for w :: u64
  using unatSuc [of w] by (simp add: add.commute eq_neg_iff_add_eq_0)

lemma hub_publish_ok:
  assumes "hub_ok hub" "permutes arrange" "sh_global_revision hub \<noteq> - 1"
  shows "hub_ok (hub_publish arrange t p hub)"
proof -
  have up: "r \<le> sh_global_revision hub + 1" if "r \<le> sh_global_revision hub" for r
    using that unat_next [OF assms(3)] by (simp add: word_le_nat_alt)
  have rev: "sh_global_revision (hub_publish arrange t p hub) = sh_global_revision hub + 1" by (simp add: hub_publish_def Let_def)
  have "distinct (map fst (sh_topics hub))" using assms(1) by (simp add: hub_ok_def)
  from hub_publish_topics [OF this assms(2), of t p] show ?thesis using assms(1) up unfolding hub_ok_def rev by auto
qed

lemma map_of_cong_members:
  assumes "distinct (map fst xs)" "distinct (map fst ys)" "\<And>v. (k, v) \<in> set xs \<longleftrightarrow> (k, v) \<in> set ys"
  shows "map_of xs k = map_of ys k"
  using assms map_of_eq_Some_iff [of xs k] map_of_eq_Some_iff [of ys k] by (metis option.exhaust)

text \<open>The latest payload of each topic.\<close>

definition topic_payload :: "'p SseHub \<Rightarrow> string \<Rightarrow> 'p option" where
  "topic_payload hub t = map_option he_payload (map_of (sh_topics hub) t)"

lemma topic_payload_publish:
  assumes "distinct (map fst (sh_topics hub))" "permutes arrange"
  shows "topic_payload (hub_publish arrange t p hub) = (topic_payload hub)(t \<mapsto> p)"
proof
  fix u
  let ?hub = "hub_publish arrange t p hub"
  note P = hub_publish_topics [OF assms, of t p]
  have "map_of (sh_topics ?hub) t = Some \<lparr>he_payload = p, he_revision = sh_global_revision hub + 1\<rparr>"
    using P by (simp add: map_of_eq_Some_iff)
  moreover have "map_of (sh_topics ?hub) u = map_of (sh_topics hub) u" if u: "u \<noteq> t"
    using P assms(1) u by (intro map_of_cong_members) auto
  ultimately show "topic_payload ?hub u = ((topic_payload hub)(t \<mapsto> p)) u" by (simp add: topic_payload_def)
qed

subsection \<open>Delivery\<close>

text \<open>The calls of one connection while nothing is published: the payloads of \<open>n\<close> calls.\<close>

fun poll :: "nat \<Rightarrow> 'p SseHub \<Rightarrow> hub_cursors \<Rightarrow> 'p option list \<times> hub_cursors" where
  "poll 0 hub cursors = ([], cursors)"
| "poll (Suc n) hub cursors = (let (p, cursors') = hub_wait_next hub cursors; (ps, cursors'') = poll n hub cursors' in (p # ps, cursors''))"

definition pending :: "hub_cursors \<Rightarrow> 'p SseHub \<Rightarrow> (string \<times> 'p hub_entry) list" where
  "pending cursors hub = filter (\<lambda>(t, e). he_revision e > cursors t) (sh_topics hub)"

lemma ready_topic_pending: "ready_topic cursors xs = (case filter (\<lambda>(t, e). he_revision e > cursors t) xs of [] \<Rightarrow> None | x # _ \<Rightarrow> Some x)"
  by (induction cursors xs rule: ready_topic.induct) auto

lemma pending_advance:
  assumes "distinct (map fst (sh_topics hub))" "pending cursors hub = (t, e) # rest"
  shows "pending (cursors(t := he_revision e)) hub = rest"
proof -
  have "filter (\<lambda>(u, f). he_revision f > (cursors(t := he_revision e)) u) xs = rest"
    if "distinct (map fst xs)" "filter (\<lambda>(u, f). he_revision f > cursors u) xs = (t, e) # rest" for xs
    using that
  proof (induction xs)
    case (Cons x xs)
    obtain u f where x: "x = (u, f)" by fastforce
    show ?case
    proof (cases "he_revision f > cursors u")
      case True
      then have "u = t" "f = e" "filter (\<lambda>(u, f). he_revision f > cursors u) xs = rest" using Cons.prems(2) x by auto
      moreover have "filter (\<lambda>(u, f). he_revision f > (cursors(t := he_revision e)) u) xs = filter (\<lambda>(u, f). he_revision f > cursors u) xs"
        using Cons.prems(1) x \<open>u = t\<close> by (intro filter_cong) (auto simp: image_iff)
      ultimately show ?thesis using x by simp
    next
      case False
      then have "(t, e) \<in> set xs" using Cons.prems(2) x by (auto simp: filter_eq_Cons_iff)
      then have "u \<noteq> t" using Cons.prems(1) x by (auto simp: image_iff)
      then show ?thesis using False Cons x by simp
    qed
  qed simp
  then show ?thesis using assms unfolding pending_def by blast
qed

lemma poll_pending:
  "distinct (map fst (sh_topics hub)) \<Longrightarrow> pending cursors hub = xs \<Longrightarrow>
    fst (poll (length xs) hub cursors) = map (Some \<circ> he_payload \<circ> snd) xs \<and> pending (snd (poll (length xs) hub cursors)) hub = []"
proof (induction xs arbitrary: cursors)
  case (Cons x xs)
  obtain t e where x: "x = (t, e)" by fastforce
  have "hub_wait_next hub cursors = (Some (he_payload e), cursors(t := he_revision e))"
    using Cons.prems(2) x unfolding hub_wait_next_def ready_topic_pending pending_def by simp
  moreover have "pending (cursors(t := he_revision e)) hub = xs" using pending_advance [OF Cons.prems(1)] Cons.prems(2) x by simp
  note Cons.IH [OF Cons.prems(1) this]
  ultimately show ?case using x by (simp add: case_prod_beta del: fun_upd_apply)
qed simp

text \<open>
  While nothing is published, a connection's calls return the latest payload of every topic it has not seen, each once, after which there is
  nothing left to return.
\<close>

theorem hub_delivers_latest:
  assumes "hub_ok hub"
  shows "(let n = length (pending cursors hub) in n \<le> length (sh_topics hub) \<and>
    fst (poll n hub cursors) = map (Some \<circ> he_payload \<circ> snd) (pending cursors hub) \<and>
    hub_wait_next hub (snd (poll n hub cursors)) = (None, snd (poll n hub cursors)))"
proof -
  have d: "distinct (map fst (sh_topics hub))" using assms by (simp add: hub_ok_def)
  have "hub_wait_next hub c = (None, c)" if "pending c hub = []" for c
    using that unfolding hub_wait_next_def ready_topic_pending pending_def by simp
  then show ?thesis using poll_pending [OF d refl, of cursors] by (simp add: pending_def)
qed

fun rounds :: "((string \<times> 'p hub_entry) list \<Rightarrow> (string \<times> 'p hub_entry) list) \<Rightarrow> string \<Rightarrow> 'p list \<Rightarrow> 'p SseHub \<Rightarrow> hub_cursors \<Rightarrow>
  'p option list \<times> 'p SseHub \<times> hub_cursors" where
  "rounds arrange topic [] hub cursors = ([], hub, cursors)"
| "rounds arrange topic (p # ps) hub cursors = (let
     hub' = hub_publish arrange topic p hub;
     (q, cursors') = hub_wait_next hub' cursors;
     (qs, hub'', cursors'') = rounds arrange topic ps hub' cursors'
   in (q # qs, hub'', cursors''))"

lemma ready_first:
  assumes "sh_topics hub = (t, e) # rest" "cursors t \<le> sh_global_revision hub" "sh_global_revision hub \<noteq> - 1"
  shows "hub_wait_next (hub_publish arrange t p hub) cursors = (Some p, cursors(t := sh_global_revision hub + 1))"
proof -
  have "cursors t < sh_global_revision hub + 1" using assms(2) unat_next [OF assms(3)] by (simp add: word_le_nat_alt word_less_nat_alt)
  then show ?thesis using assms(1) by (simp add: hub_wait_next_def hub_publish_def Let_def)
qed

lemma rounds_starve:
  assumes "sh_topics hub = (t, e) # rest" "cursors t \<le> sh_global_revision hub" "unat (sh_global_revision hub) + length ps < 2 ^ 64"
  shows "fst (rounds arrange t ps hub cursors) = map Some ps \<and>
    (\<forall>u. u \<noteq> t \<longrightarrow> snd (snd (rounds arrange t ps hub cursors)) u = cursors u) \<and>
    (\<exists>e'. sh_topics (fst (snd (rounds arrange t ps hub cursors))) = (t, e') # rest)"
  using assms
proof (induction ps arbitrary: hub cursors e)
  case (Cons p ps)
  let ?r = "sh_global_revision hub + 1" and ?hub = "hub_publish arrange t p hub"
  have top: "sh_global_revision hub \<noteq> - 1"
  proof
    assume "sh_global_revision hub = - 1"
    then have "unat (sh_global_revision hub) = 2 ^ 64 - 1" by (simp add: unsigned_minus_1_eq_mask mask_eq_exp_minus_1)
    then show False using Cons.prems(3) by simp
  qed
  have hub': "sh_topics ?hub = (t, \<lparr>he_payload = p, he_revision = ?r\<rparr>) # rest" "sh_global_revision ?hub = ?r"
    using Cons.prems(1) by (simp_all add: hub_publish_def Let_def)
  have bound: "unat (sh_global_revision ?hub) + length ps < 2 ^ 64" using Cons.prems(3) unat_next [OF top] hub'(2) by simp
  define c where "c = cursors(t := ?r)"
  have c: "c t \<le> sh_global_revision ?hub" "\<And>u. u \<noteq> t \<Longrightarrow> c u = cursors u" using hub'(2) by (simp_all add: c_def)
  have "hub_wait_next ?hub cursors = (Some p, c)" using ready_first [of hub t e rest cursors, OF Cons.prems(1,2) top] by (simp add: c_def)
  then show ?case using Cons.IH [where cursors = c, OF hub'(1) c(1) bound] c(2) by (simp add: case_prod_beta Let_def)
qed auto

text \<open>
  While another topic that stands earlier in the iteration is published before every call, a topic is never delivered, however
  many calls the connection makes.
\<close>

theorem hub_can_starve_topic:
  assumes "sh_topics hub = (t, e) # rest" "(u, f) \<in> set rest" "u \<noteq> t" "he_revision f > cursors u"
    "cursors t \<le> sh_global_revision hub" "unat (sh_global_revision hub) + length ps < 2 ^ 64"
  shows "(case rounds arrange t ps hub cursors of (qs, hub', cursors') \<Rightarrow>
    qs = map Some ps \<and> (u, f) \<in> set (sh_topics hub') \<and> he_revision f > cursors' u)"
proof -
  obtain qs hub' cursors' where r: "rounds arrange t ps hub cursors = (qs, hub', cursors')" by (cases "rounds arrange t ps hub cursors") auto
  from rounds_starve [of hub t e rest cursors, OF assms(1,5,6), of arrange, unfolded r] show ?thesis using assms(2-4) r by auto
qed

text \<open>The feed of instrument 1 keeps the account's order update from the connection.\<close>

definition busy_hub :: "string SseHub" where
  "busy_hub = hub_publish (\<lambda>xs. xs) ''order:1001'' ''filled'' (hub_publish (\<lambda>xs. xs) ''book:1'' ''a'' new_hub)"

lemma busy_hub_ok: "hub_ok busy_hub"
  unfolding busy_hub_def by (intro hub_publish_ok new_hub_ok) (simp_all add: permutes_def hub_publish_def new_hub_def)

theorem hub_delivers_latest_witness:
  "fst (poll 2 busy_hub new_cursors) = [Some ''a'', Some ''filled''] \<and>
   hub_wait_next busy_hub (snd (poll 2 busy_hub new_cursors)) = (None, snd (poll 2 busy_hub new_cursors))"
proof -
  have "pending new_cursors busy_hub = [(''book:1'', \<lparr>he_payload = ''a'', he_revision = 1\<rparr>), (''order:1001'', \<lparr>he_payload = ''filled'', he_revision = 2\<rparr>)]"
    by (simp add: pending_def busy_hub_def new_cursors_def hub_publish_def new_hub_def Let_def)
  then show ?thesis using hub_delivers_latest [OF busy_hub_ok, of new_cursors] by (simp add: numeral_2_eq_2)
qed

theorem hub_can_starve_topic_witness:
  "fst (rounds (\<lambda>xs. xs) ''book:1'' [''b'', ''c'', ''d''] busy_hub new_cursors) = [Some ''b'', Some ''c'', Some ''d'']"
  using hub_can_starve_topic [of busy_hub "''book:1''" "\<lparr>he_payload = ''a'', he_revision = 1\<rparr>"
      "[(''order:1001'', \<lparr>he_payload = ''filled'', he_revision = 2\<rparr>)]" "''order:1001''" "\<lparr>he_payload = ''filled'', he_revision = 2\<rparr>"
      new_cursors "[''b'', ''c'', ''d'']" "\<lambda>xs. xs"]
  by (simp add: busy_hub_def new_cursors_def hub_publish_def new_hub_def Let_def split: prod.splits)

end
