(* ===== verification/Ui_Gateway.thy ===== *)
theory Ui_Gateway
  imports Ui_Hub Trader_Oms Market_Data_Replay
begin

text \<open>
  The dashboard's gateway (\<open>ui_gateway/ui_gateway.hpp\<close>, \<open>ui_gateway.cpp\<close>): one trading session per demo account, books rebuilt from the
  market-data datagrams, the REST handlers and the event stream. A handler, a message for a session and a batch of datagrams are one
  action each. The HTTP and JSON libraries are not part of the repository: a request carries what the HTTP library hands to the handler,
  reading the JSON of a body and the sockets behind a session are arguments (\<open>ui_env\<close>), and the JSON the handlers write is a
  value of type \<open>json\<close>, whose text form is the library's.
\<close>

subsection \<open>What the libraries provide\<close>

datatype json = JNull | JBool bool | JUInt nat | JInt int | JString string | JArray "json list" | JObject "(string \<times> json) list"

text \<open>
  \<open>'j\<close> is a parsed body. A \<open>None\<close> is an exception: the text is no JSON, a key is missing, a value has the wrong type. \<open>ue_sender\<close> and
  \<open>ue_connect\<close> are the client of a session, \<open>ue_listing\<close> the iteration over the orders of a session, a hash map, and
  \<open>ue_arrange\<close> that over the topics of the hub.
\<close>

record 'j ui_env =
  ue_parse :: "string \<Rightarrow> 'j option"
  ue_at :: "'j \<Rightarrow> string \<Rightarrow> 'j option"
  ue_contains :: "'j \<Rightarrow> string \<Rightarrow> bool"
  ue_get_u64 :: "'j \<Rightarrow> u64 option"
  ue_get_u32 :: "'j \<Rightarrow> u32 option"
  ue_get_i64 :: "'j \<Rightarrow> i64 option"
  ue_get_string :: "'j \<Rightarrow> string option"
  ue_sender :: "AccountId \<Rightarrow> Message \<Rightarrow> bool"
  ue_connect :: "AccountId \<Rightarrow> bool"
  ue_listing :: "(ClientOrderId \<rightharpoonup> ClientOrder) \<Rightarrow> ClientOrder list"
  ue_arrange :: "(string \<times> json hub_entry) list \<Rightarrow> (string \<times> json hub_entry) list"

text \<open>The captures of the path, the body, and the query parameter \<open>depth\<close> (empty when absent).\<close>

record http_request =
  rq_matches :: "string list"
  rq_body :: string
  rq_depth :: string

text \<open>The body of a response: none, JSON, or the event stream with the cursors its connection starts from.\<close>

datatype http_content = NoContent | JsonContent json | EventStream hub_cursors

record http_response =
  hr_status :: nat
  hr_headers :: "(string \<times> string) list"
  hr_content :: http_content

definition default_headers :: "(string \<times> string) list" where
  "default_headers = [(''Access-Control-Allow-Origin'', ''*'')]"

definition json_response :: "json \<Rightarrow> http_response" where
  "json_response content = \<lparr>hr_status = 200, hr_headers = default_headers, hr_content = JsonContent content\<rparr>"

text \<open>
  \<open>std::stoull\<close> of the standard library in base 10: leading white space and a sign are skipped, the digits that follow are read, what
  comes after them is ignored; no digit and a value beyond 64 bits are exceptions; a minus sign negates modulo \<open>2 ^ 64\<close>.
\<close>

definition is_space :: "char \<Rightarrow> bool" where
  "is_space c \<longleftrightarrow> of_char c \<in> {9, 10, 11, 12, 13, 32 :: nat}"

definition is_digit :: "char \<Rightarrow> bool" where
  "is_digit c \<longleftrightarrow> 48 \<le> (of_char c :: nat) \<and> (of_char c :: nat) \<le> 57"

definition digits_value :: "string \<Rightarrow> nat" where
  "digits_value ds = foldl (\<lambda>n c. 10 * n + (of_char c - 48)) 0 ds"

definition stoull :: "string \<Rightarrow> u64 option" where
  "stoull s = (let
     s1 = dropWhile is_space s;
     negative = (s1 \<noteq> [] \<and> hd s1 = CHR ''-'');
     s2 = (if s1 \<noteq> [] \<and> (hd s1 = CHR ''-'' \<or> hd s1 = CHR ''+'') then tl s1 else s1);
     ds = takeWhile is_digit s2;
     n = digits_value ds
   in if ds = [] \<or> n \<ge> 2 ^ 64 then None else Some (if negative then - of_nat n else of_nat n))"

subsection \<open>JSON of the program's values\<close>

fun side_to_string :: "Side \<Rightarrow> string" where
  "side_to_string Buy = ''Buy''"
| "side_to_string Sell = ''Sell''"

definition parse_side :: "string \<Rightarrow> Side option" where
  "parse_side text = (if text = ''Buy'' then Some Buy else if text = ''Sell'' then Some Sell else None)"

definition parse_time_in_force :: "string \<Rightarrow> TimeInForce option" where
  "parse_time_in_force text =
     (if text = ''GTC'' then Some GTC else if text = ''IOC'' then Some IOC else if text = ''FOK'' then Some FOK else None)"

fun pending_action_to_string :: "PendingAction \<Rightarrow> string" where
  "pending_action_to_string NoAction = ''None''"
| "pending_action_to_string PendingCancel = ''Cancel''"
| "pending_action_to_string PendingReplace = ''Replace''"

fun order_type_to_string :: "OrderType \<Rightarrow> string" where
  "order_type_to_string Limit = ''Limit''"

fun time_in_force_to_string :: "TimeInForce \<Rightarrow> string" where
  "time_in_force_to_string GTC = ''GTC''"
| "time_in_force_to_string IOC = ''IOC''"
| "time_in_force_to_string FOK = ''FOK''"

fun reject_reason_to_string :: "RejectReason \<Rightarrow> string" where
  "reject_reason_to_string NoReason = ''None''"
| "reject_reason_to_string InvalidPrice = ''InvalidPrice''"
| "reject_reason_to_string InvalidQuantity = ''InvalidQuantity''"
| "reject_reason_to_string DuplicateOrderId = ''DuplicateOrderId''"
| "reject_reason_to_string UnknownOrderId = ''UnknownOrderId''"
| "reject_reason_to_string InvalidInstrument = ''InvalidInstrument''"
| "reject_reason_to_string InsufficientLiquidity = ''InsufficientLiquidity''"
| "reject_reason_to_string InvalidReplacement = ''InvalidReplacement''"
| "reject_reason_to_string InternalError = ''InternalError''"
| "reject_reason_to_string InsufficientFunds = ''InsufficientFunds''"
| "reject_reason_to_string InsufficientPosition = ''InsufficientPosition''"
| "reject_reason_to_string OrderTooLarge = ''OrderTooLarge''"
| "reject_reason_to_string AccountMismatch = ''AccountMismatch''"

fun order_state_to_string :: "ClientOrderState \<Rightarrow> string" where
  "order_state_to_string PendingNew = ''PendingNew''"
| "order_state_to_string Live = ''Live''"
| "order_state_to_string PartiallyFilled = ''PartiallyFilled''"
| "order_state_to_string Filled = ''Filled''"
| "order_state_to_string StRejected = ''Rejected''"
| "order_state_to_string StCancelled = ''Cancelled''"
| "order_state_to_string StReplaced = ''Replaced''"

definition order_to_json :: "ClientOrder \<Rightarrow> json" where
  "order_to_json order = JObject
     [(''account_id'', JUInt (unat (cl_account_id order))),
      (''client_order_id'', JUInt (unat (cl_client_order_id order))),
      (''exchange_order_id'', case cl_exchange_order_id order of Some x \<Rightarrow> JUInt (unat x) | None \<Rightarrow> JNull),
      (''instrument_id'', JUInt (unat (cl_instrument_id order))),
      (''side'', JString (side_to_string (cl_side order))),
      (''price'', JInt (ival (cl_price order))),
      (''quantity'', JUInt (unat (cl_quantity order))),
      (''remaining_quantity'', JUInt (unat (cl_remaining_quantity order))),
      (''order_type'', JString (order_type_to_string (cl_order_type order))),
      (''time_in_force'', JString (time_in_force_to_string (cl_time_in_force order))),
      (''state'', JString (order_state_to_string (cl_state order))),
      (''pending_action'', JString (pending_action_to_string (cl_pending_action order))),
      (''last_reject_reason'', JString (reject_reason_to_string (cl_last_reject_reason order)))]"

definition level_to_json :: "PriceLevelView \<Rightarrow> json" where
  "level_to_json level = JObject
     [(''price'', JInt (ival (plv_price level))), (''quantity'', JUInt (unat (plv_aggregate_quantity level))),
      (''order_count'', JUInt (plv_order_count level))]"

definition instrument_id_of :: "Event \<Rightarrow> InstrumentId" where
  "instrument_id_of event = (case event of
     EvAdd msg \<Rightarrow> ao_instrument_id msg | EvCancel msg \<Rightarrow> co_instrument_id msg | EvModify msg \<Rightarrow> mo_instrument_id msg
   | EvTrade msg \<Rightarrow> tr_instrument_id msg | EvClear msg \<Rightarrow> cb_instrument_id msg)"

definition send_json_error :: "nat \<Rightarrow> string \<Rightarrow> http_response" where
  "send_json_error status error = \<lparr>hr_status = status, hr_headers = default_headers, hr_content = JsonContent (JObject [(''error'', JString error)])\<rparr>"

subsection \<open>The gateway\<close>

record UiGatewayOptions =
  uo_demo_account_ids :: "AccountId list"
  uo_demo_instrument_ids :: "InstrumentId list"
  uo_demo_starting_cash :: Balance
  uo_demo_starting_position :: Quantity
  uo_per_account_risk_limits :: TraderRiskLimits
  uo_book_depth :: nat

definition default_ui_options :: UiGatewayOptions where
  "default_ui_options = \<lparr>uo_demo_account_ids = [1001, 1002, 1003], uo_demo_instrument_ids = [1, 2], uo_demo_starting_cash = 10000000000,
     uo_demo_starting_position = 1000, uo_per_account_risk_limits = default_trader_limits, uo_book_depth = 10\<rparr>"

record Session =
  se_gated :: TraderRiskGatedOms
  se_connected :: bool

record UiGateway =
  ug_options :: UiGatewayOptions
  ug_sessions :: "AccountId \<rightharpoonup> Session"
  ug_market_data :: ReplayOutcome
  ug_validator :: SequenceValidator
  ug_hub :: "json SseHub"

definition new_ui_gateway :: "UiGatewayOptions \<Rightarrow> UiGateway" where
  "new_ui_gateway options = \<lparr>ug_options = options, ug_sessions = Map.empty, ug_market_data = new_outcome, ug_validator = None, ug_hub = new_hub\<rparr>"

definition new_session :: "'j ui_env \<Rightarrow> UiGatewayOptions \<Rightarrow> AccountId \<Rightarrow> Session" where
  "new_session env options account_id = (let
     gated = new_gated_oms account_id (uo_per_account_risk_limits options);
     gated = tg_deposit_cash (uo_demo_starting_cash options) gated;
     gated = fold (\<lambda>instrument_id g. tg_deposit_position instrument_id (uo_demo_starting_position options) g) (uo_demo_instrument_ids options) gated
   in \<lparr>se_gated = gated, se_connected = ue_connect env account_id\<rparr>)"

definition find_or_create_session :: "'j ui_env \<Rightarrow> AccountId \<Rightarrow> UiGateway \<Rightarrow> (UiGateway \<times> Session) option" where
  "find_or_create_session env account_id u = (case ug_sessions u account_id of
     Some session \<Rightarrow> Some (u, session)
   | None \<Rightarrow>
       if account_id \<notin> set (uo_demo_account_ids (ug_options u)) then None
       else let session = new_session env (ug_options u) account_id in
         Some (u\<lparr>ug_sessions := (ug_sessions u)(account_id \<mapsto> session)\<rparr>, session))"

definition set_session :: "AccountId \<Rightarrow> Session \<Rightarrow> UiGateway \<Rightarrow> UiGateway" where
  "set_session account_id session u = u\<lparr>ug_sessions := (ug_sessions u)(account_id \<mapsto> session)\<rparr>"

definition order_event :: "AccountId \<Rightarrow> ClientOrder \<Rightarrow> json" where
  "order_event account_id order =
     JObject [(''type'', JString ''order''), (''account_id'', JUInt (unat account_id)), (''order'', order_to_json order)]"

definition broadcast_order :: "'j ui_env \<Rightarrow> AccountId \<Rightarrow> ClientOrder \<Rightarrow> UiGateway \<Rightarrow> UiGateway" where
  "broadcast_order env account_id order u =
     u\<lparr>ug_hub := hub_publish (ue_arrange env) (''order:'' @ decimal account_id) (order_event account_id order) (ug_hub u)\<rparr>"

text \<open>The order updates a call of the session's order management system hands to the sink.\<close>

fun broadcast_updates :: "'j ui_env \<Rightarrow> AccountId \<Rightarrow> oms_output list \<Rightarrow> UiGateway \<Rightarrow> UiGateway" where
  "broadcast_updates env account_id [] u = u"
| "broadcast_updates env account_id (Updated order # outs) u = broadcast_updates env account_id outs (broadcast_order env account_id order u)"
| "broadcast_updates env account_id (Filling fill # outs) u = broadcast_updates env account_id outs u"

definition book_levels :: "nat \<Rightarrow> InstrumentId \<Rightarrow> UiGateway \<Rightarrow> (string \<times> json) list" where
  "book_levels depth instrument_id u = (case find_book instrument_id (rp_books (ug_market_data u)) of
     None \<Rightarrow> [(''bids'', JArray []), (''asks'', JArray [])]
   | Some book \<Rightarrow> [(''bids'', JArray (map level_to_json (ob_top_bids depth book))), (''asks'', JArray (map level_to_json (ob_top_asks depth book)))])"

definition book_event :: "InstrumentId \<Rightarrow> UiGateway \<Rightarrow> json" where
  "book_event instrument_id u = JObject ([(''type'', JString ''book''), (''instrument_id'', JUInt (unat instrument_id))] @
     book_levels (uo_book_depth (ug_options u)) instrument_id u)"

definition broadcast_book :: "'j ui_env \<Rightarrow> InstrumentId \<Rightarrow> UiGateway \<Rightarrow> UiGateway" where
  "broadcast_book env instrument_id u =
     u\<lparr>ug_hub := hub_publish (ue_arrange env) (''book:'' @ decimal_nat (unat instrument_id)) (book_event instrument_id u) (ug_hub u)\<rparr>"

subsection \<open>The market-data thread\<close>

definition default_replay_options :: ReplayOptions where
  "default_replay_options = \<lparr>rp_stop_on_sequence_error = True, rp_stop_on_decode_error = True, rp_recovery_snapshot_path = None\<rparr>"

text \<open>The frames of a datagram: the instruments touched are collected, and whether the replay engine asks to stop is ignored.\<close>

fun apply_frames :: "(DecodeError + Event) list \<Rightarrow> InstrumentId list \<Rightarrow> UiGateway \<Rightarrow> (InstrumentId list \<times> UiGateway) option" where
  "apply_frames [] touched u = Some (touched, u)"
| "apply_frames (frame # frames) touched u = (
     let touched' = (case frame of Inr event \<Rightarrow> touched @ [instrument_id_of event] | Inl _ \<Rightarrow> touched) in
     case apply_frame_result Map.empty frame (ug_validator u) default_replay_options (ug_market_data u) of
       None \<Rightarrow> None
     | Some (_, validator, outcome) \<Rightarrow> apply_frames frames touched' (u\<lparr>ug_validator := validator, ug_market_data := outcome\<rparr>))"

fun apply_datagrams :: "byte list list \<Rightarrow> InstrumentId list \<Rightarrow> UiGateway \<Rightarrow> (InstrumentId list \<times> UiGateway) option" where
  "apply_datagrams [] touched u = Some (touched, u)"
| "apply_datagrams (datagram # batch) touched u = (case unpack_frames datagram of
     Inl _ \<Rightarrow> apply_datagrams batch touched u
   | Inr packet \<Rightarrow> (case apply_frames (up_frames packet) touched u of
       None \<Rightarrow> None
     | Some (touched', u') \<Rightarrow> apply_datagrams batch touched' u'))"

text \<open>One round of \<open>market_data_loop\<close> with the datagrams \<open>receive_batch\<close> returned.\<close>

definition market_data_round :: "'j ui_env \<Rightarrow> byte list list \<Rightarrow> UiGateway \<Rightarrow> UiGateway option" where
  "market_data_round env batch u = (case apply_datagrams batch [] u of
     None \<Rightarrow> None
   | Some (touched, u') \<Rightarrow> Some (fold (broadcast_book env) (remdups_adj (sort touched)) u'))"

fun market_data_loop :: "'j ui_env \<Rightarrow> byte list list list \<Rightarrow> UiGateway \<Rightarrow> UiGateway option" where
  "market_data_loop env [] u = Some u"
| "market_data_loop env (batch # batches) u = Option.bind (market_data_round env batch u) (market_data_loop env batches)"

subsection \<open>The handlers\<close>

definition handle_health :: http_response where
  "handle_health = json_response (JObject [(''status'', JString ''ok'')])"

definition handle_list_accounts :: "UiGateway \<Rightarrow> http_response" where
  "handle_list_accounts u =
     json_response (JObject [(''account_ids'', JArray (map (\<lambda>a. JUInt (unat a)) (uo_demo_account_ids (ug_options u))))])"

definition bad_request :: http_response where
  "bad_request = send_json_error 400 ''bad_request''"

definition unknown_account :: http_response where
  "unknown_account = send_json_error 404 ''unknown_account''"

definition account_json :: "'j ui_env \<Rightarrow> AccountId \<Rightarrow> Session \<Rightarrow> UiGateway \<Rightarrow> json" where
  "account_json env account_id session u = JObject
     [(''account_id'', JUInt (unat account_id)),
      (''cash'', JInt (ival (tg_cash (se_gated session)))),
      (''positions'', JArray (map (\<lambda>i. JObject [(''instrument_id'', JUInt (unat i)), (''quantity'', JUInt (unat (tg_position i (se_gated session))))])
         (uo_demo_instrument_ids (ug_options u)))),
      (''orders'', JArray (map order_to_json (ue_listing env (om_orders (tg_oms (se_gated session))))))]"

definition handle_get_account :: "'j ui_env \<Rightarrow> http_request \<Rightarrow> UiGateway \<Rightarrow> UiGateway \<times> http_response" where
  "handle_get_account env req u = (case stoull (rq_matches req ! 0) of
     None \<Rightarrow> (u, bad_request)
   | Some account_id \<Rightarrow> (case find_or_create_session env account_id u of
       None \<Rightarrow> (u, unknown_account)
     | Some (u', session) \<Rightarrow> (u', json_response (account_json env account_id session u'))))"

text \<open>\<open>std::stoul\<close> reads a 64-bit \<open>unsigned long\<close>, of which the cast to \<open>InstrumentId\<close> keeps 32 bits.\<close>

definition handle_get_book :: "http_request \<Rightarrow> UiGateway \<Rightarrow> http_response" where
  "handle_get_book req u = (case stoull (rq_matches req ! 0) of
     None \<Rightarrow> bad_request
   | Some n \<Rightarrow>
       let instrument_id = (ucast n :: InstrumentId) in
       case (if rq_depth req = [] then Some (uo_book_depth (ug_options u)) else map_option unat (stoull (rq_depth req))) of
         None \<Rightarrow> bad_request
       | Some depth \<Rightarrow> json_response (JObject ((''instrument_id'', JUInt (unat instrument_id)) # book_levels depth instrument_id u)))"

text \<open>The values of an order the body of a request carries: an exception, an error to report, or the order.\<close>

definition body_value :: "'j ui_env \<Rightarrow> 'j \<Rightarrow> string \<Rightarrow> ('j \<Rightarrow> 'v option) \<Rightarrow> 'v option" where
  "body_value env body key get = Option.bind (ue_at env body key) get"

definition read_order :: "'j ui_env \<Rightarrow> 'j \<Rightarrow> http_response + Side \<times> TimeInForce \<times> InstrumentId \<times> Price \<times> Quantity" where
  "read_order env body = (case body_value env body ''side'' (ue_get_string env) of
     None \<Rightarrow> Inl bad_request
   | Some text \<Rightarrow> (case parse_side text of
       None \<Rightarrow> Inl (send_json_error 400 ''invalid_side'')
     | Some sd \<Rightarrow> (case (if ue_contains env body ''time_in_force''
           then map_option parse_time_in_force (body_value env body ''time_in_force'' (ue_get_string env)) else Some (Some GTC)) of
         None \<Rightarrow> Inl bad_request
       | Some None \<Rightarrow> Inl (send_json_error 400 ''invalid_time_in_force'')
       | Some (Some tif) \<Rightarrow> (case (body_value env body ''instrument_id'' (ue_get_u32 env), body_value env body ''price'' (ue_get_i64 env),
             body_value env body ''quantity'' (ue_get_u64 env)) of
           (Some i, Some p, Some q) \<Rightarrow> Inr (sd, tif, i, p, q)
         | _ \<Rightarrow> Inl bad_request))))"

definition submit_updates :: "(Message \<Rightarrow> bool) \<Rightarrow> InstrumentId \<Rightarrow> Side \<Rightarrow> Price \<Rightarrow> Quantity \<Rightarrow> TimeInForce \<Rightarrow> TraderRiskGatedOms \<Rightarrow> oms_output list" where
  "submit_updates sender i sd p q tif g =
     (if trader_check (tg_limits g) (tg_account_id g) i sd p q (tg_positions g) \<noteq> NoReason then []
      else snd (snd (submit_new_order sender i sd p q Limit tif (tg_oms g))))"

definition outcome_json :: "SubmitOutcome \<Rightarrow> json" where
  "outcome_json outcome = JObject (case so_client_order_id outcome of
     Some x \<Rightarrow> [(''accepted'', JBool True), (''client_order_id'', JUInt (unat x))]
   | None \<Rightarrow> [(''accepted'', JBool False), (''reject_reason'', JString (reject_reason_to_string (so_local_reject_reason outcome)))])"

definition handle_submit_order :: "'j ui_env \<Rightarrow> http_request \<Rightarrow> UiGateway \<Rightarrow> UiGateway \<times> http_response" where
  "handle_submit_order env req u = (case ue_parse env (rq_body req) of
     None \<Rightarrow> (u, bad_request)
   | Some body \<Rightarrow> (case body_value env body ''account_id'' (ue_get_u64 env) of
       None \<Rightarrow> (u, bad_request)
     | Some account_id \<Rightarrow> (case find_or_create_session env account_id u of
         None \<Rightarrow> (u, unknown_account)
       | Some (u', session) \<Rightarrow> (case read_order env body of
           Inl response \<Rightarrow> (u', response)
         | Inr (sd, tif, i, p, q) \<Rightarrow>
             let sender = ue_sender env account_id; g = se_gated session;
               (g', outcome) = tg_submit_new_order sender i sd p q Limit tif g;
               u'' = set_session account_id (session\<lparr>se_gated := g'\<rparr>) u'
             in (broadcast_updates env account_id (submit_updates sender i sd p q tif g) u'', json_response (outcome_json outcome))))))"

definition handle_cancel_order :: "'j ui_env \<Rightarrow> http_request \<Rightarrow> UiGateway \<Rightarrow> UiGateway \<times> http_response" where
  "handle_cancel_order env req u = (case (stoull (rq_matches req ! 0), stoull (rq_matches req ! 1)) of
     (Some account_id, Some client_order_id) \<Rightarrow> (case find_or_create_session env account_id u of
       None \<Rightarrow> (u, unknown_account)
     | Some (u', session) \<Rightarrow>
         let (g', ok) = tg_cancel_order (ue_sender env account_id) client_order_id (se_gated session) in
         (set_session account_id (session\<lparr>se_gated := g'\<rparr>) u', json_response (JObject [(''ok'', JBool ok)])))
   | _ \<Rightarrow> (u, bad_request))"

definition handle_replace_order :: "'j ui_env \<Rightarrow> http_request \<Rightarrow> UiGateway \<Rightarrow> UiGateway \<times> http_response" where
  "handle_replace_order env req u = (case (stoull (rq_matches req ! 0), stoull (rq_matches req ! 1)) of
     (Some account_id, Some client_order_id) \<Rightarrow> (case find_or_create_session env account_id u of
       None \<Rightarrow> (u, unknown_account)
     | Some (u', session) \<Rightarrow> (case ue_parse env (rq_body req) of
         None \<Rightarrow> (u', bad_request)
       | Some body \<Rightarrow> (case (body_value env body ''new_price'' (ue_get_i64 env), body_value env body ''new_quantity'' (ue_get_u64 env)) of
           (Some new_price, Some new_quantity) \<Rightarrow>
             let (g', n) = tg_replace_order (ue_sender env account_id) client_order_id new_price new_quantity (se_gated session) in
             (set_session account_id (session\<lparr>se_gated := g'\<rparr>) u',
              json_response (JObject ((''ok'', JBool (n \<noteq> None)) # (case n of Some x \<Rightarrow> [(''new_client_order_id'', JUInt (unat x))] | None \<Rightarrow> []))))
         | _ \<Rightarrow> (u', bad_request))))
   | _ \<Rightarrow> (u, bad_request))"

text \<open>A report of the exchange for a session, on the reader thread of its client.\<close>

definition session_message :: "'j ui_env \<Rightarrow> AccountId \<Rightarrow> Message \<Rightarrow> UiGateway \<Rightarrow> UiGateway" where
  "session_message env account_id message u = (case ug_sessions u account_id of
     None \<Rightarrow> u
   | Some session \<Rightarrow> broadcast_updates env account_id (snd (handle_message message (tg_oms (se_gated session))))
       (set_session account_id (session\<lparr>se_gated := tg_handle_message message (se_gated session)\<rparr>) u))"

text \<open>\<open>handle_stream\<close> installs a content provider over fresh cursors; one call of it, with the cursors of its connection.\<close>

definition handle_stream :: http_response where
  "handle_stream = \<lparr>hr_status = 200, hr_headers = default_headers, hr_content = EventStream new_cursors\<rparr>"

datatype stream_chunk = StreamDone | KeepAlive | StreamData json

definition stream_provider :: "bool \<Rightarrow> UiGateway \<Rightarrow> hub_cursors \<Rightarrow> stream_chunk \<times> hub_cursors" where
  "stream_provider connection_closed u cursors =
     (if connection_closed then (StreamDone, cursors)
      else case hub_wait_next (ug_hub u) cursors of
        (None, cursors') \<Rightarrow> (KeepAlive, cursors')
      | (Some payload, cursors') \<Rightarrow> (StreamData payload, cursors'))"

text \<open>The preflight requests of browsers.\<close>

definition handle_options :: http_response where
  "handle_options = \<lparr>hr_status = 204, hr_headers = default_headers @ [(''Access-Control-Allow-Methods'', ''GET, POST, OPTIONS''),
     (''Access-Control-Allow-Headers'', ''Content-Type'')], hr_content = NoContent\<rparr>"

text \<open>
  The routes the constructor registers, and what their patterns match with which captures. Any other request is answered by the HTTP library, with a file of
  \<open>static_files_dir\<close> or an error of its own.
\<close>

datatype ui_route = OptionsAny | GetHealth | GetAccounts | GetAccount | GetBook | PostOrder | PostCancel | PostReplace | GetStream

definition strip_prefix :: "string \<Rightarrow> string \<Rightarrow> string option" where
  "strip_prefix pre path = (if take (length pre) path = pre then Some (drop (length pre) path) else None)"

text \<open>The capture \<open>(\\d+)\<close> at the front of a text, with what follows it.\<close>

definition take_number :: "string \<Rightarrow> (string \<times> string) option" where
  "take_number text = (if takeWhile is_digit text = [] then None else Some (takeWhile is_digit text, dropWhile is_digit text))"

definition match_number :: "string \<Rightarrow> string \<Rightarrow> string list option" where
  "match_number pre path = (case Option.bind (strip_prefix pre path) take_number of Some (n, []) \<Rightarrow> Some [n] | _ \<Rightarrow> None)"

definition match_order_action :: "string \<Rightarrow> string \<Rightarrow> string list option" where
  "match_order_action action path = (case Option.bind (strip_prefix ''/api/orders/'' path) take_number of
     Some (account, rest) \<Rightarrow> (case Option.bind (strip_prefix ''/'' rest) take_number of
       Some (order, rest') \<Rightarrow> if rest' = action then Some [account, order] else None
     | None \<Rightarrow> None)
   | None \<Rightarrow> None)"

definition route_of :: "string \<Rightarrow> string \<Rightarrow> (ui_route \<times> string list) option" where
  "route_of meth path =
     (if meth = ''OPTIONS'' then Some (OptionsAny, [])
      else if meth = ''GET'' then
        (if path = ''/api/health'' then Some (GetHealth, [])
         else if path = ''/api/accounts'' then Some (GetAccounts, [])
         else if path = ''/api/stream'' then Some (GetStream, [])
         else case match_number ''/api/accounts/'' path of
           Some ms \<Rightarrow> Some (GetAccount, ms)
         | None \<Rightarrow> map_option (Pair GetBook) (match_number ''/api/book/'' path))
      else if meth = ''POST'' then
        (if path = ''/api/orders'' then Some (PostOrder, [])
         else case match_order_action ''/cancel'' path of
           Some ms \<Rightarrow> Some (PostCancel, ms)
         | None \<Rightarrow> map_option (Pair PostReplace) (match_order_action ''/replace'' path))
      else None)"

fun ui_handle :: "'j ui_env \<Rightarrow> ui_route \<Rightarrow> http_request \<Rightarrow> UiGateway \<Rightarrow> UiGateway \<times> http_response" where
  "ui_handle env OptionsAny req u = (u, handle_options)"
| "ui_handle env GetHealth req u = (u, handle_health)"
| "ui_handle env GetAccounts req u = (u, handle_list_accounts u)"
| "ui_handle env GetAccount req u = handle_get_account env req u"
| "ui_handle env GetBook req u = (u, handle_get_book req u)"
| "ui_handle env PostOrder req u = handle_submit_order env req u"
| "ui_handle env PostCancel req u = handle_cancel_order env req u"
| "ui_handle env PostReplace req u = handle_replace_order env req u"
| "ui_handle env GetStream req u = (u, handle_stream)"

definition ui_serve :: "'j ui_env \<Rightarrow> string \<Rightarrow> string \<Rightarrow> string \<Rightarrow> string \<Rightarrow> UiGateway \<Rightarrow> (UiGateway \<times> http_response) option" where
  "ui_serve env meth path body query u = map_option (\<lambda>(route, matches). ui_handle env route \<lparr>rq_matches = matches, rq_body = body, rq_depth = query\<rparr> u)
     (route_of meth path)"

end
