(* ===== verification/Ui_Properties.thy ===== *)
theory Ui_Properties
  imports Ui_Gateway Market_Data_Feed
begin

text \<open>
  What the dashboard is told: the wiring of \<open>apps/trading_server\<close> from the exchange's events to datagrams, the market-data
  thread of the UI gateway, and the REST and stream views of the books. Then the requests: what each can change, and
  what a refused one leaves alone.
\<close>

subsection \<open>The sink of the trading server\<close>

record TradingServer =
  ts_publisher :: MarketDataPublisher
  ts_next_packet_sequence :: u64

definition new_trading_server :: TradingServer where
  "new_trading_server = \<lparr>ts_publisher = new_publisher, ts_next_packet_sequence = 1\<rparr>"

definition extra_event_sink :: "(Sequence \<Rightarrow> Timestamp) \<Rightarrow> ExchangeEvent \<Rightarrow> TradingServer \<Rightarrow> TradingServer \<times> byte list list" where
  "extra_event_sink clock event s = (case publish clock event (ts_publisher s) of
     (pub, None) \<Rightarrow> (s\<lparr>ts_publisher := pub\<rparr>, [])
   | (pub, Some wire_event) \<Rightarrow>
       (\<lparr>ts_publisher = pub, ts_next_packet_sequence = ts_next_packet_sequence s + 1\<rparr>, [pack_frames (ts_next_packet_sequence s) [wire_event]]))"

fun server_datagrams :: "(Sequence \<Rightarrow> Timestamp) \<Rightarrow> ExchangeEvent list \<Rightarrow> TradingServer \<Rightarrow> byte list list" where
  "server_datagrams clock [] s = []"
| "server_datagrams clock (ev # evs) s = (let (s', ds) = extra_event_sink clock ev s in ds @ server_datagrams clock evs s')"

definition carries :: "byte list list \<Rightarrow> Event list \<Rightarrow> bool" where
  "carries ds feed = list_all2 (\<lambda>d ev. \<exists>n. d = pack_frames n [ev]) ds feed"

lemma server_carries: "publish_all clock evs (ts_publisher s) = (pub, feed) \<Longrightarrow> carries (server_datagrams clock evs s) feed"
proof (induction evs arbitrary: s pub feed)
  case (Cons ev evs)
  obtain pub1 msg where 1: "publish clock ev (ts_publisher s) = (pub1, msg)" by fastforce
  obtain msgs where 2: "publish_all clock evs pub1 = (pub, msgs)" "feed = (case msg of None \<Rightarrow> [] | Some m \<Rightarrow> [m]) @ msgs"
    using Cons.prems 1 by (auto split: prod.splits)
  show ?case
  proof (cases msg)
    case None
    then show ?thesis using Cons.IH [of "s\<lparr>ts_publisher := pub1\<rparr>" pub msgs] 1 2 by (simp add: extra_event_sink_def)
  next
    case (Some m)
    then show ?thesis
      using Cons.IH [of "\<lparr>ts_publisher = pub1, ts_next_packet_sequence = ts_next_packet_sequence s + 1\<rparr>" pub msgs] 1 2
      by (auto simp: extra_event_sink_def carries_def)
  qed
qed (simp add: carries_def)

lemma unpack_single: "\<exists>p. unpack_frames (pack_frames n [ev]) = Inr p \<and> up_frames p = [Inr ev]"
proof -
  have "length (event_frame ev) < 2 ^ 32" using event_frames_size [of "[ev]"] by simp
  moreover have "decode_event (event_frame ev) = Inr ev" using well_framed_event [OF event_frame_well_framed] by simp
  ultimately show ?thesis
    unfolding unpack_iff pack_frames_bytes by (intro exI [of _ "_ :: UnpackedPacket"] conjI exI [of _ "[event_frame ev]"]) (auto simp: event_frame_well_framed)
qed

subsection \<open>The market-data thread applies the feed\<close>

lemma omap_put_other: "j \<noteq> k \<Longrightarrow> map_of (omap_put k v m) j = map_of m j"
  by (induction k v m rule: omap_put.induct) auto

lemma on_book_others: "on_book i f m = Some (m', err) \<Longrightarrow> j \<noteq> i \<Longrightarrow> find_book j m' = find_book j m"
  by (auto simp: on_book_def bm_book_for_def find_book_def omap_put_other split: option.splits prod.splits bind_splits)

lemma apply_event_others:
  assumes "apply_event ev m st = Some (m', st')" "j \<noteq> instrument_id_of ev"
  shows "find_book j m' = find_book j m"
  using assms by (cases ev) (auto simp: Let_def instrument_id_of_def record_trade_def find_book_def [of j "_\<lparr>bm_stats := _\<rparr>"] find_book_def dest: on_book_others split: bind_splits)

lemma process_event_others:
  assumes "process_event ev out = Some out'" "j \<noteq> instrument_id_of ev"
  shows "find_book j (rp_books out') = find_book j (rp_books out)"
  using assms by (auto simp: process_event_def Let_def add_stats_def dest!: apply_event_others [OF _ assms(2)] split: bind_splits)

lemma apply_frame_in_order:
  assumes "case v of None \<Rightarrow> True | Some l \<Rightarrow> sequence_of ev = l + 1"
  shows "apply_frame_result fs (Inr ev) v options out = map_option (\<lambda>out'. (False, Some (sequence_of ev), out')) (process_event ev out)"
  using assms by (auto simp: apply_frame_result_def sequence_check_def split: option.splits)

text \<open>The state between two datagrams: everything but the market data is as before.\<close>

definition with_market_data :: "SequenceValidator \<Rightarrow> ReplayOutcome \<Rightarrow> UiGateway \<Rightarrow> UiGateway" where
  "with_market_data v out u = u\<lparr>ug_validator := v, ug_market_data := out\<rparr>"

lemma datagrams_applied:
  assumes "carries ds feed" "gapless (ug_validator u) feed" "manager_entries (rp_books (ug_market_data u)) es"
  shows "\<exists>out. apply_datagrams ds touched u = Some (touched @ map instrument_id_of feed, with_market_data (after_events (ug_validator u) feed) out u) \<and>
    manager_entries (rp_books out) (fold spec_event feed es) \<and>
    (\<forall>j. j \<notin> instrument_id_of ` set feed \<longrightarrow> find_book j (rp_books out) = find_book j (rp_books (ug_market_data u)))"
  using assms
proof (induction ds arbitrary: feed u es touched)
  case Nil
  then show ?case by (intro exI [of _ "ug_market_data u"]) (auto simp: carries_def with_market_data_def after_events_def)
next
  case (Cons d ds)
  obtain ev n feed' where d: "feed = ev # feed'" "d = pack_frames n [ev]" "carries ds feed'"
    using Cons.prems(1) by (auto simp: carries_def list_all2_Cons1)
  obtain p where p: "unpack_frames d = Inr p" "up_frames p = [Inr ev]" using unpack_single d(2) by blast
  obtain out1 where out1: "process_event ev (ug_market_data u) = Some out1" "manager_entries (rp_books out1) (spec_event ev es)"
    using process_event_entries [OF Cons.prems(3), of ev] by blast
  let ?u = "with_market_data (Some (sequence_of ev)) out1 u"
  have "apply_frames (up_frames p) touched u = Some (touched @ [instrument_id_of ev], ?u)"
    using apply_frame_in_order [where v = "ug_validator u" and ev = ev] Cons.prems(2) d(1) p(2) out1(1) by (simp add: with_market_data_def)
  moreover obtain out where out: "apply_datagrams ds (touched @ [instrument_id_of ev]) ?u =
      Some ((touched @ [instrument_id_of ev]) @ map instrument_id_of feed', with_market_data (after_events (ug_validator ?u) feed') out ?u)"
    "manager_entries (rp_books out) (fold spec_event feed' (spec_event ev es))"
    "\<forall>j. j \<notin> instrument_id_of ` set feed' \<longrightarrow> find_book j (rp_books out) = find_book j (rp_books (ug_market_data ?u))"
    using Cons.IH [OF d(3), of ?u "spec_event ev es" "touched @ [instrument_id_of ev]"] Cons.prems(2) d(1) out1(2)
    by (auto simp: with_market_data_def)
  moreover have "after_events (ug_validator ?u) feed' = after_events (ug_validator u) feed" by (simp add: after_events_def with_market_data_def d(1))
  ultimately show ?case using p(1) d(1) process_event_others [OF out1(1)]
    by (intro exI [of _ out]) (auto simp: with_market_data_def)
qed

subsection \<open>Numbers as text\<close>

lemma of_char_digit [simp]: "n < 10 \<Longrightarrow> (of_char (char_of (48 + n) :: char) :: nat) = 48 + n"
  by simp

lemma decimal_nat_digits: "c \<in> set (decimal_nat n) \<Longrightarrow> is_digit c"
  by (induction n arbitrary: c rule: decimal_nat.induct) (subst (asm) decimal_nat.simps, auto simp: is_digit_def split: if_splits)

lemma decimal_nat_nonempty: "decimal_nat n \<noteq> []"
  by (subst decimal_nat.simps) simp

lemma digits_value_append [simp]: "digits_value (ds @ [c]) = 10 * digits_value ds + (of_char c - 48)"
  by (simp add: digits_value_def)

lemma digits_value_decimal [simp]: "digits_value (decimal_nat n) = n"
proof (induction n rule: decimal_nat.induct)
  case (1 n)
  have single: "digits_value [c] = of_char c - 48" for c by (simp add: digits_value_def)
  show ?case using 1 by (subst decimal_nat.simps) (auto simp: single)
qed

lemma decimal_nat_inj: "decimal_nat m = decimal_nat n \<Longrightarrow> m = n"
  by (metis digits_value_decimal)

lemma stoull_decimal: "n < 2 ^ 64 \<Longrightarrow> stoull (decimal_nat n) = Some (of_nat n)"
proof -
  assume n: "n < 2 ^ 64"
  obtain c cs where c: "decimal_nat n = c # cs" using decimal_nat_nonempty by (cases "decimal_nat n") auto
  then have d: "is_digit c" using decimal_nat_digits [of c n] by simp
  then have "\<not> is_space c" "c \<noteq> CHR ''-''" "c \<noteq> CHR ''+''" by (auto simp: is_digit_def is_space_def)
  moreover have "takeWhile is_digit (decimal_nat n) = decimal_nat n" using decimal_nat_digits by (simp add: takeWhile_eq_all_conv)
  ultimately show ?thesis using n c digits_value_decimal [of n] unfolding stoull_def by (simp add: Let_def)
qed

subsection \<open>The books on the event stream\<close>

definition book_topic :: "InstrumentId \<Rightarrow> string" where
  "book_topic i = ''book:'' @ decimal_nat (unat i)"

lemma book_topic_inj: "book_topic i = book_topic j \<longleftrightarrow> i = j"
  by (auto simp: book_topic_def word_unat_eq_iff dest!: decimal_nat_inj)

lemma broadcast_book_simps [simp]:
  "ug_options (broadcast_book env i u) = ug_options u" "ug_market_data (broadcast_book env i u) = ug_market_data u"
  "ug_validator (broadcast_book env i u) = ug_validator u" "book_event j (broadcast_book env i u) = book_event j u"
  by (simp_all add: broadcast_book_def book_event_def book_levels_def)

lemma broadcast_books:
  fixes ids :: "InstrumentId list"
  assumes "distinct (map fst (sh_topics (ug_hub u)))" "permutes (ue_arrange env)"
  defines "u' \<equiv> fold (broadcast_book env) ids u"
  shows "distinct (map fst (sh_topics (ug_hub u'))) \<and> ug_options u' = ug_options u \<and> ug_market_data u' = ug_market_data u \<and> ug_validator u' = ug_validator u \<and>
    (\<forall>i. book_event i u' = book_event i u) \<and>
    (\<forall>i. topic_payload (ug_hub u') (book_topic i) = (if i \<in> set ids then Some (book_event i u) else topic_payload (ug_hub u) (book_topic i)))"
  unfolding u'_def using assms(1)
proof (induction ids arbitrary: u)
  case (Cons i ids)
  let ?u = "broadcast_book env i u"
  have hub: "ug_hub ?u = hub_publish (ue_arrange env) (book_topic i) (book_event i u) (ug_hub u)" by (simp add: broadcast_book_def book_topic_def)
  have "distinct (map fst (sh_topics (ug_hub ?u)))" using hub_publish_topics(1) [OF Cons.prems assms(2)] hub by simp
  note IH = Cons.IH [OF this]
  have "topic_payload (ug_hub ?u) (book_topic j) = (if j = i then Some (book_event i u) else topic_payload (ug_hub u) (book_topic j))" for j
    using topic_payload_publish [OF Cons.prems assms(2)] hub by (simp add: book_topic_inj)
  then show ?case using IH by auto
qed simp

text \<open>Every book the thread has rebuilt is on the stream as it stands now.\<close>

definition stream_current :: "UiGateway \<Rightarrow> bool" where
  "stream_current u \<longleftrightarrow> distinct (map fst (sh_topics (ug_hub u))) \<and>
     (\<forall>i. find_book i (rp_books (ug_market_data u)) \<noteq> None \<longrightarrow> topic_payload (ug_hub u) (book_topic i) = Some (book_event i u))"

lemma round_applied:
  assumes "carries batch feed" "gapless (ug_validator u) feed" "manager_entries (rp_books (ug_market_data u)) es" "stream_current u"
    and perm: "permutes (ue_arrange env)"
  shows "\<exists>u'. market_data_round env batch u = Some u' \<and> ug_validator u' = after_events (ug_validator u) feed \<and> ug_options u' = ug_options u \<and>
    manager_entries (rp_books (ug_market_data u')) (fold spec_event feed es) \<and> stream_current u'"
proof -
  obtain out where out: "apply_datagrams batch [] u = Some (map instrument_id_of feed, with_market_data (after_events (ug_validator u) feed) out u)"
    "manager_entries (rp_books out) (fold spec_event feed es)"
    "\<forall>j. j \<notin> instrument_id_of ` set feed \<longrightarrow> find_book j (rp_books out) = find_book j (rp_books (ug_market_data u))"
    using datagrams_applied [OF assms(1-3), of "[]"] by auto
  let ?u = "with_market_data (after_events (ug_validator u) feed) out u" and ?is = "remdups_adj (sort (map instrument_id_of feed))"
  have same: "ug_hub ?u = ug_hub u" "ug_options ?u = ug_options u" "ug_market_data ?u = out" "ug_validator ?u = after_events (ug_validator u) feed"
    by (simp_all add: with_market_data_def)
  have d: "distinct (map fst (sh_topics (ug_hub ?u)))" using assms(4) by (simp add: stream_current_def same)
  note B = broadcast_books [OF d perm, of ?is]
  have untouched: "topic_payload (ug_hub ?u) (book_topic i) = Some (book_event i ?u)"
    if i: "i \<notin> set ?is" "find_book i out' \<noteq> None" "out' = rp_books out" for i out'
  proof -
    have "find_book i (rp_books out) = find_book i (rp_books (ug_market_data u))" using out(3) i(1) by simp
    then have "book_event i ?u = book_event i u" "find_book i (rp_books (ug_market_data u)) \<noteq> None"
      using i by (simp_all add: book_event_def book_levels_def same)
    then show ?thesis using assms(4) by (simp add: stream_current_def same(1))
  qed
  have "stream_current (fold (broadcast_book env) ?is ?u)"
    using B untouched same(3) unfolding stream_current_def by metis
  then show ?thesis using B out(1,2) same by (intro exI [of _ "fold (broadcast_book env) ?is ?u"]) (auto simp: market_data_round_def)
qed

lemma gapless_append: "gapless v (xs @ ys) \<longleftrightarrow> gapless v xs \<and> gapless (after_events v xs) ys"
  by (induction v xs rule: gapless.induct) (auto simp: after_events_def split: option.splits)

lemma loop_applied:
  assumes "carries (concat batches) feed" "gapless (ug_validator u) feed" "manager_entries (rp_books (ug_market_data u)) es" "stream_current u"
    and perm: "permutes (ue_arrange env)"
  shows "\<exists>u'. market_data_loop env batches u = Some u' \<and> ug_options u' = ug_options u \<and>
    manager_entries (rp_books (ug_market_data u')) (fold spec_event feed es) \<and> stream_current u'"
  using assms(1-4)
proof (induction batches arbitrary: feed u es)
  case Nil
  then show ?case by (simp add: carries_def)
next
  case (Cons batch batches)
  obtain f1 f2 where f: "feed = f1 @ f2" "carries batch f1" "carries (concat batches) f2"
    using Cons.prems(1) by (auto simp: carries_def list_all2_append1)
  have g: "gapless (ug_validator u) f1" "gapless (after_events (ug_validator u) f1) f2" using Cons.prems(2) f(1) by (simp_all add: gapless_append)
  obtain u1 where u1: "market_data_round env batch u = Some u1" "ug_validator u1 = after_events (ug_validator u) f1" "ug_options u1 = ug_options u"
    "manager_entries (rp_books (ug_market_data u1)) (fold spec_event f1 es)" "stream_current u1"
    using round_applied [OF f(2) g(1) Cons.prems(3,4) perm] by blast
  then show ?case using Cons.IH [OF f(3) _ u1(4,5)] g(2) f(1) by auto
qed

lemma clean_ops_fold: "clean_ops (event_ops feed) es = Some es' \<Longrightarrow> fold spec_event feed es = es'"
  by (induction feed arbitrary: es) (auto simp: spec_event_def split: option.splits prod.splits)

subsection \<open>The dashboard shows the exchange\<close>

definition book_request :: "InstrumentId \<Rightarrow> nat \<Rightarrow> http_request" where
  "book_request i n = \<lparr>rq_matches = [decimal_nat (unat i)], rq_body = '''', rq_depth = decimal_nat n\<rparr>"

definition exchange_levels :: "nat \<Rightarrow> MatchingEngine \<Rightarrow> InstrumentId \<Rightarrow> (string \<times> json) list" where
  "exchange_levels n E i =
     [(''bids'', JArray (map level_to_json (take n (exchange_bids (engine_view E i))))),
      (''asks'', JArray (map level_to_json (take n (exchange_asks (engine_view E i)))))]"

lemma same_levels_json:
  assumes "same_levels E (rp_books (ug_market_data u))"
  shows "book_levels n i u = exchange_levels n E i"
proof -
  have empty: "exchange_bids V = []" "exchange_asks V = []" if "V Buy = []" "V Sell = []" for V
    using that by (simp_all add: exchange_bids_def exchange_asks_def spec_levels_def Let_def)
  show ?thesis using assms unfolding same_levels_def
    by (auto simp: book_levels_def exchange_levels_def empty split: option.splits dest: spec [of _ i])
qed

lemma get_book_response:
  assumes "n < 2 ^ 64"
  shows "handle_get_book (book_request i n) u = json_response (JObject ((''instrument_id'', JUInt (unat i)) # book_levels n i u))"
proof -
  have "unat i < 2 ^ LENGTH(32)" by (rule unsigned_less)
  then have "unat i < 2 ^ 64" by simp
  then have s: "stoull (decimal_nat (unat i)) = Some (ucast i)" using stoull_decimal by (simp add: unsigned_ucast_eq word_unat_eq_iff unat_of_nat take_bit_nat_eq_self)
  have d: "stoull (decimal_nat n) = Some (of_nat n)" using stoull_decimal [OF assms] .
  have "unat (of_nat n :: u64) = n" using assms by (simp add: unat_of_nat take_bit_nat_eq_self)
  moreover have "(ucast (ucast i :: u64) :: InstrumentId) = i" by (intro bit_word_eqI) (simp add: bit_ucast_iff)
  ultimately show ?thesis using s d decimal_nat_nonempty by (simp add: handle_get_book_def book_request_def)
qed

text \<open>
  C29. From the engine to the browser. Run any sequence of at most \<open>kNil\<close> bounded commands with fresh client order ids on a new engine, let the
  trading server's sink turn every event into datagrams, and let the UI gateway receive them in order, cut into batches in any way.
  Then a request for the book of an instrument, to any depth, is answered with exactly the price levels of the exchange's resting orders, and
  for every instrument that has resting orders the latest event on the stream shows the same levels to the configured depth.
\<close>

theorem dashboard_shows_exchange:
  assumes "length cmds \<le> kNil" "\<forall>cmd \<in> set cmds. bounded_command cmd" "distinct (concat (map command_keys cmds))" "permutes (ue_arrange env)"
  shows "\<exists>E evs. run (new_engine universe expected) cmds = Some (E, evs) \<and>
    (\<forall>batches. concat batches = server_datagrams clock evs new_trading_server \<longrightarrow>
      (\<exists>u. market_data_loop env batches (new_ui_gateway options) = Some u \<and>
        (\<forall>i n. n < 2 ^ 64 \<longrightarrow>
          handle_get_book (book_request i n) u = json_response (JObject ((''instrument_id'', JUInt (unat i)) # exchange_levels n E i))) \<and>
        (\<forall>i sd. engine_view E i sd \<noteq> [] \<longrightarrow> topic_payload (ug_hub u) (book_topic i) =
          Some (JObject ([(''type'', JString ''book''), (''instrument_id'', JUInt (unat i))] @ exchange_levels (uo_book_depth options) E i)))))"
proof -
  obtain E evs es where r: "run (new_engine universe expected) cmds = Some (E, evs)" and es: "clean_ops (exchange_ops evs) (\<lambda>_. []) = Some es" "feed_ok E es"
    using run_clean_feed [OF assms(1-3)] by blast
  obtain pub feed where pub: "publish_all clock evs new_publisher = (pub, feed)" by fastforce
  let ?u0 = "new_ui_gateway options"
  have start: "gapless (ug_validator ?u0) feed" "manager_entries (rp_books (ug_market_data ?u0)) (\<lambda>_. [])" "stream_current ?u0"
    using publish_all_gapless(1) [OF pub] gapless_start new_book_manager_entries
    by (auto simp: new_ui_gateway_def new_outcome_def stream_current_def new_hub_def find_book_def new_book_manager_def)
  have ops: "fold spec_event feed (\<lambda>_. []) = es" using clean_ops_fold [of feed] publish_all_ops [OF pub] es(1) by simp
  have shown: "\<exists>u. market_data_loop env batches ?u0 = Some u \<and> ug_options u = options \<and> same_levels E (rp_books (ug_market_data u)) \<and> stream_current u"
    if b: "concat batches = server_datagrams clock evs new_trading_server" for batches
  proof -
    have "carries (concat batches) feed" using server_carries [of clock evs new_trading_server pub feed] pub b by (simp add: new_trading_server_def)
    from loop_applied [OF this start assms(4)] show ?thesis using ops feed_same_levels [OF es(2)] by (auto simp: new_ui_gateway_def)
  qed
  have event: "topic_payload (ug_hub u) (book_topic i) =
      Some (JObject ([(''type'', JString ''book''), (''instrument_id'', JUInt (unat i))] @ exchange_levels (uo_book_depth options) E i))"
    if u: "ug_options u = options" "same_levels E (rp_books (ug_market_data u))" "stream_current u" "engine_view E i sd \<noteq> []" for u i sd
  proof -
    have "find_book i (rp_books (ug_market_data u)) \<noteq> None" using u(2,4) unfolding same_levels_def by (cases sd) (auto dest!: spec [of _ i] split: option.splits)
    then show ?thesis using u same_levels_json [OF u(2)] by (simp add: stream_current_def book_event_def)
  qed
  show ?thesis
  proof (intro exI [of _ E] exI [of _ evs] conjI allI impI r)
    fix batches
    assume "concat batches = server_datagrams clock evs new_trading_server"
    from shown [OF this] obtain u where
      u: "market_data_loop env batches ?u0 = Some u" "ug_options u = options" "same_levels E (rp_books (ug_market_data u))" "stream_current u"
      by blast
    show "\<exists>u. market_data_loop env batches ?u0 = Some u \<and>
        (\<forall>i n. n < 2 ^ 64 \<longrightarrow>
          handle_get_book (book_request i n) u = json_response (JObject ((''instrument_id'', JUInt (unat i)) # exchange_levels n E i))) \<and>
        (\<forall>i sd. engine_view E i sd \<noteq> [] \<longrightarrow> topic_payload (ug_hub u) (book_topic i) =
          Some (JObject ([(''type'', JString ''book''), (''instrument_id'', JUInt (unat i))] @ exchange_levels (uo_book_depth options) E i)))"
      using u(1) event [OF u(2-4)] get_book_response [of _ _ u] same_levels_json [OF u(3)]
      by (intro exI [of _ u]) simp
  qed
qed

subsection \<open>A lost datagram\<close>

lemma carries_append:
  assumes "carries ds (xs @ ys)"
  obtains ds1 ds2 where "ds = ds1 @ ds2" "carries ds1 xs" "carries ds2 ys"
  using assms by (auto simp: carries_def list_all2_append2)

lemma apply_datagrams_append:
  "apply_datagrams (ds1 @ ds2) touched u = Option.bind (apply_datagrams ds1 touched u) (\<lambda>(touched', u'). apply_datagrams ds2 touched' u')"
  by (induction ds1 arbitrary: touched u) (auto split: sum.splits option.splits)

lemma gap_event_dropped:
  assumes "ug_validator u = Some l" "sequence_of ev > l" "sequence_of ev \<noteq> l + 1"
  shows "\<exists>out. apply_datagrams [pack_frames n [ev]] touched u = Some (touched @ [instrument_id_of ev], with_market_data (Some (sequence_of ev)) out u) \<and>
    rp_books out = rp_books (ug_market_data u)"
proof -
  obtain p where p: "unpack_frames (pack_frames n [ev]) = Inr p" "up_frames p = [Inr ev]" using unpack_single by blast
  have "sequence_check (Some l) (sequence_of ev) =
      (Some (sequence_of ev), \<lparr>sc_outcome = Missing, sc_observed = sequence_of ev, sc_expected = l + 1\<rparr>)"
    using assms(2,3) by (auto simp: sequence_check_def dest: order.asym)
  then obtain out where "apply_frame_result Map.empty (Inr ev) (Some l) default_replay_options (ug_market_data u) = Some (True, Some (sequence_of ev), out)"
    "rp_books out = rp_books (ug_market_data u)"
    by (simp add: apply_frame_result_def default_replay_options_def stop_replay_def add_stats_def)
  then show ?thesis using assms(1) p by (intro exI [of _ out]) (simp add: with_market_data_def)
qed

text \<open>
  C28. When a datagram is lost, the event of the next one, which did arrive, is counted as a failure and not applied, and the thread goes on: the
  books are from then on those of the feed without that event too.
\<close>

theorem gap_drops_received_event:
  assumes "carries ds (pre @ [ev] @ post)" "gapless None pre" "pre \<noteq> []" "sequence_of ev > sequence_of (last pre) + 1"
    "sequence_of (last pre) + 1 > sequence_of (last pre)" "gapless (Some (sequence_of ev)) post"
  shows "\<exists>out. apply_datagrams ds [] (new_ui_gateway options) =
      Some (map instrument_id_of (pre @ [ev] @ post), with_market_data (after_events (Some (sequence_of ev)) post) out (new_ui_gateway options)) \<and>
    manager_shows (rp_books out) (fold spec_event (pre @ post) (\<lambda>_. []))"
proof -
  let ?u = "new_ui_gateway options"
  obtain d1 d2 d3 where d: "ds = d1 @ d2 @ d3" "carries d1 pre" "carries d2 [ev]" "carries d3 post"
    using assms(1) by (metis carries_append)
  obtain n where n: "d2 = [pack_frames n [ev]]" using d(3) by (auto simp: carries_def list_all2_Cons2)
  have start: "gapless (ug_validator ?u) pre" "manager_entries (rp_books (ug_market_data ?u)) (\<lambda>_. [])"
    using assms(2) new_book_manager_entries by (simp_all add: new_ui_gateway_def new_outcome_def)
  obtain out1 where 1: "apply_datagrams d1 [] ?u = Some (map instrument_id_of pre, with_market_data (Some (sequence_of (last pre))) out1 ?u)"
    "manager_entries (rp_books out1) (fold spec_event pre (\<lambda>_. []))"
    using datagrams_applied [OF d(2) start, of "[]"] assms(3) by (auto simp: after_events_def)
  let ?u1 = "with_market_data (Some (sequence_of (last pre))) out1 ?u"
  have u1: "ug_validator ?u1 = Some (sequence_of (last pre))" "ug_market_data ?u1 = out1" by (simp_all add: with_market_data_def)
  have lt: "sequence_of ev > sequence_of (last pre)" using assms(4,5) by (rule order.strict_trans [rotated])
  have "sequence_of ev \<noteq> sequence_of (last pre) + 1" using assms(4) by auto
  from gap_event_dropped [OF u1(1) lt this, of n "map instrument_id_of pre"] obtain out2 where
    2: "apply_datagrams d2 (map instrument_id_of pre) ?u1 = Some (map instrument_id_of pre @ [instrument_id_of ev], with_market_data (Some (sequence_of ev)) out2 ?u1)"
      "rp_books out2 = rp_books out1"
    unfolding n u1(2) by blast
  let ?u2 = "with_market_data (Some (sequence_of ev)) out2 ?u1"
  have "gapless (ug_validator ?u2) post" "manager_entries (rp_books (ug_market_data ?u2)) (fold spec_event pre (\<lambda>_. []))"
    using assms(6) 1(2) 2(2) by (simp_all add: with_market_data_def)
  from datagrams_applied [OF d(4) this, of "map instrument_id_of pre @ [instrument_id_of ev]"] obtain out3 where
    3: "apply_datagrams d3 (map instrument_id_of pre @ [instrument_id_of ev]) ?u2 =
        Some ((map instrument_id_of pre @ [instrument_id_of ev]) @ map instrument_id_of post, with_market_data (after_events (ug_validator ?u2) post) out3 ?u2)"
      "manager_entries (rp_books out3) (fold spec_event post (fold spec_event pre (\<lambda>_. [])))"
    by blast
  show ?thesis using 1(1) 2(1) 3 manager_entries_shows [OF 3(2)] d(1)
    by (intro exI [of _ out3]) (simp add: apply_datagrams_append with_market_data_def)
qed

subsection \<open>Requests\<close>

definition session_ok :: "AccountId \<Rightarrow> Session \<Rightarrow> bool" where
  "session_ok a s \<longleftrightarrow> tg_account_id (se_gated s) = a \<and> om_account_id (tg_oms (se_gated s)) = a"

definition ui_ok :: "UiGateway \<Rightarrow> bool" where
  "ui_ok u \<longleftrightarrow> (\<forall>a s. ug_sessions u a = Some s \<longrightarrow> a \<in> set (uo_demo_account_ids (ug_options u)) \<and> session_ok a s)"

lemma deposits_keep [simp]:
  "tg_account_id (tg_deposit_cash c g) = tg_account_id g" "tg_oms (tg_deposit_cash c g) = tg_oms g"
  "tg_account_id (fold (\<lambda>i g. tg_deposit_position i p g) xs g) = tg_account_id g" "tg_oms (fold (\<lambda>i g. tg_deposit_position i p g) xs g) = tg_oms g"
  by (simp add: tg_deposit_cash_def, simp add: tg_deposit_cash_def, induction xs arbitrary: g, simp_all add: tg_deposit_position_def, induction xs arbitrary: g, simp_all add: tg_deposit_position_def)

lemma new_session_ok: "session_ok a (new_session env options a)"
  by (simp add: session_ok_def new_session_def Let_def new_gated_oms_def new_oms_def)

lemma oms_account_kept:
  "om_account_id (fst (submit_new_order sender i sd p q ty tif oms)) = om_account_id oms"
  "om_account_id (fst (cancel_order sender x oms)) = om_account_id oms"
  "om_account_id (fst (replace_order sender x np nq oms)) = om_account_id oms"
  "om_account_id (fst (handle_message message oms)) = om_account_id oms"
  by (auto simp: submit_new_order_def register_new_def mark_send_failed_def edit_order_def Let_def split: option.splits prod.splits)
     (auto simp: cancel_order_def begin_cancel_def clear_pending_action_def edit_order_def split: option.splits,
      auto simp: replace_order_def begin_replace_def abort_replace_def clear_pending_action_def edit_order_def Let_def split: option.splits,
      cases message, auto simp: on_accepted_def on_rejected_def on_cancelled_def on_replaced_def on_trade_report_def edit_order_def Let_def split: option.splits)

lemma gated_account_kept:
  "fst (tg_submit_new_order sender i sd p q ty tif g) = g' \<Longrightarrow> tg_account_id g' = tg_account_id g \<and> om_account_id (tg_oms g') = om_account_id (tg_oms g)"
  "fst (tg_cancel_order sender x g) = g' \<Longrightarrow> tg_account_id g' = tg_account_id g \<and> om_account_id (tg_oms g') = om_account_id (tg_oms g)"
  "fst (tg_replace_order sender x np nq g) = g' \<Longrightarrow> tg_account_id g' = tg_account_id g \<and> om_account_id (tg_oms g') = om_account_id (tg_oms g)"
  "tg_account_id (tg_handle_message message g) = tg_account_id g \<and> om_account_id (tg_oms (tg_handle_message message g)) = om_account_id (tg_oms g)"
  using oms_account_kept(1) [of sender i sd p q ty tif "tg_oms g"] oms_account_kept(2) [of sender x "tg_oms g"]
    oms_account_kept(3) [of sender x np nq "tg_oms g"] oms_account_kept(4) [of message "tg_oms g"]
  by (auto simp: tg_submit_new_order_def tg_cancel_order_def tg_replace_order_def tg_handle_message_def Let_def split: prod.splits if_splits)

lemma broadcast_updates_simps [simp]:
  "ug_options (broadcast_updates env a outs u) = ug_options u" "ug_sessions (broadcast_updates env a outs u) = ug_sessions u"
  "ug_market_data (broadcast_updates env a outs u) = ug_market_data u" "ug_validator (broadcast_updates env a outs u) = ug_validator u"
  by (induction env a outs u rule: broadcast_updates.induct) (simp_all add: broadcast_order_def)

text \<open>What a request may do to the gateway: at most the session of one demo account changes, or is set up.\<close>

definition session_created :: "'j ui_env \<Rightarrow> UiGateway \<Rightarrow> UiGateway \<Rightarrow> bool" where
  "session_created env u u' \<longleftrightarrow> u' = u \<or> (\<exists>a. ug_sessions u a = None \<and> a \<in> set (uo_demo_account_ids (ug_options u)) \<and>
     u' = set_session a (new_session env (ug_options u) a) u)"

definition session_changed :: "UiGateway \<Rightarrow> UiGateway \<Rightarrow> bool" where
  "session_changed u u' \<longleftrightarrow> ug_options u' = ug_options u \<and> ug_market_data u' = ug_market_data u \<and> ug_validator u' = ug_validator u \<and>
     (\<exists>a. \<forall>b. b \<noteq> a \<longrightarrow> ug_sessions u' b = ug_sessions u b)"

lemma find_session:
  assumes "find_or_create_session env a u = Some (u', s)" "ui_ok u"
  shows "session_created env u u' \<and> ug_sessions u' a = Some s \<and> session_ok a s \<and> ui_ok u' \<and>
    (\<forall>b. b \<noteq> a \<longrightarrow> ug_sessions u' b = ug_sessions u b) \<and> ug_options u' = ug_options u \<and> ug_market_data u' = ug_market_data u \<and> ug_validator u' = ug_validator u"
  using assms new_session_ok [of a env "ug_options u"]
  by (auto simp: find_or_create_session_def session_created_def set_session_def ui_ok_def Let_def split: option.splits if_splits)

lemma set_session_ok:
  assumes "ui_ok u" "ug_sessions u a = Some s" "session_ok a s'"
  shows "ui_ok (set_session a s' u)"
  using assms by (auto simp: ui_ok_def set_session_def)

lemma session_created_changed: "session_created env u u' \<Longrightarrow> session_changed u u'"
  by (auto simp: session_created_def session_changed_def set_session_def)

text \<open>A handler that refused, and one that acted on the session of \<open>a\<close>.\<close>

definition request_ok :: "'j ui_env \<Rightarrow> UiGateway \<Rightarrow> UiGateway \<times> http_response \<Rightarrow> bool" where
  "request_ok env u result \<longleftrightarrow> (case result of (u', r) \<Rightarrow> ui_ok u' \<and> session_changed u u' \<and>
     (hr_status r = 200 \<or> hr_status r = 204 \<and> u' = u \<or> (hr_status r = 400 \<and> session_created env u u') \<or> (hr_status r = 404 \<and> u' = u)))"

lemma request_refused: "ui_ok u \<Longrightarrow> request_ok env u (u, bad_request)" "ui_ok u \<Longrightarrow> request_ok env u (u, unknown_account)"
  "ui_ok u \<Longrightarrow> request_ok env u (u, json_response j)"
  by (simp_all add: request_ok_def bad_request_def unknown_account_def send_json_error_def session_changed_def session_created_def json_response_def)

lemma request_on_session:
  assumes "find_or_create_session env a u = Some (u', s)" "ui_ok u"
  shows "hr_status r = 400 \<or> hr_status r = 200 \<Longrightarrow> request_ok env u (u', r)"
    and "session_ok a s' \<Longrightarrow> hr_status r = 200 \<Longrightarrow> request_ok env u (broadcast_updates env a outs (set_session a s' u'), r)"
proof -
  note F = find_session [OF assms]
  show "request_ok env u (u', r)" if "hr_status r = 400 \<or> hr_status r = 200"
    using that F session_created_changed [of env u u'] by (auto simp: request_ok_def)
  have ok: "ui_ok (set_session a s' u')" if "session_ok a s'" using set_session_ok [OF _ _ that, of u' s] F by blast
  have other: "b \<noteq> a \<Longrightarrow> ug_sessions (set_session a s' u') b = ug_sessions u b" for b using F by (simp add: set_session_def)
  show "request_ok env u (broadcast_updates env a outs (set_session a s' u'), r)" if "session_ok a s'" "hr_status r = 200"
    using that ok other F by (auto simp: request_ok_def session_changed_def ui_ok_def set_session_def)
qed

lemma session_ok_gated:
  "session_ok a s \<Longrightarrow> tg_account_id g' = tg_account_id (se_gated s) \<and> om_account_id (tg_oms g') = om_account_id (tg_oms (se_gated s)) \<Longrightarrow>
    session_ok a (s\<lparr>se_gated := g'\<rparr>)"
  by (simp add: session_ok_def)

lemma read_order_error: "read_order env body = Inl r \<Longrightarrow> hr_status r = 400"
  by (auto simp: read_order_def bad_request_def send_json_error_def split: option.splits if_splits)

lemma account_request_ok: "ui_ok u \<Longrightarrow> request_ok env u (handle_get_account env req u)"
  by (auto simp: handle_get_account_def request_refused json_response_def intro!: request_on_session(1) split: option.splits)

lemma submit_request_ok:
  assumes "ui_ok u"
  shows "request_ok env u (handle_submit_order env req u)"
proof -
  have act: "request_ok env u (case read_order env body of
           Inl response \<Rightarrow> (u', response)
         | Inr (sd, tif, i, p, q) \<Rightarrow>
             let sender = ue_sender env a; g = se_gated s;
               (g', outcome) = tg_submit_new_order sender i sd p q Limit tif g;
               u'' = set_session a (s\<lparr>se_gated := g'\<rparr>) u'
             in (broadcast_updates env a (submit_updates sender i sd p q tif g) u'', json_response (outcome_json outcome)))"
    if f: "find_or_create_session env a u = Some (u', s)" for a u' s body
  proof (cases "read_order env body")
    case (Inl r)
    then show ?thesis using request_on_session(1) [OF f assms, of r] read_order_error [OF Inl] by simp
  next
    case (Inr x)
    obtain sd tif i p q where x: "x = (sd, tif, i, p, q)" by (cases x) auto
    have "session_ok a s" using find_session [OF f assms] by blast
    note session_ok_gated [OF this gated_account_kept(1) [OF refl]]
    from request_on_session(2) [OF f assms this] show ?thesis using Inr x
      by (simp add: Let_def case_prod_beta json_response_def)
  qed
  show ?thesis using assms act by (auto simp: handle_submit_order_def request_refused split: option.splits)
qed

lemma cancel_request_ok:
  assumes "ui_ok u"
  shows "request_ok env u (handle_cancel_order env req u)"
proof -
  have act: "request_ok env u (let (g', ok) = tg_cancel_order sender x (se_gated s) in
      (set_session a (s\<lparr>se_gated := g'\<rparr>) u', json_response (JObject [(''ok'', JBool ok)])))"
    if f: "find_or_create_session env a u = Some (u', s)" for a u' s sender x
  proof -
    have "session_ok a s" using find_session [OF f assms] by blast
    note session_ok_gated [OF this gated_account_kept(2) [OF refl]]
    from request_on_session(2) [OF f assms this, where outs = "[]"] show ?thesis by (simp add: case_prod_beta json_response_def)
  qed
  show ?thesis using assms act by (auto simp: handle_cancel_order_def request_refused split: option.splits)
qed

lemma replace_request_ok:
  assumes "ui_ok u"
  shows "request_ok env u (handle_replace_order env req u)"
proof -
  have act: "request_ok env u (let (g', n) = tg_replace_order sender x np nq (se_gated s) in
      (set_session a (s\<lparr>se_gated := g'\<rparr>) u', json_response (j n)))"
    if f: "find_or_create_session env a u = Some (u', s)" for a u' s sender x np nq and j :: "u64 option \<Rightarrow> json"
  proof -
    have "session_ok a s" using find_session [OF f assms] by blast
    note session_ok_gated [OF this gated_account_kept(3) [OF refl]]
    from request_on_session(2) [OF f assms this, where outs = "[]"] show ?thesis by (simp add: case_prod_beta json_response_def)
  qed
  have refuse: "request_ok env u (u', bad_request)" if f: "find_or_create_session env a u = Some (u', s)" for a u' s
    using request_on_session(1) [OF f assms] by (simp add: bad_request_def send_json_error_def)
  show ?thesis using assms act refuse by (auto simp: handle_replace_order_def request_refused split: option.splits)
qed

lemma book_request_ok: "ui_ok u \<Longrightarrow> request_ok env u (u, handle_get_book req u)"
  by (auto simp: handle_get_book_def request_refused Let_def split: option.splits)

lemma request_only_answered: "ui_ok u \<Longrightarrow> hr_status r = 200 \<or> hr_status r = 204 \<Longrightarrow> request_ok env u (u, r)"
  by (auto simp: request_ok_def session_changed_def)

lemma requests_ok: "ui_ok u \<Longrightarrow> request_ok env u (ui_handle env route req u)"
  by (cases route)
    (simp_all add: request_refused account_request_ok submit_request_ok cancel_request_ok replace_request_ok book_request_ok handle_health_def handle_list_accounts_def
      request_only_answered handle_options_def handle_stream_def)

lemma statuses [simp]: "hr_status (json_response j) = 200" "hr_status bad_request = 400" "hr_status unknown_account = 404" "hr_status (send_json_error n e) = n"
  by (simp_all add: json_response_def bad_request_def unknown_account_def send_json_error_def)

text \<open>Only the preflight requests are answered 204.\<close>

lemma no_content_status: "hr_status (snd (ui_handle env route req u)) = 204 \<longleftrightarrow> route = OptionsAny"
proof (cases route)
  case PostOrder
  then show ?thesis
    by (auto simp: handle_submit_order_def Let_def case_prod_beta split: option.splits sum.splits dest: read_order_error)
qed (auto simp: handle_options_def handle_stream_def handle_health_def handle_list_accounts_def handle_get_account_def handle_get_book_def Let_def case_prod_beta
    handle_cancel_order_def handle_replace_order_def split: option.splits)

lemma route_options: "route_of meth path = Some (OptionsAny, ms) \<longleftrightarrow> meth = ''OPTIONS'' \<and> ms = []"
  by (auto simp: route_of_def split: option.splits if_splits)

lemma headers [simp]: "hr_headers (json_response j) = default_headers" "hr_headers (send_json_error n e) = default_headers"
  "hr_headers bad_request = default_headers" "hr_headers unknown_account = default_headers"
  by (simp_all add: json_response_def send_json_error_def bad_request_def unknown_account_def)

lemma read_order_headers: "read_order env body = Inl r \<Longrightarrow> hr_headers r = default_headers"
  by (auto simp: read_order_def split: option.splits if_splits)

lemma response_headers: "(''Access-Control-Allow-Origin'', ''*'') \<in> set (hr_headers (snd (ui_handle env route req u)))"
proof -
  have d: "(''Access-Control-Allow-Origin'', ''*'') \<in> set default_headers" by (simp add: default_headers_def)
  show ?thesis
  proof (cases route)
    case PostOrder
    then show ?thesis using d
      by (auto simp: handle_submit_order_def Let_def case_prod_beta split: option.splits sum.splits dest: read_order_headers)
  qed (use d in \<open>auto simp: handle_options_def handle_stream_def handle_health_def handle_list_accounts_def handle_get_account_def handle_get_book_def Let_def
      case_prod_beta handle_cancel_order_def handle_replace_order_def split: option.splits\<close>)
qed

text \<open>The handlers find the captures they read.\<close>

definition is_number :: "string \<Rightarrow> bool" where
  "is_number n \<longleftrightarrow> n \<noteq> [] \<and> (\<forall>c \<in> set n. is_digit c)"

lemma take_number_Some: "take_number text = Some (n, rest) \<Longrightarrow> is_number n"
  by (auto simp: take_number_def is_number_def dest: set_takeWhileD split: if_splits)

lemma match_number_Some: "match_number pre path = Some ms \<Longrightarrow> \<exists>n. ms = [n] \<and> is_number n"
  by (auto simp: match_number_def bind_eq_Some_conv dest: take_number_Some split: option.splits list.splits)

lemma match_order_action_Some:
  assumes "match_order_action action path = Some ms"
  shows "\<exists>n m. ms = [n, m] \<and> is_number n \<and> is_number m"
proof -
  obtain y a b z m c where "take_number y = Some (a, b)" "take_number z = Some (m, c)" "ms = [a, m]"
    using assms by (auto simp: match_order_action_def bind_eq_Some_conv split: option.splits if_splits)
  then show ?thesis using take_number_Some by blast
qed

lemma route_captures:
  assumes "route_of meth path = Some (route, ms)"
  shows "route \<in> {GetAccount, GetBook} \<Longrightarrow> \<exists>n. ms = [n] \<and> is_number n"
    and "route \<in> {PostCancel, PostReplace} \<Longrightarrow> \<exists>n m. ms = [n, m] \<and> is_number n \<and> is_number m"
  using assms match_number_Some match_order_action_Some unfolding route_of_def by (auto split: option.splits if_splits)

lemma session_message_ok: "ui_ok u \<Longrightarrow> ui_ok (session_message env a message u)"
  using gated_account_kept(4) by (auto simp: session_message_def ui_ok_def set_session_def session_ok_def split: option.splits)

text \<open>
  C34. What a request can do. Every request to one of the gateway's routes is answered 200, 400 or 404, or 204 if and only if its method is \<open>OPTIONS\<close>; all answers
  allow every origin. The gateway keeps sessions only for demo accounts, each trading for its own account, leaves the books alone and changes at most one session. A
  request answered 204 or 404 changes nothing; one answered 400 changes no session there was and publishes nothing: at most it has set up the session of a demo
  account. Opening the event stream changes nothing and starts from cursors to which every topic is new.
\<close>

theorem ui_requests_guarded:
  assumes "ui_ok u" "ui_serve env meth path body query u = Some (u', r)"
  shows "ui_ok u' \<and> session_changed u u' \<and> hr_status r \<in> {200, 204, 400, 404} \<and> (hr_status r = 204 \<longleftrightarrow> meth = ''OPTIONS'') \<and>
    (''Access-Control-Allow-Origin'', ''*'') \<in> set (hr_headers r) \<and>
    (hr_status r \<in> {204, 404} \<longrightarrow> u' = u) \<and>
    (hr_status r = 400 \<longrightarrow> session_created env u u' \<and> ug_hub u' = ug_hub u \<and> (\<forall>a s. ug_sessions u a = Some s \<longrightarrow> ug_sessions u' a = Some s)) \<and>
    (meth = ''GET'' \<and> path = ''/api/stream'' \<longrightarrow> u' = u \<and> hr_content r = EventStream new_cursors)"
proof -
  obtain route ms where h: "route_of meth path = Some (route, ms)" "ui_handle env route \<lparr>rq_matches = ms, rq_body = body, rq_depth = query\<rparr> u = (u', r)"
    using assms(2) by (auto simp: ui_serve_def)
  let ?req = "\<lparr>rq_matches = ms, rq_body = body, rq_depth = query\<rparr>"
  have ok: "request_ok env u (u', r)" using requests_ok [OF assms(1), of env route ?req] h(2) by simp
  have "hr_status r = 204 \<longleftrightarrow> route = OptionsAny" using no_content_status [of env route ?req u] h(2) by simp
  then have "hr_status r = 204 \<longleftrightarrow> meth = ''OPTIONS''" using h(1) route_options [of meth path] by (auto simp: route_of_def)
  moreover have "(''Access-Control-Allow-Origin'', ''*'') \<in> set (hr_headers r)" using response_headers [of env route ?req u] h(2) by simp
  moreover have "session_created env u u' \<Longrightarrow> ug_hub u' = ug_hub u \<and> (\<forall>a s. ug_sessions u a = Some s \<longrightarrow> ug_sessions u' a = Some s)"
    by (auto simp: session_created_def set_session_def)
  moreover have "u' = u \<and> hr_content r = EventStream new_cursors" if "meth = ''GET''" "path = ''/api/stream''"
    using h that by (auto simp: route_of_def handle_stream_def)
  ultimately show ?thesis using ok by (auto simp: request_ok_def)
qed

subsection \<open>Samples\<close>

text \<open>A reader of bodies for the samples: one text is the JSON of an order without a price.\<close>

fun sample_at :: "json \<Rightarrow> string \<Rightarrow> json option" where
  "sample_at (JObject fs) key = map_of fs key"
| "sample_at _ key = None"

definition sample_env :: "json ui_env" where
  "sample_env = \<lparr>
     ue_parse = (\<lambda>text. if text = ''order'' then Some (JObject [(''account_id'', JUInt 1001), (''side'', JString ''Buy''),
       (''instrument_id'', JUInt 1), (''quantity'', JUInt 5)]) else None),
     ue_at = sample_at, ue_contains = (\<lambda>j key. sample_at j key \<noteq> None),
     ue_get_u64 = (\<lambda>j. case j of JUInt n \<Rightarrow> Some (of_nat n) | _ \<Rightarrow> None), ue_get_u32 = (\<lambda>j. case j of JUInt n \<Rightarrow> Some (of_nat n) | _ \<Rightarrow> None),
     ue_get_i64 = (\<lambda>j. case j of JInt n \<Rightarrow> Some (of_int n) | _ \<Rightarrow> None), ue_get_string = (\<lambda>j. case j of JString t \<Rightarrow> Some t | _ \<Rightarrow> None),
     ue_sender = (\<lambda>_ _. True), ue_connect = (\<lambda>_. True), ue_listing = (\<lambda>_. []), ue_arrange = (\<lambda>xs. xs)\<rparr>"

lemma sample_env_permutes: "permutes (ue_arrange sample_env)"
  by (simp add: sample_env_def permutes_def)

theorem ui_requests_guarded_witness:
  "\<exists>u' r. ui_serve sample_env ''POST'' ''/api/orders'' ''order'' '''' (new_ui_gateway default_ui_options) = Some (u', r) \<and> hr_status r = 400 \<and>
    ug_sessions u' 1001 \<noteq> None \<and> ug_hub u' = new_hub"
proof -
  let ?u = "new_ui_gateway default_ui_options" and ?req = "\<lparr>rq_matches = [], rq_body = ''order'', rq_depth = ''''\<rparr>"
  obtain u' r where h: "ui_handle sample_env PostOrder ?req ?u = (u', r)" by fastforce
  have "route_of ''POST'' ''/api/orders'' = Some (PostOrder, [])" by (simp add: route_of_def)
  then have serve: "ui_serve sample_env ''POST'' ''/api/orders'' ''order'' '''' ?u = Some (u', r)" using h by (simp only: ui_serve_def option.map prod.case)
  obtain b where body: "ue_parse sample_env ''order'' = Some b" "body_value sample_env b ''account_id'' (ue_get_u64 sample_env) = Some 1001"
    "read_order sample_env b = Inl bad_request"
    by (simp add: sample_env_def body_value_def read_order_def parse_side_def)
  have "find_or_create_session sample_env 1001 ?u = Some (set_session 1001 (new_session sample_env default_ui_options 1001) ?u, new_session sample_env default_ui_options 1001)"
    by (simp add: find_or_create_session_def new_ui_gateway_def set_session_def Let_def) (simp add: default_ui_options_def)
  then have "u' = set_session 1001 (new_session sample_env default_ui_options 1001) ?u" "hr_status r = 400"
    using h body by (auto simp: handle_submit_order_def)
  moreover have "ui_ok ?u" by (simp add: ui_ok_def new_ui_gateway_def)
  ultimately show ?thesis using ui_requests_guarded [OF _ serve] serve by (auto simp: set_session_def new_ui_gateway_def)
qed

theorem dashboard_shows_exchange_witness:
  "\<exists>E evs u. run (new_engine [7] 4) [NewOrder (sample_new Buy 1 100 10 GTC), NewOrder (sample_new Sell 2 100 5 IOC)] = Some (E, evs) \<and>
    market_data_loop sample_env [server_datagrams (\<lambda>_. 0) evs new_trading_server] (new_ui_gateway default_ui_options) = Some u \<and>
    handle_get_book (book_request 7 5) u = json_response (JObject ((''instrument_id'', JUInt 7) # exchange_levels 5 E 7))"
proof -
  let ?cmds = "[NewOrder (sample_new Buy 1 100 10 GTC), NewOrder (sample_new Sell 2 100 5 IOC)]"
  have c: "length ?cmds \<le> kNil" "\<forall>cmd \<in> set ?cmds. bounded_command cmd" "distinct (concat (map command_keys ?cmds))"
    by (simp_all add: kNil_def)
  from dashboard_shows_exchange [OF c sample_env_permutes, of "[7]" 4 "\<lambda>_. 0" default_ui_options] obtain E evs where
    r: "run (new_engine [7] 4) ?cmds = Some (E, evs)" and
    all: "\<forall>batches. concat batches = server_datagrams (\<lambda>_. 0) evs new_trading_server \<longrightarrow>
      (\<exists>u. market_data_loop sample_env batches (new_ui_gateway default_ui_options) = Some u \<and>
        (\<forall>i n. n < 2 ^ 64 \<longrightarrow> handle_get_book (book_request i n) u = json_response (JObject ((''instrument_id'', JUInt (unat i)) # exchange_levels n E i))))"
    by metis
  obtain u where u: "market_data_loop sample_env [server_datagrams (\<lambda>_. 0) evs new_trading_server] (new_ui_gateway default_ui_options) = Some u"
    "\<forall>i n. n < 2 ^ 64 \<longrightarrow> handle_get_book (book_request i n) u = json_response (JObject ((''instrument_id'', JUInt (unat i)) # exchange_levels n E i))"
    using all [rule_format, of "[server_datagrams (\<lambda>_. 0) evs new_trading_server]"] by auto
  have "handle_get_book (book_request 7 5) u = json_response (JObject ((''instrument_id'', JUInt 7) # exchange_levels 5 E 7))"
    using u(2) [rule_format, of 5 7] by simp
  then show ?thesis using r u(1) by blast
qed

text \<open>Three adds are published, the second datagram is lost: the dashboard does not show the third either.\<close>

definition sample_add :: "Sequence \<Rightarrow> Event" where
  "sample_add n = EvAdd \<lparr>ao_sequence_number = n, ao_timestamp_ns = 0, ao_order_id = n, ao_instrument_id = 1, ao_price = 100, ao_quantity = 5, ao_side = Buy\<rparr>"

theorem gap_drops_received_event_witness:
  "\<exists>out. apply_datagrams [pack_frames 1 [sample_add 1], pack_frames 3 [sample_add 3]] [] (new_ui_gateway default_ui_options) =
      Some ([1, 1], with_market_data (Some 3) out (new_ui_gateway default_ui_options)) \<and>
    manager_shows (rp_books out) (fold spec_event [sample_add 1] (\<lambda>_. []))"
proof -
  have "carries [pack_frames 1 [sample_add 1], pack_frames 3 [sample_add 3]] ([sample_add 1] @ [sample_add 3] @ [])" by (auto simp: carries_def)
  moreover have seq: "sequence_of (sample_add n) = n" "instrument_id_of (sample_add n) = 1" for n
    by (simp_all add: sample_add_def sequence_of_def instrument_id_of_def)
  ultimately show ?thesis
    using gap_drops_received_event [of _ "[sample_add 1]" "sample_add 3" "[]" default_ui_options] by (simp add: after_events_def del: fold_simps apply_datagrams.simps)
qed

end
