(* ===== verification/Spec2Isabelle.thy ===== *)
theory Spec2Isabelle
  imports Risk_Gate Journal_Properties Codec_Properties Feed_Generator Matching_Pipeline Order_Entry_Client Trader_Properties Strategy_Runtime
    Lob_Engine Cpp_Optional Cpp_String Smart_Pointers Thread_Pool Worker_Pool Ui_Properties
begin

text \<open>
  \<^bold>\<open>A verification development for the exchange in \<open>src/mdh\<close>.\<close>

  The program is a small electronic exchange in C++ with its market-data side. Commands (new, cancel,
  replace) arrive as order-entry messages, are numbered and queued, and are processed by one matching
  thread; the matching engine keeps a limit order book per instrument and emits events. Around it stand
  a ledger with pre-trade risk checks, a journal from which the state can be replayed, a publisher that
  turns events into market-data messages, and on the subscriber's side packet transport, books rebuilt
  from the messages, event files, snapshots and a replay engine.

  \<^bold>\<open>Conventions.\<close> Integers have the width of the code: \<open>u8\<close> to \<open>u64\<close> are words that wrap, \<open>Price\<close> and \<open>Balance\<close> are the
  signed 64-bit type \<open>i64\<close> of \<open>Prelude\<close>, a wrapper of \<open>u64\<close> ordered by its signed reading. A struct is
  a record (fields carry a short prefix), an enum or variant a datatype, an error a value of a sum or
  option type. The outer \<open>option\<close> of an operation is \<open>None\<close> exactly where the C++ would be undefined: an index
  outside a vector, a dead iterator, an empty optional; the theorems show it never is. Events passed to a
  sink are returned as a list. \<open>std::map\<close> is a sorted association list (\<open>omap\<close>), an unordered map a partial
  function where its order is never observed.

  \<^bold>\<open>The matching core\<close> (\<open>include/exchange/core\<close>, \<open>include/exchange/matching\<close>, \<open>src/exchange/matching\<close>).
  \<^item> \<open>Exchange_Core\<close>: identifiers, commands, events, resting orders.
  \<^item> \<open>Occupancy_Bitmap\<close>, \<open>Side_Index\<close>: the price index of one side of a book, a tick ladder with a
    three-level occupancy bitmap on 64-bit words and an overflow map outside the band. \<open>Price_Index\<close> is its
    contract as a locale (a finite map from prices to levels with best and next price); \<open>Side_Index\<close>
    interprets it, which makes the bitmap search equivalent to searching a sorted map.
  \<^item> \<open>Matching_Book\<close>: the book of one instrument, a slab of orders with a free list and intrusive queues.
    \<open>Price_Time_Book\<close> states its contract (order lists in price-time priority) and \<open>Book_Laws\<close> proves it.
  \<^item> \<open>Matching_Engine\<close>: registry of instruments, directory of live orders, the handlers \<open>process_new_order\<close>,
    \<open>process_cancel\<close>, \<open>process_replace\<close>, snapshots. \<open>Matching_Spec\<close> is price-time-priority matching on plain lists.
    \<open>Engine_Registry\<close>, \<open>Engine_Laws\<close>, \<open>Engine_Handlers\<close> and \<open>Engine_Determinism\<close> hold the engine invariant and the
    refinement of each handler; \<open>Engine_Properties\<close> states C1 to C4, C6 to C10 and C12, and the contents of snapshots: no undefined behaviour and gapless events
    in every bounded run, refinement of the specification, sorted and uncrossed books, priority and
    conservation of quantity, fill-or-kill, cancel, both kinds of replace, rejections, and a defect
    (a replace onto a live client order id).

  \<^bold>\<open>Money\<close> (\<open>exchange/ledger\<close>, \<open>exchange/risk\<close>). \<open>Ledger\<close>: balances and holds; C13 and C14 show that reserved amounts
  are the sum of the open holds and that trades conserve cash and positions; cancelling undoes accepting.
  \<open>Risk_Gate\<close>: the checks and \<open>RiskGatedEngine\<close>; C16 bounds what a passed order can spend, C17 is the overflow
  of the notional.

  \<^bold>\<open>Bytes\<close> (\<open>common/byte_io.hpp\<close>, \<open>protocol\<close>, \<open>exchange/persistence\<close>). \<open>Byte_IO\<close>: big-endian writers, the bounds-checked
  reader, and the locale \<open>frame_stream\<close> for files of frames. \<open>Market_Data_Protocol\<close>, \<open>Order_Entry_Protocol\<close>,
  \<open>Command_Journal\<close>: the three codecs, the journal, its replay driver and the state hash.
  \<open>Journal_Properties\<close> shows that a journal replays to the run that wrote it (C18) and survives being
  cut anywhere (C19); \<open>Codec_Properties\<close> that both decoders accept exactly what the encoders write (C20) and
  refuse every shortened frame.

  \<^bold>\<open>Threads\<close> (\<open>common/spsc_queue.hpp\<close>, \<open>common/dropping_queue.hpp\<close>, \<open>exchange/sequencing\<close>). \<open>Spsc_Queue\<close>: the ring
  buffer as functions and as the interleaved accesses of its two threads (an inductive reachability
  predicate), the contract \<open>bounded_fifo\<close> and its interpretations; C23. \<open>Matching_Pipeline\<close>: the
  sequencer, \<open>submit\<close>, the matching thread and the stop request interleaved over that queue, proved
  through \<open>bounded_fifo\<close>; commands are processed in the order accepted (C36), a stop drains the queue (C37),
  except in one window (C38).

  \<^bold>\<open>Market data\<close> (\<open>net/packet\<close>, \<open>common/sequence_validator\<close>, \<open>book\<close>, \<open>replay\<close>, \<open>exchange/market_data\<close>).
  \<open>Packet_Transport\<close>: datagrams, whose reader accepts exactly what the writer makes, and the sequence tracker. \<open>Subscriber_Book\<close>: the subscriber's books,
  whose contract is the locale \<open>resting_book\<close>; C30. \<open>Market_Data_Replay\<close>: event files, snapshots
  and the replay engine; C31, the round trip of snapshots and the recovery from a gap. \<open>Market_Data_Feed\<close>: the publisher, and the composition of everything
  from the engine to a subscriber: after any run the subscriber's price levels are the exchange's (C35).
  \<open>Feed_Generator\<close>: the program that writes event files for tests, with its random source as an argument; every file replays without a single failure (C25), except that \<open>2 ^ 32 - 1\<close> instruments wrap the length of its price vector.

  \<^bold>\<open>The gateway\<close> (\<open>exchange/gateway\<close>). \<open>Order_Gateway\<close>: the translations between messages, commands and events.
  \<open>Gateway_Sessions\<close>: connections, the reader and writer thread of each, binding, claiming, routing and retaining,
  as actions that interleave freely; a \<open>Connection*\<close> is a position in the vector that owns them. \<open>Gateway_Streams\<close>: what a
  reader makes of its byte stream does not depend on the other threads. \<open>Gateway_Properties\<close>: sessions are well formed and private
  (C5), a session does exactly what its stream says (C22), a retained report can be overtaken by a live
  one, and an unknown type byte silences a session for good. \<open>Order_Entry_Client\<close>: the trader's end of a connection; messages
  arrive whole and in order both ways (C15).

  \<^bold>\<open>The trader's side\<close> (\<open>trader\<close>). \<open>Trader_Oms\<close>: the order management system, block by block as its mutex divides it, the position
  tracker, the trader's risk check and their composition. \<open>Trader_Strategies\<close>: market maker and arbitrage; \<open>Strategy_Runtime\<close>: what calls them.
  \<open>Trader_Properties\<close>: the tracker follows the exchange's ledger (C26), the requests keep the discipline the
  engine relies on (C39), and a refused replace strands the order the strategy then waits for (C40).

  \<^bold>\<open>The dashboard\<close> (\<open>ui_gateway\<close>, and the wiring of \<open>apps/trading_server\<close>). \<open>Ui_Hub\<close>: the hub of the event stream; a quiet hub delivers the latest of
  every topic, a busy topic can starve the others. \<open>Ui_Gateway\<close>: sessions, the REST handlers and the market-data thread over the
  trader's order management, the packet transport and the replay engine, with HTTP, JSON and sockets as arguments. \<open>Ui_Properties\<close>: from
  the engine's events through the server's datagrams to the browser, the dashboard shows the exchange's price levels (C29); what a
  request can change (C34); and a lost datagram also costs the event of the next one (C28).

  \<^bold>\<open>The stand-alone book\<close> (\<open>src/LimitOrderBook\<close>), an earlier and separate program. \<open>Lob_Book\<close>: price levels with their iterator
  maps, the matching loop and the book; \<open>Lob_Properties\<close>: it refines price-time matching on two lists as long as no order
  is filled in part on arrival (C24), for such an order rests with its whole quantity (C32). \<open>Lob_Engine\<close>: its command queue, a further interpretation of \<open>bounded_fifo\<close>, and the
  engine, whose published prices are those of the book.

  \<^bold>\<open>The work-stealing pool\<close> (\<open>src/ChaseLevThreadPool\<close>), a separate library, and its predecessor. \<open>Work_Deque\<close>: the bounded Chase-Lev deque, one action per atomic
  access; it implements a sequence pushed and popped at one end and stolen from at the other (C33). \<open>Global_Queue\<close>: the queue \<open>submit\<close> feeds,
  simulated by the deque. \<open>Worker_Pool\<close>: the worker loops, \<open>submit\<close> and the destructor over them; every task runs exactly once (C11).
  \<open>Thread_Pool\<close>: the older pool of \<open>src/ThreadPool\<close>, with a mutex, condition variables, priorities and cancellation; it loses no task and no wake-up (C21).

  \<^bold>\<open>The containers\<close>, exercises beside the exchange. \<open>Cpp_Vector\<close>: \<open>src/vector.cpp\<close> over an explicit heap in which storage is allocated and freed and objects
  live and die; the vector implements a list with a capacity, without leak or double free (C27), as long as no request reaches \<open>2 ^ 64\<close> bytes and a
  full vector is not given a reference to its own element.
  \<open>Cpp_Optional\<close>: \<open>src/optional.cpp\<close> implements an option, with exceptions. \<open>Cpp_String\<close>: \<open>src/string.cpp\<close> implements a list of characters. \<open>Smart_Pointers\<close>: programs with \<open>SharedPtr\<close> and \<open>UniquePtr\<close> use and delete nothing after its death, and an object
  lives exactly as long as a pointer owns it.

  \<^bold>\<open>Bounds and loops.\<close> Loops over data are structural recursion. The matching loop, the ladder walks and the
  file readers are functions with a termination proof or with fuel that the theorems show to be enough; a loop that may
  run forever (\<open>next_power_of_two\<close>) is a \<open>partial_function\<close>. Runs are limited to \<open>kNil\<close> commands, the number of slab slots a 32-bit
  index can name, with prices and quantities bounded so that the sums of the code do not wrap (\<open>bounded_command\<close>),
  and client order ids are not reused, since reuse meets the defect of C12.

  \<^bold>\<open>Not modelled.\<close> Sockets, the command-line programs, benchmarks and
  the test harness: operating-system calls, printing and wiring. Weak memory: the threads' accesses are sequentially consistent. Wall-clock
  times. Allocation in the exchange: memory is unbounded, \<open>reserve\<close> has no effect there. The side projects next to \<open>src/mdh\<close>
  not named above (type-erased holders, a tuple), which the exchange does not use.
\<close>

end
